(* ===== verification/Prelude.thy ===== *)
theory Prelude
  imports Main "HOL-Library.Word"
begin

text \<open>
  Shared vocabulary of the development: the names of the machine types, Rust's \<open>Result\<close>,
  \<open>Poll\<close> and \<open>io::Error\<close> as values, byte strings and their relation to text, the
  little-endian view of \<open>u64\<close>, and the list facts every component uses.

  A Rust \<open>&[u8]\<close> is a list of 8-bit words, a Rust \<open>str\<close> is its UTF-8 encoding as a
  \<open>string\<close> (one \<open>char\<close> of Isabelle is one byte), an \<open>Err\<close> is an \<open>Inl\<close>, an \<open>Ok\<close> an
  \<open>Inr\<close>, and a panic is a \<open>None\<close> where a function can panic.
\<close>

unbundle bit_operations_syntax

section \<open>Collections of facts\<close>

named_theorems wire_simps \<open>equations of the wire encoding\<close>
named_theorems token_simps \<open>facts on the constant tokens of the NAR format\<close>
named_theorems parse_simps \<open>equations of the text parsers and printers\<close>

section \<open>Machine types, errors and polls\<close>

type_synonym u8 = "8 word"
type_synonym u32 = "32 word"
type_synonym u64 = "64 word"
type_synonym bytes = "u8 list"

datatype io_kind = UnexpectedEof | InvalidData | WriteZero | BrokenPipe | OtherKind

datatype io_error = IoError io_kind string

type_synonym 'a io_result = "io_error + 'a"

datatype 'a poll = Pending | Ready 'a

primrec result_map :: "('a \<Rightarrow> 'b) \<Rightarrow> 'e + 'a \<Rightarrow> 'e + 'b" where
  "result_map f (Inl e) = Inl e"
| "result_map f (Inr x) = Inr (f x)"

primrec result_bind :: "'e + 'a \<Rightarrow> ('a \<Rightarrow> 'e + 'b) \<Rightarrow> 'e + 'b" where
  "result_bind (Inl e) f = Inl e"
| "result_bind (Inr x) f = f x"

primrec result_map_err :: "('e \<Rightarrow> 'f) \<Rightarrow> 'e + 'a \<Rightarrow> 'f + 'a" where
  "result_map_err f (Inl e) = Inl (f e)"
| "result_map_err f (Inr x) = Inr x"

lemma result_map_eq_Inr [simp]: "result_map f r = Inr y \<longleftrightarrow> (\<exists>x. r = Inr x \<and> y = f x)"
  by (cases r) auto

lemma result_map_eq_Inl [simp]: "result_map f r = Inl e \<longleftrightarrow> r = Inl e"
  by (cases r) auto

lemma result_bind_eq_Inr [simp]:
  "result_bind r f = Inr y \<longleftrightarrow> (\<exists>x. r = Inr x \<and> f x = Inr y)"
  by (cases r) auto

lemma result_bind_eq_Inl:
  "result_bind r f = Inl e \<longleftrightarrow> r = Inl e \<or> (\<exists>x. r = Inr x \<and> f x = Inl e)"
  by (cases r) auto

lemma result_map_err_eq_Inr [simp]: "result_map_err f r = Inr y \<longleftrightarrow> r = Inr y"
  by (cases r) auto

lemma result_map_err_eq_Inl [simp]:
  "result_map_err f r = Inl e \<longleftrightarrow> (\<exists>e0. r = Inl e0 \<and> e = f e0)"
  by (cases r) auto

section \<open>Text and bytes\<close>

definition byte_of_char :: "char \<Rightarrow> u8" where
  "byte_of_char c = of_char c"

definition char_of_byte :: "u8 \<Rightarrow> char" where
  "char_of_byte b = char_of (unat b)"

definition as_bytes :: "string \<Rightarrow> bytes" where
  "as_bytes s = map byte_of_char s"

definition from_utf8_unchecked :: "bytes \<Rightarrow> string" where
  "from_utf8_unchecked bs = map char_of_byte bs"

lemma byte_of_char_nat: "byte_of_char c = word_of_nat (of_char c)"
  by (simp add: byte_of_char_def of_nat_of_char)

lemma unat_byte_of_char: "unat (byte_of_char c) = of_char c"
  using nat_of_char_less_256 [of c] by (simp add: byte_of_char_nat unat_of_nat)

lemma char_of_byte_of_char [simp]: "char_of_byte (byte_of_char c) = c"
  by (simp add: char_of_byte_def unat_byte_of_char)

lemma byte_of_char_of_byte [simp]: "byte_of_char (char_of_byte b) = b"
proof -
  have "unat b < 256" using unsigned_less [of b, where ?'a = nat] by simp
  then show ?thesis by (simp add: byte_of_char_nat char_of_byte_def)
qed

lemma inj_byte_of_char [simp]: "byte_of_char c = byte_of_char d \<longleftrightarrow> c = d"
  by (metis char_of_byte_of_char)

lemma as_bytes_simps [simp]:
  "as_bytes [] = []"
  "as_bytes (c # s) = byte_of_char c # as_bytes s"
  "as_bytes (s @ t) = as_bytes s @ as_bytes t"
  by (simp_all add: as_bytes_def)

lemma length_as_bytes [simp]: "length (as_bytes s) = length s"
  by (simp add: as_bytes_def)

lemma as_bytes_inj [simp]: "as_bytes s = as_bytes t \<longleftrightarrow> s = t"
  by (simp add: as_bytes_def inj_map_eq_map inj_def)

lemma as_bytes_take: "as_bytes (take n s) = take n (as_bytes s)"
  by (simp add: as_bytes_def take_map)

lemma as_bytes_drop: "as_bytes (drop n s) = drop n (as_bytes s)"
  by (simp add: as_bytes_def drop_map)

lemma from_utf8_simps [simp]:
  "from_utf8_unchecked [] = []"
  "from_utf8_unchecked (b # bs) = char_of_byte b # from_utf8_unchecked bs"
  "from_utf8_unchecked (bs @ cs) = from_utf8_unchecked bs @ from_utf8_unchecked cs"
  "length (from_utf8_unchecked bs) = length bs"
  by (simp_all add: from_utf8_unchecked_def)

lemma from_utf8_as_bytes [simp]: "from_utf8_unchecked (as_bytes s) = s"
  by (induction s) auto

lemma as_bytes_from_utf8 [simp]: "as_bytes (from_utf8_unchecked bs) = bs"
  by (induction bs) auto

section \<open>Little-endian integers\<close>

text \<open>\<open>u64::to_le_bytes\<close>, \<open>u64::from_le_bytes\<close> and the \<open>BufMut::put_u64_le\<close> built on them.\<close>

primrec le_bytes :: "nat \<Rightarrow> u64 \<Rightarrow> bytes" where
  "le_bytes 0 w = []"
| "le_bytes (Suc n) w = ucast w # le_bytes n (w div 256)"

definition to_le_bytes :: "u64 \<Rightarrow> bytes" where
  "to_le_bytes w = le_bytes 8 w"

primrec from_le_bytes :: "bytes \<Rightarrow> u64" where
  "from_le_bytes [] = 0"
| "from_le_bytes (b # bs) = ucast b + 256 * from_le_bytes bs"

lemma length_le_bytes [simp]: "length (le_bytes n w) = n"
  by (induction n arbitrary: w) auto

lemma length_to_le_bytes [simp]: "length (to_le_bytes w) = 8"
  by (simp add: to_le_bytes_def)

lemma unat_ucast_u64_u8: "unat (ucast (w :: u64) :: u8) = unat w mod 256"
  by (simp add: unsigned_ucast_eq take_bit_eq_mod)

lemma unat_ucast_u8_u64: "unat (ucast (b :: u8) :: u64) = unat b"
  using unsigned_less [of b, where ?'a = nat]
  by (simp add: unsigned_ucast_eq take_bit_eq_mod)

lemma unat_u8_less [simp]: "unat (b :: u8) < 256"
  using unsigned_less [of b, where ?'a = nat] by simp

lemma unat_from_le_bytes:
  "length bs \<le> 8 \<Longrightarrow> unat (from_le_bytes bs) = horner_sum unat 256 bs \<and> horner_sum unat 256 bs < 256 ^ length bs"
proof (induction bs)
  case Nil
  then show ?case by simp
next
  case (Cons b bs)
  then have IH: "unat (from_le_bytes bs) = horner_sum unat 256 bs"
    "horner_sum unat 256 bs < 256 ^ length bs" by auto
  have b: "unat b < 256" by simp
  have bound: "unat b + 256 * horner_sum unat 256 bs < 256 ^ Suc (length bs)"
  proof -
    have "unat b + 256 * horner_sum unat 256 bs < 256 * Suc (horner_sum unat 256 bs)"
      using b by simp
    also have "\<dots> \<le> 256 * 256 ^ length bs"
      using IH(2) by (intro mult_le_mono) auto
    finally show ?thesis by simp
  qed
  have "(256::nat) ^ Suc (length bs) \<le> 256 ^ 8"
    using Cons.prems by (intro power_increasing) auto
  with bound have lt: "unat b + 256 * horner_sum unat 256 bs < 2 ^ 64" by simp
  have "unat (256 * from_le_bytes bs) = 256 * horner_sum unat 256 bs"
    using lt IH(1) by (simp add: unat_word_ariths)
  with lt have "unat (from_le_bytes (b # bs)) = unat b + 256 * horner_sum unat 256 bs"
    by (simp add: unat_word_ariths unat_ucast_u8_u64)
  with bound show ?case by simp
qed

lemma horner_le_bytes: "horner_sum unat 256 (le_bytes n w) = unat w mod 256 ^ n"
proof (induction n arbitrary: w)
  case 0
  then show ?case by simp
next
  case (Suc n)
  have "unat (w div 256) = unat w div 256" by (simp add: unat_div)
  then show ?case
    by (simp add: Suc unat_ucast_u64_u8 mod_mult2_eq)
qed

lemma from_to_le_bytes [simp, wire_simps]: "from_le_bytes (to_le_bytes w) = w"
proof -
  have "unat (from_le_bytes (to_le_bytes w)) = unat w mod 256 ^ 8"
    using unat_from_le_bytes [of "to_le_bytes w"]
    by (simp add: to_le_bytes_def horner_le_bytes)
  also have "\<dots> = unat w" using unsigned_less [of w, where ?'a = nat] by simp
  finally show ?thesis by (simp only: word_unat_eq_iff)
qed

lemma le_bytes_from_le_bytes:
  "length bs \<le> 8 \<Longrightarrow> le_bytes (length bs) (from_le_bytes bs) = bs"
proof (induction bs)
  case Nil
  then show ?case by simp
next
  case (Cons b bs)
  then have IH: "le_bytes (length bs) (from_le_bytes bs) = bs" by simp
  have u: "unat (from_le_bytes (b # bs)) = unat b + 256 * unat (from_le_bytes bs)"
    using unat_from_le_bytes [of "b # bs"] unat_from_le_bytes [of bs] Cons.prems by simp
  have "unat (from_le_bytes (b # bs) div 256) = unat (from_le_bytes bs)"
    by (simp only: unat_div u) simp
  then have "from_le_bytes (b # bs) div 256 = from_le_bytes bs" by (simp only: word_unat_eq_iff)
  moreover have "unat (ucast (from_le_bytes (b # bs)) :: u8) = unat b"
    by (simp only: unat_ucast_u64_u8 u) simp
  then have "(ucast (from_le_bytes (b # bs)) :: u8) = b" by (simp only: word_unat_eq_iff)
  ultimately show ?case
    by (simp only: length_Cons le_bytes.simps IH)
qed

lemma to_from_le_bytes [wire_simps]: "length bs = 8 \<Longrightarrow> to_le_bytes (from_le_bytes bs) = bs"
  using le_bytes_from_le_bytes [of bs] by (simp add: to_le_bytes_def)

lemma to_le_bytes_inj [simp]: "to_le_bytes v = to_le_bytes w \<longleftrightarrow> v = w"
  by (metis from_to_le_bytes)

section \<open>Lists\<close>

lemma take_append_exact [simp]: "length xs = n \<Longrightarrow> take n (xs @ ys) = xs"
  by simp

lemma drop_append_exact [simp]: "length xs = n \<Longrightarrow> drop n (xs @ ys) = ys"
  by simp

section \<open>Decimal numbers\<close>

text \<open>The \<open>Display\<close> of an unsigned integer, and the digits back.\<close>

definition digit_char :: "nat \<Rightarrow> char" where
  "digit_char d = char_of (48 + d)"

definition char_digit :: "char \<Rightarrow> nat option" where
  "char_digit c = (let n = of_char c in if 48 \<le> n \<and> n \<le> 57 then Some (n - 48) else None)"

fun show_nat :: "nat \<Rightarrow> string" where
  "show_nat n = (if n < 10 then [digit_char n] else show_nat (n div 10) @ [digit_char (n mod 10)])"

declare show_nat.simps [simp del]

fun parse_digits :: "nat \<Rightarrow> string \<Rightarrow> nat option" where
  "parse_digits acc [] = Some acc"
| "parse_digits acc (c # s) =
     (case char_digit c of None \<Rightarrow> None | Some d \<Rightarrow> parse_digits (acc * 10 + d) s)"

definition parse_nat :: "string \<Rightarrow> nat option" where
  "parse_nat s = (if s = [] then None else parse_digits 0 s)"

lemma char_digit_digit_char [simp]: "d < 10 \<Longrightarrow> char_digit (digit_char d) = Some d"
  by (simp add: char_digit_def digit_char_def)

lemma parse_digits_append:
  "parse_digits acc (s @ t) = (case parse_digits acc s of None \<Rightarrow> None | Some a \<Rightarrow> parse_digits a t)"
  by (induction acc s rule: parse_digits.induct) (auto split: option.splits)

lemma parse_digits_show_nat [simp]: "parse_digits 0 (show_nat n) = Some n"
proof (induction n rule: show_nat.induct)
  case (1 n)
  then show ?case
    by (cases "n < 10") (simp_all add: show_nat.simps [of n] parse_digits_append)
qed

lemma show_nat_not_Nil [simp]: "show_nat n \<noteq> []"
  by (simp add: show_nat.simps [of n])

lemma parse_nat_show_nat [simp, parse_simps]: "parse_nat (show_nat n) = Some n"
  by (simp add: parse_nat_def)

lemma show_nat_inj [simp]: "show_nat m = show_nat n \<longleftrightarrow> m = n"
  by (metis option.inject parse_nat_show_nat)

lemma show_nat_digits: "c \<in> set (show_nat n) \<Longrightarrow> \<exists>d < 10. c = digit_char d"
proof (induction n rule: show_nat.induct)
  case (1 n)
  show ?case
  proof (cases "n < 10")
    case True
    with 1(2) show ?thesis by (auto simp: show_nat.simps [of n])
  next
    case False
    with 1 show ?thesis by (auto simp: show_nat.simps [of n] intro: exI [of _ "n mod 10"])
  qed
qed

end
