(* ===== verification/Wire.thy ===== *)
theory Wire
  imports Prelude
begin

text \<open>
  The wire conventions shared by the NAR format and the daemon protocol
  (\<open>harmonia-utils-io/src/lib.rs\<close>, module \<open>wire\<close>, and \<open>put_nix_slice\<close> of
  \<open>harmonia-nar/src/archive/writer.rs\<close>): 64-bit little-endian lengths and zero padding to a
  multiple of eight, computed with wrapping arithmetic.
\<close>

definition ZEROS :: bytes where
  "ZEROS = replicate 8 0"

definition calc_aligned :: "u64 \<Rightarrow> u64" where
  "calc_aligned len = (len + 7) AND NOT 7"

definition calc_padding :: "u64 \<Rightarrow> nat" where
  "calc_padding len = (let aligned = calc_aligned len in unat (aligned - len))"

text \<open>A length-prefixed, zero-padded byte string; the length is \<open>src.len() as u64\<close>.\<close>

definition put_nix_slice :: "bytes \<Rightarrow> bytes \<Rightarrow> bytes" where
  "put_nix_slice buf src =
     buf @ to_le_bytes (word_of_nat (length src)) @ src
         @ replicate (calc_padding (word_of_nat (length src))) 0"

abbreviation nix_slice :: "bytes \<Rightarrow> bytes" where
  "nix_slice src \<equiv> put_nix_slice [] src"

section \<open>Alignment\<close>

lemma and_not_7: "unat (w AND - 8 :: u64) = unat w div 8 * 8"
proof -
  have m: "(- 8 :: u64) = NOT (mask 3)" by (simp add: mask_eq_exp_minus_1)
  have "w AND - 8 = push_bit 3 (drop_bit 3 w)"
    unfolding m by (rule bit_eqI) (auto simp: bit_simps)
  moreover have "unat (push_bit 3 (drop_bit 3 w)) = unat w div 8 * 8"
  proof -
    have d: "unat (drop_bit 3 w) = unat w div 8"
      by (simp add: drop_bit_eq_div unat_div)
    have "unat w < 2 ^ 64" using unsigned_less [of w, where ?'a = nat] by simp
    then have "unat w div 8 * 8 < 2 ^ 64" by simp
    then show ?thesis
      by (simp add: push_bit_eq_mult unat_word_ariths d mult.commute)
  qed
  ultimately show ?thesis by simp
qed

lemma unat_u64_less: "unat (w :: u64) < 2 ^ 64"
  using unsigned_less [of w, where ?'a = nat] by simp

lemma unat_calc_aligned:
  "unat (calc_aligned len) =
     (if unat len + 7 < 2 ^ 64 then (unat len + 7) div 8 * 8 else 0)"
proof (cases "unat len + 7 < 2 ^ 64")
  case True
  then have "unat (len + 7) = unat len + 7" by (simp add: unat_word_ariths)
  with True show ?thesis by (simp add: calc_aligned_def and_not_7)
next
  case False
  have "unat (len + 7) = unat len + 7 - 2 ^ 64"
    using False unat_u64_less [of len] by (simp add: unat_word_ariths mod_if)
  also have "\<dots> < 8" using unat_u64_less [of len] by simp
  finally have "unat (len + 7) div 8 = 0" by simp
  with False show ?thesis by (simp add: calc_aligned_def and_not_7)
qed

lemma neg_mod_8: "r < 8 \<Longrightarrow> (8 - r) mod 8 = (if r = 0 then 0 else 8 - r :: nat)"
  by auto

lemma align_arith: "(n + 7) div 8 * 8 = n + (8 - n mod 8) mod (8 :: nat)"
proof -
  define q r where "q = n div 8" and "r = n mod 8"
  have n: "n = 8 * q + r" and r: "r < 8" by (simp_all add: q_def r_def)
  have "(n + 7) div 8 = q + (r + 7) div 8" unfolding n by simp
  also have "(r + 7) div 8 = (if r = 0 then 0 else 1)" using r by auto
  finally show ?thesis
    unfolding r_def [symmetric] using r n by (simp add: neg_mod_8)
qed

lemma wrap_arith:
  assumes "n < 8 * k" "8 * k \<le> n + 7"
  shows "8 * k - n = (8 - n mod 8) mod (8 :: nat)"
proof -
  have "(n + 7) div 8 * 8 = 8 * k"
  proof -
    have "(n + 7) div 8 = k"
      using assms by (intro div_nat_eqI) auto
    then show ?thesis by simp
  qed
  then show ?thesis unfolding align_arith by simp
qed

lemma calc_padding_eq: "calc_padding len = (8 - unat len mod 8) mod 8"
proof (cases "unat len + 7 < 2 ^ 64")
  case True
  then have a: "unat (calc_aligned len) = (unat len + 7) div 8 * 8"
    by (simp add: unat_calc_aligned)
  then have "unat (calc_aligned len - len) = unat (calc_aligned len) - unat len"
    by (intro unat_sub) (simp only: word_le_nat_alt a align_arith le_add1)
  then show ?thesis by (simp only: calc_padding_def Let_def a align_arith add_diff_cancel_left')
next
  case False
  note lt = unat_u64_less [of len]
  from False have "unat (calc_aligned len) = 0"
    by (simp only: unat_calc_aligned if_False)
  then have "calc_padding len = unat (- len)" by (simp add: calc_padding_def unat_eq_0)
  also have "\<dots> = 2 ^ 64 - unat len"
  proof -
    from False have "len \<noteq> 0" by auto
    then have "\<not> unat len \<le> unat (0 :: u64)" by (simp add: unat_eq_0)
    then have "unat (0 - len) = unat (0 :: u64) + 2 ^ LENGTH(64) - unat len"
      by (simp only: unat_sub_if' if_False)
    then show ?thesis by simp
  qed
  also have "\<dots> = (8 - unat len mod 8) mod 8"
    using wrap_arith [of "unat len" "2 ^ 61"] False lt by simp
  finally show ?thesis .
qed

lemma calc_padding_less: "calc_padding len < 8"
  by (simp add: calc_padding_eq)

lemma aligned_dvd: "8 dvd (unat len + calc_padding len)"
  unfolding calc_padding_eq align_arith [symmetric] by simp

lemma length_put_nix_slice:
  "length (put_nix_slice buf src) =
     length buf + 8 + length src + calc_padding (word_of_nat (length src))"
  by (simp add: put_nix_slice_def)

lemma put_nix_slice_append: "put_nix_slice buf src = buf @ nix_slice src"
  by (simp add: put_nix_slice_def)

end
