(* ===== verification/Async_Io.thy ===== *)
theory Async_Io
  imports Wire "HOL-Library.Sublist"
begin

text \<open>
  Asynchronous byte sources and sinks. A poll takes the source and returns its next state with
  \<open>Pending\<close>, an error or data; \<open>None\<close> stands for a call that does not return (a panic, or a loop
  without end).

  The traits \<open>AsyncRead\<close> of tokio and \<open>AsyncBytesRead\<close> of
  \<open>harmonia-utils-io/src/async_bytes_read.rs\<close> are contracts: \<open>async_read\<close> and \<open>bytes_read\<close> state
  them over a ghost \<open>rest\<close>, the bytes that are still to come, and \<open>async_write\<close> states the
  contract of tokio's \<open>AsyncWrite\<close> over a ghost \<open>written\<close>. The readers of this development are proved
  against these contracts only. The file also has the two futures \<open>TryReadU64\<close> and
  \<open>TryReadBytesLimited\<close> on which the protocol's deserialiser rests.
\<close>

section \<open>Contracts\<close>

type_synonym ('r, 'a) polled = "('r \<times> 'a io_result poll) option"

text \<open>\<open>poll_read\<close> takes the free space of the caller's buffer and returns what it put there. Each
  contract relates a result to the bytes that were to come before the call and after it. Nothing
  is promised of a source that has returned an error.\<close>

definition is_err :: "'a io_result poll \<Rightarrow> bool" where
  "is_err res \<longleftrightarrow> (\<exists>e. res = Ready (Inl e))"

lemma is_err_simps [simp]:
  "\<not> is_err Pending" "is_err (Ready (Inl e))" "\<not> is_err (Ready (Inr x))"
  by (simp_all add: is_err_def)

fun read_post :: "(io_error \<Rightarrow> bool) \<Rightarrow> nat \<Rightarrow> bytes \<Rightarrow> bytes \<Rightarrow> bytes io_result poll \<Rightarrow> bool" where
  "read_post src_err cap rest rest' Pending \<longleftrightarrow> rest' = rest"
| "read_post src_err cap rest rest' (Ready (Inl e)) \<longleftrightarrow> rest' = rest \<and> src_err e"
| "read_post src_err cap rest rest' (Ready (Inr b)) \<longleftrightarrow>
     length b \<le> cap \<and> rest = b @ rest' \<and> (b = [] \<longrightarrow> cap = 0 \<or> rest = [])"

locale async_read =
  fixes read :: "'r \<Rightarrow> nat \<Rightarrow> ('r, bytes) polled"
    and rest :: "'r \<Rightarrow> bytes"
    and good :: "'r \<Rightarrow> bool"
    and src_err :: "io_error \<Rightarrow> bool"
  assumes read_law: "good r \<Longrightarrow>
    \<exists>r' res. read r cap = Some (r', res) \<and> (is_err res \<or> good r') \<and> read_post src_err cap (rest r) (rest r') res"

text \<open>\<open>AsyncBufRead\<close>: \<open>avail\<close> is what the source has buffered, and the argument of \<open>consume\<close> is
  bounded by it. A \<open>fill_source\<close> lets \<open>consume\<close> be called only while something is buffered, which is
  all that \<open>FramedReader\<close> of the protocol allows; a \<open>buf_source\<close> also takes a \<open>consume\<close> of nothing.\<close>

fun fill_post :: "(io_error \<Rightarrow> bool) \<Rightarrow> bytes \<Rightarrow> bytes \<Rightarrow> bytes io_result poll \<Rightarrow> bool" where
  "fill_post src_err rest avail' Pending \<longleftrightarrow> True"
| "fill_post src_err rest avail' (Ready (Inl e)) \<longleftrightarrow> src_err e"
| "fill_post src_err rest avail' (Ready (Inr b)) \<longleftrightarrow> b = avail' \<and> (b = [] \<longrightarrow> rest = [])"

fun got :: "bytes io_result poll \<Rightarrow> bytes" where
  "got (Ready (Inr b)) = b"
| "got _ = []"

locale fill_source =
  fixes rest :: "'r \<Rightarrow> bytes"
    and good :: "'r \<Rightarrow> bool"
    and src_err :: "io_error \<Rightarrow> bool"
    and fill :: "'r \<Rightarrow> ('r, bytes) polled"
    and consume :: "'r \<Rightarrow> nat \<Rightarrow> 'r option"
    and avail :: "'r \<Rightarrow> bytes"
  assumes avail_prefix: "good r \<Longrightarrow> prefix (avail r) (rest r)"
    and fill_law: "good r \<Longrightarrow> \<exists>r' res. fill r = Some (r', res) \<and>
      (is_err res \<or> good r' \<and> length (avail r) \<le> length (avail r')) \<and> rest r' = rest r \<and>
      fill_post src_err (rest r) (avail r') res"
    and consume_avail: "good r \<Longrightarrow> avail r \<noteq> [] \<Longrightarrow> n \<le> length (avail r) \<Longrightarrow>
      \<exists>r'. consume r n = Some r' \<and> good r' \<and> rest r' = drop n (rest r) \<and>
        length (avail r') = length (avail r) - n"

locale buf_source = fill_source +
  assumes consume_none: "good r \<Longrightarrow> avail r = [] \<Longrightarrow>
      \<exists>r'. consume r 0 = Some r' \<and> good r' \<and> rest r' = rest r \<and> avail r' = []"
begin

lemma consume_law:
  assumes "good r" "n \<le> length (avail r)"
  shows "\<exists>r'. consume r n = Some r' \<and> good r' \<and> rest r' = drop n (rest r) \<and>
    length (avail r') = length (avail r) - n"
  using assms consume_avail [of r n] consume_none [of r] by (cases "avail r = []") auto

end

lemma buf_sourceI:
  assumes "\<And>r. good r \<Longrightarrow> prefix (avail r) (rest r)"
    and "\<And>r. good r \<Longrightarrow> \<exists>r' res. fill r = Some (r', res) \<and>
      (is_err res \<or> good r' \<and> length (avail r) \<le> length (avail r')) \<and> rest r' = rest r \<and>
      fill_post src_err (rest r) (avail r') res"
    and "\<And>r n. good r \<Longrightarrow> n \<le> length (avail r) \<Longrightarrow>
      \<exists>r'. consume r n = Some r' \<and> good r' \<and> rest r' = drop n (rest r) \<and>
        length (avail r') = length (avail r) - n"
  shows "buf_source rest good src_err fill consume avail"
proof
  show "good r \<Longrightarrow> avail r = [] \<Longrightarrow> \<exists>r'. consume r 0 = Some r' \<and> good r' \<and> rest r' = rest r \<and> avail r' = []" for r
    using assms(3) [of r 0] by auto
qed (use assms in blast)+

text \<open>\<open>AsyncRead\<close> by way of \<open>AsyncBytesRead\<close>: the same code in \<open>BytesReader\<close>, \<open>NarReader\<close>,
  \<open>NarBytesReader\<close> and \<open>AsyncBufReadCompat\<close>.\<close>

definition poll_read_by_fill ::
  "('r \<Rightarrow> ('r, bytes) polled) \<Rightarrow> ('r \<Rightarrow> nat \<Rightarrow> 'r option) \<Rightarrow> 'r \<Rightarrow> nat \<Rightarrow> ('r, bytes) polled" where
  "poll_read_by_fill fill consume r cap =
     (case fill r of
        None \<Rightarrow> None
      | Some (r1, Pending) \<Rightarrow> Some (r1, Pending)
      | Some (r1, Ready (Inl e)) \<Rightarrow> Some (r1, Ready (Inl e))
      | Some (r1, Ready (Inr rem)) \<Rightarrow>
          if rem \<noteq> [] then
            (let amt = min (length rem) cap in
             case consume r1 amt of None \<Rightarrow> None | Some r2 \<Rightarrow> Some (r2, Ready (Inr (take amt rem))))
          else Some (r1, Ready (Inr [])))"

text \<open>\<open>AsyncBytesRead\<close>: a forced fill makes the buffered part grow, or fails. Room may be asked for up to the largest size of an allocation.\<close>

record 'r BytesRead =
  op_read :: "'r \<Rightarrow> nat \<Rightarrow> ('r, bytes) polled"
  op_fill :: "'r \<Rightarrow> ('r, bytes) polled"
  op_force :: "'r \<Rightarrow> ('r, bytes) polled"
  op_prepare :: "'r \<Rightarrow> nat \<Rightarrow> 'r option"
  op_consume :: "'r \<Rightarrow> nat \<Rightarrow> 'r option"

fun force_post :: "(io_error \<Rightarrow> bool) \<Rightarrow> bytes \<Rightarrow> bytes \<Rightarrow> bytes \<Rightarrow> bytes io_result poll \<Rightarrow> bool" where
  "force_post src_err rest avail avail' Pending \<longleftrightarrow> True"
| "force_post src_err rest avail avail' (Ready (Inl e)) \<longleftrightarrow> src_err e \<or> avail = rest"
| "force_post src_err rest avail avail' (Ready (Inr b)) \<longleftrightarrow> b = avail' \<and> length avail < length b"

locale bytes_read = async_read "op_read ops" rest good src_err +
  buf_source rest good src_err "op_fill ops" "op_consume ops" avail
  for ops :: "'r BytesRead" and rest good src_err avail +
  assumes force_law: "good r \<Longrightarrow> \<exists>r' res. op_force ops r = Some (r', res) \<and>
      (is_err res \<or> good r' \<and> length (avail r) \<le> length (avail r')) \<and> rest r' = rest r \<and>
      force_post src_err (rest r) (avail r) (avail r') res"
    and read_avail: "good r \<Longrightarrow> op_read ops r cap = Some (r', res) \<Longrightarrow> \<not> is_err res \<Longrightarrow>
      length (avail r) \<le> length (avail r') + length (got res)"
    and read_pending: "good r \<Longrightarrow> op_read ops r cap = Some (r', Pending) \<Longrightarrow> avail r = []"
    and prepare_law: "good r \<Longrightarrow> n < 2 ^ 63 \<Longrightarrow> \<exists>r'. op_prepare ops r n = Some r' \<and> good r' \<and> rest r' = rest r"

context fill_source
begin

lemma fill_cases:
  assumes "good r"
  obtains (pending) r' where "fill r = Some (r', Pending)" "good r'" "rest r' = rest r"
      "length (avail r) \<le> length (avail r')"
  | (failed) r' e where "fill r = Some (r', Ready (Inl e))" "rest r' = rest r" "src_err e"
  | (filled) r' where "fill r = Some (r', Ready (Inr (avail r')))" "good r'" "rest r' = rest r"
      "avail r' = [] \<longrightarrow> rest r = []" "prefix (avail r') (rest r)" "length (avail r) \<le> length (avail r')"
proof -
  obtain r' res where f: "fill r = Some (r', res)"
    and g: "is_err res \<or> good r' \<and> length (avail r) \<le> length (avail r')" "rest r' = rest r"
    and p: "fill_post src_err (rest r) (avail r') res"
    using fill_law [OF assms] by blast
  consider "res = Pending" | e where "res = Ready (Inl e)" | b where "res = Ready (Inr b)"
    by (metis poll.exhaust sum.exhaust)
  then show thesis
    by cases (use f g p avail_prefix [of r'] pending failed filled in auto)
qed

lemma poll_read_by_fill_spec:
  assumes "good r"
  shows "\<exists>r' res. poll_read_by_fill fill consume r cap = Some (r', res) \<and> (is_err res \<or> good r') \<and>
      read_post src_err cap (rest r) (rest r') res"
  using assms
proof (cases rule: fill_cases)
  case (filled r1)
  show ?thesis
  proof (cases "avail r1 = []")
    case True
    with filled show ?thesis by (simp add: poll_read_by_fill_def)
  next
    case False
    let ?amt = "min (length (avail r1)) cap"
    obtain r2 where r2: "consume r1 ?amt = Some r2" "good r2" "rest r2 = drop ?amt (rest r)"
      using consume_avail [OF filled(2) False, of ?amt] filled(3) by auto
    have "take ?amt (avail r1) = take ?amt (rest r)"
      using filled(5) by (auto simp: prefix_def)
    moreover have "?amt = 0 \<longrightarrow> cap = 0" using False by (auto simp: min_def split: if_splits)
    ultimately show ?thesis using r2 filled False
      by (auto simp: poll_read_by_fill_def Let_def)
  qed
qed (auto simp: poll_read_by_fill_def)

lemma poll_read_by_fill_avail:
  assumes "good r" and rd: "poll_read_by_fill fill consume r cap = Some (r', res)" "\<not> is_err res"
  shows "length (avail r) \<le> length (avail r') + length (got res)"
  using assms(1)
proof (cases rule: fill_cases)
  case (filled r1)
  show ?thesis
  proof (cases "avail r1 = []")
    case True
    with filled rd show ?thesis by (simp add: poll_read_by_fill_def)
  next
    case False
    let ?amt = "min (length (avail r1)) cap"
    obtain r2 where r2: "consume r1 ?amt = Some r2" "length (avail r2) = length (avail r1) - ?amt"
      using consume_avail [OF filled(2) False, of ?amt] filled(3) by auto
    with filled False rd show ?thesis
      by (auto simp: poll_read_by_fill_def Let_def)
  qed
qed (use rd in \<open>auto simp: poll_read_by_fill_def\<close>)

end

sublocale fill_source \<subseteq> rd: async_read "poll_read_by_fill fill consume" rest good src_err
  by unfold_locales (rule poll_read_by_fill_spec)

fun put_post :: "(io_error \<Rightarrow> bool) \<Rightarrow> bytes \<Rightarrow> bytes \<Rightarrow> bytes \<Rightarrow> nat io_result poll \<Rightarrow> bool" where
  "put_post sink_err b written written' Pending \<longleftrightarrow> written' = written"
| "put_post sink_err b written written' (Ready (Inl e)) \<longleftrightarrow> written' = written \<and> sink_err e"
| "put_post sink_err b written written' (Ready (Inr n)) \<longleftrightarrow>
     n \<le> length b \<and> written' = written @ take n b \<and> (n = 0 \<longrightarrow> b = [])"

locale async_write =
  fixes put :: "'w \<Rightarrow> bytes \<Rightarrow> ('w, nat) polled"
    and written :: "'w \<Rightarrow> bytes"
    and sink_err :: "io_error \<Rightarrow> bool"
  assumes put_law: "\<exists>w' res. put w b = Some (w', res) \<and> put_post sink_err b (written w) (written w') res"

section \<open>A scripted source\<close>

text \<open>A source that plays a list of events: data, errors and spurious \<open>Pending\<close>s, in any order.
  It inhabits the contract of \<open>AsyncRead\<close> and lets every reader below be run.\<close>

datatype src_item = SData bytes | SError io_error | SPending

fun script_read :: "src_item list \<Rightarrow> nat \<Rightarrow> (src_item list, bytes) polled" where
  "script_read [] cap = Some ([], Ready (Inr []))"
| "script_read (SPending # s) cap = Some (s, Pending)"
| "script_read (SError e # s) cap = Some (s, Ready (Inl e))"
| "script_read (SData b # s) cap =
     (if b = [] then script_read s cap
      else Some (SData (drop cap b) # s, Ready (Inr (take cap b))))"

fun script_rest :: "src_item list \<Rightarrow> bytes" where
  "script_rest [] = []"
| "script_rest (SData b # s) = b @ script_rest s"
| "script_rest (_ # s) = script_rest s"

definition script_good :: "io_error set \<Rightarrow> src_item list \<Rightarrow> bool" where
  "script_good E s \<longleftrightarrow> (\<forall>e. SError e \<in> set s \<longrightarrow> e \<in> E)"

lemma script_read_law:
  "script_good E s \<Longrightarrow> \<exists>s' res. script_read s cap = Some (s', res) \<and> script_good E s' \<and>
     read_post (\<lambda>e. e \<in> E) cap (script_rest s) (script_rest s') res"
  by (induction s cap rule: script_read.induct) (auto simp: script_good_def)

interpretation script: async_read script_read script_rest "script_good E" "\<lambda>e. e \<in> E" for E
  by unfold_locales (use script_read_law in blast)

section \<open>A cursor over bytes in memory\<close>

text \<open>\<open>io::Cursor<Bytes>\<close>, for which \<open>async_bytes_read.rs\<close> implements the trait.\<close>

record Cursor =
  cdata :: bytes
  cpos :: nat

definition cursor_fill :: "Cursor \<Rightarrow> (Cursor, bytes) polled" where
  "cursor_fill c = (if cpos c \<le> length (cdata c) then Some (c, Ready (Inr (drop (cpos c) (cdata c)))) else None)"

definition cursor_force :: "Cursor \<Rightarrow> (Cursor, bytes) polled" where
  "cursor_force c = Some (c, Ready (Inl (IoError UnexpectedEof ''bytes can't be force filled'')))"

definition cursor_prepare :: "Cursor \<Rightarrow> nat \<Rightarrow> Cursor option" where
  "cursor_prepare c additional = Some c"

definition cursor_consume :: "Cursor \<Rightarrow> nat \<Rightarrow> Cursor option" where
  "cursor_consume c amt = Some (c\<lparr>cpos := cpos c + amt\<rparr>)"

definition cursor_read :: "Cursor \<Rightarrow> nat \<Rightarrow> (Cursor, bytes) polled" where
  "cursor_read c cap =
     (let b = take cap (drop (cpos c) (cdata c)) in Some (c\<lparr>cpos := cpos c + length b\<rparr>, Ready (Inr b)))"

definition cursor_ops :: "Cursor BytesRead" where
  "cursor_ops = \<lparr>op_read = cursor_read, op_fill = cursor_fill, op_force = cursor_force,
     op_prepare = cursor_prepare, op_consume = cursor_consume\<rparr>"

definition cursor_rest :: "Cursor \<Rightarrow> bytes" where
  "cursor_rest c = drop (cpos c) (cdata c)"

definition cursor_good :: "Cursor \<Rightarrow> bool" where
  "cursor_good c \<longleftrightarrow> cpos c \<le> length (cdata c)"

interpretation cursor: bytes_read cursor_ops cursor_rest cursor_good "\<lambda>_. False" cursor_rest
proof
  show "cursor_good r \<Longrightarrow> \<exists>r' res. op_read cursor_ops r cap = Some (r', res) \<and> (is_err res \<or> cursor_good r') \<and>
      read_post (\<lambda>_. False) cap (cursor_rest r) (cursor_rest r') res" for r cap
    using append_take_drop_id [of cap "drop (cpos r) (cdata r)", symmetric]
    by (auto simp: cursor_ops_def cursor_read_def cursor_rest_def cursor_good_def Let_def add.commute min_def)
qed (auto simp: cursor_ops_def cursor_fill_def cursor_force_def cursor_prepare_def cursor_consume_def
    cursor_read_def cursor_rest_def cursor_good_def Let_def add.commute)

section \<open>Reading a \<open>u64\<close>\<close>

record TryReadU64 =
  tbuf :: bytes
  tread :: nat

definition u64_new :: TryReadU64 where
  "u64_new = \<lparr>tbuf = replicate 8 0, tread = 0\<rparr>"

function u64_poll_reader ::
  "('r \<Rightarrow> nat \<Rightarrow> ('r, bytes) polled) \<Rightarrow> TryReadU64 \<Rightarrow> 'r \<Rightarrow> (TryReadU64 \<times> 'r \<times> u64 option io_result poll) option" where
  "u64_poll_reader read t r =
     (if tread t < 8 then
        (case read r (8 - tread t) of
           None \<Rightarrow> None
         | Some (r', Pending) \<Rightarrow> Some (t, r', Pending)
         | Some (r', Ready (Inl e)) \<Rightarrow> Some (t, r', Ready (Inl e))
         | Some (r', Ready (Inr b)) \<Rightarrow>
             if b = [] then
               (if tread t = 0 then Some (t, r', Ready (Inr None))
                else Some (t, r', Ready (Inl (IoError UnexpectedEof ''EOF reading u64''))))
             else u64_poll_reader read
                    \<lparr>tbuf = take (tread t) (tbuf t) @ b @ drop (tread t + length b) (tbuf t),
                     tread = tread t + length b\<rparr> r')
      else Some (t, r, Ready (Inr (Some (from_le_bytes (tbuf t))))))"
  by pat_completeness auto
termination
  by (relation "measure (\<lambda>(read, t, r). 8 - tread t)") (auto intro!: diff_less_mono2)

declare u64_poll_reader.simps [simp del]

text \<open>The future has taken \<open>tread\<close> bytes; with what is still to come they are the stream.\<close>

definition u64_seen :: "TryReadU64 \<Rightarrow> bytes" where
  "u64_seen t = take (tread t) (tbuf t)"

definition u64_ok :: "TryReadU64 \<Rightarrow> bool" where
  "u64_ok t \<longleftrightarrow> length (tbuf t) = 8 \<and> tread t \<le> 8"

fun u64_post :: "(io_error \<Rightarrow> bool) \<Rightarrow> bytes \<Rightarrow> bytes \<Rightarrow> u64 option io_result poll \<Rightarrow> bool" where
  "u64_post src_err stream rest' Pending \<longleftrightarrow> True"
| "u64_post src_err stream rest' (Ready (Inl e)) \<longleftrightarrow>
     src_err e \<or> (length stream < 8 \<and> e = IoError UnexpectedEof ''EOF reading u64'')"
| "u64_post src_err stream rest' (Ready (Inr None)) \<longleftrightarrow> stream = []"
| "u64_post src_err stream rest' (Ready (Inr (Some w))) \<longleftrightarrow> stream = to_le_bytes w @ rest'"

context async_read
begin

lemma u64_poll_reader_spec:
  assumes "u64_ok t" "good r"
  shows "\<exists>t' r' res. u64_poll_reader read t r = Some (t', r', res) \<and> u64_ok t' \<and> (is_err res \<or> good r') \<and>
    u64_post src_err (u64_seen t @ rest r) (rest r') res \<and>
    (res = Pending \<or> is_err res \<or> res = Ready (Inr None) \<longrightarrow> u64_seen t' @ rest r' = u64_seen t @ rest r)"
  using assms
proof (induction "8 - tread t" arbitrary: t r rule: less_induct)
  case less
  show ?case
  proof (cases "tread t < 8")
    case False
    with less.prems have "tread t = 8" "length (tbuf t) = 8" by (auto simp: u64_ok_def)
    with less.prems show ?thesis
      by (simp add: u64_poll_reader.simps [of _ t] u64_seen_def to_from_le_bytes)
  next
    case True
    obtain r1 res where rd: "read r (8 - tread t) = Some (r1, res)" and g: "is_err res \<or> good r1"
      and law: "read_post src_err (8 - tread t) (rest r) (rest r1) res"
      using read_law [OF less.prems(2), of "8 - tread t"] by blast
    consider "res = Pending" | e where "res = Ready (Inl e)" | "res = Ready (Inr [])"
      | b where "res = Ready (Inr b)" "b \<noteq> []"
      by (metis poll.exhaust sum.exhaust)
    then show ?thesis
    proof cases
      case (4 b)
      let ?t = "\<lparr>tbuf = take (tread t) (tbuf t) @ b @ drop (tread t + length b) (tbuf t),
                 tread = tread t + length b\<rparr>"
      from law 4 have len: "length b \<le> 8 - tread t" and rest: "rest r = b @ rest r1" by auto
      have ok: "u64_ok ?t" and seen: "u64_seen ?t = u64_seen t @ b"
        using less.prems(1) len True by (auto simp: u64_ok_def u64_seen_def)
      have less': "8 - tread ?t < 8 - tread t" using 4 True by (cases b) auto
      have g1: "good r1" using g 4 by simp
      note IH = less.hyps [OF less' ok g1]
      have "u64_poll_reader read t r = u64_poll_reader read ?t r1"
        using True rd 4 by (simp add: u64_poll_reader.simps [of _ t])
      then show ?thesis using IH by (simp only: seen rest append_assoc)
    qed (use rd g law less.prems True in
          \<open>auto simp: u64_poll_reader.simps [of _ t] u64_seen_def u64_ok_def\<close>)
  qed
qed

end

section \<open>Reading a length-prefixed, padded byte string\<close>

datatype TryReadBytesLimited = ReadLen nat nat TryReadU64 | Fill nat nat | Done

definition bytes_limited_new :: "nat \<Rightarrow> nat \<Rightarrow> TryReadBytesLimited" where
  "bytes_limited_new lo hi = ReadLen lo hi u64_new"

text \<open>The loop \<open>while buf.len() < n { buf = poll_force_fill_buf()? }\<close>.\<close>

partial_function (option) force_until ::
  "('r \<Rightarrow> ('r, bytes) polled) \<Rightarrow> nat \<Rightarrow> 'r \<Rightarrow> bytes \<Rightarrow> ('r, bytes) polled" where
  "force_until force n r buf =
     (if length buf < n then
        Option.bind (force r) (\<lambda>(r', res). case res of
            Pending \<Rightarrow> Some (r', Pending)
          | Ready x \<Rightarrow> (case x of Inl e \<Rightarrow> Some (r', Ready (Inl e)) | Inr b \<Rightarrow> force_until force n r' b))
      else Some (r, Ready (Inr buf)))"

definition fill_poll ::
  "'r BytesRead \<Rightarrow> nat \<Rightarrow> nat \<Rightarrow> 'r \<Rightarrow> (TryReadBytesLimited \<times> 'r \<times> bytes option io_result poll) option" where
  "fill_poll ops len aligned r =
     (case op_fill ops r of
        None \<Rightarrow> None
      | Some (r1, Pending) \<Rightarrow> Some (Fill len aligned, r1, Pending)
      | Some (r1, Ready (Inl e)) \<Rightarrow> Some (Fill len aligned, r1, Ready (Inl e))
      | Some (r1, Ready (Inr buf)) \<Rightarrow>
          (case force_until (op_force ops) aligned r1 buf of
             None \<Rightarrow> None
           | Some (r2, Pending) \<Rightarrow> Some (Fill len aligned, r2, Pending)
           | Some (r2, Ready (Inl e)) \<Rightarrow> Some (Fill len aligned, r2, Ready (Inl e))
           | Some (r2, Ready (Inr buf)) \<Rightarrow>
               (let contents = take aligned buf in
                case op_consume ops r2 aligned of
                  None \<Rightarrow> None
                | Some r3 \<Rightarrow>
                    let padding = aligned - len in
                    if drop len contents \<noteq> take padding ZEROS
                    then Some (Done, r3, Ready (Inl (IoError InvalidData ''non-zero padding'')))
                    else Some (Done, r3, Ready (Inr (Some (take len contents)))))))"

definition bytes_poll_reader ::
  "'r BytesRead \<Rightarrow> TryReadBytesLimited \<Rightarrow> 'r \<Rightarrow> (TryReadBytesLimited \<times> 'r \<times> bytes option io_result poll) option" where
  "bytes_poll_reader ops t r =
     (case t of
        ReadLen lo hi u \<Rightarrow>
          (case u64_poll_reader (op_read ops) u r of
             None \<Rightarrow> None
           | Some (u', r1, Pending) \<Rightarrow> Some (ReadLen lo hi u', r1, Pending)
           | Some (u', r1, Ready (Inl e)) \<Rightarrow> Some (ReadLen lo hi u', r1, Ready (Inl e))
           | Some (u', r1, Ready (Inr None)) \<Rightarrow> Some (Done, r1, Ready (Inr None))
           | Some (u', r1, Ready (Inr (Some raw_len))) \<Rightarrow>
               (let len = unat raw_len in
                if \<not> (lo \<le> len \<and> len \<le> hi)
                then Some (ReadLen lo hi u', r1, Ready (Inl (IoError InvalidData ''bytes length out of range'')))
                else if \<not> unat raw_len + 7 < 2 ^ 64
                then Some (ReadLen lo hi u', r1, Ready (Inl (IoError InvalidData ''aligned bytes length out of range'')))
                else let aligned = unat ((raw_len + 7) AND NOT 7) in
                  if 0 < aligned then
                    (case op_prepare ops r1 aligned of
                       None \<Rightarrow> None
                     | Some r2 \<Rightarrow> fill_poll ops len aligned r2)
                  else Some (Done, r1, Ready (Inr (Some [])))))
      | Fill len aligned \<Rightarrow> fill_poll ops len aligned r
      | Done \<Rightarrow> None)"

text \<open>What the future still owes: a string of the wire format, within the limits it was given.\<close>

definition wire_string :: "nat \<Rightarrow> nat \<Rightarrow> bytes \<Rightarrow> bytes \<Rightarrow> bytes \<Rightarrow> bool" where
  "wire_string lo hi stream c rest' \<longleftrightarrow>
     stream = nix_slice c @ rest' \<and> lo \<le> length c \<and> length c \<le> hi \<and> length c + 7 < 2 ^ 64"

fun bytes_post ::
  "(io_error \<Rightarrow> bool) \<Rightarrow> nat \<Rightarrow> nat \<Rightarrow> bytes \<Rightarrow> bytes \<Rightarrow> bytes option io_result poll \<Rightarrow> bool" where
  "bytes_post src_err lo hi stream rest' Pending \<longleftrightarrow> True"
| "bytes_post src_err lo hi stream rest' (Ready (Inl e)) \<longleftrightarrow>
     src_err e \<or> (\<nexists>c R. wire_string lo hi stream c R)"
| "bytes_post src_err lo hi stream rest' (Ready (Inr None)) \<longleftrightarrow> stream = []"
| "bytes_post src_err lo hi stream rest' (Ready (Inr (Some c))) \<longleftrightarrow> wire_string lo hi stream c rest'"

fun bytes_ok :: "nat \<Rightarrow> nat \<Rightarrow> TryReadBytesLimited \<Rightarrow> bool" where
  "bytes_ok lo hi (ReadLen lo' hi' u) \<longleftrightarrow> lo' = lo \<and> hi' = hi \<and> hi + 8 \<le> 2 ^ 63 \<and> u64_ok u"
| "bytes_ok lo hi (Fill len aligned) \<longleftrightarrow>
     lo \<le> len \<and> len \<le> hi \<and> len + 7 < 2 ^ 64 \<and> aligned = len + calc_padding (word_of_nat len)"
| "bytes_ok lo hi Done \<longleftrightarrow> False"

fun bytes_stream :: "TryReadBytesLimited \<Rightarrow> bytes \<Rightarrow> bytes" where
  "bytes_stream (ReadLen lo hi u) rest = u64_seen u @ rest"
| "bytes_stream (Fill len aligned) rest = to_le_bytes (word_of_nat len) @ rest"
| "bytes_stream Done rest = rest"

context bytes_read
begin

lemma force_until_spec:
  assumes "good r" "buf = avail r"
  shows "\<exists>r' res. force_until (op_force ops) n r buf = Some (r', res) \<and>
    (is_err res \<or> good r' \<and> length (avail r) \<le> length (avail r')) \<and> rest r' = rest r \<and>
    (case res of Pending \<Rightarrow> True | Ready (Inl e) \<Rightarrow> src_err e \<or> length (rest r) < n
     | Ready (Inr b) \<Rightarrow> b = avail r' \<and> n \<le> length b)"
  using assms
proof (induction "n - length buf" arbitrary: r buf rule: less_induct)
  case less
  show ?case
  proof (cases "length buf < n")
    case False
    with less.prems show ?thesis by (simp add: force_until.simps)
  next
    case True
    obtain r1 res where fo: "op_force ops r = Some (r1, res)"
      and g: "is_err res \<or> good r1 \<and> length (avail r) \<le> length (avail r1)" and rest: "rest r1 = rest r"
      and law: "force_post src_err (rest r) (avail r) (avail r1) res"
      using force_law [OF less.prems(1)] by blast
    consider "res = Pending" | e where "res = Ready (Inl e)" | b where "res = Ready (Inr b)"
      by (metis poll.exhaust sum.exhaust)
    then show ?thesis
    proof cases
      case (3 b)
      with law have b: "b = avail r1" "length buf < length b" using less.prems by auto
      then have "n - length b < n - length buf" using True by auto
      moreover have "good r1" using g 3 by simp
      ultimately obtain r' res' where IH: "force_until (op_force ops) n r1 b = Some (r', res')"
          "is_err res' \<or> good r' \<and> length (avail r1) \<le> length (avail r')" "rest r' = rest r"
          "case res' of Pending \<Rightarrow> True | Ready (Inl e) \<Rightarrow> src_err e \<or> length (rest r) < n
           | Ready (Inr b) \<Rightarrow> b = avail r' \<and> n \<le> length b"
        using less.hyps [OF _ _ b(1)] unfolding rest by blast
      moreover have "length (avail r) \<le> length (avail r1)" using b less.prems(2) by simp
      ultimately have "is_err res' \<or> good r' \<and> length (avail r) \<le> length (avail r')" by auto
      with IH less.prems b True show ?thesis
        by (simp add: force_until.simps [of _ n r] fo 3)
    qed (use True fo g rest law less.prems in \<open>auto simp: force_until.simps [of _ n r]\<close>)
  qed
qed

lemma force_until_cases:
  assumes "good r" "buf = avail r"
  obtains (pending) r' where "force_until (op_force ops) n r buf = Some (r', Pending)" "good r'" "rest r' = rest r"
      "length (avail r) \<le> length (avail r')"
  | (failed) r' e where "force_until (op_force ops) n r buf = Some (r', Ready (Inl e))" "rest r' = rest r"
      "src_err e \<or> length (rest r) < n"
  | (filled) r' where "force_until (op_force ops) n r buf = Some (r', Ready (Inr (avail r')))" "good r'"
      "rest r' = rest r" "n \<le> length (avail r')" "take n (avail r') = take n (rest r)"
      "length (avail r) \<le> length (avail r')"
proof -
  obtain r' res where f: "force_until (op_force ops) n r buf = Some (r', res)" and g: "is_err res \<or> good r' \<and> length (avail r) \<le> length (avail r')" "rest r' = rest r"
    and p: "case res of Pending \<Rightarrow> True | Ready (Inl e) \<Rightarrow> src_err e \<or> length (rest r) < n
       | Ready (Inr b) \<Rightarrow> b = avail r' \<and> n \<le> length b"
    using force_until_spec [OF assms] by blast
  have t: "good r' \<Longrightarrow> n \<le> length (avail r') \<Longrightarrow> take n (avail r') = take n (rest r)"
    using avail_prefix [of r'] g(2) by (auto simp: prefix_def)
  consider "res = Pending" | e where "res = Ready (Inl e)" | b where "res = Ready (Inr b)"
    by (metis poll.exhaust sum.exhaust)
  then show thesis
    by cases (use f g p t pending failed filled in auto)
qed

end

text \<open>A string of the wire format against its length: what a decoder has to check.\<close>

lemma wire_string_iff:
  assumes "length c = len" "len + 7 < 2 ^ 64" "lo \<le> len" "len \<le> hi"
  shows "wire_string lo hi (to_le_bytes (word_of_nat len) @ S) c R \<longleftrightarrow>
     S = c @ replicate (calc_padding (word_of_nat len)) 0 @ R"
  using assms by (auto simp: wire_string_def put_nix_slice_def)

lemma wire_string_length:
  assumes "wire_string lo hi (to_le_bytes w @ S) c R"
  shows "length c = unat w \<and> lo \<le> unat w \<and> unat w \<le> hi \<and> unat w + 7 < 2 ^ 64 \<and>
     S = c @ replicate (calc_padding w) 0 @ R"
proof -
  from assms have w: "to_le_bytes w @ S = to_le_bytes (word_of_nat (length c)) @ c @
      replicate (calc_padding (word_of_nat (length c))) 0 @ R"
    and b: "lo \<le> length c" "length c \<le> hi" "length c + 7 < 2 ^ 64"
    by (auto simp: wire_string_def put_nix_slice_def)
  then have "w = word_of_nat (length c)" "S = c @ replicate (calc_padding (word_of_nat (length c))) 0 @ R" by auto
  moreover have "unat (word_of_nat (length c) :: u64) = length c" using b by (simp add: unat_of_nat)
  ultimately show ?thesis using b by simp
qed

lemma wire_string_not_short:
  "wire_string lo hi S c R \<Longrightarrow> \<not> length S < 8"
  by (auto simp: wire_string_def put_nix_slice_def)

context bytes_read
begin

lemma fill_poll_spec:
  assumes ok: "bytes_ok lo hi (Fill len aligned)" and g: "good r"
  shows "\<exists>t' r' res. fill_poll ops len aligned r = Some (t', r', res) \<and> (is_err res \<or> good r') \<and>
    bytes_post src_err lo hi (to_le_bytes (word_of_nat len) @ rest r) (rest r') res \<and>
    (res = Pending \<longrightarrow> t' = Fill len aligned \<and> rest r' = rest r)"
proof -
  have len: "lo \<le> len" "len \<le> hi" "len + 7 < 2 ^ 64" and al: "aligned = len + calc_padding (word_of_nat len)"
    using ok by auto
  have u: "unat (word_of_nat len :: u64) = len" using len by (simp add: unat_of_nat)
  have short: "length (rest r) < aligned \<Longrightarrow>
      \<nexists>c R. wire_string lo hi (to_le_bytes (word_of_nat len) @ rest r) c R"
    using al u by (auto dest!: wire_string_length)
  from g show ?thesis
  proof (cases rule: fill_cases)
    case (filled r1)
    from filled(2) refl show ?thesis
    proof (cases rule: force_until_cases [where n = aligned])
      case (failed r2 e)
      with filled short show ?thesis by (auto simp: fill_poll_def)
    next
      case full: (filled r2)
      obtain r3 where r3: "op_consume ops r2 aligned = Some r3" "good r3" "rest r3 = drop aligned (rest r)"
        using consume_law [OF full(2,4)] full(3) filled(3) by auto
      let ?c = "take aligned (rest r)"
      have long: "aligned \<le> length (rest r)"
        using avail_prefix [OF full(2)] full(3,4) filled(3) by (auto dest: prefix_length_le)
      have split: "rest r = take len (rest r) @ drop len ?c @ rest r3"
        using al r3(3) by (metis append.assoc append_take_drop_id le_add1 min.absorb1 take_take)
      have pad: "take (aligned - len) ZEROS = replicate (calc_padding (word_of_nat len)) 0"
        using al calc_padding_less [of "word_of_nat len"] by (simp add: ZEROS_def min_def)
      show ?thesis
      proof (cases "drop len ?c = take (aligned - len) ZEROS")
        case True
        have "wire_string lo hi (to_le_bytes (word_of_nat len) @ rest r) (take len (rest r)) (rest r3)"
          using wire_string_iff [of "take len (rest r)" len lo hi "rest r" "rest r3"] len long al split True pad
          by simp
        with True r3 full filled al show ?thesis by (simp add: fill_poll_def Let_def)
      next
        case False
        have "\<nexists>c R. wire_string lo hi (to_le_bytes (word_of_nat len) @ rest r) c R"
        proof (intro notI, elim exE)
          fix c R
          assume "wire_string lo hi (to_le_bytes (word_of_nat len) @ rest r) c R"
          from wire_string_length [OF this] u have "length c = len"
            "rest r = c @ replicate (calc_padding (word_of_nat len)) 0 @ R" by auto
          then have "drop len ?c = replicate (calc_padding (word_of_nat len)) 0" using al by simp
          with False pad show False by simp
        qed
        with False r3 full filled show ?thesis by (simp add: fill_poll_def Let_def)
      qed
    qed (use filled in \<open>auto simp: fill_poll_def\<close>)
  qed (auto simp: fill_poll_def)
qed

lemma bytes_poll_reader_spec:
  assumes ok: "bytes_ok lo hi t" and g: "good r"
  shows "\<exists>t' r' res. bytes_poll_reader ops t r = Some (t', r', res) \<and> (is_err res \<or> good r') \<and>
    bytes_post src_err lo hi (bytes_stream t (rest r)) (rest r') res \<and>
    (res = Pending \<longrightarrow> bytes_ok lo hi t' \<and> bytes_stream t' (rest r') = bytes_stream t (rest r))"
proof (cases t)
  case (Fill len aligned)
  with fill_poll_spec [of lo hi len aligned r] assms show ?thesis
    by (fastforce simp: bytes_poll_reader_def)
next
  case Done
  with ok show ?thesis by simp
next
  case (ReadLen lo' hi' u)
  with ok have u: "u64_ok u" and t: "t = ReadLen lo hi u" and hi: "hi + 8 \<le> 2 ^ 63" by auto
  obtain u' r1 res where p: "u64_poll_reader (op_read ops) u r = Some (u', r1, res)" "u64_ok u'" "is_err res \<or> good r1"
    and post: "u64_post src_err (u64_seen u @ rest r) (rest r1) res"
    and pend: "res = Pending \<longrightarrow> u64_seen u' @ rest r1 = u64_seen u @ rest r"
    using u64_poll_reader_spec [OF u g] by blast
  consider "res = Pending" | e where "res = Ready (Inl e)" | "res = Ready (Inr None)"
    | w where "res = Ready (Inr (Some w))"
    by (metis option.exhaust poll.exhaust sum.exhaust)
  then show ?thesis
  proof cases
    case 2
    with p post t show ?thesis
      by (auto simp: bytes_poll_reader_def dest: wire_string_not_short)
  next
    case (4 w)
    with post have st: "u64_seen u @ rest r = to_le_bytes w @ rest r1" by simp
    consider (range) "\<not> (lo \<le> unat w \<and> unat w \<le> hi)" | (huge) "lo \<le> unat w \<and> unat w \<le> hi" "\<not> unat w + 7 < 2 ^ 64"
      | (ok) "lo \<le> unat w \<and> unat w \<le> hi" "unat w + 7 < 2 ^ 64" by blast
    then show ?thesis
    proof cases
      case ok
      have al: "unat (calc_aligned w) = unat w + calc_padding w"
        using ok(2) unfolding unat_calc_aligned calc_padding_eq by (simp only: if_True align_arith)
      show ?thesis
      proof (cases "0 < unat (calc_aligned w)")
        case True
        have "unat (calc_aligned w) < 2 ^ 63" using al ok(1) hi calc_padding_less [of w] by linarith
        then obtain r2 where r2: "op_prepare ops r1 (unat (calc_aligned w)) = Some r2" "good r2" "rest r2 = rest r1"
          using prepare_law [of r1] p(3) 4 by auto
        have bo: "bytes_ok lo hi (Fill (unat w) (unat (calc_aligned w)))" using ok al by simp
        from fill_poll_spec [OF this r2(2)] r2 st ok True p(1) 4 bo show ?thesis
          by (fastforce simp: bytes_poll_reader_def t Let_def calc_aligned_def)
      next
        case False
        then have "unat w = 0" "calc_padding w = 0" using al by auto
        then have "wire_string lo hi (to_le_bytes w @ rest r1) [] (rest r1)"
          using ok by (simp add: wire_string_def put_nix_slice_def unat_eq_0)
        with False ok st p 4 show ?thesis
          by (auto simp: bytes_poll_reader_def t Let_def calc_aligned_def)
      qed
    qed (use p 4 st t in \<open>auto simp: bytes_poll_reader_def Let_def dest!: wire_string_length\<close>)
  qed (use p post pend t hi in \<open>auto simp: bytes_poll_reader_def\<close>)
qed

end

end
