(* ===== verification/Buffer_Mut.thy ===== *)
theory Buffer_Mut
  imports Prelude
begin

text \<open>
  \<open>BufferMut\<close> of \<open>harmonia-utils-io/src/bytes_reader/buffer/buffer_mut.rs\<close>: a growable buffer over a
  shared allocation, written with raw pointers. The allocation is a list of bytes as long as
  the \<open>Vec\<close>'s capacity (bytes nobody has written are 0), the pointer an offset into it, and the \<open>Arc\<close> an
  identity, so that a \<open>Filled\<close> handle given out by \<open>filled\<close> can be told apart from the buffer that goes
  on being written. \<open>None\<close> is a panic.

  The facts: every operation keeps the view inside the allocation, \<open>reserve\<close> keeps the contents
  and gives the room it was asked for, and no operation changes bytes a live handle can see
  (\<open>sys_handles\<close>), which is what the unsafe blocks of the file rely on.
\<close>

section \<open>State and operations\<close>

record BufferMut =
  vec :: bytes
  arc :: nat
  off :: nat
  blen :: nat
  bcap :: nat

record Filled =
  farc :: nat
  foff :: nat
  flen :: nat

definition with_capacity :: "nat \<Rightarrow> BufferMut" where
  "with_capacity capacity = \<lparr>vec = replicate capacity 0, arc = 0, off = 0, blen = 0, bcap = capacity\<rparr>"

definition as_slice :: "BufferMut \<Rightarrow> bytes" where
  "as_slice b = take (blen b) (drop (off b) (vec b))"

text \<open>\<open>Vec::reserve\<close> on a vector whose first \<open>len\<close> bytes are in use: amortised doubling, and only
  those bytes survive.\<close>

definition vec_reserve :: "bytes \<Rightarrow> nat \<Rightarrow> nat \<Rightarrow> bytes" where
  "vec_reserve v len additional =
     (if additional \<le> length v - len then v
      else take len v @ replicate (max (2 * length v) (max 8 (len + additional)) - len) 0)"

definition reserve_inner :: "bool \<Rightarrow> BufferMut \<Rightarrow> nat \<Rightarrow> bool \<Rightarrow> (BufferMut \<times> bool) option" where
  "reserve_inner uniq b additional allocate =
     (let len = blen b; new_cap = len + additional in
      if \<not> new_cap < 2 ^ 64 then (if \<not> allocate then Some (b, False) else None)
      else if uniq then
        (let v_capacity = length (vec b); offset = off b in
         if new_cap \<le> v_capacity \<and> len \<le> offset
         then Some (b\<lparr>vec := as_slice b @ drop len (vec b), off := 0, bcap := v_capacity\<rparr>, True)
         else if \<not> allocate then Some (b, False)
         else if \<not> new_cap + offset < 2 ^ 64 then None
         else let double = 2 * v_capacity mod 2 ^ 64;
                  new_cap' = max double (new_cap + offset);
                  v = vec_reserve (vec b) (offset + len) (new_cap' - (offset + len))
              in Some (b\<lparr>vec := v, bcap := length v - offset\<rparr>, True))
      else if \<not> allocate then Some (b, False)
      else let new_cap' = max new_cap (length (vec b));
               v = as_slice b @ replicate (new_cap' - len) 0
           in Some (b\<lparr>vec := v, arc := Suc (arc b), off := 0, bcap := length v\<rparr>, True))"

definition reserve :: "bool \<Rightarrow> BufferMut \<Rightarrow> nat \<Rightarrow> BufferMut option" where
  "reserve uniq b additional =
     (if additional \<le> bcap b - blen b then Some b
      else map_option fst (reserve_inner uniq b additional True))"

definition filled :: "BufferMut \<Rightarrow> Filled" where
  "filled b = \<lparr>farc = arc b, foff = off b, flen = blen b\<rparr>"

definition advance_unchecked :: "BufferMut \<Rightarrow> nat \<Rightarrow> BufferMut" where
  "advance_unchecked b count =
     (if count = 0 then b
      else b\<lparr>off := off b + count, blen := blen b - count, bcap := bcap b - count\<rparr>)"

definition advance :: "BufferMut \<Rightarrow> nat \<Rightarrow> BufferMut option" where
  "advance b cnt = (if cnt \<le> blen b then Some (advance_unchecked b cnt) else None)"

text \<open>A read into \<open>spare_capacity_mut\<close>, which starts behind the contents.\<close>

definition write_spare :: "BufferMut \<Rightarrow> bytes \<Rightarrow> BufferMut" where
  "write_spare b d =
     b\<lparr>vec := take (off b + blen b) (vec b) @ d @ drop (off b + blen b + length d) (vec b)\<rparr>"

definition advance_mut :: "BufferMut \<Rightarrow> nat \<Rightarrow> BufferMut option" where
  "advance_mut b cnt = (if bcap b - blen b < cnt then None else Some (b\<lparr>blen := blen b + cnt\<rparr>))"

section \<open>The view stays inside the allocation\<close>

definition buf_inv :: "BufferMut \<Rightarrow> bool" where
  "buf_inv b \<longleftrightarrow> off b + bcap b = length (vec b) \<and> blen b \<le> bcap b"

lemma with_capacity_inv [simp]: "buf_inv (with_capacity n)" "as_slice (with_capacity n) = []"
  "length (vec (with_capacity n)) = n" "bcap (with_capacity n) = n"
  by (simp_all add: buf_inv_def with_capacity_def as_slice_def)

lemma length_as_slice [simp]: "buf_inv b \<Longrightarrow> length (as_slice b) = blen b"
  by (auto simp: buf_inv_def as_slice_def min_def)

lemma advance_spec:
  assumes "buf_inv b" "n \<le> blen b"
  shows "\<exists>b'. advance b n = Some b' \<and> buf_inv b' \<and> as_slice b' = drop n (as_slice b) \<and>
     vec b' = vec b \<and> arc b' = arc b \<and> off b' + blen b' = off b + blen b"
  using assms
  by (auto simp: advance_def advance_unchecked_def buf_inv_def as_slice_def drop_take add.commute)

lemma write_spare_spec:
  assumes "buf_inv b" "length d \<le> bcap b - blen b"
  shows "\<exists>b'. advance_mut (write_spare b d) (length d) = Some b' \<and> buf_inv b' \<and>
     as_slice b' = as_slice b @ d \<and> length (vec b') = length (vec b) \<and> arc b' = arc b \<and> off b' = off b \<and>
     bcap b' = bcap b \<and> blen b' = blen b + length d \<and>
     take (off b + blen b) (vec b') = take (off b + blen b) (vec b)"
  using assms
  by (auto simp: advance_mut_def write_spare_def buf_inv_def as_slice_def min_def take_drop add.commute)

lemma vec_reserve_spec:
  assumes "len \<le> length v"
  shows "take len (vec_reserve v len n) = take len v \<and> len + n \<le> length (vec_reserve v len n) \<and>
     length v \<le> length (vec_reserve v len n) \<and>
     length (vec_reserve v len n) \<le> max (2 * length v) (max 8 (len + n))"
  using assms by (auto simp: vec_reserve_def min_def)

text \<open>\<open>reserve\<close> in its three ways: shift to the front, grow in place, move to an allocation of
  its own while a handle still holds the old one.\<close>

lemma reserve_spec:
  assumes inv: "buf_inv b" and res: "reserve uniq b n = Some b'"
  shows "buf_inv b' \<and> as_slice b' = as_slice b \<and> blen b' = blen b \<and> n \<le> bcap b' - blen b' \<and>
     (b' = b \<or> uniq \<and> arc b' = arc b \<or> \<not> uniq \<and> arc b' = Suc (arc b))"
proof (cases "n \<le> bcap b - blen b")
  case True
  with assms show ?thesis by (auto simp: reserve_def)
next
  case False
  have le: "blen b \<le> length (vec b)" "off b + blen b \<le> length (vec b)" using inv by (auto simp: buf_inv_def)
  from False res obtain ok where ri: "reserve_inner uniq b n True = Some (b', ok)"
    by (auto simp: reserve_def)
  show ?thesis
  proof (cases "uniq \<and> \<not> (blen b + n \<le> length (vec b) \<and> blen b \<le> off b)")
    case grow: True
    let ?cap = "max (2 * length (vec b) mod 2 ^ 64) (blen b + n + off b)"
    let ?v = "vec_reserve (vec b) (off b + blen b) (?cap - (off b + blen b))"
    from ri grow have b': "b' = b\<lparr>vec := ?v, bcap := length ?v - off b\<rparr>"
      by (auto simp: reserve_inner_def Let_def split: if_splits)
    note v = vec_reserve_spec [OF le(2), of "?cap - (off b + blen b)"]
    have "take (blen b) (drop (off b) ?v) = drop (off b) (take (off b + blen b) ?v)"
      by (simp add: drop_take)
    also have "\<dots> = as_slice b" using v by (simp add: as_slice_def drop_take)
    finally have "as_slice b' = as_slice b" by (simp add: b' as_slice_def)
    moreover have "off b + blen b + n \<le> length ?v" using v by linarith
    ultimately show ?thesis using grow inv by (auto simp: b' buf_inv_def)
  next
    case False
    then consider "uniq" "blen b + n \<le> length (vec b)" "blen b \<le> off b" | "\<not> uniq" by blast
    then show ?thesis
      by cases (use ri inv le in \<open>auto simp: reserve_inner_def Let_def buf_inv_def as_slice_def split: if_splits\<close>)
  qed
qed

text \<open>How much memory a \<open>reserve\<close> can take, as the reader's limit bounds it.\<close>

lemma reserve_total:
  assumes inv: "buf_inv b" and "2 * length (vec b) + n < 2 ^ 64"
  shows "\<exists>b'. reserve uniq b n = Some b'"
  using assms by (auto simp: reserve_def reserve_inner_def Let_def buf_inv_def)

lemma reserve_capacity:
  assumes inv: "buf_inv b" and small: "2 * length (vec b) < 2 ^ 64" and res: "reserve uniq b n = Some b'"
  shows "length (vec b') \<le> length (vec b) \<or> length (vec b') \<le> blen b + n \<or>
     (off b \<le> blen b + n \<and> off b' = off b \<and>
      length (vec b') \<le> max (2 * length (vec b)) (max 8 (off b + blen b + n)))"
proof (cases "n \<le> bcap b - blen b")
  case True
  with assms show ?thesis by (auto simp: reserve_def)
next
  case False
  have le: "blen b \<le> length (vec b)" "off b + blen b \<le> length (vec b)" using inv by (auto simp: buf_inv_def)
  from False res obtain ok where ri: "reserve_inner uniq b n True = Some (b', ok)"
    by (auto simp: reserve_def)
  show ?thesis
  proof (cases "uniq \<and> \<not> (blen b + n \<le> length (vec b) \<and> blen b \<le> off b)")
    case grow: True
    let ?cap = "max (2 * length (vec b) mod 2 ^ 64) (blen b + n + off b)"
    let ?v = "vec_reserve (vec b) (off b + blen b) (?cap - (off b + blen b))"
    from ri grow have b': "b' = b\<lparr>vec := ?v, bcap := length ?v - off b\<rparr>"
      by (auto simp: reserve_inner_def Let_def split: if_splits)
    have cap: "?cap = max (2 * length (vec b)) (blen b + n + off b)" using small by simp
    have "length ?v \<le> max (2 * length (vec b)) (max 8 (off b + blen b + n))"
      using vec_reserve_spec [OF le(2), of "?cap - (off b + blen b)"] unfolding cap by linarith
    moreover have "off b \<le> blen b + n" using grow le by linarith
    ultimately show ?thesis using b' by simp
  next
    case False
    then consider "uniq" "blen b + n \<le> length (vec b)" "blen b \<le> off b" | "\<not> uniq" by blast
    then show ?thesis
      by cases (use ri inv le in \<open>auto simp: reserve_inner_def Let_def buf_inv_def as_slice_def split: if_splits\<close>)
  qed
qed

section \<open>Handles\<close>

text \<open>
  The buffer together with the handles that are alive. An allocation the buffer has left is kept
  as it was; a handle sees its bytes in the buffer's allocation or in a left one. \<open>Arc::get_mut\<close>
  succeeds when no live handle shares the buffer's allocation. Each handle is recorded with the
  bytes it showed when it was made.
\<close>

record Sys =
  sbuf :: BufferMut
  sleft :: "nat \<Rightarrow> bytes"
  shandles :: "(Filled \<times> bytes) list"

definition alloc_of :: "Sys \<Rightarrow> nat \<Rightarrow> bytes" where
  "alloc_of s a = (if a = arc (sbuf s) then vec (sbuf s) else sleft s a)"

definition seen_by :: "Sys \<Rightarrow> Filled \<Rightarrow> bytes" where
  "seen_by s h = take (flen h) (drop (foff h) (alloc_of s (farc h)))"

definition unique :: "Sys \<Rightarrow> bool" where
  "unique s \<longleftrightarrow> (\<forall>h \<in> set (shandles s). farc (fst h) \<noteq> arc (sbuf s))"

inductive sys_step :: "Sys \<Rightarrow> Sys \<Rightarrow> bool" where
  read: "length d \<le> bcap (sbuf s) - blen (sbuf s) \<Longrightarrow>
     advance_mut (write_spare (sbuf s) d) (length d) = Some b' \<Longrightarrow> sys_step s (s\<lparr>sbuf := b'\<rparr>)"
| advance: "advance (sbuf s) n = Some b' \<Longrightarrow> sys_step s (s\<lparr>sbuf := b'\<rparr>)"
| reserve: "reserve (unique s) (sbuf s) n = Some b' \<Longrightarrow>
     sys_step s (s\<lparr>sbuf := b', sleft := (sleft s)(arc (sbuf s) := vec (sbuf s))\<rparr>)"
| filled: "sys_step s (s\<lparr>shandles := (filled (sbuf s), as_slice (sbuf s)) # shandles s\<rparr>)"
| drop: "set hs' \<subseteq> set (shandles s) \<Longrightarrow> sys_step s (s\<lparr>shandles := hs'\<rparr>)"

definition sys_new :: "nat \<Rightarrow> Sys" where
  "sys_new n = \<lparr>sbuf = with_capacity n, sleft = (\<lambda>_. []), shandles = []\<rparr>"

inductive sys_reachable :: "nat \<Rightarrow> Sys \<Rightarrow> bool" for n where
  init: "sys_reachable n (sys_new n)"
| step: "sys_reachable n s \<Longrightarrow> sys_step s s' \<Longrightarrow> sys_reachable n s'"

definition handle_ok :: "Sys \<Rightarrow> Filled \<times> bytes \<Rightarrow> bool" where
  "handle_ok s h \<longleftrightarrow> seen_by s (fst h) = snd h \<and> farc (fst h) \<le> arc (sbuf s) \<and>
     (farc (fst h) = arc (sbuf s) \<longrightarrow> foff (fst h) + flen (fst h) \<le> off (sbuf s) + blen (sbuf s))"

definition sys_inv :: "Sys \<Rightarrow> bool" where
  "sys_inv s \<longleftrightarrow> buf_inv (sbuf s) \<and> (\<forall>h \<in> set (shandles s). handle_ok s h)"

lemma seen_by_take:
  "k + n \<le> m \<Longrightarrow> take m xs = take m ys \<Longrightarrow> take n (drop k xs) = take n (drop k ys)"
  by (metis add.commute drop_take le_add2 min.absorb1 take_drop take_take)

lemma handle_ok_same_alloc:
  assumes "handle_ok s h" "arc b' = arc (sbuf s)" "off (sbuf s) + blen (sbuf s) \<le> off b' + blen b'"
    and "take (off (sbuf s) + blen (sbuf s)) (vec b') = take (off (sbuf s) + blen (sbuf s)) (vec (sbuf s))"
  shows "handle_ok (s\<lparr>sbuf := b'\<rparr>) h"
proof (cases "farc (fst h) = arc (sbuf s)")
  case True
  with assms(1) have "foff (fst h) + flen (fst h) \<le> off (sbuf s) + blen (sbuf s)" by (simp add: handle_ok_def)
  from seen_by_take [OF this assms(4)] True assms show ?thesis
    by (simp add: handle_ok_def seen_by_def alloc_of_def)
next
  case False
  with assms show ?thesis by (auto simp: handle_ok_def seen_by_def alloc_of_def)
qed

lemma sys_step_inv: "sys_step s s' \<Longrightarrow> sys_inv s \<Longrightarrow> sys_inv s'"
proof (induction rule: sys_step.induct)
  case (read d s b')
  then show ?case
    using write_spare_spec [of "sbuf s" d] by (auto simp: sys_inv_def intro!: handle_ok_same_alloc)
next
  case (advance s n b')
  then have "n \<le> blen (sbuf s)" by (auto simp: advance_def split: if_splits)
  with advance show ?case
    using advance_spec [of "sbuf s" n] by (auto simp: sys_inv_def intro!: handle_ok_same_alloc)
next
  case (reserve s n b')
  let ?s = "s\<lparr>sbuf := b', sleft := (sleft s)(arc (sbuf s) := vec (sbuf s))\<rparr>"
  from reserve have inv: "buf_inv (sbuf s)" by (simp add: sys_inv_def)
  note r = reserve_spec [OF inv reserve.hyps]
  have "handle_ok ?s h" if "h \<in> set (shandles s)" for h
  proof -
    from that reserve.prems have h: "handle_ok s h" by (simp add: sys_inv_def)
    from r consider "b' = sbuf s" | "unique s" "arc b' = arc (sbuf s)" | "arc b' = Suc (arc (sbuf s))" by blast
    then show ?thesis
      by cases (use h that in \<open>auto simp: handle_ok_def seen_by_def alloc_of_def unique_def\<close>)
  qed
  with r show ?case by (simp add: sys_inv_def)
next
  case (filled s)
  then show ?case
    by (auto simp: sys_inv_def handle_ok_def seen_by_def alloc_of_def filled_def as_slice_def)
next
  case (drop hs' s)
  have "handle_ok (s\<lparr>shandles := hs'\<rparr>) h = handle_ok s h" for h
    by (simp add: handle_ok_def seen_by_def alloc_of_def)
  with drop show ?case by (auto simp: sys_inv_def)
qed

lemma sys_reachable_inv: "sys_reachable n s \<Longrightarrow> sys_inv s"
proof (induction rule: sys_reachable.induct)
  case init
  show ?case by (simp add: sys_inv_def sys_new_def)
qed (auto intro: sys_step_inv)

lemma sys_handles: "sys_reachable n s \<Longrightarrow> (h, d) \<in> set (shandles s) \<Longrightarrow> seen_by s h = d"
  by (fastforce dest!: sys_reachable_inv simp: sys_inv_def handle_ok_def)

end
