(* ===== verification/Bytes_Reader.thy ===== *)
theory Bytes_Reader
  imports Async_Io Buffer_Mut
begin

text \<open>
  \<open>BytesReader\<close> of \<open>harmonia-utils-io/src/bytes_reader/reader.rs\<close>: any \<open>AsyncRead\<close> made an
  \<open>AsyncBytesRead\<close>, with a \<open>BufferMut\<close> that grows up to a limit. Whether a client still holds
  the bytes of an earlier fill when the buffer has to be grown is the client's business: the
  field \<open>shared\<close> answers it for each call of \<open>reserve\<close>.

  The facts: over every source that keeps the contract of \<open>AsyncRead\<close>, the reader keeps the contract
  of \<open>AsyncBytesRead\<close> (\<open>bytes_reader_contract\<close>), and the memory it holds is bounded by its limit.
\<close>

definition DEFAULT_RESERVED_BUF_SIZE :: nat where
  "DEFAULT_RESERVED_BUF_SIZE = 8192"

definition DEFAULT_MAX_BUF_SIZE :: nat where
  "DEFAULT_MAX_BUF_SIZE = 1024 * 1024 * 8"

record 'r BytesReader =
  inner :: 'r
  rbuf :: BufferMut
  reserved_buf_size :: nat
  max_buf_size :: nat
  shared :: "nat \<Rightarrow> bool"
  reserves :: nat

definition br_build :: "nat \<Rightarrow> nat \<Rightarrow> (nat \<Rightarrow> bool) \<Rightarrow> 'r \<Rightarrow> 'r BytesReader" where
  "br_build reserved max_size sh reader =
     \<lparr>inner = reader, rbuf = with_capacity (reserved * 2), reserved_buf_size = reserved,
      max_buf_size = max_size, shared = sh, reserves = 0\<rparr>"

definition br_new :: "(nat \<Rightarrow> bool) \<Rightarrow> 'r \<Rightarrow> 'r BytesReader" where
  "br_new = br_build DEFAULT_RESERVED_BUF_SIZE DEFAULT_MAX_BUF_SIZE"

definition remaining_mut :: "'r BytesReader \<Rightarrow> nat" where
  "remaining_mut br = bcap (rbuf br) - blen (rbuf br)"

definition too_large :: "nat \<Rightarrow> io_error" where
  "too_large cap = IoError InvalidData (''buffer '' @ show_nat cap @ '' is too large'')"

definition buf_reserve :: "'r BytesReader \<Rightarrow> nat \<Rightarrow> 'r BytesReader option" where
  "buf_reserve br additional =
     (case reserve (\<not> shared br (reserves br)) (rbuf br) additional of
        None \<Rightarrow> None
      | Some b \<Rightarrow> Some (br\<lparr>rbuf := b, reserves := Suc (reserves br)\<rparr>))"

definition br_reserve :: "'r BytesReader \<Rightarrow> nat \<Rightarrow> ('r BytesReader \<times> unit io_result) option" where
  "br_reserve br additional =
     (case buf_reserve br additional of
        None \<Rightarrow> None
      | Some br1 \<Rightarrow>
          if max_buf_size br1 < bcap (rbuf br1) then Some (br1, Inl (too_large (bcap (rbuf br1))))
          else Some (br1, Inr ()))"

definition read_spare :: "('r \<Rightarrow> nat \<Rightarrow> ('r, bytes) polled) \<Rightarrow> 'r BytesReader \<Rightarrow> ('r BytesReader, nat) polled" where
  "read_spare read br =
     (case read (inner br) (remaining_mut br) of
        None \<Rightarrow> None
      | Some (r, Pending) \<Rightarrow> Some (br\<lparr>inner := r\<rparr>, Pending)
      | Some (r, Ready (Inl e)) \<Rightarrow> Some (br\<lparr>inner := r\<rparr>, Ready (Inl e))
      | Some (r, Ready (Inr d)) \<Rightarrow>
          (case advance_mut (write_spare (rbuf br) d) (length d) of
             None \<Rightarrow> None
           | Some b \<Rightarrow> Some (br\<lparr>inner := r, rbuf := b\<rparr>, Ready (Inr (length d)))))"

definition poll_force_fill_buf_internal ::
  "('r \<Rightarrow> nat \<Rightarrow> ('r, bytes) polled) \<Rightarrow> 'r BytesReader \<Rightarrow> ('r BytesReader, nat) polled" where
  "poll_force_fill_buf_internal read br =
     (if remaining_mut br < reserved_buf_size br then
        (case br_reserve br (reserved_buf_size br) of
           None \<Rightarrow> None
         | Some (br1, Inl e) \<Rightarrow> Some (br1, Ready (Inl e))
         | Some (br1, Inr _) \<Rightarrow> read_spare read br1)
      else read_spare read br)"

definition br_force :: "('r \<Rightarrow> nat \<Rightarrow> ('r, bytes) polled) \<Rightarrow> 'r BytesReader \<Rightarrow> ('r BytesReader, bytes) polled" where
  "br_force read br =
     (case poll_force_fill_buf_internal read br of
        None \<Rightarrow> None
      | Some (br1, Pending) \<Rightarrow> Some (br1, Pending)
      | Some (br1, Ready (Inl e)) \<Rightarrow> Some (br1, Ready (Inl e))
      | Some (br1, Ready (Inr n)) \<Rightarrow>
          if n = 0 then Some (br1, Ready (Inl (IoError UnexpectedEof ''EOF while force reading'')))
          else Some (br1, Ready (Inr (as_slice (rbuf br1)))))"

definition br_fill :: "('r \<Rightarrow> nat \<Rightarrow> ('r, bytes) polled) \<Rightarrow> 'r BytesReader \<Rightarrow> ('r BytesReader, bytes) polled" where
  "br_fill read br =
     (if blen (rbuf br) = 0 then
        (case poll_force_fill_buf_internal read br of
           None \<Rightarrow> None
         | Some (br1, Pending) \<Rightarrow> Some (br1, Pending)
         | Some (br1, Ready (Inl e)) \<Rightarrow> Some (br1, Ready (Inl e))
         | Some (br1, Ready (Inr _)) \<Rightarrow> Some (br1, Ready (Inr (as_slice (rbuf br1)))))
      else Some (br, Ready (Inr (as_slice (rbuf br)))))"

text \<open>The two sums are of \<open>usize\<close>; the second is made only where the first comparison holds.\<close>

definition br_prepare :: "'r BytesReader \<Rightarrow> nat \<Rightarrow> 'r BytesReader option" where
  "br_prepare br additional =
     (let len = blen (rbuf br) + blen (rbuf br) in
      if 2 ^ 64 \<le> len then None
      else if len < additional then
        (if 2 ^ 64 \<le> bcap (rbuf br) + additional then None
         else if bcap (rbuf br) + additional < max_buf_size br then buf_reserve br (additional - len)
         else Some br)
      else Some br)"

definition br_consume :: "'r BytesReader \<Rightarrow> nat \<Rightarrow> 'r BytesReader option" where
  "br_consume br amt =
     (case advance (rbuf br) amt of None \<Rightarrow> None | Some b \<Rightarrow> Some (br\<lparr>rbuf := b\<rparr>))"

definition bytes_reader_ops :: "('r \<Rightarrow> nat \<Rightarrow> ('r, bytes) polled) \<Rightarrow> 'r BytesReader BytesRead" where
  "bytes_reader_ops read =
     \<lparr>op_read = poll_read_by_fill (br_fill read) br_consume, op_fill = br_fill read,
      op_force = br_force read, op_prepare = br_prepare, op_consume = br_consume\<rparr>"

section \<open>The contract\<close>

definition br_avail :: "'r BytesReader \<Rightarrow> bytes" where
  "br_avail br = as_slice (rbuf br)"

definition br_rest :: "('r \<Rightarrow> bytes) \<Rightarrow> 'r BytesReader \<Rightarrow> bytes" where
  "br_rest rest br = br_avail br @ rest (inner br)"

definition br_good :: "('r \<Rightarrow> bool) \<Rightarrow> 'r BytesReader \<Rightarrow> bool" where
  "br_good good br \<longleftrightarrow> good (inner br) \<and> buf_inv (rbuf br) \<and> 0 < reserved_buf_size br \<and>
     reserved_buf_size br \<le> max_buf_size br \<and> 8 \<le> max_buf_size br \<and> max_buf_size br < 2 ^ 60 \<and>
     length (vec (rbuf br)) \<le> 4 * max_buf_size br"

definition br_err :: "(io_error \<Rightarrow> bool) \<Rightarrow> io_error \<Rightarrow> bool" where
  "br_err src_err e \<longleftrightarrow> src_err e \<or> (\<exists>cap. e = too_large cap)"

text \<open>The states that the calls of the reader's interface lead to, as long as none of them fails.\<close>

inductive br_reachable :: "('r \<Rightarrow> nat \<Rightarrow> ('r, bytes) polled) \<Rightarrow> 'r BytesReader \<Rightarrow> 'r BytesReader \<Rightarrow> bool"
  for read br0 where
  start: "br_reachable read br0 br0"
| reads: "br_reachable read br0 br \<Longrightarrow> op_read (bytes_reader_ops read) br cap = Some (br', res) \<Longrightarrow> \<not> is_err res \<Longrightarrow>
    br_reachable read br0 br'"
| fills: "br_reachable read br0 br \<Longrightarrow> op_fill (bytes_reader_ops read) br = Some (br', res) \<Longrightarrow> \<not> is_err res \<Longrightarrow>
    br_reachable read br0 br'"
| forces: "br_reachable read br0 br \<Longrightarrow> op_force (bytes_reader_ops read) br = Some (br', res) \<Longrightarrow> \<not> is_err res \<Longrightarrow>
    br_reachable read br0 br'"
| prepares: "br_reachable read br0 br \<Longrightarrow> n < 2 ^ 63 \<Longrightarrow> op_prepare (bytes_reader_ops read) br n = Some br' \<Longrightarrow>
    br_reachable read br0 br'"
| consumes: "br_reachable read br0 br \<Longrightarrow> n \<le> length (br_avail br) \<Longrightarrow>
    op_consume (bytes_reader_ops read) br n = Some br' \<Longrightarrow> br_reachable read br0 br'"

text \<open>No call changes the limit.\<close>

lemma force_internal_max:
  "poll_force_fill_buf_internal read br = Some (br', res) \<Longrightarrow> max_buf_size br' = max_buf_size br"
  by (auto simp: poll_force_fill_buf_internal_def read_spare_def br_reserve_def buf_reserve_def
      split: if_splits option.splits poll.splits sum.splits)

lemma br_fill_max: "br_fill read br = Some (br', res) \<Longrightarrow> max_buf_size br' = max_buf_size br"
  by (auto simp: br_fill_def dest: force_internal_max split: if_splits option.splits poll.splits sum.splits)

lemma br_max_kept:
  "br_force read br = Some (br', res) \<Longrightarrow> max_buf_size br' = max_buf_size br"
  "br_prepare br n = Some br' \<Longrightarrow> max_buf_size br' = max_buf_size br"
  "br_consume br n = Some br' \<Longrightarrow> max_buf_size br' = max_buf_size br"
  "poll_read_by_fill (br_fill read) br_consume br cap = Some (br', res) \<Longrightarrow> max_buf_size br' = max_buf_size br"
  by (auto simp: br_force_def br_prepare_def br_consume_def poll_read_by_fill_def buf_reserve_def Let_def
      dest!: force_internal_max br_fill_max split: if_splits option.splits poll.splits sum.splits)

lemma br_build_good:
  "good r \<Longrightarrow> 0 < reserved \<Longrightarrow> reserved \<le> max_size \<Longrightarrow> 8 \<le> max_size \<Longrightarrow> max_size < 2 ^ 60 \<Longrightarrow>
     br_good good (br_build reserved max_size sh r) \<and> br_rest rest (br_build reserved max_size sh r) = rest r"
  by (simp add: br_good_def br_build_def br_rest_def br_avail_def)

lemma br_reserve_spec:
  assumes "br_good good br"
  shows "\<exists>br' x. br_reserve br (reserved_buf_size br) = Some (br', x) \<and> br_avail br' = br_avail br \<and>
     inner br' = inner br \<and> blen (rbuf br') = blen (rbuf br) \<and>
     (case x of Inl e \<Rightarrow> \<exists>cap. e = too_large cap
      | Inr _ \<Rightarrow> br_good good br' \<and> reserved_buf_size br' \<le> remaining_mut br')"
proof -
  let ?n = "reserved_buf_size br" and ?m = "max_buf_size br" and ?b = "rbuf br"
  from assms have g: "good (inner br)" "buf_inv ?b" "0 < ?n" "?n \<le> ?m" "8 \<le> ?m" "?m < 2 ^ 60"
    "length (vec ?b) \<le> 4 * ?m" by (auto simp: br_good_def)
  let ?u = "\<not> shared br (reserves br)"
  obtain b' where b': "reserve ?u ?b ?n = Some b'"
    using reserve_total [OF g(2)] g by fastforce
  note r = reserve_spec [OF g(2) b']
  have "2 * length (vec ?b) < 2 ^ 64" using g by simp
  note c = reserve_capacity [OF g(2) this b']
  have "length (vec b') \<le> 4 * ?m" if "bcap b' \<le> ?m"
  proof -
    have "length (vec b') = off b' + bcap b'" "blen ?b \<le> bcap b'" using r by (auto simp: buf_inv_def)
    with c that g show ?thesis by linarith
  qed
  with b' r g show ?thesis
    by (auto simp: br_reserve_def buf_reserve_def br_avail_def br_good_def remaining_mut_def)
qed


lemma br_prepare_spec:
  assumes "br_good good br" "n < 2 ^ 63"
  shows "\<exists>br'. br_prepare br n = Some br' \<and> br_good good br' \<and> br_rest rest br' = br_rest rest br"
proof -
  have "blen (rbuf br) \<le> bcap (rbuf br)" "length (vec (rbuf br)) = off (rbuf br) + bcap (rbuf br)" "length (vec (rbuf br)) \<le> 4 * max_buf_size br" "max_buf_size br < 2 ^ 60"
    using assms(1) by (auto simp: br_good_def buf_inv_def)
  then have "\<not> 2 ^ 64 \<le> blen (rbuf br) + blen (rbuf br)" "\<not> 2 ^ 64 \<le> bcap (rbuf br) + n" using assms(2) by simp_all
  then have prep: "br_prepare br n = (if blen (rbuf br) + blen (rbuf br) < n \<and> bcap (rbuf br) + n < max_buf_size br
      then buf_reserve br (n - (blen (rbuf br) + blen (rbuf br))) else Some br)" unfolding br_prepare_def Let_def by auto
  show ?thesis
  proof (cases "blen (rbuf br) + blen (rbuf br) < n \<and> bcap (rbuf br) + n < max_buf_size br")
    case False
    with assms(1) show ?thesis by (auto simp: prep)
  next
    case True
    let ?m = "max_buf_size br" and ?b = "rbuf br"
    let ?n = "n - (blen ?b + blen ?b)"
    from assms(1) have g: "good (inner br)" "buf_inv ?b" "?m < 2 ^ 60" "8 \<le> ?m"
      "length (vec ?b) \<le> 4 * ?m" by (auto simp: br_good_def)
    let ?u = "\<not> shared br (reserves br)"
    have "2 * length (vec ?b) + ?n < 2 ^ 64" using g True by auto
    then obtain b' where b': "reserve ?u ?b ?n = Some b'"
      using reserve_total [OF g(2), of ?n ?u] by blast
    note r = reserve_spec [OF g(2) b']
    have "2 * length (vec ?b) < 2 ^ 64" using g by simp
    note c = reserve_capacity [OF g(2) this b']
    have "blen ?b \<le> bcap ?b" "length (vec ?b) = off ?b + bcap ?b" using g(2) by (auto simp: buf_inv_def)
    with c g True have "length (vec b') \<le> 4 * ?m" by auto
    with b' r True assms(1) show ?thesis
      by (auto simp: prep buf_reserve_def br_avail_def br_good_def br_rest_def)
  qed
qed

lemma br_consume_spec:
  assumes "br_good good br" "n \<le> length (br_avail br)"
  shows "\<exists>br'. br_consume br n = Some br' \<and> br_good good br' \<and>
     br_rest rest br' = drop n (br_rest rest br) \<and> length (br_avail br') = length (br_avail br) - n"
proof -
  from assms have inv: "buf_inv (rbuf br)" by (simp add: br_good_def)
  with assms(2) have "n \<le> blen (rbuf br)" by (simp add: br_avail_def)
  from advance_spec [OF inv this] assms show ?thesis
    by (auto simp: br_consume_def br_good_def br_rest_def br_avail_def)
qed

context async_read
begin

lemma read_spare_spec:
  assumes "br_good good br" "0 < remaining_mut br"
  shows "\<exists>br' res. read_spare read br = Some (br', res) \<and>
     (is_err res \<or> br_good good br' \<and> length (br_avail br) \<le> length (br_avail br')) \<and>
     br_rest rest br' = br_rest rest br \<and>
     (case res of Pending \<Rightarrow> True | Ready (Inl e) \<Rightarrow> src_err e
      | Ready (Inr n) \<Rightarrow> length (br_avail br') = length (br_avail br) + n \<and>
          (n = 0 \<longrightarrow> rest (inner br) = []))"
proof -
  from assms have g: "good (inner br)" "buf_inv (rbuf br)" by (auto simp: br_good_def)
  obtain r' res where rd: "read (inner br) (remaining_mut br) = Some (r', res)"
    and g': "is_err res \<or> good r'"
    and post: "read_post src_err (remaining_mut br) (rest (inner br)) (rest r') res"
    using read_law [OF g(1)] by blast
  consider "res = Pending" | e where "res = Ready (Inl e)" | d where "res = Ready (Inr d)"
    by (metis poll.exhaust sum.exhaust)
  then show ?thesis
  proof cases
    case (3 d)
    with post have d: "length d \<le> bcap (rbuf br) - blen (rbuf br)" "rest (inner br) = d @ rest r'"
      "d = [] \<longrightarrow> rest (inner br) = []"
      using assms(2) by (auto simp: remaining_mut_def)
    obtain b' where b': "advance_mut (write_spare (rbuf br) d) (length d) = Some b'" "buf_inv b'"
      "as_slice b' = as_slice (rbuf br) @ d" "length (vec b') = length (vec (rbuf br))"
      using write_spare_spec [OF g(2) d(1)] by blast
    with rd g' d assms(1) 3 show ?thesis
      by (auto simp: read_spare_def br_good_def br_rest_def br_avail_def)
  qed (use rd g' post assms(1) in \<open>auto simp: read_spare_def br_good_def br_rest_def br_avail_def\<close>)
qed

lemma force_internal_spec:
  assumes "br_good good br"
  shows "\<exists>br' res. poll_force_fill_buf_internal read br = Some (br', res) \<and>
     (is_err res \<or> br_good good br' \<and> length (br_avail br) \<le> length (br_avail br')) \<and>
     br_rest rest br' = br_rest rest br \<and>
     (case res of Pending \<Rightarrow> True | Ready (Inl e) \<Rightarrow> br_err src_err e
      | Ready (Inr n) \<Rightarrow> length (br_avail br') = length (br_avail br) + n \<and>
          (n = 0 \<longrightarrow> rest (inner br) = []))"
proof (cases "remaining_mut br < reserved_buf_size br")
  case False
  moreover have "0 < reserved_buf_size br" using assms by (simp add: br_good_def)
  ultimately show ?thesis
    using read_spare_spec [OF assms]
    by (fastforce simp: poll_force_fill_buf_internal_def br_err_def split: poll.splits sum.splits)
next
  case True
  obtain br1 x where rs: "br_reserve br (reserved_buf_size br) = Some (br1, x)"
    and br1: "br_avail br1 = br_avail br" "inner br1 = inner br"
    and x: "case x of Inl e \<Rightarrow> \<exists>cap. e = too_large cap
      | Inr _ \<Rightarrow> br_good good br1 \<and> reserved_buf_size br1 \<le> remaining_mut br1"
    using br_reserve_spec [OF assms] by blast
  show ?thesis
  proof (cases x)
    case (Inl e)
    with True rs br1 x show ?thesis
      by (auto simp: poll_force_fill_buf_internal_def br_err_def br_rest_def)
  next
    case (Inr u)
    with x have g1: "br_good good br1" and "0 < remaining_mut br1" by (auto simp: br_good_def)
    from read_spare_spec [OF this] obtain br' res where
      "read_spare read br1 = Some (br', res)"
      "is_err res \<or> br_good good br' \<and> length (br_avail br1) \<le> length (br_avail br')"
      "br_rest rest br' = br_rest rest br1"
      "case res of Pending \<Rightarrow> True | Ready (Inl e) \<Rightarrow> src_err e
       | Ready (Inr n) \<Rightarrow> length (br_avail br') = length (br_avail br1) + n \<and> (n = 0 \<longrightarrow> rest (inner br1) = [])"
      by blast
    with True rs br1 Inr show ?thesis
      by (auto simp: poll_force_fill_buf_internal_def br_err_def br_rest_def split: poll.splits sum.splits)
  qed
qed

lemma br_fill_spec:
  assumes "br_good good br"
  shows "\<exists>br' res. br_fill read br = Some (br', res) \<and>
     (is_err res \<or> br_good good br' \<and> length (br_avail br) \<le> length (br_avail br')) \<and>
     br_rest rest br' = br_rest rest br \<and> fill_post (br_err src_err) (br_rest rest br) (br_avail br') res"
proof (cases "blen (rbuf br) = 0")
  case False
  moreover have "br_avail br \<noteq> []"
    using False assms by (metis br_avail_def br_good_def length_as_slice list.size(3))
  ultimately show ?thesis using assms by (simp add: br_fill_def br_avail_def br_rest_def)
next
  case True
  then have av: "br_avail br = []" by (simp add: br_avail_def as_slice_def)
  obtain br' res where f: "poll_force_fill_buf_internal read br = Some (br', res)"
    "is_err res \<or> br_good good br' \<and> length (br_avail br) \<le> length (br_avail br')" "br_rest rest br' = br_rest rest br"
    and p: "case res of Pending \<Rightarrow> True | Ready (Inl e) \<Rightarrow> br_err src_err e
      | Ready (Inr n) \<Rightarrow> length (br_avail br') = length (br_avail br) + n \<and> (n = 0 \<longrightarrow> rest (inner br) = [])"
    using force_internal_spec [OF assms] by blast
  consider "res = Pending" | e where "res = Ready (Inl e)" | n where "res = Ready (Inr n)"
    by (metis poll.exhaust sum.exhaust)
  then show ?thesis
    by cases (use True f p av in \<open>auto simp: br_fill_def br_avail_def [symmetric] br_rest_def\<close>)
qed

lemma br_force_spec:
  assumes "br_good good br"
  shows "\<exists>br' res. br_force read br = Some (br', res) \<and>
     (is_err res \<or> br_good good br' \<and> length (br_avail br) \<le> length (br_avail br')) \<and>
     br_rest rest br' = br_rest rest br \<and>
     force_post (br_err src_err) (br_rest rest br) (br_avail br) (br_avail br') res"
proof -
  obtain br' res where f: "poll_force_fill_buf_internal read br = Some (br', res)"
    "is_err res \<or> br_good good br' \<and> length (br_avail br) \<le> length (br_avail br')" "br_rest rest br' = br_rest rest br"
    and p: "case res of Pending \<Rightarrow> True | Ready (Inl e) \<Rightarrow> br_err src_err e
      | Ready (Inr n) \<Rightarrow> length (br_avail br') = length (br_avail br) + n \<and> (n = 0 \<longrightarrow> rest (inner br) = [])"
    using force_internal_spec [OF assms] by blast
  consider "res = Pending" | e where "res = Ready (Inl e)" | n where "res = Ready (Inr n)"
    by (metis poll.exhaust sum.exhaust)
  then show ?thesis
    by cases (use f p in \<open>auto simp: br_force_def br_avail_def [symmetric] br_rest_def\<close>)
qed

lemma bytes_reader_source:
  "buf_source (br_rest rest) (br_good good) (br_err src_err) (br_fill read) br_consume br_avail"
proof (rule buf_sourceI)
  show "prefix (br_avail br) (br_rest rest br)" for br :: "'r BytesReader"
    by (simp add: br_rest_def)
qed (simp_all add: br_fill_spec br_consume_spec)

lemma br_read_pending:
  assumes "br_good good br" "poll_read_by_fill (br_fill read) br_consume br cap = Some (br', Pending)"
  shows "br_avail br = []"
  using assms
  by (auto simp: poll_read_by_fill_def br_fill_def br_avail_def as_slice_def Let_def
      split: option.splits prod.splits poll.splits sum.splits if_splits)

lemma bytes_reader_contract:
  "bytes_read (bytes_reader_ops read) (br_rest rest) (br_good good) (br_err src_err) br_avail"
proof -
  have "async_read (poll_read_by_fill (br_fill read) br_consume) (br_rest rest) (br_good good) (br_err src_err)"
    using fill_source.poll_read_by_fill_spec [OF buf_source.axioms(1) [OF bytes_reader_source]] by unfold_locales
  with bytes_reader_source fill_source.poll_read_by_fill_avail [OF buf_source.axioms(1) [OF bytes_reader_source]] show ?thesis
    by (simp add: bytes_reader_ops_def bytes_read_def bytes_read_axioms_def br_force_spec br_prepare_spec
        br_read_pending)
qed

text \<open>Every law of the contract hands on \<open>br_good\<close>, so every reachable state has it, with its bound on the memory.\<close>

lemma br_reachable_good:
  assumes "br_reachable read br0 br" "br_good good br0"
  shows "br_good good br"
  using assms
proof induction
  case (reads br cap br' res)
  then show ?case using bytes_reader_contract
    by (metis async_read.read_law bytes_read.axioms(1) option.inject prod.inject)
next
  case (fills br br' res)
  then show ?case using br_fill_spec [of br] by (auto simp: bytes_reader_ops_def)
next
  case (forces br br' res)
  then show ?case using br_force_spec [of br] by (auto simp: bytes_reader_ops_def)
next
  case (prepares br n br')
  then show ?case using br_prepare_spec [of good br n] by (auto simp: bytes_reader_ops_def)
next
  case (consumes br n br')
  then show ?case using br_consume_spec [of good br n] by (auto simp: bytes_reader_ops_def)
qed

lemma br_reachable_memory:
  assumes "br_reachable read (br_build reserved max_size sh r) br" "good r" "0 < reserved" "reserved \<le> max_size"
    "8 \<le> max_size" "max_size < 2 ^ 60"
  shows "length (vec (rbuf br)) \<le> 4 * max_size"
proof -
  have "max_buf_size br = max_size" using assms(1)
  proof induction
    case start
    show ?case by (simp add: br_build_def)
  qed (auto simp: bytes_reader_ops_def dest: br_max_kept br_fill_max)
  moreover have "br_good good br"
    using br_reachable_good [OF assms(1)] br_build_good [of good r reserved max_size sh] assms(2-6) by blast
  ultimately show ?thesis by (simp add: br_good_def)
qed

end

interpretation sbr: bytes_read "bytes_reader_ops script_read" "br_rest script_rest"
    "br_good (script_good E)" "br_err (\<lambda>e. e \<in> E)" br_avail for E
  by (rule script.bytes_reader_contract)

end
