(* ===== verification/Io_Properties.thy ===== *)
theory Io_Properties
  imports Bytes_Reader
begin

text \<open>
  The properties of the I/O layer, \<open>harmonia-utils-io\<close>, stated over every source that keeps the
  contract of its trait. Each is reached through the lemmas of the locales of \<open>Async_Io\<close> and is
  then applied to a concrete source.
\<close>

section \<open>Alignment\<close>

text \<open>
  The padding of the wire format is always below eight and always completes the length to
  a multiple of eight, also where the wrapping addition of \<open>calc_aligned\<close> overflows.
\<close>

theorem calc_padding_completes:
  "calc_padding len < 8 \<and> 8 dvd (unat len + calc_padding len)"
  by (simp add: calc_padding_less aligned_dvd)

section \<open>Futures over a source\<close>

text \<open>
  One poll of \<open>TryReadU64\<close>, started or resumed, over every source that keeps the contract of
  \<open>AsyncRead\<close>: it never panics; a number that it returns is the little-endian value of the next
  eight bytes of the stream and the source stands right behind them; it returns \<open>None\<close> only where
  the stream is at its end, and its own \<open>UnexpectedEof\<close> only where fewer than eight bytes were left;
  a poll that returns no number has lost nothing of the stream.
\<close>

theorem u64_poll_exact:
  assumes "async_read read rest good src_err" "u64_ok t" "good r"
  shows "\<exists>t' r' res. u64_poll_reader read t r = Some (t', r', res) \<and> u64_ok t' \<and> (is_err res \<or> good r') \<and>
    u64_post src_err (u64_seen t @ rest r) (rest r') res \<and>
    (res = Pending \<or> is_err res \<or> res = Ready (Inr None) \<longrightarrow> u64_seen t' @ rest r' = u64_seen t @ rest r)"
  by (rule async_read.u64_poll_reader_spec [OF assms])

theorem u64_poll_exact_witness:
  "\<exists>t' s' res. u64_poll_reader script_read u64_new [SData [1, 2, 3], SPending, SData [4]] = Some (t', s', res) \<and>
     u64_ok t' \<and> u64_post (\<lambda>_. False) [1, 2, 3, 4] (script_rest s') res"
proof -
  have ok: "u64_ok u64_new" "u64_seen u64_new = []" by (simp_all add: u64_ok_def u64_new_def u64_seen_def)
  have "script_good {} [SData [1, 2, 3], SPending, SData [4]]" by (simp add: script_good_def)
  from u64_poll_exact [OF script.async_read_axioms ok(1) this] ok(2) show ?thesis by auto
qed

text \<open>
  One poll of \<open>TryReadBytesLimited\<close> over every source that keeps the contract of
  \<open>AsyncBytesRead\<close>, at any state the future can be in: it never panics; bytes that it returns are
  the contents of the length-prefixed, zero-padded string at the head of the stream, with a length within
  the limits, and the source stands right behind the padding; it fails of its own only where no such
  string is at the head of the stream; it returns \<open>None\<close> only at the end of the stream; a poll that
  is pending has lost nothing of the stream.
\<close>

theorem bytes_poll_exact:
  assumes "bytes_read ops rest good src_err avail" "bytes_ok lo hi t" "good r"
  shows "\<exists>t' r' res. bytes_poll_reader ops t r = Some (t', r', res) \<and> (is_err res \<or> good r') \<and>
    bytes_post src_err lo hi (bytes_stream t (rest r)) (rest r') res \<and>
    (res = Pending \<longrightarrow> bytes_ok lo hi t' \<and> bytes_stream t' (rest r') = bytes_stream t (rest r))"
  by (rule bytes_read.bytes_poll_reader_spec [OF assms])

theorem bytes_poll_exact_witness:
  "\<exists>t' c' res. bytes_poll_reader cursor_ops (bytes_limited_new 0 10) \<lparr>cdata = nix_slice [104, 105] @ [9], cpos = 0\<rparr> =
       Some (t', c', res) \<and>
     bytes_post (\<lambda>_. False) 0 10 (nix_slice [104, 105] @ [9]) (cursor_rest c') res"
proof -
  have ok: "bytes_ok 0 10 (bytes_limited_new 0 10)"
      "bytes_stream (bytes_limited_new 0 10) b = b" for b
    by (simp_all add: bytes_limited_new_def u64_ok_def u64_new_def u64_seen_def)
  have "cursor_good \<lparr>cdata = nix_slice [104, 105] @ [9], cpos = 0\<rparr>" by (simp add: cursor_good_def)
  from bytes_poll_exact [OF cursor.bytes_read_axioms ok(1) this] ok(2) show ?thesis
    by (auto simp: cursor_rest_def)
qed

section \<open>Buffers\<close>

text \<open>
  \<open>BufferMut::reserve\<close>, whether the allocation is unique (and is then reused, shifted or grown in
  place) or shared (and is then copied): if it returns, the contents and their length are unchanged, the requested room
  is there, the representation invariant holds, and an allocation that others still see is never written to.
  It returns unless the sizes overflow the address space.
\<close>

theorem reserve_keeps_contents:
  assumes "buf_inv b" "2 * length (vec b) + n < 2 ^ 64"
  shows "\<exists>b'. reserve uniq b n = Some b' \<and> buf_inv b' \<and> as_slice b' = as_slice b \<and> n \<le> bcap b' - blen b' \<and>
     (b' = b \<or> uniq \<and> arc b' = arc b \<or> \<not> uniq \<and> arc b' = Suc (arc b))"
  using reserve_total [OF assms, of uniq] reserve_spec [OF assms(1)] by blast

theorem reserve_keeps_contents_witness:
  "\<exists>b'. reserve False (with_capacity 4) 9 = Some b' \<and> as_slice b' = [] \<and> 9 \<le> bcap b' - blen b' \<and> arc b' = 1"
  using reserve_keeps_contents [of "with_capacity 4" 9 False]
  by (auto simp: buf_inv_def with_capacity_def as_slice_def)

text \<open>
  C28. In every state that reads, \<open>advance\<close>, \<open>reserve\<close>, \<open>filled\<close> and drops of handles can lead to, in any
  order, the bytes a live handle was given are still the bytes it sees: the buffer is shared without being
  changed under its readers.
\<close>

theorem handles_never_change:
  assumes "sys_reachable n s" "(h, d) \<in> set (shandles s)"
  shows "seen_by s h = d"
  using assms by (rule sys_handles)

theorem handles_never_change_witness:
  "\<exists>s h. sys_reachable 4 s \<and> (h, []) \<in> set (shandles s) \<and> seen_by s h = []"
proof -
  let ?s = "(sys_new 4)\<lparr>shandles := [(filled (with_capacity 4), [])]\<rparr>"
  have "sys_step (sys_new 4) ?s"
    using sys_step.filled [of "sys_new 4"] by (simp add: sys_new_def as_slice_def with_capacity_def)
  then have "sys_reachable 4 ?s" by (blast intro: sys_reachable.intros)
  with handles_never_change [of 4 ?s "filled (with_capacity 4)" "[]"] show ?thesis by auto
qed

text \<open>
  C27. \<open>BytesReader\<close> over every \<open>AsyncRead\<close> source is an \<open>AsyncBytesRead\<close>: no byte of the source is lost,
  repeated or reordered by fills, forced fills, consumes, prepares and reads, a forced fill makes the
  buffered part grow or fails, an empty fill means the end, and no call panics, where a consume is of bytes
  that are buffered and a prepare asks for fewer than \<open>2 ^ 63\<close> bytes (the sum of the capacity and a larger
  amount may overflow). In every state that such calls lead to from a reader just built, as long
  as none of them has failed, the memory held is at most four times \<open>max_buf_size\<close>. The sizes given to the builder are
  a reserve between one and the maximum, and a maximum from 8 up to below \<open>2 ^ 60\<close>.
\<close>

theorem bytes_reader_is_source:
  assumes "async_read read rest good src_err"
  shows "bytes_read (bytes_reader_ops read) (br_rest rest) (br_good good) (br_err src_err) br_avail \<and>
    (good r \<and> 0 < reserved \<and> reserved \<le> max_size \<and> 8 \<le> max_size \<and> max_size < 2 ^ 60 \<longrightarrow>
       br_good good (br_build reserved max_size sh r) \<and>
       (\<forall>br. br_reachable read (br_build reserved max_size sh r) br \<longrightarrow>
          br_good good br \<and> length (vec (rbuf br)) \<le> 4 * max_size))"
  using async_read.bytes_reader_contract [OF assms] br_build_good [of good r reserved max_size sh]
    async_read.br_reachable_good [OF assms] async_read.br_reachable_memory [OF assms]
  by blast

theorem bytes_reader_is_source_witness:
  "bytes_read (bytes_reader_ops script_read) (br_rest script_rest) (br_good (script_good {})) (br_err (\<lambda>_. False)) br_avail \<and>
   (\<exists>br res. br_fill script_read (br_build 4 16 (\<lambda>_. True) [SData [1, 2], SPending]) = Some (br, res) \<and>
      res = Ready (Inr [1, 2]) \<and> length (vec (rbuf br)) \<le> 64)"
proof -
  let ?br = "br_build 4 16 (\<lambda>_. True) [SData [1, 2], SPending]"
  have good: "script_good {} [SData [1, 2], SPending]" by (simp add: script_good_def)
  note p = bytes_reader_is_source [OF script.async_read_axioms [of "{}"], of "[SData [1, 2], SPending]" 4 16 "\<lambda>_. True"]
  obtain br where f: "br_fill script_read ?br = Some (br, Ready (Inr [1, 2]))"
    by (simp add: br_fill_def br_build_def poll_force_fill_buf_internal_def read_spare_def remaining_mut_def
        with_capacity_def advance_mut_def write_spare_def as_slice_def)
  have "br_reachable script_read ?br br"
    using br_reachable.fills [OF br_reachable.start, of script_read ?br br "Ready (Inr [1, 2])"] f
    by (simp add: bytes_reader_ops_def)
  with p good f show ?thesis by auto
qed

end
