(* ===== verification/Radix_Tree.thy ===== *)
theory Radix_Tree
  imports Prelude
begin

text \<open>
  The array-based radix tree of \<open>harmonia-nar/src/archive/radix_tree.rs\<close>, with which the NAR
  reader selects a node type or the next directory entry while the bytes of the token may
  still be arriving. Nodes and edges live in two fixed arrays; a branch node owns a block of
  \<open>B\<close> edge slots. \<open>None\<close> is a panic: an index outside an array, a full branch, a token that
  is a prefix of another one.

  The facts: a lookup over split input is the lookup over the whole (\<open>lookup_append\<close>), a lookup
  finds exactly the tokens that were inserted (\<open>lookup_complete\<close>, \<open>lookup_partial\<close>,
  \<open>lookup_sound\<close>), and \<open>rtree_insert\<close> keeps the representation invariant and adds exactly its token
  (\<open>rtree_insert_first\<close>, \<open>rtree_insert_next\<close>).
\<close>

section \<open>Representation\<close>

datatype RLookup = Node nat | Edge nat nat

datatype RMatch = Matched nat | NeedsMore | Mismatch nat

record REdge =
  edge_prefix :: bytes
  edge_node_idx :: nat

datatype 'r RNode = Branch nat nat | Leaf 'r

record 'r RTree =
  nodes :: "'r RNode list"
  nodes_len :: nat
  edges :: "REdge list"
  edges_len :: nat

definition redge_new :: REdge where
  "redge_new = \<lparr>edge_prefix = [], edge_node_idx = 0\<rparr>"

definition rtree_new :: "nat \<Rightarrow> nat \<Rightarrow> 'r RTree" where
  "rtree_new n e =
     \<lparr>nodes = replicate n (Branch 0 0), nodes_len = 0,
      edges = replicate e redge_new, edges_len = 0\<rparr>"

section \<open>Operations\<close>

definition add_leaf_node :: "'r RTree \<Rightarrow> 'r \<Rightarrow> ('r RTree \<times> nat) option" where
  "add_leaf_node t v =
     (let idx = nodes_len t in
      if idx < length (nodes t)
      then Some (t\<lparr>nodes := (nodes t)[idx := Leaf v], nodes_len := idx + 1\<rparr>, idx)
      else None)"

definition add_branch_node :: "'r RTree \<Rightarrow> nat \<Rightarrow> nat \<Rightarrow> ('r RTree \<times> nat) option" where
  "add_branch_node t edge_idx len =
     (let idx = nodes_len t in
      if idx < length (nodes t)
      then Some (t\<lparr>nodes := (nodes t)[idx := Branch edge_idx len], nodes_len := idx + 1\<rparr>, idx)
      else None)"

definition add_edge_list :: "nat \<Rightarrow> 'r RTree \<Rightarrow> nat \<Rightarrow> bytes \<Rightarrow> ('r RTree \<times> nat \<times> nat) option" where
  "add_edge_list B t nidx pre =
     (let idx = edges_len t in
      if idx < length (edges t)
      then Some (t\<lparr>edges := (edges t)[idx := \<lparr>edge_prefix = pre, edge_node_idx = nidx\<rparr>],
                   edges_len := idx + B\<rparr>, idx, 1)
      else None)"

definition add_edge :: "nat \<Rightarrow> 'r RTree \<Rightarrow> nat \<Rightarrow> nat \<Rightarrow> bytes \<Rightarrow> 'r RTree option" where
  "add_edge B t nidx edge_nidx pre =
     (if nidx < length (nodes t) then
        (case nodes t ! nidx of
           Branch edge_idx len \<Rightarrow>
             if len = B then None
             else if edge_idx + len < length (edges t)
             then Some (t\<lparr>edges := (edges t)[edge_idx + len :=
                                        \<lparr>edge_prefix = pre, edge_node_idx = edge_nidx\<rparr>],
                          nodes := (nodes t)[nidx := Branch edge_idx (len + 1)]\<rparr>)
             else None
         | Leaf _ \<Rightarrow> None)
      else None)"

definition update_edge :: "'r RTree \<Rightarrow> nat \<Rightarrow> nat \<Rightarrow> bytes \<Rightarrow> 'r RTree option" where
  "update_edge t edge_idx nidx pre =
     (if edge_idx < length (edges t)
      then Some (t\<lparr>edges := (edges t)[edge_idx := \<lparr>edge_prefix = pre, edge_node_idx = nidx\<rparr>]\<rparr>)
      else None)"

text \<open>The scan over the edges of a branch for one whose prefix starts with the next byte.\<close>

function scan_edges :: "REdge list \<Rightarrow> u8 \<Rightarrow> nat \<Rightarrow> nat \<Rightarrow> nat option option" where
  "scan_edges es b start end =
     (if start < end then
        (if start < length es then
           (case edge_prefix (es ! start) of
              [] \<Rightarrow> None
            | p # _ \<Rightarrow> if b = p then Some (Some start) else scan_edges es b (start + 1) end)
         else None)
      else Some None)"
  by pat_completeness auto
termination
  by (relation "measure (\<lambda>(es, b, start, end). end - start)") auto

declare scan_edges.simps [simp del]

text \<open>The number of leading bytes on which an edge and the buffer agree.\<close>

fun agree :: "bytes \<Rightarrow> bytes \<Rightarrow> nat" where
  "agree (p # ps) (b # bs) = (if b = p then Suc (agree ps bs) else 0)"
| "agree _ _ = 0"

function lookup :: "'r RTree \<Rightarrow> RLookup \<Rightarrow> bytes \<Rightarrow> nat \<Rightarrow> (RMatch \<times> RLookup) option" where
  "lookup t (Node nidx) buf parsed =
     (if nidx < length (nodes t) then
        (case nodes t ! nidx of
           Leaf _ \<Rightarrow> Some (Matched parsed, Node nidx)
         | Branch edge_idx len \<Rightarrow>
             (case buf of
                [] \<Rightarrow> Some (NeedsMore, Node nidx)
              | b # rest \<Rightarrow>
                  (case scan_edges (edges t) b edge_idx (edge_idx + len) of
                     None \<Rightarrow> None
                   | Some None \<Rightarrow> Some (Mismatch parsed, Node nidx)
                   | Some (Some start) \<Rightarrow> lookup t (Edge start 1) rest (parsed + 1))))
      else None)"
| "lookup t (Edge eidx r) buf parsed =
     (if eidx < length (edges t) \<and> r \<le> length (edge_prefix (edges t ! eidx)) then
        (let pre = edge_prefix (edges t ! eidx);
             cmp = min (length pre - r) (length buf);
             idx = agree (drop r pre) buf
         in if idx < cmp then Some (Mismatch (parsed + idx), Edge eidx (r + idx))
            else if r + cmp < length pre then Some (NeedsMore, Edge eidx (r + cmp))
            else lookup t (Node (edge_node_idx (edges t ! eidx))) (drop cmp buf) (parsed + cmp))
      else None)"
  by pat_completeness auto
termination
  by (relation "measure (\<lambda>(t, st, buf, parsed).
        2 * length buf + (case st of Node _ \<Rightarrow> 0 | Edge _ _ \<Rightarrow> 1))") auto

declare lookup.simps [simp del]

definition get_value :: "'r RTree \<Rightarrow> RLookup \<Rightarrow> 'r option" where
  "get_value t st =
     (case st of
        Node nidx \<Rightarrow>
          if nidx < length (nodes t)
          then (case nodes t ! nidx of Leaf v \<Rightarrow> Some v | Branch _ _ \<Rightarrow> None) else None
      | Edge _ _ \<Rightarrow> None)"

definition rtree_insert :: "nat \<Rightarrow> 'r RTree \<Rightarrow> bytes \<Rightarrow> 'r \<Rightarrow> 'r RTree option" where
  "rtree_insert B t token value =
     (if nodes_len t = 0 then
        (case add_edge_list B t 1 token of None \<Rightarrow> None
         | Some (t1, edge_idx, len) \<Rightarrow>
             (case add_branch_node t1 edge_idx len of None \<Rightarrow> None
              | Some (t2, _) \<Rightarrow> map_option fst (add_leaf_node t2 value)))
      else
        (case lookup t (Node 0) token 0 of
           None \<Rightarrow> None
         | Some (Matched _, _) \<Rightarrow> None
         | Some (NeedsMore, _) \<Rightarrow> None
         | Some (Mismatch idx, st) \<Rightarrow>
             (let postfix = drop idx token in
              case st of
                Node nidx \<Rightarrow>
                  (case add_leaf_node t value of None \<Rightarrow> None
                   | Some (t1, new_idx) \<Rightarrow> add_edge B t1 nidx new_idx postfix)
              | Edge edge_idx r \<Rightarrow>
                  (if edge_idx < length (edges t) then
                     (let edge = edges t ! edge_idx;
                          nidx = edge_node_idx edge;
                          shared = take r (edge_prefix edge);
                          left_prefix = drop r (edge_prefix edge)
                      in case add_edge_list B t nidx left_prefix of None \<Rightarrow> None
                         | Some (t1, left_edge_idx, len) \<Rightarrow>
                             (case add_branch_node t1 left_edge_idx len of None \<Rightarrow> None
                              | Some (t2, branch_idx) \<Rightarrow>
                                  (case add_leaf_node t2 value of None \<Rightarrow> None
                                   | Some (t3, leaf_idx) \<Rightarrow>
                                       (case add_edge B t3 branch_idx leaf_idx postfix of
                                          None \<Rightarrow> None
                                        | Some t4 \<Rightarrow> update_edge t4 edge_idx branch_idx shared))))
                   else None))))"

section \<open>Lookups over split input\<close>

lemma agree_le: "agree ps bs \<le> length ps \<and> agree ps bs \<le> length bs"
  by (induction ps bs rule: agree.induct) auto

lemma agree_take: "take (agree ps bs) ps = take (agree ps bs) bs"
  by (induction ps bs rule: agree.induct) auto

lemma agree_append_less: "agree ps a < min (length ps) (length a) \<Longrightarrow> agree ps (a @ b) = agree ps a"
  by (induction ps a rule: agree.induct) (auto split: if_splits)

lemma agree_append_full:
  "agree ps a = length a \<Longrightarrow> length a \<le> length ps \<Longrightarrow>
     agree ps (a @ b) = length a + agree (drop (length a) ps) b"
  by (induction ps a rule: agree.induct) (auto split: if_splits)

lemma agree_append_covers: "agree ps a = length ps \<Longrightarrow> agree ps (a @ b) = length ps"
  by (induction ps a rule: agree.induct) (auto split: if_splits)

definition resume :: "(RMatch \<times> RLookup) option \<Rightarrow> (RLookup \<Rightarrow> (RMatch \<times> RLookup) option) \<Rightarrow> (RMatch \<times> RLookup) option" where
  "resume r k = (case r of Some (NeedsMore, st) \<Rightarrow> k st | _ \<Rightarrow> r)"

lemma resume_simps [simp]:
  "resume None k = None"
  "resume (Some (Matched n, st)) k = Some (Matched n, st)"
  "resume (Some (Mismatch n, st)) k = Some (Mismatch n, st)"
  "resume (Some (NeedsMore, st)) k = k st"
  by (simp_all add: resume_def)

lemma lookup_edge_panic:
  "\<not> (eidx < length (edges t) \<and> r \<le> length (edge_prefix (edges t ! eidx))) \<Longrightarrow>
     lookup t (Edge eidx r) buf parsed = None"
  by (simp only: lookup.simps(2) if_False)

lemma lookup_edge:
  assumes "eidx < length (edges t)" "edges t ! eidx = \<lparr>edge_prefix = pre, edge_node_idx = m\<rparr>"
    and "r \<le> length pre"
  shows "lookup t (Edge eidx r) buf parsed =
     (if agree (drop r pre) buf < min (length pre - r) (length buf)
      then Some (Mismatch (parsed + agree (drop r pre) buf), Edge eidx (r + agree (drop r pre) buf))
      else if length buf < length pre - r then Some (NeedsMore, Edge eidx (r + length buf))
      else lookup t (Node m) (drop (length pre - r) buf) (parsed + (length pre - r)))"
proof -
  have c: "eidx < length (edges t) \<and> r \<le> length (edge_prefix (edges t ! eidx))"
    using assms by simp
  show ?thesis
  proof (cases "length buf < length pre - r")
    case True
    with assms(3) have "min (length pre - r) (length buf) = length buf" "r + length buf < length pre"
      by auto
    with True show ?thesis by (simp only: lookup.simps(2) c assms(2,3) REdge.simps Let_def if_True simp_thms)
  next
    case False
    with assms(3) have "min (length pre - r) (length buf) = length pre - r"
      "\<not> r + (length pre - r) < length pre" by auto
    with False show ?thesis by (simp only: lookup.simps(2) c assms(2,3) REdge.simps Let_def if_True if_False simp_thms)
  qed
qed

lemma lookup_append:
  "lookup t st (a @ b) parsed =
     resume (lookup t st a parsed) (\<lambda>st'. lookup t st' b (parsed + length a))"
proof (induction t st a parsed rule: lookup.induct)
  case (1 t nidx buf parsed)
  show ?case
  proof (cases buf)
    case Nil
    then show ?thesis by (auto simp: lookup.simps(1) [of t nidx] split: RNode.splits)
  next
    case (Cons c rest)
    with 1 show ?thesis
      by (auto simp: lookup.simps(1) [of t nidx] split: RNode.splits option.splits)
  qed
next
  case (2 t eidx r buf parsed)
  obtain pre m where e: "edges t ! eidx = \<lparr>edge_prefix = pre, edge_node_idx = m\<rparr>"
    by (metis (full_types) old.unit.exhaust REdge.surjective)
  show ?case
  proof (cases "eidx < length (edges t) \<and> r \<le> length pre")
    case False
    with e show ?thesis by (simp add: lookup_edge_panic)
  next
    case ok: True
    then have lt: "eidx < length (edges t)" and r: "r \<le> length pre" by auto
    note le = lookup_edge [OF lt e r]
    let ?k = "agree (drop r pre) buf"
    have k_le: "?k \<le> length pre - r \<and> ?k \<le> length buf"
      using agree_le [of "drop r pre" buf] by simp
    consider (mis) "?k < min (length pre - r) (length buf)"
      | (more) "?k = length buf" "length buf < length pre - r"
      | (node) "?k = length pre - r" "length pre - r \<le> length buf"
      using k_le by linarith
    then show ?thesis
    proof cases
      case mis
      then have "agree (drop r pre) (buf @ b) = ?k"
        using agree_append_less [of "drop r pre" buf b] by simp
      with mis show ?thesis by (simp add: le)
    next
      case more
      then have ag: "agree (drop r pre) (buf @ b) = length buf + agree (drop (r + length buf) pre) b"
        using agree_append_full [of "drop r pre" buf b] by (simp add: add.commute)
      have r': "r + length buf \<le> length pre" using more by simp
      show ?thesis
        using more by (simp add: le ag lookup_edge [OF lt e r'] algebra_simps min_less_iff_conj less_diff_conv)
    next
      case node
      have ag: "agree (drop r pre) (buf @ b) = length pre - r"
        using agree_append_covers [of "drop r pre" buf b] node by simp
      have IH: "lookup t (Node m) (drop (length pre - r) buf @ b) (parsed + (length pre - r)) =
          resume (lookup t (Node m) (drop (length pre - r) buf) (parsed + (length pre - r)))
            (\<lambda>st'. lookup t st' b (parsed + (length pre - r) + length (drop (length pre - r) buf)))"
        using 2 [OF _ refl refl refl] lt r e node by (simp add: min_def)
      show ?thesis
        using node IH by (simp add: le ag)
    qed
  qed
qed

section \<open>The tokens of a tree\<close>

text \<open>
  \<open>owns t n i\<close>: the edge slot \<open>i\<close> belongs to the branch node \<open>n\<close>. \<open>reach t n p v\<close>: the bytes
  \<open>p\<close> lead from node \<open>n\<close> to a leaf with value \<open>v\<close>; the tokens of the tree are what the root
  reaches.
\<close>

definition owns :: "'r RTree \<Rightarrow> nat \<Rightarrow> nat \<Rightarrow> bool" where
  "owns t n i \<longleftrightarrow>
     n < nodes_len t \<and> (\<exists>e l. nodes t ! n = Branch e l \<and> e \<le> i \<and> i < e + l)"

inductive reach :: "'r RTree \<Rightarrow> nat \<Rightarrow> bytes \<Rightarrow> 'r \<Rightarrow> bool" for t where
  leaf: "n < nodes_len t \<Longrightarrow> nodes t ! n = Leaf v \<Longrightarrow> reach t n [] v"
| branch: "owns t n i \<Longrightarrow> edges t ! i = \<lparr>edge_prefix = pre, edge_node_idx = m\<rparr> \<Longrightarrow>
     reach t m q v \<Longrightarrow> reach t n (pre @ q) v"

text \<open>The representation invariant: blocks of edge slots are allocated and disjoint, edges are
  non-empty and lead to allocated nodes, siblings differ in their first byte, and no two edges
  lead to the same node.\<close>

definition rtree_inv :: "nat \<Rightarrow> 'r RTree \<Rightarrow> bool" where
  "rtree_inv B t \<longleftrightarrow>
     0 < B \<and> B dvd edges_len t \<and> nodes_len t \<le> length (nodes t) \<and>
     (\<forall>n e l. n < nodes_len t \<longrightarrow> nodes t ! n = Branch e l \<longrightarrow>
        l \<le> B \<and> B dvd e \<and> e + B \<le> edges_len t) \<and>
     (\<forall>n n' e l l'. n < nodes_len t \<longrightarrow> n' < nodes_len t \<longrightarrow> nodes t ! n = Branch e l \<longrightarrow>
        nodes t ! n' = Branch e l' \<longrightarrow> n = n') \<and>
     (\<forall>n i. owns t n i \<longrightarrow> i < length (edges t) \<and> edge_prefix (edges t ! i) \<noteq> [] \<and>
        0 < edge_node_idx (edges t ! i) \<and> edge_node_idx (edges t ! i) < nodes_len t) \<and>
     (\<forall>n i j. owns t n i \<longrightarrow> owns t n j \<longrightarrow>
        hd (edge_prefix (edges t ! i)) = hd (edge_prefix (edges t ! j)) \<longrightarrow> i = j) \<and>
     (\<forall>n n' i j. owns t n i \<longrightarrow> owns t n' j \<longrightarrow>
        edge_node_idx (edges t ! i) = edge_node_idx (edges t ! j) \<longrightarrow> i = j)"

lemma rtree_inv_edge:
  assumes "rtree_inv B t" "owns t n i"
  shows "i < length (edges t)" "edge_prefix (edges t ! i) \<noteq> []"
    "0 < edge_node_idx (edges t ! i)" "edge_node_idx (edges t ! i) < nodes_len t"
  using assms unfolding rtree_inv_def by blast+

lemma rtree_inv_heads:
  assumes "rtree_inv B t" "owns t n i" "owns t n j"
    and "hd (edge_prefix (edges t ! i)) = hd (edge_prefix (edges t ! j))"
  shows "i = j"
  using assms unfolding rtree_inv_def by blast

lemma rtree_inv_nodes: "rtree_inv B t \<Longrightarrow> n < nodes_len t \<Longrightarrow> n < length (nodes t)"
  by (auto simp: rtree_inv_def)

lemma rtree_inv_branch:
  assumes "rtree_inv B t" "n < nodes_len t" "nodes t ! n = Branch e l"
  shows "0 < B" "l \<le> B" "B dvd e" "e + B \<le> edges_len t"
  using assms unfolding rtree_inv_def by auto

lemma rtree_inv_block:
  assumes inv: "rtree_inv B t" and "owns t n i" "owns t n' i"
  shows "n = n'"
proof -
  obtain e l where n: "n < nodes_len t" "nodes t ! n = Branch e l" "e \<le> i" "i < e + l"
    using assms(2) by (auto simp: owns_def)
  obtain e' l' where n': "n' < nodes_len t" "nodes t ! n' = Branch e' l'" "e' \<le> i" "i < e' + l'"
    using assms(3) by (auto simp: owns_def)
  note b = rtree_inv_branch [OF inv n(1,2)] and b' = rtree_inv_branch [OF inv n'(1,2)]
  have "e div B = i div B"
    using b n(3,4) by (auto elim!: dvdE intro!: div_nat_eqI [symmetric])
  moreover have "e' div B = i div B"
    using b' n'(3,4) by (auto elim!: dvdE intro!: div_nat_eqI [symmetric])
  ultimately have "e = e'" using b(3) b'(3) by (metis dvd_div_mult_self)
  with inv n(1,2) n'(1,2) show ?thesis unfolding rtree_inv_def by blast
qed

lemma scan_edges_Some:
  "scan_edges es b s e = Some (Some i) \<Longrightarrow>
     s \<le> i \<and> i < e \<and> i < length es \<and> edge_prefix (es ! i) \<noteq> [] \<and> hd (edge_prefix (es ! i)) = b"
proof (induction es b s e rule: scan_edges.induct)
  case (1 es b s e)
  then show ?case
    by (subst (asm) scan_edges.simps) (fastforce split: if_splits list.splits)
qed

lemma scan_edges_None:
  "scan_edges es b s e = Some None \<Longrightarrow> s \<le> i \<Longrightarrow> i < e \<Longrightarrow> hd (edge_prefix (es ! i)) \<noteq> b"
proof (induction es b s e rule: scan_edges.induct)
  case (1 es b s e)
  show ?case
  proof (cases "i = s")
    case True
    with 1(2-) show ?thesis
      by (subst (asm) scan_edges.simps) (auto split: if_splits list.splits)
  next
    case False
    with 1 show ?thesis
      by (subst (asm) scan_edges.simps) (auto split: if_splits list.splits)
  qed
qed

lemma scan_edges_total:
  "(\<And>i. s \<le> i \<Longrightarrow> i < e \<Longrightarrow> i < length es \<and> edge_prefix (es ! i) \<noteq> []) \<Longrightarrow>
     scan_edges es b s e \<noteq> None"
proof (induction es b s e rule: scan_edges.induct)
  case (1 es b s e)
  show ?case
  proof (cases "s < e")
    case True
    with 1(2) [of s] obtain p ps where p: "s < length es" "edge_prefix (es ! s) = p # ps"
      by (cases "edge_prefix (es ! s)") auto
    show ?thesis
    proof (cases "b = p")
      case True
      with p \<open>s < e\<close> show ?thesis by (subst scan_edges.simps) simp
    next
      case False
      with 1(1) [OF \<open>s < e\<close> p(1) p(2) False] 1(2)
      have "scan_edges es b (s + 1) e \<noteq> None" by simp
      with p \<open>s < e\<close> False show ?thesis by (subst scan_edges.simps) simp
    qed
  next
    case False
    then show ?thesis by (subst scan_edges.simps) simp
  qed
qed

lemma scan_edges_finds:
  assumes inv: "rtree_inv B t" and own: "owns t n i" and n: "nodes t ! n = Branch e l"
    and hd: "hd (edge_prefix (edges t ! i)) = b"
  shows "scan_edges (edges t) b e (e + l) = Some (Some i)"
proof -
  have in_block: "owns t n j" if "e \<le> j" "j < e + l" for j
    using that own n by (auto simp: owns_def)
  have rng: "e \<le> i" "i < e + l" using own n by (auto simp: owns_def)
  have "scan_edges (edges t) b e (e + l) \<noteq> None"
    using rtree_inv_edge [OF inv in_block] by (intro scan_edges_total) blast
  moreover have "scan_edges (edges t) b e (e + l) \<noteq> Some None"
    using scan_edges_None [of "edges t" b e "e + l" i] rng hd by blast
  ultimately obtain j where j: "scan_edges (edges t) b e (e + l) = Some (Some j)" by auto
  with scan_edges_Some [OF j] hd have "j = i"
    by (intro rtree_inv_heads [OF inv in_block own]) auto
  with j show ?thesis by simp
qed

section \<open>What a lookup finds\<close>

lemma agree_prefix [simp]: "agree ps (ps @ bs) = length ps"
  by (induction ps) auto

lemma redge_eq: "e = \<lparr>edge_prefix = edge_prefix e, edge_node_idx = edge_node_idx e\<rparr>"
  by simp

lemma lookup_reach:
  assumes inv: "rtree_inv B t"
  shows "reach t n p v \<Longrightarrow>
     \<exists>m. lookup t (Node n) (p @ rest) k = Some (Matched (k + length p), Node m) \<and>
         get_value t (Node m) = Some v"
proof (induction arbitrary: k rule: reach.induct)
  case (leaf n v)
  then show ?case
    using rtree_inv_nodes [OF inv] by (auto simp: lookup.simps(1) get_value_def)
next
  case (branch n i pre m q v)
  note E = rtree_inv_edge [OF inv branch(1)]
  obtain e l where n: "n < nodes_len t" "nodes t ! n = Branch e l"
    using branch(1) by (auto simp: owns_def)
  obtain b ps where pre: "pre = b # ps"
    using E(2) branch(2) by (cases pre) auto
  have "scan_edges (edges t) b e (e + l) = Some (Some i)"
    using branch(2) pre by (intro scan_edges_finds [OF inv branch(1) n(2)]) simp
  then have "lookup t (Node n) ((pre @ q) @ rest) k = lookup t (Edge i 1) (ps @ q @ rest) (k + 1)"
    using n rtree_inv_nodes [OF inv n(1)] pre by (simp add: lookup.simps(1))
  also have "\<dots> = lookup t (Node m) (q @ rest) (k + length pre)"
    using lookup_edge [OF E(1) branch(2), of 1] pre by simp
  finally show ?case
    using branch.IH [of "k + length pre"] by (simp add: add.assoc)
qed

lemma lookup_Matched_bounds:
  "lookup t st buf k = Some (Matched n, st') \<Longrightarrow> k \<le> n \<and> n - k \<le> length buf"
proof (induction t st buf k rule: lookup.induct)
  case (1 t nidx buf k)
  then show ?case
    by (subst (asm) lookup.simps(1)) (fastforce split: if_splits RNode.splits list.splits option.splits)
next
  case (2 t eidx r buf k)
  then show ?case
    by (subst (asm) lookup.simps(2)) (fastforce simp: Let_def split: if_splits)
qed

text \<open>A resumable position: the token bytes that remain to be read from it.\<close>

definition valid_at :: "'r RTree \<Rightarrow> RLookup \<Rightarrow> bool" where
  "valid_at t st =
     (case st of Node n \<Rightarrow> n < nodes_len t
      | Edge i r \<Rightarrow> (\<exists>n. owns t n i) \<and> r \<le> length (edge_prefix (edges t ! i)))"

definition ahead :: "'r RTree \<Rightarrow> RLookup \<Rightarrow> bytes \<Rightarrow> 'r \<Rightarrow> bool" where
  "ahead t st p v =
     (case st of Node n \<Rightarrow> reach t n p v
      | Edge i r \<Rightarrow> \<exists>q. p = drop r (edge_prefix (edges t ! i)) @ q \<and>
                        reach t (edge_node_idx (edges t ! i)) q v)"

lemma lookup_complete:
  assumes inv: "rtree_inv B t" and val: "valid_at t st" and ah: "ahead t st p v"
  shows "\<exists>m. lookup t st (p @ rest) k = Some (Matched (k + length p), Node m) \<and>
             get_value t (Node m) = Some v"
proof (cases st)
  case (Node n)
  with ah show ?thesis using lookup_reach [OF inv] by (simp add: ahead_def)
next
  case (Edge i r)
  define pre m where "pre = edge_prefix (edges t ! i)" and "m = edge_node_idx (edges t ! i)"
  from ah Edge obtain q where q: "p = drop r pre @ q" "reach t m q v"
    by (auto simp: ahead_def pre_def m_def)
  from val Edge obtain n where n: "owns t n i" "r \<le> length pre" by (auto simp: valid_at_def pre_def)
  have e: "edges t ! i = \<lparr>edge_prefix = pre, edge_node_idx = m\<rparr>" by (simp add: pre_def m_def)
  have "lookup t st (p @ rest) k = lookup t (Node m) (q @ rest) (k + (length pre - r))"
    using lookup_edge [OF rtree_inv_edge(1) [OF inv n(1)] e n(2), of "p @ rest" k]
    by (simp add: Edge q(1))
  with lookup_reach [OF inv q(2), of rest "k + (length pre - r)"] n(2) show ?thesis
    by (simp add: q(1) add.assoc)
qed

lemma lookup_sound:
  "rtree_inv B t \<Longrightarrow> valid_at t st \<Longrightarrow> lookup t st buf k = Some (Matched n, st') \<Longrightarrow>
     \<exists>v. get_value t st' = Some v \<and> ahead t st (take (n - k) buf) v"
proof (induction t st buf k rule: lookup.induct)
  case (1 t nidx buf k)
  from 1(3) have nidx: "nidx < nodes_len t" by (simp add: valid_at_def)
  with 1(2) have lt: "nidx < length (nodes t)" by (rule rtree_inv_nodes)
  show ?case
  proof (cases "nodes t ! nidx")
    case (Leaf v)
    with 1(4) lt nidx show ?thesis
      by (auto simp: lookup.simps(1) get_value_def ahead_def intro: reach.leaf)
  next
    case (Branch e l)
    with 1(4) lt obtain b rest i where buf: "buf = b # rest"
      and scan: "scan_edges (edges t) b e (e + l) = Some (Some i)"
      and look: "lookup t (Edge i 1) rest (k + 1) = Some (Matched n, st')"
      by (auto simp: lookup.simps(1) [of t nidx] split: list.splits option.splits)
    note S = scan_edges_Some [OF scan]
    have own: "owns t nidx i" using S nidx Branch by (auto simp: owns_def)
    obtain ps m where e: "edges t ! i = \<lparr>edge_prefix = b # ps, edge_node_idx = m\<rparr>"
      using S by (metis list.collapse redge_eq)
    have "valid_at t (Edge i 1)" using own S e by (auto simp: valid_at_def)
    with 1(1) [OF lt Branch buf scan refl 1(2) _ look] obtain v where
      v: "get_value t st' = Some v" "ahead t (Edge i 1) (take (n - (k + 1)) rest) v" by blast
    from v(2) e obtain q where q: "take (n - (k + 1)) rest = ps @ q" "reach t m q v"
      by (auto simp: ahead_def)
    have "reach t nidx ((b # ps) @ q) v" by (rule reach.branch [OF own e q(2)])
    moreover have "take (n - k) buf = b # take (n - (k + 1)) rest"
      using lookup_Matched_bounds [OF look] buf by (simp add: take_Cons')
    ultimately show ?thesis using v(1) q(1) by (auto simp: ahead_def)
  qed
next
  case (2 t i r buf k)
  define pre m where "pre = edge_prefix (edges t ! i)" and "m = edge_node_idx (edges t ! i)"
  from 2(3) obtain n0 where own: "owns t n0 i" and r: "r \<le> length pre"
    by (auto simp: valid_at_def pre_def)
  note E = rtree_inv_edge [OF 2(2) own]
  have e: "edges t ! i = \<lparr>edge_prefix = pre, edge_node_idx = m\<rparr>" by (simp add: pre_def m_def)
  from 2(4) lookup_edge [OF E(1) e r, of buf k]
  have full: "agree (drop r pre) buf = length pre - r" "length pre - r \<le> length buf"
    and look: "lookup t (Node m) (drop (length pre - r) buf) (k + (length pre - r)) = Some (Matched n, st')"
    using agree_le [of "drop r pre" buf] by (auto split: if_splits)
  have "valid_at t (Node m)" using E(4) by (simp add: valid_at_def m_def)
  moreover have "min (length pre - r) (length buf) = length pre - r" using full by simp
  ultimately have "\<exists>v. get_value t st' = Some v \<and>
      ahead t (Node m) (take (n - (k + (length pre - r))) (drop (length pre - r) buf)) v"
    using 2(1) [OF _ refl refl refl _ _ 2(2)] E(1) r full look by (simp flip: pre_def m_def)
  then obtain v where v: "get_value t st' = Some v"
    "reach t m (take (n - (k + (length pre - r))) (drop (length pre - r) buf)) v"
    by (auto simp: ahead_def)
  have "take (length pre - r) buf = drop r pre"
    using agree_take [of "drop r pre" buf] full by simp
  moreover have "k + (length pre - r) \<le> n" using lookup_Matched_bounds [OF look] by simp
  ultimately have "take (n - k) buf =
      drop r pre @ take (n - (k + (length pre - r))) (drop (length pre - r) buf)"
    by (metis (no_types, lifting) add_diff_cancel_left' diff_diff_left le_add_diff_inverse nat_le_linear
        add_leD2 le_diff_conv2 add.commute take_add)
  with v show ?case by (auto simp: ahead_def simp flip: pre_def m_def)
qed

lemma lookup_NeedsMore_valid:
  "rtree_inv B t \<Longrightarrow> valid_at t st \<Longrightarrow> lookup t st buf k = Some (NeedsMore, st') \<Longrightarrow> valid_at t st'"
proof (induction t st buf k rule: lookup.induct)
  case (1 t nidx buf k)
  from 1(3) have nidx: "nidx < nodes_len t" by (simp add: valid_at_def)
  with 1(2) have lt: "nidx < length (nodes t)" by (rule rtree_inv_nodes)
  show ?case
  proof (cases buf)
    case Nil
    with 1(3,4) lt show ?thesis by (auto simp: lookup.simps(1) split: RNode.splits)
  next
    case (Cons b rest)
    with 1(4) lt obtain e l i where br: "nodes t ! nidx = Branch e l"
      and scan: "scan_edges (edges t) b e (e + l) = Some (Some i)"
      and look: "lookup t (Edge i 1) rest (k + 1) = Some (NeedsMore, st')"
      by (auto simp: lookup.simps(1) [of t nidx] split: RNode.splits option.splits)
    note S = scan_edges_Some [OF scan]
    have "owns t nidx i" using S nidx br by (auto simp: owns_def)
    with S have "valid_at t (Edge i 1)" by (cases "edge_prefix (edges t ! i)") (auto simp: valid_at_def)
    with 1(1) [OF lt br Cons scan refl 1(2) _ look] show ?thesis by blast
  qed
next
  case (2 t i r buf k)
  define pre m where "pre = edge_prefix (edges t ! i)" and "m = edge_node_idx (edges t ! i)"
  from 2(3) obtain n0 where own: "owns t n0 i" and r: "r \<le> length pre"
    by (auto simp: valid_at_def pre_def)
  note E = rtree_inv_edge [OF 2(2) own]
  have e: "edges t ! i = \<lparr>edge_prefix = pre, edge_node_idx = m\<rparr>" by (simp add: pre_def m_def)
  show ?case
  proof (cases "length buf < length pre - r")
    case True
    with 2(4) lookup_edge [OF E(1) e r, of buf k] own show ?thesis
      by (auto simp: valid_at_def simp flip: pre_def split: if_splits)
  next
    case False
    with 2(4) lookup_edge [OF E(1) e r, of buf k]
    have full: "\<not> agree (drop r pre) buf < length pre - r"
      and look: "lookup t (Node m) (drop (length pre - r) buf) (k + (length pre - r)) = Some (NeedsMore, st')"
      by (auto split: if_splits)
    have "valid_at t (Node m)" using E(4) by (simp add: valid_at_def m_def)
    with 2(1) [OF _ refl refl refl _ _ 2(2)] E(1) r full look False show ?thesis
      by (simp add: min_def flip: pre_def m_def)
  qed
qed

lemma lookup_partial:
  assumes inv: "rtree_inv B t" and val: "valid_at t st" and ah: "ahead t st (a @ s) v"
    and s: "s \<noteq> []"
  shows "\<exists>st'. lookup t st a k = Some (NeedsMore, st') \<and> valid_at t st' \<and> ahead t st' s v"
proof -
  obtain m where m: "lookup t st (a @ s) k = Some (Matched (k + length (a @ s)), Node m)"
    "get_value t (Node m) = Some v"
    using lookup_complete [OF inv val ah, of "[]" k] by auto
  obtain st' where st': "lookup t st a k = Some (NeedsMore, st')"
    "lookup t st' s (k + length a) = Some (Matched (k + length (a @ s)), Node m)"
  proof (cases "lookup t st a k")
    case None
    with m(1) show ?thesis by (simp add: lookup_append)
  next
    case (Some r)
    obtain x y where r: "r = (x, y)" by (cases r)
    show ?thesis
    proof (cases x)
      case (Matched n)
      with Some r m(1) have "n = k + length (a @ s)" by (simp add: lookup_append)
      with lookup_Matched_bounds [of t st a k n y] Some r Matched s show ?thesis by auto
    next
      case NeedsMore
      with Some r m(1) show ?thesis by (intro that [of y]) (auto simp: lookup_append)
    next
      case (Mismatch n)
      with Some r m(1) show ?thesis by (simp add: lookup_append)
    qed
  qed
  have val': "valid_at t st'" by (rule lookup_NeedsMore_valid [OF inv val st'(1)])
  with lookup_sound [OF inv val' st'(2)] m(2) st'(1) show ?thesis by auto
qed

section \<open>Paths from the root\<close>

inductive rpath :: "'r RTree \<Rightarrow> nat \<Rightarrow> bytes \<Rightarrow> bool" for t where
  root: "0 < nodes_len t \<Longrightarrow> rpath t 0 []"
| step: "rpath t n q \<Longrightarrow> owns t n i \<Longrightarrow> edges t ! i = \<lparr>edge_prefix = pre, edge_node_idx = m\<rparr> \<Longrightarrow>
     rpath t m (q @ pre)"

lemma rpath_bound: "rpath t n q \<Longrightarrow> rtree_inv B t \<Longrightarrow> n < nodes_len t"
proof (induction rule: rpath.induct)
  case (step n q i pre m)
  from rtree_inv_edge(4) [OF step.prems step.hyps(2)] step.hyps(3) show ?case by simp
qed

lemma rpath_unique:
  assumes inv: "rtree_inv B t"
  shows "rpath t n q \<Longrightarrow> rpath t n q' \<Longrightarrow> q = q'"
proof (induction arbitrary: q' rule: rpath.induct)
  case root
  from root.prems show ?case
  proof (cases rule: rpath.cases)
    case (step n q i pre)
    with rtree_inv_edge(3) [OF inv step(3)] show ?thesis by simp
  qed simp
next
  case (step n q i pre m)
  from step.prems show ?case
  proof (cases rule: rpath.cases)
    case root
    with rtree_inv_edge(3) [OF inv step.hyps(2)] step.hyps(3) show ?thesis by simp
  next
    case (step n2 q2 i2 pre2)
    have "i = i2"
      using inv step(3,4) \<open>owns t n i\<close> \<open>edges t ! i = _\<close> unfolding rtree_inv_def
      by (metis REdge.simps(2))
    moreover from this have "n = n2"
      using rtree_inv_block [OF inv \<open>owns t n i\<close>] step(3) by simp
    ultimately show ?thesis
      using step \<open>edges t ! i = _\<close> \<open>\<And>q'. rpath t n q' \<Longrightarrow> q = q'\<close> by simp
  qed
qed

lemma reach_extend: "reach t n s v \<Longrightarrow> rpath t n q \<Longrightarrow> \<exists>m. rpath t m (q @ s) \<and> m < nodes_len t \<and> nodes t ! m = Leaf v"
proof (induction arbitrary: q rule: reach.induct)
  case (leaf n v)
  then show ?case by auto
next
  case (branch n i pre m p v)
  then have "rpath t m (q @ pre)" by (blast intro: rpath.step)
  from branch.IH [OF this] show ?case by simp
qed

lemma rpath_extend: "rpath t n q \<Longrightarrow> reach t n s v \<Longrightarrow> reach t 0 (q @ s) v"
proof (induction arbitrary: s rule: rpath.induct)
  case (step n q i pre m)
  from step.IH [OF reach.branch [OF step.hyps(2,3) step.prems]] show ?case by simp
qed simp

lemma reach_rpath:
  assumes "0 < nodes_len t"
  shows "reach t 0 p v \<longleftrightarrow> (\<exists>m. rpath t m p \<and> m < nodes_len t \<and> nodes t ! m = Leaf v)"
  using reach_extend [OF _ rpath.root [OF assms], of p v] rpath_extend [of t _ p "[]" v]
  by (auto intro: reach.leaf)

definition rpos :: "'r RTree \<Rightarrow> RLookup \<Rightarrow> bytes \<Rightarrow> bool" where
  "rpos t st q =
     (case st of Node n \<Rightarrow> rpath t n q
      | Edge i r \<Rightarrow> 0 < r \<and> (\<exists>n q0. owns t n i \<and> rpath t n q0 \<and>
                       q = q0 @ take r (edge_prefix (edges t ! i))))"

text \<open>Where a mismatch happens, and that the next byte leads nowhere from there.\<close>

definition stuck_on :: "'r RTree \<Rightarrow> RLookup \<Rightarrow> u8 \<Rightarrow> bool" where
  "stuck_on t st b =
     (case st of
        Node n \<Rightarrow> (\<exists>e l. nodes t ! n = Branch e l) \<and>
                  (\<forall>i. owns t n i \<longrightarrow> hd (edge_prefix (edges t ! i)) \<noteq> b)
      | Edge i r \<Rightarrow> r < length (edge_prefix (edges t ! i)) \<and> edge_prefix (edges t ! i) ! r \<noteq> b)"

lemma agree_stops:
  "agree ps bs < length ps \<Longrightarrow> agree ps bs < length bs \<Longrightarrow> ps ! agree ps bs \<noteq> bs ! agree ps bs"
  by (induction ps bs rule: agree.induct) (auto split: if_splits)

lemma lookup_mismatch:
  "rtree_inv B t \<Longrightarrow> rpos t st q \<Longrightarrow> valid_at t st \<Longrightarrow> lookup t st buf k = Some (Mismatch n, st') \<Longrightarrow>
     k \<le> n \<and> n - k < length buf \<and> rpos t st' (q @ take (n - k) buf) \<and> stuck_on t st' (buf ! (n - k))"
proof (induction t st buf k arbitrary: q rule: lookup.induct)
  case (1 t nidx buf k)
  from 1(4) have nidx: "nidx < nodes_len t" by (simp add: valid_at_def)
  with 1(2) have lt: "nidx < length (nodes t)" by (rule rtree_inv_nodes)
  from 1(5) lt obtain b rest e l where buf: "buf = b # rest" and br: "nodes t ! nidx = Branch e l"
    by (auto simp: lookup.simps(1) split: RNode.splits list.splits)
  from 1(5) lt buf br consider
    (none) "scan_edges (edges t) b e (e + l) = Some None" "n = k" "st' = Node nidx"
  | (found) i where "scan_edges (edges t) b e (e + l) = Some (Some i)"
      "lookup t (Edge i 1) rest (k + 1) = Some (Mismatch n, st')"
    by (auto simp: lookup.simps(1) [of t nidx] split: option.splits)
  then show ?case
  proof cases
    case none
    have "hd (edge_prefix (edges t ! i)) \<noteq> b" if "owns t nidx i" for i
      using scan_edges_None [OF none(1)] that br by (auto simp: owns_def)
    with none 1(3) buf br show ?thesis by (auto simp: stuck_on_def)
  next
    case found
    note S = scan_edges_Some [OF found(1)]
    have own: "owns t nidx i" using S nidx br by (auto simp: owns_def)
    have pre: "take 1 (edge_prefix (edges t ! i)) = [b]"
      using S by (cases "edge_prefix (edges t ! i)") auto
    have "rpos t (Edge i 1) (q @ [b])" using 1(3) own pre by (auto simp: rpos_def)
    moreover have "valid_at t (Edge i 1)"
      using own S by (cases "edge_prefix (edges t ! i)") (auto simp: valid_at_def)
    ultimately have IH: "k + 1 \<le> n \<and> n - (k + 1) < length rest \<and>
        rpos t st' ((q @ [b]) @ take (n - (k + 1)) rest) \<and> stuck_on t st' (rest ! (n - (k + 1)))"
      by (rule 1(1) [OF lt br buf found(1) refl 1(2) _ _ found(2)])
    then obtain d where "n - k = Suc d" "d = n - (k + 1)" by (metis Suc_diff_Suc Suc_eq_plus1 less_eq_Suc_le)
    with IH buf show ?thesis by simp
  qed
next
  case (2 t i r buf k)
  define pre m where "pre = edge_prefix (edges t ! i)" and "m = edge_node_idx (edges t ! i)"
  from 2(4) obtain n0 where own: "owns t n0 i" and r: "r \<le> length pre"
    by (auto simp: valid_at_def pre_def)
  from 2(3) obtain n1 q0 where r0: "0 < r" and own1: "owns t n1 i" "rpath t n1 q0" "q = q0 @ take r pre"
    by (auto simp: rpos_def pre_def)
  note E = rtree_inv_edge [OF 2(2) own]
  have e: "edges t ! i = \<lparr>edge_prefix = pre, edge_node_idx = m\<rparr>" by (simp add: pre_def m_def)
  let ?k = "agree (drop r pre) buf"
  show ?case
  proof (cases "?k < min (length pre - r) (length buf)")
    case True
    with 2(5) lookup_edge [OF E(1) e r, of buf k] have n: "n = k + ?k" "st' = Edge i (r + ?k)" by auto
    have "take (r + ?k) pre = take r pre @ take ?k buf"
      using agree_take [of "drop r pre" buf] by (simp add: take_add)
    moreover have "pre ! (r + ?k) \<noteq> buf ! ?k"
      using agree_stops [of "drop r pre" buf] True r by simp
    ultimately show ?thesis
      using n own1 r0 True e by (auto simp: rpos_def stuck_on_def)
  next
    case False
    with 2(5) lookup_edge [OF E(1) e r, of buf k]
    have full: "?k = length pre - r" "length pre - r \<le> length buf"
      and look: "lookup t (Node m) (drop (length pre - r) buf) (k + (length pre - r)) = Some (Mismatch n, st')"
      using agree_le [of "drop r pre" buf] by (auto split: if_splits)
    have tk: "take (length pre - r) buf = drop r pre"
      using agree_take [of "drop r pre" buf] full by simp
    have "rpos t (Node m) (q0 @ pre)"
      using rpath.step [OF own1(2,1) e] by (simp add: rpos_def)
    moreover have "valid_at t (Node m)" using E(4) by (simp add: valid_at_def m_def)
    ultimately have IH: "k + (length pre - r) \<le> n \<and>
        n - (k + (length pre - r)) < length (drop (length pre - r) buf) \<and>
        rpos t st' ((q0 @ pre) @ take (n - (k + (length pre - r))) (drop (length pre - r) buf)) \<and>
        stuck_on t st' (drop (length pre - r) buf ! (n - (k + (length pre - r))))"
      using 2(1) [OF _ refl refl refl _ _ 2(2), of "q0 @ pre"] E(1) r full look
      by (simp flip: pre_def m_def)
    define d where "d = n - (k + (length pre - r))"
    have nd: "n - k = (length pre - r) + d" using IH by (simp add: d_def)
    have "take (n - k) buf = drop r pre @ take d (drop (length pre - r) buf)"
      unfolding nd by (simp add: take_add tk)
    moreover have whole: "take r pre @ drop r pre @ xs = pre @ xs" for xs
      by (simp flip: append_assoc)
    ultimately show ?thesis using IH own1(3) nd full by (auto simp: whole simp flip: d_def)
  qed
qed

section \<open>Insertion\<close>

text \<open>The two ways a token enters a non-empty tree: a new edge of the node where the lookup
  stopped, or a split of the edge where it stopped.\<close>

definition grow_node :: "'r RTree \<Rightarrow> nat \<Rightarrow> nat \<Rightarrow> nat \<Rightarrow> bytes \<Rightarrow> 'r \<Rightarrow> 'r RTree" where
  "grow_node t m e l post v =
     t\<lparr>nodes := (nodes t)[nodes_len t := Leaf v, m := Branch e (l + 1)], nodes_len := nodes_len t + 1,
       edges := (edges t)[e + l := \<lparr>edge_prefix = post, edge_node_idx = nodes_len t\<rparr>]\<rparr>"

definition split_edge :: "nat \<Rightarrow> 'r RTree \<Rightarrow> nat \<Rightarrow> nat \<Rightarrow> bytes \<Rightarrow> 'r \<Rightarrow> 'r RTree" where
  "split_edge B t i r post v =
     t\<lparr>nodes := (nodes t)[nodes_len t := Branch (edges_len t) 2, nodes_len t + 1 := Leaf v],
       nodes_len := nodes_len t + 2,
       edges := (edges t)[edges_len t := \<lparr>edge_prefix = drop r (edge_prefix (edges t ! i)),
                                          edge_node_idx = edge_node_idx (edges t ! i)\<rparr>,
                          edges_len t + 1 := \<lparr>edge_prefix = post, edge_node_idx = nodes_len t + 1\<rparr>,
                          i := \<lparr>edge_prefix = take r (edge_prefix (edges t ! i)), edge_node_idx = nodes_len t\<rparr>],
       edges_len := edges_len t + B\<rparr>"

lemma rtree_insert_cases:
  assumes ins: "rtree_insert B t token v = Some t'" and ne: "nodes_len t \<noteq> 0"
  obtains (node) m e l idx where "lookup t (Node 0) token 0 = Some (Mismatch idx, Node m)"
      "m < length (nodes t)" "m \<noteq> nodes_len t" "nodes t ! m = Branch e l" "l \<noteq> B"
      "e + l < length (edges t)" "nodes_len t < length (nodes t)" "t' = grow_node t m e l (drop idx token) v"
  | (edge) i r idx where "lookup t (Node 0) token 0 = Some (Mismatch idx, Edge i r)"
      "i < length (edges t)" "nodes_len t + 1 < length (nodes t)" "edges_len t + 1 < length (edges t)"
      "B \<noteq> 1" "t' = split_edge B t i r (drop idx token) v"
proof -
  from ins ne obtain idx st where look: "lookup t (Node 0) token 0 = Some (Mismatch idx, st)"
    by (auto simp: rtree_insert_def split: option.splits RMatch.splits)
  show ?thesis
  proof (cases st)
    case (Node m)
    from ins ne look Node obtain t1 where
      t1: "t1 = t\<lparr>nodes := (nodes t)[nodes_len t := Leaf v], nodes_len := nodes_len t + 1\<rparr>"
      and lt: "nodes_len t < length (nodes t)"
      and ae: "add_edge B t1 m (nodes_len t) (drop idx token) = Some t'"
      by (auto simp: rtree_insert_def add_leaf_node_def Let_def split: option.splits if_splits)
    from ae obtain e l where el: "m < length (nodes t)" "m \<noteq> nodes_len t" "nodes t ! m = Branch e l"
      "l \<noteq> B" "e + l < length (edges t)"
      by (auto simp: add_edge_def t1 nth_list_update lt split: if_splits RNode.splits)
    with ae have "t' = grow_node t m e l (drop idx token) v"
      by (auto simp: add_edge_def t1 grow_node_def)
    with look lt el show ?thesis unfolding Node by (intro node)
  next
    case (Edge i r)
    define t1 where "t1 = t\<lparr>edges := (edges t)[edges_len t := \<lparr>edge_prefix = drop r (edge_prefix (edges t ! i)),
        edge_node_idx = edge_node_idx (edges t ! i)\<rparr>], edges_len := edges_len t + B\<rparr>"
    define t3 where "t3 = t1\<lparr>nodes := (nodes t)[nodes_len t := Branch (edges_len t) 1, nodes_len t + 1 := Leaf v],
        nodes_len := nodes_len t + 2\<rparr>"
    from ins ne look Edge have lts: "i < length (edges t)" "edges_len t < length (edges t)"
        "nodes_len t + 1 < length (nodes t)"
      and ae: "(case add_edge B t3 (nodes_len t) (nodes_len t + 1) (drop idx token) of None \<Rightarrow> None
         | Some t4 \<Rightarrow> update_edge t4 i (nodes_len t) (take r (edge_prefix (edges t ! i)))) = Some t'"
      by (auto simp: rtree_insert_def add_leaf_node_def add_branch_node_def add_edge_list_def Let_def
          t1_def t3_def split: option.splits if_splits)
    show ?thesis
      using ae look lts unfolding Edge
      by (intro edge) (auto simp: add_edge_def update_edge_def t1_def t3_def split_edge_def
            nth_list_update list_update_swap numeral_2_eq_2 split: if_splits option.splits)
  qed
qed

lemma owns_below:
  assumes "rtree_inv B t" "owns t n i" shows "i < edges_len t"
proof -
  obtain e l where "n < nodes_len t" "nodes t ! n = Branch e l" "i < e + l"
    using assms(2) by (auto simp: owns_def)
  with rtree_inv_branch [OF assms(1), of n e l] show ?thesis by simp
qed

lemma owns_not_next:
  assumes inv: "rtree_inv B t" and m: "m < nodes_len t" "nodes t ! m = Branch e l" "l < B"
    and own: "owns t n i"
  shows "i \<noteq> e + l"
proof
  assume i: "i = e + l"
  obtain e' l' where n: "n < nodes_len t" "nodes t ! n = Branch e' l'" "e' \<le> i" "i < e' + l'"
    using own by (auto simp: owns_def)
  note b = rtree_inv_branch [OF inv m(1,2)] and b' = rtree_inv_branch [OF inv n(1,2)]
  have "e div B = i div B"
    using b m(3) i by (auto elim!: dvdE intro!: div_nat_eqI [symmetric])
  moreover have "e' div B = i div B"
    using b' n(3,4) by (auto elim!: dvdE intro!: div_nat_eqI [symmetric])
  ultimately have "e = e'" using b(3) b'(3) by (metis dvd_div_mult_self)
  with inv m(1,2) n(1,2) have "n = m" unfolding rtree_inv_def by blast
  with n m(2) i show False by simp
qed

lemma owns_grow_node:
  assumes "rtree_inv B t" "m < nodes_len t" "nodes t ! m = Branch e l" "nodes_len t < length (nodes t)"
  shows "owns (grow_node t m e l post v) n i \<longleftrightarrow> owns t n i \<or> (n = m \<and> i = e + l)"
  using assms by (auto simp: owns_def grow_node_def nth_list_update less_Suc_eq)

lemma owns_split_edge:
  assumes "nodes_len t + 1 < length (nodes t)"
  shows "owns (split_edge B t j r post v) n i \<longleftrightarrow>
     owns t n i \<or> (n = nodes_len t \<and> (i = edges_len t \<or> i = edges_len t + 1))"
  using assms by (auto simp: owns_def split_edge_def nth_list_update less_Suc_eq)

lemma edges_grow_node:
  assumes "rtree_inv B t" "m < nodes_len t" "nodes t ! m = Branch e l" "l < B" "owns t n i"
  shows "edges (grow_node t m e l post v) ! i = edges t ! i"
  using owns_not_next [OF assms] by (simp add: grow_node_def)

lemma edges_split_edge:
  assumes "rtree_inv B t" "owns t n i" "i \<noteq> j"
  shows "edges (split_edge B t j r post v) ! i = edges t ! i"
  using owns_below [OF assms(1,2)] assms(3) by (simp add: split_edge_def)

lemma rtree_inv_grow_node:
  assumes inv: "rtree_inv B t" and m: "m < nodes_len t" "nodes t ! m = Branch e l" "l < B"
    and room: "e + l < length (edges t)" "nodes_len t < length (nodes t)"
    and post: "post \<noteq> []" and fresh: "\<forall>i. owns t m i \<longrightarrow> hd (edge_prefix (edges t ! i)) \<noteq> hd post"
  shows "rtree_inv B (grow_node t m e l post v)" (is "rtree_inv B ?t")
proof -
  note own = owns_grow_node [OF inv m(1,2) room(2), of post v]
  note old = edges_grow_node [OF inv m, of _ _ post v]
  have new: "edges ?t ! (e + l) = \<lparr>edge_prefix = post, edge_node_idx = nodes_len t\<rparr>"
    using room(1) by (simp add: grow_node_def)
  note b = rtree_inv_branch [OF inv m(1,2)]
  have len: "nodes_len ?t = nodes_len t + 1" "edges_len ?t = edges_len t"
    "length (edges ?t) = length (edges t)" "length (nodes ?t) = length (nodes t)"
    by (simp_all add: grow_node_def)
  have node: "\<exists>l0. nodes t ! n = Branch e0 l0 \<and> l' \<le> B" "n < nodes_len t"
    if "nodes ?t ! n = Branch e0 l'" "n < nodes_len ?t" for n e0 l'
    using that m b inv room(2) rtree_inv_branch(2) [OF inv, of n e0 l']
    by (auto simp: grow_node_def nth_list_update less_Suc_eq split: if_splits)
  show ?thesis
    unfolding rtree_inv_def
  proof (intro conjI allI impI)
    show "0 < B" "B dvd edges_len ?t" using inv by (auto simp: rtree_inv_def len)
    show "nodes_len ?t \<le> length (nodes ?t)" using room(2) by (simp add: len)
  next
    fix n e0 l' assume n: "n < nodes_len ?t" "nodes ?t ! n = Branch e0 l'"
    with node [OF n(2,1)] rtree_inv_branch [OF inv]
    show "l' \<le> B" "B dvd e0" "e0 + B \<le> edges_len ?t" by (auto simp: len)
  next
    fix n n' e0 l1 l2
    assume "n < nodes_len ?t" "n' < nodes_len ?t" "nodes ?t ! n = Branch e0 l1" "nodes ?t ! n' = Branch e0 l2"
    with node show "n = n'" using inv unfolding rtree_inv_def by meson
  next
    fix n i assume "owns ?t n i"
    then consider "owns t n i" | "n = m" "i = e + l" by (auto simp: own)
    then show "i < length (edges ?t)" "edge_prefix (edges ?t ! i) \<noteq> []"
      "0 < edge_node_idx (edges ?t ! i)" "edge_node_idx (edges ?t ! i) < nodes_len ?t"
      using rtree_inv_edge [OF inv] old new room post m(1) by (cases; fastforce simp: len)+
  next
    fix n i j assume "owns ?t n i" "owns ?t n j"
      "hd (edge_prefix (edges ?t ! i)) = hd (edge_prefix (edges ?t ! j))"
    then show "i = j" using fresh rtree_inv_heads [OF inv] old new by (auto simp: own)
  next
    fix n n' i j assume "owns ?t n i" "owns ?t n' j"
      "edge_node_idx (edges ?t ! i) = edge_node_idx (edges ?t ! j)"
    moreover have "edge_node_idx (edges t ! i) \<noteq> nodes_len t" if "owns t n i" for n i
      using rtree_inv_edge(4) [OF inv that] by simp
    moreover have "i = j" if "owns t n i" "owns t n' j" "edge_node_idx (edges t ! i) = edge_node_idx (edges t ! j)"
      for n n' i j using inv that unfolding rtree_inv_def by blast
    ultimately show "i = j" using old new by (auto simp: own) metis+
  qed
qed

lemma rtree_inv_split_edge:
  assumes inv: "rtree_inv B t" and own0: "owns t n0 j"
    and r: "0 < r" "r < length (edge_prefix (edges t ! j))"
    and room: "nodes_len t + 1 < length (nodes t)" "edges_len t + 1 < length (edges t)" "B \<noteq> 1"
    and post: "post \<noteq> []" "edge_prefix (edges t ! j) ! r \<noteq> hd post"
  shows "rtree_inv B (split_edge B t j r post v)" (is "rtree_inv B ?t")
proof -
  define pre k where "pre = edge_prefix (edges t ! j)" and "k = edge_node_idx (edges t ! j)"
  note own = owns_split_edge [OF room(1), of B j r post v]
  note old = edges_split_edge [OF inv, of _ _ j r post v]
  note E = rtree_inv_edge [OF inv own0] and below = owns_below [OF inv]
  have B2: "2 \<le> B" and dvdL: "B dvd edges_len t" using inv room(3) by (auto simp: rtree_inv_def)
  have new: "edges ?t ! j = \<lparr>edge_prefix = take r pre, edge_node_idx = nodes_len t\<rparr>"
    "edges ?t ! edges_len t = \<lparr>edge_prefix = drop r pre, edge_node_idx = k\<rparr>"
    "edges ?t ! Suc (edges_len t) = \<lparr>edge_prefix = post, edge_node_idx = Suc (nodes_len t)\<rparr>"
    using room(2) E(1) below [OF own0] by (simp_all add: split_edge_def pre_def k_def nth_list_update)
  have len: "nodes_len ?t = nodes_len t + 2" "edges_len ?t = edges_len t + B"
    "length (edges ?t) = length (edges t)" "length (nodes ?t) = length (nodes t)"
    by (simp_all add: split_edge_def)
  have node: "(n < nodes_len t \<and> nodes t ! n = Branch e0 l') \<or> (n = nodes_len t \<and> e0 = edges_len t \<and> l' = 2)"
    if "nodes ?t ! n = Branch e0 l'" "n < nodes_len ?t" for n e0 l'
    using that room(1) by (auto simp: split_edge_def nth_list_update less_Suc_eq split: if_splits)
  have idx: "edge_node_idx (edges t ! i) < nodes_len t" if "owns t n i" for n i
    using rtree_inv_edge(4) [OF inv that] .
  have tgt: "i = i'" if "owns t n i" "owns t n' i'" "edge_node_idx (edges t ! i) = edge_node_idx (edges t ! i')"
    for n n' i i' using inv that unfolding rtree_inv_def by blast
  have pre0: "hd (take r pre) = hd pre" "take r pre \<noteq> []" "drop r pre \<noteq> []" "hd (drop r pre) \<noteq> hd post"
    using r post by (auto simp: pre_def hd_drop_conv_nth)
  show ?thesis
    unfolding rtree_inv_def
  proof (intro conjI allI impI)
    show "0 < B" "B dvd edges_len ?t" using inv by (auto simp: rtree_inv_def len)
    show "nodes_len ?t \<le> length (nodes ?t)" using room(1) by (simp add: len)
  next
    fix n e0 l' assume "n < nodes_len ?t" "nodes ?t ! n = Branch e0 l'"
    from node [OF this(2,1)] show "l' \<le> B" "B dvd e0" "e0 + B \<le> edges_len ?t"
      using rtree_inv_branch(2-4) [OF inv, of n e0 l'] dvdL B2 by (auto simp: len)
  next
    fix n n' e0 l1 l2
    assume n: "n < nodes_len ?t" "n' < nodes_len ?t" "nodes ?t ! n = Branch e0 l1" "nodes ?t ! n' = Branch e0 l2"
    have "e0 \<noteq> edges_len t" if "n < nodes_len t" "nodes t ! n = Branch e0 l" for n l
      using rtree_inv_branch [OF inv that] by simp
    then show "n = n'" using node [OF n(3,1)] node [OF n(4,2)] inv unfolding rtree_inv_def by blast
  next
    fix n i assume "owns ?t n i"
    then consider (old) "owns t n i" "i \<noteq> j" | (shared) "i = j" | (left) "i = edges_len t"
      | (right) "i = Suc (edges_len t)"
      by (auto simp: own)
    then have "i < length (edges ?t) \<and> edge_prefix (edges ?t ! i) \<noteq> [] \<and>
      0 < edge_node_idx (edges ?t ! i) \<and> edge_node_idx (edges ?t ! i) < nodes_len ?t"
    proof cases
      case old
      then show ?thesis
        using rtree_inv_edge [OF inv old(1)] edges_split_edge [OF inv old(1,2)] by (simp add: len)
    next
      case shared
      have "0 < nodes_len t" using own0 by (auto simp: owns_def)
      with shared show ?thesis using new(1) pre0(2) E(1) by (simp add: len)
    next
      case left
      then show ?thesis using new(2) pre0(3) E(3,4) room(2) by (simp add: len k_def)
    next
      case right
      then show ?thesis using new(3) post(1) room(2) by (simp add: len)
    qed
    then show "i < length (edges ?t)" "edge_prefix (edges ?t ! i) \<noteq> []"
      "0 < edge_node_idx (edges ?t ! i)" "edge_node_idx (edges ?t ! i) < nodes_len ?t"
      by blast+
  next
    fix n i i' assume o: "owns ?t n i" "owns ?t n i'"
      and h: "hd (edge_prefix (edges ?t ! i)) = hd (edge_prefix (edges ?t ! i'))"
    have hd_old: "hd (edge_prefix (edges ?t ! x)) = hd (edge_prefix (edges t ! x))" if "owns t n x" for x
      using old [OF that] new(1) pre0(1) by (cases "x = j") (auto simp: pre_def)
    have "\<not> owns t (nodes_len t) x" for x by (simp add: owns_def)
    with o h show "i = i'"
      using rtree_inv_heads [OF inv] hd_old new pre0(4) by (auto simp: own)
  next
    fix n n' i i' assume o: "owns ?t n i" "owns ?t n' i'"
      and h: "edge_node_idx (edges ?t ! i) = edge_node_idx (edges ?t ! i')"
    have kN: "k < nodes_len t" using E(4) by (simp add: k_def)
    have val: "(x = j \<and> edge_node_idx (edges ?t ! x) = nodes_len t) \<or>
        (x = edges_len t \<and> edge_node_idx (edges ?t ! x) = k) \<or>
        (x = Suc (edges_len t) \<and> edge_node_idx (edges ?t ! x) = Suc (nodes_len t)) \<or>
        (edge_node_idx (edges ?t ! x) < nodes_len t \<and> edge_node_idx (edges ?t ! x) \<noteq> k \<and>
         edge_node_idx (edges ?t ! x) = edge_node_idx (edges t ! x) \<and> owns t n x)"
      if "owns ?t n x" for n x
    proof (cases "owns t n x \<and> x \<noteq> j")
      case True
      then have "edges ?t ! x = edges t ! x" using edges_split_edge [OF inv] by blast
      moreover have "edge_node_idx (edges t ! x) \<noteq> k" using tgt [OF own0, of n x] True by (auto simp: k_def)
      ultimately show ?thesis using idx [of n x] True by simp
    next
      case False
      with that new show ?thesis by (auto simp: own)
    qed
    from val [OF o(1)] val [OF o(2)] h kN tgt [of n i n' i'] show "i = i'" by force
  qed
qed

lemma rpath_grow_node:
  assumes inv: "rtree_inv B t" and m: "m < nodes_len t" "nodes t ! m = Branch e l" "l < B"
    and room: "e + l < length (edges t)" "nodes_len t < length (nodes t)"
  shows "rpath (grow_node t m e l post v) n q \<longleftrightarrow>
     rpath t n q \<or> (n = nodes_len t \<and> (\<exists>q0. rpath t m q0 \<and> q = q0 @ post))" (is "rpath ?t n q \<longleftrightarrow> ?R n q")
proof -
  note own = owns_grow_node [OF inv m(1,2) room(2), of post v]
  note old = edges_grow_node [OF inv m, of _ _ post v]
  have new: "edges ?t ! (e + l) = \<lparr>edge_prefix = post, edge_node_idx = nodes_len t\<rparr>"
    using room(1) by (simp add: grow_node_def)
  have up: "rpath t n q \<Longrightarrow> rpath ?t n q" for n q
  proof (induction rule: rpath.induct)
    case root
    then show ?case by (intro rpath.root) (simp add: grow_node_def)
  next
    case (step n q i pre k)
    then show ?case using old [OF step.hyps(2)] by (intro rpath.step [of ?t n q i]) (auto simp: own)
  qed
  have "rpath ?t n q \<Longrightarrow> ?R n q"
  proof (induction rule: rpath.induct)
    case root
    then show ?case using m(1) by (auto intro: rpath.root)
  next
    case (step n q i pre k)
    from step.hyps(2) consider "owns t n i" | "n = m" "i = e + l" by (auto simp: own)
    then show ?case
    proof cases
      case 1
      then have "n < nodes_len t" by (simp add: owns_def)
      with step 1 old [OF 1] show ?thesis by (auto intro: rpath.step)
    next
      case 2
      with step new m(1) show ?thesis by auto
    qed
  qed
  moreover have "rpath ?t (nodes_len t) (q0 @ post)" if "rpath t m q0" for q0
    using rpath.step [OF up [OF that], of "e + l"] new by (auto simp: own)
  ultimately show ?thesis using up by auto
qed

lemma rpath_split_edge:
  assumes inv: "rtree_inv B t" and own0: "owns t n0 j"
    and room: "nodes_len t + 1 < length (nodes t)" "edges_len t + 1 < length (edges t)"
  defines "pre \<equiv> edge_prefix (edges t ! j)"
  shows "rpath (split_edge B t j r post v) n q \<longleftrightarrow>
     rpath t n q \<or> (n = nodes_len t \<and> (\<exists>q0. rpath t n0 q0 \<and> q = q0 @ take r pre)) \<or>
     (n = nodes_len t + 1 \<and> (\<exists>q0. rpath t n0 q0 \<and> q = q0 @ take r pre @ post))" (is "rpath ?t n q \<longleftrightarrow> ?R n q")
proof -
  define k where "k = edge_node_idx (edges t ! j)"
  note own = owns_split_edge [OF room(1), of B j r post v]
  note old = edges_split_edge [OF inv, of _ _ j r post v]
  note E = rtree_inv_edge [OF inv own0] and below = owns_below [OF inv own0]
  have edge: "edges t ! j = \<lparr>edge_prefix = pre, edge_node_idx = k\<rparr>" by (simp add: pre_def k_def)
  have new: "edges ?t ! j = \<lparr>edge_prefix = take r pre, edge_node_idx = nodes_len t\<rparr>"
    "edges ?t ! edges_len t = \<lparr>edge_prefix = drop r pre, edge_node_idx = k\<rparr>"
    "edges ?t ! Suc (edges_len t) = \<lparr>edge_prefix = post, edge_node_idx = Suc (nodes_len t)\<rparr>"
    using room(2) E(1) below by (simp_all add: split_edge_def pre_def k_def nth_list_update)
  have up: "rpath t n q \<Longrightarrow> rpath ?t n q" for n q
  proof (induction rule: rpath.induct)
    case root
    then show ?case by (intro rpath.root) (simp add: split_edge_def)
  next
    case (step n q i pre' m)
    show ?case
    proof (cases "i = j")
      case True
      have "rpath ?t (nodes_len t) (q @ take r pre)"
        using step.hyps(2) True new(1) by (intro rpath.step [OF step.IH, of j]) (auto simp: own)
      then have "rpath ?t k ((q @ take r pre) @ drop r pre)"
        by (rule rpath.step [of ?t _ _ "edges_len t"]) (auto simp: own new(2))
      with True edge step.hyps(3) show ?thesis by simp
    next
      case False
      with step old [OF step.hyps(2)] show ?thesis by (intro rpath.step [OF step.IH]) (auto simp: own)
    qed
  qed
  have N: "rpath ?t (nodes_len t) (q0 @ take r pre)" if "rpath t n0 q0" for q0
    using rpath.step [OF up [OF that], of j] own0 new(1) by (auto simp: own)
  have N1: "rpath ?t (nodes_len t + 1) (q0 @ take r pre @ post)" if "rpath t n0 q0" for q0
    using rpath.step [OF N [OF that], of "Suc (edges_len t)"] new(3) by (simp add: own)
  have "rpath ?t n q \<Longrightarrow> ?R n q"
  proof (induction rule: rpath.induct)
    case root
    then show ?case using own0 by (auto intro!: rpath.root simp: owns_def)
  next
    case (step n q i pre' m)
    from step.hyps(2) consider "owns t n i" "i \<noteq> j" | "i = j" "owns t n i" | "n = nodes_len t" "i = edges_len t"
      | "n = nodes_len t" "i = Suc (edges_len t)" by (auto simp: own)
    then show ?case
    proof cases
      case 1
      then have "n < nodes_len t" by (simp add: owns_def)
      with step 1 old [OF 1] show ?thesis by (auto intro: rpath.step)
    next
      case 2
      then have n: "n = n0" "n < nodes_len t"
        using rtree_inv_block [OF inv _ own0] by (auto simp: owns_def)
      with step 2 new(1) show ?thesis by auto
    next
      case 3
      then obtain q0 where "rpath t n0 q0" "q = q0 @ take r pre"
        using step.IH rpath_bound [OF _ inv, of "nodes_len t"] by auto
      moreover from this have "rpath t k (q @ drop r pre)"
        using rpath.step [of t n0 q0, OF _ own0 edge] by simp
      moreover have "pre' = drop r pre" "m = k" using 3 step.hyps(3) new(2) by auto
      ultimately show ?thesis by (simp only: simp_thms)
    next
      case 4
      then obtain q0 where "rpath t n0 q0" "q = q0 @ take r pre"
        using step.IH rpath_bound [OF _ inv, of "nodes_len t"] by auto
      with 4 step.hyps(3) new(3) show ?thesis by auto
    qed
  qed
  with up N N1 show ?thesis by auto
qed

section \<open>Correctness of insertion\<close>

lemma rtree_insert_first:
  assumes ins: "rtree_insert B (rtree_new n e) token v = Some t'" and B: "0 < B" and tok: "token \<noteq> []"
  shows "rtree_inv B t' \<and> 0 < nodes_len t' \<and> (\<forall>p w. reach t' 0 p w \<longleftrightarrow> p = token \<and> w = v)"
proof -
  from ins have t': "t' = \<lparr>nodes = (replicate n (Branch 0 0))[0 := Branch 0 1, 1 := Leaf v], nodes_len = 2,
        edges = (replicate e redge_new)[0 := \<lparr>edge_prefix = token, edge_node_idx = 1\<rparr>], edges_len = B\<rparr>"
    and room: "1 < n" "0 < e"
    by (auto simp: rtree_insert_def add_edge_list_def add_branch_node_def add_leaf_node_def rtree_new_def Let_def
        split: option.splits if_splits)
  have own: "owns t' k i \<longleftrightarrow> k = 0 \<and> i = 0" for k i
    using room by (auto simp: owns_def t' nth_list_update less_Suc_eq numeral_2_eq_2)
  have edge: "edges t' ! 0 = \<lparr>edge_prefix = token, edge_node_idx = 1\<rparr>" using room by (simp add: t')
  have len: "nodes_len t' = 2" by (simp add: t')
  have nds: "nodes t' ! 0 = Branch 0 1" "nodes t' ! 1 = Leaf v" using room by (simp_all add: t' nth_list_update)
  have inv: "rtree_inv B t'"
    using room B tok edge nds unfolding rtree_inv_def own
    by (auto simp: t' less_Suc_eq numeral_2_eq_2 nth_list_update split: if_splits)
  have leaf1: "reach t' (Suc 0) q w \<longleftrightarrow> q = [] \<and> w = v" for q w
    using nds len by (subst reach.simps) (auto simp: own)
  have "reach t' 0 p w \<longleftrightarrow> p = token \<and> w = v" for p w
    using len by (subst reach.simps) (auto simp: own edge nds leaf1)
  with inv show ?thesis by (simp add: t')
qed

lemma rtree_insert_next:
  assumes inv: "rtree_inv B t" and ne: "0 < nodes_len t" and ins: "rtree_insert B t token v = Some t'"
  shows "rtree_inv B t' \<and> nodes_len t < nodes_len t' \<and>
    (\<forall>p w. reach t' 0 p w \<longleftrightarrow> reach t 0 p w \<or> (p = token \<and> w = v))"
proof -
  have pos0: "rpos t (Node 0) []" "valid_at t (Node 0)"
    using ne by (auto simp: rpos_def valid_at_def intro: rpath.root)
  from ne have "nodes_len t \<noteq> 0" by simp
  with ins show ?thesis
  proof (cases rule: rtree_insert_cases)
    case (node m e l idx)
    note M = lookup_mismatch [OF inv pos0 node(1)]
    have path: "rpath t m (take idx token)" using M by (simp add: rpos_def)
    have m: "m < nodes_len t" by (rule rpath_bound [OF path inv])
    have l: "l < B" using rtree_inv_branch(2) [OF inv m node(4)] node(5) by simp
    have post: "drop idx token \<noteq> []" "hd (drop idx token) = token ! idx" "idx < length token"
      using M by (auto simp: hd_drop_conv_nth)
    have inv': "rtree_inv B t'"
      unfolding node(8) using M post
      by (intro rtree_inv_grow_node [OF inv m node(4) l node(6,7)]) (auto simp: stuck_on_def)
    have lf: "nodes t' ! k = Leaf w \<longleftrightarrow> (if k = nodes_len t then w = v else nodes t ! k = Leaf w)" for k w
      using node m by (auto simp: grow_node_def nth_list_update)
    have len: "nodes_len t' = nodes_len t + 1" by (simp add: node(8) grow_node_def)
    note rp = rpath_grow_node [OF inv m node(4) l node(6,7), of "drop idx token" v, folded node(8)]
    have "reach t' 0 p w \<longleftrightarrow> reach t 0 p w \<or> (p = token \<and> w = v)" for p w
      using ne rpath_bound [OF _ inv] rpath_unique [OF inv path] path
      by (auto simp: reach_rpath len rp lf less_Suc_eq) force+
    with inv' len show ?thesis by simp
  next
    case (edge i r idx)
    note M = lookup_mismatch [OF inv pos0 edge(1)]
    then obtain n0 q0 where own: "owns t n0 i" and path: "rpath t n0 q0" and r: "0 < r"
      and q0: "take idx token = q0 @ take r (edge_prefix (edges t ! i))"
      by (auto simp: rpos_def)
    have post: "drop idx token \<noteq> []" "hd (drop idx token) = token ! idx" "idx < length token"
      using M by (auto simp: hd_drop_conv_nth)
    have inv': "rtree_inv B t'"
      unfolding edge(6) using M post r
      by (intro rtree_inv_split_edge [OF inv own r _ edge(3,4,5)]) (auto simp: stuck_on_def)
    have lf: "nodes t' ! k = Leaf w \<longleftrightarrow>
        (if k = Suc (nodes_len t) then w = v else if k = nodes_len t then False else nodes t ! k = Leaf w)" for k w
      using edge by (auto simp: split_edge_def nth_list_update)
    have len: "nodes_len t' = nodes_len t + 2" by (simp add: edge(6) split_edge_def)
    note rp = rpath_split_edge [OF inv own edge(3,4), of r "drop idx token" v, folded edge(6)]
    have tok: "q0 @ take r (edge_prefix (edges t ! i)) @ drop idx token = token"
      using q0 by (metis append_assoc append_take_drop_id)
    have ne': "0 < nodes_len t'" by (simp add: len)
    have "reach t' 0 p w \<longleftrightarrow> reach t 0 p w \<or> (p = token \<and> w = v)" for p w
    proof
      assume "reach t' 0 p w"
      then obtain m where m: "rpath t' m p" "nodes t' ! m = Leaf w" by (auto simp: reach_rpath [OF ne'])
      from m(1) consider "rpath t m p" | "m = nodes_len t"
        | q1 where "m = nodes_len t + 1" "rpath t n0 q1" "p = q1 @ take r (edge_prefix (edges t ! i)) @ drop idx token"
        unfolding rp by blast
      then show "reach t 0 p w \<or> (p = token \<and> w = v)"
      proof cases
        case 1
        with rpath_bound [OF 1 inv] m(2) show ?thesis by (auto simp: reach_rpath [OF ne] lf)
      next
        case 2
        with m(2) show ?thesis by (simp add: lf)
      next
        case 3
        with rpath_unique [OF inv path 3(2)] tok m(2) show ?thesis by (simp add: lf)
      qed
    next
      assume "reach t 0 p w \<or> (p = token \<and> w = v)"
      then show "reach t' 0 p w"
      proof
        assume "reach t 0 p w"
        then obtain m where "rpath t m p" "m < nodes_len t" "nodes t ! m = Leaf w"
          by (auto simp: reach_rpath [OF ne])
        then show ?thesis unfolding reach_rpath [OF ne'] by (intro exI [of _ m]) (simp add: rp lf len)
      next
        assume "p = token \<and> w = v"
        moreover have "rpath t' (nodes_len t + 1) token" unfolding rp using path tok by metis
        ultimately show ?thesis unfolding reach_rpath [OF ne'] using lf [of "nodes_len t + 1" v]
          by (intro exI [of _ "nodes_len t + 1"]) (simp add: len)
      qed
    qed
    with inv' len show ?thesis by simp
  qed
qed

end
