(* ===== verification/Nar_Reader.thy ===== *)
theory Nar_Reader
  imports Radix_Tree Wire
begin

text \<open>
  The streaming NAR recogniser of \<open>harmonia-nar/src/archive/read_nar.rs\<close>: the constant tokens,
  the state machine \<open>Inner\<close> and its \<open>drive\<close> loop over one buffer, with the mode \<open>P\<close> (whether
  the machine skips contents and names itself, as \<open>NarReader\<close> needs it, or stops at them, as
  \<open>NarParser\<close> needs it).
\<close>

section \<open>Tokens\<close>

definition encode :: "nat \<Rightarrow> bytes \<Rightarrow> bytes" where
  "encode r s = to_le_bytes (word_of_nat (length s)) @ s @ replicate (r - 8 - length s) 0"

definition encoding :: "string \<Rightarrow> bytes" where
  "encoding value =
     (let n = as_bytes value;
          tn = unat (calc_aligned (word_of_nat (length n))) + 8
      in encode tn n)"

definition concat_tokens :: "string list \<Rightarrow> bytes" where
  "concat_tokens es = concat (map encoding es)"

definition TOK_ROOT :: bytes where "TOK_ROOT = concat_tokens [''nix-archive-1'', ''('', ''type'']"
definition TOK_PAR :: bytes where "TOK_PAR = encoding '')''"
definition TOK_ENTRY :: bytes where "TOK_ENTRY = concat_tokens [''entry'', ''('', ''name'']"
definition TOK_NODE :: bytes where "TOK_NODE = concat_tokens [''node'', ''('', ''type'']"
definition TOK_FILE_E :: bytes where "TOK_FILE_E = concat_tokens [''regular'', ''executable'', '''', ''contents'']"
definition TOK_FILE :: bytes where "TOK_FILE = concat_tokens [''regular'', ''contents'']"
definition TOK_SYM :: bytes where "TOK_SYM = concat_tokens [''symlink'', ''target'']"
definition TOK_DIR :: bytes where "TOK_DIR = concat_tokens [''directory'']"

section \<open>The state machine\<close>

datatype NodeType = NFile | NExecutableFile | NSymlink

datatype InnerState =
    Root nat
  | SelectNode RLookup
  | ReadContentsLen NodeType bytes nat
  | ReadContents NodeType u64 u64
  | FinishNode nat
  | ReadDir
  | FinishEntry nat
  | ReadEntries RLookup
  | FinishReadEntry
  | ReadEntryNameLen bytes nat
  | ReadEntryName u64 u64
  | ReadNode nat
  | Eof

record Inner =
  state :: InnerState
  level :: nat

definition inner_new :: Inner where
  "inner_new = \<lparr>state = Root 0, level = 0\<rparr>"

definition is_eof :: "Inner \<Rightarrow> bool" where
  "is_eof s \<longleftrightarrow> state s = Eof"

text \<open>The two constant trees; a panic while they are built would be a compile error.\<close>

definition node_select :: "InnerState RTree option" where
  "node_select =
     (case rtree_insert 2 (rtree_new 7 6) TOK_DIR ReadDir of None \<Rightarrow> None
      | Some t1 \<Rightarrow> (case rtree_insert 2 t1 TOK_SYM (ReadContentsLen NSymlink ZEROS 0) of None \<Rightarrow> None
      | Some t2 \<Rightarrow> (case rtree_insert 2 t2 TOK_FILE (ReadContentsLen NFile ZEROS 0) of None \<Rightarrow> None
      | Some t3 \<Rightarrow> rtree_insert 2 t3 TOK_FILE_E (ReadContentsLen NExecutableFile ZEROS 0))))"

definition entry_select :: "InnerState RTree option" where
  "entry_select =
     (case rtree_insert 2 (rtree_new 3 2) TOK_ENTRY (ReadEntryNameLen ZEROS 0) of None \<Rightarrow> None
      | Some t1 \<Rightarrow> rtree_insert 2 t1 TOK_PAR FinishReadEntry)"

definition NODE_SELECT :: "InnerState RTree" where
  "NODE_SELECT = (case node_select of Some t \<Rightarrow> t | None \<Rightarrow> rtree_new 0 0)"

definition ENTRY_SELECT :: "InnerState RTree" where
  "ENTRY_SELECT = (case entry_select of Some t \<Rightarrow> t | None \<Rightarrow> rtree_new 0 0)"

lemma node_select_some: "node_select \<noteq> None"
  by code_simp

lemma entry_select_some: "entry_select \<noteq> None"
  by code_simp


text \<open>One round of the loop of \<open>drive\<close>: stop with a state and a number of bytes used, go on
  with both, return an error, or panic.\<close>

datatype drive_step = Break Inner nat | Continue Inner nat | Fail io_error | Panic

definition invalid :: "string \<Rightarrow> io_error" where
  "invalid msg = IoError InvalidData msg"

definition read_token :: "(nat \<Rightarrow> InnerState) \<Rightarrow> bytes \<Rightarrow> InnerState \<Rightarrow> Inner \<Rightarrow> nat \<Rightarrow> bytes \<Rightarrow> drive_step" where
  "read_token here token after s read buf =
     (if length token < read then Panic
      else let rem = drop read token; cmp = min (length rem) (length buf) in
        if take cmp rem \<noteq> take cmp buf then Fail (invalid ''invalid data in NAR'')
        else if cmp < length rem then Break (s\<lparr>state := here (read + cmp)\<rparr>) cmp
        else Continue (s\<lparr>state := after\<rparr>) cmp)"

definition select_token ::
  "InnerState RTree \<Rightarrow> (RLookup \<Rightarrow> InnerState) \<Rightarrow> string \<Rightarrow> Inner \<Rightarrow> RLookup \<Rightarrow> bytes \<Rightarrow> drive_step" where
  "select_token tree here msg s st buf =
     (case lookup tree st buf 0 of
        None \<Rightarrow> Panic
      | Some (Matched read, st') \<Rightarrow>
          if length buf < read then Panic
          else (case get_value tree st' of
                  None \<Rightarrow> Panic
                | Some v \<Rightarrow> Continue (s\<lparr>state := v\<rparr>) read)
      | Some (NeedsMore, st') \<Rightarrow> Break (s\<lparr>state := here st'\<rparr>) (length buf)
      | Some (Mismatch _, _) \<Rightarrow> Fail (invalid msg))"

definition read_len ::
  "(bytes \<Rightarrow> nat \<Rightarrow> InnerState) \<Rightarrow> (u64 \<Rightarrow> InnerState) \<Rightarrow> Inner \<Rightarrow> bytes \<Rightarrow> nat \<Rightarrow> bytes \<Rightarrow> drive_step" where
  "read_len here after s value read buf =
     (if 8 < read then Panic
      else let rem = min (length buf) (8 - read);
               new_read = read + rem;
               value' = take read value @ take rem buf @ drop new_read value
           in if new_read < 8 then Break (s\<lparr>state := here value' new_read\<rparr>) rem
              else Continue (s\<lparr>state := after (from_le_bytes value')\<rparr>) rem)"

definition bump_state :: "Inner \<Rightarrow> Inner option" where
  "bump_state s =
     (case state s of
        ReadContents _ _ _ \<Rightarrow> Some (s\<lparr>state := FinishNode 0\<rparr>)
      | ReadEntryName _ _ \<Rightarrow> Some (s\<lparr>state := ReadNode 0\<rparr>)
      | ReadDir \<Rightarrow> Some (s\<lparr>state := ReadEntries (Node 0)\<rparr>)
      | FinishReadEntry \<Rightarrow>
          if 1 < level s then Some (s\<lparr>level := level s - 1, state := FinishEntry 0\<rparr>)
          else Some (s\<lparr>state := Eof\<rparr>)
      | _ \<Rightarrow> None)"

definition bump_next :: "bool \<Rightarrow> Inner \<Rightarrow> Inner option" where
  "bump_next P s = (if P then None else bump_state s)"

definition bump_after :: "Inner \<Rightarrow> nat \<Rightarrow> drive_step" where
  "bump_after s n = (case bump_state s of None \<Rightarrow> Panic | Some s' \<Rightarrow> Continue s' n)"

text \<open>Skipping contents or a name: \<open>rem\<close> bytes are still to come.\<close>

definition skip_bytes :: "(u64 \<Rightarrow> InnerState) \<Rightarrow> Inner \<Rightarrow> u64 \<Rightarrow> bytes \<Rightarrow> drive_step" where
  "skip_bytes here s rem buf =
     (if length buf < unat rem
      then Break (s\<lparr>state := here (rem - word_of_nat (length buf))\<rparr>) (length buf)
      else bump_after s (unat rem))"

definition drive_iter :: "bool \<Rightarrow> Inner \<Rightarrow> bytes \<Rightarrow> drive_step" where
  "drive_iter P s buf =
     (case state s of
        Root read \<Rightarrow> read_token Root TOK_ROOT (SelectNode (Node 0)) s read buf
      | SelectNode st \<Rightarrow> select_token NODE_SELECT SelectNode ''could not select node type'' s st buf
      | ReadContentsLen node_type value read \<Rightarrow>
          read_len (ReadContentsLen node_type)
            (\<lambda>len. ReadContents node_type len (calc_aligned len)) s value read buf
      | ReadContents node_type sz rem \<Rightarrow>
          if \<not> P then Break s 0 else skip_bytes (ReadContents node_type sz) s rem buf
      | FinishNode read \<Rightarrow>
          read_token FinishNode TOK_PAR (if 0 < level s then FinishEntry 0 else Eof) s read buf
      | ReadDir \<Rightarrow>
          (let s1 = s\<lparr>level := level s + 1\<rparr> in if \<not> P then Break s1 0 else bump_after s1 0)
      | FinishEntry read \<Rightarrow> read_token FinishEntry TOK_PAR (ReadEntries (Node 0)) s read buf
      | ReadEntries st \<Rightarrow> select_token ENTRY_SELECT ReadEntries ''could not read entry'' s st buf
      | FinishReadEntry \<Rightarrow> if \<not> P then Break s 0 else bump_after s 0
      | ReadEntryNameLen value read \<Rightarrow>
          read_len ReadEntryNameLen (\<lambda>len. ReadEntryName len (calc_aligned len)) s value read buf
      | ReadEntryName len rem \<Rightarrow>
          if \<not> P then Break s 0 else skip_bytes (ReadEntryName len) s rem buf
      | ReadNode read \<Rightarrow> read_token ReadNode TOK_NODE (SelectNode (Node 0)) s read buf
      | Eof \<Rightarrow> Break s 0)"

section \<open>The trees\<close>

lemma ENTRY_SELECT_nodes:
  "nodes ENTRY_SELECT = [Branch 0 2, Leaf (ReadEntryNameLen ZEROS 0), Leaf FinishReadEntry]"
  by code_simp

lemma NODE_SELECT_nodes:
  "nodes NODE_SELECT =
     [Branch 0 2, Leaf ReadDir, Leaf (ReadContentsLen NSymlink ZEROS 0), Branch 2 2,
      Leaf (ReadContentsLen NFile ZEROS 0), Branch 4 2, Leaf (ReadContentsLen NExecutableFile ZEROS 0)]"
  by code_simp

lemma get_value_in_leaves: "get_value t st = Some v \<Longrightarrow> Leaf v \<in> set (nodes t)"
  by (auto simp: get_value_def split: RLookup.splits if_splits RNode.splits) (metis nth_mem)

section \<open>The loop ends\<close>

fun rank :: "InnerState \<Rightarrow> nat" where
  "rank (Root read) = (if read = 0 then 0 else 5)"
| "rank (ReadNode read) = (if read = 0 then 0 else 5)"
| "rank (SelectNode _) = 4"
| "rank ReadDir = 3"
| "rank (FinishEntry read) = (if read = 0 then 0 else 3)"
| "rank (ReadEntries _) = 2"
| "rank (ReadContentsLen _ _ read) = (if read = 0 then 0 else 2)"
| "rank (ReadEntryNameLen _ read) = (if read = 0 then 0 else 2)"
| "rank (ReadContents _ _ _) = 1"
| "rank (ReadEntryName _ _) = 1"
| "rank (FinishNode read) = (if read = 0 then 0 else 1)"
| "rank FinishReadEntry = 1"
| "rank Eof = 0"

lemma token_lengths [simp, token_simps]:
  "length TOK_ROOT = 56" "length TOK_PAR = 16" "length TOK_ENTRY = 48" "length TOK_NODE = 48"
  "length TOK_FILE_E = 64" "length TOK_FILE = 32" "length TOK_SYM = 32" "length TOK_DIR = 24"
  by code_simp+

lemma token_not_Nil [simp]:
  "TOK_ROOT \<noteq> []" "TOK_PAR \<noteq> []" "TOK_ENTRY \<noteq> []" "TOK_NODE \<noteq> []" "TOK_DIR \<noteq> []"
  using token_lengths by (metis list.size(3) zero_neq_numeral)+

lemma read_token_Continue:
  "read_token here token after s read buf = Continue s' n \<Longrightarrow>
     read \<le> length token \<and> n = length token - read \<and> n \<le> length buf \<and> s' = s\<lparr>state := after\<rparr>"
  by (auto simp: read_token_def Let_def min_def split: if_splits)

lemma select_token_Continue:
  "select_token tree here msg s st buf = Continue s' n \<Longrightarrow>
     n \<le> length buf \<and> (\<exists>v. Leaf v \<in> set (nodes tree) \<and> s' = s\<lparr>state := v\<rparr>)"
  by (auto simp: select_token_def dest: get_value_in_leaves
      split: option.splits prod.splits RMatch.splits if_splits)

lemma read_len_Continue:
  "read_len here after s value read buf = Continue s' n \<Longrightarrow>
     read \<le> 8 \<and> n = 8 - read \<and> n \<le> length buf \<and> (\<exists>len. s' = s\<lparr>state := after len\<rparr>)"
  by (auto simp: read_len_def Let_def min_def split: if_splits)

lemma skip_bytes_Continue:
  "skip_bytes here s rem buf = Continue s' n \<Longrightarrow> n \<le> length buf \<and> bump_state s = Some s'"
  by (auto simp: skip_bytes_def bump_after_def split: if_splits option.splits)

lemma bump_after_Continue: "bump_after s k = Continue s' n \<longleftrightarrow> n = k \<and> bump_state s = Some s'"
  by (auto simp: bump_after_def split: option.splits)

lemma drive_iter_Continue:
  assumes "drive_iter P s buf = Continue s' n"
  shows "n \<le> length buf \<and> 6 * (length buf - n) + rank (state s') < 6 * length buf + rank (state s)"
proof (cases "state s")
  case (SelectNode st)
  with assms have "select_token NODE_SELECT SelectNode ''could not select node type'' s st buf = Continue s' n"
    by (simp add: drive_iter_def)
  from select_token_Continue [OF this] SelectNode show ?thesis
    by (auto simp: NODE_SELECT_nodes)
next
  case (ReadEntries st)
  with assms have "select_token ENTRY_SELECT ReadEntries ''could not read entry'' s st buf = Continue s' n"
    by (simp add: drive_iter_def)
  from select_token_Continue [OF this] ReadEntries show ?thesis
    by (auto simp: ENTRY_SELECT_nodes)
qed (use assms in \<open>auto simp: drive_iter_def bump_after_Continue bump_state_def Let_def
        dest!: read_token_Continue read_len_Continue skip_bytes_Continue split: if_splits\<close>)

function drive :: "bool \<Rightarrow> Inner \<Rightarrow> bytes \<Rightarrow> nat \<Rightarrow> (Inner \<times> nat io_result) option" where
  "drive P s buf parsed =
     (case drive_iter P s buf of
        Break s' n \<Rightarrow> Some (s', Inr (parsed + n))
      | Continue s' n \<Rightarrow> drive P s' (drop n buf) (parsed + n)
      | Fail e \<Rightarrow> Some (s, Inl e)
      | Panic \<Rightarrow> None)"
  by pat_completeness auto
termination
  by (relation "measure (\<lambda>(P, s, buf, parsed). 6 * length buf + rank (state s))")
    (auto dest: drive_iter_Continue)

declare drive.simps [simp del]


section \<open>Chunk independence\<close>

text \<open>The reader may receive the archive in any pieces: \<open>drive\<close> over a buffer that is extended
  later is \<open>drive\<close> over the whole. The only memory between two calls is \<open>Inner\<close>.\<close>

primrec shift_match :: "nat \<Rightarrow> RMatch \<Rightarrow> RMatch" where
  "shift_match k (Matched n) = Matched (k + n)"
| "shift_match k NeedsMore = NeedsMore"
| "shift_match k (Mismatch n) = Mismatch (k + n)"

lemma lookup_shift:
  "lookup t st buf (k + p) = map_option (apfst (shift_match k)) (lookup t st buf p)"
proof (induction t st buf p rule: lookup.induct)
  case (1 t nidx buf p)
  then show ?case
    by (auto simp: lookup.simps(1) [of t nidx] algebra_simps split: RNode.splits list.splits option.splits)
next
  case (2 t eidx r buf p)
  obtain pre m where e: "edges t ! eidx = \<lparr>edge_prefix = pre, edge_node_idx = m\<rparr>"
    by (metis redge_eq)
  show ?case
  proof (cases "eidx < length (edges t) \<and> r \<le> length pre")
    case False
    with e show ?thesis by (simp add: lookup_edge_panic)
  next
    case True
    then have lt: "eidx < length (edges t)" and r: "r \<le> length pre" by auto
    have IH: "lookup t (Node m) (drop (length pre - r) buf) (k + (p + (length pre - r))) =
        map_option (apfst (shift_match k)) (lookup t (Node m) (drop (length pre - r) buf) (p + (length pre - r)))"
      if "\<not> agree (drop r pre) buf < min (length pre - r) (length buf)" "\<not> length buf < length pre - r"
      using 2 [OF _ refl refl refl] that lt r e by (simp add: min_def)
    show ?thesis
      using IH unfolding lookup_edge [OF lt e r] by (simp add: add.assoc)
  qed
qed

primrec shift_step :: "nat \<Rightarrow> drive_step \<Rightarrow> drive_step" where
  "shift_step k (Break s n) = Break s (k + n)"
| "shift_step k (Continue s n) = Continue s (k + n)"
| "shift_step k (Fail e) = Fail e"
| "shift_step k Panic = Panic"

lemma read_token_grow:
  "read_token here token after s read a = Continue s' n \<Longrightarrow>
     read_token here token after s read (a @ b) = Continue s' n"
  by (auto simp: read_token_def Let_def min_def split: if_splits)

lemma read_token_grow_Fail:
  assumes "read_token here token after s read a = Fail e"
  shows "read_token here token after s read (a @ b) = Fail e"
proof -
  let ?rem = "drop read token"
  let ?c = "min (length ?rem) (length a)" and ?d = "min (length ?rem) (length (a @ b))"
  from assms have ne: "take ?c ?rem \<noteq> take ?c a" and e: "e = invalid ''invalid data in NAR''"
    and r: "\<not> length token < read"
    by (auto simp: read_token_def Let_def split: if_splits)
  have "take ?d ?rem \<noteq> take ?d (a @ b)"
  proof
    assume "take ?d ?rem = take ?d (a @ b)"
    then have "take ?c (take ?d ?rem) = take ?c (take ?d (a @ b))" by simp
    then have "take ?c ?rem = take ?c a" by (simp add: min.absorb1 min_le_iff_disj)
    with ne show False by simp
  qed
  with r e show ?thesis by (simp add: read_token_def Let_def)
qed

lemma read_token_resume:
  assumes "read_token here token after s read a = Break s' n"
  shows "n = length a \<and> s' = s\<lparr>state := here (read + length a)\<rparr> \<and>
    read_token here token after s read (a @ b) =
      shift_step n (read_token here token after s' (read + length a) b)"
proof -
  from assms have r: "read \<le> length token" "read + length a < length token"
    and m: "take (length a) (drop read token) = a" and n: "n = length a"
    and s': "s' = s\<lparr>state := here (read + length a)\<rparr>"
    by (auto simp: read_token_def Let_def min_def split: if_splits)
  let ?rem = "drop (read + length a) token"
  have d: "drop read token = a @ ?rem"
    using m by (metis append_take_drop_id drop_drop add.commute)
  have l: "length (drop read token) = length a + length ?rem"
    unfolding d by simp
  have "min (length (drop read token)) (length (a @ b)) = length a + min (length ?rem) (length b)"
    unfolding l by simp
  then show ?thesis
    using r n s' unfolding read_token_def d by (simp add: Let_def add.assoc)
qed

lemma select_token_grow:
  assumes "select_token tree here msg s st a = r" "\<And>s' n. r \<noteq> Break s' n"
  shows "select_token tree here msg s st (a @ b) = r"
  using assms lookup_append [of tree st a b 0]
  by (auto simp: select_token_def split: option.splits prod.splits RMatch.splits if_splits
      dest: lookup_Matched_bounds)

lemma select_token_resume:
  assumes "select_token tree here msg s st a = Break s' n"
  shows "n = length a \<and> (\<exists>st'. lookup tree st a 0 = Some (NeedsMore, st') \<and> s' = s\<lparr>state := here st'\<rparr> \<and>
    select_token tree here msg s st (a @ b) = shift_step n (select_token tree here msg s' st' b))"
proof -
  from assms obtain st' where st': "lookup tree st a 0 = Some (NeedsMore, st')"
    and n: "n = length a" and s': "s' = s\<lparr>state := here st'\<rparr>"
    by (auto simp: select_token_def split: option.splits prod.splits RMatch.splits if_splits)
  have "lookup tree st (a @ b) 0 = map_option (apfst (shift_match (length a))) (lookup tree st' b 0)"
    using lookup_append [of tree st a b 0] lookup_shift [of tree st' b "length a" 0] st' by simp
  then have "select_token tree here msg s st (a @ b) = shift_step n (select_token tree here msg s' st' b)"
    using n s' by (auto simp: select_token_def split: option.splits prod.splits RMatch.splits if_splits)
  with st' n s' show ?thesis by blast
qed

lemma read_len_grow:
  "read_len here after s value read a = r \<Longrightarrow> (\<And>s' n. r \<noteq> Break s' n) \<Longrightarrow>
     read_len here after s value read (a @ b) = r"
proof (cases "length a < 8 - read")
  case True
  then have "\<exists>s' n. read_len here after s value read a = Break s' n"
    by (simp add: read_len_def Let_def)
  moreover assume "read_len here after s value read a = r" "\<And>s' n. r \<noteq> Break s' n"
  ultimately show ?thesis by blast
next
  case False
  then have m: "min (length a) (8 - read) = 8 - read" "min (length (a @ b)) (8 - read) = 8 - read" by auto
  moreover assume "read_len here after s value read a = r"
  ultimately show ?thesis using False by (auto simp: read_len_def Let_def m)
qed

lemma read_len_resume:
  assumes "read_len here after s value read a = Break s' n" and v: "length value = 8"
  shows "n = length a \<and> (\<exists>value'. length value' = 8 \<and> s' = s\<lparr>state := here value' (read + length a)\<rparr> \<and>
    read_len here after s value read (a @ b) =
      shift_step n (read_len here after s' value' (read + length a) b))"
proof -
  let ?v = "take read value @ a @ drop (read + length a) value"
  from assms have r: "read + length a < 8" and n: "n = length a"
    and s': "s' = s\<lparr>state := here ?v (read + length a)\<rparr>"
    by (auto simp: read_len_def Let_def min_def split: if_splits)
  have t: "take (read + length a) ?v = take read value @ a"
    using r v by simp
  have d: "drop (read + length a + k) ?v = drop (read + length a + k) value" for k
    using r v by (simp add: add.commute)
  have m: "min (length (a @ b)) (8 - read) = length a + min (length b) (8 - (read + length a))"
    using r by auto
  have "read_len here after s value read (a @ b) =
      shift_step n (read_len here after s' ?v (read + length a) b)"
    using r n s' v unfolding read_len_def m t by (simp add: Let_def d ac_simps min_absorb2)
  moreover have "length ?v = 8" using r v by simp
  ultimately show ?thesis using n s' by blast
qed

lemma skip_bytes_grow:
  "skip_bytes here s rem a = r \<Longrightarrow> (\<And>s' n. r \<noteq> Break s' n) \<Longrightarrow> skip_bytes here s rem (a @ b) = r"
  by (auto simp: skip_bytes_def bump_after_def split: if_splits option.splits)


lemma skip_bytes_resume:
  assumes "skip_bytes here s rem a = Break s' n"
    and bump: "\<And>rem'. bump_state (s\<lparr>state := here rem'\<rparr>) = bump_state s"
  shows "n = length a \<and> (\<exists>rem'. s' = s\<lparr>state := here rem'\<rparr> \<and>
    skip_bytes here s rem (a @ b) = shift_step n (skip_bytes here s' rem' b))"
proof -
  let ?r = "rem - word_of_nat (length a)"
  from assms(1) have lt: "length a < unat rem" and n: "n = length a" and s': "s' = s\<lparr>state := here ?r\<rparr>"
    by (auto simp: skip_bytes_def bump_after_def split: if_splits option.splits)
  have w: "unat (word_of_nat (length a) :: u64) = length a"
    using lt unat_u64_less [of rem] by (simp add: unat_of_nat)
  then have u: "unat ?r = unat rem - length a"
    using lt by (simp add: unat_sub_if')
  have "skip_bytes here s rem (a @ b) = shift_step n (skip_bytes here s' ?r b)"
    using lt n s' bump unfolding skip_bytes_def u
    by (auto simp: bump_after_def algebra_simps split: option.splits)
  with n s' show ?thesis by blast
qed

text \<open>The memory is well formed: a length under assembly is an array of eight bytes.\<close>

definition len_ok :: "Inner \<Rightarrow> bool" where
  "len_ok s = (case state s of ReadContentsLen _ v _ \<Rightarrow> length v = 8
     | ReadEntryNameLen v _ \<Rightarrow> length v = 8 | _ \<Rightarrow> True)"

lemma drive_iter_len_ok:
  assumes "drive_iter P s buf = Continue s' n"
  shows "len_ok s'"
proof (cases "state s")
  case (SelectNode st)
  with assms have "select_token NODE_SELECT SelectNode ''could not select node type'' s st buf = Continue s' n"
    by (simp add: drive_iter_def)
  from select_token_Continue [OF this] show ?thesis
    by (auto simp: NODE_SELECT_nodes len_ok_def ZEROS_def)
next
  case (ReadEntries st)
  with assms have "select_token ENTRY_SELECT ReadEntries ''could not read entry'' s st buf = Continue s' n"
    by (simp add: drive_iter_def)
  from select_token_Continue [OF this] show ?thesis
    by (auto simp: ENTRY_SELECT_nodes len_ok_def ZEROS_def)
qed (use assms in \<open>auto simp: drive_iter_def bump_after_Continue bump_state_def Let_def len_ok_def
        dest!: read_token_Continue read_len_Continue skip_bytes_Continue split: if_splits\<close>)

lemma read_token_not_Panic_grow:
  "read_token here token after s read a = Panic \<Longrightarrow> read_token here token after s read (a @ b) = Panic"
  by (auto simp: read_token_def Let_def split: if_splits)

lemma read_token_grow_any:
  "read_token here token after s read a = r \<Longrightarrow> (\<And>s' n. r \<noteq> Break s' n) \<Longrightarrow>
     read_token here token after s read (a @ b) = r"
  by (cases r) (auto dest: read_token_grow read_token_grow_Fail read_token_not_Panic_grow)

text \<open>Where \<open>drive\<close> stops by itself: at the end, and without \<open>P\<close> wherever the caller has to act.\<close>

definition stops :: "bool \<Rightarrow> Inner \<Rightarrow> bool" where
  "stops P s = (case state s of Eof \<Rightarrow> True
     | ReadContents _ _ _ \<Rightarrow> \<not> P | ReadEntryName _ _ \<Rightarrow> \<not> P | ReadDir \<Rightarrow> \<not> P | FinishReadEntry \<Rightarrow> \<not> P
     | _ \<Rightarrow> False)"

lemma drive_iter_stops:
  "stops P s \<Longrightarrow> drive_iter P s buf =
     Break (if state s = ReadDir then s\<lparr>level := level s + 1\<rparr> else s) 0"
  by (auto simp: stops_def drive_iter_def Let_def split: InnerState.splits)

lemma drive_iter_grow:
  assumes "drive_iter P s a = r" "\<And>s' n. r \<noteq> Break s' n"
  shows "drive_iter P s (a @ b) = r"
  using assms
  by (cases "state s")
    (auto simp: drive_iter_def Let_def split: if_splits intro: read_token_grow_any select_token_grow read_len_grow skip_bytes_grow)

lemma drive_iter_resume:
  assumes "drive_iter P s a = Break s' n" "\<not> stops P s" "len_ok s"
  shows "n = length a \<and> len_ok s' \<and> drive_iter P s (a @ b) = shift_step n (drive_iter P s' b)"
proof (cases "state s")
  case (Root read)
  note tok = read_token_resume [of Root TOK_ROOT "SelectNode (Node 0)" s read a s' n b]
  from Root assms(1) tok show ?thesis by (auto simp: drive_iter_def len_ok_def)
next
  case (ReadNode read)
  note tok = read_token_resume [of ReadNode TOK_NODE "SelectNode (Node 0)" s read a s' n b]
  from ReadNode assms(1) tok show ?thesis by (auto simp: drive_iter_def len_ok_def)
next
  case (FinishEntry read)
  note tok = read_token_resume [of FinishEntry TOK_PAR "ReadEntries (Node 0)" s read a s' n b]
  from FinishEntry assms(1) tok show ?thesis by (auto simp: drive_iter_def len_ok_def)
next
  case (FinishNode read)
  note tok = read_token_resume [of FinishNode TOK_PAR "if 0 < level s then FinishEntry 0 else Eof" s read a s' n b]
  from FinishNode assms(1) have "read_token FinishNode TOK_PAR (if 0 < level s then FinishEntry 0 else Eof) s read a = Break s' n"
    by (simp add: drive_iter_def)
  from tok [OF this] FinishNode show ?thesis by (auto simp: drive_iter_def len_ok_def)
next
  case (SelectNode st)
  note sel = select_token_resume [of NODE_SELECT SelectNode "''could not select node type''" s st a s' n b]
  from SelectNode assms(1) sel show ?thesis by (auto simp: drive_iter_def len_ok_def)
next
  case (ReadEntries st)
  note sel = select_token_resume [of ENTRY_SELECT ReadEntries "''could not read entry''" s st a s' n b]
  from ReadEntries assms(1) sel show ?thesis by (auto simp: drive_iter_def len_ok_def)
next
  case (ReadContentsLen ty v read)
  note len = read_len_resume [of "ReadContentsLen ty" "\<lambda>len. ReadContents ty len (calc_aligned len)" s v read a s' n b]
  from ReadContentsLen assms len show ?thesis by (auto simp: drive_iter_def len_ok_def)
next
  case (ReadEntryNameLen v read)
  note len = read_len_resume [of ReadEntryNameLen "\<lambda>len. ReadEntryName len (calc_aligned len)" s v read a s' n b]
  from ReadEntryNameLen assms len show ?thesis by (auto simp: drive_iter_def len_ok_def)
next
  case (ReadContents ty sz rem)
  note skip = skip_bytes_resume [of "ReadContents ty sz" s rem a s' n b]
  from ReadContents assms(1) assms(2) skip show ?thesis by (auto simp: drive_iter_def len_ok_def bump_state_def stops_def)
next
  case (ReadEntryName sz rem)
  note skip = skip_bytes_resume [of "ReadEntryName sz" s rem a s' n b]
  from ReadEntryName assms(1) assms(2) skip show ?thesis by (auto simp: drive_iter_def len_ok_def bump_state_def stops_def)
qed (use assms in \<open>auto simp: drive_iter_def bump_after_def bump_state_def Let_def stops_def split: option.splits if_splits\<close>)

lemma drive_iter_keeps:
  assumes "drive_iter P s a = Break s' n" "\<not> stops P s" "len_ok s"
  shows "stops P s' = stops P s"
  using assms
  by (cases "state s")
    (auto simp: drive_iter_def Let_def stops_def read_token_def select_token_def read_len_def skip_bytes_def
      bump_after_def bump_state_def split: if_splits option.splits prod.splits RMatch.splits)

text \<open>An error ends the stream, so what \<open>Inner\<close> holds after one is not part of the outcome.\<close>

definition outcome :: "(Inner \<times> nat io_result) option \<Rightarrow> (io_error + Inner \<times> nat) option" where
  "outcome r = map_option (\<lambda>(s, res). result_map (Pair s) res) r"

lemma outcome_simps [simp]:
  "outcome None = None" "outcome (Some (s, Inl e)) = Some (Inl e)"
  "outcome (Some (s, Inr n)) = Some (Inr (s, n))"
  by (simp_all add: outcome_def)

lemma drive_Eof: "state s = Eof \<Longrightarrow> drive P s buf p = Some (s, Inr p)"
  by (simp add: drive.simps drive_iter_def)

lemma drive_stops:
  "stops P s \<Longrightarrow> drive P s buf p = Some (if state s = ReadDir then s\<lparr>level := level s + 1\<rparr> else s, Inr p)"
  by (simp add: drive.simps [of P s] drive_iter_stops)

lemma drive_append:
  "len_ok s \<Longrightarrow> outcome (drive P s (a @ b) p) =
     (case outcome (drive P s a p) of
        Some (Inr (s', n)) \<Rightarrow> if stops P s' then Some (Inr (s', n)) else outcome (drive P s' b n)
      | r \<Rightarrow> r)"
proof (induction P s a p rule: drive.induct)
  case (1 P s a p)
  show ?case
  proof (cases "drive_iter P s a")
    case (Continue s' n)
    then have "drive_iter P s (a @ b) = Continue s' n" by (intro drive_iter_grow) auto
    moreover have "n \<le> length a" using drive_iter_Continue [OF Continue] by simp
    ultimately show ?thesis
      using 1(1) [OF Continue drive_iter_len_ok [OF Continue]] Continue
      by (simp add: drive.simps [of P s])
  next
    case (Break s' n)
    show ?thesis
    proof (cases "stops P s")
      case True
      then have "stops P (if state s = ReadDir then s\<lparr>level := level s + 1\<rparr> else s)"
        by (auto simp: stops_def)
      with True show ?thesis by (simp add: drive_stops)
    next
      case False
      from drive_iter_resume [OF Break False 1(2), of b]
      have n: "n = length a" and d: "drive_iter P s (a @ b) = shift_step n (drive_iter P s' b)" by auto
      have ns: "\<not> stops P s'"
        using drive_iter_keeps [OF Break False 1(2)] False by simp
      show ?thesis using ns
        by (cases "drive_iter P s' b")
          (simp_all add: drive.simps [of P s] drive.simps [of P s'] Break d n add.assoc)
    qed
  next
    case (Fail e)
    then have "drive_iter P s (a @ b) = Fail e" by (intro drive_iter_grow) auto
    with Fail show ?thesis by (simp add: drive.simps [of P s])
  next
    case Panic
    then have "drive_iter P s (a @ b) = Panic" by (intro drive_iter_grow) auto
    with Panic show ?thesis by (simp add: drive.simps [of P s])
  qed
qed

text \<open>How much of the buffer a call uses: all of it, unless it stops for a reason of its own.\<close>

lemma drive_used:
  "len_ok s \<Longrightarrow> drive P s a p = Some (s', Inr n) \<Longrightarrow>
     p \<le> n \<and> n \<le> p + length a \<and> len_ok s' \<and> (stops P s' \<or> n = p + length a)"
proof (induction P s a p rule: drive.induct)
  case (1 P s a p)
  show ?case
  proof (cases "drive_iter P s a")
    case (Continue s1 k)
    then have "drive P s1 (drop k a) (p + k) = Some (s', Inr n)"
      using 1(3) by (simp add: drive.simps [of P s])
    from 1(1) [OF Continue drive_iter_len_ok [OF Continue] this] drive_iter_Continue [OF Continue]
    show ?thesis by auto
  next
    case (Break s1 k)
    then have s': "s' = s1" "n = p + k" using 1(3) by (auto simp: drive.simps [of P s])
    show ?thesis
    proof (cases "stops P s")
      case True
      with Break 1(2) s' show ?thesis by (auto simp: drive_iter_stops stops_def len_ok_def)
    next
      case False
      from drive_iter_resume [OF Break False 1(2), of "[]"] s' show ?thesis by simp
    qed
  qed (use 1(3) in \<open>auto simp: drive.simps [of P s]\<close>)
qed

end
