(* ===== verification/Nar_Format.thy ===== *)
theory Nar_Format
  imports Nar_Reader
begin

text \<open>
  The archive format itself, as the Nix grammar gives it: what an archive is (\<open>nar\<close>), the
  bytes it stands for (\<open>nar_bytes\<close>), and the reader's recogniser \<open>drive\<close> against it. The grammar is
  written over the string encoding \<open>str\<close> alone and knows nothing of the reader's tokens and
  trees; that those tokens are the grammar's is part of what is proved.
\<close>

section \<open>The grammar\<close>

datatype nar =
    NarFile bool bytes
  | NarSymlink bytes
  | NarDirectory "(bytes \<times> nar) list"

definition str :: "string \<Rightarrow> bytes" where
  "str s = nix_slice (as_bytes s)"

primrec nar_node :: "nar \<Rightarrow> bytes" where
  "nar_node (NarFile executable contents) =
     str ''regular'' @ (if executable then str ''executable'' @ str '''' else []) @
     str ''contents'' @ nix_slice contents @ str '')''"
| "nar_node (NarSymlink target) = str ''symlink'' @ str ''target'' @ nix_slice target @ str '')''"
| "nar_node (NarDirectory entries) =
     str ''directory'' @
     concat (map (\<lambda>(name, node). str ''entry'' @ str ''('' @ str ''name'' @ nix_slice name @
                    str ''node'' @ str ''('' @ str ''type'' @ node @ str '')'')
               (map (map_prod id nar_node) entries)) @ str '')''"

definition nar_bytes :: "nar \<Rightarrow> bytes" where
  "nar_bytes t = str ''nix-archive-1'' @ str ''('' @ str ''type'' @ nar_node t"

definition nar_entry :: "bytes \<times> nar \<Rightarrow> bytes" where
  "nar_entry e = TOK_ENTRY @ nix_slice (fst e) @ TOK_NODE @ nar_node (snd e) @ TOK_PAR"

text \<open>Every string fits a 64-bit length after alignment; no memory holds a longer one.\<close>

definition fits :: "bytes \<Rightarrow> bool" where
  "fits bs \<longleftrightarrow> length bs + 7 < 2 ^ 64"

primrec nar_fits :: "nar \<Rightarrow> bool" where
  "nar_fits (NarFile _ contents) = fits contents"
| "nar_fits (NarSymlink target) = fits target"
| "nar_fits (NarDirectory entries) =
     list_all (\<lambda>(name, ok). fits name \<and> ok) (map (map_prod id nar_fits) entries)"

lemma encoding_str: "length s + 7 < 2 ^ 64 \<Longrightarrow> encoding s = str s"
proof -
  assume lt: "length s + 7 < 2 ^ 64"
  then have u: "unat (word_of_nat (length s) :: u64) = length s"
    by (simp add: unat_of_nat)
  have "unat (calc_aligned (word_of_nat (length s))) = length s + calc_padding (word_of_nat (length s))"
    using lt unfolding calc_padding_eq unat_calc_aligned u by (simp only: if_True align_arith)
  then show ?thesis
    by (simp add: encoding_def encode_def str_def put_nix_slice_def Let_def)
qed

lemma tokens [token_simps]:
  "TOK_ROOT = str ''nix-archive-1'' @ str ''('' @ str ''type''"
  "TOK_PAR = str '')''"
  "TOK_ENTRY = str ''entry'' @ str ''('' @ str ''name''"
  "TOK_NODE = str ''node'' @ str ''('' @ str ''type''"
  "TOK_FILE_E = str ''regular'' @ str ''executable'' @ str '''' @ str ''contents''"
  "TOK_FILE = str ''regular'' @ str ''contents''"
  "TOK_SYM = str ''symlink'' @ str ''target''"
  "TOK_DIR = str ''directory''"
  by (simp_all add: TOK_ROOT_def TOK_PAR_def TOK_ENTRY_def TOK_NODE_def TOK_FILE_E_def TOK_FILE_def
      TOK_SYM_def TOK_DIR_def concat_tokens_def encoding_str)

lemma nar_node_tokens:
  "nar_node (NarFile x c) = (if x then TOK_FILE_E else TOK_FILE) @ nix_slice c @ TOK_PAR"
  "nar_node (NarSymlink c) = TOK_SYM @ nix_slice c @ TOK_PAR"
  "nar_node (NarDirectory es) = TOK_DIR @ concat (map nar_entry es) @ TOK_PAR"
  by (simp_all add: token_simps nar_entry_def [abs_def] comp_def map_prod_def split_def)

lemma nar_bytes_tokens: "nar_bytes t = TOK_ROOT @ nar_node t"
  by (simp add: nar_bytes_def token_simps)

lemma nar_fits_Directory:
  "nar_fits (NarDirectory es) \<longleftrightarrow> (\<forall>e \<in> set es. fits (fst e) \<and> nar_fits (snd e))"
  by (auto simp: list_all_iff)

section \<open>The tokens of the reader's trees\<close>

lemma NODE_SELECT_reach:
  "rtree_inv 2 NODE_SELECT \<and> 0 < nodes_len NODE_SELECT \<and>
   (\<forall>p w. reach NODE_SELECT 0 p w \<longleftrightarrow>
      (p, w) \<in> {(TOK_DIR, ReadDir), (TOK_SYM, ReadContentsLen NSymlink ZEROS 0),
        (TOK_FILE, ReadContentsLen NFile ZEROS 0), (TOK_FILE_E, ReadContentsLen NExecutableFile ZEROS 0)})"
proof -
  obtain t1 t2 t3 t4 where
    t1: "rtree_insert 2 (rtree_new 7 6) TOK_DIR ReadDir = Some t1" and
    t2: "rtree_insert 2 t1 TOK_SYM (ReadContentsLen NSymlink ZEROS 0) = Some t2" and
    t3: "rtree_insert 2 t2 TOK_FILE (ReadContentsLen NFile ZEROS 0) = Some t3" and
    t4: "rtree_insert 2 t3 TOK_FILE_E (ReadContentsLen NExecutableFile ZEROS 0) = Some t4"
    using node_select_some by (auto simp: node_select_def split: option.splits)
  then have N: "NODE_SELECT = t4" by (simp add: NODE_SELECT_def node_select_def)
  note s1 = rtree_insert_first [OF t1 _ token_not_Nil(5)]
  note s2 = rtree_insert_next [OF _ _ t2]
  note s3 = rtree_insert_next [OF _ _ t3]
  note s4 = rtree_insert_next [OF _ _ t4]
  show ?thesis using s1 s2 s3 s4 unfolding N by auto
qed

lemma ENTRY_SELECT_reach:
  "rtree_inv 2 ENTRY_SELECT \<and> 0 < nodes_len ENTRY_SELECT \<and>
   (\<forall>p w. reach ENTRY_SELECT 0 p w \<longleftrightarrow>
      (p, w) \<in> {(TOK_ENTRY, ReadEntryNameLen ZEROS 0), (TOK_PAR, FinishReadEntry)})"
proof -
  obtain t1 t2 where
    t1: "rtree_insert 2 (rtree_new 3 2) TOK_ENTRY (ReadEntryNameLen ZEROS 0) = Some t1" and
    t2: "rtree_insert 2 t1 TOK_PAR FinishReadEntry = Some t2"
    using entry_select_some by (auto simp: entry_select_def split: option.splits)
  then have N: "ENTRY_SELECT = t2" by (simp add: ENTRY_SELECT_def entry_select_def)
  show ?thesis using rtree_insert_first [OF t1 _ token_not_Nil(3)] rtree_insert_next [OF _ _ t2] unfolding N by auto
qed

section \<open>The recogniser accepts every archive\<close>

named_theorems drive_simps \<open>the steps of drive over one element of the grammar\<close>

lemma drive_step:
  "drive_iter P s (token @ rest) = Continue s' (length token) \<Longrightarrow>
     drive P s (token @ rest) p = drive P s' rest (p + length token)"
  by (simp add: drive.simps [of P s])

lemma read_token_whole:
  "read_token here token after s 0 (token @ rest) = Continue (s\<lparr>state := after\<rparr>) (length token)"
  by (simp add: read_token_def Let_def)

lemma select_token_whole:
  assumes "rtree_inv B tree" "0 < nodes_len tree" "reach tree 0 token v"
  shows "select_token tree here msg s (Node 0) (token @ rest) = Continue (s\<lparr>state := v\<rparr>) (length token)"
proof -
  have val: "valid_at tree (Node 0)" and ah: "ahead tree (Node 0) token v"
    using assms by (auto simp: valid_at_def ahead_def)
  obtain m where "lookup tree (Node 0) (token @ rest) 0 = Some (Matched (length token), Node m)"
      "get_value tree (Node m) = Some v"
    using lookup_complete [OF assms(1) val ah, of rest 0] by auto
  then show ?thesis by (simp add: select_token_def)
qed

lemma read_len_whole:
  "read_len here after s ZEROS 0 (to_le_bytes w @ rest) = Continue (s\<lparr>state := after w\<rparr>) 8"
  by (simp add: read_len_def Let_def ZEROS_def)

text \<open>The steps of \<open>drive\<close> over one element of the grammar; the first four hold in both modes.\<close>

lemma drive_Root [drive_simps]:
  "drive P \<lparr>state = Root 0, level = l\<rparr> (TOK_ROOT @ rest) p =
     drive P \<lparr>state = SelectNode (Node 0), level = l\<rparr> rest (p + 56)"
  using drive_step [of P "\<lparr>state = Root 0, level = l\<rparr>" TOK_ROOT rest]
  by (simp add: drive_iter_def read_token_whole)

lemma drive_ReadNode [drive_simps]:
  "drive P \<lparr>state = ReadNode 0, level = l\<rparr> (TOK_NODE @ rest) p =
     drive P \<lparr>state = SelectNode (Node 0), level = l\<rparr> rest (p + 48)"
  using drive_step [of P "\<lparr>state = ReadNode 0, level = l\<rparr>" TOK_NODE rest]
  by (simp add: drive_iter_def read_token_whole)

lemma drive_FinishNode [drive_simps]:
  "drive P \<lparr>state = FinishNode 0, level = l\<rparr> (TOK_PAR @ rest) p =
     drive P \<lparr>state = if 0 < l then FinishEntry 0 else Eof, level = l\<rparr> rest (p + 16)"
  using drive_step [of P "\<lparr>state = FinishNode 0, level = l\<rparr>" TOK_PAR rest]
  by (simp add: drive_iter_def read_token_whole)

lemma drive_FinishEntry [drive_simps]:
  "drive P \<lparr>state = FinishEntry 0, level = l\<rparr> (TOK_PAR @ rest) p =
     drive P \<lparr>state = ReadEntries (Node 0), level = l\<rparr> rest (p + 16)"
  using drive_step [of P "\<lparr>state = FinishEntry 0, level = l\<rparr>" TOK_PAR rest]
  by (simp add: drive_iter_def read_token_whole)

lemma drive_SelectNode:
  "reach NODE_SELECT 0 token v \<Longrightarrow>
     drive P \<lparr>state = SelectNode (Node 0), level = l\<rparr> (token @ rest) p =
     drive P \<lparr>state = v, level = l\<rparr> rest (p + length token)"
  using drive_step [of P "\<lparr>state = SelectNode (Node 0), level = l\<rparr>" token rest] NODE_SELECT_reach
  by (simp add: drive_iter_def select_token_whole [of 2 NODE_SELECT token v])

lemma drive_ReadEntries:
  "reach ENTRY_SELECT 0 token v \<Longrightarrow>
     drive P \<lparr>state = ReadEntries (Node 0), level = l\<rparr> (token @ rest) p =
     drive P \<lparr>state = v, level = l\<rparr> rest (p + length token)"
  using drive_step [of P "\<lparr>state = ReadEntries (Node 0), level = l\<rparr>" token rest] ENTRY_SELECT_reach
  by (simp add: drive_iter_def select_token_whole [of 2 ENTRY_SELECT token v])

lemma NODE_SELECT_token:
  "reach NODE_SELECT 0 TOK_DIR ReadDir"
  "reach NODE_SELECT 0 TOK_SYM (ReadContentsLen NSymlink ZEROS 0)"
  "reach NODE_SELECT 0 TOK_FILE (ReadContentsLen NFile ZEROS 0)"
  "reach NODE_SELECT 0 TOK_FILE_E (ReadContentsLen NExecutableFile ZEROS 0)"
  using NODE_SELECT_reach by auto

lemma ENTRY_SELECT_token:
  "reach ENTRY_SELECT 0 TOK_ENTRY (ReadEntryNameLen ZEROS 0)"
  "reach ENTRY_SELECT 0 TOK_PAR FinishReadEntry"
  using ENTRY_SELECT_reach by auto

lemmas drive_select [drive_simps] =
  NODE_SELECT_token [THEN drive_SelectNode] ENTRY_SELECT_token [THEN drive_ReadEntries]

lemma drive_ReadContentsLen [drive_simps]:
  "drive P \<lparr>state = ReadContentsLen ty ZEROS 0, level = l\<rparr> (to_le_bytes w @ rest) p =
     drive P \<lparr>state = ReadContents ty w (calc_aligned w), level = l\<rparr> rest (p + 8)"
  using drive_step [of P "\<lparr>state = ReadContentsLen ty ZEROS 0, level = l\<rparr>" "to_le_bytes w" rest]
  by (simp add: drive_iter_def read_len_whole)

lemma drive_ReadEntryNameLen [drive_simps]:
  "drive P \<lparr>state = ReadEntryNameLen ZEROS 0, level = l\<rparr> (to_le_bytes w @ rest) p =
     drive P \<lparr>state = ReadEntryName w (calc_aligned w), level = l\<rparr> rest (p + 8)"
  using drive_step [of P "\<lparr>state = ReadEntryNameLen ZEROS 0, level = l\<rparr>" "to_le_bytes w" rest]
  by (simp add: drive_iter_def read_len_whole)

text \<open>A string on the wire: its length, then its bytes with their padding.\<close>

definition padded :: "bytes \<Rightarrow> bytes" where
  "padded bs = bs @ replicate (calc_padding (word_of_nat (length bs))) 0"

lemma nix_slice_padded: "nix_slice bs = to_le_bytes (word_of_nat (length bs)) @ padded bs"
  by (simp add: put_nix_slice_def padded_def)

lemma unat_length_fits: "fits bs \<Longrightarrow> unat (word_of_nat (length bs) :: u64) = length bs"
  by (simp add: fits_def unat_of_nat)

lemma length_padded:
  assumes "fits bs"
  shows "length (padded bs) = unat (calc_aligned (word_of_nat (length bs)))"
proof -
  have "length bs + calc_padding (word_of_nat (length bs)) = unat (calc_aligned (word_of_nat (length bs)))"
    using assms unfolding calc_padding_eq unat_calc_aligned unat_length_fits [OF assms]
    by (simp only: fits_def if_True align_arith)
  then show ?thesis by (simp add: padded_def)
qed

lemma drive_skip_contents:
  assumes "fits c"
  shows "drive True \<lparr>state = ReadContentsLen ty ZEROS 0, level = l\<rparr> (nix_slice c @ rest) p =
     drive True \<lparr>state = FinishNode 0, level = l\<rparr> rest (p + length (nix_slice c))"
  using assms drive_step [of True "\<lparr>state = ReadContents ty (word_of_nat (length c)) (calc_aligned (word_of_nat (length c))), level = l\<rparr>" "padded c" rest]
  by (simp add: nix_slice_padded drive_simps drive_iter_def skip_bytes_def bump_after_def bump_state_def
      length_padded [symmetric] add.assoc)

lemma drive_skip_name:
  assumes "fits c"
  shows "drive True \<lparr>state = ReadEntryNameLen ZEROS 0, level = l\<rparr> (nix_slice c @ rest) p =
     drive True \<lparr>state = ReadNode 0, level = l\<rparr> rest (p + length (nix_slice c))"
  using assms drive_step [of True "\<lparr>state = ReadEntryName (word_of_nat (length c)) (calc_aligned (word_of_nat (length c))), level = l\<rparr>" "padded c" rest]
  by (simp add: nix_slice_padded drive_simps drive_iter_def skip_bytes_def bump_after_def bump_state_def
      length_padded [symmetric] add.assoc)

lemma drive_ReadDir:
  "drive True \<lparr>state = ReadDir, level = l\<rparr> rest p =
     drive True \<lparr>state = ReadEntries (Node 0), level = Suc l\<rparr> rest p"
  by (simp add: drive.simps [of True "\<lparr>state = ReadDir, level = l\<rparr>"] drive_iter_def bump_after_def bump_state_def Let_def)

lemma drive_FinishReadEntry:
  "drive True \<lparr>state = FinishReadEntry, level = Suc l\<rparr> rest p =
     drive True (if 0 < l then \<lparr>state = FinishEntry 0, level = l\<rparr> else \<lparr>state = Eof, level = Suc l\<rparr>) rest p"
  by (simp add: drive.simps [of True "\<lparr>state = FinishReadEntry, level = Suc l\<rparr>"] drive_iter_def bump_after_def bump_state_def)

text \<open>Where the machine stands after a node: at its entry's closing parenthesis, or at the end.\<close>

primrec is_directory :: "nar \<Rightarrow> bool" where
  "is_directory (NarFile _ _) = False"
| "is_directory (NarSymlink _) = False"
| "is_directory (NarDirectory _) = True"

definition after_node :: "nat \<Rightarrow> nar \<Rightarrow> Inner" where
  "after_node l t =
     (if 0 < l then \<lparr>state = FinishEntry 0, level = l\<rparr>
      else \<lparr>state = Eof, level = if is_directory t then 1 else 0\<rparr>)"

lemma drive_entries:
  assumes "\<And>t rest p. t \<in> snd ` set es \<Longrightarrow>
      drive True \<lparr>state = SelectNode (Node 0), level = l\<rparr> (nar_node t @ rest) p =
      drive True (after_node l t) rest (p + length (nar_node t))"
    and "\<forall>e \<in> set es. fits (fst e)" and "0 < l"
  shows "drive True \<lparr>state = ReadEntries (Node 0), level = l\<rparr> (concat (map nar_entry es) @ rest) p =
      drive True \<lparr>state = ReadEntries (Node 0), level = l\<rparr> rest (p + length (concat (map nar_entry es)))"
  using assms
proof (induction es arbitrary: p)
  case Nil
  then show ?case by simp
next
  case (Cons e es)
  then show ?case
    by (simp add: nar_entry_def [of e] drive_simps drive_skip_name after_node_def algebra_simps)
qed

lemma drive_node:
  "nar_fits t \<Longrightarrow>
     drive True \<lparr>state = SelectNode (Node 0), level = l\<rparr> (nar_node t @ rest) p =
     drive True (after_node l t) rest (p + length (nar_node t))"
proof (induction t arbitrary: l rest p)
  case (NarFile x c)
  then show ?case
    by (simp add: nar_node_tokens drive_skip_contents drive_simps after_node_def algebra_simps
      del: nar_node.simps)
next
  case (NarSymlink c)
  then show ?case
    by (simp add: nar_node_tokens drive_skip_contents drive_simps after_node_def algebra_simps
      del: nar_node.simps)
next
  case (NarDirectory es)
  then have "\<And>t rest p. t \<in> snd ` set es \<Longrightarrow>
      drive True \<lparr>state = SelectNode (Node 0), level = Suc l\<rparr> (nar_node t @ rest) p =
      drive True (after_node (Suc l) t) rest (p + length (nar_node t))"
    and "\<forall>e \<in> set es. fits (fst e)"
    by (auto simp: nar_fits_Directory simp del: nar_fits.simps)
  from drive_entries [OF this] show ?case
    by (simp add: nar_node_tokens drive_simps drive_ReadDir drive_FinishReadEntry
        after_node_def algebra_simps del: nar_node.simps)
qed

lemma drive_nar:
  "nar_fits t \<Longrightarrow>
     drive True inner_new (nar_bytes t @ rest) 0 =
       Some (\<lparr>state = Eof, level = if is_directory t then 1 else 0\<rparr>, Inr (length (nar_bytes t)))"
  by (simp add: nar_bytes_tokens inner_new_def drive_Root drive_node after_node_def drive_Eof)

end
