(* ===== verification/Nar_Stream.thy ===== *)
theory Nar_Stream
  imports Nar_Format Bytes_Reader
begin

text \<open>
  \<open>NarReader\<close> and \<open>NarBytesReader\<close> of \<open>harmonia-nar/src/archive/read_nar.rs\<close>: a reader that hands
  out exactly the bytes of the archive that starts its source, and ends there. Both wrap the
  recogniser \<open>drive\<close>; \<open>nparsed\<close> counts bytes recognised and not yet consumed.

  The fact: over any source with the contract of \<open>AsyncBufRead\<close> whose stream starts with an archive,
  the reader keeps that contract for the archive alone (\<open>nar_reader_contract\<close>), whatever pieces
  the source delivers and however the client consumes them.
\<close>

record 'r NarReader =
  nreader :: 'r
  nparsed :: nat
  nstate :: Inner

definition nar_reader_new :: "'r \<Rightarrow> 'r NarReader" where
  "nar_reader_new reader = \<lparr>nreader = reader, nparsed = 0, nstate = inner_new\<rparr>"

text \<open>\<open>&buf[..n]\<close> panics beyond the end; \<open>Bytes::truncate\<close> does not.\<close>

definition slice_to :: "nat \<Rightarrow> bytes \<Rightarrow> bytes option" where
  "slice_to n buf = (if n \<le> length buf then Some (take n buf) else None)"

definition truncate :: "nat \<Rightarrow> bytes \<Rightarrow> bytes option" where
  "truncate n buf = Some (take n buf)"

definition nar_poll ::
  "(nat \<Rightarrow> bytes \<Rightarrow> bytes option) \<Rightarrow> ('r \<Rightarrow> ('r, bytes) polled) \<Rightarrow> 'r NarReader \<Rightarrow> ('r NarReader, bytes) polled" where
  "nar_poll clip fill nr =
     (if nparsed nr = 0 \<and> is_eof (nstate nr) then Some (nr, Ready (Inr []))
      else case fill (nreader nr) of
        None \<Rightarrow> None
      | Some (r, Pending) \<Rightarrow> Some (nr\<lparr>nreader := r\<rparr>, Pending)
      | Some (r, Ready (Inl e)) \<Rightarrow> Some (nr\<lparr>nreader := r\<rparr>, Ready (Inl e))
      | Some (r, Ready (Inr buf)) \<Rightarrow>
          (case (if nparsed nr < length buf then drive True (nstate nr) (drop (nparsed nr) buf) 0
                 else Some (nstate nr, Inr 0)) of
             None \<Rightarrow> None
           | Some (s, Inl e) \<Rightarrow> Some (nr\<lparr>nreader := r, nstate := s\<rparr>, Ready (Inl e))
           | Some (s, Inr n) \<Rightarrow>
               (let nr' = nr\<lparr>nreader := r, nparsed := nparsed nr + n, nstate := s\<rparr> in
                if buf = [] \<and> \<not> is_eof s
                then Some (nr', Ready (Inl (IoError UnexpectedEof ''not a complete NAR'')))
                else case clip (nparsed nr') buf of
                  None \<Rightarrow> None
                | Some b \<Rightarrow> Some (nr', Ready (Inr b)))))"

definition nar_fill :: "('r \<Rightarrow> ('r, bytes) polled) \<Rightarrow> 'r NarReader \<Rightarrow> ('r NarReader, bytes) polled" where
  "nar_fill = nar_poll slice_to"

definition nar_bytes_fill :: "'r BytesRead \<Rightarrow> 'r NarReader \<Rightarrow> ('r NarReader, bytes) polled" where
  "nar_bytes_fill ops = nar_poll truncate (op_fill ops)"

definition nar_bytes_force :: "'r BytesRead \<Rightarrow> 'r NarReader \<Rightarrow> ('r NarReader, bytes) polled" where
  "nar_bytes_force ops = nar_poll truncate (op_force ops)"

definition nar_consume :: "('r \<Rightarrow> nat \<Rightarrow> 'r option) \<Rightarrow> 'r NarReader \<Rightarrow> nat \<Rightarrow> 'r NarReader option" where
  "nar_consume consume nr amt =
     (if \<not> amt \<le> nparsed nr then None
      else case consume (nreader nr) amt of
        None \<Rightarrow> None
      | Some r \<Rightarrow> Some (nr\<lparr>nreader := r, nparsed := nparsed nr - amt\<rparr>))"

definition nar_read ::
  "('r \<Rightarrow> ('r, bytes) polled) \<Rightarrow> ('r \<Rightarrow> nat \<Rightarrow> 'r option) \<Rightarrow> 'r NarReader \<Rightarrow> nat \<Rightarrow> ('r NarReader, bytes) polled" where
  "nar_read fill consume = poll_read_by_fill (nar_fill fill) (nar_consume consume)"

text \<open>\<open>poll_drain\<close>: read and drop to the end of the archive.\<close>

partial_function (option) nar_drain :: "'r BytesRead \<Rightarrow> 'r NarReader \<Rightarrow> ('r NarReader, unit) polled" where
  "nar_drain ops nr =
     Option.bind (nar_bytes_fill ops nr) (\<lambda>(nr1, res). case res of
         Pending \<Rightarrow> Some (nr1, Pending)
       | Ready x \<Rightarrow> (case x of Inl e \<Rightarrow> Some (nr1, Ready (Inl e))
           | Inr b \<Rightarrow> if b = [] then Some (nr1, Ready (Inr ()))
               else Option.bind (nar_consume (op_consume ops) nr1 (length b)) (nar_drain ops)))"

section \<open>The archive in front\<close>

text \<open>\<open>ahead_nar s bs n\<close>: from state \<open>s\<close> the first \<open>n\<close> bytes of \<open>bs\<close> complete the archive.\<close>

definition ahead_nar :: "Inner \<Rightarrow> bytes \<Rightarrow> nat \<Rightarrow> bool" where
  "ahead_nar s bs n \<longleftrightarrow> (\<exists>s'. drive True s bs 0 = Some (s', Inr n) \<and> is_eof s')"

lemma drive_shift: "drive P s bs (k + p) = map_option (map_prod id (result_map ((+) k))) (drive P s bs p)"
proof (induction P s bs p rule: drive.induct)
  case (1 P s bs p)
  then show ?case
    by (cases "drive_iter P s bs") (simp_all add: drive.simps [of P s] add.assoc)
qed

lemma drive_prefix_ahead:
  assumes ok: "len_ok s" and ah: "ahead_nar s (a @ b) n"
  shows "\<exists>s' k. drive True s a 0 = Some (s', Inr k) \<and> k \<le> length a \<and> k \<le> n \<and> len_ok s' \<and>
    (is_eof s' \<and> k = n \<or> \<not> is_eof s' \<and> k = length a) \<and> ahead_nar s' (drop k a @ b) (n - k)"
proof -
  from ah obtain s2 where d: "drive True s (a @ b) 0 = Some (s2, Inr n)" and e: "is_eof s2"
    by (auto simp: ahead_nar_def)
  have o: "outcome (drive True s (a @ b) 0) = Some (Inr (s2, n))" by (simp add: d)
  obtain s' k where a: "drive True s a 0 = Some (s', Inr k)"
    and r: "(if stops True s' then Some (Inr (s', k)) else outcome (drive True s' b k)) = Some (Inr (s2, n))"
  proof (cases "drive True s a 0")
    case None
    with o drive_append [OF ok, of True a b 0] show thesis by simp
  next
    case (Some x)
    with o drive_append [OF ok, of True a b 0] that show thesis
      by (cases x; cases "snd x") auto
  qed
  note u = drive_used [OF ok a]
  show ?thesis
  proof (cases "stops True s'")
    case True
    with r have "s' = s2" "k = n" by auto
    with e u a show ?thesis
      by (auto simp: ahead_nar_def drive_stops is_eof_def stops_def)
  next
    case False
    with u have k: "k = length a" by simp
    from False r have "outcome (drive True s' b (length a + 0)) = Some (Inr (s2, n))" using k by simp
    then obtain m where m: "drive True s' b 0 = Some (s2, Inr m)" "n = length a + m"
      unfolding drive_shift
      by (cases "drive True s' b 0") (auto simp: outcome_def)
    with False k u a e show ?thesis
      by (auto simp: ahead_nar_def is_eof_def stops_def)
  qed
qed


text \<open>The reader's own stream is the archive, from what has been consumed of it.\<close>

definition nar_rest :: "('r \<Rightarrow> bytes) \<Rightarrow> 'r NarReader \<Rightarrow> bytes" where
  "nar_rest rest nr =
     (case drive True (nstate nr) (drop (nparsed nr) (rest (nreader nr))) 0 of
        Some (_, Inr n) \<Rightarrow> take (nparsed nr + n) (rest (nreader nr)) | _ \<Rightarrow> [])"

definition nar_avail :: "('r \<Rightarrow> bytes) \<Rightarrow> 'r NarReader \<Rightarrow> bytes" where
  "nar_avail avail nr = take (nparsed nr) (avail (nreader nr))"

text \<open>Between two calls the recogniser has nothing to do without more input.\<close>

definition settled :: "Inner \<Rightarrow> bool" where
  "settled s \<longleftrightarrow> drive True s [] 0 = Some (s, Inr 0)"

lemma drive_settled:
  assumes ok: "len_ok s" and d: "drive True s a 0 = Some (s', Inr k)"
  shows "settled s'"
proof (cases "stops True s'")
  case True
  then show ?thesis by (auto simp: settled_def stops_def drive_Eof split: InnerState.splits)
next
  case False
  with drive_append [OF ok, of True a "[]" 0] d
  have "outcome (drive True s' [] (k + 0)) = Some (Inr (s', k))" by simp
  then show ?thesis unfolding drive_shift settled_def
    by (cases "drive True s' [] 0") (auto simp: outcome_def)
qed

lemma settled_new: "settled inner_new"
  unfolding settled_def inner_new_def
  by (subst drive.simps) (simp add: drive_iter_def read_token_def Let_def)

definition nar_good :: "('r \<Rightarrow> bytes) \<Rightarrow> ('r \<Rightarrow> bool) \<Rightarrow> ('r \<Rightarrow> bytes) \<Rightarrow> 'r NarReader \<Rightarrow> bool" where
  "nar_good rest good avail nr \<longleftrightarrow> good (nreader nr) \<and> nparsed nr \<le> length (avail (nreader nr)) \<and>
     len_ok (nstate nr) \<and> settled (nstate nr) \<and>
     (\<exists>n. ahead_nar (nstate nr) (drop (nparsed nr) (rest (nreader nr))) n)"

text \<open>The same, with what follows the archive: it stays in the source.\<close>

definition nar_good_at ::
  "('r \<Rightarrow> bytes) \<Rightarrow> ('r \<Rightarrow> bool) \<Rightarrow> ('r \<Rightarrow> bytes) \<Rightarrow> bytes \<Rightarrow> 'r NarReader \<Rightarrow> bool" where
  "nar_good_at rest good avail tail nr \<longleftrightarrow>
     nar_good rest good avail nr \<and> rest (nreader nr) = nar_rest rest nr @ tail"

lemma nar_rest_ahead:
  "ahead_nar (nstate nr) (drop (nparsed nr) (rest (nreader nr))) n \<Longrightarrow>
     nar_rest rest nr = take (nparsed nr + n) (rest (nreader nr))"
  by (auto simp: nar_rest_def ahead_nar_def)

lemma nar_rest_reader:
  "rest r = rest (nreader nr) \<Longrightarrow> nar_rest rest (nr\<lparr>nreader := r\<rparr>) = nar_rest rest nr"
  by (auto simp: nar_rest_def split: option.splits sum.splits)

lemma ahead_nar_le: "len_ok s \<Longrightarrow> ahead_nar s bs n \<Longrightarrow> n \<le> length bs"
  by (auto simp: ahead_nar_def dest: drive_used)

lemma ahead_nar_eof: "is_eof s \<Longrightarrow> ahead_nar s bs n \<longleftrightarrow> n = 0"
  by (auto simp: ahead_nar_def is_eof_def drive_Eof)

context buf_source
begin

lemma nar_poll_spec:
  assumes g: "nar_good rest good avail nr"
    and clip: "\<And>n buf. n \<le> length buf \<Longrightarrow> clip n buf = Some (take n buf)"
  shows "\<exists>nr' res. nar_poll clip fill nr = Some (nr', res) \<and>
    (is_err res \<or> nar_good rest good avail nr' \<and>
       length (nar_avail avail nr) \<le> length (nar_avail avail nr')) \<and>
    nar_rest rest nr' = nar_rest rest nr \<and> fill_post src_err (nar_rest rest nr) (nar_avail avail nr') res \<and>
    rest (nreader nr') = rest (nreader nr)"
proof -
  let ?R = "rest (nreader nr)" and ?p = "nparsed nr"
  from g obtain n where gr: "good (nreader nr)" and p: "?p \<le> length (avail (nreader nr))"
    and ok: "len_ok (nstate nr)" and st: "settled (nstate nr)" and ah: "ahead_nar (nstate nr) (drop ?p ?R) n"
    by (auto simp: nar_good_def)
  note R = nar_rest_ahead [where rest = rest, OF ah]
  show ?thesis
  proof (cases "?p = 0 \<and> is_eof (nstate nr)")
    case True
    with ah have "n = 0" by (simp add: ahead_nar_eof)
    with True g R show ?thesis by (simp add: nar_poll_def nar_avail_def)
  next
    case False
    from gr show ?thesis
    proof (cases rule: fill_cases)
      case (pending r)
      with False g R ah p ok show ?thesis
        by (auto simp: nar_poll_def nar_good_def nar_avail_def nar_rest_reader)
    next
      case (failed r e)
      with False show ?thesis by (auto simp: nar_poll_def nar_rest_reader)
    next
      case (filled r)
      define buf where "buf = avail r"
      obtain b where b: "?R = buf @ b" using filled(5) by (auto simp: buf_def prefix_def)
      have pl: "?p \<le> length buf" using filled(6) p by (simp add: buf_def)
      then have "drop ?p ?R = drop ?p buf @ b" by (simp add: b)
      with ah obtain s' k where d: "drive True (nstate nr) (drop ?p buf) 0 = Some (s', Inr k)"
        and k: "k \<le> length (drop ?p buf)" "k \<le> n" and ok': "len_ok s'"
        and stop: "is_eof s' \<and> k = n \<or> \<not> is_eof s' \<and> k = length (drop ?p buf)"
        and ah': "ahead_nar s' (drop k (drop ?p buf) @ b) (n - k)"
        using drive_prefix_ahead [OF ok, of "drop ?p buf" b n] by auto
      let ?nr = "nr\<lparr>nreader := r, nparsed := ?p + k, nstate := s'\<rparr>"
      have pk: "?p + k \<le> length buf" using pl k by simp
      have drv: "(if ?p < length buf then drive True (nstate nr) (drop ?p buf) 0 else Some (nstate nr, Inr 0)) =
          Some (s', Inr k)"
        using d st by (auto simp: settled_def)
      have eof: "is_eof s'" if "buf = []"
      proof -
        from that have "?R = []" using filled(4) by (simp add: buf_def)
        with ah st have "is_eof (nstate nr)" by (auto simp: ahead_nar_def settled_def)
        with False that pl show ?thesis by simp
      qed
      have poll: "nar_poll clip fill nr = Some (?nr, Ready (Inr (take (?p + k) buf)))"
        using False filled(1) drv clip [OF pk] eof by (auto simp: nar_poll_def buf_def [symmetric] Let_def)
      have good: "nar_good rest good avail ?nr"
        using filled(2,3) pk ok' drive_settled [OF ok d] ah'
        by (auto simp: nar_good_def buf_def [symmetric] b add.commute)
      have "ahead_nar s' (drop (?p + k) ?R) (n - k)" using ah' pk by (simp add: b add.commute)
      then have rest': "nar_rest rest ?nr = nar_rest rest nr"
        using filled(3) k(2) R nar_rest_ahead [of ?nr rest "n - k"] by simp
      have empty: "nar_rest rest nr = []" if "take (?p + k) buf = []"
      proof (cases "buf = []")
        case True
        then show ?thesis using filled(4) R by (simp add: buf_def)
      next
        case False
        with that have "?p = 0" "k = 0" by auto
        with stop False R show ?thesis by auto
      qed
      show ?thesis
        using poll good rest' empty p pk filled(3,6) by (auto simp: nar_avail_def buf_def [symmetric])
    qed
  qed
qed

lemma nar_consume_spec:
  assumes g: "nar_good rest good avail nr" and n: "n \<le> length (nar_avail avail nr)"
  shows "\<exists>nr'. nar_consume consume nr n = Some nr' \<and> nar_good rest good avail nr' \<and>
    nar_rest rest nr' = drop n (nar_rest rest nr) \<and>
    length (nar_avail avail nr') = length (nar_avail avail nr) - n \<and>
    rest (nreader nr') = drop n (rest (nreader nr))"
proof -
  let ?R = "rest (nreader nr)" and ?p = "nparsed nr"
  from g obtain k where gr: "good (nreader nr)" and p: "?p \<le> length (avail (nreader nr))"
    and ah: "ahead_nar (nstate nr) (drop ?p ?R) k"
    by (auto simp: nar_good_def)
  from n p have np: "n \<le> ?p" by (simp add: nar_avail_def)
  obtain r where r: "consume (nreader nr) n = Some r" "good r" "rest r = drop n ?R"
      "length (avail r) = length (avail (nreader nr)) - n"
    using consume_law [OF gr, of n] np p by auto
  let ?nr = "nr\<lparr>nreader := r, nparsed := ?p - n\<rparr>"
  have ah': "ahead_nar (nstate ?nr) (drop (nparsed ?nr) (rest (nreader ?nr))) k"
    using ah r(3) np by simp
  have "nar_rest rest ?nr = drop n (nar_rest rest nr)"
    using nar_rest_ahead [of ?nr rest, OF ah'] nar_rest_ahead [of nr rest, OF ah] r(3) np
    by (simp add: drop_take)
  moreover have "nar_good rest good avail ?nr" using g r np p ah' by (auto simp: nar_good_def)
  ultimately show ?thesis using r np p by (auto simp: nar_consume_def nar_avail_def)
qed

lemma nar_avail_prefix:
  assumes "nar_good rest good avail nr"
  shows "prefix (nar_avail avail nr) (nar_rest rest nr)"
proof -
  from assms obtain n where p: "good (nreader nr)" "nparsed nr \<le> length (avail (nreader nr))"
    and ah: "ahead_nar (nstate nr) (drop (nparsed nr) (rest (nreader nr))) n" by (auto simp: nar_good_def)
  have "take (nparsed nr) (rest (nreader nr)) = nar_avail avail nr"
    using avail_prefix [OF p(1)] p(2) by (auto simp: nar_avail_def prefix_def)
  moreover have "nar_rest rest nr = take (nparsed nr) (rest (nreader nr)) @ take n (drop (nparsed nr) (rest (nreader nr)))"
    unfolding nar_rest_ahead [of nr rest, OF ah] by (rule take_add)
  ultimately show ?thesis by simp
qed

lemma nar_reader_contract:
  "buf_source (nar_rest rest) (nar_good rest good avail) src_err
     (nar_fill fill) (nar_consume consume) (nar_avail avail)"
proof (rule buf_sourceI)
  show "nar_good rest good avail r \<Longrightarrow> \<exists>r' res. nar_fill fill r = Some (r', res) \<and>
      (is_err res \<or> nar_good rest good avail r' \<and> length (nar_avail avail r) \<le> length (nar_avail avail r')) \<and>
      nar_rest rest r' = nar_rest rest r \<and> fill_post src_err (nar_rest rest r) (nar_avail avail r') res" for r
    unfolding nar_fill_def using nar_poll_spec [of r slice_to] by (fastforce simp: slice_to_def)
qed (use nar_consume_spec nar_avail_prefix in blast)+

lemma nar_bytes_reader_contract:
  "buf_source (nar_rest rest) (nar_good rest good avail) src_err
     (nar_poll truncate fill) (nar_consume consume) (nar_avail avail)"
proof (rule buf_sourceI)
  show "nar_good rest good avail r \<Longrightarrow> \<exists>r' res. nar_poll truncate fill r = Some (r', res) \<and>
      (is_err res \<or> nar_good rest good avail r' \<and> length (nar_avail avail r) \<le> length (nar_avail avail r')) \<and>
      nar_rest rest r' = nar_rest rest r \<and> fill_post src_err (nar_rest rest r) (nar_avail avail r') res" for r
    using nar_poll_spec [of r truncate] by (fastforce simp: truncate_def)
qed (use nar_consume_spec nar_avail_prefix in blast)+

lemma nar_reader_contract_at:
  "buf_source (nar_rest rest) (nar_good_at rest good avail tail) src_err
     (nar_fill fill) (nar_consume consume) (nar_avail avail)"
proof (rule buf_sourceI)
  show "nar_good_at rest good avail tail r \<Longrightarrow> \<exists>r' res. nar_fill fill r = Some (r', res) \<and>
      (is_err res \<or> nar_good_at rest good avail tail r' \<and> length (nar_avail avail r) \<le> length (nar_avail avail r')) \<and>
      nar_rest rest r' = nar_rest rest r \<and> fill_post src_err (nar_rest rest r) (nar_avail avail r') res" for r
    unfolding nar_fill_def nar_good_at_def using nar_poll_spec [of r slice_to] by (fastforce simp: slice_to_def)
  show "\<exists>r'. nar_consume consume r n = Some r' \<and> nar_good_at rest good avail tail r' \<and>
      nar_rest rest r' = drop n (nar_rest rest r) \<and> length (nar_avail avail r') = length (nar_avail avail r) - n"
    if g: "nar_good_at rest good avail tail r" and n: "n \<le> length (nar_avail avail r)" for r n
  proof -
    from g have "n \<le> length (nar_rest rest r)"
      using n nar_avail_prefix [of r] by (auto simp: nar_good_at_def dest!: prefix_length_le)
    with g n nar_consume_spec [of r n] show ?thesis by (auto simp: nar_good_at_def)
  qed
qed (use nar_avail_prefix in \<open>auto simp: nar_good_at_def\<close>)

lemma nar_reader_new_good:
  assumes "good r" "rest r = nar_bytes t @ tail" "nar_fits t"
  shows "nar_good rest good avail (nar_reader_new r) \<and> nar_rest rest (nar_reader_new r) = nar_bytes t"
proof -
  have "ahead_nar (nstate (nar_reader_new r)) (drop (nparsed (nar_reader_new r)) (rest (nreader (nar_reader_new r))))
      (length (nar_bytes t))"
    using drive_nar [OF assms(3), of tail] assms(2) by (simp add: ahead_nar_def nar_reader_new_def is_eof_def)
  moreover from this have "nar_rest rest (nar_reader_new r) = nar_bytes t"
    using nar_rest_ahead [of "nar_reader_new r" rest] assms(2) by (simp add: nar_reader_new_def)
  moreover have "len_ok inner_new" by (simp add: len_ok_def inner_new_def)
  ultimately show ?thesis
    using assms(1) settled_new by (auto simp: nar_good_def nar_reader_new_def)
qed

end

context bytes_read
begin

lemma nar_drain_spec:
  assumes "nar_good rest good avail nr"
  shows "\<exists>nr' res. nar_drain ops nr = Some (nr', res) \<and>
    (case res of Pending \<Rightarrow> True | Ready (Inl e) \<Rightarrow> src_err e
     | Ready (Inr _) \<Rightarrow> good (nreader nr') \<and>
         rest (nreader nr) = nar_rest rest nr @ rest (nreader nr'))"
  using assms
proof (induction "length (nar_rest rest nr)" arbitrary: nr rule: less_induct)
  case less
  obtain nr1 res where f: "nar_bytes_fill ops nr = Some (nr1, res)"
    and g: "is_err res \<or> nar_good rest good avail nr1"
    and r: "nar_rest rest nr1 = nar_rest rest nr" "rest (nreader nr1) = rest (nreader nr)"
    and post: "fill_post src_err (nar_rest rest nr) (nar_avail avail nr1) res"
    using nar_poll_spec [OF less.prems, of truncate] by (auto simp: nar_bytes_fill_def truncate_def)
  consider "res = Pending" | e where "res = Ready (Inl e)" | "res = Ready (Inr [])" "nar_avail avail nr1 = []"
    | "res = Ready (Inr (nar_avail avail nr1))" "nar_avail avail nr1 \<noteq> []"
    using post by (metis fill_post.simps(3) poll.exhaust sum.exhaust)
  then show ?case
  proof cases
    case 3
    with g post r f show ?thesis
      by (auto simp: nar_drain.simps [of ops nr] nar_good_def)
  next
    case 4
    then have g1: "nar_good rest good avail nr1" using g by simp
    let ?b = "nar_avail avail nr1"
    have pre: "prefix ?b (nar_rest rest nr)" using nar_avail_prefix [OF g1] r by simp
    obtain nr2 where c: "nar_consume (op_consume ops) nr1 (length ?b) = Some nr2" and g2: "nar_good rest good avail nr2"
      and r2: "nar_rest rest nr2 = drop (length ?b) (nar_rest rest nr)"
        "rest (nreader nr2) = drop (length ?b) (rest (nreader nr))"
      using nar_consume_spec [OF g1, of "length ?b"] r by auto
    have "0 < length ?b" using 4 by simp
    moreover have "length ?b \<le> length (nar_rest rest nr)" using pre by (rule prefix_length_le)
    ultimately have "length (nar_rest rest nr2) < length (nar_rest rest nr)"
      by (simp only: r2 length_drop)
    from less.hyps [OF this g2] obtain nr' res' where
      d: "nar_drain ops nr2 = Some (nr', res')" and p: "case res' of Pending \<Rightarrow> True | Ready (Inl e) \<Rightarrow> src_err e
        | Ready (Inr _) \<Rightarrow> good (nreader nr') \<and> rest (nreader nr2) = nar_rest rest nr2 @ rest (nreader nr')"
      by blast
    have split: "rest (nreader nr) = nar_rest rest nr @ rest (nreader nr')"
      if "rest (nreader nr2) = nar_rest rest nr2 @ rest (nreader nr')"
    proof -
      have "prefix ?b (rest (nreader nr))"
        using pre less.prems by (auto simp: nar_good_def nar_rest_ahead intro: prefix_order.trans take_is_prefix)
      with pre have "rest (nreader nr) = ?b @ rest (nreader nr2)" "nar_rest rest nr = ?b @ nar_rest rest nr2"
        using r2 by (auto simp: prefix_def)
      with that show ?thesis by simp
    qed
    have "nar_drain ops nr = Some (nr', res')"
      using 4 f c d by (simp add: nar_drain.simps [of ops nr])
    with p split show ?thesis by (auto split: poll.splits sum.splits)
  qed (use f post in \<open>auto simp: nar_drain.simps [of ops nr]\<close>)
qed

end

text \<open>The client of a buffered source: it polls until there is data or the end, takes all of it,
  and goes on. \<open>reads_out\<close> collects what it got; it stops at the end of the stream.\<close>

inductive reads_out ::
  "('r \<Rightarrow> ('r, bytes) polled) \<Rightarrow> ('r \<Rightarrow> nat \<Rightarrow> 'r option) \<Rightarrow> 'r \<Rightarrow> bytes \<Rightarrow> 'r \<Rightarrow> bool" for fill consume where
  eof: "fill r = Some (r', Ready (Inr [])) \<Longrightarrow> reads_out fill consume r [] r'"
| wait: "fill r = Some (r1, Pending) \<Longrightarrow> reads_out fill consume r1 d r' \<Longrightarrow> reads_out fill consume r d r'"
| data: "fill r = Some (r1, Ready (Inr b)) \<Longrightarrow> b \<noteq> [] \<Longrightarrow> 0 < n \<Longrightarrow> n \<le> length b \<Longrightarrow>
     consume r1 n = Some r2 \<Longrightarrow> reads_out fill consume r2 d r' \<Longrightarrow> reads_out fill consume r (take n b @ d) r'"

context fill_source
begin

lemma reads_out_rest:
  "reads_out fill consume r d r' \<Longrightarrow> good r \<Longrightarrow> d = rest r \<and> good r' \<and> rest r' = []"
proof (induction rule: reads_out.induct)
  case (eof r r')
  then show ?case using fill_law [of r] by auto
next
  case (wait r r1 d r')
  then show ?case using fill_law [of r] by auto
next
  case (data r r1 b n r2 d r')
  have b: "good r1" "rest r1 = rest r" "b = avail r1"
    using fill_law [OF data.prems] data.hyps(1) by auto
  obtain r3 where "consume r1 n = Some r3" "good r3" "rest r3 = drop n (rest r)"
    using consume_avail [OF b(1), of n] data.hyps(2,4) b by auto
  moreover have "take n b = take n (rest r)"
    using avail_prefix [OF b(1)] b data.hyps(4) by (auto simp: prefix_def)
  ultimately show ?case using data by auto
qed

end

context buf_source
begin

lemma nar_reads_out:
  assumes "good r" "rest r = nar_bytes t @ tail" "nar_fits t"
    and "reads_out (nar_fill fill) (nar_consume consume) (nar_reader_new r) d nr"
  shows "d = nar_bytes t \<and> rest (nreader nr) = tail"
proof -
  note new = nar_reader_new_good [OF assms(1-3)]
  have "nar_good_at rest good avail tail (nar_reader_new r)"
    using new assms(2) by (simp add: nar_good_at_def nar_reader_new_def)
  from fill_source.reads_out_rest [OF buf_source.axioms(1) [OF nar_reader_contract_at] assms(4) this] new show ?thesis
    by (auto simp: nar_good_at_def)
qed

end

interpretation snar: buf_source
    "nar_rest (br_rest script_rest)"
    "nar_good (br_rest script_rest) (br_good (script_good E)) br_avail"
    "br_err (\<lambda>e. e \<in> E)"
    "nar_fill (br_fill script_read)" "nar_consume br_consume" "nar_avail br_avail" for E
  using sbr.nar_reader_contract [of E] by (simp add: bytes_reader_ops_def)

text \<open>A run over a cursor: one fill hands out the whole archive, the next one ends.\<close>

lemma nar_cursor_run:
  assumes "nar_fits t"
  shows "\<exists>nr. reads_out (nar_fill cursor_fill) (nar_consume cursor_consume)
      (nar_reader_new \<lparr>cdata = nar_bytes t @ tail, cpos = 0\<rparr>) (nar_bytes t) nr"
proof -
  let ?c = "\<lparr>cdata = nar_bytes t @ tail, cpos = 0\<rparr>"
  let ?s = "\<lparr>state = Eof, level = if is_directory t then 1 else 0\<rparr>"
  let ?nr = "\<lparr>nreader = ?c, nparsed = length (nar_bytes t), nstate = ?s\<rparr>"
  let ?nr' = "\<lparr>nreader = ?c\<lparr>cpos := length (nar_bytes t)\<rparr>, nparsed = 0, nstate = ?s\<rparr>"
  have ne: "nar_bytes t \<noteq> []" by (simp add: nar_bytes_tokens)
  have "nar_fill cursor_fill (nar_reader_new ?c) = Some (?nr, Ready (Inr (nar_bytes t)))"
    using drive_nar [OF assms, of tail] ne
    by (simp add: nar_fill_def nar_poll_def nar_reader_new_def cursor_fill_def slice_to_def is_eof_def inner_new_def)
  moreover have "nar_consume cursor_consume ?nr (length (nar_bytes t)) = Some ?nr'"
    by (simp add: nar_consume_def cursor_consume_def)
  moreover have "nar_fill cursor_fill ?nr' = Some (?nr', Ready (Inr []))"
    by (simp add: nar_fill_def nar_poll_def is_eof_def)
  ultimately have "reads_out (nar_fill cursor_fill) (nar_consume cursor_consume) (nar_reader_new ?c)
      (take (length (nar_bytes t)) (nar_bytes t) @ []) ?nr'"
    using ne by (intro reads_out.data reads_out.eof) auto
  then show ?thesis by auto
qed

end
