(* ===== verification/Padded_Reader.thy ===== *)
theory Padded_Reader
  imports Nar_Format Bytes_Reader
begin

text \<open>
  \<open>PaddedReader\<close> of \<open>harmonia-nar/src/padded_reader.rs\<close>: the contents of one file of an archive, read
  from the stream of the archive, the padding swallowed with the last byte.

  The fact: over every source with the contract of \<open>AsyncBytesRead\<close> whose stream starts with \<open>len\<close>
  bytes of contents and their padding, the reader keeps the contract of a buffered source for the contents alone and
  leaves the source right behind the padding (\<open>padded_contract\<close>, \<open>padded_drain_spec\<close>).
\<close>

section \<open>State and operations\<close>

datatype PState = Content u64 | ReadPadding nat nat | Padding nat | PEof

record 'r PaddedReader =
  preader :: 'r
  trailer_size :: nat
  padding :: bytes
  pstate :: PState

definition padded_new :: "'r \<Rightarrow> u64 \<Rightarrow> 'r PaddedReader" where
  "padded_new reader len =
     (let content = len AND NOT 7 in
      \<lparr>preader = reader, trailer_size = unat (len - content), padding = ZEROS, pstate = Content content\<rparr>)"

text \<open>What is left: of the aligned contents, of all contents, of contents and padding. \<open>None\<close> is
  the panic of an addition that overflows.\<close>

definition remaining_usize :: "'r PaddedReader \<Rightarrow> (nat \<times> nat \<times> nat) option" where
  "remaining_usize pr =
     (let aligned = (trailer_size pr + 7) div 8 * 8 in
      case pstate pr of
        Content rem \<Rightarrow>
          if unat rem + aligned < 2 ^ 64
          then Some (unat rem, unat rem + trailer_size pr, unat rem + aligned) else None
      | ReadPadding start _ \<Rightarrow> Some (0, trailer_size pr - start, aligned - start)
      | Padding start \<Rightarrow> Some (0, trailer_size pr - start, aligned - start)
      | PEof \<Rightarrow> Some (0, 0, 0))"

function read_padding ::
  "('r \<Rightarrow> nat \<Rightarrow> ('r, bytes) polled) \<Rightarrow> 'r \<Rightarrow> bytes \<Rightarrow> nat \<Rightarrow> ('r \<times> bytes \<times> nat \<times> unit io_result poll) option" where
  "read_padding read r pad end =
     (if end < 8 then
        (case read r (8 - end) of
           None \<Rightarrow> None
         | Some (r', Pending) \<Rightarrow> Some (r', pad, end, Pending)
         | Some (r', Ready (Inl e)) \<Rightarrow> Some (r', pad, end, Ready (Inl e))
         | Some (r', Ready (Inr b)) \<Rightarrow>
             if b = [] then Some (r', pad, end, Ready (Inl (IoError UnexpectedEof ''EOF before end of padding'')))
             else read_padding read r' (take end pad @ b @ drop (end + length b) pad) (end + length b))
      else Some (r, pad, end, Ready (Inr ())))"
  by pat_completeness auto
termination
  by (relation "measure (\<lambda>(read, r, pad, end). 8 - end)") (auto intro!: diff_less_mono2)

declare read_padding.simps [simp del]

definition trailer_bytes :: "'r PaddedReader \<Rightarrow> nat \<Rightarrow> bytes" where
  "trailer_bytes pr start = drop start (take (trailer_size pr) (padding pr))"

definition poll_content ::
  "'r BytesRead \<Rightarrow> ('r \<Rightarrow> ('r, bytes) polled) \<Rightarrow> nat \<times> nat \<times> nat \<Rightarrow> 'r PaddedReader \<Rightarrow> ('r PaddedReader, bytes) polled" where
  "poll_content ops fill lim pr =
     (case lim of (content, rem, trailing) \<Rightarrow>
      case fill (preader pr) of
        None \<Rightarrow> None
      | Some (r, Pending) \<Rightarrow> Some (pr\<lparr>preader := r\<rparr>, Pending)
      | Some (r, Ready (Inl e)) \<Rightarrow> Some (pr\<lparr>preader := r\<rparr>, Ready (Inl e))
      | Some (r, Ready (Inr buf)) \<Rightarrow>
          if content \<le> length buf then
            (case force_until (op_force ops) trailing r buf of
               None \<Rightarrow> None
             | Some (r', Pending) \<Rightarrow> Some (pr\<lparr>preader := r'\<rparr>, Pending)
             | Some (r', Ready (Inl e)) \<Rightarrow> Some (pr\<lparr>preader := r'\<rparr>, Ready (Inl e))
             | Some (r', Ready (Inr buf')) \<Rightarrow>
                 if rem \<le> length buf' then Some (pr\<lparr>preader := r'\<rparr>, Ready (Inr (take rem buf'))) else None)
          else Some (pr\<lparr>preader := r\<rparr>, Ready (Inr buf)))"

definition poll_read_padding :: "'r BytesRead \<Rightarrow> nat \<Rightarrow> nat \<Rightarrow> 'r PaddedReader \<Rightarrow> ('r PaddedReader, bytes) polled" where
  "poll_read_padding ops start end pr =
     (case read_padding (op_read ops) (preader pr) (padding pr) end of
        None \<Rightarrow> None
      | Some (r, pad, end', Pending) \<Rightarrow>
          Some (pr\<lparr>preader := r, padding := pad, pstate := ReadPadding start end'\<rparr>, Pending)
      | Some (r, pad, end', Ready (Inl e)) \<Rightarrow>
          Some (pr\<lparr>preader := r, padding := pad, pstate := ReadPadding start end'\<rparr>, Ready (Inl e))
      | Some (r, pad, end', Ready (Inr _)) \<Rightarrow>
          let pr' = pr\<lparr>preader := r, padding := pad, pstate := Padding start\<rparr>
          in Some (pr', Ready (Inr (trailer_bytes pr' start))))"

definition padded_force :: "'r BytesRead \<Rightarrow> 'r PaddedReader \<Rightarrow> ('r PaddedReader, bytes) polled" where
  "padded_force ops pr =
     (case remaining_usize pr of None \<Rightarrow> None | Some lim \<Rightarrow>
      case pstate pr of
        Content _ \<Rightarrow> poll_content ops (op_force ops) lim pr
      | ReadPadding start end \<Rightarrow> poll_read_padding ops start end pr
      | _ \<Rightarrow> Some (pr, Ready (Inl (IoError UnexpectedEof ''EOF while force reading''))))"

definition padded_fill :: "'r BytesRead \<Rightarrow> 'r PaddedReader \<Rightarrow> ('r PaddedReader, bytes) polled" where
  "padded_fill ops pr =
     (case remaining_usize pr of None \<Rightarrow> None | Some lim \<Rightarrow>
      case pstate pr of
        Content _ \<Rightarrow> poll_content ops (op_fill ops) lim pr
      | ReadPadding start end \<Rightarrow> poll_read_padding ops start end pr
      | Padding start \<Rightarrow> Some (pr, Ready (Inr (trailer_bytes pr start)))
      | PEof \<Rightarrow> Some (pr, Ready (Inr [])))"

definition padded_consume :: "'r BytesRead \<Rightarrow> 'r PaddedReader \<Rightarrow> nat \<Rightarrow> 'r PaddedReader option" where
  "padded_consume ops pr amt =
     (case remaining_usize pr of None \<Rightarrow> None | Some (_, rem, aligned) \<Rightarrow>
      if \<not> amt \<le> rem then None
      else if amt = rem then
        (case pstate pr of
           Content _ \<Rightarrow> map_option (\<lambda>r. pr\<lparr>preader := r, pstate := PEof\<rparr>) (op_consume ops (preader pr) aligned)
         | ReadPadding _ _ \<Rightarrow> map_option (\<lambda>r. pr\<lparr>preader := r, pstate := PEof\<rparr>) (op_consume ops (preader pr) aligned)
         | _ \<Rightarrow> Some (pr\<lparr>pstate := PEof\<rparr>))
      else
        (case pstate pr of
           Content c_rem \<Rightarrow>
             map_option (\<lambda>r. pr\<lparr>preader := r, pstate :=
                 if unat c_rem < amt then ReadPadding (amt - unat c_rem) (amt - unat c_rem)
                 else Content (c_rem - word_of_nat amt)\<rparr>) (op_consume ops (preader pr) amt)
         | ReadPadding start end \<Rightarrow>
             map_option (\<lambda>r. pr\<lparr>preader := r, pstate := ReadPadding (start + amt) (max (start + amt) end)\<rparr>)
               (op_consume ops (preader pr) amt)
         | Padding start \<Rightarrow> Some (pr\<lparr>pstate := Padding (start + amt)\<rparr>)
         | PEof \<Rightarrow> Some pr))"

definition padded_prepare :: "'r BytesRead \<Rightarrow> 'r PaddedReader \<Rightarrow> nat \<Rightarrow> 'r PaddedReader option" where
  "padded_prepare ops pr additional =
     map_option (\<lambda>r. pr\<lparr>preader := r\<rparr>) (op_prepare ops (preader pr) additional)"

partial_function (option) padded_drain :: "'r BytesRead \<Rightarrow> 'r PaddedReader \<Rightarrow> ('r PaddedReader, unit) polled" where
  "padded_drain ops pr =
     Option.bind (padded_fill ops pr) (\<lambda>(pr1, res). case res of
         Pending \<Rightarrow> Some (pr1, Pending)
       | Ready x \<Rightarrow> (case x of Inl e \<Rightarrow> Some (pr1, Ready (Inl e))
           | Inr b \<Rightarrow> if b = [] then Some (pr1, Ready (Inr ()))
               else Option.bind (padded_consume ops pr1 (length b)) (padded_drain ops)))"

section \<open>The contract\<close>

definition pad_aligned :: "'r PaddedReader \<Rightarrow> nat" where
  "pad_aligned pr = (trailer_size pr + 7) div 8 * 8"

text \<open>The contents still to come, what is buffered of them, and where the source will be left.\<close>

definition padded_rest :: "('r \<Rightarrow> bytes) \<Rightarrow> 'r PaddedReader \<Rightarrow> bytes" where
  "padded_rest rest pr =
     (case pstate pr of
        Content rem \<Rightarrow> take (unat rem + trailer_size pr) (rest (preader pr))
      | ReadPadding start end \<Rightarrow>
          drop start (take (trailer_size pr) (take end (padding pr) @ rest (preader pr)))
      | Padding start \<Rightarrow> trailer_bytes pr start
      | PEof \<Rightarrow> [])"

definition padded_tail :: "('r \<Rightarrow> bytes) \<Rightarrow> 'r PaddedReader \<Rightarrow> bytes" where
  "padded_tail rest pr =
     (case pstate pr of
        Content rem \<Rightarrow> drop (unat rem + pad_aligned pr) (rest (preader pr))
      | ReadPadding start end \<Rightarrow> drop (8 - end) (rest (preader pr))
      | _ \<Rightarrow> rest (preader pr))"

definition padded_avail :: "('r \<Rightarrow> bytes) \<Rightarrow> 'r PaddedReader \<Rightarrow> bytes" where
  "padded_avail avail pr =
     (let a = avail (preader pr) in
      case pstate pr of
        Content rem \<Rightarrow>
          if unat rem + pad_aligned pr \<le> length a then take (unat rem + trailer_size pr) a
          else take (unat rem) a
      | ReadPadding start end \<Rightarrow>
          if start = end \<and> 8 - end \<le> length a then drop start (take (trailer_size pr) (take end (padding pr) @ a)) else []
      | Padding start \<Rightarrow> trailer_bytes pr start
      | PEof \<Rightarrow> [])"

definition padded_good :: "('r \<Rightarrow> bytes) \<Rightarrow> ('r \<Rightarrow> bool) \<Rightarrow> 'r PaddedReader \<Rightarrow> bool" where
  "padded_good rest good pr \<longleftrightarrow> good (preader pr) \<and> trailer_size pr < 8 \<and> length (padding pr) = 8 \<and>
     (case pstate pr of
        Content rem \<Rightarrow> unat rem + pad_aligned pr < 2 ^ 64 \<and> unat rem + pad_aligned pr \<le> length (rest (preader pr))
      | ReadPadding start end \<Rightarrow> start < trailer_size pr \<and> start \<le> end \<and> end \<le> 8 \<and> 8 - end \<le> length (rest (preader pr))
      | Padding start \<Rightarrow> start < trailer_size pr
      | PEof \<Rightarrow> True)"

lemma pad_aligned_update [simp]:
  "pad_aligned (pr\<lparr>preader := r\<rparr>) = pad_aligned pr" "pad_aligned (pr\<lparr>pstate := s\<rparr>) = pad_aligned pr"
  by (simp_all add: pad_aligned_def)

lemma min_add_diff [simp]: "min t e + (t - e) = (t :: nat)"
  by (simp add: min_def)

lemma pad_aligned_cases: "trailer_size pr < 8 \<Longrightarrow> pad_aligned pr = (if trailer_size pr = 0 then 0 else 8)"
  by (auto simp: pad_aligned_def)

lemma padded_new_good:
  assumes "good r" "fits c" "rest r = padded c @ tail"
  shows "padded_good rest good (padded_new r (word_of_nat (length c))) \<and>
     padded_rest rest (padded_new r (word_of_nat (length c))) = c \<and>
     padded_tail rest (padded_new r (word_of_nat (length c))) = tail"
proof -
  let ?w = "word_of_nat (length c) :: u64"
  define n where "n = length c"
  have w: "unat ?w = n" using unat_length_fits [OF assms(2)] by (simp add: n_def)
  have u: "unat (?w AND NOT 7) = n div 8 * 8" using and_not_7 [of ?w] w by simp
  have le: "n div 8 * 8 \<le> n" by simp
  have t: "unat (?w - (?w AND NOT 7)) = n mod 8"
  proof -
    have "?w AND NOT 7 \<le> ?w" unfolding word_le_nat_alt u w by (rule le)
    then have "unat (?w - (?w AND NOT 7)) = n - n div 8 * 8" by (simp only: unat_sub u w)
    then show ?thesis by (simp add: minus_div_mult_eq_mod)
  qed
  have al: "n div 8 * 8 + (n mod 8 + 7) div 8 * 8 = (n + 7) div 8 * 8"
    by (simp add: div_add1_eq [of n 7] add_mult_distrib)
  have len: "length (padded c) = (n + 7) div 8 * 8"
    using assms(2) length_padded [OF assms(2)] unfolding unat_calc_aligned w by (simp add: fits_def n_def)
  have "(n + 7) div 8 * 8 \<le> n + 7" by simp
  then have "n div 8 * 8 + (n mod 8 + 7) div 8 * 8 < 2 ^ 64"
    unfolding al using assms(2) by (simp add: fits_def n_def)
  then have lim: "unat (?w AND NOT 7) + (n mod 8 + 7) div 8 * 8 < 2 ^ 64"
    and whole: "unat (?w AND NOT 7) + (n mod 8 + 7) div 8 * 8 = length (padded c)"
    and all: "unat (?w AND NOT 7) + n mod 8 = length c"
    by (simp_all only: u al len) (simp add: n_def)
  let ?pr = "padded_new r ?w"
  have f: "trailer_size ?pr = n mod 8" "pstate ?pr = Content (?w AND NOT 7)" "preader ?pr = r" "padding ?pr = ZEROS"
    by (simp_all only: padded_new_def Let_def t PaddedReader.simps)
  have "take (length c) (padded c @ tail) = c" by (simp add: padded_def)
  then show ?thesis
    using assms(1,3) lim whole all
    by (simp add: padded_good_def padded_rest_def padded_tail_def pad_aligned_def f ZEROS_def)
qed

context bytes_read
begin

lemma read_padding_spec:
  assumes "good r" "end \<le> 8" "length pad = 8" "8 - end \<le> length (rest r)"
  shows "\<exists>r' pad' end' res. read_padding (op_read ops) r pad end = Some (r', pad', end', res) \<and>
    end \<le> end' \<and> end' \<le> 8 \<and> length pad' = 8 \<and> take end' pad' @ rest r' = take end pad @ rest r \<and>
    (case res of Ready (Inl e) \<Rightarrow> src_err e
     | _ \<Rightarrow> good r' \<and> 8 - end' \<le> length (rest r') \<and> length (avail r) + end \<le> length (avail r') + end') \<and>
    (res = Ready (Inr ()) \<longrightarrow> end' = 8) \<and> (res = Pending \<longrightarrow> length (avail r) < 8 - end)"
  using assms
proof (induction "8 - end" arbitrary: r pad "end" rule: less_induct)
  case less
  show ?case
  proof (cases "end < 8")
    case False
    with less.prems show ?thesis by (simp add: read_padding.simps)
  next
    case True
    obtain r1 res where rd: "op_read ops r (8 - end) = Some (r1, res)" and g: "is_err res \<or> good r1"
      and post: "read_post src_err (8 - end) (rest r) (rest r1) res"
      using read_law [OF less.prems(1)] by blast
    note av = read_avail [OF less.prems(1) rd]
    have pend: "res = Pending \<Longrightarrow> avail r = []" using read_pending [OF less.prems(1)] rd by blast
    have "res \<noteq> Ready (Inr [])" using post True less.prems(4) by auto
    then consider "res = Pending" | e where "res = Ready (Inl e)" | b where "res = Ready (Inr b)" "b \<noteq> []"
      by (metis poll.exhaust sum.exhaust)
    then show ?thesis
    proof cases
      case (3 b)
      let ?pad = "take end pad @ b @ drop (end + length b) pad"
      from post 3 have b: "length b \<le> 8 - end" "rest r = b @ rest r1" by auto
      have m: "8 - (end + length b) < 8 - end" using 3 True by (cases b) auto
      have g1: "good r1" using g 3 by simp
      have pre: "end + length b \<le> 8" "length ?pad = 8" "8 - (end + length b) \<le> length (rest r1)"
        using b less.prems True by auto
      have tk: "take (end + length b) ?pad = take end pad @ b" using pre less.prems by simp
      have "read_padding (op_read ops) r pad end = read_padding (op_read ops) r1 ?pad (end + length b)"
        using True rd 3 by (simp add: read_padding.simps [of _ r])
      moreover from less.hyps [OF m g1 pre] obtain r' pad' end' res' where
        IH: "read_padding (op_read ops) r1 ?pad (end + length b) = Some (r', pad', end', res')"
        and f: "end + length b \<le> end'" "end' \<le> 8" "length pad' = 8"
          "take end' pad' @ rest r' = take (end + length b) ?pad @ rest r1"
        and c: "case res' of Ready (Inl e) \<Rightarrow> src_err e
           | _ \<Rightarrow> good r' \<and> 8 - end' \<le> length (rest r') \<and>
             length (avail r1) + (end + length b) \<le> length (avail r') + end'"
        and d: "res' = Ready (Inr ()) \<longrightarrow> end' = 8" "res' = Pending \<longrightarrow> length (avail r1) < 8 - (end + length b)"
        by blast
      have "length (avail r) \<le> length (avail r1) + length b" using av 3 by simp
      with c have "case res' of Ready (Inl e) \<Rightarrow> src_err e
           | _ \<Rightarrow> good r' \<and> 8 - end' \<le> length (rest r') \<and> length (avail r) + end \<le> length (avail r') + end'"
        by (auto split: poll.splits sum.splits)
      moreover have "take end' pad' @ rest r' = take end pad @ rest r" using f(4) tk b(2) by simp
      moreover have "res' = Pending \<longrightarrow> length (avail r) < 8 - end"
        using d(2) \<open>length (avail r) \<le> length (avail r1) + length b\<close> by auto
      ultimately show ?thesis using IH d(1) f by auto
    qed (use True rd g post av pend less.prems in \<open>auto simp: read_padding.simps [of _ r]\<close>)
  qed
qed

lemma poll_content_spec:
  assumes g: "padded_good rest good pr" and st: "pstate pr = Content rem"
  shows "\<exists>pr' res. poll_content ops (op_fill ops) (unat rem, unat rem + trailer_size pr, unat rem + pad_aligned pr) pr
      = Some (pr', res) \<and>
    (is_err res \<or> padded_good rest good pr' \<and> length (padded_avail avail pr) \<le> length (padded_avail avail pr')) \<and>
    padded_rest rest pr' = padded_rest rest pr \<and> padded_tail rest pr' = padded_tail rest pr \<and>
    fill_post src_err (padded_rest rest pr) (padded_avail avail pr') res"
proof -
  let ?c = "unat rem" and ?t = "trailer_size pr" and ?a = "pad_aligned pr" and ?R = "rest (preader pr)"
  from g st have gr: "good (preader pr)" and t: "?t < 8" and long: "?c + ?a \<le> length ?R"
    by (auto simp: padded_good_def)
  have ta: "?t \<le> ?a" "?a \<noteq> 0 \<longrightarrow> ?a = 8" "?t = 0 \<longleftrightarrow> ?a = 0" using pad_aligned_cases [OF t] t by auto
  have pr': "padded_good rest good (pr\<lparr>preader := r\<rparr>)" "padded_rest rest (pr\<lparr>preader := r\<rparr>) = padded_rest rest pr"
      "padded_tail rest (pr\<lparr>preader := r\<rparr>) = padded_tail rest pr" if "good r" "rest r = ?R" for r
    using that g st by (auto simp: padded_good_def padded_rest_def padded_tail_def)
  have mono: "length (padded_avail avail pr) \<le> length (padded_avail avail (pr\<lparr>preader := r\<rparr>))"
    if "length (avail (preader pr)) \<le> length (avail r)" for r
    using that st ta by (auto simp: padded_avail_def Let_def)
  have err: "padded_rest rest (pr\<lparr>preader := r\<rparr>) = padded_rest rest pr"
    "padded_tail rest (pr\<lparr>preader := r\<rparr>) = padded_tail rest pr" if "rest r = ?R" for r
    using that st by (auto simp: padded_rest_def padded_tail_def)
  from gr show ?thesis
  proof (cases rule: fill_cases)
    case (pending r)
    with pr' [OF pending(2,3)] mono [OF pending(4)] show ?thesis by (simp add: poll_content_def)
  next
    case (failed r e)
    with err [OF failed(2)] show ?thesis by (simp add: poll_content_def)
  next
    case (filled r)
    show ?thesis
    proof (cases "?c \<le> length (avail r)")
      case False
      then have "avail r \<noteq> [] \<or> ?R = []" using filled(4) by auto
      moreover from False have "padded_avail avail (pr\<lparr>preader := r\<rparr>) = avail r"
        using st by (auto simp: padded_avail_def Let_def)
      moreover have "?R \<noteq> []" using False long by auto
      ultimately show ?thesis
        using False filled(1) pr' [OF filled(2,3)] mono [OF filled(6)] by (simp add: poll_content_def)
    next
      case True
      from filled(2) refl show ?thesis
      proof (cases rule: force_until_cases [where n = "?c + ?a"])
        case (pending r')
        then have m: "length (avail (preader pr)) \<le> length (avail r')" "rest r' = ?R"
          using filled(3,6) by simp_all
        show ?thesis using True filled(1) pending(1) pr' [OF pending(2) m(2)] mono [OF m(1)]
          by (simp add: poll_content_def)
      next
        case (failed r' e)
        then have "rest r' = ?R" "src_err e" using filled(3) long by auto
        with True filled(1) failed(1) err [of r'] show ?thesis by (simp add: poll_content_def)
      next
        case full: (filled r')
        then have m: "length (avail (preader pr)) \<le> length (avail r')" "rest r' = ?R"
          using filled(3,6) by simp_all
        have rem: "?c + ?t \<le> length (avail r')" using full(4) ta by simp
        have av: "padded_avail avail (pr\<lparr>preader := r'\<rparr>) = take (?c + ?t) (avail r')"
          using st full(4) by (simp add: padded_avail_def Let_def)
        have "take (?c + ?t) (avail r') = padded_rest rest pr"
          using avail_prefix [OF full(2)] m(2) rem st by (auto simp: padded_rest_def prefix_def)
        with True filled(1) full(1) pr' [OF full(2) m(2)] mono [OF m(1)] rem av show ?thesis
          by (simp add: poll_content_def)
      qed
    qed
  qed
qed

lemma poll_read_padding_spec:
  assumes g: "padded_good rest good pr" and st: "pstate pr = ReadPadding start end"
  shows "\<exists>pr' res. poll_read_padding ops start end pr = Some (pr', res) \<and>
    (is_err res \<or> padded_good rest good pr' \<and> length (padded_avail avail pr) \<le> length (padded_avail avail pr')) \<and>
    padded_rest rest pr' = padded_rest rest pr \<and> padded_tail rest pr' = padded_tail rest pr \<and>
    fill_post src_err (padded_rest rest pr) (padded_avail avail pr') res"
proof -
  let ?t = "trailer_size pr" and ?r = "preader pr"
  from g st have p: "good ?r" "end \<le> 8" "length (padding pr) = 8" "8 - end \<le> length (rest ?r)"
    "start < ?t" "?t < 8" "start \<le> end" by (auto simp: padded_good_def)
  obtain r' pad' end' res where rp: "read_padding (op_read ops) ?r (padding pr) end = Some (r', pad', end', res)"
    and f: "end \<le> end'" "end' \<le> 8" "length pad' = 8" "take end' pad' @ rest r' = take end (padding pr) @ rest ?r"
    and c: "case res of Ready (Inl e) \<Rightarrow> src_err e
     | _ \<Rightarrow> good r' \<and> 8 - end' \<le> length (rest r') \<and> length (avail ?r) + end \<le> length (avail r') + end'"
    and d: "res = Ready (Inr ()) \<longrightarrow> end' = 8" and pend: "res = Pending \<longrightarrow> length (avail ?r) < 8 - end"
    using read_padding_spec [OF p(1-4)] by blast
  let ?rp = "pr\<lparr>preader := r', padding := pad', pstate := ReadPadding start end'\<rparr>"
  have rest': "padded_rest rest ?rp = padded_rest rest pr"
  proof -
    have "padded_rest rest ?rp = drop start (take ?t (take end' pad' @ rest r'))"
      by (simp add: padded_rest_def)
    also have "\<dots> = drop start (take ?t (take end (padding pr) @ rest ?r))" by (simp only: f(4))
    finally show ?thesis by (simp add: padded_rest_def st)
  qed
  have tail: "drop (8 - end') (rest r') = drop (8 - end) (rest ?r)"
  proof -
    have "drop (8 - end') (rest r') = drop 8 (take end' pad' @ rest r')" using f(2,3) by simp
    also have "\<dots> = drop 8 (take end (padding pr) @ rest ?r)" by (simp only: f(4))
    also have "\<dots> = drop (8 - end) (rest ?r)" using p by simp
    finally show ?thesis .
  qed
  have av: "length (padded_avail avail pr) \<le> ?t - start"
    using st p by (auto simp: padded_avail_def Let_def)
  consider "res = Pending" | e where "res = Ready (Inl e)" | "res = Ready (Inr ())"
    by (metis old.unit.exhaust poll.exhaust sum.exhaust)
  then show ?thesis
  proof cases
    case 1
    from 1 c have "good r'" "8 - end' \<le> length (rest r')" by auto
    then have "padded_good rest good ?rp" using f p by (simp add: padded_good_def)
    moreover have "length (padded_avail avail pr) \<le> length (padded_avail avail ?rp)"
      using 1 pend st by (simp add: padded_avail_def Let_def)
    moreover have "padded_tail rest ?rp = padded_tail rest pr"
      using tail by (simp add: padded_tail_def st)
    ultimately show ?thesis using 1 rp rest' by (simp add: poll_read_padding_def)
  next
    case 2
    moreover have "padded_tail rest ?rp = padded_tail rest pr"
      using tail by (simp add: padded_tail_def st)
    ultimately show ?thesis using rp c rest' by (simp add: poll_read_padding_def)
  next
    case 3
    let ?pr = "pr\<lparr>preader := r', padding := pad', pstate := Padding start\<rparr>"
    from 3 c d f have c': "good r'" "length pad' = 8" "end' = 8"
         "pad' @ rest r' = take end (padding pr) @ rest ?r" by auto
    have r: "trailer_bytes ?pr start = padded_rest rest pr"
    proof -
      have "trailer_bytes ?pr start = drop start (take ?t (pad' @ rest r'))"
        using c'(2) p(6) by (simp add: trailer_bytes_def)
      also have "\<dots> = drop start (take ?t (take end (padding pr) @ rest ?r))" by (simp only: c'(4))
      finally show ?thesis by (simp add: padded_rest_def st)
    qed
    have l: "length (trailer_bytes ?pr start) = ?t - start" using c' p by (simp add: trailer_bytes_def)
    have "padded_tail rest ?pr = padded_tail rest pr"
      using tail c' st by (simp add: padded_tail_def)
    moreover have "trailer_bytes ?pr start \<noteq> []" using l p by (metis diff_is_0_eq leD list.size(3))
    ultimately show ?thesis using 3 rp c' p r l av
      by (auto simp: poll_read_padding_def padded_good_def padded_rest_def padded_avail_def Let_def)
  qed
qed

lemma remaining_good:
  assumes "padded_good rest good pr"
  shows "\<exists>c m a. remaining_usize pr = Some (c, m, a) \<and> m = length (padded_rest rest pr) \<and>
    (case pstate pr of Content rem \<Rightarrow> c = unat rem \<and> m = unat rem + trailer_size pr \<and> a = unat rem + pad_aligned pr
     | ReadPadding start _ \<Rightarrow> m = trailer_size pr - start \<and> a = 8 - start
     | Padding start \<Rightarrow> m = trailer_size pr - start | PEof \<Rightarrow> m = 0)"
  using assms pad_aligned_cases [of pr]
  by (cases "pstate pr")
    (auto simp: remaining_usize_def padded_good_def padded_rest_def trailer_bytes_def Let_def
      pad_aligned_def [symmetric] min_def split: if_splits)

lemma padded_fill_spec:
  assumes g: "padded_good rest good pr"
  shows "\<exists>pr' res. padded_fill ops pr = Some (pr', res) \<and>
    (is_err res \<or> padded_good rest good pr' \<and> length (padded_avail avail pr) \<le> length (padded_avail avail pr')) \<and>
    padded_rest rest pr' = padded_rest rest pr \<and> padded_tail rest pr' = padded_tail rest pr \<and>
    fill_post src_err (padded_rest rest pr) (padded_avail avail pr') res"
proof -
  obtain c m a where rem: "remaining_usize pr = Some (c, m, a)"
    and lim: "\<And>rem. pstate pr = Content rem \<Longrightarrow> (c, m, a) = (unat rem, unat rem + trailer_size pr, unat rem + pad_aligned pr)"
    using remaining_good [OF g] by fastforce
  show ?thesis
  proof (cases "pstate pr")
    case (Content r)
    with poll_content_spec [OF g Content] rem lim show ?thesis by (auto simp: padded_fill_def)
  next
    case (ReadPadding start e)
    with poll_read_padding_spec [OF g ReadPadding] rem show ?thesis by (auto simp: padded_fill_def)
  next
    case (Padding start)
    with g rem show ?thesis
      by (auto simp: padded_fill_def padded_rest_def padded_avail_def padded_good_def trailer_bytes_def Let_def)
  next
    case PEof
    with g rem show ?thesis by (simp add: padded_fill_def padded_rest_def padded_avail_def Let_def)
  qed
qed

lemma padded_consume_spec:
  assumes g: "padded_good rest good pr" and n: "n \<le> length (padded_avail avail pr)"
  shows "\<exists>pr'. padded_consume ops pr n = Some pr' \<and> padded_good rest good pr' \<and>
    padded_rest rest pr' = drop n (padded_rest rest pr) \<and>
    length (padded_avail avail pr') = length (padded_avail avail pr) - n \<and>
    padded_tail rest pr' = padded_tail rest pr"
proof (cases "pstate pr")
  case (Content rem)
  let ?r = "preader pr" and ?t = "trailer_size pr" and ?a = "pad_aligned pr" and ?c = "unat rem"
  from g Content have p: "good ?r" "?t < 8" "length (padding pr) = 8" "?c + ?a < 2 ^ 64" "?c + ?a \<le> length (rest ?r)"
    by (auto simp: padded_good_def)
  have ta: "?t \<le> ?a" "?a \<noteq> 0 \<longrightarrow> ?a = 8" "?t = 0 \<longleftrightarrow> ?a = 0" using pad_aligned_cases [OF p(2)] p(2) by auto
  have rem: "remaining_usize pr = Some (?c, ?c + ?t, ?c + ?a)"
    using p(4) by (simp add: remaining_usize_def Content Let_def pad_aligned_def)
  have na: "n \<le> length (avail ?r)" and nm: "n \<le> ?c + ?t" and big: "?c < n \<longrightarrow> ?c + ?a \<le> length (avail ?r)"
    using n Content by (auto simp: padded_avail_def Let_def split: if_splits)
  show ?thesis
  proof (cases "n = ?c + ?t")
    case True
    have le: "?c + ?a \<le> length (avail ?r)"
      using n True ta Content by (auto simp: padded_avail_def Let_def split: if_splits)
    obtain r' where r': "op_consume ops ?r (?c + ?a) = Some r'" "good r'" "rest r' = drop (?c + ?a) (rest ?r)"
      using consume_law [OF p(1) le] by blast
    with True rem p Content show ?thesis
      by (auto simp: padded_consume_def padded_good_def padded_rest_def padded_avail_def padded_tail_def Let_def)
  next
    case False
    obtain r' where r': "op_consume ops ?r n = Some r'" "good r'" "rest r' = drop n (rest ?r)"
        "length (avail r') = length (avail ?r) - n"
      using consume_law [OF p(1) na] by blast
    show ?thesis
    proof (cases "?c < n")
      case True
      let ?pr = "pr\<lparr>preader := r', pstate := ReadPadding (n - ?c) (n - ?c)\<rparr>"
      have a8: "?a = 8" and s: "n - ?c < ?t" using True nm False ta by auto
      have "padded_consume ops pr n = Some ?pr" using False nm rem r'(1) Content True by (simp add: padded_consume_def)
      moreover have "padded_rest rest ?pr = drop n (padded_rest rest pr)"
        using s p(2,3) r'(3) Content True by (simp add: padded_rest_def drop_take min_def add.commute)
      moreover have "length (padded_avail avail ?pr) = length (padded_avail avail pr) - n"
        using s p(2,3) r'(4) Content True big a8 by (simp add: padded_avail_def Let_def min_def add.commute)
      moreover have "padded_tail rest ?pr = padded_tail rest pr"
        using s p r'(3) Content True a8 by (simp add: padded_tail_def add.commute)
      moreover have "padded_good rest good ?pr"
        using s p r'(2,3) a8 True by (auto simp: padded_good_def)
      ultimately show ?thesis by blast
    next
      case small: False
      let ?pr = "pr\<lparr>preader := r', pstate := Content (rem - word_of_nat n)\<rparr>"
      have "unat (word_of_nat n :: u64) = n" using small p(4) by (simp add: unat_of_nat)
      then have u: "unat (rem - word_of_nat n) = ?c - n" using small by (simp add: unat_sub_if')
      have "padded_consume ops pr n = Some ?pr" using False nm rem r'(1) Content small by (simp add: padded_consume_def)
      moreover have "padded_rest rest ?pr = drop n (padded_rest rest pr)"
        using r'(3) Content small u by (simp add: padded_rest_def drop_take)
      moreover have "length (padded_avail avail ?pr) = length (padded_avail avail pr) - n"
        using r'(4) Content small u na by (simp add: padded_avail_def Let_def min_def)
      moreover have "padded_tail rest ?pr = padded_tail rest pr"
        using r'(3) Content small u by (simp add: padded_tail_def)
      moreover have "padded_good rest good ?pr"
        using p r'(2,3) small u by (auto simp: padded_good_def)
      ultimately show ?thesis by blast
    qed
  qed
next
  case (ReadPadding start e)
  let ?r = "preader pr" and ?t = "trailer_size pr"
  from g ReadPadding have p: "good ?r" "?t < 8" "length (padding pr) = 8" "start < ?t" "start \<le> e" "e \<le> 8"
    "8 - e \<le> length (rest ?r)" by (auto simp: padded_good_def)
  have rem: "remaining_usize pr = Some (0, ?t - start, 8 - start)"
    using p pad_aligned_cases [of pr] by (simp add: remaining_usize_def ReadPadding Let_def pad_aligned_def [symmetric])
  show ?thesis
  proof (cases "n = 0")
    case True
    have "0 \<le> length (avail ?r)" by simp
    then obtain r' where r': "op_consume ops ?r 0 = Some r'" "good r'" "rest r' = rest ?r"
        "length (avail r') = length (avail ?r)"
      using consume_law [OF p(1), of 0] by auto
    with True rem p ReadPadding show ?thesis
      by (auto simp: padded_consume_def padded_good_def padded_rest_def padded_avail_def padded_tail_def Let_def
          max_def)
  next
    case False
    with n ReadPadding have se: "start = e" and a: "8 - e \<le> length (avail ?r)" and nt: "n \<le> ?t - start"
      using p by (auto simp: padded_avail_def Let_def split: if_splits)
    show ?thesis
    proof (cases "n = ?t - start")
      case True
      obtain r' where r': "op_consume ops ?r (8 - start) = Some r'" "good r'" "rest r' = drop (8 - start) (rest ?r)"
        using consume_law [OF p(1), of "8 - start"] a se by auto
      with True rem p ReadPadding se show ?thesis
        by (auto simp: padded_consume_def padded_good_def padded_rest_def padded_avail_def padded_tail_def Let_def)
    next
      case less: False
      have "n \<le> length (avail ?r)" using nt a se p by simp
      then obtain r' where r': "op_consume ops ?r n = Some r'" "good r'" "rest r' = drop n (rest ?r)"
        "length (avail r') = length (avail ?r) - n"
        using consume_law [OF p(1)] by blast
      let ?pr = "pr\<lparr>preader := r', pstate := ReadPadding (start + n) (start + n)\<rparr>"
      have "padded_consume ops pr n = Some ?pr"
        using less nt rem r'(1) ReadPadding se by (simp add: padded_consume_def)
      moreover have "padded_rest rest ?pr = drop n (padded_rest rest pr)"
        using p nt less r'(3) ReadPadding se by (simp add: padded_rest_def drop_take min_def add.commute)
      moreover have "length (padded_avail avail ?pr) = length (padded_avail avail pr) - n"
        using p nt less r'(4) ReadPadding se a by (simp add: padded_avail_def Let_def min_def)
      moreover have "padded_tail rest ?pr = padded_tail rest pr"
        using p nt less r'(3) ReadPadding se by (simp add: padded_tail_def)
      moreover have "padded_good rest good ?pr"
        using p nt less r'(2,3) se by (auto simp: padded_good_def)
      ultimately show ?thesis by blast
    qed
  qed
next
  case (Padding start)
  with g n show ?thesis
    by (auto simp: padded_consume_def remaining_usize_def padded_good_def padded_rest_def padded_avail_def
        padded_tail_def trailer_bytes_def Let_def add.commute)
next
  case PEof
  with g n show ?thesis
    by (auto simp: padded_consume_def remaining_usize_def padded_good_def padded_rest_def padded_avail_def
        padded_tail_def Let_def)
qed

lemma padded_avail_prefix:
  assumes "padded_good rest good pr"
  shows "prefix (padded_avail avail pr) (padded_rest rest pr)"
proof -
  have "prefix (avail (preader pr)) (rest (preader pr))"
    using assms avail_prefix by (simp add: padded_good_def)
  then obtain z where z: "rest (preader pr) = avail (preader pr) @ z" by (auto simp: prefix_def)
  show ?thesis
  proof (cases "pstate pr")
    case (Content rem)
    have "prefix (take (unat rem) (avail (preader pr))) (take (unat rem + trailer_size pr) (avail (preader pr) @ z))"
      by (metis append_take_drop_id prefixI prefix_length_prefix take_add take_append take_is_prefix append.assoc)
    with Content z show ?thesis
      by (auto simp: padded_avail_def padded_rest_def Let_def)
  next
    case (ReadPadding start e)
    with z assms show ?thesis
      by (auto simp: padded_avail_def padded_rest_def Let_def padded_good_def)
  qed (auto simp: padded_avail_def padded_rest_def Let_def)
qed

lemma padded_contract:
  "buf_source (padded_rest rest) (padded_good rest good) src_err
     (padded_fill ops) (padded_consume ops) (padded_avail avail)"
proof (rule buf_sourceI)
  show "padded_good rest good r \<Longrightarrow> \<exists>r' res. padded_fill ops r = Some (r', res) \<and>
      (is_err res \<or> padded_good rest good r' \<and> length (padded_avail avail r) \<le> length (padded_avail avail r')) \<and>
      padded_rest rest r' = padded_rest rest r \<and> fill_post src_err (padded_rest rest r) (padded_avail avail r') res" for r
    using padded_fill_spec by blast
qed (use padded_consume_spec padded_avail_prefix in blast)+

lemma padded_contract_at:
  "buf_source (padded_rest rest) (\<lambda>pr. padded_good rest good pr \<and> padded_tail rest pr = tail) src_err
     (padded_fill ops) (padded_consume ops) (padded_avail avail)"
proof (rule buf_sourceI)
  show "padded_good rest good r \<and> padded_tail rest r = tail \<Longrightarrow> \<exists>r' res. padded_fill ops r = Some (r', res) \<and>
      (is_err res \<or> (padded_good rest good r' \<and> padded_tail rest r' = tail) \<and>
         length (padded_avail avail r) \<le> length (padded_avail avail r')) \<and>
      padded_rest rest r' = padded_rest rest r \<and> fill_post src_err (padded_rest rest r) (padded_avail avail r') res" for r
    using padded_fill_spec [of r] by blast
  show "padded_good rest good r \<and> padded_tail rest r = tail \<Longrightarrow> n \<le> length (padded_avail avail r) \<Longrightarrow>
      \<exists>r'. padded_consume ops r n = Some r' \<and> (padded_good rest good r' \<and> padded_tail rest r' = tail) \<and>
        padded_rest rest r' = drop n (padded_rest rest r) \<and>
        length (padded_avail avail r') = length (padded_avail avail r) - n" for r n
    using padded_consume_spec [of r n] by blast
qed (use padded_avail_prefix in blast)

lemma padded_drain_spec:
  assumes "padded_good rest good pr"
  shows "\<exists>pr' res. padded_drain ops pr = Some (pr', res) \<and> padded_tail rest pr' = padded_tail rest pr \<and>
    (case res of Pending \<Rightarrow> padded_good rest good pr' | Ready (Inl e) \<Rightarrow> src_err e
     | Ready (Inr _) \<Rightarrow> good (preader pr') \<and> rest (preader pr') = padded_tail rest pr)"
  using assms
proof (induction "length (padded_rest rest pr)" arbitrary: pr rule: less_induct)
  case less
  obtain pr1 res where f: "padded_fill ops pr = Some (pr1, res)"
    and g: "is_err res \<or> padded_good rest good pr1"
    and r: "padded_rest rest pr1 = padded_rest rest pr" "padded_tail rest pr1 = padded_tail rest pr"
    and post: "fill_post src_err (padded_rest rest pr) (padded_avail avail pr1) res"
    using padded_fill_spec [OF less.prems] by blast
  consider "res = Pending" | e where "res = Ready (Inl e)" | "res = Ready (Inr [])" "padded_avail avail pr1 = []"
    | "res = Ready (Inr (padded_avail avail pr1))" "padded_avail avail pr1 \<noteq> []"
    using post by (metis fill_post.simps(3) poll.exhaust sum.exhaust)
  then show ?case
  proof cases
    case 3
    then have g1: "padded_good rest good pr1" and e: "padded_rest rest pr1 = []" using g post r by auto
    obtain c m a where "m = length (padded_rest rest pr1)" "case pstate pr1 of
       Content rem \<Rightarrow> c = unat rem \<and> m = unat rem + trailer_size pr1 \<and> a = unat rem + pad_aligned pr1
     | ReadPadding start _ \<Rightarrow> m = trailer_size pr1 - start \<and> a = 8 - start
     | Padding start \<Rightarrow> m = trailer_size pr1 - start | PEof \<Rightarrow> m = 0"
      using remaining_good [OF g1] by blast
    with e g1 have "rest (preader pr1) = padded_tail rest pr1" "good (preader pr1)"
      using pad_aligned_cases [of pr1]
      by (auto simp: padded_tail_def padded_good_def split: PState.splits)
    with 3 f r show ?thesis by (simp add: padded_drain.simps [of ops pr])
  next
    case 4
    then have g1: "padded_good rest good pr1" using g by simp
    let ?b = "padded_avail avail pr1"
    have pre: "prefix ?b (padded_rest rest pr)" using padded_avail_prefix [OF g1] r by simp
    obtain pr2 where c: "padded_consume ops pr1 (length ?b) = Some pr2" and g2: "padded_good rest good pr2"
      and r2: "padded_rest rest pr2 = drop (length ?b) (padded_rest rest pr)" "padded_tail rest pr2 = padded_tail rest pr"
      using padded_consume_spec [OF g1, of "length ?b"] r by auto
    have "0 < length ?b" using 4 by simp
    moreover have "length ?b \<le> length (padded_rest rest pr)" using pre by (rule prefix_length_le)
    ultimately have "length (padded_rest rest pr2) < length (padded_rest rest pr)"
      by (simp only: r2 length_drop)
    from less.hyps [OF this g2, unfolded r2(2)] c 4 f show ?thesis
      by (simp add: padded_drain.simps [of ops pr])
  qed (use f g r post in \<open>auto simp: padded_drain.simps [of ops pr]\<close>)
qed

end

end
