(* ===== verification/Nar_Parser.thy ===== *)
theory Nar_Parser
  imports Nar_Stream Padded_Reader
begin

text \<open>
  \<open>NarParser\<close> of \<open>harmonia-nar/src/archive/parser.rs\<close>: an archive as a stream of events, with \<open>Lending\<close> of
  \<open>harmonia-utils-io/src/lending.rs\<close>, by which the parser gives its source away for the contents of a
  file and gets it back when the client is done.

  The source is in one of three places: with the parser, with the client (who holds the
  \<open>PaddedReader\<close>), or on its way back, to be drained first. \<open>Lent None\<close> is the channel while the client
  still has the reader, \<open>Lent (Some w)\<close> the channel with the reader in it.

  The fact: over every source that keeps the contract of \<open>AsyncBytesRead\<close> and carries an archive, the parser's events are
  those of the archive, each file's reader has exactly its contents, and the source is left right
  behind the archive, however the bytes arrive and however much of each file the client reads
  (\<open>parser_step\<close>, a simulation against the list of events).
\<close>

section \<open>Events, lending\<close>

datatype 'r NarEvent =
    File bytes bool u64 'r
  | Symlink bytes bytes
  | StartDirectory bytes
  | EndDirectory

datatype ('r, 'w) Lending = Lent "'w option" | Drain 'w | Available 'r

definition lending_drain :: "'r BytesRead \<Rightarrow> 'r PaddedReader \<Rightarrow> (('r, 'r PaddedReader) Lending, unit) polled" where
  "lending_drain ops w =
     (case padded_drain ops w of
        None \<Rightarrow> None
      | Some (w', Pending) \<Rightarrow> Some (Drain w', Pending)
      | Some (w', Ready (Inl e)) \<Rightarrow> Some (Drain w', Ready (Inl e))
      | Some (w', Ready (Inr _)) \<Rightarrow> Some (Available (preader w'), Ready (Inr ())))"

definition lending_poll_ready ::
  "'r BytesRead \<Rightarrow> ('r, 'r PaddedReader) Lending \<Rightarrow> (('r, 'r PaddedReader) Lending, unit) polled" where
  "lending_poll_ready ops l =
     (case l of
        Lent None \<Rightarrow> Some (l, Pending)
      | Lent (Some w) \<Rightarrow> lending_drain ops w
      | Drain w \<Rightarrow> lending_drain ops w
      | Available _ \<Rightarrow> Some (l, Ready (Inr ())))"

section \<open>The parser\<close>

record 'r NarParser =
  plend :: "('r, 'r PaddedReader) Lending"
  pname :: "bytes option"
  pinner :: Inner

definition parser_new :: "'r \<Rightarrow> 'r NarParser" where
  "parser_new reader = \<lparr>plend = Available reader, pname = None, pinner = inner_new\<rparr>"

definition name_of :: "bytes option \<Rightarrow> bytes" where
  "name_of nm = (case nm of None \<Rightarrow> [] | Some n \<Rightarrow> n)"

type_synonym 'r parsed = "('r NarParser \<times> 'r PaddedReader NarEvent io_result option poll) option"

text \<open>A symlink target or an entry name: the buffer is forced to hold it with its padding, then
  it is split off; \<open>None\<close> also where the split would be out of bounds.\<close>

definition take_string ::
  "'r BytesRead \<Rightarrow> u64 \<Rightarrow> u64 \<Rightarrow> 'r \<Rightarrow> bytes \<Rightarrow> ('r, bytes) polled" where
  "take_string ops len aligned r buf =
     (case force_until (op_force ops) (unat aligned) r buf of
        None \<Rightarrow> None
      | Some (r', Pending) \<Rightarrow> Some (r', Pending)
      | Some (r', Ready (Inl e)) \<Rightarrow> Some (r', Ready (Inl e))
      | Some (r', Ready (Inr buf')) \<Rightarrow>
          if unat len \<le> length buf' \<and> unat len \<le> unat aligned \<and> unat aligned \<le> length buf' then
            (case op_consume ops r' (unat aligned) of
               None \<Rightarrow> None
             | Some r'' \<Rightarrow> Some (r'', Ready (Inr (take (unat len) buf'))))
          else None)"

definition bumped :: "'r NarParser \<Rightarrow> 'r NarParser option" where
  "bumped np = map_option (\<lambda>s. np\<lparr>pinner := s\<rparr>) (bump_next False (pinner np))"

partial_function (option) parser_loop :: "'r BytesRead \<Rightarrow> 'r NarParser \<Rightarrow> 'r \<Rightarrow> 'r parsed" where
  "parser_loop ops np r =
     Option.bind (op_fill ops r) (\<lambda>(r1, res). case res of
         Pending \<Rightarrow> Some (np\<lparr>plend := Available r1\<rparr>, Pending)
       | Ready x \<Rightarrow> (case x of
           Inl e \<Rightarrow> Some (np\<lparr>plend := Available r1\<rparr>, Ready (Some (Inl e)))
         | Inr buf \<Rightarrow>
             if buf = [] then
               Some (np\<lparr>plend := Available r1\<rparr>, Ready (Some (Inl (IoError UnexpectedEof ''EOF while reading NAR''))))
             else Option.bind (drive False (pinner np) buf 0) (\<lambda>(s, dres). case dres of
                 Inl e \<Rightarrow> Some (np\<lparr>plend := Available r1, pinner := s\<rparr>, Ready (Some (Inl e)))
               | Inr cnt \<Rightarrow>
                   Option.bind (op_consume ops r1 cnt) (\<lambda>r2.
                     let np1 = np\<lparr>plend := Available r2, pinner := s\<rparr> in
                     case state s of
                       ReadContents node_type sz aligned \<Rightarrow>
                         if node_type = NSymlink then
                           Option.bind (take_string ops sz aligned r2 (drop cnt buf)) (\<lambda>(r3, tres). case tres of
                               Pending \<Rightarrow> Some (np1\<lparr>plend := Available r3\<rparr>, Pending)
                             | Ready y \<Rightarrow> (case y of
                                 Inl e \<Rightarrow> Some (np1\<lparr>plend := Available r3\<rparr>, Ready (Some (Inl e)))
                               | Inr target \<Rightarrow>
                                   Option.bind (bumped (np1\<lparr>plend := Available r3, pname := None\<rparr>)) (\<lambda>np2.
                                     Some (np2, Ready (Some (Inr (Symlink (name_of (pname np)) target)))))))
                         else
                           Some (np1\<lparr>plend := Lent None, pname := None\<rparr>,
                             Ready (Some (Inr (File (name_of (pname np)) (node_type = NExecutableFile) sz
                                                 (padded_new r2 sz)))))
                     | ReadEntryName len aligned \<Rightarrow>
                         Option.bind (take_string ops len aligned r2 (drop cnt buf)) (\<lambda>(r3, tres). case tres of
                             Pending \<Rightarrow> Some (np1\<lparr>plend := Available r3\<rparr>, Pending)
                           | Ready y \<Rightarrow> (case y of
                               Inl e \<Rightarrow> Some (np1\<lparr>plend := Available r3\<rparr>, Ready (Some (Inl e)))
                             | Inr name \<Rightarrow>
                                 Option.bind (bumped (np1\<lparr>plend := Available r3, pname := Some name\<rparr>)) (\<lambda>np2.
                                   parser_loop ops np2 r3)))
                     | ReadDir \<Rightarrow>
                         Some (np1\<lparr>pname := None\<rparr>, Ready (Some (Inr (StartDirectory (name_of (pname np))))))
                     | FinishReadEntry \<Rightarrow> Some (np1, Ready (Some (Inr EndDirectory)))
                     | Eof \<Rightarrow> Some (np1, Ready None)
                     | _ \<Rightarrow> parser_loop ops np1 r2))))"

definition poll_next :: "'r BytesRead \<Rightarrow> 'r NarParser \<Rightarrow> 'r parsed" where
  "poll_next ops np =
     (case lending_poll_ready ops (plend np) of
        None \<Rightarrow> None
      | Some (l, Pending) \<Rightarrow> Some (np\<lparr>plend := l\<rparr>, Pending)
      | Some (l, Ready (Inl e)) \<Rightarrow> Some (np\<lparr>plend := l\<rparr>, Ready (Some (Inl e)))
      | Some (l, Ready (Inr _)) \<Rightarrow>
          (case l of
             Available r \<Rightarrow>
               (let np1 = np\<lparr>plend := l\<rparr>;
                    resume = (\<lambda>stop_at_eof.
                      case bumped np1 of
                        None \<Rightarrow> None
                      | Some np2 \<Rightarrow>
                          if stop_at_eof \<and> is_eof (pinner np2) then Some (np2, Ready None)
                          else parser_loop ops np2 r)
                in case state (pinner np1) of
                     ReadContents node_type _ _ \<Rightarrow>
                       if node_type = NSymlink then parser_loop ops np1 r else resume False
                   | ReadDir \<Rightarrow> resume False
                   | FinishReadEntry \<Rightarrow> resume True
                   | Eof \<Rightarrow> Some (np1, Ready None)
                   | _ \<Rightarrow> parser_loop ops np1 r)
           | _ \<Rightarrow> None))"

section \<open>The events of an archive\<close>

type_synonym event = "bytes NarEvent"

text \<open>The specification: what a client is to see of an archive, files with their contents.\<close>

fun nar_events :: "bytes \<Rightarrow> nar \<Rightarrow> event list" where
  "nar_events name (NarFile x c) = [File name x (word_of_nat (length c)) c]"
| "nar_events name (NarSymlink t) = [Symlink name t]"
| "nar_events name (NarDirectory es) =
     StartDirectory name # concat (map (\<lambda>(n, t). nar_events n t) es) @ [EndDirectory]"

text \<open>
  \<open>acts T s nm R evs\<close>: the recogniser has stopped in state \<open>s\<close>, \<open>nm\<close> is the name that was read, and the
  stream \<open>R\<close> carries the events \<open>evs\<close> and then \<open>T\<close>. Each rule is one stop and what the parser does
  there, up to the next stop. \<open>feeds\<close> is the same before the stop.
\<close>

definition stop_at :: "Inner \<Rightarrow> bytes \<Rightarrow> Inner \<Rightarrow> bytes \<Rightarrow> bool" where
  "stop_at s R s' R' \<longleftrightarrow>
     (\<exists>n. drive False s R 0 = Some (s', Inr n) \<and> n \<le> length R \<and> R' = drop n R \<and> stops False s')"

inductive acts :: "bytes \<Rightarrow> Inner \<Rightarrow> bytes option \<Rightarrow> bytes \<Rightarrow> event list \<Rightarrow> bool" for T where
  a_eof: "state s = Eof \<Longrightarrow> acts T s nm T []"
| a_file: "state s = ReadContents ty (word_of_nat (length c)) al \<Longrightarrow> ty \<noteq> NSymlink \<Longrightarrow> fits c \<Longrightarrow>
     stop_at (s\<lparr>state := FinishNode 0\<rparr>) R s' R' \<Longrightarrow> acts T s' None R' evs \<Longrightarrow>
     acts T s nm (padded c @ R) (File (name_of nm) (ty = NExecutableFile) (word_of_nat (length c)) c # evs)"
| a_symlink: "state s = ReadContents NSymlink (word_of_nat (length c)) (calc_aligned (word_of_nat (length c))) \<Longrightarrow>
     fits c \<Longrightarrow> stop_at (s\<lparr>state := FinishNode 0\<rparr>) R s' R' \<Longrightarrow> acts T s' None R' evs \<Longrightarrow>
     acts T s nm (padded c @ R) (Symlink (name_of nm) c # evs)"
| a_name: "state s = ReadEntryName (word_of_nat (length c)) (calc_aligned (word_of_nat (length c))) \<Longrightarrow>
     fits c \<Longrightarrow> stop_at (s\<lparr>state := ReadNode 0\<rparr>) R s' R' \<Longrightarrow> acts T s' (Some c) R' evs \<Longrightarrow>
     acts T s nm (padded c @ R) evs"
| a_dir: "state s = ReadDir \<Longrightarrow> stop_at (s\<lparr>state := ReadEntries (Node 0)\<rparr>) R s' R' \<Longrightarrow> acts T s' None R' evs \<Longrightarrow>
     acts T s nm R (StartDirectory (name_of nm) # evs)"
| a_finish: "state s = FinishReadEntry \<Longrightarrow> bump_state s = Some s2 \<Longrightarrow> stop_at s2 R s' R' \<Longrightarrow>
     acts T s' nm R' evs \<Longrightarrow> acts T s nm R (EndDirectory # evs)"

definition feeds :: "bytes \<Rightarrow> Inner \<Rightarrow> bytes option \<Rightarrow> bytes \<Rightarrow> event list \<Rightarrow> bool" where
  "feeds T s nm R evs \<longleftrightarrow> (\<exists>s' R'. stop_at s R s' R' \<and> acts T s' nm R' evs)"

lemma feedsI: "stop_at s R s' R' \<Longrightarrow> acts T s' nm R' evs \<Longrightarrow> feeds T s nm R evs"
  by (auto simp: feeds_def)

lemma acts_file: "state s = ReadContents ty (word_of_nat (length c)) al \<Longrightarrow> ty \<noteq> NSymlink \<Longrightarrow> fits c \<Longrightarrow>
     feeds T (s\<lparr>state := FinishNode 0\<rparr>) None R evs \<Longrightarrow>
     acts T s nm (padded c @ R) (File (name_of nm) (ty = NExecutableFile) (word_of_nat (length c)) c # evs)"
  by (auto simp: feeds_def intro: a_file)

lemma acts_symlink: "state s = ReadContents NSymlink (word_of_nat (length c)) (calc_aligned (word_of_nat (length c))) \<Longrightarrow>
     fits c \<Longrightarrow> feeds T (s\<lparr>state := FinishNode 0\<rparr>) None R evs \<Longrightarrow>
     acts T s nm (padded c @ R) (Symlink (name_of nm) c # evs)"
  by (auto simp: feeds_def intro: a_symlink)

lemma acts_name: "state s = ReadEntryName (word_of_nat (length c)) (calc_aligned (word_of_nat (length c))) \<Longrightarrow>
     fits c \<Longrightarrow> feeds T (s\<lparr>state := ReadNode 0\<rparr>) (Some c) R evs \<Longrightarrow> acts T s nm (padded c @ R) evs"
  by (auto simp: feeds_def intro: a_name)

lemma acts_dir: "state s = ReadDir \<Longrightarrow> feeds T (s\<lparr>state := ReadEntries (Node 0)\<rparr>) None R evs \<Longrightarrow>
     acts T s nm R (StartDirectory (name_of nm) # evs)"
  by (auto simp: feeds_def intro: a_dir)

lemma acts_finish: "state s = FinishReadEntry \<Longrightarrow> bump_state s = Some s2 \<Longrightarrow> feeds T s2 nm R evs \<Longrightarrow>
     acts T s nm R (EndDirectory # evs)"
  by (auto simp: feeds_def intro: a_finish)

text \<open>An archive carries its events.\<close>

lemma stop_atI: "drive False s (a @ b) 0 = Some (s', Inr (length a)) \<Longrightarrow> stops False s' \<Longrightarrow> stop_at s (a @ b) s' b"
  by (auto simp: stop_at_def)

lemma stop_at_step:
  assumes "\<And>p. drive False s (a @ b) p = drive False s1 b (p + length a)" and "stop_at s1 b s' R'"
  shows "stop_at s (a @ b) s' R'"
proof -
  from assms(2) obtain n where n: "drive False s1 b 0 = Some (s', Inr n)" "n \<le> length b" "R' = drop n b" "stops False s'"
    by (auto simp: stop_at_def)
  have "drive False s (a @ b) 0 = Some (s', Inr (length a + n))"
    using assms(1) [of 0] drive_shift [of False s1 b "length a" 0] n(1) by simp
  with n show ?thesis by (auto simp: stop_at_def)
qed

lemma stop_at_here:
  "stops False \<lparr>state = st, level = l\<rparr> \<Longrightarrow>
     stop_at \<lparr>state = st, level = l\<rparr> R \<lparr>state = st, level = if st = ReadDir then Suc l else l\<rparr> R"
  by (auto simp: stop_at_def drive_stops stops_def)

lemma feeds_step:
  assumes "\<And>p. drive False s (a @ b) p = drive False s1 b (p + length a)" and "feeds T s1 nm b evs"
  shows "feeds T s nm (a @ b) evs"
  using assms(2) by (auto simp: feeds_def intro: stop_at_step [OF assms(1)])

lemma feeds_contents:
  assumes "fits c" "ty \<noteq> NSymlink"
    and "feeds T \<lparr>state = FinishNode 0, level = l\<rparr> None R evs"
  shows "feeds T \<lparr>state = ReadContentsLen ty ZEROS 0, level = l\<rparr> nm (nix_slice c @ R)
    (File (name_of nm) (ty = NExecutableFile) (word_of_nat (length c)) c # evs)"
  unfolding nix_slice_padded append_assoc
  by (rule feeds_step [where ?s1.0 = "\<lparr>state = ReadContents ty (word_of_nat (length c)) (calc_aligned (word_of_nat (length c))), level = l\<rparr>"])
    (use assms in \<open>auto simp: drive_simps stops_def intro!: feedsI [OF stop_at_here] acts_file\<close>)

lemma feeds_target:
  assumes "fits c" and "feeds T \<lparr>state = FinishNode 0, level = l\<rparr> None R evs"
  shows "feeds T \<lparr>state = ReadContentsLen NSymlink ZEROS 0, level = l\<rparr> nm (nix_slice c @ R)
    (Symlink (name_of nm) c # evs)"
  unfolding nix_slice_padded append_assoc
  by (rule feeds_step [where ?s1.0 = "\<lparr>state = ReadContents NSymlink (word_of_nat (length c)) (calc_aligned (word_of_nat (length c))), level = l\<rparr>"])
    (use assms in \<open>auto simp: drive_simps stops_def intro!: feedsI [OF stop_at_here] acts_symlink\<close>)

lemma feeds_entry_name:
  assumes "fits c" and "feeds T \<lparr>state = ReadNode 0, level = l\<rparr> (Some c) R evs"
  shows "feeds T \<lparr>state = ReadEntryNameLen ZEROS 0, level = l\<rparr> nm (nix_slice c @ R) evs"
  unfolding nix_slice_padded append_assoc
proof (rule feeds_step [where ?s1.0 = "\<lparr>state = ReadEntryName (word_of_nat (length c)) (calc_aligned (word_of_nat (length c))), level = l\<rparr>"])
  show "feeds T \<lparr>state = ReadEntryName (word_of_nat (length c)) (calc_aligned (word_of_nat (length c))), level = l\<rparr> nm
      (padded c @ R) evs"
    by (rule feedsI [OF stop_at_here acts_name]) (use assms in \<open>auto simp: stops_def\<close>)
qed (simp add: drive_simps)

text \<open>A token moves the state on.\<close>

lemma feeds_tokens:
  "feeds T \<lparr>state = SelectNode (Node 0), level = l\<rparr> nm R evs \<Longrightarrow> feeds T \<lparr>state = Root 0, level = l\<rparr> nm (TOK_ROOT @ R) evs"
  "feeds T \<lparr>state = SelectNode (Node 0), level = l\<rparr> nm R evs \<Longrightarrow> feeds T \<lparr>state = ReadNode 0, level = l\<rparr> nm (TOK_NODE @ R) evs"
  "feeds T \<lparr>state = if 0 < l then FinishEntry 0 else Eof, level = l\<rparr> nm R evs \<Longrightarrow> feeds T \<lparr>state = FinishNode 0, level = l\<rparr> nm (TOK_PAR @ R) evs"
  "feeds T \<lparr>state = ReadEntries (Node 0), level = l\<rparr> nm R evs \<Longrightarrow> feeds T \<lparr>state = FinishEntry 0, level = l\<rparr> nm (TOK_PAR @ R) evs"
  "feeds T \<lparr>state = ReadContentsLen NFile ZEROS 0, level = l\<rparr> nm R evs \<Longrightarrow> feeds T \<lparr>state = SelectNode (Node 0), level = l\<rparr> nm (TOK_FILE @ R) evs"
  "feeds T \<lparr>state = ReadContentsLen NExecutableFile ZEROS 0, level = l\<rparr> nm R evs \<Longrightarrow> feeds T \<lparr>state = SelectNode (Node 0), level = l\<rparr> nm (TOK_FILE_E @ R) evs"
  "feeds T \<lparr>state = ReadContentsLen NSymlink ZEROS 0, level = l\<rparr> nm R evs \<Longrightarrow> feeds T \<lparr>state = SelectNode (Node 0), level = l\<rparr> nm (TOK_SYM @ R) evs"
  "feeds T \<lparr>state = ReadDir, level = l\<rparr> nm R evs \<Longrightarrow> feeds T \<lparr>state = SelectNode (Node 0), level = l\<rparr> nm (TOK_DIR @ R) evs"
  "feeds T \<lparr>state = ReadEntryNameLen ZEROS 0, level = l\<rparr> nm R evs \<Longrightarrow> feeds T \<lparr>state = ReadEntries (Node 0), level = l\<rparr> nm (TOK_ENTRY @ R) evs"
  "feeds T \<lparr>state = FinishReadEntry, level = l\<rparr> nm R evs \<Longrightarrow> feeds T \<lparr>state = ReadEntries (Node 0), level = l\<rparr> nm (TOK_PAR @ R) evs"
  by (erule feeds_step [rotated]; simp add: drive_simps)+

lemma feeds_entries:
  assumes node: "\<And>t n R evs. t \<in> snd ` set es \<Longrightarrow> feeds T \<lparr>state = FinishEntry 0, level = Suc l\<rparr> None R evs \<Longrightarrow>
      feeds T \<lparr>state = SelectNode (Node 0), level = Suc l\<rparr> (Some n) (nar_node t @ R) (nar_events n t @ evs)"
    and "\<forall>e \<in> set es. fits (fst e)"
    and "feeds T \<lparr>state = ReadEntries (Node 0), level = Suc l\<rparr> None R evs"
  shows "feeds T \<lparr>state = ReadEntries (Node 0), level = Suc l\<rparr> None (concat (map nar_entry es) @ R)
    (concat (map (\<lambda>(n, t). nar_events n t) es) @ evs)"
  using assms
proof (induction es)
  case Nil
  then show ?case by simp
next
  case (Cons e es)
  have "feeds T \<lparr>state = ReadEntries (Node 0), level = Suc l\<rparr> None (concat (map nar_entry es) @ R)
    (concat (map (\<lambda>(n, t). nar_events n t) es) @ evs)"
    by (rule Cons.IH) (use Cons.prems in auto)
  from feeds_tokens(4) [OF this]
  have "feeds T \<lparr>state = SelectNode (Node 0), level = Suc l\<rparr> (Some (fst e))
      (nar_node (snd e) @ TOK_PAR @ concat (map nar_entry es) @ R)
      (nar_events (fst e) (snd e) @ concat (map (\<lambda>(n, t). nar_events n t) es) @ evs)"
    by (intro Cons.prems(1)) auto
  from feeds_tokens(9) [OF feeds_entry_name [OF _ feeds_tokens(2) [OF this]]] Cons.prems(2)
  show ?case by (simp add: nar_entry_def [of e] split_def)
qed

lemma feeds_node:
  "nar_fits t \<Longrightarrow> feeds T (after_node l t) None R evs \<Longrightarrow>
     feeds T \<lparr>state = SelectNode (Node 0), level = l\<rparr> nm (nar_node t @ R) (nar_events (name_of nm) t @ evs)"
proof (induction t arbitrary: l nm R evs)
  case (NarFile x c)
  have "feeds T \<lparr>state = FinishNode 0, level = l\<rparr> None (TOK_PAR @ R) evs"
    using NarFile.prems(2) by (intro feeds_tokens) (simp add: after_node_def split: if_splits)
  with NarFile.prems(1) show ?case
    unfolding nar_node_tokens
    by (auto intro!: feeds_tokens
        feeds_contents [where ty = NExecutableFile, simplified] feeds_contents [where ty = NFile, simplified])
next
  case (NarSymlink c)
  have "feeds T \<lparr>state = FinishNode 0, level = l\<rparr> None (TOK_PAR @ R) evs"
    using NarSymlink.prems(2) by (intro feeds_tokens) (simp add: after_node_def split: if_splits)
  with NarSymlink.prems(1) show ?case
    unfolding nar_node_tokens by (auto intro!: feeds_tokens feeds_target)
next
  case (NarDirectory es)
  have fits: "\<forall>e \<in> set es. fits (fst e)" and sub: "\<forall>e \<in> set es. nar_fits (snd e)"
    using NarDirectory.prems(1) by (auto simp: nar_fits_Directory simp del: nar_fits.simps)
  have node: "feeds T \<lparr>state = SelectNode (Node 0), level = Suc l\<rparr> (Some n) (nar_node t @ R') (nar_events n t @ evs')"
    if "t \<in> snd ` set es" "feeds T \<lparr>state = FinishEntry 0, level = Suc l\<rparr> None R' evs'" for t n R' evs'
  proof -
    from that(1) obtain e where e: "e \<in> set es" "t = snd e" by auto
    have "feeds T (after_node (Suc l) t) None R' evs'" using that(2) by (simp add: after_node_def)
    with NarDirectory.IH [OF e(1), of t "Suc l" R' evs' "Some n"] e sub show ?thesis
      by (auto simp: name_of_def snds.simps)
  qed
  have "feeds T \<lparr>state = FinishReadEntry, level = Suc l\<rparr> None R (EndDirectory # evs)"
    by (rule feedsI [OF stop_at_here acts_finish]) (use NarDirectory.prems(2) in
        \<open>auto simp: stops_def bump_state_def after_node_def split: if_splits\<close>)
  from feeds_tokens(10) [OF this]
  have "feeds T \<lparr>state = ReadEntries (Node 0), level = Suc l\<rparr> None (TOK_PAR @ R) (EndDirectory # evs)" .
  from feeds_entries [OF node fits this]
  have "feeds T \<lparr>state = ReadDir, level = l\<rparr> nm (concat (map nar_entry es) @ TOK_PAR @ R)
     (StartDirectory (name_of nm) # concat (map (\<lambda>(n, t). nar_events n t) es) @ EndDirectory # evs)"
    by (intro feedsI [OF stop_at_here acts_dir]) (auto simp: stops_def)
  from feeds_tokens(8) [OF this] show ?case unfolding nar_node_tokens by simp
qed

lemma feeds_nar:
  assumes "nar_fits t"
  shows "feeds T inner_new None (nar_bytes t @ T) (nar_events [] t)"
proof -
  have "feeds T (after_node 0 t) None T []"
    using stop_at_here [of Eof "if is_directory t then 1 else 0" T]
    by (intro feedsI) (auto simp: after_node_def stops_def intro: a_eof)
  from feeds_tokens(1) [OF feeds_node [OF assms this, of None]] show ?thesis
    by (simp add: nar_bytes_tokens inner_new_def name_of_def)
qed

section \<open>Pieces of an archive\<close>

definition waiting :: "Inner \<Rightarrow> bool" where
  "waiting s \<longleftrightarrow> len_ok s \<and> \<not> stops False s \<and> drive False s [] 0 = Some (s, Inr 0)"

lemma drive_waiting:
  assumes ok: "len_ok s" and d: "drive False s a 0 = Some (s', Inr k)" and ns: "\<not> stops False s'"
  shows "waiting s'"
proof -
  from drive_append [OF ok, of False a "[]" 0] d ns
  have "outcome (drive False s' [] (k + 0)) = Some (Inr (s', k))" by simp
  then have "drive False s' [] 0 = Some (s', Inr 0)" unfolding drive_shift
    by (cases "drive False s' [] 0") (auto simp: outcome_def)
  with drive_used [OF ok d] ns show ?thesis by (simp add: waiting_def)
qed

lemma waiting_break: "len_ok s \<Longrightarrow> \<not> stops False s \<Longrightarrow> drive_iter False s [] = Break s 0 \<Longrightarrow> waiting s"
  by (simp add: waiting_def drive.simps [of False s])

lemma waiting_fresh:
  "waiting \<lparr>state = Root 0, level = l\<rparr>" "waiting \<lparr>state = FinishNode 0, level = l\<rparr>"
  "waiting \<lparr>state = FinishEntry 0, level = l\<rparr>" "waiting \<lparr>state = ReadNode 0, level = l\<rparr>"
  "waiting \<lparr>state = ReadEntries (Node 0), level = l\<rparr>"
  by (rule waiting_break; simp add: len_ok_def stops_def drive_iter_def read_token_def select_token_def Let_def
      lookup.simps ENTRY_SELECT_nodes)+

lemma stop_at_prefix:
  assumes ok: "len_ok s" and st: "stop_at s (a @ b) s2 R2"
  shows "\<exists>s1 k. drive False s a 0 = Some (s1, Inr k) \<and> k \<le> length a \<and> len_ok s1 \<and>
    (s1 = s2 \<and> stops False s1 \<and> R2 = drop k a @ b \<or>
     waiting s1 \<and> k = length a \<and> stop_at s1 b s2 R2)"
proof -
  from st obtain n where d: "drive False s (a @ b) 0 = Some (s2, Inr n)" and n: "n \<le> length (a @ b)"
    and R2: "R2 = drop n (a @ b)" and stop: "stops False s2" by (auto simp: stop_at_def)
  have o: "outcome (drive False s (a @ b) 0) = Some (Inr (s2, n))" by (simp add: d)
  obtain s1 k where a: "drive False s a 0 = Some (s1, Inr k)"
    and r: "(if stops False s1 then Some (Inr (s1, k)) else outcome (drive False s1 b k)) = Some (Inr (s2, n))"
  proof (cases "drive False s a 0")
    case None
    with o drive_append [OF ok, of False a b 0] show thesis by simp
  next
    case (Some x)
    with o drive_append [OF ok, of False a b 0] that show thesis
      by (cases x; cases "snd x") auto
  qed
  note u = drive_used [OF ok a]
  show ?thesis
  proof (cases "stops False s1")
    case True
    with r u a R2 show ?thesis by auto
  next
    case False
    with u have k: "k = length a" by simp
    from False r k have "outcome (drive False s1 b (length a + 0)) = Some (Inr (s2, n))" by simp
    then obtain m where m: "drive False s1 b 0 = Some (s2, Inr m)" "n = length a + m"
      unfolding drive_shift by (cases "drive False s1 b 0") (auto simp: outcome_def)
    then have "stop_at s1 b s2 R2" using n R2 stop by (auto simp: stop_at_def)
    with u a k drive_waiting [OF ok a False] show ?thesis by auto
  qed
qed

lemma feeds_prefix:
  assumes "len_ok s" "feeds T s nm (a @ b) evs"
  shows "\<exists>s1 k. drive False s a 0 = Some (s1, Inr k) \<and> k \<le> length a \<and>
    (stops False s1 \<and> acts T s1 nm (drop k a @ b) evs \<or> waiting s1 \<and> k = length a \<and> feeds T s1 nm b evs)"
  using assms(2) stop_at_prefix [OF assms(1)] by (fastforce simp: feeds_def)

text \<open>The loop comes to an end: a stop never raises the measure by which \<open>drive\<close> ends.\<close>

lemma rank_le: "rank s \<le> 5"
  by (cases s) auto

lemma drive_rank:
  "len_ok s \<Longrightarrow> drive P s a p = Some (s', Inr n) \<Longrightarrow> stops P s' \<Longrightarrow>
     6 * (length a - (n - p)) + rank (state s') \<le> 6 * length a + rank (state s)"
proof (induction P s a p rule: drive.induct)
  case (1 P s a p)
  show ?case
  proof (cases "drive_iter P s a")
    case (Continue s1 k)
    then have d: "drive P s1 (drop k a) (p + k) = Some (s', Inr n)"
      using 1(3) by (simp add: drive.simps [of P s])
    note c = drive_iter_Continue [OF Continue]
    note u = drive_used [OF drive_iter_len_ok [OF Continue] d]
    from 1(1) [OF Continue drive_iter_len_ok [OF Continue] d 1(4)] c u show ?thesis by auto
  next
    case (Break s1 k)
    then have s': "s' = s1" "n = p + k" using 1(3) by (auto simp: drive.simps [of P s])
    have "stops P s" using drive_iter_keeps [OF Break _ 1(2)] 1(4) s' by blast
    with Break s' show ?thesis by (auto simp: drive_iter_stops split: if_splits)
  qed (use 1(3) in \<open>auto simp: drive.simps [of P s]\<close>)
qed

section \<open>The simulation\<close>

definition halfway :: "Inner \<Rightarrow> bool" where
  "halfway s \<longleftrightarrow> (\<exists>len al. state s = ReadEntryName len al \<or> state s = ReadContents NSymlink len al)"

text \<open>The parser can go on reading: inside a token, or before a string that has not all arrived.\<close>

definition parse_ready :: "bytes \<Rightarrow> Inner \<Rightarrow> bytes option \<Rightarrow> bytes \<Rightarrow> event list \<Rightarrow> bool" where
  "parse_ready T s nm R evs \<longleftrightarrow>
     waiting s \<and> feeds T s nm R evs \<or> halfway s \<and> R \<noteq> [] \<and> acts T s nm R evs"

lemma parse_ready_not_Nil: "parse_ready T s nm R evs \<Longrightarrow> R \<noteq> []"
  by (auto simp: parse_ready_def waiting_def feeds_def stop_at_def)

lemma parse_ready_drive:
  assumes "parse_ready T s nm (a @ b) evs"
  shows "\<exists>s1 k. drive False s a 0 = Some (s1, Inr k) \<and> k \<le> length a \<and>
    (stops False s1 \<and> acts T s1 nm (drop k a @ b) evs \<and>
       6 * (length a - k) + rank (state s1) \<le> 6 * length a + rank (state s) \<or>
     waiting s1 \<and> k = length a \<and> feeds T s1 nm b evs)"
proof (cases "waiting s \<and> feeds T s nm (a @ b) evs")
  case True
  then have ok: "len_ok s" by (simp add: waiting_def)
  from feeds_prefix [OF ok] True drive_rank [OF ok, of False a 0] show ?thesis by fastforce
next
  case False
  with assms have h: "halfway s" "acts T s nm (a @ b) evs" by (auto simp: parse_ready_def)
  then have "stops False s" by (auto simp: halfway_def stops_def)
  with h show ?thesis by (auto simp: drive_stops halfway_def)
qed

text \<open>The state of the parser between two polls, and what a poll leads to.\<close>

definition parser_at ::
  "('r \<Rightarrow> bytes) \<Rightarrow> ('r \<Rightarrow> bool) \<Rightarrow> bytes \<Rightarrow> 'r NarParser \<Rightarrow> event list \<Rightarrow> bool" where
  "parser_at rest good T np evs \<longleftrightarrow>
     (case plend np of
        Available r \<Rightarrow> good r \<and>
          (parse_ready T (pinner np) (pname np) (rest r) evs \<or>
           is_eof (pinner np) \<and> evs = [] \<and> rest r = T \<or>
           (state (pinner np) = ReadDir \<or> state (pinner np) = FinishReadEntry) \<and>
           (\<exists>s2. bump_state (pinner np) = Some s2 \<and>
              (state (pinner np) = FinishReadEntry \<and> is_eof s2 \<and> evs = [] \<and> rest r = T \<or>
               parse_ready T s2 (pname np) (rest r) evs)))
      | Lent None \<Rightarrow> False
      | Lent (Some w) \<Rightarrow> padded_good rest good w \<and>
          (\<exists>ty sz al. state (pinner np) = ReadContents ty sz al \<and> ty \<noteq> NSymlink) \<and>
          parse_ready T (pinner np\<lparr>state := FinishNode 0\<rparr>) (pname np) (padded_tail rest w) evs
      | Drain w \<Rightarrow> padded_good rest good w \<and>
          (\<exists>ty sz al. state (pinner np) = ReadContents ty sz al \<and> ty \<noteq> NSymlink) \<and>
          parse_ready T (pinner np\<lparr>state := FinishNode 0\<rparr>) (pname np) (padded_tail rest w) evs)"

fun event_post ::
  "('r \<Rightarrow> bytes) \<Rightarrow> ('r \<Rightarrow> bool) \<Rightarrow> bytes \<Rightarrow> 'r NarParser \<Rightarrow> 'r PaddedReader NarEvent \<Rightarrow> event \<Rightarrow> event list \<Rightarrow> bool" where
  "event_post rest good T np (File n x sz w) a evs \<longleftrightarrow>
     a = File n x sz (padded_rest rest w) \<and> padded_good rest good w \<and> plend np = Lent None \<and>
     (\<forall>w'. padded_good rest good w' \<longrightarrow> padded_tail rest w' = padded_tail rest w \<longrightarrow>
        parser_at rest good T (np\<lparr>plend := Lent (Some w')\<rparr>) evs)"
| "event_post rest good T np (Symlink n t) a evs \<longleftrightarrow> a = Symlink n t \<and> parser_at rest good T np evs"
| "event_post rest good T np (StartDirectory n) a evs \<longleftrightarrow> a = StartDirectory n \<and> parser_at rest good T np evs"
| "event_post rest good T np EndDirectory a evs \<longleftrightarrow> a = EndDirectory \<and> parser_at rest good T np evs"

fun poll_post ::
  "('r \<Rightarrow> bytes) \<Rightarrow> ('r \<Rightarrow> bool) \<Rightarrow> (io_error \<Rightarrow> bool) \<Rightarrow> bytes \<Rightarrow> event list \<Rightarrow> 'r NarParser \<Rightarrow>
     'r PaddedReader NarEvent io_result option poll \<Rightarrow> bool" where
  "poll_post rest good src_err T evs np Pending \<longleftrightarrow> parser_at rest good T np evs"
| "poll_post rest good src_err T evs np (Ready None) \<longleftrightarrow>
     evs = [] \<and> (\<exists>r. plend np = Available r \<and> good r \<and> rest r = T)"
| "poll_post rest good src_err T evs np (Ready (Some (Inl e))) \<longleftrightarrow> src_err e"
| "poll_post rest good src_err T evs np (Ready (Some (Inr ev))) \<longleftrightarrow>
     (\<exists>a evs'. evs = a # evs' \<and> event_post rest good T np ev a evs')"

lemma feeds_ready: "feeds T \<lparr>state = st, level = l\<rparr> nm R evs \<Longrightarrow> waiting \<lparr>state = st, level = l\<rparr> \<Longrightarrow>
    parse_ready T \<lparr>state = st, level = l\<rparr> nm R evs"
  by (simp add: parse_ready_def)

lemma inner_state_update: "(s :: Inner)\<lparr>state := st\<rparr> = \<lparr>state = st, level = level s\<rparr>"
  by (cases s) simp

context bytes_read
begin

lemma consume_avail:
  assumes "good r" "n \<le> length (avail r)"
  shows "\<exists>r'. op_consume ops r n = Some r' \<and> good r' \<and> rest r' = drop n (rest r) \<and> avail r' = drop n (avail r)"
proof -
  obtain r' where r': "op_consume ops r n = Some r'" "good r'" "rest r' = drop n (rest r)"
    "length (avail r') = length (avail r) - n" using consume_law [OF assms] by blast
  obtain z z' where "rest r = avail r @ z" "rest r' = avail r' @ z'"
    using avail_prefix [OF assms(1)] avail_prefix [OF r'(2)] by (auto simp: prefix_def)
  with r'(3,4) assms(2) have "avail r' @ z' = drop n (avail r) @ z" "length (avail r') = length (drop n (avail r))"
    by auto
  then have "avail r' = drop n (avail r)" by auto
  with r' show ?thesis by blast
qed

lemma take_string_spec:
  assumes g: "good r" and fits: "fits c" and R: "rest r = padded c @ R"
  shows "\<exists>r' res. take_string ops (word_of_nat (length c)) (calc_aligned (word_of_nat (length c))) r (avail r) = Some (r', res) \<and>
    (case res of Pending \<Rightarrow> good r' \<and> rest r' = rest r \<and> padded c \<noteq> []
     | Ready (Inl e) \<Rightarrow> src_err e
     | Ready (Inr t) \<Rightarrow> t = c \<and> good r' \<and> rest r' = R)"
proof -
  let ?w = "word_of_nat (length c) :: u64"
  have n: "unat (calc_aligned ?w) = length (padded c)" "unat ?w = length c"
    using length_padded [OF fits] unat_length_fits [OF fits] by auto
  have le: "length c \<le> length (padded c)" by (simp add: padded_def)
  from g refl show ?thesis
  proof (cases rule: force_until_cases [where n = "length (padded c)"])
    case (pending r')
    have "padded c \<noteq> []"
    proof
      assume "padded c = []"
      then have "force_until (op_force ops) (length (padded c)) r (avail r) = Some (r, Ready (Inr (avail r)))"
        by (simp add: force_until.simps)
      with pending(1) show False by simp
    qed
    with pending show ?thesis by (simp add: take_string_def n)
  next
    case (failed r' e)
    with R show ?thesis by (auto simp: take_string_def n)
  next
    case (filled r')
    obtain r'' where r'': "op_consume ops r' (length (padded c)) = Some r''" "good r''" "rest r'' = R"
      using consume_law [OF filled(2,4)] filled(3) R by auto
    have "take (length c) (avail r') = c"
    proof -
      have "take (length c) (avail r') = take (length c) (take (length (padded c)) (avail r'))"
        using le by (simp add: min_def)
      also have "\<dots> = take (length c) (padded c)" using filled(5) R by simp
      finally show ?thesis by (simp add: padded_def)
    qed
    with filled(1,4) r'' le show ?thesis by (simp add: take_string_def n)
  qed
qed

text \<open>One round of the loop up to the stop, with the source and the buffer it leaves.\<close>

lemma parser_loop_round:
  assumes "op_fill ops r = Some (r1, Ready (Inr buf))" "buf \<noteq> []"
    and "drive False (pinner np) buf 0 = Some (s, Inr cnt)" "op_consume ops r1 cnt = Some r2"
  shows "parser_loop ops np r =
    (let np1 = np\<lparr>plend := Available r2, pinner := s\<rparr> in
     case state s of
       ReadContents node_type sz aligned \<Rightarrow>
         if node_type = NSymlink then
           (case take_string ops sz aligned r2 (drop cnt buf) of
              None \<Rightarrow> None
            | Some (r3, Pending) \<Rightarrow> Some (np1\<lparr>plend := Available r3\<rparr>, Pending)
            | Some (r3, Ready (Inl e)) \<Rightarrow> Some (np1\<lparr>plend := Available r3\<rparr>, Ready (Some (Inl e)))
            | Some (r3, Ready (Inr target)) \<Rightarrow>
                (case bumped (np1\<lparr>plend := Available r3, pname := None\<rparr>) of
                   None \<Rightarrow> None
                 | Some np2 \<Rightarrow> Some (np2, Ready (Some (Inr (Symlink (name_of (pname np)) target))))))
         else
           Some (np1\<lparr>plend := Lent None, pname := None\<rparr>,
             Ready (Some (Inr (File (name_of (pname np)) (node_type = NExecutableFile) sz (padded_new r2 sz)))))
     | ReadEntryName len aligned \<Rightarrow>
         (case take_string ops len aligned r2 (drop cnt buf) of
            None \<Rightarrow> None
          | Some (r3, Pending) \<Rightarrow> Some (np1\<lparr>plend := Available r3\<rparr>, Pending)
          | Some (r3, Ready (Inl e)) \<Rightarrow> Some (np1\<lparr>plend := Available r3\<rparr>, Ready (Some (Inl e)))
          | Some (r3, Ready (Inr name)) \<Rightarrow>
              (case bumped (np1\<lparr>plend := Available r3, pname := Some name\<rparr>) of
                 None \<Rightarrow> None | Some np2 \<Rightarrow> parser_loop ops np2 r3))
     | ReadDir \<Rightarrow> Some (np1\<lparr>pname := None\<rparr>, Ready (Some (Inr (StartDirectory (name_of (pname np))))))
     | FinishReadEntry \<Rightarrow> Some (np1, Ready (Some (Inr EndDirectory)))
     | Eof \<Rightarrow> Some (np1, Ready None)
     | _ \<Rightarrow> parser_loop ops np1 r2)"
  using assms
  by (subst parser_loop.simps)
    (auto simp: Let_def split: option.splits InnerState.splits poll.splits sum.splits bind_splits)

lemma parser_loop_spec:
  assumes "good r" "parse_ready T (pinner np) (pname np) (rest r) evs"
  shows "\<exists>np' res. parser_loop ops np r = Some (np', res) \<and> poll_post rest good src_err T evs np' res"
  using assms
proof (induction "6 * length (rest r) + rank (state (pinner np))" arbitrary: np r evs rule: less_induct)
  case less
  from less.prems(1) show ?case
  proof (cases rule: fill_cases)
    case (pending r1)
    with less.prems show ?thesis
      by (subst parser_loop.simps) (simp add: parser_at_def)
  next
    case (failed r1 e)
    then show ?thesis by (subst parser_loop.simps) simp
  next
    case (filled r1)
    define buf where "buf = avail r1"
    obtain b where b: "rest r = buf @ b" using filled(5) by (auto simp: buf_def prefix_def)
    have ne: "buf \<noteq> []" using filled(4) parse_ready_not_Nil [OF less.prems(2)] by (auto simp: buf_def)
    obtain s1 k where d: "drive False (pinner np) buf 0 = Some (s1, Inr k)" and k: "k \<le> length buf"
      and alt: "stops False s1 \<and> acts T s1 (pname np) (drop k buf @ b) evs \<and>
          6 * (length buf - k) + rank (state s1) \<le> 6 * length buf + rank (state (pinner np)) \<or>
        waiting s1 \<and> k = length buf \<and> feeds T s1 (pname np) b evs"
      using parse_ready_drive [of T "pinner np" "pname np" buf b evs] less.prems(2) b by auto
    obtain r2 where r2: "op_consume ops r1 k = Some r2" "good r2" "rest r2 = drop k buf @ b" "avail r2 = drop k buf"
      using consume_avail [OF filled(2), of k] k filled(3) b by (auto simp: buf_def)
    note round = parser_loop_round [OF filled(1) [folded buf_def] ne d r2(1)]
    let ?np1 = "np\<lparr>plend := Available r2, pinner := s1\<rparr>"
    from alt show ?thesis
    proof
      assume w: "waiting s1 \<and> k = length buf \<and> feeds T s1 (pname np) b evs"
      then have next_round: "parser_loop ops np r = parser_loop ops ?np1 r2"
        unfolding round by (auto simp: waiting_def stops_def Let_def split: InnerState.splits)
      have "6 * length (rest r2) + rank (state s1) < 6 * length (rest r) + rank (state (pinner np))"
        using w r2(3) b ne rank_le [of "state s1"] by (cases buf) auto
      with less.hyps [of r2 ?np1 evs] r2 w next_round show ?thesis by (simp add: parse_ready_def)
    next
      assume st: "stops False s1 \<and> acts T s1 (pname np) (drop k buf @ b) evs \<and>
          6 * (length buf - k) + rank (state s1) \<le> 6 * length buf + rank (state (pinner np))"
      then have "acts T s1 (pname np) (rest r2) evs" by (simp add: r2(3))
      then show ?thesis
      proof cases
        case a_eof
        with r2 show ?thesis by (simp add: round Let_def)
      next
        case (a_file ty c al R s' R' evs')
        note P = padded_new_good [of good r2 c rest R, OF r2(2) a_file(5) a_file(1)]
        have "parse_ready T (s1\<lparr>state := FinishNode 0\<rparr>) None R evs'"
          using feedsI [OF a_file(6,7)] waiting_fresh(2) by (simp add: parse_ready_def inner_state_update)
        with a_file(2-4) P show ?thesis by (simp add: round Let_def parser_at_def)
      next
        case (a_symlink c R s' R' evs')
        obtain r3 res where t: "take_string ops (word_of_nat (length c)) (calc_aligned (word_of_nat (length c))) r2 (drop k buf) = Some (r3, res)"
          and c: "case res of Pending \<Rightarrow> good r3 \<and> rest r3 = rest r2 \<and> padded c \<noteq> []
           | Ready (Inl e) \<Rightarrow> src_err e | Ready (Inr t) \<Rightarrow> t = c \<and> good r3 \<and> rest r3 = R"
          using take_string_spec [OF r2(2) a_symlink(4,1)] r2(4) by auto
        have fin: "parse_ready T (s1\<lparr>state := FinishNode 0\<rparr>) None R evs'"
          using feedsI [OF a_symlink(5,6)] waiting_fresh(2) by (simp add: parse_ready_def inner_state_update)
        have half: "parse_ready T s1 (pname np) (rest r2) evs" if "padded c \<noteq> []"
          using that st a_symlink(1,3) r2(3) by (auto simp: parse_ready_def halfway_def)
        consider "res = Pending" | e where "res = Ready (Inl e)" | "res = Ready (Inr c)"
          using c by (cases res; cases "case res of Ready x \<Rightarrow> x") (auto split: sum.splits)
        then show ?thesis
          by cases (use t c fin half a_symlink(2,3) in
            \<open>auto simp: round Let_def parser_at_def bumped_def bump_next_def bump_state_def\<close>)
      next
        case (a_name c R s' R')
        obtain r3 res where t: "take_string ops (word_of_nat (length c)) (calc_aligned (word_of_nat (length c))) r2 (drop k buf) = Some (r3, res)"
          and c: "case res of Pending \<Rightarrow> good r3 \<and> rest r3 = rest r2 \<and> padded c \<noteq> []
           | Ready (Inl e) \<Rightarrow> src_err e | Ready (Inr t) \<Rightarrow> t = c \<and> good r3 \<and> rest r3 = R"
          using take_string_spec [OF r2(2) a_name(3,1)] r2(4) by auto
        let ?np2 = "np\<lparr>plend := Available r3, pname := Some c, pinner := s1\<lparr>state := ReadNode 0\<rparr>\<rparr>"
        have fin: "parse_ready T (pinner ?np2) (pname ?np2) R evs"
          using feedsI [OF a_name(4,5)] waiting_fresh(4) by (simp add: parse_ready_def inner_state_update)
        have half: "parse_ready T s1 (pname np) (rest r2) evs" if "padded c \<noteq> []"
          using that st a_name(1,2) r2(3) by (auto simp: parse_ready_def halfway_def)
        have m: "6 * length R + rank (state (pinner ?np2)) < 6 * length (rest r) + rank (state (pinner np))"
        proof -
          have "length R \<le> length (rest r2)" using a_name(1) by simp
          moreover have "length (rest r2) = length buf - k + length b" using r2(3) by simp
          moreover have "rank (state s1) = 1" using a_name(2) by simp
          moreover have "rank (state (pinner ?np2)) = 0" by simp
          moreover have "length (rest r) = length buf + length b" using b by simp
          ultimately show ?thesis using st by linarith
        qed
        consider "res = Pending" | e where "res = Ready (Inl e)" | "res = Ready (Inr c)"
          using c by (cases res; cases "case res of Ready x \<Rightarrow> x") (auto split: sum.splits)
        then show ?thesis
        proof cases
          case 3
          with c have r3: "good r3" "rest r3 = R" by auto
          have "parser_loop ops np r = parser_loop ops ?np2 r3"
            using 3 t a_name(2) by (simp add: round Let_def bumped_def bump_next_def bump_state_def)
          with less.hyps [of r3 ?np2 evs] m fin r3 show ?thesis by simp
        qed (use t c half a_name(2) in \<open>auto simp: round Let_def parser_at_def\<close>)
      next
        case (a_dir s' R' evs')
        have "parse_ready T (s1\<lparr>state := ReadEntries (Node 0)\<rparr>) None (rest r2) evs'"
          using feedsI [OF a_dir(3,4)] waiting_fresh(5) by (simp add: parse_ready_def inner_state_update)
        with a_dir(1,2) r2 show ?thesis by (simp add: round Let_def parser_at_def bump_state_def)
      next
        case (a_finish s2 s' R' evs')
        have "is_eof s2 \<and> evs' = [] \<and> rest r2 = T \<or> parse_ready T s2 (pname np) (rest r2) evs'"
        proof (cases "is_eof s2")
          case True
          with a_finish(4,5) show ?thesis
            by (auto simp: stop_at_def drive_Eof is_eof_def elim: acts.cases)
        next
          case False
          then have "waiting s2"
            using a_finish(2,3) waiting_fresh(3)
            by (auto simp: bump_state_def is_eof_def inner_state_update split: if_splits)
          with feedsI [OF a_finish(4,5)] show ?thesis by (simp add: parse_ready_def)
        qed
        with a_finish(1-3) r2 show ?thesis by (auto simp: round Let_def parser_at_def)
      qed
    qed
  qed
qed

lemma lending_drain_spec:
  assumes "padded_good rest good w"
  shows "\<exists>l res. lending_drain ops w = Some (l, res) \<and>
    (case res of Pending \<Rightarrow> \<exists>w'. l = Drain w' \<and> padded_good rest good w' \<and> padded_tail rest w' = padded_tail rest w
     | Ready (Inl e) \<Rightarrow> src_err e
     | Ready (Inr _) \<Rightarrow> \<exists>r. l = Available r \<and> good r \<and> rest r = padded_tail rest w)"
proof -
  obtain w' res where d: "padded_drain ops w = Some (w', res)" "padded_tail rest w' = padded_tail rest w"
    and c: "case res of Pending \<Rightarrow> padded_good rest good w' | Ready (Inl e) \<Rightarrow> src_err e
     | Ready (Inr _) \<Rightarrow> good (preader w') \<and> rest (preader w') = padded_tail rest w"
    using padded_drain_spec [OF assms] by blast
  then show ?thesis by (auto simp: lending_drain_def split: poll.splits sum.splits)
qed

lemma poll_next_returned:
  assumes g: "padded_good rest good w" and l: "plend np = Lent (Some w) \<or> plend np = Drain w"
    and st: "state (pinner np) = ReadContents ty sz al" "ty \<noteq> NSymlink"
    and rdy: "parse_ready T (pinner np\<lparr>state := FinishNode 0\<rparr>) (pname np) (padded_tail rest w) evs"
  shows "\<exists>np' res. poll_next ops np = Some (np', res) \<and> poll_post rest good src_err T evs np' res"
proof -
  obtain l' res where d: "lending_drain ops w = Some (l', res)"
    and c: "case res of Pending \<Rightarrow> \<exists>w'. l' = Drain w' \<and> padded_good rest good w' \<and> padded_tail rest w' = padded_tail rest w
     | Ready (Inl e) \<Rightarrow> src_err e
     | Ready (Inr _) \<Rightarrow> \<exists>r. l' = Available r \<and> good r \<and> rest r = padded_tail rest w"
    using lending_drain_spec [OF g] by blast
  have pr: "lending_poll_ready ops (plend np) = Some (l', res)" using l d by (auto simp: lending_poll_ready_def)
  consider "res = Pending" | e where "res = Ready (Inl e)" | "res = Ready (Inr ())"
    by (metis old.unit.exhaust poll.exhaust sum.exhaust)
  then show ?thesis
  proof cases
    case 3
    with c obtain r where r: "l' = Available r" "good r" "rest r = padded_tail rest w" by auto
    let ?np2 = "np\<lparr>plend := Available r, pinner := pinner np\<lparr>state := FinishNode 0\<rparr>\<rparr>"
    have "poll_next ops np = parser_loop ops ?np2 r"
      using 3 pr r(1) st by (simp add: poll_next_def Let_def bumped_def bump_next_def bump_state_def)
    with parser_loop_spec [OF r(2), of T ?np2 evs] rdy r(3) show ?thesis by simp
  qed (use pr c st rdy in \<open>auto simp: poll_next_def parser_at_def\<close>)
qed

lemma parser_step:
  assumes "parser_at rest good T np evs"
  shows "\<exists>np' res. poll_next ops np = Some (np', res) \<and> poll_post rest good src_err T evs np' res"
proof (cases "plend np")
  case (Lent w)
  with assms poll_next_returned show ?thesis by (fastforce simp: parser_at_def split: option.splits)
next
  case (Drain w)
  with assms poll_next_returned show ?thesis by (fastforce simp: parser_at_def)
next
  case (Available r)
  let ?s = "pinner np"
  have np: "np\<lparr>plend := Available r\<rparr> = np" using Available by simp
  have pr: "lending_poll_ready ops (plend np) = Some (Available r, Ready (Inr ()))"
    by (simp add: lending_poll_ready_def Available)
  from assms Available have g: "good r" by (simp add: parser_at_def)
  from assms Available consider
    (rdy) "parse_ready T ?s (pname np) (rest r) evs" | (eof) "is_eof ?s" "evs = []" "rest r = T"
    | (bump) s2 where "state ?s = ReadDir \<or> state ?s = FinishReadEntry" "bump_state ?s = Some s2"
      "state ?s = FinishReadEntry \<and> is_eof s2 \<and> evs = [] \<and> rest r = T \<or> parse_ready T s2 (pname np) (rest r) evs"
    by (auto simp: parser_at_def)
  then show ?thesis
  proof cases
    case rdy
    have "poll_next ops np = parser_loop ops np r"
      using rdy pr np
      by (auto simp: poll_next_def parse_ready_def waiting_def stops_def halfway_def Let_def split: InnerState.splits)
    with parser_loop_spec [OF g rdy] show ?thesis by simp
  next
    case eof
    with pr np g show ?thesis by (auto simp: poll_next_def is_eof_def Available)
  next
    case bump
    let ?np2 = "np\<lparr>pinner := s2\<rparr>"
    have b: "bumped np = Some ?np2" using bump(2) by (simp add: bumped_def bump_next_def)
    show ?thesis
    proof (cases "state ?s = FinishReadEntry \<and> is_eof s2")
      case True
      moreover have "\<not> parse_ready T s2 (pname np) (rest r) evs"
        using True by (auto simp: parse_ready_def waiting_def stops_def halfway_def is_eof_def)
      ultimately have "poll_next ops np = Some (?np2, Ready None)" "evs = []" "rest r = T"
        using bump(3) by (simp_all add: poll_next_def Let_def pr np b)
      with g Available show ?thesis by simp
    next
      case False
      then have rdy: "parse_ready T s2 (pname np) (rest r) evs" using bump(3) by auto
      have "poll_next ops np = parser_loop ops ?np2 r"
        using False bump(1) pr np b by (auto simp: poll_next_def Let_def)
      with parser_loop_spec [OF g, of T ?np2 evs] rdy show ?thesis by simp
    qed
  qed
qed

lemma parser_new_at:
  assumes "good r" "rest r = nar_bytes t @ T" "nar_fits t"
  shows "parser_at rest good T (parser_new r) (nar_events [] t)"
  using assms feeds_nar [OF assms(3), of T] waiting_fresh(1) [of 0]
  by (simp add: parser_at_def parser_new_def parse_ready_def inner_new_def)

end

section \<open>Whole runs\<close>

text \<open>A client of the parser: it polls until there is an event, reads a file's contents to their
  end, gives the reader back and asks for the next event. Any number of polls may be pending.\<close>

inductive parses :: "'r BytesRead \<Rightarrow> 'r NarParser \<Rightarrow> event list \<Rightarrow> 'r NarParser \<Rightarrow> bool" for ops where
  p_wait: "poll_next ops np = Some (np1, Pending) \<Longrightarrow> parses ops np1 evs np' \<Longrightarrow> parses ops np evs np'"
| p_file: "poll_next ops np = Some (np1, Ready (Some (Inr (File n x sz w)))) \<Longrightarrow>
     reads_out (padded_fill ops) (padded_consume ops) w d w' \<Longrightarrow>
     parses ops (np1\<lparr>plend := Lent (Some w')\<rparr>) evs np' \<Longrightarrow> parses ops np (File n x sz d # evs) np'"
| p_symlink: "poll_next ops np = Some (np1, Ready (Some (Inr (Symlink n t)))) \<Longrightarrow>
     parses ops np1 evs np' \<Longrightarrow> parses ops np (Symlink n t # evs) np'"
| p_start: "poll_next ops np = Some (np1, Ready (Some (Inr (StartDirectory n)))) \<Longrightarrow>
     parses ops np1 evs np' \<Longrightarrow> parses ops np (StartDirectory n # evs) np'"
| p_finish: "poll_next ops np = Some (np1, Ready (Some (Inr EndDirectory))) \<Longrightarrow>
     parses ops np1 evs np' \<Longrightarrow> parses ops np (EndDirectory # evs) np'"
| p_end: "poll_next ops np = Some (np', Ready None) \<Longrightarrow> parses ops np [] np'"

context bytes_read
begin

lemma parses_events:
  "parses ops np outs np' \<Longrightarrow> parser_at rest good T np evs \<Longrightarrow>
     outs = evs \<and> (\<exists>r. plend np' = Available r \<and> good r \<and> rest r = T)"
proof (induction arbitrary: evs rule: parses.induct)
  case (p_file np np1 n x sz w d w' outs np')
  then obtain evs' where evs: "evs = File n x sz (padded_rest rest w) # evs'" and w: "padded_good rest good w"
    and k: "\<And>w'. padded_good rest good w' \<Longrightarrow> padded_tail rest w' = padded_tail rest w \<Longrightarrow>
        parser_at rest good T (np1\<lparr>plend := Lent (Some w')\<rparr>) evs'"
    using parser_step [OF p_file.prems] by auto
  from fill_source.reads_out_rest [OF buf_source.axioms(1) [OF padded_contract_at] p_file.hyps(2)] w
  have "d = padded_rest rest w" "padded_good rest good w'" "padded_tail rest w' = padded_tail rest w" by auto
  with evs p_file.IH [OF k] show ?case by auto
qed (use parser_step in fastforce)+

end

interpretation scursor: buf_source "padded_rest cursor_rest" "padded_good cursor_rest cursor_good" "\<lambda>_. False"
    "padded_fill cursor_ops" "padded_consume cursor_ops" "padded_avail cursor_rest"
  by (rule cursor.padded_contract)

end
