(* ===== verification/Nar_Writer.thy ===== *)
theory Nar_Writer
  imports Nar_Parser
begin

text \<open>
  \<open>NarWriter\<close> of \<open>harmonia-nar/src/archive/writer.rs\<close>: a sink of events that writes an archive. The
  contents of a file are copied from its reader to the output without going through the writer's buffer; while the
  copy runs, the buffer holds the padding that belongs behind the contents.

  The facts: the writer refines the specification \<open>encode_events\<close> (\<open>poll_ready_spec\<close>, \<open>start_send_out\<close>,
  over the abstraction \<open>writer_out\<close> that puts buffer, reader and padding in the order in which they
  will be written), and the encoding of the events of an archive is the archive (\<open>encode_nar_events\<close>).
\<close>

section \<open>State and operations\<close>

datatype WState = WReady | Flushing nat | WEof

record ('r, 'w) NarWriter =
  wstate :: WState
  wbuffer :: bytes
  cutoff :: nat
  wreader :: "'r option"
  wwriter :: 'w
  wlevel :: nat

definition writer_new :: "'w \<Rightarrow> ('r, 'w) NarWriter" where
  "writer_new w = \<lparr>wstate = WReady, wbuffer = [], cutoff = DEFAULT_RESERVED_BUF_SIZE, wreader = None,
     wwriter = w, wlevel = 0\<rparr>"

definition is_flushing :: "WState \<Rightarrow> bool" where
  "is_flushing s = (case s of Flushing _ \<Rightarrow> True | _ \<Rightarrow> False)"

text \<open>\<open>while !buffer.is_empty()\<close>: write what the sink takes and drop it from the buffer.\<close>

function flush_buffer ::
  "('w \<Rightarrow> bytes \<Rightarrow> ('w, nat) polled) \<Rightarrow> 'w \<Rightarrow> bytes \<Rightarrow> ('w \<times> bytes \<times> unit io_result poll) option" where
  "flush_buffer put w buf =
     (if buf = [] then Some (w, [], Ready (Inr ()))
      else case put w buf of
        None \<Rightarrow> None
      | Some (w', Pending) \<Rightarrow> Some (w', buf, Pending)
      | Some (w', Ready (Inl e)) \<Rightarrow> Some (w', buf, Ready (Inl e))
      | Some (w', Ready (Inr cnt)) \<Rightarrow>
          if cnt = 0 then Some (w', buf, Ready (Inl (IoError WriteZero ''wrote zero bytes'')))
          else if length buf < cnt then None
          else flush_buffer put w' (drop cnt buf))"
  by pat_completeness auto
termination
  by (relation "measure (\<lambda>(put, w, buf). length buf)") auto

declare flush_buffer.simps [simp del]

text \<open>The copy from the file's reader to the sink.\<close>

partial_function (option) copy_reader ::
  "('r \<Rightarrow> ('r, bytes) polled) \<Rightarrow> ('r \<Rightarrow> nat \<Rightarrow> 'r option) \<Rightarrow> ('w \<Rightarrow> bytes \<Rightarrow> ('w, nat) polled) \<Rightarrow>
     'r \<Rightarrow> 'w \<Rightarrow> ('r \<times> 'w \<times> unit io_result poll) option" where
  "copy_reader fill consume put r w =
     Option.bind (fill r) (\<lambda>(r1, res). case res of
         Pending \<Rightarrow> Some (r1, w, Pending)
       | Ready x \<Rightarrow> (case x of
           Inl e \<Rightarrow> Some (r1, w, Ready (Inl e))
         | Inr buf \<Rightarrow>
             if buf = [] then Some (r1, w, Ready (Inr ()))
             else Option.bind (put w buf) (\<lambda>(w1, pres). case pres of
                 Pending \<Rightarrow> Some (r1, w1, Pending)
               | Ready y \<Rightarrow> (case y of
                   Inl e \<Rightarrow> Some (r1, w1, Ready (Inl e))
                 | Inr amt \<Rightarrow> Option.bind (consume r1 amt) (\<lambda>r2. copy_reader fill consume put r2 w1)))))"

definition writer_copy ::
  "('r \<Rightarrow> ('r, bytes) polled) \<Rightarrow> ('r \<Rightarrow> nat \<Rightarrow> 'r option) \<Rightarrow> ('w \<Rightarrow> bytes \<Rightarrow> ('w, nat) polled) \<Rightarrow>
     ('r, 'w) NarWriter \<Rightarrow> (('r, 'w) NarWriter, unit) polled" where
  "writer_copy fill consume put nw =
     (case wreader nw of
        None \<Rightarrow> Some (nw, Ready (Inr ()))
      | Some r \<Rightarrow>
          (case copy_reader fill consume put r (wwriter nw) of
             None \<Rightarrow> None
           | Some (r', w', Pending) \<Rightarrow> Some (nw\<lparr>wreader := Some r', wwriter := w'\<rparr>, Pending)
           | Some (r', w', Ready (Inl e)) \<Rightarrow> Some (nw\<lparr>wreader := Some r', wwriter := w'\<rparr>, Ready (Inl e))
           | Some (r', w', Ready (Inr _)) \<Rightarrow>
               (let buffer = wbuffer nw @ TOK_PAR in
                if wlevel nw = 0
                then Some (nw\<lparr>wreader := None, wwriter := w', wbuffer := buffer, wstate := WEof\<rparr>, Ready (Inr ()))
                else Some (nw\<lparr>wreader := None, wwriter := w', wbuffer := buffer @ TOK_PAR\<rparr>, Ready (Inr ())))))"

definition writer_poll_ready ::
  "('r \<Rightarrow> ('r, bytes) polled) \<Rightarrow> ('r \<Rightarrow> nat \<Rightarrow> 'r option) \<Rightarrow> ('w \<Rightarrow> bytes \<Rightarrow> ('w, nat) polled) \<Rightarrow>
     ('r, 'w) NarWriter \<Rightarrow> (('r, 'w) NarWriter, unit) polled" where
  "writer_poll_ready fill consume put nw0 =
     (let nw = (if \<not> is_flushing (wstate nw0) \<and> cutoff nw0 < length (wbuffer nw0)
                then nw0\<lparr>wstate := Flushing 0\<rparr> else nw0)
      in case wstate nw of
        Flushing cnt \<Rightarrow>
          (case flush_buffer put (wwriter nw) (wbuffer nw) of
             None \<Rightarrow> None
           | Some (w', buf', Pending) \<Rightarrow> Some (nw\<lparr>wwriter := w', wbuffer := buf'\<rparr>, Pending)
           | Some (w', buf', Ready (Inl e)) \<Rightarrow> Some (nw\<lparr>wwriter := w', wbuffer := buf'\<rparr>, Ready (Inl e))
           | Some (w', buf', Ready (Inr _)) \<Rightarrow>
               writer_copy fill consume put
                 (nw\<lparr>wwriter := w', wbuffer := buf' @ replicate cnt 0,
                    wstate := (if wlevel nw = 0 then WEof else WReady)\<rparr>))
      | _ \<Rightarrow> writer_copy fill consume put nw)"

definition entry_header :: "nat \<Rightarrow> bytes \<Rightarrow> bytes \<Rightarrow> bytes" where
  "entry_header lvl name buf =
     (if 0 < lvl then put_nix_slice (buf @ TOK_ENTRY) name @ TOK_NODE else buf)"

definition start_send :: "('r, 'w) NarWriter \<Rightarrow> 'r NarEvent \<Rightarrow> ('r, 'w) NarWriter option" where
  "start_send nw item =
     (let buf0 = (if wlevel nw = 0 then wbuffer nw @ TOK_ROOT else wbuffer nw) in
      case item of
        File name executable sz reader \<Rightarrow>
          (let buf1 = entry_header (wlevel nw) name buf0;
               buf2 = buf1 @ (if executable then TOK_FILE_E else TOK_FILE)
           in Some (nw\<lparr>wbuffer := buf2 @ to_le_bytes sz, wstate := Flushing (calc_padding sz),
                      wreader := Some reader\<rparr>))
      | Symlink name target \<Rightarrow>
          (let buf1 = entry_header (wlevel nw) name buf0;
               buf2 = put_nix_slice (buf1 @ TOK_SYM) target @ TOK_PAR
           in if wlevel nw = 0 then Some (nw\<lparr>wbuffer := buf2, wstate := WEof\<rparr>)
              else Some (nw\<lparr>wbuffer := buf2 @ TOK_PAR\<rparr>))
      | StartDirectory name \<Rightarrow>
          (let buf1 = entry_header (wlevel nw) name buf0
           in Some (nw\<lparr>wbuffer := buf1 @ TOK_DIR, wlevel := wlevel nw + 1\<rparr>))
      | EndDirectory \<Rightarrow>
          (let buf1 = buf0 @ TOK_PAR in
           if wlevel nw = 0 then None
           else let lvl = wlevel nw - 1 in
             if lvl = 0 then Some (nw\<lparr>wbuffer := buf1, wlevel := lvl, wstate := WEof\<rparr>)
             else Some (nw\<lparr>wbuffer := buf1 @ TOK_PAR, wlevel := lvl\<rparr>)))"

partial_function (option) poll_flush_buf ::
  "('r \<Rightarrow> ('r, bytes) polled) \<Rightarrow> ('r \<Rightarrow> nat \<Rightarrow> 'r option) \<Rightarrow> ('w \<Rightarrow> bytes \<Rightarrow> ('w, nat) polled) \<Rightarrow>
     ('r, 'w) NarWriter \<Rightarrow> (('r, 'w) NarWriter, unit) polled" where
  "poll_flush_buf fill consume put nw =
     Option.bind (writer_poll_ready fill consume put nw) (\<lambda>(nw1, res). case res of
         Pending \<Rightarrow> Some (nw1, Pending)
       | Ready x \<Rightarrow> (case x of
           Inl e \<Rightarrow> Some (nw1, Ready (Inl e))
         | Inr _ \<Rightarrow>
             if wbuffer nw1 = [] then Some (nw1, Ready (Inr ()))
             else poll_flush_buf fill consume put (nw1\<lparr>wstate := Flushing 0\<rparr>)))"

section \<open>The specification: an encoder of events\<close>

definition event_header :: "nat \<Rightarrow> bytes \<Rightarrow> bytes" where
  "event_header lvl name =
     (if lvl = 0 then TOK_ROOT else TOK_ENTRY @ nix_slice name @ TOK_NODE)"

definition event_close :: "nat \<Rightarrow> bytes" where
  "event_close lvl = TOK_PAR @ (if lvl = 0 then [] else TOK_PAR)"

fun encode_event :: "nat \<Rightarrow> event \<Rightarrow> bytes" where
  "encode_event lvl (File name x sz c) =
     event_header lvl name @ (if x then TOK_FILE_E else TOK_FILE) @ to_le_bytes sz @ c @
     replicate (calc_padding sz) 0 @ event_close lvl"
| "encode_event lvl (Symlink name t) = event_header lvl name @ TOK_SYM @ nix_slice t @ event_close lvl"
| "encode_event lvl (StartDirectory name) = event_header lvl name @ TOK_DIR"
| "encode_event lvl EndDirectory = event_close (lvl - 1)"

fun event_level :: "nat \<Rightarrow> 'r NarEvent \<Rightarrow> nat" where
  "event_level lvl (StartDirectory _) = Suc lvl"
| "event_level lvl EndDirectory = lvl - 1"
| "event_level lvl _ = lvl"

primrec encode_events :: "nat \<Rightarrow> event list \<Rightarrow> bytes" where
  "encode_events lvl [] = []"
| "encode_events lvl (e # es) = encode_event lvl e @ encode_events (event_level lvl e) es"

text \<open>The events of an archive encode to the archive.\<close>

lemma encode_file: "to_le_bytes (word_of_nat (length c)) @ c @ replicate (calc_padding (word_of_nat (length c))) 0 @ R =
    nix_slice c @ R"
  by (simp add: put_nix_slice_def)

lemma encode_entries:
  assumes "\<And>t n evs. t \<in> snd ` set es \<Longrightarrow>
      encode_events (Suc l) (nar_events n t @ evs) = nar_entry (n, t) @ encode_events (Suc l) evs"
  shows "encode_events (Suc l) (concat (map (\<lambda>(n, t). nar_events n t) es) @ evs) =
      concat (map nar_entry es) @ encode_events (Suc l) evs"
  using assms by (induction es) auto

lemma encode_node:
  "encode_events l (nar_events n t @ evs) =
     event_header l n @ nar_node t @ (if l = 0 then [] else TOK_PAR) @ encode_events l evs"
proof (induction t arbitrary: l n evs)
  case (NarDirectory es)
  have "encode_events (Suc l) (concat (map (\<lambda>(n, t). nar_events n t) es) @ EndDirectory # evs) =
      concat (map nar_entry es) @ encode_events (Suc l) (EndDirectory # evs)"
    by (rule encode_entries) (auto simp: NarDirectory.IH event_header_def nar_entry_def)
  then show ?case unfolding nar_node_tokens by (simp add: event_close_def)
qed (simp_all add: nar_node_tokens event_close_def encode_file del: nar_node.simps)

lemma encode_nar_events: "encode_events 0 (nar_events [] t) = nar_bytes t"
  using encode_node [of 0 "[]" t "[]"] by (simp add: event_header_def nar_bytes_tokens)

section \<open>The writer refines the encoder\<close>

text \<open>What has been written, followed by what will be if nothing more is sent.\<close>

definition writer_out :: "('r \<Rightarrow> bytes) \<Rightarrow> ('w \<Rightarrow> bytes) \<Rightarrow> ('r, 'w) NarWriter \<Rightarrow> bytes" where
  "writer_out rest written nw =
     written (wwriter nw) @
     (case wreader nw of
        None \<Rightarrow> wbuffer nw
      | Some r \<Rightarrow>
          (case wstate nw of
             Flushing cnt \<Rightarrow> wbuffer nw @ rest r @ replicate cnt 0
           | _ \<Rightarrow> rest r @ wbuffer nw) @ event_close (wlevel nw))"

definition writer_inv :: "('r \<Rightarrow> bool) \<Rightarrow> ('r, 'w) NarWriter \<Rightarrow> bool" where
  "writer_inv good nw \<longleftrightarrow> 8 \<le> cutoff nw \<and>
     (case wreader nw of
        None \<Rightarrow> (\<forall>cnt. wstate nw = Flushing cnt \<longrightarrow> cnt = 0)
      | Some r \<Rightarrow> good r \<and> (case wstate nw of Flushing cnt \<Rightarrow> cnt < 8 | _ \<Rightarrow> length (wbuffer nw) < 8))"

definition writer_idle :: "('r, 'w) NarWriter \<Rightarrow> bool" where
  "writer_idle nw \<longleftrightarrow> wreader nw = None \<and> \<not> is_flushing (wstate nw)"

locale nar_writing =
  buf_source rest good src_err fill consume avail + async_write put written sink_err
  for rest :: "'r \<Rightarrow> bytes" and good src_err fill consume avail
    and put :: "'w \<Rightarrow> bytes \<Rightarrow> ('w, nat) polled" and written sink_err
begin

lemma flush_buffer_spec:
  "\<exists>w' buf' res. flush_buffer put w buf = Some (w', buf', res) \<and> written w' @ buf' = written w @ buf \<and>
     (case res of Pending \<Rightarrow> True | Ready (Inl e) \<Rightarrow> sink_err e | Ready (Inr _) \<Rightarrow> buf' = [])"
proof (induction "length buf" arbitrary: w buf rule: less_induct)
  case less
  show ?case
  proof (cases "buf = []")
    case True
    then show ?thesis by (simp add: flush_buffer.simps)
  next
    case False
    obtain w1 res where p: "put w buf = Some (w1, res)" and post: "put_post sink_err buf (written w) (written w1) res"
      using put_law by blast
    consider "res = Pending" | e where "res = Ready (Inl e)" | n where "res = Ready (Inr n)"
      by (metis poll.exhaust sum.exhaust)
    then show ?thesis
    proof cases
      case (3 n)
      with post False have n: "n \<le> length buf" "written w1 = written w @ take n buf" "0 < n" by auto
      have "length (drop n buf) < length buf" using n False by auto
      from less.hyps [OF this, of w1] n 3 p False show ?thesis
        by (simp add: flush_buffer.simps [of _ w])
    qed (use False p post in \<open>auto simp: flush_buffer.simps [of _ w]\<close>)
  qed
qed

lemma copy_reader_spec:
  assumes "good r"
  shows "\<exists>r' w' res. copy_reader fill consume put r w = Some (r', w', res) \<and>
    (case res of
       Pending \<Rightarrow> good r' \<and> written w' @ rest r' = written w @ rest r
     | Ready (Inl e) \<Rightarrow> src_err e \<or> sink_err e
     | Ready (Inr _) \<Rightarrow> written w' = written w @ rest r)"
  using assms
proof (induction "length (rest r)" arbitrary: r w rule: less_induct)
  case less
  from less.prems show ?case
  proof (cases rule: fill_cases)
    case (pending r1)
    then show ?thesis by (subst copy_reader.simps) simp
  next
    case (failed r1 e)
    then show ?thesis by (subst copy_reader.simps) simp
  next
    case (filled r1)
    show ?thesis
    proof (cases "avail r1 = []")
      case True
      with filled show ?thesis by (subst copy_reader.simps) simp
    next
      case ne: False
      obtain w1 res where p: "put w (avail r1) = Some (w1, res)"
        and post: "put_post sink_err (avail r1) (written w) (written w1) res"
        using put_law by blast
      consider "res = Pending" | e where "res = Ready (Inl e)" | n where "res = Ready (Inr n)"
        by (metis poll.exhaust sum.exhaust)
      then show ?thesis
      proof cases
        case 1
        with filled ne p post show ?thesis by (subst copy_reader.simps) simp
      next
        case 2
        with filled ne p post show ?thesis by (subst copy_reader.simps) simp
      next
        case (3 n)
        with post ne have n: "n \<le> length (avail r1)" "written w1 = written w @ take n (avail r1)" "0 < n" by auto
        obtain r2 where r2: "consume r1 n = Some r2" "good r2" "rest r2 = drop n (rest r)"
          using consume_law [OF filled(2) n(1)] filled(3) by auto
        have t: "take n (avail r1) = take n (rest r)" using filled(5) n(1) by (auto simp: prefix_def)
        have "n \<le> length (rest r)" using filled(5) n(1) by (auto dest: prefix_length_le)
        then have "length (rest r2) < length (rest r)" using n(3) by (simp add: r2(3))
        from less.hyps [OF this r2(2), of w1] obtain r' w' res' where
          IH: "copy_reader fill consume put r2 w1 = Some (r', w', res')"
          and c: "case res' of Pending \<Rightarrow> good r' \<and> written w' @ rest r' = written w1 @ rest r2
             | Ready (Inl e) \<Rightarrow> src_err e \<or> sink_err e | Ready (Inr _) \<Rightarrow> written w' = written w1 @ rest r2"
          by blast
        have out: "written w1 @ rest r2 = written w @ rest r" using n(2) t r2(3) by simp
        have "copy_reader fill consume put r w = Some (r', w', res')"
          using filled(1) ne p 3 r2(1) IH by (subst copy_reader.simps) simp
        with c [unfolded out] show ?thesis by simp
      qed
    qed
  qed
qed

lemma writer_copy_spec:
  assumes "writer_inv good nw" "\<not> is_flushing (wstate nw)"
  shows "\<exists>nw' res. writer_copy fill consume put nw = Some (nw', res) \<and> wlevel nw' = wlevel nw \<and>
    (case res of Ready (Inl e) \<Rightarrow> src_err e \<or> sink_err e
     | _ \<Rightarrow> writer_inv good nw' \<and> writer_out rest written nw' = writer_out rest written nw) \<and>
    (res = Ready (Inr ()) \<longrightarrow> writer_idle nw') \<and>
    (wreader nw = None \<longrightarrow> wbuffer nw' = wbuffer nw \<and> res = Ready (Inr ()))"
proof (cases "wreader nw")
  case None
  with assms show ?thesis by (auto simp: writer_copy_def writer_idle_def)
next
  case (Some r)
  with assms have g: "good r" by (simp add: writer_inv_def)
  obtain r' w' res where c: "copy_reader fill consume put r (wwriter nw) = Some (r', w', res)"
    and p: "case res of Pending \<Rightarrow> good r' \<and> written w' @ rest r' = written (wwriter nw) @ rest r
     | Ready (Inl e) \<Rightarrow> src_err e \<or> sink_err e | Ready (Inr _) \<Rightarrow> written w' = written (wwriter nw) @ rest r"
    using copy_reader_spec [OF g] by blast
  consider "res = Pending" | e where "res = Ready (Inl e)" | "res = Ready (Inr ())"
    by (metis old.unit.exhaust poll.exhaust sum.exhaust)
  then show ?thesis
  proof cases
    case 1
    let ?nw = "nw\<lparr>wreader := Some r', wwriter := w'\<rparr>"
    have "writer_out rest written ?nw = writer_out rest written nw"
      using 1 p Some assms(2)
      by (simp add: writer_out_def is_flushing_def flip: append_assoc split: WState.splits)
    with 1 c p Some assms show ?thesis
      by (simp add: writer_copy_def writer_inv_def split: WState.splits)
  next
    case 2
    with c p Some show ?thesis by (simp add: writer_copy_def)
  next
    case 3
    with c p Some assms show ?thesis
      by (auto simp: writer_copy_def writer_inv_def writer_out_def writer_idle_def event_close_def is_flushing_def
          Let_def split: WState.splits)
  qed
qed

lemma poll_ready_spec:
  assumes "writer_inv good nw"
  shows "\<exists>nw' res. writer_poll_ready fill consume put nw = Some (nw', res) \<and> wlevel nw' = wlevel nw \<and>
    (case res of Ready (Inl e) \<Rightarrow> src_err e \<or> sink_err e
     | _ \<Rightarrow> writer_inv good nw' \<and> writer_out rest written nw' = writer_out rest written nw) \<and>
    (res = Ready (Inr ()) \<longrightarrow> writer_idle nw') \<and>
    (wstate nw = Flushing 0 \<and> wreader nw = None \<and> res = Ready (Inr ()) \<longrightarrow> wbuffer nw' = [])"
proof (cases "is_flushing (wstate nw) \<or> cutoff nw < length (wbuffer nw)")
  case False
  then have "writer_poll_ready fill consume put nw = writer_copy fill consume put nw"
    by (auto simp: writer_poll_ready_def is_flushing_def Let_def split: WState.splits)
  moreover from False have "\<not> is_flushing (wstate nw)" by simp
  ultimately show ?thesis using writer_copy_spec [OF assms] by (auto simp: is_flushing_def)
next
  case True
  define nw1 where "nw1 = (if is_flushing (wstate nw) then nw else nw\<lparr>wstate := Flushing 0\<rparr>)"
  have small: "wreader nw = None" if "\<not> is_flushing (wstate nw)"
    using that True assms by (auto simp: writer_inv_def is_flushing_def split: option.splits WState.splits)
  have inv1: "writer_inv good nw1" and out1: "writer_out rest written nw1 = writer_out rest written nw"
    and lev1: "wlevel nw1 = wlevel nw" and same: "wstate nw = Flushing 0 \<longrightarrow> nw1 = nw"
    using assms small by (auto simp: nw1_def writer_inv_def writer_out_def is_flushing_def split: option.splits)
  obtain cnt where cnt: "wstate nw1 = Flushing cnt"
    by (cases "wstate nw") (auto simp: nw1_def is_flushing_def)
  obtain w' buf' res where f: "flush_buffer put (wwriter nw1) (wbuffer nw1) = Some (w', buf', res)"
    and fo: "written w' @ buf' = written (wwriter nw1) @ wbuffer nw1"
    and fp: "case res of Pending \<Rightarrow> True | Ready (Inl e) \<Rightarrow> sink_err e | Ready (Inr _) \<Rightarrow> buf' = []"
    using flush_buffer_spec by blast
  have pr: "writer_poll_ready fill consume put nw =
      (case res of
         Pending \<Rightarrow> Some (nw1\<lparr>wwriter := w', wbuffer := buf'\<rparr>, Pending)
       | Ready (Inl e) \<Rightarrow> Some (nw1\<lparr>wwriter := w', wbuffer := buf'\<rparr>, Ready (Inl e))
       | Ready (Inr _) \<Rightarrow> writer_copy fill consume put
           (nw1\<lparr>wwriter := w', wbuffer := buf' @ replicate cnt 0, wstate := (if wlevel nw1 = 0 then WEof else WReady)\<rparr>))"
    using True cnt f by (auto simp: writer_poll_ready_def nw1_def Let_def split: poll.splits sum.splits)
  consider "res = Pending" | e where "res = Ready (Inl e)" | "res = Ready (Inr ())"
    by (metis old.unit.exhaust poll.exhaust sum.exhaust)
  then show ?thesis
  proof cases
    case 1
    have "writer_out rest written (nw1\<lparr>wwriter := w', wbuffer := buf'\<rparr>) = writer_out rest written nw1"
      using fo cnt by (simp add: writer_out_def flip: append_assoc split: option.splits)
    with 1 pr inv1 out1 lev1 cnt show ?thesis by (auto simp: writer_inv_def split: option.splits)
  next
    case 2
    with pr fp lev1 show ?thesis by simp
  next
    case 3
    let ?nw2 = "nw1\<lparr>wwriter := w', wbuffer := buf' @ replicate cnt 0, wstate := (if wlevel nw1 = 0 then WEof else WReady)\<rparr>"
    have buf': "buf' = []" using 3 fp by simp
    have nofl: "\<not> is_flushing (wstate ?nw2)" by (simp add: is_flushing_def)
    have inv2: "writer_inv good ?nw2"
      using inv1 cnt buf' by (auto simp: writer_inv_def split: option.splits)
    have out2: "writer_out rest written ?nw2 = writer_out rest written nw1"
      using fo inv1 cnt buf' by (auto simp: writer_out_def writer_inv_def split: option.splits)
    have empty: "wstate nw = Flushing 0 \<and> wreader nw = None \<longrightarrow> wbuffer ?nw2 = [] \<and> wreader ?nw2 = None"
      using same cnt buf' by auto
    have "writer_poll_ready fill consume put nw = writer_copy fill consume put ?nw2" using pr 3 by simp
    moreover have "wlevel ?nw2 = wlevel nw" by (simp add: lev1)
    ultimately show ?thesis
      using writer_copy_spec [OF inv2 nofl, unfolded out2 out1] empty by auto
  qed
qed

lemma poll_flush_buf_spec:
  assumes "writer_inv good nw"
  shows "\<exists>nw' res. poll_flush_buf fill consume put nw = Some (nw', res) \<and>
    (case res of
       Pending \<Rightarrow> writer_inv good nw' \<and> writer_out rest written nw' = writer_out rest written nw
     | Ready (Inl e) \<Rightarrow> src_err e \<or> sink_err e
     | Ready (Inr _) \<Rightarrow> written (wwriter nw') = writer_out rest written nw)"
proof -
  have flushed: "\<exists>nw' res. poll_flush_buf fill consume put nw = Some (nw', res) \<and>
      (case res of
         Pending \<Rightarrow> writer_inv good nw' \<and> writer_out rest written nw' = writer_out rest written nw
       | Ready (Inl e) \<Rightarrow> src_err e \<or> sink_err e
       | Ready (Inr _) \<Rightarrow> written (wwriter nw') = writer_out rest written nw)"
    if inv: "writer_inv good nw" and fl: "wstate nw = Flushing 0" "wreader nw = None" for nw
  proof -
    obtain nw' res where p: "writer_poll_ready fill consume put nw = Some (nw', res)"
      and c: "case res of Ready (Inl e) \<Rightarrow> src_err e \<or> sink_err e
         | _ \<Rightarrow> writer_inv good nw' \<and> writer_out rest written nw' = writer_out rest written nw"
      and i: "res = Ready (Inr ()) \<longrightarrow> writer_idle nw'" and e: "res = Ready (Inr ()) \<longrightarrow> wbuffer nw' = []"
      using poll_ready_spec [OF inv] fl by blast
    have "poll_flush_buf fill consume put nw = Some (nw', res)"
      using p e by (subst poll_flush_buf.simps) (auto split: poll.splits sum.splits)
    with c i e show ?thesis
      by (auto simp: writer_out_def writer_idle_def split: poll.splits sum.splits)
  qed
  obtain nw' res where p: "writer_poll_ready fill consume put nw = Some (nw', res)"
    and c: "case res of Ready (Inl e) \<Rightarrow> src_err e \<or> sink_err e
       | _ \<Rightarrow> writer_inv good nw' \<and> writer_out rest written nw' = writer_out rest written nw"
    and i: "res = Ready (Inr ()) \<longrightarrow> writer_idle nw'"
    using poll_ready_spec [OF assms] by blast
  consider "res = Pending" | e where "res = Ready (Inl e)" | "res = Ready (Inr ())" "wbuffer nw' = []"
    | "res = Ready (Inr ())" "wbuffer nw' \<noteq> []"
    by (metis old.unit.exhaust poll.exhaust sum.exhaust)
  then show ?thesis
  proof cases
    case 3
    with p c i show ?thesis
      by (subst poll_flush_buf.simps) (auto simp: writer_out_def writer_idle_def)
  next
    case 4
    let ?nw = "nw'\<lparr>wstate := Flushing 0\<rparr>"
    have nw: "writer_inv good ?nw" "wstate ?nw = Flushing 0" "wreader ?nw = None"
        and out: "writer_out rest written ?nw = writer_out rest written nw"
      using 4 c i by (auto simp: writer_inv_def writer_idle_def writer_out_def)
    have "poll_flush_buf fill consume put nw = poll_flush_buf fill consume put ?nw"
      using p 4 by (subst poll_flush_buf.simps) simp
    with flushed [OF nw, unfolded out] show ?thesis by simp
  qed (use p c in \<open>subst poll_flush_buf.simps, simp\<close>)+
qed

lemma start_send_out:
  assumes inv: "writer_inv good nw" and idle: "writer_idle nw"
    and ev: "pred_NarEvent good ev" "ev = EndDirectory \<longrightarrow> 0 < wlevel nw"
  shows "\<exists>nw'. start_send nw ev = Some nw' \<and> writer_inv good nw' \<and> wlevel nw' = event_level (wlevel nw) ev \<and>
    writer_out rest written nw' =
      writer_out rest written nw @ encode_event (wlevel nw) (map_NarEvent rest ev)"
proof (cases ev)
  case (File name x sz r)
  with assms calc_padding_less [of sz] show ?thesis
    by (simp add: start_send_def entry_header_def event_header_def writer_inv_def writer_out_def writer_idle_def
        put_nix_slice_append [of "_ @ _"] Let_def)
next
  case (Symlink name t)
  with assms show ?thesis
    by (auto simp: start_send_def entry_header_def event_header_def event_close_def writer_inv_def writer_out_def
        writer_idle_def is_flushing_def put_nix_slice_append [of "_ @ _"] Let_def)
next
  case (StartDirectory name)
  with assms show ?thesis
    by (auto simp: start_send_def entry_header_def event_header_def writer_inv_def writer_out_def writer_idle_def
        put_nix_slice_append [of "_ @ _"] Let_def)
next
  case EndDirectory
  with assms show ?thesis
    by (auto simp: start_send_def event_close_def writer_inv_def writer_out_def writer_idle_def Let_def)
qed

end

section \<open>Whole runs\<close>

text \<open>A client of the sink: before each event it polls until the writer is ready, at the end it
  polls the flush until it is done. Any number of polls may be pending.\<close>

inductive writes ::
  "('r \<Rightarrow> ('r, bytes) polled) \<Rightarrow> ('r \<Rightarrow> nat \<Rightarrow> 'r option) \<Rightarrow> ('w \<Rightarrow> bytes \<Rightarrow> ('w, nat) polled) \<Rightarrow>
     ('r, 'w) NarWriter \<Rightarrow> 'r NarEvent list \<Rightarrow> ('r, 'w) NarWriter \<Rightarrow> bool"
  for fill consume put where
  wait: "writer_poll_ready fill consume put nw = Some (nw1, Pending) \<Longrightarrow>
     writes fill consume put nw1 evs nw' \<Longrightarrow> writes fill consume put nw evs nw'"
| send: "writer_poll_ready fill consume put nw = Some (nw1, Ready (Inr ())) \<Longrightarrow>
     start_send nw1 ev = Some nw2 \<Longrightarrow> writes fill consume put nw2 evs nw' \<Longrightarrow>
     writes fill consume put nw (ev # evs) nw'"
| flush_wait: "poll_flush_buf fill consume put nw = Some (nw1, Pending) \<Longrightarrow>
     writes fill consume put nw1 [] nw' \<Longrightarrow> writes fill consume put nw [] nw'"
| flushed: "poll_flush_buf fill consume put nw = Some (nw', Ready (Inr ())) \<Longrightarrow>
     writes fill consume put nw [] nw'"

text \<open>Directories are closed only when they are open.\<close>

fun levels_ok :: "nat \<Rightarrow> 'r NarEvent list \<Rightarrow> bool" where
  "levels_ok lvl [] = True"
| "levels_ok lvl (ev # evs) \<longleftrightarrow> (ev = EndDirectory \<longrightarrow> 0 < lvl) \<and> levels_ok (event_level lvl ev) evs"

context nar_writing
begin

lemma writes_out:
  "writes fill consume put nw evs nw' \<Longrightarrow> writer_inv good nw \<Longrightarrow> list_all (pred_NarEvent good) evs \<Longrightarrow>
     levels_ok (wlevel nw) evs \<Longrightarrow>
     written (wwriter nw') =
       writer_out rest written nw @ encode_events (wlevel nw) (map (map_NarEvent rest) evs)"
proof (induction rule: writes.induct)
  case (wait nw nw1 evs nw')
  then show ?case using poll_ready_spec [of nw] by auto
next
  case (send nw nw1 ev nw2 evs nw')
  have nw1: "writer_inv good nw1" "writer_idle nw1" "wlevel nw1 = wlevel nw"
      "writer_out rest written nw1 = writer_out rest written nw"
    using poll_ready_spec [OF send.prems(1)] send.hyps(1) by auto
  have nw2: "writer_inv good nw2" "wlevel nw2 = event_level (wlevel nw) ev"
      "writer_out rest written nw2 = writer_out rest written nw @ encode_event (wlevel nw) (map_NarEvent rest ev)"
    using start_send_out [OF nw1(1,2), of ev] send.hyps(2) send.prems nw1(3,4) by auto
  have "event_level (wlevel nw) (map_NarEvent rest ev) = event_level (wlevel nw) ev" by (cases ev) auto
  with send.IH nw2 send.prems show ?case by auto
next
  case (flush_wait nw nw1 nw')
  then have "writer_inv good nw1" "writer_out rest written nw1 = writer_out rest written nw"
    using poll_flush_buf_spec [of nw] by auto
  with flush_wait show ?case by auto
next
  case (flushed nw nw')
  then show ?case using poll_flush_buf_spec [of nw] by auto
qed

end

section \<open>A scripted sink\<close>

datatype sink_item = KPending | KError io_error | KAccept nat

record sink =
  taken :: bytes
  plan :: "sink_item list"

definition sink_put :: "sink \<Rightarrow> bytes \<Rightarrow> (sink, nat) polled" where
  "sink_put k b =
     (case plan k of
        [] \<Rightarrow> Some (k\<lparr>taken := taken k @ b\<rparr>, Ready (Inr (length b)))
      | KPending # p \<Rightarrow> Some (k\<lparr>plan := p\<rparr>, Pending)
      | KError e # p \<Rightarrow> Some (k\<lparr>plan := p\<rparr>, Ready (Inl e))
      | KAccept n # p \<Rightarrow>
          (let m = min (max 1 n) (length b) in Some (k\<lparr>taken := taken k @ take m b, plan := p\<rparr>, Ready (Inr m))))"

interpretation sink: async_write sink_put taken "\<lambda>_. True"
  by unfold_locales (auto simp: sink_put_def Let_def min_def max_def split: list.splits sink_item.splits if_splits)

interpretation swr: nar_writing
    "br_rest script_rest" "br_good (script_good E)" "br_err (\<lambda>e. e \<in> E)" "br_fill script_read" br_consume br_avail
    sink_put taken "\<lambda>_. True" for E
  using sbr.buf_source_axioms [of E] sink.async_write_axioms
  by (simp add: nar_writing_def bytes_reader_ops_def)

text \<open>Every archive is balanced, so its events can be sent.\<close>

lemma levels_ok_node: "levels_ok l (nar_events n t @ evs) = levels_ok l evs"
proof (induction t arbitrary: l n evs)
  case (NarDirectory es)
  have "\<And>a b l n evs. (a, b) \<in> set es \<Longrightarrow> levels_ok l (nar_events n b @ evs) = levels_ok l evs"
    using NarDirectory.IH by (metis snd_conv snds.intros)
  then have "levels_ok (Suc l) (concat (map (\<lambda>(n, t). nar_events n t) es) @ EndDirectory # evs) = levels_ok l evs"
    by (induction es) (simp, fastforce)
  then show ?case by simp
qed simp_all

lemma levels_ok_nar: "levels_ok 0 (nar_events [] t)"
  using levels_ok_node [of 0 "[]" t "[]"] by simp

lemma levels_ok_map: "levels_ok l (map (map_NarEvent f) evs) = levels_ok l evs"
proof (induction evs arbitrary: l)
  case (Cons ev evs)
  then show ?case by (cases ev) auto
qed simp

context nar_writing
begin

lemma writes_nar:
  assumes run: "writes fill consume put (writer_new w) evs nw"
    and evs: "map (map_NarEvent rest) evs = nar_events [] t" "list_all (pred_NarEvent good) evs"
  shows "written (wwriter nw) = written w @ nar_bytes t"
proof -
  let ?nw = "writer_new w :: ('r, 'w) NarWriter"
  have inv: "writer_inv good ?nw" and lvl: "wlevel ?nw = 0" and out: "writer_out rest written ?nw = written w"
    by (simp_all add: writer_inv_def writer_out_def writer_new_def DEFAULT_RESERVED_BUF_SIZE_def)
  have "levels_ok (wlevel ?nw) evs"
    using levels_ok_nar [of t] levels_ok_map [of 0 rest evs] evs(1) by (simp add: lvl)
  from writes_out [OF run inv evs(2) this] evs(1) show ?thesis
    by (simp add: lvl out encode_nar_events)
qed

end

end
