(* ===== verification/Nar_Liveness.thy ===== *)
theory Nar_Liveness
  imports Nar_Writer
begin

text \<open>
  Whole runs end. The contracts of \<open>Async_Io\<close> say what a poll that is ready returns; here a
  source also has a \<^emph>\<open>delay\<close>, the number of times it can still answer \<open>Pending\<close>, and every layer
  above it is shown to pass the delay on: a pending poll of the padded reader, the NAR parser or
  the NAR writer uses up one of the pending polls of what it stands on. With that the clients
  \<open>reads_out\<close>, \<open>parses\<close> and \<open>writes\<close> of the other theories always have a run to the end.
\<close>

section \<open>Patience\<close>

definition waits :: "nat \<Rightarrow> nat \<Rightarrow> 'a poll \<Rightarrow> bool" where
  "waits d d' res \<longleftrightarrow> d' \<le> d \<and> (res = Pending \<longrightarrow> d' < d)"

lemma waits_Pending: "waits d d' Pending \<longleftrightarrow> d' < d"
  by (auto simp: waits_def)

lemma waits_Ready: "waits d d' (Ready x) \<longleftrightarrow> d' \<le> d"
  by (simp add: waits_def)

lemmas waits_simps = waits_Pending waits_Ready

lemma waits_trans: "d1 \<le> d \<Longrightarrow> waits d1 d2 res \<Longrightarrow> waits d d2 res"
  by (auto simp: waits_def)

locale patient_fill = fill_source rest good src_err fill consume avail
  for rest :: "'r \<Rightarrow> bytes" and good src_err fill consume avail +
  fixes delay :: "'r \<Rightarrow> nat"
  assumes fill_delay: "fill r = Some (r', res) \<Longrightarrow> waits (delay r) (delay r') res"
    and consume_delay: "consume r n = Some r' \<Longrightarrow> delay r' \<le> delay r"
begin

text \<open>A source that never fails is read out to its end.\<close>

lemma reads_out_total:
  assumes "good r" and never: "\<And>e. \<not> src_err e"
  shows "\<exists>d r'. reads_out fill consume r d r' \<and> delay r' \<le> delay r"
  using assms(1)
proof (induction "(length (rest r), delay r)" arbitrary: r rule: wf_induct_rule [OF wf_lex_prod [OF wf_less_than wf_less_than]])
  case (1 r)
  show ?case using 1(2)
  proof (cases rule: fill_cases)
    case (pending r1)
    then have "delay r1 < delay r" using fill_delay by (fastforce simp: waits_simps)
    with 1(1) [of r1] pending show ?thesis by (fastforce intro: reads_out.wait)
  next
    case (failed r1 e)
    then show ?thesis using never by blast
  next
    case (filled r1)
    then have d1: "delay r1 \<le> delay r" using fill_delay by (fastforce simp: waits_simps)
    show ?thesis
    proof (cases "avail r1 = []")
      case True
      with filled d1 show ?thesis using reads_out.eof [of fill r r1 consume] by auto
    next
      case False
      let ?n = "length (avail r1)"
      obtain r2 where r2: "consume r1 ?n = Some r2" "good r2" "rest r2 = drop ?n (rest r1)"
        using consume_avail [OF filled(2) False, of ?n] by auto
      have "rest r1 \<noteq> []" using filled False by (auto simp: prefix_def)
      then have "length (rest r2) < length (rest r)" using r2(3) filled(3) False by simp
      with 1(1) [of r2] r2(2) obtain d r' where "reads_out fill consume r2 d r'" "delay r' \<le> delay r2"
        by auto
      with reads_out.data [of fill r r1 "avail r1" ?n consume r2 d r'] filled(1) r2(1) consume_delay [OF r2(1)] d1 False show ?thesis
        by fastforce
    qed
  qed
qed

end

locale patient_source = buf_source rest good src_err fill consume avail +
  patient_fill rest good src_err fill consume avail delay
  for rest :: "'r \<Rightarrow> bytes" and good src_err fill consume avail and delay :: "'r \<Rightarrow> nat"

lemma patient_sourceI:
  assumes "buf_source rest good src_err fill consume avail"
    and "\<And>r r' res. fill r = Some (r', res) \<Longrightarrow> waits (delay r) (delay r') res"
    and "\<And>r n r'. consume r n = Some r' \<Longrightarrow> delay r' \<le> delay r"
  shows "patient_source rest good src_err fill consume avail delay"
  using assms by (simp add: patient_source_def patient_fill_def patient_fill_axioms_def buf_source_def)

locale patient_read = bytes_read ops rest good src_err avail
  for ops :: "'r BytesRead" and rest good src_err avail +
  fixes delay :: "'r \<Rightarrow> nat"
  assumes op_fill_delay: "op_fill ops r = Some (r', res) \<Longrightarrow> waits (delay r) (delay r') res"
    and op_read_delay: "op_read ops r cap = Some (r', rres) \<Longrightarrow> waits (delay r) (delay r') rres"
    and op_force_delay: "op_force ops r = Some (r', res) \<Longrightarrow> waits (delay r) (delay r') res"
    and op_consume_delay: "op_consume ops r n = Some r' \<Longrightarrow> delay r' \<le> delay r"

sublocale patient_read \<subseteq> patient_source rest good src_err "op_fill ops" "op_consume ops" avail delay
  by unfold_locales (auto dest: op_fill_delay op_consume_delay)

interpretation pcursor: patient_read cursor_ops cursor_rest cursor_good "\<lambda>_. False" cursor_rest "\<lambda>_. 0"
  by unfold_locales (auto simp: cursor_ops_def cursor_fill_def cursor_read_def cursor_force_def Let_def waits_simps
      split: option.splits if_splits)

text \<open>The delay of a script is the number of its pending polls.\<close>

fun script_delay :: "src_item list \<Rightarrow> nat" where
  "script_delay [] = 0"
| "script_delay (SPending # s) = Suc (script_delay s)"
| "script_delay (_ # s) = script_delay s"

lemma script_read_delay: "script_read s cap = Some (s', res) \<Longrightarrow> waits (script_delay s) (script_delay s') res"
  by (induction s cap rule: script_read.induct) (auto simp: waits_simps split: if_splits)

interpretation pbr: patient_read "bytes_reader_ops script_read" "br_rest script_rest"
    "br_good (script_good E)" "br_err (\<lambda>e. e \<in> E)" br_avail "\<lambda>br. script_delay (inner br)" for E
proof -
  have internal: "waits (script_delay (inner br)) (script_delay (inner br')) res"
    if "poll_force_fill_buf_internal script_read br = Some (br', res)" for br br' :: "src_item list BytesReader" and res
    using that
    by (auto simp: poll_force_fill_buf_internal_def read_spare_def br_reserve_def buf_reserve_def waits_simps
        split: option.splits prod.splits poll.splits sum.splits if_splits dest!: script_read_delay)
  have fill: "waits (script_delay (inner br)) (script_delay (inner br')) res"
    if "br_fill script_read br = Some (br', res)" for br br' res
    using that internal [of br] by (fastforce simp: br_fill_def waits_simps
        split: option.splits prod.splits poll.splits sum.splits if_splits)
  have force: "waits (script_delay (inner br)) (script_delay (inner br')) res"
    if "br_force script_read br = Some (br', res)" for br br' res
    using that internal [of br] by (fastforce simp: br_force_def waits_simps
        split: option.splits prod.splits poll.splits sum.splits if_splits)
  have consume: "inner br' = inner br" if "br_consume br n = Some br'" for br br' :: "src_item list BytesReader" and n
    using that by (auto simp: br_consume_def split: option.splits)
  have read: "waits (script_delay (inner br)) (script_delay (inner br')) res"
    if "poll_read_by_fill (br_fill script_read) br_consume br cap = Some (br', res)" for br br' cap res
    using that by (auto simp: poll_read_by_fill_def Let_def waits_simps dest!: fill consume
        split: option.splits prod.splits poll.splits sum.splits if_splits)
  show "patient_read (bytes_reader_ops script_read) (br_rest script_rest) (br_good (script_good E))
      (br_err (\<lambda>e. e \<in> E)) br_avail (\<lambda>br. script_delay (inner br))"
    by unfold_locales (auto simp: bytes_reader_ops_def dest: fill force consume read)
qed

section \<open>The NAR reader\<close>

context patient_source
begin

lemma nar_patient:
  "patient_source (nar_rest rest) (nar_good_at rest good avail tail) src_err
     (nar_fill fill) (nar_consume consume) (nar_avail avail) (\<lambda>nr. delay (nreader nr))"
proof -
  have "waits (delay (nreader nr)) (delay (nreader nr')) res" if "nar_fill fill nr = Some (nr', res)" for nr nr' res
    using that by (auto simp: nar_fill_def nar_poll_def Let_def waits_simps dest!: fill_delay
        split: option.splits prod.splits poll.splits sum.splits if_splits)
  moreover have "delay (nreader nr') \<le> delay (nreader nr)" if "nar_consume consume nr n = Some nr'" for nr nr' n
    using that by (auto simp: nar_consume_def dest!: consume_delay split: option.splits if_splits)
  ultimately show ?thesis
    using nar_reader_contract_at [of tail] by (intro patient_sourceI) blast+
qed

lemma nar_reads_out_total:
  assumes "good r" "rest r = nar_bytes t @ tail" "nar_fits t" and never: "\<And>e. \<not> src_err e"
  shows "\<exists>nr. reads_out (nar_fill fill) (nar_consume consume) (nar_reader_new r) (nar_bytes t) nr"
proof -
  have "nar_good_at rest good avail tail (nar_reader_new r)"
    using nar_reader_new_good [OF assms(1-3)] assms(2) by (simp add: nar_good_at_def nar_reader_new_def)
  from patient_fill.reads_out_total [OF patient_source.axioms(2) [OF nar_patient] this never] nar_reads_out [OF assms(1-3)] show ?thesis
    by blast
qed

end

section \<open>The padded reader and the parser\<close>

definition lend_delay :: "('r \<Rightarrow> nat) \<Rightarrow> ('r, 'r PaddedReader) Lending \<Rightarrow> nat" where
  "lend_delay delay l =
     (case l of Available r \<Rightarrow> delay r | Drain w \<Rightarrow> delay (preader w) | Lent (Some w) \<Rightarrow> delay (preader w) | Lent None \<Rightarrow> 0)"

text \<open>An event that lends the reader out carries its delay in the event.\<close>

definition event_delay ::
  "('r \<Rightarrow> nat) \<Rightarrow> 'r NarParser \<Rightarrow> 'r PaddedReader NarEvent io_result option poll \<Rightarrow> nat" where
  "event_delay delay np res =
     (case res of Ready (Some (Inr (File _ _ _ w))) \<Rightarrow> delay (preader w) | _ \<Rightarrow> lend_delay delay (plend np))"

lemma event_delay_simps:
  "event_delay delay np Pending = lend_delay delay (plend np)"
  "event_delay delay np (Ready None) = lend_delay delay (plend np)"
  "event_delay delay np (Ready (Some (Inl e))) = lend_delay delay (plend np)"
  "event_delay delay np (Ready (Some (Inr (File n x sz w)))) = delay (preader w)"
  "event_delay delay np (Ready (Some (Inr (Symlink n tg)))) = lend_delay delay (plend np)"
  "event_delay delay np (Ready (Some (Inr (StartDirectory n)))) = lend_delay delay (plend np)"
  "event_delay delay np (Ready (Some (Inr EndDirectory))) = lend_delay delay (plend np)"
  "lend_delay delay (Available r) = delay r"
  "lend_delay delay (Lent (Some w)) = delay (preader w)"
  by (simp_all add: event_delay_def lend_delay_def)

lemma padded_new_reader: "preader (padded_new r len) = r"
  by (simp add: padded_new_def Let_def)

lemma bind_SomeE: "Option.bind m f = Some y \<Longrightarrow> (\<And>x. m = Some x \<Longrightarrow> f x = Some y \<Longrightarrow> Q) \<Longrightarrow> Q"
  by (auto simp: bind_eq_Some_conv)

context patient_read
begin

lemma force_until_delay: "force_until (op_force ops) n r buf = Some (r', res) \<Longrightarrow> waits (delay r) (delay r') res"
proof -
  assume run: "force_until (op_force ops) n r buf = Some (r', res)"
  have "op_force ops = op_force ops \<longrightarrow> waits (delay r) (delay (fst (r', res))) (snd (r', res))"
    by (rule force_until.raw_induct [where P = "\<lambda>f n r buf y. f = op_force ops \<longrightarrow> waits (delay r) (delay (fst y)) (snd y)",
          OF _ run])
      (fastforce simp: waits_simps elim!: bind_SomeE dest: op_force_delay intro: waits_trans
        split: if_splits poll.splits sum.splits prod.splits)
  then show ?thesis by simp
qed

lemma read_padding_delay:
  "read_padding (op_read ops) r pad k = Some (r', pad', k', res) \<Longrightarrow> waits (delay r) (delay r') res"
proof (induction "8 - k" arbitrary: r pad k rule: less_induct)
  case less
  show ?case
  proof (cases "\<exists>r1 b. k < 8 \<and> op_read ops r (8 - k) = Some (r1, Ready (Inr b)) \<and> b \<noteq> []")
    case True
    then obtain r1 b where b: "k < 8" "op_read ops r (8 - k) = Some (r1, Ready (Inr b))" "b \<noteq> []" by blast
    then have "8 - (k + length b) < 8 - k" "delay r1 \<le> delay r"
      using op_read_delay [OF b(2)] by (auto simp: waits_simps intro: diff_less_mono2)
    with less b show ?thesis by (auto simp: read_padding.simps [of _ r] intro: waits_trans)
  next
    case False
    with less.prems show ?thesis
      by (auto simp: read_padding.simps [of _ r] waits_simps dest: op_read_delay
          split: if_splits option.splits prod.splits poll.splits sum.splits)
  qed
qed

lemma poll_read_padding_delay:
  "poll_read_padding ops i k pr = Some (pr', res) \<Longrightarrow> waits (delay (preader pr)) (delay (preader pr')) res"
  by (auto simp: poll_read_padding_def Let_def waits_simps dest!: read_padding_delay
      split: option.splits prod.splits poll.splits sum.splits)

lemma poll_content_delay:
  "poll_content ops (op_fill ops) lim pr = Some (pr', res) \<Longrightarrow> waits (delay (preader pr)) (delay (preader pr')) res"
  by (auto simp: poll_content_def waits_simps dest!: op_fill_delay force_until_delay
      split: option.splits prod.splits poll.splits sum.splits if_splits)

lemma padded_fill_delay:
  "padded_fill ops pr = Some (pr', res) \<Longrightarrow> waits (delay (preader pr)) (delay (preader pr')) res"
  by (auto simp: padded_fill_def waits_simps dest!: poll_content_delay poll_read_padding_delay
      split: option.splits PState.splits)

lemma padded_consume_delay: "padded_consume ops pr n = Some pr' \<Longrightarrow> delay (preader pr') \<le> delay (preader pr)"
  by (auto simp: padded_consume_def split: option.splits PState.splits if_splits prod.splits dest!: op_consume_delay)

lemma padded_patient:
  "patient_source (padded_rest rest) (\<lambda>pr. padded_good rest good pr \<and> padded_tail rest pr = tail) src_err
     (padded_fill ops) (padded_consume ops) (padded_avail avail) (\<lambda>pr. delay (preader pr))"
  using padded_contract_at [of tail] padded_fill_delay padded_consume_delay
  by (intro patient_sourceI) blast+

lemma padded_drain_delay:
  "padded_drain ops pr = Some (pr', res) \<Longrightarrow> waits (delay (preader pr)) (delay (preader pr')) res"
proof -
  assume run: "padded_drain ops pr = Some (pr', res)"
  have "ops = ops \<longrightarrow> waits (delay (preader pr)) (delay (preader (fst (pr', res)))) (snd (pr', res))"
    by (rule padded_drain.raw_induct [where P = "\<lambda>o' pr y. o' = ops \<longrightarrow> waits (delay (preader pr)) (delay (preader (fst y))) (snd y)",
          OF _ run])
      (fastforce simp: waits_simps elim!: bind_SomeE dest: padded_fill_delay padded_consume_delay intro: waits_trans
        split: if_splits poll.splits sum.splits prod.splits)
  then show ?thesis by simp
qed

lemma lending_delay:
  "lending_poll_ready ops l = Some (l', res) \<Longrightarrow> l \<noteq> Lent None \<Longrightarrow>
     waits (lend_delay delay l) (lend_delay delay l') res"
  by (auto simp: lending_poll_ready_def lending_drain_def lend_delay_def waits_simps dest!: padded_drain_delay
      split: option.splits prod.splits poll.splits sum.splits Lending.splits)

lemma take_string_delay:
  "take_string ops len al r buf = Some (r', res) \<Longrightarrow> waits (delay r) (delay r') res"
  by (auto simp: take_string_def waits_simps dest!: force_until_delay op_consume_delay
      split: option.splits prod.splits poll.splits sum.splits if_splits)

lemma parser_loop_delay:
  "parser_loop ops np r = Some (np', res) \<Longrightarrow> waits (delay r) (event_delay delay np' res) res"
proof -
  assume run: "parser_loop ops np r = Some (np', res)"
  have "ops = ops \<longrightarrow> waits (delay r) (event_delay delay (fst (np', res)) (snd (np', res))) (snd (np', res))"
  proof (rule parser_loop.raw_induct [where P = "\<lambda>o' np r y. o' = ops \<longrightarrow>
        waits (delay r) (event_delay delay (fst y) (snd y)) (snd y)", OF _ run], goal_cases)
    case (1 loop o' np r y)
    have IH: "waits (delay r1) (event_delay delay (fst y) (snd y)) (snd y)"
      if "loop ops np1 r1 = Some y" for np1 r1
      using 1(1) [OF that] by blast
    show ?case
    proof
      assume "o' = ops"
      with 1(2) show "waits (delay r) (event_delay delay (fst y) (snd y)) (snd y)"
        by (auto simp: waits_simps event_delay_simps padded_new_reader bumped_def Let_def elim!: bind_SomeE
            dest!: op_fill_delay op_consume_delay take_string_delay IH
            split: if_splits poll.splits sum.splits prod.splits InnerState.splits;
            fastforce simp: waits_def)
    qed
  qed
  then show ?thesis by simp
qed

lemma poll_next_delay:
  "poll_next ops np = Some (np', res) \<Longrightarrow> plend np \<noteq> Lent None \<Longrightarrow>
     waits (lend_delay delay (plend np)) (event_delay delay np' res) res"
  by (auto simp: poll_next_def Let_def bumped_def waits_simps event_delay_simps
      dest!: lending_delay parser_loop_delay
      split: option.splits prod.splits poll.splits sum.splits Lending.splits InnerState.splits if_splits;
      fastforce simp: waits_def)

text \<open>Over a source that never fails, the parser runs to the end of the archive and its events
  are those of the archive.\<close>

lemma parses_total:
  assumes "parser_at rest good T np evs" and never: "\<And>e. \<not> src_err e"
  shows "\<exists>np'. parses ops np evs np'"
  using assms(1)
proof (induction "(length evs, lend_delay delay (plend np))" arbitrary: np evs
    rule: wf_induct_rule [OF wf_lex_prod [OF wf_less_than wf_less_than]])
  case (1 np evs)
  obtain np1 res where p: "poll_next ops np = Some (np1, res)" and post: "poll_post rest good src_err T evs np1 res"
    using parser_step [OF 1(2)] by blast
  have lent: "plend np \<noteq> Lent None" using 1(2) by (auto simp: parser_at_def)
  consider "res = Pending" | "res = Ready None" | e where "res = Ready (Some (Inl e))"
    | ev where "res = Ready (Some (Inr ev))"
    by (metis poll.exhaust option.exhaust sum.exhaust)
  then show ?case
  proof cases
    assume r: "res = Pending"
    with poll_next_delay [OF p lent] have "lend_delay delay (plend np1) < lend_delay delay (plend np)"
      by (simp add: waits_simps event_delay_simps)
    with 1(1) [of evs np1] post r p show ?thesis by (auto intro: parses.p_wait)
  next
    assume "res = Ready None"
    with post p show ?thesis by (auto intro: parses.p_end)
  next
    fix e assume "res = Ready (Some (Inl e))"
    with post never show ?thesis by simp
  next
    fix ev assume r: "res = Ready (Some (Inr ev))"
    with post obtain a evs' where evs: "evs = a # evs'" and ev: "event_post rest good T np1 ev a evs'" by auto
    have IH: "parser_at rest good T np2 evs' \<Longrightarrow> \<exists>np'. parses ops np2 evs' np'" for np2
      using 1(1) [of evs' np2] evs by simp
    show ?thesis
    proof (cases ev)
      case (File n x sz w)
      with ev have w: "padded_good rest good w" by simp
      obtain d w' where d: "reads_out (padded_fill ops) (padded_consume ops) w d w'"
        using patient_fill.reads_out_total [OF patient_source.axioms(2) [OF padded_patient [of "padded_tail rest w"]] _ never, of w] w by auto
      with fill_source.reads_out_rest [OF buf_source.axioms(1) [OF padded_contract_at [of "padded_tail rest w"]] d] w
      have "d = padded_rest rest w" "padded_good rest good w'" "padded_tail rest w' = padded_tail rest w" by auto
      with ev evs File IH [of "np1\<lparr>plend := Lent (Some w')\<rparr>"] p r d show ?thesis
        by (auto intro: parses.p_file)
    qed (use IH ev evs p r in \<open>auto intro: parses.intros\<close>)
  qed
qed

end

section \<open>The writer\<close>

definition writer_delay :: "('r \<Rightarrow> nat) \<Rightarrow> ('w \<Rightarrow> nat) \<Rightarrow> ('r, 'w) NarWriter \<Rightarrow> nat" where
  "writer_delay delay wdelay nw = (case wreader nw of None \<Rightarrow> 0 | Some r \<Rightarrow> delay r) + wdelay (wwriter nw)"

locale patient_writing = nar_writing rest good src_err fill consume avail put written sink_err +
  patient_source rest good src_err fill consume avail delay
  for rest :: "'r \<Rightarrow> bytes" and good src_err fill consume avail
    and put :: "'w \<Rightarrow> bytes \<Rightarrow> ('w, nat) polled" and written sink_err and delay +
  fixes wdelay :: "'w \<Rightarrow> nat"
  assumes put_delay: "put w b = Some (w', res) \<Longrightarrow> waits (wdelay w) (wdelay w') res"
begin

lemma flush_buffer_delay: "flush_buffer put w buf = Some (w', buf', res) \<Longrightarrow> waits (wdelay w) (wdelay w') res"
proof (induction "length buf" arbitrary: w buf rule: less_induct)
  case less
  show ?case
  proof (cases "\<exists>w1 n. buf \<noteq> [] \<and> put w buf = Some (w1, Ready (Inr n)) \<and> 0 < n \<and> n \<le> length buf")
    case True
    then obtain w1 n where n: "buf \<noteq> []" "put w buf = Some (w1, Ready (Inr n))" "0 < n" "n \<le> length buf" by blast
    then have "wdelay w1 \<le> wdelay w" using put_delay [OF n(2)] by (simp add: waits_simps)
    with less.hyps [of "drop n buf" w1] less.prems n show ?thesis
      by (auto simp: flush_buffer.simps [of _ w] intro: waits_trans)
  next
    case False
    with less.prems show ?thesis
      by (auto simp: flush_buffer.simps [of _ w] waits_simps dest: put_delay
          split: if_splits option.splits prod.splits poll.splits sum.splits)
  qed
qed

lemma copy_reader_delay:
  assumes run: "copy_reader fill consume put r w = Some (r', w', res)"
  shows "waits (delay r + wdelay w) (delay r' + wdelay w') res"
proof -
  let ?P = "\<lambda>f c p r w y. f = fill \<and> c = consume \<and> p = put \<longrightarrow>
    waits (delay r + wdelay w) (delay (fst y) + wdelay (fst (snd y))) (snd (snd y))"
  have "?P fill consume put r w (r', w', res)"
  proof (rule copy_reader.raw_induct [where P = ?P, OF _ run], goal_cases)
    case (1 loop f c p r w y)
    have IH: "waits (delay r1 + wdelay w1) (delay (fst y) + wdelay (fst (snd y))) (snd (snd y))"
      if "loop fill consume put r1 w1 = Some y" for r1 w1
      using 1(1) [OF that] by blast
    show ?case
    proof
      assume "f = fill \<and> c = consume \<and> p = put"
      with 1(2) show "waits (delay r + wdelay w) (delay (fst y) + wdelay (fst (snd y))) (snd (snd y))"
        by (auto simp: waits_simps elim!: bind_SomeE dest!: fill_delay consume_delay put_delay IH
            split: if_splits poll.splits sum.splits prod.splits; fastforce simp: waits_def)
    qed
  qed
  then show ?thesis by simp
qed

lemma writer_copy_delay:
  "writer_copy fill consume put nw = Some (nw', res) \<Longrightarrow>
     waits (writer_delay delay wdelay nw) (writer_delay delay wdelay nw') res"
  by (auto simp: writer_copy_def writer_delay_def Let_def waits_simps dest!: copy_reader_delay
      split: option.splits prod.splits poll.splits sum.splits if_splits)

lemma poll_ready_delay:
  assumes "writer_poll_ready fill consume put nw = Some (nw', res)"
  shows "waits (writer_delay delay wdelay nw) (writer_delay delay wdelay nw') res"
  using assms
  by (auto simp: writer_poll_ready_def Let_def waits_simps dest!: flush_buffer_delay writer_copy_delay
      split: option.splits prod.splits poll.splits sum.splits WState.splits if_splits;
      auto simp: writer_delay_def waits_def)

lemma poll_flush_buf_delay:
  assumes run: "poll_flush_buf fill consume put nw = Some (nw', res)"
  shows "waits (writer_delay delay wdelay nw) (writer_delay delay wdelay nw') res"
proof -
  let ?P = "\<lambda>f c p nw y. f = fill \<and> c = consume \<and> p = put \<longrightarrow>
    waits (writer_delay delay wdelay nw) (writer_delay delay wdelay (fst y)) (snd y)"
  have same: "writer_delay delay wdelay (nw1\<lparr>wstate := s\<rparr>) = writer_delay delay wdelay nw1" for nw1 s
    by (simp add: writer_delay_def)
  have "?P fill consume put nw (nw', res)"
  proof (rule poll_flush_buf.raw_induct [where P = ?P, OF _ run], goal_cases)
    case (1 loop f c p nw y)
    have IH: "waits (writer_delay delay wdelay nw1) (writer_delay delay wdelay (fst y)) (snd y)"
      if "loop fill consume put (nw1\<lparr>wstate := Flushing 0\<rparr>) = Some y" for nw1
      using 1(1) [OF that] same by simp
    show ?case
    proof
      assume "f = fill \<and> c = consume \<and> p = put"
      with 1(2) show "waits (writer_delay delay wdelay nw) (writer_delay delay wdelay (fst y)) (snd y)"
        by (auto simp: waits_simps elim!: bind_SomeE dest!: poll_ready_delay IH
            split: if_splits poll.splits sum.splits prod.splits; fastforce simp: waits_def)
    qed
  qed
  then show ?thesis by simp
qed

text \<open>Where neither the files' readers nor the sink fail, every balanced sequence of events is
  written to the end.\<close>

lemma writes_total:
  assumes "writer_inv good nw" "list_all (pred_NarEvent good) evs" "levels_ok (wlevel nw) evs"
    and never: "\<And>e. \<not> src_err e" "\<And>e. \<not> sink_err e"
  shows "\<exists>nw'. writes fill consume put nw evs nw'"
  using assms(1-3)
proof (induction "(length evs, writer_delay delay wdelay nw)" arbitrary: nw evs
    rule: wf_induct_rule [OF wf_lex_prod [OF wf_less_than wf_less_than]])
  case (1 nw evs)
  show ?case
  proof (cases evs)
    case Nil
    obtain nw1 res where f: "poll_flush_buf fill consume put nw = Some (nw1, res)"
      and post: "case res of Pending \<Rightarrow> writer_inv good nw1 \<and> writer_out rest written nw1 = writer_out rest written nw
        | Ready (Inl e) \<Rightarrow> src_err e \<or> sink_err e | Ready (Inr _) \<Rightarrow> written (wwriter nw1) = writer_out rest written nw"
      using poll_flush_buf_spec [OF 1(2)] by blast
    consider "res = Pending" | e where "res = Ready (Inl e)" | "res = Ready (Inr ())"
      by (metis poll.exhaust sum.exhaust old.unit.exhaust)
    then show ?thesis
    proof cases
      case p: 1
      with poll_flush_buf_delay [OF f] have "writer_delay delay wdelay nw1 < writer_delay delay wdelay nw"
        by (simp add: waits_simps)
      with 1(1) [of "[]" nw1] p post f Nil show ?thesis by (auto intro: writes.flush_wait)
    next
      case 3
      with f Nil show ?thesis by (auto intro: writes.flushed)
    qed (use post never in auto)
  next
    case (Cons ev evs')
    obtain nw1 res where f: "writer_poll_ready fill consume put nw = Some (nw1, res)" and lv: "wlevel nw1 = wlevel nw"
      and post: "case res of Ready (Inl e) \<Rightarrow> src_err e \<or> sink_err e
        | _ \<Rightarrow> writer_inv good nw1 \<and> writer_out rest written nw1 = writer_out rest written nw"
      and idle: "res = Ready (Inr ()) \<longrightarrow> writer_idle nw1"
      using poll_ready_spec [OF 1(2)] by blast
    consider "res = Pending" | e where "res = Ready (Inl e)" | "res = Ready (Inr ())"
      by (metis poll.exhaust sum.exhaust old.unit.exhaust)
    then show ?thesis
    proof cases
      case p: 1
      with poll_ready_delay [OF f] have "writer_delay delay wdelay nw1 < writer_delay delay wdelay nw"
        by (simp add: waits_simps)
      with 1(1) [of evs nw1] p post f lv 1(3,4) show ?thesis by (auto intro: writes.wait)
    next
      case r: 3
      obtain nw2 where "start_send nw1 ev = Some nw2" "writer_inv good nw2" "wlevel nw2 = event_level (wlevel nw) ev"
        using start_send_out [of nw1 ev] r post idle 1(3,4) Cons lv by auto
      with 1(1) [of evs' nw2] r f Cons 1(3,4) show ?thesis by (auto intro: writes.send)
    qed (use post never in auto)
  qed
qed

end

section \<open>Instances\<close>

fun plan_delay :: "sink_item list \<Rightarrow> nat" where
  "plan_delay [] = 0"
| "plan_delay (KPending # p) = Suc (plan_delay p)"
| "plan_delay (_ # p) = plan_delay p"

interpretation pswr: patient_writing
    "br_rest script_rest" "br_good (script_good E)" "br_err (\<lambda>e. e \<in> E)" "br_fill script_read" br_consume br_avail
    sink_put taken "\<lambda>_. True" "\<lambda>br. script_delay (inner br)" "\<lambda>k. plan_delay (plan k)" for E
  using pbr.patient_source_axioms [of E] swr.nar_writing_axioms [of E]
  by (auto simp: patient_writing_def patient_writing_axioms_def bytes_reader_ops_def sink_put_def Let_def waits_simps
      split: list.splits sink_item.splits)

text \<open>A \<open>Vec<u8>\<close> takes all it is given.\<close>

definition vec_put :: "bytes \<Rightarrow> bytes \<Rightarrow> (bytes, nat) polled" where
  "vec_put w b = Some (w @ b, Ready (Inr (length b)))"

interpretation pvec: patient_writing
    cursor_rest cursor_good "\<lambda>_. False" cursor_fill cursor_consume cursor_rest
    vec_put "\<lambda>w. w" "\<lambda>_. False" "\<lambda>_. 0" "\<lambda>_. 0"
  using pcursor.patient_source_axioms
  by (auto simp: patient_writing_def patient_writing_axioms_def nar_writing_def patient_source_def async_write_def
      cursor_ops_def vec_put_def waits_simps)

end
