(* ===== verification/Write_Buf.thy ===== *)
theory Write_Buf
  imports Nar_Liveness
begin

text \<open>
  What the two buffered writers of the protocol share: \<open>BytesMut\<close> of the \<open>bytes\<close> crate, the loop that empties such
  a buffer into a sink, \<open>.await\<close>, and \<open>write_all\<close> on a sink that is polled.

  How \<open>BytesMut\<close> allocates is not part of this repository: its capacities are the parameter \<open>Alloc\<close>,
  with what its documentation promises as the locale \<open>bytes_mut\<close>. The loop is proved against
  the contract of \<open>AsyncWrite\<close> (\<open>flush_bytes_spec\<close>), and \<open>write_all\<close> for every sink that
  keeps an invariant (\<open>write_all_spec\<close>).
\<close>

definition DEFAULT_BUF_SIZE :: nat where
  "DEFAULT_BUF_SIZE = 32 * 1024"

definition RESERVED_BUF_SIZE :: nat where
  "RESERVED_BUF_SIZE = DEFAULT_BUF_SIZE div 2"

section \<open>\<open>BytesMut\<close>\<close>

text \<open>The capacity of a new buffer, of one with a given length and capacity after \<open>reserve\<close>, and of
  one with a given capacity after \<open>advance\<close>.\<close>

record Alloc =
  al_new :: "nat \<Rightarrow> nat"
  al_reserve :: "nat \<Rightarrow> nat \<Rightarrow> nat \<Rightarrow> nat"
  al_advance :: "nat \<Rightarrow> nat \<Rightarrow> nat"

locale bytes_mut =
  fixes A :: Alloc
  assumes new_law: "n < 2 ^ 63 \<Longrightarrow> n \<le> al_new A n \<and> al_new A n < 2 ^ 63"
    and reserve_law: "len \<le> cap \<Longrightarrow> cap < 2 ^ 63 \<Longrightarrow> len + k < 2 ^ 63 \<Longrightarrow>
      max cap (len + k) \<le> al_reserve A len cap k \<and> al_reserve A len cap k < 2 ^ 63"
    and advance_law: "n \<le> len \<Longrightarrow> len \<le> cap \<Longrightarrow> cap < 2 ^ 63 \<Longrightarrow>
      len - n \<le> al_advance A cap n \<and> al_advance A cap n < 2 ^ 63"

record BytesMut =
  bm_data :: bytes
  bm_cap :: nat

definition bm_new :: "Alloc \<Rightarrow> nat \<Rightarrow> BytesMut" where
  "bm_new A n = \<lparr>bm_data = [], bm_cap = al_new A n\<rparr>"

definition bm_remaining :: "BytesMut \<Rightarrow> nat" where
  "bm_remaining b = bm_cap b - length (bm_data b)"

definition bm_reserve :: "Alloc \<Rightarrow> BytesMut \<Rightarrow> nat \<Rightarrow> BytesMut" where
  "bm_reserve A b k = b\<lparr>bm_cap := al_reserve A (length (bm_data b)) (bm_cap b) k\<rparr>"

definition bm_put :: "Alloc \<Rightarrow> BytesMut \<Rightarrow> bytes \<Rightarrow> BytesMut" where
  "bm_put A b d = (let b' = bm_reserve A b (length d) in b'\<lparr>bm_data := bm_data b' @ d\<rparr>)"

definition bm_advance :: "Alloc \<Rightarrow> BytesMut \<Rightarrow> nat \<Rightarrow> BytesMut" where
  "bm_advance A b n = \<lparr>bm_data = drop n (bm_data b), bm_cap = al_advance A (bm_cap b) n\<rparr>"

definition bm_ok :: "BytesMut \<Rightarrow> bool" where
  "bm_ok b \<longleftrightarrow> length (bm_data b) \<le> bm_cap b \<and> bm_cap b < 2 ^ 63"

lemma bm_data_simps [simp]:
  "bm_data (bm_new A n) = []" "bm_data (bm_reserve A b k) = bm_data b"
  "bm_data (bm_put A b d) = bm_data b @ d" "bm_data (bm_advance A b n) = drop n (bm_data b)"
  by (simp_all add: bm_new_def bm_reserve_def bm_put_def bm_advance_def Let_def)

context bytes_mut
begin

lemma bm_new_ok: "n < 2 ^ 63 \<Longrightarrow> bm_ok (bm_new A n)" "n < 2 ^ 63 \<Longrightarrow> n \<le> bm_cap (bm_new A n)"
  using new_law by (auto simp: bm_ok_def bm_new_def)

lemma bm_reserve_ok:
  assumes "bm_ok b" "length (bm_data b) + k < 2 ^ 63"
  shows "bm_ok (bm_reserve A b k)" "k \<le> bm_remaining (bm_reserve A b k)" "bm_cap b \<le> bm_cap (bm_reserve A b k)"
  using assms reserve_law [of "length (bm_data b)" "bm_cap b" k]
  by (auto simp: bm_ok_def bm_reserve_def bm_remaining_def)

lemma bm_put_ok:
  assumes "bm_ok b" "length (bm_data b) + length d < 2 ^ 63"
  shows "bm_ok (bm_put A b d)" "bm_cap b \<le> bm_cap (bm_put A b d)"
  using assms reserve_law [of "length (bm_data b)" "bm_cap b" "length d"]
  by (auto simp: bm_ok_def bm_put_def bm_reserve_def Let_def)

lemma bm_advance_ok: "bm_ok b \<Longrightarrow> n \<le> length (bm_data b) \<Longrightarrow> bm_ok (bm_advance A b n)"
  using advance_law [of n "length (bm_data b)" "bm_cap b"] by (simp add: bm_ok_def bm_advance_def)

end

text \<open>An allocator that gives what it is asked for, and whose buffers lose the room in front of their contents.\<close>

definition exact_alloc :: Alloc where
  "exact_alloc = \<lparr>al_new = (\<lambda>n. n), al_reserve = (\<lambda>len cap k. max cap (len + k)), al_advance = (\<lambda>cap n. cap - n)\<rparr>"

interpretation exact: bytes_mut exact_alloc
  by unfold_locales (auto simp: exact_alloc_def)

section \<open>Sinks\<close>

text \<open>\<open>AsyncWrite\<close> with its \<open>poll_flush\<close>, and with the number of times a poll can still be pending.\<close>

fun flush_post :: "(io_error \<Rightarrow> bool) \<Rightarrow> unit io_result poll \<Rightarrow> bool" where
  "flush_post sink_err (Ready (Inl e)) \<longleftrightarrow> sink_err e"
| "flush_post sink_err _ \<longleftrightarrow> True"

locale patient_sink = async_write put written sink_err
  for put :: "'w \<Rightarrow> bytes \<Rightarrow> ('w, nat) polled" and written sink_err +
  fixes flush :: "'w \<Rightarrow> ('w, unit) polled" and wdelay :: "'w \<Rightarrow> nat"
  assumes put_waits: "put w b = Some (w', res) \<Longrightarrow> waits (wdelay w) (wdelay w') res"
    and flush_law: "\<exists>w' res. flush w = Some (w', res) \<and> written w' = written w \<and> flush_post sink_err res \<and>
      waits (wdelay w) (wdelay w') res"

fun plan_delay :: "sink_item list \<Rightarrow> nat" where
  "plan_delay [] = 0"
| "plan_delay (KPending # p) = Suc (plan_delay p)"
| "plan_delay (_ # p) = plan_delay p"

definition sink_flush :: "sink \<Rightarrow> (sink, unit) polled" where
  "sink_flush k =
     (case plan k of
        KPending # p \<Rightarrow> Some (k\<lparr>plan := p\<rparr>, Pending)
      | KError e # p \<Rightarrow> Some (k\<lparr>plan := p\<rparr>, Ready (Inl e))
      | _ \<Rightarrow> Some (k, Ready (Inr ())))"

interpretation psink: patient_sink sink_put taken "\<lambda>_. True" sink_flush "\<lambda>k. plan_delay (plan k)"
  by unfold_locales (auto simp: sink_put_def sink_flush_def waits_simps Let_def split: list.splits sink_item.splits)

text \<open>The loop that writes a buffer out.\<close>

function flush_bytes ::
  "Alloc \<Rightarrow> ('w \<Rightarrow> bytes \<Rightarrow> ('w, nat) polled) \<Rightarrow> 'w \<Rightarrow> BytesMut \<Rightarrow> ('w \<times> BytesMut \<times> unit io_result poll) option" where
  "flush_bytes A put w b =
     (if bm_data b = [] then Some (w, b, Ready (Inr ()))
      else case put w (bm_data b) of
        None \<Rightarrow> None
      | Some (w', Pending) \<Rightarrow> Some (w', b, Pending)
      | Some (w', Ready (Inl e)) \<Rightarrow> Some (w', b, Ready (Inl e))
      | Some (w', Ready (Inr n)) \<Rightarrow>
          if n = 0 then Some (w', b, Ready (Inl (IoError WriteZero ''failed to write the buffer'')))
          else if length (bm_data b) < n then None
          else flush_bytes A put w' (bm_advance A b n))"
  by pat_completeness auto
termination
  by (relation "measure (\<lambda>(A, put, w, b). length (bm_data b))") auto

declare flush_bytes.simps [simp del]

fun flushed_post :: "(io_error \<Rightarrow> bool) \<Rightarrow> BytesMut \<Rightarrow> unit io_result poll \<Rightarrow> bool" where
  "flushed_post sink_err b' Pending \<longleftrightarrow> bm_data b' \<noteq> []"
| "flushed_post sink_err b' (Ready (Inl e)) \<longleftrightarrow> sink_err e"
| "flushed_post sink_err b' (Ready (Inr _)) \<longleftrightarrow> bm_data b' = []"

locale buffered_write = patient_sink put written sink_err flush wdelay + bytes_mut A
  for put :: "'w \<Rightarrow> bytes \<Rightarrow> ('w, nat) polled" and written sink_err flush wdelay A
begin

lemma flush_bytes_spec:
  assumes "bm_ok b"
  shows "\<exists>w' b' res. flush_bytes A put w b = Some (w', b', res) \<and> bm_ok b' \<and>
    written w' @ bm_data b' = written w @ bm_data b \<and> length (bm_data b') \<le> length (bm_data b) \<and>
    waits (wdelay w) (wdelay w') res \<and> flushed_post sink_err b' res"
  using assms
proof (induction "length (bm_data b)" arbitrary: w b rule: less_induct)
  case less
  show ?case
  proof (cases "bm_data b = []")
    case True
    with less.prems show ?thesis by (simp add: flush_bytes.simps [of _ _ w] waits_simps)
  next
    case False
    obtain w1 res where p: "put w (bm_data b) = Some (w1, res)"
      and post: "put_post sink_err (bm_data b) (written w) (written w1) res"
      using put_law by blast
    note d = put_waits [OF p]
    consider "res = Pending" | e where "res = Ready (Inl e)" | n where "res = Ready (Inr n)"
      by (metis poll.exhaust sum.exhaust)
    then show ?thesis
    proof cases
      case (3 n)
      with post False have n: "n \<le> length (bm_data b)" "written w1 = written w @ take n (bm_data b)" "0 < n" by auto
      have ok: "bm_ok (bm_advance A b n)" using less.prems n by (simp add: bm_advance_ok)
      have "length (bm_data (bm_advance A b n)) < length (bm_data b)" using n False by simp
      from less.hyps [OF this ok, of w1] obtain w' b' res' where
        IH: "flush_bytes A put w1 (bm_advance A b n) = Some (w', b', res')" "bm_ok b'"
          "written w' @ bm_data b' = written w @ bm_data b" "length (bm_data b') \<le> length (bm_data b)"
          "waits (wdelay w1) (wdelay w') res'" "flushed_post sink_err b' res'"
        using n by fastforce
      have "waits (wdelay w) (wdelay w') res'" using d 3 IH(5) by (auto simp: waits_def)
      with IH p 3 n False show ?thesis by (simp add: flush_bytes.simps [of _ _ w])
    qed (use False p post d less.prems in \<open>auto simp: flush_bytes.simps [of _ _ w] waits_simps\<close>)
  qed
qed

end

text \<open>\<open>Vec<u8>\<close>, which takes everything at once.\<close>

definition vec_flush :: "bytes \<Rightarrow> (bytes, unit) polled" where
  "vec_flush w = Some (w, Ready (Inr ()))"

interpretation vwrite: buffered_write vec_put "\<lambda>w. w" "\<lambda>_. False" vec_flush "\<lambda>_. 0" exact_alloc
  by unfold_locales (auto simp: vec_put_def vec_flush_def waits_simps)

interpretation swrite: buffered_write sink_put taken "\<lambda>_. True" sink_flush "\<lambda>k. plan_delay (plan k)" exact_alloc
  by unfold_locales

section \<open>\<open>.await\<close> and \<open>write_all\<close>\<close>

text \<open>A task polls a future until it is ready.\<close>

partial_function (option) await :: "('s \<Rightarrow> ('s, 'a) polled) \<Rightarrow> 's \<Rightarrow> ('s \<times> 'a io_result) option" where
  "await poll s = Option.bind (poll s) (\<lambda>(s', res). case res of Pending \<Rightarrow> await poll s' | Ready x \<Rightarrow> Some (s', x))"

lemma await_spec:
  assumes "I s" and step: "\<And>s. I s \<Longrightarrow> \<exists>s' res. poll s = Some (s', res) \<and>
      (case res of Pending \<Rightarrow> I s' \<and> m s' < (m s :: nat) | Ready x \<Rightarrow> Q s' x)"
  shows "\<exists>s' x. await poll s = Some (s', x) \<and> Q s' x"
  using assms(1)
proof (induction "m s" arbitrary: s rule: less_induct)
  case less
  from step [OF less.prems] obtain s' res where p: "poll s = Some (s', res)"
    and r: "case res of Pending \<Rightarrow> I s' \<and> m s' < m s | Ready x \<Rightarrow> Q s' x" by blast
  show ?case
  proof (cases res)
    case Pending
    with less.hyps [of s'] p r show ?thesis by (simp add: await.simps [of _ s])
  qed (use p r in \<open>simp add: await.simps [of _ s]\<close>)
qed

partial_function (option) write_all ::
  "('w \<Rightarrow> bytes \<Rightarrow> ('w, nat) polled) \<Rightarrow> 'w \<Rightarrow> bytes \<Rightarrow> ('w \<times> unit io_result) option" where
  "write_all put w buf =
     (if buf = [] then Some (w, Inr ())
      else Option.bind (await (\<lambda>w. put w buf) w) (\<lambda>(w', x). case x of
          Inl e \<Rightarrow> Some (w', Inl e)
        | Inr n \<Rightarrow>
            if length buf < n then None
            else if n = 0 then Some (w', Inl (IoError WriteZero ''write zero''))
            else write_all put w' (drop n buf)))"

text \<open>A sink that keeps an invariant relating its state to the bytes it was given. A pending poll
  brings the sink nearer to being ready.\<close>

fun accept_post ::
  "(bytes \<Rightarrow> 'w \<Rightarrow> bool) \<Rightarrow> (io_error \<Rightarrow> bool) \<Rightarrow> bytes \<Rightarrow> bytes \<Rightarrow> 'w \<Rightarrow> nat io_result poll \<Rightarrow> bool" where
  "accept_post I err p b w' Pending \<longleftrightarrow> I p w'"
| "accept_post I err p b w' (Ready (Inl e)) \<longleftrightarrow> err e"
| "accept_post I err p b w' (Ready (Inr n)) \<longleftrightarrow> n \<le> length b \<and> I (p @ take n b) w' \<and> (n = 0 \<longrightarrow> b = [])"

locale payload_sink =
  fixes put :: "'w \<Rightarrow> bytes \<Rightarrow> ('w, nat) polled"
    and I :: "bytes \<Rightarrow> 'w \<Rightarrow> bool"
    and err :: "io_error \<Rightarrow> bool"
    and m :: "'w \<Rightarrow> nat"
  assumes accept: "I p w \<Longrightarrow> \<exists>w' res. put w b = Some (w', res) \<and> accept_post I err p b w' res \<and> waits (m w) (m w') res"
begin

lemma write_all_spec:
  "I p w \<Longrightarrow> \<exists>w' x. write_all put w b = Some (w', x) \<and> (case x of Inl e \<Rightarrow> err e | Inr _ \<Rightarrow> I (p @ b) w')"
proof (induction "length b" arbitrary: p w b rule: less_induct)
  case less
  show ?case
  proof (cases "b = []")
    case True
    with less.prems show ?thesis by (simp add: write_all.simps)
  next
    case False
    have "\<exists>w1 x. await (\<lambda>w. put w b) w = Some (w1, x) \<and> accept_post I err p b w1 (Ready x)"
    proof (rule await_spec [where I = "I p" and m = m])
      show "\<exists>s' res. put s b = Some (s', res) \<and>
          (case res of Pending \<Rightarrow> I p s' \<and> m s' < m s | Ready x \<Rightarrow> accept_post I err p b s' (Ready x))" if g: "I p s" for s
      proof -
        obtain s' res where "put s b = Some (s', res)" "accept_post I err p b s' res" "waits (m s) (m s') res"
          using accept [OF g] by blast
        then show ?thesis by (cases res) (auto simp: waits_simps)
      qed
    qed (rule less.prems)
    then obtain w1 x where w1: "await (\<lambda>w. put w b) w = Some (w1, x)" "accept_post I err p b w1 (Ready x)" by blast
    show ?thesis
    proof (cases x)
      case (Inl e)
      with w1 False show ?thesis by (simp add: write_all.simps [of _ w])
    next
      case (Inr n)
      with w1 False have n: "n \<le> length b" "I (p @ take n b) w1" "0 < n" by auto
      have "length (drop n b) < length b" using n False by simp
      from less.hyps [OF this n(2), unfolded append_assoc append_take_drop_id] n w1 False Inr show ?thesis by (simp add: write_all.simps [of _ w])
    qed
  qed
qed

end

end
