(* ===== verification/Io_Adapters.thy ===== *)
theory Io_Adapters
  imports Write_Buf
begin

text \<open>
  Two adapters of \<open>harmonia-utils-io\<close>: \<open>AsyncBufReadCompat\<close> (\<open>compat.rs\<close>), which lends the bytes of an
  \<open>AsyncBytesRead\<close> as slices, and \<open>TeeWriter\<close> (\<open>tee.rs\<close>), which writes everything to two sinks through one buffer.

  The facts: the first keeps the contract of a buffered source (\<open>compat_contract\<close>); the second hands the same bytes to both sinks in
  order (\<open>tee_inv\<close>), but answers a large write with \<open>Ok(0)\<close> when its buffer is full (\<open>tee_poll_write_spec\<close>).
\<close>

section \<open>\<open>AsyncBufReadCompat\<close>\<close>

record 'r Compat =
  creader :: 'r
  cbuffer :: bytes

definition compat_new :: "'r \<Rightarrow> 'r Compat" where
  "compat_new reader = \<lparr>creader = reader, cbuffer = []\<rparr>"

definition compat_fill :: "('r \<Rightarrow> ('r, bytes) polled) \<Rightarrow> 'r Compat \<Rightarrow> ('r Compat, bytes) polled" where
  "compat_fill fill c =
     (if cbuffer c = [] then
        (case fill (creader c) of
           None \<Rightarrow> None
         | Some (r, Pending) \<Rightarrow> Some (c\<lparr>creader := r\<rparr>, Pending)
         | Some (r, Ready (Inl e)) \<Rightarrow> Some (c\<lparr>creader := r\<rparr>, Ready (Inl e))
         | Some (r, Ready (Inr b)) \<Rightarrow> Some (c\<lparr>creader := r, cbuffer := b\<rparr>, Ready (Inr b)))
      else Some (c, Ready (Inr (cbuffer c))))"

definition compat_consume :: "('r \<Rightarrow> nat \<Rightarrow> 'r option) \<Rightarrow> 'r Compat \<Rightarrow> nat \<Rightarrow> 'r Compat option" where
  "compat_consume consume c amt =
     (if amt \<le> length (cbuffer c)
      then map_option (\<lambda>r. c\<lparr>creader := r, cbuffer := drop amt (cbuffer c)\<rparr>) (consume (creader c) amt)
      else None)"

definition compat_read ::
  "('r \<Rightarrow> ('r, bytes) polled) \<Rightarrow> ('r \<Rightarrow> nat \<Rightarrow> 'r option) \<Rightarrow> 'r Compat \<Rightarrow> nat \<Rightarrow> ('r Compat, bytes) polled" where
  "compat_read fill consume = poll_read_by_fill (compat_fill fill) (compat_consume consume)"

definition compat_drain :: "('r \<Rightarrow> ('r, unit) polled) \<Rightarrow> 'r Compat \<Rightarrow> ('r Compat, unit) polled" where
  "compat_drain drain c = map_option (apfst (\<lambda>r. c\<lparr>creader := r, cbuffer := []\<rparr>)) (drain (creader c))"

definition compat_good :: "('r \<Rightarrow> bool) \<Rightarrow> ('r \<Rightarrow> bytes) \<Rightarrow> 'r Compat \<Rightarrow> bool" where
  "compat_good good avail c \<longleftrightarrow> good (creader c) \<and> prefix (cbuffer c) (avail (creader c))"

context buf_source
begin

lemma compat_contract:
  "buf_source (\<lambda>c. rest (creader c)) (compat_good good avail) src_err (compat_fill fill) (compat_consume consume) cbuffer"
proof (rule buf_sourceI)
  show "compat_good good avail c \<Longrightarrow> prefix (cbuffer c) (rest (creader c))" for c
    using avail_prefix by (auto simp: compat_good_def intro: prefix_order.trans)
  show "\<exists>c' res. compat_fill fill c = Some (c', res) \<and>
      (is_err res \<or> compat_good good avail c' \<and> length (cbuffer c) \<le> length (cbuffer c')) \<and>
      rest (creader c') = rest (creader c) \<and> fill_post src_err (rest (creader c)) (cbuffer c') res"
    if g: "compat_good good avail c" for c
  proof (cases "cbuffer c = []")
    case False
    with g show ?thesis by (simp add: compat_fill_def)
  next
    case True
    from g have "good (creader c)" by (simp add: compat_good_def)
    then show ?thesis by (cases rule: fill_cases) (use True in \<open>auto simp: compat_fill_def compat_good_def\<close>)
  qed
  show "\<exists>c'. compat_consume consume c n = Some c' \<and> compat_good good avail c' \<and>
      rest (creader c') = drop n (rest (creader c)) \<and> length (cbuffer c') = length (cbuffer c) - n"
    if g: "compat_good good avail c" and n: "n \<le> length (cbuffer c)" for c n
  proof -
    let ?r = "creader c"
    from g have r: "good ?r" and p: "prefix (cbuffer c) (avail ?r)" by (auto simp: compat_good_def)
    have le: "n \<le> length (avail ?r)" using n p by (auto dest: prefix_length_le)
    obtain r' where r': "consume ?r n = Some r'" "good r'" "rest r' = drop n (rest ?r)" "length (avail r') = length (avail ?r) - n"
      using consume_law [OF r le] by blast
    have "prefix (cbuffer c) (rest ?r)" using p avail_prefix [OF r] by (rule prefix_order.trans)
    then have "prefix (drop n (cbuffer c)) (rest r')" using n unfolding r'(3) by (auto elim!: prefixE)
    moreover have "prefix (avail r') (rest r')" using avail_prefix [OF r'(2)] .
    moreover have "length (drop n (cbuffer c)) \<le> length (avail r')" using p r'(4) by (auto dest!: prefix_length_le)
    ultimately have "prefix (drop n (cbuffer c)) (avail r')" by (rule prefix_length_prefix)
    with r' n show ?thesis by (simp add: compat_consume_def compat_good_def)
  qed
qed

end

interpretation scompat: buf_source "\<lambda>c. br_rest script_rest (creader c)" "compat_good (br_good (script_good E)) br_avail"
    "br_err (\<lambda>e. e \<in> E)" "compat_fill (br_fill script_read)" "compat_consume br_consume" cbuffer for E
  using sbr.compat_contract [of E] by (simp add: bytes_reader_ops_def)

section \<open>\<open>TeeWriter\<close>\<close>

text \<open>\<open>cap\<close> is the capacity that \<open>Vec::with_capacity(DEFAULT_BUF_SIZE)\<close> gives, at least \<open>DEFAULT_BUF_SIZE\<close>. It stays
  what it was: nothing is put beyond it, and \<open>clear\<close> keeps it.\<close>

record ('a, 'b) TeeWriter =
  tw_buf :: bytes
  tw_cap :: nat
  written1 :: nat
  written2 :: nat
  writer1 :: 'a
  writer2 :: 'b

definition tee_new :: "nat \<Rightarrow> 'a \<Rightarrow> 'b \<Rightarrow> ('a, 'b) TeeWriter" where
  "tee_new cap w1 w2 = \<lparr>tw_buf = [], tw_cap = cap, written1 = 0, written2 = 0, writer1 = w1, writer2 = w2\<rparr>"

text \<open>One half of a round: a poll of one sink with what it has not got yet, and its new counter.\<close>

definition tee_half ::
  "('w \<Rightarrow> bytes \<Rightarrow> ('w, nat) polled) \<Rightarrow> bytes \<Rightarrow> 'w \<Rightarrow> nat \<Rightarrow> ('w \<times> nat \<times> unit io_result poll) option" where
  "tee_half put buf w n =
     (if n < length buf then
        (case put w (drop n buf) of
           None \<Rightarrow> None
         | Some (w', Pending) \<Rightarrow> Some (w', n, Pending)
         | Some (w', Ready (Inl e)) \<Rightarrow> Some (w', n, Ready (Inl e))
         | Some (w', Ready (Inr k)) \<Rightarrow> Some (w', n + k, Ready (Inr ())))
      else Some (w, n, Ready (Inr ())))"

partial_function (option) tee_flush_loop ::
  "('a \<Rightarrow> bytes \<Rightarrow> ('a, nat) polled) \<Rightarrow> ('b \<Rightarrow> bytes \<Rightarrow> ('b, nat) polled) \<Rightarrow> ('a, 'b) TeeWriter \<Rightarrow> (('a, 'b) TeeWriter, unit) polled" where
  "tee_flush_loop put1 put2 tw =
     (if written1 tw < length (tw_buf tw) \<or> written2 tw < length (tw_buf tw) then
        Option.bind (tee_half put1 (tw_buf tw) (writer1 tw) (written1 tw)) (\<lambda>(w1, n1, res1).
          let tw1 = tw\<lparr>writer1 := w1, written1 := n1\<rparr> in
          case res1 of
            Pending \<Rightarrow> Some (tw1, Pending)
          | Ready x1 \<Rightarrow> (case x1 of
              Inl e \<Rightarrow> Some (tw1, Ready (Inl e))
            | Inr _ \<Rightarrow>
                Option.bind (tee_half put2 (tw_buf tw) (writer2 tw) (written2 tw)) (\<lambda>(w2, n2, res2).
                  let tw2 = tw1\<lparr>writer2 := w2, written2 := n2\<rparr> in
                  case res2 of
                    Pending \<Rightarrow> Some (tw2, Pending)
                  | Ready x2 \<Rightarrow> (case x2 of
                      Inl e \<Rightarrow> Some (tw2, Ready (Inl e))
                    | Inr _ \<Rightarrow> tee_flush_loop put1 put2 tw2))))
      else Some (tw\<lparr>tw_buf := [], written1 := 0, written2 := 0\<rparr>, Ready (Inr ())))"

definition tee_poll_flush_buf ::
  "('a \<Rightarrow> bytes \<Rightarrow> ('a, nat) polled) \<Rightarrow> ('b \<Rightarrow> bytes \<Rightarrow> ('b, nat) polled) \<Rightarrow> ('a, 'b) TeeWriter \<Rightarrow> (('a, 'b) TeeWriter, unit) polled" where
  "tee_poll_flush_buf put1 put2 tw = (if tw_buf tw \<noteq> [] then tee_flush_loop put1 put2 tw else Some (tw, Ready (Inr ())))"

definition tee_put :: "('a, 'b) TeeWriter \<Rightarrow> bytes \<Rightarrow> (('a, 'b) TeeWriter, nat) polled" where
  "tee_put tw buf =
     (let rem = min (length buf) (tw_cap tw - length (tw_buf tw))
      in Some (tw\<lparr>tw_buf := tw_buf tw @ take rem buf\<rparr>, Ready (Inr rem)))"

definition tee_poll_write ::
  "('a \<Rightarrow> bytes \<Rightarrow> ('a, nat) polled) \<Rightarrow> ('b \<Rightarrow> bytes \<Rightarrow> ('b, nat) polled) \<Rightarrow> ('a, 'b) TeeWriter \<Rightarrow> bytes \<Rightarrow> (('a, 'b) TeeWriter, nat) polled" where
  "tee_poll_write put1 put2 tw buf =
     (if length buf < tw_cap tw then
        (if tw_cap tw < length buf + length (tw_buf tw) then
           (case tee_poll_flush_buf put1 put2 tw of
              None \<Rightarrow> None
            | Some (tw', Pending) \<Rightarrow> Some (tw', Pending)
            | Some (tw', Ready (Inl e)) \<Rightarrow> Some (tw', Ready (Inl e))
            | Some (tw', Ready (Inr _)) \<Rightarrow> tee_put tw' buf)
         else tee_put tw buf)
      else tee_put tw buf)"

text \<open>\<open>poll_flush\<close> and \<open>poll_shutdown\<close> differ in what they call on the sinks behind the flush of the buffer.\<close>

definition tee_both ::
  "('a \<Rightarrow> ('a, unit) polled) \<Rightarrow> ('b \<Rightarrow> ('b, unit) polled) \<Rightarrow> ('a, 'b) TeeWriter \<Rightarrow> (('a, 'b) TeeWriter, unit) polled" where
  "tee_both f1 f2 tw =
     (case f1 (writer1 tw) of
        None \<Rightarrow> None
      | Some (w1, Pending) \<Rightarrow> Some (tw\<lparr>writer1 := w1\<rparr>, Pending)
      | Some (w1, Ready (Inl e)) \<Rightarrow> Some (tw\<lparr>writer1 := w1\<rparr>, Ready (Inl e))
      | Some (w1, Ready (Inr _)) \<Rightarrow>
          map_option (apfst (\<lambda>w2. tw\<lparr>writer1 := w1, writer2 := w2\<rparr>)) (f2 (writer2 tw)))"

definition tee_poll_flush ::
  "('a \<Rightarrow> bytes \<Rightarrow> ('a, nat) polled) \<Rightarrow> ('b \<Rightarrow> bytes \<Rightarrow> ('b, nat) polled) \<Rightarrow> ('a \<Rightarrow> ('a, unit) polled) \<Rightarrow> ('b \<Rightarrow> ('b, unit) polled) \<Rightarrow>
     ('a, 'b) TeeWriter \<Rightarrow> (('a, 'b) TeeWriter, unit) polled" where
  "tee_poll_flush put1 put2 flush1 flush2 tw =
     (case tee_poll_flush_buf put1 put2 tw of
        None \<Rightarrow> None
      | Some (tw', Pending) \<Rightarrow> Some (tw', Pending)
      | Some (tw', Ready (Inl e)) \<Rightarrow> Some (tw', Ready (Inl e))
      | Some (tw', Ready (Inr _)) \<Rightarrow> tee_both flush1 flush2 tw')"

definition tee_poll_shutdown ::
  "('a \<Rightarrow> bytes \<Rightarrow> ('a, nat) polled) \<Rightarrow> ('b \<Rightarrow> bytes \<Rightarrow> ('b, nat) polled) \<Rightarrow> ('a \<Rightarrow> ('a, unit) polled) \<Rightarrow> ('b \<Rightarrow> ('b, unit) polled) \<Rightarrow>
     ('a \<Rightarrow> ('a, unit) polled) \<Rightarrow> ('b \<Rightarrow> ('b, unit) polled) \<Rightarrow> ('a, 'b) TeeWriter \<Rightarrow> (('a, 'b) TeeWriter, unit) polled" where
  "tee_poll_shutdown put1 put2 flush1 flush2 shutdown1 shutdown2 tw =
     (case tee_poll_flush put1 put2 flush1 flush2 tw of
        None \<Rightarrow> None
      | Some (tw', Pending) \<Rightarrow> Some (tw', Pending)
      | Some (tw', Ready (Inl e)) \<Rightarrow> Some (tw', Ready (Inl e))
      | Some (tw', Ready (Inr _)) \<Rightarrow> tee_both shutdown1 shutdown2 tw')"

section \<open>What the sinks get\<close>

text \<open>Both sinks have got, or will get when the buffer is flushed, the bytes \<open>p\<close> behind what they held.\<close>

definition tee_inv :: "('a \<Rightarrow> bytes) \<Rightarrow> ('b \<Rightarrow> bytes) \<Rightarrow> bytes \<Rightarrow> bytes \<Rightarrow> bytes \<Rightarrow> ('a, 'b) TeeWriter \<Rightarrow> bool" where
  "tee_inv out1 out2 s1 s2 p tw \<longleftrightarrow> length (tw_buf tw) \<le> tw_cap tw \<and> written1 tw \<le> length (tw_buf tw) \<and> written2 tw \<le> length (tw_buf tw) \<and>
     out1 (writer1 tw) @ drop (written1 tw) (tw_buf tw) = s1 @ p \<and>
     out2 (writer2 tw) @ drop (written2 tw) (tw_buf tw) = s2 @ p"

fun tee_flush_post ::
  "(io_error \<Rightarrow> bool) \<Rightarrow> (('a, 'b) TeeWriter \<Rightarrow> bool) \<Rightarrow> nat \<Rightarrow> ('a, 'b) TeeWriter \<Rightarrow> unit io_result poll \<Rightarrow> bool" where
  "tee_flush_post err I cap tw' Pending \<longleftrightarrow> I tw' \<and> tw_cap tw' = cap"
| "tee_flush_post err I cap tw' (Ready (Inl e)) \<longleftrightarrow> I tw' \<and> tw_cap tw' = cap \<and> err e"
| "tee_flush_post err I cap tw' (Ready (Inr _)) \<longleftrightarrow> I tw' \<and> tw_cap tw' = cap \<and> tw_buf tw' = []"

text \<open>A write that fits the capacity is taken whole, a larger one only as far as there is room; an error loses nothing.\<close>

fun tee_write_post ::
  "(io_error \<Rightarrow> bool) \<Rightarrow> (bytes \<Rightarrow> ('a, 'b) TeeWriter \<Rightarrow> bool) \<Rightarrow> bytes \<Rightarrow> nat \<Rightarrow> nat \<Rightarrow> bytes \<Rightarrow> ('a, 'b) TeeWriter \<Rightarrow> nat io_result poll \<Rightarrow> bool" where
  "tee_write_post err I p cap used b tw' Pending \<longleftrightarrow> I p tw' \<and> tw_cap tw' = cap"
| "tee_write_post err I p cap used b tw' (Ready (Inl e)) \<longleftrightarrow> I p tw' \<and> tw_cap tw' = cap \<and> err e"
| "tee_write_post err I p cap used b tw' (Ready (Inr n)) \<longleftrightarrow> I (p @ take n b) tw' \<and> tw_cap tw' = cap \<and>
     n = (if length b < cap then length b else cap - used)"

definition half_post :: "(io_error \<Rightarrow> bool) \<Rightarrow> bytes \<Rightarrow> nat \<Rightarrow> bytes \<Rightarrow> bytes \<Rightarrow> nat \<Rightarrow> unit io_result poll \<Rightarrow> bool" where
  "half_post err buf n out out' n' res \<longleftrightarrow> n \<le> n' \<and> n' \<le> length buf \<and> out' @ drop n' buf = out @ drop n buf \<and>
     (case res of Pending \<Rightarrow> True | Ready (Inl e) \<Rightarrow> err e | Ready (Inr _) \<Rightarrow> n < length buf \<longrightarrow> n < n')"

context async_write
begin

lemma tee_half_spec:
  assumes "n \<le> length buf"
  shows "\<exists>w' n' res. tee_half put buf w n = Some (w', n', res) \<and> half_post sink_err buf n (written w) (written w') n' res"
proof (cases "n < length buf")
  case False
  with assms show ?thesis by (simp add: tee_half_def half_post_def)
next
  case True
  obtain w' res where p: "put w (drop n buf) = Some (w', res)"
    and post: "put_post sink_err (drop n buf) (written w) (written w') res"
    using put_law by blast
  consider "res = Pending" | e where "res = Ready (Inl e)" | k where "res = Ready (Inr k)"
    by (metis poll.exhaust sum.exhaust)
  then show ?thesis
  proof cases
    case (3 k)
    with post True have k: "0 < k" "k \<le> length buf - n" "written w' = written w @ take k (drop n buf)" by auto
    have "take k (drop n buf) @ drop (n + k) buf = drop n buf"
      by (metis add.commute append_take_drop_id drop_drop)
    with k 3 p True show ?thesis by (simp add: tee_half_def half_post_def)
  qed (use p post True in \<open>auto simp: tee_half_def half_post_def\<close>)
qed

end

locale tee_writing =
  s1: patient_sink put1 out1 sink_err flush1 delay1 + s2: patient_sink put2 out2 sink_err flush2 delay2
  for put1 :: "'a \<Rightarrow> bytes \<Rightarrow> ('a, nat) polled" and out1 flush1 delay1
    and put2 :: "'b \<Rightarrow> bytes \<Rightarrow> ('b, nat) polled" and out2 flush2 delay2 sink_err
begin

lemma tee_flush_loop_spec:
  "tee_inv out1 out2 s1 s2 p tw \<Longrightarrow> \<exists>tw' res. tee_flush_loop put1 put2 tw = Some (tw', res) \<and>
    tee_flush_post sink_err (tee_inv out1 out2 s1 s2 p) (tw_cap tw) tw' res"
proof (induction "2 * length (tw_buf tw) - (written1 tw + written2 tw)" arbitrary: tw rule: less_induct)
  case less
  let ?b = "tw_buf tw"
  show ?case
  proof (cases "written1 tw < length ?b \<or> written2 tw < length ?b")
    case False
    with less.prems show ?thesis by (simp add: tee_flush_loop.simps [of _ _ tw] tee_inv_def)
  next
    case True
    from less.prems have le: "written1 tw \<le> length ?b" "written2 tw \<le> length ?b" by (auto simp: tee_inv_def)
    obtain w1 n1 res1 where h1: "tee_half put1 ?b (writer1 tw) (written1 tw) = Some (w1, n1, res1)"
      and p1: "half_post sink_err ?b (written1 tw) (out1 (writer1 tw)) (out1 w1) n1 res1"
      using s1.tee_half_spec [OF le(1)] by blast
    obtain w2 n2 res2 where h2: "tee_half put2 ?b (writer2 tw) (written2 tw) = Some (w2, n2, res2)"
      and p2: "half_post sink_err ?b (written2 tw) (out2 (writer2 tw)) (out2 w2) n2 res2"
      using s2.tee_half_spec [OF le(2)] by blast
    let ?tw1 = "tw\<lparr>writer1 := w1, written1 := n1\<rparr>" and ?tw2 = "tw\<lparr>writer1 := w1, written1 := n1, writer2 := w2, written2 := n2\<rparr>"
    have inv1: "tee_inv out1 out2 s1 s2 p ?tw1" using less.prems p1 by (cases res1) (auto simp: tee_inv_def half_post_def)
    have inv2: "tee_inv out1 out2 s1 s2 p ?tw2" using inv1 p2 by (cases res2) (auto simp: tee_inv_def half_post_def)
    consider "res1 = Pending" | e where "res1 = Ready (Inl e)" | "res1 = Ready (Inr ())" "res2 = Pending"
      | e where "res1 = Ready (Inr ())" "res2 = Ready (Inl e)" | "res1 = Ready (Inr ())" "res2 = Ready (Inr ())"
      by (metis poll.exhaust sum.exhaust old.unit.exhaust)
    then show ?thesis
    proof cases
      case 5
      have "2 * length (tw_buf ?tw2) - (written1 ?tw2 + written2 ?tw2) < 2 * length ?b - (written1 tw + written2 tw)"
        using True le p1 p2 5 by (auto simp: half_post_def)
      from less.hyps [OF this inv2] 5 True h1 h2 show ?thesis by (simp add: tee_flush_loop.simps [of _ _ tw])
    qed (use True h1 h2 p1 p2 inv1 inv2 in \<open>auto simp: tee_flush_loop.simps [of _ _ tw] half_post_def\<close>)
  qed
qed

lemma tee_poll_flush_buf_spec:
  assumes "tee_inv out1 out2 s1 s2 p tw"
  shows "\<exists>tw' res. tee_poll_flush_buf put1 put2 tw = Some (tw', res) \<and>
    tee_flush_post sink_err (tee_inv out1 out2 s1 s2 p) (tw_cap tw) tw' res"
  using assms tee_flush_loop_spec [OF assms] by (simp add: tee_poll_flush_buf_def)

lemma tee_put_inv:
  assumes "tee_inv out1 out2 s1 s2 p tw" and "n \<le> length b" and "length (tw_buf tw) + n \<le> tw_cap tw"
  shows "tee_inv out1 out2 s1 s2 (p @ take n b) (tw\<lparr>tw_buf := tw_buf tw @ take n b\<rparr>)"
  using assms by (auto simp: tee_inv_def simp flip: append_assoc)

lemma tee_poll_write_spec:
  assumes inv: "tee_inv out1 out2 s1 s2 p tw"
  shows "\<exists>tw' res. tee_poll_write put1 put2 tw b = Some (tw', res) \<and>
    tee_write_post sink_err (tee_inv out1 out2 s1 s2) p (tw_cap tw) (length (tw_buf tw)) b tw' res"
proof -
  let ?I = "tee_inv out1 out2 s1 s2"
  have cap: "length (tw_buf tw) \<le> tw_cap tw" using inv by (simp add: tee_inv_def)
  consider (big) "tw_cap tw \<le> length b" | (fits) "length b < tw_cap tw" "length b + length (tw_buf tw) \<le> tw_cap tw"
    | (flush) "length b < tw_cap tw" "tw_cap tw < length b + length (tw_buf tw)" by linarith
  then show ?thesis
  proof cases
    case big
    have "?I (p @ take (tw_cap tw - length (tw_buf tw)) b) (tw\<lparr>tw_buf := tw_buf tw @ take (tw_cap tw - length (tw_buf tw)) b\<rparr>)"
      by (rule tee_put_inv) (use inv big cap in auto)
    then show ?thesis using big cap by (simp add: tee_poll_write_def tee_put_def min_absorb2 Let_def)
  next
    case fits
    have "?I (p @ take (length b) b) (tw\<lparr>tw_buf := tw_buf tw @ take (length b) b\<rparr>)"
      by (rule tee_put_inv) (use inv fits in auto)
    then show ?thesis using fits cap by (simp add: tee_poll_write_def tee_put_def min_def Let_def)
  next
    case flush
    obtain tw1 res where f: "tee_poll_flush_buf put1 put2 tw = Some (tw1, res)"
      and post: "tee_flush_post sink_err (?I p) (tw_cap tw) tw1 res"
      using tee_poll_flush_buf_spec [OF inv] by blast
    consider "res = Pending" | e where "res = Ready (Inl e)" | "res = Ready (Inr ())"
      by (metis poll.exhaust sum.exhaust old.unit.exhaust)
    then show ?thesis
    proof cases
      case 3
      with post have e: "tw_buf tw1 = []" "tw_cap tw1 = tw_cap tw" and i: "?I p tw1" by auto
      have "?I (p @ take (length b) b) (tw1\<lparr>tw_buf := tw_buf tw1 @ take (length b) b\<rparr>)"
        by (rule tee_put_inv) (use i e flush in auto)
      then show ?thesis using 3 e f flush by (simp add: tee_poll_write_def tee_put_def min_def Let_def)
    qed (use f post flush in \<open>auto simp: tee_poll_write_def\<close>)
  qed
qed

lemma tee_both_spec:
  assumes inv: "tee_inv out1 out2 s1 s2 p tw" and empty: "tw_buf tw = []"
  shows "\<exists>tw' res. tee_both flush1 flush2 tw = Some (tw', res) \<and> tee_flush_post sink_err (tee_inv out1 out2 s1 s2 p) (tw_cap tw) tw' res"
proof -
  obtain w1 res1 where f1: "flush1 (writer1 tw) = Some (w1, res1)" and o1: "out1 w1 = out1 (writer1 tw)" "flush_post sink_err res1"
    using s1.flush_law by blast
  obtain w2 res2 where f2: "flush2 (writer2 tw) = Some (w2, res2)" and o2: "out2 w2 = out2 (writer2 tw)" "flush_post sink_err res2"
    using s2.flush_law by blast
  have inv2: "tee_inv out1 out2 s1 s2 p (tw\<lparr>writer1 := w1\<rparr>)" "tee_inv out1 out2 s1 s2 p (tw\<lparr>writer1 := w1, writer2 := w2\<rparr>)"
    using inv o1 o2 by (simp_all add: tee_inv_def)
  consider "res1 = Pending" | e where "res1 = Ready (Inl e)" | "res1 = Ready (Inr ())" "res2 = Pending"
    | e where "res1 = Ready (Inr ())" "res2 = Ready (Inl e)" | "res1 = Ready (Inr ())" "res2 = Ready (Inr ())"
    by (metis poll.exhaust sum.exhaust old.unit.exhaust)
  then show ?thesis by cases (use f1 f2 o1 o2 inv2 empty in \<open>simp_all add: tee_both_def\<close>)
qed

lemma tee_poll_flush_spec:
  assumes "tee_inv out1 out2 s1 s2 p tw"
  shows "\<exists>tw' res. tee_poll_flush put1 put2 flush1 flush2 tw = Some (tw', res) \<and>
    tee_flush_post sink_err (tee_inv out1 out2 s1 s2 p) (tw_cap tw) tw' res"
proof -
  obtain tw1 res where f: "tee_poll_flush_buf put1 put2 tw = Some (tw1, res)"
    and post: "tee_flush_post sink_err (tee_inv out1 out2 s1 s2 p) (tw_cap tw) tw1 res"
    using tee_poll_flush_buf_spec [OF assms] by blast
  consider "res = Pending" | e where "res = Ready (Inl e)" | "res = Ready (Inr ())"
    by (metis poll.exhaust sum.exhaust old.unit.exhaust)
  then show ?thesis
  proof cases
    case 3
    with post have "tw_buf tw1 = []" "tee_inv out1 out2 s1 s2 p tw1" "tw_cap tw1 = tw_cap tw" by auto
    with tee_both_spec [OF this(2,1)] 3 f show ?thesis by (simp add: tee_poll_flush_def)
  qed (use f post in \<open>simp_all add: tee_poll_flush_def\<close>)
qed

end

interpretation stee: tee_writing sink_put taken sink_flush "\<lambda>k. plan_delay (plan k)" sink_put taken sink_flush "\<lambda>k. plan_delay (plan k)" "\<lambda>_. True"
  by unfold_locales

lemma tee_new_inv: "tee_inv out1 out2 (out1 w1) (out2 w2) [] (tee_new cap w1 w2)"
  by (simp add: tee_inv_def tee_new_def)

lemma tee_inv_flushed: "tee_inv out1 out2 s1 s2 p tw \<Longrightarrow> tw_buf tw = [] \<Longrightarrow> out1 (writer1 tw) = s1 @ p \<and> out2 (writer2 tw) = s2 @ p"
  by (simp add: tee_inv_def)

lemma tee_flush_post_inv: "tee_flush_post err I cap tw' res \<Longrightarrow> I tw'"
  by (elim tee_flush_post.elims) auto

lemma tee_flush_post_Ok: "tee_flush_post err I cap tw' (Ready (Inr u)) \<Longrightarrow> tw_buf tw' = []"
  by simp

lemma await_ready: "poll s = Some (s', Ready x) \<Longrightarrow> await poll s = Some (s', x)"
  by (subst await.simps) simp

section \<open>Properties\<close>

text \<open>\<^bold>\<open>TeeWriter copies.\<close> Over any two sinks, after writes that were given \<open>p\<close> (\<open>tee_inv\<close>): a poll of
  \<open>poll_write\<close> does not panic and does not loop, takes a write smaller than the capacity whole and a larger one as far as
  the buffer has room, and loses nothing when it is pending or fails; a flush that succeeds leaves both sinks with
  exactly \<open>p\<close> behind what they held.\<close>

theorem tee_writer_copies:
  assumes "tee_writing put1 out1 flush1 delay1 put2 out2 flush2 delay2 err"
    and "tee_inv out1 out2 s1 s2 p tw"
  shows "(\<exists>tw' res. tee_poll_write put1 put2 tw b = Some (tw', res) \<and>
      tee_write_post err (tee_inv out1 out2 s1 s2) p (tw_cap tw) (length (tw_buf tw)) b tw' res) \<and>
    (\<exists>tw' res. tee_poll_flush put1 put2 flush1 flush2 tw = Some (tw', res) \<and> tee_inv out1 out2 s1 s2 p tw' \<and>
      (res = Ready (Inr ()) \<longrightarrow> out1 (writer1 tw') = s1 @ p \<and> out2 (writer2 tw') = s2 @ p))"
  using tee_writing.tee_poll_write_spec [OF assms] tee_writing.tee_poll_flush_spec [OF assms]
  by (blast dest: tee_flush_post_inv tee_flush_post_Ok tee_inv_flushed)

text \<open>Three bytes are in the buffer, and the sinks are pending at first.\<close>

theorem tee_writer_copies_witness:
  "let k = \<lparr>taken = [9], plan = [KPending, KAccept 2]\<rparr>; tw = (tee_new 4 k k)\<lparr>tw_buf := [1, 2, 3]\<rparr> in
   tee_inv taken taken [9] [9] [1, 2, 3] tw \<and>
   (\<exists>tw' res. tee_poll_write sink_put sink_put tw [4, 5] = Some (tw', res) \<and>
      tee_write_post (\<lambda>_. True) (tee_inv taken taken [9] [9]) [1, 2, 3] 4 3 [4, 5] tw' res) \<and>
   (\<exists>tw' res. tee_poll_flush sink_put sink_put sink_flush sink_flush tw = Some (tw', res) \<and> tee_inv taken taken [9] [9] [1, 2, 3] tw' \<and>
      (res = Ready (Inr ()) \<longrightarrow> taken (writer1 tw') = [9, 1, 2, 3] \<and> taken (writer2 tw') = [9, 1, 2, 3]))"
proof -
  let ?k = "\<lparr>taken = [9], plan = [KPending, KAccept 2]\<rparr>"
  let ?tw = "(tee_new 4 ?k ?k)\<lparr>tw_buf := [1, 2, 3]\<rparr>"
  have inv: "tee_inv taken taken [9] [9] [1, 2, 3] ?tw" by (simp add: tee_inv_def tee_new_def)
  have cap: "tw_cap ?tw = 4" "length (tw_buf ?tw) = 3" by (simp_all add: tee_new_def)
  from tee_writer_copies [OF stee.tee_writing_axioms inv, of "[4, 5]"] inv show ?thesis
    unfolding Let_def cap append_Cons append_Nil by (intro conjI) blast+
qed

text \<open>\<^bold>\<open>A long write through TeeWriter fails.\<close> Whatever the sinks, \<open>write_all\<close> of at least twice the capacity on a fresh
  \<open>TeeWriter\<close> ends with \<open>WriteZero\<close>: its second poll finds the buffer full and answers \<open>Ok(0)\<close> without a flush.\<close>

theorem tee_long_write_fails:
  assumes "0 < cap" and "2 * cap \<le> length b"
  shows "write_all (tee_poll_write put1 put2) (tee_new cap w1 w2) b =
    Some ((tee_new cap w1 w2)\<lparr>tw_buf := take cap b\<rparr>, Inl (IoError WriteZero ''write zero''))"
proof -
  have first: "tee_poll_write put1 put2 (tee_new cap w1 w2) b = Some ((tee_new cap w1 w2)\<lparr>tw_buf := take cap b\<rparr>, Ready (Inr cap))"
    using assms by (simp add: tee_poll_write_def tee_put_def tee_new_def min_absorb2)
  have big: "\<not> length b - cap < cap" using assms by arith
  have second: "tee_poll_write put1 put2 ((tee_new cap w1 w2)\<lparr>tw_buf := take cap b\<rparr>) (drop cap b) =
      Some ((tee_new cap w1 w2)\<lparr>tw_buf := take cap b\<rparr>, Ready (Inr 0))"
    using assms big by (simp add: tee_poll_write_def tee_put_def tee_new_def min_absorb2)
  have "drop cap b \<noteq> []" using assms by auto
  then have "write_all (tee_poll_write put1 put2) ((tee_new cap w1 w2)\<lparr>tw_buf := take cap b\<rparr>) (drop cap b) =
      Some ((tee_new cap w1 w2)\<lparr>tw_buf := take cap b\<rparr>, Inl (IoError WriteZero ''write zero''))"
    by (subst write_all.simps) (simp add: await_ready [where poll = "\<lambda>w. tee_poll_write put1 put2 w (drop cap b)", OF second])
  moreover have "b \<noteq> []" "\<not> length b < cap" using assms by auto
  ultimately show ?thesis using assms(1) by (subst write_all.simps) (simp add: await_ready [where poll = "\<lambda>w. tee_poll_write put1 put2 w b", OF first])
qed

theorem tee_long_write_fails_witness:
  "write_all (tee_poll_write vec_put vec_put) (tee_new 2 [] []) [1, 2, 3, 4] =
    Some ((tee_new 2 [] [])\<lparr>tw_buf := [1, 2]\<rparr>, Inl (IoError WriteZero ''write zero''))"
  using tee_long_write_fails [of 2 "[1, 2, 3, 4]" vec_put vec_put "[]" "[]"] by simp

end
