(* ===== verification/Padded_Read.thy ===== *)
theory Padded_Read
  imports Padded_Reader
begin

text \<open>
  The \<open>AsyncRead\<close> of \<open>PaddedReader\<close> (\<open>harmonia-nar/src/padded_reader.rs\<close>), the one operation of the reader that does
  not go through \<open>AsyncBytesRead\<close>. The parser never calls it: a client reads a file through \<open>poll_fill_buf\<close>.

  The fact: it returns \<open>Ok\<close> only if the caller's buffer has room for the whole file and the file has at least
  eight bytes (\<open>padded_read_needs_room\<close>).
\<close>

section \<open>\<open>poll_read\<close>\<close>

text \<open>\<open>acc\<close> is what was put into the caller's buffer, \<open>cap\<close> the size of that buffer. \<open>None\<close> is a panic of the slice
  \<open>padding[pos..bound]\<close> or of the source, or a loop that does not end.\<close>

datatype 'r padded_round = Again "'r PaddedReader" bytes | Return "'r PaddedReader" bytes "unit io_result poll"

definition content_round ::
  "('r \<Rightarrow> nat \<Rightarrow> ('r, bytes) polled) \<Rightarrow> u64 \<Rightarrow> nat \<Rightarrow> 'r PaddedReader \<Rightarrow> bytes \<Rightarrow> 'r padded_round option" where
  "content_round read rem room pr acc =
     (case read (preader pr) (min (unat rem) room) of
        None \<Rightarrow> None
      | Some (r, Pending) \<Rightarrow> Some (Return (pr\<lparr>preader := r\<rparr>) acc Pending)
      | Some (r, Ready (Inl e)) \<Rightarrow> Some (Return (pr\<lparr>preader := r\<rparr>) acc (Ready (Inl e)))
      | Some (r, Ready (Inr b)) \<Rightarrow>
          if b = [] then Some (Return (pr\<lparr>preader := r\<rparr>) acc (Ready (Inl (IoError UnexpectedEof ''EOF before end of content''))))
          else let rem' = rem - of_nat (length b);
                   st = (if rem' = 0 then if 0 < trailer_size pr then ReadPadding 0 0 else PEof else Content rem')
            in Some (Again (pr\<lparr>preader := r, pstate := st\<rparr>) (acc @ b)))"

definition padded_round ::
  "('r \<Rightarrow> nat \<Rightarrow> ('r, bytes) polled) \<Rightarrow> nat \<Rightarrow> 'r PaddedReader \<Rightarrow> bytes \<Rightarrow> 'r padded_round option" where
  "padded_round read cap pr acc =
     (case pstate pr of
        Content rem \<Rightarrow> content_round read rem (cap - length acc) pr acc
      | ReadPadding start end \<Rightarrow>
          (case read_padding read (preader pr) (padding pr) end of
             None \<Rightarrow> None
           | Some (r, pad, end', Ready (Inr _)) \<Rightarrow> Some (Again (pr\<lparr>preader := r, padding := pad, pstate := Padding start\<rparr>) acc)
           | Some (r, pad, end', res) \<Rightarrow> Some (Return (pr\<lparr>preader := r, padding := pad, pstate := ReadPadding start end'\<rparr>) acc res))
      | Padding pos \<Rightarrow>
          (let bound = min (trailer_size pr - pos) (cap - length acc);
               st = (if pos + bound = trailer_size pr then PEof else Padding (pos + bound)) in
           if bound < pos then None
           else Some (Again (pr\<lparr>pstate := st\<rparr>) (acc @ drop pos (take bound (padding pr)))))
      | PEof \<Rightarrow> Some (Return pr acc (Ready (Inr ()))))"

partial_function (option) padded_read_loop ::
  "('r \<Rightarrow> nat \<Rightarrow> ('r, bytes) polled) \<Rightarrow> nat \<Rightarrow> 'r PaddedReader \<Rightarrow> bytes \<Rightarrow> ('r PaddedReader \<times> bytes \<times> unit io_result poll) option" where
  "padded_read_loop read cap pr acc =
     Option.bind (padded_round read cap pr acc) (\<lambda>round. case round of
        Again pr' acc' \<Rightarrow> padded_read_loop read cap pr' acc'
      | Return pr' acc' res \<Rightarrow> Some (pr', acc', res))"

definition padded_poll_read ::
  "('r \<Rightarrow> nat \<Rightarrow> ('r, bytes) polled) \<Rightarrow> 'r PaddedReader \<Rightarrow> nat \<Rightarrow> ('r PaddedReader \<times> bytes \<times> unit io_result poll) option" where
  "padded_poll_read read pr cap = padded_read_loop read cap pr []"

section \<open>A buffer without room\<close>

text \<open>There is less room than the rest of the file needs, or aligned contents that are used up are still to be read.\<close>

fun lacks_room :: "PState \<Rightarrow> nat \<Rightarrow> nat \<Rightarrow> bool" where
  "lacks_room (Content rem) trailer room \<longleftrightarrow> rem = 0 \<or> room < unat rem + trailer"
| "lacks_room (ReadPadding start _) trailer room \<longleftrightarrow> start = 0 \<and> room < trailer"
| "lacks_room (Padding pos) trailer room \<longleftrightarrow> pos \<le> trailer \<and> (pos = 0 \<or> room = 0) \<and> room < trailer - pos"
| "lacks_room PEof _ _ \<longleftrightarrow> False"

definition starved :: "('r \<Rightarrow> bool) \<Rightarrow> nat \<Rightarrow> 'r PaddedReader \<Rightarrow> bytes \<Rightarrow> bool" where
  "starved good cap pr acc \<longleftrightarrow> length acc \<le> cap \<and> length (padding pr) = 8 \<and> trailer_size pr \<le> 8 \<and>
     lacks_room (pstate pr) (trailer_size pr) (cap - length acc) \<and>
     (case pstate pr of Content _ \<Rightarrow> good (preader pr) | ReadPadding _ k \<Rightarrow> good (preader pr) \<and> k \<le> 8 | _ \<Rightarrow> True)"

text \<open>A round without room goes on without room, and does not return \<open>Ok\<close>.\<close>

fun starved_post :: "('r \<Rightarrow> bool) \<Rightarrow> nat \<Rightarrow> 'r padded_round \<Rightarrow> bool" where
  "starved_post good cap (Again pr acc) \<longleftrightarrow> starved good cap pr acc"
| "starved_post good cap (Return _ _ res) \<longleftrightarrow> res \<noteq> Ready (Inr ())"

context async_read
begin

lemma read_padding_length:
  "good r \<Longrightarrow> k \<le> 8 \<Longrightarrow> length pad = 8 \<Longrightarrow> read_padding read r pad k = Some (r', pad', k', res) \<Longrightarrow> length pad' = 8"
proof (induction "8 - k" arbitrary: r k pad rule: less_induct)
  case less
  show ?case
  proof (cases "k < 8")
    case True
    obtain r1 x where rd: "read r (8 - k) = Some (r1, x)" "is_err x \<or> good r1" "read_post src_err (8 - k) (rest r) (rest r1) x"
      using read_law [OF less.prems(1)] by blast
    consider (again) b where "x = Ready (Inr b)" "b \<noteq> []" | "x = Ready (Inr [])" | "x = Pending" | e where "x = Ready (Inl e)"
      by (metis poll.exhaust sum.exhaust)
    then show ?thesis
    proof cases
      case again
      with rd have b: "length b \<le> 8 - k" "good r1" by auto
      show ?thesis
        by (rule less.hyps [of "k + length b" r1 "take k pad @ b @ drop (k + length b) pad"])
          (use again b rd True less.prems in \<open>auto simp: read_padding.simps [of _ r] intro!: diff_less_mono2\<close>)
    qed (use rd True less.prems in \<open>auto simp: read_padding.simps [of _ r]\<close>)
  qed (use less.prems in \<open>simp add: read_padding.simps [of _ r]\<close>)
qed

lemma content_round_starved:
  assumes s: "starved good cap pr acc" and c: "pstate pr = Content rem"
    and round: "content_round read rem (cap - length acc) pr acc = Some rd"
  shows "starved_post good cap rd"
proof -
  let ?room = "cap - length acc"
  from s c have g: "good (preader pr)" and lacks: "rem = 0 \<or> ?room < unat rem + trailer_size pr" by (auto simp: starved_def)
  obtain r res where rd: "read (preader pr) (min (unat rem) ?room) = Some (r, res)" "is_err res \<or> good r"
    and post: "read_post src_err (min (unat rem) ?room) (rest (preader pr)) (rest r) res"
    using read_law [OF g] by blast
  consider (again) b where "res = Ready (Inr b)" "b \<noteq> []" | "res = Ready (Inr [])" | "res = Pending" | e where "res = Ready (Inl e)"
    by (metis poll.exhaust sum.exhaust)
  then show ?thesis
  proof cases
    case again
    let ?rem = "rem - of_nat (length b)"
    from again post have len: "length b \<le> unat rem" "length b \<le> ?room" "0 < length b" by auto
    have "unat (of_nat (length b) :: u64) = length b" using len(1) by (rule le_unat_uoi)
    then have u: "unat ?rem = unat rem - length b" using len(1) by (simp add: unat_sub_if')
    from len lacks have "?room < unat rem + trailer_size pr" by auto
    moreover from u have "?rem = 0 \<longleftrightarrow> unat rem = length b" using len by (auto simp: unat_eq_0 [symmetric])
    ultimately show ?thesis using again round rd len u s by (auto simp: content_round_def starved_def)
  qed (use round rd in \<open>auto simp: content_round_def\<close>)
qed

lemma padded_round_starved:
  assumes s: "starved good cap pr acc" and round: "padded_round read cap pr acc = Some rd"
  shows "starved_post good cap rd"
proof (cases "pstate pr")
  case (Content rem)
  with content_round_starved [OF s Content] round show ?thesis by (simp add: padded_round_def)
next
  case (ReadPadding start k)
  with s have k: "good (preader pr)" "k \<le> 8" "length (padding pr) = 8" by (simp_all add: starved_def)
  from ReadPadding round obtain r pad k' res where rp: "read_padding read (preader pr) (padding pr) k = Some (r, pad, k', res)"
    by (auto simp: padded_round_def split: option.splits)
  have "length pad = 8" using read_padding_length [OF k rp] .
  then have st: "starved good cap (pr\<lparr>preader := r, padding := pad, pstate := Padding start\<rparr>) acc"
    using s ReadPadding by (simp add: starved_def)
  consider "res = Pending" | e where "res = Ready (Inl e)" | "res = Ready (Inr ())"
    by (metis poll.exhaust sum.exhaust old.unit.exhaust)
  then show ?thesis by cases (use round st in \<open>auto simp: padded_round_def ReadPadding rp\<close>)
next
  case (Padding pos)
  let ?room = "cap - length acc"
  from s Padding have p: "length acc \<le> cap" "length (padding pr) = 8" "trailer_size pr \<le> 8" "pos = 0 \<or> ?room = 0" "?room < trailer_size pr - pos"
    by (auto simp: starved_def)
  then have bound: "min (trailer_size pr - pos) ?room = ?room" by simp
  from round Padding have "pos \<le> ?room"
    by (simp add: padded_round_def Let_def bound split: if_splits)
  with p have pos: "pos = 0" by auto
  with round Padding p have "rd = Again (pr\<lparr>pstate := Padding ?room\<rparr>) (acc @ take ?room (padding pr))"
    by (simp add: padded_round_def Let_def bound [unfolded pos])
  with p pos show ?thesis by (simp add: starved_def)
qed (use s in \<open>simp add: starved_def\<close>)

end

lemma padded_read_loop_starved:
  assumes "padded_read_loop read cap pr acc = Some y"
  shows "async_read read rest good src_err \<longrightarrow> starved good cap pr acc \<longrightarrow> snd (snd y) \<noteq> Ready (Inr ())"
proof (rule padded_read_loop.raw_induct [OF _ assms], intro impI)
  show "snd (snd y) \<noteq> Ready (Inr ())"
    if IH: "\<And>read cap pr acc y. loop read cap pr acc = Some y \<Longrightarrow>
        async_read read rest good src_err \<longrightarrow> starved good cap pr acc \<longrightarrow> snd (snd y) \<noteq> Ready (Inr ())"
      and body: "Option.bind (padded_round read cap pr acc) (\<lambda>round. case round of
        Again pr' acc' \<Rightarrow> loop read cap pr' acc' | Return pr' acc' res \<Rightarrow> Some (pr', acc', res)) = Some y"
      and src: "async_read read rest good src_err" and s: "starved good cap pr acc" for loop read cap pr acc y
  proof -
    from body obtain rd where rd: "padded_round read cap pr acc = Some rd" by (cases "padded_round read cap pr acc") auto
    with async_read.padded_round_starved [OF src s rd] body IH src show ?thesis by (cases rd) auto
  qed
qed

lemma padded_new_fields:
  "trailer_size (padded_new r len) = unat len mod 8" "pstate (padded_new r len) = Content (len AND NOT 7)"
  "preader (padded_new r len) = r" "padding (padded_new r len) = ZEROS"
proof -
  have u: "unat (len AND NOT 7) = unat len div 8 * 8" using and_not_7 [of len] by simp
  have "len AND NOT 7 \<le> len" unfolding word_le_nat_alt u by (rule div_times_less_eq_dividend)
  then have "unat (len - (len AND NOT 7)) = unat len mod 8" by (simp only: unat_sub u minus_div_mult_eq_mod)
  then show "trailer_size (padded_new r len) = unat len mod 8" by (simp only: padded_new_def Let_def PaddedReader.simps)
qed (simp_all only: padded_new_def Let_def PaddedReader.simps)

section \<open>Property\<close>

text \<open>\<^bold>\<open>AsyncRead of PaddedReader needs room for the whole file.\<close> Over any source, a poll of \<open>poll_read\<close> on the reader of a file
  of \<open>len\<close> bytes never returns \<open>Ok\<close> when the caller's buffer is smaller than the file, nor for any file of fewer than eight
  bytes; at the end of the room or of the aligned contents it reports an end of file that is not there.\<close>

theorem padded_read_needs_room:
  assumes src: "async_read read rest good src_err" and r: "good r" and small: "cap < unat len \<or> unat len < 8"
    and "padded_poll_read read (padded_new r len) cap = Some (pr', out, res)"
  shows "res \<noteq> Ready (Inr ())"
proof -
  have "unat len mod 8 < 8" "unat len div 8 * 8 + unat len mod 8 = unat len" by simp_all
  moreover have "len AND NOT 7 = 0" if "unat len < 8" using and_not_7 [of len] that by (simp add: unat_eq_0 [symmetric])
  ultimately have "starved good cap (padded_new r len) []"
    using small r and_not_7 [of len] by (auto simp: starved_def ZEROS_def padded_new_fields)
  with padded_read_loop_starved [of read cap "padded_new r len" "[]", THEN mp, THEN mp, OF _ src] assms(4) show ?thesis
    by (auto simp: padded_poll_read_def)
qed

text \<open>Eight bytes read into four: the error comes after the four bytes.\<close>

theorem padded_read_needs_room_witness:
  "\<exists>pr' res. padded_poll_read script_read (padded_new [SData [1, 2, 3, 4, 5, 6, 7, 8]] 8) 4 = Some (pr', [1, 2, 3, 4], res) \<and>
     res \<noteq> Ready (Inr ())"
proof -
  let ?r = "[SData [1, 2, 3, 4, 5, 6, 7, 8]]"
  have "\<exists>pr' res. padded_poll_read script_read (padded_new ?r 8) 4 = Some (pr', [1, 2, 3, 4], res)"
    unfolding padded_poll_read_def
    by (subst padded_read_loop.simps, simp add: padded_round_def content_round_def padded_new_def,
        subst padded_read_loop.simps, simp add: padded_round_def content_round_def)
  then obtain pr' res where p: "padded_poll_read script_read (padded_new ?r 8) 4 = Some (pr', [1, 2, 3, 4], res)" by blast
  have "res \<noteq> Ready (Inr ())"
    by (rule padded_read_needs_room [OF script.async_read_axioms [of "{}"] _ _ p]) (simp_all add: script_good_def)
  with p show ?thesis by blast
qed

end
