(* ===== verification/Nar_Properties.thy ===== *)
theory Nar_Properties
  imports Nar_Liveness
begin

text \<open>
  The properties of the archive library, \<open>harmonia-nar\<close>: the token selector, the recogniser, the
  readers, the parser and the writer, each alone and all of them together.
\<close>

section \<open>The token selector\<close>

primrec insert_all :: "nat \<Rightarrow> 'r RTree \<Rightarrow> (bytes \<times> 'r) list \<Rightarrow> 'r RTree option" where
  "insert_all B t [] = Some t"
| "insert_all B t (x # xs) =
     (case rtree_insert B t (fst x) (snd x) of None \<Rightarrow> None | Some t' \<Rightarrow> insert_all B t' xs)"

lemma insert_all_reach:
  "insert_all B t xs = Some t' \<Longrightarrow> rtree_inv B t \<Longrightarrow> 0 < nodes_len t \<Longrightarrow>
     rtree_inv B t' \<and> 0 < nodes_len t' \<and> (\<forall>p v. reach t' 0 p v \<longleftrightarrow> reach t 0 p v \<or> (p, v) \<in> set xs)"
proof (induction xs arbitrary: t)
  case (Cons x xs)
  then obtain t1 where t1: "rtree_insert B t (fst x) (snd x) = Some t1" "insert_all B t1 xs = Some t'"
    by (auto split: option.splits)
  from rtree_insert_next [OF Cons.prems(2,3) t1(1)] have "rtree_inv B t1" "0 < nodes_len t1"
    "\<And>p w. reach t1 0 p w \<longleftrightarrow> reach t 0 p w \<or> (p = fst x \<and> w = snd x)" by auto
  with Cons.IH [OF t1(2)] show ?case by (auto simp: prod_eq_iff)
qed simp

text \<open>
  A radix tree built by any sequence of insertions that does not run out of its fixed arrays is
  the set of its tokens: from the root, a lookup finds each inserted token at the head of any input,
  consumes exactly the token and yields its value, and it matches nothing else.
\<close>

theorem radix_lookup_exact:
  assumes "insert_all B (rtree_new n e) (x # xs) = Some t" "0 < B" "fst x \<noteq> []"
  shows "(\<forall>(p, v) \<in> set (x # xs). \<forall>rest. \<exists>m. lookup t (Node 0) (p @ rest) 0 = Some (Matched (length p), Node m) \<and>
            get_value t (Node m) = Some v) \<and>
         (\<forall>inp k st. lookup t (Node 0) inp 0 = Some (Matched k, st) \<longrightarrow>
            (\<exists>v. get_value t st = Some v \<and> (take k inp, v) \<in> set (x # xs)))"
proof -
  obtain t1 where t1: "rtree_insert B (rtree_new n e) (fst x) (snd x) = Some t1" "insert_all B t1 xs = Some t"
    using assms(1) by (auto split: option.splits)
  have "rtree_inv B t1" "0 < nodes_len t1" "\<And>p w. reach t1 0 p w \<longleftrightarrow> p = fst x \<and> w = snd x"
    using rtree_insert_first [OF t1(1) assms(2,3)] by auto
  with insert_all_reach [OF t1(2)] have inv: "rtree_inv B t" "0 < nodes_len t"
    and r: "\<And>p v. reach t 0 p v \<longleftrightarrow> (p, v) \<in> set (x # xs)" by (auto simp: prod_eq_iff)
  show ?thesis
    using lookup_reach [OF inv(1), of 0 _ _ _ 0] lookup_sound [OF inv(1), of "Node 0" _ 0] inv(2) r
    by (fastforce simp: valid_at_def ahead_def)
qed

theorem radix_lookup_exact_witness:
  "\<exists>t m. node_select = Some t \<and> lookup t (Node 0) (TOK_FILE @ [1, 2]) 0 = Some (Matched (length TOK_FILE), Node m) \<and>
     get_value t (Node m) = Some (ReadContentsLen NFile ZEROS 0)"
proof -
  let ?x = "(TOK_DIR, ReadDir)"
  let ?xs = "[(TOK_SYM, ReadContentsLen NSymlink ZEROS 0), (TOK_FILE, ReadContentsLen NFile ZEROS 0),
    (TOK_FILE_E, ReadContentsLen NExecutableFile ZEROS 0)]"
  obtain t where t: "node_select = Some t" using node_select_some by blast
  then have "insert_all 2 (rtree_new 7 6) (?x # ?xs) = Some t"
    by (auto simp: node_select_def split: option.splits)
  from radix_lookup_exact [OF this] have "\<exists>m. lookup t (Node 0) (TOK_FILE @ [1, 2]) 0 = Some (Matched (length TOK_FILE), Node m) \<and>
     get_value t (Node m) = Some (ReadContentsLen NFile ZEROS 0)" by simp
  with t show ?thesis by blast
qed

section \<open>The recogniser\<close>

text \<open>
  C25. The recogniser does not depend on how its input is cut: driving it over \<open>a @ b\<close> is driving it
  over \<open>a\<close> and then, unless it has stopped or failed, over \<open>b\<close> from the state it was left in, with
  the same state, the same number of bytes used and the same error. So every fragmentation of a stream by the
  network gives the same result.
\<close>

theorem drive_chunks:
  assumes "len_ok s"
  shows "outcome (drive P s (a @ b) p) =
     (case outcome (drive P s a p) of
        Some (Inr (s', n)) \<Rightarrow> if stops P s' then Some (Inr (s', n)) else outcome (drive P s' b n)
      | r \<Rightarrow> r)"
  using assms by (rule drive_append)

theorem drive_chunks_witness:
  "outcome (drive True inner_new (take 5 TOK_ROOT @ drop 5 TOK_ROOT) 0) =
     (case outcome (drive True inner_new (take 5 TOK_ROOT) 0) of
        Some (Inr (s', n)) \<Rightarrow> if stops True s' then Some (Inr (s', n)) else outcome (drive True s' (drop 5 TOK_ROOT) n)
      | r \<Rightarrow> r)"
  by (rule drive_chunks) (simp add: len_ok_def inner_new_def)

text \<open>
  The recogniser accepts every archive: from its initial state, over the bytes of any file
  system object whose strings fit a 64-bit length, followed by anything, it reaches the end state
  having used exactly the bytes of the archive.
\<close>

theorem drive_accepts_archives:
  assumes "nar_fits t"
  shows "\<exists>s. drive True inner_new (nar_bytes t @ rest) 0 = Some (s, Inr (length (nar_bytes t))) \<and> is_eof s"
  using drive_nar [OF assms] by (simp add: is_eof_def)

theorem drive_accepts_archives_witness:
  "\<exists>s. drive True inner_new (nar_bytes (NarDirectory [([97], NarFile True [1, 2, 3]), ([98], NarSymlink [97])]) @ [7]) 0 =
     Some (s, Inr (length (nar_bytes (NarDirectory [([97], NarFile True [1, 2, 3]), ([98], NarSymlink [97])])))) \<and> is_eof s"
  by (rule drive_accepts_archives) (simp add: fits_def)

section \<open>The NAR reader\<close>

text \<open>
  C26. \<open>NarReader\<close> over every buffered source: where the source's stream starts with an archive, a client that reads until
  the end is reported always gets there if the source does not fail, it has then read the bytes of the
  archive, all of them and nothing else, and the source stands at the first byte behind the archive.
\<close>

theorem nar_reader_exact:
  assumes "patient_source rest good src_err fill consume avail delay" "\<And>e. \<not> src_err e"
    and "good r" "rest r = nar_bytes t @ tail" "nar_fits t"
  shows "(\<exists>d nr. reads_out (nar_fill fill) (nar_consume consume) (nar_reader_new r) d nr) \<and>
    (\<forall>d nr. reads_out (nar_fill fill) (nar_consume consume) (nar_reader_new r) d nr \<longrightarrow>
       d = nar_bytes t \<and> rest (nreader nr) = tail)"
  using patient_source.nar_reads_out_total [OF assms(1,3-5,2)]
    buf_source.nar_reads_out [OF patient_source.axioms(1) [OF assms(1)] assms(3-5)] by blast

theorem nar_reader_exact_witness:
  "\<exists>nr. reads_out (nar_fill cursor_fill) (nar_consume cursor_consume)
      (nar_reader_new \<lparr>cdata = nar_bytes (NarFile False [104, 105]) @ [9], cpos = 0\<rparr>) (nar_bytes (NarFile False [104, 105])) nr \<and>
    cursor_rest (nreader nr) = [9]"
proof -
  let ?c = "\<lparr>cdata = nar_bytes (NarFile False [104, 105]) @ [9], cpos = 0\<rparr>"
  have "cursor_good ?c" "cursor_rest ?c = nar_bytes (NarFile False [104, 105]) @ [9]" "nar_fits (NarFile False [104, 105])"
    by (simp_all add: cursor_good_def cursor_rest_def fits_def del: nar_node.simps)
  from nar_reader_exact [OF pcursor.patient_source_axioms _ this] show ?thesis
    by (auto simp: cursor_ops_def)
qed

section \<open>The padded reader\<close>

text \<open>
  \<open>PaddedReader\<close> over every \<open>AsyncBytesRead\<close> source that stands at a padded string: it is itself
  a source of exactly the string, through any interleaving of fills and partial consumes, across the
  boundary between contents and padding, and no call panics; whatever has been read of it, draining it
  leaves the source at the first byte behind the padding.
\<close>

theorem padded_reader_exact:
  assumes "bytes_read ops rest good src_err avail" "good r" "fits c" "rest r = padded c @ tail"
  shows "buf_source (padded_rest rest) (\<lambda>pr. padded_good rest good pr \<and> padded_tail rest pr = tail) src_err
      (padded_fill ops) (padded_consume ops) (padded_avail avail) \<and>
    (let pr = padded_new r (word_of_nat (length c)) in
       padded_good rest good pr \<and> padded_tail rest pr = tail \<and> padded_rest rest pr = c) \<and>
    (\<forall>pr. padded_good rest good pr \<and> padded_tail rest pr = tail \<longrightarrow>
      (\<exists>pr' res. padded_drain ops pr = Some (pr', res) \<and>
        (case res of Pending \<Rightarrow> padded_good rest good pr' \<and> padded_tail rest pr' = tail | Ready (Inl e) \<Rightarrow> src_err e
         | Ready (Inr _) \<Rightarrow> good (preader pr') \<and> rest (preader pr') = tail)))"
proof (intro conjI allI impI)
  show "buf_source (padded_rest rest) (\<lambda>pr. padded_good rest good pr \<and> padded_tail rest pr = tail) src_err
      (padded_fill ops) (padded_consume ops) (padded_avail avail)"
    by (rule bytes_read.padded_contract_at [OF assms(1)])
  show "let pr = padded_new r (word_of_nat (length c)) in
       padded_good rest good pr \<and> padded_tail rest pr = tail \<and> padded_rest rest pr = c"
    using padded_new_good [where good = good and rest = rest, OF assms(2-4)] by (simp add: Let_def)
  fix pr assume pr: "padded_good rest good pr \<and> padded_tail rest pr = tail"
  then obtain pr' res where "padded_drain ops pr = Some (pr', res)" "padded_tail rest pr' = tail"
    "case res of Pending \<Rightarrow> padded_good rest good pr' | Ready (Inl e) \<Rightarrow> src_err e
       | Ready (Inr _) \<Rightarrow> good (preader pr') \<and> rest (preader pr') = tail"
    using bytes_read.padded_drain_spec [OF assms(1), of pr] by auto
  then show "\<exists>pr' res. padded_drain ops pr = Some (pr', res) \<and>
      (case res of Pending \<Rightarrow> padded_good rest good pr' \<and> padded_tail rest pr' = tail | Ready (Inl e) \<Rightarrow> src_err e
       | Ready (Inr _) \<Rightarrow> good (preader pr') \<and> rest (preader pr') = tail)"
    by (auto split: poll.splits sum.splits)
qed

theorem padded_reader_exact_witness:
  "\<exists>pr res. padded_drain cursor_ops (padded_new \<lparr>cdata = padded [1, 2, 3] @ [7], cpos = 0\<rparr> (word_of_nat 3)) = Some (pr, res) \<and>
     (case res of Ready (Inr _) \<Rightarrow> cursor_rest (preader pr) = [7] | Ready (Inl _) \<Rightarrow> False | Pending \<Rightarrow> True)"
proof -
  let ?c = "\<lparr>cdata = padded [1, 2, 3] @ [7], cpos = 0\<rparr>"
  have "cursor_good ?c" "fits [1, 2, 3]" "cursor_rest ?c = padded [1, 2, 3] @ [7]"
    by (simp_all add: cursor_good_def cursor_rest_def fits_def)
  from padded_reader_exact [OF cursor.bytes_read_axioms this] have *:
    "padded_good cursor_rest cursor_good (padded_new ?c 3) \<and> padded_tail cursor_rest (padded_new ?c 3) = [7]"
    "\<And>pr. padded_good cursor_rest cursor_good pr \<and> padded_tail cursor_rest pr = [7] \<Longrightarrow>
      (\<exists>pr' res. padded_drain cursor_ops pr = Some (pr', res) \<and>
        (case res of Pending \<Rightarrow> padded_good cursor_rest cursor_good pr' \<and> padded_tail cursor_rest pr' = [7] | Ready (Inl e) \<Rightarrow> False
         | Ready (Inr _) \<Rightarrow> cursor_good (preader pr') \<and> cursor_rest (preader pr') = [7]))"
    by (simp_all add: Let_def)
  from *(2) [OF *(1)] show ?thesis by (auto split: poll.splits sum.splits)
qed

section \<open>The parser\<close>

text \<open>
  C21. One poll of \<open>NarParser\<close> is one step of the event stream of the archive: in every state that
  stands for the events \<open>evs\<close> still to come, a poll never panics; an event it yields is the head of
  \<open>evs\<close> and the new state stands for the tail, for a file once the lent reader is given back, however much of
  it was read; the stream ends only where no event is left, with the source behind the archive; an error is one of the source; a pending poll
  keeps the state. The initial parser stands for all events of the archive.
\<close>

theorem parser_simulates_events:
  assumes "bytes_read ops rest good src_err avail"
  shows "(\<forall>np T evs. parser_at rest good T np evs \<longrightarrow>
      (\<exists>np' res. poll_next ops np = Some (np', res) \<and> poll_post rest good src_err T evs np' res)) \<and>
    (\<forall>r t T. good r \<longrightarrow> rest r = nar_bytes t @ T \<longrightarrow> nar_fits t \<longrightarrow>
      parser_at rest good T (parser_new r) (nar_events [] t))"
  using bytes_read.parser_step [OF assms] bytes_read.parser_new_at [OF assms] by blast

theorem parser_simulates_events_witness:
  "\<exists>np res. poll_next (bytes_reader_ops script_read) (parser_new (br_new (\<lambda>_. True) [SData (nar_bytes (NarSymlink [97])), SPending])) =
       Some (np, res) \<and>
     poll_post (br_rest script_rest) (br_good (script_good {})) (br_err (\<lambda>e. e \<in> {})) [] [Symlink [] [97]] np res"
proof -
  let ?s = "[SData (nar_bytes (NarSymlink [97])), SPending]"
  have "br_good (script_good {}) (br_new (\<lambda>_. True) ?s)" "br_rest script_rest (br_new (\<lambda>_. True) ?s) = nar_bytes (NarSymlink [97]) @ []"
    using br_build_good [of "script_good {}" ?s DEFAULT_RESERVED_BUF_SIZE DEFAULT_MAX_BUF_SIZE "\<lambda>_. True" script_rest]
    by (simp_all add: br_new_def script_good_def DEFAULT_RESERVED_BUF_SIZE_def DEFAULT_MAX_BUF_SIZE_def del: nar_node.simps)
  moreover have "nar_fits (NarSymlink [97])" "nar_events [] (NarSymlink [97]) = [Symlink [] [97]]" by (simp_all add: fits_def)
  ultimately show ?thesis using parser_simulates_events [OF sbr.bytes_read_axioms [of "{}"]] by metis
qed

text \<open>
  C14. \<open>NarParser\<close> over every source that does not fail and is not pending for ever, however the
  stream is cut: a client that polls for events and reads each file always gets to the
  end of the stream, and in every such run the events and the contents of the files are those of
  the archive, in order, and the source is left at the first byte behind it.
\<close>

theorem parser_yields_events:
  assumes "patient_read ops rest good src_err avail delay" "\<And>e. \<not> src_err e"
    and "good r" "rest r = nar_bytes t @ tail" "nar_fits t"
  shows "(\<exists>np. parses ops (parser_new r) (nar_events [] t) np) \<and>
    (\<forall>outs np. parses ops (parser_new r) outs np \<longrightarrow>
       outs = nar_events [] t \<and> (\<exists>r'. plend np = Available r' \<and> good r' \<and> rest r' = tail))"
proof -
  note br = patient_read.axioms(1) [OF assms(1)]
  note at = bytes_read.parser_new_at [OF br assms(3-5)]
  show ?thesis
    using patient_read.parses_total [OF assms(1) at assms(2)] bytes_read.parses_events [OF br _ at] by blast
qed

theorem parser_yields_events_witness:
  "\<exists>np. parses cursor_ops (parser_new \<lparr>cdata = nar_bytes (NarDirectory [([97], NarFile True [1, 2])]) @ [5], cpos = 0\<rparr>)
     [StartDirectory [], File [97] True 2 [1, 2], EndDirectory] np"
proof -
  let ?t = "NarDirectory [([97], NarFile True [1, 2])]"
  let ?c = "\<lparr>cdata = nar_bytes ?t @ [5], cpos = 0\<rparr>"
  have "cursor_good ?c" "cursor_rest ?c = nar_bytes ?t @ [5]" "nar_fits ?t"
    by (simp_all add: cursor_good_def cursor_rest_def fits_def del: nar_node.simps)
  from parser_yields_events [OF pcursor.patient_read_axioms _ this] show ?thesis by simp
qed

section \<open>The writer\<close>

text \<open>
  The encoder of events inverts the traversal of an archive: the events of a file system object,
  encoded one after the other at their nesting level, are the bytes of its archive.
\<close>

theorem events_encode_archive:
  "encode_events 0 (nar_events [] t) = nar_bytes t"
  by (rule encode_nar_events)

text \<open>A sink may answer \<open>Ok(0)\<close> to a non-empty buffer, when it is full for good. While its own buffer is flushed the writer reports that; while a
  file is copied it asks the sink again, for ever.\<close>

lemma flush_refused:
  assumes "buf \<noteq> []" "put w buf = Some (w', Ready (Inr 0))"
  shows "flush_buffer put w buf = Some (w', buf, Ready (Inl (IoError WriteZero ''wrote zero bytes'')))"
  using assms by (subst flush_buffer.simps) simp

lemma copy_refused:
  assumes "fill r = Some (r, Ready (Inr b))" "b \<noteq> []" "put w b = Some (w, Ready (Inr 0))" "consume r 0 = Some r"
  shows "copy_reader fill consume put r w = None"
proof -
  have "copy_reader fill consume put r w \<noteq> Some y" for y
  proof
    assume run: "copy_reader fill consume put r w = Some y"
    have "\<not> (fill r = Some (r, Ready (Inr b)) \<and> put w b = Some (w, Ready (Inr 0)) \<and> consume r 0 = Some r)"
    proof (rule copy_reader.raw_induct [where P = "\<lambda>f c p r w y.
          \<not> (f r = Some (r, Ready (Inr b)) \<and> p w b = Some (w, Ready (Inr 0)) \<and> c r 0 = Some r)", OF _ run], goal_cases)
      case (1 loop f c p r w y)
      show ?case using 1(1) [of f c p r w y] 1(2) assms(2) by auto
    qed
    with assms show False by blast
  qed
  then show ?thesis by (cases "copy_reader fill consume put r w") auto
qed

text \<open>
  C20. \<open>NarWriter\<close> refines the encoder of events, over a sink that takes at least one byte of a non-empty buffer, waits or
  fails. With \<open>writer_out\<close> the bytes written so far followed by
  those the writer still owes: \<open>poll_ready\<close> and the flush never panic and never change it, whatever part of
  the buffer, of a file and of its padding has reached the sink; a ready writer has nothing
  of a file left; a finished flush has written all of it; and \<open>start_send\<close>, at any level and for every event
  but a close of an unopened directory, appends exactly the encoding of the event.
  A sink that answers \<open>Ok(0)\<close> instead is covered by the last two parts: when it refuses the writer's own buffer, \<open>poll_ready\<close>
  fails with \<open>WriteZero\<close> and keeps the buffer; when it refuses the bytes of a file and stays as it is, \<open>poll_ready\<close> never returns.
\<close>

theorem writer_refines_encoder:
  assumes "nar_writing rest good src_err fill consume avail put written sink_err" "writer_inv good nw"
  shows "(\<exists>nw' res. writer_poll_ready fill consume put nw = Some (nw', res) \<and>
      (case res of Ready (Inl e) \<Rightarrow> src_err e \<or> sink_err e
       | _ \<Rightarrow> writer_inv good nw' \<and> writer_out rest written nw' = writer_out rest written nw) \<and>
      (res = Ready (Inr ()) \<longrightarrow> writer_idle nw')) \<and>
    (\<exists>nw' res. poll_flush_buf fill consume put nw = Some (nw', res) \<and>
      (case res of Pending \<Rightarrow> writer_inv good nw' \<and> writer_out rest written nw' = writer_out rest written nw
       | Ready (Inl e) \<Rightarrow> src_err e \<or> sink_err e
       | Ready (Inr _) \<Rightarrow> written (wwriter nw') = writer_out rest written nw)) \<and>
    (\<forall>ev. writer_idle nw \<longrightarrow> pred_NarEvent good ev \<longrightarrow> (ev = EndDirectory \<longrightarrow> 0 < wlevel nw) \<longrightarrow>
      (\<exists>nw'. start_send nw ev = Some nw' \<and> writer_inv good nw' \<and> wlevel nw' = event_level (wlevel nw) ev \<and>
        writer_out rest written nw' =
          writer_out rest written nw @ encode_event (wlevel nw) (map_NarEvent rest ev))) \<and>
    (\<forall>put0 w'. (is_flushing (wstate nw) \<or> cutoff nw < length (wbuffer nw)) \<and> wbuffer nw \<noteq> [] \<and>
        put0 (wwriter nw) (wbuffer nw) = Some (w', Ready (Inr 0)) \<longrightarrow>
      (\<exists>nw'. writer_poll_ready fill consume put0 nw = Some (nw', Ready (Inl (IoError WriteZero ''wrote zero bytes''))) \<and>
        wwriter nw' = w' \<and> wbuffer nw' = wbuffer nw)) \<and>
    (\<forall>put0 r b. \<not> is_flushing (wstate nw) \<and> length (wbuffer nw) \<le> cutoff nw \<and> wreader nw = Some r \<and>
        fill r = Some (r, Ready (Inr b)) \<and> b \<noteq> [] \<and> consume r 0 = Some r \<and> put0 (wwriter nw) b = Some (wwriter nw, Ready (Inr 0)) \<longrightarrow>
      writer_poll_ready fill consume put0 nw = None)"
proof -
  have "\<exists>nw'. writer_poll_ready fill consume put0 nw = Some (nw', Ready (Inl (IoError WriteZero ''wrote zero bytes''))) \<and>
      wwriter nw' = w' \<and> wbuffer nw' = wbuffer nw"
    if h: "is_flushing (wstate nw) \<or> cutoff nw < length (wbuffer nw)" "wbuffer nw \<noteq> []" "put0 (wwriter nw) (wbuffer nw) = Some (w', Ready (Inr 0))"
    for put0 w'
    using flush_refused [of "wbuffer nw" put0, OF h(2,3)] h(1)
    by (cases "wstate nw") (auto simp: writer_poll_ready_def Let_def is_flushing_def)
  moreover have "writer_poll_ready fill consume put0 nw = None"
    if "\<not> is_flushing (wstate nw)" "length (wbuffer nw) \<le> cutoff nw" "wreader nw = Some r"
      "fill r = Some (r, Ready (Inr b))" "b \<noteq> []" "consume r 0 = Some r" "put0 (wwriter nw) b = Some (wwriter nw, Ready (Inr 0))" for put0 r b
    using that copy_refused [of fill r b put0 "wwriter nw" consume]
    by (cases "wstate nw") (simp_all add: writer_poll_ready_def writer_copy_def Let_def is_flushing_def)
  ultimately show ?thesis
    using nar_writing.poll_ready_spec [OF assms] nar_writing.poll_flush_buf_spec [OF assms] nar_writing.start_send_out [OF assms] by blast
qed

theorem writer_refines_encoder_witness:
  "\<exists>nw. start_send (writer_new [] :: (Cursor, bytes) NarWriter) (Symlink [] [97]) = Some nw \<and>
     writer_out cursor_rest (\<lambda>w. w) nw = encode_event 0 (Symlink [] [97])"
proof -
  have "writer_inv cursor_good (writer_new [] :: (Cursor, bytes) NarWriter)"
    by (simp add: writer_inv_def writer_new_def DEFAULT_RESERVED_BUF_SIZE_def)
  from writer_refines_encoder [OF pvec.nar_writing_axioms this] have
    "\<And>ev. writer_idle (writer_new [] :: (Cursor, bytes) NarWriter) \<Longrightarrow> pred_NarEvent cursor_good ev \<Longrightarrow>
      (ev = EndDirectory \<longrightarrow> 0 < wlevel (writer_new [] :: (Cursor, bytes) NarWriter)) \<Longrightarrow>
      (\<exists>nw'. start_send (writer_new [] :: (Cursor, bytes) NarWriter) ev = Some nw' \<and>
        writer_out cursor_rest (\<lambda>w. w) nw' = writer_out cursor_rest (\<lambda>w. w) (writer_new [] :: (Cursor, bytes) NarWriter) @
          encode_event (wlevel (writer_new [] :: (Cursor, bytes) NarWriter)) (map_NarEvent cursor_rest ev))"
    by blast
  from this [of "Symlink [] [97]"] show ?thesis
    by (simp add: writer_idle_def writer_new_def is_flushing_def writer_out_def)
qed

text \<open>
  C15. \<open>NarWriter\<close> writes archives: sent the events of a file system object, with readers and a sink
  that do not fail and are not pending for ever, a client gets to the end of the flush, and in every
  such run what was appended to the sink is the archive of the object.
\<close>

theorem writer_writes_archive:
  assumes "patient_writing rest good src_err fill consume avail put written sink_err delay wdelay"
    and "\<And>e. \<not> src_err e" "\<And>e. \<not> sink_err e"
    and evs: "map (map_NarEvent rest) evs = nar_events [] t" "list_all (pred_NarEvent good) evs"
  shows "(\<exists>nw. writes fill consume put (writer_new w) evs nw) \<and>
    (\<forall>nw. writes fill consume put (writer_new w) evs nw \<longrightarrow> written (wwriter nw) = written w @ nar_bytes t)"
proof -
  let ?nw = "writer_new w :: ('a, 'b) NarWriter"
  have "writer_inv good ?nw" "wlevel ?nw = 0"
    by (simp_all add: writer_inv_def writer_new_def DEFAULT_RESERVED_BUF_SIZE_def)
  moreover have "levels_ok 0 evs" using levels_ok_nar [of t] levels_ok_map [of 0 rest evs] evs(1) by simp
  ultimately have "\<exists>nw. writes fill consume put ?nw evs nw"
    using patient_writing.writes_total [OF assms(1), of ?nw evs] assms(2,3) evs(2) by auto
  with nar_writing.writes_nar [OF patient_writing.axioms(1) [OF assms(1)] _ evs] show ?thesis by blast
qed

theorem writer_writes_archive_witness:
  "\<exists>nw. writes cursor_fill cursor_consume vec_put (writer_new [])
     [StartDirectory [], File [97] False 1 \<lparr>cdata = [42], cpos = 0\<rparr>, EndDirectory] nw \<and>
     wwriter nw = nar_bytes (NarDirectory [([97], NarFile False [42])])"
  using writer_writes_archive [OF pvec.patient_writing_axioms, where w = "[]"
      and evs = "[StartDirectory [], File [97] False 1 \<lparr>cdata = [42], cpos = 0\<rparr>, EndDirectory]"
      and t = "NarDirectory [([97], NarFile False [42])]"]
  by (auto simp: cursor_rest_def cursor_good_def)

section \<open>Writing and parsing\<close>

text \<open>
  C1. Round trip. The events of a file system object, sent to a \<open>NarWriter\<close> over a vector with the files'
  contents in memory, give bytes from which a \<open>NarParser\<close> yields the same events with the same
  contents, to the end of the stream.
\<close>

theorem nar_roundtrip:
  assumes "map (map_NarEvent cursor_rest) evs = nar_events [] t" "list_all (pred_NarEvent cursor_good) evs" "nar_fits t"
  shows "\<exists>nw np. writes cursor_fill cursor_consume vec_put (writer_new []) evs nw \<and>
    parses cursor_ops (parser_new \<lparr>cdata = wwriter nw, cpos = 0\<rparr>) (map (map_NarEvent cursor_rest) evs) np"
proof -
  obtain nw where nw: "writes cursor_fill cursor_consume vec_put (writer_new []) evs nw"
    using pvec.writes_total [of "writer_new []" evs] assms levels_ok_nar [of t] levels_ok_map [of 0 cursor_rest evs]
    by (auto simp: writer_inv_def writer_new_def DEFAULT_RESERVED_BUF_SIZE_def)
  then have w: "wwriter nw = nar_bytes t" using pvec.writes_nar [OF nw assms(1,2)] by simp
  let ?c = "\<lparr>cdata = wwriter nw, cpos = 0\<rparr>"
  have "parser_at cursor_rest cursor_good [] (parser_new ?c) (nar_events [] t)"
    using assms(3) w by (intro cursor.parser_new_at) (simp_all add: cursor_good_def cursor_rest_def)
  from pcursor.parses_total [OF this] nw assms(1) show ?thesis by auto
qed

theorem nar_roundtrip_witness:
  "\<exists>nw np. writes cursor_fill cursor_consume vec_put (writer_new []) [File [] True 3 \<lparr>cdata = [1, 2, 3], cpos = 0\<rparr>] nw \<and>
    parses cursor_ops (parser_new \<lparr>cdata = wwriter nw, cpos = 0\<rparr>) [File [] True 3 [1, 2, 3]] np"
  using nar_roundtrip [of "[File [] True 3 \<lparr>cdata = [1, 2, 3], cpos = 0\<rparr>]" "NarFile True [1, 2, 3]"]
  by (simp add: cursor_rest_def cursor_good_def fits_def)

end
