(* ===== verification/Base_Encoding.thy ===== *)
theory Base_Encoding
  imports Prelude
begin

text \<open>
  \<open>harmonia-utils-base-encoding\<close>: Nix base32, base16 and base64 on top of the crate
  \<open>data_encoding\<close>. The crate is a parameter, a record of the operations of its type
  \<open>Encoding\<close>; what the code relies on of it is the locale \<open>codec\<close>, and the three encodings together are
  the locale \<open>data_encoding\<close>. Text is a \<open>string\<close> of the bytes of its UTF-8 form.

  The facts: the length functions agree with the crate's, so no call panics; encoding and decoding are
  inverse for each base; the reversal of Nix base32 keeps error positions within the input.
\<close>

section \<open>ASCII case\<close>

definition ascii_lower :: "char \<Rightarrow> char" where
  "ascii_lower c = (if 65 \<le> (of_char c :: nat) \<and> (of_char c :: nat) \<le> 90 then char_of (of_char c + 32 :: nat) else c)"

definition eq_ignore_ascii_case :: "string \<Rightarrow> string \<Rightarrow> bool" where
  "eq_ignore_ascii_case a b \<longleftrightarrow> map ascii_lower a = map ascii_lower b"

section \<open>The crate\<close>

datatype DecodeKind = DLength | DSymbol | DTrailing | DPadding

record DecodeError =
  position :: nat
  dkind :: DecodeKind

record DecodePartial =
  pread :: nat
  pwritten :: nat
  perror :: DecodeError

text \<open>\<open>encode_len\<close> and \<open>decode_len\<close> give the size of the output buffer, \<open>codec_encode\<close> and
  \<open>codec_decode\<close> what is written to it when it has this size.\<close>

record Codec =
  codec_encode_len :: "nat \<Rightarrow> nat"
  codec_decode_len :: "nat \<Rightarrow> nat option"
  codec_encode :: "bytes \<Rightarrow> string"
  codec_decode :: "string \<Rightarrow> DecodePartial + bytes"

definition codec_encode_mut :: "Codec \<Rightarrow> bytes \<Rightarrow> nat \<Rightarrow> string option" where
  "codec_encode_mut c inp out_len =
     (if out_len = codec_encode_len c (length inp) then Some (codec_encode c inp) else None)"

definition codec_decode_mut :: "Codec \<Rightarrow> string \<Rightarrow> nat \<Rightarrow> (DecodePartial + bytes) option" where
  "codec_decode_mut c inp out_len =
     (if codec_decode_len c (length inp) = Some out_len then Some (codec_decode c inp) else None)"

locale codec =
  fixes c :: Codec
  assumes encode_length: "length (codec_encode c b) = codec_encode_len c (length b)"
    and decode_encode: "codec_decode c (codec_encode c b) = Inr b"
    and decode_length: "codec_decode_len c (length s) = Some n \<Longrightarrow> codec_decode c s = Inr b \<Longrightarrow> length b \<le> n"
    and error_position: "codec_decode_len c (length s) = Some n \<Longrightarrow> codec_decode c s = Inl e \<Longrightarrow>
      position (perror e) < length s"

section \<open>Nix base32\<close>

definition NIX_SYMBOLS :: string where
  "NIX_SYMBOLS = ''0123456789abcdfghijklmnpqrsvwxyz''"

definition encode_len :: "nat \<Rightarrow> nat" where
  "encode_len len = (8 * len + 4) div 5"

definition decode_len_internal :: "nat \<Rightarrow> nat \<times> nat" where
  "decode_len_internal len = (let trail = len * 5 mod 8 in (len - trail div 5, 5 * len div 8))"

definition decode_len :: "nat \<Rightarrow> nat option" where
  "decode_len len = (let (ilen, olen) = decode_len_internal len in if ilen \<noteq> len then None else Some olen)"

definition encode_string :: "Codec \<Rightarrow> bytes \<Rightarrow> string" where
  "encode_string b32 inp = rev (codec_encode b32 inp)"

definition encode_mut :: "Codec \<Rightarrow> bytes \<Rightarrow> nat \<Rightarrow> string option" where
  "encode_mut b32 inp out_len = map_option rev (codec_encode_mut b32 inp out_len)"

definition decode_mut :: "Codec \<Rightarrow> string \<Rightarrow> nat \<Rightarrow> (DecodePartial + bytes) option" where
  "decode_mut b32 inp out_len =
     (case codec_decode_mut b32 (rev inp) out_len of
        None \<Rightarrow> None
      | Some (Inr b) \<Rightarrow> Some (Inr b)
      | Some (Inl err) \<Rightarrow>
          if length inp < position (perror err) + 1 then None
          else let adjusted_pos = length inp - position (perror err) - 1 in
            Some (Inl \<lparr>pread = adjusted_pos div 8 * 8, pwritten = adjusted_pos div 8 * 5,
              perror = \<lparr>position = adjusted_pos, dkind = dkind (perror err)\<rparr>\<rparr>))"

section \<open>The bases\<close>

definition base64_len :: "nat \<Rightarrow> nat" where
  "base64_len len = (4 * len div 3 + 3) div 4 * 4"

datatype Base = Hex | NixBase32 | Base64

primrec base_name :: "Base \<Rightarrow> string" where
  "base_name Hex = ''base16''"
| "base_name NixBase32 = ''nixbase32''"
| "base_name Base64 = ''base64''"

definition base_of_name :: "string \<Rightarrow> Base option" where
  "base_of_name s =
     (if s = ''base16'' then Some Hex
      else if s = ''base64'' then Some Base64
      else if s = ''nix32'' \<or> s = ''nixbase32'' then Some NixBase32
      else None)"

primrec input_len :: "Base \<Rightarrow> nat \<Rightarrow> nat" where
  "input_len Hex n = n * 2"
| "input_len NixBase32 n = encode_len n"
| "input_len Base64 n = base64_len n"

primrec scratch_len :: "Base \<Rightarrow> nat \<Rightarrow> nat" where
  "scratch_len Hex n = n"
| "scratch_len NixBase32 n = n"
| "scratch_len Base64 n = base64_len n div 4 * 3"

record Codecs =
  hexlower :: Codec
  nix_base32 :: Codec
  base64 :: Codec

primrec decode_for_base :: "Codecs \<Rightarrow> Base \<Rightarrow> string \<Rightarrow> nat \<Rightarrow> (DecodePartial + bytes) option" where
  "decode_for_base cs Hex = codec_decode_mut (hexlower cs)"
| "decode_for_base cs NixBase32 = decode_mut (nix_base32 cs)"
| "decode_for_base cs Base64 = codec_decode_mut (base64 cs)"

primrec encode_for_base :: "Codecs \<Rightarrow> Base \<Rightarrow> bytes \<Rightarrow> nat \<Rightarrow> string option" where
  "encode_for_base cs Hex = codec_encode_mut (hexlower cs)"
| "encode_for_base cs NixBase32 = encode_mut (nix_base32 cs)"
| "encode_for_base cs Base64 = codec_encode_mut (base64 cs)"

text \<open>What an encoding writes for some bytes, and how one base is encoded and decoded.\<close>

primrec base_encode :: "Codecs \<Rightarrow> Base \<Rightarrow> bytes \<Rightarrow> string" where
  "base_encode cs Hex b = codec_encode (hexlower cs) b"
| "base_encode cs NixBase32 b = rev (codec_encode (nix_base32 cs) b)"
| "base_encode cs Base64 b = codec_encode (base64 cs) b"

text \<open>The documented behaviour of \<open>HEXLOWER_PERMISSIVE\<close>, \<open>BASE64\<close> and an encoding without padding over
  32 symbols: the lengths, the alphabets, and that without padding the trailing bits are checked, so that
  only what the encoder writes is decoded.\<close>

definition HEX_SYMBOLS :: string where
  "HEX_SYMBOLS = ''0123456789abcdef''"

definition B64_SYMBOLS :: string where
  "B64_SYMBOLS = ''ABCDEFGHIJKLMNOPQRSTUVWXYZabcdefghijklmnopqrstuvwxyz0123456789+/=''"

definition hex_byte :: "u8 \<Rightarrow> string" where
  "hex_byte w = [HEX_SYMBOLS ! (unat w div 16), HEX_SYMBOLS ! (unat w mod 16)]"

locale data_encoding =
  hex: codec "hexlower cs" + b32: codec "nix_base32 cs" + b64: codec "base64 cs" for cs :: Codecs +
  assumes hex_encode_len: "codec_encode_len (hexlower cs) n = 2 * n"
    and hex_decode_len: "codec_decode_len (hexlower cs) n = (if even n then Some (n div 2) else None)"
    and b32_encode_len: "codec_encode_len (nix_base32 cs) n = (8 * n + 4) div 5"
    and b32_decode_len: "codec_decode_len (nix_base32 cs) n =
      (if 5 \<le> n * 5 mod 8 then None else Some (n * 5 div 8))"
    and b64_encode_len: "codec_encode_len (base64 cs) n = (n + 2) div 3 * 4"
    and b64_decode_len: "codec_decode_len (base64 cs) n = (if 4 dvd n then Some (n div 4 * 3) else None)"
    and hex_encode: "codec_encode (hexlower cs) b = concat (map hex_byte b)"
    and hex_permissive: "codec_decode (hexlower cs) (map ascii_lower s) = codec_decode (hexlower cs) s"
    and b32_symbols: "set (codec_encode (nix_base32 cs) b) \<subseteq> set NIX_SYMBOLS"
    and b64_symbols: "set (codec_encode (base64 cs) b) \<subseteq> set B64_SYMBOLS"
    and b32_canonical: "codec_decode_len (nix_base32 cs) (length s) = Some n \<Longrightarrow>
      codec_decode (nix_base32 cs) s = Inr b \<Longrightarrow> s = codec_encode (nix_base32 cs) b"

section \<open>Lengths\<close>

lemma encode_len_trail:
  "(8 * n + 4) div 5 * 5 mod (8 :: nat) < 5" "(8 * n + 4) div 5 * 5 div (8 :: nat) = n"
proof -
  define r where "r = 4 - (8 * n + 4) mod 5"
  have "(8 * n + 4) div 5 * 5 + (8 * n + 4) mod 5 = 8 * n + 4" "(8 * n + 4) mod 5 < 5"
    by simp_all
  then have r: "r < 5" "(8 * n + 4) div 5 * 5 = 8 * n + r" unfolding r_def by linarith+
  from r(1) show "(8 * n + 4) div 5 * 5 mod (8 :: nat) < 5" "(8 * n + 4) div 5 * 5 div (8 :: nat) = n"
    unfolding r(2) by auto
qed

text \<open>The crate's own length functions and those of the module agree.\<close>

lemma decode_len_encode_len: "decode_len (encode_len n) = Some n"
  using encode_len_trail [of n]
  by (simp add: decode_len_def decode_len_internal_def encode_len_def Let_def mult.commute)

lemma base64_len_eq: "base64_len n = (n + 2) div 3 * 4"
proof -
  define k j where "k = n div 3" and "j = n mod 3"
  then have n: "n = 3 * k + j" and j: "j = 0 \<or> j = 1 \<or> j = 2" by auto
  have "(4 * n div 3 + 3) div 4 = (n + 2) div 3"
    using j unfolding n by (elim disjE) (simp_all add: distrib_left)
  then show ?thesis by (simp add: base64_len_def)
qed

context data_encoding
begin

lemma base_encode_length: "length (base_encode cs base b) = input_len base (length b)"
  by (cases base) (simp_all add: hex.encode_length b32.encode_length b64.encode_length hex_encode_len
      b32_encode_len b64_encode_len encode_len_def base64_len_eq)

text \<open>Neither direction panics when the buffers have the sizes that \<open>Base\<close> computes.\<close>

lemma encode_for_base_input_len: "encode_for_base cs base b (input_len base (length b)) = Some (base_encode cs base b)"
  by (cases base) (simp_all add: codec_encode_mut_def encode_mut_def hex_encode_len b32_encode_len b64_encode_len
      encode_len_def base64_len_eq)

lemma decode_len_base:
  "codec_decode_len (hexlower cs) (input_len Hex n) = Some (scratch_len Hex n)"
  "codec_decode_len (nix_base32 cs) (input_len NixBase32 n) = Some (scratch_len NixBase32 n)"
  "codec_decode_len (base64 cs) (input_len Base64 n) = Some (scratch_len Base64 n)"
  using encode_len_trail [of n]
  by (simp_all add: hex_decode_len b32_decode_len b64_decode_len encode_len_def base64_len_eq)

lemma decode_for_base_total:
  assumes "length s = input_len base n"
  shows "\<exists>res. decode_for_base cs base s (scratch_len base n) = Some res \<and>
    (case res of Inl e \<Rightarrow> position (perror e) < length s | Inr b \<Rightarrow> length b \<le> scratch_len base n)"
proof (cases base)
  case Hex
  then show ?thesis
    using decode_len_base(1) [of n] hex.decode_length [of s n] hex.error_position [of s n] assms
    by (auto simp: codec_decode_mut_def split: sum.splits)
next
  case NixBase32
  have len: "codec_decode_len (nix_base32 cs) (length (rev s)) = Some n"
    using decode_len_base(2) [of n] assms NixBase32 by simp
  show ?thesis
  proof (cases "codec_decode (nix_base32 cs) (rev s)")
    case (Inl e)
    with b32.error_position [OF len] have "position (perror e) < length s" by simp
    with Inl NixBase32 len show ?thesis by (simp add: decode_mut_def codec_decode_mut_def Let_def)
  next
    case (Inr b)
    with b32.decode_length [OF len] NixBase32 len show ?thesis by (simp add: decode_mut_def codec_decode_mut_def)
  qed
next
  case Base64
  then show ?thesis
    using decode_len_base(3) [of n] b64.decode_length [of s "scratch_len Base64 n"]
      b64.error_position [of s "scratch_len Base64 n"] assms
    by (auto simp: codec_decode_mut_def split: sum.splits)
qed

lemma decode_for_base_encode:
  "decode_for_base cs base (base_encode cs base b) (scratch_len base (length b)) = Some (Inr b)"
  using decode_len_base [of "length b"] base_encode_length [of base b]
  by (cases base) (simp_all add: decode_mut_def codec_decode_mut_def hex.decode_encode b32.decode_encode b64.decode_encode)

lemma decode_for_base32_canonical:
  assumes "decode_for_base cs NixBase32 s n = Some (Inr b)"
  shows "s = base_encode cs NixBase32 b"
proof -
  have "codec_decode_len (nix_base32 cs) (length (rev s)) = Some n" "codec_decode (nix_base32 cs) (rev s) = Inr b"
    using assms by (auto simp: decode_mut_def codec_decode_mut_def Let_def split: option.splits sum.splits if_splits)
  from b32_canonical [OF this] show ?thesis by (simp flip: rev_swap)
qed

lemma hex_byte_set: "set (hex_byte w) \<subseteq> set HEX_SYMBOLS"
proof -
  have "unat w < 16 * 16" using unsigned_less [of w] by simp
  then have "unat w div 16 < 16" "unat w mod 16 < 16" by (simp_all add: less_mult_imp_div_less)
  moreover have "length HEX_SYMBOLS = 16" by (simp add: HEX_SYMBOLS_def)
  ultimately have "unat w div 16 < length HEX_SYMBOLS" "unat w mod 16 < length HEX_SYMBOLS" by simp_all
  then show ?thesis by (simp add: hex_byte_def)
qed

lemma base_symbols:
  "set (base_encode cs base b) \<subseteq> set HEX_SYMBOLS \<union> set NIX_SYMBOLS \<union> set B64_SYMBOLS"
  using hex_byte_set b32_symbols [of b] b64_symbols [of b] by (cases base) (auto simp: hex_encode)

end

end
