(* ===== verification/Hash.thy ===== *)
theory Hash
  imports Base_Encoding
begin

text \<open>
  \<open>harmonia-utils-hash\<close>, \<open>algo.rs\<close> and \<open>lib.rs\<close>: algorithms, hashes of a fixed maximal size,
  incremental contexts and the hashing sink. The digest functions are those of the crates \<open>md5\<close> and
  \<open>ring\<close>, parameters of the model with their documented behaviour as the locale \<open>digest_crates\<close>.

  The facts: hashing in any number of steps is hashing at once, it never panics, and the sink counts
  the bytes it was given; parsing and printing of algorithm names are inverse.
\<close>

section \<open>Algorithms\<close>

datatype Algorithm = MD5 | SHA1 | SHA256 | SHA512

primrec algo_size :: "Algorithm \<Rightarrow> nat" where
  "algo_size MD5 = 128 div 8"
| "algo_size SHA1 = 160 div 8"
| "algo_size SHA256 = 256 div 8"
| "algo_size SHA512 = 512 div 8"

definition LARGEST :: Algorithm where
  "LARGEST = SHA512"

lemma algo_size_le: "algo_size a \<le> algo_size LARGEST"
  by (cases a) (simp_all add: LARGEST_def)

primrec algo_name :: "Algorithm \<Rightarrow> string" where
  "algo_name MD5 = ''md5''"
| "algo_name SHA1 = ''sha1''"
| "algo_name SHA256 = ''sha256''"
| "algo_name SHA512 = ''sha512''"

datatype UnknownAlgorithm = UnknownAlgorithm string

definition algo_from_str :: "string \<Rightarrow> UnknownAlgorithm + Algorithm" where
  "algo_from_str s =
     (if eq_ignore_ascii_case s ''sha256'' then Inr SHA256
      else if eq_ignore_ascii_case s ''sha512'' then Inr SHA512
      else if eq_ignore_ascii_case s ''sha1'' then Inr SHA1
      else if eq_ignore_ascii_case s ''md5'' then Inr MD5
      else Inl (UnknownAlgorithm s))"

lemma algo_from_str_name: "algo_from_str (algo_name a) = Inr a"
  by (cases a) (simp_all add: algo_from_str_def eq_ignore_ascii_case_def ascii_lower_def)

lemma algo_from_str_Inr: "algo_from_str s = Inr a \<Longrightarrow> eq_ignore_ascii_case s (algo_name a)"
  by (auto simp: algo_from_str_def split: if_splits)

lemma algo_name_chars: "ch \<in> set (algo_name a) \<Longrightarrow> ch \<noteq> CHR '':'' \<and> ch \<noteq> CHR ''-''"
  by (cases a) auto

text \<open>The derived order: the order of the constructors.\<close>

primrec algo_rank :: "Algorithm \<Rightarrow> nat" where
  "algo_rank MD5 = 0" | "algo_rank SHA1 = 1" | "algo_rank SHA256 = 2" | "algo_rank SHA512 = 3"

instantiation Algorithm :: linorder
begin

definition less_eq_Algorithm :: "Algorithm \<Rightarrow> Algorithm \<Rightarrow> bool" where
  "less_eq_Algorithm a b \<longleftrightarrow> algo_rank a \<le> algo_rank b"

definition less_Algorithm :: "Algorithm \<Rightarrow> Algorithm \<Rightarrow> bool" where
  "less_Algorithm a b \<longleftrightarrow> algo_rank a < algo_rank b"

instance
proof
  fix x y :: Algorithm
  show "x \<le> y \<Longrightarrow> y \<le> x \<Longrightarrow> x = y" by (cases x; cases y) (simp_all add: less_eq_Algorithm_def)
qed (auto simp: less_eq_Algorithm_def less_Algorithm_def)

end

section \<open>Hashes\<close>

datatype InvalidHashError = InvalidHashError Algorithm nat

record Hash =
  algorithm :: Algorithm
  hdata :: bytes

definition hash_new :: "Algorithm \<Rightarrow> bytes \<Rightarrow> Hash option" where
  "hash_new a h =
     (if length h = algo_size a
      then Some \<lparr>algorithm = a, hdata = h @ replicate (algo_size LARGEST - algo_size a) 0\<rparr> else None)"

definition hash_from_slice :: "Algorithm \<Rightarrow> bytes \<Rightarrow> (InvalidHashError + Hash) option" where
  "hash_from_slice a h =
     (if length h \<noteq> algo_size a then Some (Inl (InvalidHashError a (length h)))
      else map_option Inr (hash_new a h))"

definition digest_bytes :: "Hash \<Rightarrow> bytes" where
  "digest_bytes h = take (algo_size (algorithm h)) (hdata h)"

text \<open>The values the constructor makes.\<close>

definition hash_ok :: "Hash \<Rightarrow> bool" where
  "hash_ok h \<longleftrightarrow> (\<exists>b. hash_new (algorithm h) b = Some h)"

lemma hash_ok_digest: "hash_ok h \<Longrightarrow> hash_new (algorithm h) (digest_bytes h) = Some h \<and> length (digest_bytes h) = algo_size (algorithm h)"
proof -
  assume "hash_ok h"
  then obtain b where "hash_new (algorithm h) b = Some h" by (auto simp: hash_ok_def)
  moreover from this have "digest_bytes h = b" "length b = algo_size (algorithm h)"
    by (cases h; auto simp: hash_new_def digest_bytes_def split: if_splits)+
  ultimately show ?thesis by simp
qed

lemma hash_new_ok: "hash_new a b = Some h \<Longrightarrow> hash_ok h \<and> algorithm h = a \<and> digest_bytes h = b"
  by (auto simp: hash_ok_def hash_new_def digest_bytes_def split: if_splits)

lemma hash_new_total: "length b = algo_size a \<Longrightarrow> \<exists>h. hash_new a b = Some h"
  by (simp add: hash_new_def)

datatype Sha256 = Sha256 bytes

definition sha256_new :: "bytes \<Rightarrow> Sha256 option" where
  "sha256_new d = (if length d = algo_size SHA256 then Some (Sha256 d) else None)"

definition sha256_from_slice :: "bytes \<Rightarrow> (InvalidHashError + Sha256) option" where
  "sha256_from_slice d =
     (if length d \<noteq> algo_size SHA256 then Some (Inl (InvalidHashError SHA256 (length d)))
      else map_option Inr (sha256_new d))"

primrec sha256_bytes :: "Sha256 \<Rightarrow> bytes" where
  "sha256_bytes (Sha256 d) = d"

definition hash_of_sha256 :: "Sha256 \<Rightarrow> Hash option" where
  "hash_of_sha256 s = hash_new SHA256 (sha256_bytes s)"

section \<open>The digest crates\<close>

datatype RingAlgorithm = RSHA1 | RSHA256 | RSHA384 | RSHA512 | RSHA512_256

record ('m, 'r) Crates =
  md5_new :: 'm
  md5_consume :: "'m \<Rightarrow> bytes \<Rightarrow> 'm"
  md5_finalize :: "'m \<Rightarrow> bytes"
  md5_compute :: "bytes \<Rightarrow> bytes"
  ring_new :: "RingAlgorithm \<Rightarrow> 'r"
  ring_update :: "'r \<Rightarrow> bytes \<Rightarrow> 'r"
  ring_finish :: "'r \<Rightarrow> RingAlgorithm \<times> bytes"
  ring_digest :: "RingAlgorithm \<Rightarrow> bytes \<Rightarrow> RingAlgorithm \<times> bytes"

primrec ring_size :: "RingAlgorithm \<Rightarrow> nat" where
  "ring_size RSHA1 = 20" | "ring_size RSHA256 = 32" | "ring_size RSHA384 = 48" | "ring_size RSHA512 = 64"
| "ring_size RSHA512_256 = 32"

text \<open>A context has seen some bytes, and finishing it is the digest of what it has seen.\<close>

locale digest_crates =
  fixes K :: "('m, 'r) Crates" and md5_seen :: "'m \<Rightarrow> bytes" and ring_seen :: "'r \<Rightarrow> bytes"
    and ring_alg :: "'r \<Rightarrow> RingAlgorithm"
  assumes md5_laws: "md5_seen (md5_new K) = []" "md5_seen (md5_consume K m b) = md5_seen m @ b"
      "md5_finalize K m = md5_compute K (md5_seen m)" "length (md5_compute K b) = 16"
    and ring_laws: "ring_seen (ring_new K a) = []" "ring_alg (ring_new K a) = a"
      "ring_seen (ring_update K r b) = ring_seen r @ b" "ring_alg (ring_update K r b) = ring_alg r"
      "ring_finish K r = ring_digest K (ring_alg r) (ring_seen r)"
      "fst (ring_digest K a b) = a" "length (snd (ring_digest K a b)) = ring_size a"

fun digest_algorithm :: "Algorithm \<Rightarrow> RingAlgorithm option" where
  "digest_algorithm SHA1 = Some RSHA1"
| "digest_algorithm SHA256 = Some RSHA256"
| "digest_algorithm SHA512 = Some RSHA512"
| "digest_algorithm MD5 = None"

fun algo_of_ring :: "RingAlgorithm \<Rightarrow> Algorithm option" where
  "algo_of_ring RSHA1 = Some SHA1"
| "algo_of_ring RSHA256 = Some SHA256"
| "algo_of_ring RSHA512 = Some SHA512"
| "algo_of_ring _ = None"

definition hash_of_digest :: "RingAlgorithm \<times> bytes \<Rightarrow> Hash option" where
  "hash_of_digest d = Option.bind (algo_of_ring (fst d)) (\<lambda>a. hash_new a (snd d))"

definition algo_digest :: "('m, 'r) Crates \<Rightarrow> Algorithm \<Rightarrow> bytes \<Rightarrow> Hash option" where
  "algo_digest K a d =
     (case a of MD5 \<Rightarrow> hash_new MD5 (md5_compute K d)
      | _ \<Rightarrow> Option.bind (digest_algorithm a) (\<lambda>ra. hash_of_digest (ring_digest K ra d)))"

definition sha256_of_hash :: "Hash \<Rightarrow> Sha256 option" where
  "sha256_of_hash h = (if algorithm h \<noteq> SHA256 then None else sha256_new (digest_bytes h))"

definition sha256_digest :: "('m, 'r) Crates \<Rightarrow> bytes \<Rightarrow> Sha256 option" where
  "sha256_digest K d = Option.bind (algo_digest K SHA256 d) sha256_of_hash"

section \<open>Contexts and the sink\<close>

datatype ('m, 'r) InnerContext = IMd5 'm | IRing 'r

datatype ('m, 'r) Context = Context Algorithm "('m, 'r) InnerContext"

definition context_new :: "('m, 'r) Crates \<Rightarrow> Algorithm \<Rightarrow> ('m, 'r) Context option" where
  "context_new K a =
     (case a of MD5 \<Rightarrow> Some (Context a (IMd5 (md5_new K)))
      | _ \<Rightarrow> map_option (\<lambda>ra. Context a (IRing (ring_new K ra))) (digest_algorithm a))"

fun context_update :: "('m, 'r) Crates \<Rightarrow> ('m, 'r) Context \<Rightarrow> bytes \<Rightarrow> ('m, 'r) Context" where
  "context_update K (Context a (IMd5 m)) d = Context a (IMd5 (md5_consume K m d))"
| "context_update K (Context a (IRing r)) d = Context a (IRing (ring_update K r d))"

fun context_finish :: "('m, 'r) Crates \<Rightarrow> ('m, 'r) Context \<Rightarrow> Hash option" where
  "context_finish K (Context a (IMd5 m)) = hash_new a (md5_finalize K m)"
| "context_finish K (Context a (IRing r)) = hash_of_digest (ring_finish K r)"

type_synonym ('m, 'r) HashSink = "(u64 \<times> ('m, 'r) Context) option"

definition sink_new :: "('m, 'r) Crates \<Rightarrow> Algorithm \<Rightarrow> ('m, 'r) HashSink option" where
  "sink_new K a = map_option (\<lambda>ctx. Some (0, ctx)) (context_new K a)"

definition sink_finish :: "('m, 'r) Crates \<Rightarrow> ('m, 'r) HashSink \<Rightarrow> (u64 \<times> Hash) option" where
  "sink_finish K s = Option.bind s (\<lambda>(read, ctx). map_option (Pair read) (context_finish K ctx))"

definition sink_poll_write :: "('m, 'r) Crates \<Rightarrow> ('m, 'r) HashSink \<Rightarrow> bytes \<Rightarrow> ('m, 'r) HashSink \<times> nat io_result poll" where
  "sink_poll_write K s b =
     (case s of
        None \<Rightarrow> (None, Ready (Inl (IoError BrokenPipe ''cannot write to HashSink after calling finish()'')))
      | Some (read, ctx) \<Rightarrow>
          (Some (read + word_of_nat (length b), context_update K ctx b), Ready (Inr (length b))))"

context digest_crates
begin

text \<open>What a context has been given, and that it belongs to its algorithm.\<close>

fun context_seen :: "('m, 'r) Context \<Rightarrow> bytes" where
  "context_seen (Context a (IMd5 m)) = md5_seen m"
| "context_seen (Context a (IRing r)) = ring_seen r"

fun context_ok :: "('m, 'r) Context \<Rightarrow> bool" where
  "context_ok (Context a (IMd5 m)) \<longleftrightarrow> a = MD5"
| "context_ok (Context a (IRing r)) \<longleftrightarrow> digest_algorithm a = Some (ring_alg r)"

fun context_algo :: "('m, 'r) Context \<Rightarrow> Algorithm" where
  "context_algo (Context a i) = a"

lemma context_new_spec: "\<exists>ctx. context_new K a = Some ctx \<and> context_ok ctx \<and> context_seen ctx = [] \<and> context_algo ctx = a"
  by (cases a) (simp_all add: context_new_def md5_laws ring_laws)

lemma context_update_spec:
  "context_ok ctx \<Longrightarrow> context_ok (context_update K ctx b) \<and> context_seen (context_update K ctx b) = context_seen ctx @ b \<and>
     context_algo (context_update K ctx b) = context_algo ctx"
  by (cases ctx rule: context_ok.cases) (simp_all add: md5_laws ring_laws)

lemma context_fold:
  "context_ok ctx \<Longrightarrow> context_ok (foldl (context_update K) ctx chunks) \<and>
     context_seen (foldl (context_update K) ctx chunks) = context_seen ctx @ concat chunks \<and>
     context_algo (foldl (context_update K) ctx chunks) = context_algo ctx"
  by (induction chunks arbitrary: ctx) (simp_all add: context_update_spec)

lemma context_finish_spec:
  "context_ok ctx \<Longrightarrow> context_finish K ctx = algo_digest K (context_algo ctx) (context_seen ctx)"
proof (cases ctx)
  case (Context a i)
  then show "context_ok ctx \<Longrightarrow> ?thesis"
    by (cases i; cases a) (auto simp: algo_digest_def md5_laws ring_laws)
qed

lemma algo_digest_total: "\<exists>h. algo_digest K a d = Some h \<and> hash_ok h \<and> algorithm h = a"
proof -
  have "\<exists>h. hash_of_digest (ring_digest K ra d) = Some h \<and> hash_ok h \<and> algorithm h = a"
    if "digest_algorithm a = Some ra" for ra
    using that hash_new_total [of "snd (ring_digest K ra d)" a] hash_new_ok [of a "snd (ring_digest K ra d)"]
    by (cases a) (auto simp: hash_of_digest_def ring_laws)
  moreover have "\<exists>h. hash_new MD5 (md5_compute K d) = Some h \<and> hash_ok h \<and> algorithm h = MD5"
    using hash_new_total [of "md5_compute K d" MD5] hash_new_ok [of MD5 "md5_compute K d"] by (auto simp: md5_laws)
  ultimately show ?thesis by (cases a) (auto simp: algo_digest_def)
qed

lemma sink_writes:
  assumes "context_ok ctx"
  shows "\<exists>ctx'. foldl (\<lambda>s b. fst (sink_poll_write K s b)) (Some (n, ctx)) chunks = Some (n + word_of_nat (length (concat chunks)), ctx') \<and>
    context_ok ctx' \<and> context_seen ctx' = context_seen ctx @ concat chunks \<and> context_algo ctx' = context_algo ctx"
  using assms
proof (induction chunks arbitrary: n ctx)
  case (Cons b chunks)
  from Cons.IH [of "context_update K ctx b" "n + word_of_nat (length b)"] context_update_spec [OF Cons.prems, of b]
  show ?case by (auto simp: sink_poll_write_def add.assoc)
qed simp

end

text \<open>
  Hashing through a \<open>HashSink\<close>: for every algorithm and every way the data is cut into writes, no write
  fails, and finishing the sink never panics and returns the number of bytes written and the digest of
  all of them, the same hash as \<open>Algorithm::digest\<close> over the data at once.
\<close>

theorem hash_sink_one_shot:
  assumes "digest_crates K md5_seen ring_seen ring_alg"
  shows "\<exists>s h. sink_new K a = Some s \<and> algo_digest K a (concat chunks) = Some h \<and> algorithm h = a \<and>
    length (digest_bytes h) = algo_size a \<and>
    sink_finish K (foldl (\<lambda>s b. fst (sink_poll_write K s b)) s chunks) = Some (word_of_nat (length (concat chunks)), h)"
proof -
  obtain ctx where ctx: "context_new K a = Some ctx" "digest_crates.context_ok ring_alg ctx"
    "digest_crates.context_seen md5_seen ring_seen ctx = []" "digest_crates.context_algo ctx = a"
    using digest_crates.context_new_spec [OF assms] by blast
  obtain h where h: "algo_digest K a (concat chunks) = Some h" "hash_ok h" "algorithm h = a"
    using digest_crates.algo_digest_total [OF assms] by blast
  with ctx digest_crates.sink_writes [OF assms ctx(2), of 0 chunks] digest_crates.context_finish_spec [OF assms]
  show ?thesis using hash_ok_digest [OF h(2)] by (fastforce simp: sink_new_def sink_finish_def)
qed

text \<open>An instance of the crates: a context keeps what it has seen, and a digest is the data cut or
  filled to the size of the algorithm.\<close>

definition cut :: "nat \<Rightarrow> bytes \<Rightarrow> bytes" where
  "cut n b = take n (b @ replicate n 0)"

definition plain_crates :: "(bytes, RingAlgorithm \<times> bytes) Crates" where
  "plain_crates =
     \<lparr>md5_new = [], md5_consume = (@), md5_finalize = cut 16, md5_compute = cut 16, ring_new = (\<lambda>a. (a, [])),
      ring_update = (\<lambda>(a, s) b. (a, s @ b)), ring_finish = (\<lambda>(a, s). (a, cut (ring_size a) s)),
      ring_digest = (\<lambda>a b. (a, cut (ring_size a) b))\<rparr>"

interpretation plain: digest_crates plain_crates "\<lambda>m. m" snd fst
  by unfold_locales (simp_all add: plain_crates_def cut_def split: prod.splits)

theorem hash_sink_one_shot_witness:
  "\<exists>s h. sink_new plain_crates SHA256 = Some s \<and>
    sink_finish plain_crates (foldl (\<lambda>s b. fst (sink_poll_write plain_crates s b)) s [[1, 2], [], [3]]) = Some (3, h) \<and>
    algo_digest plain_crates SHA256 [1, 2, 3] = Some h"
  using hash_sink_one_shot [OF plain.digest_crates_axioms, of SHA256 "[[1, 2], [], [3]]"] by auto

end
