(* ===== verification/Base_Codecs.thy ===== *)
theory Base_Codecs
  imports Base_Encoding
begin

text \<open>
  A concrete instance of the locale \<open>data_encoding\<close>: base16, base32 with the least significant bit first and
  base64, written as regroupings of one stream of bits. It shows that the documented behaviour of
  the crate on which \<open>Base_Encoding\<close> rests can be had, and lets the theorems over it be applied.
\<close>

unbundle bit_operations_syntax

section \<open>Bits and groups\<close>

function group :: "nat \<Rightarrow> 'a list \<Rightarrow> 'a list list" where
  "group k xs = (if k = 0 \<or> xs = [] then [] else take k xs # group k (drop k xs))"
  by pat_completeness auto
termination
  by (relation "measure (\<lambda>(k, xs). length xs)") auto

declare group.simps [simp del]

lemma group_Nil [simp]: "group k [] = []"
  by (simp add: group.simps)

lemma group_concat: "0 < k \<Longrightarrow> (\<And>x. x \<in> set xss \<Longrightarrow> length x = k) \<Longrightarrow> group k (concat xss) = xss"
  by (induction xss) (auto simp: group.simps [of k "_ @ _"])

lemma group_whole:
  "length xs = k * m \<Longrightarrow> 0 < k \<Longrightarrow> concat (group k xs) = xs \<and> length (group k xs) = m \<and> (\<forall>g \<in> set (group k xs). length g = k)"
proof (induction m arbitrary: xs)
  case (Suc m)
  then have "xs \<noteq> []" "length (drop k xs) = k * m" "length (take k xs) = k" by auto
  with Suc.IH [of "drop k xs"] Suc.prems show ?case by (auto simp: group.simps [of k xs])
qed auto

definition lsb_bits :: "nat \<Rightarrow> nat \<Rightarrow> bool list" where
  "lsb_bits k v = map (bit v) [0..<k]"

definition of_lsb :: "bool list \<Rightarrow> nat" where
  "of_lsb bs = horner_sum of_bool 2 bs"

lemma lsb_bits_length [simp]: "length (lsb_bits k v) = k"
  by (simp add: lsb_bits_def)

lemma of_lsb_bits: "v < 2 ^ k \<Longrightarrow> of_lsb (lsb_bits k v) = v"
  by (simp add: of_lsb_def lsb_bits_def horner_sum_bit_eq_take_bit take_bit_nat_eq_self)

lemma lsb_bits_of: "length bs = k \<Longrightarrow> lsb_bits k (of_lsb bs) = bs"
  by (auto simp: lsb_bits_def of_lsb_def bit_horner_sum_bit_iff intro!: nth_equalityI)

lemma of_lsb_less: "length bs = k \<Longrightarrow> of_lsb bs < 2 ^ k"
  by (induction bs arbitrary: k) (auto simp: of_lsb_def)

section \<open>Regrouping\<close>

text \<open>\<open>ord\<close> is the identity where the least significant bit comes first, and the reversal where the most
  significant one does.\<close>

definition stream :: "(bool list \<Rightarrow> bool list) \<Rightarrow> nat \<Rightarrow> nat list \<Rightarrow> bool list" where
  "stream ord k vs = concat (map (\<lambda>v. ord (lsb_bits k v)) vs)"

definition unstream :: "(bool list \<Rightarrow> bool list) \<Rightarrow> nat \<Rightarrow> bool list \<Rightarrow> nat list" where
  "unstream ord k bs = map (\<lambda>g. of_lsb (ord g)) (group k bs)"

definition pad_of :: "nat \<Rightarrow> nat \<Rightarrow> nat" where
  "pad_of k n = (k - n mod k) mod k"

definition encode_bits :: "(bool list \<Rightarrow> bool list) \<Rightarrow> nat \<Rightarrow> bytes \<Rightarrow> nat list" where
  "encode_bits ord k b =
     (let bs = stream ord 8 (map unat b) in unstream ord k (bs @ replicate (pad_of k (length bs)) False))"

definition decode_bits :: "(bool list \<Rightarrow> bool list) \<Rightarrow> nat \<Rightarrow> nat list \<Rightarrow> bytes option" where
  "decode_bits ord k vs =
     (let bs = stream ord k vs; n = length bs div 8 * 8 in
      if True \<in> set (drop n bs) then None else Some (map word_of_nat (unstream ord 8 (take n bs))))"

lemma pad_whole: "0 < k \<Longrightarrow> \<exists>m. n + pad_of k n = k * m" "0 < k \<Longrightarrow> pad_of k n < k"
proof -
  assume k: "0 < k"
  have "n mod k < k" "k * (n div k) + n mod k = n" using k by simp_all
  then have "n + (k - n mod k) = k * (n div k) + k" by linarith
  then have "(n + pad_of k n) mod k = 0" by (simp add: pad_of_def mod_add_right_eq)
  then show "\<exists>m. n + pad_of k n = k * m" by auto
  show "pad_of k n < k" using k by (simp add: pad_of_def)
qed

lemma pad_unique: "n + r = k * m \<Longrightarrow> r < k \<Longrightarrow> pad_of k n = r"
proof -
  assume a: "n + r = k * m" "r < k"
  from pad_whole [of k n] a obtain m' where p: "n + pad_of k n = k * m'" "pad_of k n < k" by auto
  have far: "k * x + k \<le> k * y" if "x < y" for x y using that by (metis Suc_leI add.commute mult_Suc_right mult_le_mono2)
  consider "m < m'" | "m' < m" | "m = m'" by linarith
  then show ?thesis using a p far [of m m'] far [of m' m] by cases auto
qed

locale bit_order =
  fixes ord :: "bool list \<Rightarrow> bool list"
  assumes ord_ord: "ord (ord bs) = bs" and ord_length: "length (ord bs) = length bs"
begin

lemma stream_length: "length (stream ord k vs) = k * length vs"
  by (induction vs) (simp_all add: stream_def ord_length)

lemma unstream_stream: "0 < k \<Longrightarrow> (\<And>v. v \<in> set vs \<Longrightarrow> v < 2 ^ k) \<Longrightarrow> unstream ord k (stream ord k vs) = vs"
  unfolding unstream_def stream_def
  by (subst group_concat) (auto simp: ord_length ord_ord of_lsb_bits intro: map_idI)

lemma stream_unstream:
  assumes "length bs = k * m" "0 < k"
  shows "stream ord k (unstream ord k bs) = bs" "length (unstream ord k bs) = m"
    "\<forall>v \<in> set (unstream ord k bs). v < 2 ^ k"
proof -
  have g: "concat (group k bs) = bs" "length (group k bs) = m" "\<And>g. g \<in> set (group k bs) \<Longrightarrow> length g = k"
    using group_whole [OF assms] by auto
  have "map (\<lambda>g. ord (lsb_bits k (of_lsb (ord g)))) (group k bs) = group k bs"
    by (rule map_idI) (simp add: lsb_bits_of ord_length ord_ord g(3))
  then show "stream ord k (unstream ord k bs) = bs" using g(1) by (simp add: stream_def unstream_def o_def)
  show "length (unstream ord k bs) = m" "\<forall>v \<in> set (unstream ord k bs). v < 2 ^ k"
    using g by (auto simp: unstream_def ord_length intro!: of_lsb_less)
qed

lemma stream_encode_bits:
  assumes "0 < k"
  shows "stream ord k (encode_bits ord k b) = stream ord 8 (map unat b) @ replicate (pad_of k (8 * length b)) False"
    "k * length (encode_bits ord k b) = 8 * length b + pad_of k (8 * length b)"
    "\<forall>v \<in> set (encode_bits ord k b). v < 2 ^ k"
proof -
  obtain m where m: "8 * length b + pad_of k (8 * length b) = k * m" using pad_whole [OF assms] by blast
  let ?bs = "stream ord 8 (map unat b) @ replicate (pad_of k (8 * length b)) False"
  have len: "length ?bs = k * m" using m by (simp add: stream_length)
  have e: "encode_bits ord k b = unstream ord k ?bs" by (simp add: encode_bits_def stream_length)
  from stream_unstream [OF len assms] m
  show "stream ord k (encode_bits ord k b) = ?bs"
    "k * length (encode_bits ord k b) = 8 * length b + pad_of k (8 * length b)"
    "\<forall>v \<in> set (encode_bits ord k b). v < 2 ^ k"
    unfolding e by simp_all
qed

lemma decode_encode_bits:
  assumes "0 < k" "k \<le> 8"
  shows "decode_bits ord k (encode_bits ord k b) = Some b"
proof -
  let ?bs = "stream ord 8 (map unat b)" and ?p = "pad_of k (8 * length b)"
  have "?p < 8" using pad_whole(2) [OF assms(1), of "8 * length b"] assms(2) by simp
  then have n: "(8 * length b + ?p) div 8 * 8 = 8 * length b" by simp
  have "unstream ord 8 ?bs = map unat b" by (rule unstream_stream) (auto intro: unsigned_less)
  with stream_encode_bits(1) [OF assms(1), of b] n show ?thesis
    by (simp add: decode_bits_def Let_def stream_length) (auto simp: o_def)
qed

lemma encode_decode_bits:
  assumes "decode_bits ord k vs = Some b" "\<And>v. v \<in> set vs \<Longrightarrow> v < 2 ^ k" "k * length vs mod 8 < k" "0 < k"
  shows "encode_bits ord k b = vs"
proof -
  let ?bs = "stream ord k vs"
  define q where "q = k * length vs div 8"
  define r where "r = k * length vs mod 8"
  have qr: "8 * q + r = k * length vs" by (simp add: q_def r_def)
  have b: "b = map word_of_nat (unstream ord 8 (take (8 * q) ?bs))" and z: "True \<notin> set (drop (8 * q) ?bs)"
    using assms(1) by (auto simp: decode_bits_def Let_def stream_length q_def mult.commute split: if_splits)
  have len: "length (take (8 * q) ?bs) = 8 * q" using qr by (simp add: stream_length)
  note u = stream_unstream [OF len]
  have "map unat b = unstream ord 8 (take (8 * q) ?bs)"
    using u(3) by (auto simp: b o_def unat_of_nat intro!: map_idI)
  then have s: "stream ord 8 (map unat b) = take (8 * q) ?bs" and lb: "length b = q" using u by (simp_all add: b)
  have "drop (8 * q) ?bs = replicate (length (drop (8 * q) ?bs)) False"
    using z by (intro replicate_eqI) auto
  then have "drop (8 * q) ?bs = replicate r False" using qr by (simp add: stream_length)
  moreover have "pad_of k (8 * q) = r" using pad_unique [OF qr] assms(3) by (simp add: r_def)
  ultimately have "stream ord 8 (map unat b) @ replicate (pad_of k (8 * length b)) False = ?bs"
    unfolding s lb by (metis append_take_drop_id)
  then show ?thesis
    using unstream_stream [OF assms(4), of vs] assms(2) by (simp add: encode_bits_def stream_length)
qed

lemma decode_bits_length: "decode_bits ord k vs = Some b \<Longrightarrow> length b = k * length vs div 8"
proof -
  assume d: "decode_bits ord k vs = Some b"
  let ?q = "k * length vs div 8"
  have "length (take (8 * ?q) (stream ord k vs)) = 8 * ?q" by (simp add: stream_length)
  from stream_unstream(2) [OF this] d show ?thesis
    by (auto simp: decode_bits_def Let_def stream_length mult.commute split: if_splits)
qed

lemma decode_bits_None: "decode_bits ord k vs = None \<Longrightarrow> vs \<noteq> []"
  by (auto simp: decode_bits_def Let_def stream_def)

end

interpretation lsb_first: bit_order "\<lambda>bs. bs"
  by unfold_locales simp_all

interpretation msb_first: bit_order rev
  by unfold_locales simp_all

section \<open>Symbols\<close>

primrec sym_index :: "string \<Rightarrow> char \<Rightarrow> nat option" where
  "sym_index [] ch = None"
| "sym_index (x # xs) ch = (if x = ch then Some 0 else map_option Suc (sym_index xs ch))"

primrec sym_values :: "string \<Rightarrow> nat \<Rightarrow> string \<Rightarrow> nat + nat list" where
  "sym_values syms p [] = Inr []"
| "sym_values syms p (ch # s) =
     (case sym_index syms ch of None \<Rightarrow> Inl p | Some v \<Rightarrow> result_map ((#) v) (sym_values syms (Suc p) s))"

lemma sym_index_Some: "sym_index syms ch = Some i \<Longrightarrow> i < length syms \<and> syms ! i = ch"
  by (induction syms arbitrary: i) (auto split: if_splits)

lemma sym_index_nth: "distinct syms \<Longrightarrow> i < length syms \<Longrightarrow> sym_index syms (syms ! i) = Some i"
  by (induction syms arbitrary: i) (auto simp: nth_Cons split: nat.splits)

lemma sym_values_nth:
  "distinct syms \<Longrightarrow> (\<And>v. v \<in> set vs \<Longrightarrow> v < length syms) \<Longrightarrow> sym_values syms p (map ((!) syms) vs) = Inr vs"
  by (induction vs arbitrary: p) (simp_all add: sym_index_nth)

lemma sym_values_Inr:
  "sym_values syms p s = Inr vs \<Longrightarrow> map ((!) syms) vs = s \<and> (\<forall>v \<in> set vs. v < length syms)"
proof (induction s arbitrary: p vs)
  case (Cons ch s)
  then obtain v vs' where "sym_index syms ch = Some v" "sym_values syms (Suc p) s = Inr vs'" "vs = v # vs'"
    by (cases "sym_values syms (Suc p) s") (auto split: option.splits)
  with Cons.IH sym_index_Some show ?case by fastforce
qed simp

lemma sym_values_Inl: "sym_values syms p s = Inl q \<Longrightarrow> p \<le> q \<and> q < p + length s"
proof (induction s arbitrary: p)
  case (Cons ch s)
  then show ?case by (cases "sym_values syms (Suc p) s") (fastforce split: option.splits)+
qed simp

section \<open>The codecs\<close>

definition decode_err :: "nat \<Rightarrow> DecodeKind \<Rightarrow> DecodePartial" where
  "decode_err p k = \<lparr>pread = p, pwritten = 0, perror = \<lparr>position = p, dkind = k\<rparr>\<rparr>"

definition sym_encode :: "string \<Rightarrow> (bool list \<Rightarrow> bool list) \<Rightarrow> nat \<Rightarrow> bytes \<Rightarrow> string" where
  "sym_encode syms ord k b = map ((!) syms) (encode_bits ord k b)"

definition sym_decode :: "string \<Rightarrow> (bool list \<Rightarrow> bool list) \<Rightarrow> nat \<Rightarrow> string \<Rightarrow> DecodePartial + bytes" where
  "sym_decode syms ord k s =
     (case sym_values syms 0 s of
        Inl p \<Rightarrow> Inl (decode_err p DSymbol)
      | Inr vs \<Rightarrow> (case decode_bits ord k vs of
            None \<Rightarrow> Inl (decode_err (length s - 1) DTrailing) | Some b \<Rightarrow> Inr b))"

locale symbol_code = bit_order +
  fixes syms :: string and k :: nat
  assumes syms: "distinct syms" "length syms = 2 ^ k" and k: "0 < k" "k \<le> 8"
begin

lemma sym_encode_length: "k * length (sym_encode syms ord k b) = 8 * length b + pad_of k (8 * length b)"
  using stream_encode_bits(2) [OF k(1)] by (simp add: sym_encode_def)

lemma sym_encode_set: "set (sym_encode syms ord k b) \<subseteq> set syms"
  using stream_encode_bits(3) [OF k(1), of b] syms(2) by (auto simp: sym_encode_def)

lemma sym_decode_encode: "sym_decode syms ord k (sym_encode syms ord k b) = Inr b"
proof -
  have "sym_values syms 0 (sym_encode syms ord k b) = Inr (encode_bits ord k b)"
    unfolding sym_encode_def using stream_encode_bits(3) [OF k(1), of b] syms by (intro sym_values_nth) auto
  then show ?thesis by (simp add: sym_decode_def decode_encode_bits [OF k])
qed

lemma sym_decode_length: "sym_decode syms ord k s = Inr b \<Longrightarrow> length b = k * length s div 8"
  by (auto simp: sym_decode_def split: sum.splits option.splits dest!: sym_values_Inr decode_bits_length)

lemma sym_decode_error: "sym_decode syms ord k s = Inl e \<Longrightarrow> position (perror e) < length s"
  by (auto simp: sym_decode_def decode_err_def split: sum.splits option.splits dest!: sym_values_Inl decode_bits_None
      sym_values_Inr)

lemma sym_decode_canonical:
  "sym_decode syms ord k s = Inr b \<Longrightarrow> k * length s mod 8 < k \<Longrightarrow> s = sym_encode syms ord k b"
  using syms(2) by (auto simp: sym_decode_def sym_encode_def encode_decode_bits [OF _ _ _ k(1)]
      split: sum.splits option.splits dest!: sym_values_Inr)

end

interpretation hex_code: symbol_code rev HEX_SYMBOLS 4
  by unfold_locales (simp_all add: HEX_SYMBOLS_def)

interpretation b32_code: symbol_code "\<lambda>bs. bs" NIX_SYMBOLS 5
  by unfold_locales (simp_all add: NIX_SYMBOLS_def)

interpretation b64_code: symbol_code rev "butlast B64_SYMBOLS" 6
  by unfold_locales (simp_all add: B64_SYMBOLS_def)

text \<open>Base64 is padded to a multiple of four.\<close>

definition b64_encode :: "bytes \<Rightarrow> string" where
  "b64_encode b = (let s = sym_encode (butlast B64_SYMBOLS) rev 6 b in s @ replicate (pad_of 4 (length s)) (CHR ''=''))"

definition b64_decode :: "string \<Rightarrow> DecodePartial + bytes" where
  "b64_decode s =
     (let body = takeWhile (\<lambda>ch. ch \<noteq> CHR ''='') s in
      if s = body @ replicate (length s - length body) (CHR ''='') \<and> length s - length body < 3
      then sym_decode (butlast B64_SYMBOLS) rev 6 body
      else Inl (decode_err (length body) DPadding))"

definition bit_codecs :: Codecs where
  "bit_codecs =
     \<lparr>hexlower = \<lparr>codec_encode_len = (\<lambda>n. 2 * n), codec_decode_len = (\<lambda>n. if even n then Some (n div 2) else None),
        codec_encode = sym_encode HEX_SYMBOLS rev 4, codec_decode = (\<lambda>s. sym_decode HEX_SYMBOLS rev 4 (map ascii_lower s))\<rparr>,
      nix_base32 = \<lparr>codec_encode_len = (\<lambda>n. (8 * n + 4) div 5),
        codec_decode_len = (\<lambda>n. if 5 \<le> n * 5 mod 8 then None else Some (n * 5 div 8)),
        codec_encode = sym_encode NIX_SYMBOLS (\<lambda>bs. bs) 5, codec_decode = sym_decode NIX_SYMBOLS (\<lambda>bs. bs) 5\<rparr>,
      base64 = \<lparr>codec_encode_len = (\<lambda>n. (n + 2) div 3 * 4),
        codec_decode_len = (\<lambda>n. if 4 dvd n then Some (n div 4 * 3) else None),
        codec_encode = b64_encode, codec_decode = b64_decode\<rparr>\<rparr>"

lemma hex_length: "length (sym_encode HEX_SYMBOLS rev 4 b) = 2 * length b"
  using hex_code.sym_encode_length [of b] by (simp add: pad_of_def)

text \<open>A byte is two hexadecimal digits.\<close>

lemma lsb_bits_nibbles: "lsb_bits 8 v = lsb_bits 4 (v mod 16) @ lsb_bits 4 (v div 16)"
proof -
  have "v mod 16 = take_bit 4 v" "v div 16 = drop_bit 4 v" by (simp_all add: take_bit_eq_mod drop_bit_eq_div)
  moreover have "[0..<8] = [0, 1, 2, 3, 4, 5, 6, 7]" "[0..<4] = [0, 1, 2, 3 :: nat]" by (simp_all add: upt_rec)
  ultimately show ?thesis by (simp only: lsb_bits_def) (simp add: bit_take_bit_iff bit_drop_bit_eq)
qed

lemma hex_bytes: "sym_encode HEX_SYMBOLS rev 4 b = concat (map hex_byte b)"
proof -
  let ?vs = "concat (map (\<lambda>w. [unat w div 16, unat w mod 16]) b)"
  have "stream rev 8 (map unat b) = stream rev 4 ?vs"
    by (induction b) (simp_all add: stream_def lsb_bits_nibbles)
  moreover have "unat w div 16 < 16" for w :: u8
  proof -
    have "unat w < 16 * 16" using unsigned_less [of w] by simp
    then show ?thesis by (rule less_mult_imp_div_less)
  qed
  then have lt: "v < 2 ^ 4" if "v \<in> set ?vs" for v
    using that by auto
  have "pad_of 4 (length (stream rev 8 (map unat b))) = 0"
    by (simp add: msb_first.stream_length pad_of_def)
  ultimately have "encode_bits rev 4 b = unstream rev 4 (stream rev 4 ?vs)"
    by (simp add: encode_bits_def)
  also have "\<dots> = ?vs" by (rule msb_first.unstream_stream) (use lt in simp_all)
  finally have "encode_bits rev 4 b = ?vs" .
  then show ?thesis by (simp add: sym_encode_def map_concat o_def hex_byte_def [abs_def])
qed

lemma ascii_lower_idem: "ascii_lower (ascii_lower ch) = ascii_lower ch"
  by (auto simp: ascii_lower_def)

lemma hex_lower: "map ascii_lower (sym_encode HEX_SYMBOLS rev 4 b) = sym_encode HEX_SYMBOLS rev 4 b"
proof (rule map_idI)
  have "\<forall>ch \<in> set HEX_SYMBOLS. ascii_lower ch = ch" by (simp add: HEX_SYMBOLS_def ascii_lower_def)
  then show "ascii_lower ch = ch" if "ch \<in> set (sym_encode HEX_SYMBOLS rev 4 b)" for ch
    using that hex_code.sym_encode_set [of b] by blast
qed

lemma b32_length: "length (sym_encode NIX_SYMBOLS (\<lambda>bs. bs) 5 b) = (8 * length b + 4) div 5"
  using b32_code.sym_encode_length [of b] pad_whole(2) [of 5 "8 * length b"] by linarith

lemma b64_lengths:
  assumes "n = length (sym_encode (butlast B64_SYMBOLS) rev 6 b)"
  shows "n + pad_of 4 n = (length b + 2) div 3 * 4 \<and> pad_of 4 n < 3"
proof -
  define q j where "q = length b div 3" and "j = length b mod 3"
  have b: "length b = 3 * q + j" "j = 0 \<or> j = 1 \<or> j = 2" by (auto simp: q_def j_def)
  have n: "6 * n = 8 * length b + pad_of 6 (8 * length b)" "pad_of 6 (8 * length b) < 6"
    using b64_code.sym_encode_length [of b] pad_whole(2) [of 6] assms by simp_all
  from b(2) show ?thesis
  proof (elim disjE)
    assume j: "j = 0"
    with n b have "n = 4 * q" by linarith
    with b j show ?thesis by (simp add: pad_of_def)
  next
    assume j: "j = 1"
    with n b have e: "n = 4 * q + 2" by linarith
    have "pad_of 4 n = 2" by (rule pad_unique [of _ _ _ "Suc q"]) (simp_all add: e)
    with b j e show ?thesis by simp
  next
    assume j: "j = 2"
    with n b have e: "n = 4 * q + 3" by linarith
    have "pad_of 4 n = 1" by (rule pad_unique [of _ _ _ "Suc q"]) (simp_all add: e)
    with b j e show ?thesis by simp
  qed
qed

lemma b64_encode_length: "length (b64_encode b) = (length b + 2) div 3 * 4"
  using b64_lengths [OF refl, of b] by (simp add: b64_encode_def Let_def)

lemma b64_decode_encode: "b64_decode (b64_encode b) = Inr b"
proof -
  let ?s = "sym_encode (butlast B64_SYMBOLS) rev 6 b"
  have "CHR ''='' \<notin> set (butlast B64_SYMBOLS)" by (simp add: B64_SYMBOLS_def)
  then have "\<forall>ch \<in> set ?s. ch \<noteq> CHR ''=''" using b64_code.sym_encode_set [of b] by blast
  then have "takeWhile (\<lambda>ch. ch \<noteq> CHR ''='') (b64_encode b) = ?s"
    by (simp add: b64_encode_def Let_def takeWhile_tail)
  moreover have "length (b64_encode b) = length ?s + pad_of 4 (length ?s)" "pad_of 4 (length ?s) < 3"
    using b64_lengths [OF refl, of b] by (simp_all add: b64_encode_def Let_def)
  moreover have "b64_encode b = ?s @ replicate (pad_of 4 (length ?s)) (CHR ''='')" by (simp add: b64_encode_def Let_def)
  ultimately show ?thesis by (simp add: b64_decode_def b64_code.sym_decode_encode)
qed

lemma b64_decode_length: "4 dvd length s \<Longrightarrow> b64_decode s = Inr b \<Longrightarrow> length b \<le> length s div 4 * 3"
proof -
  assume d: "4 dvd length s" "b64_decode s = Inr b"
  let ?body = "takeWhile (\<lambda>ch. ch \<noteq> CHR ''='') s"
  have "length b = 6 * length ?body div 8" "length ?body \<le> length s"
    using d(2) by (auto simp: b64_decode_def Let_def length_takeWhile_le split: if_splits dest: b64_code.sym_decode_length)
  moreover obtain m where "length s = 4 * m" using d(1) by blast
  ultimately show ?thesis by simp
qed

lemma b64_decode_error: "b64_decode s = Inl e \<Longrightarrow> position (perror e) < length s"
proof -
  assume d: "b64_decode s = Inl e"
  let ?body = "takeWhile (\<lambda>ch. ch \<noteq> CHR ''='') s"
  have le: "length ?body \<le> length s" by (rule length_takeWhile_le)
  have "?body = take (length ?body) s" by (rule takeWhile_eq_take)
  then have "length ?body = length s \<longrightarrow> s = ?body" by (metis order_refl take_all)
  with d le show ?thesis
    by (auto simp: b64_decode_def Let_def decode_err_def nat_less_le split: if_splits dest!: b64_code.sym_decode_error)
qed

lemma b64_encode_set: "set (b64_encode b) \<subseteq> set B64_SYMBOLS"
proof -
  have "set (butlast B64_SYMBOLS) \<subseteq> set B64_SYMBOLS" "CHR ''='' \<in> set B64_SYMBOLS" by (auto simp: B64_SYMBOLS_def)
  with b64_code.sym_encode_set [of b] show ?thesis by (auto simp: b64_encode_def Let_def)
qed

interpretation bits: data_encoding bit_codecs
proof
  show "codec_decode (nix_base32 bit_codecs) s = Inr b \<Longrightarrow> s = codec_encode (nix_base32 bit_codecs) b"
    if "codec_decode_len (nix_base32 bit_codecs) (length s) = Some n" for s n b
    using that b32_code.sym_decode_canonical [of s b] by (auto simp: bit_codecs_def mult.commute split: if_splits)
qed (auto simp: bit_codecs_def hex_length hex_lower hex_bytes [symmetric] ascii_lower_idem o_def b32_length b64_encode_length b64_decode_encode b64_decode_length
    b64_decode_length [unfolded mult.commute [of _ 3]] hex_code.sym_decode_encode b32_code.sym_decode_encode mult.commute Let_def b64_decode_error
    split: if_splits dest: subsetD [OF b32_code.sym_encode_set] subsetD [OF b64_encode_set]
      hex_code.sym_decode_length b32_code.sym_decode_length hex_code.sym_decode_error
      b32_code.sym_decode_error)

end
