(* ===== verification/Hash_Fmt.thy ===== *)
theory Hash_Fmt
  imports Hash Base_Codecs
begin

text \<open>
  \<open>harmonia-utils-hash/src/fmt.rs\<close>: the textual forms of hashes. The trait \<open>CommonHash\<close> is a record
  of its functions and, with its laws, the locale \<open>common_hash\<close>, interpreted for \<open>Hash\<close> and for
  \<open>Sha256\<close>. Each \<open>FromStr\<close> is a function to \<open>ParseHashError + 'h\<close>, \<open>None\<close> where it would panic.

  The facts: no parser panics; each form that is printed is parsed back; what the base32 parser accepts
  is what is printed, up to the case of the algorithm; error positions point into the input.
\<close>

section \<open>Errors\<close>

datatype Encoding = Sri | NoAlgo Base

datatype ParseHashErrorKind =
    EAlgorithm UnknownAlgorithm
  | NotSRI
  | TypeMismatch Algorithm Algorithm
  | MissingType
  | BadEncoding Encoding DecodeError
  | WrongHashLength Algorithm
  | WrongHashLength2 Algorithm nat

primrec adjust_position :: "nat \<Rightarrow> ParseHashErrorKind \<Rightarrow> ParseHashErrorKind" where
  "adjust_position amt (BadEncoding e d) = BadEncoding e (d\<lparr>position := position d + amt\<rparr>)"
| "adjust_position amt (WrongHashLength2 a n) = WrongHashLength2 a (n + amt)"
| "adjust_position amt (EAlgorithm u) = EAlgorithm u"
| "adjust_position amt NotSRI = NotSRI"
| "adjust_position amt (TypeMismatch e a) = TypeMismatch e a"
| "adjust_position amt MissingType = MissingType"
| "adjust_position amt (WrongHashLength a) = WrongHashLength a"

definition adjust_encoding :: "Encoding \<Rightarrow> ParseHashErrorKind \<Rightarrow> ParseHashErrorKind" where
  "adjust_encoding enc k = (case k of BadEncoding _ d \<Rightarrow> BadEncoding enc d | _ \<Rightarrow> k)"

record ParseHashError =
  ehash :: string
  ekind :: ParseHashErrorKind

definition parse_error :: "string \<Rightarrow> ParseHashErrorKind \<Rightarrow> ParseHashError" where
  "parse_error s k = \<lparr>ehash = s, ekind = k\<rparr>"

primrec kind_of_invalid :: "InvalidHashError \<Rightarrow> ParseHashErrorKind" where
  "kind_of_invalid (InvalidHashError a n) = WrongHashLength2 a n"

type_synonym 'h parse_hash = "(ParseHashError + 'h) option"

section \<open>The trait\<close>

record 'h CommonHash =
  from_slice :: "Algorithm \<Rightarrow> bytes \<Rightarrow> (ParseHashErrorKind + 'h) option"
  implied_algorithm :: "Algorithm option"
  algorithm_of :: "'h \<Rightarrow> Algorithm"
  bytes_of :: "'h \<Rightarrow> bytes"

locale common_hash =
  fixes H :: "'h CommonHash" and ok :: "'h \<Rightarrow> bool"
  assumes bytes_length: "ok h \<Longrightarrow> length (bytes_of H h) = algo_size (algorithm_of H h)"
    and from_bytes: "ok h \<Longrightarrow> from_slice H (algorithm_of H h) (bytes_of H h) = Some (Inr h)"
    and from_slice_total: "length b = algo_size a \<Longrightarrow> \<exists>r. from_slice H a b = Some r"
    and from_slice_ok: "from_slice H a b = Some (Inr h) \<Longrightarrow> ok h \<and> algorithm_of H h = a \<and> bytes_of H h = b"
    and from_slice_kind: "length b = algo_size a \<Longrightarrow> from_slice H a b = Some (Inl k) \<Longrightarrow> \<exists>e. k = TypeMismatch e a"
    and implied: "implied_algorithm H = Some a \<Longrightarrow> ok h \<Longrightarrow> algorithm_of H h = a"

definition hash_common :: "Hash CommonHash" where
  "hash_common =
     \<lparr>from_slice = (\<lambda>a b. map_option (result_map_err kind_of_invalid) (hash_from_slice a b)),
      implied_algorithm = None, algorithm_of = algorithm, bytes_of = digest_bytes\<rparr>"

definition sha256_common :: "Sha256 CommonHash" where
  "sha256_common =
     \<lparr>from_slice = (\<lambda>a b. if a \<noteq> SHA256 then Some (Inl (TypeMismatch SHA256 a))
                        else map_option (result_map_err kind_of_invalid) (sha256_from_slice b)),
      implied_algorithm = Some SHA256, algorithm_of = (\<lambda>_. SHA256), bytes_of = sha256_bytes\<rparr>"

definition sha256_ok :: "Sha256 \<Rightarrow> bool" where
  "sha256_ok s \<longleftrightarrow> length (sha256_bytes s) = algo_size SHA256"

interpretation hash: common_hash hash_common hash_ok
proof
  fix h assume "hash_ok h"
  note ok = hash_ok_digest [OF this]
  show "length (bytes_of hash_common h) = algo_size (algorithm_of hash_common h)"
    "from_slice hash_common (algorithm_of hash_common h) (bytes_of hash_common h) = Some (Inr h)"
    using ok by (simp_all add: hash_common_def hash_from_slice_def)
next
  fix a b h assume "from_slice hash_common a b = Some (Inr h)"
  then have "hash_new a b = Some h"
    by (auto simp: hash_common_def hash_from_slice_def split: if_splits)
  from hash_new_ok [OF this] show "hash_ok h \<and> algorithm_of hash_common h = a \<and> bytes_of hash_common h = b"
    by (simp add: hash_common_def)
qed (auto simp: hash_common_def hash_from_slice_def hash_new_def)

interpretation sha256: common_hash sha256_common sha256_ok
proof
  fix a b h assume "from_slice sha256_common a b = Some (Inr h)"
  then show "sha256_ok h \<and> algorithm_of sha256_common h = a \<and> bytes_of sha256_common h = b"
    by (auto simp: sha256_common_def sha256_from_slice_def sha256_new_def sha256_ok_def split: if_splits)
next
  fix h assume "sha256_ok h"
  then show "from_slice sha256_common (algorithm_of sha256_common h) (bytes_of sha256_common h) = Some (Inr h)"
    by (cases h) (simp add: sha256_common_def sha256_from_slice_def sha256_new_def sha256_ok_def)
qed (auto simp: sha256_common_def sha256_from_slice_def sha256_new_def sha256_ok_def split: if_splits)

section \<open>Parsers\<close>

primrec split_once :: "char \<Rightarrow> string \<Rightarrow> (string \<times> string) option" where
  "split_once ch [] = None"
| "split_once ch (x # xs) =
     (if x = ch then Some ([], xs) else map_option (\<lambda>(a, b). (x # a, b)) (split_once ch xs))"

definition parse_with_base :: "Codecs \<Rightarrow> 'h CommonHash \<Rightarrow> Algorithm \<Rightarrow> string \<Rightarrow> Base \<Rightarrow> 'h parse_hash" where
  "parse_with_base cs H a s base =
     (if length s \<noteq> input_len base (algo_size a) then Some (Inl (parse_error s (WrongHashLength a)))
      else
        let scratch = scratch_len base (algo_size LARGEST); algo_scratch = scratch_len base (algo_size a) in
        if scratch < algo_scratch then None
        else case decode_for_base cs base s algo_scratch of
          None \<Rightarrow> None
        | Some (Inl err) \<Rightarrow> Some (Inl (parse_error s (BadEncoding (NoAlgo base) (perror err))))
        | Some (Inr d) \<Rightarrow>
            if length d \<noteq> algo_size a
            then Some (Inl (parse_error s (BadEncoding (NoAlgo base) \<lparr>position = 0, dkind = DLength\<rparr>)))
            else map_option (result_map_err (parse_error s))
              (from_slice H a (take (algo_size a) (d @ replicate (scratch - length d) 0))))"

text \<open>The common part of every \<open>FromStr\<close> of a prefixed form: the algorithm before the separator, and
  errors moved behind it.\<close>

definition with_prefix ::
  "string \<Rightarrow> (ParseHashErrorKind \<Rightarrow> ParseHashErrorKind) \<Rightarrow> (Algorithm \<Rightarrow> string \<Rightarrow> 'h parse_hash) \<Rightarrow> string \<times> string \<Rightarrow> 'h parse_hash" where
  "with_prefix s adjust parse pr =
     (case algo_from_str (fst pr) of
        Inl u \<Rightarrow> Some (Inl (parse_error s (EAlgorithm u)))
      | Inr a \<Rightarrow> map_option (result_map_err (\<lambda>err.
          err\<lparr>ehash := s, ekind := adjust (adjust_position (length (fst pr) + 1) (ekind err))\<rparr>)) (parse a (snd pr)))"

definition base16_parse :: "Codecs \<Rightarrow> 'h CommonHash \<Rightarrow> Algorithm \<Rightarrow> string \<Rightarrow> 'h parse_hash" where
  "base16_parse cs H a s = parse_with_base cs H a s Hex"

definition base16_from_str :: "Codecs \<Rightarrow> 'h CommonHash \<Rightarrow> string \<Rightarrow> 'h parse_hash" where
  "base16_from_str cs H s =
     (case split_once (CHR '':'') s of
        Some pr \<Rightarrow> with_prefix s (\<lambda>k. k) (base16_parse cs H) pr
      | None \<Rightarrow> Some (Inl (parse_error s MissingType)))"

definition base32_parse :: "Codecs \<Rightarrow> 'h CommonHash \<Rightarrow> Algorithm \<Rightarrow> string \<Rightarrow> 'h parse_hash" where
  "base32_parse cs H a s = parse_with_base cs H a s NixBase32"

definition base32_from_str :: "Codecs \<Rightarrow> 'h CommonHash \<Rightarrow> string \<Rightarrow> 'h parse_hash" where
  "base32_from_str cs H s =
     (case split_once (CHR '':'') s of
        Some pr \<Rightarrow> with_prefix s (\<lambda>k. k) (base32_parse cs H) pr
      | None \<Rightarrow> Some (Inl (parse_error s MissingType)))"

definition base64_parse :: "Codecs \<Rightarrow> 'h CommonHash \<Rightarrow> Algorithm \<Rightarrow> string \<Rightarrow> 'h parse_hash" where
  "base64_parse cs H a s = parse_with_base cs H a s Base64"

definition base64_from_str :: "Codecs \<Rightarrow> 'h CommonHash \<Rightarrow> string \<Rightarrow> 'h parse_hash" where
  "base64_from_str cs H s =
     (case split_once (CHR '':'') s of
        Some pr \<Rightarrow> with_prefix s (\<lambda>k. k) (base64_parse cs H) pr
      | None \<Rightarrow> Some (Inl (parse_error s MissingType)))"

definition any_parse :: "Codecs \<Rightarrow> 'h CommonHash \<Rightarrow> Algorithm \<Rightarrow> string \<Rightarrow> 'h parse_hash" where
  "any_parse cs H a s =
     (if length s = input_len Hex (algo_size a) then base16_parse cs H a s
      else if length s = input_len NixBase32 (algo_size a) then base32_parse cs H a s
      else if length s = input_len Base64 (algo_size a) then base64_parse cs H a s
      else Some (Inl (parse_error s (WrongHashLength a))))"

definition any_from_str :: "Codecs \<Rightarrow> 'h CommonHash \<Rightarrow> string \<Rightarrow> 'h parse_hash" where
  "any_from_str cs H s =
     (case split_once (CHR '':'') s of
        Some pr \<Rightarrow> with_prefix s (\<lambda>k. k) (any_parse cs H) pr
      | None \<Rightarrow>
         (case split_once (CHR ''-'') s of
            Some (prefix, rest) \<Rightarrow>
              (case algo_from_str prefix of
                 Inl u \<Rightarrow> Some (Inl (parse_error s (EAlgorithm u)))
               | Inr a \<Rightarrow>
                   if length rest = input_len Base64 (algo_size a)
                   then with_prefix s (adjust_encoding Sri) (base64_parse cs H) (prefix, rest)
                   else Some (Inl (parse_error s (WrongHashLength a))))
          | None \<Rightarrow>
             (case implied_algorithm H of
                Some a \<Rightarrow> any_parse cs H a s
              | None \<Rightarrow> Some (Inl (parse_error s MissingType)))))"

definition sri_from_str :: "Codecs \<Rightarrow> 'h CommonHash \<Rightarrow> string \<Rightarrow> 'h parse_hash" where
  "sri_from_str cs H s =
     (case split_once (CHR ''-'') s of
        Some pr \<Rightarrow> with_prefix s (adjust_encoding Sri) (base64_parse cs H) pr
      | None \<Rightarrow> Some (Inl (parse_error s NotSRI)))"

definition non_sri_parse :: "Codecs \<Rightarrow> 'h CommonHash \<Rightarrow> Algorithm \<Rightarrow> string \<Rightarrow> 'h parse_hash" where
  "non_sri_parse cs H a s =
     (if length s = input_len Hex (algo_size a) then base16_parse cs H a s
      else if length s = input_len NixBase32 (algo_size a) then base32_parse cs H a s
      else if length s = input_len Base64 (algo_size a) then base64_parse cs H a s
      else Some (Inl (parse_error s (WrongHashLength a))))"

definition non_sri_from_str :: "Codecs \<Rightarrow> 'h CommonHash \<Rightarrow> string \<Rightarrow> 'h parse_hash" where
  "non_sri_from_str cs H s =
     (case split_once (CHR '':'') s of
        Some pr \<Rightarrow> with_prefix s (\<lambda>k. k) (non_sri_parse cs H) pr
      | None \<Rightarrow>
         (case implied_algorithm H of
            Some a \<Rightarrow> non_sri_parse cs H a s
          | None \<Rightarrow> Some (Inl (parse_error s MissingType))))"

definition bare_from_str :: "'h CommonHash \<Rightarrow> (Algorithm \<Rightarrow> string \<Rightarrow> 'h parse_hash) \<Rightarrow> string \<Rightarrow> 'h parse_hash" where
  "bare_from_str H parse s =
     (case implied_algorithm H of
        Some a \<Rightarrow> parse a s
      | None \<Rightarrow> Some (Inl (parse_error s MissingType)))"

section \<open>Printers\<close>

text \<open>\<open>alt\<close> is the alternate flag of the formatter, without the algorithm; \<open>bare\<close> sets it.\<close>

definition base16_display :: "'h CommonHash \<Rightarrow> bool \<Rightarrow> 'h \<Rightarrow> string" where
  "base16_display H alt h =
     (if alt then [] else algo_name (algorithm_of H h) @ '':'') @ concat (map hex_byte (bytes_of H h))"

definition base32_display :: "Codecs \<Rightarrow> 'h CommonHash \<Rightarrow> bool \<Rightarrow> 'h \<Rightarrow> string option" where
  "base32_display cs H alt h =
     (let n = input_len NixBase32 (algo_size (algorithm_of H h)) in
      if input_len NixBase32 (algo_size LARGEST) < n then None
      else case encode_mut (nix_base32 cs) (bytes_of H h) n of
        None \<Rightarrow> None
      | Some s \<Rightarrow> Some (if alt then s else algo_name (algorithm_of H h) @ '':'' @ s))"

definition base64_display :: "Codecs \<Rightarrow> 'h CommonHash \<Rightarrow> bool \<Rightarrow> 'h \<Rightarrow> string option" where
  "base64_display cs H alt h =
     (let n = input_len Base64 (algo_size (algorithm_of H h)) in
      if input_len Base64 (algo_size LARGEST) < n then None
      else case codec_encode_mut (base64 cs) (bytes_of H h) n of
        None \<Rightarrow> None
      | Some s \<Rightarrow> Some (if alt then s else algo_name (algorithm_of H h) @ '':'' @ s))"

definition sri_display :: "Codecs \<Rightarrow> 'h CommonHash \<Rightarrow> 'h \<Rightarrow> string option" where
  "sri_display cs H h =
     map_option (\<lambda>s. algo_name (algorithm_of H h) @ ''-'' @ s) (base64_display cs H True h)"

definition ascii_upper :: "char \<Rightarrow> char" where
  "ascii_upper c = (if 97 \<le> (of_char c :: nat) \<and> (of_char c :: nat) \<le> 122 then char_of (of_char c - 32 :: nat) else c)"

definition hash_lower_hex :: "bool \<Rightarrow> Hash \<Rightarrow> string" where
  "hash_lower_hex alt h =
     (if alt then [] else algo_name (algorithm h) @ '':'') @ concat (map hex_byte (digest_bytes h))"

definition hash_upper_hex :: "bool \<Rightarrow> Hash \<Rightarrow> string" where
  "hash_upper_hex alt h =
     (if alt then [] else algo_name (algorithm h) @ '':'') @ concat (map (map ascii_upper \<circ> hex_byte) (digest_bytes h))"

definition hash_serialize :: "Codecs \<Rightarrow> Hash \<Rightarrow> string option" where
  "hash_serialize cs h = sri_display cs hash_common h"

definition hash_deserialize :: "Codecs \<Rightarrow> string \<Rightarrow> Hash parse_hash" where
  "hash_deserialize cs s =
     (case sri_from_str cs hash_common s of
        None \<Rightarrow> None
      | Some (Inr h) \<Rightarrow> Some (Inr h)
      | Some (Inl _) \<Rightarrow> any_from_str cs hash_common s)"

section \<open>Facts\<close>

lemma result_map_err_Inr: "result_map_err f r = Inr x \<longleftrightarrow> r = Inr x"
  by (cases r) auto

lemma split_once_append: "ch \<notin> set a \<Longrightarrow> split_once ch (a @ ch # b) = Some (a, b)"
  by (induction a) auto

lemma split_once_None: "split_once ch s = None \<longleftrightarrow> ch \<notin> set s"
  by (induction s) auto

lemma split_once_Some: "split_once ch s = Some (a, b) \<Longrightarrow> s = a @ ch # b"
  by (induction s arbitrary: a) (auto split: if_splits)

lemma scratch_le: "scratch_len base (algo_size a) \<le> scratch_len base (algo_size LARGEST)"
  by (cases base; cases a) (simp_all add: LARGEST_def base64_len_def)

lemma input_len_le: "input_len base (algo_size a) \<le> input_len base (algo_size LARGEST)"
  by (cases base; cases a) (simp_all add: LARGEST_def base64_len_def encode_len_def)

lemma input_len_pos: "0 < input_len base (algo_size a)"
  by (cases base; cases a) (simp_all add: base64_len_def encode_len_def)

lemma input_len_inj: "input_len base (algo_size a) = input_len base' (algo_size a) \<longleftrightarrow> base = base'"
  by (cases base; cases base'; cases a) (simp_all add: base64_len_def encode_len_def)

text \<open>An error is about the whole input, and its position, if it has one, lies in it.\<close>

definition error_within :: "string \<Rightarrow> ParseHashError \<Rightarrow> bool" where
  "error_within s e \<longleftrightarrow> ehash e = s \<and> (case ekind e of BadEncoding _ d \<Rightarrow> position d < length s | _ \<Rightarrow> True)"

locale hash_format = data_encoding cs + common_hash H ok for cs :: Codecs and H :: "'h CommonHash" and ok
begin

definition parsed_well :: "string \<Rightarrow> 'h parse_hash \<Rightarrow> bool" where
  "parsed_well s r \<longleftrightarrow> (\<exists>e. r = Some (Inl e) \<and> error_within s e) \<or> (\<exists>h. r = Some (Inr h) \<and> ok h)"

lemma parsed_well_error: "\<forall>e d. k \<noteq> BadEncoding e d \<Longrightarrow> parsed_well s (Some (Inl (parse_error s k)))"
  by (cases k) (simp_all add: parsed_well_def error_within_def parse_error_def)

lemma parse_with_base_well: "parsed_well s (parse_with_base cs H a s base)"
proof (cases "length s = input_len base (algo_size a)")
  case False
  then show ?thesis by (simp add: parse_with_base_def parsed_well_error)
next
  case True
  with decode_for_base_total [OF this] obtain res where
    res: "decode_for_base cs base s (scratch_len base (algo_size a)) = Some res"
      "case res of Inl e \<Rightarrow> position (perror e) < length s | Inr b \<Rightarrow> length b \<le> scratch_len base (algo_size a)" by blast
  have pos: "0 < length s" using True input_len_pos [of base a] by simp
  show ?thesis
  proof (cases res)
    case (Inl e)
    with True res show ?thesis
      by (simp add: parse_with_base_def scratch_le leD Let_def parsed_well_def error_within_def parse_error_def)
  next
    case (Inr d)
    show ?thesis
    proof (cases "length d = algo_size a")
      case False
      with True res Inr pos show ?thesis
        by (simp add: parse_with_base_def scratch_le leD Let_def parsed_well_def error_within_def parse_error_def)
    next
      case len: True
      then obtain r where r: "from_slice H a d = Some r" using from_slice_total [of d a] by auto
      have "parse_with_base cs H a s base = Some (result_map_err (parse_error s) r)"
        using True res Inr len r by (simp add: parse_with_base_def scratch_le leD Let_def)
      moreover have "\<exists>x. k = TypeMismatch x a" if "r = Inl k" for k using from_slice_kind [OF len, of k] r that by simp
      moreover have "ok h" if "r = Inr h" for h using from_slice_ok [of a d h] r that by simp
      ultimately show ?thesis
        by (cases r) (auto simp: parsed_well_def error_within_def parse_error_def)
    qed
  qed
qed

lemma any_parse_well: "parsed_well s (any_parse cs H a s)"
  by (simp add: any_parse_def base16_parse_def base32_parse_def base64_parse_def parse_with_base_well parsed_well_error)

lemma non_sri_parse_any: "non_sri_parse cs H a s = any_parse cs H a s"
  by (simp add: any_parse_def non_sri_parse_def)

lemma with_prefix_well:
  assumes "\<And>a r. parsed_well r (parse a r)" "s = p @ ch # r" "adjust = (\<lambda>k. k) \<or> adjust = adjust_encoding Sri"
  shows "parsed_well s (with_prefix s adjust parse (p, r))"
proof (cases "algo_from_str p")
  case (Inl u)
  then show ?thesis by (simp add: with_prefix_def parsed_well_error)
next
  case (Inr a)
  from assms(1) [of r a] show ?thesis unfolding parsed_well_def
  proof (elim disjE exE conjE)
    fix e assume e: "parse a r = Some (Inl e)" "error_within r e"
    then have "error_within s (e\<lparr>ehash := s, ekind := adjust (adjust_position (length p + 1) (ekind e))\<rparr>)"
      using assms(2,3) by (cases "ekind e") (auto simp: error_within_def adjust_encoding_def)
    with e(1) Inr show "(\<exists>e. with_prefix s adjust parse (p, r) = Some (Inl e) \<and> error_within s e) \<or>
        (\<exists>h. with_prefix s adjust parse (p, r) = Some (Inr h) \<and> ok h)"
      by (simp add: with_prefix_def)
  qed (simp add: with_prefix_def Inr)
qed

lemmas parse_well = parse_with_base_well any_parse_well parsed_well_error with_prefix_well [OF _ split_once_Some]

lemma base_from_str_well:
  "parsed_well s (base16_from_str cs H s)" "parsed_well s (base32_from_str cs H s)" "parsed_well s (base64_from_str cs H s)"
  "parsed_well s (sri_from_str cs H s)" "parsed_well s (non_sri_from_str cs H s)"
  by (auto simp: base16_from_str_def base32_from_str_def base64_from_str_def sri_from_str_def non_sri_from_str_def
      base16_parse_def base32_parse_def base64_parse_def non_sri_parse_any split: option.splits intro!: parse_well)

lemma any_from_str_well: "parsed_well s (any_from_str cs H s)"
  by (auto simp: any_from_str_def base64_parse_def split: option.splits sum.splits intro!: parse_well)

text \<open>Round trips.\<close>

lemma parse_encoded: "ok h \<Longrightarrow> parse_with_base cs H (algorithm_of H h) (base_encode cs base (bytes_of H h)) base = Some (Inr h)"
  using decode_for_base_encode [of base "bytes_of H h"] base_encode_length [of base "bytes_of H h"]
  by (simp add: parse_with_base_def bytes_length scratch_le leD Let_def from_bytes)

lemma any_parse_encoded: "ok h \<Longrightarrow> any_parse cs H (algorithm_of H h) (base_encode cs base (bytes_of H h)) = Some (Inr h)"
  using base_encode_length [of base "bytes_of H h"] parse_encoded [of h base]
  by (cases base) (simp_all add: any_parse_def base16_parse_def base32_parse_def base64_parse_def bytes_length
      input_len_inj del: input_len.simps base_encode.simps)

lemma with_prefix_name:
  "parse (algorithm_of H h) r = Some (Inr h) \<Longrightarrow> with_prefix s adjust parse (algo_name (algorithm_of H h), r) = Some (Inr h)"
  by (simp add: with_prefix_def algo_from_str_name)

lemma split_name: "split_once (CHR '':'') (algo_name a @ CHR '':'' # r) = Some (algo_name a, r)"
    "split_once (CHR ''-'') (algo_name a @ CHR ''-'' # r) = Some (algo_name a, r)"
  using algo_name_chars [of _ a] by (auto intro: split_once_append)

lemma displays:
  assumes "ok h"
  shows "base16_display H alt h = (if alt then [] else algo_name (algorithm_of H h) @ '':'') @ base_encode cs Hex (bytes_of H h)"
    "base32_display cs H alt h = Some ((if alt then [] else algo_name (algorithm_of H h) @ '':'') @ base_encode cs NixBase32 (bytes_of H h))"
    "base64_display cs H alt h = Some ((if alt then [] else algo_name (algorithm_of H h) @ '':'') @ base_encode cs Base64 (bytes_of H h))"
    "sri_display cs H h = Some (algo_name (algorithm_of H h) @ ''-'' @ base_encode cs Base64 (bytes_of H h))"
proof -
  note e = encode_for_base_input_len [of _ "bytes_of H h", unfolded bytes_length [OF assms]]
  show "base16_display H alt h = (if alt then [] else algo_name (algorithm_of H h) @ '':'') @ base_encode cs Hex (bytes_of H h)"
    by (simp add: base16_display_def hex_encode)
  show "base32_display cs H alt h = Some ((if alt then [] else algo_name (algorithm_of H h) @ '':'') @ base_encode cs NixBase32 (bytes_of H h))"
    using e [of NixBase32] input_len_le [of NixBase32] by (simp add: base32_display_def Let_def leD)
  show b: "base64_display cs H alt h = Some ((if alt then [] else algo_name (algorithm_of H h) @ '':'') @ base_encode cs Base64 (bytes_of H h))" for alt
    using e [of Base64] input_len_le [of Base64] by (simp add: base64_display_def Let_def leD)
  show "sri_display cs H h = Some (algo_name (algorithm_of H h) @ ''-'' @ base_encode cs Base64 (bytes_of H h))"
    by (simp add: sri_display_def b)
qed

lemma prefixed_roundtrip:
  assumes "ok h"
  shows "base16_from_str cs H (algo_name (algorithm_of H h) @ CHR '':'' # base_encode cs Hex (bytes_of H h)) = Some (Inr h)"
    "base32_from_str cs H (algo_name (algorithm_of H h) @ CHR '':'' # base_encode cs NixBase32 (bytes_of H h)) = Some (Inr h)"
    "base64_from_str cs H (algo_name (algorithm_of H h) @ CHR '':'' # base_encode cs Base64 (bytes_of H h)) = Some (Inr h)"
    "any_from_str cs H (algo_name (algorithm_of H h) @ CHR '':'' # base_encode cs base (bytes_of H h)) = Some (Inr h)"
    "non_sri_from_str cs H (algo_name (algorithm_of H h) @ CHR '':'' # base_encode cs base (bytes_of H h)) = Some (Inr h)"
    "sri_from_str cs H (algo_name (algorithm_of H h) @ CHR ''-'' # base_encode cs Base64 (bytes_of H h)) = Some (Inr h)"
  using parse_encoded [OF assms] any_parse_encoded [OF assms]
  by (simp_all add: base16_from_str_def base32_from_str_def base64_from_str_def any_from_str_def non_sri_from_str_def
      sri_from_str_def base16_parse_def base32_parse_def base64_parse_def non_sri_parse_any split_name with_prefix_name
      del: base_encode.simps)

lemma any_sri:
  assumes "ok h"
  shows "any_from_str cs H (algo_name (algorithm_of H h) @ CHR ''-'' # base_encode cs Base64 (bytes_of H h)) = Some (Inr h)"
proof -
  let ?s = "algo_name (algorithm_of H h) @ CHR ''-'' # base_encode cs Base64 (bytes_of H h)"
  have "CHR '':'' \<notin> set B64_SYMBOLS" by (simp add: B64_SYMBOLS_def)
  then have "split_once (CHR '':'') ?s = None"
    unfolding split_once_None using b64_symbols [of "bytes_of H h"] algo_name_chars [of "CHR '':''" "algorithm_of H h"] by auto
  then show ?thesis
    using parse_encoded [OF assms, of Base64] base_encode_length [of Base64 "bytes_of H h"]
    by (simp add: any_from_str_def split_name algo_from_str_name base64_parse_def with_prefix_name bytes_length [OF assms]
        del: base_encode.simps input_len.simps)
qed

lemma bare_roundtrip:
  assumes "ok h" "implied_algorithm H = Some a"
  shows "bare_from_str H (\<lambda>a s. parse_with_base cs H a s base) (base_encode cs base (bytes_of H h)) = Some (Inr h)"
    "bare_from_str H (any_parse cs H) (base_encode cs base (bytes_of H h)) = Some (Inr h)"
  using parse_encoded [OF assms(1), of base] any_parse_encoded [OF assms(1), of base] implied [OF assms(2,1)] assms(2)
  by (simp_all add: bare_from_str_def)

text \<open>What the base32 parser accepts.\<close>

lemma parse_with_base32_sound:
  assumes "parse_with_base cs H a s NixBase32 = Some (Inr h)"
  shows "ok h \<and> algorithm_of H h = a \<and> s = base_encode cs NixBase32 (bytes_of H h)"
proof -
  have len: "length s = input_len NixBase32 (algo_size a)"
    using assms by (auto simp: parse_with_base_def split: if_splits)
  obtain d where d: "decode_for_base cs NixBase32 s (algo_size a) = Some (Inr d)" "length d = algo_size a"
      "from_slice H a d = Some (Inr h)"
    using assms by (auto simp: parse_with_base_def Let_def result_map_err_Inr split: if_splits option.splits sum.splits)
  from from_slice_ok [OF d(3)] decode_for_base32_canonical [OF d(1)] show ?thesis by simp
qed

end

interpretation hash_text: hash_format bit_codecs hash_common hash_ok
  by unfold_locales

interpretation sha256_text: hash_format bit_codecs sha256_common sha256_ok
  by unfold_locales

section \<open>Properties\<close>

text \<open>
  C24. Every printed form of a hash is parsed back to the hash, for every type of hash and every
  algorithm. With the name of the algorithm, base16, base32 and base64 are each read by the parser of the
  form, by \<open>Any\<close> and by \<open>NonSRI\<close>, and a subresource integrity expression by \<open>SRI\<close> and by \<open>Any\<close>. Without it, where
  the type implies the algorithm, base16, base32 and base64 are each read by the bare parser of the form and
  by the bare \<open>Any\<close> and \<open>NonSRI\<close> parsers. Printing never panics.
\<close>

theorem hash_text_roundtrip:
  assumes "data_encoding cs" "common_hash H ok" "ok h"
  shows "(base16_from_str cs H (base16_display H False h) = Some (Inr h) \<and>
       any_from_str cs H (base16_display H False h) = Some (Inr h) \<and>
       non_sri_from_str cs H (base16_display H False h) = Some (Inr h)) \<and>
    (\<exists>s. base32_display cs H False h = Some s \<and> base32_from_str cs H s = Some (Inr h) \<and>
       any_from_str cs H s = Some (Inr h) \<and> non_sri_from_str cs H s = Some (Inr h)) \<and>
    (\<exists>s. base64_display cs H False h = Some s \<and> base64_from_str cs H s = Some (Inr h) \<and>
       any_from_str cs H s = Some (Inr h) \<and> non_sri_from_str cs H s = Some (Inr h)) \<and>
    (\<exists>s. sri_display cs H h = Some s \<and> sri_from_str cs H s = Some (Inr h) \<and> any_from_str cs H s = Some (Inr h)) \<and>
    (\<forall>a. implied_algorithm H = Some a \<longrightarrow>
      (\<forall>p \<in> {base16_parse cs H, any_parse cs H, non_sri_parse cs H}.
         bare_from_str H p (base16_display H True h) = Some (Inr h)) \<and>
      (\<exists>s. base32_display cs H True h = Some s \<and>
         (\<forall>p \<in> {base32_parse cs H, any_parse cs H, non_sri_parse cs H}. bare_from_str H p s = Some (Inr h))) \<and>
      (\<exists>s. base64_display cs H True h = Some s \<and>
         (\<forall>p \<in> {base64_parse cs H, any_parse cs H, non_sri_parse cs H}. bare_from_str H p s = Some (Inr h))))"
proof -
  have f: "hash_format cs H ok" using assms(1,2) by (simp add: hash_format_def)
  have n: "non_sri_parse cs H = any_parse cs H" by (intro ext) (rule hash_format.non_sri_parse_any [OF f])
  note d = hash_format.displays [OF f assms(3)] and r = hash_format.prefixed_roundtrip [OF f assms(3)]
    and b = hash_format.bare_roundtrip [OF f assms(3)]
  show ?thesis
    by (simp add: d r b n hash_format.any_sri [OF f assms(3)] base16_parse_def [abs_def] base32_parse_def [abs_def]
        base64_parse_def [abs_def] del: base_encode.simps)
qed

theorem hash_text_roundtrip_witness:
  "\<exists>h s. hash_new MD5 (replicate 16 7) = Some h \<and> sri_display bit_codecs hash_common h = Some s \<and>
     any_from_str bit_codecs hash_common s = Some (Inr h)"
proof -
  obtain h where h: "hash_new MD5 (replicate 16 7) = Some h" using hash_new_total [of "replicate 16 7" MD5] by auto
  then have "hash_ok h" using hash_new_ok by blast
  from hash_text_roundtrip [OF bits.data_encoding_axioms hash.common_hash_axioms this] h show ?thesis by blast
qed

text \<open>
  No hash parser ever panics, on any input: each returns a well-formed hash or an error about the whole
  input, and where a decoding error has a position, it lies within the input, also after the prefix has been
  added to it and Nix base32 has been reversed.
\<close>

theorem hash_parsers_total:
  assumes "data_encoding cs" "common_hash H ok"
    and "parser \<in> {base16_from_str cs H, base32_from_str cs H, base64_from_str cs H, sri_from_str cs H,
      non_sri_from_str cs H, any_from_str cs H}"
  shows "(\<exists>e. parser s = Some (Inl e) \<and> error_within s e) \<or> (\<exists>h. parser s = Some (Inr h) \<and> ok h)"
proof -
  have f: "hash_format cs H ok" using assms(1,2) by (simp add: hash_format_def)
  show ?thesis
    using assms(3) hash_format.base_from_str_well [OF f, of s] hash_format.any_from_str_well [OF f, of s]
    by (auto simp: hash_format.parsed_well_def [OF f])
qed

theorem hash_parsers_total_witness:
  "(\<exists>e. any_from_str bit_codecs sha256_common ''sha256:zz'' = Some (Inl e) \<and> error_within ''sha256:zz'' e) \<or>
   (\<exists>h. any_from_str bit_codecs sha256_common ''sha256:zz'' = Some (Inr h) \<and> sha256_ok h)"
  by (rule hash_parsers_total [OF bits.data_encoding_axioms sha256.common_hash_axioms]) simp

text \<open>
  The base32 parser is exact: a string it accepts is the name of the hash's algorithm, in any case,
  a colon, and the one base32 form of its bytes. Two strings that name the algorithm alike denote the same hash only if
  they are equal.
\<close>

theorem base32_parser_exact:
  assumes "data_encoding cs" "common_hash H ok" "base32_from_str cs H s = Some (Inr h)"
  shows "\<exists>p. s = p @ CHR '':'' # base_encode cs NixBase32 (bytes_of H h) \<and>
    eq_ignore_ascii_case p (algo_name (algorithm_of H h)) \<and> ok h"
proof -
  have f: "hash_format cs H ok" using assms(1,2) by (simp add: hash_format_def)
  obtain p r a where s: "split_once (CHR '':'') s = Some (p, r)" and a: "algo_from_str p = Inr a"
    and parse: "parse_with_base cs H a r NixBase32 = Some (Inr h)"
    using assms(3)
    by (auto simp: base32_from_str_def with_prefix_def base32_parse_def result_map_err_Inr split: option.splits sum.splits)
  from hash_format.parse_with_base32_sound [OF f parse] algo_from_str_Inr [OF a] split_once_Some [OF s] show ?thesis
    by auto
qed

theorem base32_parser_exact_witness:
  "\<exists>h s p. hash_ok h \<and> base32_from_str bit_codecs hash_common s = Some (Inr h) \<and>
     s = p @ CHR '':'' # base_encode bit_codecs NixBase32 (bytes_of hash_common h)"
proof -
  obtain h where "hash_new SHA1 (replicate 20 255) = Some h" using hash_new_total [of "replicate 20 255" SHA1] by auto
  then have ok: "hash_ok h" using hash_new_ok by blast
  note r = hash_text.prefixed_roundtrip(2) [OF ok]
  from base32_parser_exact [OF bits.data_encoding_axioms hash.common_hash_axioms r] ok r show ?thesis by blast
qed

end
