(* ===== verification/Store_Path.thy ===== *)
theory Store_Path
  imports Hash_Fmt "HOL-Library.List_Lexorder" "HOL-Library.Sublist"
begin

text \<open>
  \<open>harmonia-store-core/src/store_path\<close>: \<open>path.rs\<close> and \<open>store_dir.rs\<close>. A store path is a hash of twenty bytes and a name;
  its text is the base32 form of the hash, a dash and the name, below a store directory.

  The facts: parsing and printing are inverse in both directions, with and without the directory; no parser
  panics and errors point at the offending byte without overflow of their 8-bit index.
\<close>

unbundle bit_operations_syntax

section \<open>Errors\<close>

datatype StorePathNameError = NNameLength | NSymbol u8 u8

datatype StorePathError = NonAbsolute string | NotInStore string | HashLength | NameLength | Symbol u8 u8

definition adjust_index :: "u8 \<Rightarrow> StorePathNameError \<Rightarrow> StorePathError" where
  "adjust_index start other = (case other of NSymbol old ch \<Rightarrow> Symbol (start + old) ch | NNameLength \<Rightarrow> NameLength)"

datatype ParseStorePathError = ParseStorePathError string StorePathError

section \<open>Hashes\<close>

definition STORE_PATH_HASH_SIZE :: nat where
  "STORE_PATH_HASH_SIZE = 20"

definition STORE_PATH_HASH_ENCODED_SIZE :: nat where
  "STORE_PATH_HASH_ENCODED_SIZE = encode_len STORE_PATH_HASH_SIZE"

datatype StorePathHash = StorePathHash (sph_bytes: bytes)

definition new_from_hash :: "Sha256 \<Rightarrow> StorePathHash" where
  "new_from_hash h =
     StorePathHash (foldl (\<lambda>digest (i, item).
         let idx = i mod STORE_PATH_HASH_SIZE in digest[idx := digest ! idx XOR item])
       (replicate STORE_PATH_HASH_SIZE 0) (enumerate 0 (sha256_bytes h)))"

definition copy_from_slice :: "bytes \<Rightarrow> StorePathHash option" where
  "copy_from_slice d = (if length d = STORE_PATH_HASH_SIZE then Some (StorePathHash d) else None)"

definition sph_try_from :: "bytes \<Rightarrow> (StorePathError + StorePathHash) option" where
  "sph_try_from d =
     (if length d \<noteq> STORE_PATH_HASH_SIZE then Some (Inl HashLength) else map_option Inr (copy_from_slice d))"

definition decode_digest :: "Codecs \<Rightarrow> string \<Rightarrow> (StorePathError + StorePathHash) option" where
  "decode_digest cs s =
     (if length s \<noteq> encode_len STORE_PATH_HASH_SIZE then Some (Inl HashLength)
      else case decode_mut (nix_base32 cs) s STORE_PATH_HASH_SIZE of
        None \<Rightarrow> None
      | Some (Inl err) \<Rightarrow>
          (let p = position (perror err) in
           if p < length s then Some (Inl (Symbol (word_of_nat p) (byte_of_char (s ! p)))) else None)
      | Some (Inr d) \<Rightarrow> Some (Inr (StorePathHash (d @ replicate (STORE_PATH_HASH_SIZE - length d) 0))))"

definition sph_display :: "Codecs \<Rightarrow> StorePathHash \<Rightarrow> string option" where
  "sph_display cs h = encode_mut (nix_base32 cs) (sph_bytes h) (encode_len STORE_PATH_HASH_SIZE)"

text \<open>Hashes are ordered from their last byte, as their base32 forms are.\<close>

instantiation StorePathHash :: linorder
begin

definition less_eq_StorePathHash :: "StorePathHash \<Rightarrow> StorePathHash \<Rightarrow> bool" where
  "less_eq_StorePathHash a b \<longleftrightarrow> rev (sph_bytes a) \<le> rev (sph_bytes b)"

definition less_StorePathHash :: "StorePathHash \<Rightarrow> StorePathHash \<Rightarrow> bool" where
  "less_StorePathHash a b \<longleftrightarrow> rev (sph_bytes a) < rev (sph_bytes b)"

instance
proof
  fix x y :: StorePathHash
  show "x \<le> y \<Longrightarrow> y \<le> x \<Longrightarrow> x = y" by (simp add: less_eq_StorePathHash_def StorePathHash.expand)
  show "x < y \<longleftrightarrow> x \<le> y \<and> \<not> y \<le> x"
    by (simp add: less_eq_StorePathHash_def less_StorePathHash_def less_le_not_le)
qed (auto simp: less_eq_StorePathHash_def less_StorePathHash_def)

end

section \<open>Names\<close>

definition in_range :: "char \<Rightarrow> char \<Rightarrow> char \<Rightarrow> bool" where
  "in_range lo hi ch \<longleftrightarrow> (of_char lo :: nat) \<le> of_char ch \<and> (of_char ch :: nat) \<le> of_char hi"

definition NAME_LOOKUP :: "char \<Rightarrow> bool" where
  "NAME_LOOKUP ch \<longleftrightarrow> in_range (CHR ''a'') (CHR ''z'') ch \<or> in_range (CHR ''A'') (CHR ''Z'') ch \<or>
     in_range (CHR ''0'') (CHR ''9'') ch \<or> ch \<in> set ''+-_?=.''"

definition MAX_NAME_LEN :: nat where
  "MAX_NAME_LEN = 211"

primrec check_name :: "nat \<Rightarrow> string \<Rightarrow> StorePathNameError + unit" where
  "check_name idx [] = Inr ()"
| "check_name idx (ch # s) =
     (if \<not> NAME_LOOKUP ch then Inl (NSymbol (word_of_nat idx) (byte_of_char ch)) else check_name (Suc idx) s)"

definition into_name :: "string \<Rightarrow> StorePathNameError + string" where
  "into_name s =
     (if s = [] \<or> MAX_NAME_LEN < length s then Inl NNameLength
      else result_map (\<lambda>_. s) (check_name 0 s))"

datatype StorePathName = StorePathName (name_str: string)

definition name_from_str :: "string \<Rightarrow> StorePathNameError + StorePathName" where
  "name_from_str s = result_map StorePathName (into_name s)"

section \<open>Store paths\<close>

record StorePath =
  sp_hash :: StorePathHash
  sp_name :: StorePathName

definition from_bytes :: "Codecs \<Rightarrow> string \<Rightarrow> (StorePathError + StorePath) option" where
  "from_bytes cs buf =
     (if length buf < STORE_PATH_HASH_ENCODED_SIZE + 1 then Some (Inl HashLength)
      else if buf ! STORE_PATH_HASH_ENCODED_SIZE \<noteq> CHR ''-''
      then Some (Inl (Symbol (word_of_nat STORE_PATH_HASH_ENCODED_SIZE)
             (byte_of_char (buf ! STORE_PATH_HASH_ENCODED_SIZE))))
      else case decode_digest cs (take STORE_PATH_HASH_ENCODED_SIZE buf) of
        None \<Rightarrow> None
      | Some (Inl e) \<Rightarrow> Some (Inl e)
      | Some (Inr h) \<Rightarrow>
          (case name_from_str (drop (STORE_PATH_HASH_ENCODED_SIZE + 1) buf) of
             Inl e \<Rightarrow> Some (Inl (adjust_index (word_of_nat STORE_PATH_HASH_ENCODED_SIZE + 1) e))
           | Inr n \<Rightarrow> Some (Inr \<lparr>sp_hash = h, sp_name = n\<rparr>)))"

definition path_from_hash :: "Sha256 \<Rightarrow> StorePathName \<Rightarrow> StorePath" where
  "path_from_hash h n = \<lparr>sp_hash = new_from_hash h, sp_name = n\<rparr>"

definition is_derivation :: "StorePath \<Rightarrow> bool" where
  "is_derivation p \<longleftrightarrow> suffix ''.drv'' (name_str (sp_name p))"

definition path_display :: "Codecs \<Rightarrow> StorePath \<Rightarrow> string option" where
  "path_display cs p = map_option (\<lambda>h. h @ ''-'' @ name_str (sp_name p)) (sph_display cs (sp_hash p))"

definition path_from_str :: "Codecs \<Rightarrow> string \<Rightarrow> (ParseStorePathError + StorePath) option" where
  "path_from_str cs s = map_option (result_map_err (ParseStorePathError s)) (from_bytes cs s)"

section \<open>The store directory\<close>

datatype StoreDir = StoreDir (dir_str: string)

definition default_dir :: StoreDir where
  "default_dir = StoreDir ''/nix/store''"

text \<open>\<open>Path::is_absolute\<close> on Unix.\<close>

definition is_absolute :: "string \<Rightarrow> bool" where
  "is_absolute s \<longleftrightarrow> prefix ''/'' s"

definition str_strip_prefix :: "string \<Rightarrow> string \<Rightarrow> string option" where
  "str_strip_prefix p s = (if prefix p s then Some (drop (length p) s) else None)"

definition strip_prefix :: "StoreDir \<Rightarrow> string \<Rightarrow> StorePathError + string" where
  "strip_prefix d s =
     (if \<not> is_absolute s then Inl (NonAbsolute s)
      else case str_strip_prefix (dir_str d) s of
        None \<Rightarrow> Inl (NotInStore s)
      | Some name \<Rightarrow> if name = [] \<or> hd name \<noteq> CHR ''/'' then Inl (NotInStore s) else Inr (drop 1 name))"

definition from_store_dir_str :: "Codecs \<Rightarrow> StoreDir \<Rightarrow> string \<Rightarrow> (ParseStorePathError + StorePath) option" where
  "from_store_dir_str cs d s =
     (case strip_prefix d s of
        Inl e \<Rightarrow> Some (Inl (ParseStorePathError s e))
      | Inr b \<Rightarrow> map_option (result_map_err (ParseStorePathError s)) (from_bytes cs b))"

definition store_dir_display :: "Codecs \<Rightarrow> StoreDir \<Rightarrow> StorePath \<Rightarrow> string option" where
  "store_dir_display cs d p = map_option (\<lambda>s. dir_str d @ ''/'' @ s) (path_display cs p)"

section \<open>Facts\<close>

definition name_ok :: "string \<Rightarrow> bool" where
  "name_ok s \<longleftrightarrow> s \<noteq> [] \<and> length s \<le> MAX_NAME_LEN \<and> list_all NAME_LOOKUP s"

definition path_ok :: "StorePath \<Rightarrow> bool" where
  "path_ok p \<longleftrightarrow> length (sph_bytes (sp_hash p)) = STORE_PATH_HASH_SIZE \<and> name_ok (name_str (sp_name p))"

lemma check_name_Inr: "check_name k s = Inr () \<longleftrightarrow> list_all NAME_LOOKUP s"
  by (induction s arbitrary: k) auto

lemma check_name_Inl:
  "check_name k s = Inl e \<Longrightarrow> \<exists>i. i < length s \<and> e = NSymbol (word_of_nat (k + i)) (byte_of_char (s ! i)) \<and> \<not> NAME_LOOKUP (s ! i)"
proof (induction s arbitrary: k)
  case (Cons ch s)
  show ?case
  proof (cases "NAME_LOOKUP ch")
    case True
    with Cons obtain i where "i < length s" "e = NSymbol (word_of_nat (Suc k + i)) (byte_of_char (s ! i))" "\<not> NAME_LOOKUP (s ! i)"
      by fastforce
    then show ?thesis by (intro exI [of _ "Suc i"]) simp
  qed (use Cons.prems in auto)
qed simp

lemma into_name_Inr: "into_name s = Inr n \<longleftrightarrow> n = s \<and> name_ok s"
proof -
  have "check_name 0 s = Inr u \<longleftrightarrow> list_all NAME_LOOKUP s" for u using check_name_Inr [of 0 s] by simp
  then show ?thesis by (cases "check_name 0 s") (auto simp: into_name_def name_ok_def)
qed

lemma into_name_Inl:
  assumes "into_name s = Inl e"
  shows "(e = NNameLength \<and> (s = [] \<or> MAX_NAME_LEN < length s)) \<or>
    (\<exists>i. i < length s \<and> length s \<le> MAX_NAME_LEN \<and> e = NSymbol (word_of_nat i) (byte_of_char (s ! i)) \<and> \<not> NAME_LOOKUP (s ! i))"
  using assms check_name_Inl [of 0 s e]
  by (cases "check_name 0 s") (auto simp: into_name_def split: if_splits)

lemma encoded_size: "STORE_PATH_HASH_ENCODED_SIZE = 32"
  by (simp add: STORE_PATH_HASH_ENCODED_SIZE_def STORE_PATH_HASH_SIZE_def encode_len_def)

lemma encode_len_20: "encode_len STORE_PATH_HASH_SIZE = 32"
  using encoded_size by (simp add: STORE_PATH_HASH_ENCODED_SIZE_def)

lemma new_from_hash_fold:
  assumes "length xs \<le> 40"
  defines "d \<equiv> foldl (\<lambda>digest (i, item). let idx = i mod 20 in digest[idx := digest ! idx XOR item])
      (replicate 20 (0 :: u8)) (enumerate 0 xs)"
  shows "length d = 20 \<and> (\<forall>i < 20. d ! i = (if i < length xs then xs ! i else 0) XOR (if i + 20 < length xs then xs ! (i + 20) else 0))"
  using assms(1) unfolding d_def
proof (induction xs rule: rev_induct)
  case (snoc x xs)
  let ?f = "\<lambda>digest (i, item). let idx = i mod 20 in digest[idx := digest ! idx XOR item]"
  let ?d = "foldl ?f (replicate 20 (0 :: u8)) (enumerate 0 xs)"
  let ?n = "length xs"
  have IH: "length ?d = 20" "\<And>i. i < 20 \<Longrightarrow> ?d ! i = (if i < ?n then xs ! i else 0) XOR (if i + 20 < ?n then xs ! (i + 20) else 0)"
    using snoc by auto
  have e: "foldl ?f (replicate 20 0) (enumerate 0 (xs @ [x])) = ?d[?n mod 20 := ?d ! (?n mod 20) XOR x]"
    by (simp add: enumerate_append_eq Let_def)
  have n: "?n < 40" using snoc.prems by simp
  show ?case unfolding e
  proof (intro conjI allI impI)
    fix i :: nat assume i: "i < 20"
    show "?d[?n mod 20 := ?d ! (?n mod 20) XOR x] ! i =
        (if i < length (xs @ [x]) then (xs @ [x]) ! i else 0) XOR (if i + 20 < length (xs @ [x]) then (xs @ [x]) ! (i + 20) else 0)"
    proof (cases "?n < 20")
      case True
      then show ?thesis using IH i by (auto simp: nth_append nth_list_update)
    next
      case False
      then have "?n mod 20 = ?n - 20" using n by (simp add: mod_if)
      with False n IH i show ?thesis by (auto simp: nth_append nth_list_update)
    qed
  qed (simp add: IH)
qed simp

lemma new_from_hash_length: "length (sph_bytes (new_from_hash h)) = STORE_PATH_HASH_SIZE" if "sha256_ok h"
  using new_from_hash_fold [of "sha256_bytes h"] that
  by (simp add: new_from_hash_def STORE_PATH_HASH_SIZE_def sha256_ok_def)

text \<open>An error names the first offending byte, with its index in the whole input.\<close>

definition path_error :: "string \<Rightarrow> StorePathError \<Rightarrow> bool" where
  "path_error s e \<longleftrightarrow> e = HashLength \<or> e = NameLength \<or>
     (\<exists>i < length s. i < 256 \<and> e = Symbol (word_of_nat i) (byte_of_char (s ! i)))"

context data_encoding
begin

lemma sph_display_eq:
  "length (sph_bytes h) = STORE_PATH_HASH_SIZE \<Longrightarrow> sph_display cs h = Some (base_encode cs NixBase32 (sph_bytes h))"
  using encode_for_base_input_len [of NixBase32 "sph_bytes h"] by (simp add: sph_display_def)

lemma decode_digest_total:
  "\<exists>r. decode_digest cs s = Some r \<and>
     (case r of Inl e \<Rightarrow> e = HashLength \<and> length s \<noteq> 32 \<or> (\<exists>i < length s. length s = 32 \<and> e = Symbol (word_of_nat i) (byte_of_char (s ! i)))
      | Inr h \<Rightarrow> length (sph_bytes h) = STORE_PATH_HASH_SIZE \<and> s = base_encode cs NixBase32 (sph_bytes h))"
proof (cases "length s = encode_len STORE_PATH_HASH_SIZE")
  case False
  then show ?thesis by (auto simp: decode_digest_def encode_len_20)
next
  case True
  with decode_for_base_total [of s NixBase32 STORE_PATH_HASH_SIZE, unfolded scratch_len.simps input_len.simps decode_for_base.simps]
  obtain res where
    res: "decode_mut (nix_base32 cs) s STORE_PATH_HASH_SIZE = Some res"
      "case res of Inl e \<Rightarrow> position (perror e) < length s | Inr b \<Rightarrow> length b \<le> STORE_PATH_HASH_SIZE" by blast
  show ?thesis
  proof (cases res)
    case (Inl e)
    with res True show ?thesis by (auto simp: decode_digest_def encode_len_20 Let_def)
  next
    case (Inr d)
    have c: "s = base_encode cs NixBase32 d"
      using decode_for_base32_canonical [of s STORE_PATH_HASH_SIZE d] res Inr by simp
    have "encode_len (length d) = encode_len STORE_PATH_HASH_SIZE"
      using True base_encode_length [of NixBase32 d] c by simp
    then have "length d = STORE_PATH_HASH_SIZE" using decode_len_encode_len by (metis option.inject)
    with c res Inr True show ?thesis by (simp add: decode_digest_def)
  qed
qed

lemma decode_digest_display:
  "length (sph_bytes h) = STORE_PATH_HASH_SIZE \<Longrightarrow> decode_digest cs (base_encode cs NixBase32 (sph_bytes h)) = Some (Inr h)"
  using decode_for_base_encode [of NixBase32 "sph_bytes h"] base_encode_length [of NixBase32 "sph_bytes h"]
  by (simp add: decode_digest_def)

lemma from_bytes_display:
  assumes "path_ok p"
  shows "\<exists>s. path_display cs p = Some s \<and> from_bytes cs s = Some (Inr p)"
proof -
  let ?h = "base_encode cs NixBase32 (sph_bytes (sp_hash p))"
  have len: "length ?h = 32" using assms base_encode_length [of NixBase32 "sph_bytes (sp_hash p)"]
    by (simp add: path_ok_def encode_len_20)
  have "into_name (name_str (sp_name p)) = Inr (name_str (sp_name p))"
    using assms by (simp add: into_name_Inr path_ok_def)
  then have "from_bytes cs (?h @ CHR ''-'' # name_str (sp_name p)) = Some (Inr p)"
    using assms len decode_digest_display [of "sp_hash p"]
    by (simp add: from_bytes_def encoded_size nth_append name_from_str_def path_ok_def)
  with assms show ?thesis by (simp add: path_display_def sph_display_eq path_ok_def)
qed

lemma from_bytes_sound:
  assumes "from_bytes cs s = Some (Inr p)"
  shows "path_ok p \<and> path_display cs p = Some s"
proof -
  have len: "33 \<le> length s" "s ! 32 = CHR ''-''"
    using assms by (auto simp: from_bytes_def encoded_size split: if_splits)
  obtain h n where h: "decode_digest cs (take 32 s) = Some (Inr h)" and n: "name_from_str (drop 33 s) = Inr n"
    and p: "p = \<lparr>sp_hash = h, sp_name = n\<rparr>"
    using assms by (auto simp: from_bytes_def encoded_size split: if_splits option.splits sum.splits)
  have ho: "length (sph_bytes h) = STORE_PATH_HASH_SIZE" "take 32 s = base_encode cs NixBase32 (sph_bytes h)"
    using decode_digest_total [of "take 32 s"] h by auto
  have no: "into_name (drop 33 s) = Inr (drop 33 s)" "n = StorePathName (drop 33 s)"
    using n by (cases "into_name (drop 33 s)"; auto simp: name_from_str_def into_name_Inr)+
  then have "name_ok (name_str n)" by (simp add: into_name_Inr)
  moreover have "s = take 32 s @ CHR ''-'' # drop 33 s"
    using len by (metis Cons_nth_drop_Suc append_take_drop_id eval_nat_numeral(3) less_eq_Suc_le semiring_norm(26-28))
  ultimately show ?thesis using ho no p by (simp add: path_ok_def path_display_def sph_display_eq)
qed

lemma from_bytes_total: "(\<exists>p. from_bytes cs s = Some (Inr p)) \<or> (\<exists>e. from_bytes cs s = Some (Inl e) \<and> path_error s e)"
proof (cases "length s < 33 \<or> s ! 32 \<noteq> CHR ''-''")
  case True
  then show ?thesis by (auto simp: from_bytes_def encoded_size path_error_def intro: exI [of _ 32])
next
  case False
  then have len: "33 \<le> length s" by simp
  obtain r where r: "decode_digest cs (take 32 s) = Some r"
    "case r of Inl e \<Rightarrow> e = HashLength \<and> length (take 32 s) \<noteq> 32 \<or> (\<exists>i < length (take 32 s). length (take 32 s) = 32 \<and>
        e = Symbol (word_of_nat i) (byte_of_char (take 32 s ! i))) | Inr h \<Rightarrow> True"
    using decode_digest_total [of "take 32 s"] by (fastforce split: sum.splits)
  show ?thesis
  proof (cases r)
    case (Inl e)
    with r(2) len obtain i where "i < 32" "e = Symbol (word_of_nat i) (byte_of_char (s ! i))" by auto
    with Inl r(1) False len show ?thesis by (fastforce simp: from_bytes_def encoded_size path_error_def)
  next
    case (Inr h)
    show ?thesis
    proof (cases "into_name (drop 33 s)")
      case e: (Inl e)
      have "path_error s (adjust_index (word_of_nat 32 + 1) e)"
        using into_name_Inl [OF e]
      proof (elim disjE exE conjE)
        fix i assume i: "i < length (drop 33 s)" "length (drop 33 s) \<le> MAX_NAME_LEN"
          "e = NSymbol (word_of_nat i) (byte_of_char (drop 33 s ! i))"
        then have "33 + i < length s" "33 + i < 256" by (auto simp: MAX_NAME_LEN_def)
        moreover have "(33 :: u8) + word_of_nat i = word_of_nat (33 + i)" by simp
        ultimately show ?thesis using i(3) len by (auto simp: path_error_def adjust_index_def)
      qed (simp_all add: path_error_def adjust_index_def)
      with Inr r(1) False e show ?thesis by (simp add: from_bytes_def encoded_size name_from_str_def)
    next
      case (Inr n)
      with \<open>r = Inr h\<close> r(1) False show ?thesis by (simp add: from_bytes_def encoded_size name_from_str_def)
    qed
  qed
qed

end

section \<open>Properties\<close>

text \<open>
  C19. Store paths and their texts correspond: every path with a hash of twenty bytes and a valid name is
  printed without a panic and parsed back, on its own and below every absolute store directory; and every
  text that either parser accepts is the text of a valid path, printed back to itself.
\<close>

theorem store_path_text_bijection:
  assumes "data_encoding cs" "is_absolute (dir_str d)"
  shows "(\<forall>p. path_ok p \<longrightarrow> (\<exists>s. path_display cs p = Some s \<and> path_from_str cs s = Some (Inr p))) \<and>
    (\<forall>p. path_ok p \<longrightarrow> (\<exists>s. store_dir_display cs d p = Some s \<and> from_store_dir_str cs d s = Some (Inr p))) \<and>
    (\<forall>s p. path_from_str cs s = Some (Inr p) \<longrightarrow> path_ok p \<and> path_display cs p = Some s) \<and>
    (\<forall>s p. from_store_dir_str cs d s = Some (Inr p) \<longrightarrow> path_ok p \<and> store_dir_display cs d p = Some s)"
proof (intro conjI allI impI)
  fix p assume "path_ok p"
  from data_encoding.from_bytes_display [OF assms(1) this]
  obtain s where s: "path_display cs p = Some s" "from_bytes cs s = Some (Inr p)" by blast
  then show "\<exists>s. path_display cs p = Some s \<and> path_from_str cs s = Some (Inr p)" by (simp add: path_from_str_def)
  have "strip_prefix d (dir_str d @ CHR ''/'' # s) = Inr s"
    using assms(2) by (auto simp: strip_prefix_def str_strip_prefix_def is_absolute_def prefix_def)
  with s show "\<exists>s. store_dir_display cs d p = Some s \<and> from_store_dir_str cs d s = Some (Inr p)"
    by (simp add: store_dir_display_def from_store_dir_str_def)
next
  fix s p assume "path_from_str cs s = Some (Inr p)"
  then have "from_bytes cs s = Some (Inr p)" by (auto simp: path_from_str_def result_map_err_Inr)
  from data_encoding.from_bytes_sound [OF assms(1) this]
  show "path_ok p" "path_display cs p = Some s" by simp_all
next
  fix s p assume "from_store_dir_str cs d s = Some (Inr p)"
  then obtain b where b: "strip_prefix d s = Inr b" "from_bytes cs b = Some (Inr p)"
    by (auto simp: from_store_dir_str_def result_map_err_Inr split: sum.splits)
  have "s = dir_str d @ CHR ''/'' # b"
    using b(1) by (auto simp: strip_prefix_def str_strip_prefix_def prefix_def neq_Nil_conv split: if_splits option.splits)
  with data_encoding.from_bytes_sound [OF assms(1) b(2)]
  show "path_ok p" "store_dir_display cs d p = Some s" by (simp_all add: store_dir_display_def)
qed

theorem store_path_text_bijection_witness:
  "\<exists>s. store_dir_display bit_codecs default_dir \<lparr>sp_hash = StorePathHash (replicate 20 7), sp_name = StorePathName ''hello-2.12''\<rparr> = Some s \<and>
     from_store_dir_str bit_codecs default_dir s =
       Some (Inr \<lparr>sp_hash = StorePathHash (replicate 20 7), sp_name = StorePathName ''hello-2.12''\<rparr>)"
proof -
  let ?p = "\<lparr>sp_hash = StorePathHash (replicate 20 7), sp_name = StorePathName ''hello-2.12''\<rparr>"
  have "path_ok ?p"
    by (simp add: path_ok_def name_ok_def STORE_PATH_HASH_SIZE_def MAX_NAME_LEN_def NAME_LOOKUP_def in_range_def)
  moreover have "is_absolute (dir_str default_dir)" by (simp add: is_absolute_def default_dir_def)
  ultimately show ?thesis using store_path_text_bijection [OF bits.data_encoding_axioms] by blast
qed

text \<open>
  \<open>StorePath::from_bytes\<close> never panics and its 8-bit error index never wraps: on every input it returns
  a path, or one of the two length errors, or the index and the value of an offending byte of the input.
\<close>

theorem store_path_parse_total:
  assumes "data_encoding cs"
  shows "(\<exists>p. from_bytes cs s = Some (Inr p)) \<or> (\<exists>e. from_bytes cs s = Some (Inl e) \<and> path_error s e)"
  by (rule data_encoding.from_bytes_total [OF assms])

theorem store_path_parse_total_witness:
  "(\<exists>p. from_bytes bit_codecs ''zzz'' = Some (Inr p)) \<or> (\<exists>e. from_bytes bit_codecs ''zzz'' = Some (Inl e) \<and> path_error ''zzz'' e)"
  by (rule store_path_parse_total [OF bits.data_encoding_axioms])

text \<open>
  The hash of a store path is a compression of a SHA-256 digest: its byte \<open>i\<close> is the exclusive or of the digest's
  bytes \<open>i\<close> and, where there is one, \<open>i + 20\<close>.
\<close>

theorem new_from_hash_compresses:
  assumes "sha256_ok h" "i < 20"
  shows "length (sph_bytes (new_from_hash h)) = 20 \<and>
    sph_bytes (new_from_hash h) ! i =
      (if i < 12 then sha256_bytes h ! i XOR sha256_bytes h ! (i + 20) else sha256_bytes h ! i)"
  using new_from_hash_fold [of "sha256_bytes h"] assms
  by (simp add: new_from_hash_def STORE_PATH_HASH_SIZE_def sha256_ok_def)

theorem new_from_hash_compresses_witness:
  "sph_bytes (new_from_hash (Sha256 (replicate 31 1 @ [8]))) ! 11 = 9"
  using new_from_hash_compresses [of "Sha256 (replicate 31 1 @ [8])" 11]
  by (simp add: sha256_ok_def nth_append)

end
