(* ===== verification/Content_Address.thy ===== *)
theory Content_Address
  imports Store_Path
begin

text \<open>
  \<open>harmonia-store-core/src/store_path\<close>: \<open>content_address.rs\<close>, \<open>create.rs\<close> and
  \<open>StoreDir::make_store_path_from_ca\<close>. A content address is a method with a hash; the path it makes is
  the hash of a fingerprint that names the method, the references, the store directory and the name.

  The facts: texts of content addresses and of method-algorithm pairs are parsed back; parsing never
  panics; the path of a content address is always a valid path with the given name.
\<close>

section \<open>Methods\<close>

datatype ContentAddressMethod = MText | MFlat | MRecursive

primrec method_display :: "ContentAddressMethod \<Rightarrow> string" where
  "method_display MText = ''text''"
| "method_display MFlat = ''fixed''"
| "method_display MRecursive = ''fixed:r''"

datatype ContentAddressMethodAlgorithm = AText | AFlat Algorithm | ARecursive Algorithm

primrec method_algorithm_display :: "ContentAddressMethodAlgorithm \<Rightarrow> string" where
  "method_algorithm_display AText = ''text:sha256''"
| "method_algorithm_display (AFlat a) = algo_name a"
| "method_algorithm_display (ARecursive a) = ''r:'' @ algo_name a"

primrec ma_algorithm :: "ContentAddressMethodAlgorithm \<Rightarrow> Algorithm" where
  "ma_algorithm AText = SHA256"
| "ma_algorithm (AFlat a) = a"
| "ma_algorithm (ARecursive a) = a"

primrec ma_method :: "ContentAddressMethodAlgorithm \<Rightarrow> ContentAddressMethod" where
  "ma_method AText = MText"
| "ma_method (AFlat _) = MFlat"
| "ma_method (ARecursive _) = MRecursive"

text \<open>The raw representation of serde, and back.\<close>

definition ma_serialize :: "ContentAddressMethodAlgorithm \<Rightarrow> ContentAddressMethod \<times> Algorithm" where
  "ma_serialize m = (ma_method m, ma_algorithm m)"

definition ma_deserialize :: "ContentAddressMethod \<times> Algorithm \<Rightarrow> ContentAddressMethodAlgorithm" where
  "ma_deserialize raw =
     (case fst raw of MText \<Rightarrow> AText | MFlat \<Rightarrow> AFlat (snd raw) | MRecursive \<Rightarrow> ARecursive (snd raw))"

datatype ParseContentAddressError =
  InvalidHash ContentAddressMethod ParseHashError | CUnknownAlgorithm UnknownAlgorithm | InvalidForm string

definition method_algorithm_from_str :: "string \<Rightarrow> ParseContentAddressError + ContentAddressMethodAlgorithm" where
  "method_algorithm_from_str s =
     (if s = ''text:sha256'' then Inr AText
      else case str_strip_prefix ''r:'' s of
        Some algo \<Rightarrow> result_map_err CUnknownAlgorithm (result_map ARecursive (algo_from_str algo))
      | None \<Rightarrow> result_map_err CUnknownAlgorithm (result_map AFlat (algo_from_str s)))"

section \<open>Content addresses\<close>

datatype ContentAddress = Text Sha256 | Flat Hash | Recursive Hash

definition ca_display :: "Codecs \<Rightarrow> ContentAddress \<Rightarrow> string option" where
  "ca_display cs ca =
     (case ca of
        Text h \<Rightarrow> map_option (\<lambda>s. ''text:'' @ s) (base32_display cs sha256_common False h)
      | Flat h \<Rightarrow> map_option (\<lambda>s. ''fixed:'' @ s) (base32_display cs hash_common False h)
      | Recursive h \<Rightarrow> map_option (\<lambda>s. ''fixed:r:'' @ s) (base32_display cs hash_common False h))"

definition ca_from_hash :: "ContentAddressMethod \<Rightarrow> Hash \<Rightarrow> (ParseHashErrorKind + ContentAddress) option" where
  "ca_from_hash m h =
     (case m of
        MText \<Rightarrow>
          if algorithm h \<noteq> SHA256 then Some (Inl (TypeMismatch SHA256 (algorithm h)))
          else map_option (\<lambda>s. Inr (Text s)) (sha256_of_hash h)
      | MFlat \<Rightarrow> Some (Inr (Flat h))
      | MRecursive \<Rightarrow> Some (Inr (Recursive h)))"

primrec ca_method :: "ContentAddress \<Rightarrow> ContentAddressMethod" where
  "ca_method (Text _) = MText"
| "ca_method (Flat _) = MFlat"
| "ca_method (Recursive _) = MRecursive"

primrec ca_method_algorithm :: "ContentAddress \<Rightarrow> ContentAddressMethodAlgorithm" where
  "ca_method_algorithm (Text _) = AText"
| "ca_method_algorithm (Flat h) = AFlat (algorithm h)"
| "ca_method_algorithm (Recursive h) = ARecursive (algorithm h)"

definition ca_algorithm :: "ContentAddress \<Rightarrow> Algorithm" where
  "ca_algorithm ca = ma_algorithm (ca_method_algorithm ca)"

primrec ca_hash :: "ContentAddress \<Rightarrow> Hash option" where
  "ca_hash (Text h) = hash_of_sha256 h"
| "ca_hash (Flat h) = Some h"
| "ca_hash (Recursive h) = Some h"

definition ca_serialize :: "ContentAddress \<Rightarrow> (ContentAddressMethod \<times> Hash) option" where
  "ca_serialize ca = map_option (Pair (ca_method ca)) (ca_hash ca)"

definition ca_deserialize :: "ContentAddressMethod \<times> Hash \<Rightarrow> (ParseHashErrorKind + ContentAddress) option" where
  "ca_deserialize raw = ca_from_hash (fst raw) (snd raw)"

definition ca_from_str :: "Codecs \<Rightarrow> string \<Rightarrow> (ParseContentAddressError + ContentAddress) option" where
  "ca_from_str cs s =
     (case str_strip_prefix ''text:'' s of
        Some h \<Rightarrow> map_option (\<lambda>r. result_map_err (InvalidHash MText) (result_map Text r)) (non_sri_from_str cs sha256_common h)
      | None \<Rightarrow>
     (case str_strip_prefix ''fixed:r:'' s of
        Some h \<Rightarrow> map_option (\<lambda>r. result_map_err (InvalidHash MRecursive) (result_map Recursive r)) (non_sri_from_str cs hash_common h)
      | None \<Rightarrow>
     (case str_strip_prefix ''fixed:'' s of
        Some h \<Rightarrow> map_option (\<lambda>r. result_map_err (InvalidHash MFlat) (result_map Flat r)) (non_sri_from_str cs hash_common h)
      | None \<Rightarrow> Some (Inl (InvalidForm s)))))"

section \<open>The path of a content address\<close>

datatype PathType =
    PText "StorePath list" Sha256
  | PSource "StorePath list" bool Sha256
  | POutput Hash
  | PFlatOutput Hash

definition path_type_of_ca :: "ContentAddress \<Rightarrow> PathType option" where
  "path_type_of_ca ca =
     (case ca of
        Text d \<Rightarrow> Some (PText [] d)
      | Recursive h \<Rightarrow>
          if algorithm h = SHA256 then map_option (PSource [] False) (sha256_of_hash h) else Some (POutput h)
      | Flat h \<Rightarrow> Some (PFlatOutput h))"

definition sha256_lower_hex :: "Sha256 \<Rightarrow> string" where
  "sha256_lower_hex d = concat (map hex_byte (sha256_bytes d))"

primrec refs_display :: "Codecs \<Rightarrow> StoreDir \<Rightarrow> StorePath list \<Rightarrow> string option" where
  "refs_display cs d [] = Some []"
| "refs_display cs d (p # ps) =
     Option.bind (store_dir_display cs d p) (\<lambda>s. map_option (\<lambda>r. '':'' @ s @ r) (refs_display cs d ps))"

definition path_type_display :: "Codecs \<Rightarrow> ('m, 'r) Crates \<Rightarrow> StoreDir \<Rightarrow> PathType \<Rightarrow> string option" where
  "path_type_display cs K d t =
     (case t of
        PText refs dg \<Rightarrow> map_option (\<lambda>r. ''text'' @ r @ '':sha256:'' @ sha256_lower_hex dg) (refs_display cs d refs)
      | PSource refs self_ref dg \<Rightarrow>
          map_option (\<lambda>r. ''source'' @ r @ (if self_ref then '':self'' else []) @ '':sha256:'' @ sha256_lower_hex dg)
            (refs_display cs d refs)
      | POutput h \<Rightarrow>
          map_option (\<lambda>dg. ''output:out:sha256:'' @ sha256_lower_hex dg)
            (sha256_digest K (as_bytes (''fixed:out:r:'' @ hash_lower_hex False h)))
      | PFlatOutput h \<Rightarrow>
          map_option (\<lambda>dg. ''output:out:sha256:'' @ sha256_lower_hex dg)
            (sha256_digest K (as_bytes (''fixed:out:'' @ hash_lower_hex False h))))"

definition fingerprint_display :: "Codecs \<Rightarrow> ('m, 'r) Crates \<Rightarrow> StoreDir \<Rightarrow> PathType \<Rightarrow> StorePathName \<Rightarrow> string option" where
  "fingerprint_display cs K d t n =
     map_option (\<lambda>s. s @ '':'' @ dir_str d @ '':'' @ name_str n) (path_type_display cs K d t)"

definition make_store_path_from_ca ::
  "Codecs \<Rightarrow> ('m, 'r) Crates \<Rightarrow> StoreDir \<Rightarrow> StorePathName \<Rightarrow> ContentAddress \<Rightarrow> StorePath option" where
  "make_store_path_from_ca cs K d n ca =
     Option.bind (path_type_of_ca ca) (\<lambda>t.
     Option.bind (fingerprint_display cs K d t n) (\<lambda>fp.
     map_option (\<lambda>dg. path_from_hash dg n) (sha256_digest K (as_bytes fp))))"

section \<open>Facts\<close>

definition ca_ok :: "ContentAddress \<Rightarrow> bool" where
  "ca_ok ca = (case ca of Text h \<Rightarrow> sha256_ok h | Flat h \<Rightarrow> hash_ok h | Recursive h \<Rightarrow> hash_ok h)"

lemma str_strip_append [simp]: "str_strip_prefix p (p @ s) = Some s"
  by (simp add: str_strip_prefix_def)

lemma strip_simps:
  "str_strip_prefix ''text:'' (CHR ''t'' # CHR ''e'' # CHR ''x'' # CHR ''t'' # CHR '':'' # s) = Some s"
  "str_strip_prefix ''text:'' (CHR ''f'' # s) = None"
  "str_strip_prefix ''fixed:r:'' (CHR ''f'' # CHR ''i'' # CHR ''x'' # CHR ''e'' # CHR ''d'' # CHR '':'' # CHR ''r'' # CHR '':'' # s) = Some s"
  "str_strip_prefix ''fixed:'' (CHR ''f'' # CHR ''i'' # CHR ''x'' # CHR ''e'' # CHR ''d'' # CHR '':'' # s) = Some s"
  by (simp_all add: str_strip_prefix_def)

lemma algo_not_r: "str_strip_prefix ''fixed:r:'' (''fixed:'' @ algo_name a @ s) = None"
    "str_strip_prefix ''r:'' (algo_name a) = None" "algo_name a \<noteq> ''text:sha256''"
  by (cases a; simp add: str_strip_prefix_def)+

lemma sha256_of_ok: "hash_ok h \<Longrightarrow> algorithm h = SHA256 \<Longrightarrow> \<exists>s. sha256_of_hash h = Some s \<and> sha256_ok s \<and> sha256_bytes s = digest_bytes h"
  using hash_ok_digest [of h] by (simp add: sha256_of_hash_def sha256_new_def sha256_ok_def)

lemma hash_of_sha256_ok: "sha256_ok s \<Longrightarrow> \<exists>h. hash_of_sha256 s = Some h \<and> hash_ok h \<and> algorithm h = SHA256 \<and> sha256_of_hash h = Some s"
proof -
  assume ok: "sha256_ok s"
  then obtain h where h: "hash_new SHA256 (sha256_bytes s) = Some h"
    using hash_new_total [of "sha256_bytes s" SHA256] by (auto simp: sha256_ok_def)
  with hash_new_ok [OF h] ok show ?thesis
    by (cases s) (simp add: hash_of_sha256_def sha256_of_hash_def sha256_new_def sha256_ok_def)
qed

lemma map_parsed:
  assumes "(\<exists>e. r = Some (Inl e) \<and> Q e) \<or> (\<exists>h. r = Some (Inr h) \<and> ok h)" "\<And>h. ok h \<Longrightarrow> ca_ok (C h)"
  shows "\<exists>x. map_option (\<lambda>r. result_map_err E (result_map C r)) r = Some x \<and> (\<forall>ca. x = Inr ca \<longrightarrow> ca_ok ca)"
  using assms by auto

context digest_crates
begin

lemma sha256_digest_total: "\<exists>d. sha256_digest K b = Some d \<and> sha256_ok d"
  using algo_digest_total [of SHA256 b] sha256_of_ok by (fastforce simp: sha256_digest_def)

lemma make_store_path_exact:
  assumes "ca_ok ca" "name_ok (name_str n)"
  shows "\<exists>p t fp dg. make_store_path_from_ca cs K d n ca = Some p \<and> path_ok p \<and> sp_name p = n \<and>
    path_type_of_ca ca = Some t \<and> fingerprint_display cs K d t n = Some fp \<and>
    sha256_digest K (as_bytes fp) = Some dg \<and> sp_hash p = new_from_hash dg"
proof -
  note dg = sha256_digest_total
  obtain t where t: "path_type_of_ca ca = Some t"
    using assms(1) sha256_of_ok
    by (cases ca) (simp_all add: path_type_of_ca_def ca_ok_def, metis option.simps(9))
  have "\<exists>s. path_type_display cs K d t = Some s"
    using t dg by (fastforce simp: path_type_of_ca_def path_type_display_def split: ContentAddress.splits if_splits)
  then obtain fp where fp: "fingerprint_display cs K d t n = Some fp" by (auto simp: fingerprint_display_def)
  obtain h where h: "sha256_digest K (as_bytes fp) = Some h" "sha256_ok h" using dg by blast
  then show ?thesis
    using t fp assms(2) new_from_hash_length [OF h(2)]
    by (simp add: make_store_path_from_ca_def path_from_hash_def path_ok_def)
qed

end

lemma method_algorithm_from_display: "method_algorithm_from_str (method_algorithm_display m) = Inr m"
  using algo_from_str_name algo_not_r by (cases m) (auto simp: method_algorithm_from_str_def str_strip_prefix_def)

context data_encoding
begin

lemma hash_formats: "hash_format cs hash_common hash_ok" "hash_format cs sha256_common sha256_ok"
  using data_encoding_axioms hash.common_hash_axioms sha256.common_hash_axioms by (simp_all add: hash_format_def)

lemma ca_from_display:
  assumes "ca_ok ca"
  shows "\<exists>s. ca_display cs ca = Some s \<and> ca_from_str cs s = Some (Inr ca)"
proof -
  note d = hash_format.displays(2) [OF hash_formats(1), of _ False] hash_format.displays(2) [OF hash_formats(2), of _ False]
  note r = hash_format.prefixed_roundtrip(5) [OF hash_formats(1), of _ NixBase32] hash_format.prefixed_roundtrip(5) [OF hash_formats(2), of _ NixBase32]
  show ?thesis
    using assms d r algo_not_r(1)
    by (cases ca) (simp_all add: ca_ok_def ca_display_def ca_from_str_def strip_simps del: base_encode.simps)
qed

end

section \<open>Properties\<close>

text \<open>
  C29. Content addresses are parsed back from their text and from their raw serialised form, and so are pairs of a method and
  an algorithm; neither printing nor parsing panics, on any input.
\<close>

theorem content_address_roundtrip:
  assumes "data_encoding cs"
  shows "(\<forall>ca. ca_ok ca \<longrightarrow> (\<exists>s. ca_display cs ca = Some s \<and> ca_from_str cs s = Some (Inr ca)) \<and>
        (\<exists>raw. ca_serialize ca = Some raw \<and> ca_deserialize raw = Some (Inr ca))) \<and>
    (\<forall>m. method_algorithm_from_str (method_algorithm_display m) = Inr m \<and> ma_deserialize (ma_serialize m) = m) \<and>
    (\<forall>s. \<exists>r. ca_from_str cs s = Some r \<and> (\<forall>ca. r = Inr ca \<longrightarrow> ca_ok ca))"
proof (intro conjI allI impI)
  fix ca assume ok: "ca_ok ca"
  show "\<exists>s. ca_display cs ca = Some s \<and> ca_from_str cs s = Some (Inr ca)"
    by (rule data_encoding.ca_from_display [OF assms ok])
  show "\<exists>raw. ca_serialize ca = Some raw \<and> ca_deserialize raw = Some (Inr ca)"
    using ok hash_of_sha256_ok
    by (cases ca) (fastforce simp: ca_ok_def ca_serialize_def ca_deserialize_def ca_from_hash_def)+
next
  fix m show "method_algorithm_from_str (method_algorithm_display m) = Inr m"
    by (rule method_algorithm_from_display)
  show "ma_deserialize (ma_serialize m) = m" by (cases m) (simp_all add: ma_deserialize_def ma_serialize_def)
next
  note fh = data_encoding.hash_formats(1) [OF assms] and fs = data_encoding.hash_formats(2) [OF assms]
  note w = hash_format.base_from_str_well(5) [OF fh, unfolded hash_format.parsed_well_def [OF fh]]
    hash_format.base_from_str_well(5) [OF fs, unfolded hash_format.parsed_well_def [OF fs]]
  fix s show "\<exists>r. ca_from_str cs s = Some r \<and> (\<forall>ca. r = Inr ca \<longrightarrow> ca_ok ca)"
    using map_parsed [OF w(2), of Text "InvalidHash MText"] map_parsed [OF w(1), of Recursive "InvalidHash MRecursive"]
      map_parsed [OF w(1), of Flat "InvalidHash MFlat"]
    by (simp add: ca_from_str_def ca_ok_def split: option.splits)
qed

theorem content_address_roundtrip_witness:
  "\<exists>s. ca_display bit_codecs (Text (Sha256 (replicate 32 3))) = Some s \<and>
     ca_from_str bit_codecs s = Some (Inr (Text (Sha256 (replicate 32 3))))"
  using content_address_roundtrip [OF bits.data_encoding_axioms] by (auto simp: ca_ok_def sha256_ok_def)

text \<open>
  \<open>make_store_path_from_ca\<close> never panics: for every well-formed content address, every store directory and every name it
  makes a path with a hash of twenty bytes and the given name, whose hash is the compressed digest of the fingerprint of the address.
\<close>

theorem make_store_path_total:
  assumes "digest_crates K md5_seen ring_seen ring_alg" "ca_ok ca" "name_ok (name_str n)"
  shows "\<exists>p t fp dg. make_store_path_from_ca cs K d n ca = Some p \<and> path_ok p \<and> sp_name p = n \<and>
    path_type_of_ca ca = Some t \<and> fingerprint_display cs K d t n = Some fp \<and>
    sha256_digest K (as_bytes fp) = Some dg \<and> sp_hash p = new_from_hash dg"
  by (rule digest_crates.make_store_path_exact [OF assms])

theorem make_store_path_total_witness:
  "\<exists>p. make_store_path_from_ca bit_codecs plain_crates default_dir (StorePathName ''a'') (Text (Sha256 (replicate 32 3))) = Some p \<and>
     path_ok p"
proof -
  have "ca_ok (Text (Sha256 (replicate 32 3)))" by (simp add: ca_ok_def sha256_ok_def)
  moreover have "name_ok (name_str (StorePathName ''a''))"
    by (simp add: name_ok_def MAX_NAME_LEN_def NAME_LOOKUP_def in_range_def)
  ultimately show ?thesis using make_store_path_total [OF plain.digest_crates_axioms] by blast
qed

end
