(* ===== verification/Btree.thy ===== *)
theory Btree
  imports Main
begin

text \<open>
  \<open>BTreeSet\<close> and \<open>BTreeMap\<close> of the standard library, as the lists of their elements and entries in ascending order,
  which is the order their iterators give. \<open>map_of\<close> is the lookup.
\<close>

section \<open>Operations\<close>

text \<open>\<open>insert\<close>: an element that is there stays, a key that is there gets the new value.\<close>

fun set_insert :: "'a :: linorder \<Rightarrow> 'a list \<Rightarrow> 'a list" where
  "set_insert x [] = [x]"
| "set_insert x (y # ys) = (if x < y then x # y # ys else if x = y then y # ys else y # set_insert x ys)"

fun map_insert :: "'k :: linorder \<Rightarrow> 'v \<Rightarrow> ('k \<times> 'v) list \<Rightarrow> ('k \<times> 'v) list" where
  "map_insert k v [] = [(k, v)]"
| "map_insert k v ((k', v') # es) =
     (if k < k' then (k, v) # (k', v') # es else if k = k' then (k', v) # es else (k', v') # map_insert k v es)"

text \<open>\<open>entry(k).or_default()\<close> with what is then done to the value in its place.\<close>

fun map_entry :: "'v \<Rightarrow> 'k :: linorder \<Rightarrow> ('v \<Rightarrow> 'v) \<Rightarrow> ('k \<times> 'v) list \<Rightarrow> ('k \<times> 'v) list" where
  "map_entry d k f [] = [(k, f d)]"
| "map_entry d k f ((k', v) # es) =
     (if k < k' then (k, f d) # (k', v) # es else if k = k' then (k', f v) # es else (k', v) # map_entry d k f es)"

text \<open>The elements in ascending order, and the keys.\<close>

abbreviation btree_set :: "'a :: linorder list \<Rightarrow> bool" where
  "btree_set \<equiv> sorted_wrt (<)"

abbreviation btree_map :: "('k :: linorder \<times> 'v) list \<Rightarrow> bool" where
  "btree_map es \<equiv> sorted_wrt (<) (map fst es)"

section \<open>Facts\<close>

lemma set_set_insert [simp]: "set (set_insert x xs) = insert x (set xs)"
  by (induction x xs rule: set_insert.induct) auto

lemma btree_set_insert [simp]: "btree_set xs \<Longrightarrow> btree_set (set_insert x xs)"
  by (induction x xs rule: set_insert.induct) (auto dest: less_trans)

lemma set_insert_last: "\<forall>y \<in> set ys. y < x \<Longrightarrow> set_insert x ys = ys @ [x]"
  by (induction ys) auto

lemma fold_set_insert: "btree_set (c @ vs) \<Longrightarrow> fold set_insert vs c = c @ vs"
  by (induction vs arbitrary: c) (auto simp: set_insert_last sorted_wrt_append)

lemma set_fold_set_insert [simp]: "set (fold set_insert vs c) = set vs \<union> set c"
  by (induction vs arbitrary: c) auto

lemma btree_fold_set_insert [simp]: "btree_set c \<Longrightarrow> btree_set (fold set_insert vs c)"
  by (induction vs arbitrary: c) auto

lemma btree_set_eq: "btree_set xs \<Longrightarrow> btree_set ys \<Longrightarrow> set xs = set ys \<Longrightarrow> xs = ys"
  by (simp add: strict_sorted_iff sorted_distinct_set_unique)

lemma map_insert_last: "\<forall>e \<in> set es. fst e < k \<Longrightarrow> map_insert k v es = es @ [(k, v)]"
  by (induction es) auto

lemma fold_map_insert: "btree_map (c @ es) \<Longrightarrow> fold (\<lambda>(k, v). map_insert k v) es c = c @ es"
  by (induction es arbitrary: c) (auto simp: map_insert_last sorted_wrt_append)

lemma keys_map_entry [simp]: "fst ` set (map_entry d k f es) = insert k (fst ` set es)"
  by (induction d k f es rule: map_entry.induct) auto

lemma btree_map_entry [simp]: "btree_map es \<Longrightarrow> btree_map (map_entry d k f es)"
proof (induction d k f es rule: map_entry.induct)
  case (2 d k f k' v es)
  have "set (map fst (map_entry d k f es)) = insert k (fst ` set es)" using keys_map_entry [of d k f es] by simp
  with 2 show ?case by (auto dest: less_trans)
qed simp

lemma map_of_above: "\<forall>e \<in> set es. k < fst e \<Longrightarrow> map_of es (k :: 'k :: linorder) = None"
  by (auto simp: map_of_eq_None_iff)

lemma map_of_map_entry:
  "btree_map es \<Longrightarrow> map_of (map_entry d k f es) j = (if j = k then Some (f (case map_of es k of None \<Rightarrow> d | Some v \<Rightarrow> v)) else map_of es j)"
proof (induction d k f es rule: map_entry.induct)
  case (2 d k f k' v es)
  have "map_of es k = None" if "k < k'"
    by (rule map_of_above) (use 2(2) that in \<open>auto dest: less_trans\<close>)
  with 2 show ?case by auto
qed simp

lemma map_entry_values: "(x, w) \<in> set (map_entry d k f es) \<Longrightarrow> (x, w) \<in> set es \<or> w = f d \<or> (\<exists>v. (k, v) \<in> set es \<and> w = f v)"
  by (induction d k f es rule: map_entry.induct) (auto split: if_splits)

end
