(* ===== verification/Derived_Path.thy ===== *)
theory Derived_Path
  imports Store_Path Btree "HOL-Library.Char_ord"
begin

text \<open>
  \<open>harmonia-store-core/src/derived_path\<close> (\<open>path.rs\<close>, \<open>output_spec.rs\<close>) and the outputs of \<open>realisation.rs\<close>: names of
  outputs, sets of them, and paths that are built from derivations, with their texts in the two formats of Nix.

  The facts: every text of a derived path is parsed back, with either separator and below every store directory, and a text that is
  accepted is printed back to itself up to the order and repetition of output names.
\<close>

section \<open>The order of store paths\<close>

text \<open>The derived orders: a path by its hash and then by its name.\<close>

instantiation StorePathName :: linorder
begin

definition less_eq_StorePathName :: "StorePathName \<Rightarrow> StorePathName \<Rightarrow> bool" where
  "less_eq_StorePathName a b \<longleftrightarrow> name_str a \<le> name_str b"

definition less_StorePathName :: "StorePathName \<Rightarrow> StorePathName \<Rightarrow> bool" where
  "less_StorePathName a b \<longleftrightarrow> name_str a < name_str b"

instance
  by standard (auto simp: less_eq_StorePathName_def less_StorePathName_def StorePathName.expand)

end

instantiation StorePath_ext :: (linorder) linorder
begin

definition less_StorePath_ext :: "'a StorePath_scheme \<Rightarrow> 'a StorePath_scheme \<Rightarrow> bool" where
  "less_StorePath_ext a b \<longleftrightarrow> sp_hash a < sp_hash b \<or> sp_hash a = sp_hash b \<and>
     (sp_name a < sp_name b \<or> sp_name a = sp_name b \<and> StorePath.more a < StorePath.more b)"

definition less_eq_StorePath_ext :: "'a StorePath_scheme \<Rightarrow> 'a StorePath_scheme \<Rightarrow> bool" where
  "less_eq_StorePath_ext a b \<longleftrightarrow> a < b \<or> a = b"

instance
proof
  fix x y :: "'a StorePath_scheme"
  have "x = y" if "sp_hash x = sp_hash y" "sp_name x = sp_name y" "StorePath.more x = StorePath.more y"
    using that by (cases x; cases y) simp
  then show "x \<le> y \<or> y \<le> x"
    unfolding less_eq_StorePath_ext_def less_StorePath_ext_def by (metis neqE)
qed (auto simp: less_eq_StorePath_ext_def less_StorePath_ext_def)

end

section \<open>Names of outputs\<close>

datatype OutputName = OutputName (out_str: string)

definition output_is_default :: "OutputName \<Rightarrow> bool" where
  "output_is_default o1 \<longleftrightarrow> out_str o1 = ''out''"

definition output_default :: OutputName where
  "output_default = OutputName ''out''"

definition output_from_str :: "string \<Rightarrow> StorePathNameError + OutputName" where
  "output_from_str s = result_map OutputName (into_name s)"

instantiation OutputName :: linorder
begin

definition less_eq_OutputName :: "OutputName \<Rightarrow> OutputName \<Rightarrow> bool" where
  "less_eq_OutputName a b \<longleftrightarrow> out_str a \<le> out_str b"

definition less_OutputName :: "OutputName \<Rightarrow> OutputName \<Rightarrow> bool" where
  "less_OutputName a b \<longleftrightarrow> out_str a < out_str b"

instance
  by standard (auto simp: less_eq_OutputName_def less_OutputName_def OutputName.expand)

end

datatype OutputSpec = All | Named "OutputName list"

text \<open>\<open>str::split\<close>: the pieces between the separators, at least one.\<close>

fun split :: "char \<Rightarrow> string \<Rightarrow> string list" where
  "split sep [] = [[]]"
| "split sep (c # s) = (if c = sep then [] # split sep s else (case split sep s of p # ps \<Rightarrow> (c # p) # ps | [] \<Rightarrow> [[c]]))"

fun join :: "string \<Rightarrow> string list \<Rightarrow> string" where
  "join sep [] = []"
| "join sep [s] = s"
| "join sep (s # ss) = s @ sep @ join sep ss"

fun spec_display :: "OutputSpec \<Rightarrow> string" where
  "spec_display All = ''*''"
| "spec_display (Named outputs) = join '','' (map out_str outputs)"

text \<open>The loop over the pieces stops at the first that is not a name.\<close>

fun parse_outputs :: "string list \<Rightarrow> OutputName list \<Rightarrow> StorePathNameError + OutputName list" where
  "parse_outputs [] outputs = Inr outputs"
| "parse_outputs (name # names) outputs =
     result_bind (output_from_str name) (\<lambda>output. parse_outputs names (set_insert output outputs))"

definition spec_from_str :: "string \<Rightarrow> StorePathNameError + OutputSpec" where
  "spec_from_str s = (if s = ''*'' then Inr All else result_map Named (parse_outputs (split (CHR '','') s) []))"

section \<open>Derived paths\<close>

datatype SingleDerivedPath = SBuilt SingleDerivedPath OutputName | SOpaque StorePath

datatype DerivedPath = DBuilt SingleDerivedPath OutputSpec | DOpaque StorePath

fun root_path :: "SingleDerivedPath \<Rightarrow> StorePath" where
  "root_path (SOpaque p) = p"
| "root_path (SBuilt drv_path _) = root_path drv_path"

fun single_display :: "Codecs \<Rightarrow> char \<Rightarrow> SingleDerivedPath \<Rightarrow> string option" where
  "single_display cs sep (SOpaque p) = path_display cs p"
| "single_display cs sep (SBuilt drv_path output) =
     map_option (\<lambda>s. s @ [sep] @ out_str output) (single_display cs sep drv_path)"

fun derived_display :: "Codecs \<Rightarrow> char \<Rightarrow> DerivedPath \<Rightarrow> string option" where
  "derived_display cs sep (DOpaque p) = path_display cs p"
| "derived_display cs sep (DBuilt drv_path outputs) =
     map_option (\<lambda>s. s @ [sep] @ spec_display outputs) (single_display cs sep drv_path)"

text \<open>\<open>rsplitn(2, sep)\<close>: the piece behind the last separator, and what is before it.\<close>

definition rsplit2 :: "char \<Rightarrow> string \<Rightarrow> string \<times> string option" where
  "rsplit2 sep s =
     (case split_once sep (rev s) of None \<Rightarrow> (s, None) | Some (a, b) \<Rightarrow> (rev a, Some (rev b)))"

lemma rsplit2_shorter: "rsplit2 sep s = (l, Some p) \<Longrightarrow> length p < length s"
proof -
  have "split_once sep t = Some (a, b) \<Longrightarrow> length b < length t" for t a b
    by (induction t arbitrary: a) (auto split: if_splits)
  then show "rsplit2 sep s = (l, Some p) \<Longrightarrow> length p < length s"
    by (fastforce simp: rsplit2_def split: option.splits)
qed

text \<open>\<open>?\<close> turns the error of a name into the error of a path with the index as it is.\<close>

definition name_error :: "StorePathNameError \<Rightarrow> StorePathError" where
  "name_error e = (case e of NNameLength \<Rightarrow> NameLength | NSymbol i ch \<Rightarrow> Symbol i ch)"

function single_from_str_sep :: "Codecs \<Rightarrow> char \<Rightarrow> string \<Rightarrow> (StorePathError + SingleDerivedPath) option" where
  "single_from_str_sep cs sep s =
     (case rsplit2 sep s of
        (last1, Some prefix1) \<Rightarrow>
          (case single_from_str_sep cs sep prefix1 of
             None \<Rightarrow> None
           | Some (Inl e) \<Rightarrow> Some (Inl e)
           | Some (Inr drv_path) \<Rightarrow> Some (result_map (SBuilt drv_path) (result_map_err name_error (output_from_str last1))))
      | (last1, None) \<Rightarrow> map_option (result_map SOpaque) (from_bytes cs last1))"
  by pat_completeness auto
termination
  by (relation "measure (\<lambda>(cs, sep, s). length s)") (auto dest!: rsplit2_shorter [OF sym])

declare single_from_str_sep.simps [simp del]

definition derived_from_str_sep :: "Codecs \<Rightarrow> char \<Rightarrow> string \<Rightarrow> (StorePathError + DerivedPath) option" where
  "derived_from_str_sep cs sep s =
     (case rsplit2 sep s of
        (last1, Some prefix1) \<Rightarrow>
          (case single_from_str_sep cs sep prefix1 of
             None \<Rightarrow> None
           | Some (Inl e) \<Rightarrow> Some (Inl e)
           | Some (Inr drv_path) \<Rightarrow> Some (result_map (DBuilt drv_path) (result_map_err name_error (spec_from_str last1))))
      | (last1, None) \<Rightarrow> map_option (result_map DOpaque) (from_bytes cs last1))"

definition derived_from_store_dir_str :: "Codecs \<Rightarrow> char \<Rightarrow> StoreDir \<Rightarrow> string \<Rightarrow> (ParseStorePathError + DerivedPath) option" where
  "derived_from_store_dir_str cs sep d s =
     (case strip_prefix d s of
        Inl e \<Rightarrow> Some (Inl (ParseStorePathError s e))
      | Inr b \<Rightarrow> map_option (result_map_err (ParseStorePathError s)) (derived_from_str_sep cs sep b))"

definition derived_store_dir_display :: "Codecs \<Rightarrow> char \<Rightarrow> StoreDir \<Rightarrow> DerivedPath \<Rightarrow> string option" where
  "derived_store_dir_display cs sep d p = map_option (\<lambda>s. dir_str d @ ''/'' @ s) (derived_display cs sep p)"

section \<open>Outputs of derivations\<close>

record DrvOutput =
  do_drv_path :: StorePath
  do_output_name :: OutputName

datatype ParseDrvOutputError = DStorePath ParseStorePathError | DOutputName StorePathNameError | InvalidDerivationOutputId string

definition drv_output_display :: "Codecs \<Rightarrow> DrvOutput \<Rightarrow> string option" where
  "drv_output_display cs d = map_option (\<lambda>s. s @ ''^'' @ out_str (do_output_name d)) (path_display cs (do_drv_path d))"

definition drv_output_from_str :: "Codecs \<Rightarrow> string \<Rightarrow> (ParseDrvOutputError + DrvOutput) option" where
  "drv_output_from_str cs s =
     (case split_once (CHR ''^'') s of
        None \<Rightarrow> Some (Inl (InvalidDerivationOutputId s))
      | Some (drv_path_s, output_name_s) \<Rightarrow>
          (case path_from_str cs drv_path_s of
             None \<Rightarrow> None
           | Some (Inl e) \<Rightarrow> Some (Inl (DStorePath e))
           | Some (Inr p) \<Rightarrow>
               Some (result_map (\<lambda>out. \<lparr>do_drv_path = p, do_output_name = out\<rparr>) (result_map_err DOutputName (output_from_str output_name_s)))))"

section \<open>Splitting\<close>

lemma split_not_Nil [simp]: "split sep s \<noteq> []"
  by (induction s) (auto split: list.splits)

lemma split_piece: "sep \<notin> set p \<Longrightarrow> split sep p = [p]"
  by (induction p) auto

lemma split_append: "sep \<notin> set p \<Longrightarrow> split sep (p @ sep # s) = p # split sep s"
  by (induction p) auto

lemma split_join: "ps \<noteq> [] \<Longrightarrow> \<forall>p \<in> set ps. sep \<notin> set p \<Longrightarrow> split sep (join [sep] ps) = ps"
  by (induction "[sep]" ps rule: join.induct) (auto simp: split_piece split_append)

lemma set_join: "set (join sep ps) \<subseteq> set sep \<union> (\<Union>p \<in> set ps. set p)"
  by (induction sep ps rule: join.induct) auto

lemma rsplit2_append: "sep \<notin> set l \<Longrightarrow> rsplit2 sep (p @ sep # l) = (l, Some p)"
  using split_once_append [of sep "rev l" "rev p"] by (simp add: rsplit2_def)

lemma rsplit2_None: "rsplit2 sep s = (l, None) \<longleftrightarrow> l = s \<and> sep \<notin> set s"
  using split_once_None [of sep "rev s"] by (auto simp: rsplit2_def split: option.splits)

lemma rsplit2_Some: "rsplit2 sep s = (l, Some p) \<Longrightarrow> s = p @ sep # l \<and> sep \<notin> set l"
proof -
  assume "rsplit2 sep s = (l, Some p)"
  then obtain a b where ab: "split_once sep (rev s) = Some (a, b)" "l = rev a" "p = rev b"
    by (auto simp: rsplit2_def split: option.splits)
  from split_once_Some [OF ab(1)] have "s = rev (a @ sep # b)" by (simp add: rev_swap)
  moreover have "split_once sep u = Some (a, b) \<Longrightarrow> sep \<notin> set a" for u
    by (induction u arbitrary: a) (auto split: if_splits)
  ultimately show ?thesis using ab by auto
qed

section \<open>Names and sets of names\<close>

lemma output_from_str_Inr: "output_from_str s = Inr n \<longleftrightarrow> n = OutputName s \<and> name_ok s"
  by (auto simp: output_from_str_def into_name_Inr)

definition out_ok :: "OutputName \<Rightarrow> bool" where
  "out_ok n \<longleftrightarrow> name_ok (out_str n)"

fun spec_ok :: "OutputSpec \<Rightarrow> bool" where
  "spec_ok All \<longleftrightarrow> True"
| "spec_ok (Named outputs) \<longleftrightarrow> outputs \<noteq> [] \<and> btree_set outputs \<and> list_all out_ok outputs"

lemma parse_outputs_Inr:
  "parse_outputs names acc = Inr r \<longleftrightarrow> list_all name_ok names \<and> r = fold set_insert (map OutputName names) acc"
  by (induction names arbitrary: acc) (auto simp: output_from_str_Inr)

lemma name_char: "name_ok s \<Longrightarrow> \<not> NAME_LOOKUP ch \<Longrightarrow> ch \<notin> set s"
  by (auto simp: name_ok_def list_all_iff)

lemma separators: "\<not> NAME_LOOKUP (CHR ''^'')" "\<not> NAME_LOOKUP (CHR ''!'')" "\<not> NAME_LOOKUP (CHR '','')" "\<not> NAME_LOOKUP (CHR ''*'')"
  "\<not> NAME_LOOKUP (CHR '';'')" "\<not> NAME_LOOKUP (CHR '':'')" "\<not> NAME_LOOKUP (CHR ''/'')"
  by (simp_all add: NAME_LOOKUP_def in_range_def)

lemma spec_from_display:
  assumes "spec_ok sp"
  shows "spec_from_str (spec_display sp) = Inr sp"
proof (cases sp)
  case (Named outs)
  with assms have o: "outs \<noteq> []" "btree_set outs" "list_all name_ok (map out_str outs)" by (simp_all add: list_all_iff out_ok_def)
  then have "split (CHR '','') (join '','' (map out_str outs)) = map out_str outs"
    by (intro split_join) (auto simp: list_all_iff dest: name_char [OF _ separators(3)])
  moreover have "join '','' (map out_str outs) \<noteq> ''*''"
  proof
    assume "join '','' (map out_str outs) = ''*''"
    moreover have "CHR ''*'' \<notin> set (join '','' (map out_str outs))"
      using o(3) set_join [of "'',''" "map out_str outs"] by (auto simp: list_all_iff dest: name_char [OF _ separators(4)])
    ultimately show False by simp
  qed
  moreover have "map (OutputName \<circ> out_str) outs = outs" by (simp add: comp_def)
  ultimately show ?thesis using o Named fold_set_insert [of "[]" outs] by (simp add: spec_from_str_def parse_outputs_Inr)
qed (simp add: spec_from_str_def)

lemma spec_from_str_ok:
  assumes "spec_from_str s = Inr sp"
  shows "spec_ok sp"
proof (cases "s = ''*''")
  case False
  with assms have sp: "sp = Named (fold set_insert (map OutputName (split (CHR '','') s)) [])" and n: "list_all name_ok (split (CHR '','') s)"
    by (auto simp: spec_from_str_def parse_outputs_Inr)
  let ?f = "fold set_insert (map OutputName (split (CHR '','') s)) []"
  have "set ?f = OutputName ` set (split (CHR '','') s)" by simp
  then have "?f \<noteq> []" by (metis image_is_empty set_empty split_not_Nil)
  with sp n show ?thesis by (auto simp: list_all_iff out_ok_def)
qed (use assms in \<open>simp add: spec_from_str_def\<close>)

section \<open>Paths\<close>

fun single_ok :: "SingleDerivedPath \<Rightarrow> bool" where
  "single_ok (SOpaque p) \<longleftrightarrow> path_ok p"
| "single_ok (SBuilt d n) \<longleftrightarrow> single_ok d \<and> out_ok n"

fun derived_ok :: "DerivedPath \<Rightarrow> bool" where
  "derived_ok (DOpaque p) \<longleftrightarrow> path_ok p"
| "derived_ok (DBuilt d outs) \<longleftrightarrow> single_ok d \<and> spec_ok outs"

lemma spec_char: "spec_ok sp \<Longrightarrow> \<not> NAME_LOOKUP ch \<Longrightarrow> ch \<notin> {CHR '','', CHR ''*''} \<Longrightarrow> ch \<notin> set (spec_display sp)"
proof (cases sp)
  case (Named outs)
  assume "spec_ok sp" "\<not> NAME_LOOKUP ch" "ch \<notin> {CHR '','', CHR ''*''}"
  with Named set_join [of "'',''" "map out_str outs"] show ?thesis by (auto simp: list_all_iff out_ok_def dest: name_char)
qed auto

context data_encoding
begin

lemma path_display_char:
  assumes "path_ok p" "path_display cs p = Some s" "\<not> NAME_LOOKUP ch"
  shows "ch \<notin> set s"
proof -
  have "s = base_encode cs NixBase32 (sph_bytes (sp_hash p)) @ ''-'' @ name_str (sp_name p)"
    using assms by (auto simp: path_display_def sph_display_eq path_ok_def)
  moreover have "list_all NAME_LOOKUP NIX_SYMBOLS" by (simp add: NIX_SYMBOLS_def NAME_LOOKUP_def in_range_def)
  moreover have "NAME_LOOKUP (CHR ''-'')" by (simp add: NAME_LOOKUP_def)
  ultimately show ?thesis
    using b32_symbols [of "sph_bytes (sp_hash p)"] assms by (auto simp: list_all_iff path_ok_def dest: name_char)
qed

lemma single_from_display:
  "single_ok d \<Longrightarrow> \<not> NAME_LOOKUP sep \<Longrightarrow> \<exists>s. single_display cs sep d = Some s \<and> single_from_str_sep cs sep s = Some (Inr d)"
proof (induction d)
  case (SBuilt d n)
  then obtain s where s: "single_display cs sep d = Some s" "single_from_str_sep cs sep s = Some (Inr d)" by auto
  have "rsplit2 sep (s @ sep # out_str n) = (out_str n, Some s)"
    by (rule rsplit2_append) (use SBuilt.prems in \<open>auto simp: out_ok_def dest: name_char\<close>)
  with s SBuilt.prems show ?case by (simp add: single_from_str_sep.simps [of _ _ "_ @ _"] output_from_str_def into_name_Inr out_ok_def)
next
  case (SOpaque p)
  then obtain s where s: "path_display cs p = Some s" "from_bytes cs s = Some (Inr p)" using from_bytes_display by auto
  then have "rsplit2 sep s = (s, None)" using SOpaque path_display_char by (auto simp: rsplit2_None)
  with s show ?case by (simp add: single_from_str_sep.simps [of _ _ s])
qed

lemma single_from_str_sound:
  "single_from_str_sep cs sep s = Some (Inr d) \<Longrightarrow> single_ok d \<and> single_display cs sep d = Some s"
proof (induction d arbitrary: s)
  case (SBuilt d n)
  then obtain p l where r: "rsplit2 sep s = (l, Some p)" and d: "single_from_str_sep cs sep p = Some (Inr d)"
    and n: "output_from_str l = Inr n"
    by (auto simp: single_from_str_sep.simps [of _ _ s] split: prod.splits option.splits sum.splits)
  with SBuilt.IH [OF d] rsplit2_Some [OF r] show ?case by (auto simp: output_from_str_Inr out_ok_def)
next
  case (SOpaque q)
  then obtain l where r: "rsplit2 sep s = (l, None)" and q: "from_bytes cs l = Some (Inr q)"
    by (auto simp: single_from_str_sep.simps [of _ _ s] split: prod.splits option.splits sum.splits)
  with from_bytes_sound [OF q] show ?case by (simp add: rsplit2_None)
qed

lemma single_from_str_total: "\<exists>x. single_from_str_sep cs sep s = Some x"
proof (induction "length s" arbitrary: s rule: less_induct)
  case less
  obtain l p where r: "rsplit2 sep s = (l, p)" by fastforce
  show ?case
  proof (cases p)
    case None
    with r from_bytes_total [of l] show ?thesis by (auto simp: single_from_str_sep.simps [of _ _ s])
  next
    case (Some q)
    with r less [of q] rsplit2_shorter [of sep s l q] obtain x where "single_from_str_sep cs sep q = Some x" by blast
    with r Some show ?thesis by (cases x) (auto simp: single_from_str_sep.simps [of _ _ s])
  qed
qed

lemma derived_from_display:
  assumes "derived_ok p" "sep \<in> {CHR ''^'', CHR ''!''}"
  shows "\<exists>s. derived_display cs sep p = Some s \<and> derived_from_str_sep cs sep s = Some (Inr p)"
proof -
  have sep: "\<not> NAME_LOOKUP sep" using assms(2) separators by auto
  show ?thesis
  proof (cases p)
    case (DBuilt d outs)
    with assms obtain s where s: "single_display cs sep d = Some s" "single_from_str_sep cs sep s = Some (Inr d)"
      using single_from_display [OF _ sep, of d] by auto
    have "rsplit2 sep (s @ sep # spec_display outs) = (spec_display outs, Some s)"
      by (rule rsplit2_append) (use assms DBuilt spec_char [OF _ sep, of outs] in auto)
    with s DBuilt assms show ?thesis by (simp add: derived_from_str_sep_def spec_from_display)
  next
    case (DOpaque q)
    with assms obtain s where s: "path_display cs q = Some s" "from_bytes cs s = Some (Inr q)" using from_bytes_display by auto
    then have "rsplit2 sep s = (s, None)" using DOpaque assms(1) path_display_char [OF _ _ sep] by (auto simp: rsplit2_None)
    with s DOpaque show ?thesis by (simp add: derived_from_str_sep_def)
  qed
qed

lemma derived_from_str_total: "\<exists>x. derived_from_str_sep cs sep s = Some x \<and> (\<forall>p. x = Inr p \<longrightarrow> derived_ok p)"
proof -
  obtain l p where r: "rsplit2 sep s = (l, p)" by fastforce
  show ?thesis
  proof (cases p)
    case None
    with r from_bytes_total [of l] show ?thesis by (auto simp: derived_from_str_sep_def dest: from_bytes_sound)
  next
    case (Some q)
    obtain x where x: "single_from_str_sep cs sep q = Some x" using single_from_str_total by blast
    show ?thesis
    proof (cases x)
      case (Inr d)
      with x have "single_ok d" using single_from_str_sound by blast
      with x Inr r Some show ?thesis by (auto simp: derived_from_str_sep_def dest: spec_from_str_ok)
    qed (use x r Some in \<open>simp add: derived_from_str_sep_def\<close>)
  qed
qed

lemma drv_output_from_display:
  assumes "path_ok (do_drv_path d)" "out_ok (do_output_name d)"
  shows "\<exists>s. drv_output_display cs d = Some s \<and> drv_output_from_str cs s = Some (Inr d)"
proof -
  obtain s where s: "path_display cs (do_drv_path d) = Some s" "from_bytes cs s = Some (Inr (do_drv_path d))"
    using from_bytes_display [OF assms(1)] by blast
  have "split_once (CHR ''^'') (s @ CHR ''^'' # out_str (do_output_name d)) = Some (s, out_str (do_output_name d))"
    by (rule split_once_append) (rule path_display_char [OF assms(1) s(1) separators(1)])
  with s assms(2) show ?thesis
    by (simp add: drv_output_display_def drv_output_from_str_def path_from_str_def output_from_str_def into_name_Inr out_ok_def)
qed

lemma drv_output_from_str_total:
  "\<exists>x. drv_output_from_str cs s = Some x \<and> (\<forall>d. x = Inr d \<longrightarrow> path_ok (do_drv_path d) \<and> out_ok (do_output_name d) \<and> drv_output_display cs d = Some s)"
proof (cases "split_once (CHR ''^'') s")
  case (Some ab)
  then obtain a b where ab: "split_once (CHR ''^'') s = Some (a, b)" by (cases ab) auto
  note s = split_once_Some [OF ab]
  from from_bytes_total [of a] show ?thesis
    by (elim disjE exE conjE)
      (auto simp: drv_output_from_str_def ab path_from_str_def output_from_str_Inr out_ok_def drv_output_display_def
        intro: s [symmetric] dest!: from_bytes_sound)
qed (simp add: drv_output_from_str_def)

end

section \<open>Properties\<close>

text \<open>
  C30. Derived paths and their texts: in the current and in the legacy format (separators \<open>^\<close> and \<open>!\<close>), below every absolute store
  directory, every valid derived path, however deep its chain of outputs, is printed without a panic and parsed back to itself,
  the parser never panics, and what it accepts is a valid path whose sets of outputs are sorted and not empty;
  and an output of a derivation corresponds to its text one to one.
\<close>

theorem derived_path_roundtrip:
  assumes cs: "data_encoding cs" and sep: "sep \<in> {CHR ''^'', CHR ''!''}" and dir: "is_absolute (dir_str d)"
  shows "(\<forall>p. derived_ok p \<longrightarrow>
      (\<exists>s. derived_store_dir_display cs sep d p = Some s \<and> derived_from_store_dir_str cs sep d s = Some (Inr p))) \<and>
    (\<forall>s. \<exists>x. derived_from_store_dir_str cs sep d s = Some x \<and> (\<forall>p. x = Inr p \<longrightarrow> derived_ok p)) \<and>
    (\<forall>e. path_ok (do_drv_path e) \<and> out_ok (do_output_name e) \<longrightarrow>
      (\<exists>s. drv_output_display cs e = Some s \<and> drv_output_from_str cs s = Some (Inr e))) \<and>
    (\<forall>s. \<exists>x. drv_output_from_str cs s = Some x \<and>
      (\<forall>e. x = Inr e \<longrightarrow> path_ok (do_drv_path e) \<and> out_ok (do_output_name e) \<and> drv_output_display cs e = Some s))"
proof (intro conjI allI impI)
  fix p assume "derived_ok p"
  then obtain s where s: "derived_display cs sep p = Some s" "derived_from_str_sep cs sep s = Some (Inr p)"
    using data_encoding.derived_from_display [OF cs _ sep] by blast
  have "strip_prefix d (dir_str d @ CHR ''/'' # s) = Inr s"
    using dir by (auto simp: strip_prefix_def str_strip_prefix_def is_absolute_def prefix_def)
  with s show "\<exists>s. derived_store_dir_display cs sep d p = Some s \<and> derived_from_store_dir_str cs sep d s = Some (Inr p)"
    by (simp add: derived_store_dir_display_def derived_from_store_dir_str_def)
next
  fix s
  show "\<exists>x. derived_from_store_dir_str cs sep d s = Some x \<and> (\<forall>p. x = Inr p \<longrightarrow> derived_ok p)"
  proof (cases "strip_prefix d s")
    case (Inr b)
    with data_encoding.derived_from_str_total [OF cs, of sep b] show ?thesis by (auto simp: derived_from_store_dir_str_def)
  qed (simp add: derived_from_store_dir_str_def)
qed (use data_encoding.drv_output_from_display [OF cs] data_encoding.drv_output_from_str_total [OF cs] in blast)+

theorem derived_path_roundtrip_witness:
  "let p = \<lparr>sp_hash = StorePathHash (replicate 20 7), sp_name = StorePathName ''hello.drv''\<rparr>;
       d = DBuilt (SBuilt (SOpaque p) (OutputName ''out'')) (Named [OutputName ''bin'', OutputName ''lib''])
   in \<exists>s. derived_store_dir_display bit_codecs (CHR ''!'') default_dir d = Some s \<and>
        derived_from_store_dir_str bit_codecs (CHR ''!'') default_dir s = Some (Inr d)"
proof -
  let ?p = "\<lparr>sp_hash = StorePathHash (replicate 20 7), sp_name = StorePathName ''hello.drv''\<rparr>"
  have "derived_ok (DBuilt (SBuilt (SOpaque ?p) (OutputName ''out'')) (Named [OutputName ''bin'', OutputName ''lib'']))"
    by (simp add: path_ok_def out_ok_def name_ok_def STORE_PATH_HASH_SIZE_def MAX_NAME_LEN_def NAME_LOOKUP_def in_range_def
        less_OutputName_def less_char_def)
  moreover have "is_absolute (dir_str default_dir)" by (simp add: is_absolute_def default_dir_def)
  ultimately show ?thesis
    using derived_path_roundtrip [OF bits.data_encoding_axioms, of "CHR ''!''" default_dir] unfolding Let_def by blast
qed

end
