(* ===== verification/Signatures.thy ===== *)
theory Signatures
  imports Derived_Path
begin

text \<open>
  \<open>harmonia-store-core/src/signature.rs\<close>: signatures and keys with their texts, signing and verifying, and the fingerprint
  of a store path that is signed; and the realisations of \<open>realisation.rs\<close>, which carry signatures. The
  cryptography is of the crate \<open>ring\<close>: its key pairs are a parameter with the documented behaviour as the locale \<open>ed25519\<close>.
  Lengths of arrays are checked where the code copies into them (\<open>copy_from_slice\<close> panics otherwise).

  The facts: signatures and keys are parsed back from their texts; what a key signs is verified by its public
  key, also after all of them went through their texts; equal fingerprints are of equal objects.
\<close>

section \<open>The crate\<close>

record 'k Ring =
  from_seed_unchecked :: "bytes \<Rightarrow> 'k option"
  from_seed_and_public_key :: "bytes \<Rightarrow> bytes \<Rightarrow> 'k option"
  ring_public_key :: "'k \<Rightarrow> bytes"
  ring_sign :: "'k \<Rightarrow> bytes \<Rightarrow> bytes"
  ring_verify :: "bytes \<Rightarrow> bytes \<Rightarrow> bytes \<Rightarrow> bool"

locale ed25519 =
  fixes R :: "'k Ring"
  assumes seed_accepted: "length seed = 32 \<Longrightarrow> \<exists>k. from_seed_unchecked R seed = Some k"
    and seed_length: "from_seed_unchecked R seed = Some k \<Longrightarrow> length seed = 32"
    and pair_checked: "from_seed_and_public_key R seed pk = Some k \<longleftrightarrow>
      from_seed_unchecked R seed = Some k \<and> ring_public_key R k = pk"
    and public_key_length: "length (ring_public_key R k) = 32"
    and sign_length: "length (ring_sign R k msg) = 64"
    and verify_sign: "ring_verify R (ring_public_key R k) msg (ring_sign R k msg)"

text \<open>\<open>copy_from_slice\<close> into an array, and \<open>Encoding::decode\<close>, which allocates the output itself.\<close>

definition copy_array :: "nat \<Rightarrow> bytes \<Rightarrow> bytes option" where
  "copy_array n b = (if length b = n then Some b else None)"

definition codec_decode_vec :: "Codec \<Rightarrow> string \<Rightarrow> bytes option" where
  "codec_decode_vec c s =
     (case codec_decode_len c (length s) of
        None \<Rightarrow> None
      | Some n \<Rightarrow> (case codec_decode c s of Inl _ \<Rightarrow> None | Inr b \<Rightarrow> Some b))"

section \<open>Signatures\<close>

definition SIGNATURE_BYTES :: nat where
  "SIGNATURE_BYTES = 64"

definition SIGNATURE_BASE64_LEN :: nat where
  "SIGNATURE_BASE64_LEN = base64_len SIGNATURE_BYTES"

definition SEED_BYTES :: nat where
  "SEED_BYTES = 32"

definition PUBLIC_KEY_BYTES :: nat where
  "PUBLIC_KEY_BYTES = 32"

definition PUBLIC_KEY_BASE64_LEN :: nat where
  "PUBLIC_KEY_BASE64_LEN = base64_len PUBLIC_KEY_BYTES"

definition PUBLIC_KEY_BASE64_DECODED_LEN :: nat where
  "PUBLIC_KEY_BASE64_DECODED_LEN = 33"

definition SECRET_KEY_BYTES :: nat where
  "SECRET_KEY_BYTES = SEED_BYTES + PUBLIC_KEY_BYTES"

definition SECRET_KEY_BASE64_LEN :: nat where
  "SECRET_KEY_BASE64_LEN = base64_len SECRET_KEY_BYTES"

definition SECRET_KEY_BASE64_DECODED_LEN :: nat where
  "SECRET_KEY_BASE64_DECODED_LEN = 66"

lemmas key_consts = SIGNATURE_BYTES_def SIGNATURE_BASE64_LEN_def SEED_BYTES_def PUBLIC_KEY_BYTES_def PUBLIC_KEY_BASE64_LEN_def
  PUBLIC_KEY_BASE64_DECODED_LEN_def SECRET_KEY_BYTES_def SECRET_KEY_BASE64_LEN_def SECRET_KEY_BASE64_DECODED_LEN_def

datatype ParseSignatureError = CorruptSignature | InvalidSignature

datatype RawSignature = RawSignature (raw_bytes: bytes)

definition raw_display :: "Codecs \<Rightarrow> RawSignature \<Rightarrow> string option" where
  "raw_display cs r = codec_encode_mut (base64 cs) (raw_bytes r) SIGNATURE_BASE64_LEN"

definition raw_from_str :: "Codecs \<Rightarrow> string \<Rightarrow> ParseSignatureError + RawSignature" where
  "raw_from_str cs s =
     (case codec_decode_vec (base64 cs) s of
        None \<Rightarrow> Inl InvalidSignature
      | Some b \<Rightarrow> if length b = SIGNATURE_BYTES then Inr (RawSignature b) else Inl InvalidSignature)"

record Signature =
  sg_key_name :: string
  sg_sig :: RawSignature

definition sig_from_parts :: "string \<Rightarrow> bytes \<Rightarrow> ParseSignatureError + Signature" where
  "sig_from_parts name b =
     (if length b \<noteq> SIGNATURE_BYTES then Inl InvalidSignature else Inr \<lparr>sg_key_name = name, sg_sig = RawSignature b\<rparr>)"

definition sig_display :: "Codecs \<Rightarrow> Signature \<Rightarrow> string option" where
  "sig_display cs s = map_option (\<lambda>t. sg_key_name s @ '':'' @ t) (raw_display cs (sg_sig s))"

definition sig_from_str :: "Codecs \<Rightarrow> string \<Rightarrow> ParseSignatureError + Signature" where
  "sig_from_str cs s =
     (case split_once (CHR '':'') s of
        None \<Rightarrow> Inl CorruptSignature
      | Some (name, sig_s) \<Rightarrow> result_map (\<lambda>r. \<lparr>sg_key_name = name, sg_sig = r\<rparr>) (raw_from_str cs sig_s))"

text \<open>The derived order of signatures, which are kept in sets.\<close>

instantiation RawSignature :: linorder
begin

definition less_eq_RawSignature :: "RawSignature \<Rightarrow> RawSignature \<Rightarrow> bool" where
  "less_eq_RawSignature a b \<longleftrightarrow> raw_bytes a \<le> raw_bytes b"

definition less_RawSignature :: "RawSignature \<Rightarrow> RawSignature \<Rightarrow> bool" where
  "less_RawSignature a b \<longleftrightarrow> raw_bytes a < raw_bytes b"

instance
  by standard (auto simp: less_eq_RawSignature_def less_RawSignature_def RawSignature.expand)

end

instantiation Signature_ext :: (linorder) linorder
begin

definition less_Signature_ext :: "'a Signature_scheme \<Rightarrow> 'a Signature_scheme \<Rightarrow> bool" where
  "less_Signature_ext a b \<longleftrightarrow> sg_key_name a < sg_key_name b \<or> sg_key_name a = sg_key_name b \<and>
     (sg_sig a < sg_sig b \<or> sg_sig a = sg_sig b \<and> Signature.more a < Signature.more b)"

definition less_eq_Signature_ext :: "'a Signature_scheme \<Rightarrow> 'a Signature_scheme \<Rightarrow> bool" where
  "less_eq_Signature_ext a b \<longleftrightarrow> a < b \<or> a = b"

instance
proof
  fix x y :: "'a Signature_scheme"
  have "x = y" if "sg_key_name x = sg_key_name y" "sg_sig x = sg_sig y" "Signature.more x = Signature.more y"
    using that by (cases x; cases y) simp
  then show "x \<le> y \<or> y \<le> x"
    unfolding less_eq_Signature_ext_def less_Signature_ext_def by (metis neqE)
qed (auto simp: less_eq_Signature_ext_def less_Signature_ext_def)

end

section \<open>Keys\<close>

datatype ParseKeyError = CorruptKey | InvalidSecretKey | InvalidPublicKey

text \<open>\<open>key\<close> of a public key is the same bytes again, wrapped for \<open>verify\<close>.\<close>

record PublicKey =
  pk_name :: string
  pk_key_data :: bytes
  pk_key :: bytes

record 'k SecretKey =
  sk_name :: string
  sk_key_data :: bytes
  sk_key :: 'k

definition pk_verify :: "'k Ring \<Rightarrow> PublicKey \<Rightarrow> bytes \<Rightarrow> Signature \<Rightarrow> bool" where
  "pk_verify R pk message s = ring_verify R (pk_key pk) message (raw_bytes (sg_sig s))"

definition pk_display :: "Codecs \<Rightarrow> PublicKey \<Rightarrow> string" where
  "pk_display cs pk = pk_name pk @ '':'' @ codec_encode (base64 cs) (pk_key_data pk)"

definition pk_from_str :: "Codecs \<Rightarrow> string \<Rightarrow> (ParseKeyError + PublicKey) option" where
  "pk_from_str cs s =
     (case split_once (CHR '':'') s of
        None \<Rightarrow> Some (Inl CorruptKey)
      | Some (name, key_s) \<Rightarrow>
          if length key_s \<noteq> PUBLIC_KEY_BASE64_LEN then Some (Inl InvalidPublicKey)
          else
            (case codec_decode_mut (base64 cs) key_s PUBLIC_KEY_BASE64_DECODED_LEN of
               None \<Rightarrow> None
             | Some (Inl _) \<Rightarrow> Some (Inl InvalidPublicKey)
             | Some (Inr b) \<Rightarrow>
                 if length b \<noteq> PUBLIC_KEY_BYTES then Some (Inl InvalidPublicKey)
                 else Some (Inr \<lparr>pk_name = name, pk_key_data = b, pk_key = b\<rparr>)))"

text \<open>\<open>generate\<close>: \<open>seed\<close> is the result of \<open>rand::generate\<close>; the \<open>None\<close> inside is \<open>GenerateKeyError\<close>.\<close>

definition sk_generate :: "'k Ring \<Rightarrow> string \<Rightarrow> bytes option \<Rightarrow> 'k SecretKey option option" where
  "sk_generate R name seed_res =
     (case seed_res of
        None \<Rightarrow> Some None
      | Some seed \<Rightarrow>
          (case from_seed_unchecked R seed of
             None \<Rightarrow> Some None
           | Some key \<Rightarrow>
               (case (copy_array SEED_BYTES seed, copy_array (SECRET_KEY_BYTES - SEED_BYTES) (ring_public_key R key)) of
                  (Some a, Some b) \<Rightarrow> Some (Some \<lparr>sk_name = name, sk_key_data = a @ b, sk_key = key\<rparr>)
                | _ \<Rightarrow> None)))"

definition sk_sign :: "'k Ring \<Rightarrow> 'k SecretKey \<Rightarrow> bytes \<Rightarrow> Signature option" where
  "sk_sign R sk msg =
     map_option (\<lambda>b. \<lparr>sg_key_name = sk_name sk, sg_sig = RawSignature b\<rparr>) (copy_array SIGNATURE_BYTES (ring_sign R (sk_key sk) msg))"

definition sk_to_public_key :: "'k Ring \<Rightarrow> 'k SecretKey \<Rightarrow> PublicKey option" where
  "sk_to_public_key R sk =
     map_option (\<lambda>b. \<lparr>pk_name = sk_name sk, pk_key_data = b, pk_key = b\<rparr>)
       (copy_array PUBLIC_KEY_BYTES (ring_public_key R (sk_key sk)))"

definition sk_display :: "Codecs \<Rightarrow> 'k SecretKey \<Rightarrow> string" where
  "sk_display cs sk = sk_name sk @ '':'' @ codec_encode (base64 cs) (sk_key_data sk)"

definition sk_from_str :: "Codecs \<Rightarrow> 'k Ring \<Rightarrow> string \<Rightarrow> (ParseKeyError + 'k SecretKey) option" where
  "sk_from_str cs R s =
     (case split_once (CHR '':'') s of
        None \<Rightarrow> Some (Inl CorruptKey)
      | Some (name, key_s) \<Rightarrow>
          if length key_s \<noteq> SECRET_KEY_BASE64_LEN then Some (Inl InvalidSecretKey)
          else
            (case codec_decode_mut (base64 cs) key_s SECRET_KEY_BASE64_DECODED_LEN of
               None \<Rightarrow> None
             | Some (Inl _) \<Rightarrow> Some (Inl InvalidSecretKey)
             | Some (Inr b) \<Rightarrow>
                 if length b \<noteq> SECRET_KEY_BYTES then Some (Inl InvalidSecretKey)
                 else
                   (case from_seed_and_public_key R (take SEED_BYTES b) (drop SEED_BYTES b) of
                      None \<Rightarrow> Some (Inl InvalidSecretKey)
                    | Some key \<Rightarrow> Some (Inr \<lparr>sk_name = name, sk_key_data = b, sk_key = key\<rparr>))))"

section \<open>Fingerprints\<close>

datatype FingerprintError = InvalidNarHashPrefix | InvalidNarHashLength nat

text \<open>The loop over the references, which are displayed below the store directory.\<close>

fun push_references :: "Codecs \<Rightarrow> StoreDir \<Rightarrow> nat \<Rightarrow> StorePath list \<Rightarrow> bytes \<Rightarrow> bytes option" where
  "push_references cs d i [] result = Some result"
| "push_references cs d i (r # rs) result =
     (case store_dir_display cs d r of
        None \<Rightarrow> None
      | Some ref_str \<Rightarrow>
          let result = (if 0 < i then result @ as_bytes '','' else result)
          in push_references cs d (Suc i) rs (result @ as_bytes ref_str))"

definition fingerprint_path ::
  "Codecs \<Rightarrow> StoreDir \<Rightarrow> StorePath \<Rightarrow> bytes \<Rightarrow> u64 \<Rightarrow> StorePath list \<Rightarrow> (FingerprintError + bytes) option" where
  "fingerprint_path cs d p nar_hash nar_size refs =
     (if \<not> prefix (as_bytes ''sha256:'') nar_hash then Some (Inl InvalidNarHashPrefix)
      else if length nar_hash \<noteq> 59 then Some (Inl (InvalidNarHashLength (length nar_hash)))
      else
        (case store_dir_display cs d p of
           None \<Rightarrow> None
         | Some store_path_str \<Rightarrow>
             map_option Inr (push_references cs d 0 refs
               (as_bytes ''1;'' @ as_bytes store_path_str @ as_bytes '';'' @ nar_hash @ as_bytes '';'' @
                as_bytes (show_nat (unat nar_size)) @ as_bytes '';''))))"

section \<open>Realisations\<close>

record UnkeyedRealisation =
  out_path :: StorePath
  signatures :: "Signature list"

record Realisation =
  rl_key :: DrvOutput
  rl_value :: UnkeyedRealisation

section \<open>Texts\<close>

definition key_name_ok :: "string \<Rightarrow> bool" where
  "key_name_ok s \<longleftrightarrow> CHR '':'' \<notin> set s"

definition sig_ok :: "Signature \<Rightarrow> bool" where
  "sig_ok s \<longleftrightarrow> key_name_ok (sg_key_name s) \<and> length (raw_bytes (sg_sig s)) = SIGNATURE_BYTES"

definition pk_ok :: "PublicKey \<Rightarrow> bool" where
  "pk_ok pk \<longleftrightarrow> key_name_ok (pk_name pk) \<and> length (pk_key_data pk) = PUBLIC_KEY_BYTES \<and> pk_key pk = pk_key_data pk"

definition sk_ok :: "'k Ring \<Rightarrow> 'k SecretKey \<Rightarrow> bool" where
  "sk_ok R sk \<longleftrightarrow> key_name_ok (sk_name sk) \<and>
     (\<exists>seed. from_seed_unchecked R seed = Some (sk_key sk) \<and> sk_key_data sk = seed @ ring_public_key R (sk_key sk))"

lemma split_once_sound: "split_once ch s = Some (a, b) \<Longrightarrow> s = a @ ch # b \<and> ch \<notin> set a"
  by (induction s arbitrary: a) (auto split: if_splits)

lemma copy_array_Some [simp]: "length b = n \<Longrightarrow> copy_array n b = Some b"
  by (simp add: copy_array_def)

context data_encoding
begin

lemma base64_decode_vec: "codec_decode_vec (base64 cs) (codec_encode (base64 cs) b) = Some b"
  by (simp add: codec_decode_vec_def b64.encode_length b64.decode_encode b64_encode_len b64_decode_len)

text \<open>Decoding into a buffer of the decoded length of the text, as the parsers of keys do.\<close>

lemma base64_decode_key:
  assumes "length s = base64_len n"
  shows "\<exists>r. codec_decode_mut (base64 cs) s (base64_len n div 4 * 3) = Some r"
  using decode_for_base_total [of s Base64 n] assms by auto

lemma base64_decode_key_encode:
  "codec_decode_mut (base64 cs) (codec_encode (base64 cs) b) (base64_len (length b) div 4 * 3) = Some (Inr b)"
  using decode_for_base_encode [of Base64 b] by simp

lemma base64_length: "length (codec_encode (base64 cs) b) = base64_len (length b)"
  using base_encode_length [of Base64 b] by simp

lemma raw_display_eq: "length (raw_bytes r) = SIGNATURE_BYTES \<Longrightarrow> raw_display cs r = Some (codec_encode (base64 cs) (raw_bytes r))"
  using encode_for_base_input_len [of Base64 "raw_bytes r"] by (simp add: raw_display_def SIGNATURE_BASE64_LEN_def)

lemma sig_from_display:
  assumes "sig_ok s"
  shows "\<exists>t. sig_display cs s = Some t \<and> sig_from_str cs t = Inr s"
  using assms by (simp add: sig_ok_def sig_display_def raw_display_eq sig_from_str_def key_name_ok_def split_once_append raw_from_str_def
      base64_decode_vec)

lemma sig_from_str_ok: "sig_from_str cs t = Inr s \<Longrightarrow> sig_ok s"
  by (auto simp: sig_from_str_def raw_from_str_def sig_ok_def key_name_ok_def split: option.splits if_splits dest!: split_once_sound)

lemma pk_from_display:
  assumes "pk_ok pk"
  shows "pk_from_str cs (pk_display cs pk) = Some (Inr pk)"
  using assms base64_decode_key_encode [of "pk_key_data pk"] base64_length [of "pk_key_data pk"]
  by (simp add: pk_ok_def pk_display_def pk_from_str_def key_name_ok_def split_once_append key_consts base64_len_def)

lemma pk_from_str_total: "\<exists>x. pk_from_str cs t = Some x \<and> (\<forall>pk. x = Inr pk \<longrightarrow> pk_ok pk)"
proof (cases "split_once (CHR '':'') t")
  case (Some p)
  then obtain name s where p: "split_once (CHR '':'') t = Some (name, s)" by (cases p) auto
  show ?thesis
  proof (cases "length s = PUBLIC_KEY_BASE64_LEN")
    case True
    then obtain r where "codec_decode_mut (base64 cs) s PUBLIC_KEY_BASE64_DECODED_LEN = Some r"
      using base64_decode_key [of s PUBLIC_KEY_BYTES] by (auto simp: key_consts base64_len_def)
    with True p show ?thesis using split_once_sound [OF p] by (cases r) (simp_all add: pk_from_str_def pk_ok_def key_name_ok_def)
  qed (simp add: pk_from_str_def p)
qed (simp add: pk_from_str_def)

end

section \<open>Keys and signatures\<close>

locale signing = data_encoding cs + ed25519 R for cs :: Codecs and R :: "'k Ring"
begin

lemma sk_generate_ok:
  "\<exists>r. sk_generate R name seed = Some r \<and> (\<forall>sk. r = Some sk \<longrightarrow> sk_name sk = name \<and> (key_name_ok name \<longrightarrow> sk_ok R sk)) \<and>
     (\<forall>b. seed = Some b \<and> length b = 32 \<longrightarrow> r \<noteq> None)"
proof (cases "\<exists>b k. seed = Some b \<and> from_seed_unchecked R b = Some k")
  case True
  then obtain b k where b: "seed = Some b" "from_seed_unchecked R b = Some k" by blast
  with seed_length have "length b = 32" by blast
  with b public_key_length [of k] show ?thesis by (auto simp: sk_generate_def key_consts sk_ok_def)
next
  case False
  with seed_accepted have "length b \<noteq> 32" if "seed = Some b" for b using that by fastforce
  with False show ?thesis by (cases seed) (auto simp: sk_generate_def split: option.splits)
qed

lemma sk_from_display:
  assumes "sk_ok R sk"
  shows "sk_from_str cs R (sk_display cs sk) = Some (Inr sk)"
proof -
  obtain seed where s: "from_seed_unchecked R seed = Some (sk_key sk)" "sk_key_data sk = seed @ ring_public_key R (sk_key sk)"
    and n: "key_name_ok (sk_name sk)" using assms by (auto simp: sk_ok_def)
  have "length seed = 32" using seed_length [OF s(1)] .
  moreover have "from_seed_and_public_key R seed (ring_public_key R (sk_key sk)) = Some (sk_key sk)" using s(1) by (simp add: pair_checked)
  ultimately show ?thesis
    using n s public_key_length [of "sk_key sk"] base64_decode_key_encode [of "sk_key_data sk"] base64_length [of "sk_key_data sk"]
    by (simp add: sk_display_def sk_from_str_def key_name_ok_def split_once_append key_consts base64_len_def)
qed

lemma sk_from_str_total: "\<exists>x. sk_from_str cs R t = Some x \<and> (\<forall>sk. x = Inr sk \<longrightarrow> sk_ok R sk)"
proof (cases "split_once (CHR '':'') t")
  case (Some p)
  then obtain name s where p: "split_once (CHR '':'') t = Some (name, s)" by (cases p) auto
  show ?thesis
  proof (cases "length s = SECRET_KEY_BASE64_LEN")
    case True
    then obtain r where r: "codec_decode_mut (base64 cs) s SECRET_KEY_BASE64_DECODED_LEN = Some r"
      using base64_decode_key [of s SECRET_KEY_BYTES] by (auto simp: key_consts base64_len_def)
    have "sk_ok R \<lparr>sk_name = name, sk_key_data = b, sk_key = k\<rparr>"
      if "from_seed_and_public_key R (take SEED_BYTES b) (drop SEED_BYTES b) = Some k" for b k
      using that split_once_sound [OF p] by (auto simp: sk_ok_def key_name_ok_def pair_checked intro!: exI [of _ "take SEED_BYTES b"])
    with True p r show ?thesis by (cases r) (auto simp: sk_from_str_def split: option.splits)
  qed (simp add: sk_from_str_def p)
qed (simp add: sk_from_str_def)

lemma sign_verifies:
  assumes "sk_ok R sk"
  shows "\<exists>pk s. sk_to_public_key R sk = Some pk \<and> sk_sign R sk msg = Some s \<and> pk_ok pk \<and> sig_ok s \<and>
    pk_name pk = sk_name sk \<and> sg_key_name s = sk_name sk \<and> pk_verify R pk msg s"
  using assms public_key_length [of "sk_key sk"] sign_length [of "sk_key sk" msg] verify_sign [of "sk_key sk" msg]
  by (simp add: sk_to_public_key_def sk_sign_def sk_ok_def pk_ok_def sig_ok_def pk_verify_def key_consts)

end

section \<open>Fingerprints\<close>

context data_encoding
begin

definition path_text :: "StorePath \<Rightarrow> string" where
  "path_text p = the (path_display cs p)"

lemma path_text:
  assumes "path_ok p"
  shows "path_display cs p = Some (path_text p)" "from_bytes cs (path_text p) = Some (Inr p)"
    "\<not> NAME_LOOKUP ch \<Longrightarrow> ch \<notin> set (path_text p)"
  using from_bytes_display [OF assms] path_display_char [OF assms] by (auto simp: path_text_def)

lemma path_text_inj: "path_ok p \<Longrightarrow> path_ok q \<Longrightarrow> path_text p = path_text q \<Longrightarrow> p = q"
  by (metis option.inject path_text(2) sum.inject(2))

text \<open>The references behind what is there, without the bookkeeping of the loop.\<close>

definition refs_text :: "StoreDir \<Rightarrow> StorePath list \<Rightarrow> string" where
  "refs_text d rs = join '','' (map (\<lambda>r. dir_str d @ ''/'' @ path_text r) rs)"

lemma push_references_later:
  "list_all path_ok rs \<Longrightarrow> 0 < i \<Longrightarrow>
   push_references cs d i rs b = Some (b @ as_bytes (concat (map (\<lambda>r. '','' @ dir_str d @ ''/'' @ path_text r) rs)))"
  by (induction rs arbitrary: i b) (simp_all add: store_dir_display_def path_text(1))

lemma join_concat: "join sep (s # ss) = s @ concat (map (\<lambda>t. sep @ t) ss)"
  by (induction ss arbitrary: s) auto

lemma push_references_eq: "list_all path_ok rs \<Longrightarrow> push_references cs d 0 rs b = Some (b @ as_bytes (refs_text d rs))"
  by (cases rs) (simp_all add: store_dir_display_def path_text(1) push_references_later refs_text_def join_concat comp_def)

lemma refs_tail_inj:
  "list_all path_ok rs \<Longrightarrow> list_all path_ok qs \<Longrightarrow>
   concat (map (\<lambda>r. '','' @ D @ ''/'' @ path_text r) rs) = concat (map (\<lambda>r. '','' @ D @ ''/'' @ path_text r) qs) \<Longrightarrow> rs = qs"
proof (induction rs arbitrary: qs)
  case (Cons r rs)
  from Cons.prems(3) obtain q qs' where qs: "qs = q # qs'" by (cases qs) auto
  let ?rest = "\<lambda>rs. concat (map (\<lambda>r. '','' @ D @ ''/'' @ path_text r) rs)"
  have c: "CHR '','' \<notin> set (path_text r)" "CHR '','' \<notin> set (path_text q)"
    using Cons.prems qs path_text(3) [OF _ separators(3)] by auto
  have e: "path_text r @ ?rest rs = path_text q @ ?rest qs'" using Cons.prems(3) qs by simp
  have "?rest xs = [] \<or> (\<exists>t. ?rest xs = CHR '','' # t)" for xs by (cases xs) auto
  then have "path_text r = path_text q \<and> ?rest rs = ?rest qs'"
    using e c split_once_append [of "CHR '',''" "path_text r"] split_once_append [of "CHR '',''" "path_text q"]
      split_once_None [of "CHR '',''" "path_text r"] split_once_None [of "CHR '',''" "path_text q"]
    by (metis append.right_neutral option.distinct(1) option.inject prod.inject)
  with Cons qs path_text_inj show ?case by auto
qed (auto split: list.splits elim: list.set_cases)

lemma refs_text_inj:
  assumes "list_all path_ok rs" "list_all path_ok qs" "refs_text d rs = refs_text d qs"
  shows "rs = qs"
proof (cases "rs = [] \<or> qs = []")
  case True
  then show ?thesis using assms(3) by (cases rs; cases qs) (auto simp: refs_text_def join_concat)
next
  case False
  then obtain r rs' q qs' where "rs = r # rs'" "qs = q # qs'" by (meson list.exhaust)
  with assms(3) have "concat (map (\<lambda>r. '','' @ dir_str d @ ''/'' @ path_text r) rs) = concat (map (\<lambda>r. '','' @ dir_str d @ ''/'' @ path_text r) qs)"
    by (simp add: refs_text_def join_concat comp_def)
  from refs_tail_inj [OF assms(1,2) this] show ?thesis .
qed

lemma append_sep_inj:
  assumes "(ch :: char) \<notin> set a" "ch \<notin> set b" "a @ ch # s = b @ ch # t"
  shows "a = b \<and> s = t"
proof -
  have "Some (a, s) = Some (b, t)"
    unfolding split_once_append [OF assms(1), symmetric] split_once_append [OF assms(2), symmetric] assms(3) ..
  then show ?thesis by simp
qed

lemma fingerprint_eq:
  assumes "path_ok p" "list_all path_ok refs"
  shows "fingerprint_path cs d p h n refs = Some (Inr f) \<longleftrightarrow> prefix (as_bytes ''sha256:'') h \<and> length h = 59 \<and>
    f = as_bytes (''1;'' @ (dir_str d @ ''/'' @ path_text p) @ '';'' @ from_utf8_unchecked h @ '';'' @ show_nat (unat n) @ '';'' @ refs_text d refs)"
  using assms by (auto simp: fingerprint_path_def store_dir_display_def path_text(1) push_references_eq)

lemma fingerprint_text_inj:
  assumes "path_ok p" "path_ok q" "length h = length h'" "list_all path_ok refs" "list_all path_ok refs'"
    and "path_text p @ '';'' @ h @ '';'' @ show_nat m @ '';'' @ refs_text d refs =
      path_text q @ '';'' @ h' @ '';'' @ show_nat n @ '';'' @ refs_text d refs'"
  shows "p = q \<and> h = h' \<and> m = n \<and> refs = refs'"
proof -
  have "CHR '';'' \<notin> set (path_text p)" "CHR '';'' \<notin> set (path_text q)"
    using path_text(3) [OF _ separators(5)] assms(1,2) by blast+
  with assms(6) have 1: "path_text p = path_text q"
    and 2: "h @ '';'' @ show_nat m @ '';'' @ refs_text d refs = h' @ '';'' @ show_nat n @ '';'' @ refs_text d refs'"
    using append_sep_inj [of "CHR '';''" "path_text p" "path_text q"] by simp_all
  from 2 assms(3) have 3: "h = h'" and 4: "show_nat m @ CHR '';'' # refs_text d refs = show_nat n @ CHR '';'' # refs_text d refs'" by auto
  have "CHR '';'' \<notin> set (show_nat k)" for k
  proof
    assume "CHR '';'' \<in> set (show_nat k)"
    then obtain i where "i < 10" "CHR '';'' = digit_char i" using show_nat_digits by blast
    then have "char_digit (CHR '';'') = Some i" by simp
    then show False by (simp add: char_digit_def)
  qed
  from append_sep_inj [OF this this 4] have "m = n" "refs_text d refs = refs_text d refs'" by simp_all
  with 1 3 refs_text_inj [OF assms(4,5)] path_text_inj [OF assms(1,2)] show ?thesis by simp
qed

end

section \<open>Properties\<close>

text \<open>An instance of the crate for the witnesses: the seed is the key, and a signature is the seed and the end of the message.\<close>

definition plain_ring :: "bytes Ring" where
  "plain_ring =
     \<lparr>from_seed_unchecked = (\<lambda>seed. if length seed = 32 then Some seed else None),
      from_seed_and_public_key = (\<lambda>seed pk. if length seed = 32 \<and> pk = seed then Some seed else None),
      ring_public_key = cut 32, ring_sign = (\<lambda>k m. cut 32 k @ cut 32 m), ring_verify = (\<lambda>pk m s. s = cut 32 pk @ cut 32 m)\<rparr>"

interpretation plain_ring: ed25519 plain_ring
  by unfold_locales (auto simp: plain_ring_def cut_def split: if_splits)

interpretation plain_signing: signing bit_codecs plain_ring
  by unfold_locales

text \<open>
  C31. Keys work through their texts: a key generated from any seed, under a name without a colon, is parsed back from its text to the
  same key; so is its public key; what it signs carries its name, is parsed back from its text, and is verified by
  the public key. No parser panics, and what they accept is well formed: signatures have 64 bytes, public keys 32, secret keys a
  public half that belongs to the seed.
\<close>

theorem keys_work_through_texts:
  assumes R: "signing cs R" and seed: "length seed = 32" and name: "key_name_ok name"
  shows "(\<exists>sk pk s t. sk_generate R name (Some seed) = Some (Some sk) \<and> sk_from_str cs R (sk_display cs sk) = Some (Inr sk) \<and>
      sk_to_public_key R sk = Some pk \<and> pk_from_str cs (pk_display cs pk) = Some (Inr pk) \<and>
      sk_sign R sk msg = Some s \<and> sg_key_name s = name \<and> pk_name pk = name \<and> pk_verify R pk msg s \<and>
      sig_display cs s = Some t \<and> sig_from_str cs t = Inr s) \<and>
    (\<forall>t. \<exists>x y. sk_from_str cs R t = Some x \<and> (\<forall>sk. x = Inr sk \<longrightarrow> sk_ok R sk) \<and>
      pk_from_str cs t = Some y \<and> (\<forall>pk. y = Inr pk \<longrightarrow> pk_ok pk) \<and> (\<forall>s. sig_from_str cs t = Inr s \<longrightarrow> sig_ok s))"
proof -
  have cs: "data_encoding cs" using R by (simp add: signing_def)
  obtain sk where sk: "sk_generate R name (Some seed) = Some (Some sk)" "sk_name sk = name" "sk_ok R sk"
    using signing.sk_generate_ok [OF R, of name "Some seed"] seed name by auto
  obtain pk s where ps: "sk_to_public_key R sk = Some pk" "sk_sign R sk msg = Some s" "pk_ok pk" "sig_ok s"
    "pk_name pk = sk_name sk" "sg_key_name s = sk_name sk" "pk_verify R pk msg s"
    using signing.sign_verifies [OF R sk(3), of msg] by blast
  with sk signing.sk_from_display [OF R sk(3)] data_encoding.pk_from_display [OF cs ps(3)] data_encoding.sig_from_display [OF cs ps(4)]
  show ?thesis
    using signing.sk_from_str_total [OF R] data_encoding.pk_from_str_total [OF cs] data_encoding.sig_from_str_ok [OF cs] by blast
qed

theorem keys_work_through_texts_witness:
  "\<exists>sk pk s. sk_generate plain_ring ''cache-1'' (Some (replicate 32 7)) = Some (Some sk) \<and>
    sk_from_str bit_codecs plain_ring (sk_display bit_codecs sk) = Some (Inr sk) \<and>
    sk_to_public_key plain_ring sk = Some pk \<and> sk_sign plain_ring sk [1, 2, 3] = Some s \<and> pk_verify plain_ring pk [1, 2, 3] s"
proof -
  have "key_name_ok ''cache-1''" "length (replicate 32 7 :: bytes) = 32" by (simp_all add: key_name_ok_def)
  from keys_work_through_texts [OF plain_signing.signing_axioms this(2,1)] show ?thesis by blast
qed

text \<open>
  C32. What is signed identifies the object: for one store directory, whatever characters it has, two fingerprints are equal only if
  the store paths, the NAR hashes, the sizes and the lists of references are equal. A fingerprint is made exactly for the hashes of
  59 bytes that start with \<open>sha256:\<close>.
\<close>

theorem fingerprint_identifies:
  assumes "data_encoding cs" "path_ok p" "path_ok q" "list_all path_ok refs" "list_all path_ok refs'"
  shows "((\<exists>f. fingerprint_path cs d p h m refs = Some (Inr f)) \<longleftrightarrow> prefix (as_bytes ''sha256:'') h \<and> length h = 59) \<and>
    (\<forall>f. fingerprint_path cs d p h m refs = Some (Inr f) \<and> fingerprint_path cs d q h' n refs' = Some (Inr f) \<longrightarrow>
      p = q \<and> h = h' \<and> m = n \<and> refs = refs')"
proof (intro conjI allI impI)
  show "(\<exists>f. fingerprint_path cs d p h m refs = Some (Inr f)) \<longleftrightarrow> prefix (as_bytes ''sha256:'') h \<and> length h = 59"
    using data_encoding.fingerprint_eq [OF assms(1,2,4)] by blast
next
  fix f
  assume "fingerprint_path cs d p h m refs = Some (Inr f) \<and> fingerprint_path cs d q h' n refs' = Some (Inr f)"
  then have f: "length h = 59" "length h' = 59" "as_bytes (''1;'' @ (dir_str d @ ''/'' @ data_encoding.path_text cs p) @ '';'' @
      from_utf8_unchecked h @ '';'' @ show_nat (unat m) @ '';'' @ data_encoding.refs_text cs d refs) =
    as_bytes (''1;'' @ (dir_str d @ ''/'' @ data_encoding.path_text cs q) @ '';'' @ from_utf8_unchecked h' @ '';'' @
      show_nat (unat n) @ '';'' @ data_encoding.refs_text cs d refs')"
    using data_encoding.fingerprint_eq [OF assms(1,2,4)] data_encoding.fingerprint_eq [OF assms(1,3,5)] by auto
  then have "p = q \<and> from_utf8_unchecked h = from_utf8_unchecked h' \<and> unat m = unat n \<and> refs = refs'"
    by (intro data_encoding.fingerprint_text_inj [OF assms(1-3) _ assms(4,5)]) (simp_all only: as_bytes_inj same_append_eq append_assoc from_utf8_simps)
  then show "p = q" "h = h'" "m = n" "refs = refs'" by (auto simp: word_unat_eq_iff dest: arg_cong [of _ _ as_bytes])
qed

theorem fingerprint_identifies_witness:
  "let p = \<lparr>sp_hash = StorePathHash (replicate 20 7), sp_name = StorePathName ''hello''\<rparr>; h = as_bytes ''sha256:'' @ replicate 52 48
   in \<exists>f. fingerprint_path bit_codecs default_dir p h 5 [p] = Some (Inr f) \<and>
     (\<forall>n refs'. list_all path_ok refs' \<and> fingerprint_path bit_codecs default_dir p h n refs' = Some (Inr f) \<longrightarrow> n = 5 \<and> refs' = [p])"
proof -
  let ?p = "\<lparr>sp_hash = StorePathHash (replicate 20 7), sp_name = StorePathName ''hello''\<rparr>"
  have "path_ok ?p"
    by (simp add: path_ok_def name_ok_def STORE_PATH_HASH_SIZE_def MAX_NAME_LEN_def NAME_LOOKUP_def in_range_def)
  then have p: "path_ok ?p" "list_all path_ok [?p]" by simp_all
  let ?h = "as_bytes ''sha256:'' @ replicate 52 48"
  have "prefix (as_bytes ''sha256:'') ?h" "length ?h = 59" by simp_all
  then obtain f where "fingerprint_path bit_codecs default_dir ?p ?h 5 [?p] = Some (Inr f)"
    using fingerprint_identifies [OF bits.data_encoding_axioms p(1) p(1) p(2) p(2)] by blast
  then show ?thesis
    using fingerprint_identifies [OF bits.data_encoding_axioms p(1) p(1) p(2), of _ default_dir ?h 5] unfolding Let_def by metis
qed

end
