(* ===== verification/Derivation_Inputs.thy ===== *)
theory Derivation_Inputs
  imports Derived_Path
begin

text \<open>
  \<open>harmonia-store-core/src/derivation/inputs.rs\<close>: the inputs of a derivation as a set of derived paths and as the trie that
  Nix writes, with the two conversions. \<open>&mut\<close> references into the trie are updates of the place they point at.

  The fact: the trie of a set of paths expands to the same set (\<open>inputs_roundtrip\<close>).
\<close>

section \<open>The order of derived paths\<close>

text \<open>The derived order of an enum: by the constructor, then by the fields.\<close>

fun sdp_less :: "SingleDerivedPath \<Rightarrow> SingleDerivedPath \<Rightarrow> bool" where
  "sdp_less (SBuilt d n) (SBuilt d' n') \<longleftrightarrow> sdp_less d d' \<or> d = d' \<and> n < n'"
| "sdp_less (SBuilt _ _) (SOpaque _) \<longleftrightarrow> True"
| "sdp_less (SOpaque _) (SBuilt _ _) \<longleftrightarrow> False"
| "sdp_less (SOpaque p) (SOpaque q) \<longleftrightarrow> p < q"

instantiation SingleDerivedPath :: linorder
begin

definition less_SingleDerivedPath :: "SingleDerivedPath \<Rightarrow> SingleDerivedPath \<Rightarrow> bool" where
  "less_SingleDerivedPath = sdp_less"

definition less_eq_SingleDerivedPath :: "SingleDerivedPath \<Rightarrow> SingleDerivedPath \<Rightarrow> bool" where
  "less_eq_SingleDerivedPath a b \<longleftrightarrow> sdp_less a b \<or> a = b"

instance
proof
  fix x y z :: SingleDerivedPath
  have irr: "\<not> sdp_less a a" for a by (induction a) auto
  have tr: "sdp_less a b \<Longrightarrow> sdp_less b c \<Longrightarrow> sdp_less a c" for a b c
  proof (induction a b arbitrary: c rule: sdp_less.induct)
    case (1 d n d' n')
    then show ?case by (cases c) auto
  next
    case (2 d n p)
    then show ?case by (cases c) auto
  next
    case (4 p q)
    then show ?case by (cases c) auto
  qed simp
  have tot: "sdp_less a b \<or> a = b \<or> sdp_less b a" for a b
    by (induction a b rule: sdp_less.induct) auto
  show "x < y \<longleftrightarrow> x \<le> y \<and> \<not> y \<le> x" using irr tr by (auto simp: less_SingleDerivedPath_def less_eq_SingleDerivedPath_def)
  show "x \<le> x" by (simp add: less_eq_SingleDerivedPath_def)
  show "x \<le> y \<Longrightarrow> y \<le> z \<Longrightarrow> x \<le> z" using tr by (auto simp: less_eq_SingleDerivedPath_def)
  show "x \<le> y \<Longrightarrow> y \<le> x \<Longrightarrow> x = y" using irr tr by (auto simp: less_eq_SingleDerivedPath_def)
  show "x \<le> y \<or> y \<le> x" using tot [of x y] by (auto simp: less_eq_SingleDerivedPath_def)
qed

end

section \<open>The trie\<close>

datatype OutputInputs = OutputInputs (oi_outputs: "OutputName list") (oi_dynamic: "(OutputName \<times> OutputInputs) list")

definition no_outputs :: OutputInputs where
  "no_outputs = OutputInputs [] []"

record DerivationInputs =
  srcs :: "StorePath list"
  drvs :: "(StorePath \<times> OutputInputs) list"

definition no_inputs :: DerivationInputs where
  "no_inputs = \<lparr>srcs = [], drvs = []\<rparr>"

fun expand_outputs :: "SingleDerivedPath list \<Rightarrow> SingleDerivedPath \<Rightarrow> OutputInputs \<Rightarrow> SingleDerivedPath list" where
  "expand_outputs paths drv_path (OutputInputs outputs dynamic) =
     fold (\<lambda>(output_name, nested) paths. expand_outputs paths (SBuilt drv_path output_name) nested) dynamic
       (fold (\<lambda>output paths. set_insert (SBuilt drv_path output) paths) outputs paths)"

definition paths_of_inputs :: "DerivationInputs \<Rightarrow> SingleDerivedPath list" where
  "paths_of_inputs inputs =
     (let paths = fold (\<lambda>src paths. set_insert (SOpaque src) paths) (srcs inputs) []
      in fold (\<lambda>(drv_path, outs) paths. expand_outputs paths (SOpaque drv_path) outs) (drvs inputs) paths)"

text \<open>\<open>ensure_slot\<close> returns a mutable reference to the slot of \<open>k\<close>; \<open>f\<close> is what is done through it.\<close>

fun ensure_slot ::
  "(StorePath \<times> OutputInputs) list \<Rightarrow> SingleDerivedPath \<Rightarrow> (OutputInputs \<Rightarrow> OutputInputs) \<Rightarrow> (StorePath \<times> OutputInputs) list" where
  "ensure_slot ds (SOpaque store_path) f = map_entry no_outputs store_path f ds"
| "ensure_slot ds (SBuilt drv_path output) f =
     ensure_slot ds drv_path (\<lambda>node. OutputInputs (oi_outputs node) (map_entry no_outputs output f (oi_dynamic node)))"

fun add_path :: "SingleDerivedPath \<Rightarrow> DerivationInputs \<Rightarrow> DerivationInputs" where
  "add_path (SOpaque store_path) r = r\<lparr>srcs := set_insert store_path (srcs r)\<rparr>"
| "add_path (SBuilt drv_path output) r =
     r\<lparr>drvs := ensure_slot (drvs r) drv_path (\<lambda>node. OutputInputs (set_insert output (oi_outputs node)) (oi_dynamic node))\<rparr>"

definition inputs_of_paths :: "SingleDerivedPath list \<Rightarrow> DerivationInputs" where
  "inputs_of_paths paths = fold add_path paths no_inputs"

section \<open>What a trie holds\<close>

text \<open>The outputs at the end of a chain of dynamic outputs.\<close>

fun outputs_at :: "OutputInputs \<Rightarrow> OutputName list \<Rightarrow> OutputName set" where
  "outputs_at node [] = set (oi_outputs node)"
| "outputs_at node (n # ns) = (case map_of (oi_dynamic node) n of None \<Rightarrow> {} | Some m \<Rightarrow> outputs_at m ns)"

definition map_at :: "('k \<times> OutputInputs) list \<Rightarrow> 'k \<Rightarrow> OutputName list \<Rightarrow> OutputName set" where
  "map_at es k ns = (case map_of es k of None \<Rightarrow> {} | Some m \<Rightarrow> outputs_at m ns)"

inductive trie_ok :: "OutputInputs \<Rightarrow> bool" where
  "btree_map dyn \<Longrightarrow> (\<And>n m. (n, m) \<in> set dyn \<Longrightarrow> trie_ok m) \<Longrightarrow> trie_ok (OutputInputs outs dyn)"

inductive_simps trie_ok_simps [simp]: "trie_ok (OutputInputs outs dyn)"

definition map_ok :: "('k :: linorder \<times> OutputInputs) list \<Rightarrow> bool" where
  "map_ok es \<longleftrightarrow> btree_map es \<and> (\<forall>(k, m) \<in> set es. trie_ok m)"

lemma trie_ok_map: "trie_ok node \<longleftrightarrow> map_ok (oi_dynamic node)"
  by (cases node) (auto simp: map_ok_def)

lemma outputs_at_Cons: "outputs_at node (n # ns) = map_at (oi_dynamic node) n ns"
  by (simp add: map_at_def)

fun chain :: "SingleDerivedPath \<Rightarrow> OutputName list" where
  "chain (SOpaque _) = []"
| "chain (SBuilt d n) = chain d @ [n]"

lemma chain_root: "foldl SBuilt (SOpaque (root_path d)) (chain d) = d"
  by (induction d) auto

lemma root_foldl: "root_path (foldl SBuilt d ns) = root_path d" "chain (foldl SBuilt d ns) = chain d @ ns"
  by (induction ns arbitrary: d) auto

text \<open>\<open>f\<close> adds the output \<open>out\<close> at the end of the chain \<open>q\<close>, and nothing else.\<close>

definition adds_at :: "(OutputInputs \<Rightarrow> OutputInputs) \<Rightarrow> OutputName list \<Rightarrow> OutputName \<Rightarrow> bool" where
  "adds_at f q out \<longleftrightarrow> (\<forall>node. trie_ok node \<longrightarrow> trie_ok (f node) \<and>
     (\<forall>ns. outputs_at (f node) ns = outputs_at node ns \<union> (if ns = q then {out} else {})))"

lemma outputs_at_none [simp]: "outputs_at no_outputs ns = {}" "trie_ok no_outputs"
  by (cases ns) (auto simp: no_outputs_def)

lemma map_entry_ok:
  assumes "map_ok es" "adds_at f q out"
  shows "map_ok (map_entry no_outputs k f es)"
  unfolding map_ok_def
proof (intro conjI ballI, goal_cases)
  case 1
  then show ?case using assms(1) by (simp add: map_ok_def)
next
  case (2 e)
  then obtain x w where e: "e = (x, w)" "(x, w) \<in> set (map_entry no_outputs k f es)" by (metis surj_pair)
  have "trie_ok m" if "(y, m) \<in> set es" for y m using assms(1) that by (auto simp: map_ok_def)
  with map_entry_values [OF e(2)] assms(2) show ?case by (auto simp: e(1) adds_at_def)
qed

lemma map_entry_at:
  assumes "map_ok es" "adds_at f q out"
  shows "map_at (map_entry no_outputs k f es) j ns = map_at es j ns \<union> (if j = k \<and> ns = q then {out} else {})"
proof (cases "map_of es k")
  case None
  with assms show ?thesis by (simp add: map_at_def map_of_map_entry map_ok_def adds_at_def)
next
  case (Some m)
  then have "trie_ok m" using assms(1) map_of_SomeD [OF Some] by (auto simp: map_ok_def)
  with Some assms show ?thesis by (simp add: map_at_def map_of_map_entry map_ok_def adds_at_def)
qed

lemma adds_at_entry:
  assumes "adds_at f q out"
  shows "adds_at (\<lambda>node. OutputInputs (oi_outputs node) (map_entry no_outputs n f (oi_dynamic node))) (n # q) out"
  unfolding adds_at_def
proof (intro allI impI conjI)
  fix node ns assume ok: "trie_ok node"
  show "trie_ok (OutputInputs (oi_outputs node) (map_entry no_outputs n f (oi_dynamic node)))"
    using map_entry_ok [OF ok [unfolded trie_ok_map] assms] by (simp add: trie_ok_map)
  show "outputs_at (OutputInputs (oi_outputs node) (map_entry no_outputs n f (oi_dynamic node))) ns =
      outputs_at node ns \<union> (if ns = n # q then {out} else {})"
    using map_entry_at [OF ok [unfolded trie_ok_map] assms] by (cases ns) (simp_all add: outputs_at_Cons del: outputs_at.simps(2))
qed

lemma ensure_slot_at:
  "map_ok ds \<Longrightarrow> adds_at f q out \<Longrightarrow> map_ok (ensure_slot ds k f) \<and>
     map_at (ensure_slot ds k f) p ns = map_at ds p ns \<union> (if p = root_path k \<and> ns = chain k @ q then {out} else {})"
proof (induction k arbitrary: f q)
  case (SBuilt d n)
  from SBuilt.IH [OF SBuilt.prems(1) adds_at_entry [OF SBuilt.prems(2)]] show ?case by simp
qed (simp add: map_entry_ok map_entry_at)

section \<open>The round trip\<close>

text \<open>The set of paths a trie stands for.\<close>

definition inputs_set :: "DerivationInputs \<Rightarrow> SingleDerivedPath set" where
  "inputs_set r = SOpaque ` set (srcs r) \<union> {SBuilt d n |d n. n \<in> map_at (drvs r) (root_path d) (chain d)}"

lemma add_path_set:
  assumes "map_ok (drvs r)"
  shows "map_ok (drvs (add_path k r)) \<and> inputs_set (add_path k r) = insert k (inputs_set r)"
proof (cases k)
  case (SBuilt d n)
  have f: "adds_at (\<lambda>node. OutputInputs (set_insert n (oi_outputs node)) (oi_dynamic node)) [] n"
    unfolding adds_at_def
  proof (intro allI impI conjI)
    fix node ns
    show "outputs_at (OutputInputs (set_insert n (oi_outputs node)) (oi_dynamic node)) ns = outputs_at node ns \<union> (if ns = [] then {n} else {})"
      by (cases ns) auto
  qed (simp add: trie_ok_map)
  have same: "root_path e = root_path d \<and> chain e = chain d \<longleftrightarrow> e = d" for e
    using chain_root [of e] chain_root [of d] by metis
  show ?thesis
    using ensure_slot_at [OF assms f, of d] by (auto simp: SBuilt inputs_set_def same)
qed (use assms in \<open>auto simp: inputs_set_def\<close>)

lemma inputs_of_paths_set: "map_ok (drvs (inputs_of_paths ps)) \<and> inputs_set (inputs_of_paths ps) = set ps"
proof -
  have "map_ok (drvs r) \<Longrightarrow> map_ok (drvs (fold add_path ps r)) \<and> inputs_set (fold add_path ps r) = set ps \<union> inputs_set r" for r
    by (induction ps arbitrary: r) (simp_all add: add_path_set)
  from this [of no_inputs] show ?thesis by (simp add: inputs_of_paths_def no_inputs_def map_ok_def inputs_set_def map_at_def)
qed

lemma insert_paths:
  "fold (\<lambda>output paths. set_insert (SBuilt d output) paths) outs ps = fold set_insert (map (SBuilt d) outs) ps"
  "fold (\<lambda>src paths. set_insert (SOpaque src) paths) ss ps = fold set_insert (map SOpaque ss) ps"
  by (simp_all add: fold_map comp_def)

text \<open>The paths behind \<open>d\<close> that a node holds, and those that the entries of a map hold.\<close>

definition below :: "SingleDerivedPath \<Rightarrow> (OutputName list \<Rightarrow> OutputName set) \<Rightarrow> SingleDerivedPath set" where
  "below d outs = (\<Union>ns. SBuilt (foldl SBuilt d ns) ` outs ns)"

definition expands :: "OutputInputs \<Rightarrow> bool" where
  "expands node \<longleftrightarrow> (\<forall>ps d. btree_set ps \<longrightarrow> btree_set (expand_outputs ps d node) \<and>
     set (expand_outputs ps d node) = set ps \<union> below d (outputs_at node))"

lemma expand_map_set:
  assumes "\<forall>(k, m) \<in> set es. expands m" "btree_map es" "btree_set ps"
  shows "btree_set (fold (\<lambda>(k, m) ps. expand_outputs ps (mk k) m) es ps) \<and>
    set (fold (\<lambda>(k, m) ps. expand_outputs ps (mk k) m) es ps) = set ps \<union> (\<Union>k. below (mk k) (map_at es k))"
  using assms
proof (induction es arbitrary: ps)
  case Nil
  then show ?case by (simp add: map_at_def below_def)
next
  case (Cons e es)
  obtain k m where e: "e = (k, m)" by fastforce
  let ?ps = "expand_outputs ps (mk k) m"
  have ps: "btree_set ?ps" "set ?ps = set ps \<union> below (mk k) (outputs_at m)"
    using Cons.prems by (auto simp: e expands_def)
  have "map_of es k = None" using Cons.prems by (intro map_of_above) (auto simp: e)
  then have at: "map_at (e # es) j = (if j = k then outputs_at m else map_at es j)" "below (mk k) (map_at es k) = {}" for j
    by (auto simp: e map_at_def below_def)
  have "(\<Union>j. below (mk j) (map_at (e # es) j)) = below (mk k) (outputs_at m) \<union> (\<Union>j. below (mk j) (map_at es j))"
  proof (intro equalityI subsetI)
    fix x assume "x \<in> below (mk k) (outputs_at m) \<union> (\<Union>j. below (mk j) (map_at es j))"
    then consider "x \<in> below (mk k) (outputs_at m)" | j where "x \<in> below (mk j) (map_at es j)" by blast
    then show "x \<in> (\<Union>j. below (mk j) (map_at (e # es) j))"
    proof cases
      case 1
      then have "x \<in> below (mk k) (map_at (e # es) k)" by (simp add: at(1))
      then show ?thesis by blast
    next
      case (2 j)
      with at(2) have "j \<noteq> k" by auto
      with 2 have "x \<in> below (mk j) (map_at (e # es) j)" by (simp add: at(1))
      then show ?thesis by blast
    qed
  qed (auto simp: at(1) split: if_splits)
  moreover from Cons.IH [OF _ _ ps(1)] Cons.prems
  have "btree_set (fold (\<lambda>(k, m) ps. expand_outputs ps (mk k) m) es ?ps)"
    "set (fold (\<lambda>(k, m) ps. expand_outputs ps (mk k) m) es ?ps) = set ?ps \<union> (\<Union>k. below (mk k) (map_at es k))" by auto
  moreover have "fold (\<lambda>(k, m) ps. expand_outputs ps (mk k) m) (e # es) ps = fold (\<lambda>(k, m) ps. expand_outputs ps (mk k) m) es ?ps"
    by (simp add: e)
  ultimately show ?case by (simp only: ps(2) Un_assoc simp_thms)
qed

lemma below_node: "below d (outputs_at (OutputInputs outs dyn)) = SBuilt d ` set outs \<union> (\<Union>k. below (SBuilt d k) (map_at dyn k))"
  (is "?l = ?a \<union> ?b")
proof (intro equalityI subsetI)
  fix x assume "x \<in> ?l"
  then obtain ns n where x: "x = SBuilt (foldl SBuilt d ns) n" "n \<in> outputs_at (OutputInputs outs dyn) ns" by (auto simp: below_def)
  show "x \<in> ?a \<union> ?b"
  proof (cases ns)
    case (Cons k ks)
    with x have "n \<in> map_at dyn k ks" by (simp add: map_at_def)
    with x(1) Cons show ?thesis by (auto simp: below_def)
  qed (use x in auto)
next
  fix x assume "x \<in> ?a \<union> ?b"
  then show "x \<in> ?l"
  proof
    assume "x \<in> ?a"
    then obtain n where "x = SBuilt (foldl SBuilt d []) n" "n \<in> outputs_at (OutputInputs outs dyn) []" by auto
    then show ?thesis unfolding below_def by blast
  next
    assume "x \<in> ?b"
    then obtain k ns n where "x = SBuilt (foldl SBuilt d (k # ns)) n" "n \<in> outputs_at (OutputInputs outs dyn) (k # ns)"
      by (auto simp: map_at_def below_def)
    then show ?thesis unfolding below_def by blast
  qed
qed

lemma expand_outputs_set: "trie_ok node \<Longrightarrow> expands node"
proof (induction node rule: trie_ok.induct)
  case (1 dyn outs)
  show ?case unfolding expands_def
  proof (intro allI impI)
    fix ps d assume ps: "btree_set (ps :: SingleDerivedPath list)"
    let ?ps = "fold set_insert (map (SBuilt d) outs) ps"
    have "\<forall>(k, m) \<in> set dyn. expands m" using 1 by auto
    note m = expand_map_set [OF this 1(1) btree_fold_set_insert [OF ps], of "SBuilt d" "map (SBuilt d) outs"]
    have "set ?ps = set ps \<union> SBuilt d ` set outs" by auto
    with m show "btree_set (expand_outputs ps d (OutputInputs outs dyn)) \<and>
        set (expand_outputs ps d (OutputInputs outs dyn)) = set ps \<union> below d (outputs_at (OutputInputs outs dyn))"
      unfolding expand_outputs.simps insert_paths below_node by (simp only: Un_assoc simp_thms)
  qed
qed

lemma below_root: "(\<Union>k. below (SOpaque k) (at1 k)) = {SBuilt d n |d n. n \<in> at1 (root_path d) (chain d)}" (is "?l = ?r")
proof (intro equalityI subsetI)
  fix x assume "x \<in> ?l"
  then obtain k ns n where "x = SBuilt (foldl SBuilt (SOpaque k) ns) n" "n \<in> at1 k ns" by (auto simp: below_def)
  then show "x \<in> ?r" using root_foldl [of "SOpaque k" ns] by auto
next
  fix x assume "x \<in> ?r"
  then obtain d n where "x = SBuilt (foldl SBuilt (SOpaque (root_path d)) (chain d)) n" "n \<in> at1 (root_path d) (chain d)"
    by (auto simp: chain_root)
  then show "x \<in> ?l" unfolding below_def by blast
qed

lemma paths_of_inputs_set:
  assumes "map_ok (drvs r)"
  shows "btree_set (paths_of_inputs r) \<and> set (paths_of_inputs r) = inputs_set r"
proof -
  have "\<forall>(k, m) \<in> set (drvs r). expands m" "btree_map (drvs r)" using assms expand_outputs_set by (auto simp: map_ok_def)
  from expand_map_set [OF this, of "fold set_insert (map SOpaque (srcs r)) []" SOpaque]
  show ?thesis by (simp add: paths_of_inputs_def insert_paths inputs_set_def below_root)
qed

lemma paths_of_trie:
  assumes "btree_set paths"
  shows "map_ok (drvs (inputs_of_paths paths))" "paths_of_inputs (inputs_of_paths paths) = paths"
  using assms inputs_of_paths_set [of paths] paths_of_inputs_set [of "inputs_of_paths paths"] by (auto intro: btree_set_eq)

section \<open>Property\<close>

text \<open>
  C34. Inputs of a derivation: the trie that is made of a set of derived paths, however deep they are nested, expands to
  exactly that set, and the expansion of every trie is the set of its sources and of the outputs it reaches.
\<close>

theorem inputs_roundtrip:
  assumes "btree_set paths" "map_ok (drvs r)"
  shows "paths_of_inputs (inputs_of_paths paths) = paths \<and> set (paths_of_inputs r) = inputs_set r"
  using assms paths_of_trie [of paths] paths_of_inputs_set [of r] by simp

theorem inputs_roundtrip_witness:
  "let p = \<lparr>sp_hash = StorePathHash [1], sp_name = StorePathName ''a.drv''\<rparr>; out = OutputName ''out'';
       ps = [SBuilt (SBuilt (SOpaque p) out) out, SBuilt (SOpaque p) out, SOpaque p]
   in paths_of_inputs (inputs_of_paths ps) = ps \<and>
     inputs_of_paths ps = \<lparr>srcs = [p], drvs = [(p, OutputInputs [out] [(out, OutputInputs [out] [])])]\<rparr>"
proof -
  let ?p = "\<lparr>sp_hash = StorePathHash [1], sp_name = StorePathName ''a.drv''\<rparr>" and ?out = "OutputName ''out''"
  let ?ps = "[SBuilt (SBuilt (SOpaque ?p) ?out) ?out, SBuilt (SOpaque ?p) ?out, SOpaque ?p]"
  have "btree_set ?ps" "map_ok (drvs no_inputs)" by (simp_all add: less_SingleDerivedPath_def no_inputs_def map_ok_def)
  from inputs_roundtrip [OF this] show ?thesis by (simp add: inputs_of_paths_def no_inputs_def no_outputs_def)
qed

end
