(* ===== verification/Utf8.thy ===== *)
theory Utf8
  imports Prelude
begin

text \<open>
  UTF-8, as \<open>String::from_utf8\<close> and \<open>str::from_utf8\<close> of the standard library check it. A \<open>str\<close> is the bytes of its
  encoding, so that the conversion changes nothing.
\<close>

section \<open>Validity\<close>

text \<open>The byte sequences that are UTF-8, as \<open>String::from_utf8\<close> checks them.\<close>

definition byte_in :: "u8 \<Rightarrow> u8 \<Rightarrow> u8 \<Rightarrow> bool" where
  "byte_in lo hi b \<longleftrightarrow> lo \<le> b \<and> b \<le> hi"

abbreviation utf8_cont :: "u8 \<Rightarrow> bool" where
  "utf8_cont \<equiv> byte_in 0x80 0xBF"

fun utf8_valid :: "bytes \<Rightarrow> bool" where
  "utf8_valid [] = True"
| "utf8_valid (a # s) =
     (if a < 0x80 then utf8_valid s
      else case s of
        [] \<Rightarrow> False
      | b # s1 \<Rightarrow>
          if byte_in 0xC2 0xDF a then utf8_cont b \<and> utf8_valid s1
          else case s1 of
            [] \<Rightarrow> False
          | c # s2 \<Rightarrow>
              if a = 0xE0 then byte_in 0xA0 0xBF b \<and> utf8_cont c \<and> utf8_valid s2
              else if a = 0xED then byte_in 0x80 0x9F b \<and> utf8_cont c \<and> utf8_valid s2
              else if byte_in 0xE1 0xEF a then utf8_cont b \<and> utf8_cont c \<and> utf8_valid s2
              else case s2 of
                [] \<Rightarrow> False
              | d # s3 \<Rightarrow>
                  (if a = 0xF0 then byte_in 0x90 0xBF b else if a = 0xF4 then byte_in 0x80 0x8F b
                   else byte_in 0xF1 0xF3 a \<and> utf8_cont b) \<and> utf8_cont c \<and> utf8_cont d \<and> utf8_valid s3)"

definition from_utf8 :: "bytes \<Rightarrow> string + string" where
  "from_utf8 b = (if utf8_valid b then Inr (from_utf8_unchecked b) else Inl ''invalid utf-8 sequence'')"

section \<open>Facts\<close>

lemma utf8_ascii: "list_all (\<lambda>c. of_char c < (128 :: nat)) s \<Longrightarrow> utf8_valid (as_bytes s)"
proof (induction s)
  case (Cons c s)
  then have "unat (byte_of_char c) < 128" by (simp add: unat_byte_of_char)
  then have "byte_of_char c < 0x80" by (simp add: word_less_nat_alt)
  with Cons show ?case by simp
qed simp

lemma utf8_append:
  assumes "utf8_valid a" "utf8_valid b"
  shows "utf8_valid (a @ b)"
  using assms(1)
proof (induction a rule: length_induct)
  case (1 a)
  then have IH: "length t < length a \<Longrightarrow> utf8_valid t \<Longrightarrow> utf8_valid (t @ b)" for t by blast
  show ?case
  proof (cases a)
    case (Cons x s)
    note a = Cons
    show ?thesis
    proof (cases "x < 0x80")
      case True
      with 1(2) a IH [of s] show ?thesis by simp
    next
      case False
      with 1(2) a obtain y s1 where s: "s = y # s1" by (cases s) auto
      show ?thesis
      proof (cases "byte_in 0xC2 0xDF x")
        case True
        with False 1(2) a s IH [of s1] show ?thesis by simp
      next
        case two: False
        with False 1(2) a s obtain z s2 where s1: "s1 = z # s2" by (cases s1) auto
        show ?thesis
        proof (cases "x = 0xE0 \<or> x = 0xED \<or> byte_in 0xE1 0xEF x")
          case True
          with False two 1(2) a s s1 IH [of s2] show ?thesis by (auto split: if_splits)
        next
          case three: False
          with False two 1(2) a s s1 obtain w s3 where "s2 = w # s3" by (cases s2) auto
          with False two three 1(2) a s s1 IH [of s3] show ?thesis by simp
        qed
      qed
    qed
  qed (simp add: assms(2))
qed

lemma from_utf8_Inr: "from_utf8 b = Inr s \<longleftrightarrow> utf8_valid b \<and> b = as_bytes s"
  by (auto simp: from_utf8_def)

end
