(* ===== verification/Derivations.thy ===== *)
theory Derivations
  imports Content_Address Derivation_Inputs Utf8
begin

text \<open>
  \<open>harmonia-store-core/src/derivation\<close> (\<open>derivation_output.rs\<close>, \<open>basic_derivation.rs\<close>) and \<open>placeholder.rs\<close>: outputs of
  derivations, derivations and their JSON form, and the placeholders for paths that are not known yet. The JSON of a record is
  the record (\<open>RawDerivationOutput\<close>, \<open>DerivationHelper\<close>), from which serde derives the text; a JSON object is a type variable.

  The facts: a derivation is read back from its JSON form; a placeholder is made for every derived path, but for those at a
  derivation whose whole name is \<open>.drv\<close>, where the code panics.
\<close>

section \<open>Outputs\<close>

definition output_path_name :: "StorePathName \<Rightarrow> OutputName \<Rightarrow> string" where
  "output_path_name drv_name output_name =
     (if output_is_default output_name then name_str drv_name else name_str drv_name @ ''-'' @ out_str output_name)"

record RawDerivationOutput =
  raw_path :: "StorePath option"
  raw_hash :: "Hash option"
  raw_method :: "ContentAddressMethod option"
  raw_hash_algo :: "Algorithm option"
  raw_impure :: bool

definition no_raw :: RawDerivationOutput where
  "no_raw = \<lparr>raw_path = None, raw_hash = None, raw_method = None, raw_hash_algo = None, raw_impure = False\<rparr>"

datatype DerivationOutput =
    InputAddressed StorePath
  | CAFixed ContentAddress
  | Deferred
  | CAFloating ContentAddressMethodAlgorithm
  | Impure ContentAddressMethodAlgorithm

fun output_serialize :: "DerivationOutput \<Rightarrow> RawDerivationOutput option" where
  "output_serialize (InputAddressed path) = Some (no_raw\<lparr>raw_path := Some path\<rparr>)"
| "output_serialize (CAFixed ca) =
     map_option (\<lambda>h. no_raw\<lparr>raw_hash := Some h, raw_method := Some (ca_method ca)\<rparr>) (ca_hash ca)"
| "output_serialize Deferred = Some no_raw"
| "output_serialize (CAFloating m) =
     Some (no_raw\<lparr>raw_method := Some (ma_method m), raw_hash_algo := Some (ma_algorithm m)\<rparr>)"
| "output_serialize (Impure m) =
     Some (no_raw\<lparr>raw_method := Some (ma_method m), raw_hash_algo := Some (ma_algorithm m), raw_impure := True\<rparr>)"

datatype DeError = MissingField string | InvalidContentAddress ParseHashErrorKind | UnsupportedVersion nat | InvalidDerivationName StorePathNameError

definition output_deserialize :: "RawDerivationOutput \<Rightarrow> (DeError + DerivationOutput) option" where
  "output_deserialize raw =
     (case raw_path raw of
        Some path \<Rightarrow> Some (Inr (InputAddressed path))
      | None \<Rightarrow>
     (case raw_hash raw of
        Some hash \<Rightarrow>
          (case raw_method raw of
             None \<Rightarrow> Some (Inl (MissingField ''method''))
           | Some meth \<Rightarrow> map_option (\<lambda>r. result_map CAFixed (result_map_err InvalidContentAddress r)) (ca_from_hash meth hash))
      | None \<Rightarrow>
     (case raw_method raw of
        Some meth \<Rightarrow>
          (case raw_hash_algo raw of
             None \<Rightarrow> Some (Inl (MissingField ''hashAlgo''))
           | Some algo \<Rightarrow>
               let m = (case meth of MText \<Rightarrow> AText | MFlat \<Rightarrow> AFlat algo | MRecursive \<Rightarrow> ARecursive algo)
               in if raw_impure raw then Some (Inr (Impure m)) else Some (Inr (CAFloating m)))
      | None \<Rightarrow> Some (Inr Deferred))))"

definition drv_output_path ::
  "Codecs \<Rightarrow> ('m, 'r) Crates \<Rightarrow> DerivationOutput \<Rightarrow> StoreDir \<Rightarrow> StorePathName \<Rightarrow> OutputName
     \<Rightarrow> (StorePathNameError + StorePath option) option" where
  "drv_output_path cs K out d drv_name output_name =
     (case out of
        InputAddressed p \<Rightarrow> Some (Inr (Some p))
      | CAFixed ca \<Rightarrow>
          (case name_from_str (output_path_name drv_name output_name) of
             Inl e \<Rightarrow> Some (Inl e)
           | Inr name \<Rightarrow> map_option (\<lambda>p. Inr (Some p)) (make_store_path_from_ca cs K d name ca))
      | _ \<Rightarrow> Some (Inr None))"

section \<open>Derivations\<close>

record ('i, 'j) DerivationT =
  dv_name :: StorePathName
  dv_outputs :: "(OutputName \<times> DerivationOutput) list"
  dv_inputs :: 'i
  dv_platform :: bytes
  dv_builder :: bytes
  dv_args :: "bytes list"
  dv_env :: "(bytes \<times> bytes) list"
  dv_structured_attrs :: "'j option"

type_synonym 'j BasicDerivation = "(StorePath list, 'j) DerivationT"
type_synonym 'j Derivation = "(SingleDerivedPath list, 'j) DerivationT"

definition derivation_new :: "StorePathName \<Rightarrow> bytes \<Rightarrow> bytes \<Rightarrow> 'j Derivation" where
  "derivation_new name platform builder =
     \<lparr>dv_name = name, dv_outputs = [], dv_inputs = [], dv_platform = platform, dv_builder = builder, dv_args = [], dv_env = [],
      dv_structured_attrs = None\<rparr>"

definition default_version :: nat where
  "default_version = 4"

text \<open>The outputs of the helper are in their raw form, since the object that is written and read has them so.\<close>

record 'j DerivationHelper =
  dh_name :: string
  dh_outputs :: "(OutputName \<times> RawDerivationOutput) list"
  dh_inputs :: DerivationInputs
  dh_platform :: string
  dh_builder :: string
  dh_args :: "string list"
  dh_env :: "(string \<times> string) list"
  dh_structured_attrs :: "'j option"
  dh_version :: nat

datatype Utf8In = InPlatform | InBuilder | InArgs | InEnv

text \<open>\<open>collect\<close> of results into a vector or a map: the first error, or the values in order. \<open>traverse\<close> is for values that may panic.\<close>

fun collect_results :: "('a \<Rightarrow> 'e + 'b) \<Rightarrow> 'a list \<Rightarrow> 'e + 'b list" where
  "collect_results f [] = Inr []"
| "collect_results f (x # xs) = result_bind (f x) (\<lambda>y. result_map ((#) y) (collect_results f xs))"

fun traverse :: "('a \<Rightarrow> 'b option) \<Rightarrow> 'a list \<Rightarrow> 'b list option" where
  "traverse f [] = Some []"
| "traverse f (x # xs) = Option.bind (f x) (\<lambda>y. map_option ((#) y) (traverse f xs))"

definition env_entry :: "bytes \<times> bytes \<Rightarrow> string + (string \<times> string)" where
  "env_entry e = result_bind (from_utf8 (fst e)) (\<lambda>k. result_map (Pair k) (from_utf8 (snd e)))"

definition derivation_serialize :: "'j Derivation \<Rightarrow> ((Utf8In \<times> string) + 'j DerivationHelper) option" where
  "derivation_serialize d =
     (case result_bind (result_map_err (Pair InPlatform) (from_utf8 (dv_platform d))) (\<lambda>platform.
           result_bind (result_map_err (Pair InBuilder) (from_utf8 (dv_builder d))) (\<lambda>builder.
           result_bind (result_map_err (Pair InArgs) (collect_results from_utf8 (dv_args d))) (\<lambda>args.
           result_map (\<lambda>env. (platform, builder, args, fold (\<lambda>(k, v). map_insert k v) env []))
             (result_map_err (Pair InEnv) (collect_results env_entry (dv_env d)))))) of
        Inl e \<Rightarrow> Some (Inl e)
      | Inr (platform, builder, args, env) \<Rightarrow>
          map_option (\<lambda>outputs. Inr
            \<lparr>dh_name = name_str (dv_name d), dh_outputs = outputs, dh_inputs = inputs_of_paths (dv_inputs d),
             dh_platform = platform, dh_builder = builder, dh_args = args, dh_env = env,
             dh_structured_attrs = dv_structured_attrs d, dh_version = default_version\<rparr>)
          (traverse (\<lambda>(n, out). map_option (Pair n) (output_serialize out)) (dv_outputs d)))"

fun read_outputs :: "(OutputName \<times> RawDerivationOutput) list \<Rightarrow> (DeError + (OutputName \<times> DerivationOutput) list) option" where
  "read_outputs [] = Some (Inr [])"
| "read_outputs ((n, raw) # es) =
     (case output_deserialize raw of
        None \<Rightarrow> None
      | Some (Inl e) \<Rightarrow> Some (Inl e)
      | Some (Inr out) \<Rightarrow> map_option (result_map ((#) (n, out))) (read_outputs es))"

definition derivation_deserialize :: "'j DerivationHelper \<Rightarrow> (DeError + 'j Derivation) option" where
  "derivation_deserialize h =
     (case read_outputs (dh_outputs h) of
        None \<Rightarrow> None
      | Some (Inl e) \<Rightarrow> Some (Inl e)
      | Some (Inr outputs) \<Rightarrow>
          Some (if dh_version h \<noteq> 4 then Inl (UnsupportedVersion (dh_version h))
            else result_map (\<lambda>name.
              \<lparr>dv_name = name, dv_outputs = outputs, dv_inputs = paths_of_inputs (dh_inputs h), dv_platform = as_bytes (dh_platform h),
               dv_builder = as_bytes (dh_builder h), dv_args = map as_bytes (dh_args h),
               dv_env = fold (\<lambda>(k, v). map_insert (as_bytes k) (as_bytes v)) (dh_env h) [], dv_structured_attrs = dh_structured_attrs h\<rparr>)
              (result_map_err InvalidDerivationName (name_from_str (dh_name h)))))"

section \<open>Placeholders\<close>

datatype Placeholder = Placeholder (ph_hash: bytes)

datatype StorePathOrPlaceholder = PStorePath StorePath | PPlaceholder Placeholder

definition ph_render :: "Codecs \<Rightarrow> Placeholder \<Rightarrow> string" where
  "ph_render cs p = ''/'' @ encode_string (nix_base32 cs) (ph_hash p)"

definition spp_display :: "Codecs \<Rightarrow> StoreDir \<Rightarrow> StorePathOrPlaceholder \<Rightarrow> string option" where
  "spp_display cs d x = (case x of PStorePath p \<Rightarrow> store_dir_display cs d p | PPlaceholder p \<Rightarrow> Some (ph_render cs p))"

definition sha256_hash :: "('m, 'r) Crates \<Rightarrow> bytes \<Rightarrow> bytes option" where
  "sha256_hash K b = map_option sha256_bytes (sha256_digest K b)"

definition standard_output :: "('m, 'r) Crates \<Rightarrow> OutputName \<Rightarrow> Placeholder option" where
  "standard_output K output_name = map_option Placeholder (sha256_hash K (as_bytes (''nix-output:'' @ out_str output_name)))"

definition strip_drv :: "string \<Rightarrow> string" where
  "strip_drv s = (if suffix ''.drv'' s then take (length s - 4) s else s)"

definition ca_output :: "Codecs \<Rightarrow> ('m, 'r) Crates \<Rightarrow> StorePath \<Rightarrow> OutputName \<Rightarrow> Placeholder option" where
  "ca_output cs K drv_path output_name =
     (case name_from_str (strip_drv (name_str (sp_name drv_path))) of
        Inl _ \<Rightarrow> None
      | Inr drv_name \<Rightarrow>
          (case sph_display cs (sp_hash drv_path) of
             None \<Rightarrow> None
           | Some h \<Rightarrow>
               map_option Placeholder
                 (sha256_hash K (as_bytes (''nix-upstream-output:'' @ h @ '':'' @ output_path_name drv_name output_name)))))"

definition compress_hash :: "bytes \<Rightarrow> nat \<Rightarrow> bytes" where
  "compress_hash hash new_size =
     (if hash = [] then []
      else foldl (\<lambda>result (i, byte). result[i mod new_size := result ! (i mod new_size) XOR byte])
        (replicate new_size 0) (enumerate 0 hash))"

definition dynamic_output :: "Codecs \<Rightarrow> ('m, 'r) Crates \<Rightarrow> Placeholder \<Rightarrow> OutputName \<Rightarrow> Placeholder option" where
  "dynamic_output cs K p output_name =
     (let compressed_str = encode_string (nix_base32 cs) (compress_hash (ph_hash p) 20)
      in map_option Placeholder (sha256_hash K (as_bytes (''nix-computed-output:'' @ compressed_str @ '':'' @ out_str output_name))))"

definition ph_output :: "Codecs \<Rightarrow> ('m, 'r) Crates \<Rightarrow> StorePathOrPlaceholder \<Rightarrow> OutputName \<Rightarrow> Placeholder option" where
  "ph_output cs K drv output_name =
     (case drv of PStorePath p \<Rightarrow> ca_output cs K p output_name | PPlaceholder p \<Rightarrow> dynamic_output cs K p output_name)"

fun spp_from_path :: "Codecs \<Rightarrow> ('m, 'r) Crates \<Rightarrow> SingleDerivedPath \<Rightarrow> StorePathOrPlaceholder option" where
  "spp_from_path cs K (SOpaque p) = Some (PStorePath p)"
| "spp_from_path cs K (SBuilt drv_path output) =
     Option.bind (spp_from_path cs K drv_path) (\<lambda>drv. map_option PPlaceholder (ph_output cs K drv output))"

text \<open>\<open>decode_len\<close> panics on a length that no encoding has.\<close>

definition ph_try_from :: "Codecs \<Rightarrow> string \<Rightarrow> (io_error + Placeholder) option" where
  "ph_try_from cs s =
     (case decode_len (length s) of
        None \<Rightarrow> None
      | Some n \<Rightarrow>
          map_option (\<lambda>r. result_map Placeholder (result_map_err (\<lambda>_. IoError InvalidData ''Not valid nix base32 string'') r))
            (decode_mut (nix_base32 cs) s n))"

section \<open>Facts\<close>

lemma as_bytes_less [simp]: "as_bytes s < as_bytes t \<longleftrightarrow> s < t"
proof (induction s arbitrary: t)
  case (Cons c s)
  have "byte_of_char c < byte_of_char d \<longleftrightarrow> c < d" for d
    by (simp add: word_less_nat_alt unat_byte_of_char less_char_def)
  with Cons show ?case by (cases t) auto
qed (case_tac t; simp)

lemma collect_results_all: "list_all (\<lambda>x. f x = Inr (g x)) xs \<Longrightarrow> collect_results f xs = Inr (map g xs)"
  by (induction xs) auto

lemma collect_results_err: "\<not> list_all (\<lambda>x. \<exists>y. f x = Inr y) xs \<Longrightarrow> \<exists>e. collect_results f xs = Inl e"
proof (induction xs)
  case (Cons x xs)
  then show ?case by (cases "f x") auto
qed simp

definition output_ok :: "DerivationOutput \<Rightarrow> bool" where
  "output_ok out = (case out of CAFixed ca \<Rightarrow> ca_ok ca | _ \<Rightarrow> True)"

lemma ca_from_hash_method: "ca_ok ca \<Longrightarrow> \<exists>h. ca_hash ca = Some h \<and> ca_from_hash (ca_method ca) h = Some (Inr ca)"
  using hash_of_sha256_ok by (cases ca) (fastforce simp: ca_ok_def ca_from_hash_def)+

lemma output_from_serialized:
  assumes "output_ok out"
  shows "\<exists>raw. output_serialize out = Some raw \<and> output_deserialize raw = Some (Inr out)"
proof (cases out)
  case (CAFixed ca)
  then obtain h where "ca_hash ca = Some h" "ca_from_hash (ca_method ca) h = Some (Inr ca)"
    using assms ca_from_hash_method by (auto simp: output_ok_def)
  with CAFixed show ?thesis by (simp add: output_deserialize_def no_raw_def)
next
  case (CAFloating m)
  then show ?thesis by (cases m) (simp_all add: output_deserialize_def no_raw_def)
next
  case (Impure m)
  then show ?thesis by (cases m) (simp_all add: output_deserialize_def no_raw_def)
qed (simp_all add: output_deserialize_def no_raw_def)

lemma outputs_from_serialized:
  "list_all (\<lambda>e. output_ok (snd e)) es \<Longrightarrow>
   \<exists>raws. traverse (\<lambda>(n, out). map_option (Pair n) (output_serialize out)) es = Some raws \<and> read_outputs raws = Some (Inr es)"
proof (induction es)
  case (Cons e es)
  then obtain raws raw where
    "traverse (\<lambda>(n, out). map_option (Pair n) (output_serialize out)) es = Some raws" "read_outputs raws = Some (Inr es)"
    "output_serialize (snd e) = Some raw" "output_deserialize raw = Some (Inr (snd e))"
    using output_from_serialized [of "snd e"] by auto
  then show ?case by (cases e) (auto split: prod.splits)
qed simp

definition derivation_ok :: "'j Derivation \<Rightarrow> bool" where
  "derivation_ok d \<longleftrightarrow> name_ok (name_str (dv_name d)) \<and> list_all (\<lambda>e. output_ok (snd e)) (dv_outputs d) \<and> btree_set (dv_inputs d) \<and>
     btree_map (dv_env d)"

definition derivation_utf8 :: "'j Derivation \<Rightarrow> bool" where
  "derivation_utf8 d \<longleftrightarrow> utf8_valid (dv_platform d) \<and> utf8_valid (dv_builder d) \<and> list_all utf8_valid (dv_args d) \<and>
     list_all (\<lambda>e. utf8_valid (fst e) \<and> utf8_valid (snd e)) (dv_env d)"

abbreviation text_entry :: "bytes \<times> bytes \<Rightarrow> string \<times> string" where
  "text_entry e \<equiv> (from_utf8_unchecked (fst e), from_utf8_unchecked (snd e))"

lemma env_entry_Inr: "(\<exists>y. env_entry e = Inr y) \<longleftrightarrow> utf8_valid (fst e) \<and> utf8_valid (snd e)"
  by (simp add: env_entry_def from_utf8_def)

lemma env_texts_sorted: "btree_map es \<Longrightarrow> btree_map (map text_entry es)"
proof -
  have "from_utf8_unchecked a < from_utf8_unchecked b \<longleftrightarrow> a < b" for a b
    using as_bytes_less [of "from_utf8_unchecked a" "from_utf8_unchecked b"] by simp
  then show "btree_map es \<Longrightarrow> btree_map (map text_entry es)" by (simp add: sorted_wrt_map)
qed

lemma env_from_texts:
  assumes "btree_map es"
  shows "fold (\<lambda>(k, v). map_insert (as_bytes k) (as_bytes v)) (map text_entry es) [] = es"
proof -
  have "fold (\<lambda>(k, v). map_insert (as_bytes k) (as_bytes v)) (map text_entry es) c = fold (\<lambda>(k, v). map_insert k v) es c" for c
    by (induction es arbitrary: c) (auto split: prod.splits)
  then show ?thesis using fold_map_insert [of "[]" es] assms by simp
qed

lemma derivation_serialize_utf8:
  assumes "derivation_ok d" "derivation_utf8 d"
  shows "\<exists>raws. derivation_serialize d = Some (Inr
    \<lparr>dh_name = name_str (dv_name d), dh_outputs = raws, dh_inputs = inputs_of_paths (dv_inputs d),
     dh_platform = from_utf8_unchecked (dv_platform d), dh_builder = from_utf8_unchecked (dv_builder d),
     dh_args = map from_utf8_unchecked (dv_args d), dh_env = map text_entry (dv_env d),
     dh_structured_attrs = dv_structured_attrs d, dh_version = default_version\<rparr>) \<and> read_outputs raws = Some (Inr (dv_outputs d))"
proof -
  obtain raws where raws: "traverse (\<lambda>(n, out). map_option (Pair n) (output_serialize out)) (dv_outputs d) = Some raws"
    "read_outputs raws = Some (Inr (dv_outputs d))" using outputs_from_serialized assms by (auto simp: derivation_ok_def)
  have "collect_results from_utf8 (dv_args d) = Inr (map from_utf8_unchecked (dv_args d))"
    using assms by (intro collect_results_all) (auto simp: derivation_utf8_def from_utf8_def list_all_iff)
  moreover have "collect_results env_entry (dv_env d) = Inr (map text_entry (dv_env d))"
    using assms by (intro collect_results_all) (auto simp: derivation_utf8_def env_entry_def from_utf8_def list_all_iff)
  moreover have "fold (\<lambda>(k, v). map_insert k v) (map text_entry (dv_env d)) [] = map text_entry (dv_env d)"
    using fold_map_insert [of "[]" "map text_entry (dv_env d)"] env_texts_sorted assms by (simp add: derivation_ok_def)
  ultimately show ?thesis
    using assms raws by (simp add: derivation_serialize_def derivation_utf8_def from_utf8_def)
qed

lemma derivation_serialize_invalid:
  assumes "\<not> derivation_utf8 d"
  shows "\<exists>e. derivation_serialize d = Some (Inl e)"
proof -
  have args: "\<exists>e. collect_results from_utf8 (dv_args d) = Inl e" if "\<not> list_all utf8_valid (dv_args d)"
    using that by (intro collect_results_err) (simp add: from_utf8_def list_all_iff)
  have env: "\<exists>e. collect_results env_entry (dv_env d) = Inl e"
    if "\<not> list_all (\<lambda>e. utf8_valid (fst e) \<and> utf8_valid (snd e)) (dv_env d)"
    using that by (intro collect_results_err) (simp only: env_entry_Inr not_False_eq_True)
  consider "\<not> utf8_valid (dv_platform d)" | "utf8_valid (dv_platform d)" "\<not> utf8_valid (dv_builder d)"
    | "utf8_valid (dv_platform d)" "utf8_valid (dv_builder d)" "\<not> list_all utf8_valid (dv_args d)"
    | "utf8_valid (dv_platform d)" "utf8_valid (dv_builder d)" "\<not> list_all (\<lambda>e. utf8_valid (fst e) \<and> utf8_valid (snd e)) (dv_env d)"
    using assms by (auto simp: derivation_utf8_def)
  then show ?thesis
  proof cases
    case 3
    with args show ?thesis by (auto simp: derivation_serialize_def from_utf8_def)
  next
    case 4
    with env show ?thesis by (cases "collect_results from_utf8 (dv_args d)") (auto simp: derivation_serialize_def from_utf8_def)
  qed (auto simp: derivation_serialize_def from_utf8_def)
qed

section \<open>Facts about placeholders\<close>

lemma strip_drv_ok: "name_ok s \<Longrightarrow> name_ok (strip_drv s) \<longleftrightarrow> s \<noteq> ''.drv''"
  by (auto simp: strip_drv_def name_ok_def suffix_def)

lemma decode_len_panics: "decode_len n = None \<longleftrightarrow> n mod 8 \<in> {1, 3, 6}"
proof -
  have "n * 5 mod 8 = (n mod 8) * 5 mod 8" by (simp add: mod_mult_left_eq)
  moreover have "n mod 8 < 8" by simp
  then have "n mod 8 \<in> {0, 1, 2, 3, 4, 5, 6, 7}" by (simp, arith)
  moreover have "n mod 8 \<noteq> 0 \<Longrightarrow> n \<noteq> 0" by auto
  ultimately show ?thesis by (auto simp: decode_len_def decode_len_internal_def Let_def)
qed

locale placeholders = data_encoding cs + digest_crates K md5_seen ring_seen ring_alg
  for cs :: Codecs and K :: "('m, 'r) Crates" and md5_seen ring_seen ring_alg
begin

lemma sha256_hash_total: "\<exists>b. sha256_hash K data = Some b \<and> length b = 32"
  using sha256_digest_total [of data] by (auto simp: sha256_hash_def sha256_ok_def)

lemma placeholder_hashed: "\<exists>p. map_option Placeholder (sha256_hash K data) = Some p \<and> length (ph_hash p) = 32"
  using sha256_hash_total [of data] by auto

lemma ca_output_cases:
  assumes "path_ok p"
  shows "if name_str (sp_name p) = ''.drv'' then ca_output cs K p n = None
    else \<exists>ph. ca_output cs K p n = Some ph \<and> length (ph_hash ph) = 32"
proof -
  have n: "name_ok (strip_drv (name_str (sp_name p))) \<longleftrightarrow> name_str (sp_name p) \<noteq> ''.drv''"
    using assms strip_drv_ok by (simp add: path_ok_def)
  have i: "into_name s = Inr s \<longleftrightarrow> name_ok s" "\<not> name_ok s \<Longrightarrow> \<exists>e. into_name s = Inl e" for s
    using into_name_Inr [of s] by (auto, cases "into_name s") auto
  have "sph_display cs (sp_hash p) = Some (base_encode cs NixBase32 (sph_bytes (sp_hash p)))"
    using assms by (simp add: sph_display_eq path_ok_def)
  note h = this
  show ?thesis
  proof (cases "name_str (sp_name p) = ''.drv''")
    case True
    with n i(2) obtain e where "into_name (strip_drv ''.drv'') = Inl e" by auto
    with True show ?thesis by (simp add: ca_output_def name_from_str_def)
  next
    case False
    with n i(1) have "into_name (strip_drv (name_str (sp_name p))) = Inr (strip_drv (name_str (sp_name p)))" by blast
    with False h show ?thesis using placeholder_hashed by (simp add: ca_output_def name_from_str_def)
  qed
qed

text \<open>A placeholder is made, unless the root of the chain is a path whose whole name is the suffix.\<close>

lemma spp_from_path_cases:
  "single_ok d \<Longrightarrow> case d of SOpaque p \<Rightarrow> spp_from_path cs K d = Some (PStorePath p)
   | SBuilt _ _ \<Rightarrow> if name_str (sp_name (root_path d)) = ''.drv'' then spp_from_path cs K d = None
      else \<exists>ph. spp_from_path cs K d = Some (PPlaceholder ph) \<and> length (ph_hash ph) = 32"
proof (induction d)
  case (SBuilt d n)
  show ?case
  proof (cases d)
    case (SOpaque p)
    with SBuilt.prems ca_output_cases [of p n] show ?thesis by (auto simp: ph_output_def)
  next
    case (SBuilt d' n')
    note d = this
    show ?thesis
    proof (cases "name_str (sp_name (root_path d)) = ''.drv''")
      case True
      with SBuilt.IH SBuilt.prems d have "spp_from_path cs K d = None" by simp
      with True show ?thesis by simp
    next
      case False
      with SBuilt.IH SBuilt.prems d obtain ph where "spp_from_path cs K d = Some (PPlaceholder ph)" by auto
      with False show ?thesis using placeholder_hashed by (simp add: ph_output_def dynamic_output_def Let_def)
    qed
  qed
qed simp

lemma ph_from_render: "ph_try_from cs (drop 1 (ph_render cs p)) = Some (Inr p)"
  using decode_for_base_encode [of NixBase32 "ph_hash p"] base_encode_length [of NixBase32 "ph_hash p"]
    decode_len_encode_len [of "length (ph_hash p)"]
  by (simp add: ph_try_from_def ph_render_def encode_string_def b32.encode_length b32_encode_len encode_len_def)

lemma ph_try_from_panics: "ph_try_from cs s = None \<longleftrightarrow> length s mod 8 \<in> {1, 3, 6}"
proof (cases "decode_len (length s)")
  case None
  then show ?thesis using decode_len_panics [of "length s"] by (simp add: ph_try_from_def)
next
  case (Some n)
  then have l: "codec_decode_len (nix_base32 cs) (length (rev s)) = Some n"
    by (auto simp: decode_len_def decode_len_internal_def Let_def b32_decode_len mult.commute split: if_splits)
  then have "\<exists>r. decode_mut (nix_base32 cs) s n = Some r"
    using b32.error_position [OF l]
    by (cases "codec_decode (nix_base32 cs) (rev s)") (auto simp: decode_mut_def codec_decode_mut_def Let_def not_less Suc_le_eq)
  with Some decode_len_panics [of "length s"] show ?thesis by (auto simp: ph_try_from_def)
qed

end

interpretation plain_placeholders: placeholders bit_codecs plain_crates "\<lambda>m. m" snd fst
  by unfold_locales

section \<open>Properties\<close>

text \<open>
  C33. The JSON form of a derivation: serialisation never panics, fails exactly if the platform, the builder, an argument or
  the environment is not UTF-8, and what it writes is read back to the same derivation, with its outputs of all five kinds, its set of
  nested inputs (which go through the trie) and its environment.
\<close>

theorem derivation_json_roundtrip:
  assumes "derivation_ok d"
  shows "(derivation_utf8 d \<longrightarrow> (\<exists>h. derivation_serialize d = Some (Inr h) \<and> derivation_deserialize h = Some (Inr d))) \<and>
    (\<not> derivation_utf8 d \<longrightarrow> (\<exists>e. derivation_serialize d = Some (Inl e)))"
proof (intro conjI impI)
  assume u: "derivation_utf8 d"
  have "name_from_str (name_str (dv_name d)) = Inr (dv_name d)"
    using assms into_name_Inr [of "name_str (dv_name d)" "name_str (dv_name d)"] by (simp add: derivation_ok_def name_from_str_def)
  moreover have "map_ok (drvs (inputs_of_paths (dv_inputs d)))" "paths_of_inputs (inputs_of_paths (dv_inputs d)) = dv_inputs d"
    using assms paths_of_trie by (simp_all add: derivation_ok_def)
  ultimately show "\<exists>h. derivation_serialize d = Some (Inr h) \<and> derivation_deserialize h = Some (Inr d)"
    using derivation_serialize_utf8 [OF assms u] assms env_from_texts [of "dv_env d"]
    by (auto simp: derivation_deserialize_def default_version_def comp_def derivation_ok_def)
qed (rule derivation_serialize_invalid)

theorem derivation_json_roundtrip_witness:
  "let p = \<lparr>sp_hash = StorePathHash [1], sp_name = StorePathName ''a.drv''\<rparr>;
       d = (derivation_new (StorePathName ''hello'') (as_bytes ''x86_64-linux'') (as_bytes ''/bin/sh'') :: bool Derivation)
         \<lparr>dv_outputs := [(OutputName ''out'', Deferred)], dv_inputs := [SBuilt (SOpaque p) (OutputName ''out''), SOpaque p]\<rparr>
   in \<exists>h. derivation_serialize d = Some (Inr h) \<and> derivation_deserialize h = Some (Inr d)"
proof -
  let ?p = "\<lparr>sp_hash = StorePathHash [1], sp_name = StorePathName ''a.drv''\<rparr>"
  let ?d = "(derivation_new (StorePathName ''hello'') (as_bytes ''x86_64-linux'') (as_bytes ''/bin/sh'') :: bool Derivation)
    \<lparr>dv_outputs := [(OutputName ''out'', Deferred)], dv_inputs := [SBuilt (SOpaque ?p) (OutputName ''out''), SOpaque ?p]\<rparr>"
  have "derivation_ok ?d"
    by (simp add: derivation_ok_def derivation_new_def output_ok_def less_SingleDerivedPath_def name_ok_def MAX_NAME_LEN_def NAME_LOOKUP_def in_range_def)
  moreover have "derivation_utf8 ?d"
    unfolding derivation_utf8_def by (simp add: derivation_new_def utf8_ascii del: as_bytes_simps)
  ultimately show ?thesis using derivation_json_roundtrip [of ?d] unfolding Let_def by blast
qed

text \<open>
  Placeholders: the conversion of a derived path to a store path or placeholder panics exactly if the path is an output of a
  derivation (at any depth) whose whole name is \<open>.drv\<close>, and otherwise gives the path itself or a
  placeholder of 32 bytes; a rendered placeholder without its slash is read back; and the reader of placeholders panics
  exactly on the lengths that no base32 text has, instead of returning its error.
\<close>

theorem placeholder_of_path:
  assumes "placeholders cs K md5_seen ring_seen ring_alg" "single_ok d"
  shows "(spp_from_path cs K d = None \<longleftrightarrow> (\<exists>d' n. d = SBuilt d' n) \<and> name_str (sp_name (root_path d)) = ''.drv'') \<and>
    (\<forall>p. spp_from_path cs K d = Some (PPlaceholder p) \<longrightarrow> length (ph_hash p) = 32) \<and>
    (\<forall>p. ph_try_from cs (drop 1 (ph_render cs p)) = Some (Inr p)) \<and>
    (\<forall>s. ph_try_from cs s = None \<longleftrightarrow> length s mod 8 \<in> {1, 3, 6})"
  using placeholders.spp_from_path_cases [OF assms] placeholders.ph_from_render [OF assms(1)] placeholders.ph_try_from_panics [OF assms(1)]
  by (cases d) (auto split: if_splits)

theorem placeholder_of_path_witness:
  "let p = \<lparr>sp_hash = StorePathHash (replicate 20 7), sp_name = StorePathName ''.drv''\<rparr>
   in spp_from_path bit_codecs plain_crates (SBuilt (SOpaque p) (OutputName ''out'')) = None"
proof -
  let ?p = "\<lparr>sp_hash = StorePathHash (replicate 20 7), sp_name = StorePathName ''.drv''\<rparr>"
  have "single_ok (SBuilt (SOpaque ?p) (OutputName ''out''))"
    by (simp add: path_ok_def out_ok_def name_ok_def STORE_PATH_HASH_SIZE_def MAX_NAME_LEN_def NAME_LOOKUP_def in_range_def)
  from placeholder_of_path [OF plain_placeholders.placeholders_axioms this] show ?thesis by simp
qed

end
