(* ===== verification/Framed_Reader.thy ===== *)
theory Framed_Reader
  imports Nar_Liveness
begin

text \<open>
  \<open>FramedReader\<close> of \<open>harmonia-protocol/src/daemon_wire/framed/reader.rs\<close>: a payload of unknown length,
  cut into frames. A frame is its length as a \<open>u64\<close> and so many bytes; a frame of length 0 ends the payload.

  The specification is the decoder \<open>unframe\<close> on a whole stream. The facts: on every source
  with the contract of \<open>AsyncBufRead\<close> the reader hands out the payload and
  leaves the source right behind the last frame (\<open>framed_contract\<close>); whoever reads it to its end has
  read a well-formed stream (\<open>framed_reads_out\<close>); and \<open>drain_all\<close> returns the length of the payload.
\<close>

section \<open>State and operations\<close>

datatype FramedReadState = FrReadLen TryReadU64 | FrReadData u64 | FrEof

record 'r FramedReader =
  freader :: 'r
  fstate :: FramedReadState

definition framed_new :: "'r \<Rightarrow> 'r FramedReader" where
  "framed_new reader = \<lparr>freader = reader, fstate = FrReadLen u64_new\<rparr>"

function framed_fill ::
  "('r \<Rightarrow> nat \<Rightarrow> ('r, bytes) polled) \<Rightarrow> ('r \<Rightarrow> ('r, bytes) polled) \<Rightarrow> 'r FramedReader \<Rightarrow> ('r FramedReader, bytes) polled" where
  "framed_fill read fill fr =
     (case fstate fr of
        FrReadLen t \<Rightarrow>
          (case u64_poll_reader read t (freader fr) of
             None \<Rightarrow> None
           | Some (t', r, Pending) \<Rightarrow> Some (fr\<lparr>freader := r, fstate := FrReadLen t'\<rparr>, Pending)
           | Some (t', r, Ready (Inl e)) \<Rightarrow> Some (fr\<lparr>freader := r, fstate := FrReadLen t'\<rparr>, Ready (Inl e))
           | Some (t', r, Ready (Inr None)) \<Rightarrow>
               Some (fr\<lparr>freader := r, fstate := FrReadLen t'\<rparr>, Ready (Inl (IoError UnexpectedEof ''EOF in framed reader'')))
           | Some (t', r, Ready (Inr (Some len))) \<Rightarrow>
               framed_fill read fill (fr\<lparr>freader := r, fstate := (if 0 < len then FrReadData len else FrEof)\<rparr>))
      | FrReadData remaining \<Rightarrow>
          (case fill (freader fr) of
             None \<Rightarrow> None
           | Some (r, Pending) \<Rightarrow> Some (fr\<lparr>freader := r\<rparr>, Pending)
           | Some (r, Ready (Inl e)) \<Rightarrow> Some (fr\<lparr>freader := r\<rparr>, Ready (Inl e))
           | Some (r, Ready (Inr buf)) \<Rightarrow>
               if buf = [] then Some (fr\<lparr>freader := r\<rparr>, Ready (Inl (IoError UnexpectedEof ''EOF in framed reader'')))
               else (let amt = min (length buf) (unat remaining)
                     in Some (fr\<lparr>freader := r\<rparr>, Ready (Inr (take amt buf)))))
      | FrEof \<Rightarrow> Some (fr, Ready (Inr [])))"
  by pat_completeness auto
termination
  by (relation "measure (\<lambda>(read, fill, fr). case fstate fr of FrReadLen _ \<Rightarrow> 1 | _ \<Rightarrow> 0)") (auto split: if_splits)

declare framed_fill.simps [simp del]

text \<open>A call in any other state than \<open>ReadData\<close> panics.\<close>

definition framed_consume :: "('r \<Rightarrow> nat \<Rightarrow> 'r option) \<Rightarrow> 'r FramedReader \<Rightarrow> nat \<Rightarrow> 'r FramedReader option" where
  "framed_consume consume fr amt =
     (case fstate fr of
        FrReadData remaining \<Rightarrow>
          if unat remaining < amt then None
          else let remaining' = remaining - word_of_nat amt in
            map_option (\<lambda>r. fr\<lparr>freader := r, fstate := (if remaining' = 0 then FrReadLen u64_new else FrReadData remaining')\<rparr>)
              (consume (freader fr) amt)
      | _ \<Rightarrow> None)"

definition framed_read ::
  "('r \<Rightarrow> nat \<Rightarrow> ('r, bytes) polled) \<Rightarrow> ('r \<Rightarrow> ('r, bytes) polled) \<Rightarrow> ('r \<Rightarrow> nat \<Rightarrow> 'r option) \<Rightarrow>
     'r FramedReader \<Rightarrow> nat \<Rightarrow> ('r FramedReader, bytes) polled" where
  "framed_read read fill consume = poll_read_by_fill (framed_fill read fill) (framed_consume consume)"

text \<open>The future \<open>drain_all\<close>, polled until it is ready.\<close>

partial_function (option) framed_drain ::
  "('r \<Rightarrow> nat \<Rightarrow> ('r, bytes) polled) \<Rightarrow> ('r \<Rightarrow> ('r, bytes) polled) \<Rightarrow> ('r \<Rightarrow> nat \<Rightarrow> 'r option) \<Rightarrow>
     'r FramedReader \<Rightarrow> u64 \<Rightarrow> ('r FramedReader \<times> u64 io_result) option" where
  "framed_drain read fill consume fr drained =
     Option.bind (framed_fill read fill fr) (\<lambda>(fr1, res). case res of
         Pending \<Rightarrow> framed_drain read fill consume fr1 drained
       | Ready x \<Rightarrow> (case x of
           Inl e \<Rightarrow> Some (fr1, Inl e)
         | Inr b \<Rightarrow>
             if b = [] then Some (fr1, Inr drained)
             else Option.bind (framed_consume consume fr1 (length b))
               (\<lambda>fr2. framed_drain read fill consume fr2 (drained + word_of_nat (length b)))))"

definition framed_drain_all ::
  "('r \<Rightarrow> nat \<Rightarrow> ('r, bytes) polled) \<Rightarrow> ('r \<Rightarrow> ('r, bytes) polled) \<Rightarrow> ('r \<Rightarrow> nat \<Rightarrow> 'r option) \<Rightarrow>
     'r FramedReader \<Rightarrow> ('r FramedReader \<times> u64 io_result) option" where
  "framed_drain_all read fill consume fr = framed_drain read fill consume fr 0"

section \<open>The specification\<close>

definition frame :: "bytes \<Rightarrow> bytes" where
  "frame d = to_le_bytes (word_of_nat (length d)) @ d"

definition frames :: "bytes list \<Rightarrow> bytes" where
  "frames ds = concat (map frame ds) @ to_le_bytes 0"

definition frame_ok :: "bytes \<Rightarrow> bool" where
  "frame_ok d \<longleftrightarrow> d \<noteq> [] \<and> length d < 2 ^ 64"

text \<open>The payload of a stream and what follows its last frame, or \<open>None\<close> for a stream that is cut short.\<close>

function unframe :: "bytes \<Rightarrow> (bytes \<times> bytes) option" where
  "unframe s =
     (if length s < 8 then None
      else let n = unat (from_le_bytes (take 8 s)) in
        if n = 0 then Some ([], drop 8 s)
        else if length s < 8 + n then None
        else map_option (apfst (append (take n (drop 8 s)))) (unframe (drop (8 + n) s)))"
  by pat_completeness auto
termination
  by (relation "measure length") auto

declare unframe.simps [simp del]

definition unframe_data :: "nat \<Rightarrow> bytes \<Rightarrow> (bytes \<times> bytes) option" where
  "unframe_data n s =
     (if length s < n then None else map_option (apfst (append (take n s))) (unframe (drop n s)))"

lemma unframe_short: "length s < 8 \<Longrightarrow> unframe s = None"
  by (simp add: unframe.simps)

lemma unframe_len: "unframe (to_le_bytes w @ s) = (if w = 0 then Some ([], s) else unframe_data (unat w) s)"
  by (simp add: unframe.simps [of "to_le_bytes w @ s"] unframe_data_def Let_def unat_eq_0)

lemma unframe_data_append:
  "length d \<le> n \<Longrightarrow> unframe_data n (d @ s) = map_option (apfst (append d)) (unframe_data (n - length d) s)"
  by (auto simp: unframe_data_def option.map_comp comp_def apfst_def map_prod_def case_prod_unfold)

lemma unframe_data_0: "unframe_data 0 s = unframe s"
  by (simp add: unframe_data_def apfst_def map_prod_def option.map_ident case_prod_unfold)

lemma unframe_frames:
  assumes "list_all frame_ok ds"
  shows "unframe (frames ds @ R) = Some (concat ds, R)"
  using assms
proof (induction ds)
  case Nil
  then show ?case by (simp add: frames_def unframe_len)
next
  case (Cons d ds)
  then have d: "unat (word_of_nat (length d) :: u64) = length d" "d \<noteq> []"
    by (simp_all add: frame_ok_def unat_of_nat)
  then have "word_of_nat (length d) \<noteq> (0 :: u64)" by (metis length_0_conv unat_0)
  with d Cons show ?case
    using unframe_data_append [of d "length d" "frames ds @ R"]
    by (simp add: frames_def frame_def unframe_len unframe_data_0)
qed

section \<open>The contract\<close>

text \<open>What the reader's state and the source's stream stand for.\<close>

definition framed_view :: "('r \<Rightarrow> bytes) \<Rightarrow> 'r FramedReader \<Rightarrow> (bytes \<times> bytes) option" where
  "framed_view rest fr =
     (case fstate fr of
        FrReadLen t \<Rightarrow> unframe (u64_seen t @ rest (freader fr))
      | FrReadData n \<Rightarrow> unframe_data (unat n) (rest (freader fr))
      | FrEof \<Rightarrow> Some ([], rest (freader fr)))"

definition framed_avail :: "('r \<Rightarrow> bytes) \<Rightarrow> 'r FramedReader \<Rightarrow> bytes" where
  "framed_avail avail fr =
     (case fstate fr of FrReadData n \<Rightarrow> take (unat n) (avail (freader fr)) | _ \<Rightarrow> [])"

definition framed_ok :: "('r \<Rightarrow> bool) \<Rightarrow> 'r FramedReader \<Rightarrow> bool" where
  "framed_ok good fr \<longleftrightarrow> good (freader fr) \<and>
     (case fstate fr of FrReadLen t \<Rightarrow> u64_ok t | FrReadData n \<Rightarrow> 0 < n | FrEof \<Rightarrow> True)"

definition framed_rest :: "('r \<Rightarrow> bytes) \<Rightarrow> 'r FramedReader \<Rightarrow> bytes" where
  "framed_rest rest fr = (case framed_view rest fr of None \<Rightarrow> [] | Some (d, _) \<Rightarrow> d)"

definition framed_good :: "('r \<Rightarrow> bytes) \<Rightarrow> ('r \<Rightarrow> bool) \<Rightarrow> bytes \<Rightarrow> 'r FramedReader \<Rightarrow> bool" where
  "framed_good rest good tail fr \<longleftrightarrow> framed_ok good fr \<and> (\<exists>d. framed_view rest fr = Some (d, tail))"

lemma framed_new_ok:
  "framed_ok good (framed_new r) \<longleftrightarrow> good r" "framed_view rest (framed_new r) = unframe (rest r)"
  by (simp_all add: framed_ok_def framed_view_def framed_new_def u64_ok_def u64_new_def u64_seen_def)

text \<open>What one fill may answer, on any stream.\<close>

fun framed_post ::
  "(io_error \<Rightarrow> bool) \<Rightarrow> ('r \<Rightarrow> bytes) \<Rightarrow> ('r \<Rightarrow> bytes) \<Rightarrow> (bytes \<times> bytes) option \<Rightarrow> 'r FramedReader \<Rightarrow> bytes io_result poll \<Rightarrow> bool" where
  "framed_post src_err rest avail view fr' Pending \<longleftrightarrow> True"
| "framed_post src_err rest avail view fr' (Ready (Inl e)) \<longleftrightarrow> src_err e \<or> view = None"
| "framed_post src_err rest avail view fr' (Ready (Inr b)) \<longleftrightarrow>
     b = framed_avail avail fr' \<and> (b = [] \<longrightarrow> view = Some ([], rest (freader fr')) \<and> fstate fr' = FrEof)"

locale buf_read = async_read read rest good src_err + buf_source rest good src_err fill consume avail
  for read :: "'r \<Rightarrow> nat \<Rightarrow> ('r, bytes) polled" and rest good src_err fill consume avail
begin

lemma framed_data_spec:
  assumes "good (freader fr)" "fstate fr = FrReadData n" "0 < n"
  shows "\<exists>fr' res. framed_fill read fill fr = Some (fr', res) \<and> (is_err res \<or> framed_ok good fr' \<and>
      length (framed_avail avail fr) \<le> length (framed_avail avail fr')) \<and>
    framed_view rest fr' = framed_view rest fr \<and> framed_post src_err rest avail (framed_view rest fr) fr' res"
  using assms(1)
proof (cases rule: fill_cases)
  case (filled r')
  have n: "0 < unat n" using assms(3) by (simp add: word_less_nat_alt)
  have "unframe_data (unat n) [] = None" using n by (simp add: unframe_data_def)
  with filled assms n show ?thesis
    by (cases "avail r' = []")
      (auto simp: framed_fill.simps [of _ _ fr] framed_view_def framed_avail_def framed_ok_def Let_def min_def)
qed (use assms in \<open>auto simp: framed_fill.simps [of _ _ fr] framed_view_def framed_avail_def framed_ok_def min_def\<close>)

lemma framed_fill_spec:
  assumes "framed_ok good fr"
  shows "\<exists>fr' res. framed_fill read fill fr = Some (fr', res) \<and> (is_err res \<or> framed_ok good fr' \<and>
      length (framed_avail avail fr) \<le> length (framed_avail avail fr')) \<and>
    framed_view rest fr' = framed_view rest fr \<and> framed_post src_err rest avail (framed_view rest fr) fr' res"
proof (cases "fstate fr")
  case (FrReadData n)
  with assms framed_data_spec [of fr n] show ?thesis by (simp add: framed_ok_def)
next
  case FrEof
  with assms show ?thesis
    by (simp add: framed_fill.simps [of _ _ fr] framed_view_def framed_avail_def framed_ok_def)
next
  case (FrReadLen t)
  let ?r = "freader fr"
  from assms FrReadLen have t: "u64_ok t" and g: "good ?r" by (auto simp: framed_ok_def)
  have av: "framed_avail avail fr = []" and view: "framed_view rest fr = unframe (u64_seen t @ rest ?r)"
    using FrReadLen by (auto simp: framed_avail_def framed_view_def)
  obtain t' r res where p: "u64_poll_reader read t ?r = Some (t', r, res)" "u64_ok t'" "is_err res \<or> good r"
    and post: "u64_post src_err (u64_seen t @ rest ?r) (rest r) res"
    and keep: "res = Pending \<or> is_err res \<or> res = Ready (Inr None) \<longrightarrow> u64_seen t' @ rest r = u64_seen t @ rest ?r"
    using u64_poll_reader_spec [OF t g] by blast
  consider "res = Pending" | e where "res = Ready (Inl e)" | "res = Ready (Inr None)"
    | w where "res = Ready (Inr (Some w))"
    by (metis option.exhaust poll.exhaust sum.exhaust)
  then show ?thesis
  proof cases
    case 1
    with p keep view FrReadLen show ?thesis
      by (auto simp: framed_fill.simps [of _ _ fr] framed_view_def framed_avail_def framed_ok_def)
  next
    case (2 e)
    with p keep post view FrReadLen unframe_short show ?thesis
      by (auto simp: framed_fill.simps [of _ _ fr] framed_view_def)
  next
    case 3
    with p keep post view FrReadLen unframe_short [of "[]"] show ?thesis
      by (auto simp: framed_fill.simps [of _ _ fr] framed_view_def)
  next
    case (4 w)
    let ?fr = "fr\<lparr>freader := r, fstate := (if 0 < w then FrReadData w else FrEof)\<rparr>"
    from 4 post have st: "u64_seen t @ rest ?r = to_le_bytes w @ rest r" by simp
    have step: "framed_fill read fill fr = framed_fill read fill ?fr"
      using p 4 FrReadLen by (simp add: framed_fill.simps [of _ _ fr])
    have v: "framed_view rest ?fr = framed_view rest fr"
      unfolding view st unframe_len by (simp add: framed_view_def word_gt_0)
    have g: "good r" using p(3) 4 by simp
    show ?thesis
    proof (cases "0 < w")
      case True
      with framed_data_spec [of ?fr w] g v step av show ?thesis by simp blast
    next
      case False
      have "framed_fill read fill ?fr = Some (?fr, Ready (Inr []))" using False by (simp add: framed_fill.simps)
      with False g v step av show ?thesis
        by (auto simp: framed_ok_def framed_avail_def framed_view_def)
    qed
  qed
qed

lemma framed_avail_prefix:
  assumes "framed_ok good fr" "framed_view rest fr = Some (d, tail)"
  shows "prefix (framed_avail avail fr) d"
proof (cases "fstate fr")
  case (FrReadData n)
  with assms obtain d' where d: "d = take (unat n) (rest (freader fr)) @ d'"
    by (auto simp: framed_view_def unframe_data_def split: if_splits)
  have "prefix (avail (freader fr)) (rest (freader fr))"
    using assms(1) avail_prefix by (simp add: framed_ok_def)
  then have "prefix (take (unat n) (avail (freader fr))) (take (unat n) (rest (freader fr)))"
    by (auto simp: prefix_def)
  with FrReadData d show ?thesis by (simp add: framed_avail_def prefix_prefix)
qed (simp_all add: framed_avail_def)

lemma framed_consume_spec:
  assumes ok: "framed_ok good fr" and ne: "framed_avail avail fr \<noteq> []" and k: "k \<le> length (framed_avail avail fr)"
  shows "\<exists>fr'. framed_consume consume fr k = Some fr' \<and> framed_ok good fr' \<and>
    framed_view rest fr = map_option (apfst (append (take k (framed_avail avail fr)))) (framed_view rest fr') \<and>
    length (framed_avail avail fr') = length (framed_avail avail fr) - k"
proof -
  from ne obtain n where st: "fstate fr = FrReadData n"
    by (auto simp: framed_avail_def split: FramedReadState.splits)
  let ?r = "freader fr"
  from ok st have g: "good ?r" by (simp add: framed_ok_def)
  have kn: "k \<le> unat n" and ka: "k \<le> length (avail ?r)" using k st by (auto simp: framed_avail_def)
  obtain r where r: "consume ?r k = Some r" "good r" "rest r = drop k (rest ?r)"
      "length (avail r) = length (avail ?r) - k"
    using consume_law [OF g ka] by blast
  have d: "rest ?r = take k (avail ?r) @ rest r" and t: "length (take k (avail ?r)) = k"
    using avail_prefix [OF g] ka r(3) by (auto simp: prefix_def)
  have u: "unat (n - word_of_nat k) = unat n - k"
    using kn unat_u64_less [of n] by (simp add: unat_sub_if' unat_of_nat)
  let ?fr = "fr\<lparr>freader := r, fstate := (if n - word_of_nat k = 0 then FrReadLen u64_new else FrReadData (n - word_of_nat k))\<rparr>"
  have "framed_consume consume fr k = Some ?fr" using st kn r(1) by (simp add: framed_consume_def Let_def not_less)
  moreover have "framed_ok good ?fr"
    using r(2) by (auto simp: framed_ok_def u64_ok_def u64_new_def word_gt_0)
  moreover have "framed_view rest ?fr = unframe_data (unat n - k) (rest r)"
  proof (cases "n - word_of_nat k = 0")
    case True
    then have "unat n - k = 0" using u by (metis unat_0)
    with True show ?thesis by (simp add: framed_view_def u64_seen_def u64_new_def unframe_data_0)
  qed (simp add: framed_view_def u)
  moreover have "framed_view rest fr = map_option (apfst (append (take k (avail ?r)))) (unframe_data (unat n - k) (rest r))"
    using unframe_data_append [of "take k (avail ?r)" "unat n" "rest r"] t kn d st by (simp add: framed_view_def)
  moreover have "take k (framed_avail avail fr) = take k (avail ?r)" using st kn by (simp add: framed_avail_def min_def)
  moreover have "length (framed_avail avail ?fr) = length (framed_avail avail fr) - k"
  proof (cases "n - word_of_nat k = 0")
    case True
    then have "unat n - k = 0" using u by (metis unat_0)
    with True st show ?thesis by (simp add: framed_avail_def)
  next
    case False
    with st r(4) show ?thesis by (simp add: framed_avail_def u)
  qed
  ultimately show ?thesis by metis
qed

lemma framed_contract:
  "fill_source (framed_rest rest) (framed_good rest good tail) src_err
     (framed_fill read fill) (framed_consume consume) (framed_avail avail)"
proof
  show "framed_good rest good tail fr \<Longrightarrow> prefix (framed_avail avail fr) (framed_rest rest fr)" for fr
    using framed_avail_prefix by (auto simp: framed_good_def framed_rest_def)
  show "\<exists>fr' res. framed_fill read fill fr = Some (fr', res) \<and>
      (is_err res \<or> framed_good rest good tail fr' \<and> length (framed_avail avail fr) \<le> length (framed_avail avail fr')) \<and>
      framed_rest rest fr' = framed_rest rest fr \<and> fill_post src_err (framed_rest rest fr) (framed_avail avail fr') res"
    if g: "framed_good rest good tail fr" for fr
  proof -
    obtain d where ok: "framed_ok good fr" and d: "framed_view rest fr = Some (d, tail)"
      using g by (auto simp: framed_good_def)
    obtain fr' res where f: "framed_fill read fill fr = Some (fr', res)"
      and o: "is_err res \<or> framed_ok good fr' \<and> length (framed_avail avail fr) \<le> length (framed_avail avail fr')"
      and v: "framed_view rest fr' = framed_view rest fr" and p: "framed_post src_err rest avail (framed_view rest fr) fr' res"
      using framed_fill_spec [OF ok] by blast
    consider "res = Pending" | e where "res = Ready (Inl e)" | b where "res = Ready (Inr b)"
      by (metis poll.exhaust sum.exhaust)
    then have "fill_post src_err (framed_rest rest fr) (framed_avail avail fr') res"
      by cases (use p d in \<open>auto simp: framed_rest_def\<close>)
    with f o v d show ?thesis by (auto simp: framed_good_def framed_rest_def)
  qed
  show "\<exists>fr'. framed_consume consume fr n = Some fr' \<and> framed_good rest good tail fr' \<and>
      framed_rest rest fr' = drop n (framed_rest rest fr) \<and>
      length (framed_avail avail fr') = length (framed_avail avail fr) - n"
    if "framed_good rest good tail fr" "framed_avail avail fr \<noteq> []" "n \<le> length (framed_avail avail fr)" for fr n
    using that framed_consume_spec [of fr n] by (fastforce simp: framed_good_def framed_rest_def)
qed

text \<open>On any stream: a client that gets to the end has read the payload of a well-formed stream.\<close>

lemma framed_reads_out:
  "reads_out (framed_fill read fill) (framed_consume consume) fr d fr' \<Longrightarrow> framed_ok good fr \<Longrightarrow>
     framed_view rest fr = Some (d, rest (freader fr')) \<and> good (freader fr')"
proof (induction rule: reads_out.induct)
  case (eof fr fr')
  then show ?case using framed_fill_spec [of fr] by (auto simp: framed_ok_def)
next
  case (wait fr fr1 d fr')
  then show ?case using framed_fill_spec [of fr] by auto
next
  case (data fr fr1 b n fr2 d fr')
  have b: "framed_ok good fr1" "framed_view rest fr1 = framed_view rest fr" "b = framed_avail avail fr1"
    using framed_fill_spec [OF data.prems] data.hyps(1) by auto
  obtain fr3 where "framed_consume consume fr1 n = Some fr3" "framed_ok good fr3"
    "framed_view rest fr1 = map_option (apfst (append (take n b))) (framed_view rest fr3)"
    using framed_consume_spec [OF b(1), of n] data.hyps(2,4) b(3) by auto
  with data b show ?case by auto
qed

end

section \<open>The reader is patient, and \<open>drain_all\<close> ends\<close>

locale patient_buf = buf_read read rest good src_err fill consume avail +
  patient_source rest good src_err fill consume avail delay
  for read :: "'r \<Rightarrow> nat \<Rightarrow> ('r, bytes) polled" and rest good src_err fill consume avail delay +
  assumes read_delay: "read r cap = Some (r', rres) \<Longrightarrow> waits (delay r) (delay r') rres"
begin

lemma u64_delay: "u64_poll_reader read t r = Some (t', r', res) \<Longrightarrow> waits (delay r) (delay r') res"
proof (induction "8 - tread t" arbitrary: t r rule: less_induct)
  case less
  show ?case
  proof (cases "tread t < 8")
    case False
    with less.prems show ?thesis by (auto simp: u64_poll_reader.simps [of _ t] waits_simps)
  next
    case True
    with less.prems obtain r1 x where rd: "read r (8 - tread t) = Some (r1, x)"
      by (auto simp: u64_poll_reader.simps [of _ t] split: option.splits)
    note d = read_delay [OF rd]
    consider "x = Pending" | e where "x = Ready (Inl e)" | "x = Ready (Inr [])" | b where "x = Ready (Inr b)" "b \<noteq> []"
      by (metis poll.exhaust sum.exhaust)
    then show ?thesis
    proof cases
      case (4 b)
      let ?t = "\<lparr>tbuf = take (tread t) (tbuf t) @ b @ drop (tread t + length b) (tbuf t), tread = tread t + length b\<rparr>"
      have "u64_poll_reader read ?t r1 = Some (t', r', res)"
        using less.prems rd True 4 by (simp add: u64_poll_reader.simps [of _ t])
      moreover have "8 - tread ?t < 8 - tread t" using 4 True by (cases b) auto
      ultimately have "waits (delay r1) (delay r') res" using less.hyps by blast
      with d 4 show ?thesis by (simp add: waits_simps waits_trans)
    qed (use less.prems rd True d in \<open>auto simp: u64_poll_reader.simps [of _ t] waits_simps split: if_splits\<close>)
  qed
qed

lemma framed_data_delay:
  assumes "framed_fill read fill fr = Some (fr', res)" "\<nexists>t. fstate fr = FrReadLen t"
  shows "waits (delay (freader fr)) (delay (freader fr')) res"
  using assms by (cases "fstate fr")
    (auto simp: framed_fill.simps [of _ _ fr] Let_def waits_simps dest!: fill_delay
      split: option.splits prod.splits poll.splits sum.splits if_splits)

lemma framed_fill_delay:
  assumes f: "framed_fill read fill fr = Some (fr', res)"
  shows "waits (delay (freader fr)) (delay (freader fr')) res"
proof (cases "\<exists>t. fstate fr = FrReadLen t")
  case True
  then obtain t where t: "fstate fr = FrReadLen t" by blast
  then obtain t' r x where p: "u64_poll_reader read t (freader fr) = Some (t', r, x)"
    using f by (auto simp: framed_fill.simps [of _ _ fr] split: option.splits)
  note d = u64_delay [OF p]
  show ?thesis
  proof (cases "\<exists>w. x = Ready (Inr (Some w))")
    case True
    then obtain w where w: "x = Ready (Inr (Some w))" by blast
    let ?fr = "fr\<lparr>freader := r, fstate := (if 0 < w then FrReadData w else FrEof)\<rparr>"
    have "framed_fill read fill ?fr = Some (fr', res)"
      using f t p w by (simp add: framed_fill.simps [of _ _ fr])
    from framed_data_delay [OF this] d w show ?thesis by (auto simp: waits_simps waits_trans)
  qed (use f t p d in \<open>auto simp: framed_fill.simps [of _ _ fr] waits_simps
        split: option.splits poll.splits sum.splits\<close>)
qed (use framed_data_delay [OF f] in blast)

lemma framed_patient:
  "patient_fill (framed_rest rest) (framed_good rest good tail) src_err
     (framed_fill read fill) (framed_consume consume) (framed_avail avail) (\<lambda>fr. delay (freader fr))"
proof -
  have "delay (freader fr') \<le> delay (freader fr)" if "framed_consume consume fr n = Some fr'" for fr fr' n
    using that consume_delay by (auto simp: framed_consume_def Let_def split: FramedReadState.splits if_splits)
  with framed_contract framed_fill_delay show ?thesis
    by (auto simp: patient_fill_def patient_fill_axioms_def)
qed

lemma framed_drain_spec:
  assumes "framed_good rest good tail fr" and never: "\<And>e. \<not> src_err e"
  shows "\<exists>fr'. framed_drain read fill consume fr k = Some (fr', Inr (k + word_of_nat (length (framed_rest rest fr)))) \<and>
    framed_good rest good tail fr' \<and> framed_rest rest fr' = []"
  using assms(1)
proof (induction "(length (framed_rest rest fr), delay (freader fr))" arbitrary: fr k
    rule: wf_induct_rule [OF wf_lex_prod [OF wf_less_than wf_less_than]])
  case (1 fr)
  note src = framed_contract [of tail]
  show ?case using 1(2)
  proof (cases rule: fill_source.fill_cases [OF src, consumes 1, case_names pending failed filled])
    case (pending fr1)
    then have "delay (freader fr1) < delay (freader fr)" using framed_fill_delay by (fastforce simp: waits_simps)
    with 1(1) [of fr1] pending show ?thesis by (simp add: framed_drain.simps [of _ _ _ fr])
  next
    case (failed fr1 e)
    then show ?thesis using never by blast
  next
    case (filled fr1)
    show ?thesis
    proof (cases "framed_avail avail fr1 = []")
      case True
      with filled show ?thesis by (simp add: framed_drain.simps [of _ _ _ fr])
    next
      case False
      let ?n = "length (framed_avail avail fr1)"
      obtain fr2 where r2: "framed_consume consume fr1 ?n = Some fr2" "framed_good rest good tail fr2"
        "framed_rest rest fr2 = drop ?n (framed_rest rest fr)"
        using fill_source.consume_avail [OF src filled(2) False, of ?n] filled(3) by auto
      have n: "0 < ?n" "?n \<le> length (framed_rest rest fr)" using False filled(5) by (auto dest: prefix_length_le)
      then have len: "length (framed_rest rest fr) = ?n + length (framed_rest rest fr2)" using r2(3) by simp
      then have "((length (framed_rest rest fr2), delay (freader fr2)), length (framed_rest rest fr), delay (freader fr))
          \<in> less_than <*lex*> less_than" using n(1) by simp
      from 1(1) [OF this r2(2)] obtain fr' where
        "framed_drain read fill consume fr2 (k + word_of_nat ?n) =
           Some (fr', Inr (k + word_of_nat ?n + word_of_nat (length (framed_rest rest fr2))))"
        "framed_good rest good tail fr'" "framed_rest rest fr' = []" by blast
      with filled(1) False r2(1) len show ?thesis
        by (simp add: framed_drain.simps [of _ _ _ fr] add.assoc)
    qed
  qed
qed

end

sublocale patient_read \<subseteq> pb: patient_buf "op_read ops" rest good src_err "op_fill ops" "op_consume ops" avail delay
  by unfold_locales (rule op_read_delay)

text \<open>The reader of a connection: a \<open>FramedReader\<close> over a \<open>BytesReader\<close> over any scripted source.\<close>

interpretation sframed: fill_source "framed_rest (br_rest script_rest)"
    "framed_good (br_rest script_rest) (br_good (script_good E)) tail" "br_err (\<lambda>e. e \<in> E)"
    "framed_fill (op_read (bytes_reader_ops script_read)) (op_fill (bytes_reader_ops script_read))"
    "framed_consume (op_consume (bytes_reader_ops script_read))" "framed_avail br_avail" for E tail
  by (rule pbr.pb.framed_contract)

end
