(* ===== verification/Framed_Writer.thy ===== *)
theory Framed_Writer
  imports Framed_Reader Write_Buf
begin

text \<open>
  \<open>FramedWriter\<close> of \<open>harmonia-protocol/src/daemon_wire/framed/writer.rs\<close>: a payload written as frames.
  The buffer keeps eight bytes in front of its data for the length of the frame, filled in when the
  buffer is flushed; while \<open>flushing\<close> is set, the buffer holds what is left of a frame. \<open>Option<Span>\<close> is
  a flag.

  The facts: in every state the bytes written so far are whole frames of the payload that was
  accepted, up to the frame that is being flushed (\<open>fw_poll_write_spec\<close>), and after a shutdown
  the sink holds the framing of all of it (\<open>fw_shutdown_spec\<close>).
\<close>

section \<open>State and operations\<close>

record 'w FramedWriter =
  finner :: 'w
  flushing :: bool
  fshutdown :: bool
  fbuf :: BytesMut

definition fw_new :: "Alloc \<Rightarrow> 'w \<Rightarrow> 'w FramedWriter" where
  "fw_new A writer =
     (let buf = bm_new A DEFAULT_BUF_SIZE
      in \<lparr>finner = writer, flushing = False, fshutdown = False, fbuf = bm_put A buf (to_le_bytes 0)\<rparr>)"

definition fw_remaining_mut :: "'w FramedWriter \<Rightarrow> nat" where
  "fw_remaining_mut fw = bm_remaining (fbuf fw)"

definition fw_poll_flush_buf ::
  "Alloc \<Rightarrow> ('w \<Rightarrow> bytes \<Rightarrow> ('w, nat) polled) \<Rightarrow> 'w FramedWriter \<Rightarrow> ('w FramedWriter, unit) polled" where
  "fw_poll_flush_buf A put fw0 =
     (let fw = (if \<not> flushing fw0 \<and> 8 < length (bm_data (fbuf fw0))
                then let len = length (bm_data (fbuf fw0)) - 8
                     in fw0\<lparr>fbuf := (fbuf fw0)\<lparr>bm_data := to_le_bytes (word_of_nat len) @ drop 8 (bm_data (fbuf fw0))\<rparr>,
                            flushing := True\<rparr>
                else fw0)
      in if flushing fw then
           (case flush_bytes A put (finner fw) (fbuf fw) of
              None \<Rightarrow> None
            | Some (w, b, Pending) \<Rightarrow> Some (fw\<lparr>finner := w, fbuf := b\<rparr>, Pending)
            | Some (w, b, Ready (Inl e)) \<Rightarrow> Some (fw\<lparr>finner := w, fbuf := b\<rparr>, Ready (Inl e))
            | Some (w, b, Ready (Inr _)) \<Rightarrow>
                Some (fw\<lparr>finner := w, fbuf := bm_put A (bm_reserve A b RESERVED_BUF_SIZE) (to_le_bytes 0),
                   flushing := False\<rparr>, Ready (Inr ())))
         else Some (fw\<lparr>fbuf := bm_reserve A (fbuf fw) RESERVED_BUF_SIZE\<rparr>, Ready (Inr ())))"

definition fw_put :: "Alloc \<Rightarrow> 'w FramedWriter \<Rightarrow> bytes \<Rightarrow> ('w FramedWriter, nat) polled" where
  "fw_put A fw buf =
     (let write = min (length buf) (fw_remaining_mut fw)
      in Some (fw\<lparr>fbuf := bm_put A (fbuf fw) (take write buf)\<rparr>, Ready (Inr write)))"

definition fw_poll_write ::
  "Alloc \<Rightarrow> ('w \<Rightarrow> bytes \<Rightarrow> ('w, nat) polled) \<Rightarrow> 'w FramedWriter \<Rightarrow> bytes \<Rightarrow> ('w FramedWriter, nat) polled" where
  "fw_poll_write A put fw buf =
     (if fw_remaining_mut fw = 0 \<or> flushing fw then
        (case fw_poll_flush_buf A put fw of
           None \<Rightarrow> None
         | Some (fw', Pending) \<Rightarrow> Some (fw', Pending)
         | Some (fw', Ready (Inl e)) \<Rightarrow> Some (fw', Ready (Inl e))
         | Some (fw', Ready (Inr _)) \<Rightarrow> fw_put A fw' buf)
      else fw_put A fw buf)"

definition fw_inner_flush :: "('w \<Rightarrow> ('w, unit) polled) \<Rightarrow> 'w FramedWriter \<Rightarrow> ('w FramedWriter, unit) polled" where
  "fw_inner_flush flush fw = map_option (apfst (\<lambda>w. fw\<lparr>finner := w\<rparr>)) (flush (finner fw))"

definition fw_poll_flush ::
  "Alloc \<Rightarrow> ('w \<Rightarrow> bytes \<Rightarrow> ('w, nat) polled) \<Rightarrow> ('w \<Rightarrow> ('w, unit) polled) \<Rightarrow> 'w FramedWriter \<Rightarrow> ('w FramedWriter, unit) polled" where
  "fw_poll_flush A put flush fw =
     (case fw_poll_flush_buf A put fw of
        None \<Rightarrow> None
      | Some (fw', Pending) \<Rightarrow> Some (fw', Pending)
      | Some (fw', Ready (Inl e)) \<Rightarrow> Some (fw', Ready (Inl e))
      | Some (fw', Ready (Inr _)) \<Rightarrow> fw_inner_flush flush fw')"

definition fw_poll_shutdown ::
  "Alloc \<Rightarrow> ('w \<Rightarrow> bytes \<Rightarrow> ('w, nat) polled) \<Rightarrow> ('w \<Rightarrow> ('w, unit) polled) \<Rightarrow> 'w FramedWriter \<Rightarrow> ('w FramedWriter, unit) polled" where
  "fw_poll_shutdown A put flush fw0 =
     (case fw_poll_flush_buf A put fw0 of
        None \<Rightarrow> None
      | Some (fw, Pending) \<Rightarrow> Some (fw, Pending)
      | Some (fw, Ready (Inl e)) \<Rightarrow> Some (fw, Ready (Inl e))
      | Some (fw, Ready (Inr _)) \<Rightarrow>
          if \<not> fshutdown fw then
            (case flush_bytes A put (finner fw) (fbuf fw) of
               None \<Rightarrow> None
             | Some (w, b, Pending) \<Rightarrow> Some (fw\<lparr>finner := w, fbuf := b\<rparr>, Pending)
             | Some (w, b, Ready (Inl e)) \<Rightarrow> Some (fw\<lparr>finner := w, fbuf := b\<rparr>, Ready (Inl e))
             | Some (w, b, Ready (Inr _)) \<Rightarrow>
                 fw_inner_flush flush (fw\<lparr>finner := w, fbuf := b, fshutdown := True\<rparr>))
          else fw_inner_flush flush fw)"

section \<open>What has been written\<close>

definition framing :: "bytes \<Rightarrow> bytes \<Rightarrow> bool" where
  "framing p s \<longleftrightarrow> (\<exists>ds. list_all frame_ok ds \<and> concat ds = p \<and> s = concat (map frame ds))"

lemma framing_Nil: "framing [] []"
  by (auto simp: framing_def intro!: exI [of _ "[]"])

lemma framing_snoc: "framing p s \<Longrightarrow> frame_ok d \<Longrightarrow> framing (p @ d) (s @ frame d)"
  unfolding framing_def by (elim exE, rule exI [of _ "ds @ [d]" for ds]) auto

lemma framing_unframe: "framing p s \<Longrightarrow> unframe (s @ to_le_bytes 0 @ R) = Some (p, R)"
  using unframe_frames [of _ R] by (auto simp: framing_def frames_def)

text \<open>A writer that has accepted the payload \<open>p\<close> over a sink that held \<open>w0\<close>: flushing a frame, or filling
  one whose data follows the room for its length.\<close>

definition fw_inv :: "('w \<Rightarrow> bytes) \<Rightarrow> bytes \<Rightarrow> bytes \<Rightarrow> 'w FramedWriter \<Rightarrow> bool" where
  "fw_inv written w0 p fw \<longleftrightarrow> bm_ok (fbuf fw) \<and> \<not> fshutdown fw \<and>
     (if flushing fw then \<exists>s. framing p s \<and> written (finner fw) @ bm_data (fbuf fw) = w0 @ s
      else \<exists>p0 s d. framing p0 s \<and> written (finner fw) = w0 @ s \<and> bm_data (fbuf fw) = to_le_bytes 0 @ d \<and> p = p0 @ d)"

text \<open>A writer that is being shut down: the frame that ends the payload is on its way, or written.\<close>

definition fw_closing :: "('w \<Rightarrow> bytes) \<Rightarrow> bytes \<Rightarrow> bytes \<Rightarrow> 'w FramedWriter \<Rightarrow> bool" where
  "fw_closing written w0 p fw \<longleftrightarrow> bm_ok (fbuf fw) \<and> \<not> flushing fw \<and> length (bm_data (fbuf fw)) \<le> 8 \<and>
     (fshutdown fw \<longrightarrow> bm_data (fbuf fw) = []) \<and>
     (\<exists>s. framing p s \<and> written (finner fw) @ bm_data (fbuf fw) = w0 @ s @ to_le_bytes 0)"

definition fw_phase :: "('w \<Rightarrow> bytes) \<Rightarrow> bytes \<Rightarrow> bytes \<Rightarrow> 'w FramedWriter \<Rightarrow> bool" where
  "fw_phase written w0 p fw \<longleftrightarrow> fw_inv written w0 p fw \<or> fw_closing written w0 p fw"

fun fw_flushed :: "(io_error \<Rightarrow> bool) \<Rightarrow> ('w \<Rightarrow> bytes) \<Rightarrow> bytes \<Rightarrow> bytes \<Rightarrow> 'w FramedWriter \<Rightarrow> unit io_result poll \<Rightarrow> bool" where
  "fw_flushed err written w0 p fw' Pending \<longleftrightarrow> fw_inv written w0 p fw'"
| "fw_flushed err written w0 p fw' (Ready (Inl e)) \<longleftrightarrow> err e"
| "fw_flushed err written w0 p fw' (Ready (Inr _)) \<longleftrightarrow> fw_inv written w0 p fw' \<and> \<not> flushing fw' \<and>
     bm_data (fbuf fw') = to_le_bytes 0 \<and> 0 < fw_remaining_mut fw'"

fun fw_closed :: "(io_error \<Rightarrow> bool) \<Rightarrow> ('w \<Rightarrow> bytes) \<Rightarrow> bytes \<Rightarrow> bytes \<Rightarrow> 'w FramedWriter \<Rightarrow> unit io_result poll \<Rightarrow> bool" where
  "fw_closed err written w0 p fw' Pending \<longleftrightarrow> fw_phase written w0 p fw'"
| "fw_closed err written w0 p fw' (Ready (Inl e)) \<longleftrightarrow> err e"
| "fw_closed err written w0 p fw' (Ready (Inr _)) \<longleftrightarrow>
     (\<exists>s. framing p s \<and> written (finner fw') = w0 @ s @ to_le_bytes 0)"

context buffered_write
begin

lemma fw_new_inv: "fw_inv written (written w) [] (fw_new A w)"
  using bm_new_ok [of DEFAULT_BUF_SIZE] bm_put_ok(1) [of "bm_new A DEFAULT_BUF_SIZE" "to_le_bytes 0"] framing_Nil
  by (auto simp: fw_inv_def fw_new_def Let_def DEFAULT_BUF_SIZE_def)

text \<open>A frame on its way.\<close>

lemma fw_flush_frame:
  assumes ok: "bm_ok (fbuf fw)" and fl: "flushing fw" "\<not> fshutdown fw"
    and s: "framing p s" "written (finner fw) @ bm_data (fbuf fw) = w0 @ s"
  shows "\<exists>fw' res. fw_poll_flush_buf A put fw = Some (fw', res) \<and> fw_flushed sink_err written w0 p fw' res \<and>
    waits (wdelay (finner fw)) (wdelay (finner fw')) res"
proof -
  obtain w b res where f: "flush_bytes A put (finner fw) (fbuf fw) = Some (w, b, res)" and b: "bm_ok b"
    and out: "written w @ bm_data b = w0 @ s" and d: "waits (wdelay (finner fw)) (wdelay w) res"
    and post: "flushed_post sink_err b res"
    using flush_bytes_spec [OF ok, of "finner fw"] s(2) by auto
  consider "res = Pending" | e where "res = Ready (Inl e)" | "res = Ready (Inr ())"
    by (metis poll.exhaust sum.exhaust unit.exhaust)
  then show ?thesis
  proof cases
    case 3
    let ?b = "bm_reserve A b RESERVED_BUF_SIZE"
    have r: "bm_ok ?b" "RESERVED_BUF_SIZE \<le> bm_remaining ?b" and e: "bm_data b = []"
      using bm_reserve_ok [OF b, of RESERVED_BUF_SIZE] post 3 by (auto simp: RESERVED_BUF_SIZE_def DEFAULT_BUF_SIZE_def)
    have p: "bm_ok (bm_put A ?b (to_le_bytes 0))" "bm_cap ?b \<le> bm_cap (bm_put A ?b (to_le_bytes 0))"
      using bm_put_ok [OF r(1), of "to_le_bytes 0"] e by auto
    then have "0 < bm_remaining (bm_put A ?b (to_le_bytes 0))"
      using r(2) e by (simp add: bm_remaining_def RESERVED_BUF_SIZE_def DEFAULT_BUF_SIZE_def)
    with 3 f p e out s fl d show ?thesis
      by (auto simp: fw_poll_flush_buf_def fw_inv_def fw_remaining_mut_def)
  qed (use f b out post s fl d in \<open>auto simp: fw_poll_flush_buf_def fw_inv_def\<close>)
qed

lemma fw_poll_flush_buf_spec:
  assumes inv: "fw_inv written w0 p fw"
  shows "\<exists>fw' res. fw_poll_flush_buf A put fw = Some (fw', res) \<and> fw_flushed sink_err written w0 p fw' res \<and>
    waits (wdelay (finner fw)) (wdelay (finner fw')) res"
proof (cases "flushing fw")
  case True
  with inv fw_flush_frame [of fw p _ w0] show ?thesis by (auto simp: fw_inv_def)
next
  case False
  let ?b = "fbuf fw"
  from inv False obtain p0 s d where b: "bm_ok ?b" "\<not> fshutdown fw" and s: "framing p0 s" "written (finner fw) = w0 @ s"
    and d: "bm_data ?b = to_le_bytes 0 @ d" "p = p0 @ d" by (auto simp: fw_inv_def)
  show ?thesis
  proof (cases "d = []")
    case True
    have "bm_ok (bm_reserve A ?b RESERVED_BUF_SIZE)" "RESERVED_BUF_SIZE \<le> bm_remaining (bm_reserve A ?b RESERVED_BUF_SIZE)"
      using bm_reserve_ok [OF b(1), of RESERVED_BUF_SIZE] d True by (auto simp: RESERVED_BUF_SIZE_def DEFAULT_BUF_SIZE_def)
    moreover have "0 < RESERVED_BUF_SIZE" by (simp add: RESERVED_BUF_SIZE_def DEFAULT_BUF_SIZE_def)
    ultimately show ?thesis using True False d s b
      by (auto simp: fw_poll_flush_buf_def fw_inv_def fw_remaining_mut_def waits_simps)
  next
    case ne: False
    let ?fw = "fw\<lparr>fbuf := ?b\<lparr>bm_data := to_le_bytes (word_of_nat (length d)) @ d\<rparr>, flushing := True\<rparr>"
    have len: "length d < 2 ^ 63" using b(1) d by (simp add: bm_ok_def)
    have eq: "fw_poll_flush_buf A put fw = fw_poll_flush_buf A put ?fw"
      using False ne d by (simp add: fw_poll_flush_buf_def)
    have "framing p (s @ frame d)" using framing_snoc [OF s(1), of d] ne len d by (simp add: frame_ok_def)
    with fw_flush_frame [of ?fw p "s @ frame d" w0] b d s show ?thesis
      by (simp add: eq frame_def bm_ok_def)
  qed
qed

lemma fw_put_spec:
  assumes inv: "fw_inv written w0 p fw" and fl: "\<not> flushing fw" and room: "0 < fw_remaining_mut fw"
  shows "\<exists>fw' res. fw_put A fw b = Some (fw', res) \<and> accept_post (fw_inv written w0) sink_err p b fw' res \<and>
    finner fw' = finner fw \<and> res \<noteq> Pending"
proof -
  let ?n = "min (length b) (fw_remaining_mut fw)"
  from inv fl have ok: "bm_ok (fbuf fw)" by (simp add: fw_inv_def)
  then have "bm_ok (bm_put A (fbuf fw) (take ?n b))"
    using bm_put_ok(1) [OF ok, of "take ?n b"] by (auto simp: bm_ok_def fw_remaining_mut_def bm_remaining_def min_def)
  with inv fl have "fw_inv written w0 (p @ take ?n b) (fw\<lparr>fbuf := bm_put A (fbuf fw) (take ?n b)\<rparr>)"
    by (auto simp: fw_inv_def)
  moreover have "?n = 0 \<longrightarrow> b = []" using room by (auto simp: min_def split: if_splits)
  ultimately show ?thesis by (simp add: fw_put_def Let_def)
qed

lemma fw_poll_write_spec:
  assumes inv: "fw_inv written w0 p fw"
  shows "\<exists>fw' res. fw_poll_write A put fw b = Some (fw', res) \<and> accept_post (fw_inv written w0) sink_err p b fw' res \<and>
    waits (wdelay (finner fw)) (wdelay (finner fw')) res"
proof (cases "fw_remaining_mut fw = 0 \<or> flushing fw")
  case False
  with fw_put_spec [OF inv, of b] show ?thesis by (auto simp: fw_poll_write_def waits_def)
next
  case True
  obtain fw1 x where f: "fw_poll_flush_buf A put fw = Some (fw1, x)" and post: "fw_flushed sink_err written w0 p fw1 x"
    and d: "waits (wdelay (finner fw)) (wdelay (finner fw1)) x"
    using fw_poll_flush_buf_spec [OF inv] by blast
  consider "x = Pending" | e where "x = Ready (Inl e)" | "x = Ready (Inr ())"
    by (metis poll.exhaust sum.exhaust unit.exhaust)
  then show ?thesis
  proof cases
    case 3
    with post fw_put_spec [of w0 p fw1 b] f d True show ?thesis by (fastforce simp: fw_poll_write_def waits_def)
  qed (use f post d True in \<open>auto simp: fw_poll_write_def waits_simps\<close>)
qed

lemma fw_payload_sink:
  "payload_sink (fw_poll_write A put) (fw_inv written w0) sink_err (\<lambda>fw. wdelay (finner fw))"
  by unfold_locales (rule fw_poll_write_spec)

text \<open>\<open>poll_flush\<close>: once it is ready, the sink holds all of the payload that was accepted.\<close>

lemma fw_inner_flush_spec:
  "\<exists>w res. fw_inner_flush flush fw = Some (fw\<lparr>finner := w\<rparr>, res) \<and> written w = written (finner fw) \<and>
     flush_post sink_err res \<and> waits (wdelay (finner fw)) (wdelay w) res"
  using flush_law [of "finner fw"] by (auto simp: fw_inner_flush_def)

lemma fw_poll_flush_spec:
  assumes inv: "fw_inv written w0 p fw"
  shows "\<exists>fw' res. fw_poll_flush A put flush fw = Some (fw', res) \<and> waits (wdelay (finner fw)) (wdelay (finner fw')) res \<and>
    (case res of Pending \<Rightarrow> fw_inv written w0 p fw' | Ready (Inl e) \<Rightarrow> sink_err e
     | Ready (Inr _) \<Rightarrow> fw_inv written w0 p fw' \<and> (\<exists>s. framing p s \<and> written (finner fw') = w0 @ s))"
proof -
  obtain fw1 x where f: "fw_poll_flush_buf A put fw = Some (fw1, x)" and post: "fw_flushed sink_err written w0 p fw1 x"
    and d: "waits (wdelay (finner fw)) (wdelay (finner fw1)) x"
    using fw_poll_flush_buf_spec [OF inv] by blast
  consider "x = Pending" | e where "x = Ready (Inl e)" | "x = Ready (Inr ())"
    by (metis poll.exhaust sum.exhaust unit.exhaust)
  then show ?thesis
  proof cases
    case 3
    obtain w res where i: "fw_inner_flush flush fw1 = Some (fw1\<lparr>finner := w\<rparr>, res)" "written w = written (finner fw1)"
      "flush_post sink_err res" "waits (wdelay (finner fw1)) (wdelay w) res"
      using fw_inner_flush_spec [of fw1] by blast
    have inv1: "fw_inv written w0 p (fw1\<lparr>finner := w\<rparr>)" and "\<exists>s. framing p s \<and> written w = w0 @ s"
      using post 3 i(2) by (auto simp: fw_inv_def)
    moreover have "waits (wdelay (finner fw)) (wdelay w) res" using d i(4) 3 by (auto simp: waits_def)
    ultimately show ?thesis using f i 3
      by (cases res rule: poll.exhaust) (auto simp: fw_poll_flush_def split: sum.splits)
  qed (use f post d in \<open>auto simp: fw_poll_flush_def waits_simps\<close>)
qed

text \<open>\<open>poll_shutdown\<close>, from the first call to the last.\<close>

lemma fw_finish:
  assumes "framing p s" "written (finner fw) = w0 @ s @ to_le_bytes 0" "bm_ok (fbuf fw)" "\<not> flushing fw"
    "bm_data (fbuf fw) = []"
  shows "\<exists>fw' res. fw_inner_flush flush fw = Some (fw', res) \<and> fw_closed sink_err written w0 p fw' res \<and>
    waits (wdelay (finner fw)) (wdelay (finner fw')) res"
proof -
  obtain w res where i: "fw_inner_flush flush fw = Some (fw\<lparr>finner := w\<rparr>, res)" "written w = written (finner fw)"
      "flush_post sink_err res" "waits (wdelay (finner fw)) (wdelay w) res"
    using fw_inner_flush_spec [of fw] by blast
  consider "res = Pending" | e where "res = Ready (Inl e)" | "res = Ready (Inr ())"
    by (metis poll.exhaust sum.exhaust unit.exhaust)
  then show ?thesis by cases (use assms i in \<open>auto simp: fw_phase_def fw_closing_def\<close>)
qed

lemma fw_close_frame:
  assumes cl: "fw_closing written w0 p fw"
    and b: "bm_ok b" "bm_data b = bm_data (fbuf fw)"
    and f: "fw_poll_flush_buf A put fw0 = Some (fw\<lparr>fbuf := b\<rparr>, Ready (Inr ()))"
  shows "\<exists>fw' res. fw_poll_shutdown A put flush fw0 = Some (fw', res) \<and> fw_closed sink_err written w0 p fw' res \<and>
    waits (wdelay (finner fw)) (wdelay (finner fw')) res"
proof -
  let ?fw = "fw\<lparr>fbuf := b\<rparr>"
  from cl obtain s where s: "framing p s" "written (finner fw) @ bm_data b = w0 @ s @ to_le_bytes 0"
    and fl: "\<not> flushing fw" "length (bm_data b) \<le> 8" "fshutdown fw \<longrightarrow> bm_data b = []"
    using b by (auto simp: fw_closing_def)
  show ?thesis
  proof (cases "fshutdown fw")
    case True
    with fl s fw_finish [of p s ?fw w0] b f show ?thesis by (simp add: fw_poll_shutdown_def)
  next
    case False
    obtain w b' res where g: "flush_bytes A put (finner fw) b = Some (w, b', res)" and b': "bm_ok b'"
      and out: "written w @ bm_data b' = w0 @ s @ to_le_bytes 0" and le: "length (bm_data b') \<le> length (bm_data b)"
      and d: "waits (wdelay (finner fw)) (wdelay w) res" and post: "flushed_post sink_err b' res"
      using flush_bytes_spec [OF b(1), of "finner fw"] s(2) by auto
    consider "res = Pending" | e where "res = Ready (Inl e)" | "res = Ready (Inr ())"
      by (metis poll.exhaust sum.exhaust unit.exhaust)
    then show ?thesis
    proof cases
      case 1
      then show ?thesis using g b' out le d False f s fl
        by (auto simp: fw_poll_shutdown_def fw_phase_def fw_closing_def)
    next
      case (2 e)
      then show ?thesis using g post d False f by (simp add: fw_poll_shutdown_def)
    next
      case 3
      let ?fw' = "fw\<lparr>finner := w, fbuf := b', fshutdown := True\<rparr>"
      have "\<exists>fw' res. fw_inner_flush flush ?fw' = Some (fw', res) \<and> fw_closed sink_err written w0 p fw' res \<and>
          waits (wdelay w) (wdelay (finner fw')) res"
        using fw_finish [OF s(1), of ?fw' w0] out post 3 b' fl by simp
      then show ?thesis using g 3 d False f by (auto simp: fw_poll_shutdown_def waits_def)
    qed
  qed
qed

lemma fw_shutdown_spec:
  assumes ph: "fw_phase written w0 p fw"
  shows "\<exists>fw' res. fw_poll_shutdown A put flush fw = Some (fw', res) \<and> fw_closed sink_err written w0 p fw' res \<and>
    waits (wdelay (finner fw)) (wdelay (finner fw')) res"
proof (cases "fw_inv written w0 p fw")
  case False
  with ph have cl: "fw_closing written w0 p fw" by (simp add: fw_phase_def)
  let ?b = "bm_reserve A (fbuf fw) RESERVED_BUF_SIZE"
  have "bm_ok ?b" using cl bm_reserve_ok(1) [of "fbuf fw" RESERVED_BUF_SIZE]
    by (auto simp: fw_closing_def RESERVED_BUF_SIZE_def DEFAULT_BUF_SIZE_def)
  moreover have "fw_poll_flush_buf A put fw = Some (fw\<lparr>fbuf := ?b\<rparr>, Ready (Inr ()))"
    using cl by (simp add: fw_poll_flush_buf_def fw_closing_def)
  ultimately show ?thesis using fw_close_frame [OF cl] by simp
next
  case True
  obtain fw1 x where f: "fw_poll_flush_buf A put fw = Some (fw1, x)" and post: "fw_flushed sink_err written w0 p fw1 x"
    and d: "waits (wdelay (finner fw)) (wdelay (finner fw1)) x"
    using fw_poll_flush_buf_spec [OF True] by blast
  consider "x = Pending" | e where "x = Ready (Inl e)" | "x = Ready (Inr ())"
    by (metis poll.exhaust sum.exhaust unit.exhaust)
  then show ?thesis
  proof cases
    case 3
    with post have "fw_closing written w0 p fw1" "bm_ok (fbuf fw1)" by (auto simp: fw_inv_def fw_closing_def)
    from fw_close_frame [OF this refl, of fw] f 3 d show ?thesis by (auto simp: waits_def)
  qed (use f post d in \<open>auto simp: fw_poll_shutdown_def waits_simps fw_phase_def\<close>)
qed

end

end
