(* ===== verification/Framed_Properties.thy ===== *)
theory Framed_Properties
  imports Framed_Writer
begin

text \<open>
  What the framing of the daemon protocol promises: the reader decodes, the writer encodes, and what
  is written through one is read through the other, over every source and sink.
\<close>

section \<open>A client of the writer\<close>

datatype FrameOp = FWrite bytes | FFlush

fun fw_client ::
  "Alloc \<Rightarrow> ('w \<Rightarrow> bytes \<Rightarrow> ('w, nat) polled) \<Rightarrow> ('w \<Rightarrow> ('w, unit) polled) \<Rightarrow> FrameOp list \<Rightarrow> 'w FramedWriter \<Rightarrow>
     ('w FramedWriter \<times> unit io_result) option" where
  "fw_client A put flush [] fw = await (fw_poll_shutdown A put flush) fw"
| "fw_client A put flush (FWrite b # os) fw =
     (case write_all (fw_poll_write A put) fw b of
        None \<Rightarrow> None
      | Some (fw', Inl e) \<Rightarrow> Some (fw', Inl e)
      | Some (fw', Inr _) \<Rightarrow> fw_client A put flush os fw')"
| "fw_client A put flush (FFlush # os) fw =
     (case await (fw_poll_flush A put flush) fw of
        None \<Rightarrow> None
      | Some (fw', Inl e) \<Rightarrow> Some (fw', Inl e)
      | Some (fw', Inr _) \<Rightarrow> fw_client A put flush os fw')"

fun op_payload :: "FrameOp \<Rightarrow> bytes" where
  "op_payload (FWrite b) = b"
| "op_payload FFlush = []"

context buffered_write
begin

lemma fw_await_shutdown:
  assumes "fw_inv written w0 p fw"
  shows "\<exists>fw' x. await (fw_poll_shutdown A put flush) fw = Some (fw', x) \<and> fw_closed sink_err written w0 p fw' (Ready x)"
proof (rule await_spec [where I = "fw_phase written w0 p" and m = "\<lambda>fw. wdelay (finner fw)"])
  show "\<exists>s' res. fw_poll_shutdown A put flush s = Some (s', res) \<and>
      (case res of Pending \<Rightarrow> fw_phase written w0 p s' \<and> wdelay (finner s') < wdelay (finner s)
       | Ready x \<Rightarrow> fw_closed sink_err written w0 p s' (Ready x))" if ph: "fw_phase written w0 p s" for s
  proof -
    obtain fw' res where "fw_poll_shutdown A put flush s = Some (fw', res)" "fw_closed sink_err written w0 p fw' res"
      "waits (wdelay (finner s)) (wdelay (finner fw')) res"
      using fw_shutdown_spec [OF ph] by blast
    then show ?thesis by (cases res) (auto simp: waits_simps)
  qed
qed (use assms in \<open>simp add: fw_phase_def\<close>)

lemma fw_await_flush:
  assumes "fw_inv written w0 p fw"
  shows "\<exists>fw' x. await (fw_poll_flush A put flush) fw = Some (fw', x) \<and>
    (case x of Inl e \<Rightarrow> sink_err e | Inr _ \<Rightarrow> fw_inv written w0 p fw')"
proof (rule await_spec [where I = "fw_inv written w0 p" and m = "\<lambda>fw. wdelay (finner fw)"])
  show "\<exists>s' res. fw_poll_flush A put flush s = Some (s', res) \<and>
      (case res of Pending \<Rightarrow> fw_inv written w0 p s' \<and> wdelay (finner s') < wdelay (finner s)
       | Ready x \<Rightarrow> (case x of Inl e \<Rightarrow> sink_err e | Inr _ \<Rightarrow> fw_inv written w0 p s'))" if inv: "fw_inv written w0 p s" for s
  proof -
    obtain fw' res where "fw_poll_flush A put flush s = Some (fw', res)" "waits (wdelay (finner s)) (wdelay (finner fw')) res"
      "case res of Pending \<Rightarrow> fw_inv written w0 p fw' | Ready (Inl e) \<Rightarrow> sink_err e
       | Ready (Inr _) \<Rightarrow> fw_inv written w0 p fw' \<and> (\<exists>s. framing p s \<and> written (finner fw') = w0 @ s)"
      using fw_poll_flush_spec [OF inv] by blast
    then show ?thesis by (cases res) (auto simp: waits_simps split: sum.splits)
  qed
qed (rule assms)

lemma fw_client_spec:
  "fw_inv written w0 p fw \<Longrightarrow> \<exists>fw' x. fw_client A put flush os fw = Some (fw', x) \<and>
     fw_closed sink_err written w0 (p @ concat (map op_payload os)) fw' (Ready x)"
proof (induction os arbitrary: p fw rule: list.induct)
  case Nil
  then show ?case using fw_await_shutdown by simp
next
  case (Cons a os)
  show ?case
  proof (cases a)
    case (FWrite b)
    obtain fw1 x where "write_all (fw_poll_write A put) fw b = Some (fw1, x)"
      "case x of Inl e \<Rightarrow> sink_err e | Inr _ \<Rightarrow> fw_inv written w0 (p @ b) fw1"
      using payload_sink.write_all_spec [OF fw_payload_sink Cons.prems] by blast
    with Cons.IH [of "p @ b" fw1] FWrite show ?thesis by (cases x) auto
  next
    case FFlush
    obtain fw1 x where "await (fw_poll_flush A put flush) fw = Some (fw1, x)"
      "case x of Inl e \<Rightarrow> sink_err e | Inr _ \<Rightarrow> fw_inv written w0 p fw1"
      using fw_await_flush [OF Cons.prems] by blast
    with Cons.IH [of p fw1] FFlush show ?thesis by (cases x) auto
  qed
qed

end

section \<open>The properties\<close>

text \<open>
  C16. \<open>FramedReader\<close> over every source that keeps the contracts of \<open>AsyncRead\<close> and \<open>AsyncBufRead\<close> and
  is pending only finitely often: whoever reads it to its end has got exactly the payload that
  \<open>unframe\<close> finds on the stream, and the source stands right behind the last frame, so that a stream
  that is cut short is never mistaken for a complete one; and if the source never fails, a well-formed
  stream can be read to its end.
\<close>

theorem framed_reader_exact:
  assumes "patient_buf read rest good src_err fill consume avail delay" "good r"
  shows "(\<forall>d fr'. reads_out (framed_fill read fill) (framed_consume consume) (framed_new r) d fr' \<longrightarrow>
       unframe (rest r) = Some (d, rest (freader fr'))) \<and>
    (\<forall>d tail. unframe (rest r) = Some (d, tail) \<and> (\<forall>e. \<not> src_err e) \<longrightarrow>
       (\<exists>fr'. reads_out (framed_fill read fill) (framed_consume consume) (framed_new r) d fr'))"
proof (intro conjI allI impI)
  have ok: "framed_ok good (framed_new r)" using assms(2) by (simp add: framed_new_ok)
  note exact = buf_read.framed_reads_out [OF patient_buf.axioms(1) [OF assms(1)] _ ok, unfolded framed_new_ok(2)]
  show "unframe (rest r) = Some (d, rest (freader fr'))"
    if "reads_out (framed_fill read fill) (framed_consume consume) (framed_new r) d fr'" for d fr'
    using exact [OF that] by blast
  show "\<exists>fr'. reads_out (framed_fill read fill) (framed_consume consume) (framed_new r) d fr'"
    if u: "unframe (rest r) = Some (d, tail) \<and> (\<forall>e. \<not> src_err e)" for d tail
  proof -
    have g: "framed_good rest good tail (framed_new r)" using ok u by (simp add: framed_good_def framed_new_ok)
    have "\<not> src_err e" for e using u by simp
    from patient_fill.reads_out_total [OF patient_buf.framed_patient [OF assms(1)] g this] obtain d' fr' where
      "reads_out (framed_fill read fill) (framed_consume consume) (framed_new r) d' fr'" by blast
    with exact [OF this] u show ?thesis by auto
  qed
qed

theorem framed_reader_exact_witness:
  "\<exists>fr'. reads_out (framed_fill (op_read cursor_ops) (op_fill cursor_ops)) (framed_consume (op_consume cursor_ops))
     (framed_new \<lparr>cdata = frames [[1, 2], [3]] @ [9], cpos = 0\<rparr>) [1, 2, 3] fr'"
proof -
  have "cursor_good \<lparr>cdata = frames [[1, 2], [3]] @ [9], cpos = 0\<rparr>" by (simp add: cursor_good_def)
  moreover have "unframe (cursor_rest \<lparr>cdata = frames [[1, 2], [3]] @ [9], cpos = 0\<rparr>) = Some ([1, 2, 3], [9])"
    using unframe_frames [of "[[1, 2], [3]]" "[9]"] by (simp add: frame_ok_def cursor_rest_def)
  ultimately show ?thesis using framed_reader_exact [OF pcursor.pb.patient_buf_axioms] by simp
qed

text \<open>
  \<open>FramedReader::drain_all\<close> over a source that never fails and is pending only finitely often: on a
  well-formed stream it returns, with the number of bytes of the payload (modulo 2 to the power of 64), and the source
  stands right behind the last frame.
\<close>

theorem framed_drain_exact:
  assumes "patient_buf read rest good src_err fill consume avail delay" "good r" "\<And>e. \<not> src_err e"
    and "unframe (rest r) = Some (d, tail)"
  shows "\<exists>fr'. framed_drain_all read fill consume (framed_new r) = Some (fr', Inr (word_of_nat (length d))) \<and>
    framed_rest rest fr' = [] \<and> framed_good rest good tail fr'"
proof -
  have "framed_good rest good tail (framed_new r)" "framed_rest rest (framed_new r) = d"
    using assms(2,4) by (simp_all add: framed_good_def framed_rest_def framed_new_ok)
  with patient_buf.framed_drain_spec [OF assms(1) this(1) assms(3), of 0] show ?thesis
    by (auto simp: framed_drain_all_def)
qed

theorem framed_drain_exact_witness:
  "\<exists>fr'. framed_drain_all (op_read cursor_ops) (op_fill cursor_ops) (op_consume cursor_ops)
     (framed_new \<lparr>cdata = frames [[1, 2], [3]], cpos = 0\<rparr>) = Some (fr', Inr 3)"
proof -
  have "cursor_good \<lparr>cdata = frames [[1, 2], [3]], cpos = 0\<rparr>" by (simp add: cursor_good_def)
  moreover have "unframe (cursor_rest \<lparr>cdata = frames [[1, 2], [3]], cpos = 0\<rparr>) = Some ([1, 2, 3], [])"
    using unframe_frames [of "[[1, 2], [3]]" "[]"] by (simp add: frame_ok_def cursor_rest_def)
  ultimately show ?thesis
    using framed_drain_exact [OF pcursor.pb.patient_buf_axioms, of _ "[1, 2, 3]" "[]"] by auto
qed

text \<open>
  C23. \<open>FramedWriter\<close> over every sink that keeps the contract of \<open>AsyncWrite\<close> and is pending only
  finitely often, and every allocator of \<open>BytesMut\<close>: a client that writes any pieces, flushes where it likes and
  shuts down always comes to an end; the only errors are the sink's; and if there was none the sink
  has received the payload as a sequence of non-empty frames, closed by the frame of length 0.
\<close>

theorem framed_writer_frames:
  assumes "buffered_write put written sink_err flush wdelay A"
  shows "\<exists>fw' x. fw_client A put flush os (fw_new A w) = Some (fw', x) \<and>
    (case x of Inl e \<Rightarrow> sink_err e
     | Inr _ \<Rightarrow> \<exists>s. framing (concat (map op_payload os)) s \<and> written (finner fw') = written w @ s @ to_le_bytes 0)"
proof -
  obtain fw' x where c: "fw_client A put flush os (fw_new A w) = Some (fw', x)"
    "fw_closed sink_err written (written w) (concat (map op_payload os)) fw' (Ready x)"
    using buffered_write.fw_client_spec [OF assms buffered_write.fw_new_inv [OF assms], of os w] by auto
  then show ?thesis by (cases x) auto
qed

theorem framed_writer_frames_witness:
  "\<exists>fw' x. fw_client exact_alloc sink_put sink_flush [FWrite [1, 2], FFlush, FWrite [3]]
      (fw_new exact_alloc \<lparr>taken = [], plan = [KPending, KAccept 3]\<rparr>) = Some (fw', x) \<and>
    (case x of Inl e \<Rightarrow> True | Inr _ \<Rightarrow> \<exists>s. framing [1, 2, 3] s \<and> taken (finner fw') = s @ to_le_bytes 0)"
  using framed_writer_frames [OF swrite.buffered_write_axioms, of "[FWrite [1, 2], FFlush, FWrite [3]]"
      "\<lparr>taken = [], plan = [KPending, KAccept 3]\<rparr>"]
  by (simp cong: sum.case_cong del: fw_client.simps)

text \<open>
  C4. What goes through the framing comes back: over a sink that never fails, the bytes that a \<open>FramedWriter\<close> has put
  out after its shutdown, followed by anything else, are read by a \<open>FramedReader\<close>
  over a source that never fails as exactly the bytes the client wrote, however it cut and flushed them.
\<close>

theorem framed_roundtrip:
  assumes "buffered_write put written sink_err flush wdelay A" "\<And>e. \<not> sink_err e"
    and "patient_buf read rest good src_err fill consume avail delay" "\<And>e. \<not> src_err e"
  shows "\<exists>fw'. fw_client A put flush os (fw_new A w) = Some (fw', Inr ()) \<and>
    (\<forall>r R. good r \<and> written (finner fw') @ R = written w @ rest r \<longrightarrow>
       (\<exists>fr'. reads_out (framed_fill read fill) (framed_consume consume) (framed_new r) (concat (map op_payload os)) fr' \<and>
          rest (freader fr') = R))"
proof -
  let ?p = "concat (map op_payload os)"
  obtain fw' x where c: "fw_client A put flush os (fw_new A w) = Some (fw', x)"
    and cl: "fw_closed sink_err written (written w) ?p fw' (Ready x)"
    using buffered_write.fw_client_spec [OF assms(1) buffered_write.fw_new_inv [OF assms(1)], of os w] by auto
  have "\<And>e. x \<noteq> Inl e" using cl assms(2) by auto
  then have x: "x = Inr ()" by (cases x) auto
  with cl obtain s where s: "framing ?p s" "written (finner fw') = written w @ s @ to_le_bytes 0" by auto
  have "\<exists>fr'. reads_out (framed_fill read fill) (framed_consume consume) (framed_new r) ?p fr' \<and> rest (freader fr') = R"
    if g: "good r" and eq: "written (finner fw') @ R = written w @ rest r" for r R
  proof -
    have "rest r = s @ to_le_bytes 0 @ R" using eq s(2) by simp
    then have u: "unframe (rest r) = Some (?p, R)" using framing_unframe [OF s(1)] by simp
    have fg: "framed_good rest good R (framed_new r)" using g u by (simp add: framed_good_def framed_new_ok)
    from patient_fill.reads_out_total [OF patient_buf.framed_patient [OF assms(3)] fg assms(4)] obtain d' fr' where
      ro: "reads_out (framed_fill read fill) (framed_consume consume) (framed_new r) d' fr'" by blast
    have "framed_ok good (framed_new r)" using g by (simp add: framed_new_ok)
    from buf_read.framed_reads_out [OF patient_buf.axioms(1) [OF assms(3)] ro this] u ro show ?thesis
      by (auto simp: framed_new_ok)
  qed
  with c x show ?thesis by blast
qed

theorem framed_roundtrip_witness:
  "\<exists>fw' fr'. fw_client exact_alloc vec_put vec_flush [FWrite [1, 2], FFlush, FWrite [3]] (fw_new exact_alloc []) =
       Some (fw', Inr ()) \<and>
     reads_out (framed_fill (op_read cursor_ops) (op_fill cursor_ops)) (framed_consume (op_consume cursor_ops))
       (framed_new \<lparr>cdata = finner fw' @ [7], cpos = 0\<rparr>) [1, 2, 3] fr' \<and> cursor_rest (freader fr') = [7]"
proof -
  obtain fw' where c: "fw_client exact_alloc vec_put vec_flush [FWrite [1, 2], FFlush, FWrite [3]] (fw_new exact_alloc []) =
      Some (fw', Inr ())"
    and r: "\<And>r R. cursor_good r \<and> finner fw' @ R = [] @ cursor_rest r \<Longrightarrow>
      \<exists>fr'. reads_out (framed_fill (op_read cursor_ops) (op_fill cursor_ops)) (framed_consume (op_consume cursor_ops))
        (framed_new r) (concat (map op_payload [FWrite [1, 2], FFlush, FWrite [3]])) fr' \<and> cursor_rest (freader fr') = R"
    using framed_roundtrip [OF vwrite.buffered_write_axioms _ pcursor.pb.patient_buf_axioms,
        of "[FWrite [1, 2], FFlush, FWrite [3]]" "[]"] by blast
  from r [of "\<lparr>cdata = finner fw' @ [7], cpos = 0\<rparr>" "[7]"] c show ?thesis
    by (simp add: cursor_good_def cursor_rest_def del: fw_client.simps)
qed

end
