(* ===== verification/Version.thy ===== *)
theory Version
  imports Store_Path
begin

text \<open>
  Protocol versions and ranges of them (\<open>harmonia-protocol/src/version.rs\<close>): a version is a pair of bytes,
  sent as one \<open>u16\<close> and printed as \<open>major.minor\<close>; a range is half open, as Rust's ranges are.
  An addition or subtraction that leaves \<open>u8\<close> is a panic, \<open>None\<close>.

  The facts: the packing is a bijection, \<open>intersect\<close> is the intersection of the sets of versions, and
  every version and range is read back from its text.
\<close>

type_synonym u16 = "16 word"

section \<open>Versions\<close>

datatype ProtocolVersion = ProtocolVersion (pv_major: u8) (pv_minor: u8)

instantiation ProtocolVersion :: linorder
begin

definition less_eq_ProtocolVersion :: "ProtocolVersion \<Rightarrow> ProtocolVersion \<Rightarrow> bool" where
  "less_eq_ProtocolVersion a b \<longleftrightarrow> pv_major a < pv_major b \<or> pv_major a = pv_major b \<and> pv_minor a \<le> pv_minor b"

definition less_ProtocolVersion :: "ProtocolVersion \<Rightarrow> ProtocolVersion \<Rightarrow> bool" where
  "less_ProtocolVersion a b \<longleftrightarrow> pv_major a < pv_major b \<or> pv_major a = pv_major b \<and> pv_minor a < pv_minor b"

instance
proof
  fix x y z :: ProtocolVersion
  show "x \<le> y \<Longrightarrow> y \<le> z \<Longrightarrow> x \<le> z" by (auto simp: less_eq_ProtocolVersion_def)
  show "x \<le> y \<Longrightarrow> y \<le> x \<Longrightarrow> x = y"
    by (cases x; cases y) (auto simp: less_eq_ProtocolVersion_def)
qed (auto simp: less_eq_ProtocolVersion_def less_ProtocolVersion_def)

end

definition PROTOCOL_VERSION_MAJOR :: u8 where
  "PROTOCOL_VERSION_MAJOR = 1"

definition PROTOCOL_VERSION :: ProtocolVersion where
  "PROTOCOL_VERSION = ProtocolVersion PROTOCOL_VERSION_MAJOR 37"

definition PROTOCOL_VERSION_MIN :: ProtocolVersion where
  "PROTOCOL_VERSION_MIN = ProtocolVersion PROTOCOL_VERSION_MAJOR 37"

definition version_next :: "ProtocolVersion \<Rightarrow> ProtocolVersion option" where
  "version_next v = (if pv_minor v = 255 then None else Some (ProtocolVersion (pv_major v) (pv_minor v + 1)))"

definition version_previous :: "ProtocolVersion \<Rightarrow> ProtocolVersion option" where
  "version_previous v = (if pv_minor v = 0 then None else Some (ProtocolVersion (pv_major v) (pv_minor v - 1)))"

definition version_from_u16 :: "u16 \<Rightarrow> ProtocolVersion" where
  "version_from_u16 value =
     ProtocolVersion (ucast (drop_bit 8 (value AND 0xff00))) (ucast (value AND 0x00ff))"

definition version_to_u16 :: "ProtocolVersion \<Rightarrow> u16" where
  "version_to_u16 value = push_bit 8 (ucast (pv_major value)) OR ucast (pv_minor value)"

definition version_display :: "ProtocolVersion \<Rightarrow> string" where
  "version_display v = show_nat (unat (pv_major v)) @ ''.'' @ show_nat (unat (pv_minor v))"

text \<open>\<open>str::parse::<u8>\<close> of the standard library, with the text of its errors.\<close>

fun parse_u8_digits :: "nat \<Rightarrow> string \<Rightarrow> string + u8" where
  "parse_u8_digits acc [] = Inr (word_of_nat acc)"
| "parse_u8_digits acc (c # s) =
     (case char_digit c of
        None \<Rightarrow> Inl ''invalid digit found in string''
      | Some d \<Rightarrow> if 255 < acc * 10 + d then Inl ''number too large to fit in target type''
          else parse_u8_digits (acc * 10 + d) s)"

definition parse_u8 :: "string \<Rightarrow> string + u8" where
  "parse_u8 s =
     (case s of
        [] \<Rightarrow> Inl ''cannot parse integer from empty string''
      | c # t \<Rightarrow> if c = CHR ''+'' \<and> t \<noteq> [] then parse_u8_digits 0 t else parse_u8_digits 0 s)"

record ParseProtocolVersionError =
  pv_msg :: string
  pv_value :: string

definition version_from_str :: "string \<Rightarrow> ParseProtocolVersionError + ProtocolVersion" where
  "version_from_str s =
     (case split_once (CHR ''.'') s of
        Some (major, minor) \<Rightarrow>
          result_bind (result_map_err (\<lambda>err. \<lparr>pv_msg = err, pv_value = s\<rparr>) (parse_u8 major)) (\<lambda>major.
          result_bind (result_map_err (\<lambda>err. \<lparr>pv_msg = err, pv_value = s\<rparr>) (parse_u8 minor)) (\<lambda>minor.
            Inr (ProtocolVersion major minor)))
      | None \<Rightarrow> Inl \<lparr>pv_msg = ''invalid format'', pv_value = s\<rparr>)"

section \<open>Ranges\<close>

datatype ProtocolRange =
    RFull
  | RTo ProtocolVersion
  | RFrom ProtocolVersion
  | RBetween ProtocolVersion ProtocolVersion

datatype Bound = Included ProtocolVersion | Excluded ProtocolVersion | Unbounded

fun start_bound :: "ProtocolRange \<Rightarrow> Bound" where
  "start_bound RFull = Unbounded"
| "start_bound (RTo _) = Unbounded"
| "start_bound (RFrom from) = Included from"
| "start_bound (RBetween from _) = Included from"

fun end_bound :: "ProtocolRange \<Rightarrow> Bound" where
  "end_bound RFull = Unbounded"
| "end_bound (RTo to) = Excluded to"
| "end_bound (RFrom _) = Unbounded"
| "end_bound (RBetween _ to) = Excluded to"

definition range_from_minor :: "u8 \<Rightarrow> u8 \<Rightarrow> ProtocolRange option" where
  "range_from_minor from to_inclusive =
     map_option (RBetween (ProtocolVersion PROTOCOL_VERSION_MAJOR from))
       (version_next (ProtocolVersion PROTOCOL_VERSION_MAJOR to_inclusive))"

fun later_start :: "Bound \<Rightarrow> Bound \<Rightarrow> Bound" where
  "later_start (Included a) (Included b) = Included (max a b)"
| "later_start (Excluded a) (Excluded b) = Excluded (max a b)"
| "later_start x Unbounded = x"
| "later_start Unbounded x = x"
| "later_start (Included i) (Excluded e) = (if e < i then Included i else Excluded e)"
| "later_start (Excluded e) (Included i) = (if e < i then Included i else Excluded e)"

fun earlier_end :: "Bound \<Rightarrow> Bound \<Rightarrow> Bound" where
  "earlier_end (Included a) (Included b) = Included (min a b)"
| "earlier_end (Excluded a) (Excluded b) = Excluded (min a b)"
| "earlier_end x Unbounded = x"
| "earlier_end Unbounded x = x"
| "earlier_end (Included i) (Excluded e) = (if i < e then Included i else Excluded e)"
| "earlier_end (Excluded e) (Included i) = (if i < e then Included i else Excluded e)"

definition range_intersect :: "ProtocolRange \<Rightarrow> ProtocolRange \<Rightarrow> ProtocolRange option" where
  "range_intersect a b =
     (case (later_start (start_bound a) (start_bound b), earlier_end (end_bound a) (end_bound b)) of
        (Included from, Excluded to) \<Rightarrow> if from < to then Some (RBetween from to) else None
      | (Included from, Unbounded) \<Rightarrow> Some (RFrom from)
      | (Unbounded, Excluded to) \<Rightarrow> Some (RTo to)
      | (Unbounded, Unbounded) \<Rightarrow> Some RFull
      | _ \<Rightarrow> None)"

definition range_min :: "ProtocolRange \<Rightarrow> ProtocolVersion" where
  "range_min r = (case start_bound r of Included from \<Rightarrow> from | _ \<Rightarrow> PROTOCOL_VERSION_MIN)"

definition range_max :: "ProtocolRange \<Rightarrow> ProtocolVersion option" where
  "range_max r = (case end_bound r of Excluded from \<Rightarrow> version_previous from | _ \<Rightarrow> Some PROTOCOL_VERSION)"

text \<open>The conversions from Rust's ranges; the ones over \<open>u8\<close> supply the major version.\<close>

definition range_to_inclusive :: "ProtocolVersion \<Rightarrow> ProtocolRange option" where
  "range_to_inclusive v = map_option RTo (version_next v)"

definition range_inclusive :: "ProtocolVersion \<Rightarrow> ProtocolVersion \<Rightarrow> ProtocolRange option" where
  "range_inclusive a b = map_option (RBetween a) (version_next b)"

definition range_to_u8 :: "u8 \<Rightarrow> ProtocolRange" where
  "range_to_u8 to = RTo (ProtocolVersion PROTOCOL_VERSION_MAJOR to)"

definition range_from_u8 :: "u8 \<Rightarrow> ProtocolRange" where
  "range_from_u8 from = RFrom (ProtocolVersion PROTOCOL_VERSION_MAJOR from)"

definition range_u8 :: "u8 \<Rightarrow> u8 \<Rightarrow> ProtocolRange" where
  "range_u8 start end =
     RBetween (ProtocolVersion PROTOCOL_VERSION_MAJOR start) (ProtocolVersion PROTOCOL_VERSION_MAJOR end)"

definition range_to_inclusive_u8 :: "u8 \<Rightarrow> ProtocolRange option" where
  "range_to_inclusive_u8 to = map_option RTo (version_next (ProtocolVersion PROTOCOL_VERSION_MAJOR to))"

definition range_inclusive_u8 :: "u8 \<Rightarrow> u8 \<Rightarrow> ProtocolRange option" where
  "range_inclusive_u8 start end =
     map_option (RBetween (ProtocolVersion PROTOCOL_VERSION_MAJOR start))
       (version_next (ProtocolVersion PROTOCOL_VERSION_MAJOR end))"

definition range_default :: "ProtocolRange option" where
  "range_default = map_option (RBetween PROTOCOL_VERSION_MIN) (version_next PROTOCOL_VERSION)"

fun range_display :: "ProtocolRange \<Rightarrow> string" where
  "range_display RFull = ''..''"
| "range_display (RTo to) = ''..'' @ version_display to"
| "range_display (RFrom from) = version_display from @ ''..''"
| "range_display (RBetween from to) = version_display from @ ''..'' @ version_display to"

text \<open>\<open>strip_suffix("..")\<close> and \<open>split_once("..")\<close>.\<close>

definition strip_dots_suffix :: "string \<Rightarrow> string option" where
  "strip_dots_suffix s = (if drop (length s - 2) s = ''..'' then Some (take (length s - 2) s) else None)"

fun split_dots :: "string \<Rightarrow> (string \<times> string) option" where
  "split_dots [] = None"
| "split_dots (c # s) =
     (case str_strip_prefix ''..'' (c # s) of
        Some rest \<Rightarrow> Some ([], rest)
      | None \<Rightarrow> map_option (\<lambda>(a, b). (c # a, b)) (split_dots s))"

definition range_from_str :: "string \<Rightarrow> ParseProtocolVersionError + ProtocolRange" where
  "range_from_str s =
     (if s = ''..'' then Inr RFull
      else case strip_dots_suffix s of
        Some from \<Rightarrow> result_map RFrom (version_from_str from)
      | None \<Rightarrow>
          (case str_strip_prefix ''..'' s of
             Some to \<Rightarrow> result_map RTo (version_from_str to)
           | None \<Rightarrow>
               (case split_dots s of
                  Some (from, to) \<Rightarrow>
                    result_bind (version_from_str from) (\<lambda>from. result_map (RBetween from) (version_from_str to))
                | None \<Rightarrow> Inl \<lparr>pv_msg = ''invalid format'', pv_value = s\<rparr>)))"

text \<open>\<open>RangeBounds::contains\<close>.\<close>

definition range_contains :: "ProtocolRange \<Rightarrow> ProtocolVersion \<Rightarrow> bool" where
  "range_contains r v \<longleftrightarrow>
     (case start_bound r of Included from \<Rightarrow> from \<le> v | Excluded from \<Rightarrow> from < v | Unbounded \<Rightarrow> True) \<and>
     (case end_bound r of Included to \<Rightarrow> v \<le> to | Excluded to \<Rightarrow> v < to | Unbounded \<Rightarrow> True)"

section \<open>Facts\<close>

lemma u16_masks: "(0xff00 :: u16) = push_bit 8 (mask 8)" "(0x00ff :: u16) = mask 8"
  by (simp_all add: mask_eq_exp_minus_1 push_bit_eq_mult)

lemma version_from_to_u16: "version_from_u16 (version_to_u16 v) = v"
proof (cases v)
  case (ProtocolVersion a b)
  have "ucast (drop_bit 8 ((push_bit 8 (ucast a) OR ucast b) AND (push_bit 8 (mask 8) :: u16))) = a"
    by (rule bit_word_eqI) (auto simp: bit_simps dest: bit_imp_le_length)
  moreover have "ucast ((push_bit 8 (ucast a) OR ucast b) AND (mask 8 :: u16)) = b"
    by (rule bit_word_eqI) (auto simp: bit_simps)
  ultimately show ?thesis using ProtocolVersion
    by (simp only: version_from_u16_def version_to_u16_def u16_masks ProtocolVersion.sel)
qed

lemma version_to_from_u16: "version_to_u16 (version_from_u16 w) = w"
proof -
  have "push_bit 8 (ucast (ucast (drop_bit 8 (w AND push_bit 8 (mask 8))) :: u8)) OR
      ucast (ucast (w AND mask 8) :: u8) = w"
    by (rule bit_word_eqI) (auto simp: bit_simps)
  then show ?thesis by (simp only: version_from_u16_def version_to_u16_def u16_masks ProtocolVersion.sel)
qed

lemma intersect_contains:
  "(case range_intersect a b of None \<Rightarrow> False | Some r \<Rightarrow> range_contains r v) \<longleftrightarrow>
     range_contains a v \<and> range_contains b v"
  by (cases a; cases b) (auto simp: range_intersect_def range_contains_def)

text \<open>Text.\<close>

lemma parse_u8_digits_append:
  "parse_u8_digits acc s = Inr w \<Longrightarrow> unat w * 10 + d < 256 \<Longrightarrow> d < 10 \<Longrightarrow> acc < 256 \<Longrightarrow>
     parse_u8_digits acc (s @ [digit_char d]) = Inr (word_of_nat (unat w * 10 + d))"
  by (induction acc s rule: parse_u8_digits.induct)
    (auto simp: unat_of_nat split: option.splits if_splits)

lemma parse_u8_digits_show: "n < 256 \<Longrightarrow> parse_u8_digits 0 (show_nat n) = Inr (word_of_nat n)"
proof (induction n rule: show_nat.induct)
  case (1 n)
  show ?case
  proof (cases "n < 10")
    case True
    then show ?thesis by (simp add: show_nat.simps [of n])
  next
    case False
    have IH: "parse_u8_digits 0 (show_nat (n div 10)) = Inr (word_of_nat (n div 10))" using 1 False by simp
    have u: "unat (word_of_nat (n div 10) :: u8) = n div 10" using 1(2) by (simp add: unat_of_nat)
    have "n div 10 * 10 + n mod 10 = n" by simp
    then show ?thesis using parse_u8_digits_append [OF IH, of "n mod 10"] u 1(2) False
      by (simp add: show_nat.simps [of n])
  qed
qed

lemma show_nat_chars: "c \<in> set (show_nat n) \<Longrightarrow> c \<noteq> CHR ''.'' \<and> c \<noteq> CHR ''+''"
proof -
  assume "c \<in> set (show_nat n)"
  then obtain d where d: "d < 10" "c = digit_char d" using show_nat_digits by blast
  then have "char_digit c = Some d" by simp
  then show ?thesis by (auto simp: char_digit_def)
qed

lemma show_nat_no_dot: "CHR ''.'' \<notin> set (show_nat n)"
  using show_nat_chars by blast

lemma parse_u8_show: "parse_u8 (show_nat (unat (w :: u8))) = Inr w"
proof -
  have "unat w < 256" using unsigned_less [of w, where ?'a = nat] by simp
  then have p: "parse_u8_digits 0 (show_nat (unat w)) = Inr w" using parse_u8_digits_show [of "unat w"] by simp
  show ?thesis
  proof (cases "show_nat (unat w)")
    case (Cons c t)
    then have "c \<noteq> CHR ''+''" using show_nat_chars [of c "unat w"] by simp
    with Cons p show ?thesis by (simp add: parse_u8_def)
  qed simp
qed

lemma version_from_display: "version_from_str (version_display v) = Inr v"
  by (simp add: version_from_str_def version_display_def parse_u8_show split_once_append show_nat_no_dot)

text \<open>The text of a version has one dot, with digits on both sides.\<close>

lemma version_display_ends:
  "\<exists>c s. version_display v = c # s \<and> c \<noteq> CHR ''.''" "\<exists>c s. version_display v = s @ [c] \<and> c \<noteq> CHR ''.''"
proof -
  have "hd (show_nat n) \<noteq> CHR ''.''" "last (show_nat n) \<noteq> CHR ''.''" for n
    using show_nat_no_dot [of n] hd_in_set [OF show_nat_not_Nil [of n]] last_in_set [OF show_nat_not_Nil [of n]] by metis+
  note ends = this
  have "version_display v = hd (version_display v) # tl (version_display v)" by (simp add: version_display_def)
  moreover have "hd (version_display v) \<noteq> CHR ''.''" using ends(1) by (simp add: version_display_def)
  ultimately show "\<exists>c s. version_display v = c # s \<and> c \<noteq> CHR ''.''" by blast
  have "version_display v = butlast (version_display v) @ [last (version_display v)]"
    by (rule append_butlast_last_id [symmetric]) (simp add: version_display_def)
  moreover have "last (version_display v) \<noteq> CHR ''.''" using ends(2) by (simp add: version_display_def)
  ultimately show "\<exists>c s. version_display v = s @ [c] \<and> c \<noteq> CHR ''.''" by blast
qed

lemma split_dots_digits: "CHR ''.'' \<notin> set a \<Longrightarrow> split_dots (a @ s) = map_option (\<lambda>(x, y). (a @ x, y)) (split_dots s)"
  by (induction a) (auto simp: str_strip_prefix_def option.map_comp comp_def case_prod_unfold option.map_ident)

lemma split_dots_version: "split_dots (version_display a @ ''..'' @ s) = Some (version_display a, s)"
proof -
  note n = show_nat_no_dot
  let ?m = "show_nat (unat (pv_minor a))"
  obtain c t where t: "?m = c # t" by (cases ?m) auto
  then have c: "c \<noteq> CHR ''.''" using n [of "unat (pv_minor a)"] by auto
  have m: "split_dots (?m @ ''..'' @ s) = Some (?m, s)"
    by (simp only: split_dots_digits [OF n]) (simp add: str_strip_prefix_def)
  have "split_dots (''.'' @ ?m @ ''..'' @ s) = map_option (\<lambda>(x, y). (CHR ''.'' # x, y)) (split_dots (?m @ ''..'' @ s))"
    using t c by (simp add: str_strip_prefix_def)
  with m show ?thesis unfolding version_display_def append_assoc split_dots_digits [OF n] by simp
qed

lemma range_from_display: "range_from_str (range_display r) = Inr r"
proof (cases r)
  case RFull
  then show ?thesis by (simp add: range_from_str_def)
next
  case (RTo v)
  obtain c s where v: "version_display v = s @ [c]" "c \<noteq> CHR ''.''" using version_display_ends(2) by blast
  then have "strip_dots_suffix (''..'' @ version_display v) = None" by (cases s rule: rev_cases) (auto simp: strip_dots_suffix_def)
  with RTo v show ?thesis using version_from_display [of v] by (auto simp: range_from_str_def str_strip_prefix_def)
next
  case (RFrom v)
  obtain c s where "version_display v = c # s" "c \<noteq> CHR ''.''" using version_display_ends(1) by blast
  with RFrom version_from_display [of v] show ?thesis by (auto simp: range_from_str_def strip_dots_suffix_def)
next
  case (RBetween a b)
  obtain c s where b: "version_display b = s @ [c]" "c \<noteq> CHR ''.''" using version_display_ends(2) by blast
  then have "strip_dots_suffix (version_display a @ ''..'' @ version_display b) = None"
    by (cases s rule: rev_cases) (auto simp: strip_dots_suffix_def)
  moreover obtain c' t where a: "version_display a = c' # t" "c' \<noteq> CHR ''.''" using version_display_ends(1) by blast
  then have "str_strip_prefix ''..'' (version_display a @ ''..'' @ version_display b) = None"
    by (simp add: str_strip_prefix_def)
  moreover have "version_display a @ ''..'' @ version_display b \<noteq> ''..''" using a by simp
  ultimately show ?thesis using RBetween version_from_display split_dots_version [of a "version_display b"]
    by (simp add: range_from_str_def)
qed

section \<open>Properties\<close>

text \<open>
  A protocol version and the \<open>u16\<close> it is sent as determine each other, and every version and every range of
  versions is read back from the text it is printed as.
\<close>

theorem version_roundtrip:
  "version_from_u16 (version_to_u16 v) = v \<and> version_to_u16 (version_from_u16 w) = w \<and>
   version_from_str (version_display v) = Inr v \<and> range_from_str (range_display r) = Inr r"
  by (simp add: version_from_to_u16 version_to_from_u16 version_from_display range_from_display)

text \<open>
  \<open>ProtocolRange::intersect\<close> is the intersection: a version is in the result, where there is one, exactly if
  it is in both ranges, and there is no result only if no version is in both.
\<close>

theorem range_intersect_exact:
  "(case range_intersect a b of None \<Rightarrow> False | Some r \<Rightarrow> range_contains r v) \<longleftrightarrow>
     range_contains a v \<and> range_contains b v"
  by (rule intersect_contains)

end
