(* ===== verification/Nix_Ser.thy ===== *)
theory Nix_Ser
  imports Version Write_Buf
begin

text \<open>
  Serialisation of the daemon protocol (\<open>harmonia-protocol/src/ser\<close>): the trait \<open>NixWrite\<close> as a record of its
  operations, and the implementations of \<open>NixSerialize\<close> for numbers, strings and collections, each of them generic in
  the writer as in the code. A \<open>BTreeSet\<close> is the list of its elements in order, a \<open>BTreeMap\<close> the list of its
  entries in the order of the keys, a \<open>usize\<close> a \<open>nat\<close> below \<open>2 ^ 64\<close>.

  The contract of a writer is the locale \<open>nix_write\<close>, that of a serialiser \<open>value_writer\<close>; every implementation here
  is shown to keep the second over any writer that keeps the first.
\<close>

section \<open>Asynchronous functions\<close>

type_synonym ('s, 'a) awaited = "('s \<times> 'a io_result) option"

text \<open>\<open>.await?\<close> and what follows it.\<close>

definition aw_bind :: "('s, 'a) awaited \<Rightarrow> ('s \<Rightarrow> 'a \<Rightarrow> ('s, 'b) awaited) \<Rightarrow> ('s, 'b) awaited" where
  "aw_bind m f = (case m of None \<Rightarrow> None | Some (s, Inl e) \<Rightarrow> Some (s, Inl e) | Some (s, Inr x) \<Rightarrow> f s x)"

lemma aw_bind_simps [simp]:
  "aw_bind (Some (s, Inr x)) f = f s x" "aw_bind (Some (s, Inl e)) f = Some (s, Inl e)" "aw_bind None f = None"
  by (simp_all add: aw_bind_def)

lemma aw_bind_InrE:
  assumes "aw_bind m f = Some (s, Inr y)"
  obtains s1 x where "m = Some (s1, Inr x)" "f s1 x = Some (s, Inr y)"
  using assms by (auto simp: aw_bind_def split: option.splits sum.splits)

section \<open>The trait \<open>NixWrite\<close>\<close>

record 'w NixWrite =
  wr_version :: "'w \<Rightarrow> ProtocolVersion"
  wr_store_dir :: "'w \<Rightarrow> StoreDir"
  wr_number :: "'w \<Rightarrow> u64 \<Rightarrow> ('w, unit) awaited"
  wr_slice :: "'w \<Rightarrow> bytes \<Rightarrow> ('w, unit) awaited"
  wr_display :: "'w \<Rightarrow> bytes \<Rightarrow> ('w, unit) awaited"

type_synonym ('w, 'a) serializer = "'w NixWrite \<Rightarrow> 'a \<Rightarrow> 'w \<Rightarrow> ('w, unit) awaited"

definition sent :: "(io_error \<Rightarrow> bool) \<Rightarrow> (bytes \<Rightarrow> 'w \<Rightarrow> bool) \<Rightarrow> bytes \<Rightarrow> ('w, unit) awaited \<Rightarrow> bool" where
  "sent err I p m \<longleftrightarrow> (\<exists>w x. m = Some (w, x) \<and> (case x of Inl e \<Rightarrow> err e | Inr _ \<Rightarrow> I p w))"

text \<open>\<open>I p w\<close>: the writer \<open>w\<close> has been given the bytes \<open>p\<close>. A text longer than \<open>limit\<close> may be refused by
  \<open>write_display\<close>.\<close>

locale nix_write =
  fixes W :: "'w NixWrite" and I :: "bytes \<Rightarrow> 'w \<Rightarrow> bool" and err :: "io_error \<Rightarrow> bool" and limit :: nat
  assumes number_law: "I p w \<Longrightarrow> sent err I (p @ to_le_bytes v) (wr_number W w v)"
    and slice_law: "I p w \<Longrightarrow> sent err I (p @ nix_slice b) (wr_slice W w b)"
    and display_law: "I p w \<Longrightarrow> sent (\<lambda>e. err e \<or> limit < length b) I (p @ nix_slice b) (wr_display W w b)"

locale value_writer = nix_write W I err limit for W :: "'w NixWrite" and I err limit +
  fixes ser :: "'a \<Rightarrow> 'w \<Rightarrow> ('w, unit) awaited" and enc :: "'a \<Rightarrow> bytes" and vok :: "'a \<Rightarrow> bool"
  assumes ser_law: "I p w \<Longrightarrow> vok v \<Longrightarrow> sent err I (p @ enc v) (ser v w)"

lemma sent_bind:
  assumes "sent err I p m" "\<And>w. I p w \<Longrightarrow> sent err I (p @ q) (f w ())"
  shows "sent err I (p @ q) (aw_bind m f)"
proof -
  obtain w x where m: "m = Some (w, x)" "case x of Inl e \<Rightarrow> err e | Inr _ \<Rightarrow> I p w"
    using assms(1) by (auto simp: sent_def)
  show ?thesis
  proof (cases x)
    case (Inl e)
    with m show ?thesis by (simp add: sent_def)
  next
    case (Inr u)
    with m assms(2) [of w] show ?thesis by (cases u) simp
  qed
qed

lemma sent_done: "I p w \<Longrightarrow> sent err I p (Some (w, Inr ()))"
  by (simp add: sent_def)

section \<open>Numbers and strings\<close>

definition ser_u64 :: "('w, u64) serializer" where
  "ser_u64 W v w = wr_number W w v"

definition ser_usize :: "('w, nat) serializer" where
  "ser_usize W n w = wr_number W w (word_of_nat n)"

definition ser_u16 :: "('w, u16) serializer" where
  "ser_u16 W v w = ser_u64 W (ucast v) w"

definition ser_u32 :: "('w, u32) serializer" where
  "ser_u32 W v w = ser_u64 W (ucast v) w"

definition ser_bool :: "('w, bool) serializer" where
  "ser_bool W b w = (if b then wr_number W w 1 else wr_number W w 0)"

text \<open>An \<open>i64\<close> is the word whose \<open>sint\<close> it is, so that \<open>as u64\<close> keeps it.\<close>

definition ser_i64 :: "('w, 64 word) serializer" where
  "ser_i64 W v w = wr_number W w v"

definition ser_bytes :: "('w, bytes) serializer" where
  "ser_bytes W b w = wr_slice W w b"

definition ser_string :: "('w, string) serializer" where
  "ser_string W s w = wr_slice W w (as_bytes s)"

section \<open>Collections\<close>

fun ser_elems :: "('a \<Rightarrow> 'w \<Rightarrow> ('w, unit) awaited) \<Rightarrow> 'a list \<Rightarrow> 'w \<Rightarrow> ('w, unit) awaited" where
  "ser_elems ser [] w = Some (w, Inr ())"
| "ser_elems ser (x # xs) w = aw_bind (ser x w) (\<lambda>w _. ser_elems ser xs w)"

definition ser_vec :: "'w NixWrite \<Rightarrow> ('a \<Rightarrow> 'w \<Rightarrow> ('w, unit) awaited) \<Rightarrow> 'a list \<Rightarrow> 'w \<Rightarrow> ('w, unit) awaited" where
  "ser_vec W ser xs w = aw_bind (ser_usize W (length xs) w) (\<lambda>w _. ser_elems ser xs w)"

definition ser_set :: "'w NixWrite \<Rightarrow> ('a \<Rightarrow> 'w \<Rightarrow> ('w, unit) awaited) \<Rightarrow> 'a list \<Rightarrow> 'w \<Rightarrow> ('w, unit) awaited" where
  "ser_set W ser xs w = aw_bind (ser_usize W (length xs) w) (\<lambda>w _. ser_elems ser xs w)"

fun ser_entries ::
  "('k \<Rightarrow> 'w \<Rightarrow> ('w, unit) awaited) \<Rightarrow> ('v \<Rightarrow> 'w \<Rightarrow> ('w, unit) awaited) \<Rightarrow> ('k \<times> 'v) list \<Rightarrow> 'w \<Rightarrow> ('w, unit) awaited" where
  "ser_entries kser vser [] w = Some (w, Inr ())"
| "ser_entries kser vser ((k, v) # es) w =
     aw_bind (kser k w) (\<lambda>w _. aw_bind (vser v w) (\<lambda>w _. ser_entries kser vser es w))"

definition ser_map ::
  "'w NixWrite \<Rightarrow> ('k \<Rightarrow> 'w \<Rightarrow> ('w, unit) awaited) \<Rightarrow> ('v \<Rightarrow> 'w \<Rightarrow> ('w, unit) awaited) \<Rightarrow> ('k \<times> 'v) list \<Rightarrow> 'w \<Rightarrow> ('w, unit) awaited" where
  "ser_map W kser vser m w = aw_bind (ser_usize W (length m) w) (\<lambda>w _. ser_entries kser vser m w)"

section \<open>Encodings\<close>

definition enc_usize :: "nat \<Rightarrow> bytes" where
  "enc_usize n = to_le_bytes (word_of_nat n)"

definition enc_bool :: "bool \<Rightarrow> bytes" where
  "enc_bool b = to_le_bytes (if b then 1 else 0)"

definition enc_string :: "string \<Rightarrow> bytes" where
  "enc_string s = nix_slice (as_bytes s)"

definition enc_vec :: "('a \<Rightarrow> bytes) \<Rightarrow> 'a list \<Rightarrow> bytes" where
  "enc_vec enc xs = enc_usize (length xs) @ concat (map enc xs)"

definition enc_pair :: "('k \<Rightarrow> bytes) \<Rightarrow> ('v \<Rightarrow> bytes) \<Rightarrow> 'k \<times> 'v \<Rightarrow> bytes" where
  "enc_pair kenc venc e = kenc (fst e) @ venc (snd e)"

context nix_write
begin

lemma number_writer: "value_writer W I err limit (\<lambda>v w. wr_number W w (f v)) (\<lambda>v. to_le_bytes (f v)) (\<lambda>_. True)"
  by unfold_locales (rule number_law)

lemma u64_writer: "value_writer W I err limit (ser_u64 W) to_le_bytes (\<lambda>_. True)"
  using number_writer [of "\<lambda>v. v"] by (simp add: ser_u64_def [abs_def])

lemma usize_writer: "value_writer W I err limit (ser_usize W) enc_usize (\<lambda>_. True)"
  using number_writer [of word_of_nat] by (simp add: ser_usize_def [abs_def] enc_usize_def [abs_def])

lemma u16_writer: "value_writer W I err limit (ser_u16 W) (\<lambda>v. to_le_bytes (ucast v)) (\<lambda>_. True)"
  using number_writer [of ucast] by (simp add: ser_u16_def [abs_def] ser_u64_def)

lemma u32_writer: "value_writer W I err limit (ser_u32 W) (\<lambda>v. to_le_bytes (ucast v)) (\<lambda>_. True)"
  using number_writer [of ucast] by (simp add: ser_u32_def [abs_def] ser_u64_def)

lemma i64_writer: "value_writer W I err limit (ser_i64 W) to_le_bytes (\<lambda>_. True)"
  using number_writer [of "\<lambda>v. v"] by (simp add: ser_i64_def [abs_def])

lemma bool_writer: "value_writer W I err limit (ser_bool W) enc_bool (\<lambda>_. True)"
  by unfold_locales (auto simp: ser_bool_def enc_bool_def intro: number_law)

lemma bytes_writer: "value_writer W I err limit (ser_bytes W) nix_slice (\<lambda>_. True)"
  by unfold_locales (auto simp: ser_bytes_def intro: slice_law)

lemma string_writer: "value_writer W I err limit (ser_string W) enc_string (\<lambda>_. True)"
  by unfold_locales (auto simp: ser_string_def enc_string_def intro: slice_law)

end

context value_writer
begin

lemma elems_sent: "I p w \<Longrightarrow> list_all vok xs \<Longrightarrow> sent err I (p @ concat (map enc xs)) (ser_elems ser xs w)"
proof (induction xs arbitrary: p w)
  case Nil
  then show ?case by (simp add: sent_done)
next
  case (Cons x xs)
  then have "sent err I (p @ enc x) (ser x w)" using ser_law by simp
  then have "sent err I ((p @ enc x) @ concat (map enc xs)) (aw_bind (ser x w) (\<lambda>w _. ser_elems ser xs w))"
    by (rule sent_bind) (use Cons in \<open>simp del: append_assoc\<close>)
  then show ?case by simp
qed

lemma vec_writer: "value_writer W I err limit (ser_vec W ser) (enc_vec enc) (list_all vok)"
proof
  fix p w v
  assume "I p w" "list_all vok v"
  then show "sent err I (p @ enc_vec enc v) (ser_vec W ser v w)"
    using sent_bind [OF value_writer.ser_law [OF usize_writer]] elems_sent
    by (simp add: ser_vec_def enc_vec_def flip: append_assoc)
qed

lemma set_writer: "value_writer W I err limit (ser_set W ser) (enc_vec enc) (list_all vok)"
  using vec_writer by (simp add: ser_set_def [abs_def] ser_vec_def [abs_def])

end

lemma entries_elems:
  "ser_entries kser vser es w = ser_elems (\<lambda>e w. aw_bind (kser (fst e) w) (\<lambda>w _. vser (snd e) w)) es w"
  by (induction es arbitrary: w) (auto simp: aw_bind_def split: option.splits sum.splits)

lemma map_writer:
  assumes k: "value_writer W I err limit kser kenc kok" and v: "value_writer W I err limit vser venc vok"
  shows "value_writer W I err limit (ser_map W kser vser) (enc_vec (enc_pair kenc venc)) (list_all (\<lambda>e. kok (fst e) \<and> vok (snd e)))"
proof -
  have "value_writer W I err limit (\<lambda>e w. aw_bind (kser (fst e) w) (\<lambda>w _. vser (snd e) w)) (enc_pair kenc venc)
      (\<lambda>e. kok (fst e) \<and> vok (snd e))"
  proof (intro value_writer.intro [OF value_writer.axioms(1) [OF k]] value_writer_axioms.intro)
    fix p w e
    assume "I p w" "kok (fst e) \<and> vok (snd e)"
    then show "sent err I (p @ enc_pair kenc venc e) (aw_bind (kser (fst e) w) (\<lambda>w _. vser (snd e) w))"
      using sent_bind [OF value_writer.ser_law [OF k]] value_writer.ser_law [OF v]
      by (simp add: enc_pair_def flip: append_assoc)
  qed
  from value_writer.vec_writer [OF this] show ?thesis
    by (simp add: ser_map_def [abs_def] ser_vec_def [abs_def] entries_elems)
qed

end
