(* ===== verification/Nix_Writer.thy ===== *)
theory Nix_Writer
  imports Nix_Ser
begin

text \<open>
  \<open>NixWriter\<close> of \<open>harmonia-protocol/src/ser/writer.rs\<close>: a \<open>NixWrite\<close> over any \<open>AsyncWrite\<close>. Its buffer is a
  \<open>BytesMut\<close> that never grows by itself (\<open>LimitBuffer\<close>): a write beyond its capacity panics, so the writer has to flush in
  time. A text for \<open>write_display\<close> is the bytes its \<open>Display\<close> produces.

  The facts: the writer never panics, hands all it was given on in order, and keeps the
  contract \<open>nix_write\<close> (\<open>nix_writer_contract\<close>); texts that are refused are longer than half of the
  reserved size allows.
\<close>

section \<open>\<open>LimitBuffer\<close>\<close>

definition lb_put :: "BytesMut \<Rightarrow> bytes \<Rightarrow> BytesMut option" where
  "lb_put b d = (if bm_remaining b < length d then None else Some (b\<lparr>bm_data := bm_data b @ d\<rparr>))"

definition lb_write_str :: "BytesMut \<Rightarrow> bytes \<Rightarrow> BytesMut option" where
  "lb_write_str b d = (if length d \<le> bm_remaining b then lb_put b d else None)"

section \<open>The writer\<close>

record 'w NixWriter =
  nw_inner :: 'w
  nw_buf :: BytesMut
  nw_display_buf_size :: nat
  nw_reserved_buf_size :: nat
  nw_max_buf_size :: nat
  nw_version :: ProtocolVersion
  nw_store_dir :: StoreDir

record NixWriterBuilder =
  wb_buf :: "BytesMut option"
  wb_reserved_buf_size :: nat
  wb_display_buf_size :: nat
  wb_initial_buf_size :: nat
  wb_version :: ProtocolVersion
  wb_store_dir :: StoreDir

definition nix_writer_builder :: NixWriterBuilder where
  "nix_writer_builder = \<lparr>wb_buf = None, wb_reserved_buf_size = RESERVED_BUF_SIZE, wb_display_buf_size = 8192,
     wb_initial_buf_size = DEFAULT_BUF_SIZE, wb_version = PROTOCOL_VERSION, wb_store_dir = default_dir\<rparr>"

definition wb_set_buffer :: "NixWriterBuilder \<Rightarrow> BytesMut \<Rightarrow> NixWriterBuilder" where
  "wb_set_buffer b buf = b\<lparr>wb_buf := Some buf\<rparr>"

definition wb_set_display_buf_size :: "NixWriterBuilder \<Rightarrow> nat \<Rightarrow> NixWriterBuilder option" where
  "wb_set_display_buf_size b sz = (if 8 \<le> sz then Some (b\<lparr>wb_display_buf_size := sz\<rparr>) else None)"

definition wb_set_reserved_buf_size :: "NixWriterBuilder \<Rightarrow> nat \<Rightarrow> NixWriterBuilder option" where
  "wb_set_reserved_buf_size b sz = (if 8 \<le> sz then Some (b\<lparr>wb_reserved_buf_size := sz\<rparr>) else None)"

definition wb_set_initial_buf_size :: "NixWriterBuilder \<Rightarrow> nat \<Rightarrow> NixWriterBuilder" where
  "wb_set_initial_buf_size b sz = b\<lparr>wb_initial_buf_size := sz\<rparr>"

definition wb_set_version :: "NixWriterBuilder \<Rightarrow> ProtocolVersion \<Rightarrow> NixWriterBuilder" where
  "wb_set_version b version = b\<lparr>wb_version := version\<rparr>"

definition wb_set_store_dir :: "NixWriterBuilder \<Rightarrow> StoreDir \<Rightarrow> NixWriterBuilder" where
  "wb_set_store_dir b store_dir = b\<lparr>wb_store_dir := store_dir\<rparr>"

definition wb_build :: "Alloc \<Rightarrow> NixWriterBuilder \<Rightarrow> 'w \<Rightarrow> 'w NixWriter" where
  "wb_build A b writer =
     \<lparr>nw_inner = writer,
      nw_buf = (case wb_buf b of Some buf \<Rightarrow> buf | None \<Rightarrow> bm_new A (wb_initial_buf_size b)),
      nw_display_buf_size = wb_display_buf_size b, nw_reserved_buf_size = wb_reserved_buf_size b,
      nw_max_buf_size = wb_initial_buf_size b, nw_version = wb_version b, nw_store_dir = wb_store_dir b\<rparr>"

definition nix_writer_new :: "Alloc \<Rightarrow> 'w \<Rightarrow> 'w NixWriter" where
  "nix_writer_new A writer = wb_build A nix_writer_builder writer"

definition nw_set_version :: "'w NixWriter \<Rightarrow> ProtocolVersion \<Rightarrow> 'w NixWriter" where
  "nw_set_version nw version = nw\<lparr>nw_version := version\<rparr>"

definition nw_remaining_mut :: "'w NixWriter \<Rightarrow> nat" where
  "nw_remaining_mut nw = bm_remaining (nw_buf nw)"

definition nw_poll_flush_buf ::
  "Alloc \<Rightarrow> ('w \<Rightarrow> bytes \<Rightarrow> ('w, nat) polled) \<Rightarrow> 'w NixWriter \<Rightarrow> ('w NixWriter, unit) polled" where
  "nw_poll_flush_buf A put nw =
     (case flush_bytes A put (nw_inner nw) (nw_buf nw) of
        None \<Rightarrow> None
      | Some (w, b, Pending) \<Rightarrow> Some (nw\<lparr>nw_inner := w, nw_buf := b\<rparr>, Pending)
      | Some (w, b, Ready (Inl e)) \<Rightarrow> Some (nw\<lparr>nw_inner := w, nw_buf := b\<rparr>, Ready (Inl e))
      | Some (w, b, Ready (Inr _)) \<Rightarrow>
          (let cap = bm_cap b;
               b' = (if cap < nw_reserved_buf_size nw then bm_reserve A b (nw_reserved_buf_size nw - cap) else b)
           in Some (nw\<lparr>nw_inner := w, nw_buf := b'\<rparr>, Ready (Inr ()))))"

definition nw_store ::
  "('w \<Rightarrow> bytes \<Rightarrow> ('w, nat) polled) \<Rightarrow> 'w NixWriter \<Rightarrow> bytes \<Rightarrow> ('w NixWriter, nat) polled" where
  "nw_store put nw buf =
     (if bm_cap (nw_buf nw) < length buf
      then map_option (apfst (\<lambda>w. nw\<lparr>nw_inner := w\<rparr>)) (put (nw_inner nw) buf)
      else map_option (\<lambda>b. (nw\<lparr>nw_buf := b\<rparr>, Ready (Inr (length buf)))) (lb_put (nw_buf nw) buf))"

definition nw_poll_write ::
  "Alloc \<Rightarrow> ('w \<Rightarrow> bytes \<Rightarrow> ('w, nat) polled) \<Rightarrow> 'w NixWriter \<Rightarrow> bytes \<Rightarrow> ('w NixWriter, nat) polled" where
  "nw_poll_write A put nw buf =
     (if nw_remaining_mut nw < length buf then
        (case nw_poll_flush_buf A put nw of
           None \<Rightarrow> None
         | Some (nw', Pending) \<Rightarrow> Some (nw', Pending)
         | Some (nw', Ready (Inl e)) \<Rightarrow> Some (nw', Ready (Inl e))
         | Some (nw', Ready (Inr _)) \<Rightarrow> nw_store put nw' buf)
      else nw_store put nw buf)"

definition nw_poll_flush ::
  "Alloc \<Rightarrow> ('w \<Rightarrow> bytes \<Rightarrow> ('w, nat) polled) \<Rightarrow> ('w \<Rightarrow> ('w, unit) polled) \<Rightarrow> 'w NixWriter \<Rightarrow> ('w NixWriter, unit) polled" where
  "nw_poll_flush A put flush nw =
     (case nw_poll_flush_buf A put nw of
        None \<Rightarrow> None
      | Some (nw', Pending) \<Rightarrow> Some (nw', Pending)
      | Some (nw', Ready (Inl e)) \<Rightarrow> Some (nw', Ready (Inl e))
      | Some (nw', Ready (Inr _)) \<Rightarrow> map_option (apfst (\<lambda>w. nw'\<lparr>nw_inner := w\<rparr>)) (flush (nw_inner nw')))"

definition nw_poll_shutdown ::
  "Alloc \<Rightarrow> ('w \<Rightarrow> bytes \<Rightarrow> ('w, nat) polled) \<Rightarrow> ('w \<Rightarrow> ('w, unit) polled) \<Rightarrow> ('w \<Rightarrow> ('w, unit) polled) \<Rightarrow>
     'w NixWriter \<Rightarrow> ('w NixWriter, unit) polled" where
  "nw_poll_shutdown A put flush shutdown nw =
     (case nw_poll_flush A put flush nw of
        None \<Rightarrow> None
      | Some (nw', Pending) \<Rightarrow> Some (nw', Pending)
      | Some (nw', Ready (Inl e)) \<Rightarrow> Some (nw', Ready (Inl e))
      | Some (nw', Ready (Inr _)) \<Rightarrow> map_option (apfst (\<lambda>w. nw'\<lparr>nw_inner := w\<rparr>)) (shutdown (nw_inner nw')))"

definition nw_write_all :: "Alloc \<Rightarrow> ('w \<Rightarrow> bytes \<Rightarrow> ('w, nat) polled) \<Rightarrow> 'w NixWriter \<Rightarrow> bytes \<Rightarrow> ('w NixWriter, unit) awaited" where
  "nw_write_all A put = write_all (nw_poll_write A put)"

definition nw_write_number :: "Alloc \<Rightarrow> ('w \<Rightarrow> bytes \<Rightarrow> ('w, nat) polled) \<Rightarrow> 'w NixWriter \<Rightarrow> u64 \<Rightarrow> ('w NixWriter, unit) awaited" where
  "nw_write_number A put nw value = nw_write_all A put nw (to_le_bytes value)"

definition nw_write_slice :: "Alloc \<Rightarrow> ('w \<Rightarrow> bytes \<Rightarrow> ('w, nat) polled) \<Rightarrow> 'w NixWriter \<Rightarrow> bytes \<Rightarrow> ('w NixWriter, unit) awaited" where
  "nw_write_slice A put nw buf =
     (let padding = calc_padding (word_of_nat (length buf)) in
      aw_bind (nw_write_number A put nw (word_of_nat (length buf))) (\<lambda>nw _.
      aw_bind (nw_write_all A put nw buf) (\<lambda>nw _.
        if 0 < padding then nw_write_all A put nw (take padding ZEROS) else Some (nw, Inr ()))))"

definition nw_flush_buf :: "Alloc \<Rightarrow> ('w \<Rightarrow> bytes \<Rightarrow> ('w, nat) polled) \<Rightarrow> 'w NixWriter \<Rightarrow> ('w NixWriter, unit) awaited" where
  "nw_flush_buf A put nw = await (nw_poll_flush_buf A put) nw"

definition nw_write_display :: "Alloc \<Rightarrow> ('w \<Rightarrow> bytes \<Rightarrow> ('w, nat) polled) \<Rightarrow> 'w NixWriter \<Rightarrow> bytes \<Rightarrow> ('w NixWriter, unit) awaited" where
  "nw_write_display A put nw0 msg =
     aw_bind (if nw_remaining_mut nw0 < nw_display_buf_size nw0 then nw_flush_buf A put nw0 else Some (nw0, Inr ())) (\<lambda>nw _.
       let offset = length (bm_data (nw_buf nw)) in
       case lb_put (nw_buf nw) (to_le_bytes 0) of
         None \<Rightarrow> None
       | Some b1 \<Rightarrow>
           (case lb_write_str b1 msg of
              None \<Rightarrow>
                Some (nw\<lparr>nw_buf := b1\<lparr>bm_data := take offset (bm_data b1)\<rparr>\<rparr>,
                  Inl (IoError InvalidData ''an error occurred when formatting an argument''))
            | Some b2 \<Rightarrow>
                (let len = length (bm_data b2) - offset - 8;
                     data = take offset (bm_data b2) @ to_le_bytes (word_of_nat len) @ drop (offset + 8) (bm_data b2);
                     padding = calc_padding (word_of_nat len)
                 in nw_write_all A put (nw\<lparr>nw_buf := b2\<lparr>bm_data := data\<rparr>\<rparr>) (take padding ZEROS))))"

definition nix_writer_ops :: "Alloc \<Rightarrow> ('w \<Rightarrow> bytes \<Rightarrow> ('w, nat) polled) \<Rightarrow> 'w NixWriter NixWrite" where
  "nix_writer_ops A put = \<lparr>wr_version = nw_version, wr_store_dir = nw_store_dir, wr_number = nw_write_number A put,
     wr_slice = nw_write_slice A put, wr_display = nw_write_display A put\<rparr>"

section \<open>The contract\<close>

text \<open>All that was handed to the writer has gone to the sink or waits in the buffer, in this order.\<close>

definition nw_ok :: "nat \<Rightarrow> ProtocolVersion \<times> StoreDir \<Rightarrow> 'w NixWriter \<Rightarrow> bool" where
  "nw_ok limit env nw \<longleftrightarrow> env = (nw_version nw, nw_store_dir nw) \<and> bm_ok (nw_buf nw) \<and> 2 * (limit + 8) \<le> nw_reserved_buf_size nw \<and> nw_reserved_buf_size nw < 2 ^ 63 \<and>
     limit + 8 \<le> nw_display_buf_size nw"

definition nw_at :: "('w \<Rightarrow> bytes) \<Rightarrow> nat \<Rightarrow> ProtocolVersion \<times> StoreDir \<Rightarrow> bytes \<Rightarrow> 'w NixWriter \<Rightarrow> bool" where
  "nw_at written limit env p nw \<longleftrightarrow> nw_ok limit env nw \<and> written (nw_inner nw) @ bm_data (nw_buf nw) = p"

fun nw_flushed ::
  "('w \<Rightarrow> bytes) \<Rightarrow> (io_error \<Rightarrow> bool) \<Rightarrow> nat \<Rightarrow> ProtocolVersion \<times> StoreDir \<Rightarrow> bytes \<Rightarrow> 'w NixWriter \<Rightarrow> unit io_result poll \<Rightarrow> bool" where
  "nw_flushed written err limit env p nw' Pending \<longleftrightarrow> nw_at written limit env p nw'"
| "nw_flushed written err limit env p nw' (Ready (Inl e)) \<longleftrightarrow> err e"
| "nw_flushed written err limit env p nw' (Ready (Inr _)) \<longleftrightarrow>
     nw_at written limit env p nw' \<and> bm_data (nw_buf nw') = [] \<and> limit + 8 \<le> nw_remaining_mut nw'"

context buffered_write
begin

lemma nw_flush_spec:
  assumes at: "nw_at written limit env p nw"
  shows "\<exists>nw' res. nw_poll_flush_buf A put nw = Some (nw', res) \<and> nw_flushed written sink_err limit env p nw' res \<and>
    waits (wdelay (nw_inner nw)) (wdelay (nw_inner nw')) res"
proof -
  from at have ok: "bm_ok (nw_buf nw)" by (simp add: nw_at_def nw_ok_def)
  obtain w b res where f: "flush_bytes A put (nw_inner nw) (nw_buf nw) = Some (w, b, res)" and b: "bm_ok b"
    and out: "written w @ bm_data b = p" and d: "waits (wdelay (nw_inner nw)) (wdelay w) res"
    and post: "flushed_post sink_err b res"
    using flush_bytes_spec [OF ok, of "nw_inner nw"] at by (auto simp: nw_at_def)
  consider "res = Pending" | e where "res = Ready (Inl e)" | "res = Ready (Inr ())"
    by (metis poll.exhaust sum.exhaust unit.exhaust)
  then show ?thesis
  proof cases
    case 3
    let ?r = "nw_reserved_buf_size nw"
    let ?b = "if bm_cap b < ?r then bm_reserve A b (?r - bm_cap b) else b"
    have e: "bm_data b = []" using post 3 by simp
    have r: "bm_ok (bm_reserve A b (?r - bm_cap b))" "?r - bm_cap b \<le> bm_remaining (bm_reserve A b (?r - bm_cap b))"
      "bm_cap b \<le> bm_cap (bm_reserve A b (?r - bm_cap b))"
      using bm_reserve_ok [OF b, of "?r - bm_cap b"] e at by (auto simp: nw_at_def nw_ok_def)
    have "bm_ok ?b" using r b by simp
    moreover have "limit + 8 \<le> bm_remaining ?b"
      using r e at by (auto simp: nw_at_def nw_ok_def bm_remaining_def)
    ultimately show ?thesis using f 3 d out e at
      by (auto simp: nw_poll_flush_buf_def nw_at_def nw_ok_def nw_remaining_mut_def Let_def)
  qed (use f b out d post at in \<open>auto simp: nw_poll_flush_buf_def nw_at_def nw_ok_def\<close>)
qed

lemma nw_store_spec:
  assumes at: "nw_at written limit env p nw"
    and room: "length buf \<le> nw_remaining_mut nw \<or> bm_data (nw_buf nw) = []"
  shows "\<exists>nw' res. nw_store put nw buf = Some (nw', res) \<and>
    accept_post (nw_at written limit env) sink_err p buf nw' res \<and> waits (wdelay (nw_inner nw)) (wdelay (nw_inner nw')) res"
proof (cases "bm_cap (nw_buf nw) < length buf")
  case True
  obtain w res where p: "put (nw_inner nw) buf = Some (w, res)"
    and post: "put_post sink_err buf (written (nw_inner nw)) (written w) res"
    using put_law by blast
  have e: "bm_data (nw_buf nw) = []" using room True by (auto simp: nw_remaining_mut_def bm_remaining_def)
  consider "res = Pending" | e where "res = Ready (Inl e)" | n where "res = Ready (Inr n)"
    by (metis poll.exhaust sum.exhaust)
  then show ?thesis
    by cases (use p post put_waits [OF p] True e at in \<open>auto simp: nw_store_def nw_at_def nw_ok_def\<close>)
next
  case False
  then have "length buf \<le> bm_remaining (nw_buf nw)" using room by (auto simp: nw_remaining_mut_def bm_remaining_def)
  with False at show ?thesis
    by (auto simp: nw_store_def lb_put_def nw_at_def nw_ok_def bm_ok_def bm_remaining_def waits_simps)
qed

lemma nw_payload_sink:
  "payload_sink (nw_poll_write A put) (nw_at written limit env) sink_err (\<lambda>nw. wdelay (nw_inner nw))"
proof
  fix p b nw
  assume at: "nw_at written limit env p nw"
  show "\<exists>nw' res. nw_poll_write A put nw b = Some (nw', res) \<and> accept_post (nw_at written limit env) sink_err p b nw' res \<and>
      waits (wdelay (nw_inner nw)) (wdelay (nw_inner nw')) res"
  proof (cases "nw_remaining_mut nw < length b")
    case False
    with nw_store_spec [OF at, of b] show ?thesis by (simp add: nw_poll_write_def)
  next
    case True
    obtain nw1 x where f: "nw_poll_flush_buf A put nw = Some (nw1, x)" and post: "nw_flushed written sink_err limit env p nw1 x"
      and d: "waits (wdelay (nw_inner nw)) (wdelay (nw_inner nw1)) x"
      using nw_flush_spec [OF at] by blast
    consider "x = Pending" | e where "x = Ready (Inl e)" | "x = Ready (Inr ())"
      by (metis poll.exhaust sum.exhaust unit.exhaust)
    then show ?thesis
    proof cases
      case 3
      with post nw_store_spec [of limit env p nw1 b] f d True show ?thesis
        by (fastforce simp: nw_poll_write_def waits_def)
    qed (use f post d True in \<open>auto simp: nw_poll_write_def waits_simps\<close>)
  qed
qed

lemma nw_write_all_sent:
  "nw_at written limit env p nw \<Longrightarrow> sent sink_err (nw_at written limit env) (p @ b) (nw_write_all A put nw b)"
  using payload_sink.write_all_spec [OF nw_payload_sink, of limit env p nw b] by (simp add: nw_write_all_def sent_def)

lemma nw_number_sent:
  "nw_at written limit env p nw \<Longrightarrow> sent sink_err (nw_at written limit env) (p @ to_le_bytes v) (nw_write_number A put nw v)"
  by (simp add: nw_write_number_def nw_write_all_sent)

lemma take_ZEROS: "take (calc_padding w) ZEROS = replicate (calc_padding w) 0"
  using calc_padding_less [of w] by (simp add: ZEROS_def min_def)

lemma nw_slice_sent:
  assumes "nw_at written limit env p nw"
  shows "sent sink_err (nw_at written limit env) (p @ nix_slice b) (nw_write_slice A put nw b)"
proof -
  let ?w = "word_of_nat (length b) :: u64"
  let ?pad = "replicate (calc_padding ?w) (0 :: u8)"
  have pad: "sent sink_err (nw_at written limit env) (q @ ?pad)
      (if 0 < calc_padding ?w then nw_write_all A put nw (take (calc_padding ?w) ZEROS) else Some (nw, Inr ()))"
    if "nw_at written limit env q nw" for q nw
    using that nw_write_all_sent by (auto simp: take_ZEROS sent_done)
  have body: "sent sink_err (nw_at written limit env) ((q @ b) @ ?pad) (aw_bind (nw_write_all A put nw b) (\<lambda>nw _.
      if 0 < calc_padding ?w then nw_write_all A put nw (take (calc_padding ?w) ZEROS) else Some (nw, Inr ())))"
    if "nw_at written limit env q nw" for q nw
    by (rule sent_bind [OF nw_write_all_sent [OF that]]) (rule pad)
  have "sent sink_err (nw_at written limit env) ((p @ to_le_bytes ?w) @ b @ ?pad) (nw_write_slice A put nw b)"
    unfolding nw_write_slice_def Let_def
    by (rule sent_bind [OF nw_number_sent [OF assms]]) (rule body [unfolded append_assoc [of _ b]])
  then show ?thesis by (simp add: put_nix_slice_def)
qed

lemma nw_flush_buf_spec:
  assumes "nw_at written limit env p nw"
  shows "\<exists>nw' x. nw_flush_buf A put nw = Some (nw', x) \<and> nw_flushed written sink_err limit env p nw' (Ready x)"
  unfolding nw_flush_buf_def
proof (rule await_spec [where I = "nw_at written limit env p" and m = "\<lambda>nw. wdelay (nw_inner nw)"])
  show "\<exists>s' res. nw_poll_flush_buf A put s = Some (s', res) \<and>
      (case res of Pending \<Rightarrow> nw_at written limit env p s' \<and> wdelay (nw_inner s') < wdelay (nw_inner s)
       | Ready x \<Rightarrow> nw_flushed written sink_err limit env p s' (Ready x))" if at: "nw_at written limit env p s" for s
  proof -
    obtain nw' res where "nw_poll_flush_buf A put s = Some (nw', res)" "nw_flushed written sink_err limit env p nw' res"
      "waits (wdelay (nw_inner s)) (wdelay (nw_inner nw')) res"
      using nw_flush_spec [OF at] by blast
    then show ?thesis by (cases res) (auto simp: waits_simps)
  qed
qed (rule assms)

text \<open>\<open>write_display\<close> behind its flush: there is room for the length and \<open>limit\<close> more bytes.\<close>

lemma nw_display_body:
  assumes at: "nw_at written limit env p nw" and room: "limit + 8 \<le> nw_remaining_mut nw"
  shows "sent (\<lambda>e. sink_err e \<or> limit < length msg) (nw_at written limit env) (p @ nix_slice msg)
    (let offset = length (bm_data (nw_buf nw)) in
     case lb_put (nw_buf nw) (to_le_bytes 0) of
       None \<Rightarrow> None
     | Some b1 \<Rightarrow>
         (case lb_write_str b1 msg of
            None \<Rightarrow>
              Some (nw\<lparr>nw_buf := b1\<lparr>bm_data := take offset (bm_data b1)\<rparr>\<rparr>,
                Inl (IoError InvalidData ''an error occurred when formatting an argument''))
          | Some b2 \<Rightarrow>
              (let len = length (bm_data b2) - offset - 8;
                   data = take offset (bm_data b2) @ to_le_bytes (word_of_nat len) @ drop (offset + 8) (bm_data b2);
                   padding = calc_padding (word_of_nat len)
               in nw_write_all A put (nw\<lparr>nw_buf := b2\<lparr>bm_data := data\<rparr>\<rparr>) (take padding ZEROS))))"
proof -
  let ?b = "nw_buf nw" and ?w = "word_of_nat (length msg) :: u64"
  have put: "lb_put ?b (to_le_bytes 0) = Some (?b\<lparr>bm_data := bm_data ?b @ to_le_bytes 0\<rparr>)"
    using room by (simp add: lb_put_def nw_remaining_mut_def)
  show ?thesis
  proof (cases "length msg \<le> bm_remaining (?b\<lparr>bm_data := bm_data ?b @ to_le_bytes 0\<rparr>)")
    case False
    then have "limit < length msg" using room by (simp add: bm_remaining_def nw_remaining_mut_def)
    with False put show ?thesis by (simp add: lb_write_str_def sent_def Let_def)
  next
    case True
    let ?nw = "nw\<lparr>nw_buf := ?b\<lparr>bm_data := bm_data ?b @ to_le_bytes ?w @ msg\<rparr>\<rparr>"
    have "nw_at written limit env (p @ to_le_bytes ?w @ msg) ?nw"
      using at True room by (auto simp: nw_at_def nw_ok_def bm_ok_def bm_remaining_def nw_remaining_mut_def)
    then have "sent sink_err (nw_at written limit env) ((p @ to_le_bytes ?w @ msg) @ take (calc_padding ?w) ZEROS)
        (nw_write_all A put ?nw (take (calc_padding ?w) ZEROS))"
      by (rule nw_write_all_sent)
    then have "sent (\<lambda>e. sink_err e \<or> limit < length msg) (nw_at written limit env) (p @ nix_slice msg)
        (nw_write_all A put ?nw (take (calc_padding ?w) ZEROS))"
      by (auto simp: sent_def put_nix_slice_def take_ZEROS split: sum.splits)
    moreover have "lb_write_str (?b\<lparr>bm_data := bm_data ?b @ to_le_bytes 0\<rparr>) msg =
        Some (?b\<lparr>bm_data := bm_data ?b @ to_le_bytes 0 @ msg\<rparr>)"
      using True by (simp add: lb_write_str_def lb_put_def)
    ultimately show ?thesis using put by (simp add: Let_def)
  qed
qed

lemma nw_display_sent:
  assumes at: "nw_at written limit env p nw"
  shows "sent (\<lambda>e. sink_err e \<or> limit < length msg) (nw_at written limit env) (p @ nix_slice msg) (nw_write_display A put nw msg)"
proof (cases "nw_remaining_mut nw < nw_display_buf_size nw")
  case False
  with at have "limit + 8 \<le> nw_remaining_mut nw" by (simp add: nw_at_def nw_ok_def)
  from nw_display_body [OF at this] False show ?thesis by (simp add: nw_write_display_def)
next
  case True
  obtain nw1 x where f: "nw_flush_buf A put nw = Some (nw1, x)" "nw_flushed written sink_err limit env p nw1 (Ready x)"
    using nw_flush_buf_spec [OF at] by blast
  show ?thesis
  proof (cases x)
    case (Inl e)
    with f True show ?thesis by (simp add: nw_write_display_def sent_def)
  next
    case (Inr u)
    with f nw_display_body [of limit env p nw1 msg] True show ?thesis by (simp add: nw_write_display_def)
  qed
qed

lemma nix_writer_contract:
  "nix_write (nix_writer_ops A put) (nw_at written limit env) sink_err limit"
  by unfold_locales (simp_all add: nix_writer_ops_def nw_number_sent nw_slice_sent nw_display_sent)

text \<open>The limit of a writer with the default sizes.\<close>

lemma wb_build_at:
  assumes "wb_buf b = None" "wb_reserved_buf_size b = RESERVED_BUF_SIZE" "wb_display_buf_size b = 8192" "wb_initial_buf_size b < 2 ^ 63"
  shows "nw_at written 8184 (wb_version b, wb_store_dir b) (written w) (wb_build A b w)"
  using assms bm_new_ok [of "wb_initial_buf_size b"] by (simp add: wb_build_def nw_at_def nw_ok_def RESERVED_BUF_SIZE_def DEFAULT_BUF_SIZE_def)

lemma nix_writer_new_at: "nw_at written 8184 (PROTOCOL_VERSION, default_dir) (written w) (nix_writer_new A w)"
  using wb_build_at [of nix_writer_builder w] by (simp add: nix_writer_new_def nix_writer_builder_def DEFAULT_BUF_SIZE_def)

lemma nw_await_flush:
  assumes "nw_at written limit env p nw"
  shows "\<exists>nw' x. await (nw_poll_flush A put flush) nw = Some (nw', x) \<and>
    (case x of Inl e \<Rightarrow> sink_err e | Inr _ \<Rightarrow> nw_at written limit env p nw' \<and> written (nw_inner nw') = p)"
proof (rule await_spec [where I = "nw_at written limit env p" and m = "\<lambda>nw. wdelay (nw_inner nw)"])
  show "\<exists>s' res. nw_poll_flush A put flush s = Some (s', res) \<and>
      (case res of Pending \<Rightarrow> nw_at written limit env p s' \<and> wdelay (nw_inner s') < wdelay (nw_inner s)
       | Ready x \<Rightarrow> (case x of Inl e \<Rightarrow> sink_err e | Inr _ \<Rightarrow> nw_at written limit env p s' \<and> written (nw_inner s') = p))"
    if at: "nw_at written limit env p s" for s
  proof -
    obtain nw1 x where f: "nw_poll_flush_buf A put s = Some (nw1, x)" and post: "nw_flushed written sink_err limit env p nw1 x"
      and d: "waits (wdelay (nw_inner s)) (wdelay (nw_inner nw1)) x"
      using nw_flush_spec [OF at] by blast
    obtain w res where fl: "flush (nw_inner nw1) = Some (w, res)" "written w = written (nw_inner nw1)"
      "flush_post sink_err res" "waits (wdelay (nw_inner nw1)) (wdelay w) res"
      using flush_law by blast
    consider "x = Pending" | e where "x = Ready (Inl e)" | "x = Ready (Inr ())" "res = Pending"
      | e where "x = Ready (Inr ())" "res = Ready (Inl e)" | "x = Ready (Inr ())" "res = Ready (Inr ())"
      by (metis poll.exhaust sum.exhaust unit.exhaust)
    then show ?thesis
      by cases (use f post d fl in \<open>auto simp: nw_poll_flush_def waits_simps nw_at_def nw_ok_def\<close>)
  qed
qed (rule assms)

end

interpretation snw: nix_write "nix_writer_ops exact_alloc sink_put" "nw_at taken limit env" "\<lambda>_. True" limit for limit env
  by (rule swrite.nix_writer_contract)

end
