(* ===== verification/Nix_De.thy ===== *)
theory Nix_De
  imports Nix_Ser Btree Utf8
begin

text \<open>
  Deserialisation of the daemon protocol (\<open>harmonia-protocol/src/de\<close>): the trait \<open>NixRead\<close> as a record of its
  operations, and the implementations of \<open>NixDeserialize\<close> for numbers, strings and collections. A
  reader returns \<open>None\<close> where the stream is at its end; \<open>read_value\<close> makes an error of it.

  What a decoder accepts is a relation between values and bytes, as some values have several
  encodings (every number but 0 is \<open>true\<close>, the elements of a set come in any order). The contract of a
  reader is the locale \<open>nix_read\<close>, that of a decoder \<open>value_reader\<close>: on an encoding it
  returns the value and stops right behind it, and whatever it returns was encoded there.
\<close>

section \<open>The trait \<open>NixRead\<close>\<close>

record 'r NixRead =
  rd_version :: "'r \<Rightarrow> ProtocolVersion"
  rd_store_dir :: "'r \<Rightarrow> StoreDir"
  rd_number :: "'r \<Rightarrow> ('r, u64 option) awaited"
  rd_bytes_limited :: "'r \<Rightarrow> nat \<Rightarrow> nat \<Rightarrow> ('r, bytes option) awaited"
  rd_bytes :: "'r \<Rightarrow> ('r, bytes option) awaited"

text \<open>\<open>read_number\<close>, \<open>read_bytes_limited\<close> and \<open>deserialize\<close>: the end of the stream is an error.\<close>

definition required :: "('r, 'a option) awaited \<Rightarrow> ('r, 'a) awaited" where
  "required m = aw_bind m (\<lambda>r x. case x of
       Some v \<Rightarrow> Some (r, Inr v)
     | None \<Rightarrow> Some (r, Inl (IoError UnexpectedEof ''unexpected end-of-file'')))"

definition read_number :: "'r NixRead \<Rightarrow> 'r \<Rightarrow> ('r, u64) awaited" where
  "read_number R r = required (rd_number R r)"

definition read_bytes_limited :: "'r NixRead \<Rightarrow> 'r \<Rightarrow> nat \<Rightarrow> nat \<Rightarrow> ('r, bytes) awaited" where
  "read_bytes_limited R r lo hi = required (rd_bytes_limited R r lo hi)"

section \<open>Numbers and strings\<close>

text \<open>A decoder that reads a number or bytes and then checks and converts it, \<open>invalid_data\<close> being its error.\<close>

definition converted :: "('r, 'a option) awaited \<Rightarrow> ('a \<Rightarrow> string + 'b) \<Rightarrow> ('r, 'b option) awaited" where
  "converted m conv = aw_bind m (\<lambda>r x. case x of
       None \<Rightarrow> Some (r, Inr None)
     | Some v \<Rightarrow> Some (r, result_map_err (IoError InvalidData) (result_map Some (conv v))))"

definition de_unit :: "'r NixRead \<Rightarrow> 'r \<Rightarrow> ('r, unit option) awaited" where
  "de_unit R r = Some (r, Inr (Some ()))"

definition de_u64 :: "'r NixRead \<Rightarrow> 'r \<Rightarrow> ('r, u64 option) awaited" where
  "de_u64 R r = rd_number R r"

definition try_from_u64 :: "nat \<Rightarrow> (u64 \<Rightarrow> 'a) \<Rightarrow> u64 \<Rightarrow> string + 'a" where
  "try_from_u64 bits conv v =
     (if unat v < 2 ^ bits then Inr (conv v) else Inl ''out of range integral type conversion attempted'')"

definition de_u8 :: "'r NixRead \<Rightarrow> 'r \<Rightarrow> ('r, u8 option) awaited" where
  "de_u8 R r = converted (rd_number R r) (try_from_u64 8 ucast)"

definition de_u16 :: "'r NixRead \<Rightarrow> 'r \<Rightarrow> ('r, u16 option) awaited" where
  "de_u16 R r = converted (rd_number R r) (try_from_u64 16 ucast)"

definition de_u32 :: "'r NixRead \<Rightarrow> 'r \<Rightarrow> ('r, u32 option) awaited" where
  "de_u32 R r = converted (rd_number R r) (try_from_u64 32 ucast)"

definition de_usize :: "'r NixRead \<Rightarrow> 'r \<Rightarrow> ('r, nat option) awaited" where
  "de_usize R r = converted (rd_number R r) (try_from_u64 64 unat)"

definition de_bool :: "'r NixRead \<Rightarrow> 'r \<Rightarrow> ('r, bool option) awaited" where
  "de_bool R r = converted (rd_number R r) (\<lambda>v. Inr (v \<noteq> 0))"

definition de_i64 :: "'r NixRead \<Rightarrow> 'r \<Rightarrow> ('r, 64 word option) awaited" where
  "de_i64 R r = converted (rd_number R r) Inr"

definition de_bytes :: "'r NixRead \<Rightarrow> 'r \<Rightarrow> ('r, bytes option) awaited" where
  "de_bytes R r = rd_bytes R r"

definition de_string :: "'r NixRead \<Rightarrow> 'r \<Rightarrow> ('r, string option) awaited" where
  "de_string R r = converted (rd_bytes R r) from_utf8"

section \<open>Collections\<close>

text \<open>The loop \<open>for _ in 0..len\<close>, with what a round does to the collection.\<close>

fun de_rounds :: "('r \<Rightarrow> 'c \<Rightarrow> ('r, 'c) awaited) \<Rightarrow> nat \<Rightarrow> 'r \<Rightarrow> 'c \<Rightarrow> ('r, 'c) awaited" where
  "de_rounds round 0 r ret = Some (r, Inr ret)"
| "de_rounds round (Suc n) r ret = aw_bind (round r ret) (\<lambda>r ret. de_rounds round n r ret)"

definition de_counted :: "'r NixRead \<Rightarrow> (nat \<Rightarrow> 'r \<Rightarrow> ('r, 'c) awaited) \<Rightarrow> 'r \<Rightarrow> ('r, 'c option) awaited" where
  "de_counted R body r = aw_bind (de_usize R r) (\<lambda>r len. case len of
       None \<Rightarrow> Some (r, Inr None)
     | Some n \<Rightarrow> aw_bind (body n r) (\<lambda>r c. Some (r, Inr (Some c))))"

text \<open>\<open>Vec::with_capacity(len)\<close> panics where the vector would be longer than \<open>isize::MAX\<close> bytes; \<open>sz\<close> is the
  size of an element.\<close>

definition de_vec :: "nat \<Rightarrow> 'r NixRead \<Rightarrow> ('r \<Rightarrow> ('r, 'a option) awaited) \<Rightarrow> 'r \<Rightarrow> ('r, 'a list option) awaited" where
  "de_vec sz R de r = de_counted R (\<lambda>n r.
     if n * sz < 2 ^ 63
     then de_rounds (\<lambda>r ret. aw_bind (required (de r)) (\<lambda>r x. Some (r, Inr (ret @ [x])))) n r []
     else None) r"

definition de_set :: "'r NixRead \<Rightarrow> ('r \<Rightarrow> ('r, 'a :: linorder option) awaited) \<Rightarrow> 'r \<Rightarrow> ('r, 'a list option) awaited" where
  "de_set R de r = de_counted R (\<lambda>n r.
     de_rounds (\<lambda>r ret. aw_bind (required (de r)) (\<lambda>r x. Some (r, Inr (set_insert x ret)))) n r []) r"

definition de_map ::
  "'r NixRead \<Rightarrow> ('r \<Rightarrow> ('r, 'k :: linorder option) awaited) \<Rightarrow> ('r \<Rightarrow> ('r, 'v option) awaited) \<Rightarrow> 'r \<Rightarrow> ('r, ('k \<times> 'v) list option) awaited" where
  "de_map R kde vde r = de_counted R (\<lambda>n r.
     de_rounds (\<lambda>r ret. aw_bind (required (kde r)) (\<lambda>r k. aw_bind (required (vde r)) (\<lambda>r v.
       Some (r, Inr (map_insert k v ret))))) n r []) r"

section \<open>Contracts\<close>

text \<open>\<open>got_value err good rest v R m\<close>: the call gave \<open>v\<close> and left \<open>R\<close>, or the source failed.\<close>

definition got_value ::
  "(io_error \<Rightarrow> bool) \<Rightarrow> ('r \<Rightarrow> bool) \<Rightarrow> ('r \<Rightarrow> bytes) \<Rightarrow> 'a \<Rightarrow> bytes \<Rightarrow> ('r, 'a) awaited \<Rightarrow> bool" where
  "got_value err good rest v R m \<longleftrightarrow>
     (\<exists>r x. m = Some (r, x) \<and> (case x of Inl e \<Rightarrow> err e | Inr y \<Rightarrow> y = v \<and> good r \<and> rest r = R))"

locale value_reader =
  fixes rest :: "'r \<Rightarrow> bytes" and good :: "'r \<Rightarrow> bool" and err :: "io_error \<Rightarrow> bool"
    and de :: "'r \<Rightarrow> ('r, 'a option) awaited" and wire :: "'a \<Rightarrow> bytes \<Rightarrow> bool"
  assumes complete: "good r \<Longrightarrow> wire v bs \<Longrightarrow> rest r = bs @ R \<Longrightarrow> got_value err good rest (Some v) R (de r)"
    and sound: "good r \<Longrightarrow> de r = Some (r', Inr (Some v)) \<Longrightarrow> good r' \<and> (\<exists>bs. wire v bs \<and> rest r = bs @ rest r')"
    and at_end: "good r \<Longrightarrow> de r = Some (r', Inr None) \<Longrightarrow> good r' \<and> rest r = []"

lemma value_reader_cong:
  assumes "value_reader rest good err de' wire" "\<And>r. good r \<Longrightarrow> de r = de' r"
  shows "value_reader rest good err de wire"
proof
  show "good r \<Longrightarrow> wire v bs \<Longrightarrow> rest r = bs @ R \<Longrightarrow> got_value err good rest (Some v) R (de r)" for r v bs R
    using value_reader.complete [OF assms(1)] assms(2) by simp
  show "good r \<Longrightarrow> de r = Some (r', Inr (Some v)) \<Longrightarrow> good r' \<and> (\<exists>bs. wire v bs \<and> rest r = bs @ rest r')" for r r' v
    using value_reader.sound [OF assms(1)] assms(2) by simp
  show "good r \<Longrightarrow> de r = Some (r', Inr None) \<Longrightarrow> good r' \<and> rest r = []" for r r'
    using value_reader.at_end [OF assms(1)] assms(2) by simp
qed

definition number_wire :: "u64 \<Rightarrow> bytes \<Rightarrow> bool" where
  "number_wire v bs \<longleftrightarrow> bs = to_le_bytes v"

definition slice_wire :: "nat \<Rightarrow> bytes \<Rightarrow> bytes \<Rightarrow> bool" where
  "slice_wire hi c bs \<longleftrightarrow> bs = nix_slice c \<and> length c \<le> hi"

locale nix_read =
  num: value_reader rest good err "rd_number R" number_wire +
  str: value_reader rest good err "rd_bytes R" "slice_wire hi"
  for R :: "'r NixRead" and rest good err hi

lemma got_value_bind:
  assumes m: "got_value err good rest v R m" and f: "\<And>r. good r \<Longrightarrow> rest r = R \<Longrightarrow> got_value err good rest w S (f r v)"
  shows "got_value err good rest w S (aw_bind m f)"
proof -
  obtain r x where "m = Some (r, x)" "case x of Inl e \<Rightarrow> err e | Inr y \<Rightarrow> y = v \<and> good r \<and> rest r = R"
    using m by (auto simp: got_value_def)
  then show ?thesis using f [of r] by (cases x) (auto simp: got_value_def)
qed

lemma got_value_ret: "good r \<Longrightarrow> got_value err good rest v (rest r) (Some (r, Inr v))"
  by (simp add: got_value_def)

text \<open>Decoders that always return a value: what a round of a loop reads.\<close>

locale elem_reader =
  fixes rest :: "'r \<Rightarrow> bytes" and good :: "'r \<Rightarrow> bool" and err :: "io_error \<Rightarrow> bool"
    and elem :: "'r \<Rightarrow> ('r, 'e) awaited" and ewire :: "'e \<Rightarrow> bytes \<Rightarrow> bool"
  assumes elem_complete: "good r \<Longrightarrow> ewire v bs \<Longrightarrow> rest r = bs @ R \<Longrightarrow> got_value err good rest v R (elem r)"
    and elem_sound: "good r \<Longrightarrow> elem r = Some (r', Inr v) \<Longrightarrow> good r' \<and> (\<exists>bs. ewire v bs \<and> rest r = bs @ rest r')"

sublocale value_reader \<subseteq> req: elem_reader rest good err "\<lambda>r. required (de r)" wire
proof
  fix r v bs R
  assume "good r" "wire v bs" "rest r = bs @ R"
  then have "got_value err good rest (Some v) R (de r)" by (rule complete)
  then show "got_value err good rest v R (required (de r))"
    unfolding required_def by (rule got_value_bind) (auto simp: got_value_def)
next
  fix r r' v
  assume "good r" "required (de r) = Some (r', Inr v)"
  then show "good r' \<and> (\<exists>bs. wire v bs \<and> rest r = bs @ rest r')"
    using sound by (auto simp: required_def elim!: aw_bind_InrE split: option.splits)
qed

context value_reader
begin

lemma required_reader: "elem_reader rest good err (\<lambda>r. required (de r)) wire"
  by (rule req.elem_reader_axioms)

end

definition pair_wire :: "('k \<Rightarrow> bytes \<Rightarrow> bool) \<Rightarrow> ('v \<Rightarrow> bytes \<Rightarrow> bool) \<Rightarrow> 'k \<times> 'v \<Rightarrow> bytes \<Rightarrow> bool" where
  "pair_wire kwire vwire e bs \<longleftrightarrow> (\<exists>a b. bs = a @ b \<and> kwire (fst e) a \<and> vwire (snd e) b)"

lemma pair_reader:
  assumes k: "elem_reader rest good err kel kwire" and v: "elem_reader rest good err vel vwire"
  shows "elem_reader rest good err (\<lambda>r. aw_bind (kel r) (\<lambda>r k. aw_bind (vel r) (\<lambda>r v. Some (r, Inr (k, v))))) (pair_wire kwire vwire)"
proof
  fix r e bs R
  assume g: "good r" and w: "pair_wire kwire vwire e bs" and r: "rest r = bs @ R"
  then obtain a b where ab: "bs = a @ b" "kwire (fst e) a" "vwire (snd e) b" by (auto simp: pair_wire_def)
  have "got_value err good rest (fst e) (b @ R) (kel r)" using elem_reader.elem_complete [OF k g ab(2)] r ab(1) by simp
  then show "got_value err good rest e R (aw_bind (kel r) (\<lambda>r k. aw_bind (vel r) (\<lambda>r v. Some (r, Inr (k, v)))))"
  proof (rule got_value_bind)
    fix r1 assume "good r1" "rest r1 = b @ R"
    then have "got_value err good rest (snd e) R (vel r1)" using elem_reader.elem_complete [OF v _ ab(3)] by simp
    then show "got_value err good rest e R (aw_bind (vel r1) (\<lambda>r v. Some (r, Inr (fst e, v))))"
      by (rule got_value_bind) (simp add: got_value_def)
  qed
next
  fix r r' e
  assume g: "good r" and m: "aw_bind (kel r) (\<lambda>r k. aw_bind (vel r) (\<lambda>r v. Some (r, Inr (k, v)))) = Some (r', Inr e)"
  from m obtain r1 k where k1: "kel r = Some (r1, Inr k)"
    and m1: "aw_bind (vel r1) (\<lambda>r v. Some (r, Inr (k, v))) = Some (r', Inr e)" by (rule aw_bind_InrE)
  from m1 obtain v where v1: "vel r1 = Some (r', Inr v)" "e = (k, v)" by (auto elim: aw_bind_InrE)
  from elem_reader.elem_sound [OF k g k1] obtain a where "good r1" "kwire k a" "rest r = a @ rest r1" by blast
  moreover from elem_reader.elem_sound [OF v this(1) v1(1)] obtain b where "good r'" "vwire v b" "rest r1 = b @ rest r'" by blast
  ultimately show "good r' \<and> (\<exists>bs. pair_wire kwire vwire e bs \<and> rest r = bs @ rest r')"
    using v1(2) by (auto simp: pair_wire_def)
qed

context elem_reader
begin

abbreviation round :: "('e \<Rightarrow> 'c \<Rightarrow> 'c) \<Rightarrow> 'r \<Rightarrow> 'c \<Rightarrow> ('r, 'c) awaited" where
  "round upd \<equiv> \<lambda>r ret. aw_bind (elem r) (\<lambda>r x. Some (r, Inr (upd x ret)))"

lemma rounds_complete:
  "list_all2 ewire vs bss \<Longrightarrow> good r \<Longrightarrow> rest r = concat bss @ R \<Longrightarrow>
     got_value err good rest (fold upd vs c) R (de_rounds (round upd) (length vs) r c)"
proof (induction vs bss arbitrary: r c rule: list_all2_induct)
  case Nil
  then show ?case by (simp add: got_value_def)
next
  case (Cons v vs b bss)
  have "got_value err good rest v (concat bss @ R) (elem r)"
    using elem_complete [OF Cons.prems(1) Cons.hyps(1)] Cons.prems(2) by simp
  then have "got_value err good rest (upd v c) (concat bss @ R) (round upd r c)"
    by (rule got_value_bind) (simp add: got_value_def)
  then have "got_value err good rest (fold upd vs (upd v c)) R (aw_bind (round upd r c) (\<lambda>r c. de_rounds (round upd) (length vs) r c))"
    by (rule got_value_bind) (rule Cons.IH)
  then show ?case by simp
qed

lemma rounds_sound:
  "de_rounds (round upd) n r c = Some (r', Inr c') \<Longrightarrow> good r \<Longrightarrow>
     \<exists>vs bss. length vs = n \<and> list_all2 ewire vs bss \<and> c' = fold upd vs c \<and> good r' \<and> rest r = concat bss @ rest r'"
proof (induction n arbitrary: r c)
  case 0
  then show ?case by (auto intro!: exI [of _ "[]"])
next
  case (Suc n)
  from Suc.prems(1) obtain r1 c1 where rd: "round upd r c = Some (r1, Inr c1)"
    and rec: "de_rounds (round upd) n r1 c1 = Some (r', Inr c')" by (auto elim: aw_bind_InrE)
  from rd obtain v where v: "elem r = Some (r1, Inr v)" "c1 = upd v c" by (auto elim: aw_bind_InrE)
  from elem_sound [OF Suc.prems(2) v(1)] obtain b where b: "good r1" "ewire v b" "rest r = b @ rest r1" by blast
  from Suc.IH [OF rec b(1)] obtain vs bss where "length vs = n" "list_all2 ewire vs bss" "c' = fold upd vs c1" "good r'"
    "rest r1 = concat bss @ rest r'" by blast
  with v b show ?case by (intro exI [of _ "v # vs"] exI [of _ "b # bss"]) simp
qed

end

section \<open>The decoders keep their contract\<close>

text \<open>The bytes of a collection: the number of its elements and the elements, put together by \<open>upd\<close>.\<close>

definition counted_wire ::
  "(nat \<Rightarrow> bool) \<Rightarrow> ('e \<Rightarrow> bytes \<Rightarrow> bool) \<Rightarrow> ('e \<Rightarrow> 'c \<Rightarrow> 'c) \<Rightarrow> 'c \<Rightarrow> 'c \<Rightarrow> bytes \<Rightarrow> bool" where
  "counted_wire lim ewire upd c0 c bs \<longleftrightarrow>
     (\<exists>vs bss. list_all2 ewire vs bss \<and> length vs < 2 ^ 64 \<and> lim (length vs) \<and> c = fold upd vs c0 \<and>
       bs = enc_usize (length vs) @ concat bss)"

definition vec_wire :: "nat \<Rightarrow> ('a \<Rightarrow> bytes \<Rightarrow> bool) \<Rightarrow> 'a list \<Rightarrow> bytes \<Rightarrow> bool" where
  "vec_wire sz wire = counted_wire (\<lambda>n. n * sz < 2 ^ 63) wire (\<lambda>x ret. ret @ [x]) []"

definition set_wire :: "('a :: linorder \<Rightarrow> bytes \<Rightarrow> bool) \<Rightarrow> 'a list \<Rightarrow> bytes \<Rightarrow> bool" where
  "set_wire wire = counted_wire (\<lambda>_. True) wire set_insert []"

definition map_wire :: "('k :: linorder \<Rightarrow> bytes \<Rightarrow> bool) \<Rightarrow> ('v \<Rightarrow> bytes \<Rightarrow> bool) \<Rightarrow> ('k \<times> 'v) list \<Rightarrow> bytes \<Rightarrow> bool" where
  "map_wire kwire vwire = counted_wire (\<lambda>_. True) (pair_wire kwire vwire) (\<lambda>(k, v). map_insert k v) []"

definition conv_wire :: "('u \<Rightarrow> bytes \<Rightarrow> bool) \<Rightarrow> ('u \<Rightarrow> string + 'v) \<Rightarrow> 'v \<Rightarrow> bytes \<Rightarrow> bool" where
  "conv_wire wire conv v bs \<longleftrightarrow> (\<exists>u. wire u bs \<and> conv u = Inr v)"

lemma converted_reader:
  assumes "value_reader rest good err de wire"
  shows "value_reader rest good err (\<lambda>r. converted (de r) conv) (conv_wire wire conv)"
  unfolding conv_wire_def [abs_def]
proof
  fix r v bs R
  assume g: "good r" and w: "\<exists>u. wire u bs \<and> conv u = Inr v" and r: "rest r = bs @ R"
  then obtain u where u: "wire u bs" "conv u = Inr v" by blast
  from value_reader.complete [OF assms g u(1) r] show "got_value err good rest (Some v) R (converted (de r) conv)"
    unfolding converted_def by (rule got_value_bind) (simp add: got_value_def u(2))
next
  fix r r' v
  assume "good r" "converted (de r) conv = Some (r', Inr (Some v))"
  then show "good r' \<and> (\<exists>bs. (\<exists>u. wire u bs \<and> conv u = Inr v) \<and> rest r = bs @ rest r')"
    using value_reader.sound [OF assms] by (auto simp: converted_def elim!: aw_bind_InrE split: option.splits) fastforce
next
  fix r r'
  assume "good r" "converted (de r) conv = Some (r', Inr None)"
  then show "good r' \<and> rest r = []"
    using value_reader.at_end [OF assms] by (auto simp: converted_def elim!: aw_bind_InrE split: option.splits)
qed

definition usize_wire :: "nat \<Rightarrow> bytes \<Rightarrow> bool" where
  "usize_wire n bs \<longleftrightarrow> n < 2 ^ 64 \<and> bs = enc_usize n"

lemma usize_wire_eq: "conv_wire number_wire (try_from_u64 64 unat) = usize_wire"
  unfolding conv_wire_def [abs_def]
proof (intro ext iffI)
  fix n bs
  assume "\<exists>u. number_wire u bs \<and> try_from_u64 64 unat u = Inr n"
  then obtain u where u: "bs = to_le_bytes u" "n = unat u"
    by (auto simp: number_wire_def try_from_u64_def split: if_splits)
  then show "usize_wire n bs" using unat_u64_less [of u] by (simp add: usize_wire_def enc_usize_def)
next
  fix n bs
  assume "usize_wire n bs"
  then have "number_wire (word_of_nat n) bs \<and> unat (word_of_nat n :: u64) = n"
    by (simp add: usize_wire_def enc_usize_def number_wire_def unat_of_nat)
  then show "\<exists>u. number_wire u bs \<and> try_from_u64 64 unat u = Inr n"
    using unat_u64_less [of "word_of_nat n"] by (auto simp: try_from_u64_def)
qed

context nix_read
begin

lemma usize_reader: "value_reader rest good err (de_usize R) usize_wire"
  using converted_reader [OF num.value_reader_axioms, of "try_from_u64 64 unat"]
  by (simp add: usize_wire_eq de_usize_def [abs_def])

lemma counted_reader:
  assumes el: "elem_reader rest good err elem ewire"
    and body: "\<And>n r. lim n \<Longrightarrow> body n r = de_rounds (\<lambda>r ret. aw_bind (elem r) (\<lambda>r x. Some (r, Inr (upd x ret)))) n r c0"
    and stop: "\<And>n r. \<not> lim n \<Longrightarrow> body n r = None"
  shows "value_reader rest good err (de_counted R body) (counted_wire lim ewire upd c0)"
proof
  fix r c bs S
  assume g: "good r" and w: "counted_wire lim ewire upd c0 c bs" and r: "rest r = bs @ S"
  then obtain vs bss where vs: "list_all2 ewire vs bss" "length vs < 2 ^ 64" "lim (length vs)" "c = fold upd vs c0"
    and bs: "bs = enc_usize (length vs) @ concat bss" by (auto simp: counted_wire_def)
  have "got_value err good rest (Some (length vs)) (concat bss @ S) (de_usize R r)"
    using value_reader.complete [OF usize_reader g, of "length vs" "enc_usize (length vs)"] vs(2) r bs by (simp add: usize_wire_def)
  then show "got_value err good rest (Some c) S (de_counted R body r)"
    unfolding de_counted_def
  proof (rule got_value_bind)
    fix r1 assume "good r1" "rest r1 = concat bss @ S"
    then have "got_value err good rest c S (body (length vs) r1)"
      using elem_reader.rounds_complete [OF el vs(1)] by (simp add: body [OF vs(3)] vs(4))
    then have "got_value err good rest (Some c) S (aw_bind (body (length vs) r1) (\<lambda>r c. Some (r, Inr (Some c))))"
      by (rule got_value_bind) (simp add: got_value_def)
    then show "got_value err good rest (Some c) S (case Some (length vs) of None \<Rightarrow> Some (r1, Inr None)
        | Some n \<Rightarrow> aw_bind (body n r1) (\<lambda>r c. Some (r, Inr (Some c))))" by simp
  qed
next
  fix r r' c
  assume g: "good r" and m: "de_counted R body r = Some (r', Inr (Some c))"
  then obtain r1 n where n: "de_usize R r = Some (r1, Inr (Some n))"
    and b: "aw_bind (body n r1) (\<lambda>r c. Some (r, Inr (Some c))) = Some (r', Inr (Some c))"
    by (auto simp: de_counted_def elim!: aw_bind_InrE split: option.splits)
  from b have b: "body n r1 = Some (r', Inr c)" by (auto elim: aw_bind_InrE)
  then have lim: "lim n" using stop by fastforce
  from value_reader.sound [OF usize_reader g n] have r1: "good r1" "n < 2 ^ 64" "rest r = enc_usize n @ rest r1"
    by (auto simp: usize_wire_def)
  from elem_reader.rounds_sound [OF el b [unfolded body [OF lim]] r1(1)] obtain vs bss where
    "length vs = n" "list_all2 ewire vs bss" "c = fold upd vs c0" "good r'" "rest r1 = concat bss @ rest r'" by blast
  with r1 lim show "good r' \<and> (\<exists>bs. counted_wire lim ewire upd c0 c bs \<and> rest r = bs @ rest r')"
    by (auto simp: counted_wire_def)
next
  fix r r'
  assume g: "good r" and "de_counted R body r = Some (r', Inr None)"
  then have "de_usize R r = Some (r', Inr None)"
    by (auto simp: de_counted_def elim!: aw_bind_InrE split: option.splits)
  then show "good r' \<and> rest r = []" using value_reader.at_end [OF usize_reader g] by blast
qed

lemma vec_reader:
  assumes "value_reader rest good err de wire"
  shows "value_reader rest good err (de_vec sz R de) (vec_wire sz wire)"
  unfolding vec_wire_def de_vec_def [abs_def]
  by (rule counted_reader [OF value_reader.required_reader [OF assms]]) simp_all

lemma set_reader:
  assumes "value_reader rest good err de wire"
  shows "value_reader rest good err (de_set R de) (set_wire wire)"
  unfolding set_wire_def de_set_def [abs_def]
  by (rule counted_reader [OF value_reader.required_reader [OF assms]]) simp_all

lemma map_reader:
  assumes k: "value_reader rest good err kde kwire" and v: "value_reader rest good err vde vwire"
  shows "value_reader rest good err (de_map R kde vde) (map_wire kwire vwire)"
  unfolding map_wire_def de_map_def [abs_def]
proof (rule counted_reader [OF pair_reader [OF value_reader.required_reader [OF k] value_reader.required_reader [OF v]]])
  have "(\<lambda>r ret. aw_bind (required (kde r)) (\<lambda>r k. aw_bind (required (vde r)) (\<lambda>r v. Some (r, Inr (map_insert k v ret))))) =
      (\<lambda>r ret. aw_bind (aw_bind (required (kde r)) (\<lambda>r k. aw_bind (required (vde r)) (\<lambda>r v. Some (r, Inr (k, v)))))
        (\<lambda>r x. Some (r, Inr ((\<lambda>(k, v). map_insert k v) x ret))))"
    by (intro ext) (auto simp: aw_bind_def split: option.splits sum.splits)
  then show "de_rounds (\<lambda>r ret. aw_bind (required (kde r)) (\<lambda>r k. aw_bind (required (vde r)) (\<lambda>r v. Some (r, Inr (map_insert k v ret))))) n r [] =
      de_rounds (\<lambda>r ret. aw_bind (aw_bind (required (kde r)) (\<lambda>r k. aw_bind (required (vde r)) (\<lambda>r v. Some (r, Inr (k, v)))))
        (\<lambda>r x. Some (r, Inr ((\<lambda>(k, v). map_insert k v) x ret)))) n r []" for n r
    by (rule arg_cong [where f = "\<lambda>f. de_rounds f n r []"])
qed simp

lemma u64_reader: "value_reader rest good err (de_u64 R) number_wire"
  using num.value_reader_axioms by (simp add: de_u64_def [abs_def])

lemma bool_reader: "value_reader rest good err (de_bool R) (conv_wire number_wire (\<lambda>v. Inr (v \<noteq> 0)))"
  unfolding de_bool_def [abs_def] by (rule converted_reader [OF num.value_reader_axioms])

lemma i64_reader: "value_reader rest good err (de_i64 R) (conv_wire number_wire Inr)"
  unfolding de_i64_def [abs_def] by (rule converted_reader [OF num.value_reader_axioms])

lemma u8_reader: "value_reader rest good err (de_u8 R) (conv_wire number_wire (try_from_u64 8 ucast))"
  unfolding de_u8_def [abs_def] by (rule converted_reader [OF num.value_reader_axioms])

lemma u16_reader: "value_reader rest good err (de_u16 R) (conv_wire number_wire (try_from_u64 16 ucast))"
  unfolding de_u16_def [abs_def] by (rule converted_reader [OF num.value_reader_axioms])

lemma u32_reader: "value_reader rest good err (de_u32 R) (conv_wire number_wire (try_from_u64 32 ucast))"
  unfolding de_u32_def [abs_def] by (rule converted_reader [OF num.value_reader_axioms])

lemma bytes_reader: "value_reader rest good err (de_bytes R) (slice_wire hi)"
  using str.value_reader_axioms by (simp add: de_bytes_def [abs_def])

lemma string_reader: "value_reader rest good err (de_string R) (conv_wire (slice_wire hi) from_utf8)"
  unfolding de_string_def [abs_def] by (rule converted_reader [OF str.value_reader_axioms])

end

text \<open>What is sent is what is accepted.\<close>

lemma number_wire_enc: "number_wire v (to_le_bytes v)"
  by (simp add: number_wire_def)

lemma bool_wire_enc: "conv_wire number_wire (\<lambda>v. Inr (v \<noteq> 0)) b (enc_bool b)"
  by (auto simp: conv_wire_def number_wire_def enc_bool_def)

lemma small_wire_enc:
  fixes v :: "'a::len word"
  assumes "LENGTH('a) \<le> 64"
  shows "conv_wire number_wire (try_from_u64 LENGTH('a) ucast) v (to_le_bytes (ucast v))"
proof -
  have "unat v < 2 ^ LENGTH('a)" using unsigned_less [of v, where ?'a = nat] .
  also have "(2 :: nat) ^ LENGTH('a) \<le> 2 ^ 64" by (rule power_increasing [OF assms]) simp
  finally have "unat (ucast v :: u64) = unat v" by (simp add: unsigned_ucast_eq take_bit_nat_eq_self)
  moreover have "ucast (ucast v :: u64) = v"
    by (rule bit_word_eqI) (use assms in \<open>auto simp: bit_simps\<close>)
  ultimately have "try_from_u64 LENGTH('a) ucast (ucast v :: u64) = Inr v"
    using unsigned_less [of v, where ?'a = nat] assms by (simp add: try_from_u64_def)
  then show ?thesis by (auto simp: conv_wire_def number_wire_def)
qed

lemma string_wire_enc:
  "utf8_valid (as_bytes s) \<Longrightarrow> length s \<le> hi \<Longrightarrow> conv_wire (slice_wire hi) from_utf8 s (enc_string s)"
  by (auto simp: conv_wire_def slice_wire_def enc_string_def from_utf8_def intro!: exI [of _ "as_bytes s"])

lemma fold_snoc: "fold (\<lambda>x ret. ret @ [x]) vs c = c @ vs"
  by (induction vs arbitrary: c) auto

lemma vec_wire_enc:
  assumes "list_all (\<lambda>v. wire v (enc v)) vs" "length vs < 2 ^ 64" "length vs * sz < 2 ^ 63"
  shows "vec_wire sz wire vs (enc_vec enc vs)"
  using assms
  by (auto simp: vec_wire_def counted_wire_def fold_snoc enc_vec_def list_all2_conv_all_nth list_all_length
      intro!: exI [of _ vs] exI [of _ "map enc vs"])

lemma set_wire_enc:
  assumes "list_all (\<lambda>v. wire v (enc v)) vs" "length vs < 2 ^ 64" "sorted_wrt (<) vs"
  shows "set_wire wire vs (enc_vec enc vs)"
  using assms fold_set_insert [of "[]" vs]
  by (auto simp: set_wire_def counted_wire_def enc_vec_def list_all2_conv_all_nth list_all_length
      intro!: exI [of _ vs] exI [of _ "map enc vs"])

lemma map_wire_enc:
  assumes "list_all (\<lambda>e. kwire (fst e) (kenc (fst e)) \<and> vwire (snd e) (venc (snd e))) m" "length m < 2 ^ 64"
    "sorted_wrt (<) (map fst m)"
  shows "map_wire kwire vwire m (enc_vec (enc_pair kenc venc) m)"
  using assms fold_map_insert [of "[]" m]
  by (auto simp: map_wire_def counted_wire_def enc_vec_def enc_pair_def pair_wire_def list_all2_conv_all_nth list_all_length
      intro!: exI [of _ m] exI [of _ "map (enc_pair kenc venc) m"]) blast

end
