(* ===== verification/Nix_Reader.thy ===== *)
theory Nix_Reader
  imports Nix_De Framed_Reader
begin

text \<open>
  \<open>NixReader\<close> of \<open>harmonia-protocol/src/de/reader.rs\<close>: a \<open>NixRead\<close> over any \<open>AsyncBytesRead\<close>, reading
  with the futures \<open>TryReadU64\<close> and \<open>TryReadBytesLimited\<close> of \<open>Async_Io\<close>, each polled until it is ready.

  The fact: over a source that keeps its contract and is pending only finitely often, the reader keeps
  the contract \<open>nix_read\<close> (\<open>nix_reader_contract\<close>).
\<close>

section \<open>State and operations\<close>

record 'r NixReader =
  nr_inner :: 'r
  nr_reserved_buf_size :: nat
  nr_max_buf_size :: nat
  nr_version :: ProtocolVersion
  nr_store_dir :: StoreDir

record NixReaderBuilder =
  rb_reserved_buf_size :: nat
  rb_max_buf_size :: nat
  rb_version :: ProtocolVersion
  rb_store_dir :: StoreDir

definition nix_reader_builder :: NixReaderBuilder where
  "nix_reader_builder = \<lparr>rb_reserved_buf_size = DEFAULT_RESERVED_BUF_SIZE, rb_max_buf_size = DEFAULT_MAX_BUF_SIZE,
     rb_version = PROTOCOL_VERSION, rb_store_dir = default_dir\<rparr>"

definition rb_set_reserved_buf_size :: "NixReaderBuilder \<Rightarrow> nat \<Rightarrow> NixReaderBuilder" where
  "rb_set_reserved_buf_size b sz = b\<lparr>rb_reserved_buf_size := sz\<rparr>"

definition rb_set_max_buf_size :: "NixReaderBuilder \<Rightarrow> nat \<Rightarrow> NixReaderBuilder" where
  "rb_set_max_buf_size b sz = b\<lparr>rb_max_buf_size := sz\<rparr>"

definition rb_set_version :: "NixReaderBuilder \<Rightarrow> ProtocolVersion \<Rightarrow> NixReaderBuilder" where
  "rb_set_version b version = b\<lparr>rb_version := version\<rparr>"

definition rb_set_store_dir :: "NixReaderBuilder \<Rightarrow> StoreDir \<Rightarrow> NixReaderBuilder" where
  "rb_set_store_dir b store_dir = b\<lparr>rb_store_dir := store_dir\<rparr>"

definition rb_build :: "NixReaderBuilder \<Rightarrow> 'r \<Rightarrow> 'r NixReader" where
  "rb_build b reader = \<lparr>nr_inner = reader, nr_reserved_buf_size = rb_reserved_buf_size b,
     nr_max_buf_size = rb_max_buf_size b, nr_version = rb_version b, nr_store_dir = rb_store_dir b\<rparr>"

definition rb_build_buffered :: "NixReaderBuilder \<Rightarrow> (nat \<Rightarrow> bool) \<Rightarrow> 'r \<Rightarrow> 'r BytesReader NixReader" where
  "rb_build_buffered b sh reader = rb_build b (br_build (rb_reserved_buf_size b) (rb_max_buf_size b) sh reader)"

definition nix_reader_new :: "(nat \<Rightarrow> bool) \<Rightarrow> 'r \<Rightarrow> 'r BytesReader NixReader" where
  "nix_reader_new sh reader = rb_build_buffered nix_reader_builder sh reader"

definition nr_set_version :: "'r NixReader \<Rightarrow> ProtocolVersion \<Rightarrow> 'r NixReader" where
  "nr_set_version nr version = nr\<lparr>nr_version := version\<rparr>"

text \<open>\<open>AsyncBytesRead\<close> for the reader hands every call on to the source.\<close>

definition nr_fill :: "'r BytesRead \<Rightarrow> 'r NixReader \<Rightarrow> ('r NixReader, bytes) polled" where
  "nr_fill ops nr = map_option (apfst (\<lambda>r. nr\<lparr>nr_inner := r\<rparr>)) (op_fill ops (nr_inner nr))"

definition nr_force :: "'r BytesRead \<Rightarrow> 'r NixReader \<Rightarrow> ('r NixReader, bytes) polled" where
  "nr_force ops nr = map_option (apfst (\<lambda>r. nr\<lparr>nr_inner := r\<rparr>)) (op_force ops (nr_inner nr))"

definition nr_consume :: "'r BytesRead \<Rightarrow> 'r NixReader \<Rightarrow> nat \<Rightarrow> 'r NixReader option" where
  "nr_consume ops nr amt = map_option (\<lambda>r. nr\<lparr>nr_inner := r\<rparr>) (op_consume ops (nr_inner nr) amt)"

definition nr_prepare :: "'r BytesRead \<Rightarrow> 'r NixReader \<Rightarrow> nat \<Rightarrow> 'r NixReader option" where
  "nr_prepare ops nr additional = map_option (\<lambda>r. nr\<lparr>nr_inner := r\<rparr>) (op_prepare ops (nr_inner nr) additional)"

definition nr_ops :: "'r BytesRead \<Rightarrow> 'r NixReader BytesRead" where
  "nr_ops ops = \<lparr>op_read = poll_read_by_fill (nr_fill ops) (nr_consume ops), op_fill = nr_fill ops,
     op_force = nr_force ops, op_prepare = nr_prepare ops, op_consume = nr_consume ops\<rparr>"

text \<open>\<open>TryReadU64::read\<close> and \<open>TryReadBytesLimited::read\<close>: the future and the reader it borrows, polled together.\<close>

definition u64_read :: "('r \<Rightarrow> nat \<Rightarrow> ('r, bytes) polled) \<Rightarrow> 'r \<Rightarrow> ('r, u64 option) awaited" where
  "u64_read read r =
     map_option (apfst snd)
       (await (\<lambda>(t, r). map_option (\<lambda>(t, r, res). ((t, r), res)) (u64_poll_reader read t r)) (u64_new, r))"

definition bytes_read_limited :: "'r BytesRead \<Rightarrow> nat \<Rightarrow> nat \<Rightarrow> 'r \<Rightarrow> ('r, bytes option) awaited" where
  "bytes_read_limited ops lo hi r =
     map_option (apfst snd)
       (await (\<lambda>(t, r). map_option (\<lambda>(t, r, res). ((t, r), res)) (bytes_poll_reader ops t r)) (bytes_limited_new lo hi, r))"

definition nr_try_read_number :: "'r BytesRead \<Rightarrow> 'r NixReader \<Rightarrow> ('r NixReader, u64 option) awaited" where
  "nr_try_read_number ops nr = u64_read (op_read (nr_ops ops)) nr"

definition nr_try_read_bytes_limited :: "'r BytesRead \<Rightarrow> 'r NixReader \<Rightarrow> nat \<Rightarrow> nat \<Rightarrow> ('r NixReader, bytes option) awaited" where
  "nr_try_read_bytes_limited ops nr lo hi =
     (if hi \<le> nr_max_buf_size nr then bytes_read_limited (nr_ops ops) lo hi nr else None)"

definition nr_try_read_bytes :: "'r BytesRead \<Rightarrow> 'r NixReader \<Rightarrow> ('r NixReader, bytes option) awaited" where
  "nr_try_read_bytes ops nr = nr_try_read_bytes_limited ops nr 0 (nr_max_buf_size nr)"

definition nr_read_bytes :: "'r BytesRead \<Rightarrow> 'r NixReader \<Rightarrow> ('r NixReader, bytes) awaited" where
  "nr_read_bytes ops nr = required (nr_try_read_bytes_limited ops nr 0 (nr_max_buf_size nr))"

definition nr_force_fill :: "'r BytesRead \<Rightarrow> 'r NixReader \<Rightarrow> ('r NixReader, bytes) awaited" where
  "nr_force_fill ops nr = await (nr_force ops) nr"

definition nix_reader_ops :: "'r BytesRead \<Rightarrow> 'r NixReader NixRead" where
  "nix_reader_ops ops = \<lparr>rd_version = nr_version, rd_store_dir = nr_store_dir, rd_number = nr_try_read_number ops,
     rd_bytes_limited = nr_try_read_bytes_limited ops, rd_bytes = nr_try_read_bytes ops\<rparr>"

section \<open>The futures end\<close>

locale patient_bytes = patient_read ops rest good src_err avail delay
  for ops :: "'r BytesRead" and rest good src_err avail delay +
  assumes op_prepare_delay: "op_prepare ops r n = Some r' \<Longrightarrow> delay r' \<le> delay r"
    and fill_pending: "good r \<Longrightarrow> op_fill ops r = Some (r', Pending) \<Longrightarrow> avail r = []"
begin

lemma fill_poll_delay: "fill_poll ops len aligned r = Some (t', r', res) \<Longrightarrow> waits (delay r) (delay r') res"
  by (auto simp: fill_poll_def Let_def waits_simps dest!: op_fill_delay force_until_delay op_consume_delay
      split: option.splits prod.splits poll.splits sum.splits if_splits)

lemma bytes_delay: "bytes_poll_reader ops t r = Some (t', r', res) \<Longrightarrow> waits (delay r) (delay r') res"
  by (auto simp: bytes_poll_reader_def Let_def waits_simps dest!: pb.u64_delay fill_poll_delay op_prepare_delay
      split: TryReadBytesLimited.splits option.splits prod.splits poll.splits sum.splits if_splits intro: waits_trans)

lemma u64_read_spec:
  assumes "good r"
  shows "\<exists>r' x. u64_read (op_read ops) r = Some (r', x) \<and> u64_post src_err (rest r) (rest r') (Ready x) \<and>
    ((\<exists>e. x = Inl e) \<or> good r')"
proof -
  let ?poll = "\<lambda>(t, r). map_option (\<lambda>(t, r, res). ((t, r), res)) (u64_poll_reader (op_read ops) t r)"
  let ?I = "\<lambda>(t, s). u64_ok t \<and> good s \<and> u64_seen t @ rest s = rest r"
  let ?Q = "\<lambda>s x. u64_post src_err (rest r) (rest (snd s)) (Ready x) \<and> ((\<exists>e. x = Inl e) \<or> good (snd s))"
  have "\<exists>s x. await ?poll (u64_new, r) = Some (s, x) \<and> ?Q s x"
  proof (rule await_spec [where I = ?I and m = "\<lambda>s. delay (snd s)"])
    show "?I (u64_new, r)" using assms by (simp add: u64_ok_def u64_new_def u64_seen_def)
    show "\<exists>s' res. ?poll s = Some (s', res) \<and>
        (case res of Pending \<Rightarrow> ?I s' \<and> delay (snd s') < delay (snd s) | Ready x \<Rightarrow> ?Q s' x)" if I: "?I s" for s
    proof -
      obtain t s0 where s: "s = (t, s0)" by (cases s)
      obtain t' s' res where p: "u64_poll_reader (op_read ops) t s0 = Some (t', s', res)" "u64_ok t'" "is_err res \<or> good s'"
        "u64_post src_err (rest r) (rest s') res"
        "res = Pending \<or> is_err res \<or> res = Ready (Inr None) \<longrightarrow> u64_seen t' @ rest s' = rest r"
        using u64_poll_reader_spec [of t s0] I s by auto
      from pb.u64_delay [OF p(1)] p s show ?thesis by (cases res) (auto simp: waits_simps is_err_def)
    qed
  qed
  then show ?thesis by (auto simp: u64_read_def)
qed

lemma bytes_read_limited_spec:
  assumes "good r" "hi + 8 \<le> 2 ^ 63"
  shows "\<exists>r' x. bytes_read_limited ops lo hi r = Some (r', x) \<and> bytes_post src_err lo hi (rest r) (rest r') (Ready x) \<and>
    ((\<exists>e. x = Inl e) \<or> good r')"
proof -
  let ?poll = "\<lambda>(t, r). map_option (\<lambda>(t, r, res). ((t, r), res)) (bytes_poll_reader ops t r)"
  let ?I = "\<lambda>(t, s). bytes_ok lo hi t \<and> good s \<and> bytes_stream t (rest s) = rest r"
  let ?Q = "\<lambda>s x. bytes_post src_err lo hi (rest r) (rest (snd s)) (Ready x) \<and> ((\<exists>e. x = Inl e) \<or> good (snd s))"
  have "\<exists>s x. await ?poll (bytes_limited_new lo hi, r) = Some (s, x) \<and> ?Q s x"
  proof (rule await_spec [where I = ?I and m = "\<lambda>s. delay (snd s)"])
    show "?I (bytes_limited_new lo hi, r)"
      using assms by (simp add: bytes_limited_new_def u64_ok_def u64_new_def u64_seen_def)
    show "\<exists>s' res. ?poll s = Some (s', res) \<and>
        (case res of Pending \<Rightarrow> ?I s' \<and> delay (snd s') < delay (snd s) | Ready x \<Rightarrow> ?Q s' x)" if I: "?I s" for s
    proof -
      obtain t s0 where s: "s = (t, s0)" by (cases s)
      obtain t' s' res where p: "bytes_poll_reader ops t s0 = Some (t', s', res)" "is_err res \<or> good s'"
        "bytes_post src_err lo hi (rest r) (rest s') res"
        "res = Pending \<longrightarrow> bytes_ok lo hi t' \<and> bytes_stream t' (rest s') = rest r"
        using bytes_poll_reader_spec [of lo hi t s0] I s by auto
      from bytes_delay [OF p(1)] p s show ?thesis by (cases res) (auto simp: waits_simps is_err_def)
    qed
  qed
  then show ?thesis by (auto simp: bytes_read_limited_def)
qed

lemma number_reader: "value_reader rest good src_err (u64_read (op_read ops)) number_wire"
proof
  fix r v bs S
  assume g: "good r" and "number_wire v bs" "rest r = bs @ S"
  then have st: "rest r = to_le_bytes v @ S" by (simp add: number_wire_def)
  have ne: "to_le_bytes v \<noteq> []" by (simp add: to_le_bytes_def numeral_eq_Suc)
  obtain r' x where m: "u64_read (op_read ops) r = Some (r', x)" "u64_post src_err (rest r) (rest r') (Ready x)"
    "(\<exists>e. x = Inl e) \<or> good r'" using u64_read_spec [OF g] by blast
  consider e where "x = Inl e" | "x = Inr None" | w where "x = Inr (Some w)" by (metis option.exhaust sum.exhaust)
  then show "got_value src_err good rest (Some v) S (u64_read (op_read ops) r)"
    by cases (use m st ne in \<open>auto simp: got_value_def\<close>)
next
  fix r r' v
  assume g: "good r" and m: "u64_read (op_read ops) r = Some (r', Inr (Some v))"
  then show "good r' \<and> (\<exists>bs. number_wire v bs \<and> rest r = bs @ rest r')"
    using u64_read_spec [OF g] by (auto simp: number_wire_def)
next
  fix r r'
  assume g: "good r" and m: "u64_read (op_read ops) r = Some (r', Inr None)"
  then show "good r' \<and> rest r = []" using u64_read_spec [OF g] by auto
qed

lemma slice_reader:
  assumes "hi + 8 \<le> 2 ^ 63"
  shows "value_reader rest good src_err (bytes_read_limited ops 0 hi) (slice_wire hi)"
proof
  fix r c bs S
  assume g: "good r" and "slice_wire hi c bs" "rest r = bs @ S"
  then have st: "rest r = nix_slice c @ S" and len: "length c \<le> hi" by (auto simp: slice_wire_def)
  have ws: "wire_string 0 hi (rest r) c S" using st len assms by (simp add: wire_string_def)
  have uniq: "c' = c \<and> S' = S" if "wire_string 0 hi (rest r) c' S'" for c' S'
  proof -
    have u: "unat (word_of_nat (length c) :: u64) = length c" using len assms by (simp add: unat_of_nat)
    have "rest r = to_le_bytes (word_of_nat (length c)) @ c @ replicate (calc_padding (word_of_nat (length c))) 0 @ S"
      using st by (simp add: put_nix_slice_def)
    from wire_string_length [OF that [unfolded this]] u have "length c' = length c"
      "c @ replicate (calc_padding (word_of_nat (length c))) 0 @ S = c' @ replicate (calc_padding (word_of_nat (length c))) 0 @ S'"
      by (simp_all only:)
    then show ?thesis by simp
  qed
  obtain r' x where m: "bytes_read_limited ops 0 hi r = Some (r', x)" "bytes_post src_err 0 hi (rest r) (rest r') (Ready x)"
    "(\<exists>e. x = Inl e) \<or> good r'" using bytes_read_limited_spec [OF g assms] by blast
  have ne: "rest r \<noteq> []" using wire_string_not_short [OF ws] by auto
  consider e where "x = Inl e" | "x = Inr None" | w where "x = Inr (Some w)" by (metis option.exhaust sum.exhaust)
  then show "got_value src_err good rest (Some c) S (bytes_read_limited ops 0 hi r)"
  proof cases
    case (1 e)
    with m(2) ws have "src_err e" by auto
    with 1 m(1) show ?thesis by (simp add: got_value_def)
  next
    case 2
    with m(2) ne show ?thesis by simp
  next
    case (3 w)
    with m(2) have "wire_string 0 hi (rest r) w (rest r')" by simp
    from uniq [OF this] 3 m(1,3) show ?thesis by (simp add: got_value_def)
  qed
next
  fix r r' c
  assume g: "good r" and m: "bytes_read_limited ops 0 hi r = Some (r', Inr (Some c))"
  then show "good r' \<and> (\<exists>bs. slice_wire hi c bs \<and> rest r = bs @ rest r')"
    using bytes_read_limited_spec [OF g assms, of 0] by (auto simp: slice_wire_def wire_string_def)
next
  fix r r'
  assume g: "good r" and m: "bytes_read_limited ops 0 hi r = Some (r', Inr None)"
  then show "good r' \<and> rest r = []" using bytes_read_limited_spec [OF g assms, of 0] by auto
qed

end

section \<open>The contract\<close>

definition nr_rest :: "('r \<Rightarrow> bytes) \<Rightarrow> 'r NixReader \<Rightarrow> bytes" where
  "nr_rest rest nr = rest (nr_inner nr)"

definition nr_avail :: "('r \<Rightarrow> bytes) \<Rightarrow> 'r NixReader \<Rightarrow> bytes" where
  "nr_avail avail nr = avail (nr_inner nr)"

definition nr_good :: "('r \<Rightarrow> bool) \<Rightarrow> nat \<Rightarrow> ProtocolVersion \<times> StoreDir \<Rightarrow> 'r NixReader \<Rightarrow> bool" where
  "nr_good good hi env nr \<longleftrightarrow> good (nr_inner nr) \<and> nr_max_buf_size nr = hi \<and> env = (nr_version nr, nr_store_dir nr)"

context patient_bytes
begin

lemma nr_source: "buf_source (nr_rest rest) (nr_good good hi env) src_err (nr_fill ops) (nr_consume ops) (nr_avail avail)"
proof (rule buf_sourceI)
  show "nr_good good hi env nr \<Longrightarrow> prefix (nr_avail avail nr) (nr_rest rest nr)" for nr
    using avail_prefix by (simp add: nr_good_def nr_rest_def nr_avail_def)
  show "nr_good good hi env nr \<Longrightarrow> \<exists>nr' res. nr_fill ops nr = Some (nr', res) \<and>
      (is_err res \<or> nr_good good hi env nr' \<and> length (nr_avail avail nr) \<le> length (nr_avail avail nr')) \<and>
      nr_rest rest nr' = nr_rest rest nr \<and> fill_post src_err (nr_rest rest nr) (nr_avail avail nr') res" for nr
    using fill_law [of "nr_inner nr"] by (auto simp: nr_fill_def nr_good_def nr_rest_def nr_avail_def)
  show "nr_good good hi env nr \<Longrightarrow> n \<le> length (nr_avail avail nr) \<Longrightarrow>
      \<exists>nr'. nr_consume ops nr n = Some nr' \<and> nr_good good hi env nr' \<and> nr_rest rest nr' = drop n (nr_rest rest nr) \<and>
        length (nr_avail avail nr') = length (nr_avail avail nr) - n" for nr n
    using consume_law [of "nr_inner nr" n] by (auto simp: nr_consume_def nr_good_def nr_rest_def nr_avail_def)
qed

lemma nr_fill_delay: "nr_fill ops nr = Some (nr', res) \<Longrightarrow> waits (delay (nr_inner nr)) (delay (nr_inner nr')) res"
  by (auto simp: nr_fill_def dest: op_fill_delay)

lemma nr_consume_delay: "nr_consume ops nr n = Some nr' \<Longrightarrow> delay (nr_inner nr') \<le> delay (nr_inner nr)"
  by (auto simp: nr_consume_def dest: op_consume_delay)

lemma nr_read_delay:
  "poll_read_by_fill (nr_fill ops) (nr_consume ops) nr cap = Some (nr', res) \<Longrightarrow>
     waits (delay (nr_inner nr)) (delay (nr_inner nr')) res"
  by (auto simp: poll_read_by_fill_def Let_def waits_simps dest!: nr_fill_delay nr_consume_delay
      split: option.splits prod.splits poll.splits sum.splits if_splits)

lemma nr_force_law:
  "nr_good good hi env nr \<Longrightarrow> \<exists>nr' res. nr_force ops nr = Some (nr', res) \<and>
     (is_err res \<or> nr_good good hi env nr' \<and> length (nr_avail avail nr) \<le> length (nr_avail avail nr')) \<and>
     nr_rest rest nr' = nr_rest rest nr \<and>
     force_post src_err (nr_rest rest nr) (nr_avail avail nr) (nr_avail avail nr') res"
  using force_law [of "nr_inner nr"] by (auto simp: nr_force_def nr_good_def nr_rest_def nr_avail_def)

lemma nr_prepare_law:
  "nr_good good hi env nr \<Longrightarrow> n < 2 ^ 63 \<Longrightarrow> \<exists>nr'. nr_prepare ops nr n = Some nr' \<and> nr_good good hi env nr' \<and> nr_rest rest nr' = nr_rest rest nr"
  using prepare_law [of "nr_inner nr" n] by (auto simp: nr_prepare_def nr_good_def nr_rest_def)

lemma nr_fill_pending: "nr_good good hi env nr \<Longrightarrow> nr_fill ops nr = Some (nr', Pending) \<Longrightarrow> nr_avail avail nr = []"
  using fill_pending by (auto simp: nr_fill_def nr_good_def nr_avail_def)

lemma nr_read_pending:
  assumes "nr_good good hi env nr" "poll_read_by_fill (nr_fill ops) (nr_consume ops) nr cap = Some (nr', Pending)"
  shows "nr_avail avail nr = []"
proof -
  have "nr_fill ops nr = Some (nr', Pending)"
    using assms(2) by (auto simp: poll_read_by_fill_def Let_def
        split: option.splits prod.splits poll.splits sum.splits if_splits)
  with nr_fill_pending [OF assms(1)] show ?thesis by blast
qed

lemma nr_contract:
  "patient_bytes (nr_ops ops) (nr_rest rest) (nr_good good hi env) src_err (nr_avail avail) (\<lambda>nr. delay (nr_inner nr))"
proof -
  note src = nr_source [of hi env]
  note fs = buf_source.axioms(1) [OF src]
  have "async_read (poll_read_by_fill (nr_fill ops) (nr_consume ops)) (nr_rest rest) (nr_good good hi env) src_err"
    using fill_source.poll_read_by_fill_spec [OF fs] by unfold_locales
  then have br: "bytes_read (nr_ops ops) (nr_rest rest) (nr_good good hi env) src_err (nr_avail avail)"
    using src fill_source.poll_read_by_fill_avail [OF fs]
    by (simp add: nr_ops_def bytes_read_def bytes_read_axioms_def nr_force_law nr_prepare_law nr_read_pending)
  have "waits (delay (nr_inner nr)) (delay (nr_inner nr')) res" if "nr_force ops nr = Some (nr', res)" for nr nr' res
    using that op_force_delay by (auto simp: nr_force_def)
  with br have pr: "patient_read (nr_ops ops) (nr_rest rest) (nr_good good hi env) src_err (nr_avail avail) (\<lambda>nr. delay (nr_inner nr))"
    by (auto simp: patient_read_def patient_read_axioms_def nr_ops_def dest: nr_fill_delay nr_consume_delay nr_read_delay)
  have "delay (nr_inner nr') \<le> delay (nr_inner nr)" if "nr_prepare ops nr n = Some nr'" for nr nr' n
    using that op_prepare_delay by (auto simp: nr_prepare_def)
  with pr show ?thesis
    by (auto simp: patient_bytes_def patient_bytes_axioms_def nr_ops_def dest: nr_fill_pending)
qed

lemma nix_reader_contract:
  assumes "hi + 8 \<le> 2 ^ 63"
  shows "nix_read (nix_reader_ops ops) (nr_rest rest) (nr_good good hi env) src_err hi"
proof -
  have "value_reader (nr_rest rest) (nr_good good hi env) src_err (nr_try_read_number ops) number_wire"
    using patient_bytes.number_reader [OF nr_contract] by (simp add: nr_try_read_number_def [abs_def])
  moreover have "value_reader (nr_rest rest) (nr_good good hi env) src_err (nr_try_read_bytes ops) (slice_wire hi)"
  proof -
    have vr: "value_reader (nr_rest rest) (nr_good good hi env) src_err (bytes_read_limited (nr_ops ops) 0 hi) (slice_wire hi)"
      by (rule patient_bytes.slice_reader [OF nr_contract assms])
    have eq: "nr_try_read_bytes ops nr = bytes_read_limited (nr_ops ops) 0 hi nr" if "nr_good good hi env nr" for nr
      using that by (simp add: nr_try_read_bytes_def nr_try_read_bytes_limited_def nr_good_def)
    show ?thesis by (rule value_reader_cong [OF vr eq])
  qed
  ultimately show ?thesis by (simp add: nix_read_def nix_reader_ops_def)
qed

end

interpretation bcursor: patient_bytes cursor_ops cursor_rest cursor_good "\<lambda>_. False" cursor_rest "\<lambda>_. 0"
  by unfold_locales (auto simp: cursor_ops_def cursor_fill_def cursor_prepare_def split: if_splits)

interpretation bbr: patient_bytes "bytes_reader_ops script_read" "br_rest script_rest"
    "br_good (script_good E)" "br_err (\<lambda>e. e \<in> E)" br_avail "\<lambda>br. script_delay (inner br)" for E
proof
  show "op_prepare (bytes_reader_ops script_read) r n = Some r' \<Longrightarrow> script_delay (inner r') \<le> script_delay (inner r)" for r n r'
    by (auto simp: bytes_reader_ops_def br_prepare_def buf_reserve_def Let_def split: option.splits if_splits)
  show "br_good (script_good E) r \<Longrightarrow> op_fill (bytes_reader_ops script_read) r = Some (r', Pending) \<Longrightarrow> br_avail r = []" for r r'
    by (auto simp: bytes_reader_ops_def br_fill_def br_avail_def as_slice_def
        split: option.splits prod.splits poll.splits sum.splits if_splits)
qed

interpretation snr: nix_read "nix_reader_ops (bytes_reader_ops script_read)" "nr_rest (br_rest script_rest)"
    "nr_good (br_good (script_good E)) DEFAULT_MAX_BUF_SIZE env" "br_err (\<lambda>e. e \<in> E)" DEFAULT_MAX_BUF_SIZE for E env
  by (rule bbr.nix_reader_contract) (simp add: DEFAULT_MAX_BUF_SIZE_def)

end
