(* ===== verification/Protocol_Properties.thy ===== *)
theory Protocol_Properties
  imports Nix_Writer Nix_Reader
begin

text \<open>
  What the value layer of the daemon protocol promises: the writer and the reader keep the contracts of their traits,
  and the collections do if their elements do.
\<close>

section \<open>Writer and reader\<close>

text \<open>
  C22. \<open>NixWriter\<close> over every sink that takes at least one byte of a non-empty buffer, waits finitely often or fails, over
  every allocator, and with a reserved size of at least \<open>2 * (limit + 8)\<close> and a size for texts of at least \<open>limit + 8\<close>, for some
  \<open>limit\<close> (with the default sizes it is 8184): the three ways of writing do not panic and always come to an end;
  a number, a byte string or a text is appended to what was written before exactly as the
  wire format has it; errors are the sink's, but that a text is refused that is longer than \<open>limit\<close>.
  The builder accepts smaller sizes too, to which this does not apply: with a reserved size of 8 a write can panic.
\<close>

theorem nix_writer_appends:
  assumes "buffered_write put written sink_err flush wdelay A" "nw_at written limit env p nw"
  shows "sent sink_err (nw_at written limit env) (p @ to_le_bytes v) (nw_write_number A put nw v) \<and>
    sent sink_err (nw_at written limit env) (p @ nix_slice b) (nw_write_slice A put nw b) \<and>
    sent (\<lambda>e. sink_err e \<or> limit < length b) (nw_at written limit env) (p @ nix_slice b) (nw_write_display A put nw b)"
  using buffered_write.nw_number_sent [OF assms] buffered_write.nw_slice_sent [OF assms]
    buffered_write.nw_display_sent [OF assms] by blast

theorem nix_writer_appends_witness:
  "sent (\<lambda>_. True) (nw_at taken 8184 (PROTOCOL_VERSION, default_dir)) ([9] @ nix_slice [1, 2, 3])
     (nw_write_slice exact_alloc sink_put (nix_writer_new exact_alloc \<lparr>taken = [9], plan = [KPending, KAccept 2]\<rparr>) [1, 2, 3])"
  using nix_writer_appends [OF swrite.buffered_write_axioms
      swrite.nix_writer_new_at [of "\<lparr>taken = [9], plan = [KPending, KAccept 2]\<rparr>"]] by simp

text \<open>
  \<open>NixReader\<close> over every source that keeps the contract of \<open>AsyncBytesRead\<close> and is pending only finitely often: on
  the encoding of a number, or of a byte string within the reader's limit, the read ends with that value and the
  source right behind it, unless the source fails; a value it returns was encoded at the head of the stream; and
  it reports the end of the stream only there.
\<close>

theorem nix_reader_reads:
  assumes "patient_bytes ops rest good src_err avail delay" "hi + 8 \<le> 2 ^ 63"
  shows "value_reader (nr_rest rest) (nr_good good hi env) src_err (nr_try_read_number ops) number_wire \<and>
    value_reader (nr_rest rest) (nr_good good hi env) src_err (nr_try_read_bytes ops) (slice_wire hi)"
  using patient_bytes.nix_reader_contract [OF assms] by (simp add: nix_read_def nix_reader_ops_def)

theorem nix_reader_reads_witness:
  "got_value (\<lambda>_. False) (nr_good cursor_good DEFAULT_MAX_BUF_SIZE (PROTOCOL_VERSION, default_dir)) (nr_rest cursor_rest) (Some [1, 2, 3]) [7]
     (nr_try_read_bytes cursor_ops (rb_build nix_reader_builder \<lparr>cdata = nix_slice [1, 2, 3] @ [7], cpos = 0\<rparr>))"
proof -
  have hi: "DEFAULT_MAX_BUF_SIZE + 8 \<le> 2 ^ 63" "3 \<le> DEFAULT_MAX_BUF_SIZE" by (simp_all add: DEFAULT_MAX_BUF_SIZE_def)
  from nix_reader_reads [OF bcursor.patient_bytes_axioms hi(1)]
  have "value_reader (nr_rest cursor_rest) (nr_good cursor_good DEFAULT_MAX_BUF_SIZE (PROTOCOL_VERSION, default_dir)) (\<lambda>_. False)
      (nr_try_read_bytes cursor_ops) (slice_wire DEFAULT_MAX_BUF_SIZE)" by blast
  then show ?thesis
    by (rule value_reader.complete [where bs = "nix_slice [1, 2, 3]"])
      (use hi in \<open>simp_all add: nr_good_def nr_rest_def slice_wire_def rb_build_def nix_reader_builder_def
        cursor_good_def cursor_rest_def\<close>)
qed

section \<open>Collections\<close>

text \<open>
  The decoders of \<open>Vec\<close>, \<open>BTreeSet\<close> and \<open>BTreeMap\<close> over every reader that keeps its contract: if the decoders of the
  elements return exactly what is encoded on the stream, so do they. A vector comes in the order of the stream, a set in
  its own order and without duplicates, a map with the last value of a key.
\<close>

theorem collections_decode:
  assumes "nix_read R rest good err hi"
    and "value_reader rest good err kde kwire" "value_reader rest good err vde vwire"
  shows "value_reader rest good err (de_vec sz R vde) (vec_wire sz vwire) \<and>
    value_reader rest good err (de_set R kde) (set_wire kwire) \<and>
    value_reader rest good err (de_map R kde vde) (map_wire kwire vwire)"
  using nix_read.vec_reader [OF assms(1,3)] nix_read.set_reader [OF assms(1,2)] nix_read.map_reader [OF assms] by blast

theorem collections_decode_witness:
  "value_reader (nr_rest (br_rest script_rest)) (nr_good (br_good (script_good {})) DEFAULT_MAX_BUF_SIZE (PROTOCOL_VERSION, default_dir))
     (br_err (\<lambda>e. e \<in> {}))
     (de_map (nix_reader_ops (bytes_reader_ops script_read)) (de_u64 (nix_reader_ops (bytes_reader_ops script_read)))
       (de_bool (nix_reader_ops (bytes_reader_ops script_read))))
     (map_wire number_wire (conv_wire number_wire (\<lambda>v. Inr (v \<noteq> 0))))"
  using collections_decode [OF snr.nix_read_axioms snr.u64_reader snr.bool_reader] by blast

text \<open>
  The decoder of \<open>Vec\<close> allocates for a length it has just read from the peer: a length whose
  elements would not fit an allocation makes it panic, whatever follows on the stream.
\<close>

theorem vec_length_panics:
  assumes "nix_read R rest good err hi" "good r" "rest r = enc_usize n @ S" "n < 2 ^ 64" "2 ^ 63 \<le> n * sz"
  shows "de_vec sz R de r = None \<or> (\<exists>r' e. err e \<and> de_vec sz R de r = Some (r', Inl e))"
proof -
  have "got_value err good rest (Some n) S (de_usize R r)"
    using value_reader.complete [OF nix_read.usize_reader [OF assms(1)] assms(2), of n "enc_usize n"] assms(3,4)
    by (simp add: usize_wire_def)
  then obtain r1 x where x: "de_usize R r = Some (r1, x)"
    "case x of Inl e \<Rightarrow> err e | Inr y \<Rightarrow> y = Some n \<and> good r1 \<and> rest r1 = S"
    unfolding got_value_def by blast
  show ?thesis
  proof (cases x)
    case (Inl e)
    with x show ?thesis by (simp add: de_vec_def de_counted_def)
  next
    case (Inr y)
    with x assms(5) show ?thesis by (simp add: de_vec_def de_counted_def not_less)
  qed
qed

theorem vec_length_panics_witness:
  "de_vec 8 (nix_reader_ops cursor_ops) (de_u64 (nix_reader_ops cursor_ops))
     (rb_build nix_reader_builder \<lparr>cdata = enc_usize (2 ^ 60), cpos = 0\<rparr>) = None"
proof -
  have "nix_read (nix_reader_ops cursor_ops) (nr_rest cursor_rest) (nr_good cursor_good DEFAULT_MAX_BUF_SIZE (PROTOCOL_VERSION, default_dir)) (\<lambda>_. False)
      DEFAULT_MAX_BUF_SIZE"
    by (rule bcursor.nix_reader_contract) (simp add: DEFAULT_MAX_BUF_SIZE_def)
  from vec_length_panics [OF this, of "rb_build nix_reader_builder \<lparr>cdata = enc_usize (2 ^ 60), cpos = 0\<rparr>" "2 ^ 60" "[]" 8]
  show ?thesis by (simp add: nr_good_def nr_rest_def rb_build_def nix_reader_builder_def cursor_good_def cursor_rest_def)
qed

end
