(* ===== verification/Nix_Derive.thy ===== *)
theory Nix_Derive
  imports Nix_De Signatures
begin

text \<open>
  The code that \<open>harmonia-protocol-derive\<close> (\<open>ser.rs\<close>, \<open>de.rs\<close>) generates for structs, tagged enums and conversions, as combinators
  of serialisers and decoders, and the macros for optional values of \<open>daemon_wire/types.rs\<close> and \<open>types2.rs\<close>. The
  fields of a struct are nested pairs: only the first may be missing (\<open>first__\<close>), and then the whole value is.
  A conversion that panics has the value \<open>None\<close>; the texts of its errors are abbreviated.

  The contract: \<open>carries ser de ok\<close> says that the decoder \<open>de\<close> is exact for some wire format and that the serialiser \<open>ser\<close> writes the
  values in \<open>ok\<close> in this format, over any writer and reader that keep their contracts and agree on the protocol version and
  the store directory (\<open>wire_env\<close>). Every combinator keeps it.
\<close>

section \<open>Serialisers\<close>

definition ser_then :: "('a \<Rightarrow> 'w \<Rightarrow> ('w, unit) awaited) \<Rightarrow> ('b \<Rightarrow> 'w \<Rightarrow> ('w, unit) awaited) \<Rightarrow> 'a \<times> 'b \<Rightarrow> 'w \<Rightarrow> ('w, unit) awaited" where
  "ser_then ser1 ser2 v w = aw_bind (ser1 (fst v) w) (\<lambda>w _. ser2 (snd v) w)"

definition ser_into :: "('a \<Rightarrow> 'b) \<Rightarrow> ('b \<Rightarrow> 'w \<Rightarrow> ('w, unit) awaited) \<Rightarrow> 'a \<Rightarrow> 'w \<Rightarrow> ('w, unit) awaited" where
  "ser_into f ser v w = ser (f v) w"

definition write_text :: "'w NixWrite \<Rightarrow> 'w \<Rightarrow> string option \<Rightarrow> ('w, unit) awaited" where
  "write_text W w s = (case s of None \<Rightarrow> None | Some t \<Rightarrow> wr_display W w (as_bytes t))"

definition ser_display :: "('a \<Rightarrow> string option) \<Rightarrow> ('w, 'a) serializer" where
  "ser_display f W v w = write_text W w (f v)"

definition ser_store_dir_display :: "(StoreDir \<Rightarrow> 'a \<Rightarrow> string option) \<Rightarrow> ('w, 'a) serializer" where
  "ser_store_dir_display f W v w = write_text W w (f (wr_store_dir W w) v)"

definition ser_tagged :: "('t \<Rightarrow> 'w \<Rightarrow> ('w, unit) awaited) \<Rightarrow> ('a \<Rightarrow> 't) \<Rightarrow> ('a \<Rightarrow> 'w \<Rightarrow> ('w, unit) awaited) \<Rightarrow> 'a \<Rightarrow> 'w \<Rightarrow> ('w, unit) awaited" where
  "ser_tagged tser tag body v w = aw_bind (tser (tag v) w) (\<lambda>w _. body v w)"

text \<open>A field that only some versions have.\<close>

definition ser_versioned ::
  "'w NixWrite \<Rightarrow> (u8 \<Rightarrow> bool) \<Rightarrow> ('a \<Rightarrow> 'w \<Rightarrow> ('w, unit) awaited) \<Rightarrow> ('b \<Rightarrow> 'w \<Rightarrow> ('w, unit) awaited) \<Rightarrow> 'a \<times> 'b \<Rightarrow> 'w \<Rightarrow> ('w, unit) awaited" where
  "ser_versioned W version ser1 ser2 v w =
     (if version (pv_minor (wr_version W w)) then ser_then ser1 ser2 v w else ser2 (snd v) w)"

definition ser_unit :: "('w, unit) serializer" where
  "ser_unit W v w = Some (w, Inr ())"

section \<open>Decoders\<close>

text \<open>A part that decides what is read behind it; without it the value is missing.\<close>

definition de_bind :: "('r \<Rightarrow> ('r, 'a option) awaited) \<Rightarrow> ('a \<Rightarrow> 'r \<Rightarrow> ('r, 'b) awaited) \<Rightarrow> 'r \<Rightarrow> ('r, 'b option) awaited" where
  "de_bind de1 body r = aw_bind (de1 r) (\<lambda>r a. case a of
       None \<Rightarrow> Some (r, Inr None)
     | Some a \<Rightarrow> aw_bind (body a r) (\<lambda>r b. Some (r, Inr (Some b))))"

definition aw_map :: "('a \<Rightarrow> 'b) \<Rightarrow> ('r, 'a) awaited \<Rightarrow> ('r, 'b) awaited" where
  "aw_map f m = aw_bind m (\<lambda>r x. Some (r, Inr (f x)))"

definition de_then :: "('r \<Rightarrow> ('r, 'a option) awaited) \<Rightarrow> ('r \<Rightarrow> ('r, 'b option) awaited) \<Rightarrow> 'r \<Rightarrow> ('r, ('a \<times> 'b) option) awaited" where
  "de_then de1 de2 = de_bind de1 (\<lambda>a r. aw_map (Pair a) (required (de2 r)))"

definition de_from :: "('b \<Rightarrow> 'a) \<Rightarrow> ('r \<Rightarrow> ('r, 'b option) awaited) \<Rightarrow> 'r \<Rightarrow> ('r, 'a option) awaited" where
  "de_from f de r = aw_map (map_option f) (de r)"

text \<open>A conversion that may fail, or panic.\<close>

definition try_converted :: "('r, 'a option) awaited \<Rightarrow> ('r \<Rightarrow> 'a \<Rightarrow> ('e + 'b) option) \<Rightarrow> ('r, 'b option) awaited" where
  "try_converted m conv = aw_bind m (\<lambda>r x. case x of
       None \<Rightarrow> Some (r, Inr None)
     | Some v \<Rightarrow> map_option (\<lambda>y. (r, result_map_err (\<lambda>_. IoError InvalidData ''invalid data'') (result_map Some y))) (conv r v))"

definition de_try_from :: "('b \<Rightarrow> 'e + 'a) \<Rightarrow> ('r \<Rightarrow> ('r, 'b option) awaited) \<Rightarrow> 'r \<Rightarrow> ('r, 'a option) awaited" where
  "de_try_from conv de r = try_converted (de r) (\<lambda>_ v. Some (conv v))"

definition parse_text :: "(string \<Rightarrow> ('e + 'a) option) \<Rightarrow> bytes \<Rightarrow> (unit + 'a) option" where
  "parse_text parse b =
     (case from_utf8 b of Inl _ \<Rightarrow> Some (Inl ()) | Inr s \<Rightarrow> map_option (result_map_err (\<lambda>_. ())) (parse s))"

definition de_from_str :: "(string \<Rightarrow> ('e + 'a) option) \<Rightarrow> 'r NixRead \<Rightarrow> 'r \<Rightarrow> ('r, 'a option) awaited" where
  "de_from_str parse R r = try_converted (rd_bytes R r) (\<lambda>_. parse_text parse)"

definition de_from_store_dir_str :: "(StoreDir \<Rightarrow> string \<Rightarrow> ('e + 'a) option) \<Rightarrow> 'r NixRead \<Rightarrow> 'r \<Rightarrow> ('r, 'a option) awaited" where
  "de_from_store_dir_str parse R r = try_converted (rd_bytes R r) (\<lambda>r. parse_text (parse (rd_store_dir R r)))"

definition de_tagged :: "('r \<Rightarrow> ('r, 't option) awaited) \<Rightarrow> ('t \<Rightarrow> 'r \<Rightarrow> ('r, 'a) awaited) \<Rightarrow> 'r \<Rightarrow> ('r, 'a option) awaited" where
  "de_tagged tde variant = de_bind tde variant"

definition de_versioned ::
  "'r NixRead \<Rightarrow> (u8 \<Rightarrow> bool) \<Rightarrow> 'a \<Rightarrow> ('r \<Rightarrow> ('r, 'a option) awaited) \<Rightarrow> ('r \<Rightarrow> ('r, 'b option) awaited) \<Rightarrow> 'r \<Rightarrow> ('r, ('a \<times> 'b) option) awaited" where
  "de_versioned R version d de1 de2 r =
     (if version (pv_minor (rd_version R r)) then de_then de1 de2 r else de_from (Pair d) de2 r)"

section \<open>Optional values\<close>

text \<open>\<open>optional_from_str!\<close> and \<open>optional_from_store_dir_str!\<close>: nothing is the empty text.\<close>

definition parse_optional :: "(string \<Rightarrow> ('e + 'a) option) \<Rightarrow> string \<Rightarrow> ('e + 'a option) option" where
  "parse_optional parse s = (if s = [] then Some (Inr None) else map_option (result_map Some) (parse s))"

definition de_optional_from_str :: "(string \<Rightarrow> ('e + 'a) option) \<Rightarrow> 'r NixRead \<Rightarrow> 'r \<Rightarrow> ('r, 'a option option) awaited" where
  "de_optional_from_str parse R r = try_converted (rd_bytes R r) (\<lambda>_. parse_text (parse_optional parse))"

definition de_optional_from_store_dir_str ::
  "(StoreDir \<Rightarrow> string \<Rightarrow> ('e + 'a) option) \<Rightarrow> 'r NixRead \<Rightarrow> 'r \<Rightarrow> ('r, 'a option option) awaited" where
  "de_optional_from_store_dir_str parse R r =
     try_converted (rd_bytes R r) (\<lambda>r. parse_text (parse_optional (parse (rd_store_dir R r))))"

definition ser_optional_text :: "'w NixWrite \<Rightarrow> ('a \<Rightarrow> 'w \<Rightarrow> ('w, unit) awaited) \<Rightarrow> 'a option \<Rightarrow> 'w \<Rightarrow> ('w, unit) awaited" where
  "ser_optional_text W ser v w = (case v of Some x \<Rightarrow> ser x w | None \<Rightarrow> wr_slice W w [])"

text \<open>\<open>optional_info!\<close>: a flag and the value.\<close>

definition ser_optional_info :: "'w NixWrite \<Rightarrow> ('a \<Rightarrow> 'w \<Rightarrow> ('w, unit) awaited) \<Rightarrow> 'a option \<Rightarrow> 'w \<Rightarrow> ('w, unit) awaited" where
  "ser_optional_info W ser v w =
     (case v of Some x \<Rightarrow> aw_bind (ser_bool W True w) (\<lambda>w _. ser x w) | None \<Rightarrow> ser_bool W False w)"

definition de_optional_info :: "'r NixRead \<Rightarrow> ('r \<Rightarrow> ('r, 'a option) awaited) \<Rightarrow> 'r \<Rightarrow> ('r, 'a option option) awaited" where
  "de_optional_info R de = de_bind (de_bool R) (\<lambda>found r. if found then aw_map Some (required (de r)) else Some (r, Inr None))"

section \<open>Decoders of combined values\<close>

definition bind_wire :: "('a \<Rightarrow> bytes \<Rightarrow> bool) \<Rightarrow> ('a \<Rightarrow> 'b \<Rightarrow> bytes \<Rightarrow> bool) \<Rightarrow> 'b \<Rightarrow> bytes \<Rightarrow> bool" where
  "bind_wire wire1 wire2 v bs \<longleftrightarrow> (\<exists>a x y. bs = x @ y \<and> wire1 a x \<and> wire2 a v y)"

lemma bind_reader:
  assumes a: "value_reader rest good err de1 wire1" and b: "\<And>a. elem_reader rest good err (body a) (wire2 a)"
  shows "value_reader rest good err (de_bind de1 body) (bind_wire wire1 wire2)"
proof
  fix r v bs S
  assume g: "good r" and w: "bind_wire wire1 wire2 v bs" and r: "rest r = bs @ S"
  then obtain t x y where xy: "bs = x @ y" "wire1 t x" "wire2 t v y" by (auto simp: bind_wire_def)
  have "got_value err good rest (Some t) (y @ S) (de1 r)" using value_reader.complete [OF a g xy(2)] r xy(1) by simp
  then show "got_value err good rest (Some v) S (de_bind de1 body r)"
    unfolding de_bind_def
  proof (rule got_value_bind)
    fix r1 assume r1: "good r1" "rest r1 = y @ S"
    have "got_value err good rest v S (body t r1)" by (rule elem_reader.elem_complete [OF b r1(1) xy(3) r1(2)])
    then have "got_value err good rest (Some v) S (aw_bind (body t r1) (\<lambda>r b. Some (r, Inr (Some b))))"
      by (rule got_value_bind) (simp add: got_value_def)
    then show "got_value err good rest (Some v) S (case Some t of None \<Rightarrow> Some (r1, Inr None)
      | Some a \<Rightarrow> aw_bind (body a r1) (\<lambda>r b. Some (r, Inr (Some b))))" by simp
  qed
next
  fix r r' v
  assume g: "good r" and "de_bind de1 body r = Some (r', Inr (Some v))"
  then obtain r1 t where t: "de1 r = Some (r1, Inr (Some t))" "body t r1 = Some (r', Inr v)"
    by (auto simp: de_bind_def elim!: aw_bind_InrE split: option.splits)
  from value_reader.sound [OF a g t(1)] obtain x where x: "good r1" "wire1 t x" "rest r = x @ rest r1" by blast
  from elem_reader.elem_sound [OF b x(1) t(2)] obtain y where "good r'" "wire2 t v y" "rest r1 = y @ rest r'" by blast
  with x show "good r' \<and> (\<exists>bs. bind_wire wire1 wire2 v bs \<and> rest r = bs @ rest r')"
    by (auto simp: bind_wire_def)
next
  fix r r'
  assume "good r" "de_bind de1 body r = Some (r', Inr None)"
  then show "good r' \<and> rest r = []"
    using value_reader.at_end [OF a] by (auto simp: de_bind_def elim!: aw_bind_InrE split: option.splits)
qed

lemma elem_map_reader:
  assumes "elem_reader rest good err el wire"
  shows "elem_reader rest good err (\<lambda>r. aw_map f (el r)) (\<lambda>v bs. \<exists>u. wire u bs \<and> v = f u)"
proof
  fix r v bs S
  assume g: "good r" and "\<exists>u. wire u bs \<and> v = f u" and r: "rest r = bs @ S"
  then obtain u where u: "wire u bs" "v = f u" by blast
  from elem_reader.elem_complete [OF assms g u(1) r] show "got_value err good rest v S (aw_map f (el r))"
    unfolding aw_map_def by (rule got_value_bind) (simp add: got_value_def u(2))
next
  fix r r' v
  assume g: "good r" and "aw_map f (el r) = Some (r', Inr v)"
  then obtain u where u: "el r = Some (r', Inr u)" "v = f u" by (auto simp: aw_map_def elim: aw_bind_InrE)
  from elem_reader.elem_sound [OF assms g u(1)] u(2) show "good r' \<and> (\<exists>bs. (\<exists>u. wire u bs \<and> v = f u) \<and> rest r = bs @ rest r')"
    by blast
qed

lemma elem_return: "elem_reader rest good err (\<lambda>r. Some (r, Inr v)) (\<lambda>x bs. x = v \<and> bs = [])"
  by unfold_locales (auto simp: got_value_def)

lemma from_reader:
  assumes "value_reader rest good err de wire"
  shows "value_reader rest good err (de_from f de) (\<lambda>v bs. \<exists>u. wire u bs \<and> v = f u)"
proof
  fix r v bs S
  assume g: "good r" and "\<exists>u. wire u bs \<and> v = f u" and r: "rest r = bs @ S"
  then obtain u where u: "wire u bs" "v = f u" by blast
  from value_reader.complete [OF assms g u(1) r] show "got_value err good rest (Some v) S (de_from f de r)"
    unfolding de_from_def aw_map_def by (rule got_value_bind) (simp add: got_value_def u(2))
next
  fix r r' v
  assume g: "good r" and "de_from f de r = Some (r', Inr (Some v))"
  then obtain u where u: "de r = Some (r', Inr (Some u))" "v = f u" by (auto simp: de_from_def aw_map_def elim: aw_bind_InrE)
  from value_reader.sound [OF assms g u(1)] u(2) show "good r' \<and> (\<exists>bs. (\<exists>u. wire u bs \<and> v = f u) \<and> rest r = bs @ rest r')"
    by blast
next
  fix r r'
  assume "good r" "de_from f de r = Some (r', Inr None)"
  then show "good r' \<and> rest r = []"
    using value_reader.at_end [OF assms] by (auto simp: de_from_def aw_map_def elim: aw_bind_InrE)
qed

lemma try_converted_reader:
  assumes "value_reader rest good err de wire" "\<And>r. good r \<Longrightarrow> conv r = conv0"
  shows "value_reader rest good err (\<lambda>r. try_converted (de r) conv) (\<lambda>v bs. \<exists>u. wire u bs \<and> conv0 u = Some (Inr v))"
proof
  fix r v bs S
  assume g: "good r" and "\<exists>u. wire u bs \<and> conv0 u = Some (Inr v)" and r: "rest r = bs @ S"
  then obtain u where u: "wire u bs" "conv0 u = Some (Inr v)" by blast
  from value_reader.complete [OF assms(1) g u(1) r] show "got_value err good rest (Some v) S (try_converted (de r) conv)"
    unfolding try_converted_def by (rule got_value_bind) (simp add: got_value_def u(2) assms(2))
next
  fix r r' v
  assume g: "good r" and m: "try_converted (de r) conv = Some (r', Inr (Some v))"
  then obtain u where u: "de r = Some (r', Inr (Some u))" "conv r' u = Some (Inr v)"
    by (auto simp: try_converted_def elim!: aw_bind_InrE split: option.splits)
  from value_reader.sound [OF assms(1) g u(1)] u(2) assms(2) [of r']
  show "good r' \<and> (\<exists>bs. (\<exists>u. wire u bs \<and> conv0 u = Some (Inr v)) \<and> rest r = bs @ rest r')" by auto
next
  fix r r'
  assume "good r" "try_converted (de r) conv = Some (r', Inr None)"
  then show "good r' \<and> rest r = []"
    using value_reader.at_end [OF assms(1)] by (auto simp: try_converted_def elim!: aw_bind_InrE split: option.splits)
qed

section \<open>The contract\<close>

text \<open>A text that a writer with the limit \<open>limit\<close> does not refuse, and that a reader with the limit \<open>hi\<close> takes.\<close>

definition text_ok :: "nat \<Rightarrow> nat \<Rightarrow> string \<Rightarrow> bool" where
  "text_ok limit hi s \<longleftrightarrow> utf8_valid (as_bytes s) \<and> length s \<le> limit \<and> length s \<le> hi"

locale wire_env =
  ww: nix_write W I werr limit + rr: nix_read R rest good rerr hi
  for W :: "'w NixWrite" and I werr limit and R :: "'r NixRead" and rest good rerr hi +
  fixes ver :: ProtocolVersion and dir :: StoreDir
  assumes writer_env: "I p w \<Longrightarrow> wr_version W w = ver \<and> wr_store_dir W w = dir"
    and reader_env: "good r \<Longrightarrow> rd_version R r = ver \<and> rd_store_dir R r = dir"
begin

definition sends :: "('a \<Rightarrow> 'w \<Rightarrow> ('w, unit) awaited) \<Rightarrow> ('a \<Rightarrow> bytes \<Rightarrow> bool) \<Rightarrow> ('a \<Rightarrow> bool) \<Rightarrow> bool" where
  "sends ser wire ok \<longleftrightarrow> (\<forall>p w v. I p w \<and> ok v \<longrightarrow> (\<exists>bs. wire v bs \<and> sent werr I (p @ bs) (ser v w)))"

definition carries :: "('a \<Rightarrow> 'w \<Rightarrow> ('w, unit) awaited) \<Rightarrow> ('r \<Rightarrow> ('r, 'a option) awaited) \<Rightarrow> ('a \<Rightarrow> bool) \<Rightarrow> bool" where
  "carries ser de ok \<longleftrightarrow> (\<exists>wire. value_reader rest good rerr de wire \<and> sends ser wire ok)"

definition carries_elem :: "('a \<Rightarrow> 'w \<Rightarrow> ('w, unit) awaited) \<Rightarrow> ('r \<Rightarrow> ('r, 'a) awaited) \<Rightarrow> ('a \<Rightarrow> bool) \<Rightarrow> bool" where
  "carries_elem ser de ok \<longleftrightarrow> (\<exists>wire. elem_reader rest good rerr de wire \<and> sends ser wire ok)"

lemma sendsD: "sends ser wire ok \<Longrightarrow> I p w \<Longrightarrow> ok v \<Longrightarrow> \<exists>bs. wire v bs \<and> sent werr I (p @ bs) (ser v w)"
  by (simp add: sends_def)

lemma carriesE:
  assumes "carries ser de ok"
  obtains wire where "value_reader rest good rerr de wire" "sends ser wire ok"
  using assms by (auto simp: carries_def)

lemma carries_weaken: "carries ser de ok \<Longrightarrow> (\<And>v. ok' v \<Longrightarrow> ok v) \<Longrightarrow> carries ser de ok'"
  by (fastforce simp: carries_def sends_def)

lemma sends_cong: "sends ser wire ok \<Longrightarrow> (\<And>p w v. I p w \<Longrightarrow> ok v \<Longrightarrow> ser' v w = ser v w) \<Longrightarrow> sends ser' wire ok"
  unfolding sends_def by metis

lemma carries_required: "carries ser de ok \<Longrightarrow> carries_elem ser (\<lambda>r. required (de r)) ok"
  by (auto simp: carries_def carries_elem_def dest: value_reader.required_reader)

lemma carriesI:
  assumes "value_reader rest good rerr de wire" "value_writer W I werr limit ser enc vok" "\<And>v. ok v \<Longrightarrow> vok v \<and> wire v (enc v)"
  shows "carries ser de ok"
  unfolding carries_def sends_def using assms(1,3) value_writer.ser_law [OF assms(2)] by blast

lemma sends_step:
  assumes "sends ser1 wire1 ok1" "I p w" "ok1 a"
    and "\<And>q w. I q w \<Longrightarrow> \<exists>bs. Q bs \<and> sent werr I (q @ bs) (f w ())"
  shows "\<exists>x bs. wire1 a x \<and> Q bs \<and> sent werr I (p @ x @ bs) (aw_bind (ser1 a w) f)"
proof -
  obtain x where x: "wire1 a x" "sent werr I (p @ x) (ser1 a w)" using sendsD [OF assms(1-3)] by blast
  then obtain w1 y where y: "ser1 a w = Some (w1, y)" "case y of Inl e \<Rightarrow> werr e | Inr _ \<Rightarrow> I (p @ x) w1" by (auto simp: sent_def)
  show ?thesis
  proof (cases y)
    case (Inl e)
    obtain bs where "Q bs" using assms(4) [OF assms(2)] by blast
    with Inl y x show ?thesis by (auto simp: sent_def)
  next
    case (Inr u)
    then obtain bs where "Q bs" "sent werr I ((p @ x) @ bs) (f w1 ())" using assms(4) y by fastforce
    with Inr y x show ?thesis by (cases u) auto
  qed
qed

lemma carries_tagged:
  assumes t: "carries tser tde okt" and b: "\<And>t. carries_elem body (variant t) (\<lambda>v. ok v \<and> tag v = t)"
    and tag: "\<And>v. ok v \<Longrightarrow> okt (tag v)"
  shows "carries (ser_tagged tser tag body) (de_tagged tde variant) ok"
proof -
  obtain wire1 where w1: "value_reader rest good rerr tde wire1" "sends tser wire1 okt" using t by (rule carriesE)
  have "\<forall>t. \<exists>wire. elem_reader rest good rerr (variant t) wire \<and> sends body wire (\<lambda>v. ok v \<and> tag v = t)"
    using b by (auto simp: carries_elem_def)
  then obtain wire2 where w2: "\<And>t. elem_reader rest good rerr (variant t) (wire2 t)" "\<And>t. sends body (wire2 t) (\<lambda>v. ok v \<and> tag v = t)"
    by metis
  have "sends (ser_tagged tser tag body) (bind_wire wire1 wire2) ok"
    unfolding sends_def
  proof (intro allI impI)
    fix p w v assume v: "I p w \<and> ok v"
    have "\<exists>x bs. wire1 (tag v) x \<and> wire2 (tag v) v bs \<and> sent werr I (p @ x @ bs) (aw_bind (tser (tag v) w) (\<lambda>w _. body v w))"
      by (rule sends_step [OF w1(2)]) (use v tag sendsD [OF w2(2)] in blast)+
    then show "\<exists>bs. bind_wire wire1 wire2 v bs \<and> sent werr I (p @ bs) (ser_tagged tser tag body v w)"
      unfolding ser_tagged_def bind_wire_def by blast
  qed
  moreover have "value_reader rest good rerr (de_bind tde variant) (bind_wire wire1 wire2)"
    by (rule bind_reader [OF w1(1)]) (rule w2(1))
  ultimately show ?thesis unfolding carries_def de_tagged_def by blast
qed

lemma carries_elem_map:
  assumes "carries_elem ser el ok" "\<And>v. ok' v \<Longrightarrow> \<exists>u. ok u \<and> v = f u \<and> ser' v = ser u"
  shows "carries_elem ser' (\<lambda>r. aw_map f (el r)) ok'"
proof -
  obtain wire where w: "elem_reader rest good rerr el wire" "sends ser wire ok" using assms(1) by (auto simp: carries_elem_def)
  have "sends ser' (\<lambda>v bs. \<exists>u. wire u bs \<and> v = f u) ok'"
    unfolding sends_def using assms(2) sendsD [OF w(2)] by metis
  with elem_map_reader [OF w(1)] show ?thesis unfolding carries_elem_def by blast
qed

lemma carries_elem_return:
  assumes "\<And>v. ok v \<Longrightarrow> v = c" "\<And>w. ser c w = Some (w, Inr ())"
  shows "carries_elem ser (\<lambda>r. Some (r, Inr c)) ok"
  unfolding carries_elem_def sends_def using elem_return [of rest good rerr c] assms sent_done
  by (intro exI [of _ "\<lambda>x bs. x = c \<and> bs = []"]) fastforce

lemma carries_then:
  assumes "carries ser1 de1 ok1" "carries ser2 de2 ok2"
  shows "carries (ser_then ser1 ser2) (de_then de1 de2) (\<lambda>v. ok1 (fst v) \<and> ok2 (snd v))"
proof -
  have "carries_elem (\<lambda>v. ser2 (snd v)) (\<lambda>r. aw_map (Pair a) (required (de2 r))) (\<lambda>v. (ok1 (fst v) \<and> ok2 (snd v)) \<and> fst v = a)" for a
    by (rule carries_elem_map [OF carries_required [OF assms(2)]]) auto
  from carries_tagged [OF assms(1) this] show ?thesis
    by (simp add: ser_tagged_def [abs_def] ser_then_def [abs_def] de_tagged_def de_then_def)
qed

lemma carries_iso:
  assumes "carries ser de ok" "\<And>v. ok' v \<Longrightarrow> ok (g v) \<and> f (g v) = v"
  shows "carries (ser_into g ser) (de_from f de) ok'"
proof -
  obtain wire where w: "value_reader rest good rerr de wire" "sends ser wire ok" using assms(1) by (rule carriesE)
  have "sends (ser_into g ser) (\<lambda>v bs. \<exists>u. wire u bs \<and> v = f u) ok'"
    unfolding sends_def ser_into_def using assms(2) sendsD [OF w(2)] by metis
  with from_reader [OF w(1)] show ?thesis unfolding carries_def by blast
qed

lemma carries_try:
  assumes "carries ser de ok" "\<And>v. ok' v \<Longrightarrow> ok (g v) \<and> conv (g v) = Inr v"
  shows "carries (ser_into g ser) (de_try_from conv de) ok'"
proof -
  obtain wire where w: "value_reader rest good rerr de wire" "sends ser wire ok" using assms(1) by (rule carriesE)
  have "sends (ser_into g ser) (\<lambda>v bs. \<exists>u. wire u bs \<and> Some (conv u) = Some (Inr v)) ok'"
    unfolding sends_def ser_into_def using assms(2) sendsD [OF w(2)] by metis
  with try_converted_reader [OF w(1), of "\<lambda>_ v. Some (conv v)" "\<lambda>v. Some (conv v)"] show ?thesis
    unfolding carries_def de_try_from_def [abs_def] by blast
qed

text \<open>Numbers, byte strings and texts.\<close>

lemma carries_u64: "carries (ser_u64 W) (de_u64 R) (\<lambda>_. True)"
  by (rule carriesI [OF rr.u64_reader ww.u64_writer]) (simp add: number_wire_enc)

lemma carries_u16: "carries (ser_u16 W) (de_u16 R) (\<lambda>_. True)"
  by (rule carriesI [OF rr.u16_reader ww.u16_writer]) (use small_wire_enc [where ?'a = 16] in simp)

lemma carries_u32: "carries (ser_u32 W) (de_u32 R) (\<lambda>_. True)"
  by (rule carriesI [OF rr.u32_reader ww.u32_writer]) (use small_wire_enc [where ?'a = 32] in simp)

lemma carries_i64: "carries (ser_i64 W) (de_i64 R) (\<lambda>_. True)"
  by (rule carriesI [OF rr.i64_reader ww.i64_writer]) (simp add: conv_wire_def number_wire_def)

lemma carries_usize: "carries (ser_usize W) (de_usize R) (\<lambda>n. n < 2 ^ 64)"
  by (rule carriesI [OF rr.usize_reader ww.usize_writer]) (simp add: usize_wire_def)

lemma carries_bool: "carries (ser_bool W) (de_bool R) (\<lambda>_. True)"
  by (rule carriesI [OF rr.bool_reader ww.bool_writer]) (simp add: bool_wire_enc)

lemma carries_bytes: "carries (ser_bytes W) (de_bytes R) (\<lambda>b. length b \<le> hi)"
  by (rule carriesI [OF rr.bytes_reader ww.bytes_writer]) (simp add: slice_wire_def)

lemma carries_string: "carries (ser_string W) (de_string R) (\<lambda>s. utf8_valid (as_bytes s) \<and> length s \<le> hi)"
  by (rule carriesI [OF rr.string_reader ww.string_writer]) (simp add: string_wire_enc)

lemma text_sent:
  assumes "I p w" "text_ok limit hi s"
  shows "slice_wire hi (as_bytes s) (nix_slice (as_bytes s)) \<and> sent werr I (p @ nix_slice (as_bytes s)) (write_text W w (Some s))"
  using assms ww.display_law [OF assms(1), of "as_bytes s"]
  by (auto simp: text_ok_def slice_wire_def write_text_def sent_def split: sum.splits)

lemma carries_text:
  assumes "\<And>v. ok v \<Longrightarrow> \<exists>s. f dir v = Some s \<and> text_ok limit hi s \<and> parse dir s = Some (Inr v)"
  shows "carries (ser_store_dir_display f W) (de_from_store_dir_str parse R) ok"
proof -
  have "sends (ser_store_dir_display f W) (\<lambda>v bs. \<exists>u. slice_wire hi u bs \<and> parse_text (parse dir) u = Some (Inr v)) ok"
    unfolding sends_def
  proof (intro allI impI)
    fix p w v assume v: "I p w \<and> ok v"
    then obtain s where s: "f dir v = Some s" "text_ok limit hi s" "parse dir s = Some (Inr v)" using assms by blast
    then have "parse_text (parse dir) (as_bytes s) = Some (Inr v)" by (simp add: parse_text_def text_ok_def from_utf8_def)
    with s v text_sent [of p w s] writer_env [of p w]
    show "\<exists>bs. (\<exists>u. slice_wire hi u bs \<and> parse_text (parse dir) u = Some (Inr v)) \<and> sent werr I (p @ bs) (ser_store_dir_display f W v w)"
      by (auto simp: ser_store_dir_display_def)
  qed
  moreover have "value_reader rest good rerr (de_from_store_dir_str parse R)
      (\<lambda>v bs. \<exists>u. slice_wire hi u bs \<and> parse_text (parse dir) u = Some (Inr v))"
    unfolding de_from_store_dir_str_def [abs_def]
    by (rule try_converted_reader [OF rr.str.value_reader_axioms]) (simp add: reader_env)
  ultimately show ?thesis unfolding carries_def by blast
qed

lemma carries_display:
  assumes "\<And>v. ok v \<Longrightarrow> \<exists>s. f v = Some s \<and> text_ok limit hi s \<and> parse s = Some (Inr v)"
  shows "carries (ser_display f W) (de_from_str parse R) ok"
  using carries_text [of ok "\<lambda>_. f" "\<lambda>_. parse"] assms
  by (simp add: ser_store_dir_display_def [abs_def] ser_display_def [abs_def] de_from_store_dir_str_def [abs_def] de_from_str_def [abs_def])

lemma carries_optional_text:
  assumes "\<And>v. ok v \<Longrightarrow> \<exists>s. f dir v = Some s \<and> s \<noteq> [] \<and> text_ok limit hi s \<and> parse dir s = Some (Inr v)"
  shows "carries (ser_optional_text W (ser_store_dir_display f W)) (de_optional_from_store_dir_str parse R) (pred_option ok)"
proof -
  let ?wire = "\<lambda>v bs. \<exists>u. slice_wire hi u bs \<and> parse_text (parse_optional (parse dir)) u = Some (Inr v)"
  have "sends (ser_optional_text W (ser_store_dir_display f W)) ?wire (pred_option ok)"
    unfolding sends_def
  proof (intro allI impI)
    fix p w v assume v: "I p w \<and> pred_option ok v"
    show "\<exists>bs. ?wire v bs \<and> sent werr I (p @ bs) (ser_optional_text W (ser_store_dir_display f W) v w)"
    proof (cases v)
      case None
      have "?wire None (nix_slice [])" by (auto simp: slice_wire_def parse_text_def parse_optional_def from_utf8_def intro!: exI [of _ "[]"])
      with None v ww.slice_law [of p w "[]"] show ?thesis by (auto simp: ser_optional_text_def)
    next
      case (Some x)
      with v assms obtain s where s: "f dir x = Some s" "s \<noteq> []" "text_ok limit hi s" "parse dir s = Some (Inr x)" by fastforce
      then have "parse_text (parse_optional (parse dir)) (as_bytes s) = Some (Inr (Some x))"
        by (simp add: parse_text_def text_ok_def from_utf8_def parse_optional_def)
      with Some s v text_sent [of p w s] writer_env [of p w] show ?thesis
        by (auto simp: ser_optional_text_def ser_store_dir_display_def)
    qed
  qed
  moreover have "value_reader rest good rerr (de_optional_from_store_dir_str parse R) ?wire"
    unfolding de_optional_from_store_dir_str_def [abs_def]
    by (rule try_converted_reader [OF rr.str.value_reader_axioms]) (simp add: reader_env)
  ultimately show ?thesis unfolding carries_def by blast
qed

lemma carries_optional_display:
  assumes "\<And>v. ok v \<Longrightarrow> \<exists>s. f v = Some s \<and> s \<noteq> [] \<and> text_ok limit hi s \<and> parse s = Some (Inr v)"
  shows "carries (ser_optional_text W (ser_display f W)) (de_optional_from_str parse R) (pred_option ok)"
  using carries_optional_text [of ok "\<lambda>_. f" "\<lambda>_. parse"] assms
  by (simp add: ser_store_dir_display_def [abs_def] ser_display_def [abs_def] de_optional_from_store_dir_str_def [abs_def]
      de_optional_from_str_def [abs_def])

text \<open>Collections, options and versions.\<close>

lemma sends_elems:
  assumes "sends ser wire ok"
  shows "I p w \<Longrightarrow> list_all ok vs \<Longrightarrow> \<exists>bss. list_all2 wire vs bss \<and> sent werr I (p @ concat bss) (ser_elems ser vs w)"
proof (induction vs arbitrary: p w)
  case Nil
  then show ?case by (auto simp: sent_done)
next
  case (Cons v vs)
  have "\<exists>x bs. wire v x \<and> (\<exists>bss. list_all2 wire vs bss \<and> bs = concat bss) \<and>
      sent werr I (p @ x @ bs) (aw_bind (ser v w) (\<lambda>w _. ser_elems ser vs w))"
  proof (rule sends_step [OF assms Cons.prems(1)])
    show "ok v" using Cons.prems by simp
    fix q w assume "I q w"
    then obtain bss where "list_all2 wire vs bss" "sent werr I (q @ concat bss) (ser_elems ser vs w)" using Cons by auto
    then show "\<exists>bs. (\<exists>bss. list_all2 wire vs bss \<and> bs = concat bss) \<and> sent werr I (q @ bs) (ser_elems ser vs w)" by blast
  qed
  then obtain x bss where "wire v x" "list_all2 wire vs bss" "sent werr I (p @ x @ concat bss) (ser_elems ser (v # vs) w)" by auto
  then show ?case by (intro exI [of _ "x # bss"]) simp
qed

lemma sends_counted:
  assumes "sends ser wire ok" "I p w" "list_all ok vs" "length vs < 2 ^ 64"
  shows "\<exists>bss. list_all2 wire vs bss \<and> sent werr I (p @ enc_usize (length vs) @ concat bss) (ser_vec W ser vs w)"
proof -
  have "sends (ser_usize W) usize_wire (\<lambda>n. n < 2 ^ 64)"
    unfolding sends_def using value_writer.ser_law [OF ww.usize_writer] by (auto simp: usize_wire_def)
  then have "\<exists>x bs. usize_wire (length vs) x \<and> (\<exists>bss. list_all2 wire vs bss \<and> bs = concat bss) \<and>
      sent werr I (p @ x @ bs) (aw_bind (ser_usize W (length vs) w) (\<lambda>w _. ser_elems ser vs w))"
  proof (rule sends_step [OF _ assms(2)])
    fix q w assume "I q w"
    then obtain bss where "list_all2 wire vs bss" "sent werr I (q @ concat bss) (ser_elems ser vs w)"
      using sends_elems [OF assms(1)] assms(3) by blast
    then show "\<exists>bs. (\<exists>bss. list_all2 wire vs bss \<and> bs = concat bss) \<and> sent werr I (q @ bs) (ser_elems ser vs w)" by blast
  qed (rule assms(4))
  then show ?thesis by (auto simp: ser_vec_def usize_wire_def)
qed

lemma carries_vec:
  assumes "carries ser de ok"
  shows "carries (ser_vec W ser) (de_vec sz R de) (\<lambda>vs. list_all ok vs \<and> length vs < 2 ^ 64 \<and> length vs * sz < 2 ^ 63)"
proof -
  obtain wire where w: "value_reader rest good rerr de wire" "sends ser wire ok" using assms by (rule carriesE)
  have "sends (ser_vec W ser) (vec_wire sz wire) (\<lambda>vs. list_all ok vs \<and> length vs < 2 ^ 64 \<and> length vs * sz < 2 ^ 63)"
    unfolding sends_def vec_wire_def counted_wire_def using sends_counted [OF w(2)] by (fastforce simp: fold_snoc)
  with rr.vec_reader [OF w(1)] show ?thesis unfolding carries_def by blast
qed

lemma carries_set:
  assumes "carries ser de ok"
  shows "carries (ser_set W ser) (de_set R de) (\<lambda>vs. list_all ok vs \<and> length vs < 2 ^ 64 \<and> btree_set vs)"
proof -
  obtain wire where w: "value_reader rest good rerr de wire" "sends ser wire ok" using assms by (rule carriesE)
  have "sends (ser_set W ser) (set_wire wire) (\<lambda>vs. list_all ok vs \<and> length vs < 2 ^ 64 \<and> btree_set vs)"
    unfolding sends_def set_wire_def counted_wire_def
  proof (intro allI impI)
    fix p w vs assume v: "I p w \<and> list_all ok vs \<and> length vs < 2 ^ 64 \<and> btree_set vs"
    then obtain bss where "list_all2 wire vs bss" "sent werr I (p @ enc_usize (length vs) @ concat bss) (ser_vec W ser vs w)"
      using sends_counted [OF w(2)] by blast
    moreover have "fold set_insert vs [] = vs" using fold_set_insert [of "[]" vs] v by simp
    ultimately show "\<exists>bs. (\<exists>vs' bss. list_all2 wire vs' bss \<and> length vs' < 2 ^ 64 \<and> True \<and> vs = fold set_insert vs' [] \<and>
        bs = enc_usize (length vs') @ concat bss) \<and> sent werr I (p @ bs) (ser_set W ser vs w)"
      using v unfolding ser_set_def ser_vec_def
      by (intro exI [of _ "enc_usize (length vs) @ concat bss"] conjI exI [of _ vs] exI [of _ bss]) simp_all
  qed
  with rr.set_reader [OF w(1)] show ?thesis unfolding carries_def by blast
qed

lemma sends_then:
  assumes "sends ser1 wire1 ok1" "sends ser2 wire2 ok2"
  shows "sends (ser_then ser1 ser2) (pair_wire wire1 wire2) (\<lambda>v. ok1 (fst v) \<and> ok2 (snd v))"
  unfolding sends_def
proof (intro allI impI)
  fix p w v assume v: "I p w \<and> ok1 (fst v) \<and> ok2 (snd v)"
  have "\<exists>x bs. wire1 (fst v) x \<and> wire2 (snd v) bs \<and> sent werr I (p @ x @ bs) (aw_bind (ser1 (fst v) w) (\<lambda>w _. ser2 (snd v) w))"
    by (rule sends_step [OF assms(1)]) (use v sendsD [OF assms(2)] in blast)+
  then show "\<exists>bs. pair_wire wire1 wire2 v bs \<and> sent werr I (p @ bs) (ser_then ser1 ser2 v w)"
    unfolding ser_then_def pair_wire_def by blast
qed

lemma carries_map:
  assumes "carries kser kde kok" "carries vser vde vok"
  shows "carries (ser_map W kser vser) (de_map R kde vde)
    (\<lambda>m. list_all (\<lambda>e. kok (fst e) \<and> vok (snd e)) m \<and> length m < 2 ^ 64 \<and> btree_map m)"
proof -
  obtain kwire where k: "value_reader rest good rerr kde kwire" "sends kser kwire kok" using assms(1) by (rule carriesE)
  obtain vwire where v: "value_reader rest good rerr vde vwire" "sends vser vwire vok" using assms(2) by (rule carriesE)
  have eq: "ser_map W kser vser m w = ser_vec W (ser_then kser vser) m w" for m w
    by (simp add: ser_map_def ser_vec_def entries_elems ser_then_def [abs_def])
  have "sends (ser_map W kser vser) (map_wire kwire vwire)
      (\<lambda>m. list_all (\<lambda>e. kok (fst e) \<and> vok (snd e)) m \<and> length m < 2 ^ 64 \<and> btree_map m)"
    unfolding sends_def map_wire_def counted_wire_def
  proof (intro allI impI)
    fix p w m assume m: "I p w \<and> list_all (\<lambda>e. kok (fst e) \<and> vok (snd e)) m \<and> length m < 2 ^ 64 \<and> btree_map m"
    then obtain bss where "list_all2 (pair_wire kwire vwire) m bss" "sent werr I (p @ enc_usize (length m) @ concat bss) (ser_map W kser vser m w)"
      using sends_counted [OF sends_then [OF k(2) v(2)]] unfolding eq by blast
    moreover have "fold (\<lambda>(k, v). map_insert k v) m [] = m" using fold_map_insert [of "[]" m] m by simp
    ultimately show "\<exists>bs. (\<exists>vs bss. list_all2 (pair_wire kwire vwire) vs bss \<and> length vs < 2 ^ 64 \<and> True \<and>
        m = fold (\<lambda>(k, v). map_insert k v) vs [] \<and> bs = enc_usize (length vs) @ concat bss) \<and>
        sent werr I (p @ bs) (ser_map W kser vser m w)"
      using m by (intro exI [of _ "enc_usize (length m) @ concat bss"] conjI exI [of _ m] exI [of _ bss]) simp_all
  qed
  with rr.map_reader [OF k(1) v(1)] show ?thesis unfolding carries_def by blast
qed

lemma carries_optional_info:
  assumes "carries ser de ok"
  shows "carries (ser_optional_info W ser) (de_optional_info R de) (pred_option ok)"
proof -
  let ?body = "\<lambda>v w. case v of Some x \<Rightarrow> ser x w | None \<Rightarrow> Some (w, Inr ())"
  let ?variant = "\<lambda>found r. if found then aw_map Some (required (de r)) else Some (r, Inr None)"
  have "carries_elem ?body (?variant found) (\<lambda>v. pred_option ok v \<and> (v \<noteq> None) = found)" for found
  proof (cases found)
    case True
    have "carries_elem ?body (\<lambda>r. aw_map Some (required (de r))) (\<lambda>v. pred_option ok v \<and> v \<noteq> None)"
      by (rule carries_elem_map [OF carries_required [OF assms]]) auto
    with True show ?thesis by simp
  next
    case False
    have "carries_elem ?body (\<lambda>r. Some (r, Inr None)) (\<lambda>v. pred_option ok v \<and> v = None)"
      by (rule carries_elem_return) auto
    with False show ?thesis by simp
  qed
  from carries_tagged [OF carries_bool this] have "carries (ser_tagged (ser_bool W) (\<lambda>v. v \<noteq> None) ?body) (de_optional_info R de) (pred_option ok)"
    by (simp add: de_tagged_def de_optional_info_def)
  moreover have "ser_tagged (ser_bool W) (\<lambda>v. v \<noteq> None) ?body = ser_optional_info W ser"
    by (intro ext) (auto simp: ser_tagged_def ser_optional_info_def aw_bind_def split: option.splits sum.splits)
  ultimately show ?thesis by simp
qed

lemma carries_versioned:
  assumes "carries ser1 de1 ok1" "carries ser2 de2 ok2"
  shows "carries (ser_versioned W version ser1 ser2) (de_versioned R version d de1 de2)
    (\<lambda>v. ok2 (snd v) \<and> (if version (pv_minor ver) then ok1 (fst v) else fst v = d))"
proof -
  have ser: "carries ser' de ok \<Longrightarrow> (\<And>p w v. I p w \<Longrightarrow> ok v \<Longrightarrow> ser_versioned W version ser1 ser2 v w = ser' v w) \<Longrightarrow>
      carries (ser_versioned W version ser1 ser2) de ok" for ser' de ok
    unfolding carries_def by (blast intro: sends_cong)
  have de: "carries s de' ok \<Longrightarrow> (\<And>r. good r \<Longrightarrow> de_versioned R version d de1 de2 r = de' r) \<Longrightarrow>
      carries s (de_versioned R version d de1 de2) ok" for s de' ok
    unfolding carries_def by (blast intro: value_reader_cong)
  show ?thesis
  proof (cases "version (pv_minor ver)")
    case True
    have "carries (ser_versioned W version ser1 ser2) (de_versioned R version d de1 de2) (\<lambda>v. ok1 (fst v) \<and> ok2 (snd v))"
      by (rule de [OF ser [OF carries_then [OF assms]]])
        (use True writer_env reader_env in \<open>auto simp: ser_versioned_def de_versioned_def\<close>)
    then show ?thesis by (rule carries_weaken) (use True in simp)
  next
    case False
    have s: "carries (ser_into snd ser2) (de_from (Pair d) de2) (\<lambda>v. ok2 (snd v) \<and> fst v = d)"
      by (rule carries_iso [OF assms(2)]) auto
    have "carries (ser_versioned W version ser1 ser2) (de_versioned R version d de1 de2) (\<lambda>v. ok2 (snd v) \<and> fst v = d)"
      by (rule de [OF ser [OF s]]) (use False writer_env reader_env in \<open>auto simp: ser_versioned_def de_versioned_def ser_into_def\<close>)
    then show ?thesis by (rule carries_weaken) (use False in simp)
  qed
qed

end

end
