(* ===== verification/Store_Wire.thy ===== *)
theory Store_Wire
  imports Nix_Derive Derivations
begin

text \<open>
  How the types of the store are put on the wire (\<open>harmonia-protocol/src/store_impls.rs\<close>, \<open>nar_hash.rs\<close>): the serialisers and decoders of paths,
  names, hashes, content addresses, signatures, realisations and derivations, written with the combinators of \<open>Nix_Derive\<close>
  where the code derives them. \<open>store_env\<close> adds to the contract of a connection that its store directory is an
  absolute path of valid UTF-8 that leaves room for a name; every type is shown to be carried, but for outputs of
  derivations with a fixed content address, which the reader refuses.
\<close>

section \<open>NAR hashes\<close>

datatype NarHash = NarHash (nar_sha256: Sha256)

definition nar_hash_new :: "bytes \<Rightarrow> NarHash option" where
  "nar_hash_new digest = map_option NarHash (sha256_new digest)"

definition nar_hash_from_slice :: "bytes \<Rightarrow> (InvalidHashError + NarHash) option" where
  "nar_hash_from_slice digest = map_option (result_map NarHash) (sha256_from_slice digest)"

definition nar_hash_digest :: "('m, 'r) Crates \<Rightarrow> bytes \<Rightarrow> NarHash option" where
  "nar_hash_digest K data = Option.bind (algo_digest K SHA256 data) (\<lambda>h. nar_hash_new (digest_bytes h))"

definition nar_hash_bytes :: "NarHash \<Rightarrow> bytes" where
  "nar_hash_bytes h = sha256_bytes (nar_sha256 h)"

definition nar_hash_common :: "NarHash CommonHash" where
  "nar_hash_common =
     \<lparr>from_slice = (\<lambda>a b. if a \<noteq> SHA256 then Some (Inl (TypeMismatch SHA256 a))
                        else map_option (result_map_err kind_of_invalid) (nar_hash_from_slice b)),
      implied_algorithm = Some SHA256, algorithm_of = (\<lambda>_. SHA256), bytes_of = nar_hash_bytes\<rparr>"

definition nar_hash_ok :: "NarHash \<Rightarrow> bool" where
  "nar_hash_ok h \<longleftrightarrow> sha256_ok (nar_sha256 h)"

interpretation nar_hash: common_hash nar_hash_common nar_hash_ok
proof
  fix a b h assume "from_slice nar_hash_common a b = Some (Inr h)"
  then show "nar_hash_ok h \<and> algorithm_of nar_hash_common h = a \<and> bytes_of nar_hash_common h = b"
    by (auto simp: nar_hash_common_def nar_hash_from_slice_def sha256_from_slice_def sha256_new_def nar_hash_ok_def sha256_ok_def
        nar_hash_bytes_def split: if_splits)
next
  fix h assume "nar_hash_ok h"
  then show "from_slice nar_hash_common (algorithm_of nar_hash_common h) (bytes_of nar_hash_common h) = Some (Inr h)"
    by (cases h; cases "nar_sha256 h") (simp add: nar_hash_common_def nar_hash_from_slice_def sha256_from_slice_def sha256_new_def
        nar_hash_ok_def sha256_ok_def nar_hash_bytes_def)
qed (auto simp: nar_hash_common_def nar_hash_from_slice_def sha256_from_slice_def sha256_new_def nar_hash_ok_def sha256_ok_def
    nar_hash_bytes_def split: if_splits)

interpretation nar_hash_text: hash_format bit_codecs nar_hash_common nar_hash_ok
  by unfold_locales

section \<open>Values that are a text\<close>

definition ser_store_path :: "Codecs \<Rightarrow> ('w, StorePath) serializer" where
  "ser_store_path cs = ser_store_dir_display (store_dir_display cs)"

definition de_store_path :: "Codecs \<Rightarrow> 'r NixRead \<Rightarrow> 'r \<Rightarrow> ('r, StorePath option) awaited" where
  "de_store_path cs = de_from_store_dir_str (from_store_dir_str cs)"

definition ser_output_name :: "('w, OutputName) serializer" where
  "ser_output_name = ser_display (\<lambda>n. Some (out_str n))"

definition de_output_name :: "'r NixRead \<Rightarrow> 'r \<Rightarrow> ('r, OutputName option) awaited" where
  "de_output_name = de_from_str (\<lambda>s. Some (output_from_str s))"

definition ser_algorithm :: "('w, Algorithm) serializer" where
  "ser_algorithm = ser_display (\<lambda>a. Some (algo_name a))"

definition de_algorithm :: "'r NixRead \<Rightarrow> 'r \<Rightarrow> ('r, Algorithm option) awaited" where
  "de_algorithm = de_from_str (\<lambda>s. Some (algo_from_str s))"

definition ser_nar_hash :: "('w, NarHash) serializer" where
  "ser_nar_hash = ser_display (\<lambda>h. Some (base16_display nar_hash_common True h))"

definition de_nar_hash :: "Codecs \<Rightarrow> 'r NixRead \<Rightarrow> 'r \<Rightarrow> ('r, NarHash option) awaited" where
  "de_nar_hash cs = de_from_str (bare_from_str nar_hash_common (any_parse cs nar_hash_common))"

definition ser_signature :: "Codecs \<Rightarrow> ('w, Signature) serializer" where
  "ser_signature cs = ser_display (sig_display cs)"

definition de_signature :: "Codecs \<Rightarrow> 'r NixRead \<Rightarrow> 'r \<Rightarrow> ('r, Signature option) awaited" where
  "de_signature cs = de_from_str (\<lambda>s. Some (sig_from_str cs s))"

definition ser_content_address :: "Codecs \<Rightarrow> ('w, ContentAddress) serializer" where
  "ser_content_address cs = ser_display (ca_display cs)"

definition de_content_address :: "Codecs \<Rightarrow> 'r NixRead \<Rightarrow> 'r \<Rightarrow> ('r, ContentAddress option) awaited" where
  "de_content_address cs = de_from_str (ca_from_str cs)"

definition ser_hash :: "Codecs \<Rightarrow> ('w, Hash) serializer" where
  "ser_hash cs = ser_display (base32_display cs hash_common False)"

definition de_hash :: "Codecs \<Rightarrow> 'r NixRead \<Rightarrow> 'r \<Rightarrow> ('r, Hash option) awaited" where
  "de_hash cs = de_from_str (any_from_str cs hash_common)"

definition ser_method_algorithm :: "('w, ContentAddressMethodAlgorithm) serializer" where
  "ser_method_algorithm = ser_display (\<lambda>m. Some (method_algorithm_display m))"

definition de_method_algorithm :: "'r NixRead \<Rightarrow> 'r \<Rightarrow> ('r, ContentAddressMethodAlgorithm option) awaited" where
  "de_method_algorithm = de_from_str (\<lambda>s. Some (method_algorithm_from_str s))"

definition ser_store_path_hash :: "Codecs \<Rightarrow> ('w, StorePathHash) serializer" where
  "ser_store_path_hash cs = ser_display (sph_display cs)"

definition de_store_path_hash :: "Codecs \<Rightarrow> 'r NixRead \<Rightarrow> 'r \<Rightarrow> ('r, StorePathHash option) awaited" where
  "de_store_path_hash cs = de_from_str (decode_digest cs)"

text \<open>Derived paths use the legacy separator, and are read as a \<open>String\<close> that is parsed.\<close>

definition ser_derived_path :: "Codecs \<Rightarrow> ('w, DerivedPath) serializer" where
  "ser_derived_path cs = ser_store_dir_display (derived_store_dir_display cs (CHR ''!''))"

definition de_derived_path :: "Codecs \<Rightarrow> 'r NixRead \<Rightarrow> 'r \<Rightarrow> ('r, DerivedPath option) awaited" where
  "de_derived_path cs R r = try_converted (de_string R r) (\<lambda>r. derived_from_store_dir_str cs (CHR ''!'') (rd_store_dir R r))"

text \<open>The store directory is configuration: nothing of it is on the wire.\<close>

definition ser_store_dir :: "('w, StoreDir) serializer" where
  "ser_store_dir W d w = Some (w, Inr ())"

definition de_store_dir :: "'r NixRead \<Rightarrow> 'r \<Rightarrow> ('r, StoreDir option) awaited" where
  "de_store_dir R r = Some (r, Inr (Some (rd_store_dir R r)))"

section \<open>Realisations\<close>

definition ser_drv_output :: "Codecs \<Rightarrow> ('w, DrvOutput) serializer" where
  "ser_drv_output cs W = ser_into (\<lambda>d. (do_drv_path d, do_output_name d)) (ser_then (ser_store_path cs W) (ser_output_name W))"

definition de_drv_output :: "Codecs \<Rightarrow> 'r NixRead \<Rightarrow> 'r \<Rightarrow> ('r, DrvOutput option) awaited" where
  "de_drv_output cs R = de_from (\<lambda>(p, n). \<lparr>do_drv_path = p, do_output_name = n\<rparr>) (de_then (de_store_path cs R) (de_output_name R))"

definition ser_unkeyed_realisation :: "Codecs \<Rightarrow> ('w, UnkeyedRealisation) serializer" where
  "ser_unkeyed_realisation cs W =
     ser_into (\<lambda>u. (out_path u, signatures u)) (ser_then (ser_store_path cs W) (ser_set W (ser_signature cs W)))"

definition de_unkeyed_realisation :: "Codecs \<Rightarrow> 'r NixRead \<Rightarrow> 'r \<Rightarrow> ('r, UnkeyedRealisation option) awaited" where
  "de_unkeyed_realisation cs R =
     de_from (\<lambda>(p, sigs). \<lparr>out_path = p, signatures = sigs\<rparr>) (de_then (de_store_path cs R) (de_set R (de_signature cs R)))"

definition ser_realisation :: "Codecs \<Rightarrow> ('w, Realisation) serializer" where
  "ser_realisation cs W = ser_into (\<lambda>x. (rl_key x, rl_value x)) (ser_then (ser_drv_output cs W) (ser_unkeyed_realisation cs W))"

definition de_realisation :: "Codecs \<Rightarrow> 'r NixRead \<Rightarrow> 'r \<Rightarrow> ('r, Realisation option) awaited" where
  "de_realisation cs R = de_from (\<lambda>(k, v). \<lparr>rl_key = k, rl_value = v\<rparr>) (de_then (de_drv_output cs R) (de_unkeyed_realisation cs R))"

section \<open>Derivations\<close>

definition invalid_data :: io_error where
  "invalid_data = IoError InvalidData ''invalid data''"

text \<open>The error of a writer for a value that it cannot write.\<close>

definition unsupported_data :: "string \<Rightarrow> io_error" where
  "unsupported_data msg = IoError InvalidData msg"

text \<open>The text of the error of a name: a byte above 127 is shown as the character of its number.\<close>

definition latin_char :: "u8 \<Rightarrow> string" where
  "latin_char ch = from_utf8_unchecked (if ch < 0x80 then [ch] else [0xC0 + drop_bit 6 ch, 0x80 + ch mod 0x40])"

primrec name_error_display :: "StorePathNameError \<Rightarrow> string" where
  "name_error_display NNameLength = ''invalid name length''"
| "name_error_display (NSymbol i ch) = ''invalid name symbol '' @ CHR 0x27 # latin_char ch @ CHR 0x27 # '' at position '' @ show_nat (unat i)"

definition write_derivation_output ::
  "Codecs \<Rightarrow> ('m, 'd) Crates \<Rightarrow> 'w NixWrite \<Rightarrow> StorePathName \<Rightarrow> OutputName \<Rightarrow> DerivationOutput \<Rightarrow> 'w \<Rightarrow> ('w, unit) awaited" where
  "write_derivation_output cs K W drv_name output_name out w =
     (case out of
        InputAddressed p \<Rightarrow>
          aw_bind (ser_store_path cs W p w) (\<lambda>w _. aw_bind (ser_string W [] w) (\<lambda>w _. ser_string W [] w))
      | CAFixed ca \<Rightarrow>
          (case name_from_str (output_path_name drv_name output_name) of
             Inl e \<Rightarrow> Some (w, Inl (unsupported_data (name_error_display e)))
           | Inr name \<Rightarrow>
               Option.bind (make_store_path_from_ca cs K (wr_store_dir W w) name ca) (\<lambda>path.
               aw_bind (ser_store_path cs W path w) (\<lambda>w _.
               aw_bind (ser_method_algorithm W (ca_method_algorithm ca) w) (\<lambda>w _.
               Option.bind (ca_hash ca) (\<lambda>h. write_text W w (base32_display cs hash_common True h))))))
      | Deferred \<Rightarrow> aw_bind (ser_string W [] w) (\<lambda>w _. aw_bind (ser_string W [] w) (\<lambda>w _. ser_string W [] w))
      | CAFloating algo \<Rightarrow>
          aw_bind (ser_string W [] w) (\<lambda>w _. aw_bind (ser_method_algorithm W algo w) (\<lambda>w _. ser_string W [] w))
      | Impure algo \<Rightarrow>
          aw_bind (ser_string W [] w) (\<lambda>w _. aw_bind (ser_method_algorithm W algo w) (\<lambda>w _. ser_string W ''impure'' w)))"

definition output_of_texts :: "Codecs \<Rightarrow> StoreDir \<Rightarrow> string \<Rightarrow> string \<Rightarrow> string \<Rightarrow> (unit + DerivationOutput) option" where
  "output_of_texts cs d store_path_str method_str hash_str =
     (let algo = result_map_err (\<lambda>_. ()) (method_algorithm_from_str method_str)
      in if hash_str = ''impure'' then Some (result_map Impure algo)
         else if store_path_str = [] \<and> method_str \<noteq> [] then Some (result_map CAFloating algo)
         else if store_path_str = [] \<and> method_str = [] \<and> hash_str = [] then Some (Inr Deferred)
         else if method_str = [] \<and> hash_str = []
           then map_option (\<lambda>x. result_map InputAddressed (result_map_err (\<lambda>_. ()) x)) (from_store_dir_str cs d store_path_str)
         else (case algo of
             Inl e \<Rightarrow> Some (Inl e)
           | Inr method_algo \<Rightarrow>
               (case base32_from_str cs hash_common hash_str of
                  None \<Rightarrow> None
                | Some (Inl _) \<Rightarrow> Some (Inl ())
                | Some (Inr hash) \<Rightarrow>
                    map_option (\<lambda>x. result_map CAFixed (result_map_err (\<lambda>_. ()) x)) (ca_from_hash (ma_method method_algo) hash))))"

definition read_derivation_output :: "Codecs \<Rightarrow> 'r NixRead \<Rightarrow> 'r \<Rightarrow> ('r, DerivationOutput) awaited" where
  "read_derivation_output cs R r =
     aw_bind (required (de_string R r)) (\<lambda>r store_path_str.
     aw_bind (required (de_string R r)) (\<lambda>r method_str.
     aw_bind (required (de_string R r)) (\<lambda>r hash_str.
       map_option (\<lambda>x. (r, result_map_err (\<lambda>_. invalid_data) x))
         (output_of_texts cs (rd_store_dir R r) store_path_str method_str hash_str))))"

definition ser_outputs ::
  "Codecs \<Rightarrow> ('m, 'd) Crates \<Rightarrow> 'w NixWrite \<Rightarrow> StorePathName \<Rightarrow> (OutputName \<times> DerivationOutput) list \<Rightarrow> 'w \<Rightarrow> ('w, unit) awaited" where
  "ser_outputs cs K W drv_name = ser_vec W (\<lambda>(output_name, out) w.
     aw_bind (ser_output_name W output_name w) (\<lambda>w _. write_derivation_output cs K W drv_name output_name out w))"

definition de_outputs :: "Codecs \<Rightarrow> 'r NixRead \<Rightarrow> 'r \<Rightarrow> ('r, (OutputName \<times> DerivationOutput) list option) awaited" where
  "de_outputs cs R = de_map R (de_output_name R) (\<lambda>r. aw_map Some (read_derivation_output cs R r))"

definition ser_basic_derivation ::
  "Codecs \<Rightarrow> ('m, 'd) Crates \<Rightarrow> ('w, StorePath \<times> 'j BasicDerivation) serializer" where
  "ser_basic_derivation cs K W v w =
     (let drv = snd v
      in ser_then (ser_store_path cs W) (ser_then (ser_outputs cs K W (dv_name drv)) (ser_then (ser_set W (ser_store_path cs W))
           (ser_then (ser_bytes W) (ser_then (ser_bytes W) (ser_then (ser_vec W (ser_bytes W)) (ser_map W (ser_bytes W) (ser_bytes W)))))))
         (fst v, dv_outputs drv, dv_inputs drv, dv_platform drv, dv_builder drv, dv_args drv, dv_env drv) w)"

text \<open>\<open>sz\<close> is the size of a \<open>Bytes\<close>.\<close>

definition de_basic_derivation :: "Codecs \<Rightarrow> nat \<Rightarrow> 'r NixRead \<Rightarrow> 'r \<Rightarrow> ('r, (StorePath \<times> 'j BasicDerivation) option) awaited" where
  "de_basic_derivation cs sz R =
     de_from (\<lambda>(drv_path, outputs, inputs, platform, builder, args, env). (drv_path,
         \<lparr>dv_name = sp_name drv_path, dv_outputs = outputs, dv_inputs = inputs, dv_platform = platform, dv_builder = builder,
          dv_args = args, dv_env = env, dv_structured_attrs = None\<rparr>))
       (de_then (de_store_path cs R) (de_then (de_outputs cs R) (de_then (de_set R (de_store_path cs R))
         (de_then (de_bytes R) (de_then (de_bytes R) (de_then (de_vec sz R (de_bytes R)) (de_map R (de_bytes R) (de_bytes R))))))))"

section \<open>Parts in a row\<close>

lemma elem_bind_reader:
  assumes a: "elem_reader rest good err el1 wire1" and b: "\<And>a. elem_reader rest good err (el2 a) (wire2 a)"
  shows "elem_reader rest good err (\<lambda>r. aw_bind (el1 r) (\<lambda>r a. el2 a r)) (bind_wire wire1 wire2)"
proof
  fix r v bs S
  assume g: "good r" and "bind_wire wire1 wire2 v bs" and r: "rest r = bs @ S"
  then obtain t x y where xy: "bs = x @ y" "wire1 t x" "wire2 t v y" by (auto simp: bind_wire_def)
  have "got_value err good rest t (y @ S) (el1 r)" using elem_reader.elem_complete [OF a g xy(2)] r xy(1) by simp
  then show "got_value err good rest v S (aw_bind (el1 r) (\<lambda>r a. el2 a r))"
    by (rule got_value_bind) (rule elem_reader.elem_complete [OF b _ xy(3)])
next
  fix r r' v
  assume g: "good r" and m: "aw_bind (el1 r) (\<lambda>r a. el2 a r) = Some (r', Inr v)"
  from m obtain r1 t where t: "el1 r = Some (r1, Inr t)" "el2 t r1 = Some (r', Inr v)" by (rule aw_bind_InrE)
  from elem_reader.elem_sound [OF a g t(1)] obtain x where x: "good r1" "wire1 t x" "rest r = x @ rest r1" by blast
  from elem_reader.elem_sound [OF b x(1) t(2)] x show "good r' \<and> (\<exists>bs. bind_wire wire1 wire2 v bs \<and> rest r = bs @ rest r')"
    by (fastforce simp: bind_wire_def)
qed

lemma elem_conv_reader:
  assumes "\<And>r. good r \<Longrightarrow> conv r = conv0"
  shows "elem_reader rest good err (\<lambda>r. map_option (\<lambda>x. (r, result_map_err f x)) (conv r)) (\<lambda>v bs. bs = [] \<and> conv0 = Some (Inr v))"
  by unfold_locales (auto simp: got_value_def assms result_map_err_Inr)

lemma elem_value_reader:
  assumes "elem_reader rest good err el wire"
  shows "value_reader rest good err (\<lambda>r. aw_map Some (el r)) wire"
proof
  fix r v bs S
  assume "good r" "wire v bs" "rest r = bs @ S"
  from elem_reader.elem_complete [OF assms this] show "got_value err good rest (Some v) S (aw_map Some (el r))"
    unfolding aw_map_def by (rule got_value_bind) (simp add: got_value_def)
next
  fix r r' v
  assume g: "good r" and "aw_map Some (el r) = Some (r', Inr (Some v))"
  then have "el r = Some (r', Inr v)" by (auto simp: aw_map_def elim: aw_bind_InrE)
  from elem_reader.elem_sound [OF assms g this] show "good r' \<and> (\<exists>bs. wire v bs \<and> rest r = bs @ rest r')" .
qed (auto simp: aw_map_def elim: aw_bind_InrE)

section \<open>Texts\<close>

definition fits :: "nat \<Rightarrow> nat \<Rightarrow> string option \<Rightarrow> bool" where
  "fits limit hi t \<longleftrightarrow> (case t of None \<Rightarrow> False | Some s \<Rightarrow> text_ok limit hi s)"

abbreviation is_ascii :: "char \<Rightarrow> bool" where
  "is_ascii ch \<equiv> of_char ch < (128 :: nat)"

lemma name_ascii: "NAME_LOOKUP ch \<Longrightarrow> is_ascii ch"
  by (auto simp: NAME_LOOKUP_def in_range_def)

lemma name_ok_ascii: "name_ok s \<Longrightarrow> list_all is_ascii s"
  by (auto simp: name_ok_def list_all_iff name_ascii)

lemma algo_name_ascii: "list_all is_ascii (algo_name a)" and algo_name_length: "length (algo_name a) \<le> 6"
  by (cases a; simp)+

lemma method_algorithm_ascii: "list_all is_ascii (method_algorithm_display m)"
    and method_algorithm_length: "length (method_algorithm_display m) \<le> 11"
proof -
  have "list_all is_ascii (method_algorithm_display m) \<and> length (method_algorithm_display m) \<le> 11"
  proof (cases m)
    case (AFlat a)
    then show ?thesis by (cases a) simp_all
  next
    case (ARecursive a)
    then show ?thesis by (cases a) simp_all
  qed simp
  then show "list_all is_ascii (method_algorithm_display m)" "length (method_algorithm_display m) \<le> 11" by simp_all
qed

lemma algo_size_bound: "algo_size a \<le> 64"
  by (cases a) simp_all

definition dir_fits :: "nat \<Rightarrow> nat \<Rightarrow> StoreDir \<Rightarrow> bool" where
  "dir_fits limit hi d \<longleftrightarrow> is_absolute (dir_str d) \<and> utf8_valid (as_bytes (dir_str d)) \<and>
     length (dir_str d) + 256 \<le> limit \<and> length (dir_str d) + 256 \<le> hi"

definition sig_fits :: "nat \<Rightarrow> nat \<Rightarrow> Codecs \<Rightarrow> Signature \<Rightarrow> bool" where
  "sig_fits limit hi cs s \<longleftrightarrow> sig_ok s \<and> fits limit hi (sig_display cs s)"

definition derived_fits :: "nat \<Rightarrow> nat \<Rightarrow> Codecs \<Rightarrow> StoreDir \<Rightarrow> DerivedPath \<Rightarrow> bool" where
  "derived_fits limit hi cs d p \<longleftrightarrow> derived_ok p \<and> fits limit hi (derived_store_dir_display cs (CHR ''!'') d p)"

definition signatures_fit :: "nat \<Rightarrow> nat \<Rightarrow> Codecs \<Rightarrow> Signature list \<Rightarrow> bool" where
  "signatures_fit limit hi cs sigs \<longleftrightarrow> list_all (sig_fits limit hi cs) sigs \<and> length sigs < 2 ^ 64 \<and> btree_set sigs"

definition paths_ok :: "StorePath list \<Rightarrow> bool" where
  "paths_ok ps \<longleftrightarrow> list_all path_ok ps \<and> length ps < 2 ^ 64 \<and> btree_set ps"

definition drv_output_ok :: "DrvOutput \<Rightarrow> bool" where
  "drv_output_ok d \<longleftrightarrow> path_ok (do_drv_path d) \<and> out_ok (do_output_name d)"

definition realisation_fits :: "nat \<Rightarrow> nat \<Rightarrow> Codecs \<Rightarrow> UnkeyedRealisation \<Rightarrow> bool" where
  "realisation_fits limit hi cs u \<longleftrightarrow> path_ok (out_path u) \<and> signatures_fit limit hi cs (signatures u)"

text \<open>An output with a fixed content address is not read back (see below).\<close>

fun output_carried :: "DerivationOutput \<Rightarrow> bool" where
  "output_carried (InputAddressed p) \<longleftrightarrow> path_ok p"
| "output_carried (CAFixed ca) \<longleftrightarrow> False"
| "output_carried out \<longleftrightarrow> True"

text \<open>A derivation that survives: it is named as its path, and has no structured attributes; \<open>sz\<close> is the size of a \<open>Bytes\<close>.\<close>

definition drv_carried :: "nat \<Rightarrow> nat \<Rightarrow> StorePath \<times> 'j BasicDerivation \<Rightarrow> bool" where
  "drv_carried hi sz v \<longleftrightarrow> (let drv = snd v in
     path_ok (fst v) \<and> dv_name drv = sp_name (fst v) \<and> dv_structured_attrs drv = None \<and> paths_ok (dv_inputs drv) \<and>
     list_all (\<lambda>e. out_ok (fst e) \<and> output_carried (snd e)) (dv_outputs drv) \<and> length (dv_outputs drv) < 2 ^ 64 \<and> btree_map (dv_outputs drv) \<and>
     length (dv_platform drv) \<le> hi \<and> length (dv_builder drv) \<le> hi \<and>
     list_all (\<lambda>a. length a \<le> hi) (dv_args drv) \<and> length (dv_args drv) < 2 ^ 64 \<and> length (dv_args drv) * sz < 2 ^ 63 \<and>
     list_all (\<lambda>e. length (fst e) \<le> hi \<and> length (snd e) \<le> hi) (dv_env drv) \<and> length (dv_env drv) < 2 ^ 64 \<and> btree_map (dv_env drv))"

context data_encoding
begin

lemma base_ascii: "base \<noteq> Base64 \<Longrightarrow> list_all is_ascii (base_encode cs base b)"
proof -
  have "list_all is_ascii NIX_SYMBOLS" "list_all is_ascii HEX_SYMBOLS" by (simp_all add: NIX_SYMBOLS_def HEX_SYMBOLS_def)
  moreover have "set (concat (map hex_byte b)) \<subseteq> set HEX_SYMBOLS" using hex_byte_set by auto
  ultimately show "base \<noteq> Base64 \<Longrightarrow> ?thesis"
    using b32_symbols [of b] by (cases base) (auto simp: hex_encode list_all_iff subset_iff)
qed

lemma b32_length_le: "length b \<le> 64 \<Longrightarrow> length (base_encode cs NixBase32 b) \<le> 103"
  using base_encode_length [of NixBase32 b] by (simp add: encode_len_def)

end

context hash_format
begin

lemma base32_text:
  assumes "ok h"
  shows "\<exists>s. base32_display cs H alt h = Some s \<and> list_all is_ascii s \<and> length s \<le> 110"
proof -
  have "length (bytes_of H h) \<le> 64" using bytes_length [OF assms] algo_size_bound [of "algorithm_of H h"] by simp
  from b32_length_le [OF this] show ?thesis
    using displays(2) [OF assms, of alt] algo_name_ascii [of "algorithm_of H h"] algo_name_length [of "algorithm_of H h"]
      base_ascii [of NixBase32 "bytes_of H h"] by (simp del: base_encode.simps)
qed

end

section \<open>The contract for store types\<close>

locale store_env = wire_env W I werr limit R rest good rerr hi ver dir + data_encoding cs
  for W :: "'w NixWrite" and I werr limit and R :: "'r NixRead" and rest good rerr hi ver dir cs +
  assumes dir_fits: "dir_fits limit hi dir"
begin

lemma short_text: "list_all is_ascii s \<Longrightarrow> length s \<le> 256 \<Longrightarrow> text_ok limit hi s"
  using dir_fits utf8_ascii [of s] by (simp add: text_ok_def dir_fits_def)

lemma path_text:
  assumes "path_ok p"
  shows "\<exists>s. store_dir_display cs dir p = Some s \<and> s \<noteq> [] \<and> text_ok limit hi s \<and> from_store_dir_str cs dir s = Some (Inr p)"
proof -
  obtain s where s: "path_display cs p = Some s" "from_bytes cs s = Some (Inr p)" using from_bytes_display [OF assms] by blast
  have "list_all is_ascii s"
    using path_display_char [OF assms s(1)] by (auto simp: list_all_iff intro: name_ascii)
  moreover have "length s \<le> 244"
    using s(1) assms base_encode_length [of NixBase32 "sph_bytes (sp_hash p)"]
    by (auto simp: path_display_def sph_display_eq path_ok_def name_ok_def MAX_NAME_LEN_def encode_len_20)
  ultimately have "text_ok limit hi (dir_str dir @ ''/'' @ s)"
    using dir_fits utf8_ascii [of "CHR ''/'' # s"] utf8_append [of "as_bytes (dir_str dir)" "as_bytes (CHR ''/'' # s)"]
    by (simp add: text_ok_def dir_fits_def)
  moreover have "strip_prefix dir (dir_str dir @ CHR ''/'' # s) = Inr s"
    using dir_fits by (auto simp: strip_prefix_def str_strip_prefix_def is_absolute_def prefix_def dir_fits_def)
  ultimately show ?thesis using s by (simp add: store_dir_display_def from_store_dir_str_def)
qed

lemma carries_store_path: "carries (ser_store_path cs W) (de_store_path cs R) path_ok"
  unfolding ser_store_path_def de_store_path_def by (rule carries_text) (use path_text in blast)

lemma carries_output_name: "carries (ser_output_name W) (de_output_name R) out_ok"
  unfolding ser_output_name_def de_output_name_def
proof (rule carries_display)
  fix n assume "out_ok n"
  moreover from this have "length (out_str n) \<le> 211" by (simp add: out_ok_def name_ok_def MAX_NAME_LEN_def)
  ultimately show "\<exists>s. Some (out_str n) = Some s \<and> text_ok limit hi s \<and> Some (output_from_str s) = Some (Inr n)"
    by (simp add: output_from_str_Inr out_ok_def short_text name_ok_ascii)
qed

lemma carries_algorithm: "carries (ser_algorithm W) (de_algorithm R) (\<lambda>_. True)"
  unfolding ser_algorithm_def de_algorithm_def
  by (rule carries_display) (simp add: algo_from_str_name short_text algo_name_ascii order_trans [OF algo_name_length])

lemma carries_method_algorithm: "carries (ser_method_algorithm W) (de_method_algorithm R) (\<lambda>_. True)"
  unfolding ser_method_algorithm_def de_method_algorithm_def
  by (rule carries_display)
    (simp add: method_algorithm_from_display short_text method_algorithm_ascii order_trans [OF method_algorithm_length])

lemma nar_format: "hash_format cs nar_hash_common nar_hash_ok"
  using data_encoding_axioms nar_hash.common_hash_axioms by (simp add: hash_format_def)

lemma carries_nar_hash: "carries (ser_nar_hash W) (de_nar_hash cs R) nar_hash_ok"
  unfolding ser_nar_hash_def de_nar_hash_def
proof (rule carries_display)
  fix h assume h: "nar_hash_ok h"
  have "length (nar_hash_bytes h) = 32" using h by (simp add: nar_hash_ok_def sha256_ok_def nar_hash_bytes_def)
  then have "length (base_encode cs Hex (bytes_of nar_hash_common h)) = 64"
    using base_encode_length [of Hex "bytes_of nar_hash_common h"] by (simp add: nar_hash_common_def)
  moreover have "implied_algorithm nar_hash_common = Some SHA256" by (simp add: nar_hash_common_def)
  ultimately show "\<exists>s. Some (base16_display nar_hash_common True h) = Some s \<and> text_ok limit hi s \<and>
      bare_from_str nar_hash_common (any_parse cs nar_hash_common) s = Some (Inr h)"
    using hash_format.displays(1) [OF nar_format h, of True] hash_format.bare_roundtrip(2) [OF nar_format h, of SHA256 Hex]
      base_ascii [of Hex "bytes_of nar_hash_common h"] by (simp add: short_text del: base_encode.simps)
qed

lemma carries_signature: "carries (ser_signature cs W) (de_signature cs R) (sig_fits limit hi cs)"
  unfolding ser_signature_def de_signature_def
  by (rule carries_display) (use sig_from_display in \<open>fastforce simp: sig_fits_def fits_def\<close>)

lemma carries_hash: "carries (ser_hash cs W) (de_hash cs R) hash_ok"
  unfolding ser_hash_def de_hash_def
proof (rule carries_display)
  fix h assume h: "hash_ok h"
  obtain s where s: "base32_display cs hash_common False h = Some s" "list_all is_ascii s" "length s \<le> 110" using hash_format.base32_text [OF hash_formats(1) h] by blast
  moreover have "any_from_str cs hash_common s = Some (Inr h)"
    using hash_format.displays(2) [OF hash_formats(1) h, of False] s hash_format.prefixed_roundtrip(4) [OF hash_formats(1) h, of NixBase32]
    by (simp del: base_encode.simps)
  ultimately show "\<exists>s. base32_display cs hash_common False h = Some s \<and> text_ok limit hi s \<and> any_from_str cs hash_common s = Some (Inr h)"
    by (simp add: short_text)
qed

lemma ca_text:
  assumes "ca_ok ca"
  shows "\<exists>s. ca_display cs ca = Some s \<and> s \<noteq> [] \<and> text_ok limit hi s \<and> ca_from_str cs s = Some (Inr ca)"
proof -
  obtain s where s: "ca_display cs ca = Some s" "ca_from_str cs s = Some (Inr ca)" using ca_from_display [OF assms] by blast
  moreover have "s \<noteq> [] \<and> list_all is_ascii s \<and> length s \<le> 256"
    using assms s(1) hash_format.base32_text [OF hash_formats(1), of _ False] hash_format.base32_text [OF hash_formats(2), of _ False]
    by (cases ca) (fastforce simp: ca_display_def ca_ok_def)+
  ultimately show ?thesis by (simp add: short_text)
qed

lemma carries_content_address: "carries (ser_content_address cs W) (de_content_address cs R) ca_ok"
  unfolding ser_content_address_def de_content_address_def by (rule carries_display) (use ca_text in blast)

lemma carries_store_path_hash:
  "carries (ser_store_path_hash cs W) (de_store_path_hash cs R) (\<lambda>h. length (sph_bytes h) = STORE_PATH_HASH_SIZE)"
  unfolding ser_store_path_hash_def de_store_path_hash_def
proof (rule carries_display)
  fix h assume h: "length (sph_bytes h) = STORE_PATH_HASH_SIZE"
  have "length (base_encode cs NixBase32 (sph_bytes h)) = 32"
    using h base_encode_length [of NixBase32 "sph_bytes h"] by (simp add: encode_len_20)
  then show "\<exists>s. sph_display cs h = Some s \<and> text_ok limit hi s \<and> decode_digest cs s = Some (Inr h)"
    using h base_ascii [of NixBase32 "sph_bytes h"] by (simp add: sph_display_eq decode_digest_display short_text del: base_encode.simps)
qed

lemma carries_store_dir: "carries (ser_store_dir W) (de_store_dir R) (\<lambda>d. d = dir)"
proof -
  have "value_reader rest good rerr (de_store_dir R) (\<lambda>d bs. d = dir \<and> bs = [])"
    by unfold_locales (auto simp: de_store_dir_def got_value_def reader_env)
  then show ?thesis unfolding carries_def sends_def ser_store_dir_def using sent_done [of I]
    by (intro exI [of _ "\<lambda>d bs. d = dir \<and> bs = []"]) simp
qed

lemma carries_derived_path:
  "carries (ser_derived_path cs W) (de_derived_path cs R)
     (derived_fits limit hi cs dir)"
proof -
  let ?parse = "derived_from_store_dir_str cs (CHR ''!'') dir"
  let ?wire = "\<lambda>p bs. \<exists>u. conv_wire (slice_wire hi) from_utf8 u bs \<and> ?parse u = Some (Inr p)"
  have "value_reader rest good rerr (de_derived_path cs R) ?wire"
    unfolding de_derived_path_def [abs_def] by (rule try_converted_reader [OF rr.string_reader]) (simp add: reader_env)
  moreover have "sends (ser_derived_path cs W) ?wire (derived_fits limit hi cs dir)"
    unfolding sends_def derived_fits_def
  proof (intro allI impI)
    fix q w p assume a: "I q w \<and> derived_ok p \<and> fits limit hi (derived_store_dir_display cs (CHR ''!'') dir p)"
    then obtain s where s: "derived_store_dir_display cs (CHR ''!'') dir p = Some s" "text_ok limit hi s"
      by (auto simp: fits_def split: option.splits)
    obtain b where b: "derived_display cs (CHR ''!'') p = Some b" "derived_from_str_sep cs (CHR ''!'') b = Some (Inr p)"
      using derived_from_display [of p "CHR ''!''"] a separators by auto
    have "strip_prefix dir (dir_str dir @ CHR ''/'' # b) = Inr b"
      using dir_fits by (auto simp: strip_prefix_def str_strip_prefix_def is_absolute_def prefix_def dir_fits_def)
    with s b have "?parse s = Some (Inr p)" by (auto simp: derived_from_store_dir_str_def derived_store_dir_display_def)
    moreover have "conv_wire (slice_wire hi) from_utf8 s (nix_slice (as_bytes s))"
      using s(2) string_wire_enc [of s hi] by (simp add: text_ok_def enc_string_def)
    ultimately show "\<exists>bs. ?wire p bs \<and> sent werr I (q @ bs) (ser_derived_path cs W p w)"
      using text_sent [of q w s] s a writer_env [of q w] unfolding ser_derived_path_def ser_store_dir_display_def by auto
  qed
  ultimately show ?thesis unfolding carries_def by blast
qed

lemma carries_drv_output: "carries (ser_drv_output cs W) (de_drv_output cs R) drv_output_ok"
  unfolding ser_drv_output_def de_drv_output_def
  by (rule carries_iso [OF carries_then [OF carries_store_path carries_output_name]]) (simp add: drv_output_ok_def)

lemma carries_signatures: "carries (ser_set W (ser_signature cs W)) (de_set R (de_signature cs R)) (signatures_fit limit hi cs)"
  using carries_set [OF carries_signature] by (simp add: signatures_fit_def [abs_def])

lemma carries_paths: "carries (ser_set W (ser_store_path cs W)) (de_set R (de_store_path cs R)) paths_ok"
  using carries_set [OF carries_store_path] by (simp add: paths_ok_def [abs_def])

lemma carries_unkeyed_realisation: "carries (ser_unkeyed_realisation cs W) (de_unkeyed_realisation cs R) (realisation_fits limit hi cs)"
  unfolding ser_unkeyed_realisation_def de_unkeyed_realisation_def
  by (rule carries_iso [OF carries_then [OF carries_store_path carries_signatures]]) (simp add: realisation_fits_def)

lemma carries_realisation:
  "carries (ser_realisation cs W) (de_realisation cs R) (\<lambda>x. drv_output_ok (rl_key x) \<and> realisation_fits limit hi cs (rl_value x))"
  unfolding ser_realisation_def de_realisation_def
  by (rule carries_iso [OF carries_then [OF carries_drv_output carries_unkeyed_realisation]]) simp

text \<open>Outputs of derivations: three texts.\<close>

definition sends_text :: "('w \<Rightarrow> ('w, unit) awaited) \<Rightarrow> string \<Rightarrow> bool" where
  "sends_text ser s \<longleftrightarrow> utf8_valid (as_bytes s) \<and> length s \<le> hi \<and> (\<forall>p w. I p w \<longrightarrow> sent werr I (p @ nix_slice (as_bytes s)) (ser w))"

lemma sends_string: "utf8_valid (as_bytes s) \<Longrightarrow> length s \<le> hi \<Longrightarrow> sends_text (ser_string W s) s"
  using ww.slice_law by (simp add: sends_text_def ser_string_def)

lemma sends_write_text: "text_ok limit hi s \<Longrightarrow> sends_text (\<lambda>w. write_text W w (Some s)) s"
  using text_sent by (simp add: sends_text_def text_ok_def)

lemma sends_three:
  assumes "sends_text a s" "sends_text b t" "sends_text c u" "I p w"
  shows "sent werr I (p @ nix_slice (as_bytes s) @ nix_slice (as_bytes t) @ nix_slice (as_bytes u))
    (aw_bind (a w) (\<lambda>w _. aw_bind (b w) (\<lambda>w _. c w)))"
proof -
  have "sent werr I ((p @ nix_slice (as_bytes s)) @ nix_slice (as_bytes t) @ nix_slice (as_bytes u)) (aw_bind (a w) (\<lambda>w _. aw_bind (b w) (\<lambda>w _. c w)))"
  proof (rule sent_bind)
    fix w assume w: "I (p @ nix_slice (as_bytes s)) w"
    have "sent werr I (((p @ nix_slice (as_bytes s)) @ nix_slice (as_bytes t)) @ nix_slice (as_bytes u)) (aw_bind (b w) (\<lambda>w _. c w))"
      by (rule sent_bind) (use assms w in \<open>simp_all add: sends_text_def del: append_assoc\<close>)
    then show "sent werr I ((p @ nix_slice (as_bytes s)) @ nix_slice (as_bytes t) @ nix_slice (as_bytes u)) (aw_bind (b w) (\<lambda>w _. c w))" by simp
  qed (use assms in \<open>simp add: sends_text_def\<close>)
  then show ?thesis by simp
qed

definition three_wire :: "DerivationOutput \<Rightarrow> bytes \<Rightarrow> bool" where
  "three_wire out bs \<longleftrightarrow> (\<exists>s t u. bs = nix_slice (as_bytes s) @ nix_slice (as_bytes t) @ nix_slice (as_bytes u) \<and>
     list_all (\<lambda>s. utf8_valid (as_bytes s) \<and> length s \<le> hi) [s, t, u] \<and> output_of_texts cs dir s t u = Some (Inr out))"

lemma output_reader: "elem_reader rest good rerr (read_derivation_output cs R) three_wire"
proof -
  let ?str = "conv_wire (slice_wire hi) from_utf8"
  let ?last = "\<lambda>s t u v bs. bs = [] \<and> output_of_texts cs dir s t u = Some (Inr v)"
  have str: "elem_reader rest good rerr (\<lambda>r. required (de_string R r)) ?str" by (rule value_reader.required_reader [OF rr.string_reader])
  have fin: "elem_reader rest good rerr (\<lambda>r. map_option (\<lambda>x. (r, result_map_err (\<lambda>_. invalid_data) x))
      (output_of_texts cs (rd_store_dir R r) s t u)) (?last s t u)" for s t u
    by (rule elem_conv_reader) (simp add: reader_env)
  have "elem_reader rest good rerr (read_derivation_output cs R)
      (bind_wire ?str (\<lambda>s. bind_wire ?str (\<lambda>t. bind_wire ?str (\<lambda>u. ?last s t u))))"
    unfolding read_derivation_output_def [abs_def] by (intro elem_bind_reader str fin)
  moreover have "bind_wire ?str (\<lambda>s. bind_wire ?str (\<lambda>t. bind_wire ?str (\<lambda>u. ?last s t u))) = three_wire"
    by (intro ext) (auto simp: bind_wire_def three_wire_def conv_wire_def slice_wire_def from_utf8_Inr, blast)
  ultimately show ?thesis by simp
qed

lemma sends_path_text:
  assumes "path_ok p"
  obtains s where "sends_text (ser_store_path cs W p) s" "s \<noteq> []" "from_store_dir_str cs dir s = Some (Inr p)"
proof -
  obtain s where s: "store_dir_display cs dir p = Some s" "s \<noteq> []" "text_ok limit hi s" "from_store_dir_str cs dir s = Some (Inr p)"
    using path_text [OF assms] by blast
  have "sends_text (ser_store_path cs W p) s"
    using sends_write_text [OF s(3)] writer_env s(1) by (simp add: sends_text_def ser_store_path_def ser_store_dir_display_def)
  with s show ?thesis using that by blast
qed

lemma sends_method_algorithm: "sends_text (ser_method_algorithm W m) (method_algorithm_display m)"
  using sends_write_text [of "method_algorithm_display m"] method_algorithm_ascii [of m] method_algorithm_length [of m] short_text
  by (simp add: sends_text_def ser_method_algorithm_def ser_display_def)

lemma sends_literal: "sends_text (ser_string W []) []" "sends_text (ser_string W ''impure'') ''impure''"
  using short_text [of "''impure''"] by (auto intro!: sends_string simp: text_ok_def)

lemma method_algorithm_not_empty: "method_algorithm_display m \<noteq> []"
  by (cases m; cases "ma_algorithm m") auto

lemma sends_output: "sends (\<lambda>out. write_derivation_output cs K W drv_name output_name out) three_wire output_carried"
  unfolding sends_def
proof (intro allI impI)
  fix p w out assume a: "I p w \<and> output_carried out"
  have post: "\<exists>bs. three_wire out bs \<and> sent werr I (p @ bs) (write_derivation_output cs K W drv_name output_name out w)"
    if "sends_text a s" "sends_text b t" "sends_text c u" "output_of_texts cs dir s t u = Some (Inr out)"
      "write_derivation_output cs K W drv_name output_name out w = aw_bind (a w) (\<lambda>w _. aw_bind (b w) (\<lambda>w _. c w))" for a b c s t u
    using sends_three [OF that(1-3)] a that unfolding three_wire_def sends_text_def by fastforce
  show "\<exists>bs. three_wire out bs \<and> sent werr I (p @ bs) (write_derivation_output cs K W drv_name output_name out w)"
  proof (cases out)
    case (InputAddressed q)
    with a obtain s where "sends_text (ser_store_path cs W q) s" "s \<noteq> []" "from_store_dir_str cs dir s = Some (Inr q)"
      using sends_path_text [of q] by auto
    with InputAddressed show ?thesis
      by (intro post [OF _ sends_literal(1) sends_literal(1)]) (auto simp: output_of_texts_def write_derivation_output_def)
  next
    case Deferred
    then show ?thesis
      by (intro post [OF sends_literal(1) sends_literal(1) sends_literal(1)]) (simp_all add: output_of_texts_def write_derivation_output_def)
  next
    case (CAFloating m)
    then show ?thesis
      by (intro post [OF sends_literal(1) sends_method_algorithm [of m] sends_literal(1)])
        (simp_all add: output_of_texts_def write_derivation_output_def method_algorithm_from_display method_algorithm_not_empty)
  next
    case (Impure m)
    then show ?thesis
      by (intro post [OF sends_literal(1) sends_method_algorithm [of m] sends_literal(2)])
        (simp_all add: output_of_texts_def write_derivation_output_def method_algorithm_from_display)
  qed (use a in simp)
qed

lemma carried_output_names:
  "output_carried out \<Longrightarrow> write_derivation_output cs K W d n out = write_derivation_output cs K W d' n' out"
  by (intro ext) (cases out; simp add: write_derivation_output_def)

lemma ser_outputs_map:
  assumes "list_all (\<lambda>e. output_carried (snd e)) outs"
  shows "ser_outputs cs K W drv_name outs w = ser_map W (ser_output_name W) (write_derivation_output cs K W d output_default) outs w"
proof -
  have "ser_elems (\<lambda>(n, out) w. aw_bind (ser_output_name W n w) (\<lambda>w _. write_derivation_output cs K W drv_name n out w)) outs w =
      ser_entries (ser_output_name W) (write_derivation_output cs K W d output_default) outs w" for w
    using assms
  proof (induction outs arbitrary: w)
    case (Cons e es)
    obtain n out where e: "e = (n, out)" by (cases e)
    with Cons.prems have "write_derivation_output cs K W drv_name n out = write_derivation_output cs K W d output_default out"
      by (intro carried_output_names) simp
    with Cons e show ?case by (auto simp: aw_bind_def split: option.splits sum.splits)
  qed simp
  then show ?thesis by (simp add: ser_outputs_def ser_vec_def ser_map_def)
qed

lemma carries_outputs:
  "carries (ser_outputs cs K W drv_name) (de_outputs cs R)
     (\<lambda>m. list_all (\<lambda>e. out_ok (fst e) \<and> output_carried (snd e)) m \<and> length m < 2 ^ 64 \<and> btree_map m)"
proof -
  have "carries (write_derivation_output cs K W drv_name output_default) (\<lambda>r. aw_map Some (read_derivation_output cs R r)) output_carried"
    unfolding carries_def using elem_value_reader [OF output_reader] sends_output by blast
  from carries_map [OF carries_output_name this]
  obtain wire where w: "value_reader rest good rerr (de_outputs cs R) wire"
    "sends (ser_map W (ser_output_name W) (write_derivation_output cs K W drv_name output_default)) wire
      (\<lambda>m. list_all (\<lambda>e. out_ok (fst e) \<and> output_carried (snd e)) m \<and> length m < 2 ^ 64 \<and> btree_map m)"
    unfolding de_outputs_def by (rule carriesE)
  have "sends (ser_outputs cs K W drv_name) wire (\<lambda>m. list_all (\<lambda>e. out_ok (fst e) \<and> output_carried (snd e)) m \<and> length m < 2 ^ 64 \<and> btree_map m)"
    by (rule sends_cong [OF w(2)]) (auto intro!: ser_outputs_map simp: list_all_iff)
  with w(1) show ?thesis unfolding carries_def by blast
qed

lemma carries_basic_derivation:
  "carries (ser_basic_derivation cs K W) (de_basic_derivation cs sz R :: 'r \<Rightarrow> ('r, (StorePath \<times> 'j BasicDerivation) option) awaited) (drv_carried hi sz)"
proof -
  let ?fields = "\<lambda>v. (fst v, dv_outputs (snd v), dv_inputs (snd v), dv_platform (snd v), dv_builder (snd v), dv_args (snd v), dv_env (snd v))"
  let ?ser = "ser_into ?fields (ser_then (ser_store_path cs W) (ser_then (ser_outputs cs K W (StorePathName [])) (ser_then (ser_set W (ser_store_path cs W))
           (ser_then (ser_bytes W) (ser_then (ser_bytes W) (ser_then (ser_vec W (ser_bytes W)) (ser_map W (ser_bytes W) (ser_bytes W))))))))"
  have "carries ?ser (de_basic_derivation cs sz R :: 'r \<Rightarrow> ('r, (StorePath \<times> 'j BasicDerivation) option) awaited) (drv_carried hi sz)"
    unfolding de_basic_derivation_def
    by (rule carries_iso [OF carries_then [OF carries_store_path carries_then [OF carries_outputs carries_then [OF carries_paths
          carries_then [OF carries_bytes carries_then [OF carries_bytes carries_then [OF carries_vec [OF carries_bytes] carries_map [OF carries_bytes carries_bytes]]]]]]]])
      (auto simp: drv_carried_def Let_def)
  then obtain wire where w: "value_reader rest good rerr (de_basic_derivation cs sz R :: 'r \<Rightarrow> ('r, (StorePath \<times> 'j BasicDerivation) option) awaited) wire" "sends ?ser wire (drv_carried hi sz)"
    by (rule carriesE)
  have "sends (ser_basic_derivation cs K W) wire (drv_carried hi sz)"
  proof (rule sends_cong [OF w(2)])
    fix w and v :: "StorePath \<times> 'j BasicDerivation" assume "drv_carried hi sz v"
    then have "list_all (\<lambda>e. output_carried (snd e)) (dv_outputs (snd v))" by (auto simp: drv_carried_def Let_def list_all_iff)
    note m = ser_outputs_map [OF this, where d = "StorePathName []"]
    have "ser_outputs cs K W (dv_name (snd v)) (dv_outputs (snd v)) = ser_outputs cs K W (StorePathName []) (dv_outputs (snd v))"
      by (intro ext) (simp only: m)
    then show "ser_basic_derivation cs K W v w = ?ser v w"
      by (simp add: ser_basic_derivation_def ser_into_def ser_then_def Let_def)
  qed
  with w(1) show ?thesis unfolding carries_def by blast
qed

text \<open>A fixed content address: its hash is written without the name of the algorithm, which the reader asks for.\<close>

lemma ca_fixed_texts:
  assumes "digest_crates K md5_seen ring_seen ring_alg" "ca_ok ca" "name_from_str (output_path_name drv_name output_name) = Inr name" "I p w"
  shows "\<exists>s t u. sent werr I (p @ nix_slice (as_bytes s) @ nix_slice (as_bytes t) @ nix_slice (as_bytes u))
      (write_derivation_output cs K W drv_name output_name (CAFixed ca) w) \<and>
    list_all (\<lambda>s. utf8_valid (as_bytes s) \<and> length s \<le> hi) [s, t, u] \<and> output_of_texts cs dir s t u = Some (Inl ())"
proof -
  have "name_ok (name_str name)" using assms(3) by (cases "into_name (output_path_name drv_name output_name)") (auto simp: name_from_str_def into_name_Inr)
  then obtain q where q: "make_store_path_from_ca cs K dir name ca = Some q" "path_ok q"
    using digest_crates.make_store_path_exact [OF assms(1,2)] by blast
  obtain s where s: "sends_text (ser_store_path cs W q) s" "s \<noteq> []" using sends_path_text [OF q(2)] by blast
  obtain h where h: "ca_hash ca = Some h" "hash_ok h" using assms(2) hash_of_sha256_ok by (cases ca) (auto simp: ca_ok_def)
  define u where "u = base_encode cs NixBase32 (bytes_of hash_common h)"
  have d: "base32_display cs hash_common True h = Some u" using hash_format.displays(2) [OF hash_formats(1) h(2), of True] by (simp add: u_def)
  have u: "sends_text (\<lambda>w. write_text W w (Some u)) u"
    using hash_format.base32_text [OF hash_formats(1) h(2), of True] d by (intro sends_write_text short_text) auto
  have "CHR '':'' \<notin> set NIX_SYMBOLS" by (simp add: NIX_SYMBOLS_def)
  then have c: "CHR '':'' \<notin> set u" using b32_symbols [of "bytes_of hash_common h"] by (auto simp: u_def)
  have len: "length u \<noteq> 6" "u \<noteq> []"
    using base_encode_length [of NixBase32 "bytes_of hash_common h"] hash.bytes_length [OF h(2)]
    by (cases "algorithm_of hash_common h"; auto simp: u_def encode_len_def simp del: base_encode.simps)+
  then have "u \<noteq> ''impure''" by auto
  moreover have "split_once (CHR '':'') u = None" using c by (simp add: split_once_None)
  ultimately have "output_of_texts cs dir s (method_algorithm_display (ca_method_algorithm ca)) u = Some (Inl ())"
    using s(2) len by (simp add: output_of_texts_def method_algorithm_from_display base32_from_str_def)
  moreover have "write_derivation_output cs K W drv_name output_name (CAFixed ca) w =
      aw_bind (ser_store_path cs W q w) (\<lambda>w _. aw_bind (ser_method_algorithm W (ca_method_algorithm ca) w) (\<lambda>w _. write_text W w (Some u)))"
    using q h d assms(3) writer_env [OF assms(4)] by (simp add: write_derivation_output_def)
  ultimately show ?thesis
    using sends_three [OF s(1) sends_method_algorithm u assms(4)] s(1) sends_method_algorithm [of "ca_method_algorithm ca"] u
    unfolding sends_text_def by fastforce
qed

lemma three_texts_refused:
  assumes "good r" "rest r = nix_slice (as_bytes s) @ nix_slice (as_bytes t) @ nix_slice (as_bytes u) @ S"
    "list_all (\<lambda>s. utf8_valid (as_bytes s) \<and> length s \<le> hi) [s, t, u]" "output_of_texts cs dir s t u = Some (Inl ())"
  shows "\<exists>r' e. read_derivation_output cs R r = Some (r', Inl e) \<and> (rerr e \<or> e = invalid_data)"
proof -
  have str: "elem_reader rest good rerr (\<lambda>r. required (de_string R r)) (conv_wire (slice_wire hi) from_utf8)"
    by (rule value_reader.required_reader [OF rr.string_reader])
  have wire: "conv_wire (slice_wire hi) from_utf8 v (nix_slice (as_bytes v))" if "v \<in> {s, t, u}" for v
    using string_wire_enc [of v hi] assms(3) that by (auto simp: enc_string_def)
  have step: "(\<exists>r1 e. required (de_string R r) = Some (r1, Inl e) \<and> rerr e) \<or>
      (\<exists>r1. required (de_string R r) = Some (r1, Inr v) \<and> good r1 \<and> rest r1 = S)"
    if "good r" "rest r = nix_slice (as_bytes v) @ S" "v \<in> {s, t, u}" for r v S
  proof -
    note h = that
    obtain r1 x where "required (de_string R r) = Some (r1, x)" "case x of Inl e \<Rightarrow> rerr e | Inr y \<Rightarrow> y = v \<and> good r1 \<and> rest r1 = S"
      using elem_reader.elem_complete [OF str h(1) wire [OF h(3)] h(2)] unfolding got_value_def by blast
    then show ?thesis by (cases x) auto
  qed
  have mem: "s \<in> {s, t, u}" "t \<in> {s, t, u}" "u \<in> {s, t, u}" by simp_all
  from step [OF assms(1,2) mem(1)] show ?thesis
  proof (elim disjE exE conjE)
    fix r1 assume r1: "required (de_string R r) = Some (r1, Inr s)" "good r1" "rest r1 = nix_slice (as_bytes t) @ nix_slice (as_bytes u) @ S"
    from step [OF r1(2,3) mem(2)] show ?thesis
    proof (elim disjE exE conjE)
      fix r2 assume r2: "required (de_string R r1) = Some (r2, Inr t)" "good r2" "rest r2 = nix_slice (as_bytes u) @ S"
      from step [OF r2(2,3) mem(3)] show ?thesis
        by (elim disjE exE conjE) (use r1 r2 assms(4) reader_env in \<open>auto simp: read_derivation_output_def\<close>)
    qed (use r1 in \<open>simp_all add: read_derivation_output_def\<close>)
  qed (simp_all add: read_derivation_output_def)
qed

end

end
