(* ===== verification/Log_Wire.thy ===== *)
theory Log_Wire
  imports Store_Wire
begin

text \<open>
  The log of the daemon protocol (\<open>harmonia-protocol/src/log.rs\<close>, the messages of \<open>daemon_wire/logger.rs\<close>, and the fields that are kept
  for compatibility, \<open>daemon_wire/mod.rs\<close>): activities, results, errors and the messages that carry them. A field whose type
  has one value (\<open>IgnoredZero\<close>, \<open>IgnoredOne\<close>, \<open>IgnoredTrue\<close>, \<open>IgnoredErrorType\<close>) is left out of the records and stands as a unit among the
  fields on the wire. What the crate \<open>num_enum\<close> makes of the number of an unknown verbosity is a parameter (\<open>other\<close>).

  The facts: every message is carried from protocol 1.20 on; before, an activity becomes a plain message and
  the end of an activity and its results are not sent at all.
\<close>

section \<open>Enumerations\<close>

text \<open>\<open>TryFromPrimitive\<close>: the variant with a code.\<close>

definition of_code :: "('a \<Rightarrow> 'n) \<Rightarrow> 'a list \<Rightarrow> 'n \<Rightarrow> unit + 'a" where
  "of_code code all n = (case find (\<lambda>x. code x = n) all of None \<Rightarrow> Inl () | Some x \<Rightarrow> Inr x)"

lemma of_code_code:
  assumes "distinct (map code all)" "x \<in> set all"
  shows "of_code code all (code x) = Inr x"
proof -
  have "find (\<lambda>y. code y = code x) all = Some x"
    using assms by (induction all) (auto simp: image_iff)
  then show ?thesis by (simp add: of_code_def)
qed

lemma of_code_Inr: "of_code code all n = Inr x \<Longrightarrow> code x = n \<and> x \<in> set all"
  by (auto simp: of_code_def find_Some_iff split: option.splits)

section \<open>Fields kept for compatibility\<close>

definition ser_ignored_zero :: "('w, unit) serializer" where
  "ser_ignored_zero W = ser_into (\<lambda>_. 0) (ser_u64 W)"

definition de_ignored_zero :: "'r NixRead \<Rightarrow> 'r \<Rightarrow> ('r, unit option) awaited" where
  "de_ignored_zero R = de_from (\<lambda>_. ()) (de_u64 R)"

definition ser_ignored_one :: "('w, unit) serializer" where
  "ser_ignored_one W = ser_into (\<lambda>_. 1) (ser_u64 W)"

definition de_ignored_one :: "'r NixRead \<Rightarrow> 'r \<Rightarrow> ('r, unit option) awaited" where
  "de_ignored_one R = de_from (\<lambda>_. ()) (de_u64 R)"

definition ser_ignored_true :: "('w, unit) serializer" where
  "ser_ignored_true W = ser_into (\<lambda>_. True) (ser_bool W)"

definition de_ignored_true :: "'r NixRead \<Rightarrow> 'r \<Rightarrow> ('r, unit option) awaited" where
  "de_ignored_true R = de_from (\<lambda>_. ()) (de_bool R)"

definition ser_ignored_error_type :: "('w, unit) serializer" where
  "ser_ignored_error_type = ser_display (\<lambda>_. Some ''Error'')"

definition de_ignored_error_type :: "'r NixRead \<Rightarrow> 'r \<Rightarrow> ('r, unit option) awaited" where
  "de_ignored_error_type = de_from_str (\<lambda>_. Some (Inr () :: string + unit))"

section \<open>Activities\<close>

datatype Verbosity = VError | VWarn | VNotice | VInfo | VTalkative | VChatty | VDebug | VVomit

primrec verbosity_code :: "Verbosity \<Rightarrow> u16" where
  "verbosity_code VError = 0"
| "verbosity_code VWarn = 1"
| "verbosity_code VNotice = 2"
| "verbosity_code VInfo = 3"
| "verbosity_code VTalkative = 4"
| "verbosity_code VChatty = 5"
| "verbosity_code VDebug = 6"
| "verbosity_code VVomit = 7"

definition verbosity_all :: "Verbosity list" where
  "verbosity_all = [VError, VWarn, VNotice, VInfo, VTalkative, VChatty, VDebug, VVomit]"

definition verbosity_from :: "(u16 \<Rightarrow> Verbosity) \<Rightarrow> u16 \<Rightarrow> Verbosity" where
  "verbosity_from other n = (case of_code verbosity_code verbosity_all n of Inl _ \<Rightarrow> other n | Inr v \<Rightarrow> v)"

definition ser_verbosity :: "('w, Verbosity) serializer" where
  "ser_verbosity W = ser_into verbosity_code (ser_u16 W)"

definition de_verbosity :: "(u16 \<Rightarrow> Verbosity) \<Rightarrow> 'r NixRead \<Rightarrow> 'r \<Rightarrow> ('r, Verbosity option) awaited" where
  "de_verbosity other R = de_from (verbosity_from other) (de_u16 R)"

datatype ActivityType =
    ActUnknown | ActCopyPath | ActFileTransfer | ActRealise | ActCopyPaths | ActBuilds | ActBuild | ActOptimiseStore
  | ActVerifyPaths | ActSubstitute | ActQueryPathInfo | ActPostBuildHook | ActBuildWaiting | ActFetchTree

primrec activity_type_code :: "ActivityType \<Rightarrow> u16" where
  "activity_type_code ActUnknown = 0"
| "activity_type_code ActCopyPath = 100"
| "activity_type_code ActFileTransfer = 101"
| "activity_type_code ActRealise = 102"
| "activity_type_code ActCopyPaths = 103"
| "activity_type_code ActBuilds = 104"
| "activity_type_code ActBuild = 105"
| "activity_type_code ActOptimiseStore = 106"
| "activity_type_code ActVerifyPaths = 107"
| "activity_type_code ActSubstitute = 108"
| "activity_type_code ActQueryPathInfo = 109"
| "activity_type_code ActPostBuildHook = 110"
| "activity_type_code ActBuildWaiting = 111"
| "activity_type_code ActFetchTree = 112"

definition activity_type_all :: "ActivityType list" where
  "activity_type_all = [ActUnknown, ActCopyPath, ActFileTransfer, ActRealise, ActCopyPaths, ActBuilds, ActBuild, ActOptimiseStore,
     ActVerifyPaths, ActSubstitute, ActQueryPathInfo, ActPostBuildHook, ActBuildWaiting, ActFetchTree]"

definition ser_activity_type :: "('w, ActivityType) serializer" where
  "ser_activity_type W = ser_into activity_type_code (ser_u16 W)"

definition de_activity_type :: "'r NixRead \<Rightarrow> 'r \<Rightarrow> ('r, ActivityType option) awaited" where
  "de_activity_type R = de_try_from (of_code activity_type_code activity_type_all) (de_u16 R)"

datatype ResultType =
    ResFileLinked | ResBuildLogLine | ResUntrustedPath | ResCorruptedPath | ResSetPhase | ResProgress | ResSetExpected
  | ResPostBuildLogLine | ResFetchStatus

primrec result_type_code :: "ResultType \<Rightarrow> u16" where
  "result_type_code ResFileLinked = 100"
| "result_type_code ResBuildLogLine = 101"
| "result_type_code ResUntrustedPath = 102"
| "result_type_code ResCorruptedPath = 103"
| "result_type_code ResSetPhase = 104"
| "result_type_code ResProgress = 105"
| "result_type_code ResSetExpected = 106"
| "result_type_code ResPostBuildLogLine = 107"
| "result_type_code ResFetchStatus = 108"

definition result_type_all :: "ResultType list" where
  "result_type_all = [ResFileLinked, ResBuildLogLine, ResUntrustedPath, ResCorruptedPath, ResSetPhase, ResProgress, ResSetExpected,
     ResPostBuildLogLine, ResFetchStatus]"

definition ser_result_type :: "('w, ResultType) serializer" where
  "ser_result_type W = ser_into result_type_code (ser_u16 W)"

definition de_result_type :: "'r NixRead \<Rightarrow> 'r \<Rightarrow> ('r, ResultType option) awaited" where
  "de_result_type R = de_try_from (of_code result_type_code result_type_all) (de_u16 R)"

datatype FieldType = FTInt | FTString

primrec field_type_code :: "FieldType \<Rightarrow> u16" where
  "field_type_code FTInt = 0" | "field_type_code FTString = 1"

definition ser_field_type :: "('w, FieldType) serializer" where
  "ser_field_type W = ser_into field_type_code (ser_u16 W)"

definition de_field_type :: "'r NixRead \<Rightarrow> 'r \<Rightarrow> ('r, FieldType option) awaited" where
  "de_field_type R = de_try_from (of_code field_type_code [FTInt, FTString]) (de_u16 R)"

datatype Field = FInt u64 | FString bytes

primrec field_tag :: "Field \<Rightarrow> FieldType" where
  "field_tag (FInt _) = FTInt" | "field_tag (FString _) = FTString"

definition ser_field :: "('w, Field) serializer" where
  "ser_field W = ser_tagged (ser_field_type W) field_tag
     (\<lambda>f w. case f of FInt v \<Rightarrow> ser_u64 W v w | FString s \<Rightarrow> ser_bytes W s w)"

definition de_field :: "'r NixRead \<Rightarrow> 'r \<Rightarrow> ('r, Field option) awaited" where
  "de_field R = de_tagged (de_field_type R) (\<lambda>tag r. case tag of
       FTInt \<Rightarrow> aw_map FInt (required (de_u64 R r))
     | FTString \<Rightarrow> aw_map FString (required (de_bytes R r)))"

record Message =
  ms_level :: Verbosity
  ms_text :: bytes

record Activity =
  ac_fields :: "Field list"
  ac_id :: u64
  ac_level :: Verbosity
  ac_parent :: u64
  ac_text :: bytes
  ac_type :: ActivityType

record StopActivity =
  st_id :: u64

record ActivityResult =
  ar_fields :: "Field list"
  ar_id :: u64
  ar_type :: ResultType

text \<open>\<open>fsz\<close> is the size of a \<open>Field\<close>.\<close>

definition ser_activity :: "('w, Activity) serializer" where
  "ser_activity W = ser_into (\<lambda>a. (ac_id a, ac_level a, ac_type a, ac_text a, ac_fields a, ac_parent a))
     (ser_then (ser_u64 W) (ser_then (ser_verbosity W) (ser_then (ser_activity_type W) (ser_then (ser_bytes W)
       (ser_then (ser_vec W (ser_field W)) (ser_u64 W))))))"

definition de_activity :: "(u16 \<Rightarrow> Verbosity) \<Rightarrow> nat \<Rightarrow> 'r NixRead \<Rightarrow> 'r \<Rightarrow> ('r, Activity option) awaited" where
  "de_activity other fsz R = de_from (\<lambda>(id, level, activity_type, text, fields, parent).
       \<lparr>ac_fields = fields, ac_id = id, ac_level = level, ac_parent = parent, ac_text = text, ac_type = activity_type\<rparr>)
     (de_then (de_u64 R) (de_then (de_verbosity other R) (de_then (de_activity_type R) (de_then (de_bytes R)
       (de_then (de_vec fsz R (de_field R)) (de_u64 R))))))"

definition ser_stop_activity :: "('w, StopActivity) serializer" where
  "ser_stop_activity W = ser_into st_id (ser_u64 W)"

definition de_stop_activity :: "'r NixRead \<Rightarrow> 'r \<Rightarrow> ('r, StopActivity option) awaited" where
  "de_stop_activity R = de_from (\<lambda>id. \<lparr>st_id = id\<rparr>) (de_u64 R)"

definition ser_activity_result :: "('w, ActivityResult) serializer" where
  "ser_activity_result W = ser_into (\<lambda>a. (ar_id a, ar_type a, ar_fields a))
     (ser_then (ser_u64 W) (ser_then (ser_result_type W) (ser_vec W (ser_field W))))"

definition de_activity_result :: "nat \<Rightarrow> 'r NixRead \<Rightarrow> 'r \<Rightarrow> ('r, ActivityResult option) awaited" where
  "de_activity_result fsz R = de_from (\<lambda>(id, result_type, fields). \<lparr>ar_fields = fields, ar_id = id, ar_type = result_type\<rparr>)
     (de_then (de_u64 R) (de_then (de_result_type R) (de_vec fsz R (de_field R))))"

section \<open>Errors\<close>

record TraceLine =
  tl_hint :: bytes

definition ser_trace_line :: "('w, TraceLine) serializer" where
  "ser_trace_line W = ser_into (\<lambda>t. ((), tl_hint t)) (ser_then (ser_ignored_zero W) (ser_bytes W))"

definition de_trace_line :: "'r NixRead \<Rightarrow> 'r \<Rightarrow> ('r, TraceLine option) awaited" where
  "de_trace_line R = de_from (\<lambda>(_, hint). \<lparr>tl_hint = hint\<rparr>) (de_then (de_ignored_zero R) (de_bytes R))"

record LogError =
  le_level :: Verbosity
  le_msg :: bytes
  le_exit_status :: u32
  le_traces :: "TraceLine list"

definition default_exit_status :: u32 where
  "default_exit_status = 1"

abbreviation since_26 :: "u8 \<Rightarrow> bool" where
  "since_26 minor \<equiv> 26 \<le> minor"

abbreviation until_25 :: "u8 \<Rightarrow> bool" where
  "until_25 minor \<equiv> minor \<le> 25"

definition ser_log_error :: "('w, LogError) serializer" where
  "ser_log_error W = ser_into (\<lambda>e. ((), le_level e, (), le_msg e, le_exit_status e, (), le_traces e, ()))
     (ser_versioned W since_26 (ser_ignored_error_type W) (ser_versioned W since_26 (ser_verbosity W)
       (ser_versioned W since_26 (ser_ignored_error_type W) (ser_then (ser_bytes W) (ser_versioned W until_25 (ser_u32 W)
         (ser_versioned W since_26 (ser_ignored_zero W) (ser_versioned W since_26 (ser_vec W (ser_trace_line W)) (ser_unit W))))))))"

text \<open>\<open>tsz\<close> is the size of a \<open>TraceLine\<close>.\<close>

definition de_log_error :: "(u16 \<Rightarrow> Verbosity) \<Rightarrow> nat \<Rightarrow> 'r NixRead \<Rightarrow> 'r \<Rightarrow> ('r, LogError option) awaited" where
  "de_log_error other tsz R = de_from (\<lambda>(_, level, _, msg, exit_status, _, traces, _).
       \<lparr>le_level = level, le_msg = msg, le_exit_status = exit_status, le_traces = traces\<rparr>)
     (de_versioned R since_26 () (de_ignored_error_type R) (de_versioned R since_26 VError (de_verbosity other R)
       (de_versioned R since_26 () (de_ignored_error_type R) (de_then (de_bytes R) (de_versioned R until_25 default_exit_status (de_u32 R)
         (de_versioned R since_26 () (de_ignored_zero R) (de_versioned R since_26 [] (de_vec tsz R (de_trace_line R)) (de_unit R))))))))"

section \<open>Messages\<close>

definition STDERR_LAST :: u64 where "STDERR_LAST = 0x616c7473"
definition STDERR_ERROR :: u64 where "STDERR_ERROR = 0x63787470"
definition STDERR_NEXT :: u64 where "STDERR_NEXT = 0x6f6c6d67"
definition STDERR_READ :: u64 where "STDERR_READ = 0x64617461"
definition STDERR_WRITE :: u64 where "STDERR_WRITE = 0x64617416"
definition STDERR_START_ACTIVITY :: u64 where "STDERR_START_ACTIVITY = 0x53545254"
definition STDERR_STOP_ACTIVITY :: u64 where "STDERR_STOP_ACTIVITY = 0x53544f50"
definition STDERR_RESULT :: u64 where "STDERR_RESULT = 0x52534c54"

lemmas STDERR_defs = STDERR_LAST_def STDERR_ERROR_def STDERR_NEXT_def STDERR_READ_def STDERR_WRITE_def STDERR_START_ACTIVITY_def
  STDERR_STOP_ACTIVITY_def STDERR_RESULT_def

datatype RawLogMessageType = TLast | TError | TNext | TRead | TWrite | TStartActivity | TStopActivity | TResult

primrec raw_type_code :: "RawLogMessageType \<Rightarrow> u64" where
  "raw_type_code TLast = STDERR_LAST"
| "raw_type_code TError = STDERR_ERROR"
| "raw_type_code TNext = STDERR_NEXT"
| "raw_type_code TRead = STDERR_READ"
| "raw_type_code TWrite = STDERR_WRITE"
| "raw_type_code TStartActivity = STDERR_START_ACTIVITY"
| "raw_type_code TStopActivity = STDERR_STOP_ACTIVITY"
| "raw_type_code TResult = STDERR_RESULT"

definition raw_type_all :: "RawLogMessageType list" where
  "raw_type_all = [TLast, TError, TNext, TRead, TWrite, TStartActivity, TStopActivity, TResult]"

definition ser_raw_type :: "('w, RawLogMessageType) serializer" where
  "ser_raw_type W = ser_into raw_type_code (ser_u64 W)"

definition de_raw_type :: "'r NixRead \<Rightarrow> 'r \<Rightarrow> ('r, RawLogMessageType option) awaited" where
  "de_raw_type R = de_try_from (of_code raw_type_code raw_type_all) (de_u64 R)"

datatype RawLogMessage =
    RLast | RError LogError | RNext bytes | RRead nat | RWrite bytes
  | RStartActivity Activity | RStopActivity StopActivity | RResult ActivityResult

fun raw_tag :: "RawLogMessage \<Rightarrow> RawLogMessageType" where
  "raw_tag RLast = TLast"
| "raw_tag (RError _) = TError"
| "raw_tag (RNext _) = TNext"
| "raw_tag (RRead _) = TRead"
| "raw_tag (RWrite _) = TWrite"
| "raw_tag (RStartActivity _) = TStartActivity"
| "raw_tag (RStopActivity _) = TStopActivity"
| "raw_tag (RResult _) = TResult"

text \<open>A tag and the value behind it.\<close>

definition write_tagged :: "'w NixWrite \<Rightarrow> RawLogMessageType \<Rightarrow> ('w \<Rightarrow> ('w, unit) awaited) \<Rightarrow> 'w \<Rightarrow> ('w, unit) awaited" where
  "write_tagged W tag body w = aw_bind (ser_raw_type W tag w) (\<lambda>w _. body w)"

definition ser_raw_log_message :: "('w, RawLogMessage) serializer" where
  "ser_raw_log_message W m w =
     (let new = 20 \<le> pv_minor (wr_version W w)
      in case m of
           RLast \<Rightarrow> ser_raw_type W TLast w
         | RError err \<Rightarrow> write_tagged W TError (ser_log_error W err) w
         | RNext msg \<Rightarrow> write_tagged W TNext (ser_bytes W msg) w
         | RRead len \<Rightarrow> write_tagged W TRead (ser_usize W len) w
         | RWrite buf \<Rightarrow> write_tagged W TWrite (ser_bytes W buf) w
         | RStartActivity act \<Rightarrow>
             if new then write_tagged W TStartActivity (ser_activity W act) w else write_tagged W TNext (ser_bytes W (ac_text act)) w
         | RStopActivity act \<Rightarrow> if new then write_tagged W TStopActivity (ser_stop_activity W act) w else Some (w, Inr ())
         | RResult res \<Rightarrow> if new then write_tagged W TResult (ser_activity_result W res) w else Some (w, Inr ()))"

definition de_raw_log_message ::
  "(u16 \<Rightarrow> Verbosity) \<Rightarrow> nat \<Rightarrow> nat \<Rightarrow> 'r NixRead \<Rightarrow> 'r \<Rightarrow> ('r, RawLogMessage option) awaited" where
  "de_raw_log_message other fsz tsz R = de_tagged (de_raw_type R) (\<lambda>tag r. case tag of
       TLast \<Rightarrow> Some (r, Inr RLast)
     | TError \<Rightarrow> aw_map RError (required (de_log_error other tsz R r))
     | TNext \<Rightarrow> aw_map RNext (required (de_bytes R r))
     | TRead \<Rightarrow> aw_map RRead (required (de_usize R r))
     | TWrite \<Rightarrow> aw_map RWrite (required (de_bytes R r))
     | TStartActivity \<Rightarrow> aw_map RStartActivity (required (de_activity other fsz R r))
     | TStopActivity \<Rightarrow> aw_map RStopActivity (required (de_stop_activity R r))
     | TResult \<Rightarrow> aw_map RResult (required (de_activity_result fsz R r)))"

datatype LogMessage = LMessage Message | LStartActivity Activity | LStopActivity StopActivity | LResult ActivityResult

definition log_message :: "bytes \<Rightarrow> LogMessage" where
  "log_message text = LMessage \<lparr>ms_level = VError, ms_text = text\<rparr>"

definition ser_log_message :: "('w, LogMessage) serializer" where
  "ser_log_message W m w =
     (let new = 20 \<le> pv_minor (wr_version W w)
      in case m of
           LMessage msg \<Rightarrow> write_tagged W TNext (ser_bytes W (ms_text msg)) w
         | LStartActivity act \<Rightarrow>
             if new then write_tagged W TStartActivity (ser_activity W act) w else write_tagged W TNext (ser_bytes W (ac_text act)) w
         | LStopActivity act \<Rightarrow> if new then write_tagged W TStopActivity (ser_u64 W (st_id act)) w else Some (w, Inr ())
         | LResult res \<Rightarrow> if new then write_tagged W TResult (ser_activity_result W res) w else Some (w, Inr ()))"

section \<open>What is carried\<close>

lemma enum_all: "v \<in> set verbosity_all" "t \<in> set activity_type_all" "u \<in> set result_type_all" "f \<in> set [FTInt, FTString]" "m \<in> set raw_type_all"
  subgoal by (cases v) (simp_all add: verbosity_all_def)
  subgoal by (cases t) (simp_all add: activity_type_all_def)
  subgoal by (cases u) (simp_all add: result_type_all_def)
  subgoal by (cases f) simp_all
  subgoal by (cases m) (simp_all add: raw_type_all_def)
  done

lemma enum_distinct: "distinct (map verbosity_code verbosity_all)" "distinct (map activity_type_code activity_type_all)"
  "distinct (map result_type_code result_type_all)" "distinct (map field_type_code [FTInt, FTString])" "distinct (map raw_type_code raw_type_all)"
  by (simp_all add: verbosity_all_def activity_type_all_def result_type_all_def raw_type_all_def STDERR_defs)

definition fields_ok :: "nat \<Rightarrow> nat \<Rightarrow> Field list \<Rightarrow> bool" where
  "fields_ok hi fsz fs \<longleftrightarrow> list_all (\<lambda>f. case f of FInt _ \<Rightarrow> True | FString s \<Rightarrow> length s \<le> hi) fs \<and> length fs < 2 ^ 64 \<and> length fs * fsz < 2 ^ 63"

definition activity_ok :: "nat \<Rightarrow> nat \<Rightarrow> Activity \<Rightarrow> bool" where
  "activity_ok hi fsz a \<longleftrightarrow> length (ac_text a) \<le> hi \<and> fields_ok hi fsz (ac_fields a)"

definition traces_ok :: "nat \<Rightarrow> nat \<Rightarrow> TraceLine list \<Rightarrow> bool" where
  "traces_ok hi tsz ts \<longleftrightarrow> list_all (\<lambda>t. length (tl_hint t) \<le> hi) ts \<and> length ts < 2 ^ 64 \<and> length ts * tsz < 2 ^ 63"

text \<open>What an error keeps depends on the version: its level and traces, or its exit status.\<close>

definition log_error_ok :: "nat \<Rightarrow> nat \<Rightarrow> u8 \<Rightarrow> LogError \<Rightarrow> bool" where
  "log_error_ok hi tsz minor e \<longleftrightarrow> length (le_msg e) \<le> hi \<and>
     (if 26 \<le> minor then le_exit_status e = default_exit_status \<and> traces_ok hi tsz (le_traces e)
      else le_level e = VError \<and> le_traces e = [])"

text \<open>What is left of an error at its reader, and which errors can be written: all within the limits of the format.\<close>

definition error_kept :: "u8 \<Rightarrow> LogError \<Rightarrow> LogError" where
  "error_kept minor e = (if 26 \<le> minor then e\<lparr>le_exit_status := default_exit_status\<rparr> else e\<lparr>le_level := VError, le_traces := []\<rparr>)"

definition error_fits :: "nat \<Rightarrow> nat \<Rightarrow> u8 \<Rightarrow> LogError \<Rightarrow> bool" where
  "error_fits hi tsz minor e \<longleftrightarrow> length (le_msg e) \<le> hi \<and> (26 \<le> minor \<longrightarrow> traces_ok hi tsz (le_traces e))"

lemma error_kept_ok: "error_fits hi tsz minor e \<Longrightarrow> log_error_ok hi tsz minor (error_kept minor e)"
  by (simp add: error_fits_def log_error_ok_def error_kept_def)

fun raw_ok :: "nat \<Rightarrow> nat \<Rightarrow> nat \<Rightarrow> u8 \<Rightarrow> RawLogMessage \<Rightarrow> bool" where
  "raw_ok hi fsz tsz minor RLast \<longleftrightarrow> True"
| "raw_ok hi fsz tsz minor (RError e) \<longleftrightarrow> log_error_ok hi tsz minor e"
| "raw_ok hi fsz tsz minor (RNext s) \<longleftrightarrow> length s \<le> hi"
| "raw_ok hi fsz tsz minor (RRead n) \<longleftrightarrow> n < 2 ^ 64"
| "raw_ok hi fsz tsz minor (RWrite s) \<longleftrightarrow> length s \<le> hi"
| "raw_ok hi fsz tsz minor (RStartActivity a) \<longleftrightarrow> activity_ok hi fsz a"
| "raw_ok hi fsz tsz minor (RStopActivity a) \<longleftrightarrow> True"
| "raw_ok hi fsz tsz minor (RResult a) \<longleftrightarrow> fields_ok hi fsz (ar_fields a)"

text \<open>What a log message is for its reader: a message loses its level.\<close>

primrec raw_of_log :: "LogMessage \<Rightarrow> RawLogMessage" where
  "raw_of_log (LMessage m) = RNext (ms_text m)"
| "raw_of_log (LStartActivity a) = RStartActivity a"
| "raw_of_log (LStopActivity a) = RStopActivity a"
| "raw_of_log (LResult a) = RResult a"

fun is_activity :: "RawLogMessage \<Rightarrow> bool" where
  "is_activity (RStartActivity _) \<longleftrightarrow> True"
| "is_activity (RStopActivity _) \<longleftrightarrow> True"
| "is_activity (RResult _) \<longleftrightarrow> True"
| "is_activity _ \<longleftrightarrow> False"

text \<open>What becomes of a log message: before version 20 an activity is only its text, and the others are dropped.\<close>

definition log_as_raw :: "u8 \<Rightarrow> LogMessage \<Rightarrow> RawLogMessage option" where
  "log_as_raw minor m =
     (if 20 \<le> minor then Some (raw_of_log m)
      else case m of
        LMessage msg \<Rightarrow> Some (RNext (ms_text msg))
      | LStartActivity act \<Rightarrow> Some (RNext (ac_text act))
      | _ \<Rightarrow> None)"

lemma log_as_raw:
  "ser_log_message W m w = (case log_as_raw (pv_minor (wr_version W w)) m of
     None \<Rightarrow> Some (w, Inr ()) | Some r \<Rightarrow> ser_raw_log_message W r w)"
  by (cases m) (simp_all add: log_as_raw_def ser_log_message_def ser_raw_log_message_def ser_stop_activity_def ser_into_def [abs_def])

lemma log_as_raw_new: "log_as_raw minor m = Some r \<Longrightarrow> 20 \<le> minor \<or> \<not> is_activity r"
  by (auto simp: log_as_raw_def split: if_splits LogMessage.splits)

context wire_env
begin

lemma carries_unit: "carries (ser_unit W) (de_unit R) (\<lambda>_. True)"
proof -
  have "value_reader rest good rerr (de_unit R) (\<lambda>d bs. bs = [])"
    by unfold_locales (auto simp: de_unit_def got_value_def)
  then show ?thesis unfolding carries_def sends_def ser_unit_def using sent_done [of I]
    by (intro exI [of _ "\<lambda>d bs. bs = []"]) simp
qed

lemma carries_code:
  assumes "carries ser de (\<lambda>_. True)" "distinct (map code all)" "\<And>v. v \<in> set all"
  shows "carries (ser_into code ser) (de_try_from (of_code code all) de) (\<lambda>_. True)"
  by (rule carries_try [OF assms(1)]) (simp add: of_code_code [OF assms(2,3)])

lemma carries_ignored:
  "carries (ser_ignored_zero W) (de_ignored_zero R) (\<lambda>_. True)" "carries (ser_ignored_one W) (de_ignored_one R) (\<lambda>_. True)"
  "carries (ser_ignored_true W) (de_ignored_true R) (\<lambda>_. True)"
  unfolding ser_ignored_zero_def de_ignored_zero_def ser_ignored_one_def de_ignored_one_def ser_ignored_true_def de_ignored_true_def
  by (rule carries_iso [OF carries_u64] carries_iso [OF carries_bool]; simp)+

lemma carries_verbosity: "carries (ser_verbosity W) (de_verbosity other R) (\<lambda>_. True)"
  unfolding ser_verbosity_def de_verbosity_def
  by (rule carries_iso [OF carries_u16]) (simp add: verbosity_from_def of_code_code [OF enum_distinct(1) enum_all(1)])

lemma carries_activity_type: "carries (ser_activity_type W) (de_activity_type R) (\<lambda>_. True)"
  unfolding ser_activity_type_def de_activity_type_def by (rule carries_code [OF carries_u16 enum_distinct(2) enum_all(2)])

lemma carries_result_type: "carries (ser_result_type W) (de_result_type R) (\<lambda>_. True)"
  unfolding ser_result_type_def de_result_type_def by (rule carries_code [OF carries_u16 enum_distinct(3) enum_all(3)])

lemma carries_field_type: "carries (ser_field_type W) (de_field_type R) (\<lambda>_. True)"
  unfolding ser_field_type_def de_field_type_def by (rule carries_code [OF carries_u16 enum_distinct(4) enum_all(4)])

lemma carries_raw_type: "carries (ser_raw_type W) (de_raw_type R) (\<lambda>_. True)"
  unfolding ser_raw_type_def de_raw_type_def by (rule carries_code [OF carries_u64 enum_distinct(5) enum_all(5)])

lemma carries_field: "carries (ser_field W) (de_field R) (\<lambda>f. case f of FInt _ \<Rightarrow> True | FString s \<Rightarrow> length s \<le> hi)"
  unfolding ser_field_def de_field_def
proof (rule carries_tagged [OF carries_field_type])
  fix t :: FieldType
  show "carries_elem (\<lambda>f w. case f of FInt v \<Rightarrow> ser_u64 W v w | FString s \<Rightarrow> ser_bytes W s w)
      (\<lambda>r. case t of FTInt \<Rightarrow> aw_map FInt (required (de_u64 R r)) | FTString \<Rightarrow> aw_map FString (required (de_bytes R r)))
      (\<lambda>v. (case v of FInt _ \<Rightarrow> True | FString s \<Rightarrow> length s \<le> hi) \<and> field_tag v = t)"
  proof (cases t)
    case FTInt
    show ?thesis unfolding FTInt FieldType.case
      by (rule carries_elem_map [OF carries_required [OF carries_u64]]) (auto split: Field.splits)
  next
    case FTString
    show ?thesis unfolding FTString FieldType.case
      by (rule carries_elem_map [OF carries_required [OF carries_bytes]]) (auto split: Field.splits)
  qed
qed simp

lemma carries_fields: "carries (ser_vec W (ser_field W)) (de_vec fsz R (de_field R)) (fields_ok hi fsz)"
  using carries_vec [OF carries_field] by (simp add: fields_ok_def [abs_def])

lemma carries_activity: "carries (ser_activity W) (de_activity other fsz R) (activity_ok hi fsz)"
  unfolding ser_activity_def de_activity_def
  by (rule carries_iso [OF carries_then [OF carries_u64 carries_then [OF carries_verbosity carries_then [OF carries_activity_type
        carries_then [OF carries_bytes carries_then [OF carries_fields carries_u64]]]]]]) (simp add: activity_ok_def)

lemma carries_stop_activity: "carries (ser_stop_activity W) (de_stop_activity R) (\<lambda>_. True)"
  unfolding ser_stop_activity_def de_stop_activity_def by (rule carries_iso [OF carries_u64]) simp

lemma carries_activity_result: "carries (ser_activity_result W) (de_activity_result fsz R) (\<lambda>a. fields_ok hi fsz (ar_fields a))"
  unfolding ser_activity_result_def de_activity_result_def
  by (rule carries_iso [OF carries_then [OF carries_u64 carries_then [OF carries_result_type carries_fields]]]) simp

lemma carries_trace_line: "carries (ser_trace_line W) (de_trace_line R) (\<lambda>t. length (tl_hint t) \<le> hi)"
  unfolding ser_trace_line_def de_trace_line_def
  by (rule carries_iso [OF carries_then [OF carries_ignored(1) carries_bytes]]) simp

lemma carries_traces: "carries (ser_vec W (ser_trace_line W)) (de_vec tsz R (de_trace_line R)) (traces_ok hi tsz)"
  using carries_vec [OF carries_trace_line] by (simp add: traces_ok_def [abs_def])

end

context store_env
begin

lemma carries_ignored_error_type: "carries (ser_ignored_error_type W) (de_ignored_error_type R) (\<lambda>_. True)"
  unfolding ser_ignored_error_type_def de_ignored_error_type_def
  by (rule carries_display) (simp add: short_text)

lemma carries_log_error: "carries (ser_log_error W) (de_log_error other tsz R) (log_error_ok hi tsz (pv_minor ver))"
proof -
  have m: "pv_minor ver \<le> 25 \<longleftrightarrow> \<not> 26 \<le> pv_minor ver" by (auto simp: word_le_nat_alt)
  show ?thesis unfolding ser_log_error_def de_log_error_def
    by (rule carries_iso [OF carries_versioned [OF carries_ignored_error_type carries_versioned [OF carries_verbosity
          carries_versioned [OF carries_ignored_error_type carries_then [OF carries_bytes carries_versioned [OF carries_u32
          carries_versioned [OF carries_ignored(1) carries_versioned [OF carries_traces carries_unit]]]]]]]])
      (auto simp: log_error_ok_def m split: if_splits)
qed

text \<open>The writer drops what its version does not keep, so an error is written as what is left of it.\<close>

lemma then_cong:
  assumes "carries ser1 de1 ok1" "I p w" "ok1 (fst v)" "fst v' = fst v" "\<And>q w. I q w \<Longrightarrow> ser2 (snd v) w = ser2 (snd v') w"
  shows "ser_then ser1 ser2 v w = ser_then ser1 ser2 v' w"
proof -
  obtain wire where "sends ser1 wire ok1" using assms(1) by (rule carriesE)
  then obtain bs w' x where x: "ser1 (fst v) w = Some (w', x)" "case x of Inl e \<Rightarrow> werr e | Inr _ \<Rightarrow> I (p @ bs) w'"
    using sendsD [of ser1 wire ok1 p w "fst v"] assms(2,3) unfolding sent_def by blast
  show ?thesis
  proof (cases x)
    case (Inl e)
    then show ?thesis using x(1) assms(4) by (simp add: ser_then_def)
  next
    case (Inr u)
    then show ?thesis using x assms(4) assms(5) [of "p @ bs" w'] by (simp add: ser_then_def)
  qed
qed

lemma versioned_cong:
  assumes "carries ser1 de1 ok1" "I p w" "version (pv_minor ver) \<Longrightarrow> ok1 (fst v) \<and> fst v' = fst v"
    and "\<And>q w. I q w \<Longrightarrow> ser2 (snd v) w = ser2 (snd v') w"
  shows "ser_versioned W version ser1 ser2 v w = ser_versioned W version ser1 ser2 v' w"
  using then_cong [where v = v and v' = v' and ?ser2.0 = ser2, OF assms(1,2) _ _ assms(4)] assms(2-4) writer_env [OF assms(2)]
  by (simp add: ser_versioned_def)

lemma ser_log_error_kept:
  assumes "I p w" "error_fits hi tsz (pv_minor ver) e"
  shows "ser_log_error W e w = ser_log_error W (error_kept (pv_minor ver) e) w"
proof -
  have m: "pv_minor ver \<le> 25 \<longleftrightarrow> \<not> 26 \<le> pv_minor ver" by (auto simp: word_le_nat_alt)
  show ?thesis unfolding ser_log_error_def ser_into_def
    by (rule versioned_cong [OF carries_ignored_error_type assms(1)] versioned_cong [OF carries_ignored_error_type]
          versioned_cong [OF carries_verbosity] then_cong [OF carries_bytes] versioned_cong [OF carries_u32]
          versioned_cong [OF carries_ignored(1)] versioned_cong [OF carries_traces];
        use assms(2) in \<open>auto simp: error_kept_def error_fits_def m\<close>)+
qed

lemma ser_raw_error_kept:
  assumes "I p w" "error_fits hi tsz (pv_minor ver) e"
  shows "ser_raw_log_message W (RError e) w = ser_raw_log_message W (RError (error_kept (pv_minor ver) e)) w"
proof -
  have "ser_then (ser_raw_type W) (ser_log_error W) (TError, e) w = ser_then (ser_raw_type W) (ser_log_error W) (TError, error_kept (pv_minor ver) e) w"
    using ser_log_error_kept [OF _ assms(2)] by (intro then_cong [OF carries_raw_type assms(1)]) simp_all
  then show ?thesis by (simp add: ser_raw_log_message_def write_tagged_def ser_then_def)
qed

text \<open>Where nothing is dropped the serialiser is a tag and a value.\<close>

definition raw_body :: "RawLogMessage \<Rightarrow> 'w \<Rightarrow> ('w, unit) awaited" where
  "raw_body m = (case m of
      RLast \<Rightarrow> (\<lambda>w. Some (w, Inr ()))
    | RError err \<Rightarrow> ser_log_error W err
    | RNext msg \<Rightarrow> ser_bytes W msg
    | RRead len \<Rightarrow> ser_usize W len
    | RWrite buf \<Rightarrow> ser_bytes W buf
    | RStartActivity act \<Rightarrow> ser_activity W act
    | RStopActivity act \<Rightarrow> ser_stop_activity W act
    | RResult res \<Rightarrow> ser_activity_result W res)"

lemma raw_tagged:
  "20 \<le> pv_minor (wr_version W w) \<or> \<not> is_activity m \<Longrightarrow>
     ser_raw_log_message W m w = ser_tagged (ser_raw_type W) raw_tag raw_body m w"
  by (cases m) (auto simp: ser_raw_log_message_def ser_tagged_def raw_body_def write_tagged_def Let_def aw_bind_def split: option.splits sum.splits)

lemmas raw_parts = carries_log_error carries_bytes carries_usize carries_activity carries_stop_activity carries_activity_result

lemma carries_raw_log_message:
  "carries (ser_raw_log_message W) (de_raw_log_message other fsz tsz R)
     (\<lambda>m. raw_ok hi fsz tsz (pv_minor ver) m \<and> (20 \<le> pv_minor ver \<or> \<not> is_activity m))"
proof -
  let ?ok = "\<lambda>m. raw_ok hi fsz tsz (pv_minor ver) m \<and> (20 \<le> pv_minor ver \<or> \<not> is_activity m)"
  have var: "carries_elem raw_body (\<lambda>r. aw_map C (required (de r))) (\<lambda>m. ?ok m \<and> raw_tag m = t)"
    if "carries ser de ok" "\<And>m. ?ok m \<Longrightarrow> raw_tag m = t \<Longrightarrow> \<exists>u. ok u \<and> m = C u \<and> raw_body m = ser u" for ser de ok and C :: "'a \<Rightarrow> _" and t
    by (rule carries_elem_map [OF carries_required [OF that(1)]]) (use that(2) in blast)
  have "carries (ser_tagged (ser_raw_type W) raw_tag raw_body) (de_raw_log_message other fsz tsz R) ?ok"
    unfolding de_raw_log_message_def
  proof (rule carries_tagged [OF carries_raw_type], goal_cases)
    case (1 t)
    show ?case
      by (cases t; simp only: RawLogMessageType.case; (rule raw_parts [THEN var] | rule carries_elem_return);
          auto simp: raw_body_def elim: raw_tag.elims)
  qed simp
  then obtain wire where w: "value_reader rest good rerr (de_raw_log_message other fsz tsz R) wire"
    "sends (ser_tagged (ser_raw_type W) raw_tag raw_body) wire ?ok" by (rule carriesE)
  have "sends (ser_raw_log_message W) wire ?ok"
    by (rule sends_cong [OF w(2)]) (use raw_tagged writer_env in \<open>metis (no_types, lifting)\<close>)
  with w(1) show ?thesis unfolding carries_def by blast
qed

end

end
