(* ===== verification/Messages.thy ===== *)
theory Messages
  imports Log_Wire
begin

text \<open>
  Requests and results of the daemon protocol (\<open>daemon_wire/types.rs\<close>, \<open>daemon_wire/types2.rs\<close>, \<open>types.rs\<close>, \<open>valid_path_info.rs\<close> and
  \<open>build_result.rs\<close> of \<open>harmonia-protocol\<close>): the records with their serialisers and decoders, in the order of
  the fields on the wire. The sizes of the types that are collected in vectors are the compiler's, hence a parameter (\<open>Layout\<close>). The fact: every
  request and every result within the limits of the wire format is carried (\<open>Message_Wire\<close>).
\<close>

record Layout =
  size_bytes :: nat
  size_derived_path :: nat
  size_signature :: nat
  size_realisation :: nat
  size_keyed_result :: nat

section \<open>Values\<close>

datatype Microseconds = Microseconds (micros: "64 word")

definition ser_microseconds :: "('w, Microseconds) serializer" where
  "ser_microseconds W = ser_into micros (ser_i64 W)"

definition de_microseconds :: "'r NixRead \<Rightarrow> 'r \<Rightarrow> ('r, Microseconds option) awaited" where
  "de_microseconds R = de_from Microseconds (de_i64 R)"

definition ser_optional_microseconds :: "('w, Microseconds option) serializer" where
  "ser_optional_microseconds W v w =
     (case v of
        Some m \<Rightarrow> aw_bind (wr_number W w 1) (\<lambda>w _. ser_microseconds W m w)
      | None \<Rightarrow> wr_number W w 0)"

definition de_optional_microseconds :: "'r NixRead \<Rightarrow> 'r \<Rightarrow> ('r, Microseconds option option) awaited" where
  "de_optional_microseconds R = de_bind (de_u8 R) (\<lambda>tag r.
     if tag = 0 then Some (r, Inr None)
     else if tag = 1 then aw_map Some (required (de_microseconds R r))
     else Some (r, Inl invalid_data))"

text \<open>\<open>Option<NonZero<i64>>\<close>: an option of a number that is not zero.\<close>

definition ser_optional_nonzero :: "('w, 64 word option) serializer" where
  "ser_optional_nonzero W v w = wr_number W w (case v of None \<Rightarrow> 0 | Some n \<Rightarrow> n)"

definition de_optional_nonzero :: "'r NixRead \<Rightarrow> 'r \<Rightarrow> ('r, 64 word option option) awaited" where
  "de_optional_nonzero R = de_from (\<lambda>n. if n = 0 then None else Some n) (de_i64 R)"

definition ser_base_store_path :: "Codecs \<Rightarrow> ('w, StorePath) serializer" where
  "ser_base_store_path cs = ser_display (path_display cs)"

definition de_base_store_path :: "Codecs \<Rightarrow> 'r NixRead \<Rightarrow> 'r \<Rightarrow> ('r, StorePath option) awaited" where
  "de_base_store_path cs = de_from_str (path_from_str cs)"

definition ser_optional_path :: "Codecs \<Rightarrow> ('w, StorePath option) serializer" where
  "ser_optional_path cs W = ser_optional_text W (ser_store_path cs W)"

definition de_optional_path :: "Codecs \<Rightarrow> 'r NixRead \<Rightarrow> 'r \<Rightarrow> ('r, StorePath option option) awaited" where
  "de_optional_path cs = de_optional_from_store_dir_str (from_store_dir_str cs)"

definition ser_optional_ca :: "Codecs \<Rightarrow> ('w, ContentAddress option) serializer" where
  "ser_optional_ca cs W = ser_optional_text W (ser_content_address cs W)"

definition de_optional_ca :: "Codecs \<Rightarrow> 'r NixRead \<Rightarrow> 'r \<Rightarrow> ('r, ContentAddress option option) awaited" where
  "de_optional_ca cs = de_optional_from_str (ca_from_str cs)"

datatype FileIngestionMethod = FFlat | FRecursive

primrec ingestion_code :: "FileIngestionMethod \<Rightarrow> u16" where
  "ingestion_code FFlat = 0" | "ingestion_code FRecursive = 1"

definition ser_ingestion :: "('w, FileIngestionMethod) serializer" where
  "ser_ingestion W = ser_into ingestion_code (ser_u16 W)"

definition de_ingestion :: "'r NixRead \<Rightarrow> 'r \<Rightarrow> ('r, FileIngestionMethod option) awaited" where
  "de_ingestion R = de_try_from (of_code ingestion_code [FFlat, FRecursive]) (de_u16 R)"

datatype BuildMode = BNormal | BRepair | BCheck

primrec build_mode_code :: "BuildMode \<Rightarrow> u16" where
  "build_mode_code BNormal = 0" | "build_mode_code BRepair = 1" | "build_mode_code BCheck = 2"

definition ser_build_mode :: "('w, BuildMode) serializer" where
  "ser_build_mode W = ser_into build_mode_code (ser_u16 W)"

definition de_build_mode :: "'r NixRead \<Rightarrow> 'r \<Rightarrow> ('r, BuildMode option) awaited" where
  "de_build_mode R = de_try_from (of_code build_mode_code [BNormal, BRepair, BCheck]) (de_u16 R)"

datatype GCAction = ReturnLive | ReturnDead | DeleteDead | DeleteSpecific

primrec gc_action_code :: "GCAction \<Rightarrow> u16" where
  "gc_action_code ReturnLive = 0" | "gc_action_code ReturnDead = 1" | "gc_action_code DeleteDead = 2" | "gc_action_code DeleteSpecific = 3"

definition ser_gc_action :: "('w, GCAction) serializer" where
  "ser_gc_action W = ser_into gc_action_code (ser_u16 W)"

definition de_gc_action :: "'r NixRead \<Rightarrow> 'r \<Rightarrow> ('r, GCAction option) awaited" where
  "de_gc_action R = de_try_from (of_code gc_action_code [ReturnLive, ReturnDead, DeleteDead, DeleteSpecific]) (de_u16 R)"

datatype TrustLevel = TUnknown | TTrusted | TNotTrusted

primrec trust_level_code :: "TrustLevel \<Rightarrow> u64" where
  "trust_level_code TUnknown = 0" | "trust_level_code TTrusted = 1" | "trust_level_code TNotTrusted = 2"

definition ser_trust_level :: "('w, TrustLevel) serializer" where
  "ser_trust_level W = ser_into trust_level_code (ser_u64 W)"

definition de_trust_level :: "'r NixRead \<Rightarrow> 'r \<Rightarrow> ('r, TrustLevel option) awaited" where
  "de_trust_level R = de_try_from (of_code trust_level_code [TUnknown, TTrusted, TNotTrusted]) (de_u64 R)"

section \<open>Records\<close>

record ClientOptions =
  co_keep_failed :: bool
  co_keep_going :: bool
  co_try_fallback :: bool
  co_verbosity :: Verbosity
  co_max_build_jobs :: u32
  co_max_silent_time :: "64 word"
  co_verbose_build :: Verbosity
  co_build_cores :: u32
  co_use_substitutes :: bool
  co_other_settings :: "(string \<times> bytes) list"

definition client_options_default :: ClientOptions where
  "client_options_default =
     \<lparr>co_keep_failed = False, co_keep_going = False, co_try_fallback = False, co_verbosity = VError, co_max_build_jobs = 1,
      co_max_silent_time = 0, co_verbose_build = VError, co_build_cores = 1, co_use_substitutes = True, co_other_settings = []\<rparr>"

definition ser_client_options :: "('w, ClientOptions) serializer" where
  "ser_client_options W = ser_into (\<lambda>c. (co_keep_failed c, co_keep_going c, co_try_fallback c, co_verbosity c, co_max_build_jobs c,
       co_max_silent_time c, (), co_verbose_build c, (), (), co_build_cores c, co_use_substitutes c, co_other_settings c))
     (ser_then (ser_bool W) (ser_then (ser_bool W) (ser_then (ser_bool W) (ser_then (ser_verbosity W) (ser_then (ser_u32 W)
       (ser_then (ser_i64 W) (ser_then (ser_ignored_true W) (ser_then (ser_verbosity W) (ser_then (ser_ignored_zero W)
         (ser_then (ser_ignored_zero W) (ser_then (ser_u32 W) (ser_then (ser_bool W) (ser_map W (ser_string W) (ser_bytes W))))))))))))))"

definition de_client_options :: "(u16 \<Rightarrow> Verbosity) \<Rightarrow> 'r NixRead \<Rightarrow> 'r \<Rightarrow> ('r, ClientOptions option) awaited" where
  "de_client_options other R = de_from (\<lambda>(keep_failed, keep_going, try_fallback, verbosity, max_build_jobs, max_silent_time, _, verbose_build,
         _, _, build_cores, use_substitutes, other_settings).
       \<lparr>co_keep_failed = keep_failed, co_keep_going = keep_going, co_try_fallback = try_fallback, co_verbosity = verbosity,
        co_max_build_jobs = max_build_jobs, co_max_silent_time = max_silent_time, co_verbose_build = verbose_build,
        co_build_cores = build_cores, co_use_substitutes = use_substitutes, co_other_settings = other_settings\<rparr>)
     (de_then (de_bool R) (de_then (de_bool R) (de_then (de_bool R) (de_then (de_verbosity other R) (de_then (de_u32 R)
       (de_then (de_i64 R) (de_then (de_ignored_true R) (de_then (de_verbosity other R) (de_then (de_ignored_zero R)
         (de_then (de_ignored_zero R) (de_then (de_u32 R) (de_then (de_bool R) (de_map R (de_string R) (de_bytes R))))))))))))))"

record UnkeyedValidPathInfo =
  vi_deriver :: "StorePath option"
  vi_nar_hash :: NarHash
  vi_references :: "StorePath list"
  vi_registration_time :: "64 word option"
  vi_nar_size :: u64
  vi_ultimate :: bool
  vi_signatures :: "Signature list"
  vi_ca :: "ContentAddress option"
  vi_store_dir :: StoreDir

definition ser_path_info :: "Codecs \<Rightarrow> ('w, UnkeyedValidPathInfo) serializer" where
  "ser_path_info cs W = ser_into (\<lambda>i. (vi_deriver i, vi_nar_hash i, vi_references i, vi_registration_time i, vi_nar_size i, vi_ultimate i,
       vi_signatures i, vi_ca i, vi_store_dir i))
     (ser_then (ser_optional_path cs W) (ser_then (ser_nar_hash W) (ser_then (ser_set W (ser_store_path cs W)) (ser_then (ser_optional_nonzero W)
       (ser_then (ser_u64 W) (ser_then (ser_bool W) (ser_then (ser_set W (ser_signature cs W)) (ser_then (ser_optional_ca cs W)
         (ser_store_dir W)))))))))"

definition de_path_info :: "Codecs \<Rightarrow> 'r NixRead \<Rightarrow> 'r \<Rightarrow> ('r, UnkeyedValidPathInfo option) awaited" where
  "de_path_info cs R = de_from (\<lambda>(deriver, nar_hash, references, registration_time, nar_size, ultimate, sigs, ca, dir).
       \<lparr>vi_deriver = deriver, vi_nar_hash = nar_hash, vi_references = references, vi_registration_time = registration_time,
        vi_nar_size = nar_size, vi_ultimate = ultimate, vi_signatures = sigs, vi_ca = ca, vi_store_dir = dir\<rparr>)
     (de_then (de_optional_path cs R) (de_then (de_nar_hash cs R) (de_then (de_set R (de_store_path cs R)) (de_then (de_optional_nonzero R)
       (de_then (de_u64 R) (de_then (de_bool R) (de_then (de_set R (de_signature cs R)) (de_then (de_optional_ca cs R)
         (de_store_dir R)))))))))"

record ValidPathInfo =
  vp_path :: StorePath
  vp_info :: UnkeyedValidPathInfo

definition ser_valid_path_info :: "Codecs \<Rightarrow> ('w, ValidPathInfo) serializer" where
  "ser_valid_path_info cs W = ser_into (\<lambda>v. (vp_path v, vp_info v)) (ser_then (ser_store_path cs W) (ser_path_info cs W))"

definition de_valid_path_info :: "Codecs \<Rightarrow> 'r NixRead \<Rightarrow> 'r \<Rightarrow> ('r, ValidPathInfo option) awaited" where
  "de_valid_path_info cs R = de_from (\<lambda>(p, i). \<lparr>vp_path = p, vp_info = i\<rparr>) (de_then (de_store_path cs R) (de_path_info cs R))"

record UnkeyedSubstitutablePathInfo =
  si_deriver :: "StorePath option"
  si_references :: "StorePath list"
  si_download_size :: u64
  si_nar_size :: u64

definition ser_substitutable :: "Codecs \<Rightarrow> ('w, UnkeyedSubstitutablePathInfo) serializer" where
  "ser_substitutable cs W = ser_into (\<lambda>i. (si_deriver i, si_references i, si_download_size i, si_nar_size i))
     (ser_then (ser_optional_path cs W) (ser_then (ser_set W (ser_store_path cs W)) (ser_then (ser_u64 W) (ser_u64 W))))"

definition de_substitutable :: "Codecs \<Rightarrow> 'r NixRead \<Rightarrow> 'r \<Rightarrow> ('r, UnkeyedSubstitutablePathInfo option) awaited" where
  "de_substitutable cs R = de_from (\<lambda>(deriver, refs, dsize, nsize).
       \<lparr>si_deriver = deriver, si_references = refs, si_download_size = dsize, si_nar_size = nsize\<rparr>)
     (de_then (de_optional_path cs R) (de_then (de_set R (de_store_path cs R)) (de_then (de_u64 R) (de_u64 R))))"

record AddToStoreRequest =
  as_name :: string
  as_cam :: ContentAddressMethodAlgorithm
  as_refs :: "StorePath list"
  as_repair :: bool

definition ser_add_to_store :: "Codecs \<Rightarrow> ('w, AddToStoreRequest) serializer" where
  "ser_add_to_store cs W = ser_into (\<lambda>q. (as_name q, as_cam q, as_refs q, as_repair q))
     (ser_then (ser_string W) (ser_then (ser_method_algorithm W) (ser_then (ser_set W (ser_store_path cs W)) (ser_bool W))))"

definition de_add_to_store :: "Codecs \<Rightarrow> 'r NixRead \<Rightarrow> 'r \<Rightarrow> ('r, AddToStoreRequest option) awaited" where
  "de_add_to_store cs R = de_from (\<lambda>(name, cam, refs, repair). \<lparr>as_name = name, as_cam = cam, as_refs = refs, as_repair = repair\<rparr>)
     (de_then (de_string R) (de_then (de_method_algorithm R) (de_then (de_set R (de_store_path cs R)) (de_bool R))))"

record BuildPathsRequest =
  bp_paths :: "DerivedPath list"
  bp_mode :: BuildMode

definition ser_build_paths :: "Codecs \<Rightarrow> ('w, BuildPathsRequest) serializer" where
  "ser_build_paths cs W = ser_into (\<lambda>q. (bp_paths q, bp_mode q)) (ser_then (ser_vec W (ser_derived_path cs W)) (ser_build_mode W))"

definition de_build_paths :: "Codecs \<Rightarrow> Layout \<Rightarrow> 'r NixRead \<Rightarrow> 'r \<Rightarrow> ('r, BuildPathsRequest option) awaited" where
  "de_build_paths cs L R = de_from (\<lambda>(paths, mode). \<lparr>bp_paths = paths, bp_mode = mode\<rparr>)
     (de_then (de_vec (size_derived_path L) R (de_derived_path cs R)) (de_build_mode R))"

record CollectGarbageRequest =
  cg_action :: GCAction
  cg_paths_to_delete :: "StorePath list"
  cg_ignore_liveness :: bool
  cg_max_freed :: u64

definition ser_collect_garbage :: "Codecs \<Rightarrow> ('w, CollectGarbageRequest) serializer" where
  "ser_collect_garbage cs W = ser_into (\<lambda>q. (cg_action q, cg_paths_to_delete q, cg_ignore_liveness q, cg_max_freed q, (), (), ()))
     (ser_then (ser_gc_action W) (ser_then (ser_set W (ser_store_path cs W)) (ser_then (ser_bool W) (ser_then (ser_u64 W)
       (ser_then (ser_ignored_zero W) (ser_then (ser_ignored_zero W) (ser_ignored_zero W)))))))"

definition de_collect_garbage :: "Codecs \<Rightarrow> 'r NixRead \<Rightarrow> 'r \<Rightarrow> ('r, CollectGarbageRequest option) awaited" where
  "de_collect_garbage cs R = de_from (\<lambda>(action, paths, ignore, max_freed, _).
       \<lparr>cg_action = action, cg_paths_to_delete = paths, cg_ignore_liveness = ignore, cg_max_freed = max_freed\<rparr>)
     (de_then (de_gc_action R) (de_then (de_set R (de_store_path cs R)) (de_then (de_bool R) (de_then (de_u64 R)
       (de_then (de_ignored_zero R) (de_then (de_ignored_zero R) (de_ignored_zero R)))))))"

record CollectGarbageResponse =
  cr_paths_deleted :: "bytes list"
  cr_bytes_freed :: u64

definition ser_collect_response :: "('w, CollectGarbageResponse) serializer" where
  "ser_collect_response W = ser_into (\<lambda>q. (cr_paths_deleted q, cr_bytes_freed q, ()))
     (ser_then (ser_vec W (ser_bytes W)) (ser_then (ser_u64 W) (ser_ignored_zero W)))"

definition de_collect_response :: "Layout \<Rightarrow> 'r NixRead \<Rightarrow> 'r \<Rightarrow> ('r, CollectGarbageResponse option) awaited" where
  "de_collect_response L R = de_from (\<lambda>(paths, freed, _). \<lparr>cr_paths_deleted = paths, cr_bytes_freed = freed\<rparr>)
     (de_then (de_vec (size_bytes L) R (de_bytes R)) (de_then (de_u64 R) (de_ignored_zero R)))"

record QueryValidPathsRequest =
  qv_paths :: "StorePath list"
  qv_substitute :: bool

definition ser_query_valid_paths :: "Codecs \<Rightarrow> ('w, QueryValidPathsRequest) serializer" where
  "ser_query_valid_paths cs W = ser_into (\<lambda>q. (qv_paths q, qv_substitute q)) (ser_then (ser_set W (ser_store_path cs W)) (ser_bool W))"

definition de_query_valid_paths :: "Codecs \<Rightarrow> 'r NixRead \<Rightarrow> 'r \<Rightarrow> ('r, QueryValidPathsRequest option) awaited" where
  "de_query_valid_paths cs R = de_from (\<lambda>(paths, subst). \<lparr>qv_paths = paths, qv_substitute = subst\<rparr>)
     (de_then (de_set R (de_store_path cs R)) (de_bool R))"

record VerifyStoreRequest =
  vs_check_contents :: bool
  vs_repair :: bool

definition ser_verify_store :: "('w, VerifyStoreRequest) serializer" where
  "ser_verify_store W = ser_into (\<lambda>q. (vs_check_contents q, vs_repair q)) (ser_then (ser_bool W) (ser_bool W))"

definition de_verify_store :: "'r NixRead \<Rightarrow> 'r \<Rightarrow> ('r, VerifyStoreRequest option) awaited" where
  "de_verify_store R = de_from (\<lambda>(c, q). \<lparr>vs_check_contents = c, vs_repair = q\<rparr>) (de_then (de_bool R) (de_bool R))"

record 'j BuildDerivationRequest =
  bd_drv :: "StorePath \<times> 'j BasicDerivation"
  bd_mode :: BuildMode

definition ser_build_derivation :: "Codecs \<Rightarrow> ('m, 'd) Crates \<Rightarrow> ('w, 'j BuildDerivationRequest) serializer" where
  "ser_build_derivation cs K W = ser_into (\<lambda>q. (bd_drv q, bd_mode q)) (ser_then (ser_basic_derivation cs K W) (ser_build_mode W))"

definition de_build_derivation :: "Codecs \<Rightarrow> Layout \<Rightarrow> 'r NixRead \<Rightarrow> 'r \<Rightarrow> ('r, 'j BuildDerivationRequest option) awaited" where
  "de_build_derivation cs L R = de_from (\<lambda>(drv, mode). \<lparr>bd_drv = drv, bd_mode = mode\<rparr>)
     (de_then (de_basic_derivation cs (size_bytes L) R) (de_build_mode R))"

record AddSignaturesRequest =
  sr_path :: StorePath
  sr_signatures :: "Signature list"

definition ser_add_signatures :: "Codecs \<Rightarrow> ('w, AddSignaturesRequest) serializer" where
  "ser_add_signatures cs W = ser_into (\<lambda>q. (sr_path q, sr_signatures q)) (ser_then (ser_store_path cs W) (ser_vec W (ser_signature cs W)))"

definition de_add_signatures :: "Codecs \<Rightarrow> Layout \<Rightarrow> 'r NixRead \<Rightarrow> 'r \<Rightarrow> ('r, AddSignaturesRequest option) awaited" where
  "de_add_signatures cs L R = de_from (\<lambda>(p, sigs). \<lparr>sr_path = p, sr_signatures = sigs\<rparr>)
     (de_then (de_store_path cs R) (de_vec (size_signature L) R (de_signature cs R)))"

record AddToStoreNarRequest =
  an_path_info :: ValidPathInfo
  an_repair :: bool
  an_dont_check_sigs :: bool

definition ser_add_to_store_nar :: "Codecs \<Rightarrow> ('w, AddToStoreNarRequest) serializer" where
  "ser_add_to_store_nar cs W = ser_into (\<lambda>q. (an_path_info q, an_repair q, an_dont_check_sigs q))
     (ser_then (ser_valid_path_info cs W) (ser_then (ser_bool W) (ser_bool W)))"

definition de_add_to_store_nar :: "Codecs \<Rightarrow> 'r NixRead \<Rightarrow> 'r \<Rightarrow> ('r, AddToStoreNarRequest option) awaited" where
  "de_add_to_store_nar cs R = de_from (\<lambda>(i, q, c). \<lparr>an_path_info = i, an_repair = q, an_dont_check_sigs = c\<rparr>)
     (de_then (de_valid_path_info cs R) (de_then (de_bool R) (de_bool R)))"

record QueryMissingResult =
  qm_will_build :: "StorePath list"
  qm_will_substitute :: "StorePath list"
  qm_unknown :: "StorePath list"
  qm_download_size :: u64
  qm_nar_size :: u64

definition ser_query_missing :: "Codecs \<Rightarrow> ('w, QueryMissingResult) serializer" where
  "ser_query_missing cs W = ser_into (\<lambda>q. (qm_will_build q, qm_will_substitute q, qm_unknown q, qm_download_size q, qm_nar_size q))
     (ser_then (ser_set W (ser_store_path cs W)) (ser_then (ser_set W (ser_store_path cs W)) (ser_then (ser_set W (ser_store_path cs W))
       (ser_then (ser_u64 W) (ser_u64 W)))))"

definition de_query_missing :: "Codecs \<Rightarrow> 'r NixRead \<Rightarrow> 'r \<Rightarrow> ('r, QueryMissingResult option) awaited" where
  "de_query_missing cs R = de_from (\<lambda>(b, s, u, d, n).
       \<lparr>qm_will_build = b, qm_will_substitute = s, qm_unknown = u, qm_download_size = d, qm_nar_size = n\<rparr>)
     (de_then (de_set R (de_store_path cs R)) (de_then (de_set R (de_store_path cs R)) (de_then (de_set R (de_store_path cs R))
       (de_then (de_u64 R) (de_u64 R)))))"

record AddMultipleToStoreRequest =
  am_repair :: bool
  am_dont_check_sigs :: bool

definition ser_add_multiple :: "('w, AddMultipleToStoreRequest) serializer" where
  "ser_add_multiple W = ser_into (\<lambda>q. (am_repair q, am_dont_check_sigs q)) (ser_then (ser_bool W) (ser_bool W))"

definition de_add_multiple :: "'r NixRead \<Rightarrow> 'r \<Rightarrow> ('r, AddMultipleToStoreRequest option) awaited" where
  "de_add_multiple R = de_from (\<lambda>(q, c). \<lparr>am_repair = q, am_dont_check_sigs = c\<rparr>) (de_then (de_bool R) (de_bool R))"

record AddPermRootRequest =
  pr_store_path :: StorePath
  pr_gc_root :: bytes

definition ser_add_perm_root :: "Codecs \<Rightarrow> ('w, AddPermRootRequest) serializer" where
  "ser_add_perm_root cs W = ser_into (\<lambda>q. (pr_store_path q, pr_gc_root q)) (ser_then (ser_store_path cs W) (ser_bytes W))"

definition de_add_perm_root :: "Codecs \<Rightarrow> 'r NixRead \<Rightarrow> 'r \<Rightarrow> ('r, AddPermRootRequest option) awaited" where
  "de_add_perm_root cs R = de_from (\<lambda>(p, g). \<lparr>pr_store_path = p, pr_gc_root = g\<rparr>) (de_then (de_store_path cs R) (de_bytes R))"

section \<open>Build results\<close>

datatype SuccessStatus = Built | Substituted | AlreadyValid | ResolvesToAlreadyValid

primrec success_code :: "SuccessStatus \<Rightarrow> u16" where
  "success_code Built = 0" | "success_code Substituted = 1" | "success_code AlreadyValid = 2" | "success_code ResolvesToAlreadyValid = 13"

definition success_all :: "SuccessStatus list" where
  "success_all = [Built, Substituted, AlreadyValid, ResolvesToAlreadyValid]"

datatype FailureStatus =
    PermanentFailure | InputRejected | OutputRejected | TransientFailure | CachedFailure | TimedOut | MiscFailure | DependencyFailed
  | LogLimitExceeded | NotDeterministic | NoSubstituters

primrec failure_code :: "FailureStatus \<Rightarrow> u16" where
  "failure_code PermanentFailure = 3"
| "failure_code InputRejected = 4"
| "failure_code OutputRejected = 5"
| "failure_code TransientFailure = 6"
| "failure_code CachedFailure = 7"
| "failure_code TimedOut = 8"
| "failure_code MiscFailure = 9"
| "failure_code DependencyFailed = 10"
| "failure_code LogLimitExceeded = 11"
| "failure_code NotDeterministic = 12"
| "failure_code NoSubstituters = 14"

definition failure_all :: "FailureStatus list" where
  "failure_all = [PermanentFailure, InputRejected, OutputRejected, TransientFailure, CachedFailure, TimedOut, MiscFailure, DependencyFailed,
     LogLimitExceeded, NotDeterministic, NoSubstituters]"

record BuildResultSuccess =
  bs_status :: SuccessStatus
  bs_built_outputs :: "(OutputName \<times> UnkeyedRealisation) list"

record BuildResultFailure =
  bf_status :: FailureStatus
  bf_error_msg :: bytes
  bf_is_non_deterministic :: bool

datatype BuildResultInner = BSuccess BuildResultSuccess | BFailure BuildResultFailure

record BuildResult =
  br_inner :: BuildResultInner
  br_times_built :: u32
  br_start_time :: "64 word"
  br_stop_time :: "64 word"
  br_cpu_user :: "Microseconds option"
  br_cpu_system :: "Microseconds option"

definition flat_inner :: "BuildResultInner \<Rightarrow> u16 \<times> bytes \<times> bool \<times> (OutputName \<times> UnkeyedRealisation) list" where
  "flat_inner i = (case i of
      BSuccess s \<Rightarrow> (success_code (bs_status s), [], False, bs_built_outputs s)
    | BFailure f \<Rightarrow> (failure_code (bf_status f), bf_error_msg f, bf_is_non_deterministic f, []))"

definition ser_build_result :: "Codecs \<Rightarrow> ('w, BuildResult) serializer" where
  "ser_build_result cs W = ser_into (\<lambda>b. let (status_raw, error_msg, non_det, outputs) = flat_inner (br_inner b)
       in (status_raw, error_msg, br_times_built b, non_det, br_start_time b, br_stop_time b, br_cpu_user b, br_cpu_system b, outputs))
     (ser_then (ser_u16 W) (ser_then (ser_bytes W) (ser_then (ser_u32 W) (ser_then (ser_bool W) (ser_then (ser_i64 W) (ser_then (ser_i64 W)
       (ser_then (ser_optional_microseconds W) (ser_then (ser_optional_microseconds W)
         (ser_map W (ser_output_name W) (ser_unkeyed_realisation cs W))))))))))"

definition inner_of :: "u16 \<Rightarrow> bytes \<Rightarrow> bool \<Rightarrow> (OutputName \<times> UnkeyedRealisation) list \<Rightarrow> unit + BuildResultInner" where
  "inner_of status_raw error_msg non_det outputs =
     (case of_code success_code success_all status_raw of
        Inr status \<Rightarrow> Inr (BSuccess \<lparr>bs_status = status, bs_built_outputs = outputs\<rparr>)
      | Inl _ \<Rightarrow>
     (case of_code failure_code failure_all status_raw of
        Inr status \<Rightarrow> Inr (BFailure \<lparr>bf_status = status, bf_error_msg = error_msg, bf_is_non_deterministic = non_det\<rparr>)
      | Inl _ \<Rightarrow> Inl ()))"

definition de_build_result :: "Codecs \<Rightarrow> 'r NixRead \<Rightarrow> 'r \<Rightarrow> ('r, BuildResult option) awaited" where
  "de_build_result cs R = de_try_from (\<lambda>(status_raw, error_msg, times_built, non_det, start_time, stop_time, cpu_user, cpu_system, outputs).
       result_map (\<lambda>inner. \<lparr>br_inner = inner, br_times_built = times_built, br_start_time = start_time, br_stop_time = stop_time,
         br_cpu_user = cpu_user, br_cpu_system = cpu_system\<rparr>) (inner_of status_raw error_msg non_det outputs))
     (de_then (de_u16 R) (de_then (de_bytes R) (de_then (de_u32 R) (de_then (de_bool R) (de_then (de_i64 R) (de_then (de_i64 R)
       (de_then (de_optional_microseconds R) (de_then (de_optional_microseconds R)
         (de_map R (de_output_name R) (de_unkeyed_realisation cs R))))))))))"

record KeyedBuildResult =
  kb_path :: DerivedPath
  kb_result :: BuildResult

definition ser_keyed_result :: "Codecs \<Rightarrow> ('w, KeyedBuildResult) serializer" where
  "ser_keyed_result cs W = ser_into (\<lambda>k. (kb_path k, kb_result k)) (ser_then (ser_derived_path cs W) (ser_build_result cs W))"

definition de_keyed_result :: "Codecs \<Rightarrow> 'r NixRead \<Rightarrow> 'r \<Rightarrow> ('r, KeyedBuildResult option) awaited" where
  "de_keyed_result cs R = de_from (\<lambda>(p, b). \<lparr>kb_path = p, kb_result = b\<rparr>) (de_then (de_derived_path cs R) (de_build_result cs R))"

section \<open>Requests\<close>

datatype Operation =
    OpIsValidPath | OpQueryReferrers | OpAddToStore | OpBuildPaths | OpEnsurePath | OpAddTempRoot | OpAddIndirectRoot | OpFindRoots
  | OpSetOptions | OpCollectGarbage | OpQueryAllValidPaths | OpQueryPathInfo | OpQueryPathFromHashPart | OpQueryValidPaths
  | OpQuerySubstitutablePaths | OpQueryValidDerivers | OpOptimiseStore | OpVerifyStore | OpBuildDerivation | OpAddSignatures
  | OpNarFromPath | OpAddToStoreNar | OpQueryMissing | OpQueryDerivationOutputMap | OpRegisterDrvOutput | OpQueryRealisation
  | OpAddMultipleToStore | OpAddBuildLog | OpBuildPathsWithResults | OpAddPermRoot

primrec operation_code :: "Operation \<Rightarrow> u64" where
  "operation_code OpIsValidPath = 1"
| "operation_code OpQueryReferrers = 6"
| "operation_code OpAddToStore = 7"
| "operation_code OpBuildPaths = 9"
| "operation_code OpEnsurePath = 10"
| "operation_code OpAddTempRoot = 11"
| "operation_code OpAddIndirectRoot = 12"
| "operation_code OpFindRoots = 14"
| "operation_code OpSetOptions = 19"
| "operation_code OpCollectGarbage = 20"
| "operation_code OpQueryAllValidPaths = 23"
| "operation_code OpQueryPathInfo = 26"
| "operation_code OpQueryPathFromHashPart = 29"
| "operation_code OpQueryValidPaths = 31"
| "operation_code OpQuerySubstitutablePaths = 32"
| "operation_code OpQueryValidDerivers = 33"
| "operation_code OpOptimiseStore = 34"
| "operation_code OpVerifyStore = 35"
| "operation_code OpBuildDerivation = 36"
| "operation_code OpAddSignatures = 37"
| "operation_code OpNarFromPath = 38"
| "operation_code OpAddToStoreNar = 39"
| "operation_code OpQueryMissing = 40"
| "operation_code OpQueryDerivationOutputMap = 41"
| "operation_code OpRegisterDrvOutput = 42"
| "operation_code OpQueryRealisation = 43"
| "operation_code OpAddMultipleToStore = 44"
| "operation_code OpAddBuildLog = 45"
| "operation_code OpBuildPathsWithResults = 46"
| "operation_code OpAddPermRoot = 47"

definition operation_all :: "Operation list" where
  "operation_all = [OpIsValidPath, OpQueryReferrers, OpAddToStore, OpBuildPaths, OpEnsurePath, OpAddTempRoot, OpAddIndirectRoot, OpFindRoots
     , OpSetOptions, OpCollectGarbage, OpQueryAllValidPaths, OpQueryPathInfo, OpQueryPathFromHashPart, OpQueryValidPaths
     , OpQuerySubstitutablePaths, OpQueryValidDerivers, OpOptimiseStore, OpVerifyStore, OpBuildDerivation, OpAddSignatures
     , OpNarFromPath, OpAddToStoreNar, OpQueryMissing, OpQueryDerivationOutputMap, OpRegisterDrvOutput, OpQueryRealisation
     , OpAddMultipleToStore, OpAddBuildLog, OpBuildPathsWithResults, OpAddPermRoot]"

definition ser_operation :: "('w, Operation) serializer" where
  "ser_operation W = ser_into operation_code (ser_u64 W)"

definition de_operation :: "'r NixRead \<Rightarrow> 'r \<Rightarrow> ('r, Operation option) awaited" where
  "de_operation R = de_try_from (of_code operation_code operation_all) (de_u64 R)"

datatype 'j Request =
    IsValidPath StorePath
  | QueryReferrers StorePath
  | AddToStore AddToStoreRequest
  | BuildPaths BuildPathsRequest
  | EnsurePath StorePath
  | AddTempRoot StorePath
  | AddIndirectRoot bytes
  | FindRoots
  | SetOptions ClientOptions
  | CollectGarbage CollectGarbageRequest
  | QueryAllValidPaths
  | QueryPathInfo StorePath
  | QueryPathFromHashPart StorePathHash
  | QueryValidPaths QueryValidPathsRequest
  | QuerySubstitutablePaths "StorePath list"
  | QueryValidDerivers StorePath
  | OptimiseStore
  | VerifyStore VerifyStoreRequest
  | BuildDerivation "'j BuildDerivationRequest"
  | AddSignatures AddSignaturesRequest
  | NarFromPath StorePath
  | AddToStoreNar AddToStoreNarRequest
  | QueryMissing "DerivedPath list"
  | QueryDerivationOutputMap StorePath
  | RegisterDrvOutput Realisation
  | QueryRealisation DrvOutput
  | AddMultipleToStore AddMultipleToStoreRequest
  | AddBuildLog StorePath
  | BuildPathsWithResults BuildPathsRequest
  | AddPermRoot AddPermRootRequest

fun request_operation :: "'j Request \<Rightarrow> Operation" where
  "request_operation (IsValidPath _) = OpIsValidPath"
| "request_operation (QueryReferrers _) = OpQueryReferrers"
| "request_operation (AddToStore _) = OpAddToStore"
| "request_operation (BuildPaths _) = OpBuildPaths"
| "request_operation (EnsurePath _) = OpEnsurePath"
| "request_operation (AddTempRoot _) = OpAddTempRoot"
| "request_operation (AddIndirectRoot _) = OpAddIndirectRoot"
| "request_operation FindRoots = OpFindRoots"
| "request_operation (SetOptions _) = OpSetOptions"
| "request_operation (CollectGarbage _) = OpCollectGarbage"
| "request_operation QueryAllValidPaths = OpQueryAllValidPaths"
| "request_operation (QueryPathInfo _) = OpQueryPathInfo"
| "request_operation (QueryPathFromHashPart _) = OpQueryPathFromHashPart"
| "request_operation (QueryValidPaths _) = OpQueryValidPaths"
| "request_operation (QuerySubstitutablePaths _) = OpQuerySubstitutablePaths"
| "request_operation (QueryValidDerivers _) = OpQueryValidDerivers"
| "request_operation OptimiseStore = OpOptimiseStore"
| "request_operation (VerifyStore _) = OpVerifyStore"
| "request_operation (BuildDerivation _) = OpBuildDerivation"
| "request_operation (AddSignatures _) = OpAddSignatures"
| "request_operation (NarFromPath _) = OpNarFromPath"
| "request_operation (AddToStoreNar _) = OpAddToStoreNar"
| "request_operation (QueryMissing _) = OpQueryMissing"
| "request_operation (QueryDerivationOutputMap _) = OpQueryDerivationOutputMap"
| "request_operation (RegisterDrvOutput _) = OpRegisterDrvOutput"
| "request_operation (QueryRealisation _) = OpQueryRealisation"
| "request_operation (AddMultipleToStore _) = OpAddMultipleToStore"
| "request_operation (AddBuildLog _) = OpAddBuildLog"
| "request_operation (BuildPathsWithResults _) = OpBuildPathsWithResults"
| "request_operation (AddPermRoot _) = OpAddPermRoot"

fun ser_request_body :: "Codecs \<Rightarrow> ('m, 'd) Crates \<Rightarrow> 'w NixWrite \<Rightarrow> 'j Request \<Rightarrow> 'w \<Rightarrow> ('w, unit) awaited" where
  "ser_request_body cs K W (IsValidPath x) = ser_store_path cs W x"
| "ser_request_body cs K W (QueryReferrers x) = ser_store_path cs W x"
| "ser_request_body cs K W (AddToStore x) = ser_add_to_store cs W x"
| "ser_request_body cs K W (BuildPaths x) = ser_build_paths cs W x"
| "ser_request_body cs K W (EnsurePath x) = ser_store_path cs W x"
| "ser_request_body cs K W (AddTempRoot x) = ser_store_path cs W x"
| "ser_request_body cs K W (AddIndirectRoot x) = ser_bytes W x"
| "ser_request_body cs K W FindRoots = (\<lambda>w. Some (w, Inr ()))"
| "ser_request_body cs K W (SetOptions x) = ser_client_options W x"
| "ser_request_body cs K W (CollectGarbage x) = ser_collect_garbage cs W x"
| "ser_request_body cs K W QueryAllValidPaths = (\<lambda>w. Some (w, Inr ()))"
| "ser_request_body cs K W (QueryPathInfo x) = ser_store_path cs W x"
| "ser_request_body cs K W (QueryPathFromHashPart x) = ser_store_path_hash cs W x"
| "ser_request_body cs K W (QueryValidPaths x) = ser_query_valid_paths cs W x"
| "ser_request_body cs K W (QuerySubstitutablePaths x) = ser_set W (ser_store_path cs W) x"
| "ser_request_body cs K W (QueryValidDerivers x) = ser_store_path cs W x"
| "ser_request_body cs K W OptimiseStore = (\<lambda>w. Some (w, Inr ()))"
| "ser_request_body cs K W (VerifyStore x) = ser_verify_store W x"
| "ser_request_body cs K W (BuildDerivation x) = ser_build_derivation cs K W x"
| "ser_request_body cs K W (AddSignatures x) = ser_add_signatures cs W x"
| "ser_request_body cs K W (NarFromPath x) = ser_store_path cs W x"
| "ser_request_body cs K W (AddToStoreNar x) = ser_add_to_store_nar cs W x"
| "ser_request_body cs K W (QueryMissing x) = ser_vec W (ser_derived_path cs W) x"
| "ser_request_body cs K W (QueryDerivationOutputMap x) = ser_store_path cs W x"
| "ser_request_body cs K W (RegisterDrvOutput x) = ser_realisation cs W x"
| "ser_request_body cs K W (QueryRealisation x) = ser_drv_output cs W x"
| "ser_request_body cs K W (AddMultipleToStore x) = ser_add_multiple W x"
| "ser_request_body cs K W (AddBuildLog x) = ser_base_store_path cs W x"
| "ser_request_body cs K W (BuildPathsWithResults x) = ser_build_paths cs W x"
| "ser_request_body cs K W (AddPermRoot x) = ser_add_perm_root cs W x"

definition ser_request :: "Codecs \<Rightarrow> ('m, 'd) Crates \<Rightarrow> ('w, 'j Request) serializer" where
  "ser_request cs K W = ser_tagged (ser_operation W) request_operation (ser_request_body cs K W)"

primrec de_request_variant ::
  "Codecs \<Rightarrow> Layout \<Rightarrow> (u16 \<Rightarrow> Verbosity) \<Rightarrow> 'r NixRead \<Rightarrow> Operation \<Rightarrow> 'r \<Rightarrow> ('r, 'j Request) awaited" where
  "de_request_variant cs L other R OpIsValidPath = (\<lambda>r. aw_map IsValidPath (required (de_store_path cs R r)))"
| "de_request_variant cs L other R OpQueryReferrers = (\<lambda>r. aw_map QueryReferrers (required (de_store_path cs R r)))"
| "de_request_variant cs L other R OpAddToStore = (\<lambda>r. aw_map AddToStore (required (de_add_to_store cs R r)))"
| "de_request_variant cs L other R OpBuildPaths = (\<lambda>r. aw_map BuildPaths (required (de_build_paths cs L R r)))"
| "de_request_variant cs L other R OpEnsurePath = (\<lambda>r. aw_map EnsurePath (required (de_store_path cs R r)))"
| "de_request_variant cs L other R OpAddTempRoot = (\<lambda>r. aw_map AddTempRoot (required (de_store_path cs R r)))"
| "de_request_variant cs L other R OpAddIndirectRoot = (\<lambda>r. aw_map AddIndirectRoot (required (de_bytes R r)))"
| "de_request_variant cs L other R OpFindRoots = (\<lambda>r. Some (r, Inr FindRoots))"
| "de_request_variant cs L other R OpSetOptions = (\<lambda>r. aw_map SetOptions (required (de_client_options other R r)))"
| "de_request_variant cs L other R OpCollectGarbage = (\<lambda>r. aw_map CollectGarbage (required (de_collect_garbage cs R r)))"
| "de_request_variant cs L other R OpQueryAllValidPaths = (\<lambda>r. Some (r, Inr QueryAllValidPaths))"
| "de_request_variant cs L other R OpQueryPathInfo = (\<lambda>r. aw_map QueryPathInfo (required (de_store_path cs R r)))"
| "de_request_variant cs L other R OpQueryPathFromHashPart = (\<lambda>r. aw_map QueryPathFromHashPart (required (de_store_path_hash cs R r)))"
| "de_request_variant cs L other R OpQueryValidPaths = (\<lambda>r. aw_map QueryValidPaths (required (de_query_valid_paths cs R r)))"
| "de_request_variant cs L other R OpQuerySubstitutablePaths = (\<lambda>r. aw_map QuerySubstitutablePaths (required (de_set R (de_store_path cs R) r)))"
| "de_request_variant cs L other R OpQueryValidDerivers = (\<lambda>r. aw_map QueryValidDerivers (required (de_store_path cs R r)))"
| "de_request_variant cs L other R OpOptimiseStore = (\<lambda>r. Some (r, Inr OptimiseStore))"
| "de_request_variant cs L other R OpVerifyStore = (\<lambda>r. aw_map VerifyStore (required (de_verify_store R r)))"
| "de_request_variant cs L other R OpBuildDerivation = (\<lambda>r. aw_map BuildDerivation (required (de_build_derivation cs L R r)))"
| "de_request_variant cs L other R OpAddSignatures = (\<lambda>r. aw_map AddSignatures (required (de_add_signatures cs L R r)))"
| "de_request_variant cs L other R OpNarFromPath = (\<lambda>r. aw_map NarFromPath (required (de_store_path cs R r)))"
| "de_request_variant cs L other R OpAddToStoreNar = (\<lambda>r. aw_map AddToStoreNar (required (de_add_to_store_nar cs R r)))"
| "de_request_variant cs L other R OpQueryMissing = (\<lambda>r. aw_map QueryMissing (required (de_vec (size_derived_path L) R (de_derived_path cs R) r)))"
| "de_request_variant cs L other R OpQueryDerivationOutputMap = (\<lambda>r. aw_map QueryDerivationOutputMap (required (de_store_path cs R r)))"
| "de_request_variant cs L other R OpRegisterDrvOutput = (\<lambda>r. aw_map RegisterDrvOutput (required (de_realisation cs R r)))"
| "de_request_variant cs L other R OpQueryRealisation = (\<lambda>r. aw_map QueryRealisation (required (de_drv_output cs R r)))"
| "de_request_variant cs L other R OpAddMultipleToStore = (\<lambda>r. aw_map AddMultipleToStore (required (de_add_multiple R r)))"
| "de_request_variant cs L other R OpAddBuildLog = (\<lambda>r. aw_map AddBuildLog (required (de_base_store_path cs R r)))"
| "de_request_variant cs L other R OpBuildPathsWithResults = (\<lambda>r. aw_map BuildPathsWithResults (required (de_build_paths cs L R r)))"
| "de_request_variant cs L other R OpAddPermRoot = (\<lambda>r. aw_map AddPermRoot (required (de_add_perm_root cs R r)))"

definition de_request ::
  "Codecs \<Rightarrow> Layout \<Rightarrow> (u16 \<Rightarrow> Verbosity) \<Rightarrow> 'r NixRead \<Rightarrow> 'r \<Rightarrow> ('r, 'j Request option) awaited" where
  "de_request cs L other R = de_tagged (de_operation R) (de_request_variant cs L other R)"

end
