(* ===== verification/Message_Wire.thy ===== *)
theory Message_Wire
  imports Messages
begin

text \<open>
  That requests and results (\<open>Messages\<close>) are carried: the limits within which each type crosses the wire, and for each
  serialiser and decoder the contract of \<open>wire_env\<close>, composed from those of its fields.
\<close>

section \<open>Limits\<close>

definition derived_paths_ok :: "nat \<Rightarrow> nat \<Rightarrow> Codecs \<Rightarrow> StoreDir \<Rightarrow> Layout \<Rightarrow> DerivedPath list \<Rightarrow> bool" where
  "derived_paths_ok limit hi cs d L ps \<longleftrightarrow>
     list_all (derived_fits limit hi cs d) ps \<and> length ps < 2 ^ 64 \<and> length ps * size_derived_path L < 2 ^ 63"

definition client_options_ok :: "nat \<Rightarrow> ClientOptions \<Rightarrow> bool" where
  "client_options_ok hi c \<longleftrightarrow> (let m = co_other_settings c in
     list_all (\<lambda>e. (utf8_valid (as_bytes (fst e)) \<and> length (fst e) \<le> hi) \<and> length (snd e) \<le> hi) m \<and> length m < 2 ^ 64 \<and> btree_map m)"

definition info_ok :: "nat \<Rightarrow> nat \<Rightarrow> Codecs \<Rightarrow> StoreDir \<Rightarrow> UnkeyedValidPathInfo \<Rightarrow> bool" where
  "info_ok limit hi cs d i \<longleftrightarrow> pred_option path_ok (vi_deriver i) \<and> nar_hash_ok (vi_nar_hash i) \<and> paths_ok (vi_references i) \<and>
     vi_registration_time i \<noteq> Some 0 \<and> signatures_fit limit hi cs (vi_signatures i) \<and> pred_option ca_ok (vi_ca i) \<and> vi_store_dir i = d"

definition substitutable_ok :: "UnkeyedSubstitutablePathInfo \<Rightarrow> bool" where
  "substitutable_ok i \<longleftrightarrow> pred_option path_ok (si_deriver i) \<and> paths_ok (si_references i)"

definition add_to_store_ok :: "nat \<Rightarrow> AddToStoreRequest \<Rightarrow> bool" where
  "add_to_store_ok hi q \<longleftrightarrow> utf8_valid (as_bytes (as_name q)) \<and> length (as_name q) \<le> hi \<and> paths_ok (as_refs q)"

definition build_paths_ok :: "nat \<Rightarrow> nat \<Rightarrow> Codecs \<Rightarrow> StoreDir \<Rightarrow> Layout \<Rightarrow> BuildPathsRequest \<Rightarrow> bool" where
  "build_paths_ok limit hi cs d L q \<longleftrightarrow> derived_paths_ok limit hi cs d L (bp_paths q)"

definition collect_garbage_ok :: "CollectGarbageRequest \<Rightarrow> bool" where
  "collect_garbage_ok q \<longleftrightarrow> paths_ok (cg_paths_to_delete q)"

definition add_signatures_ok :: "nat \<Rightarrow> nat \<Rightarrow> Codecs \<Rightarrow> Layout \<Rightarrow> AddSignaturesRequest \<Rightarrow> bool" where
  "add_signatures_ok limit hi cs L q \<longleftrightarrow> path_ok (sr_path q) \<and>
     list_all (sig_fits limit hi cs) (sr_signatures q) \<and> length (sr_signatures q) < 2 ^ 64 \<and> length (sr_signatures q) * size_signature L < 2 ^ 63"

definition outputs_map_ok :: "nat \<Rightarrow> nat \<Rightarrow> Codecs \<Rightarrow> (OutputName \<times> UnkeyedRealisation) list \<Rightarrow> bool" where
  "outputs_map_ok limit hi cs m \<longleftrightarrow>
     list_all (\<lambda>e. out_ok (fst e) \<and> realisation_fits limit hi cs (snd e)) m \<and> length m < 2 ^ 64 \<and> btree_map m"

definition build_result_ok :: "nat \<Rightarrow> nat \<Rightarrow> Codecs \<Rightarrow> BuildResult \<Rightarrow> bool" where
  "build_result_ok limit hi cs b \<longleftrightarrow> (case br_inner b of
      BSuccess s \<Rightarrow> outputs_map_ok limit hi cs (bs_built_outputs s)
    | BFailure f \<Rightarrow> length (bf_error_msg f) \<le> hi)"

fun request_ok :: "nat \<Rightarrow> nat \<Rightarrow> Codecs \<Rightarrow> StoreDir \<Rightarrow> Layout \<Rightarrow> 'j Request \<Rightarrow> bool" where
  "request_ok limit hi cs d L (IsValidPath x) \<longleftrightarrow> path_ok x"
| "request_ok limit hi cs d L (QueryReferrers x) \<longleftrightarrow> path_ok x"
| "request_ok limit hi cs d L (AddToStore x) \<longleftrightarrow> add_to_store_ok hi x"
| "request_ok limit hi cs d L (BuildPaths x) \<longleftrightarrow> build_paths_ok limit hi cs d L x"
| "request_ok limit hi cs d L (EnsurePath x) \<longleftrightarrow> path_ok x"
| "request_ok limit hi cs d L (AddTempRoot x) \<longleftrightarrow> path_ok x"
| "request_ok limit hi cs d L (AddIndirectRoot x) \<longleftrightarrow> length x \<le> hi"
| "request_ok limit hi cs d L FindRoots \<longleftrightarrow> True"
| "request_ok limit hi cs d L (SetOptions x) \<longleftrightarrow> client_options_ok hi x"
| "request_ok limit hi cs d L (CollectGarbage x) \<longleftrightarrow> collect_garbage_ok x"
| "request_ok limit hi cs d L QueryAllValidPaths \<longleftrightarrow> True"
| "request_ok limit hi cs d L (QueryPathInfo x) \<longleftrightarrow> path_ok x"
| "request_ok limit hi cs d L (QueryPathFromHashPart x) \<longleftrightarrow> length (sph_bytes x) = STORE_PATH_HASH_SIZE"
| "request_ok limit hi cs d L (QueryValidPaths x) \<longleftrightarrow> paths_ok (qv_paths x)"
| "request_ok limit hi cs d L (QuerySubstitutablePaths x) \<longleftrightarrow> paths_ok x"
| "request_ok limit hi cs d L (QueryValidDerivers x) \<longleftrightarrow> path_ok x"
| "request_ok limit hi cs d L OptimiseStore \<longleftrightarrow> True"
| "request_ok limit hi cs d L (VerifyStore x) \<longleftrightarrow> True"
| "request_ok limit hi cs d L (BuildDerivation x) \<longleftrightarrow> drv_carried hi (size_bytes L) (bd_drv x)"
| "request_ok limit hi cs d L (AddSignatures x) \<longleftrightarrow> add_signatures_ok limit hi cs L x"
| "request_ok limit hi cs d L (NarFromPath x) \<longleftrightarrow> path_ok x"
| "request_ok limit hi cs d L (AddToStoreNar x) \<longleftrightarrow> path_ok (vp_path (an_path_info x)) \<and> info_ok limit hi cs d (vp_info (an_path_info x))"
| "request_ok limit hi cs d L (QueryMissing x) \<longleftrightarrow> derived_paths_ok limit hi cs d L x"
| "request_ok limit hi cs d L (QueryDerivationOutputMap x) \<longleftrightarrow> path_ok x"
| "request_ok limit hi cs d L (RegisterDrvOutput x) \<longleftrightarrow> drv_output_ok (rl_key x) \<and> realisation_fits limit hi cs (rl_value x)"
| "request_ok limit hi cs d L (QueryRealisation x) \<longleftrightarrow> drv_output_ok x"
| "request_ok limit hi cs d L (AddMultipleToStore x) \<longleftrightarrow> True"
| "request_ok limit hi cs d L (AddBuildLog x) \<longleftrightarrow> path_ok x"
| "request_ok limit hi cs d L (BuildPathsWithResults x) \<longleftrightarrow> build_paths_ok limit hi cs d L x"
| "request_ok limit hi cs d L (AddPermRoot x) \<longleftrightarrow> path_ok (pr_store_path x) \<and> length (pr_gc_root x) \<le> hi"

section \<open>What is carried\<close>

lemma message_enum_all: "a \<in> set [FFlat, FRecursive]" "b \<in> set [BNormal, BRepair, BCheck]"
  "c \<in> set [ReturnLive, ReturnDead, DeleteDead, DeleteSpecific]" "t \<in> set [TUnknown, TTrusted, TNotTrusted]"
  subgoal by (cases a) simp_all
  subgoal by (cases b) simp_all
  subgoal by (cases c) simp_all
  subgoal by (cases t) simp_all
  done

lemma status_all: "s \<in> set success_all" "f \<in> set failure_all" "q \<in> set operation_all"
  subgoal by (cases s) (simp_all add: success_all_def)
  subgoal by (cases f) (simp_all add: failure_all_def)
  subgoal by (cases q) (simp_all add: operation_all_def)
  done

lemma message_enum_distinct: "distinct (map ingestion_code [FFlat, FRecursive])" "distinct (map build_mode_code [BNormal, BRepair, BCheck])"
  "distinct (map gc_action_code [ReturnLive, ReturnDead, DeleteDead, DeleteSpecific])"
  "distinct (map trust_level_code [TUnknown, TTrusted, TNotTrusted])"
  by simp_all

lemma status_distinct: "distinct (map success_code success_all)" "distinct (map failure_code failure_all)"
  by (simp_all add: success_all_def failure_all_def)

lemma operation_distinct: "distinct (map operation_code operation_all)"
  by (simp add: operation_all_def)

text \<open>The codes of the two kinds of status do not meet.\<close>

lemma failure_not_success: "of_code success_code success_all (failure_code f) = Inl ()"
  by (cases f) (simp_all add: of_code_def success_all_def)

lemma inner_of_flat: "flat_inner i = (a, b, c, m) \<Longrightarrow> inner_of a b c m = Inr i"
  using of_code_code [OF status_distinct(1) status_all(1)] of_code_code [OF status_distinct(2) status_all(2)]
  by (auto simp: flat_inner_def inner_of_def failure_not_success split: BuildResultInner.splits)

context wire_env
begin

lemma carries_microseconds: "carries (ser_microseconds W) (de_microseconds R) (\<lambda>_. True)"
  unfolding ser_microseconds_def de_microseconds_def by (rule carries_iso [OF carries_i64]) simp

lemma carries_u8: "carries (\<lambda>v w. wr_number W w (ucast v)) (de_u8 R) (\<lambda>_. True)"
proof -
  have "sends (\<lambda>v w. wr_number W w (ucast (v :: u8))) (conv_wire number_wire (try_from_u64 8 ucast)) (\<lambda>_. True)"
    unfolding sends_def using ww.number_law small_wire_enc [where ?'a = 8] by fastforce
  with rr.u8_reader show ?thesis unfolding carries_def by blast
qed

lemma carries_elem_never:
  assumes "\<And>v. \<not> ok v"
  shows "carries_elem ser (\<lambda>r. Some (r, Inl e)) ok"
proof -
  have "elem_reader rest good rerr (\<lambda>r. Some (r, Inl e)) (\<lambda>_ _. False)" by unfold_locales auto
  with assms show ?thesis unfolding carries_elem_def sends_def by blast
qed

lemma carries_optional_microseconds: "carries (ser_optional_microseconds W) (de_optional_microseconds R) (\<lambda>_. True)"
proof -
  let ?tag = "\<lambda>v. if v = None then (0 :: u8) else 1"
  let ?body = "\<lambda>v w. case v of Some m \<Rightarrow> ser_microseconds W m w | None \<Rightarrow> Some (w, Inr ())"
  let ?variant = "\<lambda>tag r. if tag = 0 then Some (r, Inr None) else if tag = 1 then aw_map Some (required (de_microseconds R r)) else Some (r, Inl invalid_data)"
  have "carries_elem ?body (?variant t) (\<lambda>v. True \<and> ?tag v = t)" for t
  proof -
    consider "t = 0" | "t = 1" | "t \<noteq> 0" "t \<noteq> 1" by blast
    then show ?thesis
    proof cases
      case 1
      have "carries_elem ?body (\<lambda>r. Some (r, Inr None)) (\<lambda>v. True \<and> ?tag v = 0)" by (rule carries_elem_return) (auto split: if_splits)
      with 1 show ?thesis by simp
    next
      case 2
      have "carries_elem ?body (\<lambda>r. aw_map Some (required (de_microseconds R r))) (\<lambda>v. True \<and> ?tag v = 1)"
        by (rule carries_elem_map [OF carries_required [OF carries_microseconds]]) (auto split: if_splits)
      with 2 show ?thesis by simp
    next
      case 3
      have "carries_elem ?body (\<lambda>r. Some (r, Inl invalid_data)) (\<lambda>v. True \<and> ?tag v = t)"
        by (rule carries_elem_never) (use 3 in \<open>auto split: if_splits\<close>)
      with 3 show ?thesis by simp
    qed
  qed
  from carries_tagged [OF carries_u8 this]
  have "carries (ser_tagged (\<lambda>v w. wr_number W w (ucast v)) ?tag ?body) (de_optional_microseconds R) (\<lambda>_. True)"
    by (simp add: de_tagged_def de_optional_microseconds_def)
  moreover have "ser_tagged (\<lambda>v w. wr_number W w (ucast v)) ?tag ?body = ser_optional_microseconds W"
    by (intro ext) (auto simp: ser_tagged_def ser_optional_microseconds_def aw_bind_def split: option.splits sum.splits)
  ultimately show ?thesis by simp
qed

lemma carries_optional_nonzero: "carries (ser_optional_nonzero W) (de_optional_nonzero R) (\<lambda>v. v \<noteq> Some 0)"
proof -
  have "carries (ser_into (\<lambda>v. case v of None \<Rightarrow> 0 | Some n \<Rightarrow> n) (ser_i64 W)) (de_optional_nonzero R) (\<lambda>v. v \<noteq> Some 0)"
    unfolding de_optional_nonzero_def by (rule carries_iso [OF carries_i64]) (auto split: option.splits)
  then show ?thesis by (simp add: ser_into_def [abs_def] ser_i64_def [abs_def] ser_optional_nonzero_def [abs_def])
qed

lemma carries_enums:
  "carries (ser_ingestion W) (de_ingestion R) (\<lambda>_. True)" "carries (ser_build_mode W) (de_build_mode R) (\<lambda>_. True)"
  "carries (ser_gc_action W) (de_gc_action R) (\<lambda>_. True)" "carries (ser_trust_level W) (de_trust_level R) (\<lambda>_. True)"
  "carries (ser_operation W) (de_operation R) (\<lambda>_. True)"
  unfolding ser_ingestion_def de_ingestion_def ser_build_mode_def de_build_mode_def ser_gc_action_def de_gc_action_def
    ser_trust_level_def de_trust_level_def ser_operation_def de_operation_def
  by (rule carries_code [OF carries_u16 message_enum_distinct(1) message_enum_all(1)] carries_code [OF carries_u16 message_enum_distinct(2) message_enum_all(2)]
      carries_code [OF carries_u16 message_enum_distinct(3) message_enum_all(3)] carries_code [OF carries_u64 message_enum_distinct(4) message_enum_all(4)]
      carries_code [OF carries_u64 operation_distinct status_all(3)])+

lemma carries_client_options: "carries (ser_client_options W) (de_client_options other R) (client_options_ok hi)"
  unfolding ser_client_options_def de_client_options_def
  by (rule carries_iso [OF carries_then [OF carries_bool carries_then [OF carries_bool carries_then [OF carries_bool carries_then [OF carries_verbosity
        carries_then [OF carries_u32 carries_then [OF carries_i64 carries_then [OF carries_ignored(3) carries_then [OF carries_verbosity
        carries_then [OF carries_ignored(1) carries_then [OF carries_ignored(1) carries_then [OF carries_u32 carries_then [OF carries_bool
        carries_map [OF carries_string carries_bytes]]]]]]]]]]]]]])
    (simp add: client_options_ok_def Let_def)

lemma carries_verify_store: "carries (ser_verify_store W) (de_verify_store R) (\<lambda>_. True)"
  unfolding ser_verify_store_def de_verify_store_def by (rule carries_iso [OF carries_then [OF carries_bool carries_bool]]) simp

lemma carries_add_multiple: "carries (ser_add_multiple W) (de_add_multiple R) (\<lambda>_. True)"
  unfolding ser_add_multiple_def de_add_multiple_def by (rule carries_iso [OF carries_then [OF carries_bool carries_bool]]) simp

lemma carries_collect_response:
  "carries (ser_collect_response W) (de_collect_response L R) (\<lambda>q. list_all (\<lambda>b. length b \<le> hi) (cr_paths_deleted q) \<and>
     length (cr_paths_deleted q) < 2 ^ 64 \<and> length (cr_paths_deleted q) * size_bytes L < 2 ^ 63)"
  unfolding ser_collect_response_def de_collect_response_def
  by (rule carries_iso [OF carries_then [OF carries_vec [OF carries_bytes] carries_then [OF carries_u64 carries_ignored(1)]]]) simp

end

context store_env
begin

lemma carries_optional_path: "carries (ser_optional_path cs W) (de_optional_path cs R) (pred_option path_ok)"
  unfolding ser_optional_path_def de_optional_path_def ser_store_path_def by (rule carries_optional_text) (use path_text in blast)

lemma carries_optional_ca: "carries (ser_optional_ca cs W) (de_optional_ca cs R) (pred_option ca_ok)"
  unfolding ser_optional_ca_def de_optional_ca_def ser_content_address_def by (rule carries_optional_display) (use ca_text in blast)

lemma carries_base_store_path: "carries (ser_base_store_path cs W) (de_base_store_path cs R) path_ok"
  unfolding ser_base_store_path_def de_base_store_path_def
proof (rule carries_display)
  fix p assume p: "path_ok p"
  obtain s where s: "path_display cs p = Some s" "from_bytes cs s = Some (Inr p)" using from_bytes_display [OF p] by blast
  have "list_all is_ascii s" using path_display_char [OF p s(1)] by (auto simp: list_all_iff intro: name_ascii)
  moreover have "length s \<le> 256"
    using s(1) p base_encode_length [of NixBase32 "sph_bytes (sp_hash p)"]
    by (auto simp: path_display_def sph_display_eq path_ok_def name_ok_def MAX_NAME_LEN_def encode_len_20)
  ultimately show "\<exists>s. path_display cs p = Some s \<and> text_ok limit hi s \<and> path_from_str cs s = Some (Inr p)"
    using s by (simp add: short_text path_from_str_def)
qed

lemma carries_path_info: "carries (ser_path_info cs W) (de_path_info cs R) (info_ok limit hi cs dir)"
  unfolding ser_path_info_def de_path_info_def
  by (rule carries_iso [OF carries_then [OF carries_optional_path carries_then [OF carries_nar_hash carries_then [OF carries_paths
        carries_then [OF carries_optional_nonzero carries_then [OF carries_u64 carries_then [OF carries_bool carries_then [OF carries_signatures
        carries_then [OF carries_optional_ca carries_store_dir]]]]]]]]])
    (simp add: info_ok_def)

lemma carries_valid_path_info:
  "carries (ser_valid_path_info cs W) (de_valid_path_info cs R) (\<lambda>v. path_ok (vp_path v) \<and> info_ok limit hi cs dir (vp_info v))"
  unfolding ser_valid_path_info_def de_valid_path_info_def
  by (rule carries_iso [OF carries_then [OF carries_store_path carries_path_info]]) simp

lemma carries_substitutable: "carries (ser_substitutable cs W) (de_substitutable cs R) substitutable_ok"
  unfolding ser_substitutable_def de_substitutable_def
  by (rule carries_iso [OF carries_then [OF carries_optional_path carries_then [OF carries_paths carries_then [OF carries_u64 carries_u64]]]])
    (simp add: substitutable_ok_def)

lemma carries_add_to_store: "carries (ser_add_to_store cs W) (de_add_to_store cs R) (add_to_store_ok hi)"
  unfolding ser_add_to_store_def de_add_to_store_def
  by (rule carries_iso [OF carries_then [OF carries_string carries_then [OF carries_method_algorithm carries_then [OF carries_paths carries_bool]]]])
    (simp add: add_to_store_ok_def)

lemma carries_derived_paths:
  "carries (ser_vec W (ser_derived_path cs W)) (de_vec (size_derived_path L) R (de_derived_path cs R)) (derived_paths_ok limit hi cs dir L)"
  using carries_vec [OF carries_derived_path] by (simp add: derived_paths_ok_def [abs_def])

lemma carries_build_paths: "carries (ser_build_paths cs W) (de_build_paths cs L R) (build_paths_ok limit hi cs dir L)"
  unfolding ser_build_paths_def de_build_paths_def
  by (rule carries_iso [OF carries_then [OF carries_derived_paths carries_enums(2)]]) (simp add: build_paths_ok_def)

lemma carries_collect_garbage: "carries (ser_collect_garbage cs W) (de_collect_garbage cs R) collect_garbage_ok"
  unfolding ser_collect_garbage_def de_collect_garbage_def
  by (rule carries_iso [OF carries_then [OF carries_enums(3) carries_then [OF carries_paths carries_then [OF carries_bool carries_then [OF carries_u64
        carries_then [OF carries_ignored(1) carries_then [OF carries_ignored(1) carries_ignored(1)]]]]]]])
    (simp add: collect_garbage_ok_def)

lemma carries_query_valid_paths: "carries (ser_query_valid_paths cs W) (de_query_valid_paths cs R) (\<lambda>q. paths_ok (qv_paths q))"
  unfolding ser_query_valid_paths_def de_query_valid_paths_def
  by (rule carries_iso [OF carries_then [OF carries_paths carries_bool]]) simp

lemma carries_build_derivation:
  "carries (ser_build_derivation cs K W) (de_build_derivation cs L R) (\<lambda>q. drv_carried hi (size_bytes L) (bd_drv q))"
  unfolding ser_build_derivation_def de_build_derivation_def
  by (rule carries_iso [OF carries_then [OF carries_basic_derivation carries_enums(2)]]) simp

lemma carries_add_signatures: "carries (ser_add_signatures cs W) (de_add_signatures cs L R) (add_signatures_ok limit hi cs L)"
  unfolding ser_add_signatures_def de_add_signatures_def
  by (rule carries_iso [OF carries_then [OF carries_store_path carries_vec [OF carries_signature]]]) (simp add: add_signatures_ok_def)

lemma carries_add_to_store_nar:
  "carries (ser_add_to_store_nar cs W) (de_add_to_store_nar cs R)
     (\<lambda>q. path_ok (vp_path (an_path_info q)) \<and> info_ok limit hi cs dir (vp_info (an_path_info q)))"
  unfolding ser_add_to_store_nar_def de_add_to_store_nar_def
  by (rule carries_iso [OF carries_then [OF carries_valid_path_info carries_then [OF carries_bool carries_bool]]]) simp

lemma carries_query_missing:
  "carries (ser_query_missing cs W) (de_query_missing cs R)
     (\<lambda>q. paths_ok (qm_will_build q) \<and> paths_ok (qm_will_substitute q) \<and> paths_ok (qm_unknown q))"
  unfolding ser_query_missing_def de_query_missing_def
  by (rule carries_iso [OF carries_then [OF carries_paths carries_then [OF carries_paths carries_then [OF carries_paths
        carries_then [OF carries_u64 carries_u64]]]]]) simp

lemma carries_add_perm_root:
  "carries (ser_add_perm_root cs W) (de_add_perm_root cs R) (\<lambda>q. path_ok (pr_store_path q) \<and> length (pr_gc_root q) \<le> hi)"
  unfolding ser_add_perm_root_def de_add_perm_root_def
  by (rule carries_iso [OF carries_then [OF carries_store_path carries_bytes]]) simp

lemma carries_outputs_map:
  "carries (ser_map W (ser_output_name W) (ser_unkeyed_realisation cs W)) (de_map R (de_output_name R) (de_unkeyed_realisation cs R))
     (outputs_map_ok limit hi cs)"
  using carries_map [OF carries_output_name carries_unkeyed_realisation] by (simp add: outputs_map_ok_def [abs_def])

lemma carries_build_result: "carries (ser_build_result cs W) (de_build_result cs R) (build_result_ok limit hi cs)"
  unfolding ser_build_result_def de_build_result_def
proof (rule carries_try [OF carries_then [OF carries_u16 carries_then [OF carries_bytes carries_then [OF carries_u32 carries_then [OF carries_bool
        carries_then [OF carries_i64 carries_then [OF carries_i64 carries_then [OF carries_optional_microseconds
        carries_then [OF carries_optional_microseconds carries_outputs_map]]]]]]]]], goal_cases)
  case (1 b)
  obtain a e c m where f: "flat_inner (br_inner b) = (a, e, c, m)" by (cases "flat_inner (br_inner b)")
  have "length e \<le> hi \<and> outputs_map_ok limit hi cs m"
    using 1 f by (auto simp: build_result_ok_def flat_inner_def outputs_map_ok_def split: BuildResultInner.splits)
  with inner_of_flat [OF f] f show ?case by simp
qed

lemma carries_keyed_result:
  "carries (ser_keyed_result cs W) (de_keyed_result cs R) (\<lambda>k. derived_fits limit hi cs dir (kb_path k) \<and> build_result_ok limit hi cs (kb_result k))"
  unfolding ser_keyed_result_def de_keyed_result_def
  by (rule carries_iso [OF carries_then [OF carries_derived_path carries_build_result]]) simp

lemmas request_parts = carries_store_path carries_add_to_store carries_build_paths carries_bytes carries_client_options carries_collect_garbage
  carries_store_path_hash carries_query_valid_paths carries_paths carries_verify_store carries_build_derivation
  carries_add_signatures carries_add_to_store_nar carries_derived_paths carries_realisation carries_drv_output carries_add_multiple
  carries_base_store_path carries_add_perm_root

lemma carries_variant:
  "carries_elem (ser_request_body cs K W) (de_request_variant cs L other R t) (\<lambda>q. request_ok limit hi cs dir L q \<and> request_operation q = t)"
proof -
  have var: "carries_elem (ser_request_body cs K W) (\<lambda>r. aw_map C (required (de r))) (\<lambda>q. request_ok limit hi cs dir L q \<and> request_operation q = t)"
    if "carries ser de ok" "\<And>q. request_ok limit hi cs dir L q \<and> request_operation q = t \<Longrightarrow> \<exists>u. ok u \<and> q = C u \<and> ser_request_body cs K W q = ser u"
    for ser de ok C t
    by (rule carries_elem_map [OF carries_required [OF that(1)] that(2)])
  show ?thesis
    by (cases t; simp only: de_request_variant.simps; (rule request_parts [THEN var] | rule carries_elem_return);
        auto elim: request_operation.elims)
qed

lemma carries_request: "carries (ser_request cs K W) (de_request cs L other R) (request_ok limit hi cs dir L)"
  unfolding ser_request_def de_request_def by (rule carries_tagged [OF carries_enums(5) carries_variant]) simp

end

end
