(* ===== verification/Message_Properties.thy ===== *)
theory Message_Properties
  imports Message_Wire Protocol_Properties
begin

text \<open>
  What the messages of the daemon protocol promise end to end: a \<open>NixWriter\<close> at one end of a connection and a \<open>NixReader\<close> at the
  other, which agree on version and store directory. \<open>nix_connection\<close> puts the contracts of a sink and a source together, \<open>store_connection\<close> adds
  the codecs and a store directory that fits; both give the contracts under which the types are carried.
\<close>

section \<open>Connections\<close>

text \<open>A value written by a \<open>NixWriter\<close>, and flushed.\<close>

definition send_value ::
  "Alloc \<Rightarrow> ('w \<Rightarrow> bytes \<Rightarrow> ('w, nat) polled) \<Rightarrow> ('w \<Rightarrow> ('w, unit) polled) \<Rightarrow> ('a \<Rightarrow> 'w NixWriter \<Rightarrow> ('w NixWriter, unit) awaited) \<Rightarrow>
     'a \<Rightarrow> 'w NixWriter \<Rightarrow> ('w NixWriter, unit) awaited" where
  "send_value A put flush ser v nw = aw_bind (ser v nw) (\<lambda>nw _. await (nw_poll_flush A put flush) nw)"

text \<open>The value \<open>v\<close>, sent by a writer that has written \<open>p\<close>, arrives as \<open>v'\<close> at every reader of what is written behind \<open>p\<close>, and
  nothing but the value is taken from the source.\<close>

definition arrives ::
  "Alloc \<Rightarrow> ('w \<Rightarrow> bytes \<Rightarrow> ('w, nat) polled) \<Rightarrow> ('w \<Rightarrow> ('w, unit) polled) \<Rightarrow> ('w \<Rightarrow> bytes) \<Rightarrow>
     ('r \<Rightarrow> bytes) \<Rightarrow> ('r \<Rightarrow> bool) \<Rightarrow> (io_error \<Rightarrow> bool) \<Rightarrow> nat \<Rightarrow> ProtocolVersion \<times> StoreDir \<Rightarrow>
     ('a \<Rightarrow> 'w NixWriter \<Rightarrow> ('w NixWriter, unit) awaited) \<Rightarrow> ('r NixReader \<Rightarrow> ('r NixReader, 'b option) awaited) \<Rightarrow>
     'a \<Rightarrow> 'b \<Rightarrow> bytes \<Rightarrow> 'w NixWriter \<Rightarrow> bool" where
  "arrives A put flush written rest good src_err hi env ser de v v' p nw \<longleftrightarrow>
     (\<exists>nw'. send_value A put flush ser v nw = Some (nw', Inr ()) \<and>
       (\<forall>nr S. nr_good good hi env nr \<and> written (nw_inner nw') @ S = p @ nr_rest rest nr \<longrightarrow>
          got_value src_err (nr_good good hi env) (nr_rest rest) (Some v') S (de nr)))"

locale nix_connection =
  snk: buffered_write put written sink_err flush wdelay A + src: patient_bytes ops rest good src_err avail delay
  for put :: "'w \<Rightarrow> bytes \<Rightarrow> ('w, nat) polled" and written sink_err flush wdelay A
    and ops :: "'r BytesRead" and rest good src_err avail delay +
  fixes limit hi :: nat and env :: "ProtocolVersion \<times> StoreDir"
  assumes sink_never: "\<not> sink_err e" and hi_bound: "hi + 8 \<le> 2 ^ 63"

sublocale nix_connection \<subseteq> wire_env "nix_writer_ops A put" "nw_at written limit env" sink_err limit
  "nix_reader_ops ops" "nr_rest rest" "nr_good good hi env" src_err hi "fst env" "snd env"
proof -
  show "wire_env (nix_writer_ops A put) (nw_at written limit env) sink_err limit (nix_reader_ops ops) (nr_rest rest) (nr_good good hi env) src_err hi
      (fst env) (snd env)"
  proof (intro wire_env.intro wire_env_axioms.intro snk.nix_writer_contract src.nix_reader_contract hi_bound)
    show "wr_version (nix_writer_ops A put) w = fst env \<and> wr_store_dir (nix_writer_ops A put) w = snd env" if "nw_at written limit env p w" for p w
      using that by (auto simp: nix_writer_ops_def nw_at_def nw_ok_def)
    show "rd_version (nix_reader_ops ops) r = fst env \<and> rd_store_dir (nix_reader_ops ops) r = snd env" if "nr_good good hi env r" for r
      using that by (auto simp: nix_reader_ops_def nr_good_def)
  qed
qed

context nix_connection
begin

lemma send_value_spec:
  assumes "sent sink_err (nw_at written limit env) (p @ bs) (ser v nw)"
  shows "\<exists>nw'. send_value A put flush ser v nw = Some (nw', Inr ()) \<and> written (nw_inner nw') = p @ bs"
proof -
  obtain nw1 where s: "ser v nw = Some (nw1, Inr ())" "nw_at written limit env (p @ bs) nw1"
    using assms sink_never unfolding sent_def by (fastforce split: sum.splits)
  obtain nw2 y where f: "await (nw_poll_flush A put flush) nw1 = Some (nw2, y)"
    "case y of Inl e \<Rightarrow> sink_err e | Inr _ \<Rightarrow> nw_at written limit env (p @ bs) nw2 \<and> written (nw_inner nw2) = p @ bs"
    using snk.nw_await_flush [OF s(2)] by blast
  then have "y = Inr ()" "written (nw_inner nw2) = p @ bs" using sink_never by (cases y; simp)+
  with s f show ?thesis by (simp add: send_value_def)
qed

lemma carried_arrives:
  assumes "carries ser de ok" "ok v" "nw_at written limit env p nw"
  shows "arrives A put flush written rest good src_err hi env ser de v v p nw"
proof -
  obtain wire where w: "value_reader (nr_rest rest) (nr_good good hi env) src_err de wire" "sends ser wire ok"
    using assms(1) by (rule carriesE)
  obtain bs where bs: "wire v bs" "sent sink_err (nw_at written limit env) (p @ bs) (ser v nw)"
    using sendsD [OF w(2) assms(3,2)] by blast
  obtain nw' where n: "send_value A put flush ser v nw = Some (nw', Inr ())" "written (nw_inner nw') = p @ bs"
    using send_value_spec [of p bs ser v nw, OF bs(2)] by blast
  show ?thesis unfolding arrives_def
  proof (intro exI conjI allI impI)
    fix nr S assume "nr_good good hi env nr \<and> written (nw_inner nw') @ S = p @ nr_rest rest nr"
    then show "got_value src_err (nr_good good hi env) (nr_rest rest) (Some v) S (de nr)"
      using value_reader.complete [OF w(1) _ bs(1)] n(2) by simp
  qed (rule n(1))
qed

end

locale store_connection = nix_connection put written sink_err flush wdelay A ops rest good src_err avail delay limit hi env + data_encoding cs
  for put :: "'w \<Rightarrow> bytes \<Rightarrow> ('w, nat) polled" and written sink_err flush wdelay A
    and ops :: "'r BytesRead" and rest good src_err avail delay limit hi env cs +
  assumes store_dir_fits: "dir_fits limit hi (snd env)"

sublocale store_connection \<subseteq> store_env "nix_writer_ops A put" "nw_at written limit env" sink_err limit
  "nix_reader_ops ops" "nr_rest rest" "nr_good good hi env" src_err hi "fst env" "snd env" cs
  by unfold_locales (rule store_dir_fits)

context store_connection
begin

lemma request_arrives:
  assumes "request_ok limit hi cs (snd env) L q" "nw_at written limit env p nw"
  shows "arrives A put flush written rest good src_err hi env
    (ser_request cs K (nix_writer_ops A put)) (de_request cs L other (nix_reader_ops ops)) q q p nw"
  by (rule carried_arrives [OF carries_request assms])

lemmas result_arrives = carried_arrives [OF carries_build_result] carried_arrives [OF carries_optional_info [OF carries_path_info]]
  carried_arrives [OF carries_query_missing] carried_arrives [OF carries_collect_response]

lemma raw_arrives:
  assumes "raw_ok hi fsz tsz (pv_minor (fst env)) m" "20 \<le> pv_minor (fst env) \<or> \<not> is_activity m" "nw_at written limit env p nw"
  shows "arrives A put flush written rest good src_err hi env (ser_raw_log_message (nix_writer_ops A put))
    (de_raw_log_message other fsz tsz (nix_reader_ops ops)) m m p nw"
  by (rule carried_arrives [OF carries_raw_log_message _ assms(3)]) (use assms in blast)

lemma error_arrives:
  assumes "error_fits hi tsz (pv_minor (fst env)) e" "nw_at written limit env p nw"
  shows "arrives A put flush written rest good src_err hi env (ser_raw_log_message (nix_writer_ops A put))
    (de_raw_log_message other fsz tsz (nix_reader_ops ops)) (RError e) (RError (error_kept (pv_minor (fst env)) e)) p nw"
  using raw_arrives [of fsz tsz "RError (error_kept (pv_minor (fst env)) e)" p nw other] error_kept_ok [OF assms(1)] assms(2)
    ser_raw_error_kept [OF assms(2,1)]
  by (simp add: arrives_def send_value_def)

lemma log_arrives:
  assumes "nw_at written limit env p nw"
  shows "case log_as_raw (pv_minor (fst env)) m of
      None \<Rightarrow> ser_log_message (nix_writer_ops A put) m nw = Some (nw, Inr ())
    | Some r \<Rightarrow> raw_ok hi fsz tsz (pv_minor (fst env)) r \<longrightarrow>
        arrives A put flush written rest good src_err hi env (ser_log_message (nix_writer_ops A put))
          (de_raw_log_message other fsz tsz (nix_reader_ops ops)) m r p nw"
proof (cases "log_as_raw (pv_minor (fst env)) m")
  case None
  then show ?thesis using log_as_raw [of "nix_writer_ops A put" m nw] writer_env [OF assms] by simp
next
  case (Some r)
  have "ser_log_message (nix_writer_ops A put) m nw = ser_raw_log_message (nix_writer_ops A put) r nw"
    using Some log_as_raw [of "nix_writer_ops A put" m nw] writer_env [OF assms] by simp
  then show ?thesis using Some raw_arrives [OF _ log_as_raw_new [OF Some] assms] by (auto simp: arrives_def send_value_def)
qed

lemma fixed_output_fails:
  assumes "digest_crates K md5_seen ring_seen ring_alg" "ca_ok ca" "name_ok (output_path_name drv_name output_name)" "nw_at written limit env p nw"
  shows "\<exists>nw'. send_value A put flush (write_derivation_output cs K (nix_writer_ops A put) drv_name output_name) (CAFixed ca) nw = Some (nw', Inr ()) \<and>
    (\<forall>nr S. nr_good good hi env nr \<and> written (nw_inner nw') @ S = p @ nr_rest rest nr \<longrightarrow>
      (\<exists>nr' e. read_derivation_output cs (nix_reader_ops ops) nr = Some (nr', Inl e) \<and> (src_err e \<or> e = invalid_data)))"
proof -
  let ?ser = "write_derivation_output cs K (nix_writer_ops A put) drv_name output_name"
  have "name_from_str (output_path_name drv_name output_name) = Inr (StorePathName (output_path_name drv_name output_name))"
    using assms(3) into_name_Inr [of "output_path_name drv_name output_name"] by (simp add: name_from_str_def)
  from ca_fixed_texts [OF assms(1,2) this assms(4)]
  obtain s t u where stu: "sent sink_err (nw_at written limit env) (p @ nix_slice (as_bytes s) @ nix_slice (as_bytes t) @ nix_slice (as_bytes u)) (?ser (CAFixed ca) nw)"
    "list_all (\<lambda>s. utf8_valid (as_bytes s) \<and> length s \<le> hi) [s, t, u]" "output_of_texts cs (snd env) s t u = Some (Inl ())" by blast
  obtain nw' where n: "send_value A put flush ?ser (CAFixed ca) nw = Some (nw', Inr ())"
    "written (nw_inner nw') = p @ nix_slice (as_bytes s) @ nix_slice (as_bytes t) @ nix_slice (as_bytes u)"
    using send_value_spec [of p _ ?ser "CAFixed ca" nw, OF stu(1)] by blast
  show ?thesis
  proof (intro exI [of _ nw'] conjI allI impI)
    fix nr S assume "nr_good good hi env nr \<and> written (nw_inner nw') @ S = p @ nr_rest rest nr"
    then show "\<exists>nr' e. read_derivation_output cs (nix_reader_ops ops) nr = Some (nr', Inl e) \<and> (src_err e \<or> e = invalid_data)"
      using three_texts_refused [OF _ _ stu(2,3), of nr S] n(2) by simp
  qed (rule n(1))
qed

end

text \<open>A connection in memory, with the default sizes.\<close>

interpretation mem: store_connection vec_put "\<lambda>w. w" "\<lambda>_. False" vec_flush "\<lambda>_. 0" exact_alloc cursor_ops cursor_rest cursor_good "\<lambda>_. False" cursor_rest "\<lambda>_. 0"
    8184 DEFAULT_MAX_BUF_SIZE "(PROTOCOL_VERSION, default_dir)" bit_codecs
proof -
  have "dir_fits 8184 DEFAULT_MAX_BUF_SIZE default_dir"
    by (simp add: dir_fits_def default_dir_def is_absolute_def DEFAULT_MAX_BUF_SIZE_def byte_of_char_nat)
  then show "store_connection vec_put (\<lambda>w. w) (\<lambda>_. False) vec_flush (\<lambda>_. 0) exact_alloc cursor_ops cursor_rest cursor_good (\<lambda>_. False) cursor_rest (\<lambda>_. 0)
      8184 DEFAULT_MAX_BUF_SIZE (PROTOCOL_VERSION, default_dir) bit_codecs"
    by (intro store_connection.intro nix_connection.intro nix_connection_axioms.intro store_connection_axioms.intro
        vwrite.buffered_write_axioms bcursor.patient_bytes_axioms bits.data_encoding_axioms) (simp_all add: DEFAULT_MAX_BUF_SIZE_def)
qed

section \<open>Requests and results\<close>

text \<open>
  C3. Every request within the limits of the wire format crosses a connection unchanged: written by a \<open>NixWriter\<close> into a
  sink that never fails and flushed it always comes to an end, and a \<open>NixReader\<close> with the same version and store directory over
  a source of these bytes reads the same request and stops right behind it, whatever pieces the sink and the source work in. All operations of the
  protocol are covered; a derivation to build must be named as its path, and have no structured attributes and no output with a fixed content address.
\<close>

theorem request_roundtrip:
  assumes "store_connection put written sink_err flush wdelay A ops rest good src_err avail delay limit hi env cs"
    and "request_ok limit hi cs (snd env) L q" "nw_at written limit env p nw"
  shows "arrives A put flush written rest good src_err hi env
    (ser_request cs K (nix_writer_ops A put)) (de_request cs L other (nix_reader_ops ops)) q q p nw"
  by (rule store_connection.request_arrives [OF assms])

text \<open>A path and a request for the witnesses.\<close>

definition sample_path :: StorePath where
  "sample_path = \<lparr>sp_hash = StorePathHash (replicate 20 7), sp_name = StorePathName ''hello''\<rparr>"

definition sample_drv :: "StorePath \<times> unit BasicDerivation" where
  "sample_drv = (sample_path,
     \<lparr>dv_name = StorePathName ''hello'', dv_outputs = [(OutputName ''out'', InputAddressed sample_path)], dv_inputs = [sample_path],
      dv_platform = [1], dv_builder = [2], dv_args = [[3]], dv_env = [([4], [5])], dv_structured_attrs = None\<rparr>)"

lemma sample_path_ok: "path_ok sample_path"
  by (simp add: sample_path_def path_ok_def name_ok_def STORE_PATH_HASH_SIZE_def MAX_NAME_LEN_def NAME_LOOKUP_def in_range_def)

lemma sample_drv_ok: "drv_carried DEFAULT_MAX_BUF_SIZE 32 sample_drv"
  using sample_path_ok
  by (simp add: sample_drv_def drv_carried_def paths_ok_def out_ok_def name_ok_def MAX_NAME_LEN_def NAME_LOOKUP_def in_range_def DEFAULT_MAX_BUF_SIZE_def,
      simp add: sample_path_def)

definition sample_layout :: Layout where
  "sample_layout = \<lparr>size_bytes = 32, size_derived_path = 100, size_signature = 100, size_realisation = 100, size_keyed_result = 200\<rparr>"

theorem request_roundtrip_witness:
  "arrives exact_alloc vec_put vec_flush (\<lambda>w. w) cursor_rest cursor_good (\<lambda>_. False) DEFAULT_MAX_BUF_SIZE (PROTOCOL_VERSION, default_dir)
     (ser_request bit_codecs plain_crates (nix_writer_ops exact_alloc vec_put))
     (de_request bit_codecs sample_layout (\<lambda>_. VVomit) (nix_reader_ops cursor_ops))
     (BuildDerivation \<lparr>bd_drv = sample_drv, bd_mode = BCheck\<rparr>) (BuildDerivation \<lparr>bd_drv = sample_drv, bd_mode = BCheck\<rparr>)
     [] (nix_writer_new exact_alloc [])"
  by (rule request_roundtrip [OF mem.store_connection_axioms])
    (simp_all add: sample_drv_ok sample_layout_def vwrite.nix_writer_new_at)

text \<open>
  C17. So do the results: of builds (on success with the realisations of the outputs, on failure with the message), the
  information about paths, missing paths and collected garbage. An absent value stays absent.
\<close>

theorem results_roundtrip:
  assumes "store_connection put written sink_err flush wdelay A ops rest good src_err avail delay limit hi env cs"
    and "nw_at written limit env p nw"
  shows "(\<forall>b. build_result_ok limit hi cs b \<longrightarrow>
      arrives A put flush written rest good src_err hi env (ser_build_result cs (nix_writer_ops A put)) (de_build_result cs (nix_reader_ops ops)) b b p nw) \<and>
    (\<forall>i. pred_option (info_ok limit hi cs (snd env)) i \<longrightarrow>
      arrives A put flush written rest good src_err hi env
        (ser_optional_info (nix_writer_ops A put) (ser_path_info cs (nix_writer_ops A put))) (de_optional_info (nix_reader_ops ops) (de_path_info cs (nix_reader_ops ops))) i i p nw) \<and>
    (\<forall>q. paths_ok (qm_will_build q) \<and> paths_ok (qm_will_substitute q) \<and> paths_ok (qm_unknown q) \<longrightarrow>
      arrives A put flush written rest good src_err hi env (ser_query_missing cs (nix_writer_ops A put)) (de_query_missing cs (nix_reader_ops ops)) q q p nw) \<and>
    (\<forall>g. list_all (\<lambda>b. length b \<le> hi) (cr_paths_deleted g) \<and> length (cr_paths_deleted g) < 2 ^ 64 \<and>
        length (cr_paths_deleted g) * size_bytes L < 2 ^ 63 \<longrightarrow>
      arrives A put flush written rest good src_err hi env (ser_collect_response (nix_writer_ops A put)) (de_collect_response L (nix_reader_ops ops)) g g p nw)"
  using store_connection.result_arrives [OF assms(1) _ assms(2)] by blast

theorem results_roundtrip_witness:
  "arrives exact_alloc vec_put vec_flush (\<lambda>w. w) cursor_rest cursor_good (\<lambda>_. False) DEFAULT_MAX_BUF_SIZE (PROTOCOL_VERSION, default_dir)
     (ser_build_result bit_codecs (nix_writer_ops exact_alloc vec_put)) (de_build_result bit_codecs (nix_reader_ops cursor_ops))
     \<lparr>br_inner = BFailure \<lparr>bf_status = TimedOut, bf_error_msg = [1, 2], bf_is_non_deterministic = True\<rparr>,
      br_times_built = 1, br_start_time = 5, br_stop_time = 6, br_cpu_user = Some (Microseconds 7), br_cpu_system = None\<rparr>
     \<lparr>br_inner = BFailure \<lparr>bf_status = TimedOut, bf_error_msg = [1, 2], bf_is_non_deterministic = True\<rparr>,
      br_times_built = 1, br_start_time = 5, br_stop_time = 6, br_cpu_user = Some (Microseconds 7), br_cpu_system = None\<rparr>
     [] (nix_writer_new exact_alloc [])"
  by (rule results_roundtrip [THEN conjunct1, THEN spec, THEN mp, OF mem.store_connection_axioms vwrite.nix_writer_new_at])
    (simp add: build_result_ok_def DEFAULT_MAX_BUF_SIZE_def)

section \<open>The log\<close>

text \<open>
  C18. Log messages cross a connection of every version: what the daemon logs arrives as the message \<open>log_as_raw\<close> says, or, where that is
  nothing, is not written at all. From minor version 20 on nothing is lost but the level of a plain message; before, an
  activity arrives as its text, and results and the end of an activity are dropped. Every error whose message and traces are within the
  limits of the format arrives with its message, and with what its version keeps: from version 26 on its level and traces, while the exit
  status becomes 1; before, its exit status, while the level becomes \<open>Error\<close> and the traces are dropped.
\<close>

theorem log_messages_arrive:
  assumes "store_connection put written sink_err flush wdelay A ops rest good src_err avail delay limit hi env cs"
    and "nw_at written limit env p nw"
  shows "(\<forall>m. case log_as_raw (pv_minor (fst env)) m of
        None \<Rightarrow> ser_log_message (nix_writer_ops A put) m nw = Some (nw, Inr ())
      | Some r \<Rightarrow> raw_ok hi fsz tsz (pv_minor (fst env)) r \<longrightarrow>
          arrives A put flush written rest good src_err hi env (ser_log_message (nix_writer_ops A put))
            (de_raw_log_message other fsz tsz (nix_reader_ops ops)) m r p nw) \<and>
    (\<forall>e. length (le_msg e) \<le> hi \<and> (26 \<le> pv_minor (fst env) \<longrightarrow> traces_ok hi tsz (le_traces e)) \<longrightarrow>
      arrives A put flush written rest good src_err hi env (ser_raw_log_message (nix_writer_ops A put))
        (de_raw_log_message other fsz tsz (nix_reader_ops ops)) (RError e)
        (RError (if 26 \<le> pv_minor (fst env) then e\<lparr>le_exit_status := default_exit_status\<rparr>
           else e\<lparr>le_level := VError, le_traces := []\<rparr>)) p nw)"
  using store_connection.log_arrives [OF assms] store_connection.error_arrives [OF assms(1) _ assms(2)]
  by (simp add: error_fits_def error_kept_def)

theorem log_messages_arrive_witness:
  "arrives exact_alloc vec_put vec_flush (\<lambda>w. w) cursor_rest cursor_good (\<lambda>_. False) DEFAULT_MAX_BUF_SIZE (PROTOCOL_VERSION, default_dir)
     (ser_log_message (nix_writer_ops exact_alloc vec_put)) (de_raw_log_message (\<lambda>_. VVomit) 32 40 (nix_reader_ops cursor_ops))
     (LMessage \<lparr>ms_level = VInfo, ms_text = [1, 2]\<rparr>) (RNext [1, 2]) [] (nix_writer_new exact_alloc [])"
proof -
  have "log_as_raw (pv_minor (fst (PROTOCOL_VERSION, default_dir))) (LMessage \<lparr>ms_level = VInfo, ms_text = [1, 2]\<rparr>) = Some (RNext [1, 2])"
    by (simp add: log_as_raw_def)
  with log_messages_arrive [OF mem.store_connection_axioms vwrite.nix_writer_new_at, where fsz = 32 and tsz = 40 and other = "\<lambda>_. VVomit",
      THEN conjunct1, THEN spec, of "LMessage \<lparr>ms_level = VInfo, ms_text = [1, 2]\<rparr>"]
  show ?thesis by (simp add: DEFAULT_MAX_BUF_SIZE_def)
qed

section \<open>Fixed content addresses\<close>

text \<open>
  C35. An output of a derivation with a fixed content address is written, but never read: its hash is printed without the
  algorithm, and the reader asks for a hash with one. Whatever the hash, the name and the store directory, the
  reader fails on what the writer wrote, so a derivation with such an output cannot be sent.
\<close>

theorem fixed_output_refused:
  assumes "store_connection put written sink_err flush wdelay A ops rest good src_err avail delay limit hi env cs"
    and "digest_crates K md5_seen ring_seen ring_alg" "ca_ok ca" "name_ok (output_path_name drv_name output_name)" "nw_at written limit env p nw"
  shows "\<exists>nw'. send_value A put flush (write_derivation_output cs K (nix_writer_ops A put) drv_name output_name) (CAFixed ca) nw = Some (nw', Inr ()) \<and>
    (\<forall>nr S. nr_good good hi env nr \<and> written (nw_inner nw') @ S = p @ nr_rest rest nr \<longrightarrow>
      (\<exists>nr' e. read_derivation_output cs (nix_reader_ops ops) nr = Some (nr', Inl e) \<and> (src_err e \<or> e = invalid_data)))"
  by (rule store_connection.fixed_output_fails [OF assms])

theorem fixed_output_refused_witness:
  "\<exists>nw'. send_value exact_alloc vec_put vec_flush
       (write_derivation_output bit_codecs plain_crates (nix_writer_ops exact_alloc vec_put) (StorePathName ''a'') (OutputName ''out''))
       (CAFixed (Text (Sha256 (replicate 32 3)))) (nix_writer_new exact_alloc []) = Some (nw', Inr ()) \<and>
    (\<exists>nr'. read_derivation_output bit_codecs (nix_reader_ops cursor_ops) (rb_build nix_reader_builder \<lparr>cdata = nw_inner nw', cpos = 0\<rparr>) =
      Some (nr', Inl invalid_data))"
proof -
  have "ca_ok (Text (Sha256 (replicate 32 3)))" by (simp add: ca_ok_def sha256_ok_def)
  moreover have "name_ok (output_path_name (StorePathName ''a'') (OutputName ''out''))"
    by (simp add: output_path_name_def output_is_default_def name_ok_def MAX_NAME_LEN_def NAME_LOOKUP_def in_range_def)
  ultimately obtain nw' where n: "send_value exact_alloc vec_put vec_flush
       (write_derivation_output bit_codecs plain_crates (nix_writer_ops exact_alloc vec_put) (StorePathName ''a'') (OutputName ''out''))
       (CAFixed (Text (Sha256 (replicate 32 3)))) (nix_writer_new exact_alloc []) = Some (nw', Inr ())"
    "\<And>nr S. nr_good cursor_good DEFAULT_MAX_BUF_SIZE (PROTOCOL_VERSION, default_dir) nr \<and> nw_inner nw' @ S = [] @ nr_rest cursor_rest nr \<Longrightarrow>
      \<exists>nr' e. read_derivation_output bit_codecs (nix_reader_ops cursor_ops) nr = Some (nr', Inl e) \<and> (False \<or> e = invalid_data)"
    using fixed_output_refused [OF mem.store_connection_axioms plain.digest_crates_axioms _ _ vwrite.nix_writer_new_at] by blast
  show ?thesis
    using n(1) n(2) [of "rb_build nix_reader_builder \<lparr>cdata = nw_inner nw', cpos = 0\<rparr>" "[]"]
    by (intro exI [of _ nw']) (auto simp: nr_good_def nr_rest_def rb_build_def nix_reader_builder_def cursor_good_def cursor_rest_def)
qed

end
