(* ===== verification/Daemon_Error.thy ===== *)
theory Daemon_Error
  imports Messages
begin

text \<open>
  Errors of the daemon protocol and calls that log (\<open>types.rs\<close> and \<open>daemon_wire/logger.rs\<close> of \<open>harmonia-protocol\<close>). A
  \<open>DaemonError\<close> is a kind with a context: the operation it happened in and the fields on the way to it. Between daemon and client an error
  travels as a \<open>LogError\<close>.

  A \<open>ResultLog\<close> is a stream of log messages and, behind it, a result. For whom it is called by it is
  the process \<open>ResultLog\<close>, with the state that is left should the call be dropped after a message; driven to its end it is
  the state, the messages and the result (\<open>logged\<close>), \<open>None\<close> being that it never ends or panics.
\<close>

section \<open>Errors\<close>

record RemoteError =
  re_level :: Verbosity
  re_msg :: bytes
  re_exit_status :: u32
  re_traces :: "TraceLine list"

datatype DaemonErrorKind =
    WrongMagic u64
  | UnsupportedVersion ProtocolVersion
  | UnimplementedOperation Operation
  | NoSinkForLoggerWrite
  | NoSourceForLoggerRead
  | IOError io_error
  | Remote RemoteError
  | Custom string

record DaemonErrorContext =
  ec_operation :: "Operation option"
  ec_fields :: "string list"

record DaemonError =
  er_context :: DaemonErrorContext
  er_kind :: DaemonErrorKind

definition context_default :: DaemonErrorContext where
  "context_default = \<lparr>ec_operation = None, ec_fields = []\<rparr>"

definition error_of_kind :: "DaemonErrorKind \<Rightarrow> DaemonError" where
  "error_of_kind kind = \<lparr>er_context = context_default, er_kind = kind\<rparr>"

definition error_of_io :: "io_error \<Rightarrow> DaemonError" where
  "error_of_io e = \<lparr>er_context = context_default, er_kind = IOError e\<rparr>"

definition error_of_remote :: "RemoteError \<Rightarrow> DaemonError" where
  "error_of_remote e = \<lparr>er_context = context_default, er_kind = Remote e\<rparr>"

definition error_custom :: "string \<Rightarrow> DaemonError" where
  "error_custom source = error_of_kind (Custom source)"

definition error_unimplemented :: "Operation \<Rightarrow> DaemonError" where
  "error_unimplemented op =
     \<lparr>er_context = context_default\<lparr>ec_operation := Some op\<rparr>, er_kind = UnimplementedOperation op\<rparr>"

definition fill_operation :: "Operation \<Rightarrow> DaemonError \<Rightarrow> DaemonError" where
  "fill_operation op e =
     (if ec_operation (er_context e) = None then e\<lparr>er_context := (er_context e)\<lparr>ec_operation := Some op\<rparr>\<rparr> else e)"

definition add_field :: "string \<Rightarrow> DaemonError \<Rightarrow> DaemonError" where
  "add_field field e = e\<lparr>er_context := (er_context e)\<lparr>ec_fields := ec_fields (er_context e) @ [field]\<rparr>\<rparr>"

definition with_operation :: "('e \<Rightarrow> DaemonError) \<Rightarrow> Operation \<Rightarrow> 'e + 'a \<Rightarrow> DaemonError + 'a" where
  "with_operation into op = result_map_err (\<lambda>e. fill_operation op (into e))"

definition with_field :: "('e \<Rightarrow> DaemonError) \<Rightarrow> string \<Rightarrow> 'e + 'a \<Rightarrow> DaemonError + 'a" where
  "with_field into field = result_map_err (\<lambda>e. add_field field (into e))"

text \<open>What an error is on the wire, and what the client makes of it.\<close>

definition remote_of_log :: "LogError \<Rightarrow> RemoteError" where
  "remote_of_log e = \<lparr>re_level = le_level e, re_msg = le_msg e, re_exit_status = le_exit_status e, re_traces = le_traces e\<rparr>"

definition log_of_remote :: "RemoteError \<Rightarrow> LogError" where
  "log_of_remote e = \<lparr>le_level = re_level e, le_msg = re_msg e, le_exit_status = re_exit_status e, le_traces = re_traces e\<rparr>"

definition error_of_log :: "LogError \<Rightarrow> DaemonError" where
  "error_of_log e = \<lparr>er_context = context_default, er_kind = Remote (remote_of_log e)\<rparr>"

subsection \<open>Texts\<close>

primrec operation_name :: "Operation \<Rightarrow> string" where
  "operation_name OpIsValidPath = ''IsValidPath''"
| "operation_name OpQueryReferrers = ''QueryReferrers''"
| "operation_name OpAddToStore = ''AddToStore''"
| "operation_name OpBuildPaths = ''BuildPaths''"
| "operation_name OpEnsurePath = ''EnsurePath''"
| "operation_name OpAddTempRoot = ''AddTempRoot''"
| "operation_name OpAddIndirectRoot = ''AddIndirectRoot''"
| "operation_name OpFindRoots = ''FindRoots''"
| "operation_name OpSetOptions = ''SetOptions''"
| "operation_name OpCollectGarbage = ''CollectGarbage''"
| "operation_name OpQueryAllValidPaths = ''QueryAllValidPaths''"
| "operation_name OpQueryPathInfo = ''QueryPathInfo''"
| "operation_name OpQueryPathFromHashPart = ''QueryPathFromHashPart''"
| "operation_name OpQueryValidPaths = ''QueryValidPaths''"
| "operation_name OpQuerySubstitutablePaths = ''QuerySubstitutablePaths''"
| "operation_name OpQueryValidDerivers = ''QueryValidDerivers''"
| "operation_name OpOptimiseStore = ''OptimiseStore''"
| "operation_name OpVerifyStore = ''VerifyStore''"
| "operation_name OpBuildDerivation = ''BuildDerivation''"
| "operation_name OpAddSignatures = ''AddSignatures''"
| "operation_name OpNarFromPath = ''NarFromPath''"
| "operation_name OpAddToStoreNar = ''AddToStoreNar''"
| "operation_name OpQueryMissing = ''QueryMissing''"
| "operation_name OpQueryDerivationOutputMap = ''QueryDerivationOutputMap''"
| "operation_name OpRegisterDrvOutput = ''RegisterDrvOutput''"
| "operation_name OpQueryRealisation = ''QueryRealisation''"
| "operation_name OpAddMultipleToStore = ''AddMultipleToStore''"
| "operation_name OpAddBuildLog = ''AddBuildLog''"
| "operation_name OpBuildPathsWithResults = ''BuildPathsWithResults''"
| "operation_name OpAddPermRoot = ''AddPermRoot''"

text \<open>\<open>{:x}\<close> of the standard library.\<close>

fun show_hex :: "nat \<Rightarrow> string" where
  "show_hex n = (if n < 16 then [''0123456789abcdef'' ! n] else show_hex (n div 16) @ [''0123456789abcdef'' ! (n mod 16)])"

declare show_hex.simps [simp del]

primrec io_error_text :: "io_error \<Rightarrow> string" where
  "io_error_text (IoError kind msg) = msg"

text \<open>\<open>lossy\<close> is how the crate \<open>bstr\<close> displays bytes.\<close>

primrec kind_display :: "(bytes \<Rightarrow> string) \<Rightarrow> DaemonErrorKind \<Rightarrow> string" where
  "kind_display lossy (WrongMagic n) = ''wrong magic 0x'' @ show_hex (unat n)"
| "kind_display lossy (UnsupportedVersion v) = ''unsupported version '' @ version_display v"
| "kind_display lossy (UnimplementedOperation op) = ''unimplemented operation '' @ [CHR 39] @ operation_name op @ [CHR 39]"
| "kind_display lossy NoSinkForLoggerWrite = ''no source for logger write''"
| "kind_display lossy NoSourceForLoggerRead = ''no sink for logger read''"
| "kind_display lossy (IOError e) = ''io error '' @ io_error_text e"
| "kind_display lossy (Remote e) = ''remote error: '' @ lossy (re_msg e)"
| "kind_display lossy (Custom s) = s"

fun dotted :: "string list \<Rightarrow> string" where
  "dotted [] = []"
| "dotted (f # fs) = ''.'' @ f @ dotted fs"

definition context_display :: "DaemonErrorContext \<Rightarrow> string" where
  "context_display c =
     (case ec_operation c of
        Some op \<Rightarrow> operation_name op @ dotted (ec_fields c)
      | None \<Rightarrow> (case ec_fields c of [] \<Rightarrow> [] | f # fs \<Rightarrow> f @ dotted fs))"

definition error_display :: "(bytes \<Rightarrow> string) \<Rightarrow> DaemonError \<Rightarrow> string" where
  "error_display lossy e =
     (if ec_operation (er_context e) \<noteq> None \<or> ec_fields (er_context e) \<noteq> []
      then context_display (er_context e) @ '': '' @ kind_display lossy (er_kind e)
      else kind_display lossy (er_kind e))"

definition log_of_error :: "(bytes \<Rightarrow> string) \<Rightarrow> DaemonError \<Rightarrow> LogError" where
  "log_of_error lossy e =
     (case er_kind e of
        Remote r \<Rightarrow> log_of_remote r
      | _ \<Rightarrow> \<lparr>le_level = VError, le_msg = as_bytes (error_display lossy e), le_exit_status = 1, le_traces = []\<rparr>)"

section \<open>Calls with errors of their own\<close>

type_synonym ('s, 'e, 'a) outcome = "('s \<times> ('e + 'a)) option"

definition out_bind :: "('s, 'e, 'a) outcome \<Rightarrow> ('s \<Rightarrow> 'a \<Rightarrow> ('s, 'e, 'b) outcome) \<Rightarrow> ('s, 'e, 'b) outcome" where
  "out_bind m f = (case m of None \<Rightarrow> None | Some (s, Inl e) \<Rightarrow> Some (s, Inl e) | Some (s, Inr x) \<Rightarrow> f s x)"

lemma out_bind_simps [simp]:
  "out_bind (Some (s, Inr x)) f = f s x" "out_bind (Some (s, Inl e)) f = Some (s, Inl e)" "out_bind None f = None"
  by (simp_all add: out_bind_def)

text \<open>The call of a part of the state, with its error converted.\<close>

definition out_call :: "('t \<Rightarrow> 's) \<Rightarrow> ('d + 'a \<Rightarrow> 'e + 'a) \<Rightarrow> ('t, 'd, 'a) outcome \<Rightarrow> ('s, 'e, 'a) outcome" where
  "out_call put conv m = map_option (\<lambda>(t, x). (put t, conv x)) m"

lemma out_call_simps [simp]: "out_call put conv (Some (t, x)) = Some (put t, conv x)" "out_call put conv None = None"
  by (simp_all add: out_call_def)

abbreviation from_io :: "io_error + 'a \<Rightarrow> DaemonError + 'a" where
  "from_io \<equiv> result_map_err error_of_io"

section \<open>Calls that log\<close>

codatatype ('s, 'a) ResultLog =
    Logged 's LogMessage "('s, 'a) ResultLog"
  | Resolved 's "DaemonError + 'a"
  | Hangs

text \<open>The call logs \<open>ms\<close> and ends in the state \<open>s\<close> with the result \<open>x\<close>.\<close>

inductive runs :: "('s, 'a) ResultLog \<Rightarrow> LogMessage list \<Rightarrow> 's \<Rightarrow> DaemonError + 'a \<Rightarrow> bool" where
  runs_resolved: "runs (Resolved s x) [] s x"
| runs_logged: "runs rl ms s x \<Longrightarrow> runs (Logged s' m rl) (m # ms) s x"

inductive_simps runs_simps [simp]: "runs (Resolved s' y) ms s x" "runs (Logged s' m rl) ms s x" "runs Hangs ms s x"

type_synonym ('s, 'a) logged = "('s \<times> LogMessage list \<times> (DaemonError + 'a)) option"

text \<open>\<open>ResultLogExt\<close> and \<open>FutureResultExt\<close>.\<close>

definition log_map_ok :: "('a \<Rightarrow> 'b) \<Rightarrow> ('s, 'a) logged \<Rightarrow> ('s, 'b) logged" where
  "log_map_ok f = map_option (\<lambda>(s, ms, x). (s, ms, result_map f x))"

definition log_map_err :: "(DaemonError \<Rightarrow> DaemonError) \<Rightarrow> ('s, 'a) logged \<Rightarrow> ('s, 'a) logged" where
  "log_map_err f = map_option (\<lambda>(s, ms, x). (s, ms, result_map_err f x))"

definition log_fill_operation :: "Operation \<Rightarrow> ('s, 'a) logged \<Rightarrow> ('s, 'a) logged" where
  "log_fill_operation op = log_map_err (fill_operation op)"

definition log_and_then :: "('s, 'a) logged \<Rightarrow> ('s \<Rightarrow> 'a \<Rightarrow> ('s, DaemonError, 'b) outcome) \<Rightarrow> ('s, 'b) logged" where
  "log_and_then m f =
     (case m of
        None \<Rightarrow> None
      | Some (s, ms, Inl e) \<Rightarrow> Some (s, ms, Inl e)
      | Some (s, ms, Inr v) \<Rightarrow> map_option (\<lambda>(s, x). (s, ms, x)) (f s v))"

definition empty_logs :: "('s, DaemonError, 'a) outcome \<Rightarrow> ('s, 'a) logged" where
  "empty_logs = map_option (\<lambda>(s, x). (s, [], x))"

definition future_result :: "('s, DaemonError, 'b) outcome \<Rightarrow> ('s \<Rightarrow> 'b \<Rightarrow> ('s, 'a) logged) \<Rightarrow> ('s, 'a) logged" where
  "future_result fut body =
     (case fut of
        None \<Rightarrow> None
      | Some (s, Inl e) \<Rightarrow> Some (s, [], Inl e)
      | Some (s, Inr v) \<Rightarrow> body s v)"

lemmas logged_defs = log_map_ok_def log_map_err_def log_fill_operation_def empty_logs_def future_result_def

lemma fill_operation_once: "fill_operation op' (fill_operation op e) = fill_operation op e"
  by (cases "ec_operation (er_context e)") (simp_all add: fill_operation_def)

text \<open>An error that came from a daemon is sent on as it came; it crosses any number of connections unchanged.\<close>

lemma log_of_error_of_log: "log_of_error lossy (error_of_log e) = e"
  by (simp add: log_of_error_def error_of_log_def log_of_remote_def remote_of_log_def)

end
