(* ===== verification/Process_Stderr.thy ===== *)
theory Process_Stderr
  imports Daemon_Error Message_Wire
begin

text \<open>
  How a client follows a call of the daemon (\<open>ProcessStderr\<close> in \<open>daemon_wire/logger.rs\<close> of \<open>harmonia-protocol\<close>): it reads messages, hands
  on those that are log messages, serves the daemon's requests to read and write, and stops at the last message or at an
  error; the result is read behind. An \<open>Endpoint\<close> is one end of a connection: the operations of its reader and its writer, and what
  serialisers and decoders depend on.

  The fact: from the bytes of log messages and a last message the loop returns exactly these messages and
  stops right behind the last one.
\<close>

section \<open>The end of a connection\<close>

record ('r, 'w, 'm, 'd) Endpoint =
  ep_read :: "'r NixRead"
  ep_write :: "'w NixWrite"
  ep_flush :: "'w \<Rightarrow> ('w, unit) awaited"
  ep_set_read_version :: "'r \<Rightarrow> ProtocolVersion \<Rightarrow> 'r"
  ep_set_write_version :: "'w \<Rightarrow> ProtocolVersion \<Rightarrow> 'w"
  ep_codecs :: Codecs
  ep_crates :: "('m, 'd) Crates"
  ep_layout :: Layout
  ep_other :: "u16 \<Rightarrow> Verbosity"
  ep_field_size :: nat
  ep_trace_size :: nat

definition read_raw :: "('r, 'w, 'm, 'd) Endpoint \<Rightarrow> 'r \<Rightarrow> ('r, RawLogMessage) awaited" where
  "read_raw E r = required (de_raw_log_message (ep_other E) (ep_field_size E) (ep_trace_size E) (ep_read E) r)"

section \<open>\<open>ProcessStderr\<close>\<close>

text \<open>\<open>fill\<close> and \<open>consume\<close> are the operations of the source, \<open>put_all\<close> is \<open>write_all\<close> of the sink.\<close>

record ('r, 'w, 'b, 'k) ProcessStderr =
  ps_reader :: 'r
  ps_writer :: "'w option"
  ps_source :: "'b option"
  ps_sink :: "'k option"

definition stderr_new :: "'r \<Rightarrow> ('r, 'w, 'b, 'k) ProcessStderr" where
  "stderr_new reader = \<lparr>ps_reader = reader, ps_writer = None, ps_source = None, ps_sink = None\<rparr>"

definition stderr_with_source :: "('r, 'w, 'b, 'k) ProcessStderr \<Rightarrow> 'w \<Rightarrow> 'b \<Rightarrow> ('r, 'w, 'b, 'k) ProcessStderr" where
  "stderr_with_source ps writer source = ps\<lparr>ps_writer := Some writer, ps_source := Some source\<rparr>"

definition process_read ::
  "('r, 'w, 'm, 'd) Endpoint \<Rightarrow> ('b \<Rightarrow> ('b, bytes) awaited) \<Rightarrow> ('b \<Rightarrow> nat \<Rightarrow> 'b option) \<Rightarrow> nat \<Rightarrow>
     ('r, 'w, 'b, 'k) ProcessStderr \<Rightarrow> (('r, 'w, 'b, 'k) ProcessStderr, DaemonError, unit) outcome" where
  "process_read E fill consume len ps =
     (case ps_source ps of
        None \<Rightarrow> Some (ps, Inl (error_of_kind NoSourceForLoggerRead))
      | Some source \<Rightarrow>
     (case fill source of
        None \<Rightarrow> None
      | Some (source, Inl e) \<Rightarrow> Some (ps\<lparr>ps_source := Some source\<rparr>, Inl (error_of_io e))
      | Some (source, Inr buf) \<Rightarrow>
     (case ps_writer ps of
        None \<Rightarrow> None
      | Some writer \<Rightarrow>
     (case aw_bind (wr_slice (ep_write E) writer (take (min len (length buf)) buf)) (\<lambda>w _. ep_flush E w) of
        None \<Rightarrow> None
      | Some (writer, Inl e) \<Rightarrow> Some (ps\<lparr>ps_writer := Some writer, ps_source := Some source\<rparr>, Inl (error_of_io e))
      | Some (writer, Inr _) \<Rightarrow>
          map_option (\<lambda>source. (ps\<lparr>ps_writer := Some writer, ps_source := Some source\<rparr>, Inr ()))
            (consume source (min len (length buf)))))))"

text \<open>One round of the loop, and what it does: it hands on a message, goes on or breaks.\<close>

datatype stderr_step = Yields LogMessage | Continues | Breaks "DaemonError + unit"

definition stderr_round ::
  "('r, 'w, 'm, 'd) Endpoint \<Rightarrow> ('b \<Rightarrow> ('b, bytes) awaited) \<Rightarrow> ('b \<Rightarrow> nat \<Rightarrow> 'b option) \<Rightarrow> ('k \<Rightarrow> bytes \<Rightarrow> ('k, unit) awaited) \<Rightarrow>
     ('r, 'w, 'b, 'k) ProcessStderr \<Rightarrow> (('r, 'w, 'b, 'k) ProcessStderr \<times> stderr_step) option" where
  "stderr_round E fill consume put_all ps0 =
     (case read_raw E (ps_reader ps0) of
        None \<Rightarrow> None
      | Some (r, Inl e) \<Rightarrow> Some (ps0\<lparr>ps_reader := r\<rparr>, Breaks (Inl (error_of_io e)))
      | Some (r, Inr msg) \<Rightarrow>
     (let ps = ps0\<lparr>ps_reader := r\<rparr>
      in case msg of
        RNext text \<Rightarrow> Some (ps, Yields (LMessage \<lparr>ms_level = VError, ms_text = text\<rparr>))
      | RResult res \<Rightarrow> Some (ps, Yields (LResult res))
      | RStartActivity act \<Rightarrow> Some (ps, Yields (LStartActivity act))
      | RStopActivity act \<Rightarrow> Some (ps, Yields (LStopActivity act))
      | RRead len \<Rightarrow>
          map_option (\<lambda>(ps, x). (ps, case x of Inl e \<Rightarrow> Breaks (Inl e) | Inr _ \<Rightarrow> Continues)) (process_read E fill consume len ps)
      | RWrite buf \<Rightarrow>
          (case ps_sink ps of
             None \<Rightarrow> Some (ps, Continues)
           | Some sink \<Rightarrow>
               map_option (\<lambda>(sink, x). (ps\<lparr>ps_sink := Some sink\<rparr>, case x of Inl e \<Rightarrow> Breaks (Inl (error_of_io e)) | Inr _ \<Rightarrow> Continues))
                 (put_all sink buf))
      | RLast \<Rightarrow> map_option (\<lambda>(r, x). (ps\<lparr>ps_reader := r\<rparr>, Breaks (from_io x))) (required (de_unit (ep_read E) r))
      | RError err \<Rightarrow> Some (ps, Breaks (Inl (error_of_log err)))))"

partial_function (option) stderr_loop ::
  "('r, 'w, 'm, 'd) Endpoint \<Rightarrow> ('b \<Rightarrow> ('b, bytes) awaited) \<Rightarrow> ('b \<Rightarrow> nat \<Rightarrow> 'b option) \<Rightarrow> ('k \<Rightarrow> bytes \<Rightarrow> ('k, unit) awaited) \<Rightarrow>
     ('r, 'w, 'b, 'k) ProcessStderr \<Rightarrow> LogMessage list \<Rightarrow> (('r, 'w, 'b, 'k) ProcessStderr, unit) logged" where
  "stderr_loop E fill consume put_all ps ms =
     Option.bind (stderr_round E fill consume put_all ps) (\<lambda>(ps, step). case step of
        Yields m \<Rightarrow> stderr_loop E fill consume put_all ps (ms @ [m])
      | Continues \<Rightarrow> stderr_loop E fill consume put_all ps ms
      | Breaks x \<Rightarrow> Some (ps, ms, x))"

text \<open>The stream and its result: \<open>read_result\<close> reads a value, unless there was an error.\<close>

definition process_stderr ::
  "('r, 'w, 'm, 'd) Endpoint \<Rightarrow> ('b \<Rightarrow> ('b, bytes) awaited) \<Rightarrow> ('b \<Rightarrow> nat \<Rightarrow> 'b option) \<Rightarrow> ('k \<Rightarrow> bytes \<Rightarrow> ('k, unit) awaited) \<Rightarrow>
     ('r \<Rightarrow> ('r, 'a option) awaited) \<Rightarrow> ('r, 'w, 'b, 'k) ProcessStderr \<Rightarrow> (('r, 'w, 'b, 'k) ProcessStderr, 'a) logged" where
  "process_stderr E fill consume put_all de ps =
     log_and_then (stderr_loop E fill consume put_all ps [])
       (\<lambda>ps _. out_call (\<lambda>r. ps\<lparr>ps_reader := r\<rparr>) from_io (required (de (ps_reader ps))))"

text \<open>Without source and sink only the reader changes.\<close>

definition follow :: "('r, 'w, 'm, 'd) Endpoint \<Rightarrow> ('r \<Rightarrow> ('r, 'a option) awaited) \<Rightarrow> 'r \<Rightarrow> ('r, 'a) logged" where
  "follow E de r = map_option (\<lambda>(ps, y). (ps_reader ps, y))
     (process_stderr E (\<lambda>_ :: unit. None) (\<lambda>_ _. None) (\<lambda>_ _. None) de (stderr_new r :: ('r, 'w, unit, unit) ProcessStderr))"

section \<open>What the loop returns\<close>

text \<open>What the client hands on of a message.\<close>

fun log_of_raw :: "RawLogMessage \<Rightarrow> LogMessage option" where
  "log_of_raw (RNext text) = Some (LMessage \<lparr>ms_level = VError, ms_text = text\<rparr>)"
| "log_of_raw (RResult res) = Some (LResult res)"
| "log_of_raw (RStartActivity act) = Some (LStartActivity act)"
| "log_of_raw (RStopActivity act) = Some (LStopActivity act)"
| "log_of_raw _ = None"

lemma stderr_loop_log:
  assumes "read_raw E (ps_reader ps) = Some (r, Inr msg)" "log_of_raw msg = Some m"
  shows "stderr_loop E fill consume put_all ps ms = stderr_loop E fill consume put_all (ps\<lparr>ps_reader := r\<rparr>) (ms @ [m])"
  using assms by (subst stderr_loop.simps) (cases msg; simp add: stderr_round_def)

lemma stderr_loop_last:
  assumes "read_raw E (ps_reader ps) = Some (r, Inr RLast)"
  shows "stderr_loop E fill consume put_all ps ms = Some (ps\<lparr>ps_reader := r\<rparr>, ms, Inr ())"
  using assms by (subst stderr_loop.simps) (simp add: stderr_round_def required_def de_unit_def)

lemma stderr_loop_error:
  assumes "read_raw E (ps_reader ps) = Some (r, Inr (RError err))"
  shows "stderr_loop E fill consume put_all ps ms = Some (ps\<lparr>ps_reader := r\<rparr>, ms, Inl (error_of_log err))"
  using assms by (subst stderr_loop.simps) (simp add: stderr_round_def)

lemma stderr_loop_failed:
  assumes "read_raw E (ps_reader ps) = Some (r, Inl e)"
  shows "stderr_loop E fill consume put_all ps ms = Some (ps\<lparr>ps_reader := r\<rparr>, ms, Inl (error_of_io e))"
  using assms by (subst stderr_loop.simps) (simp add: stderr_round_def)

lemma got_value_never:
  assumes "got_value (\<lambda>_. False) good rest v S m"
  obtains r where "m = Some (r, Inr v)" "good r" "rest r = S"
proof -
  obtain r x where "m = Some (r, x)" "case x of Inl e \<Rightarrow> False | Inr y \<Rightarrow> y = v \<and> good r \<and> rest r = S"
    using assms by (auto simp: got_value_def)
  then show thesis using that by (cases x) auto
qed

text \<open>A log is read off the front of a stream; \<open>wire\<close> is the format of the messages.\<close>

lemma stderr_loop_logs:
  assumes rd: "elem_reader rest good (\<lambda>_. False) (read_raw E) wire"
    and "list_all2 (\<lambda>(msg, m) b. wire msg b \<and> log_of_raw msg = Some m) msgs bs"
    and "good (ps_reader ps)" "rest (ps_reader ps) = concat bs @ S"
  shows "\<exists>r. good r \<and> rest r = S \<and>
    stderr_loop E fill consume put_all ps ms = stderr_loop E fill consume put_all (ps\<lparr>ps_reader := r\<rparr>) (ms @ map snd msgs)"
  using assms(2-)
proof (induction msgs bs arbitrary: ps ms rule: list_all2_induct)
  case Nil
  then show ?case by (intro exI [of _ "ps_reader ps"]) simp
next
  case (Cons x msgs b bs)
  obtain msg m where x: "x = (msg, m)" "wire msg b" "log_of_raw msg = Some m" using Cons.hyps by (cases x) auto
  have "got_value (\<lambda>_. False) good rest msg (concat bs @ S) (read_raw E (ps_reader ps))"
    using elem_reader.elem_complete [OF rd Cons.prems(1) x(2)] Cons.prems(2) by simp
  then obtain r where r: "read_raw E (ps_reader ps) = Some (r, Inr msg)" "good r" "rest r = concat bs @ S"
    by (rule got_value_never)
  from Cons.IH [of "ps\<lparr>ps_reader := r\<rparr>" "ms @ [m]"] r(2,3)
  obtain r' where "good r'" "rest r' = S" "stderr_loop E fill consume put_all (ps\<lparr>ps_reader := r\<rparr>) (ms @ [m]) =
      stderr_loop E fill consume put_all (ps\<lparr>ps_reader := r'\<rparr>) (ms @ [m] @ map snd msgs)" by auto
  with stderr_loop_log [OF r(1) x(3)] x(1) show ?case by auto
qed

end
