(* ===== verification/Daemon_Client.thy ===== *)
theory Daemon_Client
  imports Process_Stderr Nix_Reader Nix_Writer
begin

text \<open>
  The client of a daemon (\<open>harmonia-store-remote/src/client.rs\<close>): the settings of a connection, the handshake, and one function per operation. A
  call writes the operation and its arguments, flushes, and follows the log to the result; every error is told the
  operation. The reader below \<open>NixReader\<close> (\<open>Lending\<close> over \<open>BytesReader\<close>) and the sink are parameters. The operations that upload
  an archive are given up to the point where the archive is copied.
\<close>

section \<open>The order of realisations\<close>

instantiation DrvOutput_ext :: (linorder) linorder
begin

definition less_DrvOutput_ext :: "'a DrvOutput_scheme \<Rightarrow> 'a DrvOutput_scheme \<Rightarrow> bool" where
  "less_DrvOutput_ext a b \<longleftrightarrow> do_drv_path a < do_drv_path b \<or> do_drv_path a = do_drv_path b \<and>
     (do_output_name a < do_output_name b \<or> do_output_name a = do_output_name b \<and> DrvOutput.more a < DrvOutput.more b)"

definition less_eq_DrvOutput_ext :: "'a DrvOutput_scheme \<Rightarrow> 'a DrvOutput_scheme \<Rightarrow> bool" where
  "less_eq_DrvOutput_ext a b \<longleftrightarrow> a < b \<or> a = b"

instance
proof
  fix x y :: "'a DrvOutput_scheme"
  have "x = y" if "do_drv_path x = do_drv_path y" "do_output_name x = do_output_name y" "DrvOutput.more x = DrvOutput.more y"
    using that by (cases x; cases y) simp
  then show "x \<le> y \<or> y \<le> x"
    unfolding less_eq_DrvOutput_ext_def less_DrvOutput_ext_def by (metis neqE)
qed (auto simp: less_eq_DrvOutput_ext_def less_DrvOutput_ext_def)

end

instantiation UnkeyedRealisation_ext :: (linorder) linorder
begin

definition less_UnkeyedRealisation_ext :: "'a UnkeyedRealisation_scheme \<Rightarrow> 'a UnkeyedRealisation_scheme \<Rightarrow> bool" where
  "less_UnkeyedRealisation_ext a b \<longleftrightarrow> out_path a < out_path b \<or> out_path a = out_path b \<and>
     (signatures a < signatures b \<or> signatures a = signatures b \<and> UnkeyedRealisation.more a < UnkeyedRealisation.more b)"

definition less_eq_UnkeyedRealisation_ext :: "'a UnkeyedRealisation_scheme \<Rightarrow> 'a UnkeyedRealisation_scheme \<Rightarrow> bool" where
  "less_eq_UnkeyedRealisation_ext a b \<longleftrightarrow> a < b \<or> a = b"

instance
proof
  fix x y :: "'a UnkeyedRealisation_scheme"
  have "x = y" if "out_path x = out_path y" "signatures x = signatures y" "UnkeyedRealisation.more x = UnkeyedRealisation.more y"
    using that by (cases x; cases y) simp
  then show "x \<le> y \<or> y \<le> x"
    unfolding less_eq_UnkeyedRealisation_ext_def less_UnkeyedRealisation_ext_def by (metis neqE)
qed (auto simp: less_eq_UnkeyedRealisation_ext_def less_UnkeyedRealisation_ext_def)

end

instantiation Realisation_ext :: (linorder) linorder
begin

definition less_Realisation_ext :: "'a Realisation_scheme \<Rightarrow> 'a Realisation_scheme \<Rightarrow> bool" where
  "less_Realisation_ext a b \<longleftrightarrow> rl_key a < rl_key b \<or> rl_key a = rl_key b \<and>
     (rl_value a < rl_value b \<or> rl_value a = rl_value b \<and> Realisation.more a < Realisation.more b)"

definition less_eq_Realisation_ext :: "'a Realisation_scheme \<Rightarrow> 'a Realisation_scheme \<Rightarrow> bool" where
  "less_eq_Realisation_ext a b \<longleftrightarrow> a < b \<or> a = b"

instance
proof
  fix x y :: "'a Realisation_scheme"
  have "x = y" if "rl_key x = rl_key y" "rl_value x = rl_value y" "Realisation.more x = Realisation.more y"
    using that by (cases x; cases y) simp
  then show "x \<le> y \<or> y \<le> x"
    unfolding less_eq_Realisation_ext_def less_Realisation_ext_def by (metis neqE)
qed (auto simp: less_eq_Realisation_ext_def less_Realisation_ext_def)

end

section \<open>Settings\<close>

definition CLIENT_MAGIC :: u64 where "CLIENT_MAGIC = 0x6e697863"
definition SERVER_MAGIC :: u64 where "SERVER_MAGIC = 0x6478696f"

record DaemonClientBuilder =
  cb_store_dir :: StoreDir
  cb_host :: "string option"
  cb_min_version :: ProtocolVersion
  cb_max_version :: ProtocolVersion
  cb_reader_builder :: NixReaderBuilder
  cb_writer_builder :: NixWriterBuilder

definition client_builder_default :: DaemonClientBuilder where
  "client_builder_default = \<lparr>cb_store_dir = default_dir, cb_host = None, cb_min_version = PROTOCOL_VERSION_MIN,
     cb_max_version = PROTOCOL_VERSION, cb_reader_builder = nix_reader_builder, cb_writer_builder = nix_writer_builder\<rparr>"

definition cb_set_store_dir :: "DaemonClientBuilder \<Rightarrow> StoreDir \<Rightarrow> DaemonClientBuilder" where
  "cb_set_store_dir b store_dir = b\<lparr>cb_store_dir := store_dir\<rparr>"

definition cb_set_host :: "DaemonClientBuilder \<Rightarrow> string \<Rightarrow> DaemonClientBuilder" where
  "cb_set_host b host = b\<lparr>cb_host := Some host\<rparr>"

definition cb_clear_host :: "DaemonClientBuilder \<Rightarrow> DaemonClientBuilder" where
  "cb_clear_host b = b\<lparr>cb_host := None\<rparr>"

definition cb_set_min_version :: "DaemonClientBuilder \<Rightarrow> ProtocolVersion \<Rightarrow> DaemonClientBuilder option" where
  "cb_set_min_version b version = (if PROTOCOL_VERSION_MIN \<le> version then Some (b\<lparr>cb_min_version := version\<rparr>) else None)"

definition cb_set_max_version :: "DaemonClientBuilder \<Rightarrow> ProtocolVersion \<Rightarrow> DaemonClientBuilder option" where
  "cb_set_max_version b version = (if version \<le> PROTOCOL_VERSION then Some (b\<lparr>cb_max_version := version\<rparr>) else None)"

record ('r, 'w) DaemonHandshakeClient =
  hc_host :: string
  hc_min_version :: ProtocolVersion
  hc_max_version :: ProtocolVersion
  hc_reader :: 'r
  hc_writer :: 'w

definition cb_build :: "Alloc \<Rightarrow> DaemonClientBuilder \<Rightarrow> 'r \<Rightarrow> 'w \<Rightarrow> ('r NixReader, 'w NixWriter) DaemonHandshakeClient" where
  "cb_build A b reader writer =
     \<lparr>hc_host = (case cb_host b of Some host \<Rightarrow> host | None \<Rightarrow> ''unknown''),
      hc_min_version = cb_min_version b, hc_max_version = cb_max_version b,
      hc_reader = rb_build (rb_set_store_dir (cb_reader_builder b) (cb_store_dir b)) reader,
      hc_writer = wb_build A (wb_set_store_dir (cb_writer_builder b) (cb_store_dir b)) writer\<rparr>"

section \<open>The handshake\<close>

definition ser_version :: "('w, ProtocolVersion) serializer" where
  "ser_version W = ser_into version_to_u16 (ser_u16 W)"

definition de_version :: "'r NixRead \<Rightarrow> 'r \<Rightarrow> ('r, ProtocolVersion option) awaited" where
  "de_version R = de_from version_from_u16 (de_u16 R)"

text \<open>A step of the reader or of the writer, whose errors get the name of a field.\<close>

definition read_field :: "string \<Rightarrow> ('r \<Rightarrow> ('r, 'a) awaited) \<Rightarrow> 'r \<times> 'w \<Rightarrow> ('r \<times> 'w, DaemonError, 'a) outcome" where
  "read_field field f c = out_call (\<lambda>r. (r, snd c)) (with_field error_of_io field) (f (fst c))"

definition write_field :: "string \<Rightarrow> ('w \<Rightarrow> ('w, unit) awaited) \<Rightarrow> 'r \<times> 'w \<Rightarrow> ('r \<times> 'w, DaemonError, unit) outcome" where
  "write_field field f c = out_call (\<lambda>w. (fst c, w)) (with_field error_of_io field) (f (snd c))"

definition write_step :: "('w \<Rightarrow> ('w, unit) awaited) \<Rightarrow> 'r \<times> 'w \<Rightarrow> ('r \<times> 'w, DaemonError, unit) outcome" where
  "write_step f c = out_call (\<lambda>w. (fst c, w)) from_io (f (snd c))"

definition since :: "u8 \<Rightarrow> ProtocolVersion \<Rightarrow> 'a \<Rightarrow> ('s \<Rightarrow> ('s, 'e, 'a) outcome) \<Rightarrow> 's \<Rightarrow> ('s, 'e, 'a) outcome" where
  "since minor version d f s = (if minor \<le> pv_minor version then f s else Some (s, Inr d))"

definition agree_version ::
  "('r, 'w, 'm, 'd) Endpoint \<Rightarrow> ProtocolVersion \<Rightarrow> 'r \<times> 'w \<Rightarrow> 'r \<times> 'w" where
  "agree_version E version c = (ep_set_read_version E (fst c) version, ep_set_write_version E (snd c) version)"

text \<open>What follows once the version is agreed upon.\<close>

definition client_settle ::
  "('r, 'w, 'm, 'd) Endpoint \<Rightarrow> ProtocolVersion \<Rightarrow> 'r \<times> 'w \<Rightarrow> ('r \<times> 'w, DaemonError, string option \<times> TrustLevel) outcome" where
  "client_settle E version c0 =
     out_bind (since 14 version () (write_field ''sendCpu'' (ser_bool (ep_write E) False)) c0) (\<lambda>c _.
     out_bind (since 11 version () (write_field ''reserveSpace'' (ser_bool (ep_write E) False)) c) (\<lambda>c _.
     out_bind (since 33 version None (\<lambda>c. out_bind (write_step (ep_flush E) c) (\<lambda>c _.
         out_bind (read_field ''nixVersion'' (\<lambda>r. required (de_string (ep_read E) r)) c) (\<lambda>c v. Some (c, Inr (Some v))))) c)
       (\<lambda>c daemon_nix_version.
     out_bind (since 35 version TUnknown (read_field ''trusted'' (\<lambda>r. required (de_trust_level (ep_read E) r))) c) (\<lambda>c remote_trusts_us.
     out_bind (write_step (ep_flush E) c) (\<lambda>c _.
     Some (c, Inr (daemon_nix_version, remote_trusts_us)))))))"

definition client_greet ::
  "('r, 'w, 'm, 'd) Endpoint \<Rightarrow> ProtocolVersion \<Rightarrow> ProtocolVersion \<Rightarrow> 'r \<times> 'w \<Rightarrow>
     ('r \<times> 'w, DaemonError, string option \<times> TrustLevel) outcome" where
  "client_greet E min_version max_version c0 =
     out_bind (write_field ''clientMagic'' (\<lambda>w. wr_number (ep_write E) w CLIENT_MAGIC) c0) (\<lambda>c _.
     out_bind (write_field ''clientMagic'' (ep_flush E) c) (\<lambda>c _.
     out_bind (read_field ''serverMagic'' (read_number (ep_read E)) c) (\<lambda>c magic.
     if magic \<noteq> SERVER_MAGIC then Some (c, Inl (add_field ''serverMagic'' (error_of_kind (WrongMagic magic)))) else
     out_bind (read_field ''protocolVersion'' (\<lambda>r. required (de_version (ep_read E) r)) c) (\<lambda>c server_version.
     let version = min server_version max_version in
     if version < min_version then Some (c, Inl (add_field ''protocolVersion'' (error_of_kind (UnsupportedVersion version)))) else
     out_bind (write_field ''clientVersion'' (ser_version (ep_write E) version) c) (\<lambda>c _.
     client_settle E version (agree_version E version c))))))"

record ('r, 'w) DaemonClient =
  cl_id :: u64
  cl_host :: string
  cl_reader :: 'r
  cl_writer :: 'w
  cl_daemon_nix_version :: "string option"
  cl_remote_trusts_us :: TrustLevel

text \<open>\<open>client_id\<close> is the value of the counter \<open>CLIENT_ID\<close>.\<close>

definition client_handshake ::
  "('r, 'w, 'm, 'd) Endpoint \<Rightarrow> u64 \<Rightarrow> ('r, 'w) DaemonHandshakeClient \<Rightarrow> ('r \<times> 'w, ('r, 'w) DaemonClient) logged" where
  "client_handshake E client_id hc =
     future_result (client_greet E (hc_min_version hc) (hc_max_version hc) (hc_reader hc, hc_writer hc)) (\<lambda>(r, w) (nix_version, trust).
       map_option (\<lambda>(r, ms, x). ((r, w), ms, result_map (\<lambda>_. \<lparr>cl_id = client_id, cl_host = hc_host hc, cl_reader = r, cl_writer = w,
           cl_daemon_nix_version = nix_version, cl_remote_trusts_us = trust\<rparr>) x))
         (follow E (de_unit (ep_read E)) r))"

definition client_version :: "('r, 'w, 'm, 'd) Endpoint \<Rightarrow> ('r, 'w) DaemonClient \<Rightarrow> ProtocolVersion" where
  "client_version E c = wr_version (ep_write E) (cl_writer c)"

definition client_trust_level :: "('r, 'w) DaemonClient \<Rightarrow> TrustLevel" where
  "client_trust_level c = cl_remote_trusts_us c"

section \<open>Calls\<close>

fun write_values :: "('w \<Rightarrow> ('w, unit) awaited) list \<Rightarrow> 'w \<Rightarrow> ('w, unit) awaited" where
  "write_values [] w = Some (w, Inr ())"
| "write_values (f # fs) w = aw_bind (f w) (\<lambda>w _. write_values fs w)"

definition client_write ::
  "('w \<Rightarrow> ('w, unit) awaited) \<Rightarrow> ('r, 'w) DaemonClient \<Rightarrow> (('r, 'w) DaemonClient, DaemonError, unit) outcome" where
  "client_write f c = out_call (\<lambda>w. c\<lparr>cl_writer := w\<rparr>) from_io (f (cl_writer c))"

definition client_process_stderr ::
  "('r, 'w, 'm, 'd) Endpoint \<Rightarrow> ('r \<Rightarrow> ('r, 'a option) awaited) \<Rightarrow> ('r, 'w) DaemonClient \<Rightarrow> (('r, 'w) DaemonClient, 'a) logged" where
  "client_process_stderr E de c =
     future_result (client_write (ep_flush E) c) (\<lambda>c _.
       map_option (\<lambda>(r, ms, x). (c\<lparr>cl_reader := r\<rparr>, ms, x)) (follow E de (cl_reader c)))"

definition client_call ::
  "('r, 'w, 'm, 'd) Endpoint \<Rightarrow> Operation \<Rightarrow> ('w \<Rightarrow> ('w, unit) awaited) list \<Rightarrow> ('r \<Rightarrow> ('r, 'a option) awaited) \<Rightarrow>
     ('r, 'w) DaemonClient \<Rightarrow> (('r, 'w) DaemonClient, 'a) logged" where
  "client_call E op args de c =
     log_fill_operation op
       (future_result (client_write (write_values (ser_operation (ep_write E) op # args)) c) (\<lambda>c _. client_process_stderr E de c))"

definition client_set_options ::
  "('r, 'w, 'm, 'd) Endpoint \<Rightarrow> ClientOptions \<Rightarrow> ('r, 'w) DaemonClient \<Rightarrow> (('r, 'w) DaemonClient, unit) logged" where
  "client_set_options E options c =
     client_call E OpSetOptions [ser_client_options (ep_write E) options]
       (de_unit (ep_read E)) c"

definition client_is_valid_path ::
  "('r, 'w, 'm, 'd) Endpoint \<Rightarrow> StorePath \<Rightarrow> ('r, 'w) DaemonClient \<Rightarrow> (('r, 'w) DaemonClient, bool) logged" where
  "client_is_valid_path E path c =
     client_call E OpIsValidPath [ser_store_path (ep_codecs E) (ep_write E) path]
       (de_bool (ep_read E)) c"

definition client_query_valid_paths ::
  "('r, 'w, 'm, 'd) Endpoint \<Rightarrow> StorePath list \<Rightarrow> bool \<Rightarrow> ('r, 'w) DaemonClient \<Rightarrow> (('r, 'w) DaemonClient, StorePath list) logged" where
  "client_query_valid_paths E paths substitute c =
     client_call E OpQueryValidPaths [ser_set (ep_write E) (ser_store_path (ep_codecs E) (ep_write E)) paths,
        \<lambda>w. if 27 \<le> pv_minor (wr_version (ep_write E) w) then ser_bool (ep_write E) substitute w else Some (w, Inr ())]
       (de_set (ep_read E) (de_store_path (ep_codecs E) (ep_read E))) c"

definition client_query_path_info ::
  "('r, 'w, 'm, 'd) Endpoint \<Rightarrow> StorePath \<Rightarrow> ('r, 'w) DaemonClient \<Rightarrow> (('r, 'w) DaemonClient, UnkeyedValidPathInfo option) logged" where
  "client_query_path_info E path c =
     client_call E OpQueryPathInfo [ser_store_path (ep_codecs E) (ep_write E) path]
       (de_optional_info (ep_read E) (de_path_info (ep_codecs E) (ep_read E))) c"

definition client_build_paths ::
  "('r, 'w, 'm, 'd) Endpoint \<Rightarrow> DerivedPath list \<Rightarrow> BuildMode \<Rightarrow> ('r, 'w) DaemonClient \<Rightarrow> (('r, 'w) DaemonClient, unit) logged" where
  "client_build_paths E paths mode c =
     client_call E OpBuildPaths [ser_vec (ep_write E) (ser_derived_path (ep_codecs E) (ep_write E)) paths,
        ser_build_mode (ep_write E) mode]
       (de_ignored_one (ep_read E)) c"

definition client_build_paths_with_results ::
  "('r, 'w, 'm, 'd) Endpoint \<Rightarrow> DerivedPath list \<Rightarrow> BuildMode \<Rightarrow> ('r, 'w) DaemonClient \<Rightarrow> (('r, 'w) DaemonClient, KeyedBuildResult list) logged" where
  "client_build_paths_with_results E paths mode c =
     client_call E OpBuildPathsWithResults [ser_vec (ep_write E) (ser_derived_path (ep_codecs E) (ep_write E)) paths,
        ser_build_mode (ep_write E) mode]
       (de_vec (size_keyed_result (ep_layout E)) (ep_read E) (de_keyed_result (ep_codecs E) (ep_read E))) c"

definition client_build_derivation ::
  "('r, 'w, 'm, 'd) Endpoint \<Rightarrow> StorePath \<Rightarrow> 'j BasicDerivation \<Rightarrow> BuildMode \<Rightarrow> ('r, 'w) DaemonClient \<Rightarrow> (('r, 'w) DaemonClient, BuildResult) logged" where
  "client_build_derivation E drv_path drv mode c =
     client_call E OpBuildDerivation [ser_basic_derivation (ep_codecs E) (ep_crates E) (ep_write E) (drv_path, drv),
        ser_build_mode (ep_write E) mode]
       (de_build_result (ep_codecs E) (ep_read E)) c"

definition client_query_missing ::
  "('r, 'w, 'm, 'd) Endpoint \<Rightarrow> DerivedPath list \<Rightarrow> ('r, 'w) DaemonClient \<Rightarrow> (('r, 'w) DaemonClient, QueryMissingResult) logged" where
  "client_query_missing E paths c =
     client_call E OpQueryMissing [ser_vec (ep_write E) (ser_derived_path (ep_codecs E) (ep_write E)) paths]
       (de_query_missing (ep_codecs E) (ep_read E)) c"

definition client_query_all_valid_paths ::
  "('r, 'w, 'm, 'd) Endpoint \<Rightarrow> ('r, 'w) DaemonClient \<Rightarrow> (('r, 'w) DaemonClient, StorePath list) logged" where
  "client_query_all_valid_paths E c =
     client_call E OpQueryAllValidPaths []
       (de_set (ep_read E) (de_store_path (ep_codecs E) (ep_read E))) c"

definition client_query_referrers ::
  "('r, 'w, 'm, 'd) Endpoint \<Rightarrow> StorePath \<Rightarrow> ('r, 'w) DaemonClient \<Rightarrow> (('r, 'w) DaemonClient, StorePath list) logged" where
  "client_query_referrers E path c =
     client_call E OpQueryReferrers [ser_store_path (ep_codecs E) (ep_write E) path]
       (de_set (ep_read E) (de_store_path (ep_codecs E) (ep_read E))) c"

definition client_ensure_path ::
  "('r, 'w, 'm, 'd) Endpoint \<Rightarrow> StorePath \<Rightarrow> ('r, 'w) DaemonClient \<Rightarrow> (('r, 'w) DaemonClient, unit) logged" where
  "client_ensure_path E path c =
     client_call E OpEnsurePath [ser_store_path (ep_codecs E) (ep_write E) path]
       (de_unit (ep_read E)) c"

definition client_add_temp_root ::
  "('r, 'w, 'm, 'd) Endpoint \<Rightarrow> StorePath \<Rightarrow> ('r, 'w) DaemonClient \<Rightarrow> (('r, 'w) DaemonClient, unit) logged" where
  "client_add_temp_root E path c =
     client_call E OpAddTempRoot [ser_store_path (ep_codecs E) (ep_write E) path]
       (de_unit (ep_read E)) c"

definition client_add_indirect_root ::
  "('r, 'w, 'm, 'd) Endpoint \<Rightarrow> bytes \<Rightarrow> ('r, 'w) DaemonClient \<Rightarrow> (('r, 'w) DaemonClient, unit) logged" where
  "client_add_indirect_root E path c =
     client_call E OpAddIndirectRoot [ser_bytes (ep_write E) path]
       (de_unit (ep_read E)) c"

definition client_find_roots ::
  "('r, 'w, 'm, 'd) Endpoint \<Rightarrow> ('r, 'w) DaemonClient \<Rightarrow> (('r, 'w) DaemonClient, (bytes \<times> StorePath) list) logged" where
  "client_find_roots E c =
     client_call E OpFindRoots []
       (de_map (ep_read E) (de_bytes (ep_read E)) (de_store_path (ep_codecs E) (ep_read E))) c"

definition client_collect_garbage ::
  "('r, 'w, 'm, 'd) Endpoint \<Rightarrow> GCAction \<Rightarrow> StorePath list \<Rightarrow> bool \<Rightarrow> u64 \<Rightarrow> ('r, 'w) DaemonClient \<Rightarrow> (('r, 'w) DaemonClient, CollectGarbageResponse) logged" where
  "client_collect_garbage E action paths_to_delete ignore_liveness max_freed c =
     client_call E OpCollectGarbage [ser_gc_action (ep_write E) action,
        ser_set (ep_write E) (ser_store_path (ep_codecs E) (ep_write E)) paths_to_delete,
        ser_bool (ep_write E) ignore_liveness,
        ser_u64 (ep_write E) max_freed]
       (de_collect_response (ep_layout E) (ep_read E)) c"

definition client_query_path_from_hash_part ::
  "('r, 'w, 'm, 'd) Endpoint \<Rightarrow> StorePathHash \<Rightarrow> ('r, 'w) DaemonClient \<Rightarrow> (('r, 'w) DaemonClient, StorePath option) logged" where
  "client_query_path_from_hash_part E hash c =
     client_call E OpQueryPathFromHashPart [ser_store_path_hash (ep_codecs E) (ep_write E) hash]
       (de_optional_path (ep_codecs E) (ep_read E)) c"

definition client_query_substitutable_paths ::
  "('r, 'w, 'm, 'd) Endpoint \<Rightarrow> StorePath list \<Rightarrow> ('r, 'w) DaemonClient \<Rightarrow> (('r, 'w) DaemonClient, StorePath list) logged" where
  "client_query_substitutable_paths E paths c =
     client_call E OpQuerySubstitutablePaths [ser_set (ep_write E) (ser_store_path (ep_codecs E) (ep_write E)) paths]
       (de_set (ep_read E) (de_store_path (ep_codecs E) (ep_read E))) c"

definition client_query_valid_derivers ::
  "('r, 'w, 'm, 'd) Endpoint \<Rightarrow> StorePath \<Rightarrow> ('r, 'w) DaemonClient \<Rightarrow> (('r, 'w) DaemonClient, StorePath list) logged" where
  "client_query_valid_derivers E path c =
     client_call E OpQueryValidDerivers [ser_store_path (ep_codecs E) (ep_write E) path]
       (de_set (ep_read E) (de_store_path (ep_codecs E) (ep_read E))) c"

definition client_optimise_store ::
  "('r, 'w, 'm, 'd) Endpoint \<Rightarrow> ('r, 'w) DaemonClient \<Rightarrow> (('r, 'w) DaemonClient, unit) logged" where
  "client_optimise_store E c =
     client_call E OpOptimiseStore []
       (de_unit (ep_read E)) c"

definition client_verify_store ::
  "('r, 'w, 'm, 'd) Endpoint \<Rightarrow> bool \<Rightarrow> bool \<Rightarrow> ('r, 'w) DaemonClient \<Rightarrow> (('r, 'w) DaemonClient, bool) logged" where
  "client_verify_store E check_contents repair c =
     client_call E OpVerifyStore [ser_bool (ep_write E) check_contents,
        ser_bool (ep_write E) repair]
       (de_bool (ep_read E)) c"

definition client_add_signatures ::
  "('r, 'w, 'm, 'd) Endpoint \<Rightarrow> StorePath \<Rightarrow> Signature list \<Rightarrow> ('r, 'w) DaemonClient \<Rightarrow> (('r, 'w) DaemonClient, unit) logged" where
  "client_add_signatures E path sigs c =
     client_call E OpAddSignatures [ser_store_path (ep_codecs E) (ep_write E) path,
        ser_vec (ep_write E) (ser_signature (ep_codecs E) (ep_write E)) sigs]
       (de_unit (ep_read E)) c"

definition client_query_derivation_output_map ::
  "('r, 'w, 'm, 'd) Endpoint \<Rightarrow> StorePath \<Rightarrow> ('r, 'w) DaemonClient \<Rightarrow> (('r, 'w) DaemonClient, (OutputName \<times> StorePath option) list) logged" where
  "client_query_derivation_output_map E path c =
     client_call E OpQueryDerivationOutputMap [ser_store_path (ep_codecs E) (ep_write E) path]
       (de_map (ep_read E) (de_output_name (ep_read E)) (de_optional_path (ep_codecs E) (ep_read E))) c"

definition client_register_drv_output ::
  "('r, 'w, 'm, 'd) Endpoint \<Rightarrow> Realisation \<Rightarrow> ('r, 'w) DaemonClient \<Rightarrow> (('r, 'w) DaemonClient, unit) logged" where
  "client_register_drv_output E realisation c =
     client_call E OpRegisterDrvOutput [ser_realisation (ep_codecs E) (ep_write E) realisation]
       (de_unit (ep_read E)) c"

definition client_query_realisation ::
  "('r, 'w, 'm, 'd) Endpoint \<Rightarrow> DrvOutput \<Rightarrow> ('r, 'w) DaemonClient \<Rightarrow> (('r, 'w) DaemonClient, Realisation list) logged" where
  "client_query_realisation E output_id c =
     client_call E OpQueryRealisation [ser_drv_output (ep_codecs E) (ep_write E) output_id]
       (de_set (ep_read E) (de_realisation (ep_codecs E) (ep_read E))) c"

definition client_add_perm_root ::
  "('r, 'w, 'm, 'd) Endpoint \<Rightarrow> StorePath \<Rightarrow> bytes \<Rightarrow> ('r, 'w) DaemonClient \<Rightarrow> (('r, 'w) DaemonClient, bytes) logged" where
  "client_add_perm_root E path gc_root c =
     client_call E OpAddPermRoot [ser_store_path (ep_codecs E) (ep_write E) path,
        ser_bytes (ep_write E) gc_root]
       (de_bytes (ep_read E)) c"

text \<open>The log of \<open>nar_from_path\<close>. The archive is read by a reader that is lent from the connection: \<open>lend\<close> is \<open>reader.get_mut().lend(NarBytesReader::new)\<close>.
  It is called on every way out.\<close>

partial_function (option) nar_log_loop ::
  "('r, 'w, 'm, 'd) Endpoint \<Rightarrow> 'r \<Rightarrow> LogMessage list \<Rightarrow> ('r, unit) logged" where
  "nar_log_loop E r ms =
     Option.bind (read_raw E r) (\<lambda>(r, x). case x of
        Inl e \<Rightarrow> Some (r, ms, Inl (error_of_io e))
      | Inr msg \<Rightarrow>
     (case msg of
        RNext text \<Rightarrow> nar_log_loop E r (ms @ [LMessage \<lparr>ms_level = VError, ms_text = text\<rparr>])
      | RResult res \<Rightarrow> nar_log_loop E r (ms @ [LResult res])
      | RStartActivity act \<Rightarrow> nar_log_loop E r (ms @ [LStartActivity act])
      | RStopActivity act \<Rightarrow> nar_log_loop E r (ms @ [LStopActivity act])
      | RRead _ \<Rightarrow> nar_log_loop E r ms
      | RWrite _ \<Rightarrow> nar_log_loop E r ms
      | RLast \<Rightarrow> Some (r, ms, Inr ())
      | RError err \<Rightarrow> Some (r, ms, Inl (error_of_log err))))"

definition client_nar_from_path ::
  "('r, 'w, 'm, 'd) Endpoint \<Rightarrow> ('r \<Rightarrow> 'r) \<Rightarrow> StorePath \<Rightarrow> ('r, 'w) DaemonClient \<Rightarrow> (('r, 'w) DaemonClient, unit) logged" where
  "client_nar_from_path E lend path c =
     log_fill_operation OpNarFromPath (map_option (\<lambda>(c, y). (c\<lparr>cl_reader := lend (cl_reader c)\<rparr>, y))
       (future_result (client_write (write_values [ser_operation (ep_write E) OpNarFromPath,
             ser_store_path (ep_codecs E) (ep_write E) path, ep_flush E]) c) (\<lambda>c _.
          map_option (\<lambda>(r, ms, x). (c\<lparr>cl_reader := r\<rparr>, ms, x)) (nar_log_loop E (cl_reader c) []))))"

subsection \<open>Requests to upload\<close>

definition client_upload ::
  "('r, 'w, 'm, 'd) Endpoint \<Rightarrow> Operation \<Rightarrow> ('w \<Rightarrow> ('w, unit) awaited) list \<Rightarrow> ('r, 'w) DaemonClient \<Rightarrow>
     (('r, 'w) DaemonClient, DaemonError, unit) outcome" where
  "client_upload E op args c =
     out_call (\<lambda>c. c) (result_map_err (fill_operation op)) (client_write (write_values (ser_operation (ep_write E) op # args)) c)"

definition client_add_to_store_nar_request ::
  "('r, 'w, 'm, 'd) Endpoint \<Rightarrow> ValidPathInfo \<Rightarrow> bool \<Rightarrow> bool \<Rightarrow> ('r, 'w) DaemonClient \<Rightarrow> (('r, 'w) DaemonClient, DaemonError, unit) outcome" where
  "client_add_to_store_nar_request E info repair dont_check_sigs c =
     client_upload E OpAddToStoreNar [ser_valid_path_info (ep_codecs E) (ep_write E) info, ser_bool (ep_write E) repair,
       ser_bool (ep_write E) dont_check_sigs, ep_flush E] c"

definition client_add_multiple_request ::
  "('r, 'w, 'm, 'd) Endpoint \<Rightarrow> bool \<Rightarrow> bool \<Rightarrow> ('r, 'w) DaemonClient \<Rightarrow> (('r, 'w) DaemonClient, DaemonError, unit) outcome" where
  "client_add_multiple_request E repair dont_check_sigs c =
     client_upload E OpAddMultipleToStore [ser_bool (ep_write E) repair, ser_bool (ep_write E) dont_check_sigs] c"

definition client_add_build_log_request ::
  "('r, 'w, 'm, 'd) Endpoint \<Rightarrow> StorePath \<Rightarrow> ('r, 'w) DaemonClient \<Rightarrow> (('r, 'w) DaemonClient, DaemonError, unit) outcome" where
  "client_add_build_log_request E path c =
     client_upload E OpAddBuildLog [ser_store_path (ep_codecs E) (ep_write E) path, ep_flush E] c"

definition client_add_ca_request ::
  "('r, 'w, 'm, 'd) Endpoint \<Rightarrow> string \<Rightarrow> ContentAddressMethodAlgorithm \<Rightarrow> StorePath list \<Rightarrow> bool \<Rightarrow> ('r, 'w) DaemonClient \<Rightarrow>
     (('r, 'w) DaemonClient, DaemonError, unit) outcome" where
  "client_add_ca_request E name cam refs repair c =
     client_upload E OpAddToStore [ser_string (ep_write E) name, ser_method_algorithm (ep_write E) cam,
       ser_set (ep_write E) (ser_store_path (ep_codecs E) (ep_write E)) refs, ser_bool (ep_write E) repair, ep_flush E] c"

end
