(* ===== verification/Daemon_Server.thy ===== *)
theory Daemon_Server
  imports Daemon_Client Io_Adapters Framed_Reader
begin

text \<open>
  The daemon's side of a connection (\<open>harmonia-daemon/src/server/mod.rs\<close>): the handshake, the loop over the requests and the handler of every request. The
  store it serves is the trait \<open>DaemonStore\<close> of \<open>harmonia-protocol/src/types.rs\<close>, a record of its methods; \<open>daemon_store_default\<close>
  are the methods the trait provides. The implementations for \<open>&mut S\<close> and for \<open>BoxedStore\<close> hand every call on and have no record of
  their own. An error of the store is reported to the client and the connection goes on; every other error ends it.
\<close>

section \<open>The trait \<open>DaemonStore\<close>\<close>

text \<open>\<open>'f\<close> is the reader of an uploaded archive, \<open>'m\<close> that of several of them, and \<open>'n\<close> the archive that \<open>nar_from_path\<close> returns.\<close>

record 'r SizedStream =
  ss_count :: u64
  ss_source :: 'r

record ('s, 'j, 'f, 'm, 'n) DaemonStore =
  ds_trust_level :: "'s \<Rightarrow> TrustLevel"
  ds_set_options :: "'s \<Rightarrow> ClientOptions \<Rightarrow> ('s, unit) ResultLog"
  ds_is_valid_path :: "'s \<Rightarrow> StorePath \<Rightarrow> ('s, bool) ResultLog"
  ds_query_valid_paths :: "'s \<Rightarrow> StorePath list \<Rightarrow> bool \<Rightarrow> ('s, StorePath list) ResultLog"
  ds_query_path_info :: "'s \<Rightarrow> StorePath \<Rightarrow> ('s, UnkeyedValidPathInfo option) ResultLog"
  ds_nar_from_path :: "'s \<Rightarrow> StorePath \<Rightarrow> ('s, 'n) ResultLog"
  ds_build_paths :: "'s \<Rightarrow> DerivedPath list \<Rightarrow> BuildMode \<Rightarrow> ('s, unit) ResultLog"
  ds_build_paths_with_results :: "'s \<Rightarrow> DerivedPath list \<Rightarrow> BuildMode \<Rightarrow> ('s, KeyedBuildResult list) ResultLog"
  ds_build_derivation :: "'s \<Rightarrow> StorePath \<Rightarrow> 'j BasicDerivation \<Rightarrow> BuildMode \<Rightarrow> ('s, BuildResult) ResultLog"
  ds_query_missing :: "'s \<Rightarrow> DerivedPath list \<Rightarrow> ('s, QueryMissingResult) ResultLog"
  ds_add_to_store_nar :: "'s \<Rightarrow> ValidPathInfo \<Rightarrow> 'f \<Rightarrow> bool \<Rightarrow> bool \<Rightarrow> ('s \<times> 'f, unit) ResultLog"
  ds_add_multiple_to_store :: "'s \<Rightarrow> bool \<Rightarrow> bool \<Rightarrow> 'm SizedStream \<Rightarrow> ('s \<times> 'm, unit) ResultLog"
  ds_query_all_valid_paths :: "'s \<Rightarrow> ('s, StorePath list) ResultLog"
  ds_query_referrers :: "'s \<Rightarrow> StorePath \<Rightarrow> ('s, StorePath list) ResultLog"
  ds_ensure_path :: "'s \<Rightarrow> StorePath \<Rightarrow> ('s, unit) ResultLog"
  ds_add_temp_root :: "'s \<Rightarrow> StorePath \<Rightarrow> ('s, unit) ResultLog"
  ds_add_indirect_root :: "'s \<Rightarrow> bytes \<Rightarrow> ('s, unit) ResultLog"
  ds_find_roots :: "'s \<Rightarrow> ('s, (bytes \<times> StorePath) list) ResultLog"
  ds_collect_garbage :: "'s \<Rightarrow> GCAction \<Rightarrow> StorePath list \<Rightarrow> bool \<Rightarrow> u64 \<Rightarrow> ('s, CollectGarbageResponse) ResultLog"
  ds_query_path_from_hash_part :: "'s \<Rightarrow> StorePathHash \<Rightarrow> ('s, StorePath option) ResultLog"
  ds_query_substitutable_paths :: "'s \<Rightarrow> StorePath list \<Rightarrow> ('s, StorePath list) ResultLog"
  ds_query_valid_derivers :: "'s \<Rightarrow> StorePath \<Rightarrow> ('s, StorePath list) ResultLog"
  ds_optimise_store :: "'s \<Rightarrow> ('s, unit) ResultLog"
  ds_verify_store :: "'s \<Rightarrow> bool \<Rightarrow> bool \<Rightarrow> ('s, bool) ResultLog"
  ds_add_signatures :: "'s \<Rightarrow> StorePath \<Rightarrow> Signature list \<Rightarrow> ('s, unit) ResultLog"
  ds_query_derivation_output_map :: "'s \<Rightarrow> StorePath \<Rightarrow> ('s, (OutputName \<times> StorePath option) list) ResultLog"
  ds_register_drv_output :: "'s \<Rightarrow> Realisation \<Rightarrow> ('s, unit) ResultLog"
  ds_query_realisation :: "'s \<Rightarrow> DrvOutput \<Rightarrow> ('s, Realisation list) ResultLog"
  ds_add_build_log :: "'s \<Rightarrow> StorePath \<Rightarrow> 'f \<Rightarrow> ('s \<times> 'f, unit) ResultLog"
  ds_add_perm_root :: "'s \<Rightarrow> StorePath \<Rightarrow> bytes \<Rightarrow> ('s, bytes) ResultLog"
  ds_add_ca_to_store :: "'s \<Rightarrow> string \<Rightarrow> ContentAddressMethodAlgorithm \<Rightarrow> StorePath list \<Rightarrow> bool \<Rightarrow> 'f \<Rightarrow> ('s \<times> 'f, ValidPathInfo) ResultLog"
  ds_shutdown :: "'s \<Rightarrow> ('s, DaemonError, unit) outcome"

definition unimplemented :: "Operation \<Rightarrow> 's \<Rightarrow> ('s, 'a) ResultLog" where
  "unimplemented op s = Resolved s (Inl (error_unimplemented op))"

text \<open>The methods a store does not provide. \<open>trust_level\<close> and \<open>shutdown\<close> it must.\<close>

definition daemon_store_default ::
  "('s \<Rightarrow> TrustLevel) \<Rightarrow> ('s \<Rightarrow> ('s, DaemonError, unit) outcome) \<Rightarrow> ('s, 'j, 'f, 'm, 'n) DaemonStore" where
  "daemon_store_default trust_level shutdown =
     \<lparr>ds_trust_level = trust_level,
      ds_set_options = (\<lambda>s _. unimplemented OpSetOptions s),
      ds_is_valid_path = (\<lambda>s _. unimplemented OpIsValidPath s),
      ds_query_valid_paths = (\<lambda>s _ _. unimplemented OpQueryValidPaths s),
      ds_query_path_info = (\<lambda>s _. unimplemented OpQueryPathInfo s),
      ds_nar_from_path = (\<lambda>s _. unimplemented OpNarFromPath s),
      ds_build_paths = (\<lambda>s _ _. unimplemented OpBuildPaths s),
      ds_build_paths_with_results = (\<lambda>s _ _. unimplemented OpBuildPathsWithResults s),
      ds_build_derivation = (\<lambda>s _ _ _. unimplemented OpBuildDerivation s),
      ds_query_missing = (\<lambda>s _. unimplemented OpQueryMissing s),
      ds_add_to_store_nar = (\<lambda>s _ f _ _. unimplemented OpAddToStoreNar (s, f)),
      ds_add_multiple_to_store = (\<lambda>s _ _ st. unimplemented OpAddMultipleToStore (s, ss_source st)),
      ds_query_all_valid_paths = unimplemented OpQueryAllValidPaths,
      ds_query_referrers = (\<lambda>s _. unimplemented OpQueryReferrers s),
      ds_ensure_path = (\<lambda>s _. unimplemented OpEnsurePath s),
      ds_add_temp_root = (\<lambda>s _. unimplemented OpAddTempRoot s),
      ds_add_indirect_root = (\<lambda>s _. unimplemented OpAddIndirectRoot s),
      ds_find_roots = unimplemented OpFindRoots,
      ds_collect_garbage = (\<lambda>s _ _ _ _. unimplemented OpCollectGarbage s),
      ds_query_path_from_hash_part = (\<lambda>s _. unimplemented OpQueryPathFromHashPart s),
      ds_query_substitutable_paths = (\<lambda>s _. unimplemented OpQuerySubstitutablePaths s),
      ds_query_valid_derivers = (\<lambda>s _. unimplemented OpQueryValidDerivers s),
      ds_optimise_store = unimplemented OpOptimiseStore,
      ds_verify_store = (\<lambda>s _ _. unimplemented OpVerifyStore s),
      ds_add_signatures = (\<lambda>s _ _. unimplemented OpAddSignatures s),
      ds_query_derivation_output_map = (\<lambda>s _. unimplemented OpQueryDerivationOutputMap s),
      ds_register_drv_output = (\<lambda>s _. unimplemented OpRegisterDrvOutput s),
      ds_query_realisation = (\<lambda>s _. unimplemented OpQueryRealisation s),
      ds_add_build_log = (\<lambda>s _ f. unimplemented OpAddBuildLog (s, f)),
      ds_add_perm_root = (\<lambda>s _ _. unimplemented OpAddPermRoot s),
      ds_add_ca_to_store = (\<lambda>s _ _ _ _ f. unimplemented OpAddToStore (s, f)),
      ds_shutdown = shutdown\<rparr>"

section \<open>Settings\<close>

definition SERVER_PROTOCOL_VERSION :: ProtocolVersion where
  "SERVER_PROTOCOL_VERSION = ProtocolVersion 1 37"

definition NIX_VERSION :: string where
  "NIX_VERSION = ''2.24.0 (Harmonia)''"

record ServerBuilder =
  sb_store_trust :: TrustLevel
  sb_store_dir :: StoreDir
  sb_min_version :: ProtocolVersion
  sb_max_version :: ProtocolVersion
  sb_nix_version :: "string option"

definition server_builder_default :: ServerBuilder where
  "server_builder_default = \<lparr>sb_store_trust = TNotTrusted, sb_store_dir = default_dir, sb_min_version = PROTOCOL_VERSION_MIN,
     sb_max_version = PROTOCOL_VERSION, sb_nix_version = None\<rparr>"

definition sb_set_store_dir :: "ServerBuilder \<Rightarrow> StoreDir \<Rightarrow> ServerBuilder" where
  "sb_set_store_dir b store_dir = b\<lparr>sb_store_dir := store_dir\<rparr>"

definition sb_set_min_version :: "ServerBuilder \<Rightarrow> ProtocolVersion \<Rightarrow> ServerBuilder option" where
  "sb_set_min_version b version = (if PROTOCOL_VERSION_MIN \<le> version then Some (b\<lparr>sb_min_version := version\<rparr>) else None)"

definition sb_set_max_version :: "ServerBuilder \<Rightarrow> ProtocolVersion \<Rightarrow> ServerBuilder option" where
  "sb_set_max_version b version = (if version \<le> PROTOCOL_VERSION then Some (b\<lparr>sb_max_version := version\<rparr>) else None)"

section \<open>Errors\<close>

record RecoverableError =
  can_recover :: bool
  source :: DaemonError

definition recover :: "DaemonError + 'a \<Rightarrow> RecoverableError + 'a" where
  "recover = result_map_err (\<lambda>e. \<lparr>can_recover = True, source = e\<rparr>)"

definition fatal :: "DaemonError \<Rightarrow> RecoverableError" where
  "fatal e = \<lparr>can_recover = False, source = e\<rparr>"

abbreviation fatal_io :: "io_error + 'a \<Rightarrow> RecoverableError + 'a" where
  "fatal_io \<equiv> result_map_err (\<lambda>e. fatal (error_of_io e))"

section \<open>Logs\<close>

definition write_log :: "('r, 'w, 'm, 'd) Endpoint \<Rightarrow> LogMessage \<Rightarrow> 'w \<Rightarrow> ('w, RecoverableError, unit) outcome" where
  "write_log E msg w = out_call (\<lambda>w. w) fatal_io (aw_bind (ser_log_message (ep_write E) msg w) (\<lambda>w _. ep_flush E w))"

text \<open>\<open>while let Some(msg) = logs.next().await\<close> and the result behind it.\<close>

partial_function (option) write_logs ::
  "('r, 'w, 'm, 'd) Endpoint \<Rightarrow> ('s, 'a) ResultLog \<Rightarrow> 'w \<Rightarrow> ('w \<times> 's, RecoverableError, DaemonError + 'a) outcome" where
  "write_logs E logs w =
     (case logs of
        Hangs \<Rightarrow> None
      | Resolved s x \<Rightarrow> Some ((w, s), Inr x)
      | Logged s msg logs' \<Rightarrow>
          Option.bind (write_log E msg w) (\<lambda>(w, x). case x of
             Inl e \<Rightarrow> Some ((w, s), Inl e)
           | Inr _ \<Rightarrow> write_logs E logs' w))"

definition process_logs ::
  "('r, 'w, 'm, 'd) Endpoint \<Rightarrow> ('s, 'a) ResultLog \<Rightarrow> 'w \<Rightarrow> ('w \<times> 's, RecoverableError, 'a) outcome" where
  "process_logs E logs w = out_bind (write_logs E logs w) (\<lambda>c x. Some (c, recover x))"

section \<open>The connection\<close>

record ('r, 'w) DaemonConnection =
  dc_store_trust :: TrustLevel
  dc_reader :: 'r
  dc_writer :: 'w

text \<open>What follows once the version is agreed upon.\<close>

definition server_settle ::
  "('r, 'w, 'm, 'd) Endpoint \<Rightarrow> TrustLevel \<Rightarrow> string \<Rightarrow> ProtocolVersion \<Rightarrow> 'r \<times> 'w \<Rightarrow> ('r \<times> 'w, DaemonError, ProtocolVersion) outcome" where
  "server_settle E store_trust nix_version version c0 =
     out_bind (read_field ''sendCpu'' (\<lambda>r. required (de_bool (ep_read E) r)) c0) (\<lambda>c send_cpu.
     out_bind (if send_cpu then read_field ''cpuAffinity'' (read_number (ep_read E)) c else Some (c, Inr 0)) (\<lambda>c _.
     out_bind (read_field ''reserveSpace'' (\<lambda>r. required (de_bool (ep_read E) r)) c) (\<lambda>c _.
     out_bind (write_field ''nixVersion'' (ser_string (ep_write E) nix_version) c) (\<lambda>c _.
     out_bind (write_field ''trusted'' (ser_trust_level (ep_write E) store_trust) c) (\<lambda>c _.
     out_bind (write_step (ep_flush E) c) (\<lambda>c _.
     Some (c, Inr version)))))))"

definition server_greet ::
  "('r, 'w, 'm, 'd) Endpoint \<Rightarrow> TrustLevel \<Rightarrow> ProtocolVersion \<Rightarrow> ProtocolVersion \<Rightarrow> string \<Rightarrow> 'r \<times> 'w \<Rightarrow>
     ('r \<times> 'w, DaemonError, ProtocolVersion) outcome" where
  "server_greet E store_trust min_version max_version nix_version c0 =
     out_bind (read_field ''clientMagic'' (read_number (ep_read E)) c0) (\<lambda>c client_magic.
     if client_magic \<noteq> CLIENT_MAGIC then Some (c, Inl (add_field ''clientMagic'' (error_of_kind (WrongMagic client_magic)))) else
     out_bind (write_field ''serverMagic'' (\<lambda>w. wr_number (ep_write E) w SERVER_MAGIC) c) (\<lambda>c _.
     out_bind (write_field ''protocolVersion'' (ser_version (ep_write E) max_version) c) (\<lambda>c _.
     out_bind (write_step (ep_flush E) c) (\<lambda>c _.
     out_bind (read_field ''clientVersion'' (\<lambda>r. required (de_version (ep_read E) r)) c) (\<lambda>c client_version.
     let version = min client_version max_version in
     if version < min_version then Some (c, Inl (add_field ''clientVersion'' (error_of_kind (UnsupportedVersion version)))) else
     server_settle E store_trust nix_version version (agree_version E version c))))))"

text \<open>The assertions at the beginning panic.\<close>

definition server_handshake ::
  "('r, 'w, 'm, 'd) Endpoint \<Rightarrow> ProtocolVersion \<Rightarrow> ProtocolVersion \<Rightarrow> string \<Rightarrow> ('r, 'w) DaemonConnection \<Rightarrow>
     (('r, 'w) DaemonConnection, DaemonError, ProtocolVersion) outcome" where
  "server_handshake E min_version max_version nix_version c =
     (if pv_major min_version = 1 \<and> 37 \<le> pv_minor min_version \<and> max_version \<le> SERVER_PROTOCOL_VERSION
      then out_call (\<lambda>(r, w). c\<lparr>dc_reader := r, dc_writer := w\<rparr>) (\<lambda>x. x)
        (server_greet E (dc_store_trust c) min_version max_version nix_version (dc_reader c, dc_writer c))
      else None)"

definition conn_write ::
  "('w \<Rightarrow> ('w, unit) awaited) \<Rightarrow> ('r, 'w) DaemonConnection \<times> 's \<Rightarrow> (('r, 'w) DaemonConnection \<times> 's, RecoverableError, unit) outcome" where
  "conn_write f c = out_call (\<lambda>w. ((fst c)\<lparr>dc_writer := w\<rparr>, snd c)) fatal_io (f (dc_writer (fst c)))"

definition write_last ::
  "('r, 'w, 'm, 'd) Endpoint \<Rightarrow> ('r, 'w) DaemonConnection \<times> 's \<Rightarrow> (('r, 'w) DaemonConnection \<times> 's, RecoverableError, unit) outcome" where
  "write_last E c = conn_write (ser_raw_log_message (ep_write E) RLast) c"

definition conn_process_logs ::
  "('r, 'w, 'm, 'd) Endpoint \<Rightarrow> ('s, 'a) ResultLog \<Rightarrow> ('r, 'w) DaemonConnection \<Rightarrow>
     (('r, 'w) DaemonConnection \<times> 's, RecoverableError, 'a) outcome" where
  "conn_process_logs E logs c =
     out_bind (out_call (\<lambda>(w, s). (c\<lparr>dc_writer := w\<rparr>, s)) (\<lambda>x. x) (process_logs E logs (dc_writer c))) (\<lambda>c value.
     out_bind (write_last E c) (\<lambda>c _. Some (c, Inr value)))"

section \<open>Requests\<close>

text \<open>A request whose answer is the value of a call of the store.\<close>

definition answer ::
  "('r, 'w, 'm, 'd) Endpoint \<Rightarrow> ('a \<Rightarrow> 'w \<Rightarrow> ('w, unit) awaited) \<Rightarrow> ('s, 'a) ResultLog \<Rightarrow> ('r, 'w) DaemonConnection \<Rightarrow>
     (('r, 'w) DaemonConnection \<times> 's, RecoverableError, unit) outcome" where
  "answer E ser logs c = out_bind (conn_process_logs E logs c) (\<lambda>c value. conn_write (ser value) c)"

text \<open>\<open>tokio::io::copy_buf\<close>: \<open>fill\<close> and \<open>consume\<close> belong to the archive, \<open>put\<close> is \<open>poll_write\<close> of the writer, awaited.\<close>

partial_function (option) copy_buf ::
  "('n \<Rightarrow> ('n, bytes) awaited) \<Rightarrow> ('n \<Rightarrow> nat \<Rightarrow> 'n option) \<Rightarrow> ('w \<Rightarrow> bytes \<Rightarrow> ('w, nat) awaited) \<Rightarrow> ('w \<Rightarrow> ('w, unit) awaited) \<Rightarrow>
     'n \<Rightarrow> 'w \<Rightarrow> ('w, unit) awaited" where
  "copy_buf fill consume put flush n w =
     Option.bind (fill n) (\<lambda>(n, x). case x of
        Inl e \<Rightarrow> Some (w, Inl e)
      | Inr buf \<Rightarrow>
          if buf = [] then flush w
          else Option.bind (put w buf) (\<lambda>(w, y). case y of
             Inl e \<Rightarrow> Some (w, Inl e)
           | Inr amt \<Rightarrow>
               if amt = 0 then Some (w, Inl (IoError WriteZero ''write zero byte into writer''))
               else Option.bind (consume n amt) (\<lambda>n. copy_buf fill consume put flush n w)))"

text \<open>The operations on bytes that uploads and downloads need: \<open>sv_bytes\<close> of the reader of the connection, \<open>sv_put\<close> of its writer and
  \<open>sv_fill\<close>, \<open>sv_consume\<close> of an archive of the store; \<open>sv_shared\<close> belongs to the buffer of a new reader.\<close>

record ('r, 'w, 'n) Streams =
  sv_bytes :: "'r BytesRead"
  sv_put :: "'w \<Rightarrow> bytes \<Rightarrow> ('w, nat) awaited"
  sv_fill :: "'n \<Rightarrow> ('n, bytes) awaited"
  sv_consume :: "'n \<Rightarrow> nat \<Rightarrow> 'n option"
  sv_shared :: "nat \<Rightarrow> bool"

definition server_nar_from_path ::
  "('r, 'w, 'm, 'd) Endpoint \<Rightarrow> ('r, 'w, 'n) Streams \<Rightarrow> ('s, 'n) ResultLog \<Rightarrow> ('r, 'w) DaemonConnection \<Rightarrow>
     (('r, 'w) DaemonConnection \<times> 's, RecoverableError, unit) outcome" where
  "server_nar_from_path E X logs c =
     out_bind (out_call (\<lambda>(w, s). (c\<lparr>dc_writer := w\<rparr>, s)) (\<lambda>x. x) (write_logs E logs (dc_writer c))) (\<lambda>c x.
       case x of
         Inl e \<Rightarrow> Some (c, Inl (fatal e))
       | Inr nar \<Rightarrow> out_bind (write_last E c) (\<lambda>c _. conn_write (copy_buf (sv_fill X) (sv_consume X) (sv_put X) (ep_flush E) nar) c))"

subsection \<open>Uploads\<close>

type_synonym 'r Upload = "'r Compat FramedReader"

definition upload_new :: "'r \<Rightarrow> 'r Upload" where
  "upload_new r = framed_new (compat_new r)"

definition upload_read :: "'r BytesRead \<Rightarrow> 'r Upload \<Rightarrow> nat \<Rightarrow> ('r Upload, bytes) polled" where
  "upload_read ops = framed_read (compat_read (op_fill ops) (op_consume ops)) (compat_fill (op_fill ops)) (compat_consume (op_consume ops))"

definition upload_drain :: "'r BytesRead \<Rightarrow> 'r Upload \<Rightarrow> ('r Upload, u64) awaited" where
  "upload_drain ops =
     framed_drain_all (compat_read (op_fill ops) (op_consume ops)) (compat_fill (op_fill ops)) (compat_consume (op_consume ops))"

text \<open>What is left of the upload is read in any case, and the result of the store comes first.\<close>

definition drain_after ::
  "'r BytesRead \<Rightarrow> ('r, 'w) DaemonConnection \<Rightarrow> ('w \<times> 's \<times> 'r Upload, RecoverableError, 'a) outcome \<Rightarrow>
     (('r, 'w) DaemonConnection \<times> 's, RecoverableError, 'a) outcome" where
  "drain_after ops c m =
     (case m of
        None \<Rightarrow> None
      | Some ((w, s, framed), res) \<Rightarrow>
          map_option (\<lambda>(framed, err). ((c\<lparr>dc_reader := creader (freader framed), dc_writer := w\<rparr>, s),
              result_bind res (\<lambda>value. result_map (\<lambda>_. value) (fatal_io err))))
            (upload_drain ops framed))"

definition receive ::
  "('r, 'w, 'm, 'd) Endpoint \<Rightarrow> 'r BytesRead \<Rightarrow> ('r Upload \<Rightarrow> ('s \<times> 'r Upload, 'a) ResultLog) \<Rightarrow> ('a \<Rightarrow> 'w \<Rightarrow> ('w, unit) awaited) \<Rightarrow>
     ('r, 'w) DaemonConnection \<Rightarrow> (('r, 'w) DaemonConnection \<times> 's, RecoverableError, unit) outcome" where
  "receive E ops call ser c =
     out_bind (drain_after ops c (process_logs E (call (upload_new (dc_reader c))) (dc_writer c))) (\<lambda>c value.
     out_bind (write_last E c) (\<lambda>c _. conn_write (ser value) c))"

text \<open>\<open>parse_add_multiple_to_store\<close> reads the number of the archives; the reader it reads them from has the version of the connection, but not its
  store directory.\<close>

type_synonym 'r Parts = "'r Upload BytesReader NixReader"

definition parts_new :: "(nat \<Rightarrow> bool) \<Rightarrow> ProtocolVersion \<Rightarrow> 'r \<Rightarrow> 'r Parts" where
  "parts_new sh version r = rb_build_buffered (rb_set_version nix_reader_builder version) sh (upload_new r)"

definition parts_upload :: "'r Parts \<Rightarrow> 'r Upload" where
  "parts_upload p = inner (nr_inner p)"

definition parse_add_multiple_to_store :: "'r BytesRead \<Rightarrow> 'r Parts \<Rightarrow> ('r Parts, DaemonError, 'r Parts SizedStream) outcome" where
  "parse_add_multiple_to_store ops p =
     out_bind (out_call (\<lambda>p. p) from_io (read_number (nix_reader_ops (bytes_reader_ops (upload_read ops))) p)) (\<lambda>p count.
       Some (p, Inr \<lparr>ss_count = count, ss_source = p\<rparr>))"

text \<open>Here the last message is written before the upload is read to its end.\<close>

definition receive_multiple ::
  "('r, 'w, 'm, 'd) Endpoint \<Rightarrow> ('r, 'w, 'n) Streams \<Rightarrow> ('r Parts SizedStream \<Rightarrow> ('s \<times> 'r Parts, unit) ResultLog) \<Rightarrow>
     ('r, 'w) DaemonConnection \<times> 's \<Rightarrow> (('r, 'w) DaemonConnection \<times> 's, RecoverableError, unit) outcome" where
  "receive_multiple E X call c =
     (case parse_add_multiple_to_store (sv_bytes X) (parts_new (sv_shared X) (rd_version (ep_read E) (dc_reader (fst c))) (dc_reader (fst c))) of
        None \<Rightarrow> None
      | Some (p, Inl e) \<Rightarrow> Some (((fst c)\<lparr>dc_reader := creader (freader (parts_upload p))\<rparr>, snd c), Inl (fatal e))
      | Some (_, Inr items) \<Rightarrow>
          drain_after (sv_bytes X) (fst c)
            (out_bind (process_logs E (map_ResultLog (\<lambda>(s, p). (s, parts_upload p)) (\<lambda>v. v) (call items)) (dc_writer (fst c))) (\<lambda>(w, st) _.
              out_call (\<lambda>w. (w, st)) fatal_io (ser_raw_log_message (ep_write E) RLast w))))"

subsection \<open>The handlers\<close>

fun process_request ::
  "('r, 'w, 'm, 'd) Endpoint \<Rightarrow> ('r, 'w, 'n) Streams \<Rightarrow> ('s, 'j, 'r Upload, 'r Parts, 'n) DaemonStore \<Rightarrow> 'j Request \<Rightarrow>
     ('r, 'w) DaemonConnection \<times> 's \<Rightarrow> (('r, 'w) DaemonConnection \<times> 's, RecoverableError, unit) outcome" where
  "process_request E X store (SetOptions options) (c, s) =
     out_bind (conn_process_logs E (ds_set_options store s options) c) (\<lambda>c _. Some (c, Inr ()))"
| "process_request E X store (IsValidPath path) (c, s) =
     answer E (ser_bool (ep_write E)) (ds_is_valid_path store s path) c"
| "process_request E X store (QueryValidPaths req) (c, s) =
     answer E (ser_set (ep_write E) (ser_store_path (ep_codecs E) (ep_write E))) (ds_query_valid_paths store s (qv_paths req) (qv_substitute req)) c"
| "process_request E X store (QueryPathInfo path) (c, s) =
     answer E (ser_optional_info (ep_write E) (ser_path_info (ep_codecs E) (ep_write E))) (ds_query_path_info store s path) c"
| "process_request E X store (NarFromPath path) (c, s) =
     server_nar_from_path E X (ds_nar_from_path store s path) c"
| "process_request E X store (QueryReferrers path) (c, s) =
     answer E (ser_set (ep_write E) (ser_store_path (ep_codecs E) (ep_write E))) (ds_query_referrers store s path) c"
| "process_request E X store (AddToStore req) (c, s) =
     receive E (sv_bytes X) (\<lambda>framed. ds_add_ca_to_store store s (as_name req) (as_cam req) (as_refs req) (as_repair req) framed)
     (ser_valid_path_info (ep_codecs E) (ep_write E)) c"
| "process_request E X store (BuildPaths req) (c, s) =
     answer E (\<lambda>_. ser_ignored_one (ep_write E) ()) (ds_build_paths store s (bp_paths req) (bp_mode req)) c"
| "process_request E X store (EnsurePath path) (c, s) =
     answer E (\<lambda>_. ser_ignored_one (ep_write E) ()) (ds_ensure_path store s path) c"
| "process_request E X store (AddTempRoot path) (c, s) =
     answer E (\<lambda>_. ser_ignored_one (ep_write E) ()) (ds_add_temp_root store s path) c"
| "process_request E X store (AddIndirectRoot path) (c, s) =
     answer E (\<lambda>_. ser_ignored_one (ep_write E) ()) (ds_add_indirect_root store s path) c"
| "process_request E X store FindRoots (c, s) =
     answer E (ser_map (ep_write E) (ser_bytes (ep_write E)) (ser_store_path (ep_codecs E) (ep_write E))) (ds_find_roots store s) c"
| "process_request E X store (CollectGarbage req) (c, s) =
     answer E (ser_collect_response (ep_write E))
     (ds_collect_garbage store s (cg_action req) (cg_paths_to_delete req) (cg_ignore_liveness req) (cg_max_freed req)) c"
| "process_request E X store QueryAllValidPaths (c, s) =
     answer E (ser_set (ep_write E) (ser_store_path (ep_codecs E) (ep_write E))) (ds_query_all_valid_paths store s) c"
| "process_request E X store (QueryPathFromHashPart hash) (c, s) =
     answer E (ser_optional_path (ep_codecs E) (ep_write E)) (ds_query_path_from_hash_part store s hash) c"
| "process_request E X store (QuerySubstitutablePaths paths) (c, s) =
     answer E (ser_set (ep_write E) (ser_store_path (ep_codecs E) (ep_write E))) (ds_query_substitutable_paths store s paths) c"
| "process_request E X store (QueryValidDerivers path) (c, s) =
     answer E (ser_set (ep_write E) (ser_store_path (ep_codecs E) (ep_write E))) (ds_query_valid_derivers store s path) c"
| "process_request E X store OptimiseStore (c, s) =
     answer E (\<lambda>_. ser_ignored_one (ep_write E) ()) (ds_optimise_store store s) c"
| "process_request E X store (VerifyStore req) (c, s) =
     answer E (ser_bool (ep_write E)) (ds_verify_store store s (vs_check_contents req) (vs_repair req)) c"
| "process_request E X store (BuildDerivation req) (c, s) =
     answer E (ser_build_result (ep_codecs E) (ep_write E)) (ds_build_derivation store s (fst (bd_drv req)) (snd (bd_drv req)) (bd_mode req)) c"
| "process_request E X store (AddSignatures req) (c, s) =
     answer E (\<lambda>_. ser_ignored_one (ep_write E) ()) (ds_add_signatures store s (sr_path req) (sr_signatures req)) c"
| "process_request E X store (AddToStoreNar req) (c, s) =
     receive E (sv_bytes X) (\<lambda>framed. ds_add_to_store_nar store s (an_path_info req) framed (an_repair req) (an_dont_check_sigs req))
     (ser_unit (ep_write E)) c"
| "process_request E X store (QueryMissing paths) (c, s) =
     answer E (ser_query_missing (ep_codecs E) (ep_write E)) (ds_query_missing store s paths) c"
| "process_request E X store (QueryDerivationOutputMap path) (c, s) =
     answer E (ser_map (ep_write E) (ser_output_name (ep_write E)) (ser_optional_path (ep_codecs E) (ep_write E)))
     (ds_query_derivation_output_map store s path) c"
| "process_request E X store (RegisterDrvOutput realisation) (c, s) =
     out_bind (conn_process_logs E (ds_register_drv_output store s realisation) c) (\<lambda>c _. Some (c, Inr ()))"
| "process_request E X store (QueryRealisation output_id) (c, s) =
     answer E (ser_set (ep_write E) (ser_realisation (ep_codecs E) (ep_write E))) (ds_query_realisation store s output_id) c"
| "process_request E X store (AddMultipleToStore req) (c, s) =
     receive_multiple E X (ds_add_multiple_to_store store s (am_repair req) (am_dont_check_sigs req)) (c, s)"
| "process_request E X store (AddBuildLog path) (c, s) =
     receive E (sv_bytes X) (\<lambda>framed. ds_add_build_log store s path framed) (\<lambda>_. ser_ignored_one (ep_write E) ()) c"
| "process_request E X store (BuildPathsWithResults req) (c, s) =
     answer E (ser_vec (ep_write E) (ser_keyed_result (ep_codecs E) (ep_write E))) (ds_build_paths_with_results store s (bp_paths req) (bp_mode req)) c"
| "process_request E X store (AddPermRoot req) (c, s) =
     answer E (ser_bytes (ep_write E)) (ds_add_perm_root store s (pr_store_path req) (pr_gc_root req)) c"

section \<open>The loop\<close>

definition read_request :: "('r, 'w, 'm, 'd) Endpoint \<Rightarrow> 'r \<Rightarrow> ('r, 'j Request option) awaited" where
  "read_request E r = de_request (ep_codecs E) (ep_layout E) (ep_other E) (ep_read E) r"

text \<open>What becomes of a request: an error of the store is written as a message, and the writer is flushed. \<open>lossy\<close> shows bytes that are no text.\<close>

definition finish_request ::
  "('r, 'w, 'm, 'd) Endpoint \<Rightarrow> (bytes \<Rightarrow> string) \<Rightarrow> Operation \<Rightarrow> (('r, 'w) DaemonConnection \<times> 's, RecoverableError, unit) outcome \<Rightarrow>
     (('r, 'w) DaemonConnection \<times> 's, DaemonError, unit) outcome" where
  "finish_request E lossy op m =
     (case m of
        None \<Rightarrow> None
      | Some (c, Inl e) \<Rightarrow>
          if can_recover e
          then out_call (\<lambda>w. ((fst c)\<lparr>dc_writer := w\<rparr>, snd c)) from_io
            (write_values [ser_raw_log_message (ep_write E) (RError (log_of_error lossy (fill_operation op (source e)))), ep_flush E] (dc_writer (fst c)))
          else Some (c, Inl (fill_operation op (source e)))
      | Some (c, Inr _) \<Rightarrow> out_call (\<lambda>w. ((fst c)\<lparr>dc_writer := w\<rparr>, snd c)) from_io (ep_flush E (dc_writer (fst c))))"

text \<open>One round; its value says whether there was a request.\<close>

definition server_round ::
  "('r, 'w, 'm, 'd) Endpoint \<Rightarrow> ('r, 'w, 'n) Streams \<Rightarrow> (bytes \<Rightarrow> string) \<Rightarrow> ('s, 'j, 'r Upload, 'r Parts, 'n) DaemonStore \<Rightarrow>
     ('r, 'w) DaemonConnection \<times> 's \<Rightarrow> (('r, 'w) DaemonConnection \<times> 's, DaemonError, bool) outcome" where
  "server_round E X lossy store c =
     out_bind (out_call (\<lambda>r. ((fst c)\<lparr>dc_reader := r\<rparr>, snd c)) from_io (read_request E (dc_reader (fst c)))) (\<lambda>c request.
       case request of
         None \<Rightarrow> Some (c, Inr False)
       | Some q \<Rightarrow>
           out_bind (finish_request E lossy (request_operation q) (process_request E X store q c)) (\<lambda>c _. Some (c, Inr True)))"

partial_function (option) process_requests ::
  "('r, 'w, 'm, 'd) Endpoint \<Rightarrow> ('r, 'w, 'n) Streams \<Rightarrow> (bytes \<Rightarrow> string) \<Rightarrow> ('s, 'j, 'r Upload, 'r Parts, 'n) DaemonStore \<Rightarrow>
     ('r, 'w) DaemonConnection \<times> 's \<Rightarrow> (('r, 'w) DaemonConnection \<times> 's, DaemonError, unit) outcome" where
  "process_requests E X lossy store c =
     Option.bind (server_round E X lossy store c) (\<lambda>(c, x). case x of
        Inl e \<Rightarrow> Some (c, Inl e)
      | Inr again \<Rightarrow>
          if again then process_requests E X lossy store c
          else map_option (\<lambda>(s, y). ((fst c, s), y)) (ds_shutdown store (snd c)))"

text \<open>\<open>handshake\<close> is the call that makes the store, \<open>handshake\<close> of \<open>HandshakeDaemonStore\<close>.\<close>

definition serve_connection ::
  "('r, 'w, 'm, 'd) Endpoint \<Rightarrow> ('r, 'w, 'n) Streams \<Rightarrow> (bytes \<Rightarrow> string) \<Rightarrow> ServerBuilder \<Rightarrow>
     ('h, ('s, 'j, 'r Upload, 'r Parts, 'n) DaemonStore \<times> 's) ResultLog \<Rightarrow> 'r \<Rightarrow> 'w \<Rightarrow> (('r, 'w) DaemonConnection, DaemonError, unit) outcome" where
  "serve_connection E X lossy b handshake reader writer =
     out_bind (server_handshake E (sb_min_version b) (sb_max_version b) (case sb_nix_version b of Some v \<Rightarrow> v | None \<Rightarrow> NIX_VERSION)
         \<lparr>dc_store_trust = sb_store_trust b, dc_reader = reader, dc_writer = writer\<rparr>) (\<lambda>c _.
     out_bind (out_call fst (result_map_err source) (conn_process_logs E handshake c)) (\<lambda>c (store, s).
     out_bind (out_call (\<lambda>w. c\<lparr>dc_writer := w\<rparr>) from_io (ep_flush E (dc_writer c))) (\<lambda>c _.
     out_call fst (\<lambda>x. x) (process_requests E X lossy store (c, s)))))"

end
