(* ===== verification/Daemon_Exchange.thy ===== *)
theory Daemon_Exchange
  imports Daemon_Server Message_Properties
begin

text \<open>
  Client and daemon together. \<open>nix_endpoint\<close> is an end of a connection with a \<open>NixReader\<close> and a \<open>NixWriter\<close>. An \<open>exchange\<close> is a call of the client
  that the daemon serves: there are bytes of a request and bytes of a reply, such that the client writes the request and
  the daemon takes exactly it from its reader, and the daemon writes the reply and the client, reading it, returns what
  it returns. The channels between them deliver these bytes in any pieces and never fail (\<open>daemon_channel\<close>).

  The fact: when a request is answered with the value of a call of the store, the exchange hands on its log and its value, or its error.
\<close>

section \<open>Ends and exchanges\<close>

definition nix_endpoint ::
  "Alloc \<Rightarrow> ('w \<Rightarrow> bytes \<Rightarrow> ('w, nat) polled) \<Rightarrow> ('w \<Rightarrow> ('w, unit) polled) \<Rightarrow> 'r BytesRead \<Rightarrow> Codecs \<Rightarrow> ('m, 'd) Crates \<Rightarrow> Layout \<Rightarrow>
     (u16 \<Rightarrow> Verbosity) \<Rightarrow> nat \<Rightarrow> nat \<Rightarrow> ('r NixReader, 'w NixWriter, 'm, 'd) Endpoint" where
  "nix_endpoint A put flush ops cs K L other fsz tsz =
     \<lparr>ep_read = nix_reader_ops ops, ep_write = nix_writer_ops A put, ep_flush = await (nw_poll_flush A put flush),
      ep_set_read_version = nr_set_version, ep_set_write_version = nw_set_version, ep_codecs = cs, ep_crates = K, ep_layout = L,
      ep_other = other, ep_field_size = fsz, ep_trace_size = tsz\<rparr>"

lemma nix_endpoint_simps [simp]:
  "ep_read (nix_endpoint A put flush ops cs K L other fsz tsz) = nix_reader_ops ops"
  "ep_write (nix_endpoint A put flush ops cs K L other fsz tsz) = nix_writer_ops A put"
  "ep_flush (nix_endpoint A put flush ops cs K L other fsz tsz) = await (nw_poll_flush A put flush)"
  "ep_set_read_version (nix_endpoint A put flush ops cs K L other fsz tsz) = nr_set_version"
  "ep_set_write_version (nix_endpoint A put flush ops cs K L other fsz tsz) = nw_set_version"
  "ep_codecs (nix_endpoint A put flush ops cs K L other fsz tsz) = cs"
  "ep_crates (nix_endpoint A put flush ops cs K L other fsz tsz) = K"
  "ep_layout (nix_endpoint A put flush ops cs K L other fsz tsz) = L"
  "ep_other (nix_endpoint A put flush ops cs K L other fsz tsz) = other"
  "ep_field_size (nix_endpoint A put flush ops cs K L other fsz tsz) = fsz"
  "ep_trace_size (nix_endpoint A put flush ops cs K L other fsz tsz) = tsz"
  by (simp_all add: nix_endpoint_def)

text \<open>The call \<open>call\<close> of the client \<open>c\<close>, which has written \<open>p\<close>, and the round \<open>serve\<close> of the daemon with the connection \<open>conn\<close>, which has written
  \<open>q\<close>, and the store \<open>s\<close>: the store ends in \<open>s'\<close>, the call returns the log \<open>ms\<close> and the result \<open>x\<close>, and \<open>unread\<close> is left of
  the reply.\<close>

definition exchange ::
  "('w \<Rightarrow> bytes) \<Rightarrow> ('r \<Rightarrow> bytes) \<Rightarrow> ('r \<Rightarrow> bool) \<Rightarrow> nat \<Rightarrow> nat \<Rightarrow> ProtocolVersion \<times> StoreDir \<Rightarrow>
     (('r NixReader, 'w NixWriter) DaemonClient \<Rightarrow> (('r NixReader, 'w NixWriter) DaemonClient, 'a) logged) \<Rightarrow>
     (('r NixReader, 'w NixWriter) DaemonConnection \<times> 's \<Rightarrow> (('r NixReader, 'w NixWriter) DaemonConnection \<times> 's, DaemonError, bool) outcome) \<Rightarrow>
     bytes \<Rightarrow> ('r NixReader, 'w NixWriter) DaemonClient \<Rightarrow> bytes \<Rightarrow> ('r NixReader, 'w NixWriter) DaemonConnection \<Rightarrow>
     's \<Rightarrow> 's \<Rightarrow> LogMessage list \<Rightarrow> DaemonError + 'a \<Rightarrow> bytes \<Rightarrow> bool" where
  "exchange written rest good limit hi env call serve p c q conn s s' ms x unread \<longleftrightarrow> (\<exists>request reply.
     (\<forall>nr T. nr_good good hi env nr \<and> nr_rest rest nr = request @ T \<longrightarrow>
       (\<exists>conn'. serve (conn\<lparr>dc_reader := nr\<rparr>, s) = Some ((conn', s'), Inr True) \<and>
          nr_good good hi env (dc_reader conn') \<and> nr_rest rest (dc_reader conn') = T \<and>
          nw_at written limit env (q @ reply) (dc_writer conn') \<and> written (nw_inner (dc_writer conn')) = q @ reply)) \<and>
     (\<forall>nr T. nr_good good hi env nr \<and> nr_rest rest nr = reply @ T \<longrightarrow>
       (\<exists>c'. call (c\<lparr>cl_reader := nr\<rparr>) = Some (c', ms, x) \<and>
          nr_good good hi env (cl_reader c') \<and> nr_rest rest (cl_reader c') = unread @ T \<and>
          nw_at written limit env (p @ request) (cl_writer c') \<and> written (nw_inner (cl_writer c')) = p @ request)))"

text \<open>What the client sees of a log, and of the result of a call of the store: of an error what the version keeps.\<close>

definition seen :: "u8 \<Rightarrow> LogMessage list \<Rightarrow> LogMessage list" where
  "seen minor ms = List.map_filter (\<lambda>m. Option.bind (log_as_raw minor m) log_of_raw) ms"

definition log_ok :: "nat \<Rightarrow> nat \<Rightarrow> nat \<Rightarrow> u8 \<Rightarrow> LogMessage list \<Rightarrow> bool" where
  "log_ok hi fsz tsz minor = list_all (\<lambda>m. pred_option (raw_ok hi fsz tsz minor) (log_as_raw minor m))"

definition told :: "u8 \<Rightarrow> (bytes \<Rightarrow> string) \<Rightarrow> Operation \<Rightarrow> DaemonError \<Rightarrow> LogError" where
  "told minor lossy op e = error_kept minor (log_of_error lossy (fill_operation op e))"

primrec returned :: "u8 \<Rightarrow> (bytes \<Rightarrow> string) \<Rightarrow> Operation \<Rightarrow> DaemonError + 'a \<Rightarrow> DaemonError + 'a" where
  "returned minor lossy op (Inl e) = Inl (fill_operation op (error_of_log (told minor lossy op e)))"
| "returned minor lossy op (Inr v) = Inr v"

primrec result_ok :: "nat \<Rightarrow> nat \<Rightarrow> u8 \<Rightarrow> (bytes \<Rightarrow> string) \<Rightarrow> Operation \<Rightarrow> ('a \<Rightarrow> bool) \<Rightarrow> DaemonError + 'a \<Rightarrow> bool" where
  "result_ok hi tsz minor lossy op ok (Inl e) \<longleftrightarrow> error_fits hi tsz minor (log_of_error lossy (fill_operation op e))"
| "result_ok hi tsz minor lossy op ok (Inr v) \<longleftrightarrow> ok v"

text \<open>Whenever the call \<open>logs\<close> of the store ends, the client gets its log and its result, and the reply is read to its end.\<close>

definition answered ::
  "('w \<Rightarrow> bytes) \<Rightarrow> ('r \<Rightarrow> bytes) \<Rightarrow> ('r \<Rightarrow> bool) \<Rightarrow> nat \<Rightarrow> nat \<Rightarrow> ProtocolVersion \<times> StoreDir \<Rightarrow> nat \<Rightarrow> nat \<Rightarrow> (bytes \<Rightarrow> string) \<Rightarrow> Operation \<Rightarrow> ('a \<Rightarrow> bool) \<Rightarrow>
     (('r NixReader, 'w NixWriter) DaemonClient \<Rightarrow> (('r NixReader, 'w NixWriter) DaemonClient, 'a) logged) \<Rightarrow>
     (('r NixReader, 'w NixWriter) DaemonConnection \<times> 's \<Rightarrow> (('r NixReader, 'w NixWriter) DaemonConnection \<times> 's, DaemonError, bool) outcome) \<Rightarrow>
     ('s, 'a) ResultLog \<Rightarrow> 's \<Rightarrow> bool" where
  "answered written rest good limit hi env fsz tsz lossy op ok call serve logs s \<longleftrightarrow>
     (\<forall>p c q conn ms s' x. nw_at written limit env p (cl_writer c) \<and> nw_at written limit env q (dc_writer conn) \<and>
        runs logs ms s' x \<and> log_ok hi fsz tsz (pv_minor (fst env)) ms \<and> result_ok hi tsz (pv_minor (fst env)) lossy op ok x \<longrightarrow>
        exchange written rest good limit hi env call serve p c q conn s s' (seen (pv_minor (fst env)) ms) (returned (pv_minor (fst env)) lossy op x) [])"

text \<open>From version 20 on the whole log is seen, a plain message as one of level \<open>Error\<close>.\<close>

lemma seen_since_20: "20 \<le> minor \<Longrightarrow> seen minor ms = map (\<lambda>m. case m of LMessage x \<Rightarrow> LMessage (x\<lparr>ms_level := VError\<rparr>) | _ \<Rightarrow> m) ms"
  by (induction ms) (auto simp: seen_def log_as_raw_def map_filter_simps split: LogMessage.splits)

section \<open>The channel\<close>

locale daemon_channel = store_connection put written sink_err flush wdelay A ops rest good src_err avail delay limit hi env cs
  for put :: "'w \<Rightarrow> bytes \<Rightarrow> ('w, nat) polled" and written sink_err flush wdelay A
    and ops :: "'r BytesRead" and rest good src_err avail delay limit hi env cs +
  assumes src_never: "\<not> src_err e"
begin

abbreviation W where "W \<equiv> nix_writer_ops A put"
abbreviation R where "R \<equiv> nix_reader_ops ops"
abbreviation minor where "minor \<equiv> pv_minor (fst env)"
abbreviation at where "at \<equiv> nw_at written limit env"
abbreviation ready where "ready \<equiv> nr_good good hi env"
abbreviation ahead where "ahead \<equiv> nr_rest rest"
abbreviation ep where "ep \<equiv> nix_endpoint A put flush ops cs"

lemma src_err_never: "src_err = (\<lambda>_. False)"
  using src_never by blast

lemma sentE:
  assumes "sent sink_err I p m"
  obtains w where "m = Some (w, Inr ())" "I p w"
proof -
  obtain w x where "m = Some (w, x)" "case x of Inl e \<Rightarrow> sink_err e | Inr _ \<Rightarrow> I p w" using assms by (auto simp: sent_def)
  then show thesis using that sink_never by (cases x) auto
qed

lemma flushE:
  assumes "at p w"
  obtains w' where "await (nw_poll_flush A put flush) w = Some (w', Inr ())" "at p w'" "written (nw_inner w') = p"
proof -
  obtain w' x where "await (nw_poll_flush A put flush) w = Some (w', x)"
    "case x of Inl e \<Rightarrow> sink_err e | Inr _ \<Rightarrow> at p w' \<and> written (nw_inner w') = p"
    using snk.nw_await_flush [OF assms] by blast
  then show thesis using that sink_never by (cases x) auto
qed

lemma sendsE:
  assumes "sends ser wire ok" "ok v" "at p w"
  obtains w' bs where "ser v w = Some (w', Inr ())" "wire v bs" "at (p @ bs) w'"
proof -
  obtain bs where bs: "wire v bs" "sent sink_err at (p @ bs) (ser v w)" using sendsD [OF assms(1,3,2)] by blast
  from bs(2) obtain w' where "ser v w = Some (w', Inr ())" "at (p @ bs) w'" by (rule sentE)
  with bs(1) that show thesis by blast
qed

lemma readE:
  assumes "value_reader ahead ready src_err de wire" "ready nr" "wire v bs" "ahead nr = bs @ T"
  obtains nr' where "de nr = Some (nr', Inr (Some v))" "ready nr'" "ahead nr' = T"
  using value_reader.complete [OF assms] unfolding src_err_never by (rule got_value_never)

definition raw_sendable :: "nat \<Rightarrow> nat \<Rightarrow> RawLogMessage \<Rightarrow> bool" where
  "raw_sendable fsz tsz m \<longleftrightarrow> raw_ok hi fsz tsz minor m \<and> (20 \<le> minor \<or> \<not> is_activity m)"

lemma raw_wireE:
  obtains wire where "elem_reader ahead ready (\<lambda>_. False) (read_raw (ep K L other fsz tsz)) wire"
    "sends (ser_raw_log_message W) wire (raw_sendable fsz tsz)"
proof -
  have "carries (ser_raw_log_message W) (de_raw_log_message other fsz tsz R) (raw_sendable fsz tsz)"
    using carries_raw_log_message [of other fsz tsz] by (simp add: raw_sendable_def [abs_def])
  then obtain wire where w: "value_reader ahead ready src_err (de_raw_log_message other fsz tsz R) wire"
    "sends (ser_raw_log_message W) wire (raw_sendable fsz tsz)" by (rule carriesE)
  have "elem_reader ahead ready (\<lambda>_. False) (read_raw (ep K L other fsz tsz)) wire"
    using value_reader.required_reader [OF w(1)] unfolding src_err_never by (simp add: read_raw_def [abs_def])
  with w(2) that show thesis by blast
qed

end

section \<open>The daemon writes a reply\<close>

text \<open>The bytes of a log: one piece for every message that is written.\<close>

definition log_wire :: "(RawLogMessage \<Rightarrow> bytes \<Rightarrow> bool) \<Rightarrow> LogMessage list \<Rightarrow> bytes \<Rightarrow> bool" where
  "log_wire wire ms bs \<longleftrightarrow>
     (\<exists>msgs ps. list_all2 (\<lambda>(msg, m) b. wire msg b \<and> log_of_raw msg = Some m) msgs ps \<and> map snd msgs = ms \<and> bs = concat ps)"

lemma log_wire_Nil: "log_wire wire [] []"
  unfolding log_wire_def by (intro exI [of _ "[]"]) simp

lemma log_wire_Cons:
  assumes "log_wire wire ms bs" "wire msg b" "log_of_raw msg = Some m"
  shows "log_wire wire (m # ms) (b @ bs)"
proof -
  obtain msgs ps where "list_all2 (\<lambda>(msg, m) b. wire msg b \<and> log_of_raw msg = Some m) msgs ps" "map snd msgs = ms" "bs = concat ps"
    using assms(1) by (auto simp: log_wire_def)
  with assms(2,3) show ?thesis unfolding log_wire_def by (intro exI [of _ "(msg, m) # msgs"] exI [of _ "b # ps"]) simp
qed

lemma log_as_raw_visible: "log_as_raw minor m = Some r \<Longrightarrow> \<exists>m'. log_of_raw r = Some m'"
  by (cases m) (auto simp: log_as_raw_def split: if_splits)

lemma seen_Cons:
  "seen minor (m # ms) = (case Option.bind (log_as_raw minor m) log_of_raw of None \<Rightarrow> seen minor ms | Some m' \<Rightarrow> m' # seen minor ms)"
  unfolding seen_def by (simp add: map_filter_simps)

lemma seen_Nil [simp]: "seen minor [] = []"
  by (simp add: seen_def map_filter_simps)

context daemon_channel
begin

lemma write_logE:
  assumes wire: "sends (ser_raw_log_message W) wire (raw_sendable fsz tsz)"
    and ok: "pred_option (raw_ok hi fsz tsz minor) (log_as_raw minor m)" and w: "at p w"
  obtains w' bs where "write_log (ep K L other fsz tsz) m w = Some (w', Inr ())" "at (p @ bs) w'"
    "\<And>ms rs. log_wire wire (seen minor ms) rs \<Longrightarrow> log_wire wire (seen minor (m # ms)) (bs @ rs)"
proof -
  have minor: "wr_version W w = fst env" using writer_env [OF w] by simp
  show thesis
  proof (cases "log_as_raw minor m")
    case None
    have s: "ser_log_message W m w = Some (w, Inr ())" using log_as_raw [of W m w] None minor by simp
    obtain w' where "await (nw_poll_flush A put flush) w = Some (w', Inr ())" "at p w'" using w by (rule flushE)
    with that [of w' "[]"] s None show thesis by (simp add: write_log_def seen_Cons)
  next
    case (Some r)
    have "raw_sendable fsz tsz r" using ok Some log_as_raw_new [OF Some] by (simp add: raw_sendable_def)
    then obtain w1 b where s: "ser_raw_log_message W r w = Some (w1, Inr ())" "wire r b" "at (p @ b) w1"
      by (rule sendsE [OF wire _ w])
    have s': "ser_log_message W m w = Some (w1, Inr ())" using log_as_raw [of W m w] Some minor s(1) by simp
    obtain w' where f: "await (nw_poll_flush A put flush) w1 = Some (w', Inr ())" "at (p @ b) w'" using s(3) by (rule flushE)
    obtain m' where m': "log_of_raw r = Some m'" using log_as_raw_visible [OF Some] by blast
    show thesis
    proof (rule that [of w' b])
      show "write_log (ep K L other fsz tsz) m w = Some (w', Inr ())" using s' f(1) by (simp add: write_log_def)
      show "log_wire wire (seen minor (m # ms)) (b @ rs)" if "log_wire wire (seen minor ms) rs" for ms rs
        using log_wire_Cons [OF that s(2) m'] Some m' by (simp add: seen_Cons)
    qed (rule f(2))
  qed
qed

lemma write_logs_run:
  assumes wire: "sends (ser_raw_log_message W) wire (raw_sendable fsz tsz)"
    and "runs logs ms s x" "log_ok hi fsz tsz minor ms" "at p w"
  shows "\<exists>w' bs. write_logs (ep K L other fsz tsz) logs w = Some ((w', s), Inr x) \<and> at (p @ bs) w' \<and> log_wire wire (seen minor ms) bs"
  using assms(2-)
proof (induction arbitrary: p w rule: runs.induct)
  case (runs_resolved s x)
  then show ?case by (subst write_logs.simps) (auto intro: log_wire_Nil exI [of _ "[]"])
next
  case (runs_logged rl ms s x s' m)
  have ok: "pred_option (raw_ok hi fsz tsz minor) (log_as_raw minor m)" "log_ok hi fsz tsz minor ms"
    using runs_logged.prems(1) by (simp_all add: log_ok_def)
  obtain w1 b where w1: "write_log (ep K L other fsz tsz) m w = Some (w1, Inr ())" "at (p @ b) w1"
    "\<And>ms rs. log_wire wire (seen minor ms) rs \<Longrightarrow> log_wire wire (seen minor (m # ms)) (b @ rs)"
    using write_logE [OF wire ok(1) runs_logged.prems(2)] by metis
  obtain w' bs where "write_logs (ep K L other fsz tsz) rl w1 = Some ((w', s), Inr x)" "at ((p @ b) @ bs) w'" "log_wire wire (seen minor ms) bs"
    using runs_logged.IH [OF ok(2) w1(2)] by blast
  with w1 show ?case by (intro exI [of _ w'] exI [of _ "b @ bs"]) (subst write_logs.simps, simp)
qed

end

section \<open>The client reads a reply\<close>

context daemon_channel
begin

lemma followed:
  assumes rd: "elem_reader ahead ready (\<lambda>_. False) (read_raw (ep K L other fsz tsz)) wire"
    and "log_wire wire ms bs" "wire RLast lb" "ready nr" "ahead nr = bs @ lb @ T"
  shows "\<exists>nr'. ready nr' \<and> ahead nr' = T \<and> follow (ep K L other fsz tsz) de nr =
    map_option (\<lambda>(r, x). (r, ms, from_io x)) (required (de nr'))"
proof -
  obtain msgs ps where l: "list_all2 (\<lambda>(msg, m) b. wire msg b \<and> log_of_raw msg = Some m) msgs ps" "map snd msgs = ms" "bs = concat ps"
    using assms(2) by (auto simp: log_wire_def)
  let ?ps = "stderr_new nr :: ('r NixReader, 'w NixWriter, unit, unit) ProcessStderr"
  let ?loop = "stderr_loop (ep K L other fsz tsz) (\<lambda>_ :: unit. None) (\<lambda>_ _. None) (\<lambda>_ _. None)"
  obtain r where r: "ready r" "ahead r = lb @ T" "?loop ?ps [] = ?loop (?ps\<lparr>ps_reader := r\<rparr>) ms"
    using stderr_loop_logs [OF rd l(1), of ?ps "lb @ T" "\<lambda>_. None" "\<lambda>_ _. None" "\<lambda>_ _. None" "[]"] assms(4,5) l(2,3) by (auto simp: stderr_new_def)
  obtain r' where r': "read_raw (ep K L other fsz tsz) r = Some (r', Inr RLast)" "ready r'" "ahead r' = T"
    using elem_reader.elem_complete [OF rd r(1) assms(3) r(2)] by (rule got_value_never)
  have "?loop (?ps\<lparr>ps_reader := r\<rparr>) ms = Some (?ps\<lparr>ps_reader := r'\<rparr>, ms, Inr ())"
    using stderr_loop_last [of "ep K L other fsz tsz" "?ps\<lparr>ps_reader := r\<rparr>" r'] r'(1) by simp
  then show ?thesis using r(3) r'(2,3)
    by (intro exI [of _ r']) (simp add: follow_def process_stderr_def log_and_then_def out_call_def option.map_comp comp_def split_def)
qed

lemma followed_error:
  assumes rd: "elem_reader ahead ready (\<lambda>_. False) (read_raw (ep K L other fsz tsz)) wire"
    and "log_wire wire ms bs" "wire (RError e) lb" "ready nr" "ahead nr = bs @ lb @ T"
  shows "\<exists>nr'. ready nr' \<and> ahead nr' = T \<and> follow (ep K L other fsz tsz) de nr = Some (nr', ms, Inl (error_of_log e))"
proof -
  obtain msgs ps where l: "list_all2 (\<lambda>(msg, m) b. wire msg b \<and> log_of_raw msg = Some m) msgs ps" "map snd msgs = ms" "bs = concat ps"
    using assms(2) by (auto simp: log_wire_def)
  let ?ps = "stderr_new nr :: ('r NixReader, 'w NixWriter, unit, unit) ProcessStderr"
  let ?loop = "stderr_loop (ep K L other fsz tsz) (\<lambda>_ :: unit. None) (\<lambda>_ _. None) (\<lambda>_ _. None)"
  obtain r where r: "ready r" "ahead r = lb @ T" "?loop ?ps [] = ?loop (?ps\<lparr>ps_reader := r\<rparr>) ms"
    using stderr_loop_logs [OF rd l(1), of ?ps "lb @ T" "\<lambda>_. None" "\<lambda>_ _. None" "\<lambda>_ _. None" "[]"] assms(4,5) l(2,3) by (auto simp: stderr_new_def)
  obtain r' where r': "read_raw (ep K L other fsz tsz) r = Some (r', Inr (RError e))" "ready r'" "ahead r' = T"
    using elem_reader.elem_complete [OF rd r(1) assms(3) r(2)] by (rule got_value_never)
  have "?loop (?ps\<lparr>ps_reader := r\<rparr>) ms = Some (?ps\<lparr>ps_reader := r'\<rparr>, ms, Inl (error_of_log e))"
    using stderr_loop_error [of "ep K L other fsz tsz" "?ps\<lparr>ps_reader := r\<rparr>" r'] r'(1) by simp
  then show ?thesis using r(3) r'(2,3)
    by (intro exI [of _ r']) (simp add: follow_def process_stderr_def log_and_then_def)
qed

end

section \<open>Exchanges\<close>

text \<open>The bytes of a reply.\<close>

primrec reply_wire ::
  "u8 \<Rightarrow> (RawLogMessage \<Rightarrow> bytes \<Rightarrow> bool) \<Rightarrow> ('a \<Rightarrow> bytes \<Rightarrow> bool) \<Rightarrow> (bytes \<Rightarrow> string) \<Rightarrow> Operation \<Rightarrow> LogMessage list \<Rightarrow> DaemonError + 'a \<Rightarrow> bytes \<Rightarrow> bool" where
  "reply_wire minor wire vwire lossy op ms (Inl e) reply \<longleftrightarrow>
     (\<exists>bs lb. reply = bs @ lb \<and> log_wire wire ms bs \<and> wire (RError (told minor lossy op e)) lb)"
| "reply_wire minor wire vwire lossy op ms (Inr v) reply \<longleftrightarrow>
     (\<exists>bs lb vb. reply = bs @ lb @ vb \<and> log_wire wire ms bs \<and> wire RLast lb \<and> vwire v vb)"

context daemon_channel
begin

text \<open>The client reads \<open>g v\<close> of a value \<open>v\<close> and leaves \<open>unread\<close>.\<close>

definition takes :: "('r NixReader \<Rightarrow> ('r NixReader, 'b option) awaited) \<Rightarrow> ('a \<Rightarrow> bytes \<Rightarrow> bool) \<Rightarrow> ('a \<Rightarrow> 'b) \<Rightarrow> bytes \<Rightarrow> bool" where
  "takes de vwire g unread \<longleftrightarrow> (\<forall>v vb nr T. vwire v vb \<and> ready nr \<and> ahead nr = vb @ T \<longrightarrow>
     (\<exists>nr'. required (de nr) = Some (nr', Inr (g v)) \<and> ready nr' \<and> ahead nr' = unread @ T))"

lemma takes_value:
  assumes "value_reader ahead ready src_err de vwire"
  shows "takes de vwire (\<lambda>v. v) []"
  unfolding takes_def
proof (intro allI impI; elim conjE)
  fix v vb nr T assume "vwire v vb" "ready nr" "ahead nr = vb @ T"
  then obtain nr' where "de nr = Some (nr', Inr (Some v))" "ready nr'" "ahead nr' = T" using readE [OF assms] by metis
  then show "\<exists>nr'. required (de nr) = Some (nr', Inr v) \<and> ready nr' \<and> ahead nr' = [] @ T" by (simp add: required_def)
qed

lemma answer_served:
  assumes wire: "sends (ser_raw_log_message W) wire (raw_sendable fsz tsz)" and vs: "sends ser vwire ok"
    and "runs logs ms s' x" "log_ok hi fsz tsz minor ms" "result_ok hi tsz minor lossy op ok x" "at p w"
  shows "\<exists>w' reply. (\<forall>c. dc_writer c = w \<longrightarrow>
      finish_request (ep K L other fsz tsz) lossy op (answer (ep K L other fsz tsz) ser logs c) = Some ((c\<lparr>dc_writer := w'\<rparr>, s'), Inr ())) \<and>
    at (p @ reply) w' \<and> written (nw_inner w') = p @ reply \<and> reply_wire minor wire vwire lossy op (seen minor ms) x reply"
proof -
  obtain w1 bs where l: "write_logs (ep K L other fsz tsz) logs w = Some ((w1, s'), Inr x)" "at (p @ bs) w1" "log_wire wire (seen minor ms) bs"
    using write_logs_run [OF wire assms(3,4,6)] by blast
  note defs = answer_def conn_process_logs_def process_logs_def finish_request_def write_last_def conn_write_def recover_def
  show ?thesis
  proof (cases x)
    case (Inl e)
    have "raw_sendable fsz tsz (RError (told minor lossy op e))"
      using Inl assms(5) by (simp add: raw_sendable_def told_def error_kept_ok)
    then obtain w2 lb where w2: "ser_raw_log_message W (RError (told minor lossy op e)) w1 = Some (w2, Inr ())" "wire (RError (told minor lossy op e)) lb"
      "at ((p @ bs) @ lb) w2" by (rule sendsE [OF wire _ l(2)])
    have kept: "ser_raw_log_message W (RError (log_of_error lossy (fill_operation op e))) w1 = Some (w2, Inr ())"
      using ser_raw_error_kept [OF l(2)] Inl assms(5) w2(1) by (simp add: told_def)
    obtain w' where w': "await (nw_poll_flush A put flush) w2 = Some (w', Inr ())" "at ((p @ bs) @ lb) w'" "written (nw_inner w') = (p @ bs) @ lb"
      using w2(3) by (rule flushE)
    have "finish_request (ep K L other fsz tsz) lossy op (answer (ep K L other fsz tsz) ser logs c) = Some ((c\<lparr>dc_writer := w'\<rparr>, s'), Inr ())"
      if "dc_writer c = w" for c using that Inl l(1) kept w'(1) by (simp add: defs)
    moreover have "reply_wire minor wire vwire lossy op (seen minor ms) x (bs @ lb)" using Inl l(3) w2(2) by auto
    ultimately show ?thesis using w'(2,3) by (intro exI [of _ w'] exI [of _ "bs @ lb"]) simp
  next
    case (Inr v)
    have "raw_sendable fsz tsz RLast" by (simp add: raw_sendable_def)
    then obtain w2 lb where w2: "ser_raw_log_message W RLast w1 = Some (w2, Inr ())" "wire RLast lb" "at ((p @ bs) @ lb) w2"
      by (rule sendsE [OF wire _ l(2)])
    have "ok v" using Inr assms(5) by simp
    then obtain w3 vb where w3: "ser v w2 = Some (w3, Inr ())" "vwire v vb" "at (((p @ bs) @ lb) @ vb) w3" by (rule sendsE [OF vs _ w2(3)])
    obtain w' where w': "await (nw_poll_flush A put flush) w3 = Some (w', Inr ())" "at (((p @ bs) @ lb) @ vb) w'"
      "written (nw_inner w') = ((p @ bs) @ lb) @ vb" using w3(3) by (rule flushE)
    have "finish_request (ep K L other fsz tsz) lossy op (answer (ep K L other fsz tsz) ser logs c) = Some ((c\<lparr>dc_writer := w'\<rparr>, s'), Inr ())"
      if "dc_writer c = w" for c using that Inr l(1) w2(1) w3(1) w'(1) by (simp add: defs)
    moreover have "reply_wire minor wire vwire lossy op (seen minor ms) x (bs @ lb @ vb)" using Inr l(3) w2(2) w3(2) by auto
    ultimately show ?thesis using w'(2,3) by (intro exI [of _ w'] exI [of _ "bs @ lb @ vb"]) simp
  qed
qed

lemma call_followed:
  assumes rd: "elem_reader ahead ready (\<lambda>_. False) (read_raw (ep K L other fsz tsz)) wire"
    and de: "takes de vwire g unread"
    and "reply_wire minor wire vwire lossy op ms x reply" "ready nr" "ahead nr = reply @ T"
  shows "\<exists>nr' y. follow (ep K L other fsz tsz) de nr = Some (nr', ms, y) \<and> ready nr' \<and>
    ahead nr' = (case x of Inl _ \<Rightarrow> [] | Inr _ \<Rightarrow> unread) @ T \<and> result_map_err (fill_operation op) y = result_map g (returned minor lossy op x)"
proof (cases x)
  case (Inl e)
  with assms(3,5) obtain bs lb where b: "ahead nr = bs @ lb @ T" "log_wire wire ms bs" "wire (RError (told minor lossy op e)) lb" by auto
  obtain nr' where "ready nr'" "ahead nr' = T" "follow (ep K L other fsz tsz) de nr = Some (nr', ms, Inl (error_of_log (told minor lossy op e)))"
    using followed_error [OF rd b(2,3) assms(4) b(1)] by blast
  with Inl show ?thesis by simp
next
  case (Inr v)
  with assms(3,5) obtain bs lb vb where b: "ahead nr = bs @ lb @ vb @ T" "log_wire wire ms bs" "wire RLast lb" "vwire v vb" by auto
  obtain nr1 where n1: "ready nr1" "ahead nr1 = vb @ T"
    "follow (ep K L other fsz tsz) de nr = map_option (\<lambda>(r, x). (r, ms, from_io x)) (required (de nr1))"
    using followed [OF rd b(2,3) assms(4) b(1)] by blast
  obtain nr' where "required (de nr1) = Some (nr', Inr (g v))" "ready nr'" "ahead nr' = unread @ T"
    using de b(4) n1(1,2) unfolding takes_def by blast
  with n1(3) Inr show ?thesis by simp
qed

lemma exchange_answer:
  fixes X :: "('r NixReader, 'w NixWriter, 'n) Streams" and request :: "'j Request"
    and store :: "('s, 'j, 'r NixReader Upload, 'r NixReader Parts, 'n) DaemonStore"
  assumes req: "\<And>p w. at p w \<Longrightarrow> write_values (ser_operation W op # args) w = ser_request cs K W request w"
    and q: "request_ok limit hi cs (snd env) L request" "request_operation request = op"
    and proc: "\<And>c. process_request (ep K L other fsz tsz) X store request (c, s) = answer (ep K L other fsz tsz) ser logs c"
    and vs: "sends ser vwire ok"
    and de: "takes de vwire g unread"
    and run: "runs logs ms s' x" "log_ok hi fsz tsz minor ms" "result_ok hi tsz minor lossy op ok x"
    and cw: "at p (cl_writer c)" and sw: "at q (dc_writer conn)"
  shows "exchange written rest good limit hi env (client_call (ep K L other fsz tsz) op args de) (server_round (ep K L other fsz tsz) X lossy store)
    p c q conn s s' (seen minor ms) (result_map g (returned minor lossy op x)) (case x of Inl _ \<Rightarrow> [] | Inr _ \<Rightarrow> unread)"
proof -
  let ?E = "ep K L other fsz tsz"
  obtain wire where wire: "elem_reader ahead ready (\<lambda>_. False) (read_raw ?E) wire" "sends (ser_raw_log_message W) wire (raw_sendable fsz tsz)"
    by (rule raw_wireE)
  obtain qwire where qw: "value_reader ahead ready src_err (de_request cs L other R :: _ \<Rightarrow> (_, 'j Request option) awaited) qwire"
    "sends (ser_request cs K W) qwire (request_ok limit hi cs (snd env) L)"
    using carries_request [of K L other] by (rule carriesE)
  obtain w1 qb where w1: "ser_request cs K W request (cl_writer c) = Some (w1, Inr ())" "qwire request qb" "at (p @ qb) w1"
    using qw(2) q(1) cw by (rule sendsE)
  obtain w2 where w2: "await (nw_poll_flush A put flush) w1 = Some (w2, Inr ())" "at (p @ qb) w2" "written (nw_inner w2) = p @ qb"
    using w1(3) by (rule flushE)
  obtain sw' reply where sw': "\<And>c. dc_writer c = dc_writer conn \<Longrightarrow> finish_request ?E lossy op (answer ?E ser logs c) = Some ((c\<lparr>dc_writer := sw'\<rparr>, s'), Inr ())"
    "at (q @ reply) sw'" "written (nw_inner sw') = q @ reply" "reply_wire minor wire vwire lossy op (seen minor ms) x reply"
    using answer_served [OF wire(2) vs run sw, of K L other] by blast
  have served: "\<exists>conn'. server_round ?E X lossy store (conn\<lparr>dc_reader := nr\<rparr>, s) = Some ((conn', s'), Inr True) \<and> ready (dc_reader conn') \<and>
      ahead (dc_reader conn') = T \<and> at (q @ reply) (dc_writer conn') \<and> written (nw_inner (dc_writer conn')) = q @ reply"
    if n: "ready nr" "ahead nr = qb @ T" for nr T
  proof -
    obtain nr' where r: "de_request cs L other R nr = Some (nr', Inr (Some request))" "ready nr'" "ahead nr' = T"
      using qw(1) n(1) w1(2) n(2) by (rule readE)
    show ?thesis
      using r sw'(1) [of "conn\<lparr>dc_reader := nr'\<rparr>"] sw'(2,3) proc q(2)
      by (intro exI [of _ "conn\<lparr>dc_reader := nr', dc_writer := sw'\<rparr>"]) (simp add: server_round_def read_request_def)
  qed
  have called: "\<exists>c'. client_call ?E op args de (c\<lparr>cl_reader := nr\<rparr>) = Some (c', seen minor ms, result_map g (returned minor lossy op x)) \<and> ready (cl_reader c') \<and>
      ahead (cl_reader c') = (case x of Inl _ \<Rightarrow> [] | Inr _ \<Rightarrow> unread) @ T \<and> at (p @ qb) (cl_writer c') \<and> written (nw_inner (cl_writer c')) = p @ qb"
    if n: "ready nr" "ahead nr = reply @ T" for nr T
  proof -
    obtain nr' y where f: "follow ?E de nr = Some (nr', seen minor ms, y)" "ready nr'" "ahead nr' = (case x of Inl _ \<Rightarrow> [] | Inr _ \<Rightarrow> unread) @ T"
      "result_map_err (fill_operation op) y = result_map g (returned minor lossy op x)"
      using call_followed [OF wire(1) de sw'(4) n] by blast
    show ?thesis
      using f w1(1) w2 req [OF cw]
      by (intro exI [of _ "c\<lparr>cl_reader := nr', cl_writer := w2\<rparr>"])
        (simp add: client_call_def client_write_def client_process_stderr_def logged_defs del: write_values.simps)
  qed
  show ?thesis unfolding exchange_def using served called by blast
qed

end

context daemon_channel
begin

lemma exchange_value:
  fixes X :: "('r NixReader, 'w NixWriter, 'n) Streams" and request :: "'j Request"
    and store :: "('s, 'j, 'r NixReader Upload, 'r NixReader Parts, 'n) DaemonStore"
  assumes req: "\<And>p w. at p w \<Longrightarrow> write_values (ser_operation W op # args) w = ser_request cs K W request w"
    and q: "request_ok limit hi cs (snd env) L request" "request_operation request = op"
    and proc: "\<And>c. process_request (ep K L other fsz tsz) X store request (c, s) = answer (ep K L other fsz tsz) ser logs c"
    and vs: "carries ser de ok"
  shows "answered written rest good limit hi env fsz tsz lossy op ok (client_call (ep K L other fsz tsz) op args de)
    (server_round (ep K L other fsz tsz) X lossy store) logs s"
  unfolding answered_def
proof (intro allI impI; elim conjE)
  fix p q ms s' x and c :: "('r NixReader, 'w NixWriter) DaemonClient" and conn :: "('r NixReader, 'w NixWriter) DaemonConnection"
  assume h: "at p (cl_writer c)" "at q (dc_writer conn)" "runs logs ms s' x" "log_ok hi fsz tsz minor ms" "result_ok hi tsz minor lossy op ok x"
  obtain vwire where v: "value_reader ahead ready src_err de vwire" "sends ser vwire ok" using vs by (rule carriesE)
  have eq: "result_map (\<lambda>v. v) (returned minor lossy op x) = returned minor lossy op x" "(case x of Inl _ \<Rightarrow> [] | Inr _ \<Rightarrow> []) = ([] :: bytes)"
    by (cases x; simp)+
  show "exchange written rest good limit hi env (client_call (ep K L other fsz tsz) op args de) (server_round (ep K L other fsz tsz) X lossy store)
      p c q conn s s' (seen minor ms) (returned minor lossy op x) []"
    using exchange_answer [where X = X and store = store and K = K and L = L and other = other and request = request,
        OF req q proc v(2) takes_value [OF v(1)] h(3-5,1,2)] unfolding eq by simp
qed

text \<open>The daemon answers with a number, the client expects nothing.\<close>

lemma exchange_one:
  fixes X :: "('r NixReader, 'w NixWriter, 'n) Streams" and request :: "'j Request"
    and store :: "('s, 'j, 'r NixReader Upload, 'r NixReader Parts, 'n) DaemonStore"
  assumes req: "\<And>p w. at p w \<Longrightarrow> write_values (ser_operation W op # args) w = ser_request cs K W request w"
    and q: "request_ok limit hi cs (snd env) L request" "request_operation request = op"
    and proc: "\<And>c. process_request (ep K L other fsz tsz) X store request (c, s) =
      answer (ep K L other fsz tsz) (\<lambda>_. ser_ignored_one W ()) logs c"
    and run: "runs logs ms s' (Inr ())" "log_ok hi fsz tsz minor ms" "at p (cl_writer c)" "at r (dc_writer conn)"
  shows "exchange written rest good limit hi env (client_call (ep K L other fsz tsz) op args (de_unit R))
    (server_round (ep K L other fsz tsz) X lossy store) p c r conn s s' (seen minor ms) (Inr ()) (to_le_bytes 1)"
proof -
  have "sends (\<lambda>_. ser_ignored_one W ()) (\<lambda>_ bs. bs = to_le_bytes 1) (\<lambda>_ :: unit. True)"
    unfolding sends_def by (simp add: ser_ignored_one_def ser_into_def ser_u64_def ww.number_law)
  moreover have "takes (de_unit R) (\<lambda>_ bs. bs = to_le_bytes 1) (\<lambda>v. v) (to_le_bytes 1)"
    by (auto simp: takes_def de_unit_def required_def)
  ultimately show ?thesis
    using exchange_answer [where X = X and store = store and K = K and L = L and other = other and request = request
        and vwire = "\<lambda>_ bs. bs = to_le_bytes 1" and ok = "\<lambda>_. True" and g = "\<lambda>v. v" and unread = "to_le_bytes 1" and lossy = lossy,
        OF req q proc _ _ run(1,2) _ run(3,4)] by simp
qed

text \<open>A number that is no message fails the next call.\<close>

lemma number_follows:
  assumes "ready nr" "ahead nr = to_le_bytes n @ T" "n \<notin> raw_type_code ` set raw_type_all"
  shows "\<exists>nr'. follow (ep K L other fsz tsz) de nr = Some (nr', [], Inl (error_of_io invalid_data))"
proof -
  obtain nr' where n: "rd_number R nr = Some (nr', Inr (Some n))"
    using readE [OF rr.num.value_reader_axioms assms(1), of n "to_le_bytes n" T] assms(2) by (auto simp: number_wire_def)
  have "of_code raw_type_code raw_type_all n = Inl ()"
    using assms(3) of_code_Inr [of raw_type_code raw_type_all n] by (cases "of_code raw_type_code raw_type_all n") force+
  with n have "read_raw (ep K L other fsz tsz) nr = Some (nr', Inl invalid_data)"
    by (simp add: read_raw_def de_raw_log_message_def de_tagged_def de_bind_def de_raw_type_def de_try_from_def try_converted_def de_u64_def required_def invalid_data_def)
  then have "stderr_loop (ep K L other fsz tsz) (\<lambda>_ :: unit. None) (\<lambda>_ _. None) (\<lambda>_ _. None)
      (stderr_new nr :: ('r NixReader, 'w NixWriter, unit, unit) ProcessStderr) [] = Some ((stderr_new nr)\<lparr>ps_reader := nr'\<rparr>, [], Inl (error_of_io invalid_data))"
    by (intro stderr_loop_failed) (simp add: stderr_new_def)
  then show ?thesis by (simp add: follow_def process_stderr_def log_and_then_def)
qed

end

text \<open>A pipe in memory.\<close>

interpretation pipe: daemon_channel vec_put "\<lambda>w. w" "\<lambda>_. False" vec_flush "\<lambda>_. 0" exact_alloc cursor_ops cursor_rest cursor_good "\<lambda>_. False" cursor_rest "\<lambda>_. 0"
    8184 DEFAULT_MAX_BUF_SIZE "(PROTOCOL_VERSION, default_dir)" bit_codecs
  by (intro daemon_channel.intro daemon_channel_axioms.intro mem.store_connection_axioms) simp

text \<open>A store for the witnesses, which knows every path and says so.\<close>

definition sample_log :: LogMessage where
  "sample_log = LMessage \<lparr>ms_level = VInfo, ms_text = [104, 105]\<rparr>"

definition sample_store :: "(unit, unit, Cursor NixReader Upload, Cursor NixReader Parts, unit) DaemonStore" where
  "sample_store = (daemon_store_default (\<lambda>_. TTrusted) (\<lambda>s. Some (s, Inr ())))
     \<lparr>ds_is_valid_path := \<lambda>s _. Logged s sample_log (Resolved s (Inr True)), ds_ensure_path := \<lambda>s _. Resolved s (Inr ())\<rparr>"

definition sample_client :: "(Cursor NixReader, bytes NixWriter) DaemonClient" where
  "sample_client = \<lparr>cl_id = 1, cl_host = ''unknown'', cl_reader = rb_build nix_reader_builder \<lparr>cdata = [], cpos = 0\<rparr>,
     cl_writer = nix_writer_new exact_alloc [], cl_daemon_nix_version = None, cl_remote_trusts_us = TUnknown\<rparr>"

definition sample_conn :: "(Cursor NixReader, bytes NixWriter) DaemonConnection" where
  "sample_conn = \<lparr>dc_store_trust = TTrusted, dc_reader = rb_build nix_reader_builder \<lparr>cdata = [], cpos = 0\<rparr>,
     dc_writer = nix_writer_new exact_alloc []\<rparr>"

definition sample_end :: "(Cursor NixReader, bytes NixWriter, bytes, RingAlgorithm \<times> bytes) Endpoint" where
  "sample_end = nix_endpoint exact_alloc vec_put vec_flush cursor_ops bit_codecs plain_crates sample_layout (\<lambda>_. VVomit) 32 40"

definition sample_streams :: "(Cursor NixReader, bytes NixWriter, unit) Streams" where
  "sample_streams = \<lparr>sv_bytes = nr_ops cursor_ops, sv_put = \<lambda>w b. await (\<lambda>w. nw_poll_write exact_alloc vec_put w b) w,
     sv_fill = \<lambda>n. Some (n, Inr []), sv_consume = \<lambda>n _. Some n, sv_shared = \<lambda>_. False\<rparr>"

lemma sample_writers:
  "nw_at (\<lambda>w. w) 8184 (PROTOCOL_VERSION, default_dir) [] (cl_writer sample_client)"
  "nw_at (\<lambda>w. w) 8184 (PROTOCOL_VERSION, default_dir) [] (dc_writer sample_conn)"
  by (simp_all add: sample_client_def sample_conn_def vwrite.nix_writer_new_at)

end
