(* ===== verification/Daemon_Handshake.thy ===== *)
theory Daemon_Handshake
  imports Daemon_Exchange
begin

text \<open>
  The greeting of client and daemon. Each side is followed through its own steps, given what the other one sends; then the two sides are
  put together: they agree on a version, which from then on is the version of both readers and both writers, the client learns the
  daemon's version of Nix and how far it is trusted, and both stand at the same place of the stream.
\<close>

section \<open>Changing the version\<close>

lemma nw_at_version: "nw_at written limit env p w \<Longrightarrow> nw_at written limit (v, snd env) p (nw_set_version w v)"
  by (auto simp: nw_at_def nw_ok_def nw_set_version_def)

lemma nr_good_version: "nr_good good hi env r \<Longrightarrow> nr_good good hi (v, snd env) (nr_set_version r v)"
  by (auto simp: nr_good_def nr_set_version_def)

lemma nr_rest_version [simp]: "nr_rest rest (nr_set_version r v) = nr_rest rest r"
  by (simp add: nr_rest_def nr_set_version_def)

lemma with_field_Inr [simp]: "with_field f name (Inr x) = Inr x"
  by (simp add: with_field_def)

context daemon_channel
begin

lemma at_version: "daemon_channel put written sink_err flush wdelay A ops rest good src_err avail delay limit hi (v, snd env) cs"
  by unfold_locales (use sink_never hi_bound store_dir_fits src_never in simp_all)

lemma numberE:
  assumes "ready nr" "ahead nr = to_le_bytes n @ T"
  obtains nr' where "read_number R nr = Some (nr', Inr n)" "ready nr'" "ahead nr' = T"
proof -
  have "number_wire n (to_le_bytes n)" by (simp add: number_wire_def)
  then obtain nr' where "rd_number R nr = Some (nr', Inr (Some n))" "ready nr'" "ahead nr' = T"
    using readE [OF rr.num.value_reader_axioms assms(1) _ assms(2)] by blast
  then show thesis using that by (simp add: read_number_def required_def)
qed

lemma sent_numberE:
  assumes "at p w"
  obtains w' where "wr_number W w n = Some (w', Inr ())" "at (p @ to_le_bytes n) w'"
  using ww.number_law [OF assms, of n] by (rule sentE)

lemma carries_version: "carries (ser_version W) (de_version R) (\<lambda>_. True)"
  unfolding ser_version_def [abs_def] de_version_def [abs_def] by (rule carries_iso [OF carries_u16]) (simp add: version_from_to_u16)

section \<open>After the version\<close>

text \<open>What the sides exchange once they agree on a version.\<close>

definition settles ::
  "(bool \<Rightarrow> bytes \<Rightarrow> bool) \<Rightarrow> (string \<Rightarrow> bytes \<Rightarrow> bool) \<Rightarrow> (TrustLevel \<Rightarrow> bytes \<Rightarrow> bool) \<Rightarrow> bool" where
  "settles bwire swire twire \<longleftrightarrow>
     value_reader ahead ready src_err (de_bool R) bwire \<and> sends (ser_bool W) bwire (\<lambda>_. True) \<and>
     value_reader ahead ready src_err (de_string R) swire \<and> sends (ser_string W) swire (\<lambda>s. utf8_valid (as_bytes s) \<and> length s \<le> hi) \<and>
     value_reader ahead ready src_err (de_trust_level R) twire \<and> sends (ser_trust_level W) twire (\<lambda>_. True)"

lemma settlesD:
  assumes "settles bwire swire twire"
  shows "value_reader ahead ready src_err (de_bool R) bwire" "sends (ser_bool W) bwire (\<lambda>_. True)"
    "value_reader ahead ready src_err (de_string R) swire" "sends (ser_string W) swire (\<lambda>s. utf8_valid (as_bytes s) \<and> length s \<le> hi)"
    "value_reader ahead ready src_err (de_trust_level R) twire" "sends (ser_trust_level W) twire (\<lambda>_. True)"
  using assms unfolding settles_def by simp_all

lemma settlesE: obtains bwire swire twire where "settles bwire swire twire"
proof -
  obtain bwire where "value_reader ahead ready src_err (de_bool R) bwire" "sends (ser_bool W) bwire (\<lambda>_. True)"
    using carries_bool by (rule carriesE)
  moreover obtain swire where "value_reader ahead ready src_err (de_string R) swire"
    "sends (ser_string W) swire (\<lambda>s. utf8_valid (as_bytes s) \<and> length s \<le> hi)" using carries_string by (rule carriesE)
  moreover obtain twire where "value_reader ahead ready src_err (de_trust_level R) twire" "sends (ser_trust_level W) twire (\<lambda>_. True)"
    using carries_enums(4) by (rule carriesE)
  ultimately show thesis using that unfolding settles_def by blast
qed

lemma requiredE:
  assumes "value_reader ahead ready src_err de wire" "ready nr" "wire v bs" "ahead nr = bs @ T"
  obtains nr' where "required (de nr) = Some (nr', Inr v)" "ready nr'" "ahead nr' = T"
proof -
  obtain nr' where "de nr = Some (nr', Inr (Some v))" "ready nr'" "ahead nr' = T" using assms by (rule readE)
  then show thesis using that by (simp add: required_def)
qed

lemma client_settled:
  assumes s: "settles bwire swire twire" and minor: "35 \<le> pv_minor v" and w: "at p w"
  shows "\<exists>b1 b2 w'. bwire False b1 \<and> bwire False b2 \<and> at (p @ b1 @ b2) w' \<and> written (nw_inner w') = p @ b1 @ b2 \<and>
    (\<forall>nr T nix trust sb tb. swire nix sb \<and> twire trust tb \<and> ready nr \<and> ahead nr = sb @ tb @ T \<longrightarrow>
      (\<exists>nr'. client_settle (ep K L other fsz tsz) v (nr, w) = Some ((nr', w'), Inr (Some nix, trust)) \<and> ready nr' \<and> ahead nr' = T))"
proof -
  note s = settlesD [OF s]
  obtain w1 b1 where 1: "ser_bool W False w = Some (w1, Inr ())" "bwire False b1" "at (p @ b1) w1" using s(2) TrueI w by (rule sendsE)
  obtain w2 b2 where 2: "ser_bool W False w1 = Some (w2, Inr ())" "bwire False b2" "at ((p @ b1) @ b2) w2"
    using s(2) TrueI 1(3) by (rule sendsE)
  obtain w3 where 3: "await (nw_poll_flush A put flush) w2 = Some (w3, Inr ())" "at ((p @ b1) @ b2) w3" using 2(3) by (rule flushE)
  obtain w4 where 4: "await (nw_poll_flush A put flush) w3 = Some (w4, Inr ())" "at ((p @ b1) @ b2) w4" "written (nw_inner w4) = (p @ b1) @ b2"
    using 3(2) by (rule flushE)
  have old: "14 \<le> pv_minor v" "11 \<le> pv_minor v" "33 \<le> pv_minor v" using minor by (unat_arith)+
  have "\<exists>nr'. client_settle (ep K L other fsz tsz) v (nr, w) = Some ((nr', w4), Inr (Some nix, trust)) \<and> ready nr' \<and> ahead nr' = T"
    if h: "swire nix sb" "twire trust tb" "ready nr" "ahead nr = sb @ tb @ T" for nr T nix trust sb tb
  proof -
    obtain nr1 where r1: "required (de_string R nr) = Some (nr1, Inr nix)" "ready nr1" "ahead nr1 = tb @ T"
      using s(3) h(3,1,4) by (rule requiredE)
    obtain nr2 where r2: "required (de_trust_level R nr1) = Some (nr2, Inr trust)" "ready nr2" "ahead nr2 = T"
      using s(5) r1(2) h(2) r1(3) by (rule requiredE)
    show ?thesis using 1(1) 2(1) 3(1) 4(1) r1(1) r2 minor old
      by (simp add: client_settle_def since_def write_field_def read_field_def write_step_def)
  qed
  then show ?thesis using 1(2) 2(2) 4(2,3) by - (rule exI [of _ b1], rule exI [of _ b2], rule exI [of _ w4], simp, blast)
qed

lemma server_settled:
  assumes s: "settles bwire swire twire" and w: "at p w" and nix: "utf8_valid (as_bytes nix)" "length nix \<le> hi"
  shows "\<exists>sb tb w'. swire nix sb \<and> twire trust tb \<and> at (p @ sb @ tb) w' \<and> written (nw_inner w') = p @ sb @ tb \<and>
    (\<forall>nr T b1 b2. bwire False b1 \<and> bwire False b2 \<and> ready nr \<and> ahead nr = b1 @ b2 @ T \<longrightarrow>
      (\<exists>nr'. server_settle (ep K L other fsz tsz) trust nix v (nr, w) = Some ((nr', w'), Inr v) \<and> ready nr' \<and> ahead nr' = T))"
proof -
  note s = settlesD [OF s]
  obtain w1 sb where 1: "ser_string W nix w = Some (w1, Inr ())" "swire nix sb" "at (p @ sb) w1"
    using s(4) conjI [OF nix] w by (rule sendsE)
  obtain w2 tb where 2: "ser_trust_level W trust w1 = Some (w2, Inr ())" "twire trust tb" "at ((p @ sb) @ tb) w2"
    using s(6) TrueI 1(3) by (rule sendsE)
  obtain w3 where 3: "await (nw_poll_flush A put flush) w2 = Some (w3, Inr ())" "at ((p @ sb) @ tb) w3" "written (nw_inner w3) = (p @ sb) @ tb"
    using 2(3) by (rule flushE)
  have "\<exists>nr'. server_settle (ep K L other fsz tsz) trust nix v (nr, w) = Some ((nr', w3), Inr v) \<and> ready nr' \<and> ahead nr' = T"
    if h: "bwire False b1" "bwire False b2" "ready nr" "ahead nr = b1 @ b2 @ T" for nr T b1 b2
  proof -
    obtain nr1 where r1: "required (de_bool R nr) = Some (nr1, Inr False)" "ready nr1" "ahead nr1 = b2 @ T"
      using s(1) h(3,1,4) by (rule requiredE)
    obtain nr2 where r2: "required (de_bool R nr1) = Some (nr2, Inr False)" "ready nr2" "ahead nr2 = T"
      using s(1) r1(2) h(2) r1(3) by (rule requiredE)
    show ?thesis using 1(1) 2(1) 3(1) r1(1) r2
      by (simp add: server_settle_def write_field_def read_field_def write_step_def)
  qed
  then show ?thesis using 1(2) 2(2) 3(2,3) by - (rule exI [of _ sb], rule exI [of _ tb], rule exI [of _ w3], simp, blast)
qed

lemma settled:
  assumes "35 \<le> pv_minor v" "at p cw" "at q sw" "utf8_valid (as_bytes nix)" "length nix \<le> hi"
  shows "\<exists>b a cw' sw'. at (p @ b) cw' \<and> written (nw_inner cw') = p @ b \<and> at (q @ a) sw' \<and> written (nw_inner sw') = q @ a \<and>
    (\<forall>nr T. ready nr \<and> ahead nr = a @ T \<longrightarrow>
      (\<exists>nr'. client_settle (ep K L other fsz tsz) v (nr, cw) = Some ((nr', cw'), Inr (Some nix, trust)) \<and> ready nr' \<and> ahead nr' = T)) \<and>
    (\<forall>nr T. ready nr \<and> ahead nr = b @ T \<longrightarrow>
      (\<exists>nr'. server_settle (ep K L other fsz tsz) trust nix v (nr, sw) = Some ((nr', sw'), Inr v) \<and> ready nr' \<and> ahead nr' = T))"
proof -
  obtain bwire swire twire where s: "settles bwire swire twire" by (rule settlesE)
  obtain b1 b2 cw' where c: "bwire False b1" "bwire False b2" "at (p @ b1 @ b2) cw'" "written (nw_inner cw') = p @ b1 @ b2"
    and cl: "\<And>nr T nix trust sb tb. swire nix sb \<Longrightarrow> twire trust tb \<Longrightarrow> ready nr \<Longrightarrow> ahead nr = sb @ tb @ T \<Longrightarrow>
      \<exists>nr'. client_settle (ep K L other fsz tsz) v (nr, cw) = Some ((nr', cw'), Inr (Some nix, trust)) \<and> ready nr' \<and> ahead nr' = T"
    using client_settled [OF s assms(1,2), of K L other fsz tsz] by metis
  obtain sb tb sw' where d: "swire nix sb" "twire trust tb" "at (q @ sb @ tb) sw'" "written (nw_inner sw') = q @ sb @ tb"
    and sv: "\<And>nr T b1 b2. bwire False b1 \<Longrightarrow> bwire False b2 \<Longrightarrow> ready nr \<Longrightarrow> ahead nr = b1 @ b2 @ T \<Longrightarrow>
      \<exists>nr'. server_settle (ep K L other fsz tsz) trust nix v (nr, sw) = Some ((nr', sw'), Inr v) \<and> ready nr' \<and> ahead nr' = T"
    using server_settled [OF s assms(3-5), of trust K L other fsz tsz v] by metis
  show ?thesis
    by (rule exI [of _ "b1 @ b2"], rule exI [of _ "sb @ tb"], rule exI [of _ cw'], rule exI [of _ sw'], intro conjI allI impI; (elim conjE)?;
        (intro c d)?; (rule cl [OF d(1,2)] sv [OF c(1,2)])?; simp)
qed

text \<open>The log of the call that makes the store, up to its last message.\<close>

lemma opened:
  assumes "runs logs ms s (Inr x)" "log_ok hi fsz tsz minor ms" "at q sw"
  shows "\<exists>l sw' sw''. (\<forall>c. dc_writer c = sw \<longrightarrow> conn_process_logs (ep K L other fsz tsz) logs c = Some ((c\<lparr>dc_writer := sw'\<rparr>, s), Inr x)) \<and>
    await (nw_poll_flush A put flush) sw' = Some (sw'', Inr ()) \<and> at (q @ l) sw'' \<and> written (nw_inner sw'') = q @ l \<and>
    (\<forall>nr T. ready nr \<and> ahead nr = l @ T \<longrightarrow>
      (\<exists>nr'. follow (ep K L other fsz tsz) (de_unit R) nr = Some (nr', seen minor ms, Inr ()) \<and> ready nr' \<and> ahead nr' = T))"
proof -
  let ?E = "ep K L other fsz tsz"
  obtain wire where wire: "elem_reader ahead ready (\<lambda>_. False) (read_raw ?E) wire" "sends (ser_raw_log_message W) wire (raw_sendable fsz tsz)"
    by (rule raw_wireE)
  obtain w1 bs where l: "write_logs ?E logs sw = Some ((w1, s), Inr (Inr x))" "at (q @ bs) w1" "log_wire wire (seen minor ms) bs"
    using write_logs_run [OF wire(2) assms] by blast
  have "raw_sendable fsz tsz RLast" by (simp add: raw_sendable_def)
  then obtain w2 lb where w2: "ser_raw_log_message W RLast w1 = Some (w2, Inr ())" "wire RLast lb" "at ((q @ bs) @ lb) w2"
    by (rule sendsE [OF wire(2) _ l(2)])
  obtain w3 where w3: "await (nw_poll_flush A put flush) w2 = Some (w3, Inr ())" "at ((q @ bs) @ lb) w3" "written (nw_inner w3) = (q @ bs) @ lb"
    using w2(3) by (rule flushE)
  have "\<exists>nr'. follow ?E (de_unit R) nr = Some (nr', seen minor ms, Inr ()) \<and> ready nr' \<and> ahead nr' = T"
    if n: "ready nr" "ahead nr = (bs @ lb) @ T" for nr T
  proof -
    have "ahead nr = bs @ lb @ T" using n(2) by simp
    from followed [OF wire(1) l(3) w2(2) n(1) this, of "de_unit R"] show ?thesis by (auto simp: de_unit_def required_def)
  qed
  moreover have "conn_process_logs ?E logs c = Some ((c\<lparr>dc_writer := w2\<rparr>, s), Inr x)" if "dc_writer c = sw" for c
    using that l(1) w2(1) by (simp add: conn_process_logs_def process_logs_def write_last_def conn_write_def recover_def)
  ultimately show ?thesis using w3 by (intro exI [of _ "bs @ lb"] exI [of _ w2] exI [of _ w3]) simp
qed

section \<open>The greeting\<close>

lemma greeted:
  assumes minor: "35 \<le> pv_minor v" and v: "v = min smax cmax" "smin \<le> v" "cmin \<le> v"
    and "at p cw" "at q sw" "utf8_valid (as_bytes nix)" "length nix \<le> hi"
  shows "\<exists>b a cw' sw'. nw_at written limit (v, snd env) (p @ b) cw' \<and> written (nw_inner cw') = p @ b \<and>
    nw_at written limit (v, snd env) (q @ a) sw' \<and> written (nw_inner sw') = q @ a \<and>
    (\<forall>nr T. ready nr \<and> ahead nr = a @ T \<longrightarrow> (\<exists>nr'. client_greet (ep K L other fsz tsz) cmin cmax (nr, cw) = Some ((nr', cw'), Inr (Some nix, trust)) \<and>
       nr_good good hi (v, snd env) nr' \<and> ahead nr' = T)) \<and>
    (\<forall>nr T. ready nr \<and> ahead nr = b @ T \<longrightarrow> (\<exists>nr'. server_greet (ep K L other fsz tsz) trust smin smax nix (nr, sw) = Some ((nr', sw'), Inr v) \<and>
       nr_good good hi (v, snd env) nr' \<and> ahead nr' = T))"
proof -
  let ?E = "ep K L other fsz tsz" and ?ready = "nr_good good hi (v, snd env)"
  obtain vwire where vw: "value_reader ahead ready src_err (de_version R) vwire" "sends (ser_version W) vwire (\<lambda>_. True)"
    using carries_version by (rule carriesE)
  obtain c1 where c1: "wr_number W cw CLIENT_MAGIC = Some (c1, Inr ())" "at (p @ to_le_bytes CLIENT_MAGIC) c1"
    using \<open>at p cw\<close> by (rule sent_numberE)
  obtain c2 where c2: "await (nw_poll_flush A put flush) c1 = Some (c2, Inr ())" "at (p @ to_le_bytes CLIENT_MAGIC) c2" using c1(2) by (rule flushE)
  obtain c3 cv where c3: "ser_version W v c2 = Some (c3, Inr ())" "vwire v cv" "at ((p @ to_le_bytes CLIENT_MAGIC) @ cv) c3"
    using vw(2) TrueI c2(2) by (rule sendsE)
  obtain s1 where s1: "wr_number W sw SERVER_MAGIC = Some (s1, Inr ())" "at (q @ to_le_bytes SERVER_MAGIC) s1"
    using \<open>at q sw\<close> by (rule sent_numberE)
  obtain s2 sv where s2: "ser_version W smax s1 = Some (s2, Inr ())" "vwire smax sv" "at ((q @ to_le_bytes SERVER_MAGIC) @ sv) s2"
    using vw(2) TrueI s1(2) by (rule sendsE)
  obtain s3 where s3: "await (nw_poll_flush A put flush) s2 = Some (s3, Inr ())" "at ((q @ to_le_bytes SERVER_MAGIC) @ sv) s3" using s2(3) by (rule flushE)
  obtain b a cw' sw' where
    w: "nw_at written limit (v, snd env) (((p @ to_le_bytes CLIENT_MAGIC) @ cv) @ b) cw'" "written (nw_inner cw') = ((p @ to_le_bytes CLIENT_MAGIC) @ cv) @ b"
      "nw_at written limit (v, snd env) (((q @ to_le_bytes SERVER_MAGIC) @ sv) @ a) sw'" "written (nw_inner sw') = ((q @ to_le_bytes SERVER_MAGIC) @ sv) @ a"
    and cl: "\<And>nr T. ?ready nr \<Longrightarrow> ahead nr = a @ T \<Longrightarrow>
      \<exists>nr'. client_settle ?E v (nr, nw_set_version c3 v) = Some ((nr', cw'), Inr (Some nix, trust)) \<and> ?ready nr' \<and> ahead nr' = T"
    and sv': "\<And>nr T. ?ready nr \<Longrightarrow> ahead nr = b @ T \<Longrightarrow>
      \<exists>nr'. server_settle ?E trust nix v (nr, nw_set_version s3 v) = Some ((nr', sw'), Inr v) \<and> ?ready nr' \<and> ahead nr' = T"
    using daemon_channel.settled [OF at_version [of v] minor nw_at_version [OF c3(3)] nw_at_version [OF s3(2)] assms(7,8), where K = K and L = L and other = other and fsz = fsz and tsz = tsz and trust = trust]
    by blast
  have client: "\<exists>nr'. client_greet ?E cmin cmax (nr, cw) = Some ((nr', cw'), Inr (Some nix, trust)) \<and> ?ready nr' \<and> ahead nr' = T"
    if n: "ready nr" "ahead nr = (to_le_bytes SERVER_MAGIC @ sv @ a) @ T" for nr T
  proof -
    obtain r1 where r1: "read_number R nr = Some (r1, Inr SERVER_MAGIC)" "ready r1" "ahead r1 = sv @ a @ T"
      by (rule numberE [OF n(1), of SERVER_MAGIC "sv @ a @ T"]) (use n(2) in simp_all)
    obtain r2 where r2: "required (de_version R r1) = Some (r2, Inr smax)" "ready r2" "ahead r2 = a @ T"
      using vw(1) r1(2) s2(2) r1(3) by (rule requiredE)
    obtain r3 where "client_settle ?E v (nr_set_version r2 v, nw_set_version c3 v) = Some ((r3, cw'), Inr (Some nix, trust))" "?ready r3" "ahead r3 = T"
      using cl [OF nr_good_version [OF r2(2)], of T] r2(3) by auto
    then show ?thesis using c1(1) c2(1) c3(1) r1(1) r2(1) v
      by (simp add: client_greet_def read_field_def write_field_def agree_version_def Let_def not_less)
  qed
  have server: "\<exists>nr'. server_greet ?E trust smin smax nix (nr, sw) = Some ((nr', sw'), Inr v) \<and> ?ready nr' \<and> ahead nr' = T"
    if n: "ready nr" "ahead nr = (to_le_bytes CLIENT_MAGIC @ cv @ b) @ T" for nr T
  proof -
    obtain r1 where r1: "read_number R nr = Some (r1, Inr CLIENT_MAGIC)" "ready r1" "ahead r1 = cv @ b @ T"
      by (rule numberE [OF n(1), of CLIENT_MAGIC "cv @ b @ T"]) (use n(2) in simp_all)
    obtain r2 where r2: "required (de_version R r1) = Some (r2, Inr v)" "ready r2" "ahead r2 = b @ T"
      using vw(1) r1(2) c3(2) r1(3) by (rule requiredE)
    obtain r3 where r3: "server_settle ?E trust nix v (nr_set_version r2 v, nw_set_version s3 v) = Some ((r3, sw'), Inr v)" "?ready r3" "ahead r3 = T"
      using sv' [OF nr_good_version [OF r2(2)], of T] r2(3) by auto
    have "min v smax = v" using v(1) by simp
    then show ?thesis using s1(1) s2(1) s3(1) r1(1) r2(1) r3 v(2)
      by (simp add: server_greet_def read_field_def write_field_def write_step_def agree_version_def Let_def not_less)
  qed
  show ?thesis
    by (rule exI [of _ "to_le_bytes CLIENT_MAGIC @ cv @ b"], rule exI [of _ "to_le_bytes SERVER_MAGIC @ sv @ a"], rule exI [of _ cw'], rule exI [of _ sw'],
        intro conjI allI impI;
        (elim conjE)?; (rule client server)?; use w in simp)
qed

end

section \<open>The connection is open\<close>

text \<open>The daemon accepts a single version.\<close>

lemma daemon_version:
  assumes "pv_major smin = 1" "37 \<le> pv_minor smin" "smax \<le> SERVER_PROTOCOL_VERSION" "smin \<le> v" "v \<le> smax"
  shows "v = SERVER_PROTOCOL_VERSION"
proof -
  have "SERVER_PROTOCOL_VERSION \<le> smin" using assms(1,2) by (cases smin) (auto simp: SERVER_PROTOCOL_VERSION_def less_eq_ProtocolVersion_def)
  then show ?thesis using assms(3-5) by (meson order.antisym order.trans)
qed

text \<open>
  C5. The handshake: if the ranges of versions of a client and of a daemon, within what their assertions allow, have a greatest common version, then the two agree on it, and
  this is version 1.37. The daemon reads exactly what the client writes and the client exactly what the daemon writes, up to the last message of the log with which the
  store is made; the client hands on this log and knows the daemon's version of Nix and its trust; the readers and writers of
  both sides use the version from then on, and the daemon goes on to serve requests.
\<close>

theorem handshake_agrees:
  fixes X :: "('r NixReader, 'w NixWriter, 'n) Streams" and hc :: "('r NixReader, 'w NixWriter) DaemonHandshakeClient"
    and store :: "('s, 'j, 'r NixReader Upload, 'r NixReader Parts, 'n) DaemonStore"
  assumes channel: "daemon_channel put written sink_err flush wdelay A ops rest good src_err avail delay limit hi env cs"
    and E: "E = nix_endpoint A put flush ops cs K L other fsz tsz"
    and asserted: "pv_major (sb_min_version b) = 1" "37 \<le> pv_minor (sb_min_version b)" "sb_max_version b \<le> SERVER_PROTOCOL_VERSION"
    and v: "v = min (sb_max_version b) (hc_max_version hc)" "sb_min_version b \<le> v" "hc_min_version hc \<le> v"
    and nix: "nix = (case sb_nix_version b of Some n \<Rightarrow> n | None \<Rightarrow> NIX_VERSION)" "utf8_valid (as_bytes nix)" "length nix \<le> hi"
    and at: "nw_at written limit env p (hc_writer hc)" "nw_at written limit env q sw"
    and log: "runs handshake ms h (Inr (store, s))" "log_ok hi fsz tsz (pv_minor v) ms"
  shows "v = ProtocolVersion 1 37 \<and> (\<exists>request reply.
    (\<forall>nr T. nr_good good hi env nr \<and> nr_rest rest nr = request @ T \<longrightarrow>
      (\<exists>conn. serve_connection E X lossy b handshake nr sw = out_call fst (\<lambda>x. x) (process_requests E X lossy store (conn, s)) \<and>
        nr_good good hi (v, snd env) (dc_reader conn) \<and> nr_rest rest (dc_reader conn) = T \<and>
        nw_at written limit (v, snd env) (q @ reply) (dc_writer conn) \<and> written (nw_inner (dc_writer conn)) = q @ reply)) \<and>
    (\<forall>nr T. nr_good good hi env nr \<and> nr_rest rest nr = reply @ T \<longrightarrow>
      (\<exists>c rw. client_handshake E client_id (hc\<lparr>hc_reader := nr\<rparr>) = Some (rw, seen (pv_minor v) ms, Inr c) \<and>
        cl_daemon_nix_version c = Some nix \<and> client_trust_level c = sb_store_trust b \<and> client_version E c = v \<and>
        nr_good good hi (v, snd env) (cl_reader c) \<and> nr_rest rest (cl_reader c) = T \<and>
        nw_at written limit (v, snd env) (p @ request) (cl_writer c) \<and> written (nw_inner (cl_writer c)) = p @ request)))"
proof -
  let ?ready = "nr_good good hi (v, snd env)" and ?at = "nw_at written limit (v, snd env)"
  have v37: "v = SERVER_PROTOCOL_VERSION" using daemon_version [OF asserted v(2)] v(1) by simp
  then have minor: "35 \<le> pv_minor v" by (simp add: SERVER_PROTOCOL_VERSION_def)
  obtain b' a cw' sw' where w: "?at (p @ b') cw'" "written (nw_inner cw') = p @ b'" "?at (q @ a) sw'"
    and cl: "\<And>nr T. nr_good good hi env nr \<Longrightarrow> nr_rest rest nr = a @ T \<Longrightarrow>
      \<exists>nr'. client_greet E (hc_min_version hc) (hc_max_version hc) (nr, hc_writer hc) = Some ((nr', cw'), Inr (Some nix, sb_store_trust b)) \<and>
        ?ready nr' \<and> nr_rest rest nr' = T"
    and sv: "\<And>nr T. nr_good good hi env nr \<Longrightarrow> nr_rest rest nr = b' @ T \<Longrightarrow>
      \<exists>nr'. server_greet E (sb_store_trust b) (sb_min_version b) (sb_max_version b) nix (nr, sw) = Some ((nr', sw'), Inr v) \<and> ?ready nr' \<and> nr_rest rest nr' = T"
    using daemon_channel.greeted [OF channel minor v at nix(2,3), where K = K and L = L and other = other and fsz = fsz and tsz = tsz and trust = "sb_store_trust b", folded E] by blast
  have log': "log_ok hi fsz tsz (pv_minor (fst (v, snd env))) ms" using log(2) by simp
  obtain l sw1 sw2 where o: "\<And>c. dc_writer c = sw' \<Longrightarrow> conn_process_logs E handshake c = Some ((c\<lparr>dc_writer := sw1\<rparr>, h), Inr (store, s))"
      "ep_flush E sw1 = Some (sw2, Inr ())" "?at ((q @ a) @ l) sw2" "written (nw_inner sw2) = (q @ a) @ l"
    and fo: "\<And>nr T. ?ready nr \<Longrightarrow> nr_rest rest nr = l @ T \<Longrightarrow>
      \<exists>nr'. follow E (de_unit (ep_read E)) nr = Some (nr', seen (pv_minor v) ms, Inr ()) \<and> ?ready nr' \<and> nr_rest rest nr' = T"
    using daemon_channel.opened [OF daemon_channel.at_version [OF channel, where v = v] log(1) log' w(3), where K = K and L = L and other = other] by (auto simp: E)
  have served: "\<exists>conn. serve_connection E X lossy b handshake nr sw = out_call fst (\<lambda>x. x) (process_requests E X lossy store (conn, s)) \<and>
      ?ready (dc_reader conn) \<and> nr_rest rest (dc_reader conn) = T \<and> ?at (q @ a @ l) (dc_writer conn) \<and> written (nw_inner (dc_writer conn)) = q @ a @ l"
    if n: "nr_good good hi env nr" "nr_rest rest nr = b' @ T" for nr T
  proof -
    obtain nr' where r: "server_greet E (sb_store_trust b) (sb_min_version b) (sb_max_version b) nix (nr, sw) = Some ((nr', sw'), Inr v)"
      "?ready nr'" "nr_rest rest nr' = T" using sv [OF n] by blast
    let ?c = "\<lparr>dc_store_trust = sb_store_trust b, dc_reader = nr', dc_writer = sw'\<rparr>"
    show ?thesis using o(1) [of ?c] o(2-4) r asserted
      by (intro exI [of _ "?c\<lparr>dc_writer := sw2\<rparr>"]) (simp add: serve_connection_def server_handshake_def nix(1) [symmetric])
  qed
  have called: "\<exists>c rw. client_handshake E client_id (hc\<lparr>hc_reader := nr\<rparr>) = Some (rw, seen (pv_minor v) ms, Inr c) \<and>
      cl_daemon_nix_version c = Some nix \<and> client_trust_level c = sb_store_trust b \<and> client_version E c = v \<and>
      ?ready (cl_reader c) \<and> nr_rest rest (cl_reader c) = T \<and> ?at (p @ b') (cl_writer c) \<and> written (nw_inner (cl_writer c)) = p @ b'"
    if n: "nr_good good hi env nr" "nr_rest rest nr = (a @ l) @ T" for nr T
  proof -
    obtain nr1 where r1: "client_greet E (hc_min_version hc) (hc_max_version hc) (nr, hc_writer hc) = Some ((nr1, cw'), Inr (Some nix, sb_store_trust b))"
      "?ready nr1" "nr_rest rest nr1 = l @ T" using cl [OF n(1), of "l @ T"] n(2) by auto
    obtain nr2 where r2: "follow E (de_unit (ep_read E)) nr1 = Some (nr2, seen (pv_minor v) ms, Inr ())" "?ready nr2" "nr_rest rest nr2 = T"
      using fo [OF r1(2,3)] by blast
    have "wr_version (ep_write E) cw' = v" using w(1) by (auto simp: E nix_writer_ops_def nw_at_def nw_ok_def)
    with r1(1) r2 w(1,2) show ?thesis
      by (simp add: client_handshake_def logged_defs client_trust_level_def client_version_def)
  qed
  show ?thesis using v37 served called unfolding SERVER_PROTOCOL_VERSION_def by blast
qed

theorem handshake_agrees_witness:
  "\<exists>reply c rw. client_handshake sample_end 1 (cb_build exact_alloc client_builder_default \<lparr>cdata = reply, cpos = 0\<rparr> []) = Some (rw, [], Inr c) \<and>
     cl_daemon_nix_version c = Some NIX_VERSION \<and> client_trust_level c = TNotTrusted \<and> client_version sample_end c = ProtocolVersion 1 37"
proof -
  let ?hc = "cb_build exact_alloc client_builder_default \<lparr>cdata = [], cpos = 0\<rparr> [] :: (Cursor NixReader, bytes NixWriter) DaemonHandshakeClient"
  have w: "nw_at (\<lambda>w. w) 8184 (PROTOCOL_VERSION, default_dir) [] (hc_writer ?hc)" "nw_at (\<lambda>w. w) 8184 (PROTOCOL_VERSION, default_dir) [] (dc_writer sample_conn)"
    using sample_writers(2) by (simp_all add: cb_build_def client_builder_default_def sample_conn_def nix_writer_new_def wb_set_store_dir_def nix_writer_builder_def)
  have r: "runs (Resolved () (Inr (sample_store, ()))) [] () (Inr (sample_store, ()))" by simp
  have "utf8_valid (as_bytes NIX_VERSION)" "length NIX_VERSION \<le> DEFAULT_MAX_BUF_SIZE"
    by (simp_all add: NIX_VERSION_def utf8_ascii DEFAULT_MAX_BUF_SIZE_def del: as_bytes_simps)
  note nix = this
  have builders: "pv_major (sb_min_version server_builder_default) = 1" "37 \<le> pv_minor (sb_min_version server_builder_default)"
    "sb_max_version server_builder_default \<le> SERVER_PROTOCOL_VERSION" "PROTOCOL_VERSION = min (sb_max_version server_builder_default) (hc_max_version ?hc)"
    "sb_min_version server_builder_default \<le> PROTOCOL_VERSION" "hc_min_version ?hc \<le> PROTOCOL_VERSION"
    "NIX_VERSION = (case sb_nix_version server_builder_default of Some n \<Rightarrow> n | None \<Rightarrow> NIX_VERSION)"
    by (simp_all add: server_builder_default_def cb_build_def client_builder_default_def PROTOCOL_VERSION_def PROTOCOL_VERSION_MIN_def
        PROTOCOL_VERSION_MAJOR_def SERVER_PROTOCOL_VERSION_def)
  have "log_ok DEFAULT_MAX_BUF_SIZE 32 40 (pv_minor PROTOCOL_VERSION) []" by (simp add: log_ok_def)
  from handshake_agrees [where X = sample_streams and lossy = "\<lambda>_. []" and client_id = 1,
      OF pipe.daemon_channel_axioms sample_end_def builders nix w r this, THEN conjunct2]
  show ?thesis
  proof (elim exE conjE, goal_cases)
    case (1 request reply)
    let ?nr = "rb_build (rb_set_store_dir nix_reader_builder default_dir) \<lparr>cdata = reply, cpos = 0\<rparr>"
    have "nr_good cursor_good DEFAULT_MAX_BUF_SIZE (PROTOCOL_VERSION, default_dir) ?nr" "nr_rest cursor_rest ?nr = reply @ []"
      by (simp_all add: nr_good_def nr_rest_def rb_build_def nix_reader_builder_def rb_set_store_dir_def cursor_good_def cursor_rest_def)
    moreover have "?hc\<lparr>hc_reader := ?nr\<rparr> = cb_build exact_alloc client_builder_default \<lparr>cdata = reply, cpos = 0\<rparr> []"
      by (simp add: cb_build_def client_builder_default_def)
    ultimately show ?case using 1(2) [THEN spec, of ?nr, THEN spec, of "[]"]
      by (auto simp: server_builder_default_def PROTOCOL_VERSION_def PROTOCOL_VERSION_MAJOR_def)
  qed
qed

end
