(* ===== verification/Daemon_Properties.thy ===== *)
theory Daemon_Properties
  imports Daemon_Handshake
begin

text \<open>
  What client and daemon promise to each other, and where they do not keep it: which requests the client writes as the protocol defines them, the
  calls that the daemon answers, the handshake, and the calls that go wrong.
\<close>

section \<open>Requests\<close>

text \<open>The call of the client for a request that is written as the protocol defines it.\<close>

definition client_send ::
  "('r, 'w, 'm, 'd) Endpoint \<Rightarrow> 'j Request \<Rightarrow> ('r \<Rightarrow> ('r, 'a option) awaited) \<Rightarrow> ('r, 'w) DaemonClient \<Rightarrow> (('r, 'w) DaemonClient, 'a) logged" where
  "client_send E q de c =
     log_fill_operation (request_operation q)
       (future_result (client_write (ser_request (ep_codecs E) (ep_crates E) (ep_write E) q) c) (\<lambda>c _. client_process_stderr E de c))"

text \<open>A request that is written and flushed, without waiting for a reply.\<close>

definition client_request ::
  "('r, 'w, 'm, 'd) Endpoint \<Rightarrow> 'j Request \<Rightarrow> ('r, 'w) DaemonClient \<Rightarrow> (('r, 'w) DaemonClient, DaemonError, unit) outcome" where
  "client_request E q c = client_write (write_values [ser_request (ep_codecs E) (ep_crates E) (ep_write E) q, ep_flush E]) c"

lemma aw_bind_assoc: "aw_bind (aw_bind m f) g = aw_bind m (\<lambda>s x. aw_bind (f s x) g)"
  by (auto simp: aw_bind_def split: option.splits sum.splits)

lemma aw_bind_unit: "aw_bind m (\<lambda>s _. Some (s, Inr ())) = m"
  by (auto simp: aw_bind_def split: option.splits sum.splits)

lemmas request_writes = ser_request_def ser_tagged_def ser_into_def ser_then_def aw_bind_assoc aw_bind_unit
  ser_build_paths_def ser_build_derivation_def ser_verify_store_def ser_add_signatures_def ser_add_perm_root_def
  ser_query_valid_paths_def ser_add_to_store_nar_def ser_add_multiple_def ser_add_to_store_def

lemma client_call_send:
  assumes "\<And>w. write_values (ser_operation (ep_write E) op # args) w = ser_request (ep_codecs E) (ep_crates E) (ep_write E) q w"
    and "request_operation q = op"
  shows "client_call E op args de c = client_send E q de c"
proof -
  have "write_values (ser_operation (ep_write E) op # args) = ser_request (ep_codecs E) (ep_crates E) (ep_write E) q" using assms(1) by blast
  then show ?thesis unfolding client_call_def client_send_def assms(2) by simp
qed

lemma client_sends:
  "client_set_options E options c = client_send E (SetOptions options) (de_unit (ep_read E)) c"
  "client_is_valid_path E path c = client_send E (IsValidPath path) (de_bool (ep_read E)) c"
  "client_query_path_info E path c =
     client_send E (QueryPathInfo path) (de_optional_info (ep_read E) (de_path_info (ep_codecs E) (ep_read E))) c"
  "client_build_paths E paths mode c = client_send E (BuildPaths \<lparr>bp_paths = paths, bp_mode = mode\<rparr>) (de_ignored_one (ep_read E)) c"
  "client_build_paths_with_results E paths mode c = client_send E (BuildPathsWithResults \<lparr>bp_paths = paths, bp_mode = mode\<rparr>)
     (de_vec (size_keyed_result (ep_layout E)) (ep_read E) (de_keyed_result (ep_codecs E) (ep_read E))) c"
  "client_build_derivation E drv_path drv mode c =
     client_send E (BuildDerivation \<lparr>bd_drv = (drv_path, drv), bd_mode = mode\<rparr>) (de_build_result (ep_codecs E) (ep_read E)) c"
  "client_query_missing E paths c = client_send E (QueryMissing paths) (de_query_missing (ep_codecs E) (ep_read E)) c"
  "client_query_all_valid_paths E c =
     client_send E QueryAllValidPaths (de_set (ep_read E) (de_store_path (ep_codecs E) (ep_read E))) c"
  "client_query_referrers E path c =
     client_send E (QueryReferrers path) (de_set (ep_read E) (de_store_path (ep_codecs E) (ep_read E))) c"
  "client_ensure_path E path c = client_send E (EnsurePath path) (de_unit (ep_read E)) c"
  "client_add_temp_root E path c = client_send E (AddTempRoot path) (de_unit (ep_read E)) c"
  "client_add_indirect_root E link c = client_send E (AddIndirectRoot link) (de_unit (ep_read E)) c"
  "client_find_roots E c = client_send E FindRoots (de_map (ep_read E) (de_bytes (ep_read E)) (de_store_path (ep_codecs E) (ep_read E))) c"
  "client_query_path_from_hash_part E hash c =
     client_send E (QueryPathFromHashPart hash) (de_optional_path (ep_codecs E) (ep_read E)) c"
  "client_query_substitutable_paths E ps c =
     client_send E (QuerySubstitutablePaths ps) (de_set (ep_read E) (de_store_path (ep_codecs E) (ep_read E))) c"
  "client_query_valid_derivers E path c =
     client_send E (QueryValidDerivers path) (de_set (ep_read E) (de_store_path (ep_codecs E) (ep_read E))) c"
  "client_optimise_store E c = client_send E OptimiseStore (de_unit (ep_read E)) c"
  "client_verify_store E check_contents repair c =
     client_send E (VerifyStore \<lparr>vs_check_contents = check_contents, vs_repair = repair\<rparr>) (de_bool (ep_read E)) c"
  "client_add_signatures E path sigs c = client_send E (AddSignatures \<lparr>sr_path = path, sr_signatures = sigs\<rparr>) (de_unit (ep_read E)) c"
  "client_query_derivation_output_map E path c = client_send E (QueryDerivationOutputMap path)
     (de_map (ep_read E) (de_output_name (ep_read E)) (de_optional_path (ep_codecs E) (ep_read E))) c"
  "client_register_drv_output E realisation c = client_send E (RegisterDrvOutput realisation) (de_unit (ep_read E)) c"
  "client_query_realisation E output_id c =
     client_send E (QueryRealisation output_id) (de_set (ep_read E) (de_realisation (ep_codecs E) (ep_read E))) c"
  "client_add_perm_root E path gc_root c =
     client_send E (AddPermRoot \<lparr>pr_store_path = path, pr_gc_root = gc_root\<rparr>) (de_bytes (ep_read E)) c"
  unfolding client_set_options_def client_is_valid_path_def client_query_path_info_def client_build_paths_def client_build_paths_with_results_def
    client_build_derivation_def client_query_missing_def client_query_all_valid_paths_def client_query_referrers_def client_ensure_path_def
    client_add_temp_root_def client_add_indirect_root_def client_find_roots_def client_query_path_from_hash_part_def
    client_query_substitutable_paths_def client_query_valid_derivers_def client_optimise_store_def client_verify_store_def
    client_add_signatures_def client_query_derivation_output_map_def client_register_drv_output_def client_query_realisation_def
    client_add_perm_root_def
  by (rule client_call_send; simp add: request_writes)+

text \<open>Below version 27 the client leaves the flag of \<open>query_valid_paths\<close> out; the request always has it.\<close>

lemma valid_paths_written:
  assumes "\<And>w'. write_values [ser_operation (ep_write E) OpQueryValidPaths, ser_set (ep_write E) (ser_store_path (ep_codecs E) (ep_write E)) ps] w =
      Some (w', Inr ()) \<Longrightarrow> 27 \<le> pv_minor (wr_version (ep_write E) w')"
  shows "write_values [ser_operation (ep_write E) OpQueryValidPaths, ser_set (ep_write E) (ser_store_path (ep_codecs E) (ep_write E)) ps,
      \<lambda>w. if 27 \<le> pv_minor (wr_version (ep_write E) w) then ser_bool (ep_write E) subst w else Some (w, Inr ())] w =
    ser_request (ep_codecs E) (ep_crates E) (ep_write E) (QueryValidPaths \<lparr>qv_paths = ps, qv_substitute = subst\<rparr>) w"
  using assms by (auto simp: request_writes aw_bind_def split: option.splits sum.splits)

lemma client_sends_valid_paths:
  assumes "\<And>w'. write_values [ser_operation (ep_write E) OpQueryValidPaths, ser_set (ep_write E) (ser_store_path (ep_codecs E) (ep_write E)) ps] (cl_writer c) =
      Some (w', Inr ()) \<Longrightarrow> 27 \<le> pv_minor (wr_version (ep_write E) w')"
  shows "client_query_valid_paths E ps subst c = client_send E (QueryValidPaths \<lparr>qv_paths = ps, qv_substitute = subst\<rparr> :: 'j Request)
    (de_set (ep_read E) (de_store_path (ep_codecs E) (ep_read E))) c"
proof -
  have "write_values [ser_operation (ep_write E) OpQueryValidPaths, ser_set (ep_write E) (ser_store_path (ep_codecs E) (ep_write E)) ps,
      \<lambda>w. if 27 \<le> pv_minor (wr_version (ep_write E) w) then ser_bool (ep_write E) subst w else Some (w, Inr ())] (cl_writer c) =
    ser_request (ep_codecs E) (ep_crates E) (ep_write E) (QueryValidPaths \<lparr>qv_paths = ps, qv_substitute = subst\<rparr> :: 'j Request) (cl_writer c)"
    by (rule valid_paths_written) (rule assms)
  then show ?thesis
    by (simp add: client_query_valid_paths_def client_call_def client_send_def client_write_def del: write_values.simps)
qed

context daemon_channel
begin

lemma paths_written_version:
  assumes "paths_ok ps" "at p w" "write_values [ser_operation W op, ser_set W (ser_store_path cs W) ps] w = Some (w', Inr ())"
  shows "wr_version W w' = fst env"
proof -
  obtain wo where o: "sends (ser_operation W) wo (\<lambda>_. True)" using carries_enums(5) by (rule carriesE)
  obtain wp where ps: "sends (ser_set W (ser_store_path cs W)) wp paths_ok" using carries_paths by (rule carriesE)
  obtain w1 b1 where 1: "ser_operation W op w = Some (w1, Inr ())" "at (p @ b1) w1" by (rule sendsE [OF o TrueI assms(2)])
  obtain w2 b2 where 2: "ser_set W (ser_store_path cs W) ps w1 = Some (w2, Inr ())" "at ((p @ b1) @ b2) w2" by (rule sendsE [OF ps assms(1) 1(2)])
  from assms(3) 1(1) 2(1) have "w' = w2" by simp
  with writer_env [OF 2(2)] show ?thesis by simp
qed

end

lemma client_requests:
  "client_nar_from_path E lend path c =
     log_fill_operation OpNarFromPath (map_option (\<lambda>(c, y). (c\<lparr>cl_reader := lend (cl_reader c)\<rparr>, y))
       (future_result (client_request E (NarFromPath path) c) (\<lambda>c _.
          map_option (\<lambda>(r, ms, x). (c\<lparr>cl_reader := r\<rparr>, ms, x)) (nar_log_loop E (cl_reader c) []))))"
  "client_add_to_store_nar_request E info repair dont_check c = out_call (\<lambda>c. c) (result_map_err (fill_operation OpAddToStoreNar))
     (client_request E (AddToStoreNar \<lparr>an_path_info = info, an_repair = repair, an_dont_check_sigs = dont_check\<rparr>) c)"
  "client_add_ca_request E name cam refs repair c = out_call (\<lambda>c. c) (result_map_err (fill_operation OpAddToStore))
     (client_request E (AddToStore \<lparr>as_name = name, as_cam = cam, as_refs = refs, as_repair = repair\<rparr>) c)"
  "client_add_multiple_request E repair dont_check c = out_call (\<lambda>c. c) (result_map_err (fill_operation OpAddMultipleToStore))
     (client_write (ser_request (ep_codecs E) (ep_crates E) (ep_write E) (AddMultipleToStore \<lparr>am_repair = repair, am_dont_check_sigs = dont_check\<rparr>)) c)"
  by (simp_all add: client_nar_from_path_def client_add_to_store_nar_request_def client_add_ca_request_def client_add_multiple_request_def
      client_upload_def client_request_def client_write_def request_writes)

text \<open>
  C13. The client writes every request as the protocol defines it: for each of the 30 operations of the client but \<open>collect_garbage\<close> and
  \<open>add_build_log\<close>, which write something else, the operation code and the arguments that the client writes one by
  one are exactly what the serialiser of the corresponding \<open>Request\<close> writes, in every state of the writer, and with the same errors.
  Then it flushes, follows the log and reads the result; the uploads \<open>add_to_store_nar\<close> and \<open>add_ca_to_store\<close> end with the flush, \<open>add_multiple_to_store\<close>
  with the request, and \<open>nar_from_path\<close> reads the log only. For \<open>query_valid_paths\<close> the version has to be 1.27 or later when
  the paths have been written: before, the client leaves out the flag that the request has.
\<close>

theorem client_writes_requests:
  "((\<forall>w. write_values [ser_operation (ep_write E) OpQueryValidPaths, ser_set (ep_write E) (ser_store_path (ep_codecs E) (ep_write E)) ps] (cl_writer c) =
         Some (w, Inr ()) \<longrightarrow> 27 \<le> pv_minor (wr_version (ep_write E) w)) \<longrightarrow>
       client_query_valid_paths E ps subst c = client_send E (QueryValidPaths \<lparr>qv_paths = ps, qv_substitute = subst\<rparr>)
         (de_set (ep_read E) (de_store_path (ep_codecs E) (ep_read E))) c) \<and>
    (client_set_options E options c = client_send E (SetOptions options) (de_unit (ep_read E)) c) \<and>
    (client_is_valid_path E path c = client_send E (IsValidPath path) (de_bool (ep_read E)) c) \<and>
    (client_query_path_info E path c =
       client_send E (QueryPathInfo path) (de_optional_info (ep_read E) (de_path_info (ep_codecs E) (ep_read E))) c) \<and>
    (client_build_paths E paths mode c = client_send E (BuildPaths \<lparr>bp_paths = paths, bp_mode = mode\<rparr>) (de_ignored_one (ep_read E)) c) \<and>
    (client_build_paths_with_results E paths mode c = client_send E (BuildPathsWithResults \<lparr>bp_paths = paths, bp_mode = mode\<rparr>)
       (de_vec (size_keyed_result (ep_layout E)) (ep_read E) (de_keyed_result (ep_codecs E) (ep_read E))) c) \<and>
    (client_build_derivation E drv_path drv mode c =
       client_send E (BuildDerivation \<lparr>bd_drv = (drv_path, drv), bd_mode = mode\<rparr>) (de_build_result (ep_codecs E) (ep_read E)) c) \<and>
    (client_query_missing E paths c = client_send E (QueryMissing paths) (de_query_missing (ep_codecs E) (ep_read E)) c) \<and>
    (client_query_all_valid_paths E c =
       client_send E QueryAllValidPaths (de_set (ep_read E) (de_store_path (ep_codecs E) (ep_read E))) c) \<and>
    (client_query_referrers E path c =
       client_send E (QueryReferrers path) (de_set (ep_read E) (de_store_path (ep_codecs E) (ep_read E))) c) \<and>
    (client_ensure_path E path c = client_send E (EnsurePath path) (de_unit (ep_read E)) c) \<and>
    (client_add_temp_root E path c = client_send E (AddTempRoot path) (de_unit (ep_read E)) c) \<and>
    (client_add_indirect_root E link c = client_send E (AddIndirectRoot link) (de_unit (ep_read E)) c) \<and>
    (client_find_roots E c = client_send E FindRoots (de_map (ep_read E) (de_bytes (ep_read E)) (de_store_path (ep_codecs E) (ep_read E))) c) \<and>
    (client_query_path_from_hash_part E hash c =
       client_send E (QueryPathFromHashPart hash) (de_optional_path (ep_codecs E) (ep_read E)) c) \<and>
    (client_query_substitutable_paths E ps c =
       client_send E (QuerySubstitutablePaths ps) (de_set (ep_read E) (de_store_path (ep_codecs E) (ep_read E))) c) \<and>
    (client_query_valid_derivers E path c =
       client_send E (QueryValidDerivers path) (de_set (ep_read E) (de_store_path (ep_codecs E) (ep_read E))) c) \<and>
    (client_optimise_store E c = client_send E OptimiseStore (de_unit (ep_read E)) c) \<and>
    (client_verify_store E check_contents repair c =
       client_send E (VerifyStore \<lparr>vs_check_contents = check_contents, vs_repair = repair\<rparr>) (de_bool (ep_read E)) c) \<and>
    (client_add_signatures E path sigs c = client_send E (AddSignatures \<lparr>sr_path = path, sr_signatures = sigs\<rparr>) (de_unit (ep_read E)) c) \<and>
    (client_query_derivation_output_map E path c = client_send E (QueryDerivationOutputMap path)
       (de_map (ep_read E) (de_output_name (ep_read E)) (de_optional_path (ep_codecs E) (ep_read E))) c) \<and>
    (client_register_drv_output E realisation c = client_send E (RegisterDrvOutput realisation) (de_unit (ep_read E)) c) \<and>
    (client_query_realisation E output_id c =
       client_send E (QueryRealisation output_id) (de_set (ep_read E) (de_realisation (ep_codecs E) (ep_read E))) c) \<and>
    (client_add_perm_root E path gc_root c =
       client_send E (AddPermRoot \<lparr>pr_store_path = path, pr_gc_root = gc_root\<rparr>) (de_bytes (ep_read E)) c) \<and>
    (client_nar_from_path E lend path c =
       log_fill_operation OpNarFromPath (map_option (\<lambda>(c, y). (c\<lparr>cl_reader := lend (cl_reader c)\<rparr>, y))
         (future_result (client_request E (NarFromPath path) c) (\<lambda>c _.
            map_option (\<lambda>(r, ms, x). (c\<lparr>cl_reader := r\<rparr>, ms, x)) (nar_log_loop E (cl_reader c) []))))) \<and>
    (client_add_to_store_nar_request E info repair dont_check c = out_call (\<lambda>c. c) (result_map_err (fill_operation OpAddToStoreNar))
       (client_request E (AddToStoreNar \<lparr>an_path_info = info, an_repair = repair, an_dont_check_sigs = dont_check\<rparr>) c)) \<and>
    (client_add_ca_request E name cam refs repair c = out_call (\<lambda>c. c) (result_map_err (fill_operation OpAddToStore))
       (client_request E (AddToStore \<lparr>as_name = name, as_cam = cam, as_refs = refs, as_repair = repair\<rparr>) c)) \<and>
    (client_add_multiple_request E repair dont_check c = out_call (\<lambda>c. c) (result_map_err (fill_operation OpAddMultipleToStore))
       (client_write (ser_request (ep_codecs E) (ep_crates E) (ep_write E) (AddMultipleToStore \<lparr>am_repair = repair, am_dont_check_sigs = dont_check\<rparr>)) c))"
  by (intro conjI impI client_sends client_sends_valid_paths client_requests) blast

theorem client_writes_requests_witness:
  "client_query_valid_paths sample_end [sample_path] True sample_client =
     client_send sample_end (QueryValidPaths \<lparr>qv_paths = [sample_path], qv_substitute = True\<rparr>)
       (de_set (ep_read sample_end) (de_store_path (ep_codecs sample_end) (ep_read sample_end))) sample_client"
proof (rule client_writes_requests [THEN conjunct1, THEN mp], intro allI impI)
  have ps: "paths_ok [sample_path]" using sample_path_ok by (simp add: paths_ok_def)
  fix w assume "write_values [ser_operation (ep_write sample_end) OpQueryValidPaths,
      ser_set (ep_write sample_end) (ser_store_path (ep_codecs sample_end) (ep_write sample_end)) [sample_path]] (cl_writer sample_client) = Some (w, Inr ())"
  then show "27 \<le> pv_minor (wr_version (ep_write sample_end) w)"
    using pipe.paths_written_version [OF ps sample_writers(1), of OpQueryValidPaths w] by (simp add: sample_end_def PROTOCOL_VERSION_def del: write_values.simps)
qed

section \<open>Calls\<close>

text \<open>Values within the limits of the wire format.\<close>

definition roots_ok :: "nat \<Rightarrow> (bytes \<times> StorePath) list \<Rightarrow> bool" where
  "roots_ok hi m \<longleftrightarrow> list_all (\<lambda>e. length (fst e) \<le> hi \<and> path_ok (snd e)) m \<and> length m < 2 ^ 64 \<and> btree_map m"

definition output_map_ok :: "(OutputName \<times> StorePath option) list \<Rightarrow> bool" where
  "output_map_ok m \<longleftrightarrow> list_all (\<lambda>e. out_ok (fst e) \<and> pred_option path_ok (snd e)) m \<and> length m < 2 ^ 64 \<and> btree_map m"

definition realisations_ok :: "nat \<Rightarrow> nat \<Rightarrow> Codecs \<Rightarrow> Realisation list \<Rightarrow> bool" where
  "realisations_ok limit hi cs rs \<longleftrightarrow>
     list_all (\<lambda>x. drv_output_ok (rl_key x) \<and> realisation_fits limit hi cs (rl_value x)) rs \<and> length rs < 2 ^ 64 \<and> btree_set rs"

definition keyed_results_ok :: "nat \<Rightarrow> nat \<Rightarrow> Codecs \<Rightarrow> StoreDir \<Rightarrow> nat \<Rightarrow> KeyedBuildResult list \<Rightarrow> bool" where
  "keyed_results_ok limit hi cs dir sz ks \<longleftrightarrow>
     list_all (\<lambda>k. derived_fits limit hi cs dir (kb_path k) \<and> build_result_ok limit hi cs (kb_result k)) ks \<and> length ks < 2 ^ 64 \<and> length ks * sz < 2 ^ 63"

context daemon_channel
begin

lemma carries_roots: "carries (ser_map W (ser_bytes W) (ser_store_path cs W)) (de_map R (de_bytes R) (de_store_path cs R)) (roots_ok hi)"
  using carries_map [OF carries_bytes carries_store_path] by (simp add: roots_ok_def [abs_def])

lemma carries_output_map:
  "carries (ser_map W (ser_output_name W) (ser_optional_path cs W)) (de_map R (de_output_name R) (de_optional_path cs R)) output_map_ok"
  using carries_map [OF carries_output_name carries_optional_path] by (simp add: output_map_ok_def [abs_def])

lemma carries_realisations: "carries (ser_set W (ser_realisation cs W)) (de_set R (de_realisation cs R)) (realisations_ok limit hi cs)"
  using carries_set [OF carries_realisation] by (simp add: realisations_ok_def [abs_def])

lemma carries_keyed_results:
  "carries (ser_vec W (ser_keyed_result cs W)) (de_vec sz R (de_keyed_result cs R)) (keyed_results_ok limit hi cs (snd env) sz)"
  using carries_vec [OF carries_keyed_result] by (simp add: keyed_results_ok_def [abs_def])

lemma conn_write_unit: "conn_write (ser_unit W v) c = Some (c, Inr ())"
  by (cases c) (simp add: conn_write_def ser_unit_def)

lemma carries_one: "carries (\<lambda>_. ser_ignored_one W ()) (de_ignored_one R) (\<lambda>_. True)"
proof -
  have "(\<lambda>_ :: unit. ser_ignored_one W ()) = ser_ignored_one W" by (simp add: fun_eq_iff)
  then show ?thesis using carries_ignored(2) by simp
qed

lemma request_exchanges:
  fixes X :: "('r NixReader, 'w NixWriter, 'n) Streams" and drv :: "'j BasicDerivation"
    and store :: "('s, 'j, 'r NixReader Upload, 'r NixReader Parts, 'n) DaemonStore"
  shows "path_ok path \<Longrightarrow> answered written rest good limit hi env fsz tsz lossy OpIsValidPath (\<lambda>_. True)
      (client_is_valid_path (ep K L other fsz tsz) path) (server_round (ep K L other fsz tsz) X lossy store) (ds_is_valid_path store s path) s"
    and "path_ok path \<Longrightarrow> answered written rest good limit hi env fsz tsz lossy OpQueryPathInfo (pred_option (info_ok limit hi cs (snd env)))
      (client_query_path_info (ep K L other fsz tsz) path) (server_round (ep K L other fsz tsz) X lossy store) (ds_query_path_info store s path) s"
    and "path_ok path \<Longrightarrow> answered written rest good limit hi env fsz tsz lossy OpQueryReferrers paths_ok
      (client_query_referrers (ep K L other fsz tsz) path) (server_round (ep K L other fsz tsz) X lossy store) (ds_query_referrers store s path) s"
    and "answered written rest good limit hi env fsz tsz lossy OpQueryAllValidPaths paths_ok
      (client_query_all_valid_paths (ep K L other fsz tsz)) (server_round (ep K L other fsz tsz) X lossy store) (ds_query_all_valid_paths store s) s"
    and "derived_paths_ok limit hi cs (snd env) L ps \<Longrightarrow> answered written rest good limit hi env fsz tsz lossy OpQueryMissing
      (\<lambda>q. paths_ok (qm_will_build q) \<and> paths_ok (qm_will_substitute q) \<and> paths_ok (qm_unknown q))
      (client_query_missing (ep K L other fsz tsz) ps) (server_round (ep K L other fsz tsz) X lossy store) (ds_query_missing store s ps) s"
    and "build_paths_ok limit hi cs (snd env) L \<lparr>bp_paths = ps, bp_mode = mode\<rparr> \<Longrightarrow> answered written rest good limit hi env fsz tsz lossy OpBuildPaths (\<lambda>_. True)
      (client_build_paths (ep K L other fsz tsz) ps mode) (server_round (ep K L other fsz tsz) X lossy store) (ds_build_paths store s ps mode) s"
    and "drv_carried hi (size_bytes L) (path, drv) \<Longrightarrow> answered written rest good limit hi env fsz tsz lossy OpBuildDerivation (build_result_ok limit hi cs)
      (client_build_derivation (ep K L other fsz tsz) path drv mode) (server_round (ep K L other fsz tsz) X lossy store) (ds_build_derivation store s path drv mode) s"
    and "answered written rest good limit hi env fsz tsz lossy OpVerifyStore (\<lambda>_. True)
      (client_verify_store (ep K L other fsz tsz) check repair) (server_round (ep K L other fsz tsz) X lossy store) (ds_verify_store store s check repair) s"
    and "client_options_ok hi options \<Longrightarrow> answered written rest good limit hi env fsz tsz lossy OpSetOptions (\<lambda>_. True)
      (client_set_options (ep K L other fsz tsz) options) (server_round (ep K L other fsz tsz) X lossy store) (ds_set_options store s options) s"
    and "27 \<le> minor \<and> paths_ok qs \<Longrightarrow> answered written rest good limit hi env fsz tsz lossy OpQueryValidPaths paths_ok
      (client_query_valid_paths (ep K L other fsz tsz) qs substitute) (server_round (ep K L other fsz tsz) X lossy store) (ds_query_valid_paths store s qs substitute) s"
    and "answered written rest good limit hi env fsz tsz lossy OpFindRoots (roots_ok hi)
      (client_find_roots (ep K L other fsz tsz)) (server_round (ep K L other fsz tsz) X lossy store) (ds_find_roots store s) s"
    and "length (sph_bytes hash) = STORE_PATH_HASH_SIZE \<Longrightarrow> answered written rest good limit hi env fsz tsz lossy OpQueryPathFromHashPart (pred_option path_ok)
      (client_query_path_from_hash_part (ep K L other fsz tsz) hash) (server_round (ep K L other fsz tsz) X lossy store) (ds_query_path_from_hash_part store s hash) s"
    and "paths_ok qs \<Longrightarrow> answered written rest good limit hi env fsz tsz lossy OpQuerySubstitutablePaths paths_ok
      (client_query_substitutable_paths (ep K L other fsz tsz) qs) (server_round (ep K L other fsz tsz) X lossy store) (ds_query_substitutable_paths store s qs) s"
    and "path_ok path \<Longrightarrow> answered written rest good limit hi env fsz tsz lossy OpQueryValidDerivers paths_ok
      (client_query_valid_derivers (ep K L other fsz tsz) path) (server_round (ep K L other fsz tsz) X lossy store) (ds_query_valid_derivers store s path) s"
    and "path_ok path \<Longrightarrow> answered written rest good limit hi env fsz tsz lossy OpQueryDerivationOutputMap output_map_ok
      (client_query_derivation_output_map (ep K L other fsz tsz) path) (server_round (ep K L other fsz tsz) X lossy store) (ds_query_derivation_output_map store s path) s"
    and "drv_output_ok (rl_key realisation) \<and> realisation_fits limit hi cs (rl_value realisation) \<Longrightarrow> answered written rest good limit hi env fsz tsz lossy OpRegisterDrvOutput (\<lambda>_. True)
      (client_register_drv_output (ep K L other fsz tsz) realisation) (server_round (ep K L other fsz tsz) X lossy store) (ds_register_drv_output store s realisation) s"
    and "drv_output_ok output_id \<Longrightarrow> answered written rest good limit hi env fsz tsz lossy OpQueryRealisation (realisations_ok limit hi cs)
      (client_query_realisation (ep K L other fsz tsz) output_id) (server_round (ep K L other fsz tsz) X lossy store) (ds_query_realisation store s output_id) s"
    and "build_paths_ok limit hi cs (snd env) L \<lparr>bp_paths = ds, bp_mode = mode\<rparr> \<Longrightarrow> answered written rest good limit hi env fsz tsz lossy OpBuildPathsWithResults (keyed_results_ok limit hi cs (snd env) (size_keyed_result L))
      (client_build_paths_with_results (ep K L other fsz tsz) ds mode) (server_round (ep K L other fsz tsz) X lossy store) (ds_build_paths_with_results store s ds mode) s"
    and "path_ok path \<and> length gc_root \<le> hi \<Longrightarrow> answered written rest good limit hi env fsz tsz lossy OpAddPermRoot (\<lambda>b. length b \<le> hi)
      (client_add_perm_root (ep K L other fsz tsz) path gc_root) (server_round (ep K L other fsz tsz) X lossy store) (ds_add_perm_root store s path gc_root) s"
  subgoal unfolding client_is_valid_path_def nix_endpoint_simps
    by (rule exchange_value [where request = "IsValidPath path", OF _ _ _ _ carries_bool]) (simp_all add: request_writes)
  subgoal unfolding client_query_path_info_def nix_endpoint_simps
    by (rule exchange_value [where request = "QueryPathInfo path", OF _ _ _ _ carries_optional_info [OF carries_path_info]]) (simp_all add: request_writes)
  subgoal unfolding client_query_referrers_def nix_endpoint_simps
    by (rule exchange_value [where request = "QueryReferrers path", OF _ _ _ _ carries_paths]) (simp_all add: request_writes)
  subgoal unfolding client_query_all_valid_paths_def nix_endpoint_simps
    by (rule exchange_value [where request = "QueryAllValidPaths", OF _ _ _ _ carries_paths]) (simp_all add: request_writes)
  subgoal unfolding client_query_missing_def nix_endpoint_simps
    by (rule exchange_value [where request = "QueryMissing ps", OF _ _ _ _ carries_query_missing]) (simp_all add: request_writes)
  subgoal unfolding client_build_paths_def nix_endpoint_simps
    by (rule exchange_value [where request = "BuildPaths \<lparr>bp_paths = ps, bp_mode = mode\<rparr>", OF _ _ _ _ carries_one]) (simp_all add: request_writes)
  subgoal unfolding client_build_derivation_def nix_endpoint_simps
    by (rule exchange_value [where request = "BuildDerivation \<lparr>bd_drv = (path, drv), bd_mode = mode\<rparr>", OF _ _ _ _ carries_build_result]) (simp_all add: request_writes)
  subgoal unfolding client_verify_store_def nix_endpoint_simps
    by (rule exchange_value [where request = "VerifyStore \<lparr>vs_check_contents = check, vs_repair = repair\<rparr>", OF _ _ _ _ carries_bool]) (simp_all add: request_writes)
  subgoal unfolding client_set_options_def nix_endpoint_simps
    by (rule exchange_value [where request = "SetOptions options", OF _ _ _ _ carries_unit]) (simp_all add: request_writes answer_def conn_write_unit)
  subgoal premises h unfolding client_query_valid_paths_def nix_endpoint_simps
  proof (rule exchange_value [where request = "QueryValidPaths \<lparr>qv_paths = qs, qv_substitute = substitute\<rparr>", OF _ _ _ _ carries_paths])
    fix p w assume w: "at p w"
    show "write_values [ser_operation W OpQueryValidPaths, ser_set W (ser_store_path cs W) qs,
        \<lambda>w. if 27 \<le> pv_minor (wr_version W w) then ser_bool W substitute w else Some (w, Inr ())] w =
      ser_request cs K W (QueryValidPaths \<lparr>qv_paths = qs, qv_substitute = substitute\<rparr>) w"
      using valid_paths_written [of "ep K L other fsz tsz" qs w substitute, unfolded nix_endpoint_simps] paths_written_version [OF _ w, of qs OpQueryValidPaths] h
      by (simp del: write_values.simps)
  qed (use h in simp_all)
  subgoal unfolding client_find_roots_def nix_endpoint_simps
    by (rule exchange_value [where request = "FindRoots", OF _ _ _ _ carries_roots]) (simp_all add: request_writes)
  subgoal unfolding client_query_path_from_hash_part_def nix_endpoint_simps
    by (rule exchange_value [where request = "QueryPathFromHashPart hash", OF _ _ _ _ carries_optional_path]) (simp_all add: request_writes)
  subgoal unfolding client_query_substitutable_paths_def nix_endpoint_simps
    by (rule exchange_value [where request = "QuerySubstitutablePaths qs", OF _ _ _ _ carries_paths]) (simp_all add: request_writes)
  subgoal unfolding client_query_valid_derivers_def nix_endpoint_simps
    by (rule exchange_value [where request = "QueryValidDerivers path", OF _ _ _ _ carries_paths]) (simp_all add: request_writes)
  subgoal unfolding client_query_derivation_output_map_def nix_endpoint_simps
    by (rule exchange_value [where request = "QueryDerivationOutputMap path", OF _ _ _ _ carries_output_map]) (simp_all add: request_writes)
  subgoal unfolding client_register_drv_output_def nix_endpoint_simps
    by (rule exchange_value [where request = "RegisterDrvOutput realisation", OF _ _ _ _ carries_unit]) (simp_all add: request_writes answer_def conn_write_unit)
  subgoal unfolding client_query_realisation_def nix_endpoint_simps
    by (rule exchange_value [where request = "QueryRealisation output_id", OF _ _ _ _ carries_realisations]) (simp_all add: request_writes)
  subgoal unfolding client_build_paths_with_results_def nix_endpoint_simps
    by (rule exchange_value [where request = "BuildPathsWithResults \<lparr>bp_paths = ds, bp_mode = mode\<rparr>", OF _ _ _ _ carries_keyed_results]) (simp_all add: request_writes)
  subgoal unfolding client_add_perm_root_def nix_endpoint_simps
    by (rule exchange_value [where request = "AddPermRoot \<lparr>pr_store_path = path, pr_gc_root = gc_root\<rparr>", OF _ _ _ _ carries_bytes]) (simp_all add: request_writes)
  done

end

text \<open>
  C2. These nineteen calls of the client are answered by the daemon: \<open>is_valid_path\<close>, \<open>query_path_info\<close>, \<open>query_referrers\<close>, \<open>query_all_valid_paths\<close>,
  \<open>query_missing\<close>, \<open>build_paths\<close>, \<open>build_derivation\<close>, \<open>verify_store\<close>, \<open>set_options\<close>, \<open>query_valid_paths\<close> (from version 1.27 on), \<open>find_roots\<close>, \<open>query_path_from_hash_part\<close>,
  \<open>query_substitutable_paths\<close>, \<open>query_valid_derivers\<close>, \<open>query_derivation_output_map\<close>, \<open>register_drv_output\<close>, \<open>query_realisation\<close>, \<open>build_paths_with_results\<close> and \<open>add_perm_root\<close>.
  Whatever the store logs and returns, the client hands on the log and returns the value; should the store fail, the client returns the
  error, with the operation it happened in and what the version keeps of it, and the connection is as good as before. Each side
  reads exactly what the other has written, so that the next request and the next reply start in the right place. This holds for
  channels that work in pieces of any size, as long as they do not fail, and for arguments, logs, values and messages of errors
  within the limits of the wire format, a derivation without structured attributes and fixed content addresses. It does not hold for the five calls whose answer is left unread, for
  \<open>collect_garbage\<close> and \<open>add_build_log\<close>, which the daemon does not understand, and it is not stated for the other uploads and \<open>nar_from_path\<close>.
\<close>

theorem calls_answered:
  fixes X :: "('r NixReader, 'w NixWriter, 'n) Streams" and drv :: "'j BasicDerivation"
    and store :: "('s, 'j, 'r NixReader Upload, 'r NixReader Parts, 'n) DaemonStore"
  assumes "daemon_channel put written sink_err flush wdelay A ops rest good src_err avail delay limit hi env cs"
    and "E = nix_endpoint A put flush ops cs K L other fsz tsz"
  shows "(path_ok path \<longrightarrow> answered written rest good limit hi env fsz tsz lossy OpIsValidPath (\<lambda>_. True)
      (client_is_valid_path E path) (server_round E X lossy store) (ds_is_valid_path store s path) s) \<and>
    (path_ok path \<longrightarrow> answered written rest good limit hi env fsz tsz lossy OpQueryPathInfo (pred_option (info_ok limit hi cs (snd env)))
      (client_query_path_info E path) (server_round E X lossy store) (ds_query_path_info store s path) s) \<and>
    (path_ok path \<longrightarrow> answered written rest good limit hi env fsz tsz lossy OpQueryReferrers paths_ok
      (client_query_referrers E path) (server_round E X lossy store) (ds_query_referrers store s path) s) \<and>
    (answered written rest good limit hi env fsz tsz lossy OpQueryAllValidPaths paths_ok
      (client_query_all_valid_paths E) (server_round E X lossy store) (ds_query_all_valid_paths store s) s) \<and>
    (derived_paths_ok limit hi cs (snd env) L ps \<longrightarrow> answered written rest good limit hi env fsz tsz lossy OpQueryMissing
      (\<lambda>q. paths_ok (qm_will_build q) \<and> paths_ok (qm_will_substitute q) \<and> paths_ok (qm_unknown q))
      (client_query_missing E ps) (server_round E X lossy store) (ds_query_missing store s ps) s) \<and>
    (build_paths_ok limit hi cs (snd env) L \<lparr>bp_paths = ps, bp_mode = mode\<rparr> \<longrightarrow> answered written rest good limit hi env fsz tsz lossy OpBuildPaths (\<lambda>_. True)
      (client_build_paths E ps mode) (server_round E X lossy store) (ds_build_paths store s ps mode) s) \<and>
    (drv_carried hi (size_bytes L) (path, drv) \<longrightarrow> answered written rest good limit hi env fsz tsz lossy OpBuildDerivation (build_result_ok limit hi cs)
      (client_build_derivation E path drv mode) (server_round E X lossy store) (ds_build_derivation store s path drv mode) s) \<and>
    (answered written rest good limit hi env fsz tsz lossy OpVerifyStore (\<lambda>_. True)
      (client_verify_store E check repair) (server_round E X lossy store) (ds_verify_store store s check repair) s) \<and>
    (client_options_ok hi options \<longrightarrow> answered written rest good limit hi env fsz tsz lossy OpSetOptions (\<lambda>_. True)
      (client_set_options E options) (server_round E X lossy store) (ds_set_options store s options) s) \<and>
    (27 \<le> pv_minor (fst env) \<and> paths_ok qs \<longrightarrow> answered written rest good limit hi env fsz tsz lossy OpQueryValidPaths paths_ok
      (client_query_valid_paths E qs substitute) (server_round E X lossy store) (ds_query_valid_paths store s qs substitute) s) \<and>
    (answered written rest good limit hi env fsz tsz lossy OpFindRoots (roots_ok hi)
      (client_find_roots E) (server_round E X lossy store) (ds_find_roots store s) s) \<and>
    (length (sph_bytes hash) = STORE_PATH_HASH_SIZE \<longrightarrow> answered written rest good limit hi env fsz tsz lossy OpQueryPathFromHashPart (pred_option path_ok)
      (client_query_path_from_hash_part E hash) (server_round E X lossy store) (ds_query_path_from_hash_part store s hash) s) \<and>
    (paths_ok qs \<longrightarrow> answered written rest good limit hi env fsz tsz lossy OpQuerySubstitutablePaths paths_ok
      (client_query_substitutable_paths E qs) (server_round E X lossy store) (ds_query_substitutable_paths store s qs) s) \<and>
    (path_ok path \<longrightarrow> answered written rest good limit hi env fsz tsz lossy OpQueryValidDerivers paths_ok
      (client_query_valid_derivers E path) (server_round E X lossy store) (ds_query_valid_derivers store s path) s) \<and>
    (path_ok path \<longrightarrow> answered written rest good limit hi env fsz tsz lossy OpQueryDerivationOutputMap output_map_ok
      (client_query_derivation_output_map E path) (server_round E X lossy store) (ds_query_derivation_output_map store s path) s) \<and>
    (drv_output_ok (rl_key realisation) \<and> realisation_fits limit hi cs (rl_value realisation) \<longrightarrow> answered written rest good limit hi env fsz tsz lossy OpRegisterDrvOutput (\<lambda>_. True)
      (client_register_drv_output E realisation) (server_round E X lossy store) (ds_register_drv_output store s realisation) s) \<and>
    (drv_output_ok output_id \<longrightarrow> answered written rest good limit hi env fsz tsz lossy OpQueryRealisation (realisations_ok limit hi cs)
      (client_query_realisation E output_id) (server_round E X lossy store) (ds_query_realisation store s output_id) s) \<and>
    (build_paths_ok limit hi cs (snd env) L \<lparr>bp_paths = ds, bp_mode = mode\<rparr> \<longrightarrow> answered written rest good limit hi env fsz tsz lossy OpBuildPathsWithResults (keyed_results_ok limit hi cs (snd env) (size_keyed_result L))
      (client_build_paths_with_results E ds mode) (server_round E X lossy store) (ds_build_paths_with_results store s ds mode) s) \<and>
    (path_ok path \<and> length gc_root \<le> hi \<longrightarrow> answered written rest good limit hi env fsz tsz lossy OpAddPermRoot (\<lambda>b. length b \<le> hi)
      (client_add_perm_root E path gc_root) (server_round E X lossy store) (ds_add_perm_root store s path gc_root) s)"
  unfolding assms(2)
  by (intro conjI impI) (erule daemon_channel.request_exchanges [OF assms(1)] | rule daemon_channel.request_exchanges [OF assms(1)])+

theorem calls_answered_witness:
  "exchange (\<lambda>w. w) cursor_rest cursor_good 8184 DEFAULT_MAX_BUF_SIZE (PROTOCOL_VERSION, default_dir)
     (client_is_valid_path sample_end sample_path) (server_round sample_end sample_streams (\<lambda>_. []) sample_store)
     [] sample_client [] sample_conn () () [LMessage \<lparr>ms_level = VError, ms_text = [104, 105]\<rparr>] (Inr True) []"
proof -
  have run: "runs (ds_is_valid_path sample_store () sample_path) [sample_log] () (Inr True)"
    by (simp add: sample_store_def)
  have log: "log_ok DEFAULT_MAX_BUF_SIZE 32 40 (pv_minor PROTOCOL_VERSION) [sample_log]"
    by (simp add: log_ok_def sample_log_def log_as_raw_def DEFAULT_MAX_BUF_SIZE_def)
  have "seen (pv_minor PROTOCOL_VERSION) [sample_log] = [LMessage \<lparr>ms_level = VError, ms_text = [104, 105]\<rparr>]"
    by (simp add: seen_Cons sample_log_def log_as_raw_def)
  moreover have "answered (\<lambda>w. w) cursor_rest cursor_good 8184 DEFAULT_MAX_BUF_SIZE (PROTOCOL_VERSION, default_dir) 32 40 (\<lambda>_. []) OpIsValidPath (\<lambda>_. True)
      (client_is_valid_path sample_end sample_path) (server_round sample_end sample_streams (\<lambda>_. []) sample_store)
      (ds_is_valid_path sample_store () sample_path) ()"
    by (rule calls_answered [OF pipe.daemon_channel_axioms sample_end_def, THEN conjunct1, THEN mp, OF sample_path_ok])
  ultimately show ?thesis
    unfolding answered_def using sample_writers run log by (metis fst_conv result_ok.simps(2) returned.simps(2))
qed

section \<open>Answers that are left unread\<close>

text \<open>
  C36. Five operations of the client lose their place in the stream. The daemon answers \<open>ensure_path\<close>, \<open>add_temp_root\<close>, \<open>add_indirect_root\<close>,
  \<open>optimise_store\<close> and \<open>add_signatures\<close> with the number 1 behind the last message (\<open>IgnoredOne\<close>), but the client reads a unit there, that is nothing.
  The call succeeds and leaves the eight bytes of the number in front of the next reply; the next call that follows
  the log, whichever it is, takes them for a message and fails with invalid data.
\<close>

theorem answers_left_unread:
  fixes X :: "('r NixReader, 'w NixWriter, 'n) Streams"
    and store :: "('s, 'j, 'r NixReader Upload, 'r NixReader Parts, 'n) DaemonStore"
  assumes "daemon_channel put written sink_err flush wdelay A ops rest good src_err avail delay limit hi env cs"
    and "E = nix_endpoint A put flush ops cs K L other fsz tsz"
    and "log_ok hi fsz tsz (pv_minor (fst env)) ms" "nw_at written limit env p (cl_writer c)" "nw_at written limit env q (dc_writer conn)"
  shows "(path_ok path \<and> runs (ds_ensure_path store s path) ms s' (Inr ()) \<longrightarrow> exchange written rest good limit hi env
      (client_ensure_path E path) (server_round E X lossy store) p c q conn s s' (seen (pv_minor (fst env)) ms) (Inr ()) (to_le_bytes 1)) \<and>
    (path_ok path \<and> runs (ds_add_temp_root store s path) ms s' (Inr ()) \<longrightarrow> exchange written rest good limit hi env
      (client_add_temp_root E path) (server_round E X lossy store) p c q conn s s' (seen (pv_minor (fst env)) ms) (Inr ()) (to_le_bytes 1)) \<and>
    (length link \<le> hi \<and> runs (ds_add_indirect_root store s link) ms s' (Inr ()) \<longrightarrow> exchange written rest good limit hi env
      (client_add_indirect_root E link) (server_round E X lossy store) p c q conn s s' (seen (pv_minor (fst env)) ms) (Inr ()) (to_le_bytes 1)) \<and>
    (runs (ds_optimise_store store s) ms s' (Inr ()) \<longrightarrow> exchange written rest good limit hi env
      (client_optimise_store E) (server_round E X lossy store) p c q conn s s' (seen (pv_minor (fst env)) ms) (Inr ()) (to_le_bytes 1)) \<and>
    (add_signatures_ok limit hi cs L \<lparr>sr_path = path, sr_signatures = sigs\<rparr> \<and> runs (ds_add_signatures store s path sigs) ms s' (Inr ()) \<longrightarrow>
      exchange written rest good limit hi env
      (client_add_signatures E path sigs) (server_round E X lossy store) p c q conn s s' (seen (pv_minor (fst env)) ms) (Inr ()) (to_le_bytes 1)) \<and>
    (\<forall>nr T. nr_good good hi env nr \<and> nr_rest rest nr = to_le_bytes 1 @ T \<longrightarrow>
      (\<exists>nr'. follow E de nr = Some (nr', [], Inl (error_of_io invalid_data))))"
proof -
  have "1 \<notin> raw_type_code ` set raw_type_all" by (simp add: raw_type_all_def STDERR_defs)
  from daemon_channel.number_follows [OF assms(1) _ _ this, of _ _ K L other fsz tsz de]
  have after: "\<forall>nr T. nr_good good hi env nr \<and> nr_rest rest nr = to_le_bytes 1 @ T \<longrightarrow>
      (\<exists>nr'. follow E de nr = Some (nr', [], Inl (error_of_io invalid_data)))" unfolding assms(2) by blast
  note one = daemon_channel.exchange_one [OF assms(1), where X = X and store = store and K = K and L = L and other = other, OF _ _ _ _ _ assms(3-5)]
  show ?thesis
    unfolding assms(2) client_ensure_path_def client_add_temp_root_def client_add_indirect_root_def client_optimise_store_def
      client_add_signatures_def nix_endpoint_simps
    apply (intro conjI impI; (elim conjE)?)
    subgoal by (rule one [where request = "EnsurePath path"]) (simp_all add: request_writes)
    subgoal by (rule one [where request = "AddTempRoot path"]) (simp_all add: request_writes)
    subgoal by (rule one [where request = "AddIndirectRoot link"]) (simp_all add: request_writes)
    subgoal by (rule one [where request = "OptimiseStore"]) (simp_all add: request_writes)
    subgoal by (rule one [where request = "AddSignatures \<lparr>sr_path = path, sr_signatures = sigs\<rparr>"]) (simp_all add: request_writes)
    subgoal by (rule after [unfolded assms(2)])
    done
qed

theorem answers_left_unread_witness:
  "exchange (\<lambda>w. w) cursor_rest cursor_good 8184 DEFAULT_MAX_BUF_SIZE (PROTOCOL_VERSION, default_dir)
     (client_ensure_path sample_end sample_path) (server_round sample_end sample_streams (\<lambda>_. []) sample_store)
     [] sample_client [] sample_conn () () [] (Inr ()) (to_le_bytes 1)"
proof -
  have "runs (ds_ensure_path sample_store () sample_path) [] () (Inr ())" by (simp add: sample_store_def)
  moreover have "log_ok DEFAULT_MAX_BUF_SIZE 32 40 (pv_minor (fst (PROTOCOL_VERSION, default_dir))) []" by (simp add: log_ok_def)
  ultimately have "exchange (\<lambda>w. w) cursor_rest cursor_good 8184 DEFAULT_MAX_BUF_SIZE (PROTOCOL_VERSION, default_dir)
      (client_ensure_path sample_end sample_path) (server_round sample_end sample_streams (\<lambda>_. []) sample_store)
      [] sample_client [] sample_conn () () (seen (pv_minor (fst (PROTOCOL_VERSION, default_dir))) []) (Inr ()) (to_le_bytes 1)"
    by (intro answers_left_unread [OF pipe.daemon_channel_axioms sample_end_def _ sample_writers, THEN conjunct1, THEN mp] conjI sample_path_ok)
  then show ?thesis by simp
qed

section \<open>Errors of the store\<close>

text \<open>The messages of a log, written one by one.\<close>

primrec write_messages :: "('r, 'w, 'm, 'd) Endpoint \<Rightarrow> LogMessage list \<Rightarrow> 'w \<Rightarrow> ('w, RecoverableError, unit) outcome" where
  "write_messages E [] w = Some (w, Inr ())"
| "write_messages E (m # ms) w = out_bind (write_log E m w) (\<lambda>w _. write_messages E ms w)"

lemma write_logs_messages:
  "runs logs ms s x \<Longrightarrow> write_messages E ms w = Some (w', Inr ()) \<Longrightarrow> write_logs E logs w = Some ((w', s), Inr x)"
proof (induction arbitrary: w rule: runs.induct)
  case (runs_resolved s x)
  then show ?case by (subst write_logs.simps) simp
next
  case (runs_logged rl ms s x s' m)
  then obtain w1 where "write_log E m w = Some (w1, Inr ())" "write_messages E ms w1 = Some (w', Inr ())"
    by (auto simp: out_bind_def split: option.splits sum.splits)
  with runs_logged.IH show ?case by (subst write_logs.simps) simp
qed

lemma runs_map: "runs logs ms s x \<Longrightarrow> runs (map_ResultLog f (\<lambda>v. v) logs) ms (f s) x"
  by (induction rule: runs.induct) (simp_all add: id_def sum.map_ident)

text \<open>The store's call for a request logs \<open>ms\<close> and fails with \<open>e\<close> in the state \<open>s'\<close>. \<open>r\<close> is the reader behind the request, \<open>r'\<close> what is left of it: an upload
  is read to its end, also when that fails. The request for an archive is not among them.\<close>

definition upload_fails ::
  "'r BytesRead \<Rightarrow> ('s \<times> 'r Upload, 'a) ResultLog \<Rightarrow> LogMessage list \<Rightarrow> 'r \<Rightarrow> 's \<Rightarrow> DaemonError \<Rightarrow> bool" where
  "upload_fails ops logs ms r' s' e \<longleftrightarrow>
     (\<exists>framed framed' y. runs logs ms (s', framed) (Inl e) \<and> upload_drain ops framed = Some (framed', y) \<and> r' = creader (freader framed'))"

fun request_fails ::
  "('r, 'w, 'm, 'd) Endpoint \<Rightarrow> ('r, 'w, 'n) Streams \<Rightarrow> ('s, 'j, 'r Upload, 'r Parts, 'n) DaemonStore \<Rightarrow> 'j Request \<Rightarrow> 'r \<Rightarrow> 's \<Rightarrow>
     LogMessage list \<Rightarrow> 'r \<Rightarrow> 's \<Rightarrow> DaemonError \<Rightarrow> bool" where
  "request_fails E X store (SetOptions v) r s ms r' s' e \<longleftrightarrow> r' = r \<and> runs (ds_set_options store s v) ms s' (Inl e)"
| "request_fails E X store (IsValidPath p) r s ms r' s' e \<longleftrightarrow> r' = r \<and> runs (ds_is_valid_path store s p) ms s' (Inl e)"
| "request_fails E X store (QueryValidPaths q) r s ms r' s' e \<longleftrightarrow> r' = r \<and> runs (ds_query_valid_paths store s (qv_paths q) (qv_substitute q)) ms s' (Inl e)"
| "request_fails E X store (QueryPathInfo p) r s ms r' s' e \<longleftrightarrow> r' = r \<and> runs (ds_query_path_info store s p) ms s' (Inl e)"
| "request_fails E X store (NarFromPath p) r s ms r' s' e \<longleftrightarrow> False"
| "request_fails E X store (QueryReferrers p) r s ms r' s' e \<longleftrightarrow> r' = r \<and> runs (ds_query_referrers store s p) ms s' (Inl e)"
| "request_fails E X store (AddToStore q) r s ms r' s' e \<longleftrightarrow>
     upload_fails (sv_bytes X) (ds_add_ca_to_store store s (as_name q) (as_cam q) (as_refs q) (as_repair q) (upload_new r)) ms r' s' e"
| "request_fails E X store (BuildPaths q) r s ms r' s' e \<longleftrightarrow> r' = r \<and> runs (ds_build_paths store s (bp_paths q) (bp_mode q)) ms s' (Inl e)"
| "request_fails E X store (EnsurePath p) r s ms r' s' e \<longleftrightarrow> r' = r \<and> runs (ds_ensure_path store s p) ms s' (Inl e)"
| "request_fails E X store (AddTempRoot p) r s ms r' s' e \<longleftrightarrow> r' = r \<and> runs (ds_add_temp_root store s p) ms s' (Inl e)"
| "request_fails E X store (AddIndirectRoot p) r s ms r' s' e \<longleftrightarrow> r' = r \<and> runs (ds_add_indirect_root store s p) ms s' (Inl e)"
| "request_fails E X store FindRoots r s ms r' s' e \<longleftrightarrow> r' = r \<and> runs (ds_find_roots store s) ms s' (Inl e)"
| "request_fails E X store (CollectGarbage q) r s ms r' s' e \<longleftrightarrow> r' = r \<and>
     runs (ds_collect_garbage store s (cg_action q) (cg_paths_to_delete q) (cg_ignore_liveness q) (cg_max_freed q)) ms s' (Inl e)"
| "request_fails E X store QueryAllValidPaths r s ms r' s' e \<longleftrightarrow> r' = r \<and> runs (ds_query_all_valid_paths store s) ms s' (Inl e)"
| "request_fails E X store (QueryPathFromHashPart h) r s ms r' s' e \<longleftrightarrow> r' = r \<and> runs (ds_query_path_from_hash_part store s h) ms s' (Inl e)"
| "request_fails E X store (QuerySubstitutablePaths ps) r s ms r' s' e \<longleftrightarrow> r' = r \<and> runs (ds_query_substitutable_paths store s ps) ms s' (Inl e)"
| "request_fails E X store (QueryValidDerivers p) r s ms r' s' e \<longleftrightarrow> r' = r \<and> runs (ds_query_valid_derivers store s p) ms s' (Inl e)"
| "request_fails E X store OptimiseStore r s ms r' s' e \<longleftrightarrow> r' = r \<and> runs (ds_optimise_store store s) ms s' (Inl e)"
| "request_fails E X store (VerifyStore q) r s ms r' s' e \<longleftrightarrow> r' = r \<and> runs (ds_verify_store store s (vs_check_contents q) (vs_repair q)) ms s' (Inl e)"
| "request_fails E X store (BuildDerivation q) r s ms r' s' e \<longleftrightarrow> r' = r \<and>
     runs (ds_build_derivation store s (fst (bd_drv q)) (snd (bd_drv q)) (bd_mode q)) ms s' (Inl e)"
| "request_fails E X store (AddSignatures q) r s ms r' s' e \<longleftrightarrow> r' = r \<and> runs (ds_add_signatures store s (sr_path q) (sr_signatures q)) ms s' (Inl e)"
| "request_fails E X store (AddToStoreNar q) r s ms r' s' e \<longleftrightarrow>
     upload_fails (sv_bytes X) (ds_add_to_store_nar store s (an_path_info q) (upload_new r) (an_repair q) (an_dont_check_sigs q)) ms r' s' e"
| "request_fails E X store (QueryMissing ps) r s ms r' s' e \<longleftrightarrow> r' = r \<and> runs (ds_query_missing store s ps) ms s' (Inl e)"
| "request_fails E X store (QueryDerivationOutputMap p) r s ms r' s' e \<longleftrightarrow> r' = r \<and> runs (ds_query_derivation_output_map store s p) ms s' (Inl e)"
| "request_fails E X store (RegisterDrvOutput v) r s ms r' s' e \<longleftrightarrow> r' = r \<and> runs (ds_register_drv_output store s v) ms s' (Inl e)"
| "request_fails E X store (QueryRealisation v) r s ms r' s' e \<longleftrightarrow> r' = r \<and> runs (ds_query_realisation store s v) ms s' (Inl e)"
| "request_fails E X store (AddMultipleToStore q) r s ms r' s' e \<longleftrightarrow>
     (\<exists>p items. parse_add_multiple_to_store (sv_bytes X) (parts_new (sv_shared X) (rd_version (ep_read E) r) r) = Some (p, Inr items) \<and>
        upload_fails (sv_bytes X) (map_ResultLog (\<lambda>(s, p). (s, parts_upload p)) (\<lambda>v. v)
          (ds_add_multiple_to_store store s (am_repair q) (am_dont_check_sigs q) items)) ms r' s' e)"
| "request_fails E X store (AddBuildLog p) r s ms r' s' e \<longleftrightarrow> upload_fails (sv_bytes X) (ds_add_build_log store s p (upload_new r)) ms r' s' e"
| "request_fails E X store (BuildPathsWithResults q) r s ms r' s' e \<longleftrightarrow> r' = r \<and>
     runs (ds_build_paths_with_results store s (bp_paths q) (bp_mode q)) ms s' (Inl e)"
| "request_fails E X store (AddPermRoot q) r s ms r' s' e \<longleftrightarrow> r' = r \<and> runs (ds_add_perm_root store s (pr_store_path q) (pr_gc_root q)) ms s' (Inl e)"

abbreviation recoverable :: "DaemonError \<Rightarrow> RecoverableError" where
  "recoverable e \<equiv> \<lparr>can_recover = True, source = e\<rparr>"

lemma process_logs_failed:
  assumes "runs logs ms s' (Inl e)" "write_messages E ms w = Some (w', Inr ())"
  shows "process_logs E logs w = Some ((w', s'), Inl (recoverable e))"
  using write_logs_messages [OF assms] by (simp add: process_logs_def recover_def)

lemma answer_failed:
  assumes "runs logs ms s' (Inl e)" "write_messages E ms (dc_writer c) = Some (w, Inr ())"
  shows "conn_process_logs E logs c = Some ((c\<lparr>dc_writer := w\<rparr>, s'), Inl (recoverable e))"
    "answer E ser logs c = Some ((c\<lparr>dc_writer := w\<rparr>, s'), Inl (recoverable e))"
  using process_logs_failed [OF assms] by (simp_all add: answer_def conn_process_logs_def)

lemma drained:
  assumes "upload_fails ops logs ms r' s' e" "write_messages E ms (dc_writer c) = Some (w, Inr ())"
  shows "drain_after ops c (out_bind (process_logs E logs (dc_writer c)) f) = Some ((c\<lparr>dc_reader := r', dc_writer := w\<rparr>, s'), Inl (recoverable e))"
    "drain_after ops c (process_logs E logs (dc_writer c)) = Some ((c\<lparr>dc_reader := r', dc_writer := w\<rparr>, s'), Inl (recoverable e))"
  using assms by (auto simp: upload_fails_def drain_after_def process_logs_failed)

lemma request_failed:
  assumes "request_fails E X store q (dc_reader c) s ms r' s' e" "write_messages E ms (dc_writer c) = Some (w, Inr ())"
  shows "process_request E X store q (c, s) = Some ((c\<lparr>dc_reader := r', dc_writer := w\<rparr>, s'), Inl (recoverable e))"
  using assms
  by (cases q) (auto simp: answer_failed receive_def receive_multiple_def drained split del: if_split)

text \<open>
  C37. When the store cannot give an archive, the daemon does not tell the client: once the log is written, the error of \<open>nar_from_path\<close> ends the connection,
  with nothing written behind the log and without a shutdown of the store. An error of the store in any other operation, of all
  twenty-nine, is written as a message behind the log, the writer is flushed, and the loop goes on to the next request; an
  upload is read to its end before.
\<close>

theorem nar_error_ends_connection:
  fixes store :: "('s, 'j, 'r Upload, 'r Parts, 'n) DaemonStore" and E :: "('r, 'w, 'm, 'd) Endpoint" and q :: "'j Request"
  assumes "read_request E (dc_reader conn) = Some (r, Inr (Some q))" "write_messages E ms (dc_writer conn) = Some (w, Inr ())"
  shows "(q = NarFromPath path \<and> runs (ds_nar_from_path store s path) ms s' (Inl e) \<longrightarrow>
      process_requests E X lossy store (conn, s) = Some ((conn\<lparr>dc_reader := r, dc_writer := w\<rparr>, s'), Inl (fill_operation OpNarFromPath e))) \<and>
    (request_fails E X store q r s ms r' s' e \<and>
      write_values [ser_raw_log_message (ep_write E) (RError (log_of_error lossy (fill_operation (request_operation q) e))), ep_flush E] w = Some (w', Inr ()) \<longrightarrow>
      process_requests E X lossy store (conn, s) = process_requests E X lossy store (conn\<lparr>dc_reader := r', dc_writer := w'\<rparr>, s'))"
proof (intro conjI impI; elim conjE)
  assume q: "q = NarFromPath path" and run: "runs (ds_nar_from_path store s path) ms s' (Inl e)"
  have "process_request E X store q (conn\<lparr>dc_reader := r\<rparr>, s) = Some ((conn\<lparr>dc_reader := r, dc_writer := w\<rparr>, s'), Inl (fatal e))"
    using write_logs_messages [OF run assms(2)] q by (simp add: server_nar_from_path_def)
  then show "process_requests E X lossy store (conn, s) = Some ((conn\<lparr>dc_reader := r, dc_writer := w\<rparr>, s'), Inl (fill_operation OpNarFromPath e))"
    using assms(1) q by (subst process_requests.simps) (simp add: server_round_def finish_request_def fatal_def)
next
  assume f: "request_fails E X store q r s ms r' s' e"
    and w': "write_values [ser_raw_log_message (ep_write E) (RError (log_of_error lossy (fill_operation (request_operation q) e))), ep_flush E] w = Some (w', Inr ())"
  have "process_request E X store q (conn\<lparr>dc_reader := r\<rparr>, s) = Some ((conn\<lparr>dc_reader := r', dc_writer := w\<rparr>, s'), Inl (recoverable e))"
    using request_failed [of E X store q "conn\<lparr>dc_reader := r\<rparr>" s ms r' s' e w] f assms(2) by simp
  then have "server_round E X lossy store (conn, s) = Some ((conn\<lparr>dc_reader := r', dc_writer := w'\<rparr>, s'), Inr True)"
    using assms(1) w' by (simp add: server_round_def finish_request_def del: write_values.simps)
  then show "process_requests E X lossy store (conn, s) = process_requests E X lossy store (conn\<lparr>dc_reader := r', dc_writer := w'\<rparr>, s')"
    by (subst process_requests.simps) simp
qed

lemma sample_request:
  assumes "request_ok 8184 DEFAULT_MAX_BUF_SIZE bit_codecs default_dir sample_layout q"
  shows "\<exists>nr nr'. read_request sample_end nr = Some (nr', Inr (Some q))"
proof -
  have "arrives exact_alloc vec_put vec_flush (\<lambda>w. w) cursor_rest cursor_good (\<lambda>_. False) DEFAULT_MAX_BUF_SIZE (PROTOCOL_VERSION, default_dir)
      (ser_request bit_codecs plain_crates (nix_writer_ops exact_alloc vec_put))
      (de_request bit_codecs sample_layout (\<lambda>_. VVomit) (nix_reader_ops cursor_ops)) q q [] (nix_writer_new exact_alloc [])"
    using assms by (intro mem.request_arrives vwrite.nix_writer_new_at) simp
  then obtain nw' :: "bytes NixWriter" where a: "\<forall>nr S. nr_good cursor_good DEFAULT_MAX_BUF_SIZE (PROTOCOL_VERSION, default_dir) nr \<and> nw_inner nw' @ S = [] @ nr_rest cursor_rest nr \<longrightarrow>
      got_value (\<lambda>_. False) (nr_good cursor_good DEFAULT_MAX_BUF_SIZE (PROTOCOL_VERSION, default_dir)) (nr_rest cursor_rest) (Some q) S
        (de_request bit_codecs sample_layout (\<lambda>_. VVomit) (nix_reader_ops cursor_ops) nr)" unfolding arrives_def by blast
  let ?nr = "rb_build nix_reader_builder \<lparr>cdata = nw_inner nw', cpos = 0\<rparr>"
  have "nr_good cursor_good DEFAULT_MAX_BUF_SIZE (PROTOCOL_VERSION, default_dir) ?nr" "nr_rest cursor_rest ?nr = nw_inner nw'"
    by (auto simp: nr_good_def nr_rest_def rb_build_def nix_reader_builder_def cursor_good_def cursor_rest_def)
  with a [THEN spec, of ?nr, THEN spec, of "[]"] show ?thesis
    by (auto simp: read_request_def sample_end_def elim!: got_value_never)
qed

theorem nar_error_ends_connection_witness:
  "\<exists>conn r. read_request sample_end (dc_reader conn) = Some (r, Inr (Some (NarFromPath sample_path :: unit Request))) \<and>
     process_requests sample_end sample_streams (\<lambda>_. []) sample_store (conn, ()) =
       Some ((conn\<lparr>dc_reader := r\<rparr>, ()), Inl (error_unimplemented OpNarFromPath))"
proof -
  obtain nr r where r: "read_request sample_end nr = Some (r, Inr (Some (NarFromPath sample_path :: unit Request)))"
    using sample_request [of "NarFromPath sample_path"] sample_path_ok by auto
  have "runs (ds_nar_from_path sample_store () sample_path) [] () (Inl (error_unimplemented OpNarFromPath))"
    by (simp add: sample_store_def daemon_store_default_def unimplemented_def)
  moreover have "fill_operation OpNarFromPath (error_unimplemented OpNarFromPath) = error_unimplemented OpNarFromPath"
    by (simp add: fill_operation_def error_unimplemented_def)
  ultimately show ?thesis
    using nar_error_ends_connection [where conn = "sample_conn\<lparr>dc_reader := nr\<rparr>" and E = sample_end and r = r
        and q = "NarFromPath sample_path" and ms = "[]" and w = "dc_writer sample_conn" and path = sample_path and store = sample_store
        and s = "()" and s' = "()" and e = "error_unimplemented OpNarFromPath" and X = sample_streams and lossy = "\<lambda>_. []", THEN conjunct1, THEN mp] r
    by (intro exI [of _ "sample_conn\<lparr>dc_reader := nr\<rparr>"] exI [of _ r]) simp
qed

section \<open>Requests that are not understood\<close>

lemma to_le_bytes_nonempty: "to_le_bytes n \<noteq> []"
proof
  assume "to_le_bytes n = []"
  then show False using length_to_le_bytes [of n] by simp
qed

context daemon_channel
begin

lemma number_at_end: "ready nr \<Longrightarrow> ahead nr = [] \<Longrightarrow> rd_number R nr \<noteq> Some (nr', Inr (Some n))"
  using rr.num.sound [of nr nr' n] to_le_bytes_nonempty [of n] by (auto simp: number_wire_def)

lemma garbage_unread:
  fixes L :: Layout
  assumes "paths_ok ps" "at p w"
  shows "\<exists>w' request. write_values [ser_operation W OpCollectGarbage, ser_gc_action W action, ser_set W (ser_store_path cs W) ps,
      ser_bool W ignore, ser_u64 W max_freed] w = Some (w', Inr ()) \<and> at (p @ request) w' \<and>
    (\<forall>nr nr' y. ready nr \<and> ahead nr = request \<longrightarrow> (de_request cs L other R nr :: (_, 'j Request option) awaited) \<noteq> Some (nr', Inr y))"
proof -
  obtain wo where o: "value_reader ahead ready src_err (de_operation R) wo" "sends (ser_operation W) wo (\<lambda>_. True)"
    using carries_enums(5) by (rule carriesE)
  obtain wa where a: "value_reader ahead ready src_err (de_gc_action R) wa" "sends (ser_gc_action W) wa (\<lambda>_. True)"
    using carries_enums(3) by (rule carriesE)
  obtain wp where p: "value_reader ahead ready src_err (de_set R (de_store_path cs R)) wp" "sends (ser_set W (ser_store_path cs W)) wp paths_ok"
    using carries_paths by (rule carriesE)
  obtain wb where b: "value_reader ahead ready src_err (de_bool R) wb" "sends (ser_bool W) wb (\<lambda>_. True)" using carries_bool by (rule carriesE)
  obtain wu where u: "value_reader ahead ready src_err (de_u64 R) wu" "sends (ser_u64 W) wu (\<lambda>_. True)" using carries_u64 by (rule carriesE)
  obtain w1 b1 where 1: "ser_operation W OpCollectGarbage w = Some (w1, Inr ())" "wo OpCollectGarbage b1" "at (p @ b1) w1"
    by (rule sendsE [OF o(2) TrueI assms(2)])
  obtain w2 b2 where 2: "ser_gc_action W action w1 = Some (w2, Inr ())" "wa action b2" "at ((p @ b1) @ b2) w2" by (rule sendsE [OF a(2) TrueI 1(3)])
  obtain w3 b3 where 3: "ser_set W (ser_store_path cs W) ps w2 = Some (w3, Inr ())" "wp ps b3" "at (((p @ b1) @ b2) @ b3) w3"
    by (rule sendsE [OF p(2) assms(1) 2(3)])
  obtain w4 b4 where 4: "ser_bool W ignore w3 = Some (w4, Inr ())" "wb ignore b4" "at ((((p @ b1) @ b2) @ b3) @ b4) w4" by (rule sendsE [OF b(2) TrueI 3(3)])
  obtain w5 b5 where 5: "ser_u64 W max_freed w4 = Some (w5, Inr ())" "wu max_freed b5" "at (((((p @ b1) @ b2) @ b3) @ b4) @ b5) w5"
    by (rule sendsE [OF u(2) TrueI 4(3)])
  have "(de_request cs L other R nr :: (_, 'j Request option) awaited) \<noteq> Some (nr', Inr y)"
    if n: "ready nr" "ahead nr = b1 @ b2 @ b3 @ b4 @ b5" for nr nr' y
  proof -
    obtain n1 where n1: "de_operation R nr = Some (n1, Inr (Some OpCollectGarbage))" "ready n1" "ahead n1 = b2 @ b3 @ b4 @ b5"
      by (rule readE [OF o(1) n(1) 1(2) n(2)])
    obtain n2 where n2: "de_gc_action R n1 = Some (n2, Inr (Some action))" "ready n2" "ahead n2 = b3 @ b4 @ b5"
      by (rule readE [OF a(1) n1(2) 2(2) n1(3)])
    obtain n3 where n3: "de_set R (de_store_path cs R) n2 = Some (n3, Inr (Some ps))" "ready n3" "ahead n3 = b4 @ b5"
      by (rule readE [OF p(1) n2(2) 3(2) n2(3)])
    obtain n4 where n4: "de_bool R n3 = Some (n4, Inr (Some ignore))" "ready n4" "ahead n4 = b5 @ []"
      using readE [OF b(1) n3(2) 4(2) n3(3)] by (metis append_Nil2)
    obtain n5 where n5: "de_u64 R n4 = Some (n5, Inr (Some max_freed))" "ready n5" "ahead n5 = []" by (rule readE [OF u(1) n4(2) 5(2) n4(3)])
    have no: False if "de_ignored_zero R n5 = Some (n6, Inr (Some ()))" for n6
      using that number_at_end [OF n5(2,3)] by (auto simp: de_ignored_zero_def de_from_def aw_map_def de_u64_def elim!: aw_bind_InrE)
    have "required (de_then (de_ignored_zero R) (de_then (de_ignored_zero R) (de_ignored_zero R)) n5) \<noteq> Some (n6, Inr z)" for n6 z
      by (auto simp: required_def de_then_def de_bind_def elim!: aw_bind_InrE split: option.splits dest: no)
    then show ?thesis using n1(1) n2(1) n3(1) n4(1) n5(1)
      by (auto simp: de_request_def de_tagged_def de_bind_def de_collect_garbage_def de_from_def aw_map_def de_then_def required_def
          elim!: aw_bind_InrE split: option.splits)
  qed
  with 1(1) 2(1) 3(1) 4(1) 5(1,3) show ?thesis by (intro exI [of _ w5] exI [of _ "b1 @ b2 @ b3 @ b4 @ b5"]) simp
qed

text \<open>A path with its directory is no base name: it begins with a slash.\<close>

lemma full_path_refused:
  assumes "is_absolute s"
  shows "\<exists>e. path_from_str cs s = Some (Inl e)"
proof -
  have "from_bytes cs s \<noteq> Some (Inr p)" for p
  proof
    assume "from_bytes cs s = Some (Inr p)"
    then have "path_ok p" "path_display cs p = Some s" using from_bytes_sound by auto
    then have "\<forall>ch \<in> set s. NAME_LOOKUP ch" using path_display_char by blast
    moreover have "CHR ''/'' \<in> set s" using assms by (auto simp: is_absolute_def prefix_def)
    ultimately show False by (auto simp: NAME_LOOKUP_def in_range_def)
  qed
  then show ?thesis using from_bytes_total [of s] by (auto simp: path_from_str_def)
qed

lemma build_log_refused:
  fixes L :: Layout
  assumes "path_ok path" "at p w"
  shows "\<exists>w' request. write_values [ser_operation W OpAddBuildLog, ser_store_path cs W path, await (nw_poll_flush A put flush)] w = Some (w', Inr ()) \<and>
    at (p @ request) w' \<and> written (nw_inner w') = p @ request \<and>
    (\<forall>nr T. ready nr \<and> ahead nr = request @ T \<longrightarrow> (\<exists>nr'. (de_request cs L other R nr :: (_, 'j Request option) awaited) = Some (nr', Inl invalid_data)))"
proof -
  obtain wo where o: "value_reader ahead ready src_err (de_operation R) wo" "sends (ser_operation W) wo (\<lambda>_. True)"
    using carries_enums(5) by (rule carriesE)
  obtain t where t: "store_dir_display cs (snd env) path = Some t" "text_ok limit hi t" using path_text [OF assms(1)] by blast
  obtain w1 b1 where 1: "ser_operation W OpAddBuildLog w = Some (w1, Inr ())" "wo OpAddBuildLog b1" "at (p @ b1) w1"
    by (rule sendsE [OF o(2) TrueI assms(2)])
  have "ser_store_path cs W path w1 = write_text W w1 (Some t)"
    using t(1) writer_env [OF 1(3)] by (simp add: ser_store_path_def ser_store_dir_display_def)
  with text_sent [OF 1(3) t(2)]
  have s: "slice_wire hi (as_bytes t) (nix_slice (as_bytes t))" "sent sink_err at ((p @ b1) @ nix_slice (as_bytes t)) (ser_store_path cs W path w1)" by simp_all
  obtain w2 where 2: "ser_store_path cs W path w1 = Some (w2, Inr ())" "at ((p @ b1) @ nix_slice (as_bytes t)) w2" using s(2) by (rule sentE)
  obtain w3 where 3: "await (nw_poll_flush A put flush) w2 = Some (w3, Inr ())" "at ((p @ b1) @ nix_slice (as_bytes t)) w3"
    "written (nw_inner w3) = (p @ b1) @ nix_slice (as_bytes t)" using 2(2) by (rule flushE)
  have "is_absolute t" using t(1) store_dir_fits by (auto simp: store_dir_display_def dir_fits_def is_absolute_def prefix_def)
  then obtain e where e: "path_from_str cs t = Some (Inl e)" using full_path_refused by blast
  have "\<exists>nr'. (de_request cs L other R nr :: (_, 'j Request option) awaited) = Some (nr', Inl invalid_data)"
    if n: "ready nr" "ahead nr = b1 @ nix_slice (as_bytes t) @ T" for nr T
  proof -
    obtain n1 where n1: "de_operation R nr = Some (n1, Inr (Some OpAddBuildLog))" "ready n1" "ahead n1 = nix_slice (as_bytes t) @ T"
      by (rule readE [OF o(1) n(1) 1(2) n(2)])
    obtain n2 where n2: "rd_bytes R n1 = Some (n2, Inr (Some (as_bytes t)))"
      by (rule readE [OF rr.str.value_reader_axioms n1(2) s(1) n1(3)])
    have "from_utf8 (as_bytes t) = Inr t" using t(2) by (simp add: from_utf8_Inr text_ok_def)
    then show ?thesis using n1(1) n2 e
      by (simp add: de_request_def de_tagged_def de_bind_def de_base_store_path_def de_from_str_def try_converted_def parse_text_def
          required_def aw_map_def invalid_data_def)
  qed
  with 1(1) 2(1) 3 show ?thesis by (intro exI [of _ w3] exI [of _ "b1 @ nix_slice (as_bytes t)"]) simp
qed

end

text \<open>
  The daemon never understands the client's request to collect garbage. The client writes the operation, the action, the paths and the two
  limits, and waits for the reply; the request of the protocol has three more numbers behind them. A daemon that has got all the client
  has written does not return a request from it, so both sides wait for each other.
\<close>

theorem collect_garbage_never_read:
  assumes "daemon_channel put written sink_err flush wdelay A ops rest good src_err avail delay limit hi env cs"
    and "E = nix_endpoint A put flush ops cs K L other fsz tsz" "paths_ok ps" "nw_at written limit env p (cl_writer c)"
  shows "\<exists>w request. written (nw_inner w) = p @ request \<and>
    (\<forall>nr. client_collect_garbage E action ps ignore max_freed (c\<lparr>cl_reader := nr\<rparr>) =
       map_option (\<lambda>(r, ms, x). (c\<lparr>cl_writer := w, cl_reader := r\<rparr>, ms, result_map_err (fill_operation OpCollectGarbage) x))
         (follow E (de_collect_response L (nix_reader_ops ops)) nr)) \<and>
    (\<forall>nr nr' y. nr_good good hi env nr \<and> nr_rest rest nr = request \<longrightarrow>
       (read_request E nr :: (_, 'j Request option) awaited) \<noteq> Some (nr', Inr y))"
proof -
  obtain w1 request where w1: "write_values [ser_operation (nix_writer_ops A put) OpCollectGarbage, ser_gc_action (nix_writer_ops A put) action,
      ser_set (nix_writer_ops A put) (ser_store_path cs (nix_writer_ops A put)) ps, ser_bool (nix_writer_ops A put) ignore,
      ser_u64 (nix_writer_ops A put) max_freed] (cl_writer c) = Some (w1, Inr ())" "nw_at written limit env (p @ request) w1"
    "\<And>nr nr' y. nr_good good hi env nr \<and> nr_rest rest nr = request \<Longrightarrow>
      (de_request cs L other (nix_reader_ops ops) nr :: (_, 'j Request option) awaited) \<noteq> Some (nr', Inr y)"
    using daemon_channel.garbage_unread [OF assms(1,3,4)] by metis
  obtain w where w: "await (nw_poll_flush A put flush) w1 = Some (w, Inr ())" "written (nw_inner w) = p @ request"
    using daemon_channel.flushE [OF assms(1) w1(2)] by metis
  have "client_collect_garbage E action ps ignore max_freed (c\<lparr>cl_reader := nr\<rparr>) =
       map_option (\<lambda>(r, ms, x). (c\<lparr>cl_writer := w, cl_reader := r\<rparr>, ms, result_map_err (fill_operation OpCollectGarbage) x))
         (follow E (de_collect_response L (nix_reader_ops ops)) nr)" for nr
    using w1(1) w(1) by (simp add: assms(2) client_collect_garbage_def client_call_def client_write_def client_process_stderr_def logged_defs
        option.map_comp comp_def split_def del: write_values.simps)
  with w(2) w1(3) show ?thesis unfolding assms(2) read_request_def nix_endpoint_simps by blast
qed

theorem collect_garbage_never_read_witness:
  "\<exists>w request. nw_inner w = [] @ request \<and>
    (\<forall>nr. client_collect_garbage sample_end DeleteDead [] False 0 (sample_client\<lparr>cl_reader := nr\<rparr>) =
       map_option (\<lambda>(r, ms, x). (sample_client\<lparr>cl_writer := w, cl_reader := r\<rparr>, ms, result_map_err (fill_operation OpCollectGarbage) x))
         (follow sample_end (de_collect_response sample_layout (nix_reader_ops cursor_ops)) nr)) \<and>
    (\<forall>nr nr' y. nr_good cursor_good DEFAULT_MAX_BUF_SIZE (PROTOCOL_VERSION, default_dir) nr \<and> nr_rest cursor_rest nr = request \<longrightarrow>
       (read_request sample_end nr :: (_, unit Request option) awaited) \<noteq> Some (nr', Inr y))"
  by (rule collect_garbage_never_read [OF pipe.daemon_channel_axioms sample_end_def _ sample_writers(1)]) (simp add: paths_ok_def)

text \<open>
  Nor does it understand a build log: the client sends the path with the store directory, and the daemon expects the base name. Whatever follows on the
  stream, reading the request fails with invalid data, and the connection ends.
\<close>

theorem build_log_never_read:
  assumes "daemon_channel put written sink_err flush wdelay A ops rest good src_err avail delay limit hi env cs"
    and "E = nix_endpoint A put flush ops cs K L other fsz tsz" "path_ok path" "nw_at written limit env p (cl_writer c)"
  shows "\<exists>w request. client_add_build_log_request E path c = Some (c\<lparr>cl_writer := w\<rparr>, Inr ()) \<and> written (nw_inner w) = p @ request \<and>
    (\<forall>nr T. nr_good good hi env nr \<and> nr_rest rest nr = request @ T \<longrightarrow>
       (\<exists>nr'. (read_request E nr :: (_, 'j Request option) awaited) = Some (nr', Inl invalid_data)))"
proof -
  obtain w request where w: "write_values [ser_operation (nix_writer_ops A put) OpAddBuildLog, ser_store_path cs (nix_writer_ops A put) path,
      await (nw_poll_flush A put flush)] (cl_writer c) = Some (w, Inr ())" "written (nw_inner w) = p @ request"
    "\<And>nr T. nr_good good hi env nr \<and> nr_rest rest nr = request @ T \<Longrightarrow>
      \<exists>nr'. (de_request cs L other (nix_reader_ops ops) nr :: (_, 'j Request option) awaited) = Some (nr', Inl invalid_data)"
    using daemon_channel.build_log_refused [OF assms(1,3,4)] by metis
  then show ?thesis
    by (intro exI [of _ w] exI [of _ request])
      (simp add: assms(2) client_add_build_log_request_def client_upload_def client_write_def read_request_def del: write_values.simps)
qed

theorem build_log_never_read_witness:
  "\<exists>w request. client_add_build_log_request sample_end sample_path sample_client = Some (sample_client\<lparr>cl_writer := w\<rparr>, Inr ()) \<and>
    nw_inner w = [] @ request \<and>
    (\<forall>nr T. nr_good cursor_good DEFAULT_MAX_BUF_SIZE (PROTOCOL_VERSION, default_dir) nr \<and> nr_rest cursor_rest nr = request @ T \<longrightarrow>
       (\<exists>nr'. (read_request sample_end nr :: (_, unit Request option) awaited) = Some (nr', Inl invalid_data)))"
  by (rule build_log_never_read [OF pipe.daemon_channel_axioms sample_end_def sample_path_ok sample_writers(1)])

end
