(* ===== verification/Connection_Pool.thy ===== *)
theory Connection_Pool
  imports Daemon_Error
begin

text \<open>
  The pool of connections to the daemon (\<open>harmonia-store-remote/src/pool.rs\<close>, \<open>metrics.rs\<close>). Every section that runs under the lock is one function
  on the state and the metrics; its debug assertions are checks that give \<open>None\<close>. The tasks that share the pool are a step relation: a task
  asks for a connection, waits, makes a new one, holds it, marks it as broken and gives it back; it may also be cancelled while it
  waits for anything, as every future may be dropped. The clock and the moment at which a waiting task is woken are left open, so what is
  shown holds for every scheduler and every behaviour of the notification. \<open>dfy_try_acquire\<close> and \<open>dfy_release\<close> are the functions of the
  repository's Dafny model (\<open>pool.dfy\<close>).
\<close>

section \<open>State\<close>

record PoolConfig =
  cf_max_size :: nat
  cf_max_idle_time :: nat
  cf_acquire_timeout :: nat
  cf_connection_timeout :: nat

text \<open>\<open>parallelism\<close> is \<open>available_parallelism\<close>, times are in seconds.\<close>

definition pool_config_default :: "nat option \<Rightarrow> PoolConfig" where
  "pool_config_default parallelism =
     \<lparr>cf_max_size = (case parallelism of Some n \<Rightarrow> n + 1 | None \<Rightarrow> 5), cf_max_idle_time = 300, cf_acquire_timeout = 30, cf_connection_timeout = 10\<rparr>"

record PoolMetrics =
  pm_active :: int
  pm_idle :: int
  pm_created :: "string \<Rightarrow> nat"
  pm_acquire_duration :: "(string \<times> nat) list"
  pm_errors :: "string \<Rightarrow> nat"
  pm_operations :: "string \<times> string \<Rightarrow> nat"
  pm_operation_duration :: "(string \<times> nat) list"

definition count_created :: "string \<Rightarrow> PoolMetrics \<Rightarrow> PoolMetrics" where
  "count_created label m = m\<lparr>pm_created := (pm_created m)(label := pm_created m label + 1)\<rparr>"

definition count_error :: "string \<Rightarrow> PoolMetrics \<Rightarrow> PoolMetrics" where
  "count_error label m = m\<lparr>pm_errors := (pm_errors m)(label := pm_errors m label + 1)\<rparr>"

definition observe_acquire :: "string \<Rightarrow> nat \<Rightarrow> PoolMetrics \<Rightarrow> PoolMetrics" where
  "observe_acquire label elapsed m = m\<lparr>pm_acquire_duration := pm_acquire_duration m @ [(label, elapsed)]\<rparr>"

record 'c PooledConnection =
  pc_client :: 'c
  pc_last_used :: nat

definition is_expired :: "nat \<Rightarrow> nat \<Rightarrow> 'c PooledConnection \<Rightarrow> bool" where
  "is_expired now max_idle_time conn \<longleftrightarrow> max_idle_time < now - pc_last_used conn"

record 'c PoolState =
  pl_idle :: "'c PooledConnection list"
  pl_active_count :: nat
  pl_capacity :: nat
  pl_waiting_count :: nat

definition pool_invariant :: "'c PoolState \<Rightarrow> bool" where
  "pool_invariant s \<longleftrightarrow> pl_active_count s + length (pl_idle s) \<le> pl_capacity s \<and> 0 < pl_capacity s"

definition update_metrics :: "'c PoolState \<Rightarrow> PoolMetrics \<Rightarrow> PoolMetrics" where
  "update_metrics s m = m\<lparr>pm_active := int (pl_active_count s), pm_idle := int (length (pl_idle s))\<rparr>"

definition pool_new :: "PoolConfig \<Rightarrow> 'c PoolState option" where
  "pool_new config =
     (if cf_max_size config = 0 then None
      else Some \<lparr>pl_idle = [], pl_active_count = 0, pl_capacity = cf_max_size config, pl_waiting_count = 0\<rparr>)"

definition pool_stats :: "'c PoolState \<Rightarrow> nat \<times> nat \<times> nat" where
  "pool_stats s = (length (pl_idle s), pl_active_count s, pl_capacity s)"

section \<open>The sections under the lock\<close>

text \<open>How the section of \<open>try_acquire\<close> ends: with a connection, with the room for a new one, or in the queue.\<close>

datatype 'c Attempt = Reused "'c PooledConnection" | Creates | WaitRequired

definition asserted :: "'c PoolState \<Rightarrow> 'x option \<Rightarrow> 'x option" where
  "asserted s x = (if pool_invariant s then x else None)"

definition try_acquire ::
  "PoolConfig \<Rightarrow> nat \<Rightarrow> nat \<Rightarrow> 'c PoolState \<Rightarrow> PoolMetrics option \<Rightarrow> ('c PoolState \<times> PoolMetrics option \<times> 'c Attempt) option" where
  "try_acquire config now start_time s0 metrics = asserted s0 (
     let metrics = map_option (update_metrics s0) metrics;
         s = s0\<lparr>pl_idle := filter (\<lambda>conn. \<not> is_expired now (cf_max_idle_time config) conn) (pl_idle s0)\<rparr>
     in case pl_idle s of
          conn # idle \<Rightarrow>
            let s = s\<lparr>pl_idle := idle, pl_active_count := pl_active_count s + 1\<rparr>
            in asserted s (Some (s, map_option (\<lambda>m. observe_acquire ''reused'' (now - start_time) (update_metrics s m)) metrics,
                 Reused (conn\<lparr>pc_last_used := now\<rparr>)))
        | [] \<Rightarrow>
            if pl_active_count s < pl_capacity s then
              let s = s\<lparr>pl_active_count := pl_active_count s + 1\<rparr>
              in asserted s (Some (s, map_option (update_metrics s) metrics, Creates))
            else Some (s\<lparr>pl_waiting_count := pl_waiting_count s + 1\<rparr>, metrics, WaitRequired))"

definition create_succeeded :: "nat \<Rightarrow> nat \<Rightarrow> 'c \<Rightarrow> PoolMetrics option \<Rightarrow> PoolMetrics option \<times> 'c PooledConnection" where
  "create_succeeded now start_time client metrics =
     (map_option (\<lambda>m. observe_acquire ''created'' (now - start_time) (count_created ''success'' m)) metrics, \<lparr>pc_client = client, pc_last_used = now\<rparr>)"

definition create_failed :: "'c PoolState \<Rightarrow> PoolMetrics option \<Rightarrow> ('c PoolState \<times> PoolMetrics option) option" where
  "create_failed s0 metrics =
     (let s = s0\<lparr>pl_active_count := pl_active_count s0 - 1\<rparr>
      in asserted s (Some (s, map_option (\<lambda>m. count_error ''creation_failed'' (count_created ''error'' (update_metrics s m))) metrics)))"

definition after_notified :: "'c PoolState \<Rightarrow> 'c PoolState" where
  "after_notified s = s\<lparr>pl_waiting_count := pl_waiting_count s - 1\<rparr>"

definition after_timeout :: "nat \<Rightarrow> nat \<Rightarrow> 'c PoolState \<Rightarrow> PoolMetrics option \<Rightarrow> 'c PoolState \<times> PoolMetrics option" where
  "after_timeout now start_time s metrics =
     (s\<lparr>pl_waiting_count := pl_waiting_count s - 1\<rparr>,
      map_option (\<lambda>m. observe_acquire ''timeout'' (now - start_time) (count_error ''timeout'' m)) metrics)"

definition timeout_error :: "string \<Rightarrow> DaemonError" where
  "timeout_error context = error_of_kind (Custom (''timeout: '' @ context))"

definition mark_broken :: "PoolMetrics option \<Rightarrow> PoolMetrics option" where
  "mark_broken metrics = map_option (count_error ''broken'') metrics"

text \<open>The section that \<open>Drop\<close> of the guard spawns; the last value says whether it calls \<open>notify_one\<close>.\<close>

definition guard_drop ::
  "nat \<Rightarrow> 'c PooledConnection option \<Rightarrow> 'c PoolState \<Rightarrow> PoolMetrics option \<Rightarrow> ('c PoolState \<times> PoolMetrics option \<times> bool) option" where
  "guard_drop now conn s0 metrics = asserted s0 (
     let (s, metrics) =
           (if 0 < pl_active_count s0 then
              let s = s0\<lparr>pl_active_count := pl_active_count s0 - 1,
                    pl_idle := (case conn of Some conn \<Rightarrow> pl_idle s0 @ [conn\<lparr>pc_last_used := now\<rparr>] | None \<Rightarrow> pl_idle s0)\<rparr>
              in (s, map_option (update_metrics s) metrics)
            else (s0, metrics))
     in asserted s (Some (s, metrics, 0 < pl_waiting_count s)))"

section \<open>Tasks\<close>

datatype 'c Task =
    Acquiring nat
  | Creating nat
  | Waiting nat
  | Holding "'c PooledConnection"
  | Dropping "'c PooledConnection option"
  | Failed DaemonError
  | Gone

text \<open>\<open>sy_lost\<close> and \<open>sy_abandoned\<close> count the tasks that were cancelled while they were making a connection and while they were waiting, \<open>sy_notified\<close> the
  calls of \<open>notify_one\<close>; the program has no such counters.\<close>

record 'c System =
  sy_state :: "'c PoolState"
  sy_metrics :: "PoolMetrics option"
  sy_tasks :: "'c Task list"
  sy_lost :: nat
  sy_abandoned :: nat
  sy_notified :: nat

abbreviation task_at :: "'c System \<Rightarrow> nat \<Rightarrow> 'c Task \<Rightarrow> bool" where
  "task_at y i t \<equiv> i < length (sy_tasks y) \<and> sy_tasks y ! i = t"

abbreviation set_task :: "nat \<Rightarrow> 'c Task \<Rightarrow> 'c System \<Rightarrow> 'c System" where
  "set_task i t y \<equiv> y\<lparr>sy_tasks := (sy_tasks y)[i := t]\<rparr>"

definition attempted :: "nat \<Rightarrow> 'c Attempt \<Rightarrow> 'c Task" where
  "attempted start_time a = (case a of Reused conn \<Rightarrow> Holding conn | Creates \<Rightarrow> Creating start_time | WaitRequired \<Rightarrow> Waiting start_time)"

inductive pool_step :: "PoolConfig \<Rightarrow> 'c System \<Rightarrow> 'c System \<Rightarrow> bool" for config :: PoolConfig where
  spawned: "pool_step config y (y\<lparr>sy_tasks := sy_tasks y @ [Acquiring now]\<rparr>)"
| tried: "task_at y i (Acquiring start_time) \<Longrightarrow> try_acquire config now start_time (sy_state y) (sy_metrics y) = Some (s, m, a) \<Longrightarrow>
    pool_step config y (set_task i (attempted start_time a) (y\<lparr>sy_state := s, sy_metrics := m\<rparr>))"
| created: "task_at y i (Creating start_time) \<Longrightarrow> create_succeeded now start_time client (sy_metrics y) = (m, conn) \<Longrightarrow>
    pool_step config y (set_task i (Holding conn) (y\<lparr>sy_metrics := m\<rparr>))"
| not_created: "task_at y i (Creating start_time) \<Longrightarrow> create_failed (sy_state y) (sy_metrics y) = Some (s, m) \<Longrightarrow>
    pool_step config y (set_task i (Failed e) (y\<lparr>sy_state := s, sy_metrics := m\<rparr>))"
| woken: "task_at y i (Waiting start_time) \<Longrightarrow>
    pool_step config y (set_task i (Acquiring start_time) (y\<lparr>sy_state := after_notified (sy_state y)\<rparr>))"
| timed_out: "task_at y i (Waiting start_time) \<Longrightarrow> after_timeout now start_time (sy_state y) (sy_metrics y) = (s, m) \<Longrightarrow>
    pool_step config y (set_task i (Failed (timeout_error ''acquiring connection from pool'')) (y\<lparr>sy_state := s, sy_metrics := m\<rparr>))"
| used: "task_at y i (Holding conn) \<Longrightarrow> pool_step config y (set_task i (Holding (conn\<lparr>pc_client := client\<rparr>)) y)"
| broken: "task_at y i (Holding conn) \<Longrightarrow> pool_step config y (set_task i (Dropping None) (y\<lparr>sy_metrics := mark_broken (sy_metrics y)\<rparr>))"
| dropped: "task_at y i (Holding conn) \<Longrightarrow> pool_step config y (set_task i (Dropping (Some conn)) y)"
| released: "task_at y i (Dropping conn) \<Longrightarrow> guard_drop now conn (sy_state y) (sy_metrics y) = Some (s, m, notify) \<Longrightarrow>
    pool_step config y (set_task i Gone (y\<lparr>sy_state := s, sy_metrics := m, sy_notified := sy_notified y + of_bool notify\<rparr>))"
| cancelled: "task_at y i (Acquiring start_time) \<Longrightarrow> pool_step config y (set_task i Gone y)"
| cancelled_creating: "task_at y i (Creating start_time) \<Longrightarrow> pool_step config y (set_task i Gone (y\<lparr>sy_lost := sy_lost y + 1\<rparr>))"
| cancelled_waiting: "task_at y i (Waiting start_time) \<Longrightarrow> pool_step config y (set_task i Gone (y\<lparr>sy_abandoned := sy_abandoned y + 1\<rparr>))"

inductive_cases pool_stepE: "pool_step config y y'"

abbreviation pool_reaches :: "PoolConfig \<Rightarrow> 'c System \<Rightarrow> 'c System \<Rightarrow> bool" where
  "pool_reaches config \<equiv> (pool_step config)\<^sup>*\<^sup>*"

definition pool_started :: "PoolConfig \<Rightarrow> PoolMetrics option \<Rightarrow> 'c System \<Rightarrow> bool" where
  "pool_started config m y \<longleftrightarrow>
     (case pool_new config of None \<Rightarrow> False
      | Some s \<Rightarrow> y = \<lparr>sy_state = s, sy_metrics = m, sy_tasks = [], sy_lost = 0, sy_abandoned = 0, sy_notified = 0\<rparr>)"

section \<open>The count of connections\<close>

fun occupies :: "'c Task \<Rightarrow> nat" where
  "occupies (Creating _) = 1"
| "occupies (Holding _) = 1"
| "occupies (Dropping _) = 1"
| "occupies _ = 0"

fun waits_for :: "'c Task \<Rightarrow> nat" where
  "waits_for (Waiting _) = 1"
| "waits_for _ = 0"

definition tally :: "('c Task \<Rightarrow> nat) \<Rightarrow> 'c System \<Rightarrow> nat" where
  "tally f y = sum_list (map f (sy_tasks y))"

lemma tally_set:
  assumes "i < length ts" 
  shows "sum_list (map f (ts[i := t])) + f (ts ! i) = sum_list (map f ts) + (f t :: nat)"
proof -
  have "f (ts ! i) \<le> sum_list (map f ts)" using assms by (metis elem_le_sum_list length_map nth_map)
  then show ?thesis using assms by (simp add: map_update sum_list_update)
qed

definition pool_ok :: "PoolConfig \<Rightarrow> 'c System \<Rightarrow> bool" where
  "pool_ok config y \<longleftrightarrow>
     pl_capacity (sy_state y) = cf_max_size config \<and> pool_invariant (sy_state y) \<and>
     pl_active_count (sy_state y) = tally occupies y + sy_lost y \<and> pl_waiting_count (sy_state y) = tally waits_for y + sy_abandoned y"

text \<open>What a section does to the counts.\<close>

lemma try_acquire_some:
  assumes "pool_invariant s"
  obtains s' m' a where "try_acquire config now start_time s m = Some (s', m', a)" "pool_invariant s'" "pl_capacity s' = pl_capacity s"
    "pl_active_count s' = pl_active_count s + occupies (attempted start_time a)" "pl_waiting_count s' = pl_waiting_count s + waits_for (attempted start_time a)"
proof -
  let ?live = "filter (\<lambda>conn. \<not> is_expired now (cf_max_idle_time config) conn) (pl_idle s)"
  have le: "length ?live \<le> length (pl_idle s)" by simp
  show thesis
  proof (cases ?live)
    case Nil
    show thesis
    proof (cases "pl_active_count s < pl_capacity s")
      case True
      with that Nil assms show thesis by (simp add: try_acquire_def asserted_def pool_invariant_def Let_def attempted_def)
    next
      case False
      with that Nil assms show thesis by (simp add: try_acquire_def asserted_def pool_invariant_def Let_def attempted_def)
    qed
  next
    case (Cons conn idle)
    with le have "Suc (length idle) \<le> length (pl_idle s)" by simp
    with that Cons assms show thesis by (simp add: try_acquire_def asserted_def pool_invariant_def Let_def attempted_def)
  qed
qed

lemma create_failed_some:
  assumes "pool_invariant s"
  shows "\<exists>m'. create_failed s m = Some (s\<lparr>pl_active_count := pl_active_count s - 1\<rparr>, m')"
  using assms by (auto simp: create_failed_def asserted_def pool_invariant_def Let_def)

lemma guard_drop_some:
  assumes "pool_invariant s" "0 < pl_active_count s"
  shows "\<exists>m'. guard_drop now conn s m = Some (s\<lparr>pl_active_count := pl_active_count s - 1,
      pl_idle := (case conn of Some conn \<Rightarrow> pl_idle s @ [conn\<lparr>pc_last_used := now\<rparr>] | None \<Rightarrow> pl_idle s)\<rparr>, m', 0 < pl_waiting_count s)"
  using assms by (cases conn) (auto simp: guard_drop_def asserted_def pool_invariant_def Let_def)

lemma tally_at: "task_at y i t \<Longrightarrow> f t \<le> tally f y"
  unfolding tally_def by (metis elem_le_sum_list length_map nth_map)

text \<open>A task changes, the others stay.\<close>

lemma tally_step:
  assumes "task_at y i t"
  shows "sum_list (map f ((sy_tasks y)[i := t'])) + f t = tally f y + f t'"
  using tally_set [of i "sy_tasks y" f t'] assms by (simp add: tally_def)

lemma pool_ok_task:
  assumes "pool_ok config y" "task_at y i t" "pl_capacity s = pl_capacity (sy_state y)" "pool_invariant s"
    and "pl_active_count s + occupies t + sy_lost y = pl_active_count (sy_state y) + occupies t' + lost"
    and "pl_waiting_count s + waits_for t + sy_abandoned y = pl_waiting_count (sy_state y) + waits_for t' + abandoned"
  shows "pool_ok config \<lparr>sy_state = s, sy_metrics = m, sy_tasks = (sy_tasks y)[i := t'], sy_lost = lost, sy_abandoned = abandoned, sy_notified = n\<rparr>"
  using assms tally_step [OF assms(2), of occupies t'] tally_step [OF assms(2), of waits_for t'] by (simp add: pool_ok_def tally_def)

lemma system_eq: "y = \<lparr>sy_state = sy_state y, sy_metrics = sy_metrics y, sy_tasks = sy_tasks y, sy_lost = sy_lost y, sy_abandoned = sy_abandoned y, sy_notified = sy_notified y\<rparr>"
  by simp

lemma pool_ok_step:
  assumes "pool_step config y y'" "pool_ok config y"
  shows "pool_ok config y'"
proof -
  obtain s m ts l a n where y: "y = \<lparr>sy_state = s, sy_metrics = m, sy_tasks = ts, sy_lost = l, sy_abandoned = a, sy_notified = n\<rparr>" by (cases y)
  have inv: "pool_invariant s" using assms(2) by (simp add: y pool_ok_def)
  note task = pool_ok_task [OF assms(2)]
  show ?thesis using assms(1)
  proof cases
    case (spawned now)
    then show ?thesis using assms(2) by (simp add: pool_ok_def tally_def)
  next
    case (tried i start_time now s' m' at)
    have inv': "pool_invariant (sy_state y)" using inv by (simp add: y)
    from try_acquire_some [OF this, of config now start_time "sy_metrics y"] tried(3)
    have "pool_invariant s'" "pl_capacity s' = pl_capacity (sy_state y)" "pl_active_count s' = pl_active_count (sy_state y) + occupies (attempted start_time at)"
      "pl_waiting_count s' = pl_waiting_count (sy_state y) + waits_for (attempted start_time at)" by auto
    then show ?thesis using tried(1,2) task [of i "Acquiring start_time" s' "attempted start_time at" l a m' n] by (simp add: y)
  next
    case (created i start_time now client m' conn)
    then show ?thesis using inv task [of i "Creating start_time" s "Holding conn" l a m' n] by (simp add: y)
  next
    case (not_created i start_time s' m' e)
    have "0 < pl_active_count s" using tally_at [where y = y and i = i and t = "Creating start_time" and f = occupies] not_created(2) assms(2) by (simp add: pool_ok_def y)
    then show ?thesis using inv not_created create_failed_some [OF inv, of m] task [of i "Creating start_time" s' "Failed e" l a m' n]
      by (auto simp: y pool_invariant_def)
  next
    case (woken i start_time)
    have "0 < pl_waiting_count s" using tally_at [where y = y and i = i and t = "Waiting start_time" and f = waits_for] woken(2) assms(2) by (simp add: pool_ok_def y)
    then show ?thesis using inv woken task [of i "Waiting start_time" "after_notified s" "Acquiring start_time" l a m n]
      by (simp add: y after_notified_def pool_invariant_def)
  next
    case (timed_out i start_time now s' m')
    have "0 < pl_waiting_count s" using tally_at [where y = y and i = i and t = "Waiting start_time" and f = waits_for] timed_out(2) assms(2) by (simp add: pool_ok_def y)
    then show ?thesis
      using inv timed_out task [of i "Waiting start_time" s' "Failed (timeout_error ''acquiring connection from pool'')" l a m' n]
      by (auto simp: y after_timeout_def pool_invariant_def)
  next
    case (used i conn client)
    then show ?thesis using inv task [of i "Holding conn" s "Holding (conn\<lparr>pc_client := client\<rparr>)" l a m n] by (simp add: y)
  next
    case (broken i conn)
    then show ?thesis using inv task [of i "Holding conn" s "Dropping None" l a "mark_broken m" n] by (simp add: y)
  next
    case (dropped i conn)
    then show ?thesis using inv task [of i "Holding conn" s "Dropping (Some conn)" l a m n] by (simp add: y)
  next
    case (released i conn now s' m' notify)
    have pos: "0 < pl_active_count s" using tally_at [where y = y and i = i and t = "Dropping conn" and f = occupies] released(2) assms(2) by (simp add: pool_ok_def y)
    show ?thesis
      using pos inv released guard_drop_some [OF inv pos, of now conn m] task [of i "Dropping conn" s' Gone l a m' "n + of_bool notify"]
      by (cases conn) (auto simp: y pool_invariant_def)
  next
    case (cancelled i start_time)
    then show ?thesis using inv task [of i "Acquiring start_time" s Gone l a m n] by (simp add: y)
  next
    case (cancelled_creating i start_time)
    then show ?thesis using inv task [of i "Creating start_time" s Gone "l + 1" a m n] by (simp add: y)
  next
    case (cancelled_waiting i start_time)
    then show ?thesis using inv task [of i "Waiting start_time" s Gone l "a + 1" m n] by (simp add: y)
  qed
qed

lemma pool_ok_reaches: "pool_reaches config y y' \<Longrightarrow> pool_ok config y \<Longrightarrow> pool_ok config y'"
  by (induction rule: rtranclp_induct) (blast intro: pool_ok_step)+

lemma pool_ok_started: "pool_started config m y \<Longrightarrow> pool_ok config y"
  by (auto simp: pool_started_def pool_new_def pool_ok_def pool_invariant_def tally_def split: option.splits if_splits)

text \<open>No assertion fails.\<close>

definition sections_run :: "PoolConfig \<Rightarrow> 'c System \<Rightarrow> bool" where
  "sections_run config y \<longleftrightarrow> (\<forall>now start_time. try_acquire config now start_time (sy_state y) (sy_metrics y) \<noteq> None) \<and>
     (\<forall>i start_time. task_at y i (Creating start_time) \<longrightarrow> create_failed (sy_state y) (sy_metrics y) \<noteq> None) \<and>
     (\<forall>i conn now. task_at y i (Dropping conn) \<longrightarrow> guard_drop now conn (sy_state y) (sy_metrics y) \<noteq> None)"

lemma sections_run_ok: "pool_ok config y \<Longrightarrow> sections_run config y"
  unfolding sections_run_def
proof (intro conjI allI impI)
  assume ok: "pool_ok config y"
  then have inv: "pool_invariant (sy_state y)" by (simp add: pool_ok_def)
  show "try_acquire config now start_time (sy_state y) (sy_metrics y) \<noteq> None" for now start_time
    by (rule try_acquire_some [OF inv, of config now start_time "sy_metrics y"]) simp
  show "create_failed (sy_state y) (sy_metrics y) \<noteq> None" using create_failed_some [OF inv, of "sy_metrics y"] by auto
  show "guard_drop now conn (sy_state y) (sy_metrics y) \<noteq> None" if "task_at y i (Dropping conn)" for now conn i
  proof -
    have "0 < pl_active_count (sy_state y)" using tally_at [OF that, where f = occupies] ok by (simp add: pool_ok_def)
    then show ?thesis using guard_drop_some [OF inv, of now conn "sy_metrics y"] by auto
  qed
qed

text \<open>
  C6. The pool never has more connections than its capacity, whatever the tasks do and however they are interleaved, cancelled and woken: in every reachable state the connections in use, those
  being made and the idle ones are at most \<open>max_size\<close>, none of the debug assertions fails, and the counters are exact: \<open>active_count\<close> counts the tasks that
  make, hold or give back a connection and those that were cancelled while they made one, \<open>waiting_count\<close> the waiting tasks and those cancelled while they waited.
\<close>

theorem pool_never_overfull:
  assumes "pool_started config m y" "pool_reaches config y y'"
  shows "tally occupies y' + length (pl_idle (sy_state y')) \<le> cf_max_size config \<and> sections_run config y' \<and>
    pl_active_count (sy_state y') = tally occupies y' + sy_lost y' \<and> pl_waiting_count (sy_state y') = tally waits_for y' + sy_abandoned y'"
proof -
  have ok: "pool_ok config y'" using pool_ok_reaches [OF assms(2)] pool_ok_started [OF assms(1)] by blast
  then show ?thesis using sections_run_ok [OF ok] by (auto simp: pool_ok_def pool_invariant_def)
qed

text \<open>A pool of one connection.\<close>

definition small_config :: PoolConfig where
  "small_config = (pool_config_default None)\<lparr>cf_max_size := 1\<rparr>"

definition small_pool :: "unit System" where
  "small_pool = \<lparr>sy_state = \<lparr>pl_idle = [], pl_active_count = 0, pl_capacity = 1, pl_waiting_count = 0\<rparr>, sy_metrics = None, sy_tasks = [],
     sy_lost = 0, sy_abandoned = 0, sy_notified = 0\<rparr>"

lemma small_pool_started: "pool_started small_config None small_pool"
  by (simp add: pool_started_def pool_new_def small_config_def small_pool_def)

theorem pool_never_overfull_witness:
  "\<exists>y'. pool_reaches small_config small_pool y' \<and> sy_tasks y' = [Creating 7] \<and>
     tally occupies y' + length (pl_idle (sy_state y')) \<le> 1 \<and> sections_run small_config y' \<and> pl_active_count (sy_state y') = 1"
proof -
  let ?y1 = "small_pool\<lparr>sy_tasks := [Acquiring 7]\<rparr>"
  let ?y2 = "small_pool\<lparr>sy_state := (sy_state small_pool)\<lparr>pl_active_count := 1\<rparr>, sy_tasks := [Creating 7]\<rparr>"
  have 1: "pool_step small_config small_pool ?y1" using spawned [where y = small_pool and now = 7] by (simp add: small_pool_def)
  have 2: "pool_step small_config ?y1 ?y2"
    using tried [where y = ?y1 and i = 0 and start_time = 7 and config = small_config and now = 8 and s = "sy_state ?y2" and m = None and a = Creates]
    by (simp add: small_pool_def try_acquire_def asserted_def pool_invariant_def attempted_def)
  have r: "pool_reaches small_config small_pool ?y2" using 1 2 by (meson converse_rtranclp_into_rtranclp rtranclp.rtrancl_refl)
  from pool_never_overfull [OF small_pool_started r] show ?thesis
    by (intro exI [of _ ?y2]) (use r in \<open>simp add: small_config_def tally_def small_pool_def\<close>)
qed

section \<open>Cancelled tasks\<close>

text \<open>A pool whose capacity is lost stays so.\<close>

definition exhausted :: "'c System \<Rightarrow> bool" where
  "exhausted y \<longleftrightarrow> pl_capacity (sy_state y) \<le> sy_lost y"

lemma sy_lost_mono: "pool_step config y y' \<Longrightarrow> sy_lost y \<le> sy_lost y'"
  by (auto elim!: pool_stepE)

lemma exhausted_reaches: "pool_reaches config y y' \<Longrightarrow> pool_ok config y \<Longrightarrow> exhausted y \<Longrightarrow> exhausted y'"
proof (induction rule: rtranclp_induct)
  case (step z z')
  then have "pool_ok config z" "pool_ok config z'" using pool_ok_reaches pool_ok_step by blast+
  then show ?case using step sy_lost_mono [of config z z'] by (auto simp: exhausted_def pool_ok_def)
qed

lemma exhausted_waits:
  assumes "pool_ok config y" "exhausted y"
  shows "tally occupies y = 0" "pl_idle (sy_state y) = []"
    "\<exists>s m. try_acquire config now start_time (sy_state y) (sy_metrics y) = Some (s, m, WaitRequired)"
proof -
  have inv: "pool_invariant (sy_state y)" using assms(1) by (simp add: pool_ok_def)
  then have "tally occupies y + length (pl_idle (sy_state y)) \<le> 0"
    using assms by (simp add: pool_ok_def exhausted_def pool_invariant_def del: le_zero_eq length_greater_0_conv list.size(3) length_0_conv)
  then show "tally occupies y = 0" and i: "pl_idle (sy_state y) = []" by simp_all
  have "\<not> pl_active_count (sy_state y) < pl_capacity (sy_state y)" using assms by (simp add: pool_ok_def exhausted_def)
  then show "\<exists>s m. try_acquire config now start_time (sy_state y) (sy_metrics y) = Some (s, m, WaitRequired)"
    using inv i by (simp add: try_acquire_def asserted_def Let_def)
qed

text \<open>The tasks that lose the capacity: each begins to make a connection and is cancelled.\<close>

lemma lose_one:
  assumes "pool_ok config y" "tally occupies y = 0" "pl_idle (sy_state y) = []" "sy_lost y < cf_max_size config"
  obtains y' where "pool_reaches config y y'" "pool_ok config y'" "tally occupies y' = 0" "pl_idle (sy_state y') = []" "sy_lost y' = sy_lost y + 1"
proof -
  let ?i = "length (sy_tasks y)"
  let ?y1 = "y\<lparr>sy_tasks := sy_tasks y @ [Acquiring 0]\<rparr>"
  have 1: "pool_step config y ?y1" by (rule spawned)
  let ?s = "(sy_state y)\<lparr>pl_active_count := pl_active_count (sy_state y) + 1\<rparr>"
  obtain m where t: "try_acquire config 0 0 (sy_state y) (sy_metrics y) = Some (?s, m, Creates)"
    using assms by (auto simp: try_acquire_def asserted_def pool_ok_def pool_invariant_def Let_def)
  let ?y2 = "y\<lparr>sy_state := ?s, sy_metrics := m, sy_tasks := sy_tasks y @ [Creating 0]\<rparr>"
  have 2: "pool_step config ?y1 ?y2"
    using tried [where y = ?y1 and i = ?i and start_time = 0 and config = config and now = 0 and s = ?s and m = m and a = Creates] t by (simp add: attempted_def)
  let ?y3 = "?y2\<lparr>sy_lost := sy_lost y + 1, sy_tasks := sy_tasks y @ [Gone]\<rparr>"
  have 3: "pool_step config ?y2 ?y3" using cancelled_creating [where y = ?y2 and i = ?i and start_time = 0 and config = config] by simp
  have r: "pool_reaches config y ?y3" using 1 2 3 by (meson converse_rtranclp_into_rtranclp rtranclp.rtrancl_refl)
  show thesis by (rule that [OF r pool_ok_reaches [OF r assms(1)]]) (use assms in \<open>simp_all add: tally_def\<close>)
qed

lemma lose_all:
  assumes "pool_ok config y" "tally occupies y = 0" "pl_idle (sy_state y) = []" "sy_lost y \<le> cf_max_size config"
  shows "\<exists>y'. pool_reaches config y y' \<and> exhausted y'"
  using assms
proof (induction "cf_max_size config - sy_lost y" arbitrary: y)
  case 0
  then show ?case by (intro exI [of _ y]) (simp add: exhausted_def pool_ok_def)
next
  case (Suc n)
  then have "sy_lost y < cf_max_size config" by simp
  then obtain y1 where y1: "pool_reaches config y y1" "pool_ok config y1" "tally occupies y1 = 0" "pl_idle (sy_state y1) = []" "sy_lost y1 = sy_lost y + 1"
    using lose_one [OF Suc.prems(1-3)] by blast
  with Suc.hyps(2) obtain y' where "pool_reaches config y1 y'" "exhausted y'" using Suc.hyps(1) [of y1] by force
  with y1(1) show ?case by (meson rtranclp_trans)
qed

text \<open>
  C38. A task that is cancelled while it makes a connection takes its place in the pool with it: \<open>active_count\<close> is not decremented. After as many such cancellations as the pool has
  places, and a fresh pool can come to this, it never hands out a connection again: in every later state no task makes or holds one, none is idle, and
  whoever asks is told to wait.
\<close>

theorem pool_lost_by_cancellation:
  assumes "pool_started config m y"
  shows "(\<exists>y'. pool_reaches config y y' \<and> exhausted y') \<and>
    (\<forall>y' z now start_time. pool_reaches config y y' \<and> exhausted y' \<and> pool_reaches config y' z \<longrightarrow>
       tally occupies z = 0 \<and> pl_idle (sy_state z) = [] \<and>
       (\<exists>s m. try_acquire config now start_time (sy_state z) (sy_metrics z) = Some (s, m, WaitRequired)))"
proof
  have ok: "pool_ok config y" using assms by (rule pool_ok_started)
  show "\<exists>y'. pool_reaches config y y' \<and> exhausted y'"
    using assms ok by (intro lose_all) (auto simp: pool_started_def pool_new_def tally_def split: option.splits if_splits)
  show "\<forall>y' z now start_time. pool_reaches config y y' \<and> exhausted y' \<and> pool_reaches config y' z \<longrightarrow>
       tally occupies z = 0 \<and> pl_idle (sy_state z) = [] \<and>
       (\<exists>s m. try_acquire config now start_time (sy_state z) (sy_metrics z) = Some (s, m, WaitRequired))"
  proof (intro allI impI; elim conjE)
    fix y' z now start_time assume h: "pool_reaches config y y'" "exhausted y'" "pool_reaches config y' z"
    have "pool_ok config y'" using pool_ok_reaches [OF h(1) ok] .
    then have "pool_ok config z" "exhausted z" using pool_ok_reaches [OF h(3)] exhausted_reaches [OF h(3) _ h(2)] by blast+
    then show "tally occupies z = 0 \<and> pl_idle (sy_state z) = [] \<and> (\<exists>s m. try_acquire config now start_time (sy_state z) (sy_metrics z) = Some (s, m, WaitRequired))"
      using exhausted_waits by blast
  qed
qed

theorem pool_lost_by_cancellation_witness:
  "\<exists>y'. pool_reaches small_config small_pool y' \<and> exhausted y' \<and> tally occupies y' = 0 \<and>
     (\<exists>s m. try_acquire small_config 60 60 (sy_state y') (sy_metrics y') = Some (s, m, WaitRequired))"
  using pool_lost_by_cancellation [OF small_pool_started] by blast

section \<open>The Dafny model\<close>

record DfyState =
  df_idle :: nat
  df_active :: nat
  df_capacity :: nat
  df_waiting :: nat

definition dfy_try_acquire :: "DfyState \<Rightarrow> nat option \<times> DfyState" where
  "dfy_try_acquire s =
     (if 0 < df_idle s then (Some (df_active s), s\<lparr>df_idle := df_idle s - 1, df_active := df_active s + 1\<rparr>)
      else if df_active s < df_capacity s then (Some (df_active s), s\<lparr>df_idle := 0, df_active := df_active s + 1\<rparr>)
      else (None, s\<lparr>df_waiting := df_waiting s + 1\<rparr>))"

definition dfy_release :: "DfyState \<Rightarrow> bool \<Rightarrow> DfyState" where
  "dfy_release s notify =
     (if notify \<and> 0 < df_waiting s then s\<lparr>df_active := df_active s - 1, df_waiting := df_waiting s - 1\<rparr>
      else s\<lparr>df_idle := df_idle s + 1, df_active := df_active s - 1, df_waiting := 0\<rparr>)"

definition pool_abs :: "'c PoolState \<Rightarrow> DfyState" where
  "pool_abs s = \<lparr>df_idle = length (pl_idle s), df_active = pl_active_count s, df_capacity = pl_capacity s, df_waiting = pl_waiting_count s\<rparr>"

text \<open>
  C40. How far the pool implements the Dafny model it cites: an attempt is the model's \<open>TryAcquire\<close> once the expired connections are gone, on all three branches, and
  giving a connection back while nobody waits is its \<open>Release\<close>. While somebody waits the two differ: the model hands the connection over, so that it is neither idle nor
  active and the waiter is counted out at once; the program puts it among the idle ones and counts the waiter out only when it wakes.
\<close>

theorem pool_refines_dafny:
  assumes "pool_invariant s"
  shows "(\<exists>s' m' a. try_acquire config now start_time s m = Some (s', m', a) \<and>
      dfy_try_acquire (pool_abs (s\<lparr>pl_idle := filter (\<lambda>conn. \<not> is_expired now (cf_max_idle_time config) conn) (pl_idle s)\<rparr>)) =
        (if a = WaitRequired then None else Some (pl_active_count s), pool_abs s')) \<and>
    (0 < pl_active_count s \<longrightarrow> (\<exists>s' m'. guard_drop now (Some conn) s m = Some (s', m', 0 < pl_waiting_count s) \<and>
      pool_abs s' = (if pl_waiting_count s = 0 then dfy_release (pool_abs s) False
        else (dfy_release (pool_abs s) True)\<lparr>df_idle := df_idle (pool_abs s) + 1, df_waiting := df_waiting (pool_abs s)\<rparr>)))"
proof (intro conjI impI)
  let ?live = "filter (\<lambda>conn. \<not> is_expired now (cf_max_idle_time config) conn) (pl_idle s)"
  have "length ?live \<le> length (pl_idle s)" by simp
  then show "\<exists>s' m' a. try_acquire config now start_time s m = Some (s', m', a) \<and>
      dfy_try_acquire (pool_abs (s\<lparr>pl_idle := ?live\<rparr>)) = (if a = WaitRequired then None else Some (pl_active_count s), pool_abs s')"
    using assms by (cases ?live) (auto simp: try_acquire_def asserted_def pool_invariant_def Let_def dfy_try_acquire_def pool_abs_def)
next
  assume "0 < pl_active_count s"
  from guard_drop_some [OF assms this, of now "Some conn" m]
  show "\<exists>s' m'. guard_drop now (Some conn) s m = Some (s', m', 0 < pl_waiting_count s) \<and>
      pool_abs s' = (if pl_waiting_count s = 0 then dfy_release (pool_abs s) False
        else (dfy_release (pool_abs s) True)\<lparr>df_idle := df_idle (pool_abs s) + 1, df_waiting := df_waiting (pool_abs s)\<rparr>)"
    by (auto simp: pool_abs_def dfy_release_def)
qed

theorem pool_refines_dafny_witness:
  "dfy_release (pool_abs \<lparr>pl_idle = [], pl_active_count = 1, pl_capacity = 1, pl_waiting_count = 0 :: nat\<rparr>) False =
     \<lparr>df_idle = 1, df_active = 0, df_capacity = 1, df_waiting = 0\<rparr> \<and>
   (\<exists>s' m'. guard_drop 9 (Some \<lparr>pc_client = (), pc_last_used = 2\<rparr>) \<lparr>pl_idle = [], pl_active_count = 1, pl_capacity = 1, pl_waiting_count = 0\<rparr> None =
      Some (s', m', False) \<and> pool_abs s' = \<lparr>df_idle = 1, df_active = 0, df_capacity = 1, df_waiting = 0\<rparr>)"
  using pool_refines_dafny [of "\<lparr>pl_idle = [], pl_active_count = 1, pl_capacity = 1, pl_waiting_count = 0\<rparr> :: unit PoolState", THEN conjunct2,
      of 9 "\<lparr>pc_client = (), pc_last_used = 2\<rparr>" None]
  by (simp add: pool_invariant_def pool_abs_def dfy_release_def)

text \<open>When a connection cannot be made, its place becomes free, but no waiting task is woken.\<close>

lemma failed_creation_wakes_nobody:
  assumes "pool_ok config y" "task_at y i (Creating start_time)" "create_failed (sy_state y) (sy_metrics y) = Some (s, m)"
    and y': "y' = set_task i (Failed e) (y\<lparr>sy_state := s, sy_metrics := m\<rparr>)"
  shows "sy_notified y' = sy_notified y \<and> (\<exists>s' m' a. try_acquire config now start_time' s m = Some (s', m', a) \<and> a \<noteq> WaitRequired)"
proof -
  have inv: "pool_invariant (sy_state y)" using assms(1) by (simp add: pool_ok_def)
  have "0 < pl_active_count (sy_state y)" using tally_at [OF assms(2), where f = occupies] assms(1) by (simp add: pool_ok_def)
  with inv create_failed_some [OF inv, of "sy_metrics y"] assms(3) have s: "pool_invariant s" "pl_active_count s < pl_capacity s"
    by (auto simp: pool_invariant_def)
  have "a \<noteq> WaitRequired" if "try_acquire config now start_time' s m = Some (s', m', a)" for s' m' a
    using that s(2) by (auto simp: try_acquire_def asserted_def Let_def split: list.splits if_splits)
  moreover obtain s' m' a where "try_acquire config now start_time' s m = Some (s', m', a)" using try_acquire_some [OF s(1)] by metis
  ultimately show ?thesis by (auto simp: y')
qed

end
