(* ===== verification/File_System.thy ===== *)
theory File_System
  imports Nar_Liveness Write_Buf
begin

text \<open>
  What the archive code uses of the standard library on Unix: paths and the file system. A \<open>PathBuf\<close> is its sequence of components, by which
  Rust also compares paths; redundant separators and \<open>.\<close> are not kept. The file system is a parameter (\<open>FsOps\<close>) with a contract
  (\<open>file_system\<close>): \<open>node\<close> is what it has at a path, and each operation either fails for a reason of the
  environment or does what it says, provided that the directories on the way are directories and not links. The contract says nothing
  of other paths. A file system in memory keeps it. \<open>MappedFile\<close> (\<open>archive/mmap.rs\<close>) is built on its \<open>open\<close> and \<open>mmap\<close>.

  A blocking task (\<open>JoinHandle\<close> of tokio) is the function of the file system that it computes, with the number of polls it takes and whether it is aborted, which the
  runtime chooses; what it does is done when its handle is ready.
\<close>

section \<open>Paths\<close>

record PathBuf =
  pb_absolute :: bool
  pb_names :: "bytes list"

fun segments :: "bytes \<Rightarrow> bytes list" where
  "segments [] = [[]]"
| "segments (b # bs) = (if b = 0x2F then [] # segments bs else (case segments bs of [] \<Rightarrow> [[b]] | s # ss \<Rightarrow> (b # s) # ss))"

definition parse_path :: "bytes \<Rightarrow> PathBuf" where
  "parse_path b = \<lparr>pb_absolute = (b \<noteq> [] \<and> hd b = 0x2F), pb_names = filter (\<lambda>s. s \<noteq> [] \<and> s \<noteq> [0x2E]) (segments b)\<rparr>"

definition path_join :: "PathBuf \<Rightarrow> bytes \<Rightarrow> PathBuf" where
  "path_join p b = (if pb_absolute (parse_path b) then parse_path b else p\<lparr>pb_names := pb_names p @ pb_names (parse_path b)\<rparr>)"

definition path_pop :: "PathBuf \<Rightarrow> PathBuf" where
  "path_pop p = p\<lparr>pb_names := butlast (pb_names p)\<rparr>"

definition path_starts_with :: "PathBuf \<Rightarrow> PathBuf \<Rightarrow> bool" where
  "path_starts_with p base \<longleftrightarrow> pb_absolute p = pb_absolute base \<and> prefix (pb_names base) (pb_names p)"

text \<open>A path that ends in \<open>..\<close> has no file name.\<close>

definition path_file_name :: "PathBuf \<Rightarrow> bytes option" where
  "path_file_name p = (if pb_names p = [] \<or> last (pb_names p) = [0x2E, 0x2E] then None else Some (last (pb_names p)))"

definition plain_name :: "bytes \<Rightarrow> bool" where
  "plain_name n \<longleftrightarrow> n \<noteq> [] \<and> 0x2F \<notin> set n \<and> 0 \<notin> set n \<and> n \<noteq> [0x2E] \<and> n \<noteq> [0x2E, 0x2E]"

abbreviation path_at :: "bytes list \<Rightarrow> PathBuf" where
  "path_at ns \<equiv> \<lparr>pb_absolute = True, pb_names = ns\<rparr>"

text \<open>The text of an absolute path.\<close>

definition path_bytes :: "bytes list \<Rightarrow> bytes" where
  "path_bytes ns = concat (map ((#) 0x2F) ns)"

lemma segments_not_Nil: "segments b \<noteq> []"
  by (induction b) (auto split: list.splits)

lemma segments_plain: "0x2F \<notin> set n \<Longrightarrow> segments n = [n]"
  by (induction n) auto

lemma segments_slash: "0x2F \<notin> set n \<Longrightarrow> segments (n @ 0x2F # bs) = n # segments bs"
  by (induction n) auto

lemma parse_plain: "plain_name n \<Longrightarrow> parse_path n = \<lparr>pb_absolute = False, pb_names = [n]\<rparr>"
  by (cases n) (auto simp: parse_path_def plain_name_def segments_plain)

lemma segments_path_bytes: "list_all plain_name ns \<Longrightarrow> segments (path_bytes ns) = [] # ns"
proof (induction ns)
  case (Cons n ns)
  have n: "0x2F \<notin> set n" using Cons.prems by (simp add: plain_name_def)
  show ?case
  proof (cases ns)
    case Nil
    then show ?thesis using n by (simp add: path_bytes_def segments_plain)
  next
    case (Cons n' ns')
    then have "path_bytes ns = 0x2F # n' @ path_bytes ns'" by (simp add: path_bytes_def)
    moreover from Cons.IH [THEN sym] have "segments (path_bytes ns) = [] # ns" using \<open>list_all plain_name (n # ns)\<close> by simp
    ultimately have "segments (n' @ path_bytes ns') = ns" by simp
    with Cons n show ?thesis
      by (simp add: path_bytes_def segments_slash)
  qed
qed (simp add: path_bytes_def)

lemma parse_path_bytes: "list_all plain_name ns \<Longrightarrow> ns \<noteq> [] \<Longrightarrow> parse_path (path_bytes ns) = path_at ns"
proof -
  assume p: "list_all plain_name ns" "ns \<noteq> []"
  have "filter (\<lambda>s. s \<noteq> [] \<and> s \<noteq> [0x2E]) ns = ns" using p(1) by (auto simp: list_all_iff plain_name_def)
  moreover have "path_bytes ns \<noteq> []" "hd (path_bytes ns) = 0x2F" using p(2) by (cases ns; simp add: path_bytes_def)+
  ultimately show ?thesis using segments_path_bytes [OF p(1)] by (simp add: parse_path_def)
qed

lemma join_plain: "plain_name n \<Longrightarrow> path_join p n = p\<lparr>pb_names := pb_names p @ [n]\<rparr>"
  by (simp add: path_join_def parse_plain)

lemma join_absolute: "list_all plain_name ns \<Longrightarrow> ns \<noteq> [] \<Longrightarrow> path_join p (path_bytes ns) = path_at ns"
  by (simp add: path_join_def parse_path_bytes)

section \<open>The file system\<close>

datatype FsNode = FsFile bool bytes | FsSymlink bytes | FsDirectory | FsOther

text \<open>\<open>Metadata\<close> without following links: the kind, the length and the permissions of the owner to execute.\<close>

datatype Metadata = IsDir | IsFile u64 bool | IsSymlink | IsOther

text \<open>\<open>fo_create_new\<close> is \<open>OpenOptions\<close> with \<open>write\<close> and \<open>create_new\<close> and the mode 777 or 666; \<open>fo_read\<close> is \<open>fs::read\<close>, \<open>fo_open\<close> is \<open>File::open\<close> and
  \<open>fo_mmap\<close> the \<open>mmap\<close> of the crate \<open>nix\<close>, with the text of its error.\<close>

record ('fs, 'h) FsOps =
  fo_create_dir :: "'fs \<Rightarrow> PathBuf \<Rightarrow> 'fs \<times> unit io_result"
  fo_symlink :: "'fs \<Rightarrow> bytes \<Rightarrow> PathBuf \<Rightarrow> 'fs \<times> unit io_result"
  fo_create_new :: "'fs \<Rightarrow> bool \<Rightarrow> PathBuf \<Rightarrow> 'fs \<times> 'h io_result"
  fo_write_all :: "'fs \<Rightarrow> 'h \<Rightarrow> bytes \<Rightarrow> 'fs \<times> unit io_result"
  fo_flush :: "'fs \<Rightarrow> 'h \<Rightarrow> 'fs \<times> unit io_result"
  fo_metadata :: "'fs \<Rightarrow> PathBuf \<Rightarrow> Metadata io_result"
  fo_read_link :: "'fs \<Rightarrow> PathBuf \<Rightarrow> bytes io_result"
  fo_read :: "'fs \<Rightarrow> PathBuf \<Rightarrow> bytes io_result"
  fo_open :: "'fs \<Rightarrow> PathBuf \<Rightarrow> 'h io_result"
  fo_mmap :: "'fs \<Rightarrow> 'h \<Rightarrow> u64 \<Rightarrow> string + bytes"

text \<open>A mapped file is the bytes that its \<open>as_slice\<close> shows. A \<open>u64\<close> is always a \<open>usize\<close> here, and the advice to the kernel has no effect on them.\<close>

definition mapped_open :: "('fs, 'h) FsOps \<Rightarrow> 'fs \<Rightarrow> PathBuf \<Rightarrow> u64 \<Rightarrow> bytes io_result" where
  "mapped_open ops fs path sz =
     (if sz = 0 then Inr []
      else result_bind (fo_open ops fs path) (\<lambda>h.
        result_map_err (\<lambda>e. IoError OtherKind (''mmap failed: '' @ e)) (fo_mmap ops fs h sz)))"

text \<open>Where something can be created: the names are plain, the directories above exist, and the place is free.\<close>

definition reachable :: "(bytes list \<Rightarrow> FsNode option) \<Rightarrow> bytes list \<Rightarrow> bool" where
  "reachable m ns \<longleftrightarrow> list_all plain_name ns \<and> (\<forall>ds. strict_prefix ds ns \<longrightarrow> m ds = Some FsDirectory)"

definition room_at :: "(bytes list \<Rightarrow> FsNode option) \<Rightarrow> bytes list \<Rightarrow> bool" where
  "room_at m ns \<longleftrightarrow> ns \<noteq> [] \<and> reachable m ns \<and> m ns = None"

fun metadata_of :: "FsNode \<Rightarrow> Metadata" where
  "metadata_of (FsFile x c) = IsFile (word_of_nat (length c)) x"
| "metadata_of (FsSymlink t) = IsSymlink"
| "metadata_of FsDirectory = IsDir"
| "metadata_of FsOther = IsOther"

locale file_system =
  fixes ops :: "('fs, 'h) FsOps"
    and node :: "'fs \<Rightarrow> bytes list \<Rightarrow> FsNode option"
    and handle :: "'h \<Rightarrow> bytes list"
    and fs_err :: "io_error \<Rightarrow> bool"
  assumes create_dir_law: "room_at (node fs) ns \<Longrightarrow> fo_create_dir ops fs (path_at ns) = (fs', x) \<Longrightarrow>
      (case x of Inl e \<Rightarrow> fs_err e | Inr _ \<Rightarrow> node fs' = (node fs)(ns \<mapsto> FsDirectory))"
    and symlink_law: "room_at (node fs) ns \<Longrightarrow> fo_symlink ops fs target (path_at ns) = (fs', y) \<Longrightarrow>
      (case y of Inl e \<Rightarrow> fs_err e | Inr _ \<Rightarrow> node fs' = (node fs)(ns \<mapsto> FsSymlink target))"
    and create_new_law: "room_at (node fs) ns \<Longrightarrow> fo_create_new ops fs ex (path_at ns) = (fs', z) \<Longrightarrow>
      (case z of Inl e \<Rightarrow> fs_err e | Inr h \<Rightarrow> node fs' = (node fs)(ns \<mapsto> FsFile ex []) \<and> handle h = ns)"
    and write_all_law: "node fs (handle h) = Some (FsFile ex c) \<Longrightarrow> fo_write_all ops fs h b = (fs', w) \<Longrightarrow>
      (case w of Inl e \<Rightarrow> fs_err e | Inr _ \<Rightarrow> node fs' = (node fs)(handle h \<mapsto> FsFile ex (c @ b)))"
    and flush_law: "fo_flush ops fs h = (fs', v) \<Longrightarrow> (case v of Inl e \<Rightarrow> fs_err e | Inr _ \<Rightarrow> node fs' = node fs)"
    and metadata_law: "reachable (node fs) ns \<Longrightarrow> node fs ns = Some n \<Longrightarrow>
      (case fo_metadata ops fs (path_at ns) of Inl e \<Rightarrow> fs_err e | Inr m \<Rightarrow> m = metadata_of n)"
    and read_link_law: "reachable (node fs) ns \<Longrightarrow> node fs ns = Some (FsSymlink t) \<Longrightarrow>
      (case fo_read_link ops fs (path_at ns) of Inl e \<Rightarrow> fs_err e | Inr b \<Rightarrow> b = t)"
    and read_law: "reachable (node fs) ns \<Longrightarrow> node fs ns = Some (FsFile ex c) \<Longrightarrow>
      (case fo_read ops fs (path_at ns) of Inl e \<Rightarrow> fs_err e | Inr b \<Rightarrow> b = c)"
    and open_law: "reachable (node fs) ns \<Longrightarrow> node fs ns = Some (FsFile ex c) \<Longrightarrow>
      (case fo_open ops fs (path_at ns) of Inl e \<Rightarrow> fs_err e | Inr h \<Rightarrow> handle h = ns)"
    and mmap_law: "node fs (handle h) = Some (FsFile ex c) \<Longrightarrow>
      (case fo_mmap ops fs h (word_of_nat (length c)) of Inl e \<Rightarrow> fs_err (IoError OtherKind (''mmap failed: '' @ e)) | Inr b \<Rightarrow> b = c)"
begin

lemma mapped_open_law:
  assumes "reachable (node fs) ns" "node fs ns = Some (FsFile ex c)" "word_of_nat (length c) \<noteq> (0 :: u64)"
  shows "case mapped_open ops fs (path_at ns) (word_of_nat (length c)) of Inl e \<Rightarrow> fs_err e | Inr b \<Rightarrow> b = c"
proof (cases "fo_open ops fs (path_at ns)")
  case (Inl e)
  then show ?thesis using open_law [OF assms(1,2)] assms(3) by (simp add: mapped_open_def)
next
  case (Inr h)
  then have "node fs (handle h) = Some (FsFile ex c)" using open_law [OF assms(1,2)] assms(2) by simp
  from mmap_law [OF this] Inr assms(3) show ?thesis
    by (cases "fo_mmap ops fs h (word_of_nat (length c))") (simp_all add: mapped_open_def)
qed

end

section \<open>Blocking tasks\<close>

datatype ('fs, 'a) JoinHandle = Running nat bool "'fs \<Rightarrow> ('fs \<times> 'a) option" | Completed

definition spawn_blocking :: "nat \<times> bool \<Rightarrow> ('fs \<Rightarrow> ('fs \<times> 'a) option) \<Rightarrow> ('fs, 'a) JoinHandle" where
  "spawn_blocking sched task = Running (fst sched) (snd sched) task"

text \<open>The error is the one of a task that was aborted or panicked; a handle that is polled after it was ready panics.\<close>

fun join_poll :: "('fs, 'a) JoinHandle \<Rightarrow> 'fs \<Rightarrow> (('fs, 'a) JoinHandle \<times> 'fs \<times> (unit + 'a) poll) option" where
  "join_poll (Running (Suc n) aborted task) fs = Some (Running n aborted task, fs, Pending)"
| "join_poll (Running 0 True task) fs = Some (Completed, fs, Ready (Inl ()))"
| "join_poll (Running 0 False task) fs = map_option (\<lambda>(fs, x). (Completed, fs, Ready (Inr x))) (task fs)"
| "join_poll Completed fs = None"

fun join_left :: "('fs, 'a) JoinHandle \<Rightarrow> nat" where
  "join_left (Running n aborted task) = n"
| "join_left Completed = 0"

lemma join_poll_Pending: "join_poll h fs = Some (h', fs', Pending) \<Longrightarrow> join_left h' < join_left h \<and> fs' = fs"
  by (induction h fs rule: join_poll.induct) auto

section \<open>A file system in memory\<close>

type_synonym MemFs = "(bytes list \<times> FsNode) list"

definition no_such_file :: io_error where "no_such_file = IoError OtherKind ''No such file or directory''"
definition file_exists :: io_error where "file_exists = IoError OtherKind ''File exists''"

definition mem_room :: "MemFs \<Rightarrow> PathBuf \<Rightarrow> io_error option" where
  "mem_room fs p =
     (if \<not> pb_absolute p \<or> pb_names p = [] \<or> \<not> list_all plain_name (pb_names p) \<or>
         \<not> list_all (\<lambda>ds. map_of fs ds = Some FsDirectory) (prefixes (butlast (pb_names p))) then Some no_such_file
      else if map_of fs (pb_names p) \<noteq> None then Some file_exists else None)"

definition mem_create :: "MemFs \<Rightarrow> PathBuf \<Rightarrow> FsNode \<Rightarrow> 'a \<Rightarrow> MemFs \<times> 'a io_result" where
  "mem_create fs p n v = (case mem_room fs p of Some e \<Rightarrow> (fs, Inl e) | None \<Rightarrow> ((pb_names p, n) # fs, Inr v))"

definition mem_find :: "MemFs \<Rightarrow> PathBuf \<Rightarrow> (FsNode \<Rightarrow> 'a option) \<Rightarrow> 'a io_result" where
  "mem_find fs p f = (case Option.bind (map_of fs (pb_names p)) f of None \<Rightarrow> Inl no_such_file | Some v \<Rightarrow> Inr v)"

definition mem_ops :: "(MemFs, bytes list) FsOps" where
  "mem_ops = \<lparr>fo_create_dir = (\<lambda>fs p. mem_create fs p FsDirectory ()), fo_symlink = (\<lambda>fs t p. mem_create fs p (FsSymlink t) ()),
     fo_create_new = (\<lambda>fs x p. mem_create fs p (FsFile x []) (pb_names p)),
     fo_write_all = (\<lambda>fs h b. case map_of fs h of Some (FsFile x c) \<Rightarrow> ((h, FsFile x (c @ b)) # fs, Inr ()) | _ \<Rightarrow> (fs, Inl no_such_file)),
     fo_flush = (\<lambda>fs _. (fs, Inr ())),
     fo_metadata = (\<lambda>fs p. mem_find fs p (\<lambda>n. Some (metadata_of n))),
     fo_read_link = (\<lambda>fs p. mem_find fs p (\<lambda>n. case n of FsSymlink t \<Rightarrow> Some t | _ \<Rightarrow> None)),
     fo_read = (\<lambda>fs p. mem_find fs p (\<lambda>n. case n of FsFile _ c \<Rightarrow> Some c | _ \<Rightarrow> None)),
     fo_open = (\<lambda>fs p. mem_find fs p (\<lambda>n. Some (pb_names p))),
     fo_mmap = (\<lambda>fs h sz. case map_of fs h of Some (FsFile _ c) \<Rightarrow> Inr c | _ \<Rightarrow> Inl ''ENODEV'')\<rparr>"

lemma prefixes_butlast: "ns \<noteq> [] \<Longrightarrow> prefix ds (butlast ns) \<longleftrightarrow> strict_prefix ds ns"
  by (cases ns rule: rev_cases) (auto simp: strict_prefix_def)

lemma mem_room_None: "room_at (map_of fs) ns \<Longrightarrow> mem_room fs (path_at ns) = None"
  by (auto simp: room_at_def reachable_def mem_room_def list_all_iff prefixes_butlast)

interpretation memfs: file_system mem_ops map_of "\<lambda>h. h" "\<lambda>_. False"
  by unfold_locales (auto simp: mem_ops_def mem_create_def mem_room_None mem_find_def split: FsNode.splits option.splits)

end
