(* ===== verification/Nar_Restorer.thy ===== *)
theory Nar_Restorer
  imports File_System
begin

text \<open>
  The restorer of archives (\<open>harmonia-nar/src/archive/restorer.rs\<close>): a sink of events that makes files, links and directories below a path. Every
  operation of the file system runs in a blocking task, and the sink is ready when the task is done. The case hack renames entries that a file system
  without case would confuse; \<open>lower\<close> is \<open>to_lowercase\<close> of the text.

  The facts: the events of an archive with plain and distinct names make exactly its tree, and nothing else changes; an archive whose names are not
  plain is restored outside of the given path.
\<close>

section \<open>The restorer\<close>

definition CASE_HACK_SUFFIX :: string where
  "CASE_HACK_SUFFIX = ''~nix~case~hack~''"

datatype NarWriteOperation = CreateDirectory | CreateSymlink | CreateFile | PathUTF8 | JoinError

record NarWriteError =
  we_operation :: NarWriteOperation
  we_path :: PathBuf
  we_source :: io_error

definition write_error :: "NarWriteOperation \<Rightarrow> PathBuf \<Rightarrow> io_error \<Rightarrow> NarWriteError" where
  "write_error operation path source = \<lparr>we_operation = operation, we_path = path, we_source = source\<rparr>"

type_synonym 'fs job = "'fs \<Rightarrow> ('fs \<times> (NarWriteError + unit)) option"

record ('fs, 'l) NarRestorer =
  rs_root :: PathBuf
  rs_path :: PathBuf
  rs_state :: "('fs, NarWriteError + unit) JoinHandle option"
  rs_use_case_hack :: bool
  rs_entries :: "'l \<Rightarrow> nat option"
  rs_dir_stack :: "('l \<Rightarrow> nat option) list"

definition new_restorer :: "PathBuf \<Rightarrow> bool \<Rightarrow> ('fs, 'l) NarRestorer" where
  "new_restorer path use_case_hack =
     \<lparr>rs_root = path, rs_path = path, rs_state = None, rs_use_case_hack = use_case_hack, rs_entries = Map.empty, rs_dir_stack = []\<rparr>"

text \<open>Every name is a text of the operating system on Unix.\<close>

definition join_name :: "PathBuf \<Rightarrow> bytes \<Rightarrow> PathBuf" where
  "join_name path name = (if name = [] then path else path_join path name)"

definition hack_name :: "(bytes \<Rightarrow> 'l) \<Rightarrow> ('l \<Rightarrow> nat option) \<Rightarrow> bytes \<Rightarrow> (('l \<Rightarrow> nat option) \<times> bytes) option" where
  "hack_name lower entries name =
     (case entries (lower name) of
        Some n \<Rightarrow>
          if n + 1 < 2 ^ 32 then Some (entries(lower name \<mapsto> n + 1), name @ as_bytes (CASE_HACK_SUFFIX @ show_nat (n + 1))) else None
      | None \<Rightarrow> Some (entries(lower name \<mapsto> 0), name))"

definition restorer_name :: "(bytes \<Rightarrow> 'l) \<Rightarrow> ('fs, 'l) NarRestorer \<Rightarrow> bytes \<Rightarrow> (('fs, 'l) NarRestorer \<times> bytes) option" where
  "restorer_name lower rs name =
     (if rs_use_case_hack rs then map_option (\<lambda>(entries, name). (rs\<lparr>rs_entries := entries\<rparr>, name)) (hack_name lower (rs_entries rs) name)
      else Some (rs, name))"

text \<open>The tasks. \<open>fill\<close> and \<open>consume\<close> are the operations of the reader of a file's contents, awaited by the task.\<close>

partial_function (option) copy_file ::
  "('fs, 'h) FsOps \<Rightarrow> ('r \<Rightarrow> ('r, bytes) polled) \<Rightarrow> ('r \<Rightarrow> nat \<Rightarrow> 'r option) \<Rightarrow> PathBuf \<Rightarrow> 'h \<Rightarrow> 'r \<Rightarrow> 'fs job" where
  "copy_file ops fill consume path h r fs =
     Option.bind (await fill r) (\<lambda>(r, x). case x of
        Inl e \<Rightarrow> Some (fs, Inl (write_error CreateFile path e))
      | Inr buf \<Rightarrow>
          if buf = [] then Some (fs, Inr ())
          else (case fo_write_all ops fs h buf of
                  (fs, Inl e) \<Rightarrow> Some (fs, Inl (write_error CreateFile path e))
                | (fs, Inr _) \<Rightarrow> Option.bind (consume r (length buf)) (\<lambda>r. copy_file ops fill consume path h r fs)))"

definition file_job ::
  "('fs, 'h) FsOps \<Rightarrow> ('r \<Rightarrow> ('r, bytes) polled) \<Rightarrow> ('r \<Rightarrow> nat \<Rightarrow> 'r option) \<Rightarrow> bool \<Rightarrow> PathBuf \<Rightarrow> 'r \<Rightarrow> 'fs job" where
  "file_job ops fill consume executable path r fs =
     (case fo_create_new ops fs executable path of
        (fs, Inl e) \<Rightarrow> Some (fs, Inl (write_error CreateFile path e))
      | (fs, Inr h) \<Rightarrow>
          Option.bind (copy_file ops fill consume path h r fs) (\<lambda>(fs, x). case x of
             Inl e \<Rightarrow> Some (fs, Inl e)
           | Inr _ \<Rightarrow> (case fo_flush ops fs h of (fs, y) \<Rightarrow> Some (fs, result_map_err (write_error CreateFile path) y))))"

definition symlink_job :: "('fs, 'h) FsOps \<Rightarrow> bytes \<Rightarrow> PathBuf \<Rightarrow> 'fs job" where
  "symlink_job ops target path fs = (case fo_symlink ops fs target path of (fs, x) \<Rightarrow> Some (fs, result_map_err (write_error CreateSymlink path) x))"

definition dir_job :: "('fs, 'h) FsOps \<Rightarrow> PathBuf \<Rightarrow> 'fs job" where
  "dir_job ops path fs = (case fo_create_dir ops fs path of (fs, x) \<Rightarrow> Some (fs, result_map_err (write_error CreateDirectory path) x))"

definition restorer_poll_ready ::
  "('fs, 'l) NarRestorer \<Rightarrow> 'fs \<Rightarrow> (('fs, 'l) NarRestorer \<times> 'fs \<times> (NarWriteError + unit) poll) option" where
  "restorer_poll_ready rs fs =
     (case rs_state rs of
        None \<Rightarrow> Some (rs, fs, Ready (Inr ()))
      | Some handle \<Rightarrow>
          (case join_poll handle fs of
             None \<Rightarrow> None
           | Some (handle, fs, res) \<Rightarrow>
               let rs' = rs\<lparr>rs_state := Some handle\<rparr> in
               (case res of
                  Pending \<Rightarrow> Some (rs', fs, Pending)
                | Ready (Inl _) \<Rightarrow> Some (rs', fs, Ready (Inl (write_error JoinError (rs_root rs) (IoError OtherKind ''background task failed''))))
                | Ready (Inr (Inl e)) \<Rightarrow> Some (rs', fs, Ready (Inl e))
                | Ready (Inr (Inr _)) \<Rightarrow> Some (rs\<lparr>rs_state := None\<rparr>, fs, Ready (Inr ())))))"

definition restorer_start_send ::
  "('fs, 'h) FsOps \<Rightarrow> ('r \<Rightarrow> ('r, bytes) polled) \<Rightarrow> ('r \<Rightarrow> nat \<Rightarrow> 'r option) \<Rightarrow> (bytes \<Rightarrow> 'l) \<Rightarrow> nat \<times> bool \<Rightarrow>
     ('fs, 'l) NarRestorer \<Rightarrow> 'r NarEvent \<Rightarrow> ('fs, 'l) NarRestorer option" where
  "restorer_start_send ops fill consume lower sched rs item =
     (if rs_state rs \<noteq> None then None else
      case item of
        File name executable _ reader \<Rightarrow>
          map_option (\<lambda>(rs, name). rs\<lparr>rs_state := Some (spawn_blocking sched (file_job ops fill consume executable (join_name (rs_path rs) name) reader))\<rparr>)
            (restorer_name lower rs name)
      | Symlink name target \<Rightarrow>
          map_option (\<lambda>(rs, name). rs\<lparr>rs_state := Some (spawn_blocking sched (symlink_job ops target (join_name (rs_path rs) name)))\<rparr>) (restorer_name lower rs name)
      | StartDirectory name \<Rightarrow>
          map_option (\<lambda>(rs, name).
              let rs = (if rs_use_case_hack rs then rs\<lparr>rs_entries := Map.empty, rs_dir_stack := rs_entries rs # rs_dir_stack rs\<rparr> else rs);
                  path = join_name (rs_path rs) name
              in rs\<lparr>rs_path := path, rs_state := Some (spawn_blocking sched (dir_job ops path))\<rparr>)
            (restorer_name lower rs name)
      | EndDirectory \<Rightarrow>
          Some ((if rs_use_case_hack rs
                 then rs\<lparr>rs_entries := (case rs_dir_stack rs of [] \<Rightarrow> Map.empty | entries # _ \<Rightarrow> entries), rs_dir_stack := tl (rs_dir_stack rs)\<rparr>
                 else rs)\<lparr>rs_path := path_pop (rs_path rs)\<rparr>))"

text \<open>\<open>forward\<close> of the stream into the sink: each item is sent when the sink is ready, and the sink is closed in the end. \<open>plans\<close> is what the runtime does with the
  tasks.\<close>

fun polls_left :: "('fs, 'l) NarRestorer \<Rightarrow> nat" where
  "polls_left rs = (case rs_state rs of Some handle \<Rightarrow> join_left handle | None \<Rightarrow> 0)"

function restorer_ready :: "('fs, 'l) NarRestorer \<Rightarrow> 'fs \<Rightarrow> (('fs, 'l) NarRestorer \<times> 'fs \<times> (NarWriteError + unit)) option" where
  "restorer_ready rs fs =
     (case restorer_poll_ready rs fs of
        None \<Rightarrow> None
      | Some (rs', fs', Pending) \<Rightarrow> restorer_ready rs' fs'
      | Some (rs', fs', Ready x) \<Rightarrow> Some (rs', fs', x))"
  by pat_completeness auto
termination
  by (relation "measure (\<lambda>(rs, fs). polls_left rs)")
    (auto simp: restorer_poll_ready_def Let_def dest!: join_poll_Pending split: option.splits poll.splits sum.splits)

declare restorer_ready.simps [simp del]

fun restore_events ::
  "('fs, 'h) FsOps \<Rightarrow> ('r \<Rightarrow> ('r, bytes) polled) \<Rightarrow> ('r \<Rightarrow> nat \<Rightarrow> 'r option) \<Rightarrow> (bytes \<Rightarrow> 'l) \<Rightarrow> (nat \<Rightarrow> nat \<times> bool) \<Rightarrow>
     ('fs, 'l) NarRestorer \<Rightarrow> 'fs \<Rightarrow> (NarWriteError + 'r NarEvent) list \<Rightarrow> ('fs \<times> (NarWriteError + unit)) option" where
  "restore_events ops fill consume lower plans rs fs [] = map_option (\<lambda>(_, fs, x). (fs, x)) (restorer_ready rs fs)"
| "restore_events ops fill consume lower plans rs fs (Inl e # items) = Some (fs, Inl e)"
| "restore_events ops fill consume lower plans rs fs (Inr item # items) =
     (case restorer_ready rs fs of
        None \<Rightarrow> None
      | Some (rs, fs, Inl e) \<Rightarrow> Some (fs, Inl e)
      | Some (rs, fs, Inr _) \<Rightarrow>
          (case restorer_start_send ops fill consume lower (plans (length items)) rs item of
             None \<Rightarrow> None
           | Some rs \<Rightarrow> restore_events ops fill consume lower plans rs fs items))"

definition restore ::
  "('fs, 'h) FsOps \<Rightarrow> ('r \<Rightarrow> ('r, bytes) polled) \<Rightarrow> ('r \<Rightarrow> nat \<Rightarrow> 'r option) \<Rightarrow> (bytes \<Rightarrow> 'l) \<Rightarrow> (nat \<Rightarrow> nat \<times> bool) \<Rightarrow>
     bool \<Rightarrow> PathBuf \<Rightarrow> 'fs \<Rightarrow> (NarWriteError + 'r NarEvent) list \<Rightarrow> ('fs \<times> (NarWriteError + unit)) option" where
  "restore ops fill consume lower plans use_case_hack path fs items =
     restore_events ops fill consume lower plans (new_restorer path use_case_hack) fs items"

section \<open>The tree of an archive\<close>

fun mount :: "bytes list \<Rightarrow> nar \<Rightarrow> (bytes list \<Rightarrow> FsNode option) \<Rightarrow> bytes list \<Rightarrow> FsNode option" where
  "mount ns (NarFile x c) m = m(ns \<mapsto> FsFile x c)"
| "mount ns (NarSymlink t) m = m(ns \<mapsto> FsSymlink t)"
| "mount ns (NarDirectory es) m = fold (\<lambda>(n, t) m. mount (ns @ [n]) t m) es (m(ns \<mapsto> FsDirectory))"

fun nar_plain :: "nar \<Rightarrow> bool" where
  "nar_plain (NarFile x c) \<longleftrightarrow> True"
| "nar_plain (NarSymlink t) \<longleftrightarrow> True"
| "nar_plain (NarDirectory es) \<longleftrightarrow> distinct (map fst es) \<and> list_all (\<lambda>(n, t). plain_name n \<and> nar_plain t) es"

abbreviation mount_entries :: "bytes list \<Rightarrow> (bytes \<times> nar) list \<Rightarrow> (bytes list \<Rightarrow> FsNode option) \<Rightarrow> bytes list \<Rightarrow> FsNode option" where
  "mount_entries ns es m \<equiv> fold (\<lambda>(n, t) m. mount (ns @ [n]) t m) es m"

lemma mount_frame: "\<not> prefix ns q \<Longrightarrow> mount ns t m q = m q"
proof (induction t arbitrary: ns m rule: nar.induct)
  case (NarDirectory es)
  have "mount_entries ns es' m' q = m' q" if "set es' \<subseteq> set es" for es' m'
    using that
  proof (induction es' arbitrary: m')
    case (Cons e es')
    obtain n t where e: "e = (n, t)" by (cases e)
    have "\<not> prefix (ns @ [n]) q" using NarDirectory.prems append_prefixD by blast
    then have "mount (ns @ [n]) t m' q = m' q" using NarDirectory.IH [of e t] Cons.prems by (simp add: e)
    then show ?case using Cons by (simp add: e)
  qed simp
  from this [of es] show ?case using NarDirectory.prems by auto
qed auto

lemma mount_entries_frame: "\<forall>(n, t) \<in> set es. \<not> prefix (ns @ [n]) q \<Longrightarrow> mount_entries ns es m q = m q"
  by (induction es arbitrary: m) (auto simp: mount_frame)

text \<open>Nothing is there yet.\<close>

definition free_below :: "(bytes list \<Rightarrow> FsNode option) \<Rightarrow> bytes list \<Rightarrow> bool" where
  "free_below m ns \<longleftrightarrow> (\<forall>q. prefix ns q \<longrightarrow> m q = None)"

lemma free_below_child: "free_below m ns \<Longrightarrow> free_below (m(ns \<mapsto> x)) (ns @ [n])"
  by (auto simp: free_below_def dest: append_prefixD)

lemma free_below_sibling: "free_below m (ns @ [n]) \<Longrightarrow> n \<noteq> n' \<Longrightarrow> free_below (mount (ns @ [n']) t m) (ns @ [n])"
  unfolding free_below_def
proof (intro allI impI)
  fix q assume h: "\<forall>q. prefix (ns @ [n]) q \<longrightarrow> m q = None" "n \<noteq> n'" "prefix (ns @ [n]) q"
  then have "\<not> prefix (ns @ [n']) q" by (auto simp: prefix_def)
  with h show "mount (ns @ [n']) t m q = None" by (simp add: mount_frame)
qed

lemma reachable_mount: "reachable m ns \<Longrightarrow> \<not> (\<exists>ds. strict_prefix ds ns \<and> prefix ns' ds) \<Longrightarrow> reachable (mount ns' t m) ns"
  unfolding reachable_def using mount_frame by metis

section \<open>Restoring a tree\<close>

lemma map_NarEvent_FileE: "map_NarEvent f e = File n x sz c \<Longrightarrow> (\<And>r. e = File n x sz r \<Longrightarrow> f r = c \<Longrightarrow> P) \<Longrightarrow> P"
  by (cases e) auto

lemma map_NarEvent_SymlinkE: "map_NarEvent f e = Symlink n t \<Longrightarrow> (e = Symlink n t \<Longrightarrow> P) \<Longrightarrow> P"
  by (cases e) auto

lemma map_NarEvent_DirE:
  "map_NarEvent f e = StartDirectory n \<Longrightarrow> (e = StartDirectory n \<Longrightarrow> P) \<Longrightarrow> P"
  "EndDirectory = map_NarEvent f e \<Longrightarrow> (e = EndDirectory \<Longrightarrow> P) \<Longrightarrow> P"
  by (cases e; auto)+

locale restoring = file_system ops node handle fs_err + patient_fill rest good src_err fill consume avail delay
  for ops :: "('fs, 'h) FsOps" and node handle fs_err
    and rest :: "'r \<Rightarrow> bytes" and good src_err fill consume avail delay
begin

text \<open>Errors that are not the restorer's: of the runtime, the file system, or the reader of the contents.\<close>

definition outside_err :: "(nat \<Rightarrow> nat \<times> bool) \<Rightarrow> NarWriteError \<Rightarrow> bool" where
  "outside_err plans e \<longleftrightarrow> we_operation e = JoinError \<and> (\<exists>k. snd (plans k)) \<or> fs_err (we_source e) \<or> src_err (we_source e)"

definition done_as :: "(nat \<Rightarrow> nat \<times> bool) \<Rightarrow> (bytes list \<Rightarrow> FsNode option) \<Rightarrow> ('fs \<times> (NarWriteError + unit)) option \<Rightarrow> bool" where
  "done_as plans m y \<longleftrightarrow> (\<exists>fs x. y = Some (fs, x) \<and> (case x of Inl e \<Rightarrow> outside_err plans e | Inr _ \<Rightarrow> node fs = m))"

lemma outside_write_error: "fs_err e \<or> src_err e \<Longrightarrow> outside_err plans (write_error op p e)"
  by (auto simp: outside_err_def write_error_def)

lemma await_fill:
  assumes "good r"
  shows "\<exists>r' x. await fill r = Some (r', x) \<and> (case x of Inl e \<Rightarrow> src_err e
    | Inr b \<Rightarrow> good r' \<and> rest r' = rest r \<and> b = avail r' \<and> (b = [] \<longrightarrow> rest r = []) \<and> prefix b (rest r))"
proof (rule await_spec [where I = "\<lambda>r'. good r' \<and> rest r' = rest r" and m = delay])
  fix r' assume "good r' \<and> rest r' = rest r"
  then show "\<exists>s' res. fill r' = Some (s', res) \<and> (case res of Pending \<Rightarrow> (good s' \<and> rest s' = rest r) \<and> delay s' < delay r'
      | Ready x \<Rightarrow> case x of Inl e \<Rightarrow> src_err e
        | Inr b \<Rightarrow> good s' \<and> rest s' = rest r \<and> b = avail s' \<and> (b = [] \<longrightarrow> rest r = []) \<and> prefix b (rest r))"
  proof (elim conjE)
    assume g: "good r'" "rest r' = rest r"
    from g(1) show ?thesis by (cases rule: fill_cases) (use g fill_delay [of r'] in \<open>simp_all add: waits_simps\<close>)
  qed
qed (use assms in simp)

lemma copy_file_done:
  assumes "good r" "node fs (handle h) = Some (FsFile ex c)"
  shows "done_as plans ((node fs)(handle h \<mapsto> FsFile ex (c @ rest r))) (copy_file ops fill consume path h r fs)"
  using assms
proof (induction "length (rest r)" arbitrary: r fs c rule: less_induct)
  case less
  obtain r' x where a: "await fill r = Some (r', x)" and x: "case x of Inl e \<Rightarrow> src_err e
    | Inr b \<Rightarrow> good r' \<and> rest r' = rest r \<and> b = avail r' \<and> (b = [] \<longrightarrow> rest r = []) \<and> prefix b (rest r)"
    using await_fill [OF less.prems(1)] by blast
  show ?case
  proof (cases x)
    case (Inl e)
    with a x show ?thesis by (simp add: copy_file.simps [of _ _ _ _ _ r] done_as_def outside_write_error)
  next
    case (Inr b)
    show ?thesis
    proof (cases "b = []")
      case True
      with a x Inr less.prems(2) show ?thesis by (simp add: copy_file.simps [of _ _ _ _ _ r] done_as_def fun_upd_idem)
    next
      case False
      obtain fs' w where w: "fo_write_all ops fs h b = (fs', w)" by (cases "fo_write_all ops fs h b")
      note law = write_all_law [OF less.prems(2) w]
      show ?thesis
      proof (cases w)
        case (Inl e)
        with a w False Inr law show ?thesis by (simp add: copy_file.simps [of _ _ _ _ _ r] done_as_def outside_write_error)
      next
        case (Inr _)
        from \<open>x = Inr b\<close> x have g: "good r'" "rest r' = rest r" "b = avail r'" "prefix b (rest r)" by auto
        obtain r2 where r2: "consume r' (length b) = Some r2" "good r2" "rest r2 = drop (length b) (rest r')"
          using consume_avail [OF g(1), of "length b"] False g(3) by auto
        have "length (rest r2) < length (rest r)" using length_greater_0_conv [of b] False g(2) r2(3) prefix_length_le [OF g(4)] by (simp del: length_greater_0_conv)
        moreover have "node fs' (handle h) = Some (FsFile ex (c @ b))" using law Inr by simp
        ultimately have "done_as plans ((node fs')(handle h \<mapsto> FsFile ex ((c @ b) @ rest r2))) (copy_file ops fill consume path h r2 fs')"
          using less.hyps [OF _ r2(2)] by blast
        moreover have "b @ rest r2 = rest r" using g(2,4) r2(3) by (auto simp: prefix_def)
        ultimately show ?thesis using a w False Inr \<open>x = Inr b\<close> r2(1) law by (simp add: copy_file.simps [of _ _ _ _ _ r])
      qed
    qed
  qed
qed

lemma file_job_done:
  assumes "room_at (node fs) ns" "good r"
  shows "done_as plans ((node fs)(ns \<mapsto> FsFile ex (rest r))) (file_job ops fill consume ex (path_at ns) r fs)"
proof -
  obtain fs1 z where z: "fo_create_new ops fs ex (path_at ns) = (fs1, z)" by (cases "fo_create_new ops fs ex (path_at ns)")
  note law = create_new_law [OF assms(1) z]
  show ?thesis
  proof (cases z)
    case (Inl e)
    with z law show ?thesis by (simp add: file_job_def done_as_def outside_write_error)
  next
    case (Inr h)
    then have h: "node fs1 = (node fs)(ns \<mapsto> FsFile ex [])" "handle h = ns" using law by auto
    then have "node fs1 (handle h) = Some (FsFile ex [])" by simp
    from copy_file_done [OF assms(2) this, where path = "path_at ns" and plans = plans]
    obtain fs2 x where x: "copy_file ops fill consume (path_at ns) h r fs1 = Some (fs2, x)"
      "case x of Inl e \<Rightarrow> outside_err plans e | Inr _ \<Rightarrow> node fs2 = (node fs)(ns \<mapsto> FsFile ex (rest r))" using h by (auto simp: done_as_def)
    obtain fs3 v where v: "fo_flush ops fs2 h = (fs3, v)" by (cases "fo_flush ops fs2 h")
    show ?thesis using z Inr x v flush_law [OF v]
      by (cases x; cases v) (auto simp: file_job_def done_as_def outside_write_error)
  qed
qed

lemma symlink_job_done: "room_at (node fs) ns \<Longrightarrow> done_as plans ((node fs)(ns \<mapsto> FsSymlink target)) (symlink_job ops target (path_at ns) fs)"
proof -
  assume room: "room_at (node fs) ns"
  obtain fs' y where y: "fo_symlink ops fs target (path_at ns) = (fs', y)" by (cases "fo_symlink ops fs target (path_at ns)")
  show ?thesis using symlink_law [OF room y] y by (cases y) (simp_all add: symlink_job_def done_as_def outside_write_error)
qed

lemma dir_job_done: "room_at (node fs) ns \<Longrightarrow> done_as plans ((node fs)(ns \<mapsto> FsDirectory)) (dir_job ops (path_at ns) fs)"
proof -
  assume room: "room_at (node fs) ns"
  obtain fs' y where y: "fo_create_dir ops fs (path_at ns) = (fs', y)" by (cases "fo_create_dir ops fs (path_at ns)")
  show ?thesis using create_dir_law [OF room y] y by (cases y) (simp_all add: dir_job_def done_as_def outside_write_error)
qed

text \<open>The restorer without the case hack, once its task is done, stands at \<open>ds\<close> and the file system is \<open>m\<close>.\<close>

definition settles :: "(nat \<Rightarrow> nat \<times> bool) \<Rightarrow> ('fs, 'l) NarRestorer \<Rightarrow> 'fs \<Rightarrow> bytes list \<Rightarrow> (bytes list \<Rightarrow> FsNode option) \<Rightarrow> bool" where
  "settles plans rs fs ds m \<longleftrightarrow> rs_path rs = path_at ds \<and> \<not> rs_use_case_hack rs \<and> (\<exists>rs' fs' x. restorer_ready rs fs = Some (rs', fs', x) \<and>
     (case x of Inl e \<Rightarrow> outside_err plans e | Inr _ \<Rightarrow> rs' = rs\<lparr>rs_state := None\<rparr> \<and> node fs' = m))"

lemma ready_idle: "rs_state rs = None \<Longrightarrow> restorer_ready rs fs = Some (rs, fs, Inr ())"
  by (subst restorer_ready.simps) (simp add: restorer_poll_ready_def)

lemma ready_waits: "rs_state rs = Some (Running (Suc k) aborted job) \<Longrightarrow> restorer_ready rs fs = restorer_ready (rs\<lparr>rs_state := Some (Running k aborted job)\<rparr>) fs"
  by (subst restorer_ready.simps) (simp add: restorer_poll_ready_def)

lemma ready_aborted: "rs_state rs = Some (Running 0 True job) \<Longrightarrow>
    restorer_ready rs fs = Some (rs\<lparr>rs_state := Some Completed\<rparr>, fs, Inl (write_error JoinError (rs_root rs) (IoError OtherKind ''background task failed'')))"
  by (subst restorer_ready.simps) (simp add: restorer_poll_ready_def)

lemma ready_done: "rs_state rs = Some (Running 0 False job) \<Longrightarrow> job fs = Some (fs', x) \<Longrightarrow>
    restorer_ready rs fs = Some (case x of Inl e \<Rightarrow> rs\<lparr>rs_state := Some Completed\<rparr> | Inr _ \<Rightarrow> rs\<lparr>rs_state := None\<rparr>, fs', x)"
  by (subst restorer_ready.simps) (cases x; simp add: restorer_poll_ready_def)

lemma settles_idle: "rs_state rs = None \<Longrightarrow> rs_path rs = path_at ds \<Longrightarrow> \<not> rs_use_case_hack rs \<Longrightarrow> settles plans rs fs ds (node fs)"
  unfolding settles_def using ready_idle [of rs fs] by (cases rs) simp

lemma settles_job:
  assumes "rs_state rs = Some (Running k aborted job)" "done_as plans m (job fs)" "rs_path rs = path_at ds" "\<not> rs_use_case_hack rs"
    and ab: "aborted \<Longrightarrow> \<exists>k. snd (plans k)"
  shows "settles plans rs fs ds m"
  using assms(1-4)
proof (induction k arbitrary: rs)
  case 0
  show ?case
  proof (cases aborted)
    case True
    then show ?thesis unfolding settles_def using 0 ready_aborted [of rs job fs] ab by (simp add: outside_err_def write_error_def)
  next
    case False
    obtain fs' x where x: "job fs = Some (fs', x)" "case x of Inl e \<Rightarrow> outside_err plans e | Inr _ \<Rightarrow> node fs' = m" using 0(2) by (auto simp: done_as_def)
    have "rs_state rs = Some (Running 0 False job)" using 0(1) False by simp
    from ready_done [OF this x(1)] show ?thesis unfolding settles_def using 0(3,4) x(2) by (cases x) simp_all
  qed
next
  case (Suc k)
  have "settles plans (rs\<lparr>rs_state := Some (Running k aborted job)\<rparr>) fs ds m" using Suc by simp
  with Suc.prems(3,4) show ?case unfolding settles_def ready_waits [OF Suc.prems(1)] by (simp cong: sum.case_cong)
qed

text \<open>From \<open>ds\<close> and \<open>m\<close>, the events lead to \<open>ds'\<close> and \<open>m'\<close>, or to an error from outside.\<close>

definition leads ::
  "(bytes \<Rightarrow> 'l) \<Rightarrow> (nat \<Rightarrow> nat \<times> bool) \<Rightarrow> 'r NarEvent list \<Rightarrow> bytes list \<Rightarrow> (bytes list \<Rightarrow> FsNode option) \<Rightarrow> bytes list \<Rightarrow>
     (bytes list \<Rightarrow> FsNode option) \<Rightarrow> bool" where
  "leads lower plans evs ds m ds' m' \<longleftrightarrow> (\<forall>rs :: ('fs, 'l) NarRestorer. \<forall>fs items. settles plans rs fs ds m \<longrightarrow>
     (\<exists>fs' e. restore_events ops fill consume lower plans rs fs (map Inr evs @ items) = Some (fs', Inl e) \<and> outside_err plans e) \<or>
     (\<exists>rs' fs'. restore_events ops fill consume lower plans rs fs (map Inr evs @ items) = restore_events ops fill consume lower plans rs' fs' items \<and>
        settles plans rs' fs' ds' m'))"

lemma leads_Nil: "leads lower plans [] ds m ds m"
  by (auto simp: leads_def)

lemma leads_append:
  assumes "leads lower plans evs ds m ds' m'" "leads lower plans evs' ds' m' ds'' m''"
  shows "leads lower plans (evs @ evs') ds m ds'' m''"
  unfolding leads_def
proof (intro allI impI)
  fix rs :: "('fs, 'a) NarRestorer" and fs items assume "settles plans rs fs ds m"
  with assms(1) consider (bad) fs' e where "restore_events ops fill consume lower plans rs fs (map Inr evs @ map Inr evs' @ items) = Some (fs', Inl e)" "outside_err plans e"
    | (fine) rs' fs' where "restore_events ops fill consume lower plans rs fs (map Inr evs @ map Inr evs' @ items) =
        restore_events ops fill consume lower plans rs' fs' (map Inr evs' @ items)" "settles plans rs' fs' ds' m'"
    unfolding leads_def by blast
  then show "(\<exists>fs' e. restore_events ops fill consume lower plans rs fs (map Inr (evs @ evs') @ items) = Some (fs', Inl e) \<and> outside_err plans e) \<or>
     (\<exists>rs' fs'. restore_events ops fill consume lower plans rs fs (map Inr (evs @ evs') @ items) = restore_events ops fill consume lower plans rs' fs' items \<and>
        settles plans rs' fs' ds'' m'')"
  proof cases
    case bad
    then show ?thesis by auto
  next
    case fine
    then show ?thesis using assms(2) unfolding leads_def by (metis append_assoc map_append)
  qed
qed

lemma leads_event:
  assumes "\<And>rs :: ('fs, 'l) NarRestorer. \<And>fs n. rs_state rs = None \<Longrightarrow> rs_path rs = path_at ds \<Longrightarrow> \<not> rs_use_case_hack rs \<Longrightarrow> node fs = m \<Longrightarrow>
    \<exists>rs'. restorer_start_send ops fill consume lower (plans n) rs ev = Some rs' \<and> settles plans rs' fs ds' m'"
  shows "leads lower plans [ev] ds m ds' m'"
  unfolding leads_def
proof (intro allI impI)
  fix rs :: "('fs, 'l) NarRestorer" and fs items assume "settles plans rs fs ds m"
  then obtain rs1 fs1 x where r: "restorer_ready rs fs = Some (rs1, fs1, x)" "rs_path rs = path_at ds" "\<not> rs_use_case_hack rs"
    "case x of Inl e \<Rightarrow> outside_err plans e | Inr _ \<Rightarrow> rs1 = rs\<lparr>rs_state := None\<rparr> \<and> node fs1 = m" unfolding settles_def by blast
  show "(\<exists>fs' e. restore_events ops fill consume lower plans rs fs (map Inr [ev] @ items) = Some (fs', Inl e) \<and> outside_err plans e) \<or>
     (\<exists>rs' fs'. restore_events ops fill consume lower plans rs fs (map Inr [ev] @ items) = restore_events ops fill consume lower plans rs' fs' items \<and>
        settles plans rs' fs' ds' m')"
  proof (cases x)
    case (Inl e)
    with r show ?thesis by auto
  next
    case (Inr _)
    obtain rs' where "restorer_start_send ops fill consume lower (plans (length items)) rs1 ev = Some rs'" "settles plans rs' fs1 ds' m'"
      using assms [of rs1 fs1 "length items"] r Inr by auto
    with r(1) Inr show ?thesis by auto
  qed
qed

lemma leads_file:
  assumes "room_at m ns" "join_name (path_at ds) n = path_at ns" "good r"
  shows "leads lower plans [File n x sz r] ds m ds (m(ns \<mapsto> FsFile x (rest r)))"
proof (rule leads_event)
  fix rs :: "('fs, 'a) NarRestorer" and fs k
  assume h: "rs_state rs = None" "rs_path rs = path_at ds" "\<not> rs_use_case_hack rs" "node fs = m"
  let ?rs = "rs\<lparr>rs_state := Some (spawn_blocking (plans k) (file_job ops fill consume x (path_at ns) r))\<rparr>"
  have "settles plans ?rs fs ds (m(ns \<mapsto> FsFile x (rest r)))"
    using file_job_done [where fs = fs and ns = ns and r = r and ex = x and plans = plans] assms(1,3) h by (cases "plans k") (auto simp: spawn_blocking_def intro!: settles_job exI [of _ k])
  then show "\<exists>rs'. restorer_start_send ops fill consume lower (plans k) rs (File n x sz r) = Some rs' \<and> settles plans rs' fs ds (m(ns \<mapsto> FsFile x (rest r)))"
    using h assms(2) by (simp add: restorer_start_send_def restorer_name_def)
qed

lemma leads_symlink:
  assumes "room_at m ns" "join_name (path_at ds) n = path_at ns"
  shows "leads lower plans [Symlink n target] ds m ds (m(ns \<mapsto> FsSymlink target))"
proof (rule leads_event)
  fix rs :: "('fs, 'a) NarRestorer" and fs k
  assume h: "rs_state rs = None" "rs_path rs = path_at ds" "\<not> rs_use_case_hack rs" "node fs = m"
  let ?rs = "rs\<lparr>rs_state := Some (spawn_blocking (plans k) (symlink_job ops target (path_at ns)))\<rparr>"
  have "settles plans ?rs fs ds (m(ns \<mapsto> FsSymlink target))"
    using symlink_job_done [where fs = fs and ns = ns and target = target and plans = plans] assms(1) h by (cases "plans k") (auto simp: spawn_blocking_def intro!: settles_job exI [of _ k])
  then show "\<exists>rs'. restorer_start_send ops fill consume lower (plans k) rs (Symlink n target) = Some rs' \<and> settles plans rs' fs ds (m(ns \<mapsto> FsSymlink target))"
    using h assms(2) by (simp add: restorer_start_send_def restorer_name_def)
qed

lemma leads_start:
  assumes "room_at m ns" "join_name (path_at ds) n = path_at ns"
  shows "leads lower plans [StartDirectory n] ds m ns (m(ns \<mapsto> FsDirectory))"
proof (rule leads_event)
  fix rs :: "('fs, 'a) NarRestorer" and fs k
  assume h: "rs_state rs = None" "rs_path rs = path_at ds" "\<not> rs_use_case_hack rs" "node fs = m"
  let ?rs = "rs\<lparr>rs_path := path_at ns, rs_state := Some (spawn_blocking (plans k) (dir_job ops (path_at ns)))\<rparr>"
  have "settles plans ?rs fs ns (m(ns \<mapsto> FsDirectory))"
    using dir_job_done [where fs = fs and ns = ns and plans = plans] assms(1) h by (cases "plans k") (auto simp: spawn_blocking_def intro!: settles_job exI [of _ k])
  then show "\<exists>rs'. restorer_start_send ops fill consume lower (plans k) rs (StartDirectory n) = Some rs' \<and> settles plans rs' fs ns (m(ns \<mapsto> FsDirectory))"
    using h assms(2) by (simp add: restorer_start_send_def restorer_name_def Let_def)
qed

lemma leads_end: "leads lower plans [EndDirectory] ds m (butlast ds) m"
proof (rule leads_event)
  fix rs :: "('fs, 'a) NarRestorer" and fs k
  assume h: "rs_state rs = None" "rs_path rs = path_at ds" "\<not> rs_use_case_hack rs" "node fs = m"
  then show "\<exists>rs'. restorer_start_send ops fill consume lower (plans k) rs EndDirectory = Some rs' \<and> settles plans rs' fs (butlast ds) m"
    using settles_idle [where rs = "rs\<lparr>rs_path := path_at (butlast ds)\<rparr>" and ds = "butlast ds" and fs = fs and plans = plans] by (simp add: restorer_start_send_def path_pop_def)
qed

text \<open>The events of a tree, at its place.\<close>

lemma room_for: "reachable m ns \<Longrightarrow> ns \<noteq> [] \<Longrightarrow> free_below m ns \<Longrightarrow> room_at m ns"
  by (simp add: room_at_def free_below_def)

lemma reachable_child: "reachable m ns \<Longrightarrow> plain_name n \<Longrightarrow> m ns = Some FsDirectory \<Longrightarrow> reachable m (ns @ [n])"
  by (auto simp: reachable_def strict_prefix_def)

lemma reachable_upd: "reachable m ns \<Longrightarrow> reachable (m(ns \<mapsto> x)) ns"
  by (auto simp: reachable_def strict_prefix_def)

lemma leads_entries:
  assumes tree: "\<And>n t evs m. (n, t) \<in> set es \<Longrightarrow> plain_name n \<Longrightarrow> nar_plain t \<Longrightarrow> reachable m (ns @ [n]) \<Longrightarrow> free_below m (ns @ [n]) \<Longrightarrow>
      map (map_NarEvent rest) evs = nar_events n t \<Longrightarrow> list_all (pred_NarEvent good) evs \<Longrightarrow> leads lower plans evs ns m ns (mount (ns @ [n]) t m)"
    and "distinct (map fst es)" "list_all (\<lambda>(n, t). plain_name n \<and> nar_plain t) es" "reachable m ns" "m ns = Some FsDirectory"
    and "\<And>n t. (n, t) \<in> set es \<Longrightarrow> free_below m (ns @ [n])"
    and "map (map_NarEvent rest) evs = concat (map (\<lambda>(n, t). nar_events n t) es)" "list_all (pred_NarEvent good) evs"
  shows "leads lower plans evs ns m ns (mount_entries ns es m)"
  using assms
proof (induction es arbitrary: evs m)
  case Nil
  then show ?case by (simp add: leads_Nil)
next
  case (Cons e es)
  obtain n t where e: "e = (n, t)" by (cases e)
  obtain evs1 evs2 where evs: "evs = evs1 @ evs2" "map (map_NarEvent rest) evs1 = nar_events n t"
    "map (map_NarEvent rest) evs2 = concat (map (\<lambda>(n, t). nar_events n t) es)"
    using Cons.prems(7) by (auto simp: e map_eq_append_conv)
  have p: "plain_name n" "nar_plain t" using Cons.prems(3) by (simp_all add: e)
  let ?m = "mount (ns @ [n]) t m"
  have 1: "leads lower plans evs1 ns m ns ?m"
  proof (rule Cons.prems(1))
    show "reachable m (ns @ [n])" using Cons.prems(4,5) p(1) by (intro reachable_child)
    show "free_below m (ns @ [n])" using Cons.prems(6) [of n t] by (simp add: e)
  qed (use Cons.prems(8) p evs in \<open>simp_all add: e\<close>)
  have np: "\<not> prefix (ns @ [n]) ns" by (auto simp: prefix_def)
  have m: "?m ns = Some FsDirectory" "reachable ?m ns"
    using Cons.prems(4,5) np mount_frame [OF np] by (auto intro!: reachable_mount simp: strict_prefix_def dest: prefix_order.trans)
  have "free_below ?m (ns @ [n'])" if "(n', t') \<in> set es" for n' t'
  proof (rule free_below_sibling)
    show "free_below m (ns @ [n'])" using that Cons.prems(6) by auto
    show "n' \<noteq> n" using that Cons.prems(2) by (force simp: e)
  qed
  then have "leads lower plans evs2 ns ?m ns (mount_entries ns es ?m)"
    using Cons.prems m evs by (intro Cons.IH) (auto simp: e)
  from leads_append [OF 1 this] show ?case by (simp add: evs(1) e)
qed

lemma leads_tree:
  assumes "nar_plain t" "join_name (path_at ds) n = path_at ns" "ns \<noteq> []" "reachable m ns" "free_below m ns"
    and "map (map_NarEvent rest) evs = nar_events n t" "list_all (pred_NarEvent good) evs"
  shows "leads lower plans evs ds m (if is_directory t then butlast ns else ds) (mount ns t m)"
  using assms
proof (induction t arbitrary: ds n ns m evs rule: nar.induct)
  case (NarFile x c)
  then obtain r where "evs = [File n x (word_of_nat (length c)) r]" "rest r = c" "good r" by (auto simp: map_eq_Cons_conv elim!: map_NarEvent_FileE)
  then show ?case using leads_file [OF room_for [OF NarFile.prems(4,3,5)] NarFile.prems(2), of r] by (simp add: fun_upd_def)
next
  case (NarSymlink t)
  then have "evs = [Symlink n t]" by (auto simp: map_eq_Cons_conv elim!: map_NarEvent_SymlinkE)
  then show ?case using leads_symlink [OF room_for [OF NarSymlink.prems(4,3,5)] NarSymlink.prems(2)] by (simp add: fun_upd_def)
next
  case (NarDirectory es)
  obtain mid where evs: "evs = StartDirectory n # mid @ [EndDirectory]" "map (map_NarEvent rest) mid = concat (map (\<lambda>(n, t). nar_events n t) es)"
    using NarDirectory.prems(6) by (auto simp: map_eq_Cons_conv map_eq_append_conv elim!: map_NarEvent_DirE)
  let ?m = "m(ns \<mapsto> FsDirectory)"
  have start: "leads lower plans [StartDirectory n] ds m ns ?m"
    by (rule leads_start [OF room_for [OF NarDirectory.prems(4,3,5)] NarDirectory.prems(2)])
  have mid: "leads lower plans mid ns ?m ns (mount_entries ns es ?m)"
  proof (rule leads_entries)
    fix n' t' evs' m' assume h: "(n', t') \<in> set es" "plain_name n'" "nar_plain t'" "reachable m' (ns @ [n'])" "free_below m' (ns @ [n'])"
      "map (map_NarEvent rest) evs' = nar_events n' t'" "list_all (pred_NarEvent good) evs'"
    have "join_name (path_at ns) n' = path_at (ns @ [n'])" using h(2) by (simp add: join_name_def join_plain plain_name_def)
    from NarDirectory.IH [OF h(1) _ h(3) this _ h(4-7)] show "leads lower plans evs' ns m' ns (mount (ns @ [n']) t' m')"
      by (cases "is_directory t'") simp_all
  qed (use NarDirectory.prems evs in \<open>auto intro: reachable_upd free_below_child\<close>)
  from leads_append [OF leads_append [OF start mid] leads_end] show ?case by (simp add: evs(1))
qed

lemma ends:
  assumes "leads lower plans evs root (node fs) ds m"
  shows "\<exists>fs' x. restore ops fill consume lower plans False (path_at root) fs (map Inr evs) = Some (fs', x) \<and>
    (case x of Inl e \<Rightarrow> we_operation e = JoinError \<and> (\<exists>k. snd (plans k)) \<or> fs_err (we_source e) \<or> src_err (we_source e) | Inr _ \<Rightarrow> node fs' = m)"
proof -
  let ?rs = "new_restorer (path_at root) False :: ('fs, 'a) NarRestorer"
  have "settles plans ?rs fs root (node fs)" by (rule settles_idle) (simp_all add: new_restorer_def)
  then consider (bad) fs' e where "restore_events ops fill consume lower plans ?rs fs (map Inr evs @ []) = Some (fs', Inl e)" "outside_err plans e"
    | (fine) rs' fs' where "restore_events ops fill consume lower plans ?rs fs (map Inr evs @ []) = restore_events ops fill consume lower plans rs' fs' []"
        "settles plans rs' fs' ds m" using assms unfolding leads_def by blast
  then show ?thesis
  proof cases
    case bad
    then show ?thesis by (simp add: restore_def outside_err_def)
  next
    case fine
    from fine(2) obtain rs'' fs'' x where "restorer_ready rs' fs' = Some (rs'', fs'', x)"
      "case x of Inl e \<Rightarrow> outside_err plans e | Inr _ \<Rightarrow> rs'' = rs'\<lparr>rs_state := None\<rparr> \<and> node fs'' = m" unfolding settles_def by blast
    with fine(1) show ?thesis by (cases x) (simp_all add: restore_def outside_err_def)
  qed
qed

lemma restored:
  assumes "nar_plain t" "root \<noteq> []" "reachable (node fs) root" "free_below (node fs) root"
    and "map (map_NarEvent rest) evs = nar_events [] t" "list_all (pred_NarEvent good) evs"
  shows "\<exists>fs' x. restore ops fill consume lower plans False (path_at root) fs (map Inr evs) = Some (fs', x) \<and>
    (case x of Inl e \<Rightarrow> we_operation e = JoinError \<and> (\<exists>k. snd (plans k)) \<or> fs_err (we_source e) \<or> src_err (we_source e) | Inr _ \<Rightarrow> node fs' = mount root t (node fs))"
  by (rule ends [OF leads_tree]) (use assms in \<open>simp_all add: join_name_def\<close>)

text \<open>A directory with a single file, whose name is the text of a path elsewhere.\<close>

lemma escaped:
  assumes "root \<noteq> []" "reachable (node fs) root" "free_below (node fs) root"
    and "ns \<noteq> []" "\<not> prefix root ns" "reachable (node fs) ns" "node fs ns = None" "good r"
  shows "\<exists>fs' y. restore ops fill consume lower plans False (path_at root) fs (map Inr [StartDirectory [], File (path_bytes ns) x sz r, EndDirectory]) = Some (fs', y) \<and>
    (case y of Inl e \<Rightarrow> we_operation e = JoinError \<and> (\<exists>k. snd (plans k)) \<or> fs_err (we_source e) \<or> src_err (we_source e)
     | Inr _ \<Rightarrow> node fs' = (node fs)(root \<mapsto> FsDirectory, ns \<mapsto> FsFile x (rest r)))"
proof (rule ends)
  let ?m = "(node fs)(root \<mapsto> FsDirectory)"
  have start: "leads lower plans [StartDirectory []] root (node fs) root ?m"
    by (rule leads_start) (use assms in \<open>simp_all add: join_name_def room_for\<close>)
  have "path_bytes ns \<noteq> []" using assms(4) by (cases ns) (simp_all add: path_bytes_def)
  then have "join_name (path_at root) (path_bytes ns) = path_at ns" using assms(4,6) by (simp add: join_name_def join_absolute reachable_def)
  moreover have "room_at ?m ns" using assms(4-7) by (auto simp: room_at_def reachable_def)
  ultimately have put: "leads lower plans [File (path_bytes ns) x sz r] root ?m root (?m(ns \<mapsto> FsFile x (rest r)))"
    using assms(8) by (intro leads_file)
  from leads_append [OF start leads_append [OF put leads_end]]
  show "leads lower plans [StartDirectory [], File (path_bytes ns) x sz r, EndDirectory] root (node fs) (butlast root) (?m(ns \<mapsto> FsFile x (rest r)))" by simp
qed

end

text \<open>
  C9. Restoring. Given the events of an archive whose names are plain and distinct, whatever the runtime does with its tasks and however the contents of the
  files arrive, \<open>restore\<close> always ends. If it succeeds, the file system has exactly the tree of the archive at the given path and is otherwise
  unchanged; if it fails, then because a task was aborted, or the file system or a reader failed. The path
  must be free and its parent a directory.
\<close>

theorem restore_makes_tree:
  fixes lower :: "bytes \<Rightarrow> 'l"
  assumes "restoring ops node handle fs_err rest good src_err fill consume avail delay"
    and "nar_plain t" "root \<noteq> []" "reachable (node fs) root" "free_below (node fs) root"
    and "map (map_NarEvent rest) evs = nar_events [] t" "list_all (pred_NarEvent good) evs"
  shows "\<exists>fs' x. restore ops fill consume lower plans False (path_at root) fs (map Inr evs) = Some (fs', x) \<and>
    (case x of Inl e \<Rightarrow> we_operation e = JoinError \<and> (\<exists>k. snd (plans k)) \<or> fs_err (we_source e) \<or> src_err (we_source e) | Inr _ \<Rightarrow> node fs' = mount root t (node fs))"
  by (rule restoring.restored [OF assms])

interpretation mem_restoring: restoring mem_ops map_of "\<lambda>h. h" "\<lambda>_. False" cursor_rest cursor_good "\<lambda>_. False"
    "op_fill cursor_ops" "op_consume cursor_ops" cursor_rest "\<lambda>_. 0"
  by (intro restoring.intro memfs.file_system_axioms pcursor.patient_fill_axioms)

text \<open>A file system with the directories \<open>/\<close> and \<open>/s\<close>.\<close>

definition bare_fs :: MemFs where
  "bare_fs = [([[0x73]], FsDirectory), ([], FsDirectory)]"

lemma bare_fs_reachable: "reachable (map_of bare_fs) [[0x73], [0x6E]]" "reachable (map_of bare_fs) [[0x65]]"
  by (auto simp: reachable_def bare_fs_def plain_name_def strict_prefix_def prefix_Cons)

lemma bare_fs_free: "free_below (map_of bare_fs) [[0x73], [0x6E]]" "free_below (map_of bare_fs) [[0x65]]"
  by (auto simp: free_below_def bare_fs_def)

theorem restore_makes_tree_witness:
  "\<exists>fs'. restore mem_ops (op_fill cursor_ops) (op_consume cursor_ops) (\<lambda>b. b) (\<lambda>_. (2, False)) False (path_at [[0x73], [0x6E]]) bare_fs
      (map Inr [StartDirectory [], File [0x61] True 2 \<lparr>cdata = [7, 8], cpos = 0\<rparr>, EndDirectory]) = Some (fs', Inr ()) \<and>
    map_of fs' [[0x73], [0x6E], [0x61]] = Some (FsFile True [7, 8])"
proof -
  let ?t = "NarDirectory [([0x61], NarFile True [7, 8])]"
  let ?evs = "[StartDirectory [], File [0x61] True 2 \<lparr>cdata = [7, 8], cpos = 0\<rparr>, EndDirectory]"
  have p: "nar_plain ?t" by (simp add: plain_name_def)
  have e: "map (map_NarEvent cursor_rest) ?evs = nar_events [] ?t" "list_all (pred_NarEvent cursor_good) ?evs"
    by (simp_all add: cursor_rest_def cursor_good_def)
  obtain fs' x where r: "restore mem_ops (op_fill cursor_ops) (op_consume cursor_ops) (\<lambda>b. b) (\<lambda>_. (2, False)) False (path_at [[0x73], [0x6E]]) bare_fs (map Inr ?evs) = Some (fs', x)"
    "case x of Inl e \<Rightarrow> False | Inr _ \<Rightarrow> map_of fs' = mount [[0x73], [0x6E]] ?t (map_of bare_fs)"
    using restore_makes_tree [OF mem_restoring.restoring_axioms p _ bare_fs_reachable(1) bare_fs_free(1) e, where lower = "\<lambda>b. b" and plans = "\<lambda>_. (2, False)"]
    by (auto cong: sum.case_cong)
  then show ?thesis by (cases x) (auto intro!: exI [of _ fs'])
qed

text \<open>
  C39. The restorer does not keep to the path it is given. The parser hands on entry names of any form, and the restorer joins them to its path as they are, so that an absolute
  name replaces the path: an archive with one entry, whose name is the text of a path elsewhere, makes a file there.
\<close>

theorem restore_escapes_root:
  fixes lower :: "bytes \<Rightarrow> 'l"
  assumes "restoring ops node handle fs_err rest good src_err fill consume avail delay"
    and "root \<noteq> []" "reachable (node fs) root" "free_below (node fs) root"
    and "ns \<noteq> []" "\<not> prefix root ns" "reachable (node fs) ns" "node fs ns = None" "good r" "fits (path_bytes ns)" "fits (rest r)"
  shows "(\<exists>np. parses cursor_ops (parser_new \<lparr>cdata = nar_bytes (NarDirectory [(path_bytes ns, NarFile x (rest r))]), cpos = 0\<rparr>)
      [StartDirectory [], File (path_bytes ns) x (word_of_nat (length (rest r))) (rest r), EndDirectory] np) \<and>
    (\<exists>fs' y. restore ops fill consume lower plans False (path_at root) fs
        (map Inr [StartDirectory [], File (path_bytes ns) x (word_of_nat (length (rest r))) r, EndDirectory]) = Some (fs', y) \<and>
      (case y of Inl e \<Rightarrow> we_operation e = JoinError \<and> (\<exists>k. snd (plans k)) \<or> fs_err (we_source e) \<or> src_err (we_source e)
       | Inr _ \<Rightarrow> node fs' = (node fs)(root \<mapsto> FsDirectory, ns \<mapsto> FsFile x (rest r))))"
proof
  let ?t = "NarDirectory [(path_bytes ns, NarFile x (rest r))]" and ?c = "\<lparr>cdata = nar_bytes (NarDirectory [(path_bytes ns, NarFile x (rest r))]), cpos = 0\<rparr>"
  have "parser_at cursor_rest cursor_good [] (parser_new ?c) (nar_events [] ?t)"
    using assms(10,11) by (intro cursor.parser_new_at) (simp_all add: cursor_good_def cursor_rest_def)
  from pcursor.parses_total [OF this] show "\<exists>np. parses cursor_ops (parser_new ?c)
      [StartDirectory [], File (path_bytes ns) x (word_of_nat (length (rest r))) (rest r), EndDirectory] np" by simp
qed (rule restoring.escaped [OF assms(1-9)])

theorem restore_escapes_root_witness:
  "\<exists>fs'. restore mem_ops (op_fill cursor_ops) (op_consume cursor_ops) (\<lambda>b. b) (\<lambda>_. (2, False)) False (path_at [[0x73], [0x6E]]) bare_fs
      (map Inr [StartDirectory [], File [0x2F, 0x65] True 1 \<lparr>cdata = [7], cpos = 0\<rparr>, EndDirectory]) = Some (fs', Inr ()) \<and>
    map_of fs' [[0x65]] = Some (FsFile True [7])"
proof -
  let ?r = "\<lparr>cdata = [7], cpos = 0\<rparr> :: Cursor"
  have h: "\<not> prefix [[0x73], [0x6E]] [[0x65 :: 8 word]]" "map_of bare_fs [[0x65]] = None" "cursor_good ?r" "fits (path_bytes [[0x65]])" "fits (cursor_rest ?r)"
    by (simp_all add: bare_fs_def cursor_good_def cursor_rest_def fits_def path_bytes_def)
  obtain fs' y where r: "restore mem_ops (op_fill cursor_ops) (op_consume cursor_ops) (\<lambda>b. b) (\<lambda>_. (2, False)) False (path_at [[0x73], [0x6E]]) bare_fs
      (map Inr [StartDirectory [], File [0x2F, 0x65] True 1 ?r, EndDirectory]) = Some (fs', y)"
    "case y of Inl e \<Rightarrow> False | Inr _ \<Rightarrow> map_of fs' = (map_of bare_fs)([[0x73], [0x6E]] \<mapsto> FsDirectory, [[0x65]] \<mapsto> FsFile True [7])"
    using restore_escapes_root [OF mem_restoring.restoring_axioms _ bare_fs_reachable(1) bare_fs_free(1) _ h(1) bare_fs_reachable(2) h(2-5),
        where lower = "\<lambda>b. b" and plans = "\<lambda>_. (2, False)" and x = True, THEN conjunct2]
    by (auto simp: path_bytes_def cursor_rest_def cong: sum.case_cong)
  then show ?thesis by (cases y) (auto intro!: exI [of _ fs'])
qed

end
