(* ===== verification/Nar_Dumper.thy ===== *)
theory Nar_Dumper
  imports Nar_Restorer "HOL-Library.List_Lexorder"
begin

text \<open>
  The dumper of archives (\<open>harmonia-nar/src/archive/dumper.rs\<close>): a stream of events made from a directory. The crate \<open>walkdir\<close> is a parameter (\<open>Walk\<close>) with its
  documented order as a contract (\<open>walk_dir\<close>), and so is tokio's semaphore (\<open>permits\<close>). The dumper asks for the entries in chunks, in blocking tasks, and makes events of
  them by comparing their paths; the contents of a file are read when its reader is polled for the first time. The \<open>BufReader\<close> of tokio around the reader is left out.

  The facts: the dumper is simulated by \<open>emits\<close>, which makes events of a list of entries; over a directory with the tree of an archive it yields the archive's
  events, in the order of the names and without the suffixes of the case hack; each reader yields the contents of its file; and dumping what was restored gives
  the events that were restored.
\<close>

section \<open>Names\<close>

datatype Ordering = Less | Equal | Greater

definition byte_cmp :: "bytes \<Rightarrow> bytes \<Rightarrow> Ordering" where
  "byte_cmp a b = (if a < b then Less else if a = b then Equal else Greater)"

fun rfind :: "bytes \<Rightarrow> bytes \<Rightarrow> nat option" where
  "rfind needle [] = (if needle = [] then Some 0 else None)"
| "rfind needle (b # bs) = (case rfind needle bs of Some p \<Rightarrow> Some (p + 1) | None \<Rightarrow> if prefix needle (b # bs) then Some 0 else None)"

definition remove_case_hack_osstr :: "bytes \<Rightarrow> bytes option" where
  "remove_case_hack_osstr name = map_option (\<lambda>pos. take pos name) (rfind (as_bytes CASE_HACK_SUFFIX) name)"

definition sort_case_hack :: "bytes \<Rightarrow> bytes \<Rightarrow> Ordering" where
  "sort_case_hack left right =
     byte_cmp (case remove_case_hack_osstr left of Some n \<Rightarrow> n | None \<Rightarrow> left) (case remove_case_hack_osstr right of Some n \<Rightarrow> n | None \<Rightarrow> right)"

definition remove_case_hack :: "bytes \<Rightarrow> bytes" where
  "remove_case_hack name = (case rfind (as_bytes CASE_HACK_SUFFIX) name of Some pos \<Rightarrow> take pos name | None \<Rightarrow> name)"

section \<open>The contents of a file\<close>

definition SMALL_FILE_THRESHOLD :: u64 where
  "SMALL_FILE_THRESHOLD = 256 * 1024"

datatype FileData = InMemory bytes | Mapped bytes

fun fd_as_slice :: "FileData \<Rightarrow> bytes" where
  "fd_as_slice (InMemory v) = v"
| "fd_as_slice (Mapped m) = m"

text \<open>\<open>acquire\<close> is \<open>poll_acquire\<close> of the semaphore: \<open>None\<close> when it is closed.\<close>

datatype ('fs, 's) DumpedFile =
    WaitPermit 's "(PathBuf \<times> u64) option"
  | OpenFile "('fs, FileData io_result) JoinHandle"
  | Reading FileData nat
  | DumpedEof

definition dumped_new :: "PathBuf \<Rightarrow> u64 \<Rightarrow> 's \<Rightarrow> ('fs, 's) DumpedFile" where
  "dumped_new path sz semaphore = WaitPermit semaphore (Some (path, sz))"

definition open_job :: "('fs, 'h) FsOps \<Rightarrow> PathBuf \<Rightarrow> u64 \<Rightarrow> 'fs \<Rightarrow> ('fs \<times> FileData io_result) option" where
  "open_job ops path sz fs =
     Some (fs, if sz \<le> SMALL_FILE_THRESHOLD then result_map InMemory (fo_read ops fs path) else result_map Mapped (mapped_open ops fs path sz))"

fun dumped_steps :: "('fs, 's) DumpedFile \<Rightarrow> nat" where
  "dumped_steps (WaitPermit _ _) = 2"
| "dumped_steps (OpenFile _) = 1"
| "dumped_steps _ = 0"

text \<open>The tasks of the dumper leave the file system as it is.\<close>

function dumped_poll_read ::
  "('fs, 'h) FsOps \<Rightarrow> ('s \<Rightarrow> 's \<times> unit option poll) \<Rightarrow> nat \<times> bool \<Rightarrow> 'fs \<Rightarrow> ('fs, 's) DumpedFile \<Rightarrow> nat \<Rightarrow> (('fs, 's) DumpedFile, bytes) polled" where
  "dumped_poll_read ops acquire sched fs df cap =
     (case df of
        WaitPermit semaphore f \<Rightarrow>
          (case acquire semaphore of
             (semaphore, Pending) \<Rightarrow> Some (WaitPermit semaphore f, Pending)
           | (semaphore, Ready (Some _)) \<Rightarrow>
               (case f of
                  None \<Rightarrow> None
                | Some (path, sz) \<Rightarrow> dumped_poll_read ops acquire sched fs (OpenFile (spawn_blocking sched (open_job ops path sz))) cap)
           | (semaphore, Ready None) \<Rightarrow> Some (DumpedEof, Ready (Inl (IoError BrokenPipe ''semaphore closed''))))
      | OpenFile handle \<Rightarrow>
          (case join_poll handle fs of
             None \<Rightarrow> None
           | Some (handle, _, Pending) \<Rightarrow> Some (OpenFile handle, Pending)
           | Some (handle, _, Ready (Inr (Inr data))) \<Rightarrow> dumped_poll_read ops acquire sched fs (Reading data 0) cap
           | Some (handle, _, Ready (Inr (Inl err))) \<Rightarrow> Some (DumpedEof, Ready (Inl err))
           | Some (handle, _, Ready (Inl _)) \<Rightarrow> Some (DumpedEof, Ready (Inl (IoError BrokenPipe ''spawned task failed''))))
      | Reading data offset \<Rightarrow>
          (let remaining = drop offset (fd_as_slice data) in
           if remaining = [] then Some (DumpedEof, Ready (Inr []))
           else let to_copy = min (length remaining) cap
                in Some (Reading data (offset + to_copy), Ready (Inr (take to_copy remaining))))
      | DumpedEof \<Rightarrow> Some (DumpedEof, Ready (Inr [])))"
  by pat_completeness auto
termination
  by (relation "measure (\<lambda>(ops, acquire, sched, fs, df, cap). dumped_steps df)") auto

declare dumped_poll_read.simps [simp del]

section \<open>The entries of a directory\<close>

record ('fs, 'w) Walk =
  wk_new :: "'fs \<Rightarrow> (bytes \<Rightarrow> bytes \<Rightarrow> Ordering) \<Rightarrow> PathBuf \<Rightarrow> 'w"
  wk_next :: "'w \<Rightarrow> 'fs \<Rightarrow> 'w \<times> PathBuf io_result option"

datatype DumpEntry = EntryFile PathBuf u64 bool | EntrySymlink PathBuf bytes | EntryDirectory PathBuf

fun entry_path :: "DumpEntry \<Rightarrow> PathBuf" where
  "entry_path (EntryFile path sz executable) = path"
| "entry_path (EntrySymlink path target) = path"
| "entry_path (EntryDirectory path) = path"

definition CHUNK_SIZE :: nat where "CHUNK_SIZE = 25"
definition OPEN_FILES :: nat where "OPEN_FILES = 100"

definition to_entry :: "('fs, 'h) FsOps \<Rightarrow> 'fs \<Rightarrow> PathBuf \<Rightarrow> DumpEntry io_result" where
  "to_entry ops fs path =
     result_bind (fo_metadata ops fs path) (\<lambda>m. case m of
        IsDir \<Rightarrow> Inr (EntryDirectory path)
      | IsFile sz executable \<Rightarrow> Inr (EntryFile path sz executable)
      | IsSymlink \<Rightarrow> result_map (EntrySymlink path) (fo_read_link ops fs path)
      | IsOther \<Rightarrow> Inl (IoError OtherKind ''unsupported file type''))"

fun next_chunk :: "('fs, 'h) FsOps \<Rightarrow> ('fs, 'w) Walk \<Rightarrow> 'fs \<Rightarrow> nat \<Rightarrow> DumpEntry io_result list \<Rightarrow> 'w \<Rightarrow> DumpEntry io_result list \<times> 'w \<times> bool" where
  "next_chunk ops walk fs 0 buf walker = (buf, walker, True)"
| "next_chunk ops walk fs (Suc n) buf walker =
     (case wk_next walk walker fs of
        (walker, Some res) \<Rightarrow> next_chunk ops walk fs n (buf @ [result_bind res (to_entry ops fs)]) walker
      | (walker, None) \<Rightarrow> (buf, walker, False))"

type_synonym 'w chunk = "DumpEntry io_result list \<times> 'w \<times> bool"

datatype ('fs, 'w) DumpState = IdleState "'w chunk option" | PendingState "('fs, 'w chunk) JoinHandle"

partial_function (option) state_poll_next ::
  "('fs, 'h) FsOps \<Rightarrow> ('fs, 'w) Walk \<Rightarrow> nat \<times> bool \<Rightarrow> 'fs \<Rightarrow> ('fs, 'w) DumpState \<Rightarrow> (('fs, 'w) DumpState \<times> DumpEntry io_result option poll) option" where
  "state_poll_next ops walk sched fs st =
     (case st of
        IdleState None \<Rightarrow> None
      | IdleState (Some (entry # buf, walker, remain)) \<Rightarrow> Some (IdleState (Some (buf, walker, remain)), Ready (Some entry))
      | IdleState (Some ([], walker, remain)) \<Rightarrow>
          if \<not> remain then Some (st, Ready None)
          else state_poll_next ops walk sched fs (PendingState (spawn_blocking sched (\<lambda>fs. Some (fs, next_chunk ops walk fs CHUNK_SIZE [] walker))))
      | PendingState handler \<Rightarrow>
          (case join_poll handler fs of
             None \<Rightarrow> None
           | Some (handler, _, Pending) \<Rightarrow> Some (PendingState handler, Pending)
           | Some (handler, _, Ready (Inl _)) \<Rightarrow> Some (PendingState handler, Ready (Some (Inl (IoError OtherKind ''task failed''))))
           | Some (handler, _, Ready (Inr data)) \<Rightarrow> state_poll_next ops walk sched fs (IdleState (Some data))))"

section \<open>The dumper\<close>

record ('fs, 'w, 's) NarDumper =
  nd_state :: "('fs, 'w) DumpState"
  nd_next :: "DumpEntry option"
  nd_level :: nat
  nd_dir :: PathBuf
  nd_semaphore :: 's
  nd_use_case_hack :: bool

record DumpOptions =
  do_use_case_hack :: bool
  do_max_open_files :: nat

text \<open>On Linux the case hack is off.\<close>

definition dump_options :: DumpOptions where
  "dump_options = \<lparr>do_use_case_hack = False, do_max_open_files = OPEN_FILES\<rparr>"

definition dump :: "('fs, 'w) Walk \<Rightarrow> (nat \<Rightarrow> 's) \<Rightarrow> DumpOptions \<Rightarrow> 'fs \<Rightarrow> PathBuf \<Rightarrow> ('fs, 'w, 's) NarDumper" where
  "dump walk semaphore options fs root =
     \<lparr>nd_state = IdleState (Some ([], wk_new walk fs (if do_use_case_hack options then sort_case_hack else byte_cmp) root, True)), nd_next = None,
       nd_level = 0, nd_dir = root, nd_semaphore = semaphore (do_max_open_files options), nd_use_case_hack = do_use_case_hack options\<rparr>"

definition dumper_name :: "('fs, 'w, 's) NarDumper \<Rightarrow> DumpEntry \<Rightarrow> bytes option" where
  "dumper_name nd entry =
     (if 0 < nd_level nd then map_option (\<lambda>n. if nd_use_case_hack nd then remove_case_hack n else n) (path_file_name (entry_path entry)) else Some [])"

type_synonym ('fs, 'w, 's) dumper_polled = "(('fs, 'w, 's) NarDumper \<times> ('fs, 's) DumpedFile NarEvent io_result option poll) option"

definition dumper_end :: "('fs, 'w, 's) NarDumper \<Rightarrow> ('fs, 'w, 's) dumper_polled" where
  "dumper_end nd =
     (if nd_level nd = 0 then None
      else Some (nd\<lparr>nd_dir := path_pop (nd_dir nd), nd_level := nd_level nd - 1\<rparr>, Ready (Some (Inr EndDirectory))))"

definition dumper_take :: "('fs, 'w, 's) NarDumper \<Rightarrow> DumpEntry \<Rightarrow> ('fs, 'w, 's) dumper_polled" where
  "dumper_take nd0 entry =
     (if \<not> path_starts_with (entry_path entry) (nd_dir nd0) then dumper_end nd0
      else let nd = nd0\<lparr>nd_next := None\<rparr> in
        case dumper_name nd entry of
          None \<Rightarrow> None
        | Some name \<Rightarrow>
            (case entry of
               EntryDirectory path \<Rightarrow>
                 if nd_level nd + 1 < 2 ^ 32
                 then Some (nd\<lparr>nd_dir := path, nd_level := nd_level nd + 1\<rparr>, Ready (Some (Inr (StartDirectory name)))) else None
             | EntryFile path sz executable \<Rightarrow> Some (nd, Ready (Some (Inr (File name executable sz (dumped_new path sz (nd_semaphore nd))))))
             | EntrySymlink path target \<Rightarrow> Some (nd, Ready (Some (Inr (Symlink name target))))))"

definition dumper_poll_next ::
  "('fs, 'h) FsOps \<Rightarrow> ('fs, 'w) Walk \<Rightarrow> nat \<times> bool \<Rightarrow> 'fs \<Rightarrow> ('fs, 'w, 's) NarDumper \<Rightarrow> ('fs, 'w, 's) dumper_polled" where
  "dumper_poll_next ops walk sched fs nd0 =
     (case nd_next nd0 of
        Some entry \<Rightarrow> dumper_take nd0 entry
      | None \<Rightarrow>
          (case state_poll_next ops walk sched fs (nd_state nd0) of
             None \<Rightarrow> None
           | Some (st, res) \<Rightarrow>
               let nd = nd0\<lparr>nd_state := st\<rparr> in
               (case res of
                  Pending \<Rightarrow> Some (nd, Pending)
                | Ready (Some (Inr entry)) \<Rightarrow> dumper_take (nd\<lparr>nd_next := Some entry\<rparr>) entry
                | Ready (Some (Inl err)) \<Rightarrow> Some (nd, Ready (Some (Inl err)))
                | Ready None \<Rightarrow> if 0 < nd_level nd then dumper_end nd else Some (nd, Ready None))))"

text \<open>What a client gets of the stream, up to its end or its first error. \<open>plans\<close> is what the runtime does with the task that the \<open>k\<close>-th poll starts.\<close>

partial_function (option) dump_run ::
  "('fs, 'h) FsOps \<Rightarrow> ('fs, 'w) Walk \<Rightarrow> (nat \<Rightarrow> nat \<times> bool) \<Rightarrow> 'fs \<Rightarrow> nat \<Rightarrow> ('fs, 'w, 's) NarDumper \<Rightarrow>
     ('fs, 's) DumpedFile NarEvent io_result list option" where
  "dump_run ops walk plans fs k nd =
     (case dumper_poll_next ops walk (plans k) fs nd of
        None \<Rightarrow> None
      | Some (nd, Pending) \<Rightarrow> dump_run ops walk plans fs (k + 1) nd
      | Some (nd, Ready None) \<Rightarrow> Some []
      | Some (nd, Ready (Some (Inl e))) \<Rightarrow> Some [Inl e]
      | Some (nd, Ready (Some (Inr event))) \<Rightarrow> Option.bind (dump_run ops walk plans fs (k + 1) nd) (\<lambda>items. Some (Inr event # items)))"

section \<open>The tree of a directory\<close>

text \<open>The names as the dumper shows them and sorts by them.\<close>

definition shown :: "bool \<Rightarrow> bytes \<Rightarrow> bytes" where
  "shown use_case_hack n = (if use_case_hack then remove_case_hack n else n)"

lemma sort_case_hack_key: "sort_case_hack a b = byte_cmp (remove_case_hack a) (remove_case_hack b)"
  by (simp add: sort_case_hack_def remove_case_hack_osstr_def remove_case_hack_def split: option.splits)

lemma sorts_by_shown: "(if hack then sort_case_hack else byte_cmp) a b = byte_cmp (shown hack a) (shown hack b)"
  by (simp add: shown_def sort_case_hack_key)

fun has_tree :: "(bytes list \<Rightarrow> FsNode option) \<Rightarrow> bytes list \<Rightarrow> nar \<Rightarrow> bool" where
  "has_tree m ns (NarFile x c) \<longleftrightarrow> m ns = Some (FsFile x c) \<and> (\<forall>n q. m (ns @ n # q) = None)"
| "has_tree m ns (NarSymlink t) \<longleftrightarrow> m ns = Some (FsSymlink t) \<and> (\<forall>n q. m (ns @ n # q) = None)"
| "has_tree m ns (NarDirectory es) \<longleftrightarrow> m ns = Some FsDirectory \<and> (\<forall>n q. m (ns @ n # q) \<noteq> None \<longrightarrow> n \<in> fst ` set es) \<and>
     list_all (\<lambda>(n, t). has_tree m (ns @ [n]) t) es"

fun walk_paths :: "bytes list \<Rightarrow> nar \<Rightarrow> bytes list list" where
  "walk_paths ns (NarDirectory es) = ns # concat (map (\<lambda>(n, t). walk_paths (ns @ [n]) t) es)"
| "walk_paths ns _ = [ns]"

fun nar_sorted :: "(bytes \<Rightarrow> bytes) \<Rightarrow> nar \<Rightarrow> bool" where
  "nar_sorted key (NarDirectory es) \<longleftrightarrow> sorted_wrt (<) (map (\<lambda>(n, t). key n) es) \<and> list_all (\<lambda>(n, t). nar_sorted key t) es"
| "nar_sorted key _ \<longleftrightarrow> True"

fun nar_rename :: "(bytes \<Rightarrow> bytes) \<Rightarrow> nar \<Rightarrow> nar" where
  "nar_rename key (NarDirectory es) = NarDirectory (map (\<lambda>(n, t). (key n, nar_rename key t)) es)"
| "nar_rename key t = t"

text \<open>The level of the dumper is a \<open>u32\<close>.\<close>

fun level_fits :: "nat \<Rightarrow> nar \<Rightarrow> bool" where
  "level_fits l (NarDirectory es) \<longleftrightarrow> l + 1 < 2 ^ 32 \<and> list_all (\<lambda>(n, t). level_fits (l + 1) t) es"
| "level_fits l _ \<longleftrightarrow> True"

lemma nar_rename_id: "nar_rename (\<lambda>n. n) t = t"
  by (induction t rule: nar.induct) (force intro!: map_idI)+

lemma has_tree_cong: "(\<And>q. prefix ns q \<Longrightarrow> m q = m' q) \<Longrightarrow> has_tree m ns t = has_tree m' ns t"
proof (induction t arbitrary: ns rule: nar.induct)
  case (NarDirectory es)
  have "has_tree m (ns @ [n]) t = has_tree m' (ns @ [n]) t" if "(n, t) \<in> set es" for n t
    using NarDirectory.IH [OF that, of t "ns @ [n]"] NarDirectory.prems by (auto dest: append_prefixD)
  then show ?case using NarDirectory.prems by (auto simp: list_all_iff)
qed auto

lemma mount_entries_has_tree:
  assumes tree: "\<And>n t m. (n, t) \<in> set es \<Longrightarrow> free_below m (ns @ [n]) \<Longrightarrow> has_tree (mount (ns @ [n]) t m) (ns @ [n]) t"
    and "distinct (map fst es)" "\<And>n t. (n, t) \<in> set es \<Longrightarrow> free_below m (ns @ [n])"
  shows "list_all (\<lambda>(n, t). has_tree (mount_entries ns es m) (ns @ [n]) t) es"
  using assms
proof (induction es arbitrary: m)
  case (Cons e es)
  obtain n t where e: "e = (n, t)" by (cases e)
  let ?m = "mount (ns @ [n]) t m"
  have other: "n' \<noteq> n" if "(n', t') \<in> set es" for n' t' using that Cons.prems(2) by (force simp: e)
  have "has_tree (mount_entries ns es ?m) (ns @ [n]) t = has_tree ?m (ns @ [n]) t"
  proof (rule has_tree_cong, rule mount_entries_frame)
    fix q assume "prefix (ns @ [n]) q"
    with other show "\<forall>(n', t') \<in> set es. \<not> prefix (ns @ [n']) q" by (fastforce simp: prefix_def)
  qed
  moreover have "has_tree ?m (ns @ [n]) t" using Cons.prems(1) [of n t m] Cons.prems(3) [of n t] by (simp add: e)
  moreover have "list_all (\<lambda>(n, t). has_tree (mount_entries ns es ?m) (ns @ [n]) t) es"
  proof (rule Cons.IH)
    fix n' t' assume "(n', t') \<in> set es"
    then show "free_below ?m (ns @ [n'])" using Cons.prems(3) [of n' t'] other [of n' t'] by (intro free_below_sibling) (auto simp: e)
  qed (use Cons.prems in \<open>auto simp: e\<close>)
  ultimately show ?case by (simp add: e)
qed simp

lemma mount_has_tree: "nar_plain t \<Longrightarrow> free_below m ns \<Longrightarrow> has_tree (mount ns t m) ns t"
proof (induction t arbitrary: ns m rule: nar.induct)
  case (NarDirectory es)
  let ?m = "m(ns \<mapsto> FsDirectory)"
  have free: "?m (ns @ n # q) = None" for n q using NarDirectory.prems(2) by (simp add: free_below_def)
  have 1: "mount_entries ns es ?m (ns @ n # q) = None" if "n \<notin> fst ` set es" for n q
    using that free mount_entries_frame [of es ns "ns @ n # q" ?m] by (force simp: prefix_def)
  have 2: "mount_entries ns es ?m ns = Some FsDirectory" using mount_entries_frame [of es ns ns ?m] by (auto simp: prefix_def)
  have 3: "list_all (\<lambda>(n, t). has_tree (mount_entries ns es ?m) (ns @ [n]) t) es"
  proof (rule mount_entries_has_tree)
    fix n t m' assume "(n, t) \<in> set es" "free_below m' (ns @ [n])"
    then show "has_tree (mount (ns @ [n]) t m') (ns @ [n]) t" using NarDirectory by (auto simp: list_all_iff)
  qed (use NarDirectory.prems free_below_child in \<open>auto simp: list_all_iff\<close>)
  show ?case unfolding mount.simps has_tree.simps by (intro conjI allI impI 2 3) (rule ccontr, use 1 in simp)
qed (auto simp: free_below_def)

lemma walk_paths_prefix: "q \<in> set (walk_paths ns t) \<Longrightarrow> prefix ns q"
proof (induction t arbitrary: ns rule: nar.induct)
  case (NarDirectory es)
  then consider "q = ns" | n t where "(n, t) \<in> set es" "q \<in> set (walk_paths (ns @ [n]) t)" by auto
  then show ?case
  proof cases
    case 2
    then have "prefix (ns @ [n]) q" using NarDirectory.IH [of "(n, t)" t "ns @ [n]"] by simp
    then show ?thesis by (rule append_prefixD)
  qed simp
qed auto

text \<open>The paths of a walk are those of the tree, and each can be looked up.\<close>

definition looked_up :: "(bytes list \<Rightarrow> FsNode option) \<Rightarrow> bytes list \<Rightarrow> bool" where
  "looked_up m q \<longleftrightarrow> reachable m q \<and> (\<exists>n. m q = Some n \<and> n \<noteq> FsOther)"

lemma walk_paths_looked_up:
  "has_tree m ns t \<Longrightarrow> nar_plain t \<Longrightarrow> reachable m ns \<Longrightarrow> q \<in> set (walk_paths ns t) \<Longrightarrow> looked_up m q"
proof (induction t arbitrary: ns rule: nar.induct)
  case (NarDirectory es)
  then consider "q = ns" | n t where "(n, t) \<in> set es" "q \<in> set (walk_paths (ns @ [n]) t)" by auto
  then show ?case
  proof cases
    case 2
    with NarDirectory.prems have "has_tree m (ns @ [n]) t" "plain_name n" "nar_plain t" "m ns = Some FsDirectory" by (auto simp: list_all_iff)
    with NarDirectory.IH [OF 2(1) _ _ _ _ 2(2)] NarDirectory.prems(3) show ?thesis
      by (auto simp: reachable_def strict_prefix_def)
  qed (use NarDirectory.prems in \<open>simp add: looked_up_def\<close>)
qed (auto simp: looked_up_def)

lemma walk_paths_complete: "has_tree m ns t \<Longrightarrow> m (ns @ q) \<noteq> None \<Longrightarrow> ns @ q \<in> set (walk_paths ns t)"
proof (induction t arbitrary: ns q rule: nar.induct)
  case (NarDirectory es)
  show ?case
  proof (cases q)
    case (Cons n q')
    then have "n \<in> fst ` set es" using NarDirectory.prems unfolding has_tree.simps by blast
    then obtain t where "(n, t) \<in> set es" by auto
    moreover from this have "has_tree m (ns @ [n]) t" using NarDirectory.prems(1) by (auto simp: list_all_iff)
    ultimately have "ns @ q \<in> set (walk_paths (ns @ [n]) t)" using NarDirectory.IH [of "(n, t)" t "ns @ [n]" q'] NarDirectory.prems(2) Cons by simp
    with \<open>(n, t) \<in> set es\<close> show ?thesis by (auto intro!: bexI [of _ "(n, t)"])
  qed simp
qed (case_tac q; auto)+

section \<open>Entries and events\<close>

definition entry_at :: "(bytes list \<Rightarrow> FsNode option) \<Rightarrow> bytes list \<Rightarrow> DumpEntry" where
  "entry_at m q =
     (case m q of
        Some (FsFile x c) \<Rightarrow> EntryFile (path_at q) (word_of_nat (length c)) x
      | Some (FsSymlink t) \<Rightarrow> EntrySymlink (path_at q) t
      | _ \<Rightarrow> EntryDirectory (path_at q))"

definition contents_at :: "(bytes list \<Rightarrow> FsNode option) \<Rightarrow> PathBuf \<Rightarrow> bytes" where
  "contents_at m p = (case m (pb_names p) of Some (FsFile x c) \<Rightarrow> c | _ \<Rightarrow> [])"

lemma entry_path_at [simp]: "entry_path (entry_at m q) = path_at q"
  by (simp add: entry_at_def split: option.splits FsNode.splits)

text \<open>The events of a list of entries: a directory ends when an entry is not below it.\<close>

definition emit_name :: "(bytes \<Rightarrow> bytes) \<Rightarrow> nat \<Rightarrow> DumpEntry \<Rightarrow> bytes option" where
  "emit_name key l entry = (if 0 < l then map_option key (path_file_name (entry_path entry)) else Some [])"

function emits :: "(PathBuf \<Rightarrow> bytes) \<Rightarrow> (bytes \<Rightarrow> bytes) \<Rightarrow> nat \<Rightarrow> PathBuf \<Rightarrow> DumpEntry list \<Rightarrow> event list option" where
  "emits cont key l dir [] = Some (replicate l EndDirectory)"
| "emits cont key l dir (entry # entries) =
     (if \<not> path_starts_with (entry_path entry) dir then
        if l = 0 then None else map_option ((#) EndDirectory) (emits cont key (l - 1) (path_pop dir) (entry # entries))
      else case emit_name key l entry of
        None \<Rightarrow> None
      | Some name \<Rightarrow>
          (case entry of
             EntryDirectory path \<Rightarrow>
               if l + 1 < 2 ^ 32 then map_option ((#) (StartDirectory name)) (emits cont key (l + 1) path entries) else None
           | EntryFile path sz x \<Rightarrow> map_option ((#) (File name x sz (cont path))) (emits cont key l dir entries)
           | EntrySymlink path target \<Rightarrow> map_option ((#) (Symlink name target)) (emits cont key l dir entries)))"
  by pat_completeness auto
termination
  by (relation "inv_image (less_than <*lex*> less_than) (\<lambda>(cont, key, l, dir, entries). (length entries, l))") auto

declare emits.simps(2) [simp del]

lemma starts_with_at [simp]: "path_starts_with (path_at q) (path_at ns) \<longleftrightarrow> prefix ns q"
  by (simp add: path_starts_with_def)

lemma file_name_at: "plain_name n \<Longrightarrow> path_file_name (path_at (ns @ [n])) = Some n"
  by (simp add: path_file_name_def plain_name_def)

text \<open>The next entry, if there is one, is not below \<open>ns\<close>.\<close>

definition leaves :: "bytes list \<Rightarrow> DumpEntry list \<Rightarrow> bool" where
  "leaves ns es \<longleftrightarrow> es = [] \<or> (\<exists>q. entry_path (hd es) = path_at q \<and> \<not> prefix ns q)"

lemma emits_leave: "leaves ns es \<Longrightarrow> emits cont key (Suc l) (path_at ns) es = map_option ((#) EndDirectory) (emits cont key l (path_at (butlast ns)) es)"
proof (cases es)
  case (Cons e es')
  assume "leaves ns es"
  then show ?thesis by (subst (1) Cons, subst emits.simps(2)) (auto simp: leaves_def path_pop_def Cons)
qed simp

lemma leaves_child: "leaves ns es \<Longrightarrow> leaves (ns @ [n]) es"
  by (auto simp: leaves_def dest: append_prefixD)

abbreviation dir_events :: "(bytes \<times> nar) list \<Rightarrow> event list" where
  "dir_events es \<equiv> concat (map (\<lambda>(n, t). nar_events n t) es)"

abbreviation rename_entries :: "(bytes \<Rightarrow> bytes) \<Rightarrow> (bytes \<times> nar) list \<Rightarrow> (bytes \<times> nar) list" where
  "rename_entries key es \<equiv> map (\<lambda>(n, t). (key n, nar_rename key t)) es"

abbreviation entries_walk :: "bytes list \<Rightarrow> (bytes \<times> nar) list \<Rightarrow> bytes list list" where
  "entries_walk ns es \<equiv> concat (map (\<lambda>(n, t). walk_paths (ns @ [n]) t) es)"

lemma hd_walk_paths: "\<exists>ps. walk_paths ns t = ns # ps"
  by (cases t) auto

lemma entry_at_dir: "m q = Some FsDirectory \<Longrightarrow> entry_at m q = EntryDirectory (path_at q)"
  by (simp add: entry_at_def)

lemma emits_dir: "prefix ns q \<Longrightarrow> emit_name key l (EntryDirectory (path_at q)) = Some n \<Longrightarrow> Suc l < 2 ^ 32 \<Longrightarrow>
    emits cont key l (path_at ns) (EntryDirectory (path_at q) # es) = map_option ((#) (StartDirectory n)) (emits cont key (Suc l) (path_at q) es)"
  by (simp add: emits.simps(2))

lemma tree_entry:
  assumes "has_tree m ns (NarDirectory es)" "nar_plain (NarDirectory es)" "level_fits l (NarDirectory es)" "(n, t) \<in> set es"
  shows "has_tree m (ns @ [n]) t" "nar_plain t" "plain_name n" "level_fits (Suc l) t"
  using assms by (auto simp: list_all_iff)

lemma emits_entries:
  assumes tree: "\<And>n t rest. (n, t) \<in> set es \<Longrightarrow> leaves (ns @ [n]) rest \<Longrightarrow>
      emits cont key l (path_at ns) (map (entry_at m) (walk_paths (ns @ [n]) t) @ rest) =
        map_option ((@) (nar_events (key n) (nar_rename key t))) (emits cont key l (path_at ns) rest)"
    and "distinct (map fst es)" "leaves ns rest"
  shows "emits cont key l (path_at ns) (map (entry_at m) (entries_walk ns es) @ rest) =
    map_option ((@) (dir_events (rename_entries key es))) (emits cont key l (path_at ns) rest)"
  using assms
proof (induction es)
  case Nil
  then show ?case by (simp add: option.map_ident)
next
  case (Cons e es)
  obtain n t where e: "e = (n, t)" by (cases e)
  let ?rest = "map (entry_at m) (entries_walk ns es) @ rest"
  have "leaves (ns @ [n]) ?rest"
  proof (cases es)
    case Nil
    then show ?thesis using leaves_child [OF Cons.prems(3)] by simp
  next
    case (Cons e' es')
    obtain n' t' where e': "e' = (n', t')" by (cases e')
    obtain ps where "walk_paths (ns @ [n']) t' = (ns @ [n']) # ps" using hd_walk_paths by blast
    then show ?thesis using \<open>distinct (map fst (e # es))\<close> by (simp add: Cons e e' leaves_def)
  qed
  then have "emits cont key l (path_at ns) (map (entry_at m) (walk_paths (ns @ [n]) t) @ ?rest) =
      map_option ((@) (nar_events (key n) (nar_rename key t))) (emits cont key l (path_at ns) ?rest)"
    using Cons.prems(1) [of n t ?rest] by (simp add: e)
  moreover have "emits cont key l (path_at ns) ?rest = map_option ((@) (dir_events (rename_entries key es))) (emits cont key l (path_at ns) rest)"
    using Cons.prems by (intro Cons.IH) (auto simp: e)
  ultimately show ?case by (simp add: e option.map_comp comp_def)
qed

lemma emits_tree:
  assumes "has_tree m (ds @ [n]) t" "nar_plain t" "plain_name n" "level_fits (Suc l) t" "leaves (ds @ [n]) rest"
  shows "emits (contents_at m) key (Suc l) (path_at ds) (map (entry_at m) (walk_paths (ds @ [n]) t) @ rest) =
    map_option ((@) (nar_events (key n) (nar_rename key t))) (emits (contents_at m) key (Suc l) (path_at ds) rest)"
  using assms
proof (induction t arbitrary: ds n l rest rule: nar.induct)
  case (NarFile x c)
  then show ?case by (simp add: emits.simps(2) emit_name_def file_name_at entry_at_def contents_at_def)
next
  case (NarSymlink t)
  then show ?case by (simp add: emits.simps(2) emit_name_def file_name_at entry_at_def)
next
  case (NarDirectory es)
  let ?ns = "ds @ [n]"
  have "emits (contents_at m) key (Suc (Suc l)) (path_at ?ns) (map (entry_at m) (entries_walk ?ns es) @ rest) =
      map_option ((@) (dir_events (rename_entries key es))) (emits (contents_at m) key (Suc (Suc l)) (path_at ?ns) rest)"
  proof (rule emits_entries)
    fix n' t' rest' assume h: "(n', t') \<in> set es" "leaves (?ns @ [n']) rest'"
    then show "emits (contents_at m) key (Suc (Suc l)) (path_at ?ns) (map (entry_at m) (walk_paths (?ns @ [n']) t') @ rest') =
        map_option ((@) (nar_events (key n') (nar_rename key t'))) (emits (contents_at m) key (Suc (Suc l)) (path_at ?ns) rest')"
      using NarDirectory.IH [OF h(1) _ tree_entry [OF NarDirectory.prems(1,2,4) h(1)] h(2)] by simp
  qed (use NarDirectory.prems in auto)
  moreover have "emit_name key (Suc l) (EntryDirectory (path_at ?ns)) = Some (key n)" using NarDirectory.prems(3) by (simp add: emit_name_def file_name_at)
  ultimately show ?case using NarDirectory.prems(1,4) emits_leave [OF NarDirectory.prems(5)]
    by (simp add: entry_at_dir emits_dir option.map_comp comp_def)
qed

lemma emits_root:
  assumes "has_tree m ns t" "nar_plain t" "level_fits 0 t"
  shows "emits (contents_at m) key 0 (path_at ns) (map (entry_at m) (walk_paths ns t)) = Some (nar_events [] (nar_rename key t))"
proof (cases t)
  case (NarDirectory es)
  have "emits (contents_at m) key 1 (path_at ns) (map (entry_at m) (entries_walk ns es) @ []) =
      map_option ((@) (dir_events (rename_entries key es))) (emits (contents_at m) key 1 (path_at ns) [])"
  proof (rule emits_entries)
    fix n t' rest assume h: "(n, t') \<in> set es" "leaves (ns @ [n]) rest"
    from assms NarDirectory have d: "has_tree m ns (NarDirectory es)" "nar_plain (NarDirectory es)" "level_fits 0 (NarDirectory es)" by simp_all
    show "emits (contents_at m) key 1 (path_at ns) (map (entry_at m) (walk_paths (ns @ [n]) t') @ rest) =
        map_option ((@) (nar_events (key n) (nar_rename key t'))) (emits (contents_at m) key 1 (path_at ns) rest)"
      using emits_tree [OF tree_entry [OF d h(1)] h(2)] by simp
  qed (use assms NarDirectory in \<open>auto simp: leaves_def\<close>)
  moreover have "emit_name key 0 (EntryDirectory (path_at ns)) = Some []" by (simp add: emit_name_def)
  ultimately show ?thesis using assms NarDirectory by (simp add: entry_at_dir emits_dir)
qed (use assms in \<open>simp_all add: emits.simps(2) emit_name_def entry_at_def contents_at_def\<close>)

text \<open>The readers as the dumper makes them.\<close>

definition dumped_rest :: "(bytes list \<Rightarrow> FsNode option) \<Rightarrow> ('fs, 's) DumpedFile \<Rightarrow> bytes" where
  "dumped_rest m df = (case df of WaitPermit semaphore (Some (path, sz)) \<Rightarrow> contents_at m path | _ \<Rightarrow> [])"

definition fresh_reader :: "(bytes list \<Rightarrow> FsNode option) \<Rightarrow> ('fs, 's) DumpedFile \<Rightarrow> bool" where
  "fresh_reader m df \<longleftrightarrow> (\<exists>q x c semaphore. df = dumped_new (path_at q) (word_of_nat (length c)) semaphore \<and> reachable m q \<and> m q = Some (FsFile x c))"

section \<open>The dumper over a walk\<close>

text \<open>What \<open>walkdir\<close> documents: entries come depth first, a directory before its contents, links are not followed, and the entries of a directory come in the order
  of the given comparison. \<open>left\<close> is what a walk has still to yield; an entry may fail for a reason of the environment.\<close>

locale walk_dir = file_system ops node handle fs_err for ops :: "('fs, 'h) FsOps" and node handle fs_err +
  fixes walk :: "('fs, 'w) Walk" and left :: "'fs \<Rightarrow> 'w \<Rightarrow> bytes list list"
  assumes walk_new_law: "reachable (node fs) ns \<Longrightarrow> has_tree (node fs) ns t \<Longrightarrow> nar_plain t \<Longrightarrow> nar_sorted key t \<Longrightarrow>
      (\<And>a b. cmp a b = byte_cmp (key a) (key b)) \<Longrightarrow> left fs (wk_new walk fs cmp (path_at ns)) = walk_paths ns t"
    and walk_next_law: "wk_next walk w fs = (w', y) \<Longrightarrow>
      (case y of None \<Rightarrow> left fs w = [] | Some (Inl e) \<Rightarrow> fs_err e | Some (Inr p) \<Rightarrow> (\<exists>q. p = path_at q \<and> left fs w = q # left fs w'))"
begin

text \<open>The errors of the stream come from outside.\<close>

definition dump_err :: "(nat \<Rightarrow> nat \<times> bool) \<Rightarrow> io_error \<Rightarrow> bool" where
  "dump_err plans e \<longleftrightarrow> fs_err e \<or> e = IoError OtherKind ''task failed'' \<and> (\<exists>k. snd (plans k))"

text \<open>The entries that a chunk and its walk have still to yield, up to the first error.\<close>

primrec chunk_left :: "'fs \<Rightarrow> 'w \<Rightarrow> bool \<Rightarrow> DumpEntry io_result list \<Rightarrow> DumpEntry list \<Rightarrow> bool" where
  "chunk_left fs w remain [] es \<longleftrightarrow> (if remain then es = map (entry_at (node fs)) (left fs w) \<and> list_all (looked_up (node fs)) (left fs w) else es = [])"
| "chunk_left fs w remain (x # buf) es \<longleftrightarrow> (case x of Inl e \<Rightarrow> fs_err e | Inr v \<Rightarrow> \<exists>es'. es = v # es' \<and> chunk_left fs w remain buf es')"

lemma to_entry_looked_up:
  assumes "looked_up (node fs) q"
  shows "case to_entry ops fs (path_at q) of Inl e \<Rightarrow> fs_err e | Inr x \<Rightarrow> x = entry_at (node fs) q"
proof -
  obtain n where n: "reachable (node fs) q" "node fs q = Some n" "n \<noteq> FsOther" using assms by (auto simp: looked_up_def)
  note meta = metadata_law [OF n(1,2)]
  show ?thesis
  proof (cases n)
    case (FsSymlink t)
    with n have "node fs q = Some (FsSymlink t)" by simp
    from read_link_law [OF n(1) this] show ?thesis using meta n FsSymlink
      by (auto simp: to_entry_def entry_at_def split: sum.splits)
  qed (use meta n in \<open>auto simp: to_entry_def entry_at_def split: sum.splits\<close>)
qed

lemma next_chunk_extends: "\<exists>ys. fst (next_chunk ops walk fs n buf w) = buf @ ys"
proof (induction n arbitrary: buf w)
  case (Suc n)
  obtain w' y where y: "wk_next walk w fs = (w', y)" by (cases "wk_next walk w fs")
  show ?case
  proof (cases y)
    case (Some res)
    from Suc.IH [of "buf @ [result_bind res (to_entry ops fs)]" w'] show ?thesis by (auto simp: y Some)
  qed (simp add: y)
qed simp

lemma next_chunk_fresh: "0 < n \<Longrightarrow> next_chunk ops walk fs n [] w = (buf, w', remain) \<Longrightarrow> buf \<noteq> [] \<or> \<not> remain"
proof (cases n)
  case (Suc k)
  assume run: "next_chunk ops walk fs n [] w = (buf, w', remain)"
  obtain w1 y where y: "wk_next walk w fs = (w1, y)" by (cases "wk_next walk w fs")
  show ?thesis
  proof (cases y)
    case None
    with run show ?thesis by (simp add: Suc y)
  next
    case (Some res)
    from run next_chunk_extends [of fs k "[result_bind res (to_entry ops fs)]" w1] show ?thesis by (auto simp: Suc y Some)
  qed
qed simp

lemma chunk_left_next:
  assumes "chunk_left fs w True buf es" "wk_next walk w fs = (w', Some res)"
  shows "chunk_left fs w' True (buf @ [result_bind res (to_entry ops fs)]) es"
  using assms(1)
proof (induction buf arbitrary: es)
  case Nil
  show ?case
  proof (cases res)
    case (Inl e)
    then show ?thesis using walk_next_law [OF assms(2)] by simp
  next
    case (Inr p)
    then obtain q where q: "p = path_at q" "left fs w = q # left fs w'" using walk_next_law [OF assms(2)] by auto
    have "case to_entry ops fs (path_at q) of Inl e \<Rightarrow> fs_err e | Inr x \<Rightarrow> x = entry_at (node fs) q"
      using Nil q(2) by (intro to_entry_looked_up) simp
    then show ?thesis using Nil q Inr by (cases "to_entry ops fs (path_at q)") simp_all
  qed
qed (auto split: sum.splits)

lemma chunk_left_end: "chunk_left fs w True buf es \<Longrightarrow> left fs w = [] \<Longrightarrow> chunk_left fs w' False buf es"
  by (induction buf arbitrary: es) (auto split: sum.splits)

lemma next_chunk_left: "chunk_left fs w True buf es \<Longrightarrow> next_chunk ops walk fs n buf w = (buf', w', remain) \<Longrightarrow> chunk_left fs w' remain buf' es"
proof (induction n arbitrary: buf w)
  case (Suc n)
  obtain w1 y where y: "wk_next walk w fs = (w1, y)" by (cases "wk_next walk w fs")
  show ?case
  proof (cases y)
    case None
    then show ?thesis using Suc.prems y walk_next_law [OF y] by (auto dest: chunk_left_end)
  next
    case (Some res)
    then show ?thesis using Suc.IH [OF chunk_left_next [OF Suc.prems(1) y [unfolded Some]]] Suc.prems(2) y by simp
  qed
qed simp

text \<open>The same for the state of the stream.\<close>

definition ready_chunk :: "'fs \<Rightarrow> 'w chunk \<Rightarrow> DumpEntry list \<Rightarrow> bool" where
  "ready_chunk fs c es \<longleftrightarrow> (case c of (buf, w, remain) \<Rightarrow> chunk_left fs w remain buf es \<and> (buf \<noteq> [] \<or> \<not> remain))"

fun state_left :: "(nat \<Rightarrow> nat \<times> bool) \<Rightarrow> 'fs \<Rightarrow> ('fs, 'w) DumpState \<Rightarrow> DumpEntry list \<Rightarrow> bool" where
  "state_left plans fs (IdleState (Some (buf, w, remain))) es \<longleftrightarrow> chunk_left fs w remain buf es"
| "state_left plans fs (PendingState (Running n aborted job)) es \<longleftrightarrow>
     (aborted \<longrightarrow> (\<exists>k. snd (plans k))) \<and> (\<exists>c. job fs = Some (fs, c) \<and> ready_chunk fs c es)"
| "state_left plans fs _ es \<longleftrightarrow> False"

fun state_wait :: "('fs, 'w) DumpState \<Rightarrow> nat \<times> nat" where
  "state_wait (IdleState _) = (1, 0)"
| "state_wait (PendingState handler) = (0, join_left handler)"

definition state_post ::
  "(nat \<Rightarrow> nat \<times> bool) \<Rightarrow> 'fs \<Rightarrow> ('fs, 'w) DumpState \<Rightarrow> DumpEntry list \<Rightarrow> ('fs, 'w) DumpState \<Rightarrow> DumpEntry io_result option poll \<Rightarrow> bool" where
  "state_post plans fs st es st' res \<longleftrightarrow>
     (case res of
        Pending \<Rightarrow> state_left plans fs st' es \<and> (state_wait st', state_wait st) \<in> less_than <*lex*> less_than
      | Ready None \<Rightarrow> es = [] \<and> state_left plans fs st' es
      | Ready (Some (Inl e)) \<Rightarrow> dump_err plans e
      | Ready (Some (Inr x)) \<Rightarrow> (\<exists>es'. es = x # es' \<and> state_left plans fs st' es'))"

lemma state_poll_ready:
  assumes "ready_chunk fs c es"
  shows "\<exists>st' res. state_poll_next ops walk sched fs (IdleState (Some c)) = Some (st', res) \<and> res \<noteq> Pending \<and> state_post plans fs st es st' res"
proof -
  obtain buf w remain where c: "c = (buf, w, remain)" by (cases c)
  show ?thesis
  proof (cases buf)
    case Nil
    then show ?thesis using assms by (subst state_poll_next.simps) (simp add: c ready_chunk_def state_post_def)
  next
    case (Cons x buf')
    then show ?thesis using assms by (subst state_poll_next.simps) (cases x; simp add: c ready_chunk_def state_post_def dump_err_def)
  qed
qed

lemma state_poll_pending:
  assumes "state_left plans fs (PendingState (Running n aborted job)) es"
  shows "\<exists>st' res. state_poll_next ops walk sched fs (PendingState (Running n aborted job)) = Some (st', res) \<and>
    (case res of Pending \<Rightarrow> (\<exists>k. st' = PendingState (Running k aborted job) \<and> k < n) | _ \<Rightarrow> state_post plans fs st es st' res)"
proof -
  obtain c where c: "job fs = Some (fs, c)" "ready_chunk fs c es" using assms by auto
  show ?thesis
  proof (cases n)
    case (Suc k)
    then show ?thesis by (subst state_poll_next.simps) simp
  next
    case 0
    show ?thesis
    proof (cases aborted)
      case True
      with 0 assms show ?thesis by (subst state_poll_next.simps) (simp add: state_post_def dump_err_def)
    next
      case False
      obtain st' res where "state_poll_next ops walk sched fs (IdleState (Some c)) = Some (st', res)" "res \<noteq> Pending" "state_post plans fs st es st' res"
        using state_poll_ready [OF c(2)] by blast
      with 0 False c show ?thesis by (subst state_poll_next.simps) (cases res; simp)
    qed
  qed
qed

lemma state_poll_waits:
  assumes "state_left plans fs (PendingState (Running n aborted job)) es"
    and "\<And>k. k < n \<Longrightarrow> ((0, k), state_wait st) \<in> less_than <*lex*> less_than"
  shows "\<exists>st' res. state_poll_next ops walk sched fs (PendingState (Running n aborted job)) = Some (st', res) \<and> state_post plans fs st es st' res"
proof -
  obtain st' res where r: "state_poll_next ops walk sched fs (PendingState (Running n aborted job)) = Some (st', res)"
    "case res of Pending \<Rightarrow> (\<exists>k. st' = PendingState (Running k aborted job) \<and> k < n) | _ \<Rightarrow> state_post plans fs st es st' res"
    using state_poll_pending [OF assms(1)] by blast
  have "state_post plans fs st es st' res"
  proof (cases res)
    case Pending
    then obtain k where k: "st' = PendingState (Running k aborted job)" "k < n" using r(2) by auto
    then show ?thesis using assms(1) assms(2) [OF k(2)] by (simp add: state_post_def Pending)
  qed (use r(2) in simp)
  with r(1) show ?thesis by blast
qed

lemma state_poll:
  assumes "state_left plans fs st es"
  shows "\<exists>st' res. state_poll_next ops walk (plans k) fs st = Some (st', res) \<and> state_post plans fs st es st' res"
proof (cases st)
  case (PendingState handler)
  then obtain n aborted job where st: "st = PendingState (Running n aborted job)" using assms by (cases handler) auto
  show ?thesis using state_poll_waits [OF assms [unfolded st], of st "plans k"] by (simp add: st)
next
  case (IdleState c)
  then obtain buf w remain where st: "st = IdleState (Some (buf, w, remain))" using assms by (cases c) auto
  show ?thesis
  proof (cases "buf \<noteq> [] \<or> \<not> remain")
    case True
    then have "ready_chunk fs (buf, w, remain) es" using assms by (simp add: st ready_chunk_def)
    from state_poll_ready [OF this, of "plans k" plans st] show ?thesis by (auto simp: st)
  next
    case False
    let ?job = "\<lambda>fs. Some (fs, next_chunk ops walk fs CHUNK_SIZE [] w)"
    let ?h = "Running (fst (plans k)) (snd (plans k)) ?job"
    obtain c where c: "next_chunk ops walk fs CHUNK_SIZE [] w = c" by simp
    have "ready_chunk fs c es" using False assms next_chunk_left [of fs w "[]" es] next_chunk_fresh [of CHUNK_SIZE fs w] c
      by (cases c) (auto simp: st ready_chunk_def CHUNK_SIZE_def)
    then have pend: "state_left plans fs (PendingState ?h) es" using c by auto
    have "state_poll_next ops walk (plans k) fs st = state_poll_next ops walk (plans k) fs (PendingState ?h)"
      using False by (subst state_poll_next.simps) (simp add: st spawn_blocking_def)
    then show ?thesis using state_poll_waits [OF pend, of st "plans k"] by (simp add: st)
  qed
qed

text \<open>The dumper is simulated by the events that are still to come.\<close>

definition dumper_left :: "(nat \<Rightarrow> nat \<times> bool) \<Rightarrow> 'fs \<Rightarrow> ('fs, 'w, 's) NarDumper \<Rightarrow> DumpEntry list \<Rightarrow> bool" where
  "dumper_left plans fs nd es \<longleftrightarrow> list_all (\<lambda>x. \<exists>q. looked_up (node fs) q \<and> x = entry_at (node fs) q) es \<and>
     (case nd_next nd of None \<Rightarrow> state_left plans fs (nd_state nd) es | Some x \<Rightarrow> \<exists>es'. es = x # es' \<and> state_left plans fs (nd_state nd) es')"

definition dumper_sim :: "(nat \<Rightarrow> nat \<times> bool) \<Rightarrow> 'fs \<Rightarrow> ('fs, 'w, 's) NarDumper \<Rightarrow> event list \<Rightarrow> bool" where
  "dumper_sim plans fs nd evs \<longleftrightarrow> (\<exists>es. dumper_left plans fs nd es \<and>
     emits (contents_at (node fs)) (shown (nd_use_case_hack nd)) (nd_level nd) (nd_dir nd) es = Some evs)"

definition dumper_post ::
  "(nat \<Rightarrow> nat \<times> bool) \<Rightarrow> 'fs \<Rightarrow> ('fs, 'w, 's) NarDumper \<Rightarrow> event list \<Rightarrow> ('fs, 'w, 's) NarDumper \<Rightarrow>
     ('fs, 's) DumpedFile NarEvent io_result option poll \<Rightarrow> bool" where
  "dumper_post plans fs nd evs nd' res \<longleftrightarrow>
     (case res of
        Pending \<Rightarrow> dumper_sim plans fs nd' evs \<and> (state_wait (nd_state nd'), state_wait (nd_state nd)) \<in> less_than <*lex*> less_than
      | Ready None \<Rightarrow> evs = []
      | Ready (Some (Inl e)) \<Rightarrow> dump_err plans e
      | Ready (Some (Inr ev)) \<Rightarrow> (\<exists>evs'. evs = map_NarEvent (dumped_rest (node fs)) ev # evs' \<and> dumper_sim plans fs nd' evs' \<and>
          pred_NarEvent (fresh_reader (node fs)) ev))"

lemma dumper_end_post:
  assumes "dumper_left plans fs nd es" "nd_level nd \<noteq> 0"
    and "emits (contents_at (node fs)) (shown (nd_use_case_hack nd)) (nd_level nd - 1) (path_pop (nd_dir nd)) es = Some evs"
  shows "\<exists>nd' res. dumper_end nd = Some (nd', res) \<and> dumper_post plans fs nd0 (EndDirectory # evs) nd' res"
proof -
  have "dumper_left plans fs (nd\<lparr>nd_dir := path_pop (nd_dir nd), nd_level := nd_level nd - 1\<rparr>) es"
    using assms(1) by (simp add: dumper_left_def cong: option.case_cong)
  then show ?thesis using assms(2,3) by (auto simp: dumper_end_def dumper_post_def dumper_sim_def)
qed

lemma dumper_take_post:
  assumes "dumper_left plans fs nd (x # es)" "nd_next nd = Some x"
    and "emits (contents_at (node fs)) (shown (nd_use_case_hack nd)) (nd_level nd) (nd_dir nd) (x # es) = Some evs"
  shows "\<exists>nd' res. dumper_take nd x = Some (nd', res) \<and> dumper_post plans fs nd0 evs nd' res"
proof (cases "path_starts_with (entry_path x) (nd_dir nd)")
  case False
  with trans [OF emits.simps(2) [symmetric] assms(3)] obtain evs' where "nd_level nd \<noteq> 0" "evs = EndDirectory # evs'"
    "emits (contents_at (node fs)) (shown (nd_use_case_hack nd)) (nd_level nd - 1) (path_pop (nd_dir nd)) (x # es) = Some evs'"
    by (auto split: if_splits)
  with dumper_end_post [OF assms(1)] False show ?thesis by (simp add: dumper_take_def)
next
  case True
  have left': "dumper_left plans fs (nd\<lparr>nd_next := None\<rparr>) es" using assms(1,2) by (simp add: dumper_left_def)
  obtain q where q: "looked_up (node fs) q" "x = entry_at (node fs) q" using assms(1) by (auto simp: dumper_left_def)
  note run = trans [OF emits.simps(2) [symmetric] assms(3)]
  from True run obtain name where name: "emit_name (shown (nd_use_case_hack nd)) (nd_level nd) x = Some name"
    by (auto split: option.splits)
  then have nm: "dumper_name (nd\<lparr>nd_next := None\<rparr>) x = Some name" by (auto simp: dumper_name_def emit_name_def shown_def split: if_splits)
  show ?thesis
  proof (cases x)
    case (EntryFile path sz ex)
    then obtain c where c: "node fs q = Some (FsFile ex c)" "path = path_at q" "sz = word_of_nat (length c)"
      using q by (auto simp: entry_at_def split: option.splits FsNode.splits)
    have "fresh_reader (node fs) (dumped_new path sz (nd_semaphore nd) :: ('fs, 'a) DumpedFile)"
      using q(1) c by (auto simp: fresh_reader_def looked_up_def)
    then show ?thesis using True name nm run left' EntryFile
      by (auto simp: dumper_take_def dumper_post_def dumper_sim_def dumped_new_def dumped_rest_def)
  next
    case (EntrySymlink path target)
    then show ?thesis using True name nm run left' by (auto simp: dumper_take_def dumper_post_def dumper_sim_def)
  next
    case (EntryDirectory path)
    then show ?thesis using True name nm run left' by (auto simp: dumper_take_def dumper_post_def dumper_sim_def dumper_left_def split: if_splits)
  qed
qed

lemma dumper_poll:
  assumes "dumper_sim plans fs nd evs"
  shows "\<exists>nd' res. dumper_poll_next ops walk (plans k) fs nd = Some (nd', res) \<and> dumper_post plans fs nd evs nd' res"
proof -
  obtain es where es: "dumper_left plans fs nd es"
    "emits (contents_at (node fs)) (shown (nd_use_case_hack nd)) (nd_level nd) (nd_dir nd) es = Some evs" using assms by (auto simp: dumper_sim_def)
  show ?thesis
  proof (cases "nd_next nd")
    case (Some x)
    then obtain es' where "es = x # es'" using es(1) by (auto simp: dumper_left_def)
    with dumper_take_post [OF _ Some, of plans fs es'] es Some show ?thesis by (simp add: dumper_poll_next_def)
  next
    case None
    then have "state_left plans fs (nd_state nd) es" using es(1) by (simp add: dumper_left_def)
    from state_poll [OF this, of k] obtain st res where st: "state_poll_next ops walk (plans k) fs (nd_state nd) = Some (st, res)"
      "state_post plans fs (nd_state nd) es st res" by blast
    consider (pend) "res = Pending" | (fin) "res = Ready None" | (bad) e where "res = Ready (Some (Inl e))" | (entry) x where "res = Ready (Some (Inr x))"
      by (metis poll.exhaust option.exhaust sum.exhaust)
    then show ?thesis
    proof cases
      case pend
      then show ?thesis using st es None by (auto simp: dumper_poll_next_def dumper_post_def dumper_sim_def dumper_left_def state_post_def)
    next
      case fin
      then have "es = []" "state_left plans fs st []" using st(2) by (auto simp: state_post_def)
      then show ?thesis using fin st(1) es None
        by (cases "nd_level nd") (auto simp: dumper_poll_next_def dumper_end_def dumper_post_def dumper_sim_def dumper_left_def intro!: exI [of _ "[] :: DumpEntry list"])
    next
      case bad
      then show ?thesis using st None by (simp add: dumper_poll_next_def dumper_post_def state_post_def)
    next
      case (entry x)
      then obtain es' where es': "es = x # es'" "state_left plans fs st es'" using st(2) by (auto simp: state_post_def)
      let ?nd = "nd\<lparr>nd_state := st, nd_next := Some x\<rparr>"
      have "dumper_left plans fs ?nd (x # es')" using es(1) es' None by (simp add: dumper_left_def)
      from dumper_take_post [OF this, of evs nd] show ?thesis using entry st(1) es None es' by (simp add: dumper_poll_next_def)
    qed
  qed
qed

text \<open>A whole run: all the events, or some of them and an error.\<close>

definition dumped_as :: "(nat \<Rightarrow> nat \<times> bool) \<Rightarrow> 'fs \<Rightarrow> event list \<Rightarrow> ('fs, 's) DumpedFile NarEvent io_result list \<Rightarrow> bool" where
  "dumped_as plans fs evs items \<longleftrightarrow> (\<exists>ds. list_all (pred_NarEvent (fresh_reader (node fs))) ds \<and>
     (items = map Inr ds \<and> map (map_NarEvent (dumped_rest (node fs))) ds = evs \<or>
      (\<exists>e. items = map Inr ds @ [Inl e] \<and> prefix (map (map_NarEvent (dumped_rest (node fs))) ds) evs \<and> dump_err plans e)))"

lemma dumped_as_simps:
  "dumped_as plans fs [] []" "dump_err plans e \<Longrightarrow> dumped_as plans fs evs [Inl e]"
  by (auto simp: dumped_as_def intro: exI [of _ "[]"])

lemma dumped_as_Cons:
  assumes "dumped_as plans fs evs items" "pred_NarEvent (fresh_reader (node fs)) d"
  shows "dumped_as plans fs (map_NarEvent (dumped_rest (node fs)) d # evs) (Inr d # items)"
proof -
  obtain ds where ds: "list_all (pred_NarEvent (fresh_reader (node fs))) ds"
    "items = map Inr ds \<and> map (map_NarEvent (dumped_rest (node fs))) ds = evs \<or>
      (\<exists>e. items = map Inr ds @ [Inl e] \<and> prefix (map (map_NarEvent (dumped_rest (node fs))) ds) evs \<and> dump_err plans e)"
    using assms(1) by (auto simp: dumped_as_def)
  show ?thesis unfolding dumped_as_def by (rule exI [of _ "d # ds"]) (use ds assms(2) in auto)
qed

lemma dump_run_as:
  assumes "dumper_sim plans fs nd evs"
  shows "\<exists>items. dump_run ops walk plans fs k nd = Some items \<and> dumped_as plans fs evs items"
  using assms
proof (induction "(length evs, state_wait (nd_state nd))" arbitrary: k nd evs
    rule: wf_induct_rule [OF wf_lex_prod [OF wf_less_than wf_lex_prod [OF wf_less_than wf_less_than]]])
  case (1 nd evs k)
  obtain nd' res where r: "dumper_poll_next ops walk (plans k) fs nd = Some (nd', res)" "dumper_post plans fs nd evs nd' res"
    using dumper_poll [OF 1(2)] by blast
  consider (pend) "res = Pending" | (fin) "res = Ready None" | (bad) e where "res = Ready (Some (Inl e))" | (event) d where "res = Ready (Some (Inr d))"
    by (metis poll.exhaust option.exhaust sum.exhaust)
  then show ?case
  proof cases
    case pend
    then have "((length evs, state_wait (nd_state nd')), (length evs, state_wait (nd_state nd))) \<in> less_than <*lex*> less_than <*lex*> less_than"
      "dumper_sim plans fs nd' evs" using r(2) by (auto simp: dumper_post_def)
    with 1(1) r(1) pend show ?thesis by (subst dump_run.simps) simp
  next
    case fin
    then show ?thesis using r by (subst dump_run.simps) (simp add: dumper_post_def dumped_as_simps)
  next
    case bad
    then show ?thesis using r by (subst dump_run.simps) (simp add: dumper_post_def dumped_as_simps)
  next
    case (event d)
    then obtain evs' where e: "evs = map_NarEvent (dumped_rest (node fs)) d # evs'" "dumper_sim plans fs nd' evs'" "pred_NarEvent (fresh_reader (node fs)) d"
      using r(2) by (auto simp: dumper_post_def)
    obtain items where i: "dump_run ops walk plans fs (k + 1) nd' = Some items" "dumped_as plans fs evs' items"
      using 1(1) [of evs' nd' "k + 1"] e by auto
    show ?thesis using r(1) event e i dumped_as_Cons [OF i(2) e(3)] by (subst dump_run.simps) simp
  qed
qed

lemma dump_starts:
  assumes "reachable (node fs) root" "has_tree (node fs) root t" "nar_plain t" "nar_sorted (shown (do_use_case_hack options)) t" "level_fits 0 t"
  shows "dumper_sim plans fs (dump walk semaphore options fs (path_at root)) (nar_events [] (nar_rename (shown (do_use_case_hack options)) t))"
proof -
  let ?cmp = "if do_use_case_hack options then sort_case_hack else byte_cmp"
  have l: "left fs (wk_new walk fs ?cmp (path_at root)) = walk_paths root t"
    by (rule walk_new_law [OF assms(1-4)]) (rule sorts_by_shown)
  have "list_all (looked_up (node fs)) (walk_paths root t)" using walk_paths_looked_up [OF assms(2,3,1)] by (simp add: list_all_iff)
  then have "dumper_left plans fs (dump walk semaphore options fs (path_at root)) (map (entry_at (node fs)) (walk_paths root t))"
    by (auto simp: dumper_left_def dump_def l list_all_iff)
  with emits_root [OF assms(2,3,5)] show ?thesis by (auto simp: dumper_sim_def dump_def)
qed

end

section \<open>The readers\<close>

text \<open>\<open>read_to_end\<close> of tokio with a buffer of \<open>cap\<close> bytes.\<close>

partial_function (option) read_to_end :: "('r \<Rightarrow> nat \<Rightarrow> ('r, bytes) polled) \<Rightarrow> nat \<Rightarrow> 'r \<Rightarrow> bytes \<Rightarrow> bytes io_result option" where
  "read_to_end poll_read cap r acc =
     Option.bind (await (\<lambda>r. poll_read r cap) r) (\<lambda>(r, x). case x of
        Inl e \<Rightarrow> Some (Inl e)
      | Inr b \<Rightarrow> if b = [] then Some (Inr acc) else read_to_end poll_read cap r (acc @ b))"

text \<open>The semaphore, which nobody closes, gives a permit after a while.\<close>

locale file_reader = file_system ops node handle fs_err for ops :: "('fs, 'h) FsOps" and node handle fs_err +
  fixes acquire :: "'s \<Rightarrow> 's \<times> unit option poll" and permit_delay :: "'s \<Rightarrow> nat"
  assumes acquire_law: "acquire s = (s', res) \<Longrightarrow> (case res of Pending \<Rightarrow> permit_delay s' < permit_delay s | Ready x \<Rightarrow> x \<noteq> None)"
begin

fun reads_at :: "nat \<times> bool \<Rightarrow> 'fs \<Rightarrow> bytes \<Rightarrow> ('fs, 's) DumpedFile \<Rightarrow> bool" where
  "reads_at sched fs b (WaitPermit s (Some (path, sz))) \<longleftrightarrow>
     (\<exists>q x. path = path_at q \<and> sz = word_of_nat (length b) \<and> reachable (node fs) q \<and> node fs q = Some (FsFile x b))"
| "reads_at sched fs b (OpenFile (Running n aborted job)) \<longleftrightarrow> (aborted \<longrightarrow> snd sched) \<and>
     (\<exists>y. job fs = Some (fs, y) \<and> (case y of Inl e \<Rightarrow> fs_err e | Inr d \<Rightarrow> fd_as_slice d = b))"
| "reads_at sched fs b (Reading d pos) \<longleftrightarrow> b = drop pos (fd_as_slice d)"
| "reads_at sched fs b DumpedEof \<longleftrightarrow> b = []"
| "reads_at sched fs b _ \<longleftrightarrow> False"

fun reader_delay :: "nat \<times> bool \<Rightarrow> ('fs, 's) DumpedFile \<Rightarrow> nat" where
  "reader_delay sched (WaitPermit s _) = fst sched + 1 + permit_delay s"
| "reader_delay sched (OpenFile job) = join_left job"
| "reader_delay sched _ = 0"

definition read_err :: "nat \<times> bool \<Rightarrow> io_error \<Rightarrow> bool" where
  "read_err sched e \<longleftrightarrow> fs_err e \<or> e = IoError BrokenPipe ''spawned task failed'' \<and> snd sched"

definition reads_post :: "nat \<times> bool \<Rightarrow> 'fs \<Rightarrow> bytes \<Rightarrow> nat \<Rightarrow> ('fs, 's) DumpedFile \<Rightarrow> bytes io_result poll \<Rightarrow> bool" where
  "reads_post sched fs b n df' res \<longleftrightarrow>
     (case res of
        Pending \<Rightarrow> reads_at sched fs b df' \<and> reader_delay sched df' < n
      | Ready (Inl e) \<Rightarrow> read_err sched e
      | Ready (Inr x) \<Rightarrow> (\<exists>b'. b = x @ b' \<and> reads_at sched fs b' df' \<and> (x = [] \<longrightarrow> b = [])))"

abbreviation reads_step :: "nat \<times> bool \<Rightarrow> 'fs \<Rightarrow> bytes \<Rightarrow> nat \<Rightarrow> ('fs, 's) DumpedFile \<Rightarrow> nat \<Rightarrow> bool" where
  "reads_step sched fs b n df cap \<equiv> \<exists>df' res. dumped_poll_read ops acquire sched fs df cap = Some (df', res) \<and> reads_post sched fs b n df' res"

lemma reading_step: "0 < cap \<Longrightarrow> fd_as_slice d = b \<Longrightarrow> reads_step sched fs (drop pos b) n (Reading d pos) cap"
proof (cases "drop pos b = []")
  case True
  assume "fd_as_slice d = b"
  with True show ?thesis by (subst dumped_poll_read.simps) (simp add: Let_def reads_post_def)
next
  case False
  assume h: "0 < cap" "fd_as_slice d = b"
  let ?n = "min (length (drop pos b)) cap"
  have "drop pos b = take ?n (drop pos b) @ drop (pos + ?n) b" by (metis append_take_drop_id drop_drop add.commute)
  moreover have "take ?n (drop pos b) \<noteq> []" using False h(1) by simp
  ultimately show ?thesis using False h by (subst dumped_poll_read.simps) (auto simp: Let_def reads_post_def)
qed

lemma open_step:
  assumes "reads_at sched fs b (OpenFile (Running n aborted job))" "0 < cap" "n \<le> k"
  shows "reads_step sched fs b k (OpenFile (Running n aborted job)) cap"
proof -
  obtain y where y: "job fs = Some (fs, y)" "case y of Inl e \<Rightarrow> fs_err e | Inr d \<Rightarrow> fd_as_slice d = b" using assms(1) by auto
  consider (wait) n' where "n = Suc n'" | (abort) "n = 0" "aborted" | (ended) "n = 0" "\<not> aborted" by (cases n) auto
  then show ?thesis
  proof cases
    case wait
    then show ?thesis using assms by (subst dumped_poll_read.simps) (auto simp: reads_post_def)
  next
    case abort
    then show ?thesis using assms by (subst dumped_poll_read.simps) (simp add: reads_post_def read_err_def)
  next
    case ended
    show ?thesis
    proof (cases y)
      case (Inl e)
      with ended y show ?thesis by (subst dumped_poll_read.simps) (simp add: reads_post_def read_err_def)
    next
      case (Inr d)
      with ended y reading_step [OF assms(2), of d b sched fs 0 k] show ?thesis by (subst dumped_poll_read.simps) simp
    qed
  qed
qed

lemma dumped_step:
  assumes "reads_at sched fs b df" "0 < cap"
  shows "reads_step sched fs b (reader_delay sched df) df cap"
proof (cases df)
  case (WaitPermit s f)
  then obtain path sz q x where f: "f = Some (path_at q, word_of_nat (length b))" "reachable (node fs) q" "node fs q = Some (FsFile x b)"
    using assms(1) by (cases f) auto
  obtain s' res where a: "acquire s = (s', res)" by (cases "acquire s")
  show ?thesis
  proof (cases res)
    case Pending
    then show ?thesis using acquire_law [OF a] a f WaitPermit by (subst dumped_poll_read.simps) (auto simp: reads_post_def)
  next
    case (Ready p)
    then obtain u where p: "p = Some u" using acquire_law [OF a] by auto
    let ?h = "Running (fst sched) (snd sched) (open_job ops (path_at q) (word_of_nat (length b)))"
    have "reads_at sched fs b (OpenFile ?h)"
    proof (cases "word_of_nat (length b) \<le> SMALL_FILE_THRESHOLD")
      case True
      then show ?thesis using read_law [OF f(2,3)] by (auto simp: open_job_def split: sum.splits)
    next
      case False
      then have "word_of_nat (length b) \<noteq> (0 :: u64)" by auto
      from mapped_open_law [OF f(2,3) this] False show ?thesis by (auto simp: open_job_def split: sum.splits)
    qed
    from open_step [OF this assms(2), of "reader_delay sched df"] show ?thesis using a Ready p f WaitPermit
      by (subst dumped_poll_read.simps) (simp add: spawn_blocking_def)
  qed
next
  case (OpenFile job)
  then show ?thesis using assms open_step by (cases job) auto
next
  case (Reading d pos)
  then show ?thesis using assms reading_step by simp
next
  case DumpedEof
  then show ?thesis using assms by (subst dumped_poll_read.simps) (auto simp: reads_post_def)
qed

lemma dumped_awaits:
  assumes "reads_at sched fs b df" "0 < cap"
  shows "\<exists>df' x. await (\<lambda>df. dumped_poll_read ops acquire sched fs df cap) df = Some (df', x) \<and> reads_post sched fs b 0 df' (Ready x)"
proof (rule await_spec [where I = "reads_at sched fs b" and m = "reader_delay sched"])
  fix df1 assume "reads_at sched fs b df1"
  from dumped_step [OF this assms(2)] obtain df2 res where r: "dumped_poll_read ops acquire sched fs df1 cap = Some (df2, res)"
    "reads_post sched fs b (reader_delay sched df1) df2 res" by blast
  then show "\<exists>s' res. dumped_poll_read ops acquire sched fs df1 cap = Some (s', res) \<and>
      (case res of Pending \<Rightarrow> reads_at sched fs b s' \<and> reader_delay sched s' < reader_delay sched df1 | Ready x \<Rightarrow> reads_post sched fs b 0 s' (Ready x))"
    by (cases res) (auto simp: reads_post_def)
qed (rule assms(1))

lemma dumped_reads_out:
  assumes "reads_at sched fs b df" "0 < cap"
  shows "\<exists>x. read_to_end (dumped_poll_read ops acquire sched fs) cap df acc = Some x \<and> (case x of Inl e \<Rightarrow> read_err sched e | Inr c \<Rightarrow> c = acc @ b)"
  using assms(1)
proof (induction "length b" arbitrary: b df acc rule: less_induct)
  case less
  obtain df' x where x: "await (\<lambda>df. dumped_poll_read ops acquire sched fs df cap) df = Some (df', x)" "reads_post sched fs b 0 df' (Ready x)"
    using dumped_awaits [OF less.prems assms(2)] by blast
  show ?case
  proof (cases x)
    case (Inl e)
    then show ?thesis using x by (subst read_to_end.simps) (simp add: reads_post_def)
  next
    case (Inr d)
    then obtain b' where b': "b = d @ b'" "reads_at sched fs b' df'" "d = [] \<longrightarrow> b = []" using x(2) by (auto simp: reads_post_def)
    show ?thesis
    proof (cases "d = []")
      case True
      then show ?thesis using x(1) Inr b' by (subst read_to_end.simps) simp
    next
      case False
      then show ?thesis using less.hyps [OF _ b'(2), of "acc @ d"] x(1) Inr b'(1) by (subst read_to_end.simps) (simp cong: sum.case_cong)
    qed
  qed
qed

lemma fresh_reads_out:
  assumes "fresh_reader (node fs) df" "0 < cap"
  shows "\<exists>x. read_to_end (dumped_poll_read ops acquire sched fs) cap df [] = Some x \<and>
    (case x of Inl e \<Rightarrow> fs_err e \<or> e = IoError BrokenPipe ''spawned task failed'' \<and> snd sched | Inr c \<Rightarrow> c = dumped_rest (node fs) df)"
proof -
  obtain q x c s where f: "df = dumped_new (path_at q) (word_of_nat (length c)) s" "reachable (node fs) q" "node fs q = Some (FsFile x c)"
    using assms(1) by (auto simp: fresh_reader_def)
  then have "reads_at sched fs c df" "dumped_rest (node fs) df = c" by (auto simp: dumped_new_def dumped_rest_def contents_at_def)
  with dumped_reads_out [OF _ assms(2), of sched fs c df "[]"] show ?thesis by (simp add: read_err_def cong: sum.case_cong)
qed

end

end
