(* ===== verification/Nar_Tree.thy ===== *)
theory Nar_Tree
  imports Nar_Dumper
begin

text \<open>
  Archives and directories together: a walk over the file system in memory, which keeps the contract of \<open>walkdir\<close>, and the properties of the dumper and of the restorer
  and the dumper in turn.
\<close>

section \<open>A walk in memory\<close>

fun path_le :: "(bytes \<Rightarrow> bytes \<Rightarrow> Ordering) \<Rightarrow> bytes list \<Rightarrow> bytes list \<Rightarrow> bool" where
  "path_le cmp [] q \<longleftrightarrow> True"
| "path_le cmp (a # p) [] \<longleftrightarrow> False"
| "path_le cmp (a # p) (b # q) \<longleftrightarrow> (case cmp a b of Less \<Rightarrow> True | Equal \<Rightarrow> path_le cmp p q | Greater \<Rightarrow> False)"

fun path_insert :: "(bytes \<Rightarrow> bytes \<Rightarrow> Ordering) \<Rightarrow> bytes list \<Rightarrow> bytes list list \<Rightarrow> bytes list list" where
  "path_insert cmp p [] = [p]"
| "path_insert cmp p (q # ps) = (if path_le cmp p q then p # q # ps else q # path_insert cmp p ps)"

definition mem_walk :: "(MemFs, bytes list list) Walk" where
  "mem_walk = \<lparr>wk_new = (\<lambda>fs cmp p. foldr (path_insert cmp) (filter (prefix (pb_names p)) (remdups (map fst fs))) []),
     wk_next = (\<lambda>w fs. case w of [] \<Rightarrow> ([], None) | q # w \<Rightarrow> (w, Some (Inr (path_at q))))\<rparr>"

lemma path_le_key:
  assumes "\<And>a b. cmp a b = byte_cmp (key a) (key b)"
  shows "path_le cmp p q \<longleftrightarrow> map key p \<le> map key q"
  using assms by (induction cmp p q rule: path_le.induct) (auto simp: byte_cmp_def)

lemma path_insert_key:
  assumes "\<And>a b. cmp a b = byte_cmp (key a) (key b)"
  shows "path_insert cmp p ps = insort_key (map key) p ps"
  by (induction ps) (simp_all add: path_le_key [OF assms])

lemma lex_append_less: "a < b \<Longrightarrow> xs @ a # us < xs @ b # (vs :: 'a :: order list)"
  by (induction xs) auto

lemma entries_walk_set: "q \<in> set (entries_walk ns es) \<longleftrightarrow> (\<exists>n t. (n, t) \<in> set es \<and> q \<in> set (walk_paths (ns @ [n]) t))"
  by (induction es) auto

lemma entries_walk_sorted:
  fixes key :: "bytes \<Rightarrow> bytes"
  assumes "\<And>n t. (n, t) \<in> set es \<Longrightarrow> sorted_wrt (<) (map (map key) (walk_paths (ns @ [n]) t))" "sorted_wrt (<) (map (\<lambda>(n, t). key n) es)"
  shows "sorted_wrt (<) (map (map key) (entries_walk ns es))"
  using assms
proof (induction es)
  case (Cons e es)
  obtain n t where e: "e = (n, t)" by (cases e)
  have "map key p < map key q" if pq: "p \<in> set (walk_paths (ns @ [n]) t)" "q \<in> set (entries_walk ns es)" for p q
  proof -
    obtain n' t' where n': "(n', t') \<in> set es" "q \<in> set (walk_paths (ns @ [n']) t')" using pq(2) by auto
    then have "key n < key n'" using Cons.prems(2) by (force simp: e)
    moreover obtain us vs where "p = ns @ n # us" "q = ns @ n' # vs"
      using walk_paths_prefix [OF pq(1)] walk_paths_prefix [OF n'(2)] by (auto simp: prefix_def)
    ultimately show ?thesis using lex_append_less [of "key n" "key n'" "map key ns" "map key us" "map key vs"] by simp
  qed
  then have "\<forall>p \<in> set (map (map key) (walk_paths (ns @ [n]) t)). \<forall>q \<in> set (map (map key) (entries_walk ns es)). p < q" by (simp only: set_map) blast
  moreover have "sorted_wrt (<) (map (map key) (walk_paths (ns @ [n]) t))" using Cons.prems(1) [of n t] by (simp add: e)
  moreover have "sorted_wrt (<) (map (map key) (entries_walk ns es))" using Cons.prems by (intro Cons.IH) (auto simp: e)
  moreover have "map (map key) (entries_walk ns (e # es)) = map (map key) (walk_paths (ns @ [n]) t) @ map (map key) (entries_walk ns es)" by (simp add: e)
  ultimately show ?case by (simp only: sorted_wrt_append)
qed simp

lemma walk_paths_sorted: "nar_sorted key t \<Longrightarrow> sorted_wrt (<) (map (map key) (walk_paths ns t))"
proof (induction t arbitrary: ns rule: nar.induct)
  case (NarDirectory es)
  have "sorted_wrt (<) (map (map key) (entries_walk ns es))"
  proof (rule entries_walk_sorted)
    fix n t assume "(n, t) \<in> set es"
    then show "sorted_wrt (<) (map (map key) (walk_paths (ns @ [n]) t))" using NarDirectory.IH [of "(n, t)" t] NarDirectory.prems by (auto simp: list_all_iff)
  qed (use NarDirectory.prems in simp)
  moreover have "map key ns < map key q" if q: "q \<in> set (entries_walk ns es)" for q
  proof -
    obtain n t where "(n, t) \<in> set es" "q \<in> set (walk_paths (ns @ [n]) t)" using q unfolding entries_walk_set by blast
    from walk_paths_prefix [OF this(2)] obtain us where "q = ns @ n # us" by (auto simp: prefix_def)
    moreover have "xs < xs @ a # as" for xs :: "bytes list" and a as by (induction xs) auto
    ultimately show ?thesis by simp
  qed
  ultimately show ?case by auto
qed auto

lemma mem_walk_new:
  assumes "has_tree (map_of fs) ns t" "nar_sorted key t" "reachable (map_of fs) ns" "nar_plain t"
    and "\<And>a b. cmp a b = byte_cmp (key a) (key b)"
  shows "wk_new mem_walk fs cmp (path_at ns) = walk_paths ns t"
proof -
  let ?ps = "filter (prefix ns) (remdups (map fst fs))"
  have "path_insert cmp = insort_key (map key)" by (intro ext path_insert_key [OF assms(5)])
  then have new: "wk_new mem_walk fs cmp (path_at ns) = sort_key (map key) ?ps"
    by (simp add: mem_walk_def sort_key_def)
  have sorted: "sorted (map (map key) (walk_paths ns t))" "distinct (map (map key) (walk_paths ns t))"
    using walk_paths_sorted [OF assms(2)] by (auto simp: strict_sorted_iff)
  have set: "set ?ps = set (walk_paths ns t)"
  proof (intro subset_antisym subsetI)
    fix q assume "q \<in> set ?ps"
    then have "map_of fs q \<noteq> None" "prefix ns q" by (simp_all add: map_of_eq_None_iff)
    then show "q \<in> set (walk_paths ns t)" using walk_paths_complete [OF assms(1)] by (auto simp: prefix_def)
  next
    fix q assume q: "q \<in> set (walk_paths ns t)"
    from walk_paths_looked_up [OF assms(1,4,3) q] have "map_of fs q \<noteq> None" by (auto simp: looked_up_def)
    then show "q \<in> set ?ps" using walk_paths_prefix [OF q] by (simp add: map_of_eq_None_iff)
  qed
  have inj: "inj_on (map key) (set (walk_paths ns t))" using sorted(2) by (simp add: distinct_map)
  show ?thesis unfolding new
    by (rule map_sorted_distinct_set_unique [where f = "map key"]) (use sorted set inj in \<open>simp_all add: distinct_map\<close>)
qed

interpretation mem_walking: walk_dir mem_ops map_of "\<lambda>h. h" "\<lambda>_. False" mem_walk "\<lambda>fs w. w"
proof
  fix fs :: MemFs and ns t key cmp
  assume "reachable (map_of fs) ns" "has_tree (map_of fs) ns t" "nar_plain t" "nar_sorted key t" "\<And>a b. cmp a b = byte_cmp (key a) (key b)"
  then show "wk_new mem_walk fs cmp (path_at ns) = walk_paths ns t" by (intro mem_walk_new)
next
  fix fs :: MemFs and w w' y
  assume "wk_next mem_walk w fs = (w', y)"
  then show "case y of None \<Rightarrow> w = [] | Some (Inl e) \<Rightarrow> False | Some (Inr p) \<Rightarrow> \<exists>q. p = path_at q \<and> w = q # w'"
    by (auto simp: mem_walk_def split: list.splits)
qed

text \<open>A semaphore that gives its permit after some polls.\<close>

fun mem_acquire :: "nat \<Rightarrow> nat \<times> unit option poll" where
  "mem_acquire 0 = (0, Ready (Some ()))"
| "mem_acquire (Suc n) = (n, Pending)"

interpretation mem_reader: file_reader mem_ops map_of "\<lambda>h. h" "\<lambda>_. False" mem_acquire "\<lambda>n. n"
proof
  fix s s' res assume "mem_acquire s = (s', res)"
  then show "case res of Pending \<Rightarrow> s' < s | Ready x \<Rightarrow> x \<noteq> None" by (cases s) auto
qed

section \<open>Properties\<close>

context walk_dir
begin

lemma dump_tree:
  assumes "reachable (node fs) root" "has_tree (node fs) root t" "nar_plain t" "nar_sorted (shown (do_use_case_hack options)) t" "level_fits 0 t"
  shows "\<exists>items ds. dump_run ops walk plans fs 0 (dump walk semaphore options fs (path_at root)) = Some items \<and> list_all (pred_NarEvent (fresh_reader (node fs))) ds \<and>
    (items = map Inr ds \<and> map (map_NarEvent (dumped_rest (node fs))) ds = nar_events [] (nar_rename (shown (do_use_case_hack options)) t) \<or>
     (\<exists>e. items = map Inr ds @ [Inl e] \<and> prefix (map (map_NarEvent (dumped_rest (node fs))) ds) (nar_events [] (nar_rename (shown (do_use_case_hack options)) t)) \<and>
        (fs_err e \<or> e = IoError OtherKind ''task failed'' \<and> (\<exists>k. snd (plans k)))))"
  using dump_run_as [OF dump_starts [OF assms, where semaphore = semaphore and plans = plans], of 0] unfolding dumped_as_def dump_err_def by blast

end

text \<open>
  C8. Dumping. Over a directory that has the tree of an archive, with plain names that are distinct and sorted as they are shown, and not too deep for the level, whatever the runtime does with the tasks that read
  the directory, the stream of \<open>NarDumper\<close> ends. It yields exactly the events of the archive, with the suffixes of the case hack removed if it is on, or the first of them and
  an error, which comes from the file system or from an aborted task. Each reader yields the contents of its file when it is read to the end, or such an error.
\<close>

theorem dump_yields_tree:
  assumes "walk_dir ops node handle fs_err walk left" "file_reader ops node handle fs_err acquire permit_delay"
    and "reachable (node fs) root" "has_tree (node fs) root t" "nar_plain t" "nar_sorted (shown (do_use_case_hack options)) t" "level_fits 0 t" "0 < cap"
  shows "\<exists>items ds. dump_run ops walk plans fs 0 (dump walk semaphore options fs (path_at root)) = Some items \<and>
    (items = map Inr ds \<and> map (map_NarEvent (dumped_rest (node fs))) ds = nar_events [] (nar_rename (shown (do_use_case_hack options)) t) \<or>
     (\<exists>e. items = map Inr ds @ [Inl e] \<and> prefix (map (map_NarEvent (dumped_rest (node fs))) ds) (nar_events [] (nar_rename (shown (do_use_case_hack options)) t)) \<and>
        (fs_err e \<or> e = IoError OtherKind ''task failed'' \<and> (\<exists>k. snd (plans k))))) \<and>
    list_all (pred_NarEvent (\<lambda>df. \<exists>x. read_to_end (dumped_poll_read ops acquire sched fs) cap df [] = Some x \<and>
      (case x of Inl e \<Rightarrow> fs_err e \<or> e = IoError BrokenPipe ''spawned task failed'' \<and> snd sched | Inr c \<Rightarrow> c = dumped_rest (node fs) df))) ds"
proof -
  note reads = file_reader.fresh_reads_out [OF assms(2) _ assms(8), where sched = sched and fs = fs]
  have all: "list_all (pred_NarEvent (\<lambda>df. \<exists>x. read_to_end (dumped_poll_read ops acquire sched fs) cap df [] = Some x \<and>
      (case x of Inl e \<Rightarrow> fs_err e \<or> e = IoError BrokenPipe ''spawned task failed'' \<and> snd sched | Inr c \<Rightarrow> c = dumped_rest (node fs) df))) ds"
    if "list_all (pred_NarEvent (fresh_reader (node fs))) ds" for ds
    using that by (elim list.pred_mono_strong NarEvent.pred_mono_strong) (rule reads)
  from walk_dir.dump_tree [OF assms(1) assms(3-7), where plans = plans and semaphore = semaphore] show ?thesis
    by (elim exE conjE, intro exI conjI) (assumption | rule all)+
qed

text \<open>Two files whose names differ only in case, as a restorer with the case hack leaves them.\<close>

definition hacked_name :: bytes where
  "hacked_name = as_bytes (''a'' @ CASE_HACK_SUFFIX @ ''1'')"

definition hacked_tree :: nar where
  "hacked_tree = NarDirectory [([0x41], NarFile False [1]), (hacked_name, NarFile True [7, 8])]"

definition hacked_fs :: MemFs where
  "hacked_fs = [([[0x73], [0x6E], hacked_name], FsFile True [7, 8]), ([[0x73], [0x6E], [0x41]], FsFile False [1]), ([[0x73], [0x6E]], FsDirectory)] @ bare_fs"

lemma hacked_names: "remove_case_hack [0x41] = [0x41]" "remove_case_hack hacked_name = [0x61]" "plain_name hacked_name" "hacked_name \<noteq> [0x41]"
  by code_simp+

lemma hacked_fs_tree: "has_tree (map_of hacked_fs) [[0x73], [0x6E]] hacked_tree" "nar_plain hacked_tree"
proof -
  show p: "nar_plain hacked_tree" using hacked_names(3,4) by (simp add: hacked_tree_def plain_name_def)
  have "map_of hacked_fs = mount [[0x73], [0x6E]] hacked_tree (map_of bare_fs)" by (simp add: hacked_fs_def hacked_tree_def)
  then show "has_tree (map_of hacked_fs) [[0x73], [0x6E]] hacked_tree" using mount_has_tree [OF p bare_fs_free(1)] by simp
qed

lemma hacked_fs_reachable: "reachable (map_of hacked_fs) [[0x73], [0x6E]]"
  using bare_fs_reachable(1) by (auto simp: reachable_def hacked_fs_def strict_prefix_def prefix_Cons)

theorem dump_yields_tree_witness:
  "\<exists>ds. dump_run mem_ops mem_walk (\<lambda>_. (1, False)) hacked_fs 0
      (dump mem_walk (\<lambda>n. n) \<lparr>do_use_case_hack = True, do_max_open_files = 100\<rparr> hacked_fs (path_at [[0x73], [0x6E]])) = Some (map Inr ds) \<and>
    map (map_NarEvent (dumped_rest (map_of hacked_fs))) ds = [StartDirectory [], File [0x41] False 1 [1], File [0x61] True 2 [7, 8], EndDirectory]"
proof -
  let ?o = "\<lparr>do_use_case_hack = True, do_max_open_files = 100\<rparr>"
  have s: "nar_sorted (shown (do_use_case_hack ?o)) hacked_tree" "level_fits 0 hacked_tree" "0 < (1 :: nat)"
    using hacked_names by (simp_all add: hacked_tree_def shown_def)
  have evs: "nar_events [] (nar_rename (shown (do_use_case_hack ?o)) hacked_tree) = [StartDirectory [], File [0x41] False 1 [1], File [0x61] True 2 [7, 8], EndDirectory]"
    using hacked_names by (simp add: hacked_tree_def shown_def)
  from dump_yields_tree [OF mem_walking.walk_dir_axioms mem_reader.file_reader_axioms hacked_fs_reachable hacked_fs_tree s,
      where plans = "\<lambda>_. (1, False)" and semaphore = "\<lambda>n. n" and sched = "(1, False)"]
  show ?thesis
  proof (elim exE conjE disjE, goal_cases)
    case (1 items ds)
    then show ?case unfolding evs by (intro exI [of _ ds]) simp
  qed simp_all
qed

text \<open>
  C7. Restoring and dumping. When an archive with plain names, sorted as the format wants them, has been restored to a path without an error, dumping the path yields the events that were restored, with the
  contents of the files as they were, or the first of them and an error from outside.
\<close>

theorem restore_dump_roundtrip:
  fixes lower :: "bytes \<Rightarrow> 'l"
  assumes "restoring ops node handle fs_err rest good src_err fill consume avail delay" "walk_dir ops node handle fs_err walk left"
    and "nar_plain t" "nar_sorted (\<lambda>n. n) t" "level_fits 0 t" "root \<noteq> []" "reachable (node fs) root" "free_below (node fs) root"
    and "map (map_NarEvent rest) evs = nar_events [] t" "list_all (pred_NarEvent good) evs"
  shows "\<exists>fs' x. restore ops fill consume lower plans False (path_at root) fs (map Inr evs) = Some (fs', x) \<and>
    (case x of Inl e \<Rightarrow> we_operation e = JoinError \<and> (\<exists>k. snd (plans k)) \<or> fs_err (we_source e) \<or> src_err (we_source e)
     | Inr _ \<Rightarrow> \<exists>items ds. dump_run ops walk plans' fs' 0 (dump walk semaphore dump_options fs' (path_at root)) = Some items \<and>
        (items = map Inr ds \<and> map (map_NarEvent (dumped_rest (node fs'))) ds = map (map_NarEvent rest) evs \<or>
         (\<exists>e. items = map Inr ds @ [Inl e] \<and> prefix (map (map_NarEvent (dumped_rest (node fs'))) ds) (map (map_NarEvent rest) evs) \<and>
            (fs_err e \<or> e = IoError OtherKind ''task failed'' \<and> (\<exists>k. snd (plans' k))))))"
proof -
  obtain fs' x where r: "restore ops fill consume lower plans False (path_at root) fs (map Inr evs) = Some (fs', x)"
    "case x of Inl e \<Rightarrow> we_operation e = JoinError \<and> (\<exists>k. snd (plans k)) \<or> fs_err (we_source e) \<or> src_err (we_source e) | Inr _ \<Rightarrow> node fs' = mount root t (node fs)"
    using restoring.restored [OF assms(1,3,6-10), where lower = lower and plans = plans] by blast
  show ?thesis
  proof (cases x)
    case (Inl e)
    with r show ?thesis by auto
  next
    case (Inr u)
    then have fs': "node fs' = mount root t (node fs)" using r(2) by simp
    have key: "shown (do_use_case_hack dump_options) = (\<lambda>n. n)" by (simp add: shown_def dump_options_def fun_eq_iff)
    have "reachable (node fs') root" using assms(7) unfolding fs' by (rule reachable_mount) (auto simp: strict_prefix_def)
    moreover have "has_tree (node fs') root t" unfolding fs' using assms(3,8) by (rule mount_has_tree)
    ultimately have "\<exists>items ds. dump_run ops walk plans' fs' 0 (dump walk semaphore dump_options fs' (path_at root)) = Some items \<and>
        (items = map Inr ds \<and> map (map_NarEvent (dumped_rest (node fs'))) ds = map (map_NarEvent rest) evs \<or>
         (\<exists>e. items = map Inr ds @ [Inl e] \<and> prefix (map (map_NarEvent (dumped_rest (node fs'))) ds) (map (map_NarEvent rest) evs) \<and>
            (fs_err e \<or> e = IoError OtherKind ''task failed'' \<and> (\<exists>k. snd (plans' k)))))"
      using walk_dir.dump_tree [OF assms(2), where options = dump_options and fs = fs' and root = root and t = t and plans = plans' and semaphore = semaphore]
        assms(3-5,9) unfolding key nar_rename_id by (metis (no_types, lifting))
    with r(1) Inr show ?thesis by auto
  qed
qed

theorem restore_dump_roundtrip_witness:
  "\<exists>fs' ds. restore mem_ops (op_fill cursor_ops) (op_consume cursor_ops) (\<lambda>b. b) (\<lambda>_. (2, False)) False (path_at [[0x73], [0x6E]]) bare_fs
      (map Inr [StartDirectory [], File [0x61] True 2 \<lparr>cdata = [7, 8], cpos = 0\<rparr>, EndDirectory]) = Some (fs', Inr ()) \<and>
    dump_run mem_ops mem_walk (\<lambda>_. (1, False)) fs' 0 (dump mem_walk (\<lambda>n. n) dump_options fs' (path_at [[0x73], [0x6E]])) = Some (map Inr ds) \<and>
    map (map_NarEvent (dumped_rest (map_of fs'))) ds = [StartDirectory [], File [0x61] True 2 [7, 8], EndDirectory]"
proof -
  let ?t = "NarDirectory [([0x61], NarFile True [7, 8])]"
  let ?evs = "[StartDirectory [], File [0x61] True 2 \<lparr>cdata = [7, 8], cpos = 0\<rparr>, EndDirectory]"
  have p: "nar_plain ?t" "nar_sorted (\<lambda>n. n) ?t" "level_fits 0 ?t" "[[0x73], [0x6E]] \<noteq> ([] :: bytes list)" by (simp_all add: plain_name_def)
  have e: "map (map_NarEvent cursor_rest) ?evs = nar_events [] ?t" "list_all (pred_NarEvent cursor_good) ?evs"
    by (simp_all add: cursor_rest_def cursor_good_def)
  from restore_dump_roundtrip [OF mem_restoring.restoring_axioms mem_walking.walk_dir_axioms p bare_fs_reachable(1) bare_fs_free(1) e,
      where lower = "\<lambda>b. b" and plans = "\<lambda>_. (2, False)" and plans' = "\<lambda>_. (1, False)" and semaphore = "\<lambda>n. n"]
  show ?thesis
  proof (elim exE conjE, goal_cases)
    case (1 fs' x)
    obtain u where u: "x = Inr u" using 1(2) by (cases x) simp_all
    from 1(2) [unfolded u sum.case] show ?case
    proof (elim exE conjE disjE, goal_cases)
      case (1 items ds)
      then show ?case using \<open>restore _ _ _ _ _ _ _ _ _ = _\<close> u e(1) by (intro exI [of _ fs'] exI [of _ ds]) simp
    qed simp_all
  qed
qed

end
