(* ===== verification/Binary_Cache.thy ===== *)
theory Binary_Cache
  imports Daemon_Error Signatures Messages Utf8 File_System
begin

text \<open>
  The binary cache (\<open>harmonia-cache/src\<close>): the description of a store path (\<open>narinfo.rs\<close>), the download of its archive with ranges (\<open>nar.rs\<close>), and what they
  share (\<open>main.rs\<close>, \<open>store.rs\<close>, \<open>error.rs\<close>, \<open>cacheinfo.rs\<close>). A handler is a function of what actix hands it; a response is its status, its headers and its
  body. The pool and the client are the operations \<open>CacheClient\<close> on their common state. The parser of ranges is the crate \<open>http_range\<close> and a parameter. The
  errors of the configuration and of the start of the server have only their text.
\<close>

section \<open>Errors\<close>

datatype StoreError = PathQuery string string | StoreRemote DaemonError
datatype NarInfoError = QueryFailed string | InvalidUtf8 string | InvalidStoreDir string
datatype BuildLogError = LogQueryFailed string
datatype ServeError = ServeFailed io_error | AccessDenied string

datatype CacheError =
    CacheIo string io_error
  | ConfigError string
  | ServerError string
  | StoreErr StoreError
  | SigningErr ParseKeyError
  | FingerprintErr FingerprintError
  | NarInfoErr NarInfoError
  | BuildLogErr BuildLogError
  | ServeErr ServeError

definition status_code :: "CacheError \<Rightarrow> nat" where
  "status_code err = (case err of StoreErr (PathQuery _ _) \<Rightarrow> 404 | _ \<Rightarrow> 500)"

text \<open>The texts that the handlers put into other errors. \<open>debug\<close> is how std prints a path in quotes, \<open>lossy\<close> how bytes become text.\<close>

definition path_error_display :: "(string \<Rightarrow> string) \<Rightarrow> StorePathError \<Rightarrow> string" where
  "path_error_display debug e =
     (case e of
        NonAbsolute p \<Rightarrow> ''non-absolute store path '' @ debug p
      | NotInStore p \<Rightarrow> ''path '' @ debug p @ '' is not in store''
      | HashLength \<Rightarrow> ''invalid store path hash length''
      | NameLength \<Rightarrow> ''invalid store path name length''
      | Symbol i ch \<Rightarrow> ''invalid store path '' @ latin_char ch @ '' symbol at '' @ show_nat (unat i))"

definition store_error_display :: "(bytes \<Rightarrow> string) \<Rightarrow> StoreError \<Rightarrow> string" where
  "store_error_display lossy e =
     (case e of
        PathQuery hash reason \<Rightarrow> ''failed to query store path '' @ [CHR 39] @ hash @ [CHR 39] @ '': '' @ reason
      | StoreRemote e \<Rightarrow> ''Daemon communication error: '' @ error_display lossy e)"

section \<open>The store\<close>

record 'k CacheConfig =
  cc_virtual_store :: bytes
  cc_real_store :: "bytes option"
  cc_secret_keys :: "'k SecretKey list"
  cc_enable_compression :: bool
  cc_priority :: nat

record 'p CacheClient =
  co_acquire :: "'p \<Rightarrow> 'p \<times> (DaemonError + unit)"
  co_path_from_hash_part :: "'p \<Rightarrow> StorePathHash \<Rightarrow> 'p \<times> (DaemonError + StorePath option)"
  co_path_info :: "'p \<Rightarrow> StorePath \<Rightarrow> 'p \<times> (DaemonError + UnkeyedValidPathInfo option)"

definition cc_store_path :: "'k CacheConfig \<Rightarrow> PathBuf" where
  "cc_store_path config = parse_path (case cc_real_store config of Some real \<Rightarrow> real | None \<Rightarrow> cc_virtual_store config)"

definition get_real_path :: "Codecs \<Rightarrow> 'k CacheConfig \<Rightarrow> StorePath \<Rightarrow> PathBuf option" where
  "get_real_path cs config store_path = map_option (\<lambda>t. path_join (cc_store_path config) (as_bytes t)) (path_display cs store_path)"

type_synonym ('p, 'a) handled = "('p \<times> (CacheError + 'a)) option"

definition cache_acquire :: "'p CacheClient \<Rightarrow> 'p \<Rightarrow> 'p \<times> (CacheError + unit)" where
  "cache_acquire C s = map_prod id (result_map_err (\<lambda>e. StoreErr (StoreRemote e))) (co_acquire C s)"

definition nixhash :: "Codecs \<Rightarrow> (string \<Rightarrow> string) \<Rightarrow> (bytes \<Rightarrow> string) \<Rightarrow> 'p CacheClient \<Rightarrow> 'p \<Rightarrow> bytes \<Rightarrow> ('p, StorePath option) handled" where
  "nixhash cs debug lossy C s hash =
     (case decode_digest cs (from_utf8_unchecked hash) of
        None \<Rightarrow> None
      | Some (Inl e) \<Rightarrow> Some (s, Inl (StoreErr (PathQuery (lossy hash) (''Invalid hash format: '' @ path_error_display debug e))))
      | Some (Inr h) \<Rightarrow>
          (case cache_acquire C s of
             (s, Inl e) \<Rightarrow> Some (s, Inl e)
           | (s, Inr _) \<Rightarrow>
               Some (map_prod id (result_map_err (\<lambda>e. StoreErr (PathQuery (lossy hash) (error_display lossy e)))) (co_path_from_hash_part C s h))))"

section \<open>Responses\<close>

record NarInfo =
  ni_store_path :: bytes
  ni_url :: bytes
  ni_compression :: bytes
  ni_nar_hash :: bytes
  ni_nar_size :: u64
  ni_references :: "bytes list"
  ni_deriver :: "bytes option"
  ni_sigs :: "bytes list"
  ni_ca :: "bytes option"

text \<open>A body of an archive is the stream of the path, whole or a range of it, with the length that is announced.\<close>

datatype Body = BytesBody bytes | NarInfoJson NarInfo | NarBody u64 PathBuf | NarRange u64 PathBuf u64 u64 | NoBody

record Response =
  rp_status :: nat
  rp_headers :: "(string \<times> bytes) list"
  rp_body :: Body

definition cache_control_max_age :: "nat \<Rightarrow> string \<times> bytes" where
  "cache_control_max_age max_age = (''Cache-Control'', as_bytes (''max-age='' @ show_nat max_age))"

definition cache_control_max_age_1y :: "string \<times> bytes" where
  "cache_control_max_age_1y = cache_control_max_age (365 * 24 * 60 * 60)"

definition cache_control_max_age_1d :: "string \<times> bytes" where
  "cache_control_max_age_1d = cache_control_max_age (24 * 60 * 60)"

definition cache_control_no_store :: "string \<times> bytes" where
  "cache_control_no_store = (''Cache-Control'', as_bytes ''no-store'')"

definition not_found :: "string \<times> bytes \<Rightarrow> string \<Rightarrow> Response" where
  "not_found control body = \<lparr>rp_status = 404, rp_headers = [control], rp_body = BytesBody (as_bytes body)\<rparr>"

definition cacheinfo_get :: "'k CacheConfig \<Rightarrow> Response" where
  "cacheinfo_get config =
     \<lparr>rp_status = 200, rp_headers = [(''Content-Type'', as_bytes ''text/x-nix-cache-info'')],
       rp_body = BytesBody (concat [as_bytes ''StoreDir: '', cc_virtual_store config, [0x0A], as_bytes ''WantMassQuery: 1'', [0x0A], as_bytes ''Priority: '',
         as_bytes (show_nat (cc_priority config)), [0x0A]])\<rparr>"

section \<open>Descriptions\<close>

definition sign_all :: "Codecs \<Rightarrow> 'k Ring \<Rightarrow> 'k SecretKey list \<Rightarrow> bytes \<Rightarrow> bytes list option" where
  "sign_all cs R sign_keys fingerprint = those (map (\<lambda>sk. Option.bind (sk_sign R sk fingerprint) (\<lambda>sig. map_option as_bytes (sig_display cs sig))) sign_keys)"

text \<open>The signatures are added last; the description without them comes first.\<close>

definition unsigned_narinfo :: "Codecs \<Rightarrow> bytes \<Rightarrow> StorePath \<Rightarrow> string \<Rightarrow> UnkeyedValidPathInfo \<Rightarrow> NarInfo option" where
  "unsigned_narinfo cs virtual_nix_store store_path hash info =
     Option.bind (base32_display cs nar_hash_common False (vi_nar_hash info)) (\<lambda>nar_hash.
     Option.bind (base32_display cs nar_hash_common True (vi_nar_hash info)) (\<lambda>nar_hash_bare.
     Option.bind (path_display cs store_path) (\<lambda>store_path_str.
     Option.bind (those (map (path_display cs) (vi_references info))) (\<lambda>references.
     Option.bind (case vi_deriver info of None \<Rightarrow> Some None | Some d \<Rightarrow> map_option Some (path_display cs d)) (\<lambda>deriver.
     Option.bind (case vi_ca info of None \<Rightarrow> Some None | Some ca \<Rightarrow> map_option Some (ca_display cs ca)) (\<lambda>ca.
       Some \<lparr>ni_store_path = concat [virtual_nix_store, as_bytes ''/'', as_bytes store_path_str],
         ni_url = concat [as_bytes ''nar/'', as_bytes nar_hash_bare, as_bytes ''.nar?hash='', as_bytes hash],
         ni_compression = as_bytes ''none'', ni_nar_hash = as_bytes nar_hash, ni_nar_size = vi_nar_size info,
         ni_references = map as_bytes references, ni_deriver = map_option as_bytes deriver, ni_sigs = [], ni_ca = map_option as_bytes ca\<rparr>))))))"

definition query_narinfo ::
  "Codecs \<Rightarrow> 'k Ring \<Rightarrow> 'p CacheClient \<Rightarrow> 'p \<Rightarrow> bytes \<Rightarrow> StorePath \<Rightarrow> string \<Rightarrow> 'k SecretKey list \<Rightarrow> ('p, NarInfo option) handled" where
  "query_narinfo cs R C s virtual_nix_store store_path hash sign_keys =
     (case cache_acquire C s of
        (s, Inl e) \<Rightarrow> Some (s, Inl e)
      | (s, Inr _) \<Rightarrow>
          (case co_path_info C s store_path of
             (s, Inl e) \<Rightarrow> Some (s, Inl (StoreErr (StoreRemote e)))
           | (s, Inr None) \<Rightarrow> Some (s, Inr None)
           | (s, Inr (Some info)) \<Rightarrow>
               Option.bind (unsigned_narinfo cs virtual_nix_store store_path hash info) (\<lambda>res.
                 case from_utf8 virtual_nix_store of
                   Inl e \<Rightarrow> Some (s, Inl (NarInfoErr (InvalidUtf8 e)))
                 | Inr dir \<Rightarrow>
                     Option.bind (fingerprint_path cs (StoreDir dir) store_path (ni_nar_hash res) (ni_nar_size res) (vi_references info)) (\<lambda>f.
                       case f of
                         Inl e \<Rightarrow> Some (s, Inl (FingerprintErr e))
                       | Inr fingerprint \<Rightarrow>
                           Option.bind (sign_all cs R sign_keys fingerprint) (\<lambda>sigs.
                             if sigs = []
                             then map_option (\<lambda>old. (s, Inr (Some (res\<lparr>ni_sigs := map as_bytes old\<rparr>)))) (those (map (sig_display cs) (vi_signatures info)))
                             else Some (s, Inr (Some (res\<lparr>ni_sigs := sigs\<rparr>))))))))"

definition push_line :: "string \<Rightarrow> bytes \<Rightarrow> bytes" where
  "push_line label value = as_bytes label @ value @ [0x0A]"

definition format_narinfo_txt :: "NarInfo \<Rightarrow> bytes" where
  "format_narinfo_txt n =
     push_line ''StorePath: '' (ni_store_path n) @ push_line ''URL: '' (ni_url n) @ push_line ''Compression: '' (ni_compression n) @
     push_line ''FileHash: '' (ni_nar_hash n) @ push_line ''FileSize: '' (as_bytes (show_nat (unat (ni_nar_size n)))) @
     push_line ''NarHash: '' (ni_nar_hash n) @ push_line ''NarSize: '' (as_bytes (show_nat (unat (ni_nar_size n)))) @
     (if ni_references n \<noteq> [] then as_bytes ''References:'' @ concat (map (\<lambda>r. 0x20 # r) (ni_references n)) @ [0x0A] else []) @
     (case ni_deriver n of Some drv \<Rightarrow> push_line ''Deriver: '' drv | None \<Rightarrow> []) @
     concat (map (push_line ''Sig: '') (ni_sigs n)) @
     (case ni_ca n of Some ca \<Rightarrow> push_line ''CA: '' ca | None \<Rightarrow> [])"

definition narinfo_get ::
  "Codecs \<Rightarrow> 'k Ring \<Rightarrow> (string \<Rightarrow> string) \<Rightarrow> (bytes \<Rightarrow> string) \<Rightarrow> 'p CacheClient \<Rightarrow> 'k CacheConfig \<Rightarrow> 'p \<Rightarrow> string \<Rightarrow> bool \<Rightarrow> ('p, Response) handled" where
  "narinfo_get cs R debug lossy C config s hash json =
     (case nixhash cs debug lossy C s (as_bytes hash) of
        None \<Rightarrow> None
      | Some (s, Inl e) \<Rightarrow>
          Some (s, Inl (NarInfoErr (QueryFailed (''Could not query nar hash in database: Store error: '' @
            (case e of StoreErr x \<Rightarrow> store_error_display lossy x | _ \<Rightarrow> [])))))
      | Some (s, Inr None) \<Rightarrow> Some (s, Inr (not_found cache_control_no_store ''missed hash''))
      | Some (s, Inr (Some store_path)) \<Rightarrow>
          (case query_narinfo cs R C s (cc_virtual_store config) store_path hash (cc_secret_keys config) of
             None \<Rightarrow> None
           | Some (s, Inl e) \<Rightarrow> Some (s, Inl e)
           | Some (s, Inr None) \<Rightarrow> Some (s, Inr (not_found cache_control_max_age_1d ''missed hash''))
           | Some (s, Inr (Some narinfo)) \<Rightarrow>
               Some (s, Inr (if json
                 then \<lparr>rp_status = 200, rp_headers = [cache_control_max_age_1d], rp_body = NarInfoJson narinfo\<rparr>
                 else \<lparr>rp_status = 200, rp_headers = [(''Content-Type'', as_bytes ''text/x-nix-narinfo''), (''Nix-Link'', ni_url narinfo), cache_control_max_age_1d],
                   rp_body = BytesBody (format_narinfo_txt narinfo)\<rparr>))))"

section \<open>Downloads\<close>

text \<open>\<open>range_header\<close>: no header, a header that is not text, or its text.\<close>

definition nar_respond ::
  "(string \<Rightarrow> u64 \<Rightarrow> 'e + (u64 \<times> u64) list) \<Rightarrow> bool \<Rightarrow> u64 \<Rightarrow> PathBuf \<Rightarrow> string option option \<Rightarrow> Response option" where
  "nar_respond parse_range compression rlength real_path range_header =
     (let found = [(''Content-Type'', as_bytes ''application/x-nix-archive''), (''Accept-Ranges'', as_bytes ''bytes''), cache_control_max_age_1y] in
      case range_header of
        Some (Some header) \<Rightarrow>
          (case parse_range header rlength of
             Inr [] \<Rightarrow> None
           | Inr ((offset, range_length) # _) \<Rightarrow>
               if unat offset + unat range_length = 0 \<or> 2 ^ 64 \<le> unat offset + unat range_length then None
               else Some \<lparr>rp_status = 200,
                 rp_headers = (if compression then [(''Content-Encoding'', as_bytes ''none'')] else []) @
                   [(''Content-Range'', as_bytes (''bytes '' @ show_nat (unat offset) @ ''-'' @ show_nat (unat offset + unat range_length - 1) @ ''/'' @
                      show_nat (unat rlength)))] @ found,
                 rp_body = NarRange range_length real_path offset range_length\<rparr>
           | Inl _ \<Rightarrow>
               Some \<lparr>rp_status = 416, rp_headers = [(''Content-Range'', as_bytes (''bytes */'' @ show_nat (unat rlength)))], rp_body = NoBody\<rparr>)
      | Some None \<Rightarrow> Some \<lparr>rp_status = 400, rp_headers = [], rp_body = NoBody\<rparr>
      | None \<Rightarrow> Some \<lparr>rp_status = 200, rp_headers = found, rp_body = NarBody rlength real_path\<rparr>)"

definition nar_get ::
  "Codecs \<Rightarrow> (string \<Rightarrow> string) \<Rightarrow> (bytes \<Rightarrow> string) \<Rightarrow> (string \<Rightarrow> u64 \<Rightarrow> 'e + (u64 \<times> u64) list) \<Rightarrow> 'p CacheClient \<Rightarrow> 'k CacheConfig \<Rightarrow> 'p \<Rightarrow>
     string \<Rightarrow> string option \<Rightarrow> string option \<Rightarrow> string option option \<Rightarrow> ('p, Response) handled" where
  "nar_get cs debug lossy parse_range C config s narhash path_outhash query_hash range_header =
     (case (case query_hash of Some h \<Rightarrow> Some h | None \<Rightarrow> path_outhash) of
        None \<Rightarrow> Some (s, Inr (not_found cache_control_no_store ''missing outhash''))
      | Some outhash \<Rightarrow>
          (case decode_digest cs outhash of
             None \<Rightarrow> None
           | Some (Inl e) \<Rightarrow> Some (s, Inl (StoreErr (PathQuery outhash (''Invalid hash format: '' @ path_error_display debug e))))
           | Some (Inr h) \<Rightarrow>
               (case cache_acquire C s of
                  (s, Inl e) \<Rightarrow> Some (s, Inl e)
                | (s, Inr _) \<Rightarrow>
                    (case co_path_from_hash_part C s h of
                       (s, Inl e) \<Rightarrow> Some (s, Inl (StoreErr (PathQuery outhash (error_display lossy e))))
                     | (s, Inr None) \<Rightarrow> Some (s, Inr (not_found cache_control_no_store ''store path not found''))
                     | (s, Inr (Some store_path)) \<Rightarrow>
                         (case cache_acquire C s of
                            (s, Inl e) \<Rightarrow> Some (s, Inl e)
                          | (s, Inr _) \<Rightarrow>
                              (case co_path_info C s store_path of
                                 (s, Inl e) \<Rightarrow> Some (s, Inl (StoreErr (StoreRemote e)))
                               | (s, Inr None) \<Rightarrow> Some (s, Inr (not_found cache_control_no_store ''path info not found''))
                               | (s, Inr (Some info)) \<Rightarrow>
                                   Option.bind (base32_display cs nar_hash_common True (vi_nar_hash info)) (\<lambda>expected_hash.
                                     if narhash \<noteq> expected_hash then Some (s, Inr (not_found cache_control_no_store ''hash mismatch detected''))
                                     else Option.bind (get_real_path cs config store_path) (\<lambda>real_path.
                                       map_option (\<lambda>r. (s, Inr r))
                                         (nar_respond parse_range (cc_enable_compression config) (vi_nar_size info) real_path range_header)))))))))"

text \<open>The stream of a range. The numbers are \<open>u64\<close>; \<open>None\<close> is an overflow.\<close>

fun create_range_stream :: "nat \<Rightarrow> nat \<Rightarrow> nat \<Rightarrow> bytes io_result list \<Rightarrow> bytes io_result list option" where
  "create_range_stream offset len passed [] = Some []"
| "create_range_stream offset len passed (Inl e # items) = map_option ((#) (Inl e)) (create_range_stream offset len passed items)"
| "create_range_stream offset len passed (Inr data # items) =
     (if 2 ^ 64 \<le> passed + length data then None
      else if passed + length data \<le> offset then create_range_stream offset len (passed + length data) items
      else
        let start = (if passed < offset then offset - passed else 0);
            remaining = len - min (passed - offset) len
        in if remaining = 0 then Some []
           else if 2 ^ 64 \<le> start + remaining then None
           else let stop = min (start + remaining) (length data)
             in if start < stop
                then map_option ((#) (Inr (take (stop - start) (drop start data)))) (create_range_stream offset len (passed + length data) items)
                else create_range_stream offset len (passed + length data) items)"

section \<open>Ranges\<close>

text \<open>What a range stream still has to yield, when it has taken \<open>passed\<close> bytes.\<close>

definition range_left :: "nat \<Rightarrow> nat \<Rightarrow> nat \<Rightarrow> bytes \<Rightarrow> bytes" where
  "range_left offset len passed b = take (len - (passed - offset)) (drop (offset - passed) b)"

lemma range_left_skip: "passed + length d \<le> offset \<Longrightarrow> range_left offset len passed (d @ b) = range_left offset len (passed + length d) b"
  by (simp add: range_left_def)

lemma range_left_take:
  assumes "offset < passed + length d"
  shows "range_left offset len passed (d @ b) =
    take (min (offset - passed + (len - (passed - offset))) (length d) - (offset - passed)) (drop (offset - passed) d) @ range_left offset len (passed + length d) b"
proof -
  let ?k = "offset - passed" and ?r = "len - (passed - offset)"
  have "take ?r (drop ?k (d @ b)) = take ?r (drop ?k d) @ take (?r - (length d - ?k)) b" using assms by simp
  moreover have "(passed - offset) + (length d - ?k) = passed + length d - offset" using assms by arith
  then have "?r - (length d - ?k) = len - (passed + length d - offset)" by (simp only: diff_diff_left)
  moreover have mn: "min (?k + ?r) (length d) - ?k = min ?r (length (drop ?k d))" by (simp only: length_drop min_diff [symmetric] diff_add_inverse)
  moreover have "take (min n (length xs)) xs = take n xs" for n and xs :: bytes by (simp add: min_def)
  then have "take (min (?k + ?r) (length d) - ?k) (drop ?k d) = take ?r (drop ?k d)" unfolding mn by blast
  moreover have "offset - (passed + length d) = 0" using assms by simp
  ultimately show ?thesis unfolding range_left_def by (simp only: drop_0)
qed

lemma range_step:
  assumes "\<not> 2 ^ 64 \<le> passed + length d" "\<not> 2 ^ 64 \<le> offset - passed + (len - (passed - offset))" "\<not> passed + length d \<le> offset"
  shows "create_range_stream offset len passed (Inr d # items) =
    (let k = offset - passed; r = len - (passed - offset); stop = min (k + r) (length d) in
     if r = 0 then Some []
     else if k < stop then map_option ((#) (Inr (take (stop - k) (drop k d)))) (create_range_stream offset len (passed + length d) items)
     else create_range_stream offset len (passed + length d) items)"
proof -
  have r: "len - min (passed - offset) len = len - (passed - offset)" "(if passed < offset then offset - passed else 0) = offset - passed" by auto
  show ?thesis unfolding create_range_stream.simps(3) Let_def r if_not_P [OF assms(1)] if_not_P [OF assms(2)] if_not_P [OF assms(3)] ..
qed

lemma range_stream_run:
  assumes "passed + length (concat bs) < 2 ^ 64" "offset + len < 2 ^ 64"
  shows "\<exists>rs. create_range_stream offset len passed (map Inr bs) = Some (map Inr rs) \<and> concat rs = range_left offset len passed (concat bs) \<and> [] \<notin> set rs"
  using assms(1)
proof (induction bs arbitrary: passed)
  case Nil
  then show ?case by (simp add: range_left_def)
next
  case (Cons d bs)
  let ?k = "offset - passed" and ?r = "len - (passed - offset)"
  let ?x = "take (min (?k + ?r) (length d) - ?k) (drop ?k d)"
  obtain rs where rs: "create_range_stream offset len (passed + length d) (map Inr bs) = Some (map Inr rs)"
    "concat rs = range_left offset len (passed + length d) (concat bs)" "[] \<notin> set rs" using Cons.IH [of "passed + length d"] Cons.prems by auto
  have fits: "\<not> 2 ^ 64 \<le> passed + length d" "\<not> 2 ^ 64 \<le> ?k + ?r" using Cons.prems assms(2) by auto
  show ?case
  proof (cases "passed + length d \<le> offset")
    case True
    have "create_range_stream offset len passed (map Inr (d # bs)) = Some (map Inr rs)"
      unfolding list.map create_range_stream.simps(3) if_not_P [OF fits(1)] if_P [OF True] by (rule rs(1))
    moreover have "range_left offset len passed (concat (d # bs)) = concat rs" using True by (simp add: range_left_skip rs(2))
    ultimately show ?thesis using rs(3) by (intro exI [of _ rs]) simp
  next
    case False
    then have left: "range_left offset len passed (concat (d # bs)) = ?x @ concat rs" using range_left_take [of offset passed d len "concat bs"] rs(2) by simp
    note step = range_step [OF fits False, of "map Inr bs", unfolded Let_def rs(1) option.map]
    consider (full) "?r = 0" | (skipped) "?r \<noteq> 0" "\<not> ?k < min (?k + ?r) (length d)" | (some) "?r \<noteq> 0" "?k < min (?k + ?r) (length d)" by blast
    then show ?thesis
    proof cases
      case full
      then have "range_left offset len passed (concat (d # bs)) = []" by (simp add: range_left_def)
      with step full show ?thesis by (intro exI [of _ "[]"]) simp
    next
      case skipped
      then have "min (?k + ?r) (length d) - ?k = 0" by (simp only: not_less diff_is_0_eq)
      then have "?x = []" by (simp only: take_0)
      with left have "range_left offset len passed (concat (d # bs)) = concat rs" by (simp only: append_Nil)
      moreover have "create_range_stream offset len passed (map Inr (d # bs)) = Some (map Inr rs)"
        unfolding list.map step if_not_P [OF skipped(1)] if_not_P [OF skipped(2)] ..
      ultimately show ?thesis using rs(3) by (intro exI [of _ rs]) (simp only: not_False_eq_True simp_thms)
    next
      case some
      have "create_range_stream offset len passed (map Inr (d # bs)) = Some (map Inr (?x # rs))"
        unfolding list.map step if_not_P [OF some(1)] if_P [OF some(2)] ..
      moreover have "concat (?x # rs) = range_left offset len passed (concat (d # bs))" by (rule trans [OF concat.simps(2) left [symmetric]])
      moreover have "?x \<noteq> []" using some(2) by auto
      then have "[] \<notin> set (?x # rs)" using rs(3) unfolding list.set insert_iff by metis
      ultimately show ?thesis by blast
    qed
  qed
qed

text \<open>
  C12. Ranges. However the stream of an archive is cut into chunks, the stream of a range does not overflow, has no empty chunk, and yields exactly the bytes of the archive from
  \<open>offset\<close> on, at most \<open>len\<close> of them.
\<close>

theorem range_stream_exact:
  assumes "length (concat bs) < 2 ^ 64" "offset + len < 2 ^ 64"
  shows "\<exists>rs. create_range_stream offset len 0 (map Inr bs) = Some (map Inr rs) \<and> concat rs = take len (drop offset (concat bs)) \<and> [] \<notin> set rs"
  using range_stream_run [of 0 bs offset len] assms by (simp add: range_left_def)

theorem range_stream_exact_witness:
  "\<exists>rs. create_range_stream 2 3 0 [Inr [1, 2, 3], Inr [], Inr [4], Inr [5, 6]] = Some (map Inr rs) \<and> concat rs = [3, 4, 5]"
proof -
  have l: "length (concat [[1, 2, 3], [], [4], [5, 6 :: u8]]) < 2 ^ 64" "2 + 3 < (2 ^ 64 :: nat)" by simp_all
  obtain rs where "create_range_stream 2 3 0 (map Inr [[1, 2, 3], [], [4], [5, 6]]) = Some (map Inr rs)"
    "concat rs = take 3 (drop 2 (concat [[1, 2, 3], [], [4], [5, 6]]))"
    using range_stream_exact [OF l] by blast
  then show ?thesis by (intro exI [of _ rs]) simp
qed

section \<open>From the description to the archive\<close>

text \<open>A store with one path, for the witnesses.\<close>

definition sample_path :: StorePath where
  "sample_path = \<lparr>sp_hash = StorePathHash (replicate 20 7), sp_name = StorePathName ''hello''\<rparr>"

definition sample_info :: UnkeyedValidPathInfo where
  "sample_info = \<lparr>vi_deriver = None, vi_nar_hash = NarHash (Sha256 (replicate 32 3)), vi_references = [sample_path], vi_registration_time = None, vi_nar_size = 120,
     vi_ultimate = False, vi_signatures = [], vi_ca = Some (Text (Sha256 (replicate 32 3))), vi_store_dir = default_dir\<rparr>"

definition sample_client :: "unit CacheClient" where
  "sample_client = \<lparr>co_acquire = \<lambda>s. (s, Inr ()), co_path_from_hash_part = \<lambda>s h. (s, Inr (if h = sp_hash sample_path then Some sample_path else None)),
     co_path_info = \<lambda>s p. (s, Inr (if p = sample_path then Some sample_info else None))\<rparr>"

definition sample_key :: "bytes SecretKey" where
  "sample_key = \<lparr>sk_name = ''cache-1'', sk_key_data = replicate 32 7 @ replicate 32 7, sk_key = replicate 32 7\<rparr>"

definition sample_config :: "bytes CacheConfig" where
  "sample_config = \<lparr>cc_virtual_store = as_bytes ''/nix/store'', cc_real_store = None, cc_secret_keys = [sample_key], cc_enable_compression = False, cc_priority = 30\<rparr>"

text \<open>A store that answers, always in the same way.\<close>

definition steady :: "'p CacheClient \<Rightarrow> (StorePathHash \<Rightarrow> StorePath option) \<Rightarrow> (StorePath \<Rightarrow> UnkeyedValidPathInfo option) \<Rightarrow> bool" where
  "steady C lookup_hash info \<longleftrightarrow> (\<forall>s. snd (co_acquire C s) = Inr () \<and> (\<forall>h. snd (co_path_from_hash_part C s h) = Inr (lookup_hash h)) \<and> (\<forall>p. snd (co_path_info C s p) = Inr (info p)))"

lemma steady_acquire: "steady C lookup_hash info \<Longrightarrow> \<exists>s'. cache_acquire C s = (s', Inr ())"
  by (cases "co_acquire C s") (auto simp: steady_def cache_acquire_def dest: spec [of _ s])

lemma steady_find: "steady C lookup_hash info \<Longrightarrow> \<exists>s'. co_path_from_hash_part C s h = (s', Inr (lookup_hash h))"
  by (metis steady_def prod.collapse)

lemma steady_info: "steady C lookup_hash info \<Longrightarrow> \<exists>s'. co_path_info C s p = (s', Inr (info p))"
  by (metis steady_def prod.collapse)

lemma nixhash_found:
  assumes "steady C lookup_hash info" "decode_digest cs hash = Some (Inr h)"
  shows "\<exists>s'. nixhash cs debug lossy C s (as_bytes hash) = Some (s', Inr (lookup_hash h))"
proof -
  obtain s1 s2 where "cache_acquire C s = (s1, Inr ())" "co_path_from_hash_part C s1 h = (s2, Inr (lookup_hash h))"
    using steady_acquire [OF assms(1)] steady_find [OF assms(1)] by blast
  then show ?thesis using assms(2) by (simp add: nixhash_def)
qed

lemma nixhash_invalid:
  assumes "decode_digest cs hash = Some (Inl e)"
  shows "nixhash cs debug lossy C s (as_bytes hash) =
    Some (s, Inl (StoreErr (PathQuery (lossy (as_bytes hash)) (''Invalid hash format: '' @ path_error_display debug e))))"
  using assms by (simp add: nixhash_def)

text \<open>A description was made of the information about the path.\<close>

lemma unsigned_narinfo_Some:
  assumes "unsigned_narinfo cs dir p hash i = Some n"
  obtains nar_hash bare shown where "base32_display cs nar_hash_common False (vi_nar_hash i) = Some nar_hash"
    "base32_display cs nar_hash_common True (vi_nar_hash i) = Some bare" "path_display cs p = Some shown" "ni_nar_hash n = as_bytes nar_hash"
    "ni_store_path n = dir @ as_bytes (''/'' @ shown)" "ni_url n = as_bytes (''nar/'' @ bare @ ''.nar?hash='' @ hash)" "ni_nar_size n = vi_nar_size i"
  using assms by (auto simp: unsigned_narinfo_def bind_eq_Some_conv)

lemma query_narinfo_found:
  assumes "steady C lookup_hash info" "query_narinfo cs R C s dir p hash keys = Some (s', Inr (Some n))"
  obtains i n0 f where "info p = Some i" "unsigned_narinfo cs dir p hash i = Some n0" "n = n0\<lparr>ni_sigs := ni_sigs n\<rparr>" "utf8_valid dir"
    "fingerprint_path cs (StoreDir (from_utf8_unchecked dir)) p (ni_nar_hash n0) (ni_nar_size n0) (vi_references i) = Some (Inr f)"
proof -
  obtain s1 s2 where "cache_acquire C s = (s1, Inr ())" "co_path_info C s1 p = (s2, Inr (info p))"
    using steady_acquire [OF assms(1)] steady_info [OF assms(1)] by blast
  with assms(2) obtain i n0 x where i: "info p = Some i" "unsigned_narinfo cs dir p hash i = Some n0" "utf8_valid dir"
    "fingerprint_path cs (StoreDir (from_utf8_unchecked dir)) p (ni_nar_hash n0) (ni_nar_size n0) (vi_references i) = Some x"
    "(case x of Inl e \<Rightarrow> Some (s2, Inl (FingerprintErr e))
      | Inr fingerprint \<Rightarrow> Option.bind (sign_all cs R keys fingerprint) (\<lambda>sigs.
          if sigs = [] then map_option (\<lambda>old. (s2, Inr (Some (n0\<lparr>ni_sigs := map as_bytes old\<rparr>)))) (those (map (sig_display cs) (vi_signatures i)))
          else Some (s2, Inr (Some (n0\<lparr>ni_sigs := sigs\<rparr>))))) = Some (s', Inr (Some n))"
    by (cases "info p") (auto simp: query_narinfo_def bind_eq_Some_conv from_utf8_def split: if_split_asm)
  then obtain f sigs where "x = Inr f" "n = n0\<lparr>ni_sigs := sigs\<rparr>" by (cases x) (auto simp: bind_eq_Some_conv split: if_split_asm)
  with i that show thesis by simp
qed

lemma bare_length:
  assumes "base32_display cs nar_hash_common False h = Some full" "base32_display cs nar_hash_common True h = Some bare"
  shows "full = ''sha256:'' @ bare"
  using assms by (auto simp: base32_display_def nar_hash_common_def Let_def algo_name_def split: option.splits if_splits)

text \<open>
  C10. Whoever is handed a description can download the archive. If the store answers always in the same way and a description is made for a hash part, then it describes the store path that the
  store has for this hash part: it begins with this path, under the virtual store, and with a URL of the hash of the path's archive, of the 52
  characters that the route wants, and the hash part it was asked for, which is also sent as a link. And a request for this URL, at any later time, is answered with the archive of the same store
  path, read from where the path really is, under the length that the store has for it.
\<close>

theorem narinfo_url_served:
  assumes "steady C lookup_hash info" "narinfo_get cs R debug lossy C config s hash False = Some (s', Inr r)" "rp_status r = 200"
  shows "\<exists>h p i shown bare path. decode_digest cs hash = Some (Inr h) \<and> lookup_hash h = Some p \<and> info p = Some i \<and>
    path_display cs p = Some shown \<and> base32_display cs nar_hash_common True (vi_nar_hash i) = Some bare \<and> length bare = 52 \<and>
    (\<exists>more. rp_body r = BytesBody (push_line ''StorePath: '' (cc_virtual_store config @ as_bytes (''/'' @ shown)) @
       push_line ''URL: '' (as_bytes (''nar/'' @ bare @ ''.nar?hash='' @ hash)) @ more)) \<and>
    map_of (rp_headers r) ''Nix-Link'' = Some (as_bytes (''nar/'' @ bare @ ''.nar?hash='' @ hash)) \<and>
    get_real_path cs config p = Some path \<and>
    (\<forall>z. \<exists>z' q. nar_get cs debug lossy parse_range C config z bare None (Some hash) None = Some (z', Inr q) \<and> rp_status q = 200 \<and> rp_body q = NarBody (vi_nar_size i) path)"
proof -
  obtain h where h: "decode_digest cs hash = Some (Inr h)"
    using assms(2) nixhash_invalid [of cs hash] by (auto simp: narinfo_get_def nixhash_def split: option.splits sum.splits)
  obtain s1 where s1: "nixhash cs debug lossy C s (as_bytes hash) = Some (s1, Inr (lookup_hash h))" using nixhash_found [OF assms(1) h] by blast
  obtain p where p: "lookup_hash h = Some p" using assms(2,3) s1 by (cases "lookup_hash h") (auto simp: narinfo_get_def not_found_def)
  obtain n where q: "query_narinfo cs R C s1 (cc_virtual_store config) p hash (cc_secret_keys config) = Some (s', Inr (Some n))"
    and r: "rp_headers r = [(''Content-Type'', as_bytes ''text/x-nix-narinfo''), (''Nix-Link'', ni_url n), cache_control_max_age_1d]"
      "rp_body r = BytesBody (format_narinfo_txt n)"
    using assms(2,3) s1 p by (auto simp: narinfo_get_def not_found_def split: option.splits sum.splits)
  obtain i n0 f where i: "info p = Some i" "unsigned_narinfo cs (cc_virtual_store config) p hash i = Some n0" "n = n0\<lparr>ni_sigs := ni_sigs n\<rparr>"
    "fingerprint_path cs (StoreDir (from_utf8_unchecked (cc_virtual_store config))) p (ni_nar_hash n0) (ni_nar_size n0) (vi_references i) = Some (Inr f)"
    using query_narinfo_found [OF assms(1) q] by metis
  obtain full bare shown where b: "base32_display cs nar_hash_common False (vi_nar_hash i) = Some full" "base32_display cs nar_hash_common True (vi_nar_hash i) = Some bare"
    "path_display cs p = Some shown" "ni_nar_hash n0 = as_bytes full" "ni_url n0 = as_bytes (''nar/'' @ bare @ ''.nar?hash='' @ hash)"
    "ni_store_path n0 = cc_virtual_store config @ as_bytes (''/'' @ shown)"
    using unsigned_narinfo_Some [OF i(2)] by metis
  have url: "ni_url n = ni_url n0" "ni_store_path n = ni_store_path n0"
    using arg_cong [OF i(3), of ni_url] arg_cong [OF i(3), of ni_store_path] by simp_all
  have "length full = 59" using i(4) b(4) by (auto simp: fingerprint_path_def split: if_splits)
  then have len: "length bare = 52" using bare_length [OF b(1,2)] by simp
  obtain path where path: "get_real_path cs config p = Some path" using b(3) by (auto simp: get_real_path_def)
  have serve: "\<exists>z' q. nar_get cs debug lossy parse_range C config z bare None (Some hash) None = Some (z', Inr q) \<and> rp_status q = 200 \<and> rp_body q = NarBody (vi_nar_size i) path" for z
  proof -
    obtain z1 z2 z3 z4 where "cache_acquire C z = (z1, Inr ())" "co_path_from_hash_part C z1 h = (z2, Inr (Some p))" "cache_acquire C z2 = (z3, Inr ())"
      "co_path_info C z3 p = (z4, Inr (Some i))" using steady_acquire [OF assms(1)] steady_find [OF assms(1)] steady_info [OF assms(1)] p i(1) by metis
    then show ?thesis using h b(2) path by (simp add: nar_get_def nar_respond_def)
  qed
  have body: "\<exists>more. rp_body r = BytesBody (push_line ''StorePath: '' (cc_virtual_store config @ as_bytes (''/'' @ shown)) @
      push_line ''URL: '' (as_bytes (''nar/'' @ bare @ ''.nar?hash='' @ hash)) @ more)"
    unfolding r(2) format_narinfo_txt_def url b(5,6) by blast
  show ?thesis using h p i(1) b(2,3) len body r(1) url(1) b(5) path serve
    by (intro exI [of _ h] exI [of _ p] exI [of _ i] exI [of _ shown] exI [of _ bare] exI [of _ path]) simp
qed

text \<open>The information about a path from which a description can be made: it is what the daemon's wire carries.\<close>

definition described_ok :: "UnkeyedValidPathInfo \<Rightarrow> bool" where
  "described_ok i \<longleftrightarrow> nar_hash_ok (vi_nar_hash i) \<and> list_all path_ok (vi_references i) \<and> pred_option path_ok (vi_deriver i) \<and> pred_option ca_ok (vi_ca i) \<and>
     list_all sig_ok (vi_signatures i)"

lemma those_total: "(\<And>x. x \<in> set xs \<Longrightarrow> \<exists>y. f x = Some y \<and> P x y) \<Longrightarrow> \<exists>ys. those (map f xs) = Some ys \<and> list_all2 P xs ys"
proof (induction xs)
  case (Cons x xs)
  then obtain y ys where "f x = Some y" "P x y" "those (map f xs) = Some ys" "list_all2 P xs ys" by (metis list.set_intros)
  then show ?case by simp
qed simp

lemma option_total: "pred_option P r \<Longrightarrow> (\<And>x. P x \<Longrightarrow> \<exists>y. f x = Some y) \<Longrightarrow> \<exists>y. (case r of None \<Rightarrow> Some None | Some x \<Rightarrow> map_option Some (f x)) = Some y"
  by (cases r) auto

context signing
begin

lemma nar_hash_texts:
  assumes "nar_hash_ok h"
  shows "\<exists>t. base32_display cs nar_hash_common False h = Some (''sha256:'' @ t) \<and> base32_display cs nar_hash_common True h = Some t \<and> length t = 52"
proof -
  have f: "hash_format cs nar_hash_common nar_hash_ok" using data_encoding_axioms nar_hash.common_hash_axioms by (simp add: hash_format_def)
  have "length (nar_hash_bytes h) = 32" using assms by (simp add: nar_hash_ok_def sha256_ok_def nar_hash_bytes_def)
  then have "length (base_encode cs NixBase32 (bytes_of nar_hash_common h)) = 52"
    using base_encode_length [of NixBase32 "bytes_of nar_hash_common h"] by (simp add: nar_hash_common_def encode_len_def)
  then show ?thesis using hash_format.displays(2) [OF f assms] by (simp add: nar_hash_common_def algo_name_def del: base_encode.simps)
qed

lemma unsigned_narinfo_made:
  assumes "path_ok p" "described_ok i"
  shows "\<exists>n. unsigned_narinfo cs dir p hash i = Some n \<and> prefix (as_bytes ''sha256:'') (ni_nar_hash n) \<and> length (ni_nar_hash n) = 59 \<and> ni_nar_size n = vi_nar_size i"
proof -
  obtain t where t: "base32_display cs nar_hash_common False (vi_nar_hash i) = Some (''sha256:'' @ t)" "base32_display cs nar_hash_common True (vi_nar_hash i) = Some t" "length t = 52"
    using nar_hash_texts assms(2) by (auto simp: described_ok_def)
  obtain refs where r: "those (map (path_display cs) (vi_references i)) = Some refs"
    using those_total [of "vi_references i" "path_display cs" "\<lambda>_ _. True"] path_text(1) assms(2) by (auto simp: described_ok_def list_all_iff)
  obtain d where d: "(case vi_deriver i of None \<Rightarrow> Some None | Some d \<Rightarrow> map_option Some (path_display cs d)) = Some d"
    using option_total [of path_ok "vi_deriver i" "path_display cs"] path_text(1) assms(2) unfolding described_ok_def by blast
  obtain ca where c: "(case vi_ca i of None \<Rightarrow> Some None | Some ca \<Rightarrow> map_option Some (ca_display cs ca)) = Some ca"
    using option_total [of ca_ok "vi_ca i" "ca_display cs"] ca_from_display assms(2) unfolding described_ok_def by blast
  show ?thesis unfolding unsigned_narinfo_def t(1,2) r d c path_text(1) [OF assms(1)] Option.bind.simps using t(3) by simp
qed

lemma sign_all_verifies:
  assumes "list_all (sk_ok R) keys"
  shows "\<exists>sigs. sign_all cs R keys f = Some sigs \<and> list_all2 (\<lambda>sk t. \<exists>pk sg. sk_to_public_key R sk = Some pk \<and> sig_from_str cs (from_utf8_unchecked t) = Inr sg \<and>
    sg_key_name sg = sk_name sk \<and> pk_verify R pk f sg) keys sigs"
  unfolding sign_all_def
proof (rule those_total)
  fix sk assume "sk \<in> set keys"
  then obtain pk sg where k: "sk_to_public_key R sk = Some pk" "sk_sign R sk f = Some sg" "sig_ok sg" "sg_key_name sg = sk_name sk" "pk_verify R pk f sg"
    using sign_verifies [of sk f] assms by (auto simp: list_all_iff)
  moreover obtain t where "sig_display cs sg = Some t" "sig_from_str cs t = Inr sg" using sig_from_display [OF k(3)] by blast
  ultimately show "\<exists>t. Option.bind (sk_sign R sk f) (\<lambda>sig. map_option as_bytes (sig_display cs sig)) = Some t \<and> (\<exists>pk sg. sk_to_public_key R sk = Some pk \<and>
    sig_from_str cs (from_utf8_unchecked t) = Inr sg \<and> sg_key_name sg = sk_name sk \<and> pk_verify R pk f sg)" by simp
qed

lemma query_narinfo_made:
  assumes "steady C lookup_hash info" "info p = Some i" "path_ok p" "described_ok i" "utf8_valid dir" "list_all (sk_ok R) keys"
  shows "\<exists>s' n f sigs old. query_narinfo cs R C s dir p hash keys = Some (s', Inr (Some (n\<lparr>ni_sigs := if sigs = [] then map as_bytes old else sigs\<rparr>))) \<and>
    fingerprint_path cs (StoreDir (from_utf8_unchecked dir)) p (ni_nar_hash n) (ni_nar_size n) (vi_references i) = Some (Inr f) \<and> sign_all cs R keys f = Some sigs \<and>
    those (map (sig_display cs) (vi_signatures i)) = Some old \<and> ni_nar_size n = vi_nar_size i"
proof -
  obtain s1 s2 where s: "cache_acquire C s = (s1, Inr ())" "co_path_info C s1 p = (s2, Inr (Some i))"
    using steady_acquire [OF assms(1)] steady_info [OF assms(1)] assms(2) by metis
  obtain n where n: "unsigned_narinfo cs dir p hash i = Some n" "prefix (as_bytes ''sha256:'') (ni_nar_hash n)" "length (ni_nar_hash n) = 59" "ni_nar_size n = vi_nar_size i"
    using unsigned_narinfo_made [OF assms(3,4)] by blast
  obtain f where f: "fingerprint_path cs (StoreDir (from_utf8_unchecked dir)) p (ni_nar_hash n) (ni_nar_size n) (vi_references i) = Some (Inr f)"
    using fingerprint_eq [OF assms(3), of "vi_references i"] assms(4) n(2,3) by (simp add: described_ok_def)
  obtain sigs where g: "sign_all cs R keys f = Some sigs" using sign_all_verifies [OF assms(6)] by blast
  obtain old where o: "those (map (sig_display cs) (vi_signatures i)) = Some old"
    using those_total [of "vi_signatures i" "sig_display cs" "\<lambda>_ _. True"] sig_from_display assms(4) by (force simp: described_ok_def list_all_iff)
  have "from_utf8 dir = Inr (from_utf8_unchecked dir)" using assms(5) by (simp add: from_utf8_def)
  then have "query_narinfo cs R C s dir p hash keys = Some (s2, Inr (Some (n\<lparr>ni_sigs := if sigs = [] then map as_bytes old else sigs\<rparr>)))"
    by (simp add: query_narinfo_def s n(1) f g o)
  with f g o n(4) show ?thesis by blast
qed

end

lemma sample_facts:
  "steady sample_client (\<lambda>h. if h = sp_hash sample_path then Some sample_path else None) (\<lambda>p. if p = sample_path then Some sample_info else None)"
  "path_ok sample_path" "described_ok sample_info" "utf8_valid (as_bytes ''/nix/store'')" "sk_ok plain_ring sample_key"
proof -
  show "steady sample_client (\<lambda>h. if h = sp_hash sample_path then Some sample_path else None) (\<lambda>p. if p = sample_path then Some sample_info else None)"
    by (simp add: steady_def sample_client_def)
  show p: "path_ok sample_path" by (simp add: path_ok_def sample_path_def name_ok_def STORE_PATH_HASH_SIZE_def MAX_NAME_LEN_def NAME_LOOKUP_def in_range_def)
  show "described_ok sample_info" using p by (simp add: described_ok_def sample_info_def nar_hash_ok_def sha256_ok_def ca_ok_def)
  show "utf8_valid (as_bytes ''/nix/store'')" by (rule utf8_ascii) simp
  show "sk_ok plain_ring sample_key" by (simp add: sk_ok_def sample_key_def plain_ring_def key_name_ok_def cut_def)
qed

text \<open>
  C11. Descriptions are signed. For a path with well-formed information, under keys that were generated or parsed, a description is made. If the cache has keys, the description has one
  signature for each of them, in their order; each parses from its text, has the name of its key, and is verified by the public key of its key over the fingerprint of the
  description. A cache without keys passes on the signatures that the store has.
\<close>

theorem narinfo_signed:
  assumes "signing cs R" "steady C lookup_hash info" "info p = Some i" "path_ok p" "described_ok i" "utf8_valid dir" "list_all (sk_ok R) keys"
  shows "\<exists>s' n f. query_narinfo cs R C s dir p hash keys = Some (s', Inr (Some n)) \<and> ni_nar_size n = vi_nar_size i \<and>
    fingerprint_path cs (StoreDir (from_utf8_unchecked dir)) p (ni_nar_hash n) (vi_nar_size i) (vi_references i) = Some (Inr f) \<and>
    (if keys = [] then \<exists>old. those (map (sig_display cs) (vi_signatures i)) = Some old \<and> ni_sigs n = map as_bytes old
     else list_all2 (\<lambda>sk t. \<exists>pk sg. sk_to_public_key R sk = Some pk \<and> sig_from_str cs (from_utf8_unchecked t) = Inr sg \<and>
       sg_key_name sg = sk_name sk \<and> pk_verify R pk f sg) keys (ni_sigs n))"
proof -
  obtain s' n f sigs old where q: "query_narinfo cs R C s dir p hash keys = Some (s', Inr (Some (n\<lparr>ni_sigs := if sigs = [] then map as_bytes old else sigs\<rparr>)))"
    "fingerprint_path cs (StoreDir (from_utf8_unchecked dir)) p (ni_nar_hash n) (ni_nar_size n) (vi_references i) = Some (Inr f)" "sign_all cs R keys f = Some sigs"
    "those (map (sig_display cs) (vi_signatures i)) = Some old" "ni_nar_size n = vi_nar_size i"
    using signing.query_narinfo_made [OF assms] by metis
  have v: "list_all2 (\<lambda>sk t. \<exists>pk sg. sk_to_public_key R sk = Some pk \<and> sig_from_str cs (from_utf8_unchecked t) = Inr sg \<and>
    sg_key_name sg = sk_name sk \<and> pk_verify R pk f sg) keys sigs" using signing.sign_all_verifies [OF assms(1,7), of f] q(3) by simp
  then have "sigs = [] \<longleftrightarrow> keys = []" by auto
  with q v show ?thesis by (intro exI [of _ s'] exI [of _ "n\<lparr>ni_sigs := if sigs = [] then map as_bytes old else sigs\<rparr>"] exI [of _ f]) simp
qed

theorem narinfo_signed_witness:
  "\<exists>s' n f pk t sg. query_narinfo bit_codecs plain_ring sample_client () (as_bytes ''/nix/store'') sample_path ''x'' [sample_key] = Some (s', Inr (Some n)) \<and>
    fingerprint_path bit_codecs default_dir sample_path (ni_nar_hash n) 120 [sample_path] = Some (Inr f) \<and> ni_sigs n = [t] \<and>
    sk_to_public_key plain_ring sample_key = Some pk \<and> sig_from_str bit_codecs (from_utf8_unchecked t) = Inr sg \<and> sg_key_name sg = ''cache-1'' \<and> pk_verify plain_ring pk f sg"
proof -
  have i: "(\<lambda>p. if p = sample_path then Some sample_info else None) sample_path = Some sample_info" and k: "list_all (sk_ok plain_ring) [sample_key]"
    using sample_facts(5) by simp_all
  from narinfo_signed [OF plain_signing.signing_axioms sample_facts(1) i sample_facts(2-4) k, of "()" "''x''"]
  show ?thesis by (auto simp: list_all2_Cons1 sample_info_def sample_key_def default_dir_def)
qed

theorem narinfo_url_served_witness:
  "let hash = base_encode bit_codecs NixBase32 (replicate 20 7) in \<exists>s' r shown more bare path z' q.
    narinfo_get bit_codecs plain_ring id (\<lambda>b. []) sample_client sample_config () hash False = Some (s', Inr r) \<and> path_display bit_codecs sample_path = Some shown \<and>
    rp_body r = BytesBody (push_line ''StorePath: '' (cc_virtual_store sample_config @ as_bytes (''/'' @ shown)) @ more) \<and>
    get_real_path bit_codecs sample_config sample_path = Some path \<and> length bare = 52 \<and>
    nar_get bit_codecs id (\<lambda>b. []) (\<lambda>_ _. Inl ()) sample_client sample_config () bare None (Some hash) None = Some (z', Inr q) \<and> rp_status q = 200 \<and> rp_body q = NarBody 120 path"
proof -
  let ?h = "base_encode bit_codecs NixBase32 (replicate 20 7)" and ?info = "\<lambda>p. if p = sample_path then Some sample_info else None"
  let ?find = "\<lambda>h. if h = sp_hash sample_path then Some sample_path else None"
  have d: "decode_digest bit_codecs ?h = Some (Inr (sp_hash sample_path))"
    using bits.decode_digest_display [of "sp_hash sample_path"] by (simp add: sample_path_def STORE_PATH_HASH_SIZE_def del: base_encode.simps)
  have keys: "list_all (sk_ok plain_ring) [sample_key]" "?info sample_path = Some sample_info" using sample_facts(5) by simp_all
  obtain s1 where s1: "nixhash bit_codecs id (\<lambda>b. []) sample_client () (as_bytes ?h) = Some (s1, Inr (Some sample_path))"
    using nixhash_found [OF sample_facts(1) d, of id "\<lambda>b. []" "()"] by auto
  obtain s2 n where "query_narinfo bit_codecs plain_ring sample_client s1 (as_bytes ''/nix/store'') sample_path ?h [sample_key] = Some (s2, Inr (Some n))"
    using plain_signing.query_narinfo_made [OF sample_facts(1) keys(2) sample_facts(2-4) keys(1), of s1 ?h] by blast
  with s1 obtain r where r: "narinfo_get bit_codecs plain_ring id (\<lambda>b. []) sample_client sample_config () ?h False = Some (s2, Inr r)" "rp_status r = 200"
    by (simp add: narinfo_get_def sample_config_def del: base_encode.simps)
  obtain h p i shown bare path more where w: "?find h = Some p" "?info p = Some i" "path_display bit_codecs p = Some shown" "length bare = 52"
    "rp_body r = BytesBody (push_line ''StorePath: '' (cc_virtual_store sample_config @ as_bytes (''/'' @ shown)) @
       push_line ''URL: '' (as_bytes (''nar/'' @ bare @ ''.nar?hash='' @ ?h)) @ more)" "get_real_path bit_codecs sample_config p = Some path"
    "\<exists>z' q. nar_get bit_codecs id (\<lambda>b. []) (\<lambda>_ _. Inl ()) sample_client sample_config () bare None (Some ?h) None = Some (z', Inr q) \<and> rp_status q = 200 \<and>
      rp_body q = NarBody (vi_nar_size i) path"
    using narinfo_url_served [OF sample_facts(1) r, of "\<lambda>_ _. Inl ()"] by blast
  have e: "p = sample_path" "i = sample_info" using w(2) by (simp_all split: if_split_asm)
  have "vi_nar_size sample_info = 120" by (simp add: sample_info_def)
  with w(3-7) r(1) show ?thesis unfolding Let_def e by metis
qed

text \<open>
  A hash that does not parse: no query reaches the store, and the request fails, for an archive with status 404, for a description with status 500 (the error is wrapped into one
  that has another status).
\<close>

theorem invalid_hash_status:
  assumes "decode_digest cs hash = Some (Inl x)"
  shows "(\<exists>e. narinfo_get cs R debug lossy C config s hash json = Some (s, Inl e) \<and> status_code e = 500) \<and>
    (\<exists>e. nar_get cs debug lossy parse_range C config s narhash path_outhash (Some hash) range_header = Some (s, Inl e) \<and> status_code e = 404)"
  using assms by (simp add: narinfo_get_def nar_get_def status_code_def nixhash_invalid [OF assms])

theorem invalid_hash_status_witness:
  "\<exists>x e. decode_digest bit_codecs ''xyz'' = Some (Inl x) \<and>
    narinfo_get bit_codecs plain_ring id (\<lambda>b. []) sample_client sample_config () ''xyz'' False = Some ((), Inl e) \<and> status_code e = 500"
proof -
  have x: "decode_digest bit_codecs ''xyz'' = Some (Inl HashLength)" by (simp add: decode_digest_def encode_len_20)
  from invalid_hash_status [OF x, of plain_ring id "\<lambda>b. []" sample_client sample_config "()" False] show ?thesis using x by blast
qed

end
