(* ===== verification/Spec2Isabelle.thy ===== *)
theory Spec2Isabelle
  imports Io_Properties Io_Adapters Padded_Read Nar_Properties Content_Address Signatures Derivations Framed_Properties Protocol_Properties Message_Properties Daemon_Properties Connection_Pool Nar_Tree Binary_Cache
begin

text \<open>
  \<^bold>\<open>Harmonia\<close>

  Harmonia is a Nix binary cache, a store daemon and the libraries they stand on. The libraries are layered:
  \<open>harmonia-utils-io\<close> has buffered asynchronous readers; \<open>harmonia-nar\<close> reads and writes the archive format NAR through
  them; \<open>harmonia-utils-base-encoding\<close>, \<open>harmonia-utils-hash\<close> and \<open>harmonia-store-core\<close> have the encodings,
  hashes, store paths and content addresses; \<open>harmonia-protocol\<close> puts values and payloads on the
  wire to the daemon; the cache, the daemon and the clients are built on all of these. The development
  models the libraries, from the buffer at the bottom to the values of the daemon protocol, and both ends of a connection to the daemon.

  \<^bold>\<open>Conventions.\<close> \<open>&[u8]\<close> is a list of bytes (8-bit words), \<open>str\<close> the bytes of its UTF-8 encoding as a \<open>string\<close>, \<open>u64\<close>
  a 64-bit word, \<open>usize\<close> a \<open>nat\<close> (the program is compiled for 64 bits), \<open>Result\<close> a sum with the error on the
  left. A call that panics, or that does not return, has the value \<open>None\<close>; an addition or subtraction of unsigned
  integers that leaves its type panics, as in a debug build, where the code does not say otherwise. A poll
  takes the state and returns the new state with \<open>Pending\<close>, an error or a result; an \<open>async fn\<close> is its
  polls repeated until they are ready (\<open>await\<close>). The texts of the errors of std are abbreviated.
  Crates that are not part of the repository are parameters with the documented behaviour as the laws of a
  locale: \<open>data_encoding\<close> (\<open>Codecs\<close>), \<open>md5\<close> and \<open>ring\<close> (\<open>Crates\<close>), the allocation of \<open>bytes::BytesMut\<close> (\<open>Alloc\<close>), and
  tokio's traits \<open>AsyncRead\<close>, \<open>AsyncBufRead\<close> and \<open>AsyncWrite\<close>. A sink is taken to accept at least one byte of a non-empty buffer, to wait or to fail; what a
  sink that answers \<open>Ok(0)\<close> does to \<open>NarWriter\<close> is shown with it.

  \<^bold>\<open>The theories.\<close>

  \<^item> \<open>Prelude\<close>: machine types, results, polls, text and bytes, little-endian and decimal numbers.
  \<^item> \<open>Wire\<close> (\<open>harmonia-utils-io/src/lib.rs\<close>): alignment, padding and length-prefixed strings.
  \<^item> \<open>Async_Io\<close> (\<open>async_bytes_read.rs\<close>, \<open>read_u64.rs\<close>, \<open>try_read_bytes_limited.rs\<close>): the contracts of sources and
    sinks as locales (\<open>async_read\<close>, \<open>fill_source\<close>, \<open>buf_source\<close>, \<open>bytes_read\<close>, \<open>async_write\<close>), interpreted on a cursor over
    bytes and on a source that plays a script of data, errors and pending polls; the futures \<open>TryReadU64\<close> and
    \<open>TryReadBytesLimited\<close>.
  \<^item> \<open>Buffer_Mut\<close> (\<open>buffer_mut.rs\<close>): the shared buffer written with raw pointers, as an allocation with offsets; its handles as a
    step relation with an invariant. \<open>Bytes_Reader\<close> (\<open>bytes_reader/reader.rs\<close>): the reader on top of it.
    \<open>Io_Adapters\<close> (\<open>compat.rs\<close>, \<open>tee.rs\<close>): the adapter to \<open>AsyncBufRead\<close>, and the writer to two sinks, with its failure on long writes.
  \<^item> \<open>Radix_Tree\<close>, \<open>Nar_Reader\<close>, \<open>Nar_Format\<close>, \<open>Nar_Stream\<close> (\<open>archive/radix_tree.rs\<close>, \<open>archive/read_nar.rs\<close>): the token
    selector, the resumable recogniser of archives, the archive format as an abstract syntax, and the
    reader that stops at the end of an archive.
  \<^item> \<open>Padded_Reader\<close>, \<open>Nar_Parser\<close> (\<open>padded_reader.rs\<close>, \<open>archive/parser.rs\<close>, \<open>lending.rs\<close>): archives as streams of events, the
    parser lending its reader to the client of a file; \<open>Padded_Read\<close>: the \<open>AsyncRead\<close> of the padded reader, which the parser does
    not use, and that it needs a buffer for the whole file. \<open>Nar_Writer\<close> (\<open>archive/writer.rs\<close>): events written as an archive.
    \<open>Nar_Liveness\<close>: sources with a bound on their pending polls, and that whole runs end.
  \<^item> \<open>File_System\<close>: paths, and the contract of a file system (\<open>file_system\<close>) with one in memory that keeps it, mapped files (\<open>archive/mmap.rs\<close>) over \<open>mmap\<close> as one of its operations, and the blocking tasks of tokio. \<open>Nar_Restorer\<close> (\<open>archive/restorer.rs\<close>): the
    sink that makes the files, links and directories of an archive below a path. \<open>Nar_Dumper\<close> (\<open>archive/dumper.rs\<close>): the stream that makes events of a directory, and the readers of
    its files, over a walk with the order that the crate \<open>walkdir\<close> documents (\<open>walk_dir\<close>). \<open>Nar_Tree\<close>: a walk in memory, and both together.
  \<^item> \<open>Base_Encoding\<close>, \<open>Base_Codecs\<close> (\<open>harmonia-utils-base-encoding\<close>): base32 of Nix, base16 and base64, and a concrete
    instance of the crate's contract. \<open>Hash\<close>, \<open>Hash_Fmt\<close> (\<open>harmonia-utils-hash\<close>): hashes, contexts, and the parsers and
    printers of their texts.
  \<^item> \<open>Store_Path\<close>, \<open>Content_Address\<close> (\<open>harmonia-store-core/src/store_path\<close>): store paths, names, content addresses,
    and the path made from a content address.
  \<^item> \<open>Btree\<close>, \<open>Utf8\<close>: ordered sets and maps as sorted lists, and valid UTF-8. \<open>Derived_Path\<close>, \<open>Derivation_Inputs\<close>, \<open>Derivations\<close>
    (\<open>derived_path\<close>, \<open>derivation\<close>, \<open>placeholder.rs\<close>): derived paths with their texts, the trie of inputs, derivations with their
    JSON form, placeholders. \<open>Signatures\<close> (\<open>signature.rs\<close>, \<open>realisation.rs\<close>): keys, signatures, fingerprints, realisations.
  \<^item> \<open>Framed_Reader\<close>, \<open>Write_Buf\<close>, \<open>Framed_Writer\<close> (\<open>daemon_wire/framed\<close>): payloads cut into frames, over a decoder of
    whole streams as the specification.
  \<^item> \<open>Version\<close> (\<open>version.rs\<close>): versions and ranges. \<open>Nix_Ser\<close>, \<open>Nix_Writer\<close> (\<open>ser/\<close>), \<open>Nix_De\<close>, \<open>Nix_Reader\<close> (\<open>de/\<close>): the traits
    of writers and readers of protocol values, their implementations, and the numbers, strings and collections.
    \<open>Nix_Derive\<close> (\<open>harmonia-protocol-derive\<close>): the code the derive macros generate, as combinators, and the contract \<open>wire_env\<close> that they keep.
  \<^item> \<open>Store_Wire\<close> (\<open>store_impls.rs\<close>, \<open>nar_hash.rs\<close>), \<open>Log_Wire\<close> (\<open>log.rs\<close>, the messages of \<open>daemon_wire/logger.rs\<close>), \<open>Messages\<close>, \<open>Message_Wire\<close>
    (\<open>types.rs\<close>, \<open>daemon_wire/types.rs\<close>, \<open>daemon_wire/types2.rs\<close>, \<open>build_result.rs\<close>, \<open>valid_path_info.rs\<close>): the types of the store, the log, requests
    and results on the wire, each with the limits within which it is carried.
  \<^item> \<open>Daemon_Error\<close> (\<open>types.rs\<close>, \<open>daemon_wire/logger.rs\<close>): the errors of both ends and the log before a result (\<open>ResultLog\<close>, a codatatype, since a
    log may go on for ever). \<open>Process_Stderr\<close> (\<open>ProcessStderr\<close> in \<open>logger.rs\<close>): how a client follows a call. \<open>Daemon_Client\<close> (\<open>harmonia-store-remote/src/client.rs\<close>)
    and \<open>Daemon_Server\<close> (\<open>harmonia-daemon/src/server/mod.rs\<close>, the trait \<open>DaemonStore\<close>): the two ends. \<open>Daemon_Exchange\<close> puts them together over
    channels that do not fail (\<open>daemon_channel\<close>), \<open>Daemon_Handshake\<close> and \<open>Daemon_Properties\<close> say what they promise each other.
    \<open>Connection_Pool\<close> (\<open>pool.rs\<close>, \<open>metrics.rs\<close>): the connections that the clients of a process share, with the tasks as a step relation.
  \<^item> \<open>Binary_Cache\<close> (\<open>harmonia-cache/src\<close>): the errors, the descriptions of store paths with their signatures, and the downloads of archives with ranges, over the
    client of the daemon as operations.
  \<^item> \<open>Io_Properties\<close>, \<open>Nar_Properties\<close>, \<open>Framed_Properties\<close>, \<open>Protocol_Properties\<close>, \<open>Message_Properties\<close>: the properties of these groups; those of
    adapters, hashes, store paths, derivations, signatures and versions are at the end of their theories.

  \<^bold>\<open>How the parts meet.\<close> Every reader and writer is proved against a contract, never against a particular source: \<open>BytesReader\<close>
  turns an \<open>async_read\<close> into a \<open>bytes_read\<close>; \<open>NarReader\<close>, \<open>PaddedReader\<close> and \<open>FramedReader\<close> turn a source of a
  longer stream into a source of the archive, the contents or the payload alone, and say where they leave the
  one below; \<open>NarParser\<close> is simulated step by step by an abstract stream of events; \<open>NarWriter\<close> refines an encoder of
  events; \<open>FramedWriter\<close> and \<open>NixWriter\<close> keep an invariant between the bytes accepted and the bytes written.
  The protocol's values rest on the locales \<open>nix_write\<close> and \<open>nix_read\<close>, which the two implementations inhabit, and the
  decoders of collections on those of their elements. \<open>wire_env\<close> joins a writer and a reader that agree on version and store
  directory, \<open>store_env\<close> adds what the types of the store need, and every message is shown to be carried from its parts;
  \<open>nix_connection\<close> and \<open>store_connection\<close> are sublocales of them for \<open>NixWriter\<close> and \<open>NixReader\<close>. A call of the client and a round of the
  daemon meet in an \<open>exchange\<close>: the one reads the bytes the other has written, and nothing more.

  \<^bold>\<open>What is shown.\<close> Round trips through archive, frames, requests, results and log messages, hashes, store paths, content addresses, derived paths, derivations,
  signatures and keys; that
  decoders are exact (they accept what was encoded, return nothing else, and leave the stream right behind it) on every
  branch, errors included; that the recogniser does not depend on how the input is cut; that no parser of text
  panics; the safety of the shared buffer; bounds of lengths, paddings and positions at their machine width; and
  that whole runs end; that nineteen calls of the client get the answer of the store, with its log or what the version keeps of its error, which calls do not,
  and that the daemon survives every error of the store but one; that
  restoring an archive with plain names makes exactly its tree, that dumping the tree gives the archive again, and that other names leave the given path; that a pool never has more connections than its capacity, whatever
  its tasks do, and how cancelled tasks use the capacity up; that a description of the cache is signed and leads to the archive, and that the stream of a range is exact. Loops over a source are \<open>partial_function (option)\<close>, so that their results are
  proved to exist; the bound is the number of pending polls a source or sink has left (\<open>delay\<close>), and no
  fuel is used.

  \<^bold>\<open>Not modelled.\<close> Of the protocol: the concurrent driver of uploads (\<open>DriveResult\<close> in \<open>logger.rs\<close>), \<open>stderr_read.rs\<close>, and the JSON form of
  build results and path information; of the archives: \<open>byte_stream.rs\<close>, and of the readers of a dumped file the \<open>BufReader\<close> of tokio around them. Of the cache, the
  listings, build logs and served files, the configuration, the metrics and the start of the server; the database and the clients are
  glue between SQLite, the command line and these libraries; of \<open>harmonia-protocol-derive\<close> only the
  generated code is modelled, not how it is generated. Tests, benches and mocks are left out.
\<close>

end
